(* ===== verification/Prelude.thy ===== *)
theory Prelude
  imports Main "HOL-Library.Word"
begin

text \<open>
  Shared material of the xv6 development.  The theory fixes the names of the C
  integer types of \<^verbatim>\<open>src/types.h\<close>, the result type of kernel code and its sequencing
  combinators, total-correctness triples over that type, the little-endian byte
  encodings the C casts rely on, and the operations on byte buffers.

  Kernel code is a function from a state to an \<open>outcome\<close>.  Besides returning
  (\<open>Ok\<close>) it can call \<^verbatim>\<open>panic\<close> (\<open>Panic\<close>), give up the CPU in \<^verbatim>\<open>sleep\<close> or in
  \<^verbatim>\<open>sched\<close> (\<open>Switch\<close>: the state at the context switch), spin on a lock that
  another CPU holds (\<open>Spin\<close>), access memory outside the object it is entitled to
  (\<open>Fault\<close>, the undefined behaviour of C) or loop without end (\<open>Diverge\<close>).
\<close>

unbundle bit_operations_syntax

section \<open>The integer types of types.h\<close>

type_synonym uchar = "8 word"
type_synonym ushort = "16 word"
type_synonym uint32 = "32 word"

lemma unat_add_lt: "unat x + unat y < 2 ^ 32 \<Longrightarrow> unat (x + y :: uint32) = unat x + unat y"
  by (simp add: unat_plus_if_size word_size)

lemma unat_of_nat_lt: "n < 2 ^ 32 \<Longrightarrow> unat (of_nat n :: uint32) = n"
  by (simp add: unat_of_nat take_bit_nat_eq_self_iff)

lemma unat_add_of_nat: "unat x + n < 2 ^ 32 \<Longrightarrow> unat (x + of_nat n :: uint32) = unat x + n"
  using unat_add_lt [of x "of_nat n"] unat_of_nat_lt [of n] by simp

section \<open>Outcomes of kernel code\<close>

datatype chan =
    ChBuf nat          \<comment> \<open>address of a buffer of the cache\<close>
  | ChLog              \<comment> \<open>address of the log\<close>
  | ChInode nat        \<comment> \<open>address of an inode of the inode cache\<close>
  | ChProc nat         \<comment> \<open>address of a process structure\<close>
  | ChPipeRead uint32    \<comment> \<open>address of the nread field of a pipe\<close>
  | ChPipeWrite uint32   \<comment> \<open>address of the nwrite field of a pipe\<close>
  | ChTicks            \<comment> \<open>address of the tick counter\<close>
  | ChInput            \<comment> \<open>address of the read index of the console buffer\<close>

datatype lockid =
    LkPtable | LkKmem | LkBcache | LkIde | LkLog | LkIcache | LkFtable
  | LkTicks | LkInput | LkCons | LkPipe uint32

datatype ('a, 's) outcome =
    Ok 'a 's
  | Panic string
  | Switch "chan option" 's
  | Spin lockid 's
  | Fault string
  | Diverge

type_synonym ('a, 's) kern = "'s \<Rightarrow> ('a, 's) outcome"

abbreviation (input) ret :: "'a \<Rightarrow> ('a, 's) kern" where
  "ret \<equiv> Ok"

definition bnd :: "('a, 's) kern \<Rightarrow> ('a \<Rightarrow> ('b, 's) kern) \<Rightarrow> ('b, 's) kern" where
  "bnd m f s = (case m s of
       Ok x s' \<Rightarrow> f x s'
     | Panic e \<Rightarrow> Panic e
     | Switch c s' \<Rightarrow> Switch c s'
     | Spin l s' \<Rightarrow> Spin l s'
     | Fault e \<Rightarrow> Fault e
     | Diverge \<Rightarrow> Diverge)"

definition thn :: "('a, 's) kern \<Rightarrow> ('b, 's) kern \<Rightarrow> ('b, 's) kern" where
  "thn m k = bnd m (\<lambda>_. k)"

definition rd :: "('s \<Rightarrow> 'a) \<Rightarrow> ('a, 's) kern" where
  "rd f s = Ok (f s) s"

definition md :: "('s \<Rightarrow> 's) \<Rightarrow> (unit, 's) kern" where
  "md f s = Ok () (f s)"

definition panic :: "string \<Rightarrow> ('a, 's) kern" where
  "panic e s = Panic e"

definition fault :: "string \<Rightarrow> ('a, 's) kern" where
  "fault e s = Fault e"

definition whenk :: "bool \<Rightarrow> (unit, 's) kern \<Rightarrow> (unit, 's) kern" where
  "whenk b m = (if b then m else ret ())"

text \<open>A counting loop \<^verbatim>\<open>for (i = lo; i < hi; i++) body(i)\<close> without early exit.\<close>

fun for_each :: "'i list \<Rightarrow> ('i \<Rightarrow> (unit, 's) kern) \<Rightarrow> (unit, 's) kern" where
  "for_each [] body = ret ()"
| "for_each (i # is) body = thn (body i) (for_each is body)"

text \<open>The same loop when the body can \<^verbatim>\<open>return\<close> a value, and when each iteration produces one.\<close>

fun for_find :: "'i list \<Rightarrow> ('i \<Rightarrow> ('a option, 's) kern) \<Rightarrow> ('a option, 's) kern" where
  "for_find [] body = ret None"
| "for_find (i # is) body = bnd (body i) (\<lambda>r. case r of Some x \<Rightarrow> ret (Some x) | None \<Rightarrow> for_find is body)"

fun mapk :: "'i list \<Rightarrow> ('i \<Rightarrow> ('a, 's) kern) \<Rightarrow> ('a list, 's) kern" where
  "mapk [] body = ret []"
| "mapk (i # is) body = bnd (body i) (\<lambda>x. bnd (mapk is body) (\<lambda>xs. ret (x # xs)))"

definition is_ok :: "('a, 's) outcome \<Rightarrow> bool" where
  "is_ok r = (case r of Ok _ _ \<Rightarrow> True | _ \<Rightarrow> False)"

named_theorems kern_simps "evaluation of kernel code on a state"

lemma rd_eq [kern_simps, simp]: "rd f s = Ok (f s) s"
  by (simp add: rd_def)

lemma md_eq [kern_simps, simp]: "md f s = Ok () (f s)"
  by (simp add: md_def)

lemma panic_eq [kern_simps, simp]: "panic e s = Panic e"
  by (simp add: panic_def)

lemma fault_eq [kern_simps, simp]: "fault e s = Fault e"
  by (simp add: fault_def)

declare bnd_def [kern_simps] thn_def [kern_simps]

lemma bnd_ret [simp]: "bnd (ret x) f = f x"
  by (rule ext) (simp add: bnd_def)

lemma bnd_rd [simp]: "bnd (rd g) f s = f (g s) s"
  by (simp add: bnd_def)

lemma bnd_md [simp]: "bnd (md g) f s = f () (g s)"
  by (simp add: bnd_def)

lemma bnd_ret_right [simp]: "bnd m ret = m"
proof
  show "bnd m ret s = m s" for s
    by (cases "m s") (simp_all add: bnd_def)
qed

lemma thn_ret_right [simp]: "thn m (ret ()) = m"
proof -
  have "(\<lambda>_. ret ()) = (ret :: unit \<Rightarrow> _)"
    by (rule ext) simp
  then show ?thesis
    by (simp add: thn_def)
qed

lemma thn_ret [simp]: "thn (ret x) k = k"
  by (simp add: thn_def)

lemma thn_md [simp]: "thn (md g) k s = k (g s)"
  by (simp add: thn_def)

lemma bnd_Ok: "m s = Ok x s' \<Longrightarrow> bnd m f s = f x s'"
  by (simp add: bnd_def)

lemma thn_Ok: "m s = Ok x s' \<Longrightarrow> thn m k s = k s'"
  by (simp add: thn_def bnd_def)

lemma bnd_eq_Ok: "bnd m f s = Ok y t \<longleftrightarrow> (\<exists>x s'. m s = Ok x s' \<and> f x s' = Ok y t)"
  by (cases "m s") (auto simp: bnd_def)

lemma thn_eq_Ok: "thn m k s = Ok y t \<longleftrightarrow> (\<exists>x s'. m s = Ok x s' \<and> k s' = Ok y t)"
  by (simp add: thn_def bnd_eq_Ok)

lemma bnd_assoc: "bnd (bnd m f) g = bnd m (\<lambda>x. bnd (f x) g)"
proof
  fix s show "bnd (bnd m f) g s = bnd m (\<lambda>x. bnd (f x) g) s"
    by (cases "m s") (simp_all add: bnd_def)
qed

lemma bnd_cong [fundef_cong]:
  assumes "m s = m' s'"
    and "\<And>x t. m' s' = Ok x t \<Longrightarrow> f x t = f' x t"
    and "s = s'"
  shows "bnd m f s = bnd m' f' s'"
  using assms by (cases "m' s'") (simp_all add: bnd_def)

lemma whenk_True [simp]: "whenk True m = m" and whenk_False [simp]: "whenk False m = ret ()"
  by (simp_all add: whenk_def)

lemma for_each_append: "for_each (xs @ ys) body = thn (for_each xs body) (for_each ys body)"
proof (induction xs)
  case Nil
  show ?case by simp
next
  case (Cons x xs)
  then show ?case by (simp add: thn_def bnd_assoc)
qed

section \<open>Total-correctness triples\<close>

text \<open>
  \<open>hoare P m Q\<close>: from every state satisfying \<open>P\<close> the code returns, and value and
  state satisfy \<open>Q\<close>.  A panic, a fault, a context switch or a divergence falsifies
  the triple.  \<open>keeps I m\<close> is the weaker statement used for invariants: every
  return of \<open>m\<close> from a state of \<open>I\<close> is in a state of \<open>I\<close>.
\<close>

definition hoare :: "('s \<Rightarrow> bool) \<Rightarrow> ('a, 's) kern \<Rightarrow> ('a \<Rightarrow> 's \<Rightarrow> bool) \<Rightarrow> bool" where
  "hoare P m Q = (\<forall>s. P s \<longrightarrow> (\<exists>x t. m s = Ok x t \<and> Q x t))"

definition keeps :: "('s \<Rightarrow> bool) \<Rightarrow> ('a, 's) kern \<Rightarrow> bool" where
  "keeps I m = (\<forall>s x t. I s \<longrightarrow> m s = Ok x t \<longrightarrow> I t)"

lemma hoareI: "(\<And>s. P s \<Longrightarrow> \<exists>x t. m s = Ok x t \<and> Q x t) \<Longrightarrow> hoare P m Q"
  by (simp add: hoare_def)

lemma hoareE:
  assumes "hoare P m Q" and "P s"
  obtains x t where "m s = Ok x t" and "Q x t"
  using assms by (auto simp: hoare_def)

lemma hoare_ret: "hoare (Q x) (ret x) Q"
  by (simp add: hoare_def)

lemma hoare_rd: "hoare (\<lambda>s. Q (f s) s) (rd f) Q"
  by (simp add: hoare_def)

lemma hoare_md: "hoare (\<lambda>s. Q () (f s)) (md f) Q"
  by (simp add: hoare_def)

lemma hoare_bnd:
  assumes "hoare P m R" and "\<And>x. hoare (R x) (f x) Q"
  shows "hoare P (bnd m f) Q"
proof (rule hoareI)
  fix s assume "P s"
  with assms(1) obtain x t where m: "m s = Ok x t" and "R x t" by (rule hoareE)
  from assms(2) \<open>R x t\<close> obtain y u where "f x t = Ok y u" "Q y u" by (rule hoareE)
  with m show "\<exists>x t. bnd m f s = Ok x t \<and> Q x t" by (simp add: bnd_Ok)
qed

lemma hoare_thn:
  assumes "hoare P m (\<lambda>_. R)" and "hoare R k Q"
  shows "hoare P (thn m k) Q"
  unfolding thn_def using assms by (rule hoare_bnd)

lemma hoare_conseq:
  assumes "hoare P m Q" and "\<And>s. P' s \<Longrightarrow> P s" and "\<And>x t. Q x t \<Longrightarrow> Q' x t"
  shows "hoare P' m Q'"
  using assms unfolding hoare_def by blast

lemma keepsD: "keeps I m \<Longrightarrow> I s \<Longrightarrow> m s = Ok x t \<Longrightarrow> I t"
  by (simp add: keeps_def)

lemma keeps_ret [intro]: "keeps I (ret x)"
  by (simp add: keeps_def)

lemma keeps_rd [intro]: "keeps I (rd f)"
  by (simp add: keeps_def)

lemma keeps_panic [intro]: "keeps I (panic e)"
  by (simp add: keeps_def)

lemma keeps_fault [intro]: "keeps I (fault e)"
  by (simp add: keeps_def)

lemma keeps_md: "(\<And>s. I s \<Longrightarrow> I (f s)) \<Longrightarrow> keeps I (md f)"
  by (simp add: keeps_def)

lemma keeps_bnd: "keeps I m \<Longrightarrow> (\<And>x. keeps I (f x)) \<Longrightarrow> keeps I (bnd m f)"
  unfolding keeps_def bnd_eq_Ok by blast

lemma keeps_thn: "keeps I m \<Longrightarrow> keeps I k \<Longrightarrow> keeps I (thn m k)"
  by (auto simp: thn_def intro: keeps_bnd)

lemma keeps_if: "keeps I m \<Longrightarrow> keeps I k \<Longrightarrow> keeps I (if b then m else k)"
  by simp

lemma keeps_for_each: "(\<And>i. keeps I (body i)) \<Longrightarrow> keeps I (for_each is body)"
  by (induction "is") (auto intro: keeps_thn)

section \<open>Little-endian encodings\<close>

definition le16 :: "ushort \<Rightarrow> uchar list" where
  "le16 x = [ucast x, ucast (drop_bit 8 x)]"

definition le32 :: "uint32 \<Rightarrow> uchar list" where
  "le32 x = [ucast x, ucast (drop_bit 8 x), ucast (drop_bit 16 x), ucast (drop_bit 24 x)]"

definition of_le16 :: "uchar list \<Rightarrow> ushort" where
  "of_le16 bs = ucast (bs ! 0) OR push_bit 8 (ucast (bs ! 1))"

definition of_le32 :: "uchar list \<Rightarrow> uint32" where
  "of_le32 bs = ucast (bs ! 0) OR push_bit 8 (ucast (bs ! 1))
     OR push_bit 16 (ucast (bs ! 2)) OR push_bit 24 (ucast (bs ! 3))"

lemma length_le16 [simp]: "length (le16 x) = 2"
  by (simp add: le16_def)

lemma length_le32 [simp]: "length (le32 x) = 4"
  by (simp add: le32_def)

lemma of_le16_le16 [simp]: "of_le16 (le16 x) = x"
  by (rule bit_word_eqI) (auto simp: of_le16_def le16_def bit_simps not_less)

lemma of_le32_le32 [simp]: "of_le32 (le32 x) = x"
proof (rule bit_word_eqI)
  fix n assume n: "n < LENGTH(32)"
  have byte: "n < 8 \<or> 8 \<le> n \<and> n - 8 < 32 \<and> n - 8 < 8 \<or>
    16 \<le> n \<and> n - 16 < 32 \<and> n - 16 < 8 \<or> 24 \<le> n \<and> n - 24 < 32 \<and> n - 24 < 8"
    using n by simp arith
  show "bit (of_le32 (le32 x)) n = bit x n"
    using n byte by (cases "bit x n")
      (simp_all add: of_le32_def le32_def bit_simps cong: conj_cong)
qed

section \<open>Byte buffers\<close>

text \<open>
  \<open>splice off bs xs\<close> is the buffer \<open>xs\<close> after \<^verbatim>\<open>memmove(xs + off, bs, n)\<close> of the
  whole of \<open>bs\<close>; \<open>slice off n xs\<close> the \<open>n\<close> bytes at offset \<open>off\<close>.
\<close>

definition splice :: "nat \<Rightarrow> 'a list \<Rightarrow> 'a list \<Rightarrow> 'a list" where
  "splice off bs xs = take off xs @ bs @ drop (off + length bs) xs"

definition slice :: "nat \<Rightarrow> nat \<Rightarrow> 'a list \<Rightarrow> 'a list" where
  "slice off n xs = take n (drop off xs)"

lemma length_splice [simp]:
  "off + length bs \<le> length xs \<Longrightarrow> length (splice off bs xs) = length xs"
  by (simp add: splice_def)

lemma length_slice [simp]: "off + n \<le> length xs \<Longrightarrow> length (slice off n xs) = n"
  by (simp add: slice_def)

lemma slice_splice_same [simp]:
  "off + length bs \<le> length xs \<Longrightarrow> n = length bs \<Longrightarrow> slice off n (splice off bs xs) = bs"
  by (simp add: slice_def splice_def)

lemma nth_splice:
  assumes "off + length bs \<le> length xs" and "i < length xs"
  shows "splice off bs xs ! i =
    (if off \<le> i \<and> i < off + length bs then bs ! (i - off) else xs ! i)"
  using assms by (auto simp: splice_def nth_append min_def)

lemma nth_slice: "i < n \<Longrightarrow> off + n \<le> length xs \<Longrightarrow> slice off n xs ! i = xs ! (off + i)"
  by (simp add: slice_def)

lemma slice_splice_disjoint:
  assumes "off + length bs \<le> length xs" and "o' + n \<le> length xs"
    and "o' + n \<le> off \<or> off + length bs \<le> o'"
  shows "slice o' n (splice off bs xs) = slice o' n xs"
  using assms by (intro nth_equalityI) (auto simp: nth_slice nth_splice)

lemma splice_slice_id: "off + n \<le> length xs \<Longrightarrow> splice off (slice off n xs) xs = xs"
  by (intro nth_equalityI) (auto simp: nth_slice nth_splice)

end
