(* ===== verification/Params.thy ===== *)
theory Params
  imports Prelude
begin

text \<open>The constants of \<^verbatim>\<open>src/param.h\<close>, \<^verbatim>\<open>src/memlayout.h\<close> and \<^verbatim>\<open>src/fs.h\<close>.\<close>

section \<open>param.h\<close>

abbreviation (input) NPROC :: nat where "NPROC \<equiv> 64"
abbreviation (input) KSTACKSIZE :: uint32 where "KSTACKSIZE \<equiv> 4096"
abbreviation (input) NCPU :: nat where "NCPU \<equiv> 8"
abbreviation (input) NOFILE :: nat where "NOFILE \<equiv> 16"
abbreviation (input) NFILE :: nat where "NFILE \<equiv> 100"
abbreviation (input) NINODE :: nat where "NINODE \<equiv> 50"
abbreviation (input) NDEV :: nat where "NDEV \<equiv> 10"
abbreviation (input) ROOTDEV :: uint32 where "ROOTDEV \<equiv> 1"
abbreviation (input) MAXARG :: nat where "MAXARG \<equiv> 32"
abbreviation (input) MAXOPBLOCKS :: nat where "MAXOPBLOCKS \<equiv> 10"
abbreviation (input) LOGSIZE :: nat where "LOGSIZE \<equiv> 30"
abbreviation (input) NBUF :: nat where "NBUF \<equiv> 30"

section \<open>memlayout.h\<close>

abbreviation (input) EXTMEM :: uint32 where "EXTMEM \<equiv> 0x100000"
abbreviation (input) PHYSTOP :: uint32 where "PHYSTOP \<equiv> 0xE000000"
abbreviation (input) DEVSPACE :: uint32 where "DEVSPACE \<equiv> 0xFE000000"
abbreviation (input) KERNBASE :: uint32 where "KERNBASE \<equiv> 0x80000000"
abbreviation (input) KERNLINK :: uint32 where "KERNLINK \<equiv> 0x80100000"

definition v2p :: "uint32 \<Rightarrow> uint32" where "v2p a = a - KERNBASE"
definition p2v :: "uint32 \<Rightarrow> uint32" where "p2v a = a + KERNBASE"

section \<open>fs.h\<close>

abbreviation (input) ROOTINO :: uint32 where "ROOTINO \<equiv> 1"
abbreviation (input) BSIZE :: nat where "BSIZE \<equiv> 512"
abbreviation (input) NDIRECT :: nat where "NDIRECT \<equiv> 12"
abbreviation (input) NINDIRECT :: nat where "NINDIRECT \<equiv> 128"
abbreviation (input) MAXFILE :: nat where "MAXFILE \<equiv> 140"
abbreviation (input) DIRSIZ :: nat where "DIRSIZ \<equiv> 14"

end
