(* ===== verification/Spinlock.thy ===== *)
theory Spinlock
  imports Params
begin

text \<open>
  \<^verbatim>\<open>src/spinlock.c\<close>: mutual-exclusion locks and the nesting of interrupt disabling.
  The state is the array of CPUs, the CPU that is executing (\<open>me\<close>, the
  \<^verbatim>\<open>%gs\<close>-relative variable \<^verbatim>\<open>cpu\<close>), and the locks.  The \<^verbatim>\<open>pcs\<close> array of a lock holds
  return addresses of the caller for debugging and is not part of the state; the
  function that fills it, \<^verbatim>\<open>getcallerpcs\<close>, is modelled over a memory at the end.

  The first part gives the operations and the equations that the other components
  use to run a critical section; the second part interleaves the operations of
  several CPUs, one atomic memory access at a time, and shows mutual exclusion.
\<close>

section \<open>State\<close>

record cpu =
  ncli :: int          \<comment> \<open>depth of pushcli nesting\<close>
  intena :: bool       \<comment> \<open>were interrupts enabled before pushcli?\<close>
  iflag :: bool        \<comment> \<open>FL_IF in the EFLAGS register of this CPU\<close>

record spinlock =
  locked :: uint32
  lname :: string
  lcpu :: "nat option"

record machine =
  me :: nat
  cpus :: "nat \<Rightarrow> cpu"
  locks :: "lockid \<Rightarrow> spinlock"

abbreviation my_cpu :: "'z machine_scheme \<Rightarrow> cpu" where
  "my_cpu s \<equiv> cpus s (me s)"

definition set_cpu :: "(cpu \<Rightarrow> cpu) \<Rightarrow> 'z machine_scheme \<Rightarrow> 'z machine_scheme" where
  "set_cpu f s = s\<lparr>cpus := (cpus s)(me s := f (my_cpu s))\<rparr>"

definition set_lock :: "lockid \<Rightarrow> (spinlock \<Rightarrow> spinlock) \<Rightarrow> 'z machine_scheme \<Rightarrow> 'z machine_scheme" where
  "set_lock l f s = s\<lparr>locks := (locks s)(l := f (locks s l))\<rparr>"

section \<open>Operations\<close>

definition cli :: "(unit, 'z machine_scheme) kern" where
  "cli = md (set_cpu (\<lambda>c. c\<lparr>iflag := False\<rparr>))"

definition sti :: "(unit, 'z machine_scheme) kern" where
  "sti = md (set_cpu (\<lambda>c. c\<lparr>iflag := True\<rparr>))"

text \<open>The atomic exchange instruction on the \<^verbatim>\<open>locked\<close> word: it returns the old value.\<close>

definition xchg :: "lockid \<Rightarrow> uint32 \<Rightarrow> (uint32, 'z machine_scheme) kern" where
  "xchg l v = bnd (rd (\<lambda>s. locked (locks s l))) (\<lambda>old.
     thn (md (set_lock l (\<lambda>k. k\<lparr>locked := v\<rparr>))) (ret old))"

definition initlock :: "lockid \<Rightarrow> string \<Rightarrow> (unit, 'z machine_scheme) kern" where
  "initlock l n = md (set_lock l (\<lambda>k. k\<lparr>lname := n, locked := 0, lcpu := None\<rparr>))"

definition holding :: "lockid \<Rightarrow> 'z machine_scheme \<Rightarrow> bool" where
  "holding l s = (locked (locks s l) \<noteq> 0 \<and> lcpu (locks s l) = Some (me s))"

definition pushcli :: "(unit, 'z machine_scheme) kern" where
  "pushcli =
     bnd (rd (\<lambda>s. iflag (my_cpu s))) (\<lambda>eflags.
     thn cli (
     bnd (rd (\<lambda>s. ncli (my_cpu s))) (\<lambda>n.
     thn (md (set_cpu (\<lambda>c. c\<lparr>ncli := ncli c + 1\<rparr>)))
         (whenk (n = 0) (md (set_cpu (\<lambda>c. c\<lparr>intena := eflags\<rparr>)))))))"

definition popcli :: "(unit, 'z machine_scheme) kern" where
  "popcli =
     bnd (rd (\<lambda>s. iflag (my_cpu s))) (\<lambda>eflags.
     if eflags then panic ''popcli - interruptible''
     else thn (md (set_cpu (\<lambda>c. c\<lparr>ncli := ncli c - 1\<rparr>)))
       (bnd (rd my_cpu) (\<lambda>c.
        if ncli c < 0 then panic ''popcli''
        else whenk (ncli c = 0 \<and> intena c) sti)))"

text \<open>
  \<^verbatim>\<open>while(xchg(&lk->locked, 1) != 0);\<close>  An exchange that returns a non-zero value leaves
  the lock as it is and the CPU stays in the loop: the outcome \<open>Spin\<close>.
\<close>

definition acquire_loop :: "lockid \<Rightarrow> (unit, 'z machine_scheme) kern" where
  "acquire_loop l = bnd (xchg l 1) (\<lambda>old. if old \<noteq> 0 then (\<lambda>s. Spin l s) else ret ())"

definition acquire :: "lockid \<Rightarrow> (unit, 'z machine_scheme) kern" where
  "acquire l =
     thn pushcli (
     bnd (rd (holding l)) (\<lambda>h.
     if h then panic ''acquire''
     else thn (acquire_loop l)
       (bnd (rd me) (\<lambda>c. md (set_lock l (\<lambda>k. k\<lparr>lcpu := Some c\<rparr>))))))"

definition release :: "lockid \<Rightarrow> (unit, 'z machine_scheme) kern" where
  "release l =
     bnd (rd (holding l)) (\<lambda>h.
     if \<not> h then panic ''release''
     else thn (md (set_lock l (\<lambda>k. k\<lparr>lcpu := None\<rparr>)))
       (thn (xchg l 0) popcli))"

section \<open>Critical sections\<close>

text \<open>
  \<open>lock_free l s\<close>: nobody holds \<open>l\<close>.  \<open>calm s\<close>: the executing CPU is outside every
  critical section, and the saved interrupt flag is the current one, as it is after
  any completed critical section.  \<open>inside s\<close>: the CPU holds some lock, so that
  interrupts are off.
\<close>

definition lock_free :: "lockid \<Rightarrow> 'z machine_scheme \<Rightarrow> bool" where
  "lock_free l s = (locked (locks s l) = 0 \<and> lcpu (locks s l) = None)"

definition calm :: "'z machine_scheme \<Rightarrow> bool" where
  "calm s = (ncli (my_cpu s) = 0 \<and> intena (my_cpu s) = iflag (my_cpu s) \<and> (\<forall>l. lock_free l s))"

definition inside :: "'z machine_scheme \<Rightarrow> bool" where
  "inside s = (0 < ncli (my_cpu s) \<and> \<not> iflag (my_cpu s))"

text \<open>The state in which the executing CPU has just taken the free lock \<open>l\<close>.\<close>

definition hold :: "lockid \<Rightarrow> 'z machine_scheme \<Rightarrow> 'z machine_scheme" where
  "hold l s = set_lock l (\<lambda>k. k\<lparr>locked := 1, lcpu := Some (me s)\<rparr>)
     (set_cpu (\<lambda>c. c\<lparr>iflag := False, ncli := ncli c + 1,
                      intena := (if ncli c = 0 then iflag c else intena c)\<rparr>) s)"

lemmas machine_defs = set_cpu_def set_lock_def cli_def sti_def xchg_def holding_def
  pushcli_def popcli_def acquire_loop_def acquire_def release_def

lemma acquire_free: "lock_free l s \<Longrightarrow> acquire l s = Ok () (hold l s)"
  by (simp add: machine_defs lock_free_def hold_def kern_simps whenk_def)

lemma release_hold:
  assumes "lock_free l s" and "calm s \<or> inside s"
  shows "release l (hold l s) = Ok () s"
  using assms
  by (cases s)
    (auto simp: machine_defs lock_free_def hold_def kern_simps whenk_def calm_def inside_def
      fun_upd_idem)

lemma critical_section:
  assumes "lock_free l s" and "lock_free l t" and "calm t \<or> inside t"
    and "body (hold l s) = Ok x (hold l t)"
  shows "thn (acquire l) (bnd body (\<lambda>x. thn (release l) (ret x))) s = Ok x t"
  using assms by (simp add: kern_simps acquire_free release_hold)

lemma lock_free_hold [simp]: "lock_free k (hold l s) \<longleftrightarrow> k \<noteq> l \<and> lock_free k s"
  by (auto simp: lock_free_def hold_def set_lock_def set_cpu_def)

lemma inside_hold [simp]: "calm s \<or> inside s \<Longrightarrow> inside (hold l s)"
  by (auto simp: inside_def calm_def hold_def set_lock_def set_cpu_def)

lemma holding_hold [simp]: "holding l (hold l s)"
  by (simp add: holding_def hold_def set_lock_def set_cpu_def)

lemma calm_lock_free [simp]: "calm s \<Longrightarrow> lock_free l s"
  by (simp add: calm_def)

section \<open>Several CPUs\<close>

text \<open>
  Every CPU of the machine executes kernel code; what matters for the locks is where a
  CPU stands with respect to \<^verbatim>\<open>acquire\<close> and \<^verbatim>\<open>release\<close>.  A step is one CPU performing the
  code up to and including its next access to the shared words of a lock, so that the
  instructions of different CPUs interleave freely:
  \<^item> \<open>Trying l\<close>: in the loop of \<^verbatim>\<open>acquire\<close>;
  \<^item> \<open>Taken l\<close>: the exchange returned 0, \<^verbatim>\<open>lk->cpu\<close> is not yet written;
  \<^item> \<open>Dropping l\<close>: \<^verbatim>\<open>release\<close> has cleared \<^verbatim>\<open>lk->cpu\<close>, the exchange is still to come.
  The history variable \<open>held i\<close> records the locks for which CPU \<open>i\<close> has returned from
  \<^verbatim>\<open>acquire\<close> and has not entered \<^verbatim>\<open>release\<close>; \<open>owner l\<close> the CPU whose exchange was the last
  to change the word of \<open>l\<close> from 0 to 1, until that CPU writes 0 again.
\<close>

datatype phase = Running | Trying lockid | Taken lockid | Dropping lockid

record smp = machine +
  phase :: "nat \<Rightarrow> phase"
  held :: "nat \<Rightarrow> lockid list"
  owner :: "lockid \<Rightarrow> nat option"

definition on_cpu :: "nat \<Rightarrow> smp \<Rightarrow> smp" where
  "on_cpu i s = s\<lparr>me := i\<rparr>"

definition set_phase :: "nat \<Rightarrow> phase \<Rightarrow> smp \<Rightarrow> smp" where
  "set_phase i p s = s\<lparr>phase := (phase s)(i := p)\<rparr>"

inductive smp_step :: "smp \<Rightarrow> smp \<Rightarrow> bool" where
  enter: "phase s i = Running \<Longrightarrow> pushcli (on_cpu i s) = Ok () t \<Longrightarrow> \<not> holding l t \<Longrightarrow>
     smp_step s (set_phase i (Trying l) t)"
| spin: "phase s i = Trying l \<Longrightarrow> xchg l 1 (on_cpu i s) = Ok old t \<Longrightarrow> old \<noteq> 0 \<Longrightarrow>
     smp_step s t"
| take: "phase s i = Trying l \<Longrightarrow> xchg l 1 (on_cpu i s) = Ok 0 t \<Longrightarrow>
     smp_step s ((set_phase i (Taken l) t)\<lparr>owner := (owner t)(l := Some i)\<rparr>)"
| note_owner: "phase s i = Taken l \<Longrightarrow>
     t = set_lock l (\<lambda>k. k\<lparr>lcpu := Some i\<rparr>) (on_cpu i s) \<Longrightarrow>
     smp_step s ((set_phase i Running t)\<lparr>held := (held t)(i := l # held t i)\<rparr>)"
| drop_owner: "phase s i = Running \<Longrightarrow> holding l (on_cpu i s) \<Longrightarrow>
     t = set_lock l (\<lambda>k. k\<lparr>lcpu := None\<rparr>) (on_cpu i s) \<Longrightarrow>
     smp_step s ((set_phase i (Dropping l) t)\<lparr>held := (held t)(i := remove1 l (held t i))\<rparr>)"
| leave: "phase s i = Dropping l \<Longrightarrow> thn (xchg l 0) popcli (on_cpu i s) = Ok () t \<Longrightarrow>
     smp_step s ((set_phase i Running t)\<lparr>owner := (owner t)(l := None)\<rparr>)"

definition smp_init :: "smp \<Rightarrow> bool" where
  "smp_init s = ((\<forall>i. phase s i = Running \<and> held s i = [] \<and> ncli (cpus s i) = 0) \<and>
     (\<forall>l. locked (locks s l) = 0 \<and> lcpu (locks s l) = None \<and> owner s l = None))"

inductive smp_reachable :: "smp \<Rightarrow> bool" where
  boot: "smp_init s \<Longrightarrow> smp_reachable s"
| run: "smp_reachable s \<Longrightarrow> smp_step s t \<Longrightarrow> smp_reachable t"

text \<open>
  Who owns a lock: a CPU that has returned from \<^verbatim>\<open>acquire\<close>, or is between the exchange and
  the bookkeeping.  \<open>depth i\<close> is the number of \<^verbatim>\<open>pushcli\<close> calls that have not been undone.
\<close>

definition owns :: "smp \<Rightarrow> nat \<Rightarrow> lockid \<Rightarrow> bool" where
  "owns s i l = (l \<in> set (held s i) \<or> phase s i = Taken l \<or> phase s i = Dropping l)"

definition depth :: "smp \<Rightarrow> nat \<Rightarrow> int" where
  "depth s i = int (length (held s i)) + (if phase s i = Running then 0 else 1)"

primrec lock_word :: "nat option \<Rightarrow> uint32" where
  "lock_word None = 0"
| "lock_word (Some i) = 1"

lemma lock_word_eq_0 [simp]: "lock_word x = 0 \<longleftrightarrow> x = None"
  by (cases x) auto

lemma lock_word_eq_1: "lock_word x \<noteq> 0 \<Longrightarrow> lock_word x = 1"
  by (cases x) auto

definition owner_inv :: "smp \<Rightarrow> bool" where
  "owner_inv s = ((\<forall>i l. owner s l = Some i \<longleftrightarrow> owns s i l) \<and>
     (\<forall>l. locked (locks s l) = lock_word (owner s l)))"

definition held_inv :: "smp \<Rightarrow> bool" where
  "held_inv s = ((\<forall>i l. lcpu (locks s l) = Some i \<longleftrightarrow> l \<in> set (held s i)) \<and>
     (\<forall>i l. phase s i = Taken l \<or> phase s i = Dropping l \<longrightarrow> l \<notin> set (held s i)) \<and>
     (\<forall>i. distinct (held s i)))"

definition depth_inv :: "smp \<Rightarrow> bool" where
  "depth_inv s = (\<forall>i. ncli (cpus s i) = depth s i \<and> (0 < depth s i \<longrightarrow> \<not> iflag (cpus s i)))"

definition smp_inv :: "smp \<Rightarrow> bool" where
  "smp_inv s = (owner_inv s \<and> held_inv s \<and> depth_inv s)"

lemma smp_inv_init: "smp_init s \<Longrightarrow> smp_inv s"
  by (auto simp: smp_init_def smp_inv_def owner_inv_def held_inv_def depth_inv_def owns_def depth_def)

lemma pushcli_eq: "pushcli s = Ok () (set_cpu (\<lambda>c. c\<lparr>iflag := False, ncli := ncli c + 1,
    intena := (if ncli c = 0 then iflag c else intena c)\<rparr>) s)"
  by (simp add: machine_defs kern_simps whenk_def)

lemma xchg_eq: "xchg l v s = Ok (locked (locks s l)) (set_lock l (\<lambda>k. k\<lparr>locked := v\<rparr>) s)"
  by (simp add: machine_defs kern_simps)

lemma popcli_eq:
  assumes "\<not> iflag (my_cpu s)" and "0 < ncli (my_cpu s)"
  shows "popcli s = Ok () (set_cpu (\<lambda>c. c\<lparr>ncli := ncli c - 1,
    iflag := (ncli c = 1 \<and> intena c)\<rparr>) s)"
  using assms by (cases "my_cpu s") (auto simp: machine_defs kern_simps whenk_def)

lemmas smp_simps = on_cpu_def set_phase_def set_lock_def set_cpu_def pushcli_eq xchg_eq popcli_eq
  thn_def bnd_def owns_def depth_def holding_def

lemma smp_step_depth: "smp_step s t \<Longrightarrow> held_inv s \<Longrightarrow> depth_inv s \<Longrightarrow> depth_inv t"
proof (induction rule: smp_step.induct)
  case (enter s i t l)
  then show ?case by (auto simp: smp_simps depth_inv_def)
next
  case (spin s i l old t)
  then show ?case by (auto simp: smp_simps depth_inv_def)
next
  case (take s i l t)
  then show ?case by (auto simp: smp_simps depth_inv_def)
next
  case (note_owner s i l t)
  then show ?case by (auto simp: smp_simps depth_inv_def)
next
  case (drop_owner s i l t)
  then have "l \<in> set (held s i)" by (auto simp: held_inv_def smp_simps)
  then have "int (length (held s i)) = int (length (remove1 l (held s i))) + 1"
    by (cases "length (held s i)") (auto simp: length_remove1)
  with drop_owner show ?case by (auto simp: smp_simps depth_inv_def)
next
  case (leave s i l t)
  then have "\<not> iflag (cpus s i)" and "0 < ncli (cpus s i)" 
    by (auto simp: depth_inv_def depth_def)
  with leave show ?case by (auto simp: smp_simps depth_inv_def)
qed

lemma owner_unique:
  assumes "owner_inv s" and "owns s i l" and "owns s j l"
  shows "i = j"
proof -
  from assms have "owner s l = Some i" and "owner s l = Some j" by (simp_all add: owner_inv_def)
  then show ?thesis by simp
qed

lemma unlocked_not_owned:
  assumes "owner_inv s" and "locked (locks s l) = 0"
  shows "\<not> owns s j l"
proof
  assume "owns s j l"
  with assms(1) have "owner s l = Some j" by (simp add: owner_inv_def)
  with assms show False by (simp add: owner_inv_def)
qed

lemma leave_facts:
  assumes "phase s i = Dropping l" and "depth_inv s"
  shows "\<not> iflag (cpus s i)" and "0 < ncli (cpus s i)"
  using assms by (auto simp: depth_inv_def depth_def)

lemma smp_step_held: "smp_step s t \<Longrightarrow> owner_inv s \<Longrightarrow> held_inv s \<Longrightarrow> depth_inv s \<Longrightarrow> held_inv t"
proof (induction rule: smp_step.induct)
  case (enter s i t l)
  then show ?case by (auto simp: smp_simps held_inv_def)
next
  case (spin s i l old t)
  then show ?case by (auto simp: smp_simps held_inv_def split: if_splits)
next
  case (take s i l t)
  then have "\<not> owns s j l" for j by (intro unlocked_not_owned) (simp_all add: smp_simps)
  then have "l \<notin> set (held s j)" for j by (auto simp: owns_def)
  with take show ?case by (auto simp: smp_simps held_inv_def split: if_splits)
next
  case (note_owner s i l t)
  then have "owns s i l" by (simp add: owns_def)
  then have "l \<in> set (held s j) \<Longrightarrow> j = i" for j
    using owner_unique [OF note_owner.prems(1), of i l j] by (auto simp: owns_def)
  with note_owner show ?case by (auto simp: smp_simps held_inv_def split: if_splits)
next
  case (drop_owner s i l t)
  then have "l \<in> set (held s i)" by (auto simp: held_inv_def smp_simps)
  then have "owns s i l" by (simp add: owns_def)
  then have "l \<in> set (held s j) \<Longrightarrow> j = i" for j
    using owner_unique [OF drop_owner.prems(1), of i l j] by (auto simp: owns_def)
  with drop_owner show ?case by (auto simp: smp_simps held_inv_def split: if_splits)
next
  case (leave s i l t)
  note leave_facts [OF leave.hyps(1) leave.prems(3)]
  with leave show ?case by (auto simp: smp_simps held_inv_def split: if_splits)
qed

lemma smp_step_owner: "smp_step s t \<Longrightarrow> owner_inv s \<Longrightarrow> held_inv s \<Longrightarrow> depth_inv s \<Longrightarrow> owner_inv t"
proof (induction rule: smp_step.induct)
  case (enter s i t l)
  then show ?case by (auto simp: smp_simps owner_inv_def)
next
  case (spin s i l old t)
  then have "locked (locks s l) = lock_word (owner s l)" and "locked (locks s l) \<noteq> 0"
    by (auto simp: owner_inv_def smp_simps)
  then have "locked (locks s l) = 1" by (metis lock_word_eq_1)
  then have "t = on_cpu i s" using spin.hyps(2)
    by (cases "locks s l") (auto simp: smp_simps fun_upd_idem)
  with spin.prems show ?case by (simp add: owner_inv_def owns_def on_cpu_def)
next
  case (take s i l t)
  then have "\<not> owns s j l" for j by (intro unlocked_not_owned) (simp_all add: smp_simps)
  then have "l \<notin> set (held s j) \<and> phase s j \<noteq> Taken l \<and> phase s j \<noteq> Dropping l" for j
    by (auto simp: owns_def)
  with take show ?case by (auto simp: smp_simps owner_inv_def)
next
  case (note_owner s i l t)
  then show ?case by (auto simp: smp_simps owner_inv_def)
next
  case (drop_owner s i l t)
  then have "l \<in> set (held s i)" and "distinct (held s i)" by (auto simp: held_inv_def smp_simps)
  with drop_owner show ?case by (auto simp: smp_simps owner_inv_def)
next
  case (leave s i l t)
  note leave_facts [OF leave.hyps(1) leave.prems(3)]
  moreover have "owns s i l" using leave by (simp add: owns_def)
  then have "owns s j l \<Longrightarrow> j = i" for j
    using owner_unique [OF leave.prems(1), of i l j] by simp
  ultimately show ?case using leave by (auto simp: smp_simps owner_inv_def held_inv_def)
qed

lemma smp_reachable_inv: "smp_reachable s \<Longrightarrow> smp_inv s"
proof (induction rule: smp_reachable.induct)
  case (boot s)
  then show ?case by (rule smp_inv_init)
next
  case (run s t)
  then show ?case
    by (auto simp: smp_inv_def dest: smp_step_owner smp_step_held smp_step_depth)
qed

section \<open>Properties\<close>

text \<open>
  C8 (mutual exclusion).  In every interleaving of any number of CPUs, at the granularity
  of single lock-word accesses, a lock that CPU \<open>i\<close> has acquired and not released is held
  by no other CPU, \<^verbatim>\<open>holding\<close> answers true on CPU \<open>i\<close> and false on every other one, and
  interrupts are disabled on CPU \<open>i\<close>.
\<close>

theorem spinlock_mutual_exclusion:
  assumes "smp_reachable s" and "l \<in> set (held s i)"
  shows "(\<forall>j. l \<in> set (held s j) \<longrightarrow> j = i) \<and>
    (\<forall>j. holding l (on_cpu j s) \<longleftrightarrow> j = i) \<and> \<not> iflag (cpus s i)"
proof -
  from assms(1) have inv: "owner_inv s" "held_inv s" "depth_inv s"
    using smp_reachable_inv by (auto simp: smp_inv_def)
  from assms(2) have own: "owns s i l" by (simp add: owns_def)
  have uniq: "j = i" if "l \<in> set (held s j)" for j
    using owner_unique [OF inv(1) own, of j] that by (simp add: owns_def)
  have "lcpu (locks s l) = Some i" using inv(2) assms(2) by (simp add: held_inv_def)
  moreover have "locked (locks s l) \<noteq> 0" using unlocked_not_owned [OF inv(1)] own by blast
  moreover have "0 < depth s i" using assms(2) by (auto simp: depth_def intro: length_pos_if_in_set)
  ultimately show ?thesis using uniq inv(3) by (auto simp: holding_def on_cpu_def depth_inv_def)
qed

text \<open>
  C25 (no panic in the lock code).  In every reachable state a CPU outside the lock code
  that releases a lock it holds returns from \<^verbatim>\<open>release\<close> with the lock word 0 and the owner
  cleared, and one that acquires a lock it does not hold does not panic: it returns
  holding the lock if the word was 0 and spins otherwise.
\<close>

theorem spinlock_no_panic:
  assumes "smp_reachable s" and "phase s i = Running"
  shows "if l \<in> set (held s i)
    then \<exists>t. release l (on_cpu i s) = Ok () t \<and> lock_free l t
    else if locked (locks s l) = 0
    then \<exists>t. acquire l (on_cpu i s) = Ok () t \<and> holding l t \<and> \<not> iflag (my_cpu t)
    else \<exists>t. acquire l (on_cpu i s) = Spin l t"
proof -
  from assms(1) have inv: "owner_inv s" "held_inv s" "depth_inv s"
    using smp_reachable_inv by (auto simp: smp_inv_def)
  let ?s = "on_cpu i s"
  show ?thesis
  proof (cases "l \<in> set (held s i)")
    case True
    then have own: "owns s i l" by (simp add: owns_def)
    then have "locked (locks s l) \<noteq> 0" using unlocked_not_owned [OF inv(1)] by blast
    moreover have "lcpu (locks s l) = Some i" using inv(2) True by (simp add: held_inv_def)
    moreover have "0 < depth s i" using True by (auto simp: depth_def intro: length_pos_if_in_set)
    then have "0 < ncli (cpus s i)" "\<not> iflag (cpus s i)" using inv(3) by (auto simp: depth_inv_def)
    ultimately have "\<exists>t. release l ?s = Ok () t \<and> lock_free l t"
      by (simp add: release_def kern_simps xchg_eq popcli_eq holding_def on_cpu_def set_lock_def
        set_cpu_def lock_free_def)
    with True show ?thesis by simp
  next
    case False
    then have "lcpu (locks s l) \<noteq> Some i" using inv(2) by (simp add: held_inv_def)
    then have "\<not> holding l (set_cpu f ?s)" for f
      by (simp add: holding_def on_cpu_def set_cpu_def)
    then have "if locked (locks s l) = 0
      then \<exists>t. acquire l ?s = Ok () t \<and> holding l t \<and> \<not> iflag (my_cpu t)
      else \<exists>t. acquire l ?s = Spin l t"
      by (simp add: acquire_def acquire_loop_def kern_simps pushcli_eq xchg_eq)
        (simp add: on_cpu_def set_cpu_def set_lock_def holding_def)
    with False show ?thesis by simp
  qed
qed

text \<open>A concrete run used as evidence that the hypotheses are satisfiable.\<close>

definition smp_boot :: smp where
  "smp_boot = \<lparr>me = 0, cpus = (\<lambda>_. \<lparr>ncli = 0, intena = False, iflag = True\<rparr>),
     locks = (\<lambda>_. \<lparr>locked = 0, lname = [], lcpu = None\<rparr>),
     phase = (\<lambda>_. Running), held = (\<lambda>_. []), owner = (\<lambda>_. None)\<rparr>"

definition smp_one_held :: smp where
  "smp_one_held = smp_boot\<lparr>cpus := (cpus smp_boot)(0 := \<lparr>ncli = 1, intena = True, iflag = False\<rparr>),
     locks := (locks smp_boot)(LkLog := \<lparr>locked = 1, lname = [], lcpu = Some 0\<rparr>),
     held := (\<lambda>_. [])(0 := [LkLog]), owner := (\<lambda>_. None)(LkLog := Some 0)\<rparr>"

lemma smp_one_held_reachable: "smp_reachable smp_one_held"
proof -
  let ?s1 = "set_phase 0 (Trying LkLog) (set_cpu (\<lambda>c. c\<lparr>iflag := False, ncli := ncli c + 1,
    intena := (if ncli c = 0 then iflag c else intena c)\<rparr>) (on_cpu 0 smp_boot))"
  let ?s2 = "(set_phase 0 (Taken LkLog) (set_lock LkLog (\<lambda>k. k\<lparr>locked := 1\<rparr>) (on_cpu 0 ?s1)))
    \<lparr>owner := (owner ?s1)(LkLog := Some 0)\<rparr>"
  have r0: "smp_reachable smp_boot"
    by (rule smp_reachable.boot) (simp add: smp_init_def smp_boot_def)
  have "smp_step smp_boot ?s1"
    by (rule smp_step.enter) (simp_all add: smp_boot_def smp_simps)
  with r0 have r1: "smp_reachable ?s1" by (rule smp_reachable.run)
  have "smp_step ?s1 ?s2"
    by (rule smp_step.intros(3) [where i = 0 and l = LkLog and t = "set_lock LkLog (\<lambda>k. k\<lparr>locked := 1\<rparr>) (on_cpu 0 ?s1)",
          THEN subst [where P = "smp_step ?s1", rotated]])
      (simp_all add: smp_boot_def smp_simps fun_eq_iff)
  with r1 have r2: "smp_reachable ?s2" by (rule smp_reachable.run)
  have "smp_step ?s2 smp_one_held"
    by (rule smp_step.intros(4) [where s = ?s2 and i = 0 and l = LkLog, OF _ refl,
          THEN subst [where P = "smp_step ?s2", rotated]])
      (simp_all add: smp_boot_def smp_one_held_def smp_simps fun_eq_iff)
  with r2 show ?thesis by (rule smp_reachable.run)
qed

theorem spinlock_mutual_exclusion_witness:
  "LkLog \<in> set (held smp_one_held 0) \<and> (\<forall>j. holding LkLog (on_cpu j smp_one_held) \<longleftrightarrow> j = 0) \<and>
    \<not> iflag (cpus smp_one_held 0)"
proof -
  have h: "LkLog \<in> set (held smp_one_held 0)" by (simp add: smp_one_held_def)
  show ?thesis using spinlock_mutual_exclusion [OF smp_one_held_reachable h] h by simp
qed

theorem spinlock_no_panic_witness:
  "(\<exists>t. release LkLog (on_cpu 0 smp_one_held) = Ok () t \<and> lock_free LkLog t) \<and>
   (\<exists>t. acquire LkLog (on_cpu 1 smp_one_held) = Spin LkLog t)"
proof -
  have "phase smp_one_held 0 = Running" and "phase smp_one_held 1 = Running"
    and "LkLog \<in> set (held smp_one_held 0)" and "LkLog \<notin> set (held smp_one_held 1)"
    and "locked (locks smp_one_held LkLog) \<noteq> 0"
    by (simp_all add: smp_one_held_def smp_boot_def)
  then show ?thesis
    using spinlock_no_panic [OF smp_one_held_reachable, of 0 LkLog]
      spinlock_no_panic [OF smp_one_held_reachable, of 1 LkLog] by simp
qed

section \<open>The call stack recorded in a lock\<close>

text \<open>
  \<^verbatim>\<open>getcallerpcs\<close> follows the chain of saved frame pointers in memory (\<open>m a\<close> is the word
  at address \<open>a\<close>) for at most ten frames and fills the rest of \<^verbatim>\<open>pcs\<close> with 0.
\<close>

fun pcs_from :: "(uint32 \<Rightarrow> uint32) \<Rightarrow> uint32 \<Rightarrow> nat \<Rightarrow> uint32 list" where
  "pcs_from m ebp 0 = []"
| "pcs_from m ebp (Suc n) =
     (if ebp = 0 \<or> ebp < KERNBASE \<or> ebp = 0xffffffff then replicate (Suc n) 0
      else m (ebp + 4) # pcs_from m (m ebp) n)"

definition getcallerpcs :: "(uint32 \<Rightarrow> uint32) \<Rightarrow> uint32 \<Rightarrow> uint32 list" where
  "getcallerpcs m v = pcs_from m (v - 8) 10"

lemma length_pcs_from [simp]: "length (pcs_from m ebp n) = n"
  by (induction m ebp n rule: pcs_from.induct) auto

end
