(* ===== verification/Kalloc.thy ===== *)
theory Kalloc
  imports Spinlock
begin

text \<open>
  \<^verbatim>\<open>src/kalloc.c\<close>: the allocator of physical pages.  The free pages form a linked list
  threaded through the pages themselves (\<^verbatim>\<open>struct run\<close>): the first word of a free page is
  the address of the next one.  The state therefore has a byte-addressed memory, and the
  abstraction \<open>free_path\<close> recovers from it the list of free pages.  The symbol \<^verbatim>\<open>end\<close> that
  the linker provides is the constant field \<open>kend\<close>.
\<close>

section \<open>Memory\<close>

type_synonym memory = "uint32 \<Rightarrow> uchar"

abbreviation (input) PGSIZE :: uint32 where "PGSIZE \<equiv> 4096"

definition PGROUNDUP :: "uint32 \<Rightarrow> uint32" where
  "PGROUNDUP a = (a + PGSIZE - 1) AND NOT (PGSIZE - 1)"

definition PGROUNDDOWN :: "uint32 \<Rightarrow> uint32" where
  "PGROUNDDOWN a = a AND NOT (PGSIZE - 1)"

definition load32 :: "memory \<Rightarrow> uint32 \<Rightarrow> uint32" where
  "load32 m a = of_le32 [m a, m (a + 1), m (a + 2), m (a + 3)]"

definition store32 :: "memory \<Rightarrow> uint32 \<Rightarrow> uint32 \<Rightarrow> memory" where
  "store32 m a v = m(a := le32 v ! 0, a + 1 := le32 v ! 1, a + 2 := le32 v ! 2, a + 3 := le32 v ! 3)"

text \<open>\<open>in_range a n x\<close>: \<open>x\<close> is one of the \<open>n\<close> addresses from \<open>a\<close> on (modulo the address space).\<close>

definition in_range :: "uint32 \<Rightarrow> nat \<Rightarrow> uint32 \<Rightarrow> bool" where
  "in_range a n x = (unat (x - a) < n)"

definition memset_mem :: "uint32 \<Rightarrow> uchar \<Rightarrow> nat \<Rightarrow> memory \<Rightarrow> memory" where
  "memset_mem a c n m = (\<lambda>x. if in_range a n x then c else m x)"

lemma le32_nths: "[le32 v ! 0, le32 v ! Suc 0, le32 v ! 2, le32 v ! 3] = le32 v"
  by (simp add: le32_def)

lemma load32_store32 [simp]: "load32 (store32 m a v) a = v"
  by (simp add: load32_def store32_def le32_nths)

definition page_aligned :: "uint32 \<Rightarrow> bool" where
  "page_aligned a = (a mod PGSIZE = 0)"

lemma page_aligned_dvd: "page_aligned a \<longleftrightarrow> 4096 dvd unat a"
  by (simp add: page_aligned_def unat_eq_zero [symmetric] unat_mod mod_eq_0_iff_dvd
      del: unat_eq_zero)

lemma page_aligned_diff:
  assumes "page_aligned a" and "page_aligned b"
  shows "page_aligned (b - a)"
proof -
  have "unat (b - a) = (if unat a \<le> unat b then unat b - unat a else 2 ^ 32 + unat b - unat a)"
    by (auto simp: unat_sub_if')
  moreover have "4096 dvd (2 ^ 32 :: nat)" by simp
  ultimately show ?thesis using assms
    by (auto simp: page_aligned_dvd intro!: dvd_diff_nat dvd_add)
qed

lemma pages_disjoint:
  assumes "page_aligned a" and "page_aligned b" and "a \<noteq> b" and "unat i < 4096"
  shows "\<not> in_range a 4096 (b + i)"
proof -
  let ?d = "b - a"
  have dvd: "4096 dvd unat ?d" using page_aligned_diff [OF assms(1,2)] by (simp add: page_aligned_dvd)
  moreover have "unat ?d \<noteq> 0" using assms(3) by (simp add: unat_eq_zero)
  ultimately have ge: "4096 \<le> unat ?d" by (meson dvd_imp_le neq0_conv)
  have lt: "unat ?d < 2 ^ 32" using unsigned_less [of ?d] by simp
  have "unat ?d + 4096 \<le> 2 ^ 32"
  proof -
    from dvd obtain k where k: "unat ?d = 4096 * k" by blast
    with lt have "k < 2 ^ 20" by simp
    then have "k + 1 \<le> 2 ^ 20" by simp
    then have "4096 * (k + 1) \<le> 2 ^ 32" by simp
    with k show ?thesis by simp
  qed
  then have "unat (?d + i) = unat ?d + unat i" using assms(4)
    by (subst unat_add_lem [THEN iffD1]) simp_all
  then have "unat (b + i - a) = unat ?d + unat i" by (simp add: diff_add_eq)
  then show ?thesis using ge by (simp add: in_range_def)
qed

lemma small_offset: "unat (i :: uint32) < 4096 \<Longrightarrow> in_range a 4096 (a + i)"
  by (simp add: in_range_def)

lemma load32_cong:
  assumes "\<And>i. unat i < 4 \<Longrightarrow> m (a + i) = m' (a + i)"
  shows "load32 m a = load32 m' a"
  using assms [of 0] assms [of 1] assms [of 2] assms [of 3] by (simp add: load32_def)

lemma load32_memset_other:
  assumes "page_aligned a" and "page_aligned b" and "a \<noteq> b"
  shows "load32 (memset_mem a c 4096 m) b = load32 m b"
  using pages_disjoint [OF assms] by (intro load32_cong) (simp add: memset_mem_def)

lemma store32_out: "\<not> in_range a 4 x \<Longrightarrow> store32 m a v x = m x"
  by (auto simp: store32_def in_range_def)

lemma in_range_mono: "in_range a n x \<Longrightarrow> n \<le> k \<Longrightarrow> in_range a k x"
  by (simp add: in_range_def)

lemma load32_store32_other:
  assumes "page_aligned a" and "page_aligned b" and "a \<noteq> b"
  shows "load32 (store32 m a v) b = load32 m b"
proof (rule load32_cong)
  fix i :: uint32 assume "unat i < 4"
  then have "\<not> in_range a 4096 (b + i)" using pages_disjoint [OF assms] by simp
  then have "\<not> in_range a 4 (b + i)" using in_range_mono by force
  then show "store32 m a v (b + i) = m (b + i)" by (rule store32_out)
qed

section \<open>State and operations\<close>

record kmem_st = machine +
  mem :: memory
  use_lock :: bool
  freelist :: uint32
  kend :: uint32

definition kfree :: "uint32 \<Rightarrow> (unit, 'z kmem_st_scheme) kern" where
  "kfree v =
     bnd (rd kend) (\<lambda>e.
     if v mod PGSIZE \<noteq> 0 \<or> v < e \<or> v2p v \<ge> PHYSTOP then panic ''kfree''
     else
       thn (md (\<lambda>s. s\<lparr>mem := memset_mem v 1 4096 (mem s)\<rparr>)) (
       bnd (rd use_lock) (\<lambda>u.
       thn (whenk u (acquire LkKmem)) (
       thn (md (\<lambda>s. s\<lparr>mem := store32 (mem s) v (freelist s), freelist := v\<rparr>)) (
       bnd (rd use_lock) (\<lambda>u.
       whenk u (release LkKmem)))))))"

definition kalloc :: "(uint32, 'z kmem_st_scheme) kern" where
  "kalloc =
     bnd (rd use_lock) (\<lambda>u.
     thn (whenk u (acquire LkKmem)) (
     bnd (rd freelist) (\<lambda>r.
     thn (whenk (r \<noteq> 0) (md (\<lambda>s. s\<lparr>freelist := load32 (mem s) r\<rparr>))) (
     bnd (rd use_lock) (\<lambda>u.
     thn (whenk u (release LkKmem)) (ret r))))))"

text \<open>
  The loop of \<^verbatim>\<open>freerange\<close> frees one page per iteration.  The first argument bounds the number of iterations
  by the number of pages of the address space.
\<close>

fun freerange_loop :: "nat \<Rightarrow> uint32 \<Rightarrow> uint32 \<Rightarrow> (unit, 'z kmem_st_scheme) kern" where
  "freerange_loop 0 p vend = (\<lambda>s. Diverge)"
| "freerange_loop (Suc n) p vend =
     (if p + PGSIZE \<le> vend then thn (kfree p) (freerange_loop n (p + PGSIZE) vend) else ret ())"

definition freerange :: "uint32 \<Rightarrow> uint32 \<Rightarrow> (unit, 'z kmem_st_scheme) kern" where
  "freerange vstart vend = freerange_loop (2 ^ 20 + 1) (PGROUNDUP vstart) vend"

definition kinit1 :: "uint32 \<Rightarrow> uint32 \<Rightarrow> (unit, 'z kmem_st_scheme) kern" where
  "kinit1 vstart vend =
     thn (initlock LkKmem ''kmem'') (
     thn (md (\<lambda>s. s\<lparr>use_lock := False\<rparr>))
         (freerange vstart vend))"

definition kinit2 :: "uint32 \<Rightarrow> uint32 \<Rightarrow> (unit, 'z kmem_st_scheme) kern" where
  "kinit2 vstart vend =
     thn (freerange vstart vend)
         (md (\<lambda>s. s\<lparr>use_lock := True\<rparr>))"

section \<open>The list of free pages\<close>

fun free_path :: "memory \<Rightarrow> uint32 \<Rightarrow> uint32 list \<Rightarrow> bool" where
  "free_path m p [] = (p = 0)"
| "free_path m p (a # as) = (p = a \<and> a \<noteq> 0 \<and> free_path m (load32 m a) as)"

definition page_ok :: "'z kmem_st_scheme \<Rightarrow> uint32 \<Rightarrow> bool" where
  "page_ok s v = (page_aligned v \<and> kend s \<le> v \<and> v2p v < PHYSTOP)"

definition kmem_inv :: "'z kmem_st_scheme \<Rightarrow> uint32 list \<Rightarrow> bool" where
  "kmem_inv s ps = (free_path (mem s) (freelist s) ps \<and> distinct ps \<and> (\<forall>p \<in> set ps. page_ok s p))"

lemma free_path_cong:
  "(\<And>a. a \<in> set ps \<Longrightarrow> load32 m a = load32 m' a) \<Longrightarrow> free_path m p ps = free_path m' p ps"
  by (induction ps arbitrary: p) auto

lemma hold_kmem_upd [simp]:
  "mem_update f (hold l s) = hold l (mem_update f s)"
  "freelist_update g (hold l s) = hold l (freelist_update g s)"
  "mem (hold l s) = mem s" "freelist (hold l s) = freelist s" "use_lock (hold l s) = use_lock s"
  by (simp_all add: hold_def set_lock_def set_cpu_def)

lemma page_ok_nonzero: "page_ok s v \<Longrightarrow> v \<noteq> 0"
  by (auto simp: page_ok_def v2p_def)

lemma page_ok_upd [simp]:
  "page_ok (mem_update f s) v = page_ok s v" "page_ok (freelist_update g s) v = page_ok s v"
  by (simp_all add: page_ok_def)

lemma calm_kmem_upd [simp]:
  "calm (mem_update f s) = calm s" "calm (freelist_update g s) = calm s"
  "inside (mem_update f s) = inside s" "inside (freelist_update g s) = inside s"
  "lock_free l (mem_update f s) = lock_free l s" "lock_free l (freelist_update g s) = lock_free l s"
  by (simp_all add: calm_def inside_def lock_free_def)

definition kmem_ready :: "'z kmem_st_scheme \<Rightarrow> bool" where
  "kmem_ready s = ((calm s \<or> inside s) \<and> lock_free LkKmem s)"

lemma kfree_eq:
  assumes "kmem_ready s" and "page_ok s v"
  shows "kfree v s = Ok () (s\<lparr>mem := store32 (memset_mem v 1 4096 (mem s)) v (freelist s), freelist := v\<rparr>)"
  using assms
  by (auto simp: kfree_def page_ok_def page_aligned_def not_le not_less kern_simps whenk_def
      acquire_free release_hold kmem_ready_def calm_def inside_def lock_free_def)

lemma kalloc_eq:
  assumes "kmem_ready s"
  shows "kalloc s = Ok (freelist s)
    (if freelist s = 0 then s else s\<lparr>freelist := load32 (mem s) (freelist s)\<rparr>)"
  using assms
  by (auto simp: kalloc_def kern_simps whenk_def acquire_free release_hold kmem_ready_def)

section \<open>The contract of a page allocator\<close>

text \<open>
  What the clients (process creation, page tables, pipes) rely on: the pool of free pages
  is a list of distinct valid pages; an allocation takes one page out of it or reports 0
  when it is empty; a page that is not in the pool can be returned to it.
\<close>

locale page_pool =
  fixes alloc :: "(uint32, 's) kern"
    and dealloc :: "uint32 \<Rightarrow> (unit, 's) kern"
    and pool :: "'s \<Rightarrow> uint32 list \<Rightarrow> bool"
    and valid_page :: "'s \<Rightarrow> uint32 \<Rightarrow> bool"
  assumes alloc_page: "pool s (p # ps) \<Longrightarrow> \<exists>t. alloc s = Ok p t \<and> pool t ps \<and> valid_page t = valid_page s"
    and alloc_empty: "pool s [] \<Longrightarrow> alloc s = Ok 0 s"
    and dealloc_page: "pool s ps \<Longrightarrow> valid_page s p \<Longrightarrow> p \<notin> set ps \<Longrightarrow>
      \<exists>t. dealloc p s = Ok () t \<and> pool t (p # ps) \<and> valid_page t = valid_page s"
    and pool_sound: "pool s ps \<Longrightarrow> distinct ps \<and> 0 \<notin> set ps \<and> (\<forall>p \<in> set ps. valid_page s p)"
begin

text \<open>\<open>n\<close> allocations in a row.\<close>

fun alloc_many :: "nat \<Rightarrow> (uint32 list, 's) kern" where
  "alloc_many 0 = ret []"
| "alloc_many (Suc n) = bnd alloc (\<lambda>p. bnd (alloc_many n) (\<lambda>ps. ret (p # ps)))"

lemma alloc_many_prefix:
  assumes "pool s ps" and "n \<le> length ps"
  shows "\<exists>t. alloc_many n s = Ok (take n ps) t \<and> pool t (drop n ps) \<and> valid_page t = valid_page s"
  using assms
proof (induction n arbitrary: s ps)
  case 0
  then show ?case by simp
next
  case (Suc n)
  then obtain p ps' where ps: "ps = p # ps'" by (cases ps) auto
  with Suc.prems obtain t where t: "alloc s = Ok p t" "pool t ps'" "valid_page t = valid_page s" using alloc_page by blast
  with Suc.prems ps Suc.IH [of t ps'] obtain u where
    "alloc_many n t = Ok (take n ps') u" "pool u (drop n ps')" "valid_page u = valid_page t" by auto
  with t ps show ?case by (simp add: kern_simps)
qed

lemma alloc_many_distinct:
  assumes "pool s ps" and "n \<le> length ps"
  shows "\<exists>qs t. alloc_many n s = Ok qs t \<and> length qs = n \<and> distinct qs \<and> 0 \<notin> set qs \<and>
    pool t (drop n ps) \<and> set qs \<inter> set (drop n ps) = {}"
proof -
  from alloc_many_prefix [OF assms] obtain t where
    "alloc_many n s = Ok (take n ps) t" "pool t (drop n ps)" by blast
  moreover have "distinct ps" "0 \<notin> set ps" using pool_sound [OF assms(1)] by auto
  moreover then have "set (take n ps) \<inter> set (drop n ps) = {}"
    by (metis append_take_drop_id distinct_append)
  ultimately show ?thesis using assms(2)
    by (intro exI [of _ "take n ps"] exI [of _ t]) (auto dest: in_set_takeD)
qed

lemma alloc_dealloc_cycle:
  assumes "pool s (p # ps)"
  shows "\<exists>t. bnd alloc dealloc s = Ok () t \<and> pool t (p # ps)"
proof -
  from alloc_page [OF assms] obtain t where t: "alloc s = Ok p t" "pool t ps" "valid_page t = valid_page s"
    by blast
  from pool_sound [OF assms] have "valid_page t p" "p \<notin> set ps" using t(3) by auto
  with dealloc_page [OF t(2)] obtain u where "dealloc p t = Ok () u" "pool u (p # ps)" by blast
  with t show ?thesis by (simp add: kern_simps)
qed

end

definition kmem_pool :: "'z kmem_st_scheme \<Rightarrow> uint32 list \<Rightarrow> bool" where
  "kmem_pool s ps = (kmem_ready s \<and> kmem_inv s ps)"

lemma kmem_ready_upd [simp]:
  "kmem_ready (mem_update f s) = kmem_ready s" "kmem_ready (freelist_update g s) = kmem_ready s"
  by (simp_all add: kmem_ready_def)

lemma kfree_pool:
  assumes "kmem_pool s ps" and "page_ok s v" and "v \<notin> set ps"
  shows "\<exists>t. kfree v s = Ok () t \<and> kmem_pool t (v # ps) \<and> page_ok t = page_ok s"
proof -
  let ?m = "store32 (memset_mem v 1 4096 (mem s)) v (freelist s)"
  have al: "page_aligned v" "\<And>a. a \<in> set ps \<Longrightarrow> page_aligned a"
    using assms by (auto simp: kmem_pool_def kmem_inv_def page_ok_def)
  have "load32 ?m a = load32 (mem s) a" if "a \<in> set ps" for a
    using that al assms(3) by (metis load32_store32_other load32_memset_other)
  then have "free_path ?m (freelist s) ps"
    using assms(1) free_path_cong [of ps ?m "mem s"] by (simp add: kmem_pool_def kmem_inv_def)
  then have "free_path ?m v (v # ps)" using page_ok_nonzero [OF assms(2)] by simp
  then show ?thesis using assms kfree_eq [of s v]
    by (auto simp: kmem_pool_def kmem_inv_def fun_eq_iff)
qed

lemma kalloc_pool:
  assumes "kmem_pool s (p # ps)"
  shows "\<exists>t. kalloc s = Ok p t \<and> kmem_pool t ps \<and> page_ok t = page_ok s"
  using assms kalloc_eq [of s] by (auto simp: kmem_pool_def kmem_inv_def fun_eq_iff)

interpretation kpool: page_pool kalloc kfree kmem_pool page_ok
proof unfold_locales
  fix s :: "'a kmem_st_scheme" and p ps
  show "kmem_pool s (p # ps) \<Longrightarrow> \<exists>t. kalloc s = Ok p t \<and> kmem_pool t ps \<and> page_ok t = page_ok s"
    by (rule kalloc_pool)
  show "kmem_pool s [] \<Longrightarrow> kalloc s = Ok 0 s"
    using kalloc_eq [of s] by (auto simp: kmem_pool_def kmem_inv_def)
  show "kmem_pool s ps \<Longrightarrow> page_ok s p \<Longrightarrow> p \<notin> set ps \<Longrightarrow>
    \<exists>t. kfree p s = Ok () t \<and> kmem_pool t (p # ps) \<and> page_ok t = page_ok s"
    by (rule kfree_pool)
  show "kmem_pool s ps \<Longrightarrow> distinct ps \<and> 0 \<notin> set ps \<and> (\<forall>p \<in> set ps. page_ok s p)"
    by (auto simp: kmem_pool_def kmem_inv_def dest: page_ok_nonzero)
qed

section \<open>Initialisation\<close>

lemma kfree_kend: "kfree v s = Ok x t \<Longrightarrow> kmem_ready s \<Longrightarrow> page_ok s v \<Longrightarrow> kend t = kend s"
  by (auto simp: kfree_eq)

lemma PGROUNDDOWN_unat: "unat (PGROUNDDOWN a) = unat a div 4096 * 4096"
proof -
  have m: "(4095 :: uint32) = mask 12"
    by (simp add: mask_eq_exp_minus_1)
  have "PGROUNDDOWN a = push_bit 12 (drop_bit 12 a)"
    by (rule bit_word_eqI) (auto simp: PGROUNDDOWN_def m bit_simps)
  moreover have "unat a < 2 ^ 32"
    using unsigned_less [of a] by simp
  then have "unat a div 4096 * 4096 < 2 ^ 32" "unat a div 4096 < 2 ^ 32"
    by (auto intro: le_less_trans [rotated])
  ultimately show ?thesis
    by (simp add: push_bit_eq_mult drop_bit_eq_div unat_word_ariths unat_div)
qed

text \<open>The whole pages of a range, in address order.\<close>

definition whole_pages :: "uint32 \<Rightarrow> nat \<Rightarrow> uint32 list" where
  "whole_pages p k = map (\<lambda>i. p + 4096 * of_nat i) [0..<k]"

lemma whole_pages_0 [simp]: "whole_pages p 0 = []"
  by (simp add: whole_pages_def)

lemma whole_pages_Suc: "whole_pages p (Suc k) = p # whole_pages (p + 4096) k"
  by (simp add: whole_pages_def upt_conv_Cons map_Suc_upt [symmetric] algebra_simps del: upt_Suc map_Suc_upt)

lemma page_ok_range:
  assumes "page_aligned p" "kend s \<le> p" "KERNBASE \<le> kend s" "p < p2v PHYSTOP"
  shows "page_ok s p"
proof -
  have "0x80000000 \<le> unat p" "unat p < 0x8E000000"
    using assms by (auto simp: word_le_nat_alt word_less_nat_alt p2v_def)
  then have "v2p p < PHYSTOP"
    by (simp add: v2p_def word_less_nat_alt unat_sub_if')
  with assms show ?thesis
    by (simp add: page_ok_def not_less)
qed

lemma freerange_loop_pool:
  assumes "kmem_pool s ps" "page_aligned p" "kend s \<le> p" "KERNBASE \<le> kend s" "vend \<le> p2v PHYSTOP"
    and "p \<le> p2v PHYSTOP" "k \<noteq> 0 \<Longrightarrow> unat p + 4096 * k \<le> unat vend" "unat vend < unat p + 4096 * Suc k"
    and "set (whole_pages p k) \<inter> set ps = {}" "distinct (whole_pages p k)" "k < n"
  shows "\<exists>t. freerange_loop n p vend s = Ok () t \<and> kmem_pool t (rev (whole_pages p k) @ ps)"
  using assms
proof (induction k arbitrary: n p s ps)
  case 0
  then obtain m where "n = Suc m"
    by (cases n) auto
  moreover have "\<not> p + 4096 \<le> vend"
    using 0 by (simp add: word_le_nat_alt unat_word_ariths p2v_def)
  ultimately show ?case
    using 0 by simp
next
  case (Suc k)
  then obtain m where n: "n = Suc m"
    by (cases n) auto
  have vend: "unat vend \<le> 0x8E000000"
    using Suc.prems by (simp add: word_le_nat_alt p2v_def)
  then have p': "unat (p + 4096) = unat p + 4096"
    using Suc.prems by (simp add: unat_word_ariths)
  have le: "p + 4096 \<le> vend" "p < p2v PHYSTOP" "p \<le> p + 4096"
    using Suc.prems p' vend by (simp_all add: word_le_nat_alt word_less_nat_alt p2v_def)
  have ok: "page_ok s p"
    using Suc.prems le by (intro page_ok_range) auto
  have "p \<notin> set ps"
    using Suc.prems by (auto simp: whole_pages_Suc)
  with ok Suc.prems(1) obtain s' where s': "kfree p s = Ok () s'" "kmem_pool s' (p # ps)"
    using kfree_pool by blast
  moreover have "kend s' = kend s"
    using s' ok Suc.prems(1) kfree_kend by (auto simp: kmem_pool_def)
  moreover have "page_aligned (p + 4096)"
    using Suc.prems(2) p' by (simp add: page_aligned_dvd)
  ultimately show ?case
    using Suc.IH [of s' "p # ps" "p + 4096" m] Suc.prems p' le n
    by (auto simp: whole_pages_Suc kern_simps)
qed

lemma distinct_whole_pages: "unat p + 4096 * k < 2 ^ 32 \<Longrightarrow> distinct (whole_pages p k)"
proof (unfold whole_pages_def, intro distinct_map [THEN iffD2] conjI inj_onI)
  fix i j assume b: "unat p + 4096 * k < 2 ^ 32" "i \<in> set [0..<k]" "j \<in> set [0..<k]"
    and "p + 4096 * of_nat i = p + 4096 * of_nat j"
  then have "unat (4096 * of_nat i :: uint32) = unat (4096 * of_nat j :: uint32)"
    by simp
  with b show "i = j"
    by (simp add: unat_word_ariths unat_of_nat)
qed simp

definition range_pages :: "uint32 \<Rightarrow> uint32 \<Rightarrow> uint32 list" where
  "range_pages vstart vend =
     whole_pages (PGROUNDUP vstart) ((unat vend - unat (PGROUNDUP vstart)) div 4096)"

lemma freerange_pool:
  assumes pool: "kmem_pool s ps" and kend: "KERNBASE \<le> kend s" "kend s \<le> vstart"
    and range: "vstart \<le> vend" "vend \<le> p2v PHYSTOP"
    and new: "set (range_pages vstart vend) \<inter> set ps = {}"
  shows "\<exists>t. freerange vstart vend s = Ok () t \<and> kmem_pool t (rev (range_pages vstart vend) @ ps)"
proof -
  let ?p = "PGROUNDUP vstart" and ?k = "(unat vend - unat (PGROUNDUP vstart)) div 4096"
  have vs: "unat vstart \<le> unat vend" "unat vend \<le> 0x8E000000"
    using range by (simp_all add: word_le_nat_alt p2v_def)
  then have "unat (vstart + 4095) = unat vstart + 4095"
    by (simp add: unat_word_ariths)
  then have p: "unat ?p = (unat vstart + 4095) div 4096 * 4096"
    using PGROUNDDOWN_unat [of "vstart + 4095"] by (simp add: PGROUNDUP_def PGROUNDDOWN_def add.commute)
  then have al: "page_aligned ?p" and le: "kend s \<le> ?p" and top: "unat ?p \<le> 0x8E000000"
    using kend vs by (simp_all add: page_aligned_dvd word_le_nat_alt)
  have "?k * 4096 \<le> unat vend - unat ?p" "unat vend - unat ?p < ?k * 4096 + 4096"
    by (simp, linarith)
  moreover from this have "unat ?p + 4096 * ?k < 4294967296"
    using vs top by linarith
  moreover have "?k < 1048577"
    using vs by linarith
  ultimately show ?thesis
    unfolding freerange_def range_pages_def
    using freerange_loop_pool [OF pool al le kend(1) range(2), of ?k "2 ^ 20 + 1"] new distinct_whole_pages top
    by (simp add: range_pages_def mult.commute word_le_nat_alt p2v_def)
qed

section \<open>Properties\<close>

fun kalloc_times :: "nat \<Rightarrow> (uint32 list, 'z kmem_st_scheme) kern" where
  "kalloc_times 0 = ret []"
| "kalloc_times (Suc n) = bnd kalloc (\<lambda>p. bnd (kalloc_times n) (\<lambda>ps. ret (p # ps)))"

lemma kalloc_times_eq: "kalloc_times n = kpool.alloc_many n"
  by (induction n) (simp_all only: kalloc_times.simps kpool.alloc_many.simps)

lemma kinit1_pool:
  assumes "calm s" "freelist s = 0" "KERNBASE \<le> kend s" "kend s \<le> vstart" "vstart \<le> vend" "vend \<le> p2v PHYSTOP"
  shows "\<exists>t. kinit1 vstart vend s = Ok () t \<and> kmem_pool t (rev (range_pages vstart vend))"
proof -
  let ?s = "use_lock_update (\<lambda>_. False) (set_lock LkKmem (\<lambda>k. k\<lparr>lname := ''kmem'', locked := 0, lcpu := None\<rparr>) s)"
  have "kmem_pool ?s []"
    using assms by (auto simp: kmem_pool_def kmem_ready_def kmem_inv_def calm_def lock_free_def set_lock_def)
  with assms freerange_pool [of ?s "[]" vstart vend] show ?thesis
    by (simp add: kinit1_def initlock_def kern_simps set_lock_def)
qed

text \<open>
  C24: initialising the allocator with the range \<open>[vstart, vend)\<close> (above the kernel image, below
  \<^verbatim>\<open>PHYSTOP\<close>) succeeds without panic or lock, and afterwards \<open>kalloc\<close> hands out each whole page
  of that range exactly once: \<open>n\<close> calls return \<open>n\<close> different pages of the range, all of them
  valid arguments of \<open>kfree\<close>, and once all pages are out \<open>kalloc\<close> returns 0.
\<close>

theorem kinit1_kalloc_all:
  assumes "calm s" "freelist s = 0" "KERNBASE \<le> kend s" "kend s \<le> vstart" "vstart \<le> vend" "vend \<le> p2v PHYSTOP"
    and "n \<le> length (range_pages vstart vend)"
  shows "\<exists>qs t. thn (kinit1 vstart vend) (kalloc_times n) s = Ok qs t \<and>
    length qs = n \<and> distinct qs \<and> 0 \<notin> set qs \<and> set qs \<subseteq> set (range_pages vstart vend) \<and>
    (\<forall>q\<in>set qs. page_ok t q) \<and>
    (n = length (range_pages vstart vend) \<longrightarrow> kalloc t = Ok 0 t)"
proof -
  let ?ps = "rev (range_pages vstart vend)"
  obtain u where u: "kinit1 vstart vend s = Ok () u" "kmem_pool u ?ps"
    using kinit1_pool assms by blast
  then obtain t where t: "kpool.alloc_many n u = Ok (take n ?ps) t" "kmem_pool t (drop n ?ps)"
    "page_ok t = page_ok u"
    using kpool.alloc_many_prefix [of u ?ps n] assms(7) by auto
  have ps: "distinct ?ps" "0 \<notin> set ?ps" "\<forall>p\<in>set ?ps. page_ok u p"
    using kpool.pool_sound [OF u(2)] by auto
  have "set (take n ?ps) \<subseteq> set (range_pages vstart vend)"
    using set_take_subset [of n ?ps] by simp
  moreover have "n = length (range_pages vstart vend) \<Longrightarrow> kalloc t = Ok 0 t"
    using t kpool.alloc_empty by simp
  ultimately show ?thesis
    using u t ps assms(7)
    by (intro exI [of _ "take n ?ps"] exI [of _ t])
      (auto simp: kern_simps kalloc_times_eq intro: distinct_take)
qed

text \<open>
  C7: \<open>kalloc\<close> and \<open>kfree\<close> implement a stack of pages.  With free pages \<open>ps\<close>, \<open>kalloc\<close> returns the
  top page and leaves the rest, or returns 0 and changes nothing when there is none;
  \<open>kfree\<close> panics exactly on an address that is not a page of the allocatable memory, and
  pushes a page that is not free already.
\<close>

theorem kalloc_kfree_refine_stack:
  assumes "kmem_pool s ps"
  shows "(ps = [] \<longrightarrow> kalloc s = Ok 0 s) \<and>
    (\<forall>p qs. ps = p # qs \<longrightarrow> (\<exists>t. kalloc s = Ok p t \<and> kmem_pool t qs)) \<and>
    (\<forall>v. \<not> page_ok s v \<longrightarrow> kfree v s = Panic ''kfree'') \<and>
    (\<forall>v. page_ok s v \<and> v \<notin> set ps \<longrightarrow> (\<exists>t. kfree v s = Ok () t \<and> kmem_pool t (v # ps)))"
proof (intro conjI allI impI)
  show "kfree v s = Panic ''kfree''" if "\<not> page_ok s v" for v
  proof -
    have "v mod 4096 \<noteq> 0 \<or> v < kend s \<or> v2p v \<ge> PHYSTOP"
      using that by (auto simp: page_ok_def page_aligned_def not_le not_less)
    then show ?thesis
      by (simp only: kfree_def kern_simps outcome.case if_True)
  qed
  show "\<exists>t. kfree v s = Ok () t \<and> kmem_pool t (v # ps)" if "page_ok s v \<and> v \<notin> set ps" for v
    using kpool.dealloc_page [OF assms] that by blast
qed (use assms kpool.alloc_empty kpool.alloc_page in blast)+

definition kmem_boot :: kmem_st where
  "kmem_boot = \<lparr>me = 0, cpus = (\<lambda>_. \<lparr>ncli = 0, intena = False, iflag = False\<rparr>),
     locks = (\<lambda>_. \<lparr>locked = 0, lname = [], lcpu = None\<rparr>),
     mem = (\<lambda>_. 0), use_lock = False, freelist = 0, kend = 0x80100010\<rparr>"

lemma calm_kmem_boot: "calm kmem_boot"
  by (simp add: calm_def lock_free_def kmem_boot_def)

lemma range_pages_boot: "range_pages 0x80100010 0x80104000 = [0x80101000, 0x80102000, 0x80103000]"
  by (simp add: range_pages_def PGROUNDUP_def whole_pages_def upt_rec)

theorem kinit1_kalloc_all_witness:
  "\<exists>qs t. thn (kinit1 0x80100010 0x80104000) (kalloc_times 3) kmem_boot = Ok qs t \<and>
    length qs = 3 \<and> distinct qs \<and> 0 \<notin> set qs \<and> set qs \<subseteq> {0x80101000, 0x80102000, 0x80103000} \<and>
    kalloc t = Ok 0 t"
  using kinit1_kalloc_all [where s = kmem_boot and vstart = "0x80100010" and vend = "0x80104000" and n = 3] calm_kmem_boot
  by (auto simp: kmem_boot_def p2v_def range_pages_boot)

theorem kalloc_kfree_refine_stack_witness:
  "kmem_pool kmem_boot [] \<and> kalloc kmem_boot = Ok 0 kmem_boot \<and> kfree 0x80101001 kmem_boot = Panic ''kfree'' \<and>
   (\<exists>t. kfree 0x80101000 kmem_boot = Ok () t \<and> kmem_pool t [0x80101000])"
proof -
  have "kmem_pool kmem_boot []"
    using calm_kmem_boot by (simp add: kmem_pool_def kmem_ready_def kmem_inv_def calm_def) (simp add: kmem_boot_def)
  moreover have "page_ok kmem_boot 0x80101000" "\<not> page_ok kmem_boot 0x80101001"
    by (simp_all add: page_ok_def page_aligned_def v2p_def kmem_boot_def)
  ultimately show ?thesis
    using kalloc_kfree_refine_stack [of kmem_boot "[]"] by simp
qed

end
