(* ===== verification/Cstring.thy ===== *)
theory Cstring
  imports Kalloc "HOL-Library.Signed_Division"
begin

text \<open>
  \<^verbatim>\<open>src/string.c\<close>, the string part of \<^verbatim>\<open>src/ulib.c\<close> and the copies in \<^verbatim>\<open>src/lsof.c\<close>, over the
  byte-addressed memory of \<^verbatim>\<open>Kalloc\<close>.  A pointer is an address, a loop over a count is a
  structural recursion on the count, a loop that runs until it meets a NUL byte is a
  \<open>partial_function\<close> whose value is \<open>None\<close> when there is no NUL to meet.
\<close>

section \<open>Block operations\<close>

fun stosb :: "memory \<Rightarrow> uint32 \<Rightarrow> uchar \<Rightarrow> nat \<Rightarrow> memory" where
  "stosb m a c 0 = m"
| "stosb m a c (Suc n) = stosb (m(a := c)) (a + 1) c n"

fun stosl :: "memory \<Rightarrow> uint32 \<Rightarrow> uint32 \<Rightarrow> nat \<Rightarrow> memory" where
  "stosl m a c 0 = m"
| "stosl m a c (Suc n) = stosl (store32 m a c) (a + 4) c n"

definition memset :: "memory \<Rightarrow> uint32 \<Rightarrow> uint32 \<Rightarrow> uint32 \<Rightarrow> memory" where
  "memset m dst c n =
     (if dst mod 4 = 0 \<and> n mod 4 = 0
      then let c = c AND 0xFF
           in stosl m dst (push_bit 24 c OR push_bit 16 c OR push_bit 8 c OR c) (unat (n div 4))
      else stosb m dst (ucast c) (unat n))"

fun memcmp_loop :: "memory \<Rightarrow> uint32 \<Rightarrow> uint32 \<Rightarrow> nat \<Rightarrow> int" where
  "memcmp_loop m s1 s2 0 = 0"
| "memcmp_loop m s1 s2 (Suc n) =
     (if m s1 \<noteq> m s2 then uint (m s1) - uint (m s2) else memcmp_loop m (s1 + 1) (s2 + 1) n)"

definition memcmp :: "memory \<Rightarrow> uint32 \<Rightarrow> uint32 \<Rightarrow> uint32 \<Rightarrow> int" where
  "memcmp m v1 v2 n = memcmp_loop m v1 v2 (unat n)"

fun copy_down :: "memory \<Rightarrow> uint32 \<Rightarrow> uint32 \<Rightarrow> nat \<Rightarrow> memory" where
  "copy_down m d s 0 = m"
| "copy_down m d s (Suc n) = copy_down (m(d - 1 := m (s - 1))) (d - 1) (s - 1) n"

fun copy_up :: "memory \<Rightarrow> uint32 \<Rightarrow> uint32 \<Rightarrow> nat \<Rightarrow> memory" where
  "copy_up m d s 0 = m"
| "copy_up m d s (Suc n) = copy_up (m(d := m s)) (d + 1) (s + 1) n"

definition memmove :: "memory \<Rightarrow> uint32 \<Rightarrow> uint32 \<Rightarrow> uint32 \<Rightarrow> memory" where
  "memmove m dst src n =
     (if src < dst \<and> src + n > dst
      then copy_down m (dst + n) (src + n) (unat n)
      else copy_up m dst src (unat n))"

definition memcpy :: "memory \<Rightarrow> uint32 \<Rightarrow> uint32 \<Rightarrow> uint32 \<Rightarrow> memory" where
  "memcpy m dst src n = memmove m dst src n"

section \<open>String operations\<close>

fun strncmp_loop :: "memory \<Rightarrow> uint32 \<Rightarrow> uint32 \<Rightarrow> nat \<Rightarrow> int" where
  "strncmp_loop m p q 0 = 0"
| "strncmp_loop m p q (Suc n) =
     (if m p \<noteq> 0 \<and> m p = m q then strncmp_loop m (p + 1) (q + 1) n else uint (m p) - uint (m q))"

definition strncmp :: "memory \<Rightarrow> uint32 \<Rightarrow> uint32 \<Rightarrow> uint32 \<Rightarrow> int" where
  "strncmp m p q n = strncmp_loop m p q (unat n)"

text \<open>The second loop of \<open>strncpy\<close> is the byte fill \<open>stosb\<close> with 0, entered after the NUL was copied.\<close>

fun strncpy_loop :: "memory \<Rightarrow> uint32 \<Rightarrow> uint32 \<Rightarrow> nat \<Rightarrow> memory" where
  "strncpy_loop m s t 0 = m"
| "strncpy_loop m s t (Suc n) =
     (let m' = m(s := m t)
      in if m t \<noteq> 0 then strncpy_loop m' (s + 1) (t + 1) n else stosb m' (s + 1) 0 n)"

definition strncpy :: "memory \<Rightarrow> uint32 \<Rightarrow> uint32 \<Rightarrow> int \<Rightarrow> memory" where
  "strncpy m s t n = strncpy_loop m s t (nat n)"

fun safestrcpy_loop :: "memory \<Rightarrow> uint32 \<Rightarrow> uint32 \<Rightarrow> nat \<Rightarrow> memory" where
  "safestrcpy_loop m s t 0 = m(s := 0)"
| "safestrcpy_loop m s t (Suc n) =
     (let m' = m(s := m t)
      in if m t \<noteq> 0 then safestrcpy_loop m' (s + 1) (t + 1) n else m'(s + 1 := 0))"

definition safestrcpy :: "memory \<Rightarrow> uint32 \<Rightarrow> uint32 \<Rightarrow> int \<Rightarrow> memory" where
  "safestrcpy m s t n = (if n \<le> 0 then m else safestrcpy_loop m s t (nat (n - 1)))"

partial_function (option) strlen_from :: "memory \<Rightarrow> uint32 \<Rightarrow> nat \<Rightarrow> nat option" where
  "strlen_from m s n = (if m (s + of_nat n) = 0 then Some n else strlen_from m s (n + 1))"

definition strlen :: "memory \<Rightarrow> uint32 \<Rightarrow> nat option" where
  "strlen m s = strlen_from m s 0"

section \<open>Decimal output\<close>

text \<open>
  \<^verbatim>\<open>itoa\<close> indexes \<^verbatim>\<open>digits\<close> with the remainder of C, which is negative for a negative number:
  an index outside the array is \<open>None\<close>.
\<close>

lemma sdiv_10_less: "x sdiv 10 \<noteq> 0 \<Longrightarrow> nat \<bar>x sdiv 10\<bar> < nat \<bar>x\<bar>" for x :: int
  by (auto simp: signed_divide_int_def abs_mult sgn_if split: if_splits)

definition digits :: "int \<Rightarrow> uchar option" where
  "digits i = (if 0 \<le> i \<and> i < 10 then Some (48 + of_int i) else if i = 10 then Some 0 else None)"

function itoa_loop :: "memory \<Rightarrow> uint32 \<Rightarrow> nat \<Rightarrow> int \<Rightarrow> (memory \<times> nat) option" where
  "itoa_loop m buf i x =
     (case digits (x smod 10) of
        None \<Rightarrow> None
      | Some c \<Rightarrow>
          let m' = m(buf + of_nat i := c); x' = x sdiv 10
          in if x' \<noteq> 0 then itoa_loop m' buf (i + 1) x' else Some (m', i + 1))"
  by pat_completeness auto

termination
  by (relation "measure (\<lambda>(m, buf, i, x). nat \<bar>x\<bar>)") (auto dest: sdiv_10_less)

partial_function (option) itoa_rev :: "memory \<Rightarrow> uint32 \<Rightarrow> nat \<Rightarrow> memory option" where
  "itoa_rev m buf i =
     Option.bind (strlen m buf) (\<lambda>len.
     if i < len div 2
     then let tmp = m (buf + of_nat i)
          in Option.bind (strlen m buf) (\<lambda>l.
             let m' = m(buf + of_nat i := m (buf + of_nat (l - i - 1)))
             in Option.bind (strlen m' buf) (\<lambda>l.
                itoa_rev (m'(buf + of_nat (l - i - 1) := tmp)) buf (i + 1)))
     else Some m)"

definition itoa :: "memory \<Rightarrow> int \<Rightarrow> uint32 \<Rightarrow> memory option" where
  "itoa m x buf =
     Option.bind (itoa_loop m buf 0 x) (\<lambda>(m', i). itoa_rev (m'(buf + of_nat i := 0)) buf 0)"

section \<open>The user library\<close>

partial_function (option) strcpy :: "memory \<Rightarrow> uint32 \<Rightarrow> uint32 \<Rightarrow> memory option" where
  "strcpy m s t =
     (let m' = m(s := m t) in if m t \<noteq> 0 then strcpy m' (s + 1) (t + 1) else Some m')"

partial_function (option) strcmp :: "memory \<Rightarrow> uint32 \<Rightarrow> uint32 \<Rightarrow> int option" where
  "strcmp m p q =
     (if m p \<noteq> 0 \<and> m p = m q then strcmp m (p + 1) (q + 1) else Some (uint (m p) - uint (m q)))"

definition ulib_memset :: "memory \<Rightarrow> uint32 \<Rightarrow> uint32 \<Rightarrow> uint32 \<Rightarrow> memory" where
  "ulib_memset m dst c n = stosb m dst (ucast c) (unat n)"

text \<open>\<open>strchr\<close> returns the null pointer 0 when the character does not occur before the NUL.\<close>

partial_function (option) strchr :: "memory \<Rightarrow> uint32 \<Rightarrow> uchar \<Rightarrow> uint32 option" where
  "strchr m s c = (if m s = 0 then Some 0 else if m s = c then Some s else strchr m (s + 1) c)"

partial_function (option) atoi_from :: "memory \<Rightarrow> uint32 \<Rightarrow> uint32 \<Rightarrow> uint32 option" where
  "atoi_from m s n =
     (if 48 \<le> m s \<and> m s \<le> 57 then atoi_from m (s + 1) (n * 10 + ucast (m s) - 48) else Some n)"

definition atoi :: "memory \<Rightarrow> uint32 \<Rightarrow> uint32 option" where
  "atoi m s = atoi_from m s 0"

definition ulib_memmove :: "memory \<Rightarrow> uint32 \<Rightarrow> uint32 \<Rightarrow> int \<Rightarrow> memory" where
  "ulib_memmove m dst src n = copy_up m dst src (nat n)"

section \<open>Writing and reading runs of bytes\<close>

definition write_bytes :: "memory \<Rightarrow> uint32 \<Rightarrow> uchar list \<Rightarrow> memory" where
  "write_bytes m p bs = (\<lambda>x. if in_range p (length bs) x then bs ! unat (x - p) else m x)"

definition read_bytes :: "memory \<Rightarrow> uint32 \<Rightarrow> nat \<Rightarrow> uchar list" where
  "read_bytes m p n = map (\<lambda>i. m (p + of_nat i)) [0..<n]"

lemma length_read_bytes [simp]: "length (read_bytes m p n) = n"
  by (simp add: read_bytes_def)

lemma nth_read_bytes [simp]: "i < n \<Longrightarrow> read_bytes m p n ! i = m (p + of_nat i)"
  by (simp add: read_bytes_def)

lemma write_bytes_Nil [simp]: "write_bytes m p [] = m"
  by (simp add: write_bytes_def in_range_def)

lemma unat_of_nat32: "n < 2 ^ 32 \<Longrightarrow> unat (of_nat n :: uint32) = n"
  by (simp add: unat_of_nat)

lemma write_bytes_append:
  assumes "length xs + length ys \<le> 2 ^ 32"
  shows "write_bytes m p (xs @ ys) = write_bytes (write_bytes m p xs) (p + of_nat (length xs)) ys"
proof
  fix x
  let ?d = "x - p" and ?n = "of_nat (length xs) :: uint32"
  have lt: "unat ?d < 2 ^ 32"
    using unsigned_less [of ?d] by simp
  show "write_bytes m p (xs @ ys) x = write_bytes (write_bytes m p xs) (p + ?n) ys x"
  proof (cases "ys = []")
    case False
    then have n: "unat ?n = length xs" "length xs < 2 ^ 32"
      using assms by (cases ys; simp add: unat_of_nat)+
    have e: "x - (p + ?n) = ?d - ?n"
      by simp
    show ?thesis
    proof (cases "unat ?d < length xs")
      case True
      then have "unat (?d - ?n) = 2 ^ 32 + unat ?d - length xs"
        using n by (simp add: unat_sub_if')
      then have "\<not> unat (?d - ?n) < length ys"
        using True assms n by simp
      with True show ?thesis
        unfolding write_bytes_def in_range_def e by (simp add: nth_append)
    next
      case False
      then have "unat (?d - ?n) = unat ?d - length xs"
        using n by (simp add: unat_sub_if')
      with False show ?thesis
        unfolding write_bytes_def in_range_def e by (simp add: nth_append less_diff_conv2)
    qed
  qed simp
qed

lemma write_bytes_single: "write_bytes m p [b] = m(p := b)"
  by (auto simp: write_bytes_def in_range_def fun_eq_iff unat_eq_zero)

lemma write_bytes_Cons:
  "length bs < 2 ^ 32 \<Longrightarrow> write_bytes m p (b # bs) = write_bytes (m(p := b)) (p + 1) bs"
  using write_bytes_append [of "[b]" bs m p] by (simp add: write_bytes_single)

lemma write_bytes_snoc:
  "length bs < 2 ^ 32 \<Longrightarrow> write_bytes m p (bs @ [b]) = (write_bytes m p bs)(p + of_nat (length bs) := b)"
  using write_bytes_append [of bs "[b]" m p] by (simp add: write_bytes_single)

lemma write_bytes_out: "\<not> in_range p (length bs) x \<Longrightarrow> write_bytes m p bs x = m x"
  by (simp add: write_bytes_def)

lemma write_bytes_at: "i < length bs \<Longrightarrow> i < 2 ^ 32 \<Longrightarrow> write_bytes m p bs (p + of_nat i) = bs ! i"
  by (simp add: write_bytes_def in_range_def unat_of_nat)

lemma write_bytes_over:
  "length xs = length ys \<Longrightarrow> write_bytes (write_bytes m p xs) p ys = write_bytes m p ys"
  by (auto simp: write_bytes_def fun_eq_iff)

lemma read_write_bytes: "length bs \<le> 2 ^ 32 \<Longrightarrow> read_bytes (write_bytes m p bs) p (length bs) = bs"
  by (intro nth_equalityI) (auto simp: write_bytes_at)

lemma memset_mem_write: "memset_mem a c n m = write_bytes m a (replicate n c)"
  by (auto simp: memset_mem_def write_bytes_def fun_eq_iff in_range_def)

section \<open>Filling\<close>

lemma stosb_write: "n \<le> 2 ^ 32 \<Longrightarrow> stosb m a c n = write_bytes m a (replicate n c)"
  by (induction m a c n rule: stosb.induct) (simp_all add: write_bytes_Cons)

lemma store32_write: "store32 m a v = write_bytes m a (le32 v)"
  by (simp add: store32_def le32_def write_bytes_Cons write_bytes_single add.assoc)

lemma stosl_write:
  "4 * n \<le> 2 ^ 32 \<Longrightarrow> stosl m a c n = write_bytes m a (concat (replicate n (le32 c)))"
proof (induction m a c n rule: stosl.induct)
  case (2 m a c n)
  have "length (concat (replicate n (le32 c))) = 4 * n"
    by (simp add: length_concat sum_list_replicate)
  with 2 show ?case
    by (simp add: store32_write write_bytes_append)
qed simp

lemma replicate_4: "replicate 4 x = [x, x, x, x]"
  by (simp add: eval_nat_numeral)

lemma le32_rep:
  fixes b :: uint32
  assumes "\<And>n. bit b n \<Longrightarrow> n < 8"
  shows "le32 (push_bit 24 b OR push_bit 16 b OR push_bit 8 b OR b) = replicate 4 (ucast b)"
  unfolding le32_def replicate_4 list.inject
  by (intro conjI bit_word_eqI; use assms in \<open>fastforce simp: bit_simps\<close>)

lemma memset_word: "ucast (c AND 0xFF :: uint32) = (ucast c :: uchar)" "bit (c AND 0xFF :: uint32) n \<Longrightarrow> n < 8"
proof -
  have m: "(0xFF :: uint32) = mask 8"
    by (simp add: mask_eq_exp_minus_1)
  show "ucast (c AND 0xFF :: uint32) = (ucast c :: uchar)"
    unfolding m by (rule bit_word_eqI) (auto simp: bit_simps)
  show "bit (c AND 0xFF :: uint32) n \<Longrightarrow> n < 8"
    unfolding m by (auto simp: bit_simps)
qed

lemma memset_write: "memset m dst c n = write_bytes m dst (replicate (unat n) (ucast c))"
proof -
  have n: "unat n < 2 ^ 32"
    using unsigned_less [of n] by simp
  have rep: "concat (replicate k (replicate 4 x)) = replicate (4 * k) x" for k and x :: uchar
    by (induction k) (simp_all add: replicate_add [symmetric])
  show ?thesis
  proof (cases "dst mod 4 = 0 \<and> n mod 4 = 0")
    case True
    then have "4 * (unat n div 4) = unat n"
      by (simp add: unat_eq_zero [symmetric] unat_mod mod_eq_0_iff_dvd dvd_mult_div_cancel del: unat_eq_zero)
    with True n show ?thesis
      unfolding memset_def Let_def
      by (subst stosl_write) (simp_all only: le32_rep memset_word rep unat_div if_True, simp_all)
  next
    case False
    with n show ?thesis
      by (simp only: memset_def if_False) (simp add: stosb_write)
  qed
qed

section \<open>Copying\<close>

lemma read_bytes_Suc: "read_bytes m s (Suc n) = m s # read_bytes m (s + 1) n"
  by (simp add: read_bytes_def upt_conv_Cons map_Suc_upt [symmetric] add.assoc del: upt_Suc map_Suc_upt)

lemma read_bytes_snoc: "read_bytes m s (Suc n) = read_bytes m s n @ [m (s + of_nat n)]"
  by (simp add: read_bytes_def)

lemma read_bytes_cong:
  "(\<And>i. i < n \<Longrightarrow> m (s + of_nat i) = m' (s + of_nat i)) \<Longrightarrow> read_bytes m s n = read_bytes m' s n"
  by (simp add: read_bytes_def)

lemma copy_up_write:
  assumes "n \<le> 2 ^ 32" and "\<And>i j. j < i \<Longrightarrow> i < n \<Longrightarrow> s + of_nat i \<noteq> d + of_nat j"
  shows "copy_up m d s n = write_bytes m d (read_bytes m s n)"
  using assms
proof (induction n arbitrary: m d s)
  case (Suc n)
  have "(s + 1) + of_nat i \<noteq> (d + 1) + of_nat j" if "j < i" "i < n" for i j
    using Suc.prems(2) [of "Suc j" "Suc i"] that by (simp add: algebra_simps)
  moreover have "read_bytes (m(d := m s)) (s + 1) n = read_bytes m (s + 1) n"
    using Suc.prems(2) [of 0] by (intro read_bytes_cong) (force simp: algebra_simps)
  ultimately show ?case
    using Suc by (simp add: read_bytes_Suc write_bytes_Cons)
qed (simp add: read_bytes_def)

lemma copy_down_write:
  assumes "n \<le> 2 ^ 32" and "\<And>i j. i < j \<Longrightarrow> j < n \<Longrightarrow> s + of_nat i \<noteq> d + of_nat j"
  shows "copy_down m (d + of_nat n) (s + of_nat n) n = write_bytes m d (read_bytes m s n)"
  using assms
proof (induction n arbitrary: m)
  case (Suc n)
  let ?q = "d + of_nat n" and ?b = "m (s + of_nat n)"
  have "read_bytes (m(?q := ?b)) s n = read_bytes m s n"
    using Suc.prems(2) by (intro read_bytes_cong) force
  moreover have "write_bytes (m(?q := ?b)) d xs = (write_bytes m d xs)(?q := ?b)" if "length xs = n" for xs
    using that Suc.prems(1) by (auto simp: write_bytes_def in_range_def fun_eq_iff unat_of_nat)
  ultimately show ?case
    using Suc by (simp add: read_bytes_snoc write_bytes_snoc algebra_simps)
qed (simp add: read_bytes_def)

lemma offset_neq:
  fixes s d :: uint32
  assumes "unat s + i < 2 ^ 32" "unat d + j < 2 ^ 32" "unat s + i \<noteq> unat d + j"
  shows "s + of_nat i \<noteq> d + of_nat j"
proof
  assume "s + of_nat i = d + of_nat j"
  then have "unat (s + of_nat i) = unat (d + of_nat j)"
    by simp
  with assms show False
    by (simp add: unat_word_ariths unat_of_nat)
qed

text \<open>
  For regions that do not wrap around the end of the address space,
  \<open>memmove\<close> leaves in the destination exactly the bytes that the source held before the
  call, whatever the overlap of the two regions, and changes no other byte.
\<close>

lemma memmove_copies:
  assumes "unat src + unat n < 2 ^ 32" and "unat dst + unat n < 2 ^ 32"
  shows "memmove m dst src n = write_bytes m dst (read_bytes m src (unat n))"
proof (cases "src < dst \<and> src + n > dst")
  case True
  then have "unat src < unat dst"
    by (simp add: word_less_nat_alt)
  then have "src + of_nat i \<noteq> dst + of_nat j" if "i < j" "j < unat n" for i j
    using that assms by (intro offset_neq) auto
  with True show ?thesis
    using copy_down_write [of "unat n" src dst m] assms by (simp add: memmove_def)
next
  case False
  then have "unat dst \<le> unat src \<or> unat src + unat n \<le> unat dst"
    using assms by (auto simp: word_less_nat_alt unat_word_ariths not_less)
  then have "src + of_nat i \<noteq> dst + of_nat j" if "j < i" "i < unat n" for i j
    using that assms by (intro offset_neq) auto
  with False show ?thesis
    using copy_up_write [of "unat n" src dst m] assms by (auto simp: memmove_def)
qed

text \<open>
  C40 (fill).  \<open>memset\<close> stores the low byte of \<open>c\<close> in each of the \<open>n\<close> bytes of the destination and
  nowhere else, on the word-wise path for aligned arguments as well as on the byte-wise path.
\<close>

theorem memset_fills: "memset m dst c n = memset_mem dst (ucast c) (unat n) m"
  by (simp add: memset_write memset_mem_write)

section \<open>Comparison\<close>

lemma memcmp_loop_eq_0: "memcmp_loop m s1 s2 n = 0 \<longleftrightarrow> read_bytes m s1 n = read_bytes m s2 n"
  by (induction m s1 s2 n rule: memcmp_loop.induct) (auto simp: read_bytes_Suc read_bytes_def [of _ _ 0] word_uint_eq_iff)

text \<open>The C string at an address: its bytes are not NUL and a NUL follows.\<close>

definition cstr_at :: "memory \<Rightarrow> uint32 \<Rightarrow> uchar list \<Rightarrow> bool" where
  "cstr_at m p xs = (read_bytes m p (Suc (length xs)) = xs @ [0] \<and> 0 \<notin> set xs)"

lemma cstr_at_Nil: "cstr_at m p [] \<longleftrightarrow> m p = 0"
  by (simp add: cstr_at_def read_bytes_def)

lemma cstr_at_Cons: "cstr_at m p (x # xs) \<longleftrightarrow> m p = x \<and> x \<noteq> 0 \<and> cstr_at m (p + 1) xs"
  unfolding cstr_at_def length_Cons by (subst read_bytes_Suc) auto

lemma cstr_at_fun: "cstr_at m p xs \<Longrightarrow> cstr_at m p ys \<Longrightarrow> xs = ys"
  by (induction xs arbitrary: p ys) (case_tac ys; auto simp: cstr_at_Nil cstr_at_Cons)+

lemma strncmp_loop_eq_0:
  "cstr_at m p xs \<Longrightarrow> cstr_at m q ys \<Longrightarrow> strncmp_loop m p q n = 0 \<longleftrightarrow> take n xs = take n ys"
proof (induction m p q n arbitrary: xs ys rule: strncmp_loop.induct)
  case (2 m p q n)
  then show ?case
    by (cases xs; cases ys) (auto simp: cstr_at_Nil cstr_at_Cons word_uint_eq_iff)
qed simp

lemma strlen_from_cstr:
  "cstr_at m (s + of_nat n) xs \<Longrightarrow> strlen_from m s n = Some (n + length xs)"
proof (induction xs arbitrary: n)
  case Nil
  then show ?case
    by (simp add: cstr_at_Nil strlen_from.simps)
next
  case (Cons x xs)
  from Cons.IH [of "Suc n"] Cons.prems show ?case
    by (subst strlen_from.simps) (simp add: cstr_at_Cons add.assoc add.commute [of 1])
qed

lemma strlen_cstr: "cstr_at m s xs \<Longrightarrow> strlen m s = Some (length xs)"
  using strlen_from_cstr [of m s 0] by (simp add: strlen_def)

lemma strcmp_cstr:
  "cstr_at m p xs \<Longrightarrow> cstr_at m q ys \<Longrightarrow> \<exists>r. strcmp m p q = Some r \<and> (r = 0 \<longleftrightarrow> xs = ys)"
proof (induction xs arbitrary: p q ys)
  case Nil
  then show ?case
    by (cases ys) (auto simp: cstr_at_Nil cstr_at_Cons strcmp.simps [of m p q] word_uint_eq_iff)
next
  case (Cons x xs)
  then show ?case
    by (cases ys) (auto simp: cstr_at_Nil cstr_at_Cons strcmp.simps [of m p q] word_uint_eq_iff)
qed

section \<open>Copying strings\<close>

text \<open>The result of copying the C string \<open>xs\<close> into a field of \<open>n\<close> bytes.\<close>

definition str_field :: "nat \<Rightarrow> uchar list \<Rightarrow> uchar list" where
  "str_field n xs = take n xs @ replicate (n - length xs) 0"

lemma length_str_field [simp]: "length (str_field n xs) = n"
  by (simp add: str_field_def)

lemma str_field_Cons: "str_field (Suc n) (x # xs) = x # str_field n xs"
  by (simp add: str_field_def)

lemma str_field_Nil: "str_field n [] = replicate n 0"
  by (simp add: str_field_def)

text \<open>The first \<open>k\<close> bytes from \<open>t\<close> on do not meet the \<open>n\<close> bytes from \<open>s\<close> on.\<close>

definition apart :: "uint32 \<Rightarrow> nat \<Rightarrow> uint32 \<Rightarrow> nat \<Rightarrow> bool" where
  "apart s n t k = (\<forall>i < n. \<forall>j < k. s + of_nat i \<noteq> t + of_nat j)"

lemma apartD: "apart s n t k \<Longrightarrow> i < n \<Longrightarrow> j < k \<Longrightarrow> s + of_nat i \<noteq> t + of_nat j"
  by (simp add: apart_def)

lemma apartI: "unat t + k \<le> unat s \<Longrightarrow> unat s + n \<le> 2 ^ 32 \<Longrightarrow> apart s n t k"
  unfolding apart_def by (intro allI impI offset_neq) auto

lemma apart_step: "apart s (Suc n) t (Suc k) \<Longrightarrow> apart (s + 1) n (t + 1) k"
  unfolding apart_def [of "s + 1"] using apartD [of s "Suc n" t "Suc k" "Suc _" "Suc _"]
  by (simp add: add.assoc)

lemma apart_here: "apart s (Suc n) t (Suc k) \<Longrightarrow> j < k \<Longrightarrow> t + 1 + of_nat j \<noteq> s"
  using apartD [of s "Suc n" t "Suc k" 0 "Suc j"] by (simp add: add.assoc)

lemma cstr_at_upd:
  assumes "cstr_at m t xs" and "\<And>j. j \<le> length xs \<Longrightarrow> t + of_nat j \<noteq> s"
  shows "cstr_at (m(s := b)) t xs"
proof -
  have "read_bytes (m(s := b)) t (Suc (length xs)) = read_bytes m t (Suc (length xs))"
    using assms(2) by (intro read_bytes_cong) (auto simp: less_Suc_eq_le)
  with assms(1) show ?thesis
    by (simp add: cstr_at_def)
qed

lemma strncpy_loop_write:
  assumes "cstr_at m t xs" "apart s n t (Suc (length xs))" "n \<le> 2 ^ 32"
  shows "strncpy_loop m s t n = write_bytes m s (str_field n xs)"
  using assms
proof (induction n arbitrary: m s t xs)
  case (Suc n)
  show ?case
  proof (cases xs)
    case Nil
    with Suc.prems show ?thesis
      by (simp add: cstr_at_Nil str_field_Nil stosb_write write_bytes_Cons)
  next
    case (Cons y ys)
    have ap: "apart s (Suc n) t (Suc (Suc (length ys)))"
      using Suc.prems Cons by simp
    then have "cstr_at (m(s := y)) (t + 1) ys"
      using Suc.prems Cons apart_here [OF ap] by (intro cstr_at_upd) (auto simp: cstr_at_Cons less_Suc_eq_le)
    with Suc Cons show ?thesis
      using apart_step [OF ap] by (auto simp: cstr_at_Cons str_field_Cons write_bytes_Cons)
  qed
qed (simp add: str_field_def)

lemma strncpy_write:
  "cstr_at m t xs \<Longrightarrow> apart s (nat n) t (Suc (length xs)) \<Longrightarrow> n \<le> 2 ^ 31 \<Longrightarrow>
    strncpy m s t n = write_bytes m s (str_field (nat n) xs)"
  unfolding strncpy_def by (rule strncpy_loop_write) auto

text \<open>
  \<open>safestrcpy\<close> copies at most \<open>n - 1\<close> characters and always terminates.  When the whole string fits
  it writes the NUL twice, at the end of the string and, one byte further, again.
\<close>

definition safe_field :: "nat \<Rightarrow> uchar list \<Rightarrow> uchar list" where
  "safe_field k xs = (if length xs < k then xs @ [0, 0] else take k xs @ [0])"

lemma safe_field_Cons: "safe_field (Suc k) (x # xs) = x # safe_field k xs"
  by (simp add: safe_field_def)

lemma length_safe_field: "length (safe_field k xs) \<le> Suc k"
  by (simp add: safe_field_def)

lemma safestrcpy_loop_write:
  assumes "cstr_at m t xs" "apart s (Suc k) t (Suc (length xs))" "k < 2 ^ 32"
  shows "safestrcpy_loop m s t k = write_bytes m s (safe_field k xs)"
  using assms
proof (induction k arbitrary: m s t xs)
  case 0
  then show ?case
    by (simp add: safe_field_def write_bytes_single)
next
  case (Suc k)
  show ?case
  proof (cases xs)
    case Nil
    with Suc.prems show ?thesis
      by (simp add: cstr_at_Nil safe_field_def write_bytes_Cons write_bytes_single)
  next
    case (Cons y ys)
    have ap: "apart s (Suc (Suc k)) t (Suc (Suc (length ys)))"
      using Suc.prems Cons by simp
    then have "cstr_at (m(s := y)) (t + 1) ys"
      using Suc.prems Cons apart_here [OF ap] by (intro cstr_at_upd) (auto simp: cstr_at_Cons less_Suc_eq_le)
    moreover have "length (safe_field k ys) < 2 ^ 32"
      using length_safe_field [of k ys] Suc.prems(3) by simp
    ultimately show ?thesis
      using Suc Cons apart_step [OF ap] by (auto simp: cstr_at_Cons safe_field_Cons write_bytes_Cons)
  qed
qed

lemma cstr_at_write:
  assumes "0 \<notin> set xs" "length xs < 2 ^ 32" "take (Suc (length xs)) bs = xs @ [0]"
  shows "cstr_at (write_bytes m s bs) s xs"
proof -
  have l: "length xs < length bs"
    using arg_cong [OF assms(3), of length] by simp
  have "read_bytes (write_bytes m s bs) s (Suc (length xs)) = take (Suc (length xs)) bs"
    using l assms(2) by (intro nth_equalityI) (simp_all add: write_bytes_at less_Suc_eq_le)
  with assms show ?thesis
    by (simp add: cstr_at_def)
qed

text \<open>
  C39 (bounded string copy).  When source and destination do not overlap, \<open>strncpy\<close> writes exactly
  \<open>n\<close> bytes, the string cut off or padded with NULs, and \<open>safestrcpy\<close> stays within the \<open>n\<close> bytes of
  the destination and leaves there a NUL-terminated string, the first \<open>n - 1\<close> characters of the source.
\<close>

theorem strncpy_safestrcpy_spec:
  assumes "cstr_at m t xs" "0 < n" "n \<le> 2 ^ 31" "apart s (nat n) t (Suc (length xs))"
  shows "strncpy m s t n = write_bytes m s (str_field (nat n) xs) \<and>
    cstr_at (safestrcpy m s t n) s (take (nat (n - 1)) xs) \<and>
    (\<forall>a. \<not> in_range s (nat n) a \<longrightarrow> safestrcpy m s t n a = m a)"
proof (intro conjI allI impI)
  let ?k = "nat (n - 1)"
  have n: "nat n = Suc ?k" "?k < 2 ^ 32"
    using assms(2,3) by auto
  have w: "safestrcpy m s t n = write_bytes m s (safe_field ?k xs)"
    using safestrcpy_loop_write [of m t xs s ?k] assms n by (simp add: safestrcpy_def)
  have "0 \<notin> set (take ?k xs)"
    using assms(1) by (auto simp: cstr_at_def dest: in_set_takeD)
  then show "cstr_at (safestrcpy m s t n) s (take ?k xs)"
    using n unfolding w by (intro cstr_at_write) (auto simp: safe_field_def min_def)
  show "safestrcpy m s t n a = m a" if "\<not> in_range s (nat n) a" for a
    using that length_safe_field [of ?k xs] n unfolding w
    by (intro write_bytes_out) (auto simp: in_range_def)
qed (use assms strncpy_write in auto)

theorem strncpy_safestrcpy_spec_witness:
  "cstr_at (safestrcpy (write_bytes (\<lambda>_. 7) 0x100 [65, 66, 67, 0]) 0x200 0x100 3) 0x200 [65, 66]"
proof -
  have "cstr_at (write_bytes (\<lambda>_. 7) 0x100 [65, 66, 67, 0]) 0x100 [65, 66, 67]"
    by (rule cstr_at_write) simp_all
  moreover have "apart 0x200 3 0x100 4"
    by (rule apartI) simp_all
  ultimately show ?thesis
    using strncpy_safestrcpy_spec [of _ "0x100" "[65, 66, 67]" 3 "0x200"] by (simp add: eval_nat_numeral)
qed

section \<open>Decimal numbers\<close>

fun decimal :: "nat \<Rightarrow> uchar list" where
  "decimal n = (if n < 10 then [48 + of_nat n] else decimal (n div 10) @ [48 + of_nat (n mod 10)])"

declare decimal.simps [simp del] itoa_loop.simps [simp del]

lemma unat_offset_eq:
  assumes "k < 2 ^ 32"
  shows "unat (x - p :: uint32) = k \<longleftrightarrow> x = p + of_nat k"
proof
  assume "unat (x - p) = k"
  then have "of_nat (unat (x - p)) = (of_nat k :: uint32)"
    by simp
  then show "x = p + of_nat k"
    by (simp add: diff_eq_eq add.commute)
qed (use assms in \<open>simp add: unat_of_nat\<close>)

lemma write_bytes_upd:
  assumes "k < length bs" "length bs \<le> 2 ^ 32"
  shows "(write_bytes m p bs)(p + of_nat k := b) = write_bytes m p (bs[k := b])"
proof
  fix x
  have "unat (x - p) = k \<longleftrightarrow> x = p + of_nat k"
    using assms by (intro unat_offset_eq) simp
  then show "((write_bytes m p bs)(p + of_nat k := b)) x = write_bytes m p (bs[k := b]) x"
    using assms(1) unfolding write_bytes_def in_range_def fun_upd_def
    by (cases "unat (x - p) = k") (simp_all add: nth_list_update)
qed

lemma length_decimal_Suc: "length (decimal n) = (if n < 10 then 1 else Suc (length (decimal (n div 10))))"
  by (subst decimal.simps) simp

lemma length_decimal_pos [simp]: "0 < length (decimal n)" "decimal n \<noteq> []"
  by (subst decimal.simps; simp)+

lemma length_decimal_bound: "n < 10 ^ k \<Longrightarrow> 0 < k \<Longrightarrow> length (decimal n) \<le> k"
proof (induction k arbitrary: n)
  case (Suc k)
  show ?case
  proof (cases "n < 10")
    case False
    then have "0 < k"
      using Suc.prems by (cases k) auto
    moreover have "n div 10 < 10 ^ k"
      using Suc.prems by (simp add: less_mult_imp_div_less mult.commute)
    ultimately show ?thesis
      using Suc.IH [of "n div 10"] False by (simp add: length_decimal_Suc [of n])
  qed (simp add: length_decimal_Suc [of n])
qed simp

lemma digit_nonzero: "d < 10 \<Longrightarrow> (48 + of_nat d :: uchar) \<noteq> 0"
  by (simp add: unat_eq_zero [symmetric] unat_word_ariths unat_of_nat del: unat_eq_zero)

lemma decimal_no_nul: "0 \<notin> set (decimal n)"
proof (induction n rule: decimal.induct)
  case (1 n)
  have "n mod 10 < 10"
    by simp
  with 1 digit_nonzero [of n] digit_nonzero [of "n mod 10"] show ?case
    by (subst decimal.simps) (auto simp del: of_nat_mod)
qed

lemma smod_sdiv_nat: "int x smod 10 = int (x mod 10)" "int x sdiv 10 = int (x div 10)"
  by (simp_all add: signed_modulo_int_def signed_divide_int_def sgn_if zmod_int zdiv_int minus_div_mult_eq_mod)

lemma itoa_loop_decimal:
  "length (decimal x) < 2 ^ 32 \<Longrightarrow>
    itoa_loop m buf i (int x) =
      Some (write_bytes m (buf + of_nat i) (rev (decimal x)), i + length (decimal x))"
proof (induction x arbitrary: m i rule: decimal.induct)
  case (1 x)
  have d: "digits (int x smod 10) = Some (48 + of_nat (x mod 10))"
    by (simp add: smod_sdiv_nat digits_def del: of_nat_mod)
  show ?case
  proof (cases "x < 10")
    case True
    then show ?thesis
      using d by (subst itoa_loop.simps, subst (1 2) decimal.simps)
        (simp add: smod_sdiv_nat Let_def write_bytes_single)
  next
    case False
    with 1 show ?thesis
      using d by (subst itoa_loop.simps, subst (1 2) decimal.simps)
        (simp add: smod_sdiv_nat Let_def write_bytes_Cons length_decimal_Suc [of x] add_ac div_eq_0_iff)
  qed
qed

text \<open>
  The in-place reversal: after \<open>i\<close> rounds the first and the last \<open>i\<close> bytes have been exchanged.
\<close>

definition rev_state :: "nat \<Rightarrow> uchar list \<Rightarrow> uchar list" where
  "rev_state i ys = map (\<lambda>j. if j < i \<or> length ys - 1 - j < i then ys ! (length ys - 1 - j) else ys ! j)
     [0..<length ys]"

lemma length_rev_state [simp]: "length (rev_state i ys) = length ys"
  by (simp add: rev_state_def)

lemma rev_state_nth: "j < length ys \<Longrightarrow> rev_state i ys ! j =
    (if j < i \<or> length ys - 1 - j < i then ys ! (length ys - 1 - j) else ys ! j)"
  by (simp add: rev_state_def)

lemma rev_state_0: "rev_state 0 ys = ys"
  by (intro nth_equalityI) (simp_all add: rev_state_nth)

lemma rev_state_half: "\<not> i < length ys div 2 \<Longrightarrow> rev_state i ys = rev ys"
  by (intro nth_equalityI) (auto simp: rev_state_nth rev_nth, (rule arg_cong [of _ _ "(!) ys"], linarith)+)

lemma rev_state_Suc:
  assumes "i < length ys div 2"
  shows "rev_state (Suc i) ys =
    (rev_state i ys)[i := rev_state i ys ! (length ys - i - 1), length ys - i - 1 := rev_state i ys ! i]"
  using assms by (intro nth_equalityI) (auto simp: rev_state_nth nth_list_update)

lemma set_rev_state: "set (rev_state i ys) \<subseteq> set ys"
  by (auto simp: rev_state_def intro!: nth_mem)

lemma cstr_at_writeI: "0 \<notin> set xs \<Longrightarrow> length xs < 2 ^ 32 \<Longrightarrow> cstr_at (write_bytes m s (xs @ [0])) s xs"
  by (rule cstr_at_write) auto

lemma itoa_rev_step:
  assumes zs: "0 \<notin> set zs" "length zs < 2 ^ 32" and i: "i < length zs div 2"
  shows "itoa_rev (write_bytes m buf (zs @ [0])) buf i =
    itoa_rev (write_bytes m buf (zs[i := zs ! (length zs - i - 1), length zs - i - 1 := zs ! i] @ [0])) buf (i + 1)"
proof -
  let ?k = "length zs - i - 1" and ?w = "\<lambda>xs. write_bytes m buf (xs @ [0])"
  have at: "?w zs (buf + of_nat j) = zs ! j" if "j < length zs" for j
    using that zs by (subst write_bytes_at) (simp_all add: nth_append)
  have up: "(?w xs)(buf + of_nat j := b) = ?w (xs[j := b])" if "j < length xs" "length xs < 2 ^ 32" for xs j b
    using that by (subst write_bytes_upd) (simp_all add: list_update_append)
  have "zs ! ?k \<in> set zs"
    using i by (intro nth_mem) linarith
  then have "0 \<notin> set (zs[i := zs ! ?k])"
    using zs set_update_subset_insert [of zs i "zs ! ?k"] by auto
  then have l2: "strlen (?w (zs[i := zs ! ?k])) buf = Some (length (zs[i := zs ! ?k]))"
    using zs by (intro strlen_cstr cstr_at_writeI) simp_all
  have l1: "strlen (?w zs) buf = Some (length zs)"
    using zs by (intro strlen_cstr cstr_at_writeI)
  have b: "i < length zs" "?k < length zs"
    using i by linarith+
  show ?thesis
    unfolding itoa_rev.simps [of "?w zs"] l1 Option.bind.bind_lunit Let_def if_P [OF i]
    using b zs by (simp only: at up l2 Option.bind.bind_lunit length_list_update)
qed

lemma itoa_rev_state:
  assumes "0 \<notin> set ys" "length ys < 2 ^ 32"
  shows "itoa_rev (write_bytes m buf (rev_state i ys @ [0])) buf i = Some (write_bytes m buf (rev ys @ [0]))"
proof (induction "length ys div 2 - i" arbitrary: i)
  case 0
  have "strlen (write_bytes m buf (rev_state i ys @ [0])) buf = Some (length (rev_state i ys))"
    using set_rev_state [of i ys] assms by (intro strlen_cstr cstr_at_writeI) auto
  with 0 show ?case
    by (subst itoa_rev.simps) (simp add: rev_state_half)
next
  case (Suc d)
  then have i: "i < length ys div 2"
    by linarith
  have "0 \<notin> set (rev_state i ys)"
    using set_rev_state [of i ys] assms by auto
  with i have "itoa_rev (write_bytes m buf (rev_state i ys @ [0])) buf i =
      itoa_rev (write_bytes m buf (rev_state (Suc i) ys @ [0])) buf (Suc i)"
    using itoa_rev_step [of "rev_state i ys" i m buf] assms by (simp add: rev_state_Suc)
  with Suc show ?case
    by simp
qed

lemma itoa_write:
  assumes "length (decimal x) < 2 ^ 32"
  shows "itoa m (int x) buf = Some (write_bytes m buf (decimal x @ [0]))"
proof -
  let ?ys = "rev (decimal x)"
  have "(write_bytes m buf ?ys)(buf + of_nat (length ?ys) := 0) = write_bytes m buf (?ys @ [0])"
    using assms by (subst write_bytes_snoc) simp_all
  then show ?thesis
    using itoa_rev_state [of ?ys m buf 0] assms decimal_no_nul [of x]
    by (simp add: itoa_def itoa_loop_decimal rev_state_0)
qed

lemma itoa_loop_negative: "x < 0 \<Longrightarrow> itoa_loop m buf i x = None"
proof (induction m buf i x rule: itoa_loop.induct)
  case (1 m buf i x)
  have q: "x sdiv 10 = - (- x div 10)" and r: "x smod 10 = - (- x mod 10)"
    using 1(2) by (simp_all add: signed_modulo_int_def signed_divide_int_def sgn_if minus_div_mult_eq_mod [symmetric])
  show ?case
  proof (cases "- x mod 10 = 0")
    case True
    then have "x sdiv 10 < 0"
      using 1(2) unfolding q by presburger
    then show ?thesis
      using 1(1) [OF _ refl refl] by (subst itoa_loop.simps) (simp add: Let_def fun_upd_def split: option.split)
  next
    case False
    have "0 \<le> - x mod 10"
      by simp
    with False have "x smod 10 < 0"
      unfolding r by linarith
    then show ?thesis
      by (subst itoa_loop.simps) (simp add: digits_def)
  qed
qed

lemma atoi_from_digits:
  assumes "\<forall>c \<in> set ds. 48 \<le> c \<and> c \<le> 57" "read_bytes m s (Suc (length ds)) = ds @ [0]"
  shows "atoi_from m s n = Some (foldl (\<lambda>n c. n * 10 + ucast c - 48) n ds)"
  using assms
proof (induction ds arbitrary: s n)
  case Nil
  then show ?case
    by (simp add: atoi_from.simps read_bytes_def)
next
  case (Cons d ds)
  have "m s = d" "read_bytes m (s + 1) (Suc (length ds)) = ds @ [0]"
    using Cons.prems(2) by (simp_all add: read_bytes_Suc [of m s])
  with Cons show ?case
    by (subst atoi_from.simps) simp
qed

lemma decimal_digits: "\<forall>c \<in> set (decimal n). 48 \<le> c \<and> c \<le> 57"
proof (induction n rule: decimal.induct)
  case (1 n)
  have d: "48 \<le> (48 + of_nat k :: uchar) \<and> (48 + of_nat k :: uchar) \<le> 57" if "k < 10" for k
    using that by (simp add: word_le_nat_alt unat_word_ariths unat_of_nat)
  then show ?case
    using 1 d [of n] d [of "n mod 10"] by (subst decimal.simps) (auto simp del: of_nat_mod)
qed

lemma decimal_value: "foldl (\<lambda>n c. n * 10 + ucast c - 48) 0 (decimal n) = (of_nat n :: uint32)"
proof (induction n rule: decimal.induct)
  case (1 n)
  have d: "ucast (48 + of_nat k :: uchar) = (48 + of_nat k :: uint32)" if "k < 10" for k
    using that by (intro word_unat_eq_iff [THEN iffD2]) (simp add: unat_word_ariths unat_of_nat unsigned_ucast_eq take_bit_eq_mod)
  have "of_nat (n div 10) * 10 + of_nat (n mod 10) = (of_nat (n div 10 * 10 + n mod 10) :: uint32)"
    by (simp only: of_nat_add of_nat_mult of_nat_numeral)
  then show ?case
    using 1 d [of n] d [of "n mod 10"] by (subst decimal.simps) (simp del: of_nat_mod)
qed

text \<open>
  C38 (decimal round trip).  For every non-negative \<^verbatim>\<open>int\<close>, \<open>itoa\<close> terminates and leaves in the buffer
  the decimal digits of the number and a NUL, at most 11 bytes in all, from which \<open>atoi\<close> reads the
  number back.  For a negative number \<open>itoa\<close> indexes its digit table out of range.
\<close>

theorem itoa_atoi_roundtrip:
  assumes "x < 2 ^ 31"
  shows "(0 \<le> x \<longrightarrow> (\<exists>m'. itoa m x buf = Some m' \<and> cstr_at m' buf (decimal (nat x)) \<and>
           atoi m' buf = Some (of_int x) \<and> (\<forall>a. \<not> in_range buf 11 a \<longrightarrow> m' a = m a))) \<and>
    (x < 0 \<longrightarrow> itoa m x buf = None)"
proof (intro conjI impI)
  show "itoa m x buf = None" if "x < 0"
    using that by (simp add: itoa_def itoa_loop_negative)
next
  assume "0 \<le> x"
  let ?ds = "decimal (nat x)" and ?w = "write_bytes m buf (decimal (nat x) @ [0])"
  have l: "length ?ds \<le> 10"
    using assms \<open>0 \<le> x\<close> by (intro length_decimal_bound) (simp_all add: nat_less_iff)
  then have c: "cstr_at ?w buf ?ds"
    using decimal_no_nul by (intro cstr_at_writeI) auto
  then have "atoi ?w buf = Some (of_nat (nat x))"
    using atoi_from_digits [OF decimal_digits, of ?w buf "nat x" 0]
    by (simp add: atoi_def cstr_at_def decimal_value)
  moreover have "\<forall>a. \<not> in_range buf 11 a \<longrightarrow> ?w a = m a"
    using l by (auto simp: in_range_def intro!: write_bytes_out)
  ultimately show "\<exists>m'. itoa m x buf = Some m' \<and> cstr_at m' buf ?ds \<and>
         atoi m' buf = Some (of_int x) \<and> (\<forall>a. \<not> in_range buf 11 a \<longrightarrow> m' a = m a)"
    using itoa_write [of "nat x" m buf] l c \<open>0 \<le> x\<close> by simp
qed

theorem itoa_atoi_roundtrip_witness:
  "(\<exists>m'. itoa (\<lambda>_. 0) 172 0x100 = Some m' \<and> cstr_at m' 0x100 [49, 55, 50] \<and> atoi m' 0x100 = Some 172) \<and>
   itoa (\<lambda>_. 0) (- 5) 0x100 = None"
proof -
  have "decimal 172 = [49, 55, 50]"
    by (simp add: decimal.simps)
  then show ?thesis
    using itoa_atoi_roundtrip [of 172 "\<lambda>_. 0" "0x100"] itoa_atoi_roundtrip [of "- 5" "\<lambda>_. 0" "0x100"]
    by auto
qed

end
