(* ===== verification/Sched.thy ===== *)
theory Sched
  imports Cstring
begin

text \<open>
  The process table and the part of \<^verbatim>\<open>src/proc.c\<close> that the rest of the kernel relies on:
  allocation of a process slot, the scheduler, sleeping and waking up, killing.

  A context switch is the outcome \<open>Switch\<close>: the code up to the call of \<^verbatim>\<open>swtch\<close> is one
  definition, the code after it another one (\<open>sched_resume\<close>, \<open>sleep_resume\<close>,
  \<open>scheduler_back\<close>), which runs when the CPU comes back, from whatever state it then finds.
  A \<^verbatim>\<open>struct proc *\<close> is the index of the process in \<^verbatim>\<open>ptable\<close>; trap frame, saved context and
  page table are in memory, behind the addresses in the record.
\<close>

section \<open>State\<close>

datatype procstate = UNUSED | EMBRYO | SLEEPING | RUNNABLE | RUNNING | ZOMBIE

record proc =
  p_sz :: uint32
  p_pgdir :: uint32
  p_kstack :: uint32
  p_state :: procstate
  p_pid :: uint32
  p_parent :: "nat option"
  p_tf :: uint32
  p_context :: uint32
  p_chan :: "chan option"
  p_killed :: bool
  p_ofile :: "nat \<Rightarrow> nat option"
  p_cwd :: "nat option"
  p_name :: "uchar list"

text \<open>
  \<open>cproc c\<close> is the variable \<^verbatim>\<open>proc\<close> of CPU \<open>c\<close>, \<open>cr3 c\<close> its page table register and \<open>esp0 c\<close> the kernel
  stack pointer in its task state; the addresses of \<^verbatim>\<open>trapret\<close> and \<^verbatim>\<open>forkret\<close> are constants.
\<close>

record sched_st = kmem_st +
  ptable :: "nat \<Rightarrow> proc"
  initproc :: "nat option"
  nextpid :: uint32
  cproc :: "nat \<Rightarrow> nat option"
  cr3 :: "nat \<Rightarrow> uint32"
  esp0 :: "nat \<Rightarrow> uint32"
  kpgdir :: uint32
  trapret :: uint32
  forkret_addr :: uint32

definition curproc :: "'z sched_st_scheme \<Rightarrow> nat option" where
  "curproc s = cproc s (me s)"

definition upd_proc :: "nat \<Rightarrow> (proc \<Rightarrow> proc) \<Rightarrow> 'z sched_st_scheme \<Rightarrow> 'z sched_st_scheme" where
  "upd_proc p f s = s\<lparr>ptable := (ptable s)(p := f (ptable s p))\<rparr>"

text \<open>Code that dereferences \<^verbatim>\<open>proc\<close>.\<close>

definition with_proc :: "(nat \<Rightarrow> ('a, 'z sched_st_scheme) kern) \<Rightarrow> ('a, 'z sched_st_scheme) kern" where
  "with_proc f = bnd (rd curproc) (\<lambda>r. case r of None \<Rightarrow> fault ''proc is null'' | Some p \<Rightarrow> f p)"

section \<open>Page table register\<close>

definition switchkvm :: "(unit, 'z sched_st_scheme) kern" where
  "switchkvm = md (\<lambda>s. s\<lparr>cr3 := (cr3 s)(me s := v2p (kpgdir s))\<rparr>)"

definition switchuvm :: "nat \<Rightarrow> (unit, 'z sched_st_scheme) kern" where
  "switchuvm p =
     thn pushcli (
     thn (with_proc (\<lambda>q. md (\<lambda>s. s\<lparr>esp0 := (esp0 s)(me s := p_kstack (ptable s q) + KSTACKSIZE)\<rparr>))) (
     bnd (rd (\<lambda>s. p_pgdir (ptable s p))) (\<lambda>d.
     if d = 0 then panic ''switchuvm: no pgdir''
     else
       thn (md (\<lambda>s. s\<lparr>cr3 := (cr3 s)(me s := v2p d)\<rparr>))
       popcli)))"

section \<open>Process slots\<close>

definition pinit :: "(unit, 'z sched_st_scheme) kern" where
  "pinit = initlock LkPtable ''ptable''"

definition allocproc :: "(nat option, 'z sched_st_scheme) kern" where
  "allocproc =
     thn (acquire LkPtable) (
     bnd (rd (\<lambda>s. find (\<lambda>p. p_state (ptable s p) = UNUSED) [0..<NPROC])) (\<lambda>r.
     case r of
       None \<Rightarrow> thn (release LkPtable) (ret None)
     | Some p \<Rightarrow>
         thn (md (upd_proc p (\<lambda>q. q\<lparr>p_state := EMBRYO\<rparr>))) (
         thn (md (\<lambda>s. (upd_proc p (\<lambda>q. q\<lparr>p_pid := nextpid s\<rparr>) s)\<lparr>nextpid := nextpid s + 1\<rparr>)) (
         thn (release LkPtable) (
         bnd kalloc (\<lambda>k.
         thn (md (upd_proc p (\<lambda>q. q\<lparr>p_kstack := k\<rparr>))) (
         if k = 0
         then thn (md (upd_proc p (\<lambda>q. q\<lparr>p_state := UNUSED\<rparr>))) (ret None)
         else
           let sp = k + KSTACKSIZE - 76 in
           thn (md (upd_proc p (\<lambda>q. q\<lparr>p_tf := sp\<rparr>))) (
           let sp = sp - 4 in
           thn (md (\<lambda>s. s\<lparr>mem := store32 (mem s) sp (trapret s)\<rparr>)) (
           let sp = sp - 20 in
           thn (md (upd_proc p (\<lambda>q. q\<lparr>p_context := sp\<rparr>))) (
           thn (md (\<lambda>s. s\<lparr>mem := memset (mem s) sp 0 20\<rparr>)) (
           thn (md (\<lambda>s. s\<lparr>mem := store32 (mem s) (sp + 16) (forkret_addr s)\<rparr>))
           (ret (Some p)))))))))))))"

section \<open>Scheduling\<close>

definition sched :: "(unit, 'z sched_st_scheme) kern" where
  "sched =
     bnd (rd (holding LkPtable)) (\<lambda>h.
     if \<not> h then panic ''sched ptable.lock''
     else bnd (rd (\<lambda>s. ncli (cpus s (me s)))) (\<lambda>n.
     if n \<noteq> 1 then panic ''sched locks''
     else with_proc (\<lambda>p. bnd (rd (\<lambda>s. p_state (ptable s p))) (\<lambda>st.
     if st = RUNNING then panic ''sched running''
     else bnd (rd (\<lambda>s. iflag (cpus s (me s)))) (\<lambda>i.
     if i then panic ''sched interruptible''
     else (\<lambda>s. Switch (p_chan (ptable s p)) s))))))"

text \<open>The rest of \<open>sched\<close>, with the value of the local variable \<^verbatim>\<open>intena\<close>.\<close>

definition sched_resume :: "bool \<Rightarrow> (unit, 'z sched_st_scheme) kern" where
  "sched_resume i = md (set_cpu (\<lambda>c. c\<lparr>intena := i\<rparr>))"

definition yield :: "(unit, 'z sched_st_scheme) kern" where
  "yield =
     thn (acquire LkPtable) (
     thn (with_proc (\<lambda>p. md (upd_proc p (\<lambda>q. q\<lparr>p_state := RUNNABLE\<rparr>)))) (
     sched))"

definition yield_resume :: "bool \<Rightarrow> (unit, 'z sched_st_scheme) kern" where
  "yield_resume i = thn (sched_resume i) (release LkPtable)"

text \<open>
  One round of the loop of \<open>scheduler\<close> from the given table entries on: \<open>Some p\<close> when control
  passes to process \<open>p\<close>, \<open>None\<close> when the round ends.  \<open>scheduler_back\<close> continues a round after the
  process has given the CPU back.
\<close>

fun scheduler_scan :: "nat list \<Rightarrow> (nat option, 'z sched_st_scheme) kern" where
  "scheduler_scan [] = thn (release LkPtable) (ret None)"
| "scheduler_scan (p # ps) =
     bnd (rd (\<lambda>s. p_state (ptable s p))) (\<lambda>st.
     if st \<noteq> RUNNABLE then scheduler_scan ps
     else
       thn (md (\<lambda>s. s\<lparr>cproc := (cproc s)(me s := Some p)\<rparr>)) (
       thn (switchuvm p) (
       thn (md (upd_proc p (\<lambda>q. q\<lparr>p_state := RUNNING\<rparr>)))
       (ret (Some p)))))"

definition scheduler_round :: "(nat option, 'z sched_st_scheme) kern" where
  "scheduler_round = thn sti (thn (acquire LkPtable) (scheduler_scan [0..<NPROC]))"

definition scheduler_back :: "nat \<Rightarrow> (nat option, 'z sched_st_scheme) kern" where
  "scheduler_back p =
     thn switchkvm (
     thn (md (\<lambda>s. s\<lparr>cproc := (cproc s)(me s := None)\<rparr>))
     (scheduler_scan [Suc p..<NPROC]))"

section \<open>Sleeping and waking up\<close>

text \<open>
  The bodies of \<^verbatim>\<open>sleep\<close> and \<^verbatim>\<open>wakeup\<close> are lists of actions, cut where another CPU can come in between: \<open>sleep\<close> performs
  \<open>sleep_acts\<close>, up to the context switch, and \<open>sleep_resume_acts\<close> when the scheduler has come back to the process, with the value of \<^verbatim>\<open>intena\<close> that
  \<^verbatim>\<open>sched\<close> has kept.
\<close>

definition sleep_acts :: "chan \<Rightarrow> lockid \<Rightarrow> nat \<Rightarrow> (unit, 'z sched_st_scheme) kern list" where
  "sleep_acts ch l p =
     (if l \<noteq> LkPtable then [acquire LkPtable, release l] else []) @
     [md (upd_proc p (\<lambda>q. q\<lparr>p_chan := Some ch\<rparr>)),
      md (upd_proc p (\<lambda>q. q\<lparr>p_state := SLEEPING\<rparr>)),
      sched]"

definition sleep :: "chan \<Rightarrow> lockid option \<Rightarrow> (unit, 'z sched_st_scheme) kern" where
  "sleep ch lk =
     bnd (rd curproc) (\<lambda>r. case r of None \<Rightarrow> panic ''sleep'' | Some p \<Rightarrow>
     case lk of None \<Rightarrow> panic ''sleep without lk'' | Some l \<Rightarrow> for_each (sleep_acts ch l p) (\<lambda>a. a))"

definition sleep_resume_acts :: "lockid \<Rightarrow> bool \<Rightarrow> (unit, 'z sched_st_scheme) kern list" where
  "sleep_resume_acts l i =
     [sched_resume i,
      with_proc (\<lambda>p. md (upd_proc p (\<lambda>q. q\<lparr>p_chan := None\<rparr>)))] @
     (if l \<noteq> LkPtable then [release LkPtable, acquire l] else [])"

definition sleep_resume :: "lockid \<Rightarrow> bool \<Rightarrow> (unit, 'z sched_st_scheme) kern" where
  "sleep_resume l i = for_each (sleep_resume_acts l i) (\<lambda>a. a)"

definition wakeup1 :: "chan \<Rightarrow> (unit, 'z sched_st_scheme) kern" where
  "wakeup1 ch = for_each [0..<NPROC] (\<lambda>p.
     bnd (rd (\<lambda>s. ptable s p)) (\<lambda>q.
     whenk (p_state q = SLEEPING \<and> p_chan q = Some ch)
       (md (upd_proc p (\<lambda>q. q\<lparr>p_state := RUNNABLE\<rparr>)))))"

definition wakeup_acts :: "chan \<Rightarrow> (unit, 'z sched_st_scheme) kern list" where
  "wakeup_acts ch = [acquire LkPtable, wakeup1 ch, release LkPtable]"

definition wakeup :: "chan \<Rightarrow> (unit, 'z sched_st_scheme) kern" where
  "wakeup ch = for_each (wakeup_acts ch) (\<lambda>a. a)"

definition kill :: "uint32 \<Rightarrow> (int, 'z sched_st_scheme) kern" where
  "kill pid =
     thn (acquire LkPtable) (
     bnd (rd (\<lambda>s. find (\<lambda>p. p_pid (ptable s p) = pid) [0..<NPROC])) (\<lambda>r.
     case r of
       Some p \<Rightarrow>
         thn (md (upd_proc p (\<lambda>q. q\<lparr>p_killed := True\<rparr>))) (
         thn (bnd (rd (\<lambda>s. p_state (ptable s p))) (\<lambda>st.
              whenk (st = SLEEPING) (md (upd_proc p (\<lambda>q. q\<lparr>p_state := RUNNABLE\<rparr>))))) (
         thn (release LkPtable) (ret 0)))
     | None \<Rightarrow> thn (release LkPtable) (ret (- 1))))"

section \<open>Access for the process file system\<close>

definition getProc :: "nat \<Rightarrow> nat" where
  "getProc i = i"

text \<open>When no process has the number, the returned pointer is uninitialised: a fault.\<close>

definition getProcByPID :: "uint32 \<Rightarrow> (nat, 'z sched_st_scheme) kern" where
  "getProcByPID pid =
     thn (acquire LkPtable) (
     bnd (rd (\<lambda>s. find (\<lambda>p. p_pid (ptable s p) = pid) [0..<NPROC])) (\<lambda>r.
     thn (release LkPtable)
     (case r of Some p \<Rightarrow> ret p | None \<Rightarrow> fault ''myproc is uninitialised'')))"

fun getProcState :: "procstate \<Rightarrow> string" where
  "getProcState UNUSED = ''UNUSED''"
| "getProcState EMBRYO = ''EMBRYO''"
| "getProcState SLEEPING = ''SLEEPING''"
| "getProcState RUNNABLE = ''RUNNABLE''"
| "getProcState RUNNING = ''RUNNING''"
| "getProcState ZOMBIE = ''ZOMBIE''"

section \<open>Frame lemmas\<close>

lemma hold_sched [simp]:
  "ptable_update g0 (hold l s) = hold l (ptable_update g0 s)" "ptable (hold l s) = ptable s"
  "initproc_update g1 (hold l s) = hold l (initproc_update g1 s)" "initproc (hold l s) = initproc s"
  "nextpid_update g2 (hold l s) = hold l (nextpid_update g2 s)" "nextpid (hold l s) = nextpid s"
  "cproc_update g3 (hold l s) = hold l (cproc_update g3 s)" "cproc (hold l s) = cproc s"
  "cr3_update g4 (hold l s) = hold l (cr3_update g4 s)" "cr3 (hold l s) = cr3 s"
  "esp0_update g5 (hold l s) = hold l (esp0_update g5 s)" "esp0 (hold l s) = esp0 s"
  by (simp_all add: hold_def set_lock_def set_cpu_def)

lemma calm_sched [simp]:
  "calm (ptable_update g0 s) = calm s" "inside (ptable_update g0 s) = inside s"
  "lock_free l (ptable_update g0 s) = lock_free l s"
  "calm (initproc_update g1 s) = calm s" "inside (initproc_update g1 s) = inside s"
  "lock_free l (initproc_update g1 s) = lock_free l s"
  "calm (nextpid_update g2 s) = calm s" "inside (nextpid_update g2 s) = inside s"
  "lock_free l (nextpid_update g2 s) = lock_free l s"
  "calm (cproc_update g3 s) = calm s" "inside (cproc_update g3 s) = inside s"
  "lock_free l (cproc_update g3 s) = lock_free l s"
  "calm (cr3_update g4 s) = calm s" "inside (cr3_update g4 s) = inside s"
  "lock_free l (cr3_update g4 s) = lock_free l s"
  "calm (esp0_update g5 s) = calm s" "inside (esp0_update g5 s) = inside s"
  "lock_free l (esp0_update g5 s) = lock_free l s"
  by (simp_all add: calm_def inside_def lock_free_def)

lemma me_hold [simp]: "me (hold l s) = me s"
  by (simp add: hold_def set_lock_def set_cpu_def)

lemma curproc_simps [simp]:
  "curproc (hold l s) = curproc s" "curproc (ptable_update f s) = curproc s"
  "curproc (upd_proc p g s) = curproc s" "curproc (mem_update h s) = curproc s"
  by (simp_all add: curproc_def upd_proc_def)

lemma upd_proc_simps [simp]:
  "upd_proc p f (hold l s) = hold l (upd_proc p f s)"
  "calm (upd_proc p f s) = calm s" "inside (upd_proc p f s) = inside s"
  "lock_free l (upd_proc p f s) = lock_free l s"
  "ptable (upd_proc p f s) = (ptable s)(p := f (ptable s p))"
  "cpus (upd_proc p f s) = cpus s" "locks (upd_proc p f s) = locks s" "me (upd_proc p f s) = me s"
  by (simp_all add: upd_proc_def)

lemma upd_proc_twice [simp]: "upd_proc p g (upd_proc p f s) = upd_proc p (\<lambda>q. g (f q)) s"
  by (simp add: upd_proc_def)

lemma cpu_hold [simp]:
  "ncli (cpus (hold l s) (me s)) = ncli (cpus s (me s)) + 1" "\<not> iflag (cpus (hold l s) (me s))"
  by (simp_all add: hold_def set_lock_def set_cpu_def)

lemma release_hold_under:
  assumes "k \<noteq> l" "lock_free l s" "calm s \<or> inside s"
  shows "release l (hold k (hold l s)) = Ok () (hold k s)"
  using assms
  by (cases s)
    (auto simp: machine_defs lock_free_def hold_def kern_simps whenk_def calm_def inside_def
      fun_upd_idem fun_upd_twist)

section \<open>Effects of the operations\<close>

definition woken :: "chan \<Rightarrow> proc \<Rightarrow> proc" where
  "woken ch q = (if p_state q = SLEEPING \<and> p_chan q = Some ch then q\<lparr>p_state := RUNNABLE\<rparr> else q)"

lemma for_each_table:
  assumes "\<And>p s. body p s = Ok () (upd_proc p (f p) s)" "distinct ps"
  shows "for_each ps body s = Ok () (s\<lparr>ptable := (\<lambda>p. if p \<in> set ps then f p (ptable s p) else ptable s p)\<rparr>)"
  using assms(2)
proof (induction ps arbitrary: s)
  case (Cons p ps)
  then show ?case
    by (auto simp: thn_def bnd_def assms(1) upd_proc_def fun_eq_iff intro!: arg_cong [of _ _ "\<lambda>f. ptable_update f s"])
qed simp

lemma wakeup1_eq:
  "wakeup1 ch s = Ok () (s\<lparr>ptable := (\<lambda>p. if p < NPROC then woken ch (ptable s p) else ptable s p)\<rparr>)"
  unfolding wakeup1_def
  by (subst for_each_table [where f = "\<lambda>_. woken ch"])
    (auto simp: kern_simps whenk_def woken_def upd_proc_def fun_upd_idem)

lemma wakeup_eq:
  assumes "calm s \<or> inside s" "lock_free LkPtable s"
  shows "wakeup ch s = Ok () (s\<lparr>ptable := (\<lambda>p. if p < NPROC then woken ch (ptable s p) else ptable s p)\<rparr>)"
  using assms by (simp add: wakeup_def wakeup_acts_def kern_simps acquire_free wakeup1_eq release_hold cong: if_cong)

lemma sched_eq:
  assumes "calm s" "curproc s = Some p" "p_state (ptable s p) \<noteq> RUNNING"
  shows "sched (hold LkPtable s) = Switch (p_chan (ptable s p)) (hold LkPtable s)"
  using assms by (simp add: sched_def with_proc_def calm_def)

lemma sleep_eq:
  assumes "calm s" "curproc s = Some p"
  shows "sleep ch (Some l) (hold l s) =
    Switch (Some ch) (hold LkPtable (upd_proc p (\<lambda>q. q\<lparr>p_chan := Some ch, p_state := SLEEPING\<rparr>) s))"
  using assms
  by (cases "l = LkPtable")
    (simp_all add: sleep_def sleep_acts_def kern_simps acquire_free release_hold_under sched_eq)

lemma switchuvm_eq:
  assumes "inside s" "curproc s = Some q" "p_pgdir (ptable s p) \<noteq> 0"
  shows "switchuvm p s = Ok () (s\<lparr>esp0 := (esp0 s)(me s := p_kstack (ptable s q) + KSTACKSIZE),
    cr3 := (cr3 s)(me s := v2p (p_pgdir (ptable s p)))\<rparr>)"
  using assms
  by (cases s)
    (auto simp: switchuvm_def with_proc_def curproc_def pushcli_def popcli_def cli_def sti_def set_cpu_def
      kern_simps whenk_def inside_def fun_upd_idem)

definition dispatched :: "nat \<Rightarrow> 'z sched_st_scheme \<Rightarrow> 'z sched_st_scheme" where
  "dispatched p s = upd_proc p (\<lambda>q. q\<lparr>p_state := RUNNING\<rparr>)
     (s\<lparr>cproc := (cproc s)(me s := Some p), esp0 := (esp0 s)(me s := p_kstack (ptable s p) + KSTACKSIZE),
        cr3 := (cr3 s)(me s := v2p (p_pgdir (ptable s p)))\<rparr>)"

lemma dispatched_hold: "dispatched p (hold l s) = hold l (dispatched p s)"
  by (simp add: dispatched_def)

text \<open>The rest of a round: the first runnable process is dispatched.\<close>

abbreviation (input) runnable :: "'z sched_st_scheme \<Rightarrow> nat \<Rightarrow> bool" where
  "runnable s p \<equiv> p_state (ptable s p) = RUNNABLE"

lemma scheduler_scan_eq:
  assumes "inside s" "\<forall>p \<in> set ps. runnable s p \<longrightarrow> p_pgdir (ptable s p) \<noteq> 0"
  shows "scheduler_scan ps s = (case find (runnable s) ps of
    None \<Rightarrow> thn (release LkPtable) (ret None) s | Some p \<Rightarrow> Ok (Some p) (dispatched p s))"
  using assms(2)
proof (induction ps)
  case (Cons p ps)
  let ?t = "s\<lparr>cproc := (cproc s)(me s := Some p)\<rparr>"
  have "switchuvm p ?t = Ok () (?t\<lparr>esp0 := (esp0 s)(me s := p_kstack (ptable s p) + KSTACKSIZE),
      cr3 := (cr3 s)(me s := v2p (p_pgdir (ptable s p)))\<rparr>)" if "runnable s p"
    using assms(1) Cons.prems that by (subst switchuvm_eq [where q = p]) (simp_all add: curproc_def)
  then show ?case
    using Cons by (simp add: kern_simps dispatched_def)
qed simp

lemma sti_calm: "calm s \<Longrightarrow> iflag (cpus s (me s)) \<Longrightarrow> sti s = Ok () s"
  by (cases s) (auto simp: sti_def set_cpu_def calm_def fun_upd_idem)

text \<open>The state of the CPU between two processes.\<close>

definition idled :: "'z sched_st_scheme \<Rightarrow> 'z sched_st_scheme" where
  "idled s = s\<lparr>cr3 := (cr3 s)(me s := v2p (kpgdir s)), cproc := (cproc s)(me s := None)\<rparr>"

lemma scheduler_back_eq:
  assumes "inside s" "\<forall>p < NPROC. runnable s p \<longrightarrow> p_pgdir (ptable s p) \<noteq> 0"
  shows "scheduler_back q s = (case find (runnable s) [Suc q..<NPROC] of
    None \<Rightarrow> thn (release LkPtable) (ret None) (idled s) | Some p \<Rightarrow> Ok (Some p) (dispatched p (idled s)))"
  using scheduler_scan_eq [of "idled s" "[Suc q..<NPROC]"] assms
  by (simp add: scheduler_back_def switchkvm_def kern_simps idled_def)

lemma idled_hold: "idled (hold l s) = hold l (idled s)"
  by (simp add: idled_def) (simp add: hold_def set_lock_def set_cpu_def)

text \<open>
  C29 (scheduler).  A scheduler round gives the CPU to the first runnable process of the table, marks it
  running and loads its address space and kernel stack; when no process is runnable the round ends with the table
  unlocked and unchanged.  When process \<open>q\<close> has given the CPU back, the kernel page table is loaded, \<^verbatim>\<open>proc\<close> is cleared, and the round goes on with the first runnable
  process behind \<open>q\<close>; it ends, with the table unlocked, when there is none behind \<open>q\<close>, and the next round starts at the first slot again.  So
  every process that is runnable when the round comes past its slot gets the CPU in this round.
\<close>

theorem scheduler_picks_first_runnable:
  assumes "calm s" "iflag (cpus s (me s))" "\<forall>p < NPROC. p_state (ptable s p) = RUNNABLE \<longrightarrow> p_pgdir (ptable s p) \<noteq> 0"
  defines "idle \<equiv> s\<lparr>cr3 := (cr3 s)(me s := v2p (kpgdir s)), cproc := (cproc s)(me s := None)\<rparr>"
  defines "on p u \<equiv> u\<lparr>cproc := (cproc u)(me u := Some p), esp0 := (esp0 u)(me u := p_kstack (ptable u p) + KSTACKSIZE),
    cr3 := (cr3 u)(me u := v2p (p_pgdir (ptable u p))), ptable := (ptable u)(p := (ptable u p)\<lparr>p_state := RUNNING\<rparr>)\<rparr>"
  shows "((\<forall>p < NPROC. p_state (ptable s p) \<noteq> RUNNABLE) \<longrightarrow> scheduler_round s = Ok None s) \<and>
    (\<forall>p < NPROC. p_state (ptable s p) = RUNNABLE \<and> (\<forall>i < p. p_state (ptable s i) \<noteq> RUNNABLE) \<longrightarrow>
      scheduler_round s = Ok (Some p) (hold LkPtable (on p s))) \<and>
    (\<forall>q < NPROC. (\<forall>p < NPROC. q < p \<longrightarrow> p_state (ptable s p) \<noteq> RUNNABLE) \<longrightarrow>
      scheduler_back q (hold LkPtable s) = Ok None idle) \<and>
    (\<forall>q < NPROC. \<forall>p < NPROC. q < p \<and> p_state (ptable s p) = RUNNABLE \<and> (\<forall>i. q < i \<and> i < p \<longrightarrow> p_state (ptable s i) \<noteq> RUNNABLE) \<longrightarrow>
      scheduler_back q (hold LkPtable s) = Ok (Some p) (hold LkPtable (on p idle))) \<and>
    (\<forall>q < NPROC. \<forall>p < NPROC. q < p \<and> p_state (ptable s p) = RUNNABLE \<longrightarrow>
      (\<exists>p' t. q < p' \<and> p' \<le> p \<and> scheduler_back q (hold LkPtable s) = Ok (Some p') t))"
proof -
  have on: "dispatched p (hold LkPtable u) = hold LkPtable (on p u)" for p u
    unfolding dispatched_hold by (simp add: dispatched_def on_def upd_proc_def)
  have idle: "idled s = idle" "calm idle"
    using assms(1) by (simp_all add: idled_def idle_def)
  have round: "scheduler_round s = (case find (runnable s) [0..<NPROC] of None \<Rightarrow> Ok None s | Some p \<Rightarrow> Ok (Some p) (hold LkPtable (on p s)))"
    using assms(1-3) scheduler_scan_eq [of "hold LkPtable s" "[0..<NPROC]"] unfolding scheduler_round_def
    by (simp add: kern_simps sti_calm acquire_free release_hold on split: option.split)
  have rest: "scheduler_back q (hold LkPtable s) = (case find (runnable s) [Suc q..<NPROC] of None \<Rightarrow> Ok None idle
      | Some p \<Rightarrow> Ok (Some p) (hold LkPtable (on p idle)))" for q
    using assms(1,3) scheduler_back_eq [of "hold LkPtable s" q] idle
    by (simp add: idled_hold on kern_simps release_hold split: option.split)
  have first: "find (runnable s) [a..<NPROC] = Some p" if "a \<le> p" "p < NPROC" "runnable s p" "\<forall>i. a \<le> i \<and> i < p \<longrightarrow> \<not> runnable s i" for a p
    using that by (auto simp: find_Some_iff intro!: exI [of _ "p - a"])
  have some: "\<exists>p'. find (runnable s) [Suc q..<NPROC] = Some p' \<and> q < p' \<and> p' \<le> p" if "q < p" "p < NPROC" "runnable s p" for q p
  proof -
    define p' where "p' = (LEAST i. q < i \<and> runnable s i)"
    have "q < p' \<and> runnable s p'" "p' \<le> p" "\<And>i. i < p' \<Longrightarrow> \<not> (q < i \<and> runnable s i)"
      unfolding p'_def using that by (auto intro: LeastI2 Least_le dest: not_less_Least)
    then show ?thesis
      using first [of "Suc q" p'] that(2) by (intro exI [of _ p']) auto
  qed
  have none: "find (runnable s) [a..<NPROC] = None" if "\<forall>p < NPROC. a \<le> p \<longrightarrow> \<not> runnable s p" for a
    using that by (simp add: find_None_iff)
  show ?thesis
    unfolding round rest
  proof (intro conjI allI impI)
    show "(case find (runnable s) [0..<NPROC] of None \<Rightarrow> Ok None s | Some p \<Rightarrow> Ok (Some p) (hold LkPtable (on p s))) = Ok None s"
      if "\<forall>p < NPROC. \<not> runnable s p"
      using none [of 0] that by simp
  next
    fix p assume "p < NPROC" "runnable s p \<and> (\<forall>i < p. \<not> runnable s i)"
    then show "(case find (runnable s) [0..<NPROC] of None \<Rightarrow> Ok None s | Some p \<Rightarrow> Ok (Some p) (hold LkPtable (on p s))) = Ok (Some p) (hold LkPtable (on p s))"
      using first [of 0 p] by simp
  next
    fix q assume "\<forall>p < NPROC. q < p \<longrightarrow> \<not> runnable s p"
    then show "(case find (runnable s) [Suc q..<NPROC] of None \<Rightarrow> Ok None idle | Some p \<Rightarrow> Ok (Some p) (hold LkPtable (on p idle))) = Ok None idle"
      using none [of "Suc q"] by simp
  next
    fix q p assume "p < NPROC" "q < p \<and> runnable s p \<and> (\<forall>i. q < i \<and> i < p \<longrightarrow> \<not> runnable s i)"
    then show "(case find (runnable s) [Suc q..<NPROC] of None \<Rightarrow> Ok None idle | Some p \<Rightarrow> Ok (Some p) (hold LkPtable (on p idle))) =
        Ok (Some p) (hold LkPtable (on p idle))"
      using first [of "Suc q" p] by simp
  next
    fix q p assume "p < NPROC" "q < p \<and> runnable s p"
    then obtain p' where "find (runnable s) [Suc q..<NPROC] = Some p'" "q < p'" "p' \<le> p"
      using some [of q p] by blast
    then show "\<exists>p' t. q < p' \<and> p' \<le> p \<and> (case find (runnable s) [Suc q..<NPROC] of None \<Rightarrow> Ok None idle | Some p \<Rightarrow> Ok (Some p) (hold LkPtable (on p idle))) = Ok (Some p') t"
      by (intro exI [of _ p']) simp
  qed
qed

lemma kill_eq:
  assumes "calm s"
  shows "kill pid s = (case find (\<lambda>p. p_pid (ptable s p) = pid) [0..<NPROC] of
      None \<Rightarrow> Ok (- 1) s
    | Some p \<Rightarrow> Ok 0 (upd_proc p (\<lambda>q. q\<lparr>p_killed := True,
        p_state := (if p_state q = SLEEPING then RUNNABLE else p_state q)\<rparr>) s))"
  using assms
  by (auto simp: kill_def kern_simps acquire_free release_hold whenk_def upd_proc_def split: option.split)

definition sched_boot :: sched_st where
  "sched_boot = kmem_st.extend kmem_boot (sched_st.fields
     (\<lambda>p. \<lparr>p_sz = 4096, p_pgdir = 0x80200000, p_kstack = 0x80300000,
        p_state = (if p = 1 then RUNNING else if p = 3 then RUNNABLE else UNUSED),
        p_pid = (if p = 1 then 7 else if p = 3 then 9 else 0), p_parent = None, p_tf = 0, p_context = 0,
        p_chan = None, p_killed = False, p_ofile = (\<lambda>_. None), p_cwd = None, p_name = []\<rparr>)
     (Some 0) 10 (\<lambda>_. None) (\<lambda>_. 0) (\<lambda>_. 0) 0x80400000 0 0)"

definition sched_user :: sched_st where
  "sched_user = sched_boot\<lparr>cpus := (\<lambda>_. \<lparr>ncli = 0, intena = True, iflag = True\<rparr>), cproc := (\<lambda>_. Some 1)\<rparr>"

lemmas boot_simps = sched_boot_def sched_user_def kmem_boot_def kmem_st.extend_def sched_st.fields_def

lemma calm_sched_user: "calm sched_user" "curproc sched_user = Some 1"
  by (simp_all add: boot_simps calm_def lock_free_def curproc_def)

theorem scheduler_picks_first_runnable_witness:
  "\<exists>t u. scheduler_round (sched_user\<lparr>cproc := (\<lambda>_. None)\<rparr>) = Ok (Some 3) (hold LkPtable t) \<and> p_state (ptable t 3) = RUNNING \<and> curproc t = Some 3 \<and>
    scheduler_back 3 (hold LkPtable sched_user) = Ok None u \<and> curproc u = None"
proof -
  let ?s = "sched_user\<lparr>cproc := (\<lambda>_. None)\<rparr>"
  have c: "calm ?s" "iflag (cpus ?s (me ?s))" "iflag (cpus sched_user (me sched_user))"
    using calm_sched_user(1) by simp (simp_all add: boot_simps)
  have pg: "\<forall>p < NPROC. p_state (ptable ?s p) = RUNNABLE \<longrightarrow> p_pgdir (ptable ?s p) \<noteq> 0"
      "\<forall>p < NPROC. p_state (ptable sched_user p) = RUNNABLE \<longrightarrow> p_pgdir (ptable sched_user p) \<noteq> 0"
      "p_state (ptable ?s 3) = RUNNABLE \<and> (\<forall>i < 3. p_state (ptable ?s i) \<noteq> RUNNABLE)" "\<forall>p < NPROC. 3 < p \<longrightarrow> p_state (ptable sched_user p) \<noteq> RUNNABLE"
    by (simp_all add: boot_simps)
  show ?thesis
    using scheduler_picks_first_runnable [OF c(1,2) pg(1), THEN conjunct2, THEN conjunct1, rule_format, of 3]
      scheduler_picks_first_runnable [OF calm_sched_user(1) c(3) pg(2), THEN conjunct2, THEN conjunct2, THEN conjunct1, rule_format, of 3] pg(3,4)
    by (auto simp: curproc_def)
qed

section \<open>Process slots\<close>

lemma kmem_pool_sched [simp]:
  "kmem_pool (upd_proc p f s) ps = kmem_pool s ps" "kmem_pool (nextpid_update g s) ps = kmem_pool s ps"
  by (simp_all add: kmem_pool_def kmem_ready_def kmem_inv_def page_ok_def upd_proc_def)

text \<open>Writes inside an allocated page do not disturb the pool of free pages.\<close>

lemma kmem_pool_write:
  assumes "kmem_pool s ps" "page_aligned k" "k \<notin> set ps" "\<And>x. \<not> in_range k 4096 x \<Longrightarrow> f (mem s) x = mem s x"
  shows "kmem_pool (mem_update f s) ps"
proof -
  have "load32 (f (mem s)) a = load32 (mem s) a" if "a \<in> set ps" for a
  proof (rule load32_cong)
    have "page_aligned a" "k \<noteq> a"
      using that assms by (auto simp: kmem_pool_def kmem_inv_def page_ok_def)
    then show "f (mem s) (a + i) = mem s (a + i)" if "unat i < 4" for i
      using that pages_disjoint assms(2,4) by simp
  qed
  then have "free_path (f (mem s)) (freelist s) ps = free_path (mem s) (freelist s) ps"
    by (rule free_path_cong)
  with assms(1) show ?thesis
    by (simp add: kmem_pool_def kmem_inv_def)
qed

lemma in_range_sub:
  assumes "in_range (k + c) n x" "unat c + n \<le> N"
  shows "in_range k N x"
proof -
  have "unat (x - k) = unat ((x - (k + c)) + c)"
    by (simp add: algebra_simps)
  then have "unat (x - k) \<le> unat (x - (k + c)) + unat c"
    by (simp only: unat_word_ariths mod_less_eq_dividend)
  with assms show ?thesis
    by (simp add: in_range_def)
qed

definition new_frame :: "uint32 \<Rightarrow> uint32 \<Rightarrow> uint32 \<Rightarrow> memory \<Rightarrow> memory" where
  "new_frame k tr fr m = store32 (memset (store32 m (k + 4016) tr) (k + 3996) 0 20) (k + 4012) fr"

lemma new_frame_out:
  assumes "\<not> in_range k 4096 x"
  shows "new_frame k tr fr m x = m x"
proof -
  have "\<not> in_range (k + 4016) 4 x" "\<not> in_range (k + 3996) 20 x" "\<not> in_range (k + 4012) 4 x"
    using assms by (auto dest: in_range_sub [where N = 4096])
  then show ?thesis
    by (simp add: new_frame_def store32_out memset_write write_bytes_out)
qed

lemma new_frame_load:
  "load32 (new_frame k tr fr m) (k + 4012) = fr" "load32 (new_frame k tr fr m) (k + 4016) = tr"
proof -
  have "load32 (new_frame k tr fr m) (k + 4016) = load32 (store32 m (k + 4016) tr) (k + 4016)"
  proof (rule load32_cong)
    fix i :: uint32 assume i: "unat i < 4"
    have "unat (4 + i) = 4 + unat i" "unat (20 + i) = 20 + unat i"
      using i by (simp_all add: unat_word_ariths)
    then have "\<not> in_range (k + 4012) 4 (k + 4016 + i)" "\<not> in_range (k + 3996) 20 (k + 4016 + i)"
      by (simp_all add: in_range_def algebra_simps)
    then show "new_frame k tr fr m (k + 4016 + i) = store32 m (k + 4016) tr (k + 4016 + i)"
      by (simp add: new_frame_def store32_out [of "k + 4012"] memset_write write_bytes_out)
  qed
  then show "load32 (new_frame k tr fr m) (k + 4016) = tr"
    by simp
qed (simp add: new_frame_def)

definition new_proc :: "uint32 \<Rightarrow> uint32 \<Rightarrow> proc \<Rightarrow> proc" where
  "new_proc n k q = q\<lparr>p_state := EMBRYO, p_pid := n, p_kstack := k, p_tf := k + 4020, p_context := k + 3996\<rparr>"

lemma find_upt_Some: "find P [0..<n] = Some p \<Longrightarrow> P p \<and> p < n \<and> (\<forall>i < p. \<not> P i)"
  by (auto simp: find_Some_iff)

lemma find_upt_None: "find P [0..<n] = None \<longleftrightarrow> (\<forall>i < n. \<not> P i)"
  by (auto simp: find_None_iff)

lemma link_syms [simp]:
  "trapret (hold l s) = trapret s" "forkret_addr (hold l s) = forkret_addr s"
  "trapret (upd_proc p f s) = trapret s" "forkret_addr (upd_proc p f s) = forkret_addr s"
  "mem (upd_proc p f s) = mem s" "freelist (upd_proc p f s) = freelist s" "nextpid (upd_proc p f s) = nextpid s"
  by (simp_all add: hold_def set_lock_def set_cpu_def upd_proc_def)

lemma allocproc_eq:
  assumes "calm s" "find (\<lambda>p. p_state (ptable s p) = UNUSED) [0..<NPROC] = Some p"
  shows "allocproc s = (if freelist s = 0
    then Ok None ((upd_proc p (\<lambda>q. q\<lparr>p_state := UNUSED, p_pid := nextpid s, p_kstack := 0\<rparr>) s)\<lparr>nextpid := nextpid s + 1\<rparr>)
    else Ok (Some p) ((upd_proc p (new_proc (nextpid s) (freelist s)) s)\<lparr>nextpid := nextpid s + 1,
      freelist := load32 (mem s) (freelist s),
      mem := new_frame (freelist s) (trapret s) (forkret_addr s) (mem s)\<rparr>))"
proof -
  let ?s1 = "(upd_proc p (\<lambda>q. q\<lparr>p_state := EMBRYO, p_pid := nextpid s\<rparr>) s)\<lparr>nextpid := nextpid s + 1\<rparr>"
  have "kmem_ready ?s1"
    using assms by (simp add: kmem_ready_def)
  with assms show ?thesis
    by (auto simp: allocproc_def kern_simps acquire_free release_hold kalloc_eq upd_proc_def
        new_proc_def new_frame_def Let_def add.commute [of "freelist s"] intro!: sched_st.equality)
qed

text \<open>Every process in use has a number of its own, not 0 and not yet to be given out.\<close>

definition pids_ok :: "'z sched_st_scheme \<Rightarrow> bool" where
  "pids_ok s = ((\<forall>p < NPROC. p_state (ptable s p) \<noteq> UNUSED \<longrightarrow> 0 < p_pid (ptable s p) \<and> p_pid (ptable s p) < nextpid s) \<and>
     (\<forall>p < NPROC. \<forall>q < NPROC. p_state (ptable s p) \<noteq> UNUSED \<and> p_state (ptable s q) \<noteq> UNUSED \<and>
        p_pid (ptable s p) = p_pid (ptable s q) \<longrightarrow> p = q))"

text \<open>
  C30 (allocation of a process).  With a free slot and a free page, \<open>allocproc\<close> takes the first free slot,
  gives it a number no process in use has, takes the page as its kernel stack and leaves there a context that starts at
  \<^verbatim>\<open>forkret\<close> and returns to \<^verbatim>\<open>trapret\<close>; the other processes and the pool of free pages are not disturbed.
  Without a free slot it changes nothing, and without a free page every slot keeps its state.
\<close>

theorem allocproc_fresh:
  assumes "kmem_pool s ks" "calm s" "pids_ok s" "0 < nextpid s" "nextpid s < nextpid s + 1"
  shows "((\<forall>p < NPROC. p_state (ptable s p) \<noteq> UNUSED) \<longrightarrow> allocproc s = Ok None s) \<and>
    (ks = [] \<longrightarrow> (\<exists>t. allocproc s = Ok None t \<and> (\<forall>p. p_state (ptable t p) = p_state (ptable s p)))) \<and>
    (\<forall>k ks'. ks = k # ks' \<and> (\<exists>p < NPROC. p_state (ptable s p) = UNUSED) \<longrightarrow>
      (\<exists>p t. allocproc s = Ok (Some p) t \<and> p < NPROC \<and> p_state (ptable s p) = UNUSED \<and>
        ptable t = (ptable s)(p := new_proc (nextpid s) k (ptable s p)) \<and>
        load32 (mem t) (p_context (ptable t p) + 16) = forkret_addr s \<and>
        load32 (mem t) (p_context (ptable t p) + 20) = trapret s \<and>
        pids_ok t \<and> calm t \<and> kmem_pool t ks'))"
proof (intro conjI allI impI)
  let ?f = "find (\<lambda>p. p_state (ptable s p) = UNUSED) [0..<NPROC]"
  have none: "allocproc s = Ok None s" if "?f = None"
    using that assms(2) by (simp add: allocproc_def kern_simps acquire_free release_hold)
  then show "allocproc s = Ok None s" if "\<forall>p < NPROC. p_state (ptable s p) \<noteq> UNUSED"
    using that find_upt_None [of "\<lambda>p. p_state (ptable s p) = UNUSED" NPROC] by simp
  show "\<exists>t. allocproc s = Ok None t \<and> (\<forall>p. p_state (ptable t p) = p_state (ptable s p))" if "ks = []"
  proof (cases ?f)
    case (Some p)
    moreover have "freelist s = 0"
      using assms(1) that by (simp add: kmem_pool_def kmem_inv_def)
    ultimately show ?thesis
      using find_upt_Some [OF Some] assms(2) by (simp add: allocproc_eq)
  qed (use none in auto)
  fix k ks' assume "ks = k # ks' \<and> (\<exists>p < NPROC. p_state (ptable s p) = UNUSED)"
  then have ks: "ks = k # ks'" and "?f \<noteq> None"
    using find_upt_None [of "\<lambda>p. p_state (ptable s p) = UNUSED" NPROC] by auto
  then obtain p where p: "?f = Some p"
    by blast
  have k: "freelist s = k" "k \<noteq> 0" "page_aligned k" "k \<notin> set ks'"
    using assms(1) ks by (auto simp: kmem_pool_def kmem_inv_def page_ok_def)
  let ?u = "(upd_proc p (new_proc (nextpid s) k) s)\<lparr>nextpid := nextpid s + 1, freelist := load32 (mem s) k\<rparr>"
  let ?t = "?u\<lparr>mem := new_frame k (trapret s) (forkret_addr s) (mem s)\<rparr>"
  have eq: "allocproc s = Ok (Some p) ?t"
    using allocproc_eq [OF assms(2) p] k by simp
  have "kmem_pool ?u ks'"
    using assms(1) ks by (auto simp: kmem_pool_def kmem_inv_def kmem_ready_def page_ok_def upd_proc_def)
  then have pool: "kmem_pool ?t ks'"
    using kmem_pool_write [of ?u ks' k "\<lambda>_. new_frame k (trapret s) (forkret_addr s) (mem s)"] k new_frame_out by simp
  have "pids_ok ?t"
    using assms(3-5) unfolding pids_ok_def by (auto simp: new_proc_def)
  moreover have "load32 (mem ?t) (p_context (ptable ?t p) + 16) = forkret_addr s"
    "load32 (mem ?t) (p_context (ptable ?t p) + 20) = trapret s"
    by (simp_all add: new_proc_def new_frame_load [of k, unfolded add.commute [of k]])
  ultimately show "\<exists>p t. allocproc s = Ok (Some p) t \<and> p < NPROC \<and> p_state (ptable s p) = UNUSED \<and>
        ptable t = (ptable s)(p := new_proc (nextpid s) k (ptable s p)) \<and>
        load32 (mem t) (p_context (ptable t p) + 16) = forkret_addr s \<and>
        load32 (mem t) (p_context (ptable t p) + 20) = trapret s \<and> pids_ok t \<and> calm t \<and> kmem_pool t ks'"
    using eq pool find_upt_Some [OF p] assms(2) by (intro exI [of _ p] exI [of _ ?t]) simp
qed

theorem allocproc_fresh_witness:
  "\<exists>p t. allocproc (sched_user\<lparr>freelist := 0x80101000\<rparr>) = Ok (Some p) t \<and> p_pid (ptable t p) = 10 \<and>
    p_state (ptable t p) = EMBRYO \<and> pids_ok t"
proof -
  let ?s = "sched_user\<lparr>freelist := 0x80101000\<rparr>"
  have "calm ?s"
    using calm_sched_user by simp
  moreover from this have "kmem_pool ?s [0x80101000]"
    by (simp add: kmem_pool_def kmem_ready_def kmem_inv_def page_ok_def page_aligned_def)
      (simp add: boot_simps v2p_def load32_def of_le32_def)
  moreover have "pids_ok ?s" "0 < nextpid ?s" "nextpid ?s < nextpid ?s + 1" "nextpid ?s = 10"
    by (auto simp: pids_ok_def boot_simps)
  moreover have "\<exists>p < NPROC. p_state (ptable ?s p) = UNUSED"
    by (intro exI [of _ 0]) (simp add: boot_simps)
  ultimately obtain p t where "allocproc ?s = Ok (Some p) t" "pids_ok t"
    "ptable t = (ptable ?s)(p := new_proc 10 0x80101000 (ptable ?s p))"
    using allocproc_fresh [of ?s "[0x80101000]"] by auto
  then show ?thesis
    by (auto simp: new_proc_def)
qed

text \<open>
  C31 (kill).  \<open>kill\<close> answers 0 exactly when some slot of the table carries the number; it then marks the first such
  slot killed, makes it runnable if it slept, so that it can notice, leaves it in its state otherwise, and changes nothing else.  Unused slots are
  searched as well: as long as one of them has the number 0, \<open>kill 0\<close> answers 0.
\<close>

theorem kill_effect:
  assumes "calm s"
  shows "((\<forall>p < NPROC. p_pid (ptable s p) \<noteq> pid) \<longrightarrow> kill pid s = Ok (- 1) s) \<and>
    (\<forall>p < NPROC. p_pid (ptable s p) = pid \<and> (\<forall>i < p. p_pid (ptable s i) \<noteq> pid) \<longrightarrow>
      kill pid s = Ok 0 (s\<lparr>ptable := (ptable s)(p := (ptable s p)\<lparr>p_killed := True,
        p_state := (if p_state (ptable s p) = SLEEPING then RUNNABLE else p_state (ptable s p))\<rparr>)\<rparr>)) \<and>
    ((\<exists>p < NPROC. p_state (ptable s p) = UNUSED \<and> p_pid (ptable s p) = 0) \<longrightarrow> (\<exists>t. kill 0 s = Ok 0 t))"
proof (intro conjI allI impI)
  show "kill pid s = Ok (- 1) s" if "\<forall>p < NPROC. p_pid (ptable s p) \<noteq> pid"
    using kill_eq [OF assms, of pid] find_upt_None [of "\<lambda>p. p_pid (ptable s p) = pid" NPROC] that by simp
  show "\<exists>t. kill 0 s = Ok 0 t" if "\<exists>p < NPROC. p_state (ptable s p) = UNUSED \<and> p_pid (ptable s p) = 0"
    using kill_eq [OF assms, of 0] find_upt_None [of "\<lambda>p. p_pid (ptable s p) = 0" NPROC] that
    by (auto split: option.splits)
  fix p assume p: "p < NPROC" "p_pid (ptable s p) = pid \<and> (\<forall>i < p. p_pid (ptable s i) \<noteq> pid)"
  then have "find (\<lambda>p. p_pid (ptable s p) = pid) [0..<NPROC] = Some p"
    by (auto simp: find_Some_iff intro!: exI [of _ p])
  then show "kill pid s = Ok 0 (s\<lparr>ptable := (ptable s)(p := (ptable s p)\<lparr>p_killed := True,
        p_state := (if p_state (ptable s p) = SLEEPING then RUNNABLE else p_state (ptable s p))\<rparr>)\<rparr>)"
    using kill_eq [OF assms, of pid] by (simp add: upd_proc_def)
qed

theorem kill_effect_witness:
  "\<exists>t. kill 9 sched_user = Ok 0 t \<and> p_killed (ptable t 3) \<and> (\<exists>u. kill 0 sched_user = Ok 0 u)"
proof -
  have "p_pid (ptable sched_user 3) = 9 \<and> (\<forall>i < 3. p_pid (ptable sched_user i) \<noteq> 9)"
    by (simp add: boot_simps)
  moreover have "p_state (ptable sched_user 0) = UNUSED \<and> p_pid (ptable sched_user 0) = 0"
    by (simp add: boot_simps)
  then have "\<exists>p < NPROC. p_state (ptable sched_user p) = UNUSED \<and> p_pid (ptable sched_user p) = 0"
    by (intro exI [of _ 0]) simp
  then have "\<exists>u. kill 0 sched_user = Ok 0 u"
    using kill_effect [OF calm_sched_user(1), of 0] by blast
  ultimately show ?thesis
    using kill_effect [OF calm_sched_user(1), of 9, THEN conjunct2, THEN conjunct1, rule_format, of 3] by auto
qed

end
