(* ===== verification/Wakeup.thy ===== *)
theory Wakeup
  imports Sched
begin

text \<open>
  Sleeping and waking up on several CPUs.  Processes share a condition that a lock \<open>l\<close> protects: some wait for it on a channel, the others
  establish it and wake the channel.  Any number of CPUs run them under the scheduler of \<^verbatim>\<open>src/proc.c\<close>; the actions of \<^verbatim>\<open>sleep\<close>, \<^verbatim>\<open>wakeup\<close>
  and of the lock code interleave in every order.
\<close>

section \<open>Processes that wait and processes that wake\<close>

text \<open>
  \<open>pc s p\<close> is the next action of process \<open>p\<close> and \<open>kept s p\<close> the value of \<^verbatim>\<open>intena\<close> that \<^verbatim>\<open>sched\<close> has kept on its stack.
\<close>

record mon_st = sched_st +
  cond :: bool
  pc :: "nat \<Rightarrow> nat"
  kept :: "nat \<Rightarrow> bool"

datatype role = Waiter | Waker

text \<open>
  A process that the scheduler starts gives back the lock of the table first, as \<^verbatim>\<open>forkret\<close> does.  Then a waiter does, again and again,
  \<^verbatim>\<open>acquire(l); while(!cond) sleep(ch, l); cond = 0; release(l)\<close> and a waker \<^verbatim>\<open>acquire(l); cond = 1; wakeup(ch); release(l)\<close>.
\<close>

definition waiter_code :: "chan \<Rightarrow> lockid \<Rightarrow> nat \<Rightarrow> bool \<Rightarrow> (unit, mon_st) kern list" where
  "waiter_code ch l p i =
     [release LkPtable, acquire l, ret ()] @ sleep_acts ch l p @ sleep_resume_acts l i @ [md (\<lambda>s. s\<lparr>cond := False\<rparr>), release l]"

definition waker_code :: "chan \<Rightarrow> lockid \<Rightarrow> (unit, mon_st) kern list" where
  "waker_code ch l = [release LkPtable, acquire l, md (\<lambda>s. s\<lparr>cond := True\<rparr>)] @ wakeup_acts ch @ [release l]"

definition code :: "chan \<Rightarrow> lockid \<Rightarrow> (nat \<Rightarrow> role option) \<Rightarrow> mon_st \<Rightarrow> nat \<Rightarrow> (unit, mon_st) kern list" where
  "code ch l R s p = (case R p of None \<Rightarrow> [] | Some Waiter \<Rightarrow> waiter_code ch l p (kept s p) | Some Waker \<Rightarrow> waker_code ch l)"

text \<open>The test of the condition is action 2 of a waiter: it goes to sleep with action 3 or takes the condition with action 12.\<close>

fun next_pc :: "role \<Rightarrow> nat \<Rightarrow> bool \<Rightarrow> nat" where
  "next_pc Waiter k c = (if k = 2 then if c then 12 else 3 else if k = 11 then 2 else if k = 13 then 1 else Suc k)"
| "next_pc Waker k c = (if k = 6 then 1 else Suc k)"

text \<open>
  The next action of CPU \<open>i\<close>: a round of the scheduler if no process runs there, the next action of its process otherwise; after a context switch the scheduler
  goes on.
\<close>

definition cpu_act :: "chan \<Rightarrow> lockid \<Rightarrow> (nat \<Rightarrow> role option) \<Rightarrow> nat \<Rightarrow> mon_st \<Rightarrow> (nat option, mon_st) outcome" where
  "cpu_act ch l R i s =
     (case cproc s i of
        None \<Rightarrow> scheduler_round (s\<lparr>me := i\<rparr>)
      | Some p \<Rightarrow>
          if length (code ch l R s p) \<le> pc s p then Fault ''end of code''
          else (case (code ch l R s p ! pc s p) (s\<lparr>me := i\<rparr>) of
            Ok _ t \<Rightarrow> Ok (Some p) (t\<lparr>pc := (pc t)(p := next_pc (the (R p)) (pc s p) (cond s))\<rparr>)
          | Switch _ t \<Rightarrow> scheduler_back p (t\<lparr>pc := (pc t)(p := Suc (pc s p)), kept := (kept t)(p := intena (my_cpu t))\<rparr>)
          | Panic e \<Rightarrow> Panic e | Spin k t \<Rightarrow> Spin k t | Fault e \<Rightarrow> Fault e | Diverge \<Rightarrow> Diverge))"

text \<open>A CPU that has to wait for a lock stays where it is.  A schedule says which CPU makes the next step.\<close>

definition cpu_step :: "chan \<Rightarrow> lockid \<Rightarrow> (nat \<Rightarrow> role option) \<Rightarrow> mon_st \<Rightarrow> nat \<Rightarrow> mon_st" where
  "cpu_step ch l R s i = (case cpu_act ch l R i s of Ok _ t \<Rightarrow> t | _ \<Rightarrow> s)"

definition run_cpus :: "chan \<Rightarrow> lockid \<Rightarrow> (nat \<Rightarrow> role option) \<Rightarrow> nat list \<Rightarrow> mon_st \<Rightarrow> mon_st" where
  "run_cpus ch l R schedule s = foldl (cpu_step ch l R) s schedule"

text \<open>A waker has established the condition and is about to wake the channel.\<close>

definition pending :: "(nat \<Rightarrow> role option) \<Rightarrow> mon_st \<Rightarrow> bool" where
  "pending R s = (\<exists>i w. cproc s i = Some w \<and> R w = Some Waker \<and> pc s w \<in> {3, 4})"

text \<open>At the start no CPU runs a process and no lock is taken; the processes with a role are ready to run, the other slots are not, and nobody
  sleeps on the channel.\<close>

definition mon_init :: "chan \<Rightarrow> (nat \<Rightarrow> role option) \<Rightarrow> mon_st \<Rightarrow> bool" where
  "mon_init ch R s = ((\<forall>i. cproc s i = None \<and> ncli (cpus s i) = 0) \<and> (\<forall>k. lock_free k s) \<and>
     (\<forall>p < NPROC. pc s p = 0 \<and> (p_state (ptable s p) = RUNNABLE \<longleftrightarrow> R p \<noteq> None) \<and> (R p \<noteq> None \<longrightarrow> p_pgdir (ptable s p) \<noteq> 0) \<and>
        (p_state (ptable s p) = SLEEPING \<longrightarrow> p_chan (ptable s p) \<noteq> Some ch)))"

section \<open>Locks\<close>

text \<open>\<open>h i\<close> are the locks that CPU \<open>i\<close> holds.\<close>

definition lock_inv :: "'z machine_scheme \<Rightarrow> (nat \<Rightarrow> lockid set) \<Rightarrow> bool" where
  "lock_inv s h = ((\<forall>i k. lcpu (locks s k) = Some i \<longleftrightarrow> k \<in> h i) \<and> (\<forall>k. locked (locks s k) = 0 \<longleftrightarrow> lcpu (locks s k) = None) \<and>
     (\<forall>i. finite (h i) \<and> ncli (cpus s i) = int (card (h i)) \<and> (h i \<noteq> {} \<longrightarrow> \<not> iflag (cpus s i))))"

lemma lock_invD:
  assumes "lock_inv s h"
  shows "lcpu (locks s k) = Some i \<longleftrightarrow> k \<in> h i" "locked (locks s k) = 0 \<longleftrightarrow> lcpu (locks s k) = None" "finite (h i)" "ncli (cpus s i) = int (card (h i))"
    "k \<in> h i \<Longrightarrow> \<not> iflag (cpus s i)" "k \<in> h i \<Longrightarrow> k \<in> h j \<Longrightarrow> i = j"
proof -
  show l: "lcpu (locks s k) = Some i \<longleftrightarrow> k \<in> h i" for i
    using assms by (simp add: lock_inv_def)
  show "locked (locks s k) = 0 \<longleftrightarrow> lcpu (locks s k) = None" "finite (h i)" "ncli (cpus s i) = int (card (h i))" "k \<in> h i \<Longrightarrow> \<not> iflag (cpus s i)"
    using assms by (auto simp: lock_inv_def)
  show "i = j" if "k \<in> h i" "k \<in> h j"
    using l [of i] l [of j] that by simp
qed

lemma lock_inv_cong: "locks t = locks s \<Longrightarrow> cpus t = cpus s \<Longrightarrow> lock_inv t h = lock_inv s h"
  by (simp add: lock_inv_def)

lemma acquire_inv:
  assumes "lock_inv s h" "k \<notin> h (me s)"
  shows "(\<exists>c L. acquire k s = Ok () (s\<lparr>cpus := c, locks := L\<rparr>) \<and> lock_inv (s\<lparr>cpus := c, locks := L\<rparr>) (h(me s := insert k (h (me s))))) \<or>
    (\<exists>t. acquire k s = Spin k t)"
proof (cases "locked (locks s k) = 0")
  case True
  then have f: "lock_free k s"
    using lock_invD(2) [OF assms(1)] by (simp add: lock_free_def)
  define c L where "c = cpus (hold k s)" and "L = locks (hold k s)"
  have "hold k s = s\<lparr>cpus := c, locks := L\<rparr>"
    by (simp add: c_def L_def hold_def set_lock_def set_cpu_def)
  moreover have "k \<notin> h i" for i
    using lock_invD(1) [OF assms(1), of k i] f by (simp add: lock_free_def)
  then have "lock_inv (hold k s) (h(me s := insert k (h (me s))))"
    using assms f unfolding lock_inv_def hold_def set_lock_def set_cpu_def lock_free_def by auto
  ultimately show ?thesis
    using acquire_free [OF f] by metis
next
  case False
  have "\<not> holding k s"
    using lock_invD(1) [OF assms(1)] assms(2) by (auto simp: holding_def)
  with False show ?thesis
    by (auto simp: machine_defs kern_simps whenk_def)
qed

lemma release_inv:
  assumes "lock_inv s h" "k \<in> h (me s)"
  shows "\<exists>c L. release k s = Ok () (s\<lparr>cpus := c, locks := L\<rparr>) \<and> lock_inv (s\<lparr>cpus := c, locks := L\<rparr>) (h(me s := h (me s) - {k}))"
proof -
  note d = lock_invD [OF assms(1)]
  have h: "holding k s"
    using d(1) [of k "me s"] d(2) [of k] assms(2) by (auto simp: holding_def)
  have n: "0 < ncli (my_cpu s)" "\<not> iflag (my_cpu s)"
    using d(3,4) [of "me s"] d(5) [OF assms(2)] assms(2) card_gt_0_iff [of "h (me s)"] by auto
  define c where "c = (cpus s)(me s := (my_cpu s)\<lparr>ncli := ncli (my_cpu s) - 1, iflag := (ncli (my_cpu s) = 1 \<and> intena (my_cpu s))\<rparr>)"
  define L where "L = (locks s)(k := (locks s k)\<lparr>lcpu := None, locked := 0\<rparr>)"
  have r: "release k s = Ok () (s\<lparr>cpus := c, locks := L\<rparr>)"
    using h n popcli_eq [of "set_lock k (\<lambda>k. k\<lparr>locked := 0\<rparr>) (set_lock k (\<lambda>k. k\<lparr>lcpu := None\<rparr>) s)"]
    by (simp add: release_def kern_simps xchg_eq set_lock_def set_cpu_def c_def L_def)
  have card: "int (card (h (me s) - {k})) = int (card (h (me s))) - 1"
    using card_Diff_singleton [OF assms(2)] d(3) [of "me s"] assms(2) card_gt_0_iff [of "h (me s)"] by (auto simp: of_nat_diff)
  have "(h(me s := h (me s) - {k})) i \<noteq> {} \<longrightarrow> \<not> iflag (c i)" for i
  proof (cases "i = me s")
    case True
    have "card (h (me s)) \<noteq> 1" if "h (me s) - {k} \<noteq> {}"
      using card that d(3) [of "me s"] by (metis card_0_eq finite_Diff of_nat_0_eq_iff of_nat_1 diff_self)
    then show ?thesis
      using True d(4) [of "me s"] by (auto simp: c_def)
  next
    case False
    then show ?thesis
      using d(5) [where i = i] by (auto simp: c_def)
  qed
  moreover have "lcpu (L m) = Some i \<longleftrightarrow> m \<in> (h(me s := h (me s) - {k})) i" "locked (L m) = 0 \<longleftrightarrow> lcpu (L m) = None" for m i
    using d(1) [of m i] d(2) [of m] d(6) [OF assms(2), of i] by (auto simp: L_def)
  moreover have "finite ((h(me s := h (me s) - {k})) i)" "ncli (c i) = int (card ((h(me s := h (me s) - {k})) i))" for i
    using d(3,4) [of i] card by (auto simp: c_def)
  ultimately have "lock_inv (s\<lparr>cpus := c, locks := L\<rparr>) (h(me s := h (me s) - {k}))"
    by (simp add: lock_inv_def)
  with r show ?thesis
    by blast
qed

section \<open>The invariant\<close>

text \<open>The locks that the CPU of a process holds before an action.\<close>

definition holds :: "lockid \<Rightarrow> role \<Rightarrow> nat \<Rightarrow> lockid set" where
  "holds l r k = (case r of
       Waiter \<Rightarrow> (if k \<in> {2, 3, 4, 12, 13} then {l} else {}) \<union> (if k \<in> {0, 4, 5, 6, 7, 8, 9, 10} then {LkPtable} else {})
     | Waker \<Rightarrow> (if k \<in> {2, 3, 4, 5, 6} then {l} else {}) \<union> (if k \<in> {0, 4, 5} then {LkPtable} else {}))"

definition helds :: "lockid \<Rightarrow> (nat \<Rightarrow> role option) \<Rightarrow> mon_st \<Rightarrow> nat \<Rightarrow> lockid set" where
  "helds l R s i = (case cproc s i of None \<Rightarrow> {} | Some p \<Rightarrow> (case R p of None \<Rightarrow> {} | Some r \<Rightarrow> holds l r (pc s p)))"

text \<open>The entry of a process in the table, by its role and its next action.\<close>

definition placed :: "mon_st \<Rightarrow> nat \<Rightarrow> bool" where
  "placed s p = (\<exists>i. cproc s i = Some p)"

definition entry_ok :: "chan \<Rightarrow> role option \<Rightarrow> bool \<Rightarrow> nat \<Rightarrow> proc \<Rightarrow> bool" where
  "entry_ok ch ro running k q = (case ro of
       None \<Rightarrow> \<not> running \<and> p_state q \<noteq> RUNNABLE \<and> (p_state q = SLEEPING \<longrightarrow> p_chan q \<noteq> Some ch)
     | Some Waiter \<Rightarrow> p_pgdir q \<noteq> 0 \<and> k < 14 \<and> (k \<in> {6, 7, 8} \<longrightarrow> p_chan q = Some ch) \<and>
         (if running then p_state q = (if k = 7 then SLEEPING else RUNNING)
          else k = 0 \<and> p_state q = RUNNABLE \<or> k = 8 \<and> (p_state q = RUNNABLE \<or> p_state q = SLEEPING))
     | Some Waker \<Rightarrow> p_pgdir q \<noteq> 0 \<and> k < 7 \<and> p_state q = (if running then RUNNING else RUNNABLE) \<and> (running \<or> k = 0))"

text \<open>A waiter that has found the condition false, and has not been woken since, will be woken if the condition has become true.\<close>

definition wait_ok :: "(nat \<Rightarrow> role option) \<Rightarrow> mon_st \<Rightarrow> nat \<Rightarrow> bool" where
  "wait_ok R s p = ((pc s p \<in> {3, 4} \<longrightarrow> \<not> cond s) \<and> (cond s \<and> (pc s p \<in> {5, 6, 7} \<or> p_state (ptable s p) = SLEEPING) \<longrightarrow> pending R s))"

definition procs_ok :: "chan \<Rightarrow> (nat \<Rightarrow> role option) \<Rightarrow> mon_st \<Rightarrow> bool" where
  "procs_ok ch R s = ((\<forall>i p. cproc s i = Some p \<longrightarrow> p < NPROC) \<and> (\<forall>i j p. cproc s i = Some p \<and> cproc s j = Some p \<longrightarrow> i = j) \<and>
     (\<forall>p < NPROC. entry_ok ch (R p) (placed s p) (pc s p) (ptable s p)) \<and> (\<forall>p < NPROC. R p = Some Waiter \<longrightarrow> wait_ok R s p))"

definition mon_inv :: "chan \<Rightarrow> lockid \<Rightarrow> (nat \<Rightarrow> role option) \<Rightarrow> mon_st \<Rightarrow> bool" where
  "mon_inv ch l R s = (lock_inv s (helds l R s) \<and> procs_ok ch R s)"

lemma procs_okD:
  assumes "procs_ok ch R s"
  shows "cproc s i = Some p \<Longrightarrow> p < NPROC" "cproc s i = Some p \<Longrightarrow> cproc s j = Some p \<Longrightarrow> i = j"
    "p < NPROC \<Longrightarrow> entry_ok ch (R p) (placed s p) (pc s p) (ptable s p)" "p < NPROC \<Longrightarrow> R p = Some Waiter \<Longrightarrow> wait_ok R s p"
  using assms unfolding procs_ok_def by blast+

lemma mon_init_inv: "mon_init ch R s \<Longrightarrow> mon_inv ch l R s"
  by (auto simp: mon_init_def mon_inv_def lock_inv_def lock_free_def helds_def procs_ok_def placed_def entry_ok_def wait_ok_def
      split: option.split role.split)

text \<open>A step of a waiter, or one of a waker that is not its call of \<^verbatim>\<open>wakeup1\<close> and does not change the condition.\<close>

lemma procs_ok_local:
  assumes ok: "procs_ok ch R s" and p: "cproc s i = Some p" and t: "cproc t = cproc s" "pc t = (pc s)(p := k)" "\<And>q. q \<noteq> p \<Longrightarrow> ptable t q = ptable s q"
    and c: "cond t \<Longrightarrow> cond s" "R p = Some Waker \<Longrightarrow> pc s p \<in> {3, 4} \<Longrightarrow> k \<in> {3, 4}"
    and e: "entry_ok ch (R p) True k (ptable t p)" "R p = Some Waiter \<Longrightarrow> (pending R s \<Longrightarrow> pending R t) \<Longrightarrow> wait_ok R t p"
  shows "procs_ok ch R t"
proof -
  note d = procs_okD [OF ok]
  have on: "placed t q = placed s q" "placed s p" for q
    using p t(1) by (auto simp: placed_def)
  have pend: "pending R t" if "pending R s"
    using that c(2) t(1,2) unfolding pending_def by fastforce
  have "wait_ok R t q" if "q < NPROC" "R q = Some Waiter" for q
    using that d(4) [OF that] e(2) pend c(1) t(2,3) by (cases "q = p") (auto simp: wait_ok_def)
  moreover have "entry_ok ch (R q) (placed t q) (pc t q) (ptable t q)" if "q < NPROC" for q
    using d(3) [OF that] e(1) t(2,3) on by (cases "q = p") auto
  ultimately show ?thesis
    using d(1,2) t(1) unfolding procs_ok_def by simp
qed

lemma helds_local:
  assumes "cproc s i = Some p" "R p = Some r" "cproc t = cproc s" "pc t = (pc s)(p := k)" "\<And>j. cproc s j = Some p \<Longrightarrow> j = i"
  shows "helds l R t = (helds l R s)(i := holds l r k)"
proof
  fix j
  show "helds l R t j = ((helds l R s)(i := holds l r k)) j"
  proof (cases "j = i")
    case False
    then have "cproc s j \<noteq> Some p"
      using assms(5) by blast
    then show ?thesis
      using False assms(3,4) by (auto simp: helds_def split: option.split)
  qed (use assms(1-4) in \<open>simp add: helds_def\<close>)
qed

section \<open>Steps of a process\<close>

lemma step_local:
  assumes inv: "mon_inv ch l R s" and p: "cproc s i = Some p" "R p = Some r" "pc s p < length (code ch l R s p)"
    and k: "k = next_pc r (pc s p) (cond s)" and act: "(code ch l R s p ! pc s p) (s\<lparr>me := i\<rparr>) = Ok () u"
    and u: "cproc u = cproc s" "pc u = pc s" "\<And>q. q \<noteq> p \<Longrightarrow> ptable u q = ptable s q" "cond u \<Longrightarrow> cond s"
    and lock: "lock_inv u ((helds l R s)(i := holds l r k))"
    and w: "r = Waker \<Longrightarrow> pc s p \<in> {3, 4} \<Longrightarrow> k \<in> {3, 4}"
    and e: "entry_ok ch (Some r) True k (ptable u p)" "r = Waiter \<Longrightarrow> (pending R s \<Longrightarrow> pending R (u\<lparr>pc := (pc s)(p := k)\<rparr>)) \<Longrightarrow> wait_ok R (u\<lparr>pc := (pc s)(p := k)\<rparr>) p"
  shows "\<exists>t. cpu_act ch l R i s = Ok (Some p) t \<and> mon_inv ch l R t"
proof -
  let ?t = "u\<lparr>pc := (pc s)(p := k)\<rparr>"
  have ok: "procs_ok ch R s"
    using inv by (simp add: mon_inv_def)
  have "procs_ok ch R ?t"
    using procs_ok_local [OF ok p(1), of ?t k] u w e p(2) by simp
  moreover have "helds l R ?t = (helds l R s)(i := holds l r k)"
    by (rule helds_local [where R = R and p = p, OF p(1) p(2)]) (use u(1) procs_okD(2) [OF ok _ p(1)] in simp_all)
  then have "lock_inv ?t (helds l R ?t)"
    using lock lock_inv_cong [of ?t u] by simp
  moreover have "cpu_act ch l R i s = Ok (Some p) ?t"
    using p k act u(2) by (simp add: cpu_act_def not_le)
  ultimately show ?thesis
    by (simp add: mon_inv_def)
qed

text \<open>An action that takes a lock, one that gives one back, and one on the entry of the process or the condition.\<close>

lemma step_acquire:
  assumes inv: "mon_inv ch l R s" and p: "cproc s i = Some p" "R p = Some r" "pc s p < length (code ch l R s p)"
    and k: "k = next_pc r (pc s p) (cond s)" and act: "code ch l R s p ! pc s p = acquire m"
    and m: "m \<notin> holds l r (pc s p)" "holds l r k = insert m (holds l r (pc s p))"
    and w: "r = Waker \<Longrightarrow> pc s p \<in> {3, 4} \<Longrightarrow> k \<in> {3, 4}"
    and e: "entry_ok ch (Some r) True k (ptable s p)" "r = Waiter \<Longrightarrow> wait_ok R s p \<Longrightarrow> k \<in> {3, 4} \<longrightarrow> \<not> cond s" "k \<notin> {5, 6, 7}" "p_state (ptable s p) \<noteq> SLEEPING"
  shows "(\<exists>t. cpu_act ch l R i s = Ok (Some p) t \<and> mon_inv ch l R t) \<or> (\<exists>t. cpu_act ch l R i s = Spin m t)"
proof -
  let ?s = "s\<lparr>me := i\<rparr>"
  have h: "helds l R s i = holds l r (pc s p)"
    using p by (simp add: helds_def)
  have "lock_inv ?s (helds l R s)"
    using inv lock_inv_cong [of ?s s] by (simp add: mon_inv_def)
  then consider (ok) c L where "acquire m ?s = Ok () (?s\<lparr>cpus := c, locks := L\<rparr>)" "lock_inv (?s\<lparr>cpus := c, locks := L\<rparr>) ((helds l R s)(i := holds l r k))"
    | (spin) t where "acquire m ?s = Spin m t"
    using acquire_inv [of ?s "helds l R s" m] m h by auto
  then show ?thesis
  proof cases
    case ok
    have "wait_ok R s p" if "r = Waiter"
      using inv p that procs_okD(1,4) by (auto simp: mon_inv_def)
    moreover have "\<exists>t. cpu_act ch l R i s = Ok (Some p) t \<and> mon_inv ch l R t"
    proof (rule step_local [OF inv p k])
      show "(code ch l R s p ! pc s p) ?s = Ok () (?s\<lparr>cpus := c, locks := L\<rparr>)"
        using ok(1) act by simp
      show "wait_ok R (?s\<lparr>cpus := c, locks := L, pc := (pc s)(p := k)\<rparr>) p" if "r = Waiter"
        using e(2-4) that calculation by (simp add: wait_ok_def)
    qed (use ok(2) w e(1) in simp_all)
    then show ?thesis ..
  next
    case spin
    then show ?thesis
      using p act by (simp add: cpu_act_def not_le)
  qed
qed

lemma step_release:
  assumes inv: "mon_inv ch l R s" and p: "cproc s i = Some p" "R p = Some r" "pc s p < length (code ch l R s p)"
    and k: "k = next_pc r (pc s p) (cond s)" and act: "code ch l R s p ! pc s p = release m"
    and m: "m \<in> holds l r (pc s p)" "holds l r k = holds l r (pc s p) - {m}"
    and w: "r = Waker \<Longrightarrow> pc s p \<in> {3, 4} \<Longrightarrow> k \<in> {3, 4}"
    and e: "entry_ok ch (Some r) True k (ptable s p)" "r = Waiter \<Longrightarrow> wait_ok R s p \<Longrightarrow> k \<in> {5, 6, 7} \<longrightarrow> \<not> cond s" "k \<notin> {3, 4}" "p_state (ptable s p) \<noteq> SLEEPING"
  shows "\<exists>t. cpu_act ch l R i s = Ok (Some p) t \<and> mon_inv ch l R t"
proof -
  let ?s = "s\<lparr>me := i\<rparr>"
  have h: "helds l R s i = holds l r (pc s p)"
    using p by (simp add: helds_def)
  have "lock_inv ?s (helds l R s)"
    using inv lock_inv_cong [of ?s s] by (simp add: mon_inv_def)
  then obtain c L where "release m ?s = Ok () (?s\<lparr>cpus := c, locks := L\<rparr>)" "lock_inv (?s\<lparr>cpus := c, locks := L\<rparr>) ((helds l R s)(i := holds l r k))"
    using release_inv [of ?s "helds l R s" m] m h by auto
  note r = this
  have wait: "wait_ok R s p" if "r = Waiter"
    using inv p that procs_okD(1,4) by (auto simp: mon_inv_def)
  show ?thesis
  proof (rule step_local [OF inv p k])
    show "(code ch l R s p ! pc s p) ?s = Ok () (?s\<lparr>cpus := c, locks := L\<rparr>)"
      using r(1) act by simp
    show "wait_ok R (?s\<lparr>cpus := c, locks := L, pc := (pc s)(p := k)\<rparr>) p" if "r = Waiter"
      using e(2-4) that wait by (auto simp: wait_ok_def)
  qed (use r(2) w e(1) in simp_all)
qed

lemma step_plain:
  assumes inv: "mon_inv ch l R s" and p: "cproc s i = Some p" "R p = Some r" "pc s p < length (code ch l R s p)"
    and k: "k = next_pc r (pc s p) (cond s)" and act: "(code ch l R s p ! pc s p) (s\<lparr>me := i\<rparr>) = Ok () (upd_proc p f (s\<lparr>me := i, cond := c\<rparr>))"
    and m: "c \<Longrightarrow> cond s" "holds l r k = holds l r (pc s p)" "r = Waiter"
    and e: "entry_ok ch (Some r) True k (f (ptable s p))"
      "wait_ok R s p \<Longrightarrow> (k \<in> {3, 4} \<longrightarrow> \<not> c) \<and> (c \<and> (k \<in> {5, 6, 7} \<or> p_state (f (ptable s p)) = SLEEPING) \<longrightarrow> pending R s)"
  shows "\<exists>t. cpu_act ch l R i s = Ok (Some p) t \<and> mon_inv ch l R t"
proof (rule step_local [OF inv p k act])
  let ?u = "upd_proc p f (s\<lparr>me := i, cond := c\<rparr>)"
  have c: "cond ?u = c" "cproc ?u = cproc s" "pc ?u = pc s" "locks ?u = locks s" "cpus ?u = cpus s"
    by (simp_all add: upd_proc_def)
  show "cproc ?u = cproc s" "pc ?u = pc s" "\<And>q. q \<noteq> p \<Longrightarrow> ptable ?u q = ptable s q" "cond ?u \<Longrightarrow> cond s"
    using c m(1) by simp_all
  have "(helds l R s)(i := holds l r k) = helds l R s"
    using p m(2) by (simp add: fun_eq_iff helds_def)
  then show "lock_inv ?u ((helds l R s)(i := holds l r k))"
    using inv lock_inv_cong [OF c(4,5)] by (simp add: mon_inv_def)
  have "wait_ok R s p"
    using inv p m(3) procs_okD(1,4) by (auto simp: mon_inv_def)
  note q = e(2) [OF this]
  show "wait_ok R (?u\<lparr>pc := (pc s)(p := k)\<rparr>) p" if "pending R s \<Longrightarrow> pending R (?u\<lparr>pc := (pc s)(p := k)\<rparr>)"
  proof -
    define t where "t = ?u\<lparr>pc := (pc s)(p := k)\<rparr>"
    have "cond t = c" "pc t p = k" "ptable t p = f (ptable s p)"
      by (simp_all add: t_def c)
    then show ?thesis
      using q that unfolding t_def [symmetric] wait_ok_def by simp
  qed
qed (use m e(1) in simp_all)

text \<open>The code of the two roles, action by action.\<close>

lemma waiter_codes:
  assumes "R p = Some Waiter" "l \<noteq> LkPtable"
  shows "length (code ch l R s p) = 14" "code ch l R s p ! 0 = release LkPtable" "code ch l R s p ! 1 = acquire l" "code ch l R s p ! 2 = ret ()"
    "code ch l R s p ! 3 = acquire LkPtable" "code ch l R s p ! 4 = release l" "code ch l R s p ! 5 = md (upd_proc p (\<lambda>q. q\<lparr>p_chan := Some ch\<rparr>))"
    "code ch l R s p ! 6 = md (upd_proc p (\<lambda>q. q\<lparr>p_state := SLEEPING\<rparr>))" "code ch l R s p ! 7 = sched" "code ch l R s p ! 8 = sched_resume (kept s p)"
    "code ch l R s p ! 9 = with_proc (\<lambda>p. md (upd_proc p (\<lambda>q. q\<lparr>p_chan := None\<rparr>)))" "code ch l R s p ! 10 = release LkPtable"
    "code ch l R s p ! 11 = acquire l" "code ch l R s p ! 12 = md (\<lambda>s. s\<lparr>cond := False\<rparr>)" "code ch l R s p ! 13 = release l"
  using assms by (simp_all add: code_def waiter_code_def sleep_acts_def sleep_resume_acts_def)

lemma waker_codes:
  assumes "R p = Some Waker"
  shows "length (code ch l R s p) = 7" "code ch l R s p ! 0 = release LkPtable" "code ch l R s p ! 1 = acquire l" "code ch l R s p ! 2 = md (\<lambda>s. s\<lparr>cond := True\<rparr>)"
    "code ch l R s p ! 3 = acquire LkPtable" "code ch l R s p ! 4 = wakeup1 ch" "code ch l R s p ! 5 = release LkPtable" "code ch l R s p ! 6 = release l"
  using assms by (simp_all add: code_def waker_code_def wakeup_acts_def)

section \<open>Wakers\<close>

lemma pending_step:
  assumes "procs_ok ch R s" "cproc s i = Some p" "cproc t = cproc s" "pc t = (pc s)(p := k)" "R p = Some Waker" "k \<in> {3, 4}"
  shows "pending R t"
  using assms unfolding pending_def by (intro exI [of _ i] exI [of _ p]) simp

text \<open>No waiter is between its test and the end of its sleep while another CPU holds both locks.\<close>

lemma waiters_away:
  assumes inv: "mon_inv ch l R s" and k: "m \<in> helds l R s i" "cproc s i = Some p" "R p = Some Waker" and q: "q < NPROC" "R q = Some Waiter"
  shows "m = l \<Longrightarrow> pc s q \<notin> {3, 4}" "m = LkPtable \<Longrightarrow> pc s q \<notin> {5, 6, 7}" "p_state (ptable s q) = SLEEPING \<Longrightarrow> p_chan (ptable s q) = Some ch"
proof -
  have ok: "lock_inv s (helds l R s)" "entry_ok ch (R q) (placed s q) (pc s q) (ptable s q)"
    using inv procs_okD(3) q(1) by (auto simp: mon_inv_def)
  have "m \<notin> holds l Waiter (pc s q)" if on: "placed s q"
  proof
    assume m: "m \<in> holds l Waiter (pc s q)"
    obtain j where j: "cproc s j = Some q"
      using on by (auto simp: placed_def)
    then have "m \<in> helds l R s j"
      using m q(2) by (simp add: helds_def)
    then have "i = j"
      using lock_invD(6) [OF ok(1) k(1)] by simp
    then show False
      using j k(2,3) q(2) by simp
  qed
  then show "m = l \<Longrightarrow> pc s q \<notin> {3, 4}" "m = LkPtable \<Longrightarrow> pc s q \<notin> {5, 6, 7}"
    using ok(2) q(2) by (auto simp: entry_ok_def holds_def split: if_splits)
  show "p_state (ptable s q) = SLEEPING \<Longrightarrow> p_chan (ptable s q) = Some ch"
    using ok(2) q(2) by (auto simp: entry_ok_def split: if_splits)
qed

text \<open>A waker that holds the lock establishes the condition.\<close>

lemma waker_sets:
  assumes inv: "mon_inv ch l R s" and p: "cproc s i = Some p" "R p = Some Waker" "pc s p = 2"
  shows "\<exists>t. cpu_act ch l R i s = Ok (Some p) t \<and> mon_inv ch l R t"
proof -
  let ?t = "s\<lparr>me := i, cond := True, pc := (pc s)(p := 3)\<rparr>"
  have ok: "procs_ok ch R s" "lock_inv s (helds l R s)"
    using inv by (simp_all add: mon_inv_def)
  note d = procs_okD [OF ok(1)]
  have act: "cpu_act ch l R i s = Ok (Some p) ?t"
    using p waker_codes [of R p ch l s, OF p(2)] by (simp add: cpu_act_def)
  have "helds l R ?t = (helds l R s)(i := holds l Waker 3)"
    by (rule helds_local [where R = R and p = p, OF p(1,2)]) (use d(2) [OF _ p(1)] in simp_all)
  also have "\<dots> = helds l R s"
    using p by (simp add: fun_eq_iff helds_def holds_def)
  finally have "lock_inv ?t (helds l R ?t)"
    using ok(2) lock_inv_cong [of ?t s] by simp
  moreover have "procs_ok ch R ?t"
  proof -
    have "pending R ?t"
      by (rule pending_step [OF ok(1) p(1), where k = 3]) (use p(2) in simp_all)
    moreover have "l \<in> helds l R s i"
      using p by (simp add: helds_def holds_def)
    ultimately have "wait_ok R ?t q" if "q < NPROC" "R q = Some Waiter" for q
      using waiters_away(1) [OF inv _ p(1,2) that] that p(2) by (auto simp: wait_ok_def)
    moreover have "placed ?t q = placed s q" for q
      by (simp add: placed_def)
    moreover have "entry_ok ch (R q) (placed s q) (pc ?t q) (ptable s q)" if "q < NPROC" for q
      using d(3) [OF that] p by (auto simp: entry_ok_def split: if_splits)
    ultimately show ?thesis
      using d(1,2) by (simp add: procs_ok_def)
  qed
  ultimately show ?thesis
    using act by (simp add: mon_inv_def)
qed

text \<open>A waker that holds the lock of the table wakes every waiter that sleeps.\<close>

lemma waker_wakes:
  assumes inv: "mon_inv ch l R s" and p: "cproc s i = Some p" "R p = Some Waker" "pc s p = 4"
  shows "\<exists>t. cpu_act ch l R i s = Ok (Some p) t \<and> mon_inv ch l R t"
proof -
  let ?t = "s\<lparr>me := i, ptable := (\<lambda>p. if p < NPROC then woken ch (ptable s p) else ptable s p), pc := (pc s)(p := 5)\<rparr>"
  have ok: "procs_ok ch R s" "lock_inv s (helds l R s)"
    using inv by (simp_all add: mon_inv_def)
  note d = procs_okD [OF ok(1)]
  have act: "cpu_act ch l R i s = Ok (Some p) ?t"
    using p waker_codes [of R p ch l s, OF p(2)] wakeup1_eq [of ch "s\<lparr>me := i\<rparr>"] by (simp add: cpu_act_def cong: if_cong)
  have "helds l R ?t = (helds l R s)(i := holds l Waker 5)"
    by (rule helds_local [where R = R and p = p, OF p(1,2)]) (use d(2) [OF _ p(1)] in simp_all)
  also have "\<dots> = helds l R s"
    using p by (simp add: fun_eq_iff helds_def holds_def)
  finally have "lock_inv ?t (helds l R ?t)"
    using ok(2) lock_inv_cong [of ?t s] by simp
  moreover have "procs_ok ch R ?t"
  proof -
    have h: "LkPtable \<in> helds l R s i" "l \<in> helds l R s i"
      using p by (simp_all add: helds_def holds_def)
    have "wait_ok R ?t q" if q: "q < NPROC" "R q = Some Waiter" for q
    proof -
      have "q \<noteq> p" "p_state (woken ch (ptable s q)) \<noteq> SLEEPING" "pc s q \<notin> {3, 4}" "pc s q \<notin> {5, 6, 7}"
        using waiters_away [OF inv h(1) p(1,2) q] waiters_away [OF inv h(2) p(1,2) q] q p(2) by (auto simp: woken_def)
      then show ?thesis
        using q(1) by (simp add: wait_ok_def)
    qed
    moreover have "placed ?t q = placed s q" for q
      by (simp add: placed_def)
    moreover have "entry_ok ch (R q) (placed s q) (pc ?t q) (ptable ?t q)" if "q < NPROC" for q
      using d(3) [OF that] p waiters_away(2) [OF inv h(1) p(1,2) that] by (auto simp: entry_ok_def woken_def split: if_splits option.splits role.splits)
    ultimately show ?thesis
      using d(1,2) by (simp add: procs_ok_def)
  qed
  ultimately show ?thesis
    using act by (simp add: mon_inv_def)
qed

section \<open>The scheduler\<close>

text \<open>A CPU with the locks \<open>h\<close> may have to wait for the lock \<open>m\<close>: for the lock of the table, or for \<open>l\<close> when it holds none.\<close>

definition waits_for :: "lockid \<Rightarrow> lockid set \<Rightarrow> lockid \<Rightarrow> bool" where
  "waits_for l h m = (m = LkPtable \<and> LkPtable \<notin> h \<or> m = l \<and> h = {})"

text \<open>CPU \<open>i\<close> is in the loop of the scheduler, with the lock of the table.\<close>

definition in_sched :: "chan \<Rightarrow> lockid \<Rightarrow> (nat \<Rightarrow> role option) \<Rightarrow> nat \<Rightarrow> mon_st \<Rightarrow> bool" where
  "in_sched ch l R i s = (cproc s i = None \<and> me s = i \<and> lock_inv s ((helds l R s)(i := {LkPtable})) \<and> procs_ok ch R s)"

lemma procs_ok_cong: "cproc t = cproc s \<Longrightarrow> pc t = pc s \<Longrightarrow> ptable t = ptable s \<Longrightarrow> cond t = cond s \<Longrightarrow> procs_ok ch R t = procs_ok ch R s"
  by (simp add: procs_ok_def placed_def wait_ok_def pending_def)

lemma helds_cong: "cproc t = cproc s \<Longrightarrow> pc t = pc s \<Longrightarrow> helds l R t = helds l R s"
  by (rule ext) (auto simp: helds_def split: option.split)

lemma dispatch_ok:
  assumes ok: "procs_ok ch R s" and i: "cproc s (me s) = None" and q: "q < NPROC" "runnable s q"
  shows "procs_ok ch R (dispatched q s)" "helds l R (dispatched q s) = (helds l R s)(me s := {LkPtable})"
proof -
  let ?t = "dispatched q s"
  note d = procs_okD [OF ok]
  have t: "cproc ?t = (cproc s)(me s := Some q)" "pc ?t = pc s" "cond ?t = cond s" "ptable ?t = (ptable s)(q := (ptable s q)\<lparr>p_state := RUNNING\<rparr>)"
    by (simp_all add: dispatched_def) (simp_all add: upd_proc_def)
  obtain r where r: "R q = Some r" "\<not> placed s q" "pc s q = 0 \<or> r = Waiter \<and> pc s q = 8"
    using d(3) [OF q(1)] q(2) by (auto simp: entry_ok_def split: option.splits role.splits if_splits)
  have pl: "placed ?t x = (placed s x \<or> x = q)" for x
    using i unfolding placed_def t(1) by (metis fun_upd_other fun_upd_same option.distinct(1) option.inject)
  have off: "cproc s j \<noteq> Some q" for j
    using r(2) by (auto simp: placed_def)
  have "pending R ?t" if "pending R s"
    using that i unfolding pending_def t(1,2) by (metis fun_upd_other option.distinct(1))
  then have "wait_ok R ?t x" if "x < NPROC" "R x = Some Waiter" for x
    using d(4) [OF that] r by (cases "x = q") (auto simp: wait_ok_def t)
  moreover have "entry_ok ch (R x) (placed ?t x) (pc ?t x) (ptable ?t x)" if "x < NPROC" for x
    using d(3) [OF that] r pl by (cases "x = q") (auto simp: entry_ok_def t split: role.splits)
  ultimately show "procs_ok ch R ?t"
    using d(1,2) q(1) off by (auto simp: procs_ok_def t(1) split: if_splits)
  show "helds l R ?t = (helds l R s)(me s := {LkPtable})"
  proof (rule ext)
    fix j
    show "helds l R ?t j = ((helds l R s)(me s := {LkPtable})) j"
      using r by (cases "j = me s") (auto simp: helds_def t(1,2) holds_def split: role.split option.split)
  qed
qed

lemma in_sched_scan:
  assumes "in_sched ch l R i s" "set ps \<subseteq> {..<NPROC}"
  shows "\<exists>r t. scheduler_scan ps s = Ok r t \<and> mon_inv ch l R t"
proof -
  have s: "cproc s (me s) = None" "me s = i" "lock_inv s ((helds l R s)(me s := {LkPtable}))" "procs_ok ch R s"
    using assms(1) by (auto simp: in_sched_def)
  note d = procs_okD [OF s(4)] and k = lock_invD [OF s(3)]
  have "inside s"
    using k(4) [of "me s"] k(5) [of LkPtable "me s"] by (simp add: inside_def)
  moreover have "\<forall>p \<in> set ps. runnable s p \<longrightarrow> p_pgdir (ptable s p) \<noteq> 0"
  proof (intro ballI impI)
    fix p
    assume p: "p \<in> set ps" "runnable s p"
    then have "p < NPROC"
      using assms(2) by blast
    from d(3) [OF this] p(2) show "p_pgdir (ptable s p) \<noteq> 0"
      by (auto simp: entry_ok_def split: option.splits role.splits)
  qed
  ultimately have scan: "scheduler_scan ps s = (case find (runnable s) ps of
      None \<Rightarrow> thn (release LkPtable) (ret None) s | Some p \<Rightarrow> Ok (Some p) (dispatched p s))"
    by (rule scheduler_scan_eq)
  show ?thesis
  proof (cases "find (runnable s) ps")
    case None
    obtain c L where r: "release LkPtable s = Ok () (s\<lparr>cpus := c, locks := L\<rparr>)" "lock_inv (s\<lparr>cpus := c, locks := L\<rparr>) ((helds l R s)(me s := {}))"
      using release_inv [OF s(3), of LkPtable] by auto
    let ?t = "s\<lparr>cpus := c, locks := L\<rparr>"
    have "helds l R s (me s) = {}"
      using s(1) by (simp add: helds_def)
    then have "helds l R ?t = (helds l R s)(me s := {})" "procs_ok ch R ?t"
      using s(4) procs_ok_cong [of ?t s] helds_cong [of ?t s] by (simp_all add: fun_upd_idem)
    then show ?thesis
      using r scan None by (simp add: kern_simps mon_inv_def)
  next
    case (Some q)
    then have q: "q < NPROC" "runnable s q"
      using assms(2) nth_mem by (fastforce simp: find_Some_iff)+
    have "locks (dispatched q s) = locks s" "cpus (dispatched q s) = cpus s"
      by (simp_all add: dispatched_def)
    then show ?thesis
      using dispatch_ok [OF s(4,1) q] s(3) lock_inv_cong [of "dispatched q s" s] scan Some by (simp add: mon_inv_def)
  qed
qed

lemma idle_step:
  assumes inv: "mon_inv ch l R s" and i: "cproc s i = None"
  shows "(\<exists>r t. cpu_act ch l R i s = Ok r t \<and> mon_inv ch l R t) \<or> (\<exists>t. cpu_act ch l R i s = Spin LkPtable t)"
proof -
  let ?s = "set_cpu (\<lambda>c. c\<lparr>iflag := True\<rparr>) (s\<lparr>me := i\<rparr>)"
  have h: "helds l R s i = {}" "helds l R ?s = helds l R s" "me ?s = i" "cproc ?s = cproc s"
    using i helds_cong [of ?s s] by (simp_all add: helds_def set_cpu_def)
  have "lock_inv ?s (helds l R s)"
    using inv h(1) by (auto simp: mon_inv_def lock_inv_def set_cpu_def)
  then consider (ok) c L where "acquire LkPtable ?s = Ok () (?s\<lparr>cpus := c, locks := L\<rparr>)" "lock_inv (?s\<lparr>cpus := c, locks := L\<rparr>) ((helds l R s)(i := {LkPtable}))"
    | (spin) t where "acquire LkPtable ?s = Spin LkPtable t"
    using acquire_inv [of ?s "helds l R s" LkPtable] h by auto
  then show ?thesis
  proof cases
    case ok
    let ?t = "?s\<lparr>cpus := c, locks := L\<rparr>"
    have "procs_ok ch R ?t" "helds l R ?t = helds l R s"
      using inv procs_ok_cong [of ?t s] helds_cong [of ?t s] by (simp_all add: mon_inv_def set_cpu_def)
    then have "in_sched ch l R i ?t"
      using ok(2) i h by (simp add: in_sched_def)
    then obtain r t where "scheduler_scan [0..<NPROC] ?t = Ok r t" "mon_inv ch l R t"
      using in_sched_scan [of ch l R i ?t "[0..<NPROC]"] atLeast0LessThan by (metis order_refl set_upt)
    then show ?thesis
      using ok(1) i by (simp add: cpu_act_def scheduler_round_def sti_def kern_simps)
  next
    case spin
    then show ?thesis
      using i by (simp add: cpu_act_def scheduler_round_def sti_def kern_simps)
  qed
qed

section \<open>Waiters\<close>

lemma waiter_facts:
  assumes inv: "mon_inv ch l R s" and p: "cproc s i = Some p" "R p = Some Waiter"
  shows "pc s p < 14" "p_pgdir (ptable s p) \<noteq> 0" "pc s p \<in> {6, 7, 8} \<Longrightarrow> p_chan (ptable s p) = Some ch"
    "p_state (ptable s p) = (if pc s p = 7 then SLEEPING else RUNNING)" "wait_ok R s p"
proof -
  have ok: "procs_ok ch R s" "p < NPROC"
    using inv p(1) procs_okD(1) by (auto simp: mon_inv_def)
  moreover have "placed s p"
    using p(1) by (auto simp: placed_def)
  ultimately show "pc s p < 14" "p_pgdir (ptable s p) \<noteq> 0" "pc s p \<in> {6, 7, 8} \<Longrightarrow> p_chan (ptable s p) = Some ch"
    "p_state (ptable s p) = (if pc s p = 7 then SLEEPING else RUNNING)"
    using procs_okD(3) [OF ok] p(2) by (simp_all add: entry_ok_def)
  show "wait_ok R s p"
    using procs_okD(4) [OF ok p(2)] .
qed

lemma waiter_acquires:
  assumes inv: "mon_inv ch l R s" and p: "cproc s i = Some p" "R p = Some Waiter" and l: "l \<noteq> LkPtable" and k: "pc s p \<in> {1, 3, 11}"
  shows "(\<exists>r t. cpu_act ch l R i s = Ok r t \<and> mon_inv ch l R t) \<or> (\<exists>m t. cpu_act ch l R i s = Spin m t \<and> waits_for l (helds l R s i) m)"
proof -
  note f = waiter_facts [OF inv p] and c = waiter_codes [of R p l ch s, OF p(2) l]
  let ?m = "if pc s p = 3 then LkPtable else l"
  have "(\<exists>t. cpu_act ch l R i s = Ok (Some p) t \<and> mon_inv ch l R t) \<or> (\<exists>t. cpu_act ch l R i s = Spin ?m t)"
  proof (rule step_acquire [OF inv p _ refl])
    show "code ch l R s p ! pc s p = acquire ?m"
      using k c(3,5,13) by auto
    show "?m \<notin> holds l Waiter (pc s p)" "holds l Waiter (next_pc Waiter (pc s p) (cond s)) = insert ?m (holds l Waiter (pc s p))"
      using k l by (auto simp: holds_def)
    show "entry_ok ch (Some Waiter) True (next_pc Waiter (pc s p) (cond s)) (ptable s p)"
      using k f(1-4) by (auto simp: entry_ok_def)
    show "next_pc Waiter (pc s p) (cond s) \<in> {3, 4} \<longrightarrow> \<not> cond s" if "wait_ok R s p"
      using that k by (auto simp: wait_ok_def)
  qed (use k c(1) f(4) in auto)
  moreover have "waits_for l (helds l R s i) ?m"
    using k p l by (auto simp: waits_for_def helds_def holds_def)
  ultimately show ?thesis
    by blast
qed

lemma waiter_releases:
  assumes inv: "mon_inv ch l R s" and p: "cproc s i = Some p" "R p = Some Waiter" and l: "l \<noteq> LkPtable" and k: "pc s p \<in> {0, 4, 10, 13}"
  shows "\<exists>r t. cpu_act ch l R i s = Ok r t \<and> mon_inv ch l R t"
proof -
  note f = waiter_facts [OF inv p] and c = waiter_codes [of R p l ch s, OF p(2) l]
  let ?m = "if pc s p \<in> {0, 10} then LkPtable else l"
  have "\<exists>t. cpu_act ch l R i s = Ok (Some p) t \<and> mon_inv ch l R t"
  proof (rule step_release [OF inv p _ refl])
    show "code ch l R s p ! pc s p = release ?m"
      using k c(2,6,12,15) by auto
    consider "pc s p = 0" | "pc s p = 4" | "pc s p = 10" | "pc s p = 13"
      using k by auto
    then show "?m \<in> holds l Waiter (pc s p)" "holds l Waiter (next_pc Waiter (pc s p) (cond s)) = holds l Waiter (pc s p) - {?m}"
      by (cases; use l in \<open>auto simp: holds_def\<close>)+
    show "entry_ok ch (Some Waiter) True (next_pc Waiter (pc s p) (cond s)) (ptable s p)"
      using k f(1-4) by (auto simp: entry_ok_def)
    show "next_pc Waiter (pc s p) (cond s) \<in> {5, 6, 7} \<longrightarrow> \<not> cond s" if "wait_ok R s p"
      using that k by (auto simp: wait_ok_def)
  qed (use k c(1) f(4) in auto)
  then show ?thesis
    by blast
qed

text \<open>The test, the two assignments of \<^verbatim>\<open>sleep\<close>, the one after it, and the condition taken.\<close>

lemma waiter_moves:
  assumes inv: "mon_inv ch l R s" and p: "cproc s i = Some p" "R p = Some Waiter" and l: "l \<noteq> LkPtable" and k: "pc s p \<in> {2, 5, 6, 9, 12}"
  shows "\<exists>r t. cpu_act ch l R i s = Ok r t \<and> mon_inv ch l R t"
proof -
  note f = waiter_facts [OF inv p] and c = waiter_codes [of R p l ch s, OF p(2) l]
  define g :: "proc \<Rightarrow> proc" where "g = (if pc s p = 5 then (\<lambda>q. q\<lparr>p_chan := Some ch\<rparr>) else if pc s p = 6 then (\<lambda>q. q\<lparr>p_state := SLEEPING\<rparr>)
    else if pc s p = 9 then (\<lambda>q. q\<lparr>p_chan := None\<rparr>) else (\<lambda>q. q))"
  define b where "b = (if pc s p = 12 then False else cond s)"
  have "\<exists>t. cpu_act ch l R i s = Ok (Some p) t \<and> mon_inv ch l R t"
  proof (rule step_plain [OF inv p _ refl])
    show "(code ch l R s p ! pc s p) (s\<lparr>me := i\<rparr>) = Ok () (upd_proc p g (s\<lparr>me := i, cond := b\<rparr>))"
      using k p(1) c(4,7,8,11,14) by (auto simp: g_def b_def kern_simps with_proc_def curproc_def upd_proc_def intro!: mon_st.equality)
    show "holds l Waiter (next_pc Waiter (pc s p) (cond s)) = holds l Waiter (pc s p)"
      using k by (auto simp: holds_def)
    show "entry_ok ch (Some Waiter) True (next_pc Waiter (pc s p) (cond s)) (g (ptable s p))"
      using k f(1-4) by (auto simp: entry_ok_def g_def)
    show "(next_pc Waiter (pc s p) (cond s) \<in> {3, 4} \<longrightarrow> \<not> b) \<and>
      (b \<and> (next_pc Waiter (pc s p) (cond s) \<in> {5, 6, 7} \<or> p_state (g (ptable s p)) = SLEEPING) \<longrightarrow> pending R s)" if "wait_ok R s p"
      using that k f(4) by (auto simp: wait_ok_def g_def b_def split: if_splits)
  qed (use k c(1) in \<open>auto simp: b_def split: if_splits\<close>)
  then show ?thesis
    by blast
qed

text \<open>The value of \<^verbatim>\<open>intena\<close> comes back.\<close>

lemma waiter_resumes:
  assumes inv: "mon_inv ch l R s" and p: "cproc s i = Some p" "R p = Some Waiter" and l: "l \<noteq> LkPtable" and k: "pc s p = 8"
  shows "\<exists>r t. cpu_act ch l R i s = Ok r t \<and> mon_inv ch l R t"
proof -
  note f = waiter_facts [OF inv p] and c = waiter_codes [of R p l ch s, OF p(2) l]
  let ?u = "set_cpu (\<lambda>c. c\<lparr>intena := kept s p\<rparr>) (s\<lparr>me := i\<rparr>)"
  have "\<exists>t. cpu_act ch l R i s = Ok (Some p) t \<and> mon_inv ch l R t"
  proof (rule step_local [OF inv p _ refl])
    show "(code ch l R s p ! pc s p) (s\<lparr>me := i\<rparr>) = Ok () ?u"
      using k c by (simp add: sched_resume_def)
    have "helds l R s i = holds l Waiter 9"
      using p k by (simp add: helds_def holds_def)
    then show "lock_inv ?u ((helds l R s)(i := holds l Waiter (next_pc Waiter (pc s p) (cond s))))"
      using inv k by (auto simp: mon_inv_def lock_inv_def set_cpu_def fun_upd_idem)
    show "entry_ok ch (Some Waiter) True (next_pc Waiter (pc s p) (cond s)) (ptable ?u p)"
      using k f(1-4) by (simp add: entry_ok_def set_cpu_def)
    show "wait_ok R (?u\<lparr>pc := (pc s)(p := next_pc Waiter (pc s p) (cond s))\<rparr>) p"
      using k f(4) by (simp add: wait_ok_def set_cpu_def)
  qed (use k c(1) in \<open>simp_all add: set_cpu_def\<close>)
  then show ?thesis
    by blast
qed

text \<open>The context switch of \<^verbatim>\<open>sched\<close>: the waiter leaves the CPU and the scheduler goes on with the lock of the table.\<close>

lemma waiter_leaves:
  assumes ok: "procs_ok ch R s" and p: "cproc s i = Some p" "R p = Some Waiter" "pc s p = 7" and e: "entry_ok ch (R p) True 7 (ptable s p)" and i: "me s = i"
  shows "procs_ok ch R (idled (s\<lparr>pc := (pc s)(p := 8), kept := k\<rparr>))"
    "helds l R (idled (s\<lparr>pc := (pc s)(p := 8), kept := k\<rparr>)) = (helds l R s)(i := {})"
proof -
  let ?t = "idled (s\<lparr>pc := (pc s)(p := 8), kept := k\<rparr>)"
  note d = procs_okD [OF ok]
  have t: "cproc ?t = (cproc s)(i := None)" "pc ?t = (pc s)(p := 8)" "ptable ?t = ptable s" "cond ?t = cond s"
    using i by (simp_all add: idled_def)
  have off: "j = i" if "cproc s j = Some p" for j
    using d(2) [OF that p(1)] .
  have pl: "placed ?t q = (placed s q \<and> q \<noteq> p)" for q
    using off p(1) unfolding placed_def t(1) by (metis fun_upd_apply option.distinct(1) option.inject)
  have "pending R ?t" if pd: "pending R s"
  proof -
    obtain j w where j: "cproc s j = Some w" "R w = Some Waker" "pc s w \<in> {3, 4}"
      using pd by (auto simp: pending_def)
    have "j \<noteq> i" "w \<noteq> p"
      using j(1,2) p(1,2) by auto
    then show ?thesis
      using j unfolding pending_def t by (intro exI [of _ j] exI [of _ w]) simp
  qed
  then have "wait_ok R ?t q" if "q < NPROC" "R q = Some Waiter" for q
    using d(4) [OF that] p(3) by (cases "q = p") (auto simp: wait_ok_def t)
  moreover have "entry_ok ch (R q) (placed ?t q) (pc ?t q) (ptable ?t q)" if "q < NPROC" for q
    using d(3) [OF that] p(2) e by (cases "q = p") (simp_all add: pl t entry_ok_def)
  ultimately show "procs_ok ch R ?t"
    using d(1,2) by (auto simp: procs_ok_def t(1) split: if_splits)
  show "helds l R ?t = (helds l R s)(i := {})"
    using off by (intro ext) (auto simp: helds_def t split: option.split)
qed

lemma waiter_sleeps:
  assumes inv: "mon_inv ch l R s" and p: "cproc s i = Some p" "R p = Some Waiter" and l: "l \<noteq> LkPtable" and k: "pc s p = 7"
  shows "\<exists>r t. cpu_act ch l R i s = Ok r t \<and> mon_inv ch l R t"
proof -
  note f = waiter_facts [OF inv p] and c = waiter_codes [of R p l ch s, OF p(2) l]
  let ?s = "s\<lparr>me := i\<rparr>"
  let ?u = "?s\<lparr>pc := (pc s)(p := 8), kept := (kept s)(p := intena (cpus s i))\<rparr>"
  have h: "helds l R s i = {LkPtable}" "lock_inv s (helds l R s)"
    using p k inv by (simp_all add: helds_def holds_def mon_inv_def)
  note d = lock_invD [OF h(2)]
  have "holding LkPtable ?s" "ncli (cpus s i) = 1" "\<not> iflag (cpus s i)"
    using d(1) [of LkPtable i] d(2) [of LkPtable] d(4) [of i] d(5) [of LkPtable i] h(1) by (auto simp: holding_def)
  then have "sched ?s = Switch (Some ch) ?s"
    using p(1) f(3,4) k by (simp add: sched_def kern_simps with_proc_def curproc_def)
  then have "cpu_act ch l R i s = scheduler_back p ?u"
    using p(1) k c(1,9) by (simp add: cpu_act_def)
  also have "\<dots> = scheduler_scan [Suc p..<NPROC] (idled ?u)"
    by (simp add: scheduler_back_def switchkvm_def kern_simps idled_def)
  finally have act: "cpu_act ch l R i s = scheduler_scan [Suc p..<NPROC] (idled ?u)" .
  have ok: "procs_ok ch R ?s"
    using inv procs_ok_cong [of ?s s] by (simp add: mon_inv_def)
  have "entry_ok ch (R p) True 7 (ptable ?s p)"
    using f(2-4) p(2) k by (simp add: entry_ok_def)
  then have "procs_ok ch R (idled ?u)" "helds l R (idled ?u) = (helds l R s)(i := {})"
    using waiter_leaves(1) [OF ok _ p(2), of i "(kept s)(p := intena (cpus s i))"] waiter_leaves(2) [OF ok _ p(2), of i l "(kept s)(p := intena (cpus s i))"]
      p(1) k helds_cong [of ?s s] by simp_all
  moreover have "lock_inv (idled ?u) (helds l R s)"
    using h(2) lock_inv_cong [of "idled ?u" s] by (simp add: idled_def)
  ultimately have "in_sched ch l R i (idled ?u)"
    using h(1) by (simp add: in_sched_def idled_def fun_upd_idem)
  moreover have "set [Suc p..<NPROC] \<subseteq> {..<NPROC}"
    by auto
  ultimately show ?thesis
    using in_sched_scan act by simp
qed

lemma waiter_step:
  assumes "mon_inv ch l R s" "cproc s i = Some p" "R p = Some Waiter" "l \<noteq> LkPtable"
  shows "(\<exists>r t. cpu_act ch l R i s = Ok r t \<and> mon_inv ch l R t) \<or> (\<exists>m t. cpu_act ch l R i s = Spin m t \<and> waits_for l (helds l R s i) m)"
proof -
  have "pc s p \<in> {1, 3, 11} \<or> pc s p \<in> {0, 4, 10, 13} \<or> pc s p \<in> {2, 5, 6, 9, 12} \<or> pc s p = 7 \<or> pc s p = 8"
    using waiter_facts(1) [OF assms(1-3)] unfolding insert_iff empty_iff by presburger
  then show ?thesis
    by (elim disjE) (use waiter_acquires [OF assms] waiter_releases [OF assms] waiter_moves [OF assms] waiter_sleeps [OF assms] waiter_resumes [OF assms] in blast)+
qed

section \<open>Every step\<close>

lemma waker_facts:
  assumes inv: "mon_inv ch l R s" and p: "cproc s i = Some p" "R p = Some Waker"
  shows "pc s p < 7" "p_pgdir (ptable s p) \<noteq> 0" "p_state (ptable s p) = RUNNING"
proof -
  have ok: "procs_ok ch R s" "p < NPROC"
    using inv p(1) procs_okD(1) by (auto simp: mon_inv_def)
  moreover have "placed s p"
    using p(1) by (auto simp: placed_def)
  ultimately show "pc s p < 7" "p_pgdir (ptable s p) \<noteq> 0" "p_state (ptable s p) = RUNNING"
    using procs_okD(3) [OF ok] p(2) by (simp_all add: entry_ok_def)
qed

lemma waker_acquires:
  assumes inv: "mon_inv ch l R s" and p: "cproc s i = Some p" "R p = Some Waker" and l: "l \<noteq> LkPtable" and k: "pc s p \<in> {1, 3}"
  shows "(\<exists>r t. cpu_act ch l R i s = Ok r t \<and> mon_inv ch l R t) \<or> (\<exists>m t. cpu_act ch l R i s = Spin m t \<and> waits_for l (helds l R s i) m)"
proof -
  note f = waker_facts [OF inv p] and c = waker_codes [of R p ch l s, OF p(2)]
  let ?m = "if pc s p = 3 then LkPtable else l"
  have "(\<exists>t. cpu_act ch l R i s = Ok (Some p) t \<and> mon_inv ch l R t) \<or> (\<exists>t. cpu_act ch l R i s = Spin ?m t)"
  proof (rule step_acquire [OF inv p _ refl])
    show "code ch l R s p ! pc s p = acquire ?m"
      using k c(3,5) by auto
    show "?m \<notin> holds l Waker (pc s p)" "holds l Waker (next_pc Waker (pc s p) (cond s)) = insert ?m (holds l Waker (pc s p))"
      using k l by (auto simp: holds_def)
    show "entry_ok ch (Some Waker) True (next_pc Waker (pc s p) (cond s)) (ptable s p)"
      using k f by (auto simp: entry_ok_def)
  qed (use k c(1) f(3) in auto)
  moreover have "waits_for l (helds l R s i) ?m"
    using k p l by (auto simp: waits_for_def helds_def holds_def)
  ultimately show ?thesis
    by blast
qed

lemma waker_releases:
  assumes inv: "mon_inv ch l R s" and p: "cproc s i = Some p" "R p = Some Waker" and l: "l \<noteq> LkPtable" and k: "pc s p \<in> {0, 5, 6}"
  shows "\<exists>r t. cpu_act ch l R i s = Ok r t \<and> mon_inv ch l R t"
proof -
  note f = waker_facts [OF inv p] and c = waker_codes [of R p ch l s, OF p(2)]
  let ?m = "if pc s p = 6 then l else LkPtable"
  have "\<exists>t. cpu_act ch l R i s = Ok (Some p) t \<and> mon_inv ch l R t"
  proof (rule step_release [OF inv p _ refl])
    show "code ch l R s p ! pc s p = release ?m"
      using k c(2,7,8) by auto
    consider "pc s p = 0" | "pc s p = 5" | "pc s p = 6"
      using k by auto
    then show "?m \<in> holds l Waker (pc s p)" "holds l Waker (next_pc Waker (pc s p) (cond s)) = holds l Waker (pc s p) - {?m}"
      by (cases; use l in \<open>auto simp: holds_def\<close>)+
    show "entry_ok ch (Some Waker) True (next_pc Waker (pc s p) (cond s)) (ptable s p)"
      using k f by (auto simp: entry_ok_def)
  qed (use k c(1) f(3) in auto)
  then show ?thesis
    by blast
qed

lemma cpu_act_inv:
  assumes inv: "mon_inv ch l R s" and l: "l \<noteq> LkPtable"
  shows "(\<exists>r t. cpu_act ch l R i s = Ok r t \<and> mon_inv ch l R t) \<or> (\<exists>m t. cpu_act ch l R i s = Spin m t \<and> waits_for l (helds l R s i) m)"
proof (cases "cproc s i")
  case None
  then show ?thesis
    using idle_step [OF inv None] by (fastforce simp: waits_for_def helds_def)
next
  case (Some p)
  have "entry_ok ch (R p) (placed s p) (pc s p) (ptable s p)" "placed s p"
    using inv Some procs_okD(1,3) by (auto simp: mon_inv_def placed_def)
  then obtain r where r: "R p = Some r"
    by (auto simp: entry_ok_def split: option.splits)
  show ?thesis
  proof (cases r)
    case Waiter
    then show ?thesis
      using waiter_step [OF inv Some _ l] r by blast
  next
    case Waker
    note w = inv Some r [unfolded Waker]
    have "pc s p \<in> {1, 3} \<or> pc s p \<in> {0, 5, 6} \<or> pc s p = 2 \<or> pc s p = 4"
      using waker_facts(1) [OF w] unfolding insert_iff empty_iff by presburger
    then show ?thesis
      by (elim disjE) (use waker_acquires [OF w l] waker_releases [OF w l] waker_sets [OF w] waker_wakes [OF w] in blast)+
  qed
qed

lemma run_cpus_inv: "mon_inv ch l R s \<Longrightarrow> l \<noteq> LkPtable \<Longrightarrow> mon_inv ch l R (run_cpus ch l R schedule s)"
proof (induction schedule arbitrary: s)
  case (Cons i schedule)
  have "mon_inv ch l R (cpu_step ch l R s i)"
    using cpu_act_inv [OF Cons.prems, of i] Cons.prems(1) by (auto simp: cpu_step_def)
  from Cons.IH [OF this Cons.prems(2)] show ?case
    by (simp add: run_cpus_def)
qed (simp add: run_cpus_def)

text \<open>
  C15 (sleep, wakeup, scheduler).  No wake-up is lost, whatever the interleaving.  Any number of CPUs run the scheduler and processes that wait for a condition with
  \<^verbatim>\<open>sleep\<close>, or establish it and call \<^verbatim>\<open>wakeup\<close>, under a lock other than that of the table.  In every state that a schedule of the CPUs reaches:
  no CPU panics, the CPU that holds the lock of the table can go on, the one that holds the other lock can go on or waits for the lock of the
  table; if a waiter sleeps although the condition is true, then some waker has established it and has yet to wake the channel; and
  when a waker runs \<^verbatim>\<open>wakeup1\<close>, every waiter that slept is runnable and no waiter sleeps any more.
\<close>

theorem no_lost_wakeup:
  assumes "mon_init ch R s" "l \<noteq> LkPtable" "t = run_cpus ch l R schedule s"
  shows "(\<forall>i. (\<exists>r u. cpu_act ch l R i t = Ok r u) \<or> (\<exists>m u. cpu_act ch l R i t = Spin m u)) \<and>
    (\<forall>i. lcpu (locks t LkPtable) = Some i \<longrightarrow> (\<exists>r u. cpu_act ch l R i t = Ok r u)) \<and>
    (\<forall>i. lcpu (locks t l) = Some i \<longrightarrow> (\<exists>r u. cpu_act ch l R i t = Ok r u) \<or> (\<exists>u. cpu_act ch l R i t = Spin LkPtable u)) \<and>
    (\<forall>p < NPROC. R p = Some Waiter \<and> p_state (ptable t p) = SLEEPING \<and> cond t \<longrightarrow> pending R t) \<and>
    (\<forall>i w. cproc t i = Some w \<and> R w = Some Waker \<and> pc t w = 4 \<longrightarrow> (\<exists>u. cpu_act ch l R i t = Ok (Some w) u \<and>
       (\<forall>p < NPROC. R p = Some Waiter \<longrightarrow> p_state (ptable u p) = (if p_state (ptable t p) = SLEEPING then RUNNABLE else p_state (ptable t p)))))"
proof (intro conjI allI impI)
  have inv: "mon_inv ch l R t"
    using run_cpus_inv [OF mon_init_inv [OF assms(1)] assms(2)] assms(3) by simp
  have d: "lcpu (locks t k) = Some i \<longleftrightarrow> k \<in> helds l R t i" for k i
    using inv lock_invD(1) [of t "helds l R t"] by (simp add: mon_inv_def)
  note act = cpu_act_inv [OF inv assms(2)]
  fix i
  show "(\<exists>r u. cpu_act ch l R i t = Ok r u) \<or> (\<exists>m u. cpu_act ch l R i t = Spin m u)"
    using act [of i] by blast
  show "\<exists>r u. cpu_act ch l R i t = Ok r u" if "lcpu (locks t LkPtable) = Some i"
    using act [of i] that unfolding d by (auto simp: waits_for_def)
  show "(\<exists>r u. cpu_act ch l R i t = Ok r u) \<or> (\<exists>u. cpu_act ch l R i t = Spin LkPtable u)" if "lcpu (locks t l) = Some i"
    using act [of i] that unfolding d by (auto simp: waits_for_def)
  show "pending R t" if "p < NPROC" "R p = Some Waiter \<and> p_state (ptable t p) = SLEEPING \<and> cond t" for p
    using inv that procs_okD(4) by (auto simp: mon_inv_def wait_ok_def)
  show "\<exists>u. cpu_act ch l R i t = Ok (Some w) u \<and>
    (\<forall>p < NPROC. R p = Some Waiter \<longrightarrow> p_state (ptable u p) = (if p_state (ptable t p) = SLEEPING then RUNNABLE else p_state (ptable t p)))"
    if w': "cproc t i = Some w \<and> R w = Some Waker \<and> pc t w = 4" for w
  proof -
    have w: "cproc t i = Some w" "R w = Some Waker" "pc t w = 4"
      using w' by simp_all
    have "LkPtable \<in> helds l R t i"
      using w by (simp add: helds_def holds_def)
    then have "p_chan (ptable t p) = Some ch" if "p < NPROC" "R p = Some Waiter" "p_state (ptable t p) = SLEEPING" for p
      using waiters_away(3) [OF inv _ w(1,2) that(1,2)] that(3) by blast
    then show ?thesis
      using w waker_codes [of R w ch l t, OF w(2)] wakeup1_eq [of ch "t\<lparr>me := i\<rparr>"] by (auto simp: cpu_act_def woken_def)
  qed
qed

definition wake_demo :: mon_st where
  "wake_demo = sched_st.extend (sched_boot\<lparr>ptable := (\<lambda>p. (ptable sched_boot p)\<lparr>p_state := if p = 1 \<or> p = 2 then RUNNABLE else UNUSED\<rparr>)\<rparr>)
     (mon_st.fields False (\<lambda>_. 0) (\<lambda>_. False))"

definition wake_roles :: "nat \<Rightarrow> role option" where
  "wake_roles p = (if p = 1 then Some Waiter else if p = 2 then Some Waker else None)"

text \<open>
  The part of a state of two CPUs, the waiter 1 and the waker 2 that decides what they do: the depth of \<^verbatim>\<open>pushcli\<close> and the process of each CPU, the owners of the two locks,
  the next actions, and the states of the two processes.
\<close>

definition demo_at :: "mon_st \<Rightarrow> int \<times> nat option \<Rightarrow> int \<times> nat option \<Rightarrow> nat option \<times> nat option \<Rightarrow> nat \<times> procstate \<Rightarrow> nat \<times> procstate \<Rightarrow> bool \<Rightarrow> bool" where
  "demo_at t c0 c1 o1 p1 p2 b =
     (cpus t 0 = \<lparr>ncli = fst c0, intena = True, iflag = fst c0 = 0\<rparr> \<and> cpus t 1 = \<lparr>ncli = fst c1, intena = True, iflag = fst c1 = 0\<rparr> \<and>
      cproc t 0 = snd c0 \<and> cproc t 1 = snd c1 \<and>
      lcpu (locks t LkPtable) = fst o1 \<and> (locked (locks t LkPtable) = 0) = (fst o1 = None) \<and>
      lcpu (locks t LkTicks) = snd o1 \<and> (locked (locks t LkTicks) = 0) = (snd o1 = None) \<and>
      (pc t 1, p_state (ptable t 1)) = p1 \<and> (pc t 2, p_state (ptable t 2)) = p2 \<and> cond t = b \<and>
      (\<forall>p. p_pgdir (ptable t p) \<noteq> 0 \<and> (p \<noteq> 1 \<and> p \<noteq> 2 \<longrightarrow> p_state (ptable t p) = UNUSED)))"

lemma scan_rest:
  assumes "p_state (ptable s 2) \<noteq> RUNNABLE" "\<forall>p > 2. p_state (ptable s p) = UNUSED"
  shows "scheduler_scan [2..<64] s = thn (release LkPtable) (ret None) s"
proof -
  have "scheduler_scan ps s = thn (release LkPtable) (ret None) s" if "\<forall>p \<in> set ps. \<not> runnable s p" for ps
    using that by (induction ps) (simp_all add: kern_simps)
  moreover have "\<not> runnable s p" if "2 \<le> p" for p
    using assms that by (cases "p = 2") auto
  ultimately show ?thesis
    by simp
qed

lemma upt_first: "[0..<64] = 0 # 1 # 2 # [3..<64]"
  by (simp add: upt_conv_Cons)

lemmas demo_simps = run_cpus_def cpu_step_def cpu_act_def kern_simps machine_defs whenk_def wake_roles_def waiter_codes [simplified] waker_codes [simplified]
  scheduler_round_def switchuvm_def scheduler_back_def switchkvm_def sched_def sched_resume_def with_proc_def curproc_def upd_proc_def demo_at_def upt_first scan_rest numeral_2_eq_2 [symmetric]

lemma demo_dispatch: "demo_at (run_cpus ChTicks LkTicks wake_roles [0, 1, 0, 1] wake_demo) (0, Some 1) (1, Some 2) (Some 1, None) (1, RUNNING) (0, RUNNING) False"
  by (simp add: demo_simps wake_demo_def boot_simps sched_st.extend_def mon_st.fields_def del: upt_rec_numeral)

lemma demo_test:
  "demo_at s (0, Some 1) (1, Some 2) (Some 1, None) (1, RUNNING) (0, RUNNING) False \<Longrightarrow>
   demo_at (run_cpus ChTicks LkTicks wake_roles [0, 1, 0, 1] s) (1, Some 1) (0, Some 2) (None, Some 0) (3, RUNNING) (1, RUNNING) False"
  by (simp add: demo_simps del: upt_rec_numeral)

lemma demo_cond:
  "demo_at s (1, Some 1) (0, Some 2) (None, Some 0) (3, RUNNING) (1, RUNNING) False \<Longrightarrow>
   demo_at (run_cpus ChTicks LkTicks wake_roles [0, 0, 1, 1, 1] s) (1, Some 1) (1, Some 2) (Some 0, Some 1) (5, RUNNING) (3, RUNNING) True"
  by (simp add: demo_simps del: upt_rec_numeral)

lemma demo_sleep:
  "demo_at s (1, Some 1) (1, Some 2) (Some 0, Some 1) (5, RUNNING) (3, RUNNING) True \<Longrightarrow>
   demo_at (run_cpus ChTicks LkTicks wake_roles [0, 0, 0, 1] s) (0, None) (2, Some 2) (Some 1, Some 1) (8, SLEEPING) (4, RUNNING) True"
  by (simp add: demo_simps del: upt_rec_numeral)


theorem no_lost_wakeup_witness:
  "\<exists>t u. t = run_cpus ChTicks LkTicks wake_roles ([0, 1, 0, 1] @ [0, 1, 0, 1] @ [0, 0, 1, 1, 1] @ [0, 0, 0, 1]) wake_demo \<and> lcpu (locks t LkPtable) = Some 1 \<and>
    lcpu (locks t LkTicks) = Some 1 \<and> p_state (ptable t 1) = SLEEPING \<and> cond t \<and> pending wake_roles t \<and>
    cpu_act ChTicks LkTicks wake_roles 1 t = Ok (Some 2) u \<and> p_state (ptable u 1) = RUNNABLE"
proof -
  let ?t = "run_cpus ChTicks LkTicks wake_roles ([0, 1, 0, 1] @ [0, 1, 0, 1] @ [0, 0, 1, 1, 1] @ [0, 0, 0, 1]) wake_demo"
  have "demo_at ?t (0, None) (2, Some 2) (Some 1, Some 1) (8, SLEEPING) (4, RUNNING) True"
    using demo_sleep [OF demo_cond [OF demo_test [OF demo_dispatch]]] unfolding run_cpus_def foldl_append .
  then have t: "lcpu (locks ?t LkPtable) = Some 1" "lcpu (locks ?t LkTicks) = Some 1" "p_state (ptable ?t 1) = SLEEPING" "cond ?t" "cproc ?t 1 = Some 2" "pc ?t 2 = 4"
    unfolding demo_at_def by simp_all
  have r: "wake_roles 1 = Some Waiter" "wake_roles 2 = Some Waker" "LkTicks \<noteq> LkPtable" "(1::nat) < NPROC"
    by (simp_all add: wake_roles_def)
  have init: "mon_init ChTicks wake_roles wake_demo"
    by (simp add: mon_init_def wake_demo_def wake_roles_def boot_simps sched_st.extend_def mon_st.fields_def lock_free_def)
  note n = no_lost_wakeup [OF init r(3), of ?t "[0, 1, 0, 1] @ [0, 1, 0, 1] @ [0, 0, 1, 1, 1] @ [0, 0, 0, 1]", OF refl]
  have m: "pending wake_roles ?t"
    using n [THEN conjunct2, THEN conjunct2, THEN conjunct2, THEN conjunct1, rule_format, OF r(4)] r(1) t(3,4) by blast
  obtain u where u: "cpu_act ChTicks LkTicks wake_roles 1 ?t = Ok (Some 2) u"
    "\<forall>p < NPROC. wake_roles p = Some Waiter \<longrightarrow> p_state (ptable u p) = (if p_state (ptable ?t p) = SLEEPING then RUNNABLE else p_state (ptable ?t p))"
    using n [THEN conjunct2, THEN conjunct2, THEN conjunct2, THEN conjunct2] t(5,6) r(2) by blast
  have "p_state (ptable u 1) = RUNNABLE"
    using u(2) [rule_format, OF r(4,1)] t(3) by simp
  then show ?thesis
    using m u(1) t by blast
qed

end
