(* ===== verification/Bio.thy ===== *)
theory Bio
  imports Sched
begin

text \<open>
  The buffer cache \<^verbatim>\<open>src/bio.c\<close> on top of the memory disk \<^verbatim>\<open>src/memide.c\<close>, whose \<^verbatim>\<open>iderw\<close> transfers a
  sector at once (\<^verbatim>\<open>Ide\<close> relates the interrupt driven driver to it).

  A \<^verbatim>\<open>struct buf *\<close> is an index, \<open>NBUF\<close> being the list head \<^verbatim>\<open>bcache.head\<close>; the links of the
  doubly linked list are fields of the buffers.  The disk is a function from sectors to their 512 bytes.
  The field \<open>wtrace\<close> is a history variable that no code reads: the sectors written since boot, in order.
\<close>

section \<open>State\<close>

record buf =
  flags :: uint32
  b_dev :: uint32
  b_sector :: uint32
  b_prev :: nat
  b_next :: nat
  b_qnext :: "nat option"
  b_data :: "uchar list"

abbreviation (input) B_BUSY :: uint32 where "B_BUSY \<equiv> 1"
abbreviation (input) B_VALID :: uint32 where "B_VALID \<equiv> 2"
abbreviation (input) B_DIRTY :: uint32 where "B_DIRTY \<equiv> 4"

record bio_st = sched_st +
  bufs :: "nat \<Rightarrow> buf"
  free_block_number :: uint32
  number_of_hits :: uint32
  number_of_block_acsses :: uint32
  disk :: "uint32 \<Rightarrow> uchar list"
  disksize :: uint32
  wtrace :: "(uint32 \<times> uchar list) list"

abbreviation (input) bhead :: nat where "bhead \<equiv> NBUF"

definition upd_buf :: "nat \<Rightarrow> (buf \<Rightarrow> buf) \<Rightarrow> 'z bio_st_scheme \<Rightarrow> 'z bio_st_scheme" where
  "upd_buf b f s = s\<lparr>bufs := (bufs s)(b := f (bufs s b))\<rparr>"

section \<open>The memory disk\<close>

definition iderw :: "nat \<Rightarrow> (unit, 'z bio_st_scheme) kern" where
  "iderw b =
     bnd (rd (\<lambda>s. bufs s b)) (\<lambda>q.
     if flags q AND B_BUSY = 0 then panic ''iderw: buf not busy''
     else if flags q AND (B_VALID OR B_DIRTY) = B_VALID then panic ''iderw: nothing to do''
     else if b_dev q \<noteq> 1 then panic ''iderw: request not for disk 1''
     else bnd (rd disksize) (\<lambda>n.
     if b_sector q \<ge> n then panic ''iderw: sector out of range''
     else
       thn (if flags q AND B_DIRTY \<noteq> 0
            then
              thn (md (upd_buf b (\<lambda>q. q\<lparr>flags := flags q AND NOT B_DIRTY\<rparr>)))
              (md (\<lambda>s. s\<lparr>disk := (disk s)(b_sector q := b_data (bufs s b)),
                         wtrace := wtrace s @ [(b_sector q, b_data (bufs s b))]\<rparr>))
            else md (\<lambda>s. upd_buf b (\<lambda>q. q\<lparr>b_data := disk s (b_sector q)\<rparr>) s))
       (md (upd_buf b (\<lambda>q. q\<lparr>flags := flags q OR B_VALID\<rparr>)))))"

section \<open>The buffer cache\<close>

definition binit :: "(unit, 'z bio_st_scheme) kern" where
  "binit =
     thn (initlock LkBcache ''bcache'') (
     thn (md (upd_buf bhead (\<lambda>h. h\<lparr>b_prev := bhead\<rparr>))) (
     thn (md (upd_buf bhead (\<lambda>h. h\<lparr>b_next := bhead\<rparr>))) (
     thn (for_each [0..<NBUF] (\<lambda>b.
       thn (md (\<lambda>s. upd_buf b (\<lambda>q. q\<lparr>b_next := b_next (bufs s bhead)\<rparr>) s)) (
       thn (md (upd_buf b (\<lambda>q. q\<lparr>b_prev := bhead\<rparr>))) (
       thn (md (upd_buf b (\<lambda>q. q\<lparr>b_dev := - 1\<rparr>))) (
       thn (md (\<lambda>s. upd_buf (b_next (bufs s bhead)) (\<lambda>q. q\<lparr>b_prev := b\<rparr>) s))
       (md (upd_buf bhead (\<lambda>h. h\<lparr>b_next := b\<rparr>)))))))) (
     md (\<lambda>s. s\<lparr>free_block_number := of_nat NBUF, number_of_block_acsses := 0, number_of_hits := 0\<rparr>)))))"

text \<open>
  The two loops of \<^verbatim>\<open>bget\<close> follow the links until they come back to the head; \<open>None\<close> is a loop that
  never does.
\<close>

partial_function (option) find_next :: "(nat \<Rightarrow> buf) \<Rightarrow> (buf \<Rightarrow> bool) \<Rightarrow> nat \<Rightarrow> nat option option" where
  "find_next bs P b =
     (if b = bhead then Some None else if P (bs b) then Some (Some b) else find_next bs P (b_next (bs b)))"

partial_function (option) find_prev :: "(nat \<Rightarrow> buf) \<Rightarrow> (buf \<Rightarrow> bool) \<Rightarrow> nat \<Rightarrow> nat option option" where
  "find_prev bs P b =
     (if b = bhead then Some None else if P (bs b) then Some (Some b) else find_prev bs P (b_prev (bs b)))"

definition bget_recycle :: "uint32 \<Rightarrow> uint32 \<Rightarrow> (nat, 'z bio_st_scheme) kern" where
  "bget_recycle dev sector =
     bnd (rd (\<lambda>s. find_prev (bufs s) (\<lambda>q. flags q AND B_BUSY = 0 \<and> flags q AND B_DIRTY = 0)
       (b_prev (bufs s bhead)))) (\<lambda>r.
     case r of
       None \<Rightarrow> (\<lambda>s. Diverge)
     | Some None \<Rightarrow> panic ''bget: no buffers''
     | Some (Some b) \<Rightarrow>
         thn (md (upd_buf b (\<lambda>q. q\<lparr>b_dev := dev\<rparr>))) (
         thn (md (upd_buf b (\<lambda>q. q\<lparr>b_sector := sector\<rparr>))) (
         thn (md (upd_buf b (\<lambda>q. q\<lparr>flags := B_BUSY\<rparr>))) (
         thn (md (\<lambda>s. s\<lparr>free_block_number := free_block_number s - 1\<rparr>)) (
         thn (release LkBcache) (ret b))))))"

text \<open>The code from the label \<^verbatim>\<open>loop\<close> on; \<open>bget_resume\<close> is what happens after the wait for a busy buffer.\<close>

definition bget_loop :: "uint32 \<Rightarrow> uint32 \<Rightarrow> (nat, 'z bio_st_scheme) kern" where
  "bget_loop dev sector =
     bnd (rd (\<lambda>s. find_next (bufs s) (\<lambda>q. b_dev q = dev \<and> b_sector q = sector) (b_next (bufs s bhead)))) (\<lambda>r.
     case r of
       None \<Rightarrow> (\<lambda>s. Diverge)
     | Some (Some b) \<Rightarrow>
         bnd (rd (\<lambda>s. flags (bufs s b))) (\<lambda>f.
         if f AND B_BUSY = 0
         then
           thn (md (upd_buf b (\<lambda>q. q\<lparr>flags := flags q OR B_BUSY\<rparr>))) (
           thn (md (\<lambda>s. s\<lparr>number_of_hits := number_of_hits s + 1\<rparr>)) (
           thn (md (\<lambda>s. s\<lparr>free_block_number := free_block_number s - 1\<rparr>)) (
           thn (release LkBcache) (ret b))))
         else thn (sleep (ChBuf b) (Some LkBcache)) (fault ''sleep returned''))
     | Some None \<Rightarrow> bget_recycle dev sector)"

definition bget_resume :: "bool \<Rightarrow> uint32 \<Rightarrow> uint32 \<Rightarrow> (nat, 'z bio_st_scheme) kern" where
  "bget_resume i dev sector = thn (sleep_resume LkBcache i) (bget_loop dev sector)"

definition bget :: "uint32 \<Rightarrow> uint32 \<Rightarrow> (nat, 'z bio_st_scheme) kern" where
  "bget dev sector =
     thn (acquire LkBcache) (
     thn (md (\<lambda>s. s\<lparr>number_of_block_acsses := number_of_block_acsses s + 1\<rparr>)) (
     bget_loop dev sector))"

definition bread :: "uint32 \<Rightarrow> uint32 \<Rightarrow> (nat, 'z bio_st_scheme) kern" where
  "bread dev sector =
     bnd (bget dev sector) (\<lambda>b.
     bnd (rd (\<lambda>s. flags (bufs s b))) (\<lambda>f.
     thn (whenk (f AND B_VALID = 0) (iderw b)) (ret b)))"

definition bwrite :: "nat \<Rightarrow> (unit, 'z bio_st_scheme) kern" where
  "bwrite b =
     bnd (rd (\<lambda>s. flags (bufs s b))) (\<lambda>f.
     if f AND B_BUSY = 0 then panic ''bwrite''
     else
       thn (md (upd_buf b (\<lambda>q. q\<lparr>flags := flags q OR B_DIRTY\<rparr>)))
       (iderw b))"

definition brelse :: "nat \<Rightarrow> (unit, 'z bio_st_scheme) kern" where
  "brelse b =
     bnd (rd (\<lambda>s. flags (bufs s b))) (\<lambda>f.
     if f AND B_BUSY = 0 then panic ''brelse''
     else
       thn (acquire LkBcache) (
       thn (md (\<lambda>s. upd_buf (b_next (bufs s b)) (\<lambda>q. q\<lparr>b_prev := b_prev (bufs s b)\<rparr>) s)) (
       thn (md (\<lambda>s. upd_buf (b_prev (bufs s b)) (\<lambda>q. q\<lparr>b_next := b_next (bufs s b)\<rparr>) s)) (
       thn (md (\<lambda>s. upd_buf b (\<lambda>q. q\<lparr>b_next := b_next (bufs s bhead)\<rparr>) s)) (
       thn (md (upd_buf b (\<lambda>q. q\<lparr>b_prev := bhead\<rparr>))) (
       thn (md (\<lambda>s. upd_buf (b_next (bufs s bhead)) (\<lambda>q. q\<lparr>b_prev := b\<rparr>) s)) (
       thn (md (upd_buf bhead (\<lambda>h. h\<lparr>b_next := b\<rparr>))) (
       thn (md (upd_buf b (\<lambda>q. q\<lparr>flags := flags q AND NOT B_BUSY\<rparr>))) (
       thn (md (\<lambda>s. s\<lparr>free_block_number := free_block_number s + 1\<rparr>)) (
       thn (wakeup (ChBuf b)) (
       release LkBcache)))))))))))"

definition get_free_block_number :: "(uint32, 'z bio_st_scheme) kern" where
  "get_free_block_number = rd free_block_number"

definition get_total_block_number :: "(uint32, 'z bio_st_scheme) kern" where
  "get_total_block_number = ret (of_nat NBUF)"

definition get_number_of_block_acsses :: "(uint32, 'z bio_st_scheme) kern" where
  "get_number_of_block_acsses = rd number_of_block_acsses"

definition get_number_of_hits :: "(uint32, 'z bio_st_scheme) kern" where
  "get_number_of_hits = rd number_of_hits"

section \<open>Frame lemmas\<close>

lemma hold_bio [simp]:
  "bufs_update g0 (hold l s) = hold l (bufs_update g0 s)" "bufs (hold l s) = bufs s"
  "free_block_number_update g1 (hold l s) = hold l (free_block_number_update g1 s)" "free_block_number (hold l s) = free_block_number s"
  "number_of_hits_update g2 (hold l s) = hold l (number_of_hits_update g2 s)" "number_of_hits (hold l s) = number_of_hits s"
  "number_of_block_acsses_update g3 (hold l s) = hold l (number_of_block_acsses_update g3 s)" "number_of_block_acsses (hold l s) = number_of_block_acsses s"
  "disk_update g4 (hold l s) = hold l (disk_update g4 s)" "disk (hold l s) = disk s"
  "wtrace_update g5 (hold l s) = hold l (wtrace_update g5 s)" "wtrace (hold l s) = wtrace s"
  by (simp_all add: hold_def set_lock_def set_cpu_def)

lemma calm_bio [simp]:
  "calm (bufs_update g0 s) = calm s" "inside (bufs_update g0 s) = inside s"
  "lock_free l (bufs_update g0 s) = lock_free l s"
  "calm (free_block_number_update g1 s) = calm s" "inside (free_block_number_update g1 s) = inside s"
  "lock_free l (free_block_number_update g1 s) = lock_free l s"
  "calm (number_of_hits_update g2 s) = calm s" "inside (number_of_hits_update g2 s) = inside s"
  "lock_free l (number_of_hits_update g2 s) = lock_free l s"
  "calm (number_of_block_acsses_update g3 s) = calm s" "inside (number_of_block_acsses_update g3 s) = inside s"
  "lock_free l (number_of_block_acsses_update g3 s) = lock_free l s"
  "calm (disk_update g4 s) = calm s" "inside (disk_update g4 s) = inside s"
  "lock_free l (disk_update g4 s) = lock_free l s"
  "calm (wtrace_update g5 s) = calm s" "inside (wtrace_update g5 s) = inside s"
  "lock_free l (wtrace_update g5 s) = lock_free l s"
  by (simp_all add: calm_def inside_def lock_free_def)

lemma upd_buf_simps [simp]:
  "upd_buf b f (hold l s) = hold l (upd_buf b f s)"
  "calm (upd_buf b f s) = calm s" "inside (upd_buf b f s) = inside s" "lock_free l (upd_buf b f s) = lock_free l s"
  "bufs (upd_buf b f s) = (bufs s)(b := f (bufs s b))" "disk (upd_buf b f s) = disk s"
  "disksize (upd_buf b f s) = disksize s" "wtrace (upd_buf b f s) = wtrace s" "ptable (upd_buf b f s) = ptable s"
  by (simp_all add: upd_buf_def)

section \<open>The linked list\<close>

text \<open>\<open>chain nx a xs z\<close>: from \<open>a\<close> the links \<open>nx\<close> lead through \<open>xs\<close> to \<open>z\<close>.\<close>

fun chain :: "(nat \<Rightarrow> nat) \<Rightarrow> nat \<Rightarrow> nat list \<Rightarrow> nat \<Rightarrow> bool" where
  "chain nx a [] z = (nx a = z)"
| "chain nx a (x # xs) z = (nx a = x \<and> chain nx x xs z)"

lemma chain_append: "chain nx a (xs @ y # ys) z \<longleftrightarrow> chain nx a xs y \<and> chain nx y ys z"
  by (induction xs arbitrary: a) auto

lemma chain_cong: "(\<And>x. x \<in> set (a # xs) \<Longrightarrow> nx x = nx' x) \<Longrightarrow> chain nx a xs z = chain nx' a xs z"
  by (induction xs arbitrary: a) auto

lemma chain_upd: "c \<notin> set (a # xs) \<Longrightarrow> chain (nx(c := v)) a xs z = chain nx a xs z"
  by (rule chain_cong) auto

lemma chain_last: "chain nx a xs z \<Longrightarrow> nx (last (a # xs)) = z"
  by (induction xs arbitrary: a) auto

lemma chain_last_upd:
  "distinct (a # xs) \<Longrightarrow> chain nx a xs z \<Longrightarrow> chain (nx(last (a # xs) := v)) a xs v"
  by (induction xs arbitrary: a) (auto split: if_splits)

text \<open>Taking an element out, and putting one in behind \<open>a\<close>.\<close>

lemma chain_unlink:
  assumes "chain nx a (xs @ b # ys) z" "distinct (a # xs @ b # ys)"
  shows "chain (nx(last (a # xs) := nx b)) a (xs @ ys) z"
proof (cases ys)
  case Nil
  with assms show ?thesis
    using chain_last_upd [of a xs nx b "nx b"] by (simp add: chain_append)
next
  case (Cons y ys')
  have "last (a # xs) \<in> set (a # xs)"
    by (rule last_in_set) simp
  then have "last (a # xs) \<notin> set (y # ys')"
    using assms(2) Cons by auto
  with Cons assms show ?thesis
    using chain_last_upd [of a xs nx b y] by (simp add: chain_append chain_upd)
qed

lemma chain_link:
  assumes "chain nx a xs z" "b \<notin> set (a # xs)" "a \<notin> set xs"
  shows "chain (nx(b := nx a, a := b)) a (b # xs) z"
proof (cases xs)
  case (Cons x xs')
  with assms show ?thesis
    using chain_upd [of b x xs' nx] chain_upd [of a x xs' "nx(b := x)"] by auto
qed (use assms in auto)

definition nxf :: "(nat \<Rightarrow> buf) \<Rightarrow> nat \<Rightarrow> nat" where
  "nxf bs i = b_next (bs i)"

definition pvf :: "(nat \<Rightarrow> buf) \<Rightarrow> nat \<Rightarrow> nat" where
  "pvf bs i = b_prev (bs i)"

definition set_next :: "nat \<Rightarrow> nat \<Rightarrow> (nat \<Rightarrow> buf) \<Rightarrow> nat \<Rightarrow> buf" where
  "set_next c v bs = bs(c := (bs c)\<lparr>b_next := v\<rparr>)"

definition set_prev :: "nat \<Rightarrow> nat \<Rightarrow> (nat \<Rightarrow> buf) \<Rightarrow> nat \<Rightarrow> buf" where
  "set_prev c v bs = bs(c := (bs c)\<lparr>b_prev := v\<rparr>)"

lemma link_simps:
  "nxf (set_next c v bs) = (nxf bs)(c := v)" "nxf (set_prev c v bs) = nxf bs"
  "pvf (set_prev c v bs) = (pvf bs)(c := v)" "pvf (set_next c v bs) = pvf bs"
  by (simp_all add: fun_eq_iff nxf_def pvf_def set_next_def set_prev_def)

definition dll :: "(nat \<Rightarrow> buf) \<Rightarrow> nat list \<Rightarrow> bool" where
  "dll bs xs = (chain (nxf bs) bhead xs bhead \<and> chain (pvf bs) bhead (rev xs) bhead \<and> distinct (bhead # xs))"

lemma find_next_chain:
  "chain (nxf bs) a xs bhead \<Longrightarrow> bhead \<notin> set xs \<Longrightarrow>
    find_next bs P (b_next (bs a)) = Some (find (\<lambda>b. P (bs b)) xs)"
proof (induction xs arbitrary: a)
  case Nil
  then show ?case
    by (simp add: find_next.simps nxf_def)
next
  case (Cons x xs)
  then show ?case
    by (auto simp: find_next.simps [of bs P x] nxf_def)
qed

lemma find_prev_chain:
  "chain (pvf bs) a xs bhead \<Longrightarrow> bhead \<notin> set xs \<Longrightarrow>
    find_prev bs P (b_prev (bs a)) = Some (find (\<lambda>b. P (bs b)) xs)"
proof (induction xs arbitrary: a)
  case Nil
  then show ?case
    by (simp add: find_prev.simps pvf_def)
next
  case (Cons x xs)
  then show ?case
    by (auto simp: find_prev.simps [of bs P x] pvf_def)
qed

text \<open>The relinking that \<^verbatim>\<open>brelse\<close> performs.\<close>

definition unlink :: "nat \<Rightarrow> (nat \<Rightarrow> buf) \<Rightarrow> nat \<Rightarrow> buf" where
  "unlink b bs = (let bs = set_prev (nxf bs b) (pvf bs b) bs in set_next (pvf bs b) (nxf bs b) bs)"

definition link_front :: "nat \<Rightarrow> (nat \<Rightarrow> buf) \<Rightarrow> nat \<Rightarrow> buf" where
  "link_front b bs =
     (let bs = set_next b (nxf bs bhead) bs; bs = set_prev b bhead bs; bs = set_prev (nxf bs bhead) b bs
      in set_next bhead b bs)"

lemma dll_unlink:
  assumes "dll bs (ys @ b # zs)"
  shows "dll (unlink b bs) (ys @ zs)"
proof -
  have d: "distinct (bhead # ys @ b # zs)" and cn: "chain (nxf bs) bhead (ys @ b # zs) bhead"
    and cp: "chain (pvf bs) bhead (rev zs @ b # rev ys) bhead"
    using assms by (simp_all add: dll_def)
  have pvb: "pvf bs b = last (bhead # ys)"
    using cp by (cases ys rule: rev_cases) (simp_all add: chain_append)
  have nxb: "nxf bs b = last (bhead # rev zs)"
    using cn by (cases zs) (simp_all add: chain_append)
  have "nxf bs b \<noteq> b"
    using cn d by (cases zs) (auto simp: chain_append)
  then have l: "nxf (unlink b bs) = (nxf bs)(pvf bs b := nxf bs b)" "pvf (unlink b bs) = (pvf bs)(nxf bs b := pvf bs b)"
    by (simp_all add: unlink_def Let_def link_simps)
  have "chain (nxf (unlink b bs)) bhead (ys @ zs) bhead"
    using chain_unlink [OF cn d] unfolding l pvb .
  moreover have "distinct (bhead # rev zs @ b # rev ys)"
    using d by auto
  then have "chain (pvf (unlink b bs)) bhead (rev zs @ rev ys) bhead"
    using chain_unlink [OF cp] unfolding l nxb by blast
  ultimately show ?thesis
    using d by (simp add: dll_def)
qed

lemma dll_link_front:
  assumes "dll bs xs" "b \<notin> set (bhead # xs)"
  shows "dll (link_front b bs) (b # xs)"
proof -
  have d: "distinct (bhead # xs)" and cn: "chain (nxf bs) bhead xs bhead" and cp: "chain (pvf bs) bhead (rev xs) bhead"
    using assms by (simp_all add: dll_def)
  have l: "nxf (link_front b bs) = (nxf bs)(b := nxf bs bhead, bhead := b)"
    "pvf (link_front b bs) = (pvf bs)(b := bhead, nxf bs bhead := b)"
    using assms(2) by (simp_all add: link_front_def Let_def link_simps)
  have "chain (nxf (link_front b bs)) bhead (b # xs) bhead"
    using chain_link [OF cn] assms(2) d unfolding l by simp
  moreover have nx: "nxf bs bhead = last (bhead # rev xs)"
    using cn by (cases xs) simp_all
  have "chain (pvf (link_front b bs)) bhead (rev xs @ [b]) bhead"
  proof -
    have "chain ((pvf bs)(b := bhead)) bhead (rev xs) bhead"
      using cp assms(2) by (simp add: chain_upd)
    then have "chain ((pvf bs)(b := bhead, last (bhead # rev xs) := b)) bhead (rev xs) b"
      using d by (intro chain_last_upd) auto
    moreover have "last (bhead # rev xs) \<noteq> b"
      using assms(2) last_in_set [of "bhead # rev xs"] by auto
    ultimately show ?thesis
      unfolding l nx by (simp add: chain_append)
  qed
  ultimately show ?thesis
    using d assms(2) by (simp add: dll_def)
qed

section \<open>Flags\<close>

named_theorems flag_simps "the tests and updates of buffer flags, bit by bit"

abbreviation (input) is_busy :: "buf \<Rightarrow> bool" where "is_busy q \<equiv> bit (flags q) 0"
abbreviation (input) is_valid :: "buf \<Rightarrow> bool" where "is_valid q \<equiv> bit (flags q) 1"
abbreviation (input) is_dirty :: "buf \<Rightarrow> bool" where "is_dirty q \<equiv> bit (flags q) 2"

lemma flag_bits:
  "bit (1 :: uint32) n \<longleftrightarrow> n = 0" "bit (2 :: uint32) n \<longleftrightarrow> n = 1" "bit (4 :: uint32) n \<longleftrightarrow> n = 2"
  "bit (6 :: uint32) n \<longleftrightarrow> n = 1 \<or> n = 2"
proof -
  show 2: "bit (2 :: uint32) n \<longleftrightarrow> n = 1" and 4: "bit (4 :: uint32) n \<longleftrightarrow> n = 2"
    using bit_exp_iff [of 1 n, where 'a = uint32] bit_exp_iff [of 2 n, where 'a = uint32] by auto
  have "(6 :: uint32) = 2 OR 4"
    by simp
  then show "bit (6 :: uint32) n \<longleftrightarrow> n = 1 \<or> n = 2"
    by (simp only: bit_or_iff 2 4)
qed (simp add: bit_1_iff)

lemma flag_tests [flag_simps]:
  fixes f :: uint32
  shows "f AND 1 = 0 \<longleftrightarrow> \<not> bit f 0" "f AND 2 = 0 \<longleftrightarrow> \<not> bit f 1" "f AND 4 = 0 \<longleftrightarrow> \<not> bit f 2"
    "f AND 6 = 2 \<longleftrightarrow> bit f 1 \<and> \<not> bit f 2"
proof -
  have *: "x = y \<longleftrightarrow> (\<forall>n. bit x n = bit y n)" for x y :: uint32
    by (auto intro: bit_eqI)
  have z: "\<not> bit (0 :: uint32) n" for n
    by simp
  show "f AND 1 = 0 \<longleftrightarrow> \<not> bit f 0" "f AND 2 = 0 \<longleftrightarrow> \<not> bit f 1" "f AND 4 = 0 \<longleftrightarrow> \<not> bit f 2"
    unfolding * [of "f AND _" 0] using z by (auto simp only: bit_and_iff flag_bits)
  show "f AND 6 = 2 \<longleftrightarrow> bit f 1 \<and> \<not> bit f 2"
    unfolding * [of "f AND 6"] bit_and_iff flag_bits by (metis numeral_eq_one_iff num.distinct(1))
qed

lemma flag_updates [flag_simps]:
  fixes f :: uint32
  shows "bit (f OR 1) n \<longleftrightarrow> n = 0 \<or> bit f n" "bit (f OR 2) n \<longleftrightarrow> n = 1 \<or> bit f n"
    "bit (f OR 4) n \<longleftrightarrow> n = 2 \<or> bit f n" "bit (1 :: uint32) n \<longleftrightarrow> n = 0"
    "bit (f AND NOT 1) n \<longleftrightarrow> n \<noteq> 0 \<and> bit f n" "bit (f AND NOT 4) n \<longleftrightarrow> n \<noteq> 2 \<and> bit f n"
proof -
  have *: "bit (f AND NOT m) n \<longleftrightarrow> bit f n \<and> \<not> bit m n" for m
    using bit_imp_possible_bit [of f n] by (auto simp: bit_and_iff bit_not_iff)
  show "bit (f AND NOT 1) n \<longleftrightarrow> n \<noteq> 0 \<and> bit f n" "bit (f AND NOT 4) n \<longleftrightarrow> n \<noteq> 2 \<and> bit f n"
    unfolding * flag_bits by auto
qed (auto simp only: bit_or_iff flag_bits)
lemma flag_updates_neg [flag_simps]:
  fixes f :: uint32
  shows "bit (f AND - 2) n \<longleftrightarrow> n \<noteq> 0 \<and> bit f n" "bit (f AND - 5) n \<longleftrightarrow> n \<noteq> 2 \<and> bit f n"
proof -
  have "(- 2 :: uint32) = NOT 1" "(- 5 :: uint32) = NOT 4"
    by simp_all
  then show "bit (f AND - 2) n \<longleftrightarrow> n \<noteq> 0 \<and> bit f n" "bit (f AND - 5) n \<longleftrightarrow> n \<noteq> 2 \<and> bit f n"
    by (simp_all only: flag_updates)
qed

section \<open>What the cache holds\<close>

definition bof :: "(nat \<Rightarrow> buf) \<Rightarrow> uint32 \<Rightarrow> nat option" where
  "bof bs n = find (\<lambda>b. b_dev (bs b) = 1 \<and> b_sector (bs b) = n) [0..<NBUF]"

definition uniq :: "(nat \<Rightarrow> buf) \<Rightarrow> bool" where
  "uniq bs = (\<forall>a < NBUF. \<forall>b < NBUF. b_dev (bs a) = 1 \<and> b_dev (bs b) = 1 \<and> b_sector (bs a) = b_sector (bs b) \<longrightarrow> a = b)"

lemma bof_SomeD: "bof bs n = Some b \<Longrightarrow> b < NBUF \<and> b_dev (bs b) = 1 \<and> b_sector (bs b) = n"
  unfolding bof_def by (auto simp: find_Some_iff)

lemma bof_None: "bof bs n = None \<longleftrightarrow> (\<forall>b < NBUF. \<not> (b_dev (bs b) = 1 \<and> b_sector (bs b) = n))"
  unfolding bof_def by (auto simp: find_None_iff)

lemma bof_iff:
  assumes "uniq bs"
  shows "bof bs n = Some b \<longleftrightarrow> b < NBUF \<and> b_dev (bs b) = 1 \<and> b_sector (bs b) = n"
proof
  assume b: "b < NBUF \<and> b_dev (bs b) = 1 \<and> b_sector (bs b) = n"
  then have "bof bs n \<noteq> None"
    unfolding bof_None by blast
  then obtain c where c: "bof bs n = Some c"
    by blast
  moreover have "c = b"
    using bof_SomeD [OF c] b assms unfolding uniq_def by auto
  ultimately show "bof bs n = Some b"
    by simp
qed (rule bof_SomeD)

text \<open>
  The client's view of a state: the content of each block, cached or not; the blocks that are in use, and
  those whose content the disk does not have yet.
\<close>

definition blk :: "'z bio_st_scheme \<Rightarrow> uint32 \<Rightarrow> uchar list" where
  "blk s n = (case bof (bufs s) n of Some b \<Rightarrow> b_data (bufs s b) | None \<Rightarrow> disk s n)"

definition busy :: "'z bio_st_scheme \<Rightarrow> uint32 set" where
  "busy s = {n. \<exists>b. bof (bufs s) n = Some b \<and> is_busy (bufs s b)}"

definition dirty :: "'z bio_st_scheme \<Rightarrow> uint32 set" where
  "dirty s = {n. \<exists>b. bof (bufs s) n = Some b \<and> is_dirty (bufs s b)}"

definition held :: "'z bio_st_scheme \<Rightarrow> nat \<Rightarrow> uint32 \<Rightarrow> bool" where
  "held s b n = (bof (bufs s) n = Some b \<and> is_busy (bufs s b))"

definition buf_ok :: "'z bio_st_scheme \<Rightarrow> buf \<Rightarrow> bool" where
  "buf_ok s q = (length (b_data q) = 512 \<and>
     (if b_dev q = 1
      then is_valid q \<and> b_sector q < disksize s \<and> (\<not> is_busy q \<and> \<not> is_dirty q \<longrightarrow> b_data q = disk s (b_sector q))
      else \<not> is_busy q \<and> \<not> is_valid q \<and> \<not> is_dirty q))"

definition idle_count :: "(nat \<Rightarrow> buf) \<Rightarrow> nat" where
  "idle_count bs = length (filter (\<lambda>b. \<not> is_busy (bs b)) [0..<NBUF])"

definition bio_inv :: "'z bio_st_scheme \<Rightarrow> nat list \<Rightarrow> bool" where
  "bio_inv s xs = (dll (bufs s) xs \<and> set xs = {..<NBUF} \<and> uniq (bufs s) \<and> (\<forall>b < NBUF. buf_ok s (bufs s b)) \<and>
     (\<forall>n. length (disk s n) = 512) \<and> free_block_number s = of_nat (idle_count (bufs s)))"

definition bio_ok :: "'z bio_st_scheme \<Rightarrow> bool" where
  "bio_ok s = (calm s \<and> (\<exists>xs. bio_inv s xs))"

text \<open>The part of the state the cache may change; everything else is as before.\<close>

definition bio_frame :: "'z bio_st_scheme \<Rightarrow> 'z bio_st_scheme \<Rightarrow> bool" where
  "bio_frame s t = (\<exists>pt bs f h a d w. t = s\<lparr>ptable := pt, bufs := bs, free_block_number := f,
     number_of_hits := h, number_of_block_acsses := a, disk := d, wtrace := w\<rparr>)"

lemma bio_frameI: "t = s\<lparr>ptable := pt, bufs := bs, free_block_number := f,
     number_of_hits := h, number_of_block_acsses := a, disk := d, wtrace := w\<rparr> \<Longrightarrow> bio_frame s t"
  unfolding bio_frame_def by (intro exI)

lemma bio_frame_refl [simp]: "bio_frame s s"
  by (rule bio_frameI [where pt = "ptable s" and bs = "bufs s" and f = "free_block_number s" and
        h = "number_of_hits s" and a = "number_of_block_acsses s" and d = "disk s" and w = "wtrace s"]) simp

lemma bio_frame_trans [trans]:
  assumes "bio_frame s t" "bio_frame t u"
  shows "bio_frame s u"
proof -
  from assms(1) obtain pt bs f h a d w where t: "t = s\<lparr>ptable := pt, bufs := bs, free_block_number := f,
     number_of_hits := h, number_of_block_acsses := a, disk := d, wtrace := w\<rparr>"
    unfolding bio_frame_def by blast
  from assms(2) obtain pt bs f h a d w where "u = t\<lparr>ptable := pt, bufs := bs, free_block_number := f,
     number_of_hits := h, number_of_block_acsses := a, disk := d, wtrace := w\<rparr>"
    unfolding bio_frame_def by blast
  then show ?thesis
    unfolding t by (intro bio_frameI) simp
qed

lemma bio_frame_eqI:
  "t = s\<lparr>ptable := ptable t, bufs := bufs t, free_block_number := free_block_number t,
     number_of_hits := number_of_hits t, number_of_block_acsses := number_of_block_acsses t,
     disk := disk t, wtrace := wtrace t\<rparr> \<Longrightarrow> bio_frame s t"
  by (rule bio_frameI)

lemma bio_frame_update:
  "bio_frame s (ptable_update g1 s)" "bio_frame s (bufs_update g2 s)" "bio_frame s (free_block_number_update g3 s)"
  "bio_frame s (number_of_hits_update g4 s)" "bio_frame s (number_of_block_acsses_update g5 s)"
  "bio_frame s (disk_update g6 s)" "bio_frame s (wtrace_update g7 s)"
  by (rule bio_frame_eqI, simp)+

lemmas bio_frame_steps = bio_frame_update [THEN [2] bio_frame_trans]

end
