(* ===== verification/Blocks.thy ===== *)
theory Blocks
  imports Params
begin

text \<open>
  What the log and the file system rely on.  A block that is not in use can be taken into use as long as fewer than
  \<open>NBUF\<close> blocks are in use or pending; its buffer then shows the current content; a change of the buffer is a change of
  the current content; a write brings it to the disk; a buffer can be given back when the disk agrees or the block is
  pending.  Nothing else of the machine changes.
\<close>

locale block_cache =
  fixes get :: "uint32 \<Rightarrow> (nat, 's) kern"
    and put :: "nat \<Rightarrow> (unit, 's) kern"
    and rel :: "nat \<Rightarrow> (unit, 's) kern"
    and data :: "'s \<Rightarrow> nat \<Rightarrow> uchar list"
    and set_data :: "nat \<Rightarrow> uchar list \<Rightarrow> 's \<Rightarrow> 's"
    and ok :: "'s \<Rightarrow> bool"
    and frame :: "'s \<Rightarrow> 's \<Rightarrow> bool"
    and holds :: "'s \<Rightarrow> nat \<Rightarrow> uint32 \<Rightarrow> bool"
    and cur :: "'s \<Rightarrow> uint32 \<Rightarrow> uchar list"
    and inuse :: "'s \<Rightarrow> uint32 set"
    and pending :: "'s \<Rightarrow> uint32 set"
    and store :: "'s \<Rightarrow> uint32 \<Rightarrow> uchar list"
    and trace :: "'s \<Rightarrow> (uint32 \<times> uchar list) list"
    and size :: "'s \<Rightarrow> uint32"
  assumes get_block: "\<lbrakk>ok s; n < size s; n \<notin> inuse s; n \<in> pending s \<or> card (inuse s \<union> pending s) < NBUF\<rbrakk> \<Longrightarrow>
      \<exists>b t. get n s = Ok b t \<and> frame s t \<and> ok t \<and> holds t b n \<and> cur t = cur s \<and> inuse t = insert n (inuse s) \<and>
        pending t = pending s \<and> store t = store s \<and> trace t = trace s \<and> (\<forall>c m. holds s c m \<longrightarrow> holds t c m)"
    and set_block: "\<lbrakk>ok s; holds s b n; length d = 512\<rbrakk> \<Longrightarrow>
      frame s (set_data b d s) \<and> ok (set_data b d s) \<and> holds (set_data b d s) = holds s \<and>
      cur (set_data b d s) = (cur s)(n := d) \<and> inuse (set_data b d s) = inuse s \<and>
      pending (set_data b d s) = pending s \<and> store (set_data b d s) = store s \<and> trace (set_data b d s) = trace s"
    and put_block: "\<lbrakk>ok s; holds s b n\<rbrakk> \<Longrightarrow>
      \<exists>t. put b s = Ok () t \<and> frame s t \<and> ok t \<and> holds t = holds s \<and> cur t = cur s \<and> inuse t = inuse s \<and>
        pending t = pending s - {n} \<and> store t = (store s)(n := cur s n) \<and> trace t = trace s @ [(n, cur s n)]"
    and rel_block: "\<lbrakk>ok s; holds s b n; n \<in> pending s \<or> cur s n = store s n\<rbrakk> \<Longrightarrow>
      \<exists>t. rel b s = Ok () t \<and> frame s t \<and> ok t \<and> (\<forall>c m. holds t c m \<longleftrightarrow> holds s c m \<and> c \<noteq> b) \<and>
        cur t = cur s \<and> inuse t = inuse s - {n} \<and> pending t = pending s \<and> store t = store s \<and> trace t = trace s"
    and hold_data: "\<lbrakk>ok s; holds s b n\<rbrakk> \<Longrightarrow> data s b = cur s n"
    and hold_inj: "\<lbrakk>ok s; holds s b n; holds s c m; b = c \<or> n = m\<rbrakk> \<Longrightarrow> b = c \<and> n = m"
    and hold_inuse: "\<lbrakk>ok s; n \<in> inuse s\<rbrakk> \<Longrightarrow> \<exists>b. holds s b n"
    and cur_store: "\<lbrakk>ok s; n \<notin> inuse s; n \<notin> pending s\<rbrakk> \<Longrightarrow> cur s n = store s n"
    and cur_length: "ok s \<Longrightarrow> length (cur s n) = 512"
    and finite_busy: "ok s \<Longrightarrow> finite (inuse s \<union> pending s)"
    and frame_refl: "frame s s"
    and frame_trans: "\<lbrakk>frame s t; frame t u\<rbrakk> \<Longrightarrow> frame s u"
    and frame_size: "frame s t \<Longrightarrow> size t = size s"
begin

text \<open>Taking a block just to look at it.\<close>

lemma read_block:
  assumes "ok s" "n < size s" "inuse s = {}" "card (pending s) < NBUF"
  shows "\<exists>t. bnd (get n) (\<lambda>b. bnd (rd (\<lambda>s. data s b)) (\<lambda>d. thn (rel b) (ret d))) s = Ok (cur s n) t \<and> frame s t \<and> ok t \<and>
    cur t = cur s \<and> inuse t = {} \<and> pending t = pending s \<and> store t = store s \<and> trace t = trace s"
proof -
  obtain b t where t: "get n s = Ok b t" "frame s t" "ok t" "holds t b n" "cur t = cur s" "inuse t = {n}"
    "pending t = pending s" "store t = store s" "trace t = trace s"
    using get_block [of s n] assms by auto
  moreover have "n \<in> pending t \<or> cur t n = store t n"
    using cur_store [of s n] assms t by auto
  ultimately obtain u where "rel b t = Ok () u" "frame t u" "ok u" "cur u = cur t" "inuse u = {}"
    "pending u = pending t" "store u = store t" "trace u = trace t"
    using rel_block [of t b n] by auto
  moreover from this t have "frame s u"
    using frame_trans by blast
  ultimately show ?thesis
    using hold_data [of t b n] t by (intro exI [of _ u]) (simp add: kern_simps)
qed

text \<open>
  Copying a block to another place of the disk: the work that is done while both buffers are held.
\<close>

lemma copy_held:
  assumes "ok s" "holds s b m" "holds s c n" "m \<noteq> n" "inuse s = {m, n}" "n \<in> pending s \<or> cur s n = store s n"
  shows "\<exists>t. thn (md (\<lambda>s. set_data b (data s c) s)) (thn (put b) (thn (rel c) (rel b))) s = Ok () t \<and> frame s t \<and> ok t \<and>
    cur t = (cur s)(m := cur s n) \<and> inuse t = {} \<and> pending t = pending s - {m} \<and>
    store t = (store s)(m := cur s n) \<and> trace t = trace s @ [(m, cur s n)]"
proof -
  let ?s1 = "set_data b (data s c) s"
  have bc: "b \<noteq> c"
    using hold_inj [OF assms(1-3)] assms(4) by blast
  have d: "data s c = cur s n" "length (cur s n) = 512"
    using hold_data cur_length assms by auto
  have 1: "frame s ?s1" "ok ?s1" "holds ?s1 = holds s" "cur ?s1 = (cur s)(m := cur s n)" "inuse ?s1 = {m, n}"
    "pending ?s1 = pending s" "store ?s1 = store s" "trace ?s1 = trace s"
    using set_block [OF assms(1,2), of "data s c"] assms(5) d by simp_all
  obtain s2 where 2: "put b ?s1 = Ok () s2" "frame ?s1 s2" "ok s2" "holds s2 = holds s" "cur s2 = (cur s)(m := cur s n)"
    "inuse s2 = {m, n}" "pending s2 = pending s - {m}" "store s2 = (store s)(m := cur s n)" "trace s2 = trace s @ [(m, cur s n)]"
    using put_block [of ?s1 b m] 1 assms(2) by auto
  have mn: "{m, n} - {n} = {m}"
    using assms(4) by auto
  have "n \<in> pending s2 \<or> cur s2 n = store s2 n"
    using 2 assms(4,6) by auto
  then obtain s3 where 3: "rel c s2 = Ok () s3" "frame s2 s3" "ok s3" "holds s3 b m" "cur s3 = cur s2"
    "inuse s3 = {m}" "pending s3 = pending s2" "store s3 = store s2" "trace s3 = trace s2"
    using rel_block [of s2 c n] 2 assms(2,3) bc mn by auto
  obtain s4 where 4: "rel b s3 = Ok () s4" "frame s3 s4" "ok s4" "cur s4 = cur s3"
    "inuse s4 = {}" "pending s4 = pending s3" "store s4 = store s3" "trace s4 = trace s3"
    using rel_block [of s3 b m] 2 3 by auto
  have "frame s s4"
    using 1(1) 2(2) 3(2) 4(2) frame_trans by blast
  then show ?thesis
    using 2 3 4 by (intro exI [of _ s4]) (simp add: kern_simps)
qed

lemma get_two:
  assumes "ok s" "m < size s" "n < size s" "m \<noteq> n" "inuse s = {}" "card (pending s) + 1 < NBUF \<or> n \<in> pending s \<and> card (pending s) < NBUF"
  shows "\<exists>b c t. get m s = Ok b t \<and> frame s t \<and> (\<exists>u. get n t = Ok c u \<and> frame s u \<and> ok u \<and> holds u b m \<and> holds u c n \<and> cur u = cur s \<and>
    inuse u = {m, n} \<and> pending u = pending s \<and> store u = store s \<and> trace u = trace s)"
proof -
  have fin: "finite (pending s)"
    using finite_busy [OF assms(1)] by simp
  obtain b t where 1: "get m s = Ok b t" "frame s t" "ok t" "holds t b m" "cur t = cur s" "inuse t = {m}"
    "pending t = pending s" "store t = store s" "trace t = trace s"
    using get_block [of s m] assms by auto
  moreover have "n \<in> pending t \<or> card (inuse t \<union> pending t) < NBUF"
    using 1 assms(6) fin by (auto simp: card_insert_if)
  ultimately obtain c u where "get n t = Ok c u" "frame t u" "ok u" "holds u b m" "holds u c n" "cur u = cur t"
    "inuse u = {n, m}" "pending u = pending t" "store u = store t" "trace u = trace t"
    using get_block [of t n] frame_size [of s t] assms by auto
  with 1 show ?thesis
    using frame_trans [of s t u] by (intro exI [of _ b] exI [of _ c] exI [of _ t] conjI exI [of _ u]) auto
qed

text \<open>Computing the new content of a block from the old one and writing it through.\<close>

lemma rewrite_block:
  assumes "ok s" "n < size s" "inuse s = {}" "card (pending s) < NBUF" "\<And>t. frame s t \<Longrightarrow> f t (cur s n) = d" "length d = 512"
  shows "\<exists>t. bnd (get n) (\<lambda>b. thn (md (\<lambda>s. set_data b (f s (data s b)) s)) (thn (put b) (rel b))) s = Ok () t \<and> frame s t \<and> ok t \<and>
    cur t = (cur s)(n := d) \<and> inuse t = {} \<and> pending t = pending s - {n} \<and> store t = (store s)(n := d) \<and> trace t = trace s @ [(n, d)]"
proof -
  obtain b t where 1: "get n s = Ok b t" "frame s t" "ok t" "holds t b n" "cur t = cur s" "inuse t = {n}"
    "pending t = pending s" "store t = store s" "trace t = trace s"
    using get_block [of s n] assms by auto
  then have d: "f t (data t b) = d"
    using assms(5) hold_data by simp
  let ?u = "set_data b d t"
  have 2: "frame t ?u" "ok ?u" "holds ?u = holds t" "cur ?u = (cur s)(n := d)" "inuse ?u = {n}"
    "pending ?u = pending s" "store ?u = store s" "trace ?u = trace s"
    using set_block [OF 1(3,4) assms(6)] 1 by simp_all
  obtain v where 3: "put b ?u = Ok () v" "frame ?u v" "ok v" "holds v = holds t" "cur v = (cur s)(n := d)" "inuse v = {n}"
    "pending v = pending s - {n}" "store v = (store s)(n := d)" "trace v = trace s @ [(n, d)]"
    using put_block [of ?u b n] 1 2 by auto
  obtain w where 4: "rel b v = Ok () w" "frame v w" "ok w" "cur w = (cur s)(n := d)" "inuse w = {}"
    "pending w = pending s - {n}" "store w = (store s)(n := d)" "trace w = trace s @ [(n, d)]"
    using rel_block [of v b n] 1 3 by auto
  have "frame s w"
    using 1(2) 2(1) 3(2) 4(2) frame_trans by blast
  then show ?thesis
    using 1 3 4 d by (intro exI [of _ w]) (simp add: kern_simps)
qed

end

text \<open>
  What the file system relies on.  Inside an operation, blocks below \<open>area\<close> can be taken into use, changed through the
  log, and given back; every change is a change of the current content \<open>cur\<close>.  A changed block costs at most one
  of the remaining \<open>room\<close> of the log.
\<close>

locale journal =
  fixes get :: "uint32 \<Rightarrow> (nat, 's) kern"
    and log :: "nat \<Rightarrow> (unit, 's) kern"
    and rel :: "nat \<Rightarrow> (unit, 's) kern"
    and data :: "'s \<Rightarrow> nat \<Rightarrow> uchar list"
    and set_data :: "nat \<Rightarrow> uchar list \<Rightarrow> 's \<Rightarrow> 's"
    and inv :: "'s \<Rightarrow> bool"
    and frame :: "'s \<Rightarrow> 's \<Rightarrow> bool"
    and holds :: "'s \<Rightarrow> nat \<Rightarrow> uint32 \<Rightarrow> bool"
    and cur :: "'s \<Rightarrow> uint32 \<Rightarrow> uchar list"
    and inuse :: "'s \<Rightarrow> uint32 set"
    and room :: "'s \<Rightarrow> nat"
    and area :: "'s \<Rightarrow> uint32"
    and active :: "'s \<Rightarrow> bool"
  assumes jget: "\<lbrakk>inv s; n < area s; n \<notin> inuse s; card (inuse s) \<le> room s\<rbrakk> \<Longrightarrow>
      \<exists>b t. get n s = Ok b t \<and> frame s t \<and> inv t \<and> holds t b n \<and> cur t = cur s \<and> inuse t = insert n (inuse s) \<and>
        room t = room s \<and> (\<forall>c m. holds s c m \<longrightarrow> holds t c m)"
    and jupd: "\<lbrakk>inv s; holds s b n; n < area s; length d = 512; active s; 0 < room s\<rbrakk> \<Longrightarrow>
      \<exists>t. log b (set_data b d s) = Ok () t \<and> frame s t \<and> inv t \<and> holds t = holds s \<and> cur t = (cur s)(n := d) \<and>
        inuse t = inuse s \<and> room s \<le> Suc (room t)"
    and jrel: "\<lbrakk>inv s; holds s b n\<rbrakk> \<Longrightarrow>
      \<exists>t. rel b s = Ok () t \<and> frame s t \<and> inv t \<and> (\<forall>c m. holds t c m \<longleftrightarrow> holds s c m \<and> c \<noteq> b) \<and>
        cur t = cur s \<and> inuse t = inuse s - {n} \<and> room t = room s"
    and jdata: "\<lbrakk>inv s; holds s b n\<rbrakk> \<Longrightarrow> data s b = cur s n"
    and jinj: "\<lbrakk>inv s; holds s b n; holds s c m; b = c \<or> n = m\<rbrakk> \<Longrightarrow> b = c \<and> n = m"
    and jinuse: "\<lbrakk>inv s; holds s b n\<rbrakk> \<Longrightarrow> n \<in> inuse s"
    and jlength: "inv s \<Longrightarrow> length (cur s n) = 512"
    and jrefl: "frame s s"
    and jtrans: "\<lbrakk>frame s t; frame t u\<rbrakk> \<Longrightarrow> frame s u"
    and jframe: "frame s t \<Longrightarrow> area t = area s \<and> active t = active s"
begin

lemma keep_other:
  assumes "inv s" "n \<notin> inuse s" "inv t" "holds t b n" "holds s c m" "\<forall>c m. holds s c m \<longrightarrow> holds t c m"
  shows "c \<noteq> b"
  using assms jinj [of t b n c m] jinuse [of s c m] by blast

text \<open>Looking at a block.\<close>

lemma look:
  assumes "inv s" "n < area s" "n \<notin> inuse s" "card (inuse s) \<le> room s"
  shows "\<exists>t. bnd (get n) (\<lambda>b. bnd (rd (\<lambda>s. data s b)) (\<lambda>d. thn (rel b) (k d))) s = k (cur s n) t \<and> frame s t \<and> inv t \<and>
    cur t = cur s \<and> inuse t = inuse s \<and> room t = room s \<and> (\<forall>c m. holds s c m \<longrightarrow> holds t c m)"
proof -
  obtain b t where t: "get n s = Ok b t" "frame s t" "inv t" "holds t b n" "cur t = cur s" "inuse t = insert n (inuse s)"
    "room t = room s" "\<forall>c m. holds s c m \<longrightarrow> holds t c m"
    using jget [OF assms] by (elim exE conjE)
  obtain u where u: "rel b t = Ok () u" "frame t u" "inv u" "\<forall>c m. holds u c m \<longleftrightarrow> holds t c m \<and> c \<noteq> b" "cur u = cur t"
    "inuse u = inuse t - {n}" "room u = room t"
    using jrel [OF t(3,4)] by (elim exE conjE)
  have "holds u c m" if "holds s c m" for c m
    using keep_other [OF assms(1,3) t(3,4) that t(8)] t(8) u(4) that by blast
  then show ?thesis
    using t u jdata [OF t(3,4)] jtrans [OF t(2) u(2)] assms(3) by (intro exI [of _ u]) (simp add: kern_simps)
qed

text \<open>Changing a block through the log.\<close>

lemma change:
  assumes "inv s" "n < area s" "n \<notin> inuse s" "card (inuse s) \<le> room s" "active s" "0 < room s" "length (f (cur s n)) = 512"
  shows "\<exists>t. bnd (get n) (\<lambda>b. thn (md (\<lambda>s. set_data b (f (data s b)) s)) (thn (log b) (thn (rel b) k))) s = k t \<and> frame s t \<and> inv t \<and>
    cur t = (cur s)(n := f (cur s n)) \<and> inuse t = inuse s \<and> room s \<le> Suc (room t) \<and> (\<forall>c m. holds s c m \<longrightarrow> holds t c m)"
proof -
  obtain b t where t: "get n s = Ok b t" "frame s t" "inv t" "holds t b n" "cur t = cur s" "inuse t = insert n (inuse s)"
    "room t = room s" "\<forall>c m. holds s c m \<longrightarrow> holds t c m"
    using jget [OF assms(1-4)] by (elim exE conjE)
  have f: "area t = area s" "active t = active s"
    using jframe [OF t(2)] by simp_all
  obtain v where v: "log b (set_data b (f (cur s n)) t) = Ok () v" "frame t v" "inv v" "holds v = holds t" "cur v = (cur s)(n := f (cur s n))"
    "inuse v = insert n (inuse s)" "room s \<le> Suc (room v)"
    using jupd [OF t(3,4), of "f (cur s n)"] f assms t by auto
  obtain u where u: "rel b v = Ok () u" "frame v u" "inv u" "\<forall>c m. holds u c m \<longleftrightarrow> holds v c m \<and> c \<noteq> b" "cur u = cur v"
    "inuse u = inuse v - {n}" "room u = room v"
    using jrel [of v b n] v(3,4) t(4) by auto
  have "holds u c m" if "holds s c m" for c m
    using keep_other [OF assms(1,3) t(3,4) that t(8)] t(8) u(4) v(4) that by simp
  then show ?thesis
    using t(1) u v jdata [OF t(3,4)] t(5) jtrans [OF t(2) jtrans [OF v(2) u(2)]] assms(3) by (intro exI [of _ u]) (simp add: kern_simps)
qed

end

end
