(* ===== verification/Cache.thy ===== *)
theory Cache
  imports Bio Blocks
begin

text \<open>
  Correctness of the buffer cache: the effect of each operation of \<^verbatim>\<open>Bio\<close> in a consistent state, the
  interpretation of the contract \<open>block_cache\<close>, and the state that \<^verbatim>\<open>binit\<close> establishes.
\<close>

section \<open>Effects of the operations\<close>

lemma find_SomeD: "find P xs = Some b \<Longrightarrow> b \<in> set xs \<and> P b"
  by (induction xs) (auto split: if_splits)

lemma find_unique:
  assumes "uniq bs" "set xs = {..<NBUF}"
  shows "find (\<lambda>b. b_dev (bs b) = 1 \<and> b_sector (bs b) = n) xs = bof bs n"
proof (cases "bof bs n")
  case None
  then have "\<forall>b \<in> set xs. \<not> (b_dev (bs b) = 1 \<and> b_sector (bs b) = n)"
    unfolding bof_None assms(2) by auto
  then show ?thesis
    unfolding None find_None_iff by blast
next
  case (Some b)
  then have b: "b \<in> set xs" "b_dev (bs b) = 1 \<and> b_sector (bs b) = n"
    using bof_SomeD [of bs n b] unfolding assms(2) by auto
  then have "find (\<lambda>b. b_dev (bs b) = 1 \<and> b_sector (bs b) = n) xs \<noteq> None"
    unfolding find_None_iff by blast
  then obtain c where c: "find (\<lambda>b. b_dev (bs b) = 1 \<and> b_sector (bs b) = n) xs = Some c"
    by blast
  then have "c \<in> set xs" "b_dev (bs c) = 1 \<and> b_sector (bs c) = n"
    unfolding find_Some_iff by auto
  then have "c = b"
    using b assms unfolding uniq_def by auto
  with c Some show ?thesis
    by simp
qed

lemma bget_search:
  assumes "bio_inv s xs"
  shows "find_next (bufs s) (\<lambda>q. b_dev q = 1 \<and> b_sector q = n) (b_next (bufs s bhead)) = Some (bof (bufs s) n)"
    and "find_prev (bufs s) P (b_prev (bufs s bhead)) = Some (find (\<lambda>b. P (bufs s b)) (rev xs))"
proof -
  have d: "dll (bufs s) xs" and xs: "uniq (bufs s)" "set xs = {..<NBUF}"
    using assms by (simp_all add: bio_inv_def)
  show "find_next (bufs s) (\<lambda>q. b_dev q = 1 \<and> b_sector q = n) (b_next (bufs s bhead)) = Some (bof (bufs s) n)"
    using find_next_chain [of "bufs s" bhead xs] d find_unique [OF xs] by (simp add: dll_def)
  show "find_prev (bufs s) P (b_prev (bufs s bhead)) = Some (find (\<lambda>b. P (bufs s b)) (rev xs))"
    using find_prev_chain [of "bufs s" bhead "rev xs"] d by (simp add: dll_def)
qed

lemma bget_cached:
  assumes "calm s" "bio_inv s xs" "bof (bufs s) n = Some b" "\<not> is_busy (bufs s b)"
  shows "bget 1 n s = Ok b (s\<lparr>bufs := (bufs s)(b := (bufs s b)\<lparr>flags := flags (bufs s b) OR 1\<rparr>),
    free_block_number := free_block_number s - 1, number_of_hits := number_of_hits s + 1,
    number_of_block_acsses := number_of_block_acsses s + 1\<rparr>)"
proof -
  have "find_next (bufs s) (\<lambda>q. b_dev q = 1 \<and> b_sector q = n) (b_next (bufs s bhead)) = Some (Some b)"
    using bget_search(1) [OF assms(2)] assms(3) by simp
  then show ?thesis
    using assms(1,4)
    by (simp add: bget_def bget_loop_def kern_simps acquire_free release_hold flag_simps upd_buf_def)
qed

lemma bget_uncached:
  assumes "calm s" "bio_inv s xs" "bof (bufs s) n = None"
    and "find (\<lambda>b. \<not> is_busy (bufs s b) \<and> \<not> is_dirty (bufs s b)) (rev xs) = Some b"
  shows "bget 1 n s = Ok b (s\<lparr>bufs := (bufs s)(b := (bufs s b)\<lparr>b_dev := 1, b_sector := n, flags := 1\<rparr>),
    free_block_number := free_block_number s - 1,
    number_of_block_acsses := number_of_block_acsses s + 1\<rparr>)"
proof -
  have "find_next (bufs s) (\<lambda>q. b_dev q = 1 \<and> b_sector q = n) (b_next (bufs s bhead)) = Some None"
    using bget_search(1) [OF assms(2)] assms(3) by simp
  moreover have "find_prev (bufs s) (\<lambda>q. flags q AND 1 = 0 \<and> flags q AND 4 = 0) (b_prev (bufs s bhead)) = Some (Some b)"
    using bget_search(2) [OF assms(2)] assms(4) by (simp add: flag_simps)
  ultimately show ?thesis
    using assms(1)
    by (simp add: bget_def bget_loop_def bget_recycle_def kern_simps acquire_free release_hold upd_buf_def)
qed

lemma iderw_read:
  assumes "is_busy (bufs s b)" "\<not> is_valid (bufs s b)" "\<not> is_dirty (bufs s b)" "b_dev (bufs s b) = 1"
    "b_sector (bufs s b) < disksize s"
  shows "iderw b s = Ok () (s\<lparr>bufs := (bufs s)(b := (bufs s b)\<lparr>b_data := disk s (b_sector (bufs s b)),
    flags := flags (bufs s b) OR 2\<rparr>)\<rparr>)"
  using assms by (simp add: iderw_def kern_simps flag_simps upd_buf_def)

lemma iderw_write:
  assumes "is_busy (bufs s b)" "is_dirty (bufs s b)" "b_dev (bufs s b) = 1" "b_sector (bufs s b) < disksize s"
  shows "iderw b s = Ok () (s\<lparr>bufs := (bufs s)(b := (bufs s b)\<lparr>flags := flags (bufs s b) AND NOT 4 OR 2\<rparr>),
    disk := (disk s)(b_sector (bufs s b) := b_data (bufs s b)),
    wtrace := wtrace s @ [(b_sector (bufs s b), b_data (bufs s b))]\<rparr>)"
  using assms by (auto simp: iderw_def kern_simps flag_simps upd_buf_def intro!: bio_st.equality)

section \<open>Changing one buffer\<close>

lemma bof_same:
  assumes "b_dev q = b_dev (bs b)" "b_sector q = b_sector (bs b)"
  shows "bof (bs(b := q)) = bof bs" "uniq (bs(b := q)) = uniq bs"
proof -
  have "(\<lambda>c. b_dev ((bs(b := q)) c)) = (\<lambda>c. b_dev (bs c))" "(\<lambda>c. b_sector ((bs(b := q)) c)) = (\<lambda>c. b_sector (bs c))"
    using assms by auto
  then have *: "b_dev ((bs(b := q)) c) = b_dev (bs c)" "b_sector ((bs(b := q)) c) = b_sector (bs c)" for c
    by meson+
  show "bof (bs(b := q)) = bof bs" "uniq (bs(b := q)) = uniq bs"
    unfolding bof_def uniq_def * by simp_all
qed

lemma bof_recycle:
  assumes "uniq bs" "bof bs n = None" "b < NBUF" "b_dev q = 1" "b_sector q = n"
  shows "uniq (bs(b := q))"
    and "bof (bs(b := q)) m = (if m = n then Some b else if bof bs m = Some b then None else bof bs m)"
proof -
  have none: "\<And>c. c < NBUF \<Longrightarrow> b_dev (bs c) = 1 \<Longrightarrow> b_sector (bs c) \<noteq> n"
    using assms(2) unfolding bof_None by blast
  show u: "uniq (bs(b := q))"
    unfolding uniq_def
  proof (intro allI impI)
    fix a c assume "a < NBUF" "c < NBUF" and
      "b_dev ((bs(b := q)) a) = 1 \<and> b_dev ((bs(b := q)) c) = 1 \<and> b_sector ((bs(b := q)) a) = b_sector ((bs(b := q)) c)"
    then show "a = c"
      using none [of a] none [of c] assms(1,5) unfolding uniq_def by (cases "a = b"; cases "c = b") auto
  qed
  show "bof (bs(b := q)) m = (if m = n then Some b else if bof bs m = Some b then None else bof bs m)"
  proof (cases "m = n")
    case True
    then show ?thesis
      using bof_iff [OF u] assms by simp
  next
    case False
    show ?thesis
    proof (cases "bof bs m")
      case None
      then have "bof (bs(b := q)) m = None"
        using False assms(5) unfolding bof_None by auto
      with False None show ?thesis
        by simp
    next
      case (Some c)
      note c = bof_SomeD [OF Some]
      have "bof (bs(b := q)) m = None" if "c = b"
        unfolding bof_None
      proof (intro allI impI)
        fix d assume "d < NBUF"
        then show "\<not> (b_dev ((bs(b := q)) d) = 1 \<and> b_sector ((bs(b := q)) d) = m)"
          using that c False assms(1,5) unfolding uniq_def by (cases "d = b") auto
      qed
      moreover have "bof (bs(b := q)) m = Some c" if "c \<noteq> b"
        unfolding bof_iff [OF u] using that c by simp
      ultimately show ?thesis
        using False Some by auto
    qed
  qed
qed

lemma dll_same: "b_next q = b_next (bs b) \<Longrightarrow> b_prev q = b_prev (bs b) \<Longrightarrow> dll (bs(b := q)) xs = dll bs xs"
proof -
  assume "b_next q = b_next (bs b)" "b_prev q = b_prev (bs b)"
  then have "nxf (bs(b := q)) = nxf bs" "pvf (bs(b := q)) = pvf bs"
    by (auto simp: nxf_def pvf_def fun_eq_iff)
  then show ?thesis
    by (simp add: dll_def)
qed

lemma idle_count_card: "idle_count bs = card {b. b < NBUF \<and> \<not> is_busy (bs b)}"
proof -
  have "set (filter (\<lambda>b. \<not> is_busy (bs b)) [0..<NBUF]) = {b. b < NBUF \<and> \<not> is_busy (bs b)}"
    by auto
  moreover have "card (set (filter (\<lambda>b. \<not> is_busy (bs b)) [0..<NBUF])) = idle_count bs"
    unfolding idle_count_def by (rule distinct_card) simp
  ultimately show ?thesis
    by simp
qed

lemma idle_count_same: "bit (flags q) 0 = bit (flags (bs b)) 0 \<Longrightarrow> idle_count (bs(b := q)) = idle_count bs"
  unfolding idle_count_def by (auto intro!: arg_cong [of _ _ length] filter_cong)

lemma idle_count_take:
  assumes "b < NBUF" "\<not> is_busy (bs b)" "is_busy q"
  shows "idle_count bs = Suc (idle_count (bs(b := q)))"
proof -
  have "{c. c < NBUF \<and> \<not> is_busy (bs c)} = insert b {c. c < NBUF \<and> \<not> is_busy ((bs(b := q)) c)}"
    using assms by auto
  then show ?thesis
    using assms unfolding idle_count_card by simp
qed

text \<open>Fewer than \<open>NBUF\<close> blocks in use or unwritten leave a buffer that can be recycled.\<close>

lemma idle_buffer:
  assumes "bio_inv s xs" "card (busy s \<union> dirty s) < NBUF"
  obtains b where "find (\<lambda>b. \<not> is_busy (bufs s b) \<and> \<not> is_dirty (bufs s b)) (rev xs) = Some b"
    "b < NBUF" "\<not> is_busy (bufs s b)" "\<not> is_dirty (bufs s b)"
proof -
  let ?P = "\<lambda>b. \<not> is_busy (bufs s b) \<and> \<not> is_dirty (bufs s b)"
  have xs: "set xs = {..<NBUF}" and u: "uniq (bufs s)" and ok: "\<And>b. b < NBUF \<Longrightarrow> buf_ok s (bufs s b)"
    using assms(1) by (auto simp: bio_inv_def)
  have "find ?P (rev xs) \<noteq> None"
  proof
    assume "find ?P (rev xs) = None"
    then have all: "is_busy (bufs s b) \<or> is_dirty (bufs s b)" if "b < NBUF" for b
      using that xs unfolding find_None_iff by auto
    then have dev: "b_dev (bufs s b) = 1" if "b < NBUF" for b
      using ok [OF that] all [OF that] by (auto simp: buf_ok_def split: if_splits)
    let ?f = "\<lambda>b. b_sector (bufs s b)"
    have "inj_on ?f {..<NBUF}"
      using u dev unfolding uniq_def inj_on_def by blast
    moreover have im: "?f ` {..<NBUF} \<subseteq> busy s \<union> dirty s"
      using all dev bof_iff [OF u] unfolding busy_def dirty_def by fastforce
    moreover have "finite (busy s \<union> dirty s)"
    proof (rule finite_subset)
      show "busy s \<union> dirty s \<subseteq> ?f ` {..<NBUF}"
        unfolding busy_def dirty_def by (auto dest!: bof_SomeD)
    qed simp
    ultimately have "card {..<NBUF} \<le> card (busy s \<union> dirty s)"
      by (metis card_image card_mono)
    with assms(2) show False
      by simp
  qed
  then obtain b where b: "find ?P (rev xs) = Some b"
    by blast
  moreover from b have "b \<in> set (rev xs)" "?P b"
    by (auto dest: find_SomeD)
  ultimately show thesis
    using that xs by auto
qed

lemma calm_bio_upd:
  "calm (s\<lparr>bufs := bs, free_block_number := f, number_of_hits := h, number_of_block_acsses := a\<rparr>) = calm s"
  by simp

lemma bread_hit:
  assumes "calm s" "bio_inv s xs" "bof (bufs s) n = Some b" "\<not> is_busy (bufs s b)"
  shows "bread 1 n s = Ok b (s\<lparr>bufs := (bufs s)(b := (bufs s b)\<lparr>flags := flags (bufs s b) OR 1\<rparr>),
    free_block_number := free_block_number s - 1, number_of_hits := number_of_hits s + 1,
    number_of_block_acsses := number_of_block_acsses s + 1\<rparr>)"
proof -
  have "is_valid (bufs s b)"
    using assms(2) bof_SomeD [OF assms(3)] by (auto simp: bio_inv_def buf_ok_def)
  then show ?thesis
    using bget_cached [OF assms] by (simp add: bread_def kern_simps whenk_def flag_simps)
qed

lemma bread_miss:
  assumes "calm s" "bio_inv s xs" "bof (bufs s) n = None" "n < disksize s"
    and "find (\<lambda>b. \<not> is_busy (bufs s b) \<and> \<not> is_dirty (bufs s b)) (rev xs) = Some b"
  shows "bread 1 n s = Ok b (s\<lparr>bufs := (bufs s)(b := (bufs s b)\<lparr>b_dev := 1, b_sector := n, flags := 3, b_data := disk s n\<rparr>),
    free_block_number := free_block_number s - 1, number_of_block_acsses := number_of_block_acsses s + 1\<rparr>)"
proof -
  let ?u = "s\<lparr>bufs := (bufs s)(b := (bufs s b)\<lparr>b_dev := 1, b_sector := n, flags := 1\<rparr>),
    free_block_number := free_block_number s - 1, number_of_block_acsses := number_of_block_acsses s + 1\<rparr>"
  have "iderw b ?u = Ok () (?u\<lparr>bufs := (bufs ?u)(b := (bufs ?u b)\<lparr>b_data := disk ?u (b_sector (bufs ?u b)),
      flags := flags (bufs ?u b) OR 2\<rparr>)\<rparr>)"
    using assms(4) by (intro iderw_read) (simp_all add: flag_simps)
  then show ?thesis
    using bget_uncached [OF assms(1-3,5)]
    by (auto simp: bread_def kern_simps whenk_def flag_simps intro!: bio_st.equality)
qed

lemma bof_inj: "bof bs n = Some b \<Longrightarrow> bof bs m = Some b \<Longrightarrow> m = n"
  by (auto dest!: bof_SomeD)

lemma bread_spec_hit:
  assumes "calm s" "bio_inv s xs" "bof (bufs s) n = Some b" "n \<notin> busy s"
  shows "\<exists>t. bread 1 n s = Ok b t \<and> bio_frame s t \<and> calm t \<and> bio_inv t xs \<and> held t b n \<and> blk t = blk s \<and>
    busy t = insert n (busy s) \<and> dirty t = dirty s \<and> disk t = disk s \<and> wtrace t = wtrace s \<and>
    (\<forall>b' m. held s b' m \<longrightarrow> held t b' m)"
proof -
  let ?q = "(bufs s b)\<lparr>flags := flags (bufs s b) OR 1\<rparr>"
  let ?t = "s\<lparr>bufs := (bufs s)(b := ?q), free_block_number := free_block_number s - 1,
    number_of_hits := number_of_hits s + 1, number_of_block_acsses := number_of_block_acsses s + 1\<rparr>"
  have nb: "\<not> is_busy (bufs s b)"
    using assms(3,4) by (auto simp: busy_def)
  have same: "bof ((bufs s)(b := ?q)) = bof (bufs s)" "uniq ((bufs s)(b := ?q)) = uniq (bufs s)"
    by (rule bof_same; simp)+
  note b = bof_SomeD [OF assms(3)]
  have inv: "bio_inv ?t xs"
  proof -
    have "idle_count (bufs s) = Suc (idle_count ((bufs s)(b := ?q)))"
      using nb b by (intro idle_count_take) (simp_all add: flag_simps)
    then show ?thesis
      using assms(2) b by (auto simp: bio_inv_def same dll_same buf_ok_def flag_simps)
  qed
  have "blk ?t = blk s"
    by (auto simp: blk_def same fun_eq_iff split: option.split)
  moreover have "busy ?t = insert n (busy s)" "dirty ?t = dirty s"
    using assms(3) by (auto simp: busy_def dirty_def same flag_simps split: if_splits dest: bof_inj [OF assms(3)])
  moreover have "bio_frame s ?t"
    by (intro bio_frame_steps bio_frame_refl)
  ultimately show ?thesis
    using bread_hit [OF assms(1-3) nb] inv assms(1,3)
    by (intro exI [of _ ?t]) (auto simp: held_def same flag_simps)
qed

lemma bread_spec_miss:
  assumes "calm s" "bio_inv s xs" "bof (bufs s) n = None" "n < disksize s" "card (busy s \<union> dirty s) < NBUF"
  shows "\<exists>b t. bread 1 n s = Ok b t \<and> bio_frame s t \<and> calm t \<and> bio_inv t xs \<and> held t b n \<and> blk t = blk s \<and>
    busy t = insert n (busy s) \<and> dirty t = dirty s \<and> disk t = disk s \<and> wtrace t = wtrace s \<and>
    (\<forall>b' m. held s b' m \<longrightarrow> held t b' m)"
proof -
  obtain b where f: "find (\<lambda>b. \<not> is_busy (bufs s b) \<and> \<not> is_dirty (bufs s b)) (rev xs) = Some b"
    and b: "b < NBUF" and nb: "\<not> is_busy (bufs s b)" "\<not> is_dirty (bufs s b)"
    using idle_buffer [OF assms(2,5)] by blast
  let ?q = "(bufs s b)\<lparr>b_dev := 1, b_sector := n, flags := 3, b_data := disk s n\<rparr>"
  let ?t = "s\<lparr>bufs := (bufs s)(b := ?q), free_block_number := free_block_number s - 1,
    number_of_block_acsses := number_of_block_acsses s + 1\<rparr>"
  have u: "uniq (bufs s)" and ok: "buf_ok s (bufs s b)" and len: "\<And>m. length (disk s m) = 512"
    using assms(2) b by (auto simp: bio_inv_def)
  have uq: "uniq ((bufs s)(b := ?q))"
    by (rule bof_recycle(1) [OF u assms(3) b]) simp_all
  have re: "bof ((bufs s)(b := ?q)) m = (if m = n then Some b else if bof (bufs s) m = Some b then None else bof (bufs s) m)" for m
    by (rule bof_recycle(2) [OF u assms(3) b]) simp_all
  have three: "bit (3 :: uint32) 0" "bit (3 :: uint32) 1" "\<not> bit (3 :: uint32) 2"
    by simp_all
  have inv: "bio_inv ?t xs"
  proof -
    have "idle_count (bufs s) = Suc (idle_count ((bufs s)(b := ?q)))"
      using nb b by (intro idle_count_take) (simp_all add: three)
    then show ?thesis
      using assms(2,4) b len uq by (auto simp: bio_inv_def dll_same buf_ok_def three)
  qed
  have "b_data (bufs s b) = disk s m" if "bof (bufs s) m = Some b" for m
    using bof_SomeD [OF that] ok nb by (auto simp: buf_ok_def)
  then have "blk ?t = blk s"
    using assms(3) by (auto simp: blk_def re fun_eq_iff split: option.split)
  moreover have "busy ?t = insert n (busy s)" "dirty ?t = dirty s"
    using assms(3) nb three by (auto simp: busy_def dirty_def re split: if_splits)
  moreover have "bio_frame s ?t"
    by (intro bio_frame_steps bio_frame_refl)
  ultimately show ?thesis
    using bread_miss [OF assms(1-4) f] inv assms(1,3) nb three
    by (intro exI [of _ b] exI [of _ ?t]) (auto simp: held_def re)
qed

lemma bread_spec:
  assumes "bio_ok s" "n < disksize s" "n \<notin> busy s" "n \<in> dirty s \<or> card (busy s \<union> dirty s) < NBUF"
  shows "\<exists>b t. bread 1 n s = Ok b t \<and> bio_frame s t \<and> bio_ok t \<and> held t b n \<and> blk t = blk s \<and>
    busy t = insert n (busy s) \<and> dirty t = dirty s \<and> disk t = disk s \<and> wtrace t = wtrace s \<and>
    (\<forall>b' m. held s b' m \<longrightarrow> held t b' m)"
proof -
  obtain xs where xs: "calm s" "bio_inv s xs"
    using assms(1) by (auto simp: bio_ok_def)
  show ?thesis
  proof (cases "bof (bufs s) n")
    case None
    then have "n \<notin> dirty s"
      by (simp add: dirty_def)
    with bread_spec_miss [OF xs None assms(2)] assms(4) xs show ?thesis
      unfolding bio_ok_def by blast
  next
    case (Some b)
    from bread_spec_hit [OF xs Some assms(3)] xs show ?thesis
      unfolding bio_ok_def by blast
  qed
qed

lemma set_data_spec:
  assumes "bio_ok s" "held s b n" "length d = 512"
  defines "t \<equiv> upd_buf b (\<lambda>q. q\<lparr>b_data := d\<rparr>) s"
  shows "bio_frame s t \<and> bio_ok t \<and> held t = held s \<and> blk t = (blk s)(n := d) \<and>
    busy t = busy s \<and> dirty t = dirty s \<and> disk t = disk s \<and> wtrace t = wtrace s"
proof -
  have n: "bof (bufs s) n = Some b" "is_busy (bufs s b)"
    using assms(2) by (simp_all add: held_def)
  obtain xs where xs: "calm s" "bio_inv s xs"
    using assms(1) by (auto simp: bio_ok_def)
  let ?q = "(bufs s b)\<lparr>b_data := d\<rparr>"
  have same: "bof ((bufs s)(b := ?q)) = bof (bufs s)" "uniq ((bufs s)(b := ?q)) = uniq (bufs s)"
    "idle_count ((bufs s)(b := ?q)) = idle_count (bufs s)" "dll ((bufs s)(b := ?q)) ys = dll (bufs s) ys" for ys
    by (rule bof_same idle_count_same dll_same; simp)+
  have "bio_inv t xs"
    using xs(2) n bof_SomeD [OF n(1)] assms(3) by (auto simp: t_def bio_inv_def same buf_ok_def upd_buf_def)
  moreover have "bio_frame s t"
    unfolding t_def upd_buf_def by (intro bio_frame_steps bio_frame_refl)
  moreover have "blk t = (blk s)(n := d)"
    using n(1) by (auto simp: t_def blk_def same fun_eq_iff split: option.split dest: bof_inj [OF n(1)])
  moreover have "busy t = busy s" "dirty t = dirty s" "held t = held s"
    by (auto simp: t_def busy_def dirty_def held_def same fun_eq_iff split: if_splits)
  ultimately show ?thesis
    using xs(1) by (auto simp: t_def bio_ok_def)
qed

lemma set_dirty_spec:
  assumes "bio_ok s" "held s b n"
  defines "t \<equiv> upd_buf b (\<lambda>q. q\<lparr>flags := flags q OR 4\<rparr>) s"
  shows "bio_frame s t \<and> bio_ok t \<and> held t = held s \<and> blk t = blk s \<and>
    busy t = busy s \<and> dirty t = insert n (dirty s) \<and> disk t = disk s \<and> wtrace t = wtrace s"
proof -
  have n: "bof (bufs s) n = Some b" "is_busy (bufs s b)"
    using assms(2) by (simp_all add: held_def)
  obtain xs where xs: "calm s" "bio_inv s xs"
    using assms(1) by (auto simp: bio_ok_def)
  let ?q = "(bufs s b)\<lparr>flags := flags (bufs s b) OR 4\<rparr>"
  have same: "bof ((bufs s)(b := ?q)) = bof (bufs s)" "uniq ((bufs s)(b := ?q)) = uniq (bufs s)"
    "idle_count ((bufs s)(b := ?q)) = idle_count (bufs s)" "dll ((bufs s)(b := ?q)) ys = dll (bufs s) ys" for ys
    by (rule bof_same idle_count_same dll_same; simp add: flag_simps)+
  have "bio_inv t xs"
    using xs(2) n bof_SomeD [OF n(1)] by (auto simp: t_def bio_inv_def same buf_ok_def upd_buf_def flag_simps)
  moreover have "bio_frame s t"
    unfolding t_def upd_buf_def by (intro bio_frame_steps bio_frame_refl)
  moreover have "blk t = blk s"
    by (auto simp: t_def blk_def same fun_eq_iff split: option.split)
  moreover have "busy t = busy s" "dirty t = insert n (dirty s)" "held t = held s"
    using n by (auto simp: t_def busy_def dirty_def held_def same fun_eq_iff flag_simps split: if_splits
        dest: bof_inj [OF n(1)])
  ultimately show ?thesis
    using xs(1) by (auto simp: t_def bio_ok_def)
qed

lemma bwrite_eq:
  assumes "is_busy (bufs s b)" "b_dev (bufs s b) = 1" "b_sector (bufs s b) < disksize s"
  shows "bwrite b s = Ok () (s\<lparr>bufs := (bufs s)(b := (bufs s b)\<lparr>flags := (flags (bufs s b) OR 4) AND NOT 4 OR 2\<rparr>),
    disk := (disk s)(b_sector (bufs s b) := b_data (bufs s b)),
    wtrace := wtrace s @ [(b_sector (bufs s b), b_data (bufs s b))]\<rparr>)"
proof -
  let ?u = "upd_buf b (\<lambda>q. q\<lparr>flags := flags q OR 4\<rparr>) s"
  have "iderw b ?u = Ok () (?u\<lparr>bufs := (bufs ?u)(b := (bufs ?u b)\<lparr>flags := flags (bufs ?u b) AND NOT 4 OR 2\<rparr>),
    disk := (disk ?u)(b_sector (bufs ?u b) := b_data (bufs ?u b)),
    wtrace := wtrace ?u @ [(b_sector (bufs ?u b), b_data (bufs ?u b))]\<rparr>)"
    using assms by (intro iderw_write) (simp_all add: flag_simps)
  then show ?thesis
    using assms(1) by (simp add: bwrite_def kern_simps flag_simps) (simp add: upd_buf_def)
qed

lemma bwrite_spec:
  assumes "bio_ok s" "held s b n"
  shows "\<exists>t. bwrite b s = Ok () t \<and> bio_frame s t \<and> bio_ok t \<and> held t = held s \<and> blk t = blk s \<and>
    busy t = busy s \<and> dirty t = dirty s - {n} \<and> disk t = (disk s)(n := blk s n) \<and>
    wtrace t = wtrace s @ [(n, blk s n)]"
proof -
  have n: "bof (bufs s) n = Some b" "is_busy (bufs s b)"
    using assms(2) by (simp_all add: held_def)
  obtain xs where xs: "calm s" "bio_inv s xs"
    using assms(1) by (auto simp: bio_ok_def)
  note b = bof_SomeD [OF n(1)]
  define q where "q = (bufs s b)\<lparr>flags := (flags (bufs s b) OR 4) AND NOT 4 OR 2\<rparr>"
  define t where "t = s\<lparr>bufs := (bufs s)(b := q), disk := (disk s)(n := b_data (bufs s b)),
    wtrace := wtrace s @ [(n, b_data (bufs s b))]\<rparr>"
  have q: "is_busy q" "is_valid q" "\<not> is_dirty q" "b_dev q = 1" "b_sector q = n" "b_data q = b_data (bufs s b)"
    using n(2) b by (simp_all add: q_def flag_simps)
  have same: "bof ((bufs s)(b := q)) = bof (bufs s)" "uniq ((bufs s)(b := q)) = uniq (bufs s)"
    "idle_count ((bufs s)(b := q)) = idle_count (bufs s)" "dll ((bufs s)(b := q)) ys = dll (bufs s) ys" for ys
    using q n(2) b by (rule_tac bof_same idle_count_same dll_same; simp add: q_def)+
  have d: "b_data (bufs s b) = blk s n"
    using n(1) by (simp add: blk_def)
  have lt: "n < disksize s" and len: "length (b_data (bufs s b)) = 512"
    using xs(2) b by (auto simp: bio_inv_def buf_ok_def)
  have "buf_ok t (bufs t c)" if "c < NBUF" for c
  proof (cases "c = b")
    case True
    then show ?thesis
      using q lt len by (simp add: buf_ok_def t_def)
  next
    case False
    moreover have "b_dev (bufs s c) = 1 \<Longrightarrow> b_sector (bufs s c) \<noteq> n"
      using False b that xs(2) unfolding bio_inv_def uniq_def by auto
    moreover have "buf_ok s (bufs s c)"
      using xs(2) that by (simp add: bio_inv_def)
    ultimately show ?thesis
      unfolding buf_ok_def t_def by (auto split: if_splits)
  qed
  then have "bio_inv t xs"
    using xs(2) len unfolding bio_inv_def t_def by (simp add: same)
  moreover have "bio_frame s t"
    unfolding t_def by (intro bio_frame_steps bio_frame_refl)
  moreover have "blk t = blk s"
    using n(1) q by (auto simp: blk_def t_def same fun_eq_iff split: option.split)
  moreover have "busy t = busy s" "held t = held s"
    using n q by (auto simp: busy_def held_def t_def same fun_eq_iff split: if_splits)
  moreover have "m \<in> dirty t \<longleftrightarrow> m \<in> dirty s - {n}" for m
    using n(1) q(3) bof_inj [OF n(1), of m] by (cases "bof (bufs s) m") (auto simp: dirty_def t_def same)
  then have "dirty t = dirty s - {n}"
    by blast
  moreover have "bwrite b s = Ok () t"
    using bwrite_eq [OF n(2)] b lt by (simp add: t_def q_def)
  ultimately show ?thesis
    using xs(1) d by (intro exI [of _ t]) (auto simp: bio_ok_def t_def)
qed

lemma link_core [simp]:
  "flags (set_next c v bs i) = flags (bs i)" "flags (set_prev c v bs i) = flags (bs i)"
  "b_dev (set_next c v bs i) = b_dev (bs i)" "b_dev (set_prev c v bs i) = b_dev (bs i)"
  "b_sector (set_next c v bs i) = b_sector (bs i)" "b_sector (set_prev c v bs i) = b_sector (bs i)"
  "b_data (set_next c v bs i) = b_data (bs i)" "b_data (set_prev c v bs i) = b_data (bs i)"
  by (simp_all add: set_next_def set_prev_def)

definition relinked :: "nat \<Rightarrow> (nat \<Rightarrow> buf) \<Rightarrow> nat \<Rightarrow> buf" where
  "relinked b bs = link_front b (unlink b bs)"

lemma relinked_core [simp]:
  "flags (relinked b bs i) = flags (bs i)" "b_dev (relinked b bs i) = b_dev (bs i)"
  "b_sector (relinked b bs i) = b_sector (bs i)" "b_data (relinked b bs i) = b_data (bs i)"
  by (simp_all add: relinked_def link_front_def unlink_def Let_def)

lemma relinked_views [simp]: "bof (relinked b bs) = bof bs" "uniq (relinked b bs) = uniq bs" "idle_count (relinked b bs) = idle_count bs"
  by (simp_all add: bof_def uniq_def idle_count_def fun_eq_iff)

lemma relinked_dll:
  assumes "dll bs xs" "b \<in> set xs"
  shows "dll (relinked b bs) (b # remove1 b xs)"
proof -
  obtain ys zs where xs: "xs = ys @ b # zs" "b \<notin> set ys"
    using assms(2) by (meson split_list_first)
  then have "dll (unlink b bs) (ys @ zs)"
    using assms(1) dll_unlink by blast
  moreover have "b \<notin> set (bhead # ys @ zs)"
    using assms(1) xs by (auto simp: dll_def)
  ultimately have "dll (relinked b bs) (b # ys @ zs)"
    unfolding relinked_def by (rule dll_link_front)
  then show ?thesis
    using xs by (simp add: remove1_append)
qed

lemma brelse_eq:
  assumes "calm s" "is_busy (bufs s b)"
  shows "brelse b s = Ok () (s\<lparr>ptable := (\<lambda>p. if p < NPROC then woken (ChBuf b) (ptable s p) else ptable s p),
    bufs := (relinked b (bufs s))(b := (relinked b (bufs s) b)\<lparr>flags := flags (bufs s b) AND NOT 1\<rparr>),
    free_block_number := free_block_number s + 1\<rparr>)"
proof -
  have link: "upd_buf c (\<lambda>q. q\<lparr>b_prev := v\<rparr>) u = u\<lparr>bufs := set_prev c v (bufs u)\<rparr>"
    "upd_buf c (\<lambda>q. q\<lparr>b_next := v\<rparr>) u = u\<lparr>bufs := set_next c v (bufs u)\<rparr>" for c v and u :: "'a bio_st_scheme"
    by (simp_all add: upd_buf_def set_prev_def set_next_def)
  have nx: "b_next (bs i) = nxf bs i" "b_prev (bs i) = pvf bs i" for bs i
    by (simp_all add: nxf_def pvf_def)
  show ?thesis
    using assms
    by (simp add: brelse_def kern_simps flag_simps acquire_free release_hold wakeup_eq link nx)
      (auto simp: relinked_def link_front_def unlink_def Let_def upd_buf_def intro!: bio_st.equality)
qed

lemma brelse_order:
  assumes xs: "calm s" "bio_inv s xs" and "held s b n" "n \<in> dirty s \<or> blk s n = disk s n"
  shows "\<exists>t. brelse b s = Ok () t \<and> bio_frame s t \<and> calm t \<and> bio_inv t (b # remove1 b xs) \<and>
    (\<forall>b' m. held t b' m \<longleftrightarrow> held s b' m \<and> b' \<noteq> b) \<and>
    blk t = blk s \<and> busy t = busy s - {n} \<and> dirty t = dirty s \<and> disk t = disk s \<and> wtrace t = wtrace s"
proof -
  have n: "bof (bufs s) n = Some b" "is_busy (bufs s b)"
    using assms(3) by (simp_all add: held_def)
  note b = bof_SomeD [OF n(1)]
  define q where "q = (relinked b (bufs s) b)\<lparr>flags := flags (bufs s b) AND NOT 1\<rparr>"
  define bs where "bs = (relinked b (bufs s))(b := q)"
  define t where "t = s\<lparr>ptable := (\<lambda>p. if p < NPROC then woken (ChBuf b) (ptable s p) else ptable s p),
    bufs := bs, free_block_number := free_block_number s + 1\<rparr>"
  have q: "\<not> is_busy q" "is_valid q = is_valid (bufs s b)" "is_dirty q = is_dirty (bufs s b)"
    "b_dev q = 1" "b_sector q = n" "b_data q = b_data (bufs s b)"
    using b by (simp_all add: q_def flag_simps)
  have "bof bs = bof (relinked b (bufs s))" "uniq bs = uniq (relinked b (bufs s))"
    unfolding bs_def by (rule bof_same; simp add: q_def)+
  then have same: "bof bs = bof (bufs s)" "uniq bs = uniq (bufs s)" "dll bs ys = dll (relinked b (bufs s)) ys" for ys
    unfolding bs_def by (simp_all add: dll_same q_def)
  have bs_at: "bs c = (if c = b then q else relinked b (bufs s) c)" for c
    by (simp add: bs_def)
  have d: "b_data (bufs s b) = blk s n"
    using n(1) by (simp add: blk_def)
  have dd: "n \<in> dirty s \<longleftrightarrow> is_dirty (bufs s b)"
    using n(1) by (simp add: dirty_def)
  have "buf_ok t (bs c)" if "c < NBUF" for c
  proof (cases "c = b")
    case True
    then show ?thesis
      using q assms(4) d dd xs(2) b by (auto simp: bs_at buf_ok_def t_def bio_inv_def)
  next
    case False
    moreover have "buf_ok s (bufs s c)"
      using xs(2) that by (simp add: bio_inv_def)
    ultimately show ?thesis
      unfolding buf_ok_def t_def bs_at by (auto split: if_splits)
  qed
  moreover have "idle_count bs = Suc (idle_count (bufs s))"
  proof -
    have "idle_count bs = Suc (idle_count (bs(b := bufs s b)))"
      using b n(2) q(1) by (intro idle_count_take) (auto simp: bs_def)
    moreover have "idle_count (bs(b := bufs s b)) = idle_count (relinked b (bufs s))"
      unfolding bs_def idle_count_def by (auto intro!: arg_cong [of _ _ length] filter_cong)
    ultimately show ?thesis
      by simp
  qed
  moreover have "dll (relinked b (bufs s)) (b # remove1 b xs)" "set (b # remove1 b xs) = {..<NBUF}"
    using xs(2) b relinked_dll [of "bufs s" xs b] by (auto simp: bio_inv_def dll_def)
  ultimately have "bio_inv t (b # remove1 b xs)"
    using xs(2) unfolding bio_inv_def t_def by (simp add: same)
  moreover have "bio_frame s t"
    unfolding t_def by (intro bio_frame_steps bio_frame_refl)
  moreover have "blk t = blk s"
    using n(1) q(6) by (auto simp: blk_def t_def same bs_at fun_eq_iff split: option.split)
  moreover have "m \<in> busy t \<longleftrightarrow> m \<in> busy s - {n}" "m \<in> dirty t \<longleftrightarrow> m \<in> dirty s" for m
    using n(1) q(1,3) bof_inj [OF n(1), of m]
    by (cases "bof (bufs s) m"; auto simp: busy_def dirty_def t_def same bs_at)+
  then have "busy t = busy s - {n}" "dirty t = dirty s"
    by blast+
  moreover have "held t b' m \<longleftrightarrow> held s b' m \<and> b' \<noteq> b" for b' m
    using q(1) by (auto simp: held_def t_def same bs_at)
  moreover have "brelse b s = Ok () t"
    using brelse_eq [OF xs(1) n(2)] by (simp add: t_def bs_def q_def)
  ultimately show ?thesis
    using xs(1) by (intro exI [of _ t]) (auto simp: t_def)
qed

lemma brelse_spec:
  assumes "bio_ok s" "held s b n" "n \<in> dirty s \<or> blk s n = disk s n"
  shows "\<exists>t. brelse b s = Ok () t \<and> bio_frame s t \<and> bio_ok t \<and> (\<forall>b' m. held t b' m \<longleftrightarrow> held s b' m \<and> b' \<noteq> b) \<and>
    blk t = blk s \<and> busy t = busy s - {n} \<and> dirty t = dirty s \<and> disk t = disk s \<and> wtrace t = wtrace s"
proof -
  obtain xs where "calm s" "bio_inv s xs"
    using assms(1) by (auto simp: bio_ok_def)
  from brelse_order [OF this assms(2,3)] show ?thesis
    unfolding bio_ok_def by blast
qed

section \<open>The cache fulfils the contract\<close>

lemma blk_coherent:
  assumes "bio_ok s" "n \<notin> busy s" "n \<notin> dirty s"
  shows "blk s n = disk s n"
proof (cases "bof (bufs s) n")
  case (Some b)
  then show ?thesis
    using assms bof_SomeD [OF Some] by (auto simp: blk_def busy_def dirty_def bio_ok_def bio_inv_def buf_ok_def)
qed (simp add: blk_def)

lemma blk_length: "bio_ok s \<Longrightarrow> length (blk s n) = 512"
  by (auto simp: blk_def bio_ok_def bio_inv_def buf_ok_def split: option.split dest!: bof_SomeD)

lemma busy_dirty_finite: "finite (busy s \<union> dirty s)"
proof (rule finite_subset)
  show "busy s \<union> dirty s \<subseteq> (\<lambda>b. b_sector (bufs s b)) ` {..<NBUF}"
    unfolding busy_def dirty_def by (auto dest!: bof_SomeD)
qed simp

lemma bio_frame_same:
  "bio_frame s t \<Longrightarrow> disksize t = disksize s" "bio_frame s t \<Longrightarrow> me t = me s" "bio_frame s t \<Longrightarrow> cproc t = cproc s"
  "bio_frame s t \<Longrightarrow> mem t = mem s"
  unfolding bio_frame_def by auto

interpretation bc: block_cache "bread 1" bwrite brelse "\<lambda>s b. b_data (bufs s b)"
  "\<lambda>b d. upd_buf b (\<lambda>q. q\<lparr>b_data := d\<rparr>)" bio_ok bio_frame held blk busy dirty disk wtrace disksize
proof (unfold_locales, goal_cases)
  case (1 s n)
  then show ?case
    by (rule bread_spec)
next
  case (2 s b n d)
  then show ?case
    by (rule set_data_spec)
next
  case (3 s b n)
  then show ?case
    by (rule bwrite_spec)
next
  case (4 s b n)
  then show ?case
    by (rule brelse_spec)
next
  case (8 s n)
  then show ?case
    by (rule blk_coherent)
next
  case (9 s n)
  then show ?case
    by (rule blk_length)
next
  case (10 s)
  then show ?case
    by (simp only: busy_dirty_finite)
next
  case (12 s t u)
  then show ?case
    by (rule bio_frame_trans)
qed (auto simp: held_def blk_def busy_def bio_frame_same dest: bof_inj)

section \<open>Initialisation\<close>

definition no_dev :: "nat \<Rightarrow> (nat \<Rightarrow> buf) \<Rightarrow> nat \<Rightarrow> buf" where
  "no_dev b bs = bs(b := (bs b)\<lparr>b_dev := - 1\<rparr>)"

lemma no_dev_simps:
  "no_dev b (set_next c v bs) = set_next c v (no_dev b bs)" "no_dev b (set_prev c v bs) = set_prev c v (no_dev b bs)"
  "nxf (no_dev b bs) = nxf bs" "pvf (no_dev b bs) = pvf bs"
  by (auto simp: no_dev_def set_next_def set_prev_def nxf_def pvf_def fun_eq_iff)

definition binit_step :: "nat \<Rightarrow> (nat \<Rightarrow> buf) \<Rightarrow> nat \<Rightarrow> buf" where
  "binit_step b bs = link_front b (no_dev b bs)"

lemma upd_buf_links:
  "upd_buf c (\<lambda>q. q\<lparr>b_prev := v\<rparr>) u = u\<lparr>bufs := set_prev c v (bufs u)\<rparr>"
  "upd_buf c (\<lambda>q. q\<lparr>b_next := w\<rparr>) u = u\<lparr>bufs := set_next c w (bufs u)\<rparr>"
  "upd_buf c (\<lambda>q. q\<lparr>b_dev := - 1\<rparr>) u = u\<lparr>bufs := no_dev c (bufs u)\<rparr>"
  by (simp_all add: upd_buf_def set_prev_def set_next_def no_dev_def)

lemma binit_body:
  assumes "b \<noteq> bhead"
  shows "thn (md (\<lambda>s. upd_buf b (\<lambda>q. q\<lparr>b_next := b_next (bufs s bhead)\<rparr>) s)) (
       thn (md (upd_buf b (\<lambda>q. q\<lparr>b_prev := bhead\<rparr>))) (
       thn (md (upd_buf b (\<lambda>q. q\<lparr>b_dev := - 1\<rparr>))) (
       thn (md (\<lambda>s. upd_buf (b_next (bufs s bhead)) (\<lambda>q. q\<lparr>b_prev := b\<rparr>) s))
       (md (upd_buf bhead (\<lambda>h. h\<lparr>b_next := b\<rparr>)))))) s = Ok () (s\<lparr>bufs := binit_step b (bufs s)\<rparr>)"
  using nxf_def [symmetric, of "bufs _" bhead] nxf_def [symmetric]
  by (simp add: upd_buf_links binit_step_def link_front_def Let_def no_dev_simps)

lemma link_front_core [simp]:
  "flags (link_front b bs i) = flags (bs i)" "b_dev (link_front b bs i) = b_dev (bs i)"
  "b_sector (link_front b bs i) = b_sector (bs i)" "b_data (link_front b bs i) = b_data (bs i)"
  by (simp_all add: link_front_def Let_def)

lemma binit_loop:
  assumes "dll bs xs" "distinct ps" "set ps \<inter> set (bhead # xs) = {}"
  defines "bs' \<equiv> fold binit_step ps bs"
  shows "dll bs' (rev ps @ xs) \<and> flags (bs' b) = flags (bs b) \<and> b_data (bs' b) = b_data (bs b) \<and>
    (b \<in> set ps \<longrightarrow> b_dev (bs' b) = - 1)"
  using assms(1-3) unfolding bs'_def
proof (induction ps arbitrary: bs xs)
  case (Cons p ps)
  let ?bs = "binit_step p bs"
  have "dll (no_dev p bs) xs"
    using Cons.prems(1) by (simp add: dll_def no_dev_simps)
  then have d: "dll ?bs (p # xs)"
    unfolding binit_step_def using Cons.prems(3) by (intro dll_link_front) auto
  have k: "flags (?bs b) = flags (bs b)" "b_data (?bs b) = b_data (bs b)" "b_dev (?bs p) = - 1"
    by (simp_all add: binit_step_def no_dev_def)
  have "b_dev (fold binit_step ps cs p) = b_dev (cs p)" if "p \<notin> set ps" for cs
    using that by (induction ps arbitrary: cs) (auto simp: binit_step_def no_dev_def)
  with Cons.IH [OF d] Cons.prems k show ?case
    by auto
qed simp

lemma binit_for_each:
  "bhead \<notin> set ps \<Longrightarrow> for_each ps (\<lambda>b. thn (md (\<lambda>s. upd_buf b (\<lambda>q. q\<lparr>b_next := b_next (bufs s bhead)\<rparr>) s)) (
       thn (md (upd_buf b (\<lambda>q. q\<lparr>b_prev := bhead\<rparr>))) (
       thn (md (upd_buf b (\<lambda>q. q\<lparr>b_dev := - 1\<rparr>))) (
       thn (md (\<lambda>s. upd_buf (b_next (bufs s bhead)) (\<lambda>q. q\<lparr>b_prev := b\<rparr>) s))
       (md (upd_buf bhead (\<lambda>h. h\<lparr>b_next := b\<rparr>))))))) s = Ok () (s\<lparr>bufs := fold binit_step ps (bufs s)\<rparr>)"
proof (induction ps arbitrary: s)
  case (Cons p ps)
  then show ?case
    using binit_body [of p s] by (simp add: thn_Ok)
qed simp

text \<open>A state as the machine starts with: buffers cleared, blocks of 512 bytes.\<close>

definition bss_bufs :: "'z bio_st_scheme \<Rightarrow> bool" where
  "bss_bufs s = ((\<forall>b. flags (bufs s b) = 0 \<and> length (b_data (bufs s b)) = 512) \<and> (\<forall>n. length (disk s n) = 512))"

lemma binit_eq:
  "binit s = Ok () ((set_lock LkBcache (\<lambda>k. k\<lparr>lname := ''bcache'', locked := 0, lcpu := None\<rparr>) s)\<lparr>
    bufs := fold binit_step [0..<NBUF] (set_next bhead bhead (set_prev bhead bhead (bufs s))),
    free_block_number := of_nat NBUF, number_of_block_acsses := 0, number_of_hits := 0\<rparr>)"
proof -
  have h: "bhead \<notin> set [0..<NBUF]"
    unfolding set_upt by simp
  show ?thesis
    unfolding binit_def initlock_def thn_md thn_Ok [OF binit_for_each [OF h]] md_eq
    unfolding upd_buf_links by (simp add: set_lock_def del: upt_rec_numeral)
qed

lemma binit_links:
  assumes "bs = fold binit_step [0..<NBUF] (set_next bhead bhead (set_prev bhead bhead bs0))"
  shows "dll bs (rev [0..<NBUF])" "flags (bs b) = flags (bs0 b)" "b_data (bs b) = b_data (bs0 b)"
    "b < NBUF \<Longrightarrow> b_dev (bs b) = - 1"
proof -
  let ?bs0 = "set_next bhead bhead (set_prev bhead bhead bs0)"
  have d: "dll ?bs0 []"
    by (simp add: dll_def link_simps)
  have h: "set [0..<NBUF] \<inter> set [bhead] = {}"
    unfolding set_upt by simp
  show "dll bs (rev [0..<NBUF])" "flags (bs b) = flags (bs0 b)" "b_data (bs b) = b_data (bs0 b)"
    "b < NBUF \<Longrightarrow> b_dev (bs b) = - 1"
    using binit_loop [OF d distinct_upt h, of b] unfolding assms set_upt append_Nil2 by simp_all
qed

lemma binit_spec:
  assumes "calm s" "bss_bufs s"
  shows "\<exists>t. binit s = Ok () t \<and> bio_ok t \<and> blk t = disk s \<and> busy t = {} \<and> dirty t = {} \<and> disk t = disk s \<and>
    wtrace t = wtrace s \<and> disksize t = disksize s \<and> curproc t = curproc s \<and>
    bio_frame (set_lock LkBcache (\<lambda>k. k\<lparr>lname := ''bcache'', locked := 0, lcpu := None\<rparr>) s) t"
proof -
  define bs where "bs = fold binit_step [0..<NBUF] (set_next bhead bhead (set_prev bhead bhead (bufs s)))"
  define t where "t = (set_lock LkBcache (\<lambda>k. k\<lparr>lname := ''bcache'', locked := 0, lcpu := None\<rparr>) s)\<lparr>bufs := bs,
    free_block_number := of_nat NBUF, number_of_block_acsses := 0, number_of_hits := 0\<rparr>"
  have bs: "flags (bs b) = 0" "length (b_data (bs b)) = 512" "b < NBUF \<Longrightarrow> b_dev (bs b) = - 1" for b
    using binit_links [OF bs_def] assms(2) by (simp_all add: bss_bufs_def)
  have none: "bof bs n = None" for n
    unfolding bof_None using bs(3) by auto
  have "uniq bs"
    unfolding uniq_def using bs(3) by auto
  moreover have "idle_count bs = NBUF"
    unfolding idle_count_card bs(1) by simp
  moreover have "buf_ok t (bs b)" if "b < NBUF" for b
    using bs(1,2) bs(3) [OF that] by (simp add: buf_ok_def)
  moreover have "set (rev [0..<NBUF]) = {..<NBUF}"
    unfolding set_rev set_upt by auto
  moreover have "bufs t = bs" "disk t = disk s" "wtrace t = wtrace s" "disksize t = disksize s"
    "free_block_number t = of_nat NBUF"
    by (simp_all add: t_def set_lock_def)
  ultimately have "bio_inv t (rev [0..<NBUF])"
    using binit_links(1) [OF bs_def] assms(2) unfolding bio_inv_def bss_bufs_def by metis
  moreover have "calm t"
    using assms(1) by (simp add: t_def calm_def lock_free_def set_lock_def)
  ultimately have "bio_ok t"
    unfolding bio_ok_def by blast
  moreover have v: "bufs t = bs" "disk t = disk s" "wtrace t = wtrace s" "disksize t = disksize s" "curproc t = curproc s"
    by (simp_all add: t_def set_lock_def curproc_def)
  moreover have "blk t = disk s"
    by (rule ext) (simp add: blk_def none v)
  moreover have "busy t = {}" "dirty t = {}"
    by (simp_all add: busy_def dirty_def none v)
  moreover have "binit s = Ok () t"
    unfolding binit_eq t_def bs_def ..
  moreover have "bio_frame (set_lock LkBcache (\<lambda>k. k\<lparr>lname := ''bcache'', locked := 0, lcpu := None\<rparr>) s) t"
    unfolding t_def by (rule bio_frameI [where pt = "ptable s" and d = "disk s" and w = "wtrace s" and bs = bs and f = "of_nat NBUF"
          and h = 0 and a = 0]) (simp add: set_lock_def)
  ultimately show ?thesis
    by (intro exI [of _ t] conjI)
qed

lemma initlock_views:
  assumes "s' = set_lock l (\<lambda>k. k\<lparr>lname := n, locked := 0, lcpu := None\<rparr>) s"
  shows "bio_ok s \<Longrightarrow> bio_ok s'" "blk s' = blk s" "busy s' = busy s" "dirty s' = dirty s" "disk s' = disk s"
    "wtrace s' = wtrace s" "disksize s' = disksize s"
proof -
  have v: "bufs s' = bufs s" "disk s' = disk s" "wtrace s' = wtrace s" "disksize s' = disksize s" "free_block_number s' = free_block_number s"
    unfolding assms by (simp_all add: set_lock_def)
  then show "busy s' = busy s" "dirty s' = dirty s" "disk s' = disk s" "wtrace s' = wtrace s" "disksize s' = disksize s"
    by (simp_all add: busy_def dirty_def)
  show "blk s' = blk s"
    by (rule ext) (simp add: blk_def v cong: option.case_cong)
  have "calm s \<Longrightarrow> calm s'"
    unfolding assms by (auto simp: calm_def lock_free_def set_lock_def)
  moreover have "bio_inv s' = bio_inv s"
    by (rule ext) (simp add: bio_inv_def buf_ok_def v)
  ultimately show "bio_ok s \<Longrightarrow> bio_ok s'"
    by (auto simp: bio_ok_def)
qed

section \<open>Properties\<close>

lemma bread_busy:
  assumes "bio_ok s" "held s b n" "curproc s = Some p"
  shows "\<exists>t. bread 1 n s = Switch (Some (ChBuf b)) t \<and> bufs t = bufs s \<and> disk t = disk s"
proof -
  obtain xs where xs: "calm s" "bio_inv s xs"
    using assms(1) by (auto simp: bio_ok_def)
  have b: "bof (bufs s) n = Some b" "is_busy (bufs s b)"
    using assms(2) by (simp_all add: held_def)
  let ?u = "s\<lparr>number_of_block_acsses := number_of_block_acsses s + 1\<rparr>"
  have "sleep (ChBuf b) (Some LkBcache) (hold LkBcache ?u) = Switch (Some (ChBuf b))
      (hold LkPtable (upd_proc p (\<lambda>q. q\<lparr>p_chan := Some (ChBuf b), p_state := SLEEPING\<rparr>) ?u))"
    using xs(1) assms(3) by (intro sleep_eq) (simp_all add: curproc_def)
  moreover have "find_next (bufs s) (\<lambda>q. b_dev q = 1 \<and> b_sector q = n) (b_next (bufs s bhead)) = Some (Some b)"
    using bget_search(1) [OF xs(2)] b(1) by simp
  ultimately show ?thesis
    using xs(1) b(2)
    by (simp add: bread_def bget_def bget_loop_def kern_simps acquire_free flag_simps upd_proc_def)
qed

lemma bread_full:
  assumes "bio_ok s" "bof (bufs s) n = None" "\<And>b. b < NBUF \<Longrightarrow> is_busy (bufs s b) \<or> is_dirty (bufs s b)"
  shows "bread 1 n s = Panic ''bget: no buffers''"
proof -
  obtain xs where xs: "calm s" "bio_inv s xs"
    using assms(1) by (auto simp: bio_ok_def)
  have "find (\<lambda>b. \<not> is_busy (bufs s b) \<and> \<not> is_dirty (bufs s b)) (rev xs) = None"
    unfolding find_None_iff using xs(2) assms(3) by (auto simp: bio_inv_def)
  then have "find_prev (bufs s) (\<lambda>q. flags q AND 1 = 0 \<and> flags q AND 4 = 0) (b_prev (bufs s bhead)) = Some None"
    using bget_search(2) [OF xs(2)] by (simp add: flag_simps)
  moreover have "find_next (bufs s) (\<lambda>q. b_dev q = 1 \<and> b_sector q = n) (b_next (bufs s bhead)) = Some None"
    using bget_search(1) [OF xs(2)] assms(2) by simp
  ultimately show ?thesis
    using xs(1) by (simp add: bread_def bget_def bget_loop_def bget_recycle_def kern_simps acquire_free)
qed

text \<open>
  C26 (reading through the cache).  In a consistent state \<open>bread\<close> ends in one of three ways.  A free block, cached
  or with a buffer left to recycle, is returned locked, with its current content, and no other block, in the cache or on the disk, changes.
  A block that is in use puts the caller to sleep on its buffer, with nothing read or written.  When the block is not cached and every
  buffer is in use or not yet written back, the kernel panics.
\<close>

theorem bread_outcomes:
  assumes "bio_ok s" "n < disksize s" "curproc s = Some p"
  shows "(n \<notin> busy s \<and> (n \<in> dirty s \<or> card (busy s \<union> dirty s) < NBUF) \<longrightarrow>
      (\<exists>b t. bread 1 n s = Ok b t \<and> bio_ok t \<and> held t b n \<and> b_data (bufs t b) = blk s n \<and> blk t = blk s \<and>
        disk t = disk s \<and> busy t = insert n (busy s) \<and> dirty t = dirty s)) \<and>
    (\<forall>b. held s b n \<longrightarrow> (\<exists>t. bread 1 n s = Switch (Some (ChBuf b)) t \<and> bufs t = bufs s \<and> disk t = disk s)) \<and>
    (bof (bufs s) n = None \<and> (\<forall>b < NBUF. is_busy (bufs s b) \<or> is_dirty (bufs s b)) \<longrightarrow>
      bread 1 n s = Panic ''bget: no buffers'')"
proof (intro conjI allI impI)
  show "\<exists>b t. bread 1 n s = Ok b t \<and> bio_ok t \<and> held t b n \<and> b_data (bufs t b) = blk s n \<and> blk t = blk s \<and>
      disk t = disk s \<and> busy t = insert n (busy s) \<and> dirty t = dirty s"
    if c: "n \<notin> busy s \<and> (n \<in> dirty s \<or> card (busy s \<union> dirty s) < NBUF)"
  proof -
    obtain b t where "bread 1 n s = Ok b t" "bio_ok t" "held t b n" "blk t = blk s" "busy t = insert n (busy s)"
      "dirty t = dirty s" "disk t = disk s"
      using bread_spec [OF assms(1,2)] c by blast
    then show ?thesis
      using bc.hold_data [of t b n] by auto
  qed
qed (use bread_busy [OF assms(1) _ assms(3)] bread_full [OF assms(1)] in blast)+

text \<open>
  C27 (write back and re-read).  After a block has been read, changed, written and released, the disk holds the new content, the
  cache is as free as before, and the next \<open>bread\<close> of the block returns the new content.
\<close>

theorem bwrite_read_back:
  assumes "bio_ok s" "n < disksize s" "busy s = {}" "card (dirty s) < NBUF" "length d = 512"
  shows "\<exists>t. bnd (bread 1 n) (\<lambda>b. thn (md (upd_buf b (\<lambda>q. q\<lparr>b_data := d\<rparr>))) (thn (bwrite b) (brelse b))) s = Ok () t \<and>
    bio_ok t \<and> busy t = {} \<and> disk t = (disk s)(n := d) \<and> blk t = (blk s)(n := d) \<and> dirty t = dirty s - {n} \<and>
    (\<exists>b u. bread 1 n t = Ok b u \<and> b_data (bufs u b) = d)"
proof -
  obtain b u where 1: "bread 1 n s = Ok b u" "bio_frame s u" "bio_ok u" "held u b n" "blk u = blk s" "busy u = {n}"
      "dirty u = dirty s" "disk u = disk s"
    using bread_spec [OF assms(1,2)] assms(3,4) by auto
  let ?v = "upd_buf b (\<lambda>q. q\<lparr>b_data := d\<rparr>) u"
  have 2: "bio_frame u ?v" "bio_ok ?v" "held ?v b n" "blk ?v = (blk s)(n := d)" "busy ?v = {n}" "dirty ?v = dirty s" "disk ?v = disk s"
    using set_data_spec [OF 1(3,4) assms(5)] 1 by simp_all
  obtain w where 3: "bwrite b ?v = Ok () w" "bio_frame ?v w" "bio_ok w" "held w b n" "blk w = (blk s)(n := d)" "busy w = {n}"
      "dirty w = dirty s - {n}" "disk w = (disk s)(n := d)"
    using bwrite_spec [OF 2(2,3)] 2 by auto
  obtain t where 4: "brelse b w = Ok () t" "bio_frame w t" "bio_ok t" "blk t = (blk s)(n := d)" "busy t = {}"
      "dirty t = dirty s - {n}" "disk t = (disk s)(n := d)"
    using brelse_spec [OF 3(3,4)] 3 by auto
  have "disksize t = disksize s"
    using bio_frame_same(1) 1(2) 2(1) 3(2) 4(2) by metis
  moreover have "card (busy t \<union> dirty t) < NBUF"
    using 4(5,6) assms(4) busy_dirty_finite [of s] card_Diff1_le [of "dirty s" n] by simp
  ultimately obtain c x where "bread 1 n t = Ok c x" "bio_ok x" "held x c n" "blk x = blk t"
    using bread_spec [OF 4(3), of n] 4(5) assms(2) by auto
  then have "\<exists>b u. bread 1 n t = Ok b u \<and> b_data (bufs u b) = d"
    using bc.hold_data [of x c n] 4(4) by auto
  then show ?thesis
    using 1 3 4 by (intro exI [of _ t]) (simp add: kern_simps)
qed

text \<open>
  C28 (replacement and statistics).  With the buffers in order of their last release, most recent first: a hit keeps the order and counts
  as hit and access; a miss takes the least recently released buffer that is neither in use nor dirty and counts as access only;
  a release moves the buffer to the front.  In all cases the counter of free buffers equals the number of buffers not in use.
\<close>

theorem cache_lru_statistics:
  assumes "calm s" "bio_inv s xs"
  shows "(\<forall>n b. bof (bufs s) n = Some b \<and> \<not> is_busy (bufs s b) \<longrightarrow>
      (\<exists>t. bread 1 n s = Ok b t \<and> bio_inv t xs \<and> number_of_hits t = number_of_hits s + 1 \<and>
        number_of_block_acsses t = number_of_block_acsses s + 1 \<and> free_block_number t = of_nat (idle_count (bufs t)))) \<and>
    (\<forall>n b. bof (bufs s) n = None \<and> n < disksize s \<and> card (busy s \<union> dirty s) < NBUF \<and>
        find (\<lambda>b. \<not> is_busy (bufs s b) \<and> \<not> is_dirty (bufs s b)) (rev xs) = Some b \<longrightarrow>
      (\<exists>t. bread 1 n s = Ok b t \<and> bio_inv t xs \<and> number_of_hits t = number_of_hits s \<and>
        number_of_block_acsses t = number_of_block_acsses s + 1 \<and> free_block_number t = of_nat (idle_count (bufs t)))) \<and>
    (\<forall>n b. held s b n \<and> (n \<in> dirty s \<or> blk s n = disk s n) \<longrightarrow>
      (\<exists>t. brelse b s = Ok () t \<and> bio_inv t (b # remove1 b xs) \<and> free_block_number t = of_nat (idle_count (bufs t))))"
proof (intro conjI allI impI)
  have cnt: "bio_inv t ys \<Longrightarrow> free_block_number t = of_nat (idle_count (bufs t))" for t :: "'a bio_st_scheme" and ys
    by (simp add: bio_inv_def)
  fix n b
  show "\<exists>t. bread 1 n s = Ok b t \<and> bio_inv t xs \<and> number_of_hits t = number_of_hits s + 1 \<and>
        number_of_block_acsses t = number_of_block_acsses s + 1 \<and> free_block_number t = of_nat (idle_count (bufs t))"
    if c: "bof (bufs s) n = Some b \<and> \<not> is_busy (bufs s b)"
  proof -
    have "n \<notin> busy s"
      using c by (simp add: busy_def)
    then obtain t where t: "bread 1 n s = Ok b t" "bio_inv t xs"
      using bread_spec_hit [OF assms] c by blast
    then show ?thesis
      using bread_hit [OF assms, of n b] c cnt [OF t(2)] by (intro exI [of _ t]) auto
  qed
  show "\<exists>t. bread 1 n s = Ok b t \<and> bio_inv t xs \<and> number_of_hits t = number_of_hits s \<and>
        number_of_block_acsses t = number_of_block_acsses s + 1 \<and> free_block_number t = of_nat (idle_count (bufs t))"
    if c: "bof (bufs s) n = None \<and> n < disksize s \<and> card (busy s \<union> dirty s) < NBUF \<and>
        find (\<lambda>b. \<not> is_busy (bufs s b) \<and> \<not> is_dirty (bufs s b)) (rev xs) = Some b"
  proof -
    obtain b' t where t: "bread 1 n s = Ok b' t" "bio_inv t xs"
      using bread_spec_miss [OF assms, of n] c by auto
    then show ?thesis
      using bread_miss [OF assms, of n b] c cnt [OF t(2)] by (intro exI [of _ t]) auto
  qed
  show "\<exists>t. brelse b s = Ok () t \<and> bio_inv t (b # remove1 b xs) \<and> free_block_number t = of_nat (idle_count (bufs t))"
    if c: "held s b n \<and> (n \<in> dirty s \<or> blk s n = disk s n)"
    using brelse_order [OF assms] c cnt by blast
qed

definition disk_boot :: bio_st where
  "disk_boot = sched_st.extend sched_user (bio_st.fields
     (\<lambda>_. \<lparr>flags = 0, b_dev = 0, b_sector = 0, b_prev = 0, b_next = 0, b_qnext = None, b_data = replicate 512 0\<rparr>)
     0 0 0 (\<lambda>n. replicate 512 (ucast n)) 1000 [])"

lemma disk_boot_facts: "calm disk_boot" "bss_bufs disk_boot" "disksize disk_boot = 1000" "curproc disk_boot = Some 1"
  "disk disk_boot n = replicate 512 (ucast n)"
  by (simp_all add: disk_boot_def sched_st.extend_def bio_st.fields_def boot_simps bss_bufs_def calm_def lock_free_def curproc_def)

theorem bread_outcomes_witness:
  "\<exists>s b t. binit disk_boot = Ok () s \<and> bread 1 7 s = Ok b t \<and> b_data (bufs t b) = replicate 512 7 \<and> busy t = {7}"
proof -
  obtain s where s: "binit disk_boot = Ok () s" "bio_ok s" "blk s = disk disk_boot" "busy s = {}" "dirty s = {}"
    "disksize s = 1000" "curproc s = Some 1"
    using binit_spec [OF disk_boot_facts(1,2)] disk_boot_facts by auto
  then show ?thesis
    using bread_outcomes [of s 7 1] disk_boot_facts(5) [of 7] by auto
qed

theorem bwrite_read_back_witness:
  "\<exists>s t. binit disk_boot = Ok () s \<and>
    bnd (bread 1 7) (\<lambda>b. thn (md (upd_buf b (\<lambda>q. q\<lparr>b_data := replicate 512 9\<rparr>))) (thn (bwrite b) (brelse b))) s = Ok () t \<and>
    disk t 7 = replicate 512 9"
proof -
  obtain s where s: "binit disk_boot = Ok () s" "bio_ok s" "busy s = {}" "dirty s = {}" "disksize s = 1000"
    using binit_spec [OF disk_boot_facts(1,2)] disk_boot_facts by auto
  then show ?thesis
    using bwrite_read_back [of s 7 "replicate 512 9"] by auto
qed

theorem cache_lru_statistics_witness:
  "\<exists>s xs t b. binit disk_boot = Ok () s \<and> bio_inv s xs \<and> bread 1 7 s = Ok b t \<and>
    number_of_block_acsses t = number_of_block_acsses s + 1 \<and> free_block_number t = of_nat (idle_count (bufs t))"
proof -
  obtain s where s: "binit disk_boot = Ok () s" "bio_ok s" "busy s = {}" "dirty s = {}" "disksize s = 1000" "blk s = disk disk_boot"
    using binit_spec [OF disk_boot_facts(1,2)] disk_boot_facts by auto
  then obtain xs where xs: "calm s" "bio_inv s xs"
    by (auto simp: bio_ok_def)
  obtain b where b: "find (\<lambda>b. \<not> is_busy (bufs s b) \<and> \<not> is_dirty (bufs s b)) (rev xs) = Some b"
    by (rule idle_buffer [OF xs(2)]) (use s in simp_all)
  note all = cache_lru_statistics [OF xs]
  show ?thesis
  proof (cases "bof (bufs s) 7")
    case None
    then show ?thesis
      using all [THEN conjunct2, THEN conjunct1, rule_format, of 7 b] b s xs by auto
  next
    case (Some c)
    then have "\<not> is_busy (bufs s c)"
      using s(3) by (auto simp: busy_def)
    with Some show ?thesis
      using all [THEN conjunct1, rule_format, of 7 c] s xs by auto
  qed
qed

end
