(* ===== verification/Log.thy ===== *)
theory Log
  imports Cache
begin

text \<open>
  \<^verbatim>\<open>src/log.c\<close>: the write-ahead log.  The in-memory \<^verbatim>\<open>struct log\<close> is the record extension \<open>log_st\<close>; the header
  block of the disk log is read and written through \<open>hdr_n\<close>, \<open>hdr_sector\<close> and \<open>put_header\<close> at the offsets of
  \<^verbatim>\<open>struct logheader\<close>.  A wait in \<^verbatim>\<open>begin_op\<close> is a context switch; \<open>begin_op_loop\<close> is what runs again after it.
\<close>

section \<open>Super block\<close>

record superblock =
  sb_size :: uint32
  sb_nblocks :: uint32
  sb_ninodes :: uint32
  sb_nlog :: uint32

definition decode_sb :: "uchar list \<Rightarrow> superblock" where
  "decode_sb d = \<lparr>sb_size = of_le32 (slice 0 4 d), sb_nblocks = of_le32 (slice 4 4 d),
     sb_ninodes = of_le32 (slice 8 4 d), sb_nlog = of_le32 (slice 12 4 d)\<rparr>"

definition readsb :: "uint32 \<Rightarrow> (superblock, 'z bio_st_scheme) kern" where
  "readsb dev =
     bnd (bread dev 1) (\<lambda>b.
     bnd (rd (\<lambda>s. b_data (bufs s b))) (\<lambda>d.
     thn (brelse b) (ret (decode_sb d))))"

section \<open>State\<close>

record log_st = bio_st +
  log_start :: uint32
  log_size :: uint32
  log_dev :: uint32
  log_outstanding :: int
  log_committing :: bool
  log_n :: int
  log_sector :: "uint32 list"

definition hdr_n :: "uchar list \<Rightarrow> int" where
  "hdr_n d = sint (of_le32 (slice 0 4 d))"

definition hdr_sector :: "uchar list \<Rightarrow> nat \<Rightarrow> uint32" where
  "hdr_sector d i = of_le32 (slice (4 + 4 * i) 4 d)"

fun put_sectors :: "nat \<Rightarrow> uint32 list \<Rightarrow> uchar list \<Rightarrow> uchar list" where
  "put_sectors i [] d = d"
| "put_sectors i (x # xs) d = put_sectors (Suc i) xs (splice (4 + 4 * i) (le32 x) d)"

definition put_header :: "int \<Rightarrow> uint32 list \<Rightarrow> uchar list \<Rightarrow> uchar list" where
  "put_header n xs d = put_sectors 0 (take (nat n) xs) (splice 0 (le32 (of_int n)) d)"

section \<open>Operations\<close>

text \<open>The bodies of the loops of \<^verbatim>\<open>install_trans\<close> and \<^verbatim>\<open>write_log\<close>.\<close>

definition install_block :: "nat \<Rightarrow> (unit, 'z log_st_scheme) kern" where
  "install_block tail =
     bnd (rd log_dev) (\<lambda>dev.
     bnd (rd (\<lambda>s. log_start s + of_nat tail + 1)) (\<lambda>lb.
     bnd (bread dev lb) (\<lambda>lbuf.
     bnd (rd (\<lambda>s. log_sector s ! tail)) (\<lambda>db.
     bnd (bread dev db) (\<lambda>dbuf.
     thn (md (\<lambda>s. upd_buf dbuf (\<lambda>q. q\<lparr>b_data := b_data (bufs s lbuf)\<rparr>) s)) (
     thn (bwrite dbuf) (
     thn (brelse lbuf) (
     brelse dbuf))))))))"

definition install_trans :: "(unit, 'z log_st_scheme) kern" where
  "install_trans = bnd (rd log_n) (\<lambda>n. for_each [0..<nat n] install_block)"

definition read_head :: "(unit, 'z log_st_scheme) kern" where
  "read_head =
     bnd (rd log_dev) (\<lambda>dev.
     bnd (rd log_start) (\<lambda>start.
     bnd (bread dev start) (\<lambda>b.
     bnd (rd (\<lambda>s. b_data (bufs s b))) (\<lambda>d.
     thn (md (\<lambda>s. s\<lparr>log_n := hdr_n d\<rparr>)) (
     thn (for_each [0..<nat (hdr_n d)] (\<lambda>i.
            if i < LOGSIZE then md (\<lambda>s. s\<lparr>log_sector := (log_sector s)[i := hdr_sector d i]\<rparr>)
            else fault ''log.lh.sector out of bounds'')) (
     brelse b))))))"

definition write_head :: "(unit, 'z log_st_scheme) kern" where
  "write_head =
     bnd (rd log_dev) (\<lambda>dev.
     bnd (rd log_start) (\<lambda>start.
     bnd (bread dev start) (\<lambda>b.
     thn (md (\<lambda>s. upd_buf b (\<lambda>q. q\<lparr>b_data := put_header (log_n s) (log_sector s) (b_data q)\<rparr>) s)) (
     thn (bwrite b) (
     brelse b)))))"

definition recover_from_log :: "(unit, 'z log_st_scheme) kern" where
  "recover_from_log =
     thn read_head (
     thn install_trans (
     thn (md (\<lambda>s. s\<lparr>log_n := 0\<rparr>)) (
     write_head)))"

definition initlog :: "(unit, 'z log_st_scheme) kern" where
  "initlog =
     (if 4 * (LOGSIZE + 1) \<ge> BSIZE then panic ''initlog: too big logheader''
      else
        thn (initlock LkLog ''log'') (
        bnd (readsb ROOTDEV) (\<lambda>sb.
        thn (md (\<lambda>s. s\<lparr>log_start := sb_size sb - sb_nlog sb\<rparr>)) (
        thn (md (\<lambda>s. s\<lparr>log_size := sb_nlog sb\<rparr>)) (
        thn (md (\<lambda>s. s\<lparr>log_dev := ROOTDEV\<rparr>)) (
        recover_from_log))))))"

text \<open>The body of the loop of \<^verbatim>\<open>begin_op\<close>, entered with \<^verbatim>\<open>log.lock\<close> held, at first and after each wait.\<close>

definition begin_op_loop :: "(unit, 'z log_st_scheme) kern" where
  "begin_op_loop =
     bnd (rd log_committing) (\<lambda>c.
     if c then thn (sleep ChLog (Some LkLog)) (fault ''sleep returned'')
     else bnd (rd (\<lambda>s. log_n s + (log_outstanding s + 1) * of_nat MAXOPBLOCKS)) (\<lambda>need.
     if need > of_nat LOGSIZE then thn (sleep ChLog (Some LkLog)) (fault ''sleep returned'')
     else
       thn (md (\<lambda>s. s\<lparr>log_outstanding := log_outstanding s + 1\<rparr>))
       (release LkLog)))"

definition begin_op :: "(unit, 'z log_st_scheme) kern" where
  "begin_op = thn (acquire LkLog) begin_op_loop"

definition begin_op_resume :: "bool \<Rightarrow> (unit, 'z log_st_scheme) kern" where
  "begin_op_resume i = thn (sleep_resume LkLog i) begin_op_loop"

definition write_log_block :: "nat \<Rightarrow> (unit, 'z log_st_scheme) kern" where
  "write_log_block tail =
     bnd (rd log_dev) (\<lambda>dev.
     bnd (rd (\<lambda>s. log_start s + of_nat tail + 1)) (\<lambda>lb.
     bnd (bread dev lb) (\<lambda>to.
     bnd (rd (\<lambda>s. log_sector s ! tail)) (\<lambda>db.
     bnd (bread dev db) (\<lambda>from.
     thn (md (\<lambda>s. upd_buf to (\<lambda>q. q\<lparr>b_data := b_data (bufs s from)\<rparr>) s)) (
     thn (bwrite to) (
     thn (brelse from) (
     brelse to))))))))"

definition write_log :: "(unit, 'z log_st_scheme) kern" where
  "write_log = bnd (rd log_n) (\<lambda>n. for_each [0..<nat n] write_log_block)"

definition commit :: "(unit, 'z log_st_scheme) kern" where
  "commit =
     bnd (rd log_n) (\<lambda>n.
     whenk (n > 0) (
       thn write_log (
       thn write_head (
       thn install_trans (
       thn (md (\<lambda>s. s\<lparr>log_n := 0\<rparr>)) (
       write_head))))))"

definition end_op :: "(unit, 'z log_st_scheme) kern" where
  "end_op =
     thn (acquire LkLog) (
     thn (md (\<lambda>s. s\<lparr>log_outstanding := log_outstanding s - 1\<rparr>)) (
     bnd (rd log_committing) (\<lambda>c.
     if c then panic ''log.committing''
     else bnd (rd log_outstanding) (\<lambda>o'.
     bnd (if o' = 0 then thn (md (\<lambda>s. s\<lparr>log_committing := True\<rparr>)) (ret True)
          else thn (wakeup ChLog) (ret False)) (\<lambda>do_commit.
     thn (release LkLog) (
     whenk do_commit (
       thn commit (
       thn (acquire LkLog) (
       thn (md (\<lambda>s. s\<lparr>log_committing := False\<rparr>)) (
       thn (wakeup ChLog) (
       release LkLog)))))))))))"

definition log_write :: "nat \<Rightarrow> (unit, 'z log_st_scheme) kern" where
  "log_write b =
     bnd (rd log_n) (\<lambda>n.
     bnd (rd log_size) (\<lambda>size.
     if n \<ge> of_nat LOGSIZE \<or> n \<ge> sint size - 1 then panic ''too big a transaction''
     else bnd (rd log_outstanding) (\<lambda>o'.
     if o' < 1 then panic ''log_write outside of trans''
     else
       thn (acquire LkLog) (
       bnd (rd (\<lambda>s. b_sector (bufs s b))) (\<lambda>sec.
       bnd (rd (\<lambda>s. find (\<lambda>i. log_sector s ! i = sec) [0..<nat (log_n s)])) (\<lambda>r.
       bnd (rd (\<lambda>s. case r of Some i \<Rightarrow> i | None \<Rightarrow> nat (log_n s))) (\<lambda>i.
       thn (md (\<lambda>s. s\<lparr>log_sector := (log_sector s)[i := sec]\<rparr>)) (
       thn (md (\<lambda>s. if int i = log_n s then s\<lparr>log_n := log_n s + 1\<rparr> else s)) (
       thn (md (upd_buf b (\<lambda>q. q\<lparr>flags := flags q OR B_DIRTY\<rparr>))) (
       release LkLog))))))))))"

section \<open>Frame lemmas\<close>

lemma hold_log [simp]:
  "log_start_update g0 (hold l s) = hold l (log_start_update g0 s)" "log_start (hold l s) = log_start s"
  "log_size_update g1 (hold l s) = hold l (log_size_update g1 s)" "log_size (hold l s) = log_size s"
  "log_dev_update g2 (hold l s) = hold l (log_dev_update g2 s)" "log_dev (hold l s) = log_dev s"
  "log_outstanding_update g3 (hold l s) = hold l (log_outstanding_update g3 s)" "log_outstanding (hold l s) = log_outstanding s"
  "log_committing_update g4 (hold l s) = hold l (log_committing_update g4 s)" "log_committing (hold l s) = log_committing s"
  "log_n_update g5 (hold l s) = hold l (log_n_update g5 s)" "log_n (hold l s) = log_n s"
  "log_sector_update g6 (hold l s) = hold l (log_sector_update g6 s)" "log_sector (hold l s) = log_sector s"
  by (simp_all add: hold_def set_lock_def set_cpu_def)

lemma calm_log [simp]:
  "calm (log_start_update g0 s) = calm s" "inside (log_start_update g0 s) = inside s"
  "lock_free l (log_start_update g0 s) = lock_free l s"
  "calm (log_size_update g1 s) = calm s" "inside (log_size_update g1 s) = inside s"
  "lock_free l (log_size_update g1 s) = lock_free l s"
  "calm (log_dev_update g2 s) = calm s" "inside (log_dev_update g2 s) = inside s"
  "lock_free l (log_dev_update g2 s) = lock_free l s"
  "calm (log_outstanding_update g3 s) = calm s" "inside (log_outstanding_update g3 s) = inside s"
  "lock_free l (log_outstanding_update g3 s) = lock_free l s"
  "calm (log_committing_update g4 s) = calm s" "inside (log_committing_update g4 s) = inside s"
  "lock_free l (log_committing_update g4 s) = lock_free l s"
  "calm (log_n_update g5 s) = calm s" "inside (log_n_update g5 s) = inside s"
  "lock_free l (log_n_update g5 s) = lock_free l s"
  "calm (log_sector_update g6 s) = calm s" "inside (log_sector_update g6 s) = inside s"
  "lock_free l (log_sector_update g6 s) = lock_free l s"
  by (simp_all add: calm_def inside_def lock_free_def)

lemma bio_frame_log:
  assumes "bio_frame s t"
  shows "log_start t = log_start s" "log_size t = log_size s" "log_dev t = log_dev s" "log_n t = log_n s"
    "log_outstanding t = log_outstanding s" "log_committing t = log_committing s" "log_sector t = log_sector s"
  using assms unfolding bio_frame_def by auto

lemma bio_frame_curproc:
  assumes "bio_frame s t"
  shows "curproc t = curproc s"
  using assms unfolding bio_frame_def by (auto simp: curproc_def)

lemma bio_views_log [simp]:
  "bio_ok (log_n_update f s) = bio_ok s" "blk (log_n_update f s) = blk s" "busy (log_n_update f s) = busy s"
  "dirty (log_n_update f s) = dirty s"
  "bio_ok (log_sector_update g s) = bio_ok s" "blk (log_sector_update g s) = blk s" "busy (log_sector_update g s) = busy s"
  "dirty (log_sector_update g s) = dirty s"
  "held (log_n_update f s) = held s" "held (log_sector_update g s) = held s"
  by (auto simp: held_def bio_ok_def bio_inv_def buf_ok_def blk_def busy_def dirty_def fun_eq_iff cong: option.case_cong)

section \<open>Copying between the log and the home locations\<close>

definition lblock :: "'z log_st_scheme \<Rightarrow> nat \<Rightarrow> uint32" where
  "lblock s i = log_start s + of_nat i + 1"

definition apply_writes :: "(uint32 \<times> uchar list) list \<Rightarrow> (uint32 \<Rightarrow> uchar list) \<Rightarrow> uint32 \<Rightarrow> uchar list" where
  "apply_writes ws d = fold (\<lambda>(n, x) d. d(n := x)) ws d"

lemma apply_writes_simps [simp]:
  "apply_writes [] d = d" "apply_writes (w # ws) d = apply_writes ws (d(fst w := snd w))"
  "apply_writes (vs @ ws) d = apply_writes ws (apply_writes vs d)"
  by (simp_all add: apply_writes_def case_prod_beta)

lemma apply_writes_other: "m \<notin> fst ` set ws \<Longrightarrow> apply_writes ws d m = d m"
  by (induction ws arbitrary: d) auto

text \<open>Both blocks of an entry can be taken.\<close>

definition entry_ok :: "'z log_st_scheme \<Rightarrow> nat \<Rightarrow> bool" where
  "entry_ok s i = (lblock s i < disksize s \<and> log_sector s ! i < disksize s \<and> lblock s i \<noteq> log_sector s ! i)"

definition quiet :: "'z log_st_scheme \<Rightarrow> bool" where
  "quiet s = (bio_ok s \<and> busy s = {} \<and> log_dev s = 1)"

lemma take_entry:
  assumes "quiet s" "entry_ok s i" "card (dirty s) + 1 < NBUF \<or> log_sector s ! i \<in> dirty s \<and> card (dirty s) < NBUF"
  obtains b c t u where "bread 1 (lblock s i) s = Ok b t" "bio_frame s t" "bread 1 (log_sector s ! i) t = Ok c u" "bio_frame s u" "bio_ok u"
    "held u b (lblock s i)" "held u c (log_sector s ! i)" "blk u = blk s" "busy u = {lblock s i, log_sector s ! i}"
    "dirty u = dirty s" "disk u = disk s" "wtrace u = wtrace s"
proof -
  have "\<exists>b c t. bread 1 (lblock s i) s = Ok b t \<and> bio_frame s t \<and> (\<exists>u. bread 1 (log_sector s ! i) t = Ok c u \<and> bio_frame s u \<and>
    bio_ok u \<and> held u b (lblock s i) \<and> held u c (log_sector s ! i) \<and> blk u = blk s \<and>
    busy u = {lblock s i, log_sector s ! i} \<and> dirty u = dirty s \<and> disk u = disk s \<and> wtrace u = wtrace s)"
    by (rule bc.get_two) (use assms in \<open>auto simp: quiet_def entry_ok_def\<close>)
  then show thesis
    by (elim exE conjE) (rule that)
qed

lemma install_step:
  assumes "quiet s" "entry_ok s i" "card (dirty s) + 1 < NBUF \<or> log_sector s ! i \<in> dirty s \<and> card (dirty s) < NBUF"
  shows "\<exists>t. install_block i s = Ok () t \<and> bio_frame s t \<and> quiet t \<and>
    blk t = (blk s)(log_sector s ! i := blk s (lblock s i)) \<and> dirty t = dirty s - {log_sector s ! i} \<and>
    disk t = (disk s)(log_sector s ! i := blk s (lblock s i)) \<and> wtrace t = wtrace s @ [(log_sector s ! i, blk s (lblock s i))]"
proof -
  obtain b c t u where 1: "bread 1 (lblock s i) s = Ok b t" "bio_frame s t" "bread 1 (log_sector s ! i) t = Ok c u" "bio_frame s u" "bio_ok u"
    "held u b (lblock s i)" "held u c (log_sector s ! i)" "blk u = blk s" "busy u = {lblock s i, log_sector s ! i}"
    "dirty u = dirty s" "disk u = disk s" "wtrace u = wtrace s"
    by (rule take_entry [OF assms])
  have c: "lblock s i \<in> dirty u \<or> blk u (lblock s i) = disk u (lblock s i)"
    using 1 blk_coherent [of s "lblock s i"] assms(1) by (auto simp: quiet_def)
  have "\<exists>v. thn (md (\<lambda>s. upd_buf c (\<lambda>q. q\<lparr>b_data := b_data (bufs s b)\<rparr>) s)) (
       thn (bwrite c) (thn (brelse b) (brelse c))) u = Ok () v \<and> bio_frame u v \<and> bio_ok v \<and>
    blk v = (blk u)(log_sector s ! i := blk u (lblock s i)) \<and> busy v = {} \<and> dirty v = dirty u - {log_sector s ! i} \<and>
    disk v = (disk u)(log_sector s ! i := blk u (lblock s i)) \<and> wtrace v = wtrace u @ [(log_sector s ! i, blk u (lblock s i))]"
    by (rule bc.copy_held [OF 1(5,7,6) _ _ c]) (use assms(2) 1(9) in \<open>auto simp: entry_ok_def\<close>)
  then obtain v where v: "thn (md (\<lambda>s. upd_buf c (\<lambda>q. q\<lparr>b_data := b_data (bufs s b)\<rparr>) s)) (
       thn (bwrite c) (thn (brelse b) (brelse c))) u = Ok () v" "bio_frame u v" "bio_ok v" "busy v = {}"
    "blk v = (blk s)(log_sector s ! i := blk s (lblock s i))" "dirty v = dirty s - {log_sector s ! i}"
    "disk v = (disk s)(log_sector s ! i := blk s (lblock s i))" "wtrace v = wtrace s @ [(log_sector s ! i, blk s (lblock s i))]"
    unfolding 1(8,10-12) by (elim exE conjE)
  note f = bio_frame_trans [OF 1(4) v(2)]
  have dev: "log_dev s = 1"
    using assms(1) by (simp add: quiet_def)
  have "install_block i s = Ok () v"
    unfolding install_block_def bnd_rd dev using 1(1,3) v(1) bio_frame_log(7) [OF 1(2)]
    by (simp add: kern_simps lblock_def)
  then show ?thesis
    using v f dev bio_frame_log(3) [OF f] by (intro exI [of _ v]) (simp add: quiet_def)
qed

lemma write_log_step:
  assumes "quiet s" "entry_ok s i" "log_sector s ! i \<in> dirty s" "card (dirty s) < NBUF" "lblock s i \<notin> dirty s"
  shows "\<exists>t. write_log_block i s = Ok () t \<and> bio_frame s t \<and> quiet t \<and>
    blk t = (blk s)(lblock s i := blk s (log_sector s ! i)) \<and> dirty t = dirty s \<and>
    disk t = (disk s)(lblock s i := blk s (log_sector s ! i)) \<and> wtrace t = wtrace s @ [(lblock s i, blk s (log_sector s ! i))]"
proof -
  obtain b c t u where 1: "bread 1 (lblock s i) s = Ok b t" "bio_frame s t" "bread 1 (log_sector s ! i) t = Ok c u" "bio_frame s u" "bio_ok u"
    "held u b (lblock s i)" "held u c (log_sector s ! i)" "blk u = blk s" "busy u = {lblock s i, log_sector s ! i}"
    "dirty u = dirty s" "disk u = disk s" "wtrace u = wtrace s"
    by (rule take_entry [OF assms(1,2)]) (use assms(3,4) in blast)
  have c: "log_sector s ! i \<in> dirty u \<or> blk u (log_sector s ! i) = disk u (log_sector s ! i)"
    using 1 assms(3) by simp
  have "\<exists>v. thn (md (\<lambda>s. upd_buf b (\<lambda>q. q\<lparr>b_data := b_data (bufs s c)\<rparr>) s)) (
       thn (bwrite b) (thn (brelse c) (brelse b))) u = Ok () v \<and> bio_frame u v \<and> bio_ok v \<and>
    blk v = (blk u)(lblock s i := blk u (log_sector s ! i)) \<and> busy v = {} \<and> dirty v = dirty u - {lblock s i} \<and>
    disk v = (disk u)(lblock s i := blk u (log_sector s ! i)) \<and> wtrace v = wtrace u @ [(lblock s i, blk u (log_sector s ! i))]"
    by (rule bc.copy_held [OF 1(5,6,7) _ _ c]) (use assms(2) 1(9) in \<open>auto simp: entry_ok_def\<close>)
  then obtain v where v: "thn (md (\<lambda>s. upd_buf b (\<lambda>q. q\<lparr>b_data := b_data (bufs s c)\<rparr>) s)) (
       thn (bwrite b) (thn (brelse c) (brelse b))) u = Ok () v" "bio_frame u v" "bio_ok v" "busy v = {}"
    "blk v = (blk s)(lblock s i := blk s (log_sector s ! i))" "dirty v = dirty s - {lblock s i}"
    "disk v = (disk s)(lblock s i := blk s (log_sector s ! i))" "wtrace v = wtrace s @ [(lblock s i, blk s (log_sector s ! i))]"
    unfolding 1(8,10-12) by (elim exE conjE)
  note f = bio_frame_trans [OF 1(4) v(2)]
  have dev: "log_dev s = 1"
    using assms(1) by (simp add: quiet_def)
  have "write_log_block i s = Ok () v"
    unfolding write_log_block_def bnd_rd dev using 1(1,3) v(1) bio_frame_log(7) [OF 1(2)]
    by (simp add: kern_simps lblock_def)
  then show ?thesis
    using v f dev bio_frame_log(3) [OF f] assms(5) by (intro exI [of _ v]) (simp add: quiet_def)
qed

section \<open>The loops\<close>

definition homes :: "'z log_st_scheme \<Rightarrow> nat list \<Rightarrow> (uint32 \<times> uchar list) list" where
  "homes s ts = map (\<lambda>i. (log_sector s ! i, blk s (lblock s i))) ts"

definition copies :: "'z log_st_scheme \<Rightarrow> nat list \<Rightarrow> (uint32 \<times> uchar list) list" where
  "copies s ts = map (\<lambda>i. (lblock s i, blk s (log_sector s ! i))) ts"

lemma lblock_frame: "bio_frame s t \<Longrightarrow> lblock t = lblock s"
  by (rule ext) (simp add: lblock_def bio_frame_log)

lemma entry_ok_frame: "bio_frame s t \<Longrightarrow> entry_ok t = entry_ok s"
  by (rule ext) (simp add: entry_ok_def lblock_frame bio_frame_log(7) bc.frame_size)

lemma install_loop:
  assumes "quiet s" "\<forall>i \<in> set ts. entry_ok s i \<and> (\<forall>j \<in> set ts. lblock s i \<noteq> log_sector s ! j)"
    "card (dirty s) + 1 < NBUF \<or> ts \<noteq> [] \<and> log_sector s ! hd ts \<in> dirty s \<and> card (dirty s) < NBUF \<or> ts = []"
  shows "\<exists>t. for_each ts install_block s = Ok () t \<and> bio_frame s t \<and> quiet t \<and> blk t = apply_writes (homes s ts) (blk s) \<and>
    disk t = apply_writes (homes s ts) (disk s) \<and> wtrace t = wtrace s @ homes s ts \<and> dirty t = dirty s - (nth (log_sector s)) ` set ts"
  using assms
proof (induction ts arbitrary: s)
  case Nil
  then show ?case
    using bc.frame_refl [of s] by (intro exI [of _ s]) (simp add: homes_def)
next
  case (Cons i ts)
  have "\<exists>t. install_block i s = Ok () t \<and> bio_frame s t \<and> quiet t \<and>
    blk t = (blk s)(log_sector s ! i := blk s (lblock s i)) \<and> dirty t = dirty s - {log_sector s ! i} \<and>
    disk t = (disk s)(log_sector s ! i := blk s (lblock s i)) \<and> wtrace t = wtrace s @ [(log_sector s ! i, blk s (lblock s i))]"
    by (rule install_step) (use Cons.prems in auto)
  then obtain t where t: "install_block i s = Ok () t" "bio_frame s t" "quiet t"
    "blk t = (blk s)(log_sector s ! i := blk s (lblock s i))" "dirty t = dirty s - {log_sector s ! i}"
    "disk t = (disk s)(log_sector s ! i := blk s (lblock s i))" "wtrace t = wtrace s @ [(log_sector s ! i, blk s (lblock s i))]"
    by (elim exE conjE)
  have fin: "finite (dirty s)"
    using busy_dirty_finite [of s] by simp
  have room: "card (dirty t) + 1 < NBUF"
    using Cons.prems(3) fin unfolding t(5) by (auto simp: card_Diff_singleton_if card_gt_0_iff)
  have h: "homes t ts = homes s ts"
    using Cons.prems(2) by (auto simp: homes_def lblock_frame [OF t(2)] bio_frame_log(7) [OF t(2)] t(4))
  have "\<exists>u. for_each ts install_block t = Ok () u \<and> bio_frame t u \<and> quiet u \<and> blk u = apply_writes (homes t ts) (blk t) \<and>
    disk u = apply_writes (homes t ts) (disk t) \<and> wtrace u = wtrace t @ homes t ts \<and> dirty u = dirty t - (nth (log_sector t)) ` set ts"
    by (rule Cons.IH [OF t(3)])
      (use Cons.prems(2) room in \<open>auto simp: entry_ok_frame [OF t(2)] lblock_frame [OF t(2)] bio_frame_log(7) [OF t(2)]\<close>)
  then obtain u where u: "for_each ts install_block t = Ok () u" "bio_frame t u" "quiet u" "blk u = apply_writes (homes s ts) (blk t)"
    "disk u = apply_writes (homes s ts) (disk t)" "wtrace u = wtrace t @ homes s ts" "dirty u = dirty t - (nth (log_sector s)) ` set ts"
    unfolding h bio_frame_log(7) [OF t(2)] by (elim exE conjE)
  have "homes s (i # ts) = (log_sector s ! i, blk s (lblock s i)) # homes s ts"
    by (simp add: homes_def)
  then show ?case
    using t u bio_frame_trans [OF t(2) u(2)] by (intro exI [of _ u]) (auto simp: kern_simps)
qed

lemma write_log_loop:
  assumes "quiet s" "card (dirty s) < NBUF"
    "\<forall>i \<in> set ts. entry_ok s i \<and> log_sector s ! i \<in> dirty s \<and> lblock s i \<notin> dirty s"
  shows "\<exists>t. for_each ts write_log_block s = Ok () t \<and> bio_frame s t \<and> quiet t \<and> blk t = apply_writes (copies s ts) (blk s) \<and>
    disk t = apply_writes (copies s ts) (disk s) \<and> wtrace t = wtrace s @ copies s ts \<and> dirty t = dirty s"
  using assms
proof (induction ts arbitrary: s)
  case Nil
  then show ?case
    using bc.frame_refl [of s] by (intro exI [of _ s]) (simp add: copies_def)
next
  case (Cons i ts)
  have "\<exists>t. write_log_block i s = Ok () t \<and> bio_frame s t \<and> quiet t \<and>
    blk t = (blk s)(lblock s i := blk s (log_sector s ! i)) \<and> dirty t = dirty s \<and>
    disk t = (disk s)(lblock s i := blk s (log_sector s ! i)) \<and> wtrace t = wtrace s @ [(lblock s i, blk s (log_sector s ! i))]"
    by (rule write_log_step) (use Cons.prems in auto)
  then obtain t where t: "write_log_block i s = Ok () t" "bio_frame s t" "quiet t"
    "blk t = (blk s)(lblock s i := blk s (log_sector s ! i))" "dirty t = dirty s"
    "disk t = (disk s)(lblock s i := blk s (log_sector s ! i))" "wtrace t = wtrace s @ [(lblock s i, blk s (log_sector s ! i))]"
    by (elim exE conjE)
  have h: "copies t ts = copies s ts"
    using Cons.prems(3) by (auto simp: copies_def lblock_frame [OF t(2)] bio_frame_log(7) [OF t(2)] t(4))
  have "\<exists>u. for_each ts write_log_block t = Ok () u \<and> bio_frame t u \<and> quiet u \<and> blk u = apply_writes (copies t ts) (blk t) \<and>
    disk u = apply_writes (copies t ts) (disk t) \<and> wtrace u = wtrace t @ copies t ts \<and> dirty u = dirty t"
    by (rule Cons.IH [OF t(3)])
      (use Cons.prems in \<open>auto simp: entry_ok_frame [OF t(2)] lblock_frame [OF t(2)] bio_frame_log(7) [OF t(2)] t(5)\<close>)
  then obtain u where u: "for_each ts write_log_block t = Ok () u" "bio_frame t u" "quiet u" "blk u = apply_writes (copies s ts) (blk t)"
    "disk u = apply_writes (copies s ts) (disk t)" "wtrace u = wtrace t @ copies s ts" "dirty u = dirty t"
    unfolding h by (elim exE conjE)
  have "copies s (i # ts) = (lblock s i, blk s (log_sector s ! i)) # copies s ts"
    by (simp add: copies_def)
  then show ?case
    using t u bio_frame_trans [OF t(2) u(2)] by (intro exI [of _ u]) (simp add: kern_simps)
qed

section \<open>The header block\<close>

lemma length_put_sectors [simp]: "length d = 512 \<Longrightarrow> i + length xs \<le> 127 \<Longrightarrow> length (put_sectors i xs d) = 512"
  by (induction xs arbitrary: i d) auto

lemma put_sectors_below:
  "length d = 512 \<Longrightarrow> i + length xs \<le> 127 \<Longrightarrow> off + 4 \<le> 4 + 4 * i \<Longrightarrow> slice off 4 (put_sectors i xs d) = slice off 4 d"
  by (induction xs arbitrary: i d) (auto simp: slice_splice_disjoint)

lemma put_sectors_at:
  "length d = 512 \<Longrightarrow> i + length xs \<le> 127 \<Longrightarrow> j < length xs \<Longrightarrow> hdr_sector (put_sectors i xs d) (i + j) = xs ! j"
proof (induction xs arbitrary: i j d)
  case (Cons x xs)
  show ?case
  proof (cases j)
    case 0
    then show ?thesis
      using Cons.prems by (simp add: hdr_sector_def put_sectors_below)
  next
    case (Suc k)
    then show ?thesis
      using Cons.IH [of "splice (4 + 4 * i) (le32 x) d" "Suc i" k] Cons.prems by simp
  qed
qed simp

lemma put_header_spec:
  assumes "length d = 512" "0 \<le> n" "n \<le> 30" "length xs = 30"
  shows "length (put_header n xs d) = 512" "hdr_n (put_header n xs d) = n"
    "i < nat n \<Longrightarrow> hdr_sector (put_header n xs d) i = xs ! i"
proof -
  let ?d = "splice 0 (le32 (of_int n)) d"
  have d: "length ?d = 512" "0 + length (take (nat n) xs) \<le> 127"
    using assms by simp_all
  show "length (put_header n xs d) = 512"
    unfolding put_header_def using d by simp
  have "sint (of_int n :: uint32) = n"
    using assms(2,3) by (simp add: sint_sbintrunc' signed_take_bit_int_eq_self)
  then show "hdr_n (put_header n xs d) = n"
    unfolding put_header_def hdr_n_def using d assms(1) by (simp add: put_sectors_below)
  show "i < nat n \<Longrightarrow> hdr_sector (put_header n xs d) i = xs ! i"
    unfolding put_header_def using put_sectors_at [OF d, of i] assms by simp
qed

lemma write_head_spec:
  assumes "quiet s" "log_start s < disksize s" "card (dirty s) < NBUF" "0 \<le> log_n s" "log_n s \<le> 30" "length (log_sector s) = 30"
    and d: "d = put_header (log_n s) (log_sector s) (blk s (log_start s))"
  shows "\<exists>t. write_head s = Ok () t \<and> bio_frame s t \<and> quiet t \<and> blk t = (blk s)(log_start s := d) \<and>
    disk t = (disk s)(log_start s := d) \<and> wtrace t = wtrace s @ [(log_start s, d)] \<and> dirty t = dirty s - {log_start s}"
proof -
  have q: "bio_ok s" "busy s = {}" "log_dev s = 1"
    using assms(1) by (simp_all add: quiet_def)
  have "length d = 512"
    unfolding d by (rule put_header_spec) (use assms blk_length [OF q(1)] in simp_all)
  then have "\<exists>t. bnd (bread 1 (log_start s)) (\<lambda>b. thn (md (\<lambda>s. upd_buf b (\<lambda>q. q\<lparr>b_data := put_header (log_n s) (log_sector s) (b_data (bufs s b))\<rparr>) s))
      (thn (bwrite b) (brelse b))) s = Ok () t \<and> bio_frame s t \<and> bio_ok t \<and> blk t = (blk s)(log_start s := d) \<and> busy t = {} \<and>
    dirty t = dirty s - {log_start s} \<and> disk t = (disk s)(log_start s := d) \<and> wtrace t = wtrace s @ [(log_start s, d)]"
    by (intro bc.rewrite_block [OF q(1) assms(2) q(2) assms(3)]) (simp_all add: d bio_frame_log(4,7))
  then obtain t where t: "bnd (bread 1 (log_start s)) (\<lambda>b. thn (md (\<lambda>s. upd_buf b (\<lambda>q. q\<lparr>b_data := put_header (log_n s) (log_sector s) (b_data (bufs s b))\<rparr>) s))
      (thn (bwrite b) (brelse b))) s = Ok () t" "bio_frame s t" "bio_ok t" "blk t = (blk s)(log_start s := d)" "busy t = {}"
    "dirty t = dirty s - {log_start s}" "disk t = (disk s)(log_start s := d)" "wtrace t = wtrace s @ [(log_start s, d)]"
    by (elim exE conjE)
  have u: "upd_buf b (\<lambda>q. q\<lparr>b_data := f (b_data q)\<rparr>) x = upd_buf b (\<lambda>q. q\<lparr>b_data := f (b_data (bufs x b))\<rparr>) x" for b f and x :: "'a log_st_scheme"
    by (simp add: upd_buf_def)
  have "write_head s = Ok () t"
    unfolding write_head_def bnd_rd q(3) u using t(1) by simp
  then show ?thesis
    using t q(3) bio_frame_log(3) [OF t(2)] by (intro exI [of _ t]) (simp add: quiet_def)
qed

section \<open>Commit\<close>

text \<open>
  The transaction in memory can be committed: the cache is at rest, the logged sectors are distinct, lie outside the
  part of the log in use, and are exactly the blocks whose cached content differs from the disk.
\<close>

definition tx_ok :: "'z log_st_scheme \<Rightarrow> bool" where
  "tx_ok s = (quiet s \<and> 0 \<le> log_n s \<and> log_n s < int NBUF \<and> length (log_sector s) = LOGSIZE \<and>
     unat (log_start s) + nat (log_n s) < unat (disksize s) \<and>
     distinct (take (nat (log_n s)) (log_sector s)) \<and> dirty s = set (take (nat (log_n s)) (log_sector s)) \<and>
     (\<forall>i < nat (log_n s). log_sector s ! i < disksize s \<and>
        (log_sector s ! i < log_start s \<or> unat (log_start s) + nat (log_n s) < unat (log_sector s ! i))))"

definition commit_writes :: "'z log_st_scheme \<Rightarrow> (uint32 \<times> uchar list) list" where
  "commit_writes s = (let ts = [0..<nat (log_n s)]; h = put_header (log_n s) (log_sector s) (blk s (log_start s)) in
     map (\<lambda>i. (lblock s i, blk s (log_sector s ! i))) ts @ [(log_start s, h)] @
     map (\<lambda>i. (log_sector s ! i, blk s (log_sector s ! i))) ts @ [(log_start s, put_header 0 [] h)])"

lemma unat_lblock:
  assumes "unat (log_start s) + n < unat (disksize s)" "i < n"
  shows "unat (lblock s i) = unat (log_start s) + Suc i"
proof -
  have "unat (disksize s) < 2 ^ 32"
    using unsigned_less [of "disksize s", where 'a = nat] by simp
  then have "unat (log_start s) + Suc i < 2 ^ 32"
    using assms by linarith
  from unat_add_of_nat [OF this] show ?thesis
    by (simp add: lblock_def add_ac)
qed

lemma tx_facts:
  assumes "tx_ok s"
  shows "quiet s" "0 \<le> log_n s" "nat (log_n s) < NBUF" "length (log_sector s) = LOGSIZE"
    "unat (log_start s) + nat (log_n s) < unat (disksize s)" "dirty s = nth (log_sector s) ` {..<nat (log_n s)}"
    "i < nat (log_n s) \<Longrightarrow> log_sector s ! i < disksize s"
    "i < nat (log_n s) \<Longrightarrow> unat (log_sector s ! i) < unat (log_start s) \<or> unat (log_start s) + nat (log_n s) < unat (log_sector s ! i)"
    "card (dirty s) = nat (log_n s)"
proof -
  define n where "n = nat (log_n s)"
  have tx: "quiet s" "0 \<le> log_n s" "n < NBUF" "length (log_sector s) = LOGSIZE" "unat (log_start s) + n < unat (disksize s)"
    "distinct (take n (log_sector s))" "dirty s = set (take n (log_sector s))"
    using assms by (auto simp: tx_ok_def n_def)
  have "set (take n (log_sector s)) = nth (log_sector s) ` {..<n}"
    using tx(3,4) nth_image [of n "log_sector s"] by (simp add: atLeast0LessThan)
  then show "quiet s" "0 \<le> log_n s" "nat (log_n s) < NBUF" "length (log_sector s) = LOGSIZE"
    "unat (log_start s) + nat (log_n s) < unat (disksize s)" "dirty s = nth (log_sector s) ` {..<nat (log_n s)}"
    using tx unfolding n_def by simp_all
  show "i < nat (log_n s) \<Longrightarrow> log_sector s ! i < disksize s"
    "i < nat (log_n s) \<Longrightarrow> unat (log_sector s ! i) < unat (log_start s) \<or> unat (log_start s) + nat (log_n s) < unat (log_sector s ! i)"
    using assms by (simp_all add: tx_ok_def word_less_nat_alt)
  show "card (dirty s) = nat (log_n s)"
    using distinct_card [OF tx(6)] tx(3,4,7) unfolding n_def by (simp add: min_absorb2)
qed

lemma tx_entries:
  assumes "tx_ok s" "i < nat (log_n s)"
  shows "entry_ok s i" "log_sector s ! i \<in> dirty s" "lblock s i \<notin> dirty s" "log_sector s ! i \<noteq> log_start s" "lblock s i \<noteq> log_start s"
    "j < nat (log_n s) \<Longrightarrow> lblock s i \<noteq> log_sector s ! j" "j < nat (log_n s) \<Longrightarrow> lblock s i = lblock s j \<longleftrightarrow> i = j"
proof -
  define n where "n = nat (log_n s)"
  note tx = tx_facts [OF assms(1), folded n_def]
  have u: "unat (lblock s k) = unat (log_start s) + Suc k" if "k < n" for k
    by (rule unat_lblock [OF tx(5) that])
  note far = tx(7,8)
  have i: "i < n"
    using assms(2) by (simp add: n_def)
  have ne: "unat (lblock s i) \<noteq> unat (log_sector s ! k)" if "k < n" for k
    using u [OF i] far(2) [OF that] i by linarith
  show ne': "lblock s i \<noteq> log_sector s ! j" if "j < nat (log_n s)" for j
    using ne [of j] that unfolding n_def by auto
  show "lblock s i = lblock s j \<longleftrightarrow> i = j" if "j < nat (log_n s)"
  proof
    assume "lblock s i = lblock s j"
    then have "unat (lblock s i) = unat (lblock s j)"
      by simp
    then show "i = j"
      using u [OF i] u [of j] that unfolding n_def by linarith
  qed simp
  have "unat (lblock s i) < unat (disksize s)"
    using u [OF i] tx(5) i by linarith
  then show "entry_ok s i"
    using far [OF i] ne' [OF assms(2)] by (simp add: entry_ok_def word_less_nat_alt)
  show "log_sector s ! i \<in> dirty s" "lblock s i \<notin> dirty s"
    using ne' i unfolding tx(6) n_def by auto
  have "unat (log_sector s ! i) \<noteq> unat (log_start s)" "unat (lblock s i) \<noteq> unat (log_start s)"
    using far(2) [OF i] u [OF i] by auto
  then show "log_sector s ! i \<noteq> log_start s" "lblock s i \<noteq> log_start s"
    by auto
qed

lemma write_log_spec:
  assumes "tx_ok s"
  shows "\<exists>t. write_log s = Ok () t \<and> bio_frame s t \<and> quiet t \<and> blk t = apply_writes (copies s [0..<nat (log_n s)]) (blk s) \<and>
    disk t = apply_writes (copies s [0..<nat (log_n s)]) (disk s) \<and> wtrace t = wtrace s @ copies s [0..<nat (log_n s)] \<and> dirty t = dirty s"
proof -
  have "card (dirty s) < NBUF"
    using tx_facts(3,9) [OF assms] by simp
  then show ?thesis
    unfolding write_log_def bnd_rd
    by (intro write_log_loop) (use tx_facts(1) [OF assms] tx_entries [OF assms] in auto)
qed

lemma apply_writes_at: "distinct (map fst ws) \<Longrightarrow> (m, x) \<in> set ws \<Longrightarrow> apply_writes ws d m = x"
proof (induction ws arbitrary: d)
  case (Cons w ws)
  show ?case
  proof (cases "(m, x) \<in> set ws")
    case True
    then show ?thesis
      using Cons by simp
  next
    case False
    then have "w = (m, x)"
      using Cons.prems by auto
    then show ?thesis
      using Cons.prems(1) by (simp add: apply_writes_other)
  qed
qed simp

lemma put_header_none: "put_header 0 xs d = put_header 0 [] d"
  by (simp add: put_header_def)

lemma bio_frame_log_n:
  assumes "bio_frame s t"
  shows "bio_frame (s\<lparr>log_n := k\<rparr>) (t\<lparr>log_n := k\<rparr>)"
proof -
  obtain pt bs f h a d w where "t = s\<lparr>ptable := pt, bufs := bs, free_block_number := f,
     number_of_hits := h, number_of_block_acsses := a, disk := d, wtrace := w\<rparr>"
    using assms unfolding bio_frame_def by (elim exE)
  then show ?thesis
    by (intro bio_frameI [where pt = pt and bs = bs and f = f and h = h and a = a and d = d and w = w]) simp
qed

lemma bio_frame_log_sector:
  assumes "bio_frame s t"
  shows "bio_frame (s\<lparr>log_sector := k\<rparr>) (t\<lparr>log_sector := k\<rparr>)"
proof -
  obtain pt bs f h a d w where "t = s\<lparr>ptable := pt, bufs := bs, free_block_number := f,
     number_of_hits := h, number_of_block_acsses := a, disk := d, wtrace := w\<rparr>"
    using assms unfolding bio_frame_def by (elim exE)
  then show ?thesis
    by (intro bio_frameI [where pt = pt and bs = bs and f = f and h = h and a = a and d = d and w = w]) simp
qed

lemma quiet_log_n [simp]: "quiet (log_n_update f s) = quiet s" "quiet (log_sector_update g s) = quiet s"
  by (simp_all add: quiet_def)

lemma copies_at:
  assumes "tx_ok s" "i < nat (log_n s)"
  shows "apply_writes (copies s [0..<nat (log_n s)]) d (lblock s i) = blk s (log_sector s ! i)"
proof (rule apply_writes_at)
  show "distinct (map fst (copies s [0..<nat (log_n s)]))"
    using tx_entries(7) [OF assms(1)] by (auto simp: copies_def distinct_map inj_on_def)
  show "(lblock s i, blk s (log_sector s ! i)) \<in> set (copies s [0..<nat (log_n s)])"
    using assms(2) by (auto simp: copies_def)
qed

lemma copies_start:
  assumes "tx_ok s"
  shows "apply_writes (copies s [0..<nat (log_n s)]) d (log_start s) = d (log_start s)"
  by (rule apply_writes_other) (use tx_entries(5) [OF assms] in \<open>force simp: copies_def\<close>)

lemma commit_logs:
  assumes tx: "tx_ok s" and cs: "cs = copies s [0..<nat (log_n s)]" and h: "h = put_header (log_n s) (log_sector s) (blk s (log_start s))"
  shows "\<exists>t. thn write_log write_head s = Ok () t \<and> bio_frame s t \<and> quiet t \<and> blk t = apply_writes (cs @ [(log_start s, h)]) (blk s) \<and>
    disk t = apply_writes (cs @ [(log_start s, h)]) (disk s) \<and> wtrace t = wtrace s @ cs @ [(log_start s, h)] \<and> dirty t = dirty s"
proof -
  note f = tx_facts [OF tx]
  have st: "log_start s < disksize s"
    using f(5) by (simp add: word_less_nat_alt)
  have nd: "log_start s \<notin> dirty s"
    unfolding f(6) using tx_entries(4) [OF tx] by force
  obtain a where a: "write_log s = Ok () a" "bio_frame s a" "quiet a" "blk a = apply_writes cs (blk s)" "disk a = apply_writes cs (disk s)"
    "wtrace a = wtrace s @ cs" "dirty a = dirty s"
    using write_log_spec [OF tx, folded cs] by (elim exE conjE)
  note fa = bio_frame_log [OF a(2)]
  have ca: "blk a (log_start s) = blk s (log_start s)"
    using copies_start [OF tx, folded cs] by (simp add: a(4))
  have "\<exists>b. write_head a = Ok () b \<and> bio_frame a b \<and> quiet b \<and> blk b = (blk a)(log_start a := h) \<and>
    disk b = (disk a)(log_start a := h) \<and> wtrace b = wtrace a @ [(log_start a, h)] \<and> dirty b = dirty a - {log_start a}"
    by (rule write_head_spec [OF a(3)]) (use f fa st bc.frame_size [OF a(2)] ca in \<open>simp_all add: a(7) h\<close>)
  then obtain b where "write_head a = Ok () b" "bio_frame a b" "quiet b" "blk b = (blk a)(log_start s := h)"
    "disk b = (disk a)(log_start s := h)" "wtrace b = wtrace a @ [(log_start s, h)]" "dirty b = dirty s - {log_start s}"
    unfolding fa a(7) by (elim exE conjE)
  then show ?thesis
    using a bio_frame_trans [OF a(2), of b] nd by (intro exI [of _ b]) (simp add: kern_simps)
qed

lemma commit_installs:
  assumes tx: "tx_ok s" and pos: "0 < log_n s" and hs: "hs = map (\<lambda>i. (log_sector s ! i, blk s (log_sector s ! i))) [0..<nat (log_n s)]"
    and b: "bio_frame s b" "quiet b" "blk b = apply_writes (copies s [0..<nat (log_n s)] @ [(log_start s, h)]) (blk s)" "dirty b = dirty s"
  shows "\<exists>t. install_trans b = Ok () t \<and> bio_frame b t \<and> quiet t \<and> blk t = apply_writes hs (blk b) \<and>
    disk t = apply_writes hs (disk b) \<and> wtrace t = wtrace b @ hs \<and> dirty t = {}"
proof -
  define n where "n = nat (log_n s)"
  note f = tx_facts [OF tx, folded n_def] and e = tx_entries [OF tx, folded n_def] and fb = bio_frame_log [OF b(1)]
  have le: "lblock b = lblock s" "log_sector b = log_sector s" "log_n b = log_n s" "entry_ok b = entry_ok s"
    using fb lblock_frame [OF b(1)] entry_ok_frame [OF b(1)] by simp_all
  have hb: "homes b [0..<nat (log_n b)] = hs"
    using e(5) copies_at [OF tx, folded n_def] by (auto simp: homes_def hs fb le(1) b(3) n_def)
  have "log_sector s ! 0 \<in> dirty b" "card (dirty b) < NBUF"
    using e(2) [of 0] pos f(3,9) unfolding b(4) by (simp_all add: n_def)
  then have "\<exists>c. for_each [0..<nat (log_n b)] install_block b = Ok () c \<and> bio_frame b c \<and> quiet c \<and> blk c = apply_writes (homes b [0..<nat (log_n b)]) (blk b) \<and>
    disk c = apply_writes (homes b [0..<nat (log_n b)]) (disk b) \<and> wtrace c = wtrace b @ homes b [0..<nat (log_n b)] \<and>
    dirty c = dirty b - (nth (log_sector b)) ` set [0..<nat (log_n b)]"
    by (intro install_loop [OF b(2)]) (use e(1,6) pos in \<open>simp_all add: le n_def\<close>)
  then show ?thesis
    unfolding hb install_trans_def bnd_rd using f(6) b(4) by (elim ex_forward) (auto simp: le n_def atLeast0LessThan)
qed

lemma commit_spec:
  assumes tx: "tx_ok s" and pos: "0 < log_n s"
  shows "\<exists>t. commit s = Ok () t \<and> bio_frame (s\<lparr>log_n := 0\<rparr>) t \<and> quiet t \<and> dirty t = {} \<and>
    blk t = apply_writes (commit_writes s) (blk s) \<and> disk t = apply_writes (commit_writes s) (disk s) \<and> wtrace t = wtrace s @ commit_writes s"
proof -
  define start h cs hs where v: "start = log_start s" "h = put_header (log_n s) (log_sector s) (blk s (log_start s))"
    "cs = copies s [0..<nat (log_n s)]" "hs = map (\<lambda>i. (log_sector s ! i, blk s (log_sector s ! i))) [0..<nat (log_n s)]"
  note f = tx_facts [OF tx] and e = tx_entries [OF tx]
  obtain b where b: "thn write_log write_head s = Ok () b" "bio_frame s b" "quiet b" "blk b = apply_writes (cs @ [(start, h)]) (blk s)"
    "disk b = apply_writes (cs @ [(start, h)]) (disk s)" "wtrace b = wtrace s @ cs @ [(start, h)]" "dirty b = dirty s"
    using commit_logs [OF tx v(3,2), folded v(1)] by (elim exE conjE)
  obtain c where c: "install_trans b = Ok () c" "bio_frame b c" "quiet c" "blk c = apply_writes hs (blk b)"
    "disk c = apply_writes hs (disk b)" "wtrace c = wtrace b @ hs" "dirty c = {}"
    using commit_installs [OF tx pos v(4) b(2,3,4) [unfolded v(1,3)] b(7)] by (elim exE conjE)
  note fsc = bio_frame_trans [OF b(2) c(2)]
  note fc = bio_frame_log [OF fsc]
  have cc: "blk c start = h"
    using e(4) unfolding c(4) by (subst apply_writes_other) (force simp: v(1,4) b(4))+
  have st: "start < disksize s"
    using f(5) by (simp add: word_less_nat_alt v(1))
  let ?c = "c\<lparr>log_n := 0\<rparr>"
  have "\<exists>d. write_head ?c = Ok () d \<and> bio_frame ?c d \<and> quiet d \<and>
    blk d = (blk ?c)(log_start ?c := put_header 0 [] h) \<and> disk d = (disk ?c)(log_start ?c := put_header 0 [] h) \<and>
    wtrace d = wtrace ?c @ [(log_start ?c, put_header 0 [] h)] \<and> dirty d = dirty ?c - {log_start ?c}"
    by (rule write_head_spec) (use c(3,7) f(4) fc st cc bc.frame_size [OF fsc] in \<open>simp_all add: v(1) put_header_none [of "log_sector s"]\<close>)
  then obtain d where d: "write_head ?c = Ok () d" "bio_frame ?c d" "quiet d"
    "blk d = (blk c)(start := put_header 0 [] h)" "disk d = (disk c)(start := put_header 0 [] h)"
    "wtrace d = wtrace c @ [(start, put_header 0 [] h)]" "dirty d = {}"
    using fc(1) c(7) v(1) by auto
  have w: "commit_writes s = cs @ [(start, h)] @ hs @ [(start, put_header 0 [] h)]"
    unfolding commit_writes_def Let_def v copies_def ..
  have "commit s = thn (thn write_log write_head) (thn install_trans (thn (md (\<lambda>s. s\<lparr>log_n := 0\<rparr>)) write_head)) s"
    using pos by (simp add: commit_def thn_def bnd_assoc)
  then have "commit s = Ok () d"
    using b(1) c(1) d(1) by (simp add: kern_simps)
  then show ?thesis
    using d bio_frame_trans [OF bio_frame_log_n [OF fsc] d(2)]
    by (intro exI [of _ d]) (simp add: w c(4-6) b(4-6))
qed

section \<open>Recovery\<close>

text \<open>
  What a disk says about its log: the committed writes it holds, and the disk a recovery should leave.
\<close>

definition logged :: "uint32 \<Rightarrow> (uint32 \<Rightarrow> uchar list) \<Rightarrow> (uint32 \<times> uchar list) list" where
  "logged start d = map (\<lambda>i. (hdr_sector (d start) i, d (start + of_nat i + 1))) [0..<nat (hdr_n (d start))]"

definition recovered :: "uint32 \<Rightarrow> (uint32 \<Rightarrow> uchar list) \<Rightarrow> uint32 \<Rightarrow> uchar list" where
  "recovered start d = (apply_writes (logged start d) d)(start := put_header 0 [] (d start))"

definition log_wf :: "uint32 \<Rightarrow> uint32 \<Rightarrow> (uint32 \<Rightarrow> uchar list) \<Rightarrow> bool" where
  "log_wf sz start d = (0 \<le> hdr_n (d start) \<and> hdr_n (d start) \<le> int LOGSIZE \<and> unat start + nat (hdr_n (d start)) < unat sz \<and>
     (\<forall>i < nat (hdr_n (d start)). hdr_sector (d start) i < sz \<and>
        (hdr_sector (d start) i < start \<or> unat start + nat (hdr_n (d start)) < unat (hdr_sector (d start) i))))"

lemma read_head_loop:
  assumes "length (log_sector s) = LOGSIZE" "n \<le> LOGSIZE"
  shows "for_each [0..<n] (\<lambda>i. if i < LOGSIZE then md (\<lambda>s. s\<lparr>log_sector := (log_sector s)[i := f i]\<rparr>) else fault e) s =
    Ok () (s\<lparr>log_sector := map f [0..<n] @ drop n (log_sector s)\<rparr>)"
  using assms(2)
proof (induction n)
  case (Suc n)
  have "drop n (log_sector s) = log_sector s ! n # drop (Suc n) (log_sector s)"
    using Suc.prems assms(1) by (intro Cons_nth_drop_Suc [symmetric]) simp
  then show ?case
    using Suc by (simp add: for_each_append kern_simps list_update_append)
qed simp

lemma read_head_spec:
  assumes "quiet s" "log_start s < disksize s" "dirty s = {}" "length (log_sector s) = LOGSIZE"
    and d: "d = disk s (log_start s)" "0 \<le> hdr_n d" "hdr_n d \<le> int LOGSIZE"
  shows "\<exists>t xs. read_head s = Ok () t \<and> bio_frame (s\<lparr>log_n := hdr_n d, log_sector := xs\<rparr>) t \<and> quiet t \<and>
    length xs = LOGSIZE \<and> (\<forall>i < nat (hdr_n d). xs ! i = hdr_sector d i) \<and>
    blk t = blk s \<and> disk t = disk s \<and> wtrace t = wtrace s \<and> dirty t = {}"
proof -
  define xs where "xs = map (hdr_sector d) [0..<nat (hdr_n d)] @ drop (nat (hdr_n d)) (log_sector s)"
  have q: "bio_ok s" "busy s = {}" "log_dev s = 1"
    using assms(1) by (simp_all add: quiet_def)
  have bd: "blk s (log_start s) = d"
    using bc.cur_store [OF q(1), of "log_start s"] q(2) assms(3) d(1) by simp
  obtain b t where t: "bread 1 (log_start s) s = Ok b t" "bio_frame s t" "bio_ok t" "held t b (log_start s)" "blk t = blk s"
    "busy t = {log_start s}" "dirty t = {}" "disk t = disk s" "wtrace t = wtrace s"
    using bc.get_block [of s "log_start s"] q assms(2,3) by auto
  let ?t = "t\<lparr>log_n := hdr_n d, log_sector := xs\<rparr>"
  have "log_start s \<in> dirty ?t \<or> blk ?t (log_start s) = disk ?t (log_start s)"
    using t bd d(1) by simp
  then obtain u where u: "brelse b ?t = Ok () u" "bio_frame ?t u" "bio_ok u" "blk u = blk s" "busy u = {}" "dirty u = {}"
    "disk u = disk s" "wtrace u = wtrace s"
    using bc.rel_block [of ?t b "log_start s"] t by auto
  have "log_sector t = log_sector s"
    using bio_frame_log(7) [OF t(2)] .
  moreover have "b_data (bufs t b) = d"
    using bc.hold_data [OF t(3,4)] t(5) bd by simp
  ultimately have "read_head s = Ok () u"
    using t(1) u(1) q(3) d(2,3) assms(4) unfolding read_head_def
    by (simp add: kern_simps read_head_loop xs_def)
  moreover have "bio_frame (s\<lparr>log_n := hdr_n d, log_sector := xs\<rparr>) u"
    by (rule bio_frame_trans [OF bio_frame_log_sector [OF bio_frame_log_n [OF t(2)]] u(2)])
  moreover have "quiet u"
    using u(2,3,5) q(3) bio_frame_log(3) [OF u(2)] bio_frame_log(3) [OF t(2)] by (simp add: quiet_def)
  moreover have "length xs = LOGSIZE" "\<forall>i < nat (hdr_n d). xs ! i = hdr_sector d i"
    using assms(4) d(2,3) by (auto simp: xs_def nth_append)
  ultimately show ?thesis
    using u by (intro exI [of _ u] exI [of _ xs]) simp
qed

lemma log_wf_entries:
  assumes "log_wf sz start d" "i < nat (hdr_n (d start))" "j < nat (hdr_n (d start))"
  shows "start + of_nat i + 1 < sz" "hdr_sector (d start) j < sz" "start + of_nat i + 1 \<noteq> hdr_sector (d start) j" "hdr_sector (d start) j \<noteq> start"
    "start + of_nat i + 1 \<noteq> start"
proof -
  have "unat start + nat (hdr_n (d start)) < unat sz" "unat sz < 2 ^ 32"
    using assms(1) unsigned_less [of sz, where 'a = nat] by (auto simp: log_wf_def)
  then have sz: "unat start + Suc i < 2 ^ 32" "unat start + Suc i < unat sz"
    using assms(2) by linarith+
  have u: "unat (start + of_nat i + 1) = unat start + Suc i"
    using unat_add_of_nat [OF sz(1)] by (simp add: add_ac)
  then show "start + of_nat i + 1 < sz"
    using sz(2) by (simp add: word_less_nat_alt)
  have j: "hdr_sector (d start) j < sz"
    "unat (hdr_sector (d start) j) < unat start \<or> unat start + nat (hdr_n (d start)) < unat (hdr_sector (d start) j)"
    using assms(1,3) by (auto simp: log_wf_def word_less_nat_alt)
  then have "unat (start + of_nat i + 1) \<noteq> unat (hdr_sector (d start) j)" "unat (hdr_sector (d start) j) \<noteq> unat start"
    "unat (start + of_nat i + 1) \<noteq> unat start"
    using u assms(2) by linarith+
  then show "start + of_nat i + 1 \<noteq> hdr_sector (d start) j" "hdr_sector (d start) j \<noteq> start" "start + of_nat i + 1 \<noteq> start"
    by (metis, metis, metis)
  show "hdr_sector (d start) j < sz"
    by (rule j)
qed

lemma recover_spec:
  assumes "quiet s" "dirty s = {}" "length (log_sector s) = LOGSIZE" "log_wf (disksize s) (log_start s) (disk s)"
  shows "\<exists>t xs. recover_from_log s = Ok () t \<and> bio_frame (s\<lparr>log_sector := xs, log_n := 0\<rparr>) t \<and> length xs = LOGSIZE \<and> quiet t \<and> dirty t = {} \<and>
    disk t = recovered (log_start s) (disk s) \<and>
    wtrace t = wtrace s @ logged (log_start s) (disk s) @ [(log_start s, put_header 0 [] (disk s (log_start s)))]"
proof -
  define start d where v: "start = log_start s" "d = disk s start"
  note e = log_wf_entries [OF assms(4), folded v(1), folded v(2)]
  have wf: "0 \<le> hdr_n d" "hdr_n d \<le> int LOGSIZE" "start < disksize s"
    using assms(4) by (auto simp: log_wf_def v word_less_nat_alt)
  obtain a xs where a: "read_head s = Ok () a" "bio_frame (s\<lparr>log_n := hdr_n d, log_sector := xs\<rparr>) a" "quiet a"
    "length xs = LOGSIZE" "\<forall>i < nat (hdr_n d). xs ! i = hdr_sector d i" "blk a = blk s" "disk a = disk s" "wtrace a = wtrace s" "dirty a = {}"
    using read_head_spec [OF assms(1) _ assms(2,3), folded v(1), OF wf(3) v(2) wf(1,2)] by (elim exE conjE)
  have fa: "log_start a = start" "log_n a = hdr_n d" "log_sector a = xs" "disksize a = disksize s" "lblock a = lblock s"
    using bio_frame_log [OF a(2)] bc.frame_size [OF a(2)] v(1) lblock_frame [OF a(2)] by (simp_all add: fun_eq_iff lblock_def)
  have bd: "blk a = disk s"
    using bc.cur_store [of a] a(3,7,9) by (auto simp: quiet_def fun_eq_iff)
  define hs where "hs = logged start (disk s)"
  have ha: "homes a [0..<nat (log_n a)] = hs"
    using a(5) by (auto simp: homes_def hs_def logged_def fa bd lblock_def v)
  have "\<exists>c. for_each [0..<nat (log_n a)] install_block a = Ok () c \<and> bio_frame a c \<and> quiet c \<and> blk c = apply_writes (homes a [0..<nat (log_n a)]) (blk a) \<and>
    disk c = apply_writes (homes a [0..<nat (log_n a)]) (disk a) \<and> wtrace c = wtrace a @ homes a [0..<nat (log_n a)] \<and>
    dirty c = dirty a - (nth (log_sector a)) ` set [0..<nat (log_n a)]"
    by (intro install_loop [OF a(3)]) (use e a(5,9) in \<open>simp_all add: fa entry_ok_def lblock_def v\<close>)
  then obtain c where c: "install_trans a = Ok () c" "bio_frame a c" "quiet c" "blk c = apply_writes hs (disk s)"
    "disk c = apply_writes hs (disk s)" "wtrace c = wtrace s @ hs" "dirty c = {}"
    unfolding ha install_trans_def using a(7-9) by (auto simp: bd)
  have fc: "log_start c = start" "log_sector c = xs" "disksize c = disksize s"
    using bio_frame_log [OF c(2)] bc.frame_size [OF c(2)] by (simp_all add: fa)
  have cs: "blk c start = d"
    unfolding c(4) v(2) using e(4) by (intro apply_writes_other) (force simp: hs_def logged_def v(2))
  let ?c = "c\<lparr>log_n := 0\<rparr>"
  have "\<exists>u. write_head ?c = Ok () u \<and> bio_frame ?c u \<and> quiet u \<and>
    blk u = (blk ?c)(log_start ?c := put_header 0 [] d) \<and> disk u = (disk ?c)(log_start ?c := put_header 0 [] d) \<and>
    wtrace u = wtrace ?c @ [(log_start ?c, put_header 0 [] d)] \<and> dirty u = dirty ?c - {log_start ?c}"
    by (rule write_head_spec) (use c(3,7) wf(3) fc cs a(4) in \<open>simp_all add: put_header_none [of xs]\<close>)
  then obtain u where u: "write_head ?c = Ok () u" "bio_frame ?c u" "quiet u" "disk u = (disk c)(start := put_header 0 [] d)"
    "wtrace u = wtrace c @ [(start, put_header 0 [] d)]" "dirty u = {}"
    using fc(1) c(7) by auto
  have "recover_from_log s = Ok () u"
    using a(1) c(1) u(1) by (simp add: recover_from_log_def kern_simps)
  moreover have "bio_frame (s\<lparr>log_sector := xs, log_n := 0\<rparr>) u"
    using bio_frame_trans [OF bio_frame_log_n [OF bio_frame_trans [OF a(2) c(2)]] u(2)] by simp
  ultimately show ?thesis
    using a(4) u c by (intro exI [of _ u] exI [of _ xs]) (simp add: recovered_def hs_def v)
qed

section \<open>Crashes\<close>

text \<open>A block outside the part of the log that the transaction uses.\<close>

definition off_log :: "'z log_st_scheme \<Rightarrow> uint32 \<Rightarrow> bool" where
  "off_log s m = (m < log_start s \<or> unat (log_start s) + nat (log_n s) < unat m)"

lemma off_log_ne:
  assumes "tx_ok s" "off_log s m"
  shows "m \<noteq> log_start s" "i < nat (log_n s) \<Longrightarrow> m \<noteq> lblock s i"
proof -
  have m: "unat m < unat (log_start s) \<or> unat (log_start s) + nat (log_n s) < unat m"
    using assms(2) by (simp add: off_log_def word_less_nat_alt)
  then show "m \<noteq> log_start s"
    by auto
  assume i: "i < nat (log_n s)"
  have "unat m \<noteq> unat (lblock s i)"
    using m i unfolding unat_lblock [OF tx_facts(5) [OF assms(1)] i] by linarith
  then show "m \<noteq> lblock s i"
    by auto
qed

text \<open>The committed header, and the home writes.\<close>

lemma commit_header:
  assumes "tx_ok s" and h: "h = put_header (log_n s) (log_sector s) (blk s (log_start s))"
  shows "hdr_n h = log_n s" "i < nat (log_n s) \<Longrightarrow> hdr_sector h i = log_sector s ! i" "hdr_n (put_header 0 [] h) = 0" "length h = 512"
proof -
  have p: "length (blk s (log_start s)) = 512" "0 \<le> log_n s" "log_n s \<le> 30" "length (log_sector s) = 30"
    using blk_length tx_facts [OF assms(1)] by (auto simp: quiet_def)
  show "hdr_n h = log_n s" "i < nat (log_n s) \<Longrightarrow> hdr_sector h i = log_sector s ! i" "length h = 512"
    unfolding h by (rule put_header_spec [OF p]; assumption)+
  then show "hdr_n (put_header 0 [] h) = 0"
    using put_header_spec(2) [of h 0 "replicate 30 0"] by (simp add: put_header_none [of "replicate 30 0"])
qed

lemma homes_at:
  assumes "tx_ok s" and hs: "hs = map (\<lambda>i. (log_sector s ! i, blk s (log_sector s ! i))) [0..<nat (log_n s)]"
    and d: "\<And>m. m \<notin> dirty s \<Longrightarrow> off_log s m \<Longrightarrow> d m = disk s m" and "off_log s m"
  shows "apply_writes hs d m = blk s m"
proof (cases "m \<in> dirty s")
  case True
  then obtain i where i: "i < nat (log_n s)" "m = log_sector s ! i"
    unfolding tx_facts(6) [OF assms(1)] by auto
  have "take (nat (log_n s)) (log_sector s) = map (nth (log_sector s)) [0..<nat (log_n s)]"
    using tx_facts(3,4) [OF assms(1)] by (intro nth_equalityI) auto
  then have "distinct (map fst hs)"
    using assms(1) by (simp add: hs comp_def tx_ok_def)
  then show ?thesis
    using i by (intro apply_writes_at) (auto simp: hs)
next
  case False
  then have "apply_writes hs d m = d m"
    using tx_entries(2) [OF assms(1)] by (intro apply_writes_other) (auto simp: hs)
  moreover have "blk s m = disk s m"
    using bc.cur_store [of s m] False tx_facts(1) [OF assms(1)] by (simp add: quiet_def)
  ultimately show ?thesis
    using d [OF False assms(4)] by simp
qed

text \<open>The three kinds of disks a crash during a commit can leave.\<close>

lemma crash_before:
  assumes "tx_ok s" "hdr_n (disk s (log_start s)) = 0" "d = apply_writes (take k (copies s [0..<nat (log_n s)])) (disk s)"
  shows "log_wf (disksize s) (log_start s) d \<and> (\<forall>m. off_log s m \<longrightarrow> recovered (log_start s) d m = disk s m)"
proof -
  have other: "d m = disk s m" if "\<And>i. i < nat (log_n s) \<Longrightarrow> m \<noteq> lblock s i" for m
    unfolding assms(3) using that by (intro apply_writes_other) (force simp: copies_def dest!: in_set_takeD)
  have "d (log_start s) = disk s (log_start s)"
    using tx_entries(5) [OF assms(1)] by (intro other) metis
  then show ?thesis
    using assms(2) tx_facts(5) [OF assms(1)] off_log_ne [OF assms(1)] other
    by (auto simp: log_wf_def recovered_def logged_def)
qed

lemma crash_during:
  assumes tx: "tx_ok s" and hs: "hs = map (\<lambda>i. (log_sector s ! i, blk s (log_sector s ! i))) [0..<nat (log_n s)]"
    and h: "h = put_header (log_n s) (log_sector s) (blk s (log_start s))"
    and d: "d = apply_writes (take k hs) (apply_writes (copies s [0..<nat (log_n s)] @ [(log_start s, h)]) (disk s))"
  shows "log_wf (disksize s) (log_start s) d \<and> (\<forall>m. off_log s m \<longrightarrow> recovered (log_start s) d m = blk s m)"
proof -
  note f = tx_facts [OF tx] and e = tx_entries [OF tx] and ch = commit_header [OF tx h]
  have keep: "d m = apply_writes (copies s [0..<nat (log_n s)] @ [(log_start s, h)]) (disk s) m"
    if "\<And>i. i < nat (log_n s) \<Longrightarrow> m \<noteq> log_sector s ! i" for m
    unfolding d using that by (intro apply_writes_other) (force simp: hs dest!: in_set_takeD)
  have st: "d (log_start s) = h"
    using e(4) by (subst keep) force+
  have lb: "d (lblock s i) = blk s (log_sector s ! i)" if "i < nat (log_n s)" for i
    using e(6) [OF that] e(5) [OF that] copies_at [OF tx that] by (subst keep) auto
  have wf: "log_wf (disksize s) (log_start s) d"
    unfolding log_wf_def st using ch f by (auto simp: word_less_nat_alt)
  have lg: "logged (log_start s) d = hs"
    using ch lb by (auto simp: logged_def st hs lblock_def)
  have "d m = disk s m" if "m \<notin> dirty s" "off_log s m" for m
  proof -
    have "m \<noteq> log_sector s ! i" if "i < nat (log_n s)" for i
      using e(2) [OF that] \<open>m \<notin> dirty s\<close> by auto
    then have "d m = apply_writes (copies s [0..<nat (log_n s)]) (disk s) m"
      using off_log_ne(1) [OF tx that(2)] by (simp add: keep)
    also have "\<dots> = disk s m"
      using off_log_ne(2) [OF tx that(2)] by (intro apply_writes_other) (force simp: copies_def)
    finally show ?thesis .
  qed
  then have "off_log s m \<Longrightarrow> recovered (log_start s) d m = blk s m" for m
    using homes_at [OF tx hs, of d m] off_log_ne(1) [OF tx] by (simp add: recovered_def lg)
  with wf show ?thesis by blast
qed

lemma crash_after:
  assumes tx: "tx_ok s" and d: "d = apply_writes (commit_writes s) (disk s)"
  shows "log_wf (disksize s) (log_start s) d \<and> (\<forall>m. off_log s m \<longrightarrow> recovered (log_start s) d m = blk s m)"
proof -
  define h hs where v: "h = put_header (log_n s) (log_sector s) (blk s (log_start s))"
    "hs = map (\<lambda>i. (log_sector s ! i, blk s (log_sector s ! i))) [0..<nat (log_n s)]"
  define e where "e = apply_writes (copies s [0..<nat (log_n s)] @ [(log_start s, h)]) (disk s)"
  have d': "d = (apply_writes hs e)(log_start s := put_header 0 [] h)"
    by (simp add: d commit_writes_def e_def v copies_def Let_def)
  note ch = commit_header [OF tx v(1)]
  have st: "d (log_start s) = put_header 0 [] h"
    by (simp add: d')
  have lg: "logged (log_start s) d = []"
    using ch by (simp add: logged_def st)
  have "e m = disk s m" if "off_log s m" for m
    unfolding e_def using off_log_ne [OF tx that] by (intro apply_writes_other) (force simp: copies_def)
  then have "off_log s m \<Longrightarrow> recovered (log_start s) d m = blk s m" for m
    using homes_at [OF tx v(2), of e m] off_log_ne(1) [OF tx] unfolding recovered_def lg by (simp add: d')
  moreover have "log_wf (disksize s) (log_start s) d"
    unfolding log_wf_def st using ch tx_facts(5) [OF tx] by simp
  ultimately show ?thesis by blast
qed

lemma crash_commit:
  assumes tx: "tx_ok s" and clean: "hdr_n (disk s (log_start s)) = 0" and d: "d = apply_writes (take k (commit_writes s)) (disk s)"
  shows "log_wf (disksize s) (log_start s) d \<and>
    (\<forall>m. off_log s m \<longrightarrow> recovered (log_start s) d m = (if k \<le> nat (log_n s) then disk s m else blk s m))"
proof -
  define n h hs cs where v: "n = nat (log_n s)" "h = put_header (log_n s) (log_sector s) (blk s (log_start s))"
    "hs = map (\<lambda>i. (log_sector s ! i, blk s (log_sector s ! i))) [0..<nat (log_n s)]" "cs = copies s [0..<nat (log_n s)]"
  have w: "commit_writes s = cs @ [(log_start s, h)] @ hs @ [(log_start s, put_header 0 [] h)]"
    by (simp add: commit_writes_def v copies_def Let_def)
  have len: "length cs = n" "length hs = n"
    by (simp_all add: v copies_def)
  consider "k \<le> n" | "n < k" "k \<le> 2 * n + 1" | "2 * n + 1 < k"
    by linarith
  then show ?thesis
  proof cases
    case 1
    then have "d = apply_writes (take k cs) (disk s)"
      by (simp add: d w len)
    then show ?thesis
      using crash_before [OF tx clean, of d k] 1 by (simp add: v)
  next
    case 2
    then obtain j where j: "k = Suc (n + j)" "j \<le> n"
      by (metis add_Suc_right less_imp_Suc_add mult_2 nat_add_left_cancel_le Suc_eq_plus1 Suc_le_mono add.commute)
    then have "d = apply_writes (take j hs) (apply_writes (cs @ [(log_start s, h)]) (disk s))"
      by (simp add: d w len)
    then show ?thesis
      using crash_during [OF tx v(3,2), of d j] 2 by (simp add: v)
  next
    case 3
    then have "take k (commit_writes s) = commit_writes s"
      by (simp add: w len)
    then show ?thesis
      using crash_after [OF tx, of d] 3 by (simp add: d v)
  qed
qed

lemma apply_writes_hit: "m \<in> fst ` set ws \<Longrightarrow> apply_writes ws d m = apply_writes ws e m"
proof (induction ws arbitrary: d e)
  case (Cons w ws)
  show ?case
  proof (cases "m \<in> fst ` set ws")
    case True
    show ?thesis
      unfolding apply_writes_simps by (rule Cons.IH [OF True])
  next
    case False
    then show ?thesis
      using Cons.prems by (simp add: apply_writes_other)
  qed
qed simp

lemma apply_writes_absorb:
  assumes "fst ` set vs \<subseteq> fst ` set ws"
  shows "apply_writes ws (apply_writes vs d) = apply_writes ws d"
proof
  fix m
  show "apply_writes ws (apply_writes vs d) m = apply_writes ws d m"
  proof (cases "m \<in> fst ` set ws")
    case True
    then show ?thesis
      by (rule apply_writes_hit)
  next
    case False
    then have "m \<notin> fst ` set vs"
      using assms by auto
    then show ?thesis
      using False by (simp add: apply_writes_other)
  qed
qed

lemma crash_recovery:
  assumes wf: "log_wf sz start d" and len: "length (d start) = 512"
    and d': "d' = apply_writes (take k (logged start d @ [(start, put_header 0 [] (d start))])) d"
  shows "log_wf sz start d' \<and> recovered start d' = recovered start d"
proof (cases "k \<le> length (logged start d)")
  case True
  then have d': "d' = apply_writes (take k (logged start d)) d"
    by (simp add: d')
  note e = log_wf_entries [OF wf]
  have st: "d' start = d start"
    unfolding d' using e(4) by (intro apply_writes_other) (force simp: logged_def dest!: in_set_takeD)
  have "d' (start + of_nat i + 1) = d (start + of_nat i + 1)" if "i < nat (hdr_n (d start))" for i
    unfolding d' using e(3) [OF that] by (intro apply_writes_other) (force simp: logged_def dest!: in_set_takeD)
  then have "logged start d' = logged start d"
    by (simp add: logged_def st)
  moreover have "fst ` set (take k (logged start d)) \<subseteq> fst ` set (logged start d)"
    by (auto dest: in_set_takeD)
  ultimately have "recovered start d' = recovered start d"
    by (simp add: recovered_def st) (simp add: d' apply_writes_absorb)
  then show ?thesis
    using wf by (simp add: log_wf_def st)
next
  case False
  then have d': "d' = recovered start d"
    by (simp add: d' recovered_def)
  have p: "put_header 0 [] (put_header 0 [] (d start)) = put_header 0 [] (d start)"
    using len by (simp add: put_header_def splice_def le32_def)
  have "hdr_n (put_header 0 [] (d start)) = 0"
    using put_header_spec(2) [of "d start" 0 "replicate 30 0"] len by (simp add: put_header_none [of "replicate 30 0"])
  then show ?thesis
    using wf by (auto simp: d' recovered_def log_wf_def logged_def p)
qed

section \<open>Booting\<close>

definition log_place :: "superblock \<Rightarrow> uint32" where
  "log_place sb = sb_size sb - sb_nlog sb"

lemma bio_views_log_setup [simp]:
  "bio_ok (log_start_update f s) = bio_ok s" "busy (log_start_update f s) = busy s" "dirty (log_start_update f s) = dirty s"
  "bio_ok (log_size_update f s) = bio_ok s" "busy (log_size_update f s) = busy s" "dirty (log_size_update f s) = dirty s"
  "bio_ok (log_dev_update f s) = bio_ok s" "busy (log_dev_update f s) = busy s" "dirty (log_dev_update f s) = dirty s"
  by (simp_all add: bio_ok_def bio_inv_def buf_ok_def busy_def dirty_def)

lemma readsb_spec:
  assumes "bio_ok s" "busy s = {}" "card (dirty s) < NBUF" "1 < disksize s"
  shows "\<exists>t. readsb 1 s = Ok (decode_sb (blk s 1)) t \<and> bio_frame s t \<and> bio_ok t \<and> blk t = blk s \<and> busy t = {} \<and>
    dirty t = dirty s \<and> disk t = disk s \<and> wtrace t = wtrace s"
proof -
  let ?m = "bnd (bread 1 1) (\<lambda>b. bnd (rd (\<lambda>s. b_data (bufs s b))) (\<lambda>d. thn (brelse b) (ret d)))"
  have r: "readsb 1 s = bnd ?m (\<lambda>d. ret (decode_sb d)) s"
    by (simp add: readsb_def bnd_assoc thn_def)
  obtain t where t: "?m s = Ok (blk s 1) t" "bio_frame s t" "bio_ok t" "blk t = blk s" "busy t = {}" "dirty t = dirty s"
    "disk t = disk s" "wtrace t = wtrace s"
    using bc.read_block [OF assms(1) assms(4) assms(2,3)] by (elim exE conjE)
  have "readsb 1 s = Ok (decode_sb (blk s 1)) t"
    unfolding r by (rule bnd_Ok [where m = ?m, OF t(1)])
  then show ?thesis
    using t by (intro exI [of _ t]) simp
qed

lemma bio_frame_more: "bio_frame s t \<Longrightarrow> log_st.more t = log_st.more s"
  by (auto simp: bio_frame_def)

lemma initlog_spec:
  fixes s :: "'z log_st_scheme"
  assumes "bio_ok s" "busy s = {}" "dirty s = {}" "length (log_sector s) = LOGSIZE" "1 < disksize s"
    and sb: "sb = decode_sb (disk s 1)" and wf: "log_wf (disksize s) (log_place sb) (disk s)"
  shows "\<exists>t. initlog s = Ok () t \<and> quiet t \<and> dirty t = {} \<and> log_start t = log_place sb \<and> log_size t = sb_nlog sb \<and> log_n t = 0 \<and>
    disksize t = disksize s \<and> length (log_sector t) = LOGSIZE \<and> log_outstanding t = log_outstanding s \<and>
    log_committing t = log_committing s \<and> curproc t = curproc s \<and> log_st.more t = log_st.more s \<and> disk t = recovered (log_place sb) (disk s) \<and>
    wtrace t = wtrace s @ logged (log_place sb) (disk s) @ [(log_place sb, put_header 0 [] (disk s (log_place sb)))]"
proof -
  define s0 where "s0 = set_lock LkLog (\<lambda>k. k\<lparr>lname := ''log'', locked := 0, lcpu := None\<rparr>) s"
  note v = initlock_views [OF s0_def]
  have bd: "blk s0 1 = disk s 1"
    using bc.cur_store [OF v(1) [OF assms(1)], of 1] assms(2,3) by (simp add: v)
  obtain a where a: "readsb 1 s0 = Ok sb a" "bio_frame s0 a" "bio_ok a" "busy a = {}" "dirty a = {}" "disk a = disk s" "wtrace a = wtrace s"
    using readsb_spec [OF v(1) [OF assms(1)]] assms(2,3,5) bd unfolding sb by (simp add: v) (elim exE conjE, blast)
  define b where "b = a\<lparr>log_start := log_place sb, log_size := sb_nlog sb, log_dev := 1\<rparr>"
  have fa: "length (log_sector a) = LOGSIZE" "disksize a = disksize s"
    using bio_frame_log(7) [OF a(2)] bc.frame_size [OF a(2)] assms(4) by (simp_all add: s0_def set_lock_def)
  have fb: "log_outstanding b = log_outstanding s" "log_committing b = log_committing s" "curproc b = curproc s" "log_st.more b = log_st.more s"
    using bio_frame_log(5,6) [OF a(2)] bio_frame_curproc [OF a(2)] bio_frame_more [OF a(2)] by (simp_all add: s0_def set_lock_def b_def curproc_def)
  have b: "quiet b" "dirty b = {}" "length (log_sector b) = LOGSIZE" "log_wf (disksize b) (log_start b) (disk b)" "disk b = disk s"
    "wtrace b = wtrace s" "log_start b = log_place sb" "log_size b = sb_nlog sb" "disksize b = disksize s"
    using a fa wf by (simp_all add: b_def quiet_def)
  obtain t xs where t: "recover_from_log b = Ok () t" "bio_frame (b\<lparr>log_sector := xs, log_n := 0\<rparr>) t" "length xs = LOGSIZE" "quiet t" "dirty t = {}"
    "disk t = recovered (log_start b) (disk b)"
    "wtrace t = wtrace b @ logged (log_start b) (disk b) @ [(log_start b, put_header 0 [] (disk b (log_start b)))]"
    using recover_spec [OF b(1-4)] by (elim exE conjE)
  have "initlog s = Ok () t"
    using a(1) t(1) by (simp add: initlog_def initlock_def s0_def [symmetric] kern_simps b_def log_place_def)
  then show ?thesis
    using t bio_frame_log [OF t(2)] bc.frame_size [OF t(2)] bio_frame_curproc [OF t(2)] bio_frame_more [OF t(2)] fb
    by (intro exI [of _ t]) (simp add: b curproc_def)
qed

section \<open>Operations of a transaction\<close>

text \<open>
  The invariant of a running transaction.  The blocks of the file system lie before the log; the cached blocks that
  differ from the disk are exactly the logged ones; the log has room for them.
\<close>

definition tx_inv :: "'z log_st_scheme \<Rightarrow> bool" where
  "tx_inv s = (bio_ok s \<and> log_dev s = 1 \<and> 0 \<le> log_n s \<and> nat (log_n s) < unat (log_size s) \<and> unat (log_size s) \<le> LOGSIZE \<and>
     length (log_sector s) = LOGSIZE \<and> unat (log_start s) + unat (log_size s) \<le> unat (disksize s) \<and>
     distinct (take (nat (log_n s)) (log_sector s)) \<and> dirty s = set (take (nat (log_n s)) (log_sector s)) \<and>
     (\<forall>m \<in> dirty s. m < log_start s))"

lemma tx_inv_ok:
  assumes "tx_inv s" "busy s = {}"
  shows "tx_ok s"
proof -
  define n where "n = nat (log_n s)"
  have tx: "bio_ok s" "log_dev s = 1" "0 \<le> log_n s" "n < unat (log_size s)" "unat (log_size s) \<le> LOGSIZE" "length (log_sector s) = LOGSIZE"
    "unat (log_start s) + unat (log_size s) \<le> unat (disksize s)" "distinct (take n (log_sector s))" "dirty s = set (take n (log_sector s))"
    and lt: "\<And>m. m \<in> dirty s \<Longrightarrow> m < log_start s"
    using assms(1) unfolding tx_inv_def n_def by blast+
  have st: "log_start s \<le> disksize s"
    using tx(7) by (simp add: word_le_nat_alt)
  have sec: "log_sector s ! i < log_start s" if "i < n" for i
    using lt [of "log_sector s ! i"] tx(4-6) that nth_mem [of i "take n (log_sector s)"] unfolding tx(9) by simp
  have n: "log_n s < int NBUF" "unat (log_start s) + n < unat (disksize s)"
    using tx(3-5,7) unfolding n_def by linarith+
  have "log_sector s ! i < disksize s" if "i < n" for i
    using sec [OF that] st by (rule order_less_le_trans)
  then show ?thesis
    unfolding tx_ok_def n_def [symmetric] quiet_def using tx(1-3,6,8,9) n assms(2) sec by blast
qed

definition log_add :: "uint32 \<Rightarrow> 'z log_st_scheme \<Rightarrow> 'z log_st_scheme" where
  "log_add m s = (if m \<in> set (take (nat (log_n s)) (log_sector s)) then s
     else s\<lparr>log_sector := (log_sector s)[nat (log_n s) := m], log_n := log_n s + 1\<rparr>)"

lemma find_index_none: "find (\<lambda>i. xs ! i = m) [0..<n] = None \<longleftrightarrow> m \<notin> set (take n xs)" if "n \<le> length xs"
  using that by (auto simp: find_None_iff in_set_conv_nth)

lemma find_index_some: "find (\<lambda>i. xs ! i = m) [0..<n] = Some i \<Longrightarrow> i < n \<and> xs ! i = m"
  by (auto simp: find_Some_iff)

lemma held_sector: "held s b n \<Longrightarrow> b_sector (bufs s b) = n"
  unfolding held_def using bof_SomeD by blast

lemma log_write_eq:
  assumes "calm s" "held s b m" "0 \<le> log_n s" "log_n s < int LOGSIZE" "log_n s < sint (log_size s) - 1" "1 \<le> log_outstanding s"
    "length (log_sector s) = LOGSIZE"
  shows "log_write b s = Ok () (upd_buf b (\<lambda>q. q\<lparr>flags := flags q OR 4\<rparr>) (log_add m s))"
proof -
  define n where "n = nat (log_n s)"
  have n: "n \<le> length (log_sector s)" "log_n s = int n"
    using assms(3,4,7) by (simp_all add: n_def)
  note m = held_sector [OF assms(2)]
  let ?r = "find (\<lambda>i. log_sector s ! i = m) [0..<n]"
  have rel: "release LkLog (upd_buf b f (hold LkLog u)) = Ok () (upd_buf b f u)" if "calm u" for f and u :: "'a log_st_scheme"
    using release_hold [of LkLog "upd_buf b f u"] that by (simp add: upd_buf_def)
  show ?thesis
  proof (cases ?r)
    case None
    then show ?thesis
      using find_index_none [OF n(1), of m] n assms(1,4-6) m rel
      by (simp add: log_write_def log_add_def kern_simps acquire_free)
  next
    case (Some i)
    then have "i < n" "(log_sector s)[i := m] = log_sector s"
      using find_index_some [OF Some] by auto
    then show ?thesis
      using find_index_none [OF n(1), of m] n Some assms(1,4-6) m rel
      by (simp add: log_write_def log_add_def kern_simps acquire_free)
  qed
qed

lemma log_add_views [simp]:
  "bio_ok (log_add m s) = bio_ok s" "held (log_add m s) = held s" "blk (log_add m s) = blk s" "busy (log_add m s) = busy s"
  "dirty (log_add m s) = dirty s" "disk (log_add m s) = disk s" "wtrace (log_add m s) = wtrace s" "disksize (log_add m s) = disksize s"
  "log_start (log_add m s) = log_start s" "log_size (log_add m s) = log_size s" "log_dev (log_add m s) = log_dev s"
  "log_outstanding (log_add m s) = log_outstanding s" "log_committing (log_add m s) = log_committing s"
  by (simp_all add: log_add_def)

lemma sint_unat: "unat x < 2 ^ 31 \<Longrightarrow> sint (x :: uint32) = int (unat x)"
  by (simp add: sint_uint signed_take_bit_int_eq_self_iff flip: of_nat_less_iff [where 'a = int])
    (rule order_trans [of _ 0]; simp)

lemma log_write_spec:
  assumes "tx_inv s" "held s b m" "m < log_start s" "log_n s + 1 < int (unat (log_size s))" "1 \<le> log_outstanding s"
  shows "\<exists>t. log_write b s = Ok () t \<and> bio_frame (log_add m s) t \<and> tx_inv t \<and> held t = held s \<and> blk t = blk s \<and> busy t = busy s \<and>
    dirty t = insert m (dirty s) \<and> disk t = disk s \<and> wtrace t = wtrace s"
proof -
  define n where "n = nat (log_n s)"
  have tx: "bio_ok s" "log_dev s = 1" "0 \<le> log_n s" "n < unat (log_size s)" "unat (log_size s) \<le> LOGSIZE" "length (log_sector s) = LOGSIZE"
    "unat (log_start s) + unat (log_size s) \<le> unat (disksize s)" "distinct (take n (log_sector s))" "dirty s = set (take n (log_sector s))"
    and lt: "\<And>m. m \<in> dirty s \<Longrightarrow> m < log_start s"
    using assms(1) unfolding tx_inv_def n_def by blast+
  have "sint (log_size s) = int (unat (log_size s))"
    using tx(5) by (intro sint_unat) simp
  then have sz: "log_n s < int LOGSIZE" "log_n s < sint (log_size s) - 1" "Suc n < unat (log_size s)"
    using tx(3,5) assms(4) unfolding n_def by linarith+
  have "log_write b s = Ok () (upd_buf b (\<lambda>q. q\<lparr>flags := flags q OR 4\<rparr>) (log_add m s))"
    using tx(1,3,6) sz(1,2) assms(2,5) by (intro log_write_eq) (auto simp: bio_ok_def)
  moreover define t where "t = upd_buf b (\<lambda>q. q\<lparr>flags := flags q OR 4\<rparr>) (log_add m s)"
  ultimately have w: "log_write b s = Ok () t"
    by simp
  have t: "bio_frame (log_add m s) t" "bio_ok t" "held t = held s" "blk t = blk s" "busy t = busy s" "dirty t = insert m (dirty s)"
    "disk t = disk s" "wtrace t = wtrace s"
    using set_dirty_spec [of "log_add m s" b m] tx(1) assms(2) unfolding t_def by simp_all
  note f = bio_frame_log [OF t(1)] bc.frame_size [OF t(1)]
  have "tx_inv t"
  proof (cases "m \<in> dirty s")
    case True
    then have "log_add m s = s"
      unfolding tx(9) by (simp add: log_add_def n_def)
    then show ?thesis
      using assms(1) True t(2,6) f by (simp add: tx_inv_def insert_absorb)
  next
    case False
    then have a: "log_add m s = s\<lparr>log_sector := (log_sector s)[n := m], log_n := log_n s + 1\<rparr>"
      unfolding tx(9) by (simp add: log_add_def n_def)
    have tk: "take (Suc n) ((log_sector s)[n := m]) = take n (log_sector s) @ [m]"
      using tx(4-6) by (simp add: take_Suc_conv_app_nth)
    have n1: "nat (log_n s + 1) = Suc n" "Suc n < unat (log_size s)"
      using tx(3) sz(3) by (simp_all add: n_def nat_add_distrib)
    show ?thesis
      unfolding tx_inv_def f a t(6) using tx lt t(2) False n1 assms(3) by (simp add: tk f a)
  qed
  with w t show ?thesis
    by (intro exI [of _ t]) simp
qed

lemma begin_op_eq:
  assumes "calm s" "\<not> log_committing s" "log_n s + (log_outstanding s + 1) * int MAXOPBLOCKS \<le> int LOGSIZE"
  shows "begin_op s = Ok () (s\<lparr>log_outstanding := log_outstanding s + 1\<rparr>)"
  using assms release_hold [of LkLog "s\<lparr>log_outstanding := log_outstanding s + 1\<rparr>"]
  by (simp add: begin_op_def begin_op_loop_def kern_simps acquire_free)

lemma begin_op_waits:
  assumes "calm s" "log_committing s \<or> int LOGSIZE < log_n s + (log_outstanding s + 1) * int MAXOPBLOCKS" "curproc s = Some p"
  shows "begin_op s = Switch (Some ChLog) (hold LkPtable (upd_proc p (\<lambda>q. q\<lparr>p_chan := Some ChLog, p_state := SLEEPING\<rparr>) s))"
  using assms sleep_eq [OF assms(1,3), of ChLog LkLog]
  by (auto simp: begin_op_def begin_op_loop_def kern_simps acquire_free)

definition wake :: "chan \<Rightarrow> 'z sched_st_scheme \<Rightarrow> 'z sched_st_scheme" where
  "wake ch s = s\<lparr>ptable := (\<lambda>p. if p < NPROC then woken ch (ptable s p) else ptable s p)\<rparr>"

lemma bio_views_ptable [simp]:
  "bio_ok (ptable_update f s) = bio_ok s" "blk (ptable_update f s) = blk s" "busy (ptable_update f s) = busy s"
  "dirty (ptable_update f s) = dirty s" "held (ptable_update f s) = held s"
  "bio_ok (log_committing_update g t) = bio_ok t" "blk (log_committing_update g t) = blk t" "busy (log_committing_update g t) = busy t"
  "dirty (log_committing_update g t) = dirty t"
  "bio_ok (log_outstanding_update h t) = bio_ok t" "blk (log_outstanding_update h t) = blk t" "busy (log_outstanding_update h t) = busy t"
  "dirty (log_outstanding_update h t) = dirty t"
  by (auto simp: held_def bio_ok_def bio_inv_def buf_ok_def blk_def busy_def dirty_def fun_eq_iff cong: option.case_cong)

lemma tx_inv_views [simp]:
  "tx_inv (ptable_update f s) = tx_inv s" "tx_inv (log_committing_update g s) = tx_inv s" "tx_inv (log_outstanding_update h s) = tx_inv s"
  by (simp_all add: tx_inv_def)

lemma end_op_eq:
  assumes "calm s" "\<not> log_committing s"
  shows "log_outstanding s \<noteq> 1 \<Longrightarrow> end_op s = Ok () (wake ChLog (s\<lparr>log_outstanding := log_outstanding s - 1\<rparr>))"
    "log_outstanding s = 1 \<Longrightarrow> commit (s\<lparr>log_outstanding := 0, log_committing := True\<rparr>) = Ok () t \<Longrightarrow> calm t \<Longrightarrow>
      end_op s = Ok () (wake ChLog (t\<lparr>log_committing := False\<rparr>))"
proof -
  have rel: "release LkLog (hold LkLog u) = Ok () u" if "calm u" for u :: "'a log_st_scheme"
    using release_hold [of LkLog u] that by simp
  have wk: "wakeup ChLog (hold LkLog u) = Ok () (hold LkLog (wake ChLog u))" if "calm u" for u :: "'a log_st_scheme"
    using wakeup_eq [of "hold LkLog u" ChLog] that by (simp add: wake_def cong: if_cong)
  have cw: "calm (wake ch u) = calm u" for ch and u :: "'a log_st_scheme"
    by (simp add: wake_def)
  show "log_outstanding s \<noteq> 1 \<Longrightarrow> end_op s = Ok () (wake ChLog (s\<lparr>log_outstanding := log_outstanding s - 1\<rparr>))"
    using assms by (simp add: end_op_def kern_simps acquire_free wk rel cw)
  show "log_outstanding s = 1 \<Longrightarrow> commit (s\<lparr>log_outstanding := 0, log_committing := True\<rparr>) = Ok () t \<Longrightarrow> calm t \<Longrightarrow>
      end_op s = Ok () (wake ChLog (t\<lparr>log_committing := False\<rparr>))"
    using assms by (simp add: end_op_def kern_simps acquire_free wk rel cw)
qed

lemma commit_empty: "log_n s \<le> 0 \<Longrightarrow> commit s = Ok () s"
  by (simp add: commit_def kern_simps whenk_def)

lemma hdr_n_cleared: "length d = 512 \<Longrightarrow> hdr_n (put_header 0 [] d) = 0"
  using put_header_spec(2) [of d 0 "replicate 30 0"] by (simp add: put_header_none [of "replicate 30 0"])

lemma commit_writes_other:
  assumes "tx_ok s" "off_log s m" "m \<notin> dirty s"
  shows "apply_writes (take k (commit_writes s)) d m = d m"
proof (rule apply_writes_other)
  have "m \<notin> fst ` set (commit_writes s)"
    using off_log_ne [OF assms(1,2)] tx_entries(2) [OF assms(1)] assms(3) by (force simp: commit_writes_def Let_def)
  then show "m \<notin> fst ` set (take k (commit_writes s))"
    by (meson image_mono set_take_subset subsetD)
qed

text \<open>The state that the boot code hands over to the log.\<close>

lemma boot_cache:
  fixes r :: "'z log_st_scheme"
  assumes "calm r" "bss_bufs r"
  shows "\<exists>a. binit r = Ok () a \<and> bio_ok a \<and> busy a = {} \<and> dirty a = {} \<and> disk a = disk r \<and> wtrace a = wtrace r \<and> disksize a = disksize r \<and>
    log_sector a = log_sector r \<and> (\<forall>m. length (disk r m) = 512) \<and> log_outstanding a = log_outstanding r \<and>
    log_committing a = log_committing r \<and> curproc a = curproc r \<and> log_st.more a = log_st.more r"
proof -
  obtain a where a: "binit r = Ok () a" "bio_ok a" "blk a = disk r" "busy a = {}" "dirty a = {}" "disk a = disk r" "wtrace a = wtrace r"
    "disksize a = disksize r" "curproc a = curproc r"
    and f: "bio_frame (set_lock LkBcache (\<lambda>k. k\<lparr>lname := ''bcache'', locked := 0, lcpu := None\<rparr>) r) a"
    using binit_spec [OF assms] by (elim exE conjE)
  have "log_sector a = log_sector r" "log_outstanding a = log_outstanding r" "log_committing a = log_committing r" "log_st.more a = log_st.more r"
    using bio_frame_log(5-7) [OF f] bio_frame_more [OF f] by (simp_all add: set_lock_def)
  moreover have "length (disk r m) = 512" for m
    using blk_length [OF a(2)] a(3) by metis
  ultimately show ?thesis
    using a by blast
qed

lemma commit_tx:
  assumes "tx_inv s" "busy s = {}"
  shows "\<exists>t. commit s = Ok () t \<and> tx_inv t \<and> busy t = {} \<and> dirty t = {} \<and> log_n t = 0 \<and> log_outstanding t = log_outstanding s \<and>
    log_committing t = log_committing s \<and> log_start t = log_start s \<and> disksize t = disksize s \<and>
    (\<forall>m < log_start s. blk t m = blk s m \<and> disk t m = blk s m)"
proof (cases "0 < log_n s")
  case False
  then have z: "log_n s = 0"
    using assms(1) by (simp add: tx_inv_def)
  then have "dirty s = {}"
    using assms(1) by (simp add: tx_inv_def)
  then show ?thesis
    using assms z commit_empty [of s] bc.cur_store [of s] by (intro exI [of _ s]) (auto simp: tx_inv_def)
next
  case True
  note tx = tx_inv_ok [OF assms]
  define hs e where v: "hs = map (\<lambda>i. (log_sector s ! i, blk s (log_sector s ! i))) [0..<nat (log_n s)]"
    "e = (\<lambda>d. (apply_writes (copies s [0..<nat (log_n s)]) d)(log_start s := put_header (log_n s) (log_sector s) (blk s (log_start s))))"
  obtain t where t: "commit s = Ok () t" "bio_frame (s\<lparr>log_n := 0\<rparr>) t" "quiet t" "dirty t = {}"
    "disk t = apply_writes (commit_writes s) (disk s)"
    using commit_spec [OF tx True] by (elim exE conjE)
  have "disk t m = blk s m" if "m < log_start s" for m
  proof -
    have o: "off_log s m"
      using that by (simp add: off_log_def)
    have "e (disk s) k = disk s k" if "off_log s k" for k
      unfolding v using off_log_ne [OF tx that] by (simp, intro apply_writes_other) (force simp: copies_def)
    then have "apply_writes hs (e (disk s)) m = blk s m"
      by (intro homes_at [OF tx v(1) _ o])
    then show ?thesis
      using off_log_ne(1) [OF tx o] by (simp add: t(5) commit_writes_def Let_def v copies_def)
  qed
  moreover have "blk t = disk t"
    using bc.cur_store [of t] t(3,4) by (auto simp: quiet_def)
  moreover have "tx_inv t"
    using assms(1) t(3,4) bio_frame_log [OF t(2)] bc.frame_size [OF t(2)] by (auto simp: tx_inv_def quiet_def)
  ultimately show ?thesis
    using t bio_frame_log [OF t(2)] bc.frame_size [OF t(2)] by (intro exI [of _ t]) (auto simp: quiet_def)
qed

section \<open>The log as the file system sees it\<close>

definition settled :: "'z log_st_scheme \<Rightarrow> bool" where
  "settled s = (tx_inv s \<and> (\<forall>m. m \<in> dirty s \<or> blk s m = disk s m))"

definition log_frame :: "'z log_st_scheme \<Rightarrow> 'z log_st_scheme \<Rightarrow> bool" where
  "log_frame s t = (\<exists>xs n. bio_frame (s\<lparr>log_sector := xs, log_n := n\<rparr>) t)"

definition log_room :: "'z log_st_scheme \<Rightarrow> nat" where
  "log_room s = unat (log_size s) - 1 - nat (log_n s)"

lemma log_frame_bio: "bio_frame s t \<Longrightarrow> log_frame s t"
  unfolding log_frame_def by (intro exI [of _ "log_sector s"] exI [of _ "log_n s"]) simp

lemma log_frame_add:
  assumes "bio_frame (log_add m s) t"
  shows "log_frame s t"
proof (cases "log_add m s = s")
  case True
  then show ?thesis
    using assms log_frame_bio by simp
next
  case False
  then have "log_add m s = s\<lparr>log_sector := (log_sector s)[nat (log_n s) := m], log_n := log_n s + 1\<rparr>"
    by (auto simp: log_add_def)
  then show ?thesis
    using assms unfolding log_frame_def by metis
qed

lemma log_frame_trans:
  assumes "log_frame s t" "log_frame t u"
  shows "log_frame s u"
proof -
  obtain xs n ys k where 1: "bio_frame (s\<lparr>log_sector := xs, log_n := n\<rparr>) t" and 2: "bio_frame (t\<lparr>log_sector := ys, log_n := k\<rparr>) u"
    using assms unfolding log_frame_def by blast
  from bio_frame_trans [OF bio_frame_log_n [OF bio_frame_log_sector [OF 1]] 2] show ?thesis
    unfolding log_frame_def by (intro exI [of _ ys] exI [of _ k]) simp
qed

lemma log_frame_fields:
  assumes "log_frame s t"
  shows "log_start t = log_start s" "log_size t = log_size s" "log_outstanding t = log_outstanding s" "log_committing t = log_committing s"
    "disksize t = disksize s" "log_dev t = log_dev s"
proof -
  obtain xs n where f: "bio_frame (s\<lparr>log_sector := xs, log_n := n\<rparr>) t"
    using assms unfolding log_frame_def by blast
  show "log_start t = log_start s" "log_size t = log_size s" "log_outstanding t = log_outstanding s" "log_committing t = log_committing s"
    "disksize t = disksize s" "log_dev t = log_dev s"
    using bio_frame_log [OF f] bc.frame_size [OF f] by simp_all
qed

lemma tx_inv_same:
  assumes "tx_inv s" "bio_frame s t" "bio_ok t" "dirty t = dirty s"
  shows "tx_inv t"
  using assms bio_frame_log [OF assms(2)] bc.frame_size [OF assms(2)] by (simp add: tx_inv_def)

lemma tx_card:
  assumes "tx_inv s"
  shows "card (dirty s) = nat (log_n s)" "nat (log_n s) + log_room s < NBUF" "log_start s \<le> disksize s"
proof -
  have n: "nat (log_n s) < unat (log_size s)" "unat (log_size s) \<le> LOGSIZE" "length (log_sector s) = LOGSIZE"
    "distinct (take (nat (log_n s)) (log_sector s))" "dirty s = set (take (nat (log_n s)) (log_sector s))"
    "unat (log_start s) + unat (log_size s) \<le> unat (disksize s)"
    using assms by (simp_all add: tx_inv_def)
  show "card (dirty s) = nat (log_n s)"
    using distinct_card [OF n(4)] n(1-3) by (simp add: n(5))
  show "nat (log_n s) + log_room s < NBUF"
    using n(1,2) by (simp add: log_room_def)
  show "log_start s \<le> disksize s"
    using n(6) by (simp add: word_le_nat_alt)
qed

lemma settled_get:
  assumes "settled s" "n < log_start s" "n \<notin> busy s" "card (busy s) \<le> log_room s"
  shows "\<exists>b t. bread 1 n s = Ok b t \<and> log_frame s t \<and> settled t \<and> held t b n \<and> blk t = blk s \<and> busy t = insert n (busy s) \<and>
        log_room t = log_room s \<and> (\<forall>c m. held s c m \<longrightarrow> held t c m)"
proof -
  have tx: "tx_inv s" "bio_ok s"
    using assms(1) by (simp_all add: settled_def tx_inv_def)
  have "card (busy s \<union> dirty s) < NBUF"
    using card_Un_le [of "busy s" "dirty s"] tx_card [OF tx(1)] assms(4) by simp
  moreover have "n < disksize s"
    using assms(2) tx_card(3) [OF tx(1)] by (rule order_less_le_trans)
  ultimately obtain b t where t: "bread 1 n s = Ok b t" "bio_frame s t" "bio_ok t" "held t b n" "blk t = blk s" "busy t = insert n (busy s)"
    "dirty t = dirty s" "disk t = disk s" "\<forall>c m. held s c m \<longrightarrow> held t c m"
    using bc.get_block [OF tx(2) _ assms(3)] by blast
  then show ?thesis
    using assms(1) tx_inv_same [OF tx(1) t(2,3,7)] log_frame_bio [OF t(2)] bio_frame_log [OF t(2)]
    by (intro exI [of _ b] exI [of _ t]) (simp add: settled_def log_room_def)
qed

lemma settled_update:
  assumes "settled s" "held s b n" "n < log_start s" "length d = 512" "1 \<le> log_outstanding s" "0 < log_room s"
  shows "\<exists>t. log_write b (upd_buf b (\<lambda>q. q\<lparr>b_data := d\<rparr>) s) = Ok () t \<and> log_frame s t \<and> settled t \<and> held t = held s \<and>
    blk t = (blk s)(n := d) \<and> busy t = busy s \<and> log_room s \<le> Suc (log_room t)"
proof -
  have tx: "tx_inv s" "bio_ok s"
    using assms(1) by (simp_all add: settled_def tx_inv_def)
  let ?s = "upd_buf b (\<lambda>q. q\<lparr>b_data := d\<rparr>) s"
  have v: "bio_frame s ?s" "bio_ok ?s" "held ?s = held s" "blk ?s = (blk s)(n := d)" "busy ?s = busy s" "dirty ?s = dirty s" "disk ?s = disk s"
    using bc.set_block [OF tx(2) assms(2,4)] by simp_all
  note f = bio_frame_log [OF v(1)]
  have r: "log_n s + 1 < int (unat (log_size s))"
    using assms(6) unfolding log_room_def by linarith
  then obtain t where t: "log_write b ?s = Ok () t" "bio_frame (log_add n ?s) t" "tx_inv t" "held t = held s" "blk t = (blk s)(n := d)"
    "busy t = busy s" "dirty t = insert n (dirty s)" "disk t = disk s"
    using log_write_spec [of ?s b n] tx_inv_same [OF tx(1) v(1,2,6)] v assms(2,3,5) f by auto
  have "log_n t \<le> log_n s + 1" "log_size t = log_size s"
    using bio_frame_log(2,4) [OF t(2)] f by (auto simp: log_add_def)
  then have "log_room s \<le> Suc (log_room t)"
    by (simp add: log_room_def)
  moreover have "settled t"
    using assms(1) t by (auto simp: settled_def)
  ultimately show ?thesis
    using t log_frame_trans [OF log_frame_bio [OF v(1)] log_frame_add [OF t(2)]] by (intro exI [of _ t]) simp
qed

lemma settled_release:
  assumes "settled s" "held s b n"
  shows "\<exists>t. brelse b s = Ok () t \<and> log_frame s t \<and> settled t \<and> (\<forall>c m. held t c m \<longleftrightarrow> held s c m \<and> c \<noteq> b) \<and>
    blk t = blk s \<and> busy t = busy s - {n} \<and> log_room t = log_room s"
proof -
  have tx: "tx_inv s" "bio_ok s" "n \<in> dirty s \<or> blk s n = disk s n"
    using assms(1) unfolding settled_def tx_inv_def by blast+
  obtain t where t: "brelse b s = Ok () t" "bio_frame s t" "bio_ok t" "\<forall>c m. held t c m \<longleftrightarrow> held s c m \<and> c \<noteq> b"
    "blk t = blk s" "busy t = busy s - {n}" "dirty t = dirty s" "disk t = disk s"
    using bc.rel_block [OF tx(2) assms(2) tx(3)] by (elim exE conjE)
  then show ?thesis
    using assms(1) tx_inv_same [OF tx(1) t(2,3,7)] log_frame_bio [OF t(2)] bio_frame_log [OF t(2)]
    by (intro exI [of _ t]) (simp add: settled_def log_room_def)
qed

interpretation jn: journal "bread 1" log_write brelse "\<lambda>s b. b_data (bufs s b)" "\<lambda>b d. upd_buf b (\<lambda>q. q\<lparr>b_data := d\<rparr>)"
  settled log_frame held blk busy log_room log_start "\<lambda>s. 1 \<le> log_outstanding s"
proof
  fix s t u :: "'a log_st_scheme" and b c n m
  have i: "settled s \<Longrightarrow> bio_ok s"
    by (simp add: settled_def tx_inv_def)
  show "settled s \<Longrightarrow> held s b n \<Longrightarrow> b_data (bufs s b) = blk s n"
    using i bc.hold_data by blast
  show "settled s \<Longrightarrow> held s b n \<Longrightarrow> held s c m \<Longrightarrow> b = c \<or> n = m \<Longrightarrow> b = c \<and> n = m"
    using i bc.hold_inj by blast
  show "settled s \<Longrightarrow> held s b n \<Longrightarrow> n \<in> busy s"
    by (auto simp: held_def busy_def)
  show "settled s \<Longrightarrow> length (blk s n) = 512"
    using i blk_length by blast
  show "log_frame s s"
    using log_frame_bio bc.frame_refl by blast
  show "log_frame s t \<Longrightarrow> log_frame t u \<Longrightarrow> log_frame s u"
    by (rule log_frame_trans)
  show "log_frame s t \<Longrightarrow> log_start t = log_start s \<and> (1 \<le> log_outstanding t) = (1 \<le> log_outstanding s)"
    using log_frame_fields [of s t] by simp
qed (rule settled_get settled_update settled_release; assumption)+

section \<open>Properties\<close>

text \<open>
  C1 (a crash during commit is atomic).  Let a commit start with a clean log on the disk, and let the machine stop after
  any number \<open>k\<close> of its disk writes.  Booting from that disk (\<^verbatim>\<open>binit\<close>, then \<^verbatim>\<open>initlog\<close>) succeeds, and leaves every block outside the
  log as it was before the transaction if at most the log blocks were written, and as the transaction made it as soon as
  the header was written.
\<close>

theorem log_crash_atomic:
  fixes s r :: "'z log_st_scheme"
  assumes "tx_ok s" "0 < log_n s" "hdr_n (disk s (log_start s)) = 0"
    and sb: "1 < log_start s" "1 \<notin> dirty s" "log_start s = log_place (decode_sb (disk s 1))"
    and boot: "calm r" "bss_bufs r" "length (log_sector r) = LOGSIZE" "disksize r = disksize s"
    and disk: "disk r = apply_writes (take k (commit_writes s)) (disk s)"
  shows "(\<exists>t. commit s = Ok () t \<and> wtrace t = wtrace s @ commit_writes s) \<and>
    (\<exists>u. thn binit initlog r = Ok () u \<and> log_n u = 0 \<and> hdr_n (disk u (log_start s)) = 0 \<and>
      (\<forall>m. off_log s m \<longrightarrow> disk u m = (if k \<le> nat (log_n s) then disk s m else blk s m)))"
proof
  show "\<exists>t. commit s = Ok () t \<and> wtrace t = wtrace s @ commit_writes s"
    using commit_spec [OF assms(1,2)] by blast
  note c = crash_commit [OF assms(1,3) disk]
  have one: "off_log s 1"
    using sb(1) by (simp add: off_log_def)
  obtain a where a: "binit r = Ok () a" "bio_ok a" "busy a = {}" "dirty a = {}" "disk a = disk r" "disksize a = disksize r"
    "log_sector a = log_sector r" "\<And>m. length (disk r m) = 512"
    using boot_cache [OF boot(1,2)] by blast
  have "disk r 1 = disk s 1"
    unfolding disk using commit_writes_other [OF assms(1) one sb(2)] .
  moreover have "1 < disksize s"
    using sb(1) tx_facts(5) [OF assms(1)] by (simp add: word_less_nat_alt)
  ultimately obtain u where u: "initlog a = Ok () u" "log_n u = 0" "disk u = recovered (log_start s) (disk r)"
    using initlog_spec [OF a(2-4) _ _ refl] c a(5-7) boot(3,4) sb(3) by auto
  then show "\<exists>u. thn binit initlog r = Ok () u \<and> log_n u = 0 \<and> hdr_n (disk u (log_start s)) = 0 \<and>
      (\<forall>m. off_log s m \<longrightarrow> disk u m = (if k \<le> nat (log_n s) then disk s m else blk s m))"
    using a(1) c hdr_n_cleared [OF a(8)] by (intro exI [of _ u]) (auto simp: kern_simps recovered_def)
qed

text \<open>
  C21 (a crash during recovery is harmless).  Recovery can itself be interrupted after any number of its disk writes: booting
  again from the disk it leaves gives the same disk as the recovery that was not interrupted.
\<close>

theorem log_recovery_restartable:
  fixes r r' :: "'z log_st_scheme"
  assumes boot: "calm r" "bss_bufs r" "length (log_sector r) = LOGSIZE" "calm r'" "bss_bufs r'" "length (log_sector r') = LOGSIZE"
    and sb: "sb = decode_sb (disk r 1)" "1 < log_place sb" "disksize r' = disksize r"
    and wf: "log_wf (disksize r) (log_place sb) (disk r)" "1 \<notin> fst ` set (logged (log_place sb) (disk r))"
    and crash: "disk r' = apply_writes (take k ws) (disk r)"
      "ws = logged (log_place sb) (disk r) @ [(log_place sb, put_header 0 [] (disk r (log_place sb)))]"
  shows "\<exists>t u. thn binit initlog r = Ok () t \<and> wtrace t = wtrace r @ ws \<and> thn binit initlog r' = Ok () u \<and> disk u = disk t"
proof -
  obtain a where a: "binit r = Ok () a" "bio_ok a" "busy a = {}" "dirty a = {}" "disk a = disk r" "wtrace a = wtrace r" "disksize a = disksize r"
    "log_sector a = log_sector r" "\<And>m. length (disk r m) = 512"
    using boot_cache [OF boot(1,2)] by blast
  obtain b where b: "binit r' = Ok () b" "bio_ok b" "busy b = {}" "dirty b = {}" "disk b = disk r'" "disksize b = disksize r"
    "log_sector b = log_sector r'"
    using boot_cache [OF boot(4,5)] sb(3) by auto
  have one: "1 < disksize r"
    using sb(2) wf(1) by (simp add: log_wf_def word_less_nat_alt)
  obtain t where t: "initlog a = Ok () t" "disk t = recovered (log_place sb) (disk r)" "wtrace t = wtrace r @ ws"
    using initlog_spec [OF a(2-4) _ _ refl] wf(1) one boot(3) sb(1) crash(2) by (auto simp: a(5-8))
  note cr = crash_recovery [OF wf(1) a(9) crash(1) [unfolded crash(2)]]
  have "1 \<notin> fst ` set ws"
    using wf(2) sb(2) crash(2) by auto
  then have "disk r' 1 = disk r 1"
    unfolding crash(1) by (intro apply_writes_other) (meson image_mono set_take_subset subsetD)
  then obtain u where "initlog b = Ok () u" "disk u = recovered (log_place sb) (disk r')"
    using initlog_spec [OF b(2-4) _ _ refl] cr one boot(6) sb(1) by (auto simp: b(5-7))
  then show ?thesis
    using a(1) b(1) t cr by (intro exI [of _ t] exI [of _ u]) (simp add: kern_simps)
qed

text \<open>
  C22 (the end of the last operation makes the transaction durable).  When the only operation in progress ends, \<^verbatim>\<open>end_op\<close> returns, the
  log is empty again and open for new operations, no block is left pending, every file system block keeps the content the
  transaction gave it, and that content is on the disk.
\<close>

theorem end_op_durable:
  assumes "tx_inv s" "busy s = {}" "\<not> log_committing s" "log_outstanding s = 1"
  shows "\<exists>t. end_op s = Ok () t \<and> tx_inv t \<and> busy t = {} \<and> dirty t = {} \<and> log_n t = 0 \<and> log_outstanding t = 0 \<and> \<not> log_committing t \<and>
    (\<forall>m < log_start s. blk t m = blk s m \<and> disk t m = blk s m)"
proof -
  let ?s = "s\<lparr>log_outstanding := 0, log_committing := True\<rparr>"
  obtain t where t: "commit ?s = Ok () t" "tx_inv t" "busy t = {}" "dirty t = {}" "log_n t = 0" "log_outstanding t = 0"
    "\<forall>m < log_start s. blk t m = blk s m \<and> disk t m = blk s m"
    using commit_tx [of ?s] assms(1,2) by auto
  have "calm s" "calm t"
    using assms(1) t(2) by (auto simp: tx_inv_def bio_ok_def)
  then have "end_op s = Ok () (wake ChLog (t\<lparr>log_committing := False\<rparr>))"
    using end_op_eq(2) [OF _ assms(3,4) t(1)] by simp
  then show ?thesis
    using t(2-7) by (simp add: wake_def)
qed

text \<open>
  C23 (opening an operation and logging a block).  \<^verbatim>\<open>begin_op\<close> admits an operation exactly when no commit runs and the log could still take
  \<^verbatim>\<open>MAXOPBLOCKS\<close> blocks for each operation in progress; otherwise the caller sleeps on the log, which is left unlocked and
  unchanged.  \<^verbatim>\<open>log_write\<close> adds the block to the transaction unless it is there already, pins its buffer, and changes no content; it
  panics when the log is full and outside of an operation.
\<close>

theorem log_admission:
  fixes s :: "'z log_st_scheme"
  assumes "tx_inv s" "curproc s = Some p" "held s b m" "m < log_start s"
  shows "(\<not> log_committing s \<and> log_n s + (log_outstanding s + 1) * 10 \<le> 30 \<longrightarrow>
      begin_op s = Ok () (s\<lparr>log_outstanding := log_outstanding s + 1\<rparr>)) \<and>
    (log_committing s \<or> 30 < log_n s + (log_outstanding s + 1) * 10 \<longrightarrow>
      begin_op s = Switch (Some ChLog) (hold LkPtable (upd_proc p (\<lambda>q. q\<lparr>p_chan := Some ChLog, p_state := SLEEPING\<rparr>) s))) \<and>
    (log_n s + 1 < int (unat (log_size s)) \<and> 1 \<le> log_outstanding s \<longrightarrow>
      (\<exists>t. log_write b s = Ok () t \<and> tx_inv t \<and> dirty t = insert m (dirty s) \<and> blk t = blk s \<and> disk t = disk s \<and>
        log_n t = (if m \<in> dirty s then log_n s else log_n s + 1))) \<and>
    (log_n s + 1 = int (unat (log_size s)) \<longrightarrow> log_write b s = Panic ''too big a transaction'') \<and>
    (log_n s + 1 < int (unat (log_size s)) \<and> log_outstanding s < 1 \<longrightarrow> log_write b s = Panic ''log_write outside of trans'')"
proof (intro conjI impI)
  have tx: "bio_ok s" "calm s" "0 \<le> log_n s" "unat (log_size s) \<le> LOGSIZE" "dirty s = set (take (nat (log_n s)) (log_sector s))"
    using assms(1) by (auto simp: tx_inv_def bio_ok_def)
  have sz: "sint (log_size s) = int (unat (log_size s))"
    using tx(4) by (intro sint_unat) simp
  show "begin_op s = Ok () (s\<lparr>log_outstanding := log_outstanding s + 1\<rparr>)"
    if "\<not> log_committing s \<and> log_n s + (log_outstanding s + 1) * 10 \<le> 30"
    using begin_op_eq [OF tx(2)] that by simp
  show "begin_op s = Switch (Some ChLog) (hold LkPtable (upd_proc p (\<lambda>q. q\<lparr>p_chan := Some ChLog, p_state := SLEEPING\<rparr>) s))"
    if "log_committing s \<or> 30 < log_n s + (log_outstanding s + 1) * 10"
    using begin_op_waits [OF tx(2) _ assms(2)] that by simp
  show "log_write b s = Panic ''too big a transaction''" if "log_n s + 1 = int (unat (log_size s))"
    using that sz by (simp add: log_write_def)
  show "log_write b s = Panic ''log_write outside of trans''" if "log_n s + 1 < int (unat (log_size s)) \<and> log_outstanding s < 1"
  proof -
    have "log_n s < 30"
      using that tx(4) by linarith
    then show ?thesis
      using that sz by (simp add: log_write_def)
  qed
  show "\<exists>t. log_write b s = Ok () t \<and> tx_inv t \<and> dirty t = insert m (dirty s) \<and> blk t = blk s \<and> disk t = disk s \<and>
      log_n t = (if m \<in> dirty s then log_n s else log_n s + 1)"
    if c: "log_n s + 1 < int (unat (log_size s)) \<and> 1 \<le> log_outstanding s"
  proof -
    obtain t where t: "log_write b s = Ok () t" "bio_frame (log_add m s) t" "tx_inv t" "blk t = blk s" "dirty t = insert m (dirty s)"
      "disk t = disk s"
      using log_write_spec [OF assms(1,3,4)] c by blast
    then show ?thesis
      using bio_frame_log(4) [OF t(2)] tx(5) by (intro exI [of _ t]) (simp add: log_add_def)
  qed
qed

section \<open>Witnesses\<close>

text \<open>A disk of 1000 blocks with a super block, an empty log of 30 blocks at its end, and zeros elsewhere.\<close>

definition demo_disk :: "uint32 \<Rightarrow> uchar list" where
  "demo_disk n = (if n = 1 then le32 1000 @ le32 941 @ le32 200 @ le32 30 @ replicate 496 0 else replicate 512 0)"

definition log_boot :: log_st where
  "log_boot = bio_st.extend (disk_boot\<lparr>disk := demo_disk\<rparr>) (log_st.fields 0 0 0 0 False 0 (replicate 30 0))"

lemma empty_header: "hdr_n (replicate 512 0) = 0" "put_header 0 [] (replicate 512 0) = replicate 512 0"
proof -
  show "hdr_n (replicate 512 0) = 0"
    by (simp add: hdr_n_def slice_def of_le32_def)
  have "le32 0 = replicate 4 0"
    by (simp add: le32_def numeral_eq_Suc)
  then show "put_header 0 [] (replicate 512 0) = replicate 512 0"
    by (simp add: put_header_def splice_def flip: replicate_add)
qed

lemma demo_disk_facts: "length (demo_disk n) = 512" "log_place (decode_sb (demo_disk 1)) = 970" "sb_nlog (decode_sb (demo_disk 1)) = 30"
  "hdr_n (demo_disk 970) = 0" "put_header 0 [] (demo_disk 970) = demo_disk 970"
  by (simp_all add: demo_disk_def log_place_def decode_sb_def slice_def empty_header)

lemma log_boot_facts: "calm log_boot" "bss_bufs log_boot" "disksize log_boot = 1000" "curproc log_boot = Some 1" "disk log_boot = demo_disk"
  "length (log_sector log_boot) = 30" "log_outstanding log_boot = 0" "\<not> log_committing log_boot"
  by (simp_all add: log_boot_def bio_st.extend_def log_st.fields_def disk_boot_def sched_st.extend_def bio_st.fields_def boot_simps
      bss_bufs_def calm_def lock_free_def curproc_def demo_disk_facts(1))

text \<open>Booting from any disk with an empty log of 30 blocks.\<close>

lemma log_boots:
  fixes r :: "'z log_st_scheme"
  assumes r: "calm r" "bss_bufs r" "length (log_sector r) = 30" "log_outstanding r = 0" "\<not> log_committing r" "1 < disksize r"
    and d: "log_place (decode_sb (disk r 1)) = st" "sb_nlog (decode_sb (disk r 1)) = 30" "disk r st = replicate 512 0" "unat st + 30 \<le> unat (disksize r)"
  shows "\<exists>s. thn binit initlog r = Ok () s \<and> settled s \<and> busy s = {} \<and> dirty s = {} \<and> log_n s = 0 \<and> log_start s = st \<and> log_size s = 30 \<and>
     log_outstanding s = 0 \<and> \<not> log_committing s \<and> curproc s = curproc r \<and> disk s = disk r \<and> blk s = disk r \<and> disksize s = disksize r \<and>
     log_st.more s = log_st.more r"
proof -
  obtain a where a: "binit r = Ok () a" "bio_ok a" "busy a = {}" "dirty a = {}" "disk a = disk r" "disksize a = disksize r"
    "length (log_sector a) = 30" "log_outstanding a = 0" "\<not> log_committing a" "curproc a = curproc r" "log_st.more a = log_st.more r"
    using boot_cache [OF r(1,2)] r(3-5) by auto
  have wf: "log_wf (disksize r) st (disk r)"
    using d(4) by (simp add: log_wf_def empty_header d(3))
  have "recovered st (disk r) = disk r"
    by (simp add: recovered_def logged_def empty_header d(3) fun_upd_idem)
  then obtain t where t: "initlog a = Ok () t" "quiet t" "dirty t = {}" "log_start t = st" "log_size t = 30" "log_n t = 0" "disksize t = disksize r"
    "length (log_sector t) = 30" "log_outstanding t = 0" "\<not> log_committing t" "curproc t = curproc r" "disk t = disk r" "log_st.more t = log_st.more r"
    using initlog_spec [OF a(2-4) _ _ refl] wf a(5-11) d(1,2) r(6) by auto
  have "blk t = disk t"
    using bc.cur_store [of t] t(2,3) by (auto simp: quiet_def)
  then show ?thesis
    using a(1) t d(4) by (intro exI [of _ t]) (simp add: kern_simps settled_def tx_inv_def quiet_def)
qed

lemma log_started_on:
  assumes r: "calm r" "bss_bufs r" "disksize r = 1000" "length (log_sector r) = 30" "log_outstanding r = 0" "\<not> log_committing r"
    and d: "disk r 1 = demo_disk 1" "disk r 970 = demo_disk 970"
  shows "\<exists>s. thn binit initlog r = Ok () s \<and> settled s \<and> busy s = {} \<and> dirty s = {} \<and> log_n s = 0 \<and> log_start s = 970 \<and> log_size s = 30 \<and>
     log_outstanding s = 0 \<and> \<not> log_committing s \<and> curproc s = curproc r \<and> disk s = disk r \<and> blk s = disk r \<and> disksize s = 1000"
proof -
  have "disk r 970 = replicate 512 0"
    by (simp add: d demo_disk_def)
  then show ?thesis
    using log_boots [OF r(1,2,4-6), of 970] r(3) by (auto simp: d(1) demo_disk_facts)
qed

lemma log_started:
  "\<exists>s. thn binit initlog log_boot = Ok () s \<and> tx_inv s \<and> busy s = {} \<and> dirty s = {} \<and> log_n s = 0 \<and> log_start s = 970 \<and> log_size s = 30 \<and>
     log_outstanding s = 0 \<and> \<not> log_committing s \<and> curproc s = Some 1 \<and> disk s = demo_disk \<and> disksize s = 1000"
proof -
  have "disk log_boot 1 = demo_disk 1" "disk log_boot 970 = demo_disk 970"
    by (simp_all add: log_boot_facts)
  from log_started_on [OF log_boot_facts(1-3,6-8) this] show ?thesis
    by (elim ex_forward) (auto simp: settled_def log_boot_facts)
qed

text \<open>A transaction with one logged block.\<close>

lemma log_demo:
  "\<exists>s :: log_st. tx_inv s \<and> busy s = {} \<and> dirty s = {5} \<and> log_n s = 1 \<and> log_start s = 970 \<and> log_outstanding s = 1 \<and> \<not> log_committing s \<and>
     disk s = demo_disk \<and> blk s 5 = replicate 512 7 \<and> disksize s = 1000"
proof -
  obtain r :: log_st where r: "tx_inv r" "busy r = {}" "dirty r = {}" "log_n r = 0" "log_start r = 970" "log_size r = 30"
    "log_outstanding r = 0" "\<not> log_committing r" "disk r = demo_disk" "disksize r = 1000"
    using log_started by blast
  define s where "s = r\<lparr>log_outstanding := 1\<rparr>"
  have s: "tx_inv s" "bio_ok s" "busy s = {}" "dirty s = {}" "log_n s = 0" "log_start s = 970" "log_size s = 30" "log_outstanding s = 1"
    "\<not> log_committing s" "disk s = demo_disk" "disksize s = 1000"
    using r by (simp_all add: s_def tx_inv_def)
  obtain b t where t: "bio_frame s t" "bio_ok t" "held t b 5" "busy t = {5}" "dirty t = {}" "disk t = demo_disk"
    using bc.get_block [OF s(2), of 5] s by auto
  define u where "u = upd_buf b (\<lambda>q. q\<lparr>b_data := replicate 512 7\<rparr>) t"
  have u: "bio_frame t u" "bio_ok u" "held u b 5" "blk u 5 = replicate 512 7" "busy u = {5}" "dirty u = {}" "disk u = demo_disk"
    using bc.set_block [OF t(2,3), of "replicate 512 7"] t unfolding u_def by simp_all
  note fu = bio_frame_trans [OF t(1) u(1)]
  obtain v where v: "bio_frame (log_add 5 u) v" "tx_inv v" "held v b 5" "blk v 5 = replicate 512 7" "busy v = {5}" "dirty v = {5}" "disk v = demo_disk"
    using log_write_spec [of u b 5] tx_inv_same [OF s(1) fu u(2)] u bio_frame_log [OF fu] s by auto
  have "log_n v = 1" "log_start v = 970" "log_outstanding v = 1" "\<not> log_committing v" "disksize v = 1000"
    using bio_frame_log [OF v(1)] bc.frame_size [OF v(1)] bio_frame_log [OF fu] bc.frame_size [OF fu] s by (simp_all add: log_add_def)
  moreover obtain w where w: "bio_frame v w" "bio_ok w" "blk w = blk v" "busy w = {}" "dirty w = {5}" "disk w = demo_disk"
    using bc.rel_block [of v b 5] v by (auto simp: tx_inv_def)
  moreover have "tx_inv w"
    by (rule tx_inv_same [OF v(2) w(1,2)]) (simp add: w v)
  ultimately show ?thesis
    using v(4) bio_frame_log [OF w(1)] bc.frame_size [OF w(1)] by (intro exI [of _ w]) simp
qed

lemma apply_writes_length:
  "\<forall>w \<in> set ws. length (snd w) = k \<Longrightarrow> \<forall>m. length (d m) = k \<Longrightarrow> length (apply_writes ws d m) = k"
  by (induction ws arbitrary: d) simp_all

lemma commit_writes_length:
  assumes "tx_ok s" "w \<in> set (commit_writes s)"
  shows "length (snd w) = 512"
proof -
  have "bio_ok s"
    using tx_facts(1) [OF assms(1)] by (simp add: quiet_def)
  then have "length (blk s m) = 512" for m
    by (rule blk_length)
  moreover have "length (put_header 0 [] d) = 512" if "length d = 512" for d
    using put_header_spec(1) [OF that, of 0 "replicate 30 0"] by (simp add: put_header_none [of "replicate 30 0"])
  ultimately show ?thesis
    using commit_header(4) [OF assms(1) refl] assms(2) by (auto simp: commit_writes_def Let_def)
qed

theorem log_crash_atomic_witness:
  "\<exists>(s :: log_st) u. tx_ok s \<and> dirty s = {5} \<and> thn binit initlog (log_boot\<lparr>disk := apply_writes (take 2 (commit_writes s)) (disk s)\<rparr>) = Ok () u \<and>
     disk u 5 = replicate 512 7"
proof -
  obtain s :: log_st where s: "tx_inv s" "busy s = {}" "dirty s = {5}" "log_n s = 1" "log_start s = 970" "disk s = demo_disk"
    "blk s 5 = replicate 512 7" "disksize s = 1000"
    using log_demo by blast
  note tx = tx_inv_ok [OF s(1,2)]
  let ?r = "log_boot\<lparr>disk := apply_writes (take 2 (commit_writes s)) (disk s)\<rparr>"
  have "length (apply_writes (take 2 (commit_writes s)) demo_disk m) = 512" for m
    using commit_writes_length [OF tx] by (intro apply_writes_length) (auto simp: demo_disk_facts dest: in_set_takeD)
  then have "calm ?r" "bss_bufs ?r" "length (log_sector ?r) = 30" "disksize ?r = disksize s" "disk ?r = apply_writes (take 2 (commit_writes s)) (disk s)"
    using log_boot_facts s(6,8) by (simp_all add: bss_bufs_def)
  then obtain u where "thn binit initlog ?r = Ok () u" "\<forall>m. off_log s m \<longrightarrow> disk u m = (if 2 \<le> nat (log_n s) then disk s m else blk s m)"
    using log_crash_atomic [OF tx, of ?r 2] s demo_disk_facts by auto
  moreover have "off_log s 5"
    using s(5) by (simp add: off_log_def)
  ultimately show ?thesis
    using s tx by (intro exI [of _ s] exI [of _ u]) auto
qed

theorem log_recovery_restartable_witness:
  "\<exists>t u. thn binit initlog log_boot = Ok () t \<and> wtrace t = wtrace log_boot @ [(970, demo_disk 970)] \<and>
     thn binit initlog (log_boot\<lparr>disk := demo_disk(970 := demo_disk 970)\<rparr>) = Ok () u \<and> disk u = disk t"
proof -
  have wf: "log_wf 1000 970 demo_disk" "logged 970 demo_disk = []"
    by (simp_all add: log_wf_def logged_def demo_disk_facts)
  let ?r = "log_boot\<lparr>disk := demo_disk(970 := demo_disk 970)\<rparr>"
  have r: "calm ?r" "bss_bufs ?r" "length (log_sector ?r) = 30" "disksize ?r = disksize log_boot"
    using log_boot_facts by (simp_all add: bss_bufs_def demo_disk_facts)
  show ?thesis
    by (rule log_recovery_restartable [OF log_boot_facts(1,2,6) r(1-3), of "decode_sb (demo_disk 1)" 1])
      (simp_all add: log_boot_facts r demo_disk_facts wf)
qed

theorem end_op_durable_witness:
  "\<exists>s t. dirty s = {5} \<and> end_op (s :: log_st) = Ok () t \<and> dirty t = {} \<and> disk t 5 = replicate 512 7"
proof -
  obtain s :: log_st where s: "tx_inv s" "busy s = {}" "dirty s = {5}" "log_outstanding s = 1" "\<not> log_committing s" "log_start s = 970"
    "blk s 5 = replicate 512 7"
    using log_demo by blast
  then show ?thesis
    using end_op_durable [OF s(1,2,5,4)] by auto
qed

theorem log_admission_witness:
  "\<exists>s t b u. begin_op (s :: log_st) = Ok () t \<and> bread 1 7 t = Ok b u \<and> (\<exists>v. log_write b u = Ok () v \<and> dirty v = {7} \<and> log_n v = 1)"
proof -
  obtain s :: log_st where s: "tx_inv s" "busy s = {}" "dirty s = {}" "log_n s = 0" "log_start s = 970" "log_size s = 30"
    "log_outstanding s = 0" "\<not> log_committing s" "curproc s = Some 1" "disksize s = 1000"
    using log_started by blast
  define t where "t = s\<lparr>log_outstanding := 1\<rparr>"
  have c: "calm s"
    using s(1) by (auto simp: tx_inv_def bio_ok_def)
  have t: "tx_inv t" "bio_ok t" "busy t = {}" "dirty t = {}" "log_n t = 0" "log_start t = 970" "log_size t = 30" "log_outstanding t = 1"
    "curproc t = Some 1" "disksize t = 1000"
    using s by (simp_all add: t_def tx_inv_def curproc_def)
  have b: "begin_op s = Ok () t"
    using begin_op_eq [OF c s(8)] s by (simp add: t_def)
  obtain b u where u: "bread 1 7 t = Ok b u" "bio_frame t u" "bio_ok u" "held u b 7" "dirty u = {}"
    using bc.get_block [OF t(2), of 7] t by auto
  have "tx_inv u" "curproc u = Some 1" "log_start u = 970" "log_size u = 30" "log_n u = 0" "log_outstanding u = 1"
    using tx_inv_same [OF t(1) u(2,3)] u(5) t bio_frame_curproc [OF u(2)] bio_frame_log [OF u(2)] by simp_all
  then obtain v where "log_write b u = Ok () v" "dirty v = {7}" "log_n v = 1"
    using log_admission [of u 1 b 7] u by auto
  then show ?thesis
    using u(1) b by blast
qed

end
