(* ===== verification/Balloc.thy ===== *)
theory Balloc
  imports Log
begin

text \<open>
  The block layer of \<^verbatim>\<open>src/fs.c\<close>: the bitmap of blocks in use, with \<^verbatim>\<open>bzero\<close>, \<^verbatim>\<open>balloc\<close> and \<^verbatim>\<open>bfree\<close>.
\<close>

abbreviation (input) IPB :: uint32 where "IPB \<equiv> 8"
abbreviation (input) BPB :: nat where "BPB \<equiv> 4096"

definition IBLOCK :: "uint32 \<Rightarrow> uint32" where
  "IBLOCK i = i div IPB + 2"

definition BBLOCK :: "uint32 \<Rightarrow> uint32 \<Rightarrow> uint32" where
  "BBLOCK b ninodes = b div 4096 + ninodes div IPB + 3"

section \<open>Operations\<close>

text \<open>The bit \<open>bi\<close> of a bitmap block, and the block with the bit set and cleared.\<close>

definition bm_bit :: "uchar list \<Rightarrow> nat \<Rightarrow> bool" where
  "bm_bit d bi = (d ! (bi div 8) AND push_bit (bi mod 8) 1 \<noteq> 0)"

definition bm_set :: "nat \<Rightarrow> uchar list \<Rightarrow> uchar list" where
  "bm_set bi d = d[bi div 8 := d ! (bi div 8) OR push_bit (bi mod 8) 1]"

definition bm_clear :: "nat \<Rightarrow> uchar list \<Rightarrow> uchar list" where
  "bm_clear bi d = d[bi div 8 := d ! (bi div 8) AND NOT (push_bit (bi mod 8) 1)]"

definition bzero :: "uint32 \<Rightarrow> uint32 \<Rightarrow> (unit, 'z log_st_scheme) kern" where
  "bzero dev bno =
     bnd (bread dev bno) (\<lambda>bp.
     thn (md (upd_buf bp (\<lambda>q. q\<lparr>b_data := replicate BSIZE 0\<rparr>))) (
     thn (log_write bp) (
     brelse bp)))"

text \<open>
  The body of the outer loop of \<^verbatim>\<open>balloc\<close>.  Its inner loop only reads the buffer until it finds a clear bit; \<open>find\<close> gives the \<^verbatim>\<open>bi\<close>
  at which it stops.
\<close>

definition balloc_body :: "uint32 \<Rightarrow> superblock \<Rightarrow> nat \<Rightarrow> (uint32 option, 'z log_st_scheme) kern" where
  "balloc_body dev sb b =
       bnd (bread dev (BBLOCK (of_nat b) (sb_ninodes sb))) (\<lambda>bp.
       bnd (rd (\<lambda>s. find (\<lambda>bi. \<not> bm_bit (b_data (bufs s bp)) bi) [0..<min BPB (unat (sb_size sb) - b)])) (\<lambda>r.
       case r of
         Some bi \<Rightarrow>
           thn (md (upd_buf bp (\<lambda>q. q\<lparr>b_data := bm_set bi (b_data q)\<rparr>))) (
           thn (log_write bp) (
           thn (brelse bp) (
           thn (bzero dev (of_nat (b + bi))) (
           ret (Some (of_nat (b + bi)))))))
       | None \<Rightarrow> thn (brelse bp) (ret None)))"

definition balloc :: "uint32 \<Rightarrow> (uint32, 'z log_st_scheme) kern" where
  "balloc dev =
     bnd (readsb dev) (\<lambda>sb.
     bnd (for_find (map (\<lambda>k. k * BPB) [0..<(unat (sb_size sb) + BPB - 1) div BPB]) (balloc_body dev sb)) (\<lambda>r.
     case r of Some b \<Rightarrow> ret b | None \<Rightarrow> panic ''balloc: out of blocks''))"

definition bfree :: "uint32 \<Rightarrow> uint32 \<Rightarrow> (unit, 'z log_st_scheme) kern" where
  "bfree dev b =
     bnd (readsb dev) (\<lambda>sb.
     bnd (bread dev (BBLOCK b (sb_ninodes sb))) (\<lambda>bp.
     bnd (rd (\<lambda>s. bm_bit (b_data (bufs s bp)) (unat b mod BPB))) (\<lambda>used.
     if \<not> used then panic ''freeing free block''
     else
       thn (md (upd_buf bp (\<lambda>q. q\<lparr>b_data := bm_clear (unat b mod BPB) (b_data q)\<rparr>))) (
       thn (log_write bp) (
       brelse bp)))))"

section \<open>Bitmaps\<close>

lemma bm_bit_iff: "bm_bit d bi = bit (d ! (bi div 8)) (bi mod 8)"
proof -
  have "(x AND push_bit n 1 \<noteq> 0) = bit x n" if "n < 8" for x :: uchar and n
    by (metis and_exp_eq_0_iff_not_bit push_bit_of_1)
  then show ?thesis
    unfolding bm_bit_def by simp
qed

lemma bm_length [simp]: "length (bm_set bi d) = length d" "length (bm_clear bi d) = length d"
  by (simp_all add: bm_set_def bm_clear_def)

lemma div_mod_8: "a div 8 = b div 8 \<Longrightarrow> a mod 8 = b mod 8 \<Longrightarrow> a = (b :: nat)"
  by (metis div_mult_mod_eq)

lemma bm_set_bit:
  assumes "bi div 8 < length d"
  shows "bm_bit (bm_set bi d) bj = (bi = bj \<or> bm_bit d bj)"
  using assms by (auto simp: bm_bit_iff bm_set_def nth_list_update bit_simps dest: div_mod_8)

lemma bm_clear_bit:
  assumes "bi div 8 < length d"
  shows "bm_bit (bm_clear bi d) bj = (bi \<noteq> bj \<and> bm_bit d bj)"
  using assms by (auto simp: bm_bit_iff bm_clear_def nth_list_update bit_simps dest: div_mod_8)

lemma bm_clear_set:
  assumes "\<not> bm_bit d bi" "bi div 8 < length d"
  shows "bm_clear bi (bm_set bi d) = d"
proof -
  have "(d ! (bi div 8) OR push_bit (bi mod 8) 1) AND NOT (push_bit (bi mod 8) 1) = d ! (bi div 8)"
    using assms(1) by (intro bit_word_eqI) (auto simp: bit_simps bm_bit_iff)
  then show ?thesis
    using assms(2) by (simp add: bm_clear_def bm_set_def)
qed

section \<open>The allocation state of the disk\<close>

definition sblk :: "'z log_st_scheme \<Rightarrow> superblock" where
  "sblk s = decode_sb (blk s 1)"

definition bblock :: "'z log_st_scheme \<Rightarrow> nat \<Rightarrow> uint32" where
  "bblock s b = BBLOCK (of_nat b) (sb_ninodes (sblk s))"

definition in_use :: "'z log_st_scheme \<Rightarrow> nat \<Rightarrow> bool" where
  "in_use s b = bm_bit (blk s (bblock s b)) (b mod BPB)"

abbreviation nblk :: "'z log_st_scheme \<Rightarrow> nat" where
  "nblk s \<equiv> unat (sb_size (sblk s))"

text \<open>
  The bitmap lies below the log and is not the super block; every free block below the log is neither the super block nor a
  bitmap block; none of the bitmap blocks and none of these free blocks is held by anyone.  Nothing is said of the blocks from the
  log on: the bitmap of a fresh file system shows them as free.
\<close>

definition bm_ok :: "'z log_st_scheme \<Rightarrow> bool" where
  "bm_ok s = (settled s \<and> 1 < log_start s \<and> 1 \<notin> busy s \<and>
     (\<forall>b < nblk s. bblock s b < log_start s \<and> bblock s b \<noteq> 1 \<and> bblock s b \<notin> busy s) \<and>
     (\<forall>b < nblk s. \<not> in_use s b \<and> of_nat b < log_start s \<longrightarrow> of_nat b \<noteq> (1 :: uint32) \<and> of_nat b \<notin> bblock s ` {..<nblk s} \<and> of_nat b \<notin> busy s))"

lemma bblock_div:
  assumes "a < 2 ^ 32" "b < 2 ^ 32" "a div BPB = b div BPB"
  shows "bblock s a = bblock s b"
proof -
  have "(of_nat n :: uint32) div 4096 = of_nat (n div 4096)" if "n < 2 ^ 32" for n
    using that by (simp add: word_arith_nat_div unat_of_nat_lt)
  then show ?thesis
    using assms by (simp add: bblock_def BBLOCK_def)
qed

lemma nblk_lt: "nblk s < 2 ^ 32"
  using unsigned_less [of "sb_size (sblk s)", where 'a = nat] by simp

lemma upd_buf_data: "upd_buf b (\<lambda>q. q\<lparr>b_data := f (b_data q)\<rparr>) x = upd_buf b (\<lambda>q. q\<lparr>b_data := f (b_data (bufs x b))\<rparr>) x"
  by (simp add: upd_buf_def)

lemma views_same:
  assumes "blk t = blk s"
  shows "sblk t = sblk s" "bblock t = bblock s" "in_use t = in_use s"
  using assms by (simp_all add: sblk_def bblock_def in_use_def fun_eq_iff)

lemma bm_ok_same:
  assumes "bm_ok s" "settled t" "blk t = blk s" "busy t = busy s" "log_frame s t"
  shows "bm_ok t"
  using assms views_same [OF assms(3)] jn.jframe [OF assms(5)] by (simp add: bm_ok_def)

section \<open>Scanning the bitmap\<close>

lemma bzero_spec:
  assumes "settled s" "n < log_start s" "n \<notin> busy s" "card (busy s) \<le> log_room s" "1 \<le> log_outstanding s" "0 < log_room s"
  shows "\<exists>t. bzero 1 n s = Ok () t \<and> log_frame s t \<and> settled t \<and> blk t = (blk s)(n := replicate 512 0) \<and> busy t = busy s \<and>
    log_room s \<le> Suc (log_room t) \<and> (\<forall>c m. held s c m \<longrightarrow> held t c m)"
  using jn.change [OF assms, of "\<lambda>_. replicate 512 0" "ret ()"] by (simp add: bzero_def)

lemma find_map: "find P (map f xs) = map_option f (find (P \<circ> f) xs)"
  by (induction xs) simp_all

lemma find_append: "find P (xs @ ys) = (case find P xs of Some x \<Rightarrow> Some x | None \<Rightarrow> find P ys)"
  by (induction xs) simp_all

lemma bm_find:
  assumes "b mod BPB = 0" "b < nblk s"
  shows "find (\<lambda>bi. \<not> bm_bit (blk s (bblock s b)) bi) [0..<min BPB (nblk s - b)] =
    map_option (\<lambda>n. n - b) (find (\<lambda>n. \<not> in_use s n) [b..<min (b + BPB) (nblk s)])"
proof -
  let ?k = "min BPB (nblk s - b)"
  have k: "b + ?k = min (b + BPB) (nblk s)"
    using assms(2) by (simp add: min_def) arith
  have u: "in_use s (b + bi) = bm_bit (blk s (bblock s b)) bi" if "bi < ?k" for bi
  proof -
    have "b + bi < 2 ^ 32" "b < 2 ^ 32"
      using that assms(2) nblk_lt [of s] by linarith+
    moreover have "(b + bi) mod BPB = bi" "(b + bi) div BPB = b div BPB"
      using assms(1) that by (auto simp: mod_add_eq [symmetric] div_add1_eq)
    ultimately show ?thesis
      using bblock_div [of "b + bi" b s] by (simp add: in_use_def)
  qed
  have "[b..<b + ?k] = map (\<lambda>bi. b + bi) [0..<?k]"
    by (simp add: map_add_upt add.commute)
  then have "find (\<lambda>n. \<not> in_use s n) [b..<b + ?k] = map_option (\<lambda>bi. b + bi) (find (\<lambda>bi. \<not> in_use s (b + bi)) [0..<?k])"
    by (simp add: find_map comp_def)
  also have "find (\<lambda>bi. \<not> in_use s (b + bi)) [0..<?k] = find (\<lambda>bi. \<not> bm_bit (blk s (bblock s b)) bi) [0..<?k]"
    by (rule find_cong) (auto simp: u)
  finally show ?thesis
    by (simp add: k option.map_comp comp_def option.map_ident)
qed

definition marked :: "'z log_st_scheme \<Rightarrow> nat \<Rightarrow> uint32 \<Rightarrow> uchar list" where
  "marked s n = (blk s)(bblock s n := bm_set (n mod BPB) (blk s (bblock s n)), of_nat n := replicate 512 0)"

lemma balloc_body_found:
  assumes ok: "bm_ok s" and room: "card (busy s) \<le> log_room s" "2 \<le> log_room s" "card (busy s) < log_room s" "1 \<le> log_outstanding s"
    and b: "b mod BPB = 0" "b < nblk s" and n: "find (\<lambda>n. \<not> in_use s n) [b..<min (b + BPB) (nblk s)] = Some n" and low: "of_nat n < log_start s"
  shows "\<exists>t. balloc_body 1 (sblk s) b s = Ok (Some (of_nat n)) t \<and> log_frame s t \<and> settled t \<and> blk t = marked s n \<and> busy t = busy s \<and>
    log_room s \<le> log_room t + 2 \<and> (\<forall>c m. held s c m \<longrightarrow> held t c m)"
proof -
  have lay: "settled s" "bblock s b < log_start s" "bblock s b \<notin> busy s"
    using ok b(2) by (auto simp: bm_ok_def)
  have n': "b \<le> n" "n < b + BPB" "n < nblk s" "\<not> in_use s n"
    using find_SomeD [OF n] by auto
  obtain k where k: "n = b + k" "k < BPB"
    using n'(1,2) by (metis add_less_cancel_left le_Suc_ex)
  have bn: "bblock s b = bblock s n" "n mod BPB = n - b"
    using b n' k bblock_div [of b n s] nblk_lt [of s] by (auto simp: mod_add_eq [symmetric] div_add1_eq)
  have free: "of_nat n < log_start s" "of_nat n \<notin> busy s" "of_nat n \<noteq> bblock s b"
    using ok n'(3,4) b(2) low by (auto simp: bm_ok_def)
  obtain bp t where t: "bread 1 (bblock s b) s = Ok bp t" "log_frame s t" "settled t" "held t bp (bblock s b)" "blk t = blk s"
    "busy t = insert (bblock s b) (busy s)" "log_room t = log_room s" "\<forall>c m. held s c m \<longrightarrow> held t c m"
    using jn.jget [OF lay room(1)] by (elim exE conjE)
  let ?d = "bm_set (n - b) (blk s (bblock s b))"
  have "log_start t = log_start s" "1 \<le> log_outstanding t"
    using log_frame_fields [OF t(2)] room(4) by simp_all
  then obtain u where u: "log_write bp (upd_buf bp (\<lambda>q. q\<lparr>b_data := ?d\<rparr>) t) = Ok () u" "log_frame t u" "settled u" "held u = held t"
    "blk u = (blk t)(bblock s b := ?d)" "busy u = busy t" "log_room t \<le> Suc (log_room u)"
    using jn.jupd [OF t(3,4), of ?d] lay(2) t(7) room(2) jn.jlength [OF lay(1)] by auto
  obtain v where v: "brelse bp u = Ok () v" "log_frame u v" "settled v" "\<forall>c m. held v c m \<longleftrightarrow> held u c m \<and> c \<noteq> bp" "blk v = blk u"
    "busy v = busy u - {bblock s b}" "log_room v = log_room u"
    using jn.jrel [of u bp "bblock s b"] u(3,4) t(4) by auto
  note fv = log_frame_trans [OF t(2) log_frame_trans [OF u(2) v(2)]]
  have bv: "busy v = busy s" "log_room s \<le> Suc (log_room v)"
    using v(6,7) u(6,7) t(6,7) lay(3) by auto
  have hv: "held v c m" if "held s c m" for c m
    using jn.keep_other [OF lay(1,3) t(3,4) that t(8)] v(4) u(4) t(8) that by simp
  obtain w where w: "bzero 1 (of_nat n) v = Ok () w" "log_frame v w" "settled w" "blk w = (blk v)(of_nat n := replicate 512 0)" "busy w = busy v"
    "log_room v \<le> Suc (log_room w)" "\<forall>c m. held v c m \<longrightarrow> held w c m"
    using bzero_spec [OF v(3), of "of_nat n"] free bv room log_frame_fields [OF fv] by auto
  have "find (\<lambda>bi. \<not> bm_bit (b_data (bufs t bp)) bi) [0..<min BPB (nblk s - b)] = Some (n - b)"
    using bm_find [OF b] n jn.jdata [OF t(3,4)] t(5) by simp
  moreover have "upd_buf bp (\<lambda>q. q\<lparr>b_data := bm_set (n - b) (b_data q)\<rparr>) t = upd_buf bp (\<lambda>q. q\<lparr>b_data := ?d\<rparr>) t"
    using jn.jdata [OF t(3,4)] t(5) by (simp add: upd_buf_def)
  ultimately have "balloc_body 1 (sblk s) b s = Ok (Some (of_nat n)) w"
    using t(1) u(1) v(1) w(1) k(1) by (simp add: balloc_body_def kern_simps bblock_def)
  moreover have "blk w = marked s n"
    unfolding w(4) v(5) u(5) t(5) marked_def bn by (simp add: bn(2))
  moreover have "\<forall>c m. held s c m \<longrightarrow> held w c m"
    using hv w(7) by blast
  ultimately show ?thesis
    using w bv log_frame_trans [OF fv w(2)] by (intro exI [of _ w]) simp
qed

lemma balloc_body_none:
  assumes ok: "bm_ok s" and room: "card (busy s) \<le> log_room s"
    and b: "b mod BPB = 0" "b < nblk s" and n: "find (\<lambda>n. \<not> in_use s n) [b..<min (b + BPB) (nblk s)] = None"
  shows "\<exists>t. balloc_body 1 (sblk s) b s = Ok None t \<and> log_frame s t \<and> settled t \<and> blk t = blk s \<and> busy t = busy s \<and>
    log_room t = log_room s \<and> (\<forall>c m. held s c m \<longrightarrow> held t c m)"
proof -
  have lay: "settled s" "bblock s b < log_start s" "bblock s b \<notin> busy s"
    using ok b(2) by (auto simp: bm_ok_def)
  obtain bp t where t: "bread 1 (bblock s b) s = Ok bp t" "log_frame s t" "settled t" "held t bp (bblock s b)" "blk t = blk s"
    "busy t = insert (bblock s b) (busy s)" "log_room t = log_room s" "\<forall>c m. held s c m \<longrightarrow> held t c m"
    using jn.jget [OF lay room(1)] by (elim exE conjE)
  obtain v where v: "brelse bp t = Ok () v" "log_frame t v" "settled v" "\<forall>c m. held v c m \<longleftrightarrow> held t c m \<and> c \<noteq> bp" "blk v = blk t"
    "busy v = busy t - {bblock s b}" "log_room v = log_room t"
    using jn.jrel [OF t(3,4)] by (elim exE conjE)
  have hv: "held v c m" if "held s c m" for c m
    using jn.keep_other [OF lay(1,3) t(3,4) that t(8)] v(4) t(8) that by simp
  have "find (\<lambda>bi. \<not> bm_bit (b_data (bufs t bp)) bi) [0..<min BPB (nblk s - b)] = None"
    using bm_find [OF b] n jn.jdata [OF t(3,4)] t(5) by simp
  then have "balloc_body 1 (sblk s) b s = Ok None v"
    using t(1) v(1) by (simp add: balloc_body_def kern_simps bblock_def)
  then show ?thesis
    using t v lay(3) log_frame_trans [OF t(2) v(2)] hv by (intro exI [of _ v]) auto
qed

lemma balloc_scan:
  assumes "bm_ok s" "card (busy s) \<le> log_room s" "\<forall>b \<in> set bs. b mod BPB = 0 \<and> b < nblk s"
  defines "r \<equiv> find (\<lambda>n. \<not> in_use s n) (concat (map (\<lambda>b. [b..<min (b + BPB) (nblk s)]) bs))"
  shows "(r = None \<longrightarrow> (\<exists>t. for_find bs (balloc_body 1 (sblk s)) s = Ok None t)) \<and>
    (\<forall>n. r = Some n \<and> of_nat n < log_start s \<and> 2 \<le> log_room s \<and> card (busy s) < log_room s \<and> 1 \<le> log_outstanding s \<longrightarrow>
      (\<exists>t. for_find bs (balloc_body 1 (sblk s)) s = Ok (Some (of_nat n)) t \<and> log_frame s t \<and> settled t \<and> blk t = marked s n \<and>
        busy t = busy s \<and> log_room s \<le> log_room t + 2 \<and> (\<forall>c m. held s c m \<longrightarrow> held t c m)))"
  using assms(1-3) unfolding r_def
proof (induction bs arbitrary: s)
  case (Cons b bs)
  have b: "b mod BPB = 0" "b < nblk s"
    using Cons.prems(3) by simp_all
  show ?case
  proof (cases "find (\<lambda>n. \<not> in_use s n) [b..<min (b + BPB) (nblk s)]")
    case (Some n)
    then have r: "find (\<lambda>n. \<not> in_use s n) (concat (map (\<lambda>b. [b..<min (b + BPB) (nblk s)]) (b # bs))) = Some n"
      by (simp add: find_append)
    show ?thesis
      unfolding r using balloc_body_found [OF Cons.prems(1,2) _ _ _ b Some] by (auto simp: kern_simps)
  next
    case None
    obtain t where t: "balloc_body 1 (sblk s) b s = Ok None t" "log_frame s t" "settled t" "blk t = blk s" "busy t = busy s"
      "log_room t = log_room s" "\<forall>c m. held s c m \<longrightarrow> held t c m"
      using balloc_body_none [OF Cons.prems(1,2) b None] by (elim exE conjE)
    note v = views_same [OF t(4)]
    have "bm_ok t"
      by (rule bm_ok_same [OF Cons.prems(1) t(3-5,2)])
    note ih = Cons.IH [OF this, unfolded v t(5,6)]
    have r: "find (\<lambda>n. \<not> in_use s n) (concat (map (\<lambda>b. [b..<min (b + BPB) (nblk s)]) (b # bs))) =
        find (\<lambda>n. \<not> in_use s n) (concat (map (\<lambda>b. [b..<min (b + BPB) (nblk s)]) bs))"
      using None by (simp add: find_append)
    have m: "marked t n = marked s n" for n
      by (simp add: marked_def t(4) v)
    have f: "for_find (b # bs) (balloc_body 1 (sblk s)) s = for_find bs (balloc_body 1 (sblk s)) t"
      using t(1) by (simp add: kern_simps)
    show ?thesis
      unfolding r f using ih Cons.prems(2,3) log_frame_fields(1,3) [OF t(2)] log_frame_trans [OF t(2)] t(7)
      by (simp add: m) blast
  qed
qed simp

lemma upt_append: "i \<le> j \<Longrightarrow> j \<le> k \<Longrightarrow> [i..<j] @ [j..<k] = [i..<k]"
  by (metis le_add_diff_inverse upt_add_eq_append)

lemma concat_strides:
  "concat (map (\<lambda>b. [b..<min (b + BPB) n]) (map (\<lambda>k. k * BPB) [0..<m])) = [0..<min (m * BPB) n]"
proof (induction m)
  case (Suc m)
  have "[0..<min (m * BPB) n] @ [m * BPB..<min (m * BPB + BPB) n] = [0..<min (Suc m * BPB) n]"
  proof (cases "m * BPB \<le> n")
    case True
    then show ?thesis
      using upt_append [of 0 "m * BPB" "min (Suc m * BPB) n"] by (simp add: add.commute)
  qed simp
  with Suc show ?case
    by simp
qed simp

lemma balloc_spec:
  assumes "bm_ok s" "card (busy s) < log_room s" "2 \<le> log_room s" "1 \<le> log_outstanding s"
  shows "find (\<lambda>n. \<not> in_use s n) [0..<nblk s] = Some n \<Longrightarrow> of_nat n < log_start s \<Longrightarrow>
    \<exists>t. balloc 1 s = Ok (of_nat n) t \<and> log_frame s t \<and> settled t \<and> blk t = marked s n \<and>
        busy t = busy s \<and> log_room s \<le> log_room t + 2 \<and> (\<forall>c m. held s c m \<longrightarrow> held t c m)"
    "find (\<lambda>n. \<not> in_use s n) [0..<nblk s] = None \<Longrightarrow> balloc 1 s = Panic ''balloc: out of blocks''"
proof -
  define bs where "bs = map (\<lambda>k. k * BPB) [0..<(nblk s + BPB - 1) div BPB]"
  have ok: "settled s" "1 < log_start s" "1 \<notin> busy s" "card (busy s) \<le> log_room s"
    using assms(1,2) by (auto simp: bm_ok_def)
  obtain a where a: "readsb 1 s = Ok (sblk s) a" "log_frame s a" "settled a" "blk a = blk s" "busy a = busy s" "log_room a = log_room s"
    "\<forall>c m. held s c m \<longrightarrow> held a c m"
    using jn.look [OF ok, of "\<lambda>d. ret (decode_sb d)"] by (auto simp: readsb_def sblk_def)
  note v = views_same [OF a(4)]
  have oka: "bm_ok a"
    by (rule bm_ok_same [OF assms(1) a(3-5,2)])
  have "k * BPB < nblk s" if "k < (nblk s + BPB - 1) div BPB" for k
    using that by arith
  then have bs: "\<forall>b \<in> set bs. b mod BPB = 0 \<and> b < nblk a"
    unfolding v bs_def by auto
  have "concat (map (\<lambda>b. [b..<min (b + BPB) (nblk s)]) bs) = [0..<nblk s]"
    unfolding bs_def concat_strides by (rule arg_cong [where f = "upt 0"]) (simp add: min_def, arith)
  note scan = balloc_scan [OF oka _ bs, unfolded v a(5,6) this]
  have e: "balloc 1 s = bnd (for_find bs (balloc_body 1 (sblk s))) (\<lambda>x. case x of Some b \<Rightarrow> ret b | None \<Rightarrow> panic ''balloc: out of blocks'') a"
    using a(1) by (simp add: balloc_def kern_simps bs_def)
  show "balloc 1 s = Panic ''balloc: out of blocks''" if "find (\<lambda>n. \<not> in_use s n) [0..<nblk s] = None"
    using scan that ok(4) unfolding e by (auto simp: kern_simps)
  show "\<exists>t. balloc 1 s = Ok (of_nat n) t \<and> log_frame s t \<and> settled t \<and> blk t = marked s n \<and>
        busy t = busy s \<and> log_room s \<le> log_room t + 2 \<and> (\<forall>c m. held s c m \<longrightarrow> held t c m)"
    if r: "find (\<lambda>n. \<not> in_use s n) [0..<nblk s] = Some n" "of_nat n < log_start s"
  proof -
    have "marked a n = marked s n"
      by (simp add: marked_def a(4) v)
    then obtain t where "for_find bs (balloc_body 1 (sblk s)) a = Ok (Some (of_nat n)) t" "log_frame a t" "settled t" "blk t = marked s n"
      "busy t = busy s" "log_room s \<le> log_room t + 2" "\<forall>c m. held a c m \<longrightarrow> held t c m"
      using scan r assms(2-4) ok(4) log_frame_fields(1,3) [OF a(2)] by auto
    then show ?thesis
      unfolding e using log_frame_trans [OF a(2)] a(7) by (intro exI [of _ t]) (simp add: kern_simps)
  qed
qed

lemma bfree_spec:
  assumes "bm_ok s" "card (busy s) \<le> log_room s" "unat b < nblk s"
  shows "in_use s (unat b) \<Longrightarrow> 0 < log_room s \<Longrightarrow> 1 \<le> log_outstanding s \<Longrightarrow>
    \<exists>t. bfree 1 b s = Ok () t \<and> log_frame s t \<and> settled t \<and>
      blk t = (blk s)(bblock s (unat b) := bm_clear (unat b mod BPB) (blk s (bblock s (unat b)))) \<and> busy t = busy s \<and>
      log_room s \<le> Suc (log_room t) \<and> (\<forall>c m. held s c m \<longrightarrow> held t c m)"
    "\<not> in_use s (unat b) \<Longrightarrow> bfree 1 b s = Panic ''freeing free block''"
proof -
  define bb where "bb = bblock s (unat b)"
  have ok: "settled s" "1 < log_start s" "1 \<notin> busy s" "card (busy s) \<le> log_room s" "bb < log_start s" "bb \<notin> busy s"
    using assms by (auto simp: bm_ok_def bb_def)
  obtain a where a: "readsb 1 s = Ok (sblk s) a" "log_frame s a" "settled a" "blk a = blk s" "busy a = busy s" "log_room a = log_room s"
    "\<forall>c m. held s c m \<longrightarrow> held a c m"
    using jn.look [OF ok(1-4), of "\<lambda>d. ret (decode_sb d)"] by (auto simp: readsb_def sblk_def)
  have "bb < log_start a" "bb \<notin> busy a" "card (busy a) \<le> log_room a"
    using ok(4-6) a(5,6) log_frame_fields(1) [OF a(2)] by simp_all
  then obtain bp t where t: "bread 1 bb a = Ok bp t" "log_frame a t" "settled t" "held t bp bb" "blk t = blk s"
    "busy t = insert bb (busy s)" "log_room t = log_room s" "\<forall>c m. held a c m \<longrightarrow> held t c m"
    using jn.jget [OF a(3), of bb] a(4-6) by auto
  have d: "b_data (bufs t bp) = blk s bb"
    using jn.jdata [OF t(3,4)] t(5) by simp
  have bb: "BBLOCK b (sb_ninodes (sblk s)) = bb"
    by (simp add: bb_def bblock_def)
  show "bfree 1 b s = Panic ''freeing free block''" if "\<not> in_use s (unat b)"
    using a(1) t(1) that d by (simp add: bfree_def kern_simps bb in_use_def bb_def)
  show "\<exists>t. bfree 1 b s = Ok () t \<and> log_frame s t \<and> settled t \<and>
      blk t = (blk s)(bblock s (unat b) := bm_clear (unat b mod BPB) (blk s (bblock s (unat b)))) \<and> busy t = busy s \<and>
      log_room s \<le> Suc (log_room t) \<and> (\<forall>c m. held s c m \<longrightarrow> held t c m)"
    if use: "in_use s (unat b)" and room: "0 < log_room s" "1 \<le> log_outstanding s"
  proof -
    let ?d = "bm_clear (unat b mod BPB) (blk s bb)"
    note ft = log_frame_trans [OF a(2) t(2)]
    obtain u where u: "log_write bp (upd_buf bp (\<lambda>q. q\<lparr>b_data := ?d\<rparr>) t) = Ok () u" "log_frame t u" "settled u" "held u = held t"
      "blk u = (blk t)(bb := ?d)" "busy u = busy t" "log_room t \<le> Suc (log_room u)"
      using jn.jupd [OF t(3,4), of ?d] ok(5) t(7) room jn.jlength [OF ok(1)] log_frame_fields [OF ft] by auto
    obtain v where v: "brelse bp u = Ok () v" "log_frame u v" "settled v" "\<forall>c m. held v c m \<longleftrightarrow> held u c m \<and> c \<noteq> bp" "blk v = blk u"
      "busy v = busy u - {bb}" "log_room v = log_room u"
      using jn.jrel [of u bp bb] u(3,4) t(4) by auto
    have hv: "held v c m" if "held s c m" for c m
      using jn.keep_other [OF a(3) _ t(3,4) _ t(8), of c m] a(5,7) ok(6) v(4) u(4) t(8) that by simp
    have "upd_buf bp (\<lambda>q. q\<lparr>b_data := bm_clear (unat b mod BPB) (b_data q)\<rparr>) t = upd_buf bp (\<lambda>q. q\<lparr>b_data := ?d\<rparr>) t"
      by (simp add: upd_buf_def d)
    then have "bfree 1 b s = Ok () v"
      using a(1) t(1) u(1) v(1) use d by (simp add: bfree_def kern_simps bb in_use_def bb_def)
    then show ?thesis
      using u v t ok(6) log_frame_trans [OF ft log_frame_trans [OF u(2) v(2)]] hv unfolding bb_def by (intro exI [of _ v]) auto
  qed
qed

lemma find_upt: "find P [0..<k] = Some n \<longleftrightarrow> n < k \<and> P n \<and> (\<forall>m < n. \<not> P m)"
  by (auto simp: find_Some_iff)

lemma bblock_inj:
  assumes "a < 2 ^ 32" "b < 2 ^ 32" "bblock s a = bblock s b"
  shows "a div BPB = b div BPB"
proof -
  have d: "(of_nat n :: uint32) div 4096 = of_nat (n div 4096)" if "n < 2 ^ 32" for n
    using that by (simp add: word_arith_nat_div unat_of_nat_lt)
  have "(of_nat (a div 4096) :: uint32) = of_nat (b div 4096)"
    using assms by (simp add: bblock_def BBLOCK_def d)
  then have "unat (of_nat (a div 4096) :: uint32) = unat (of_nat (b div 4096) :: uint32)"
    by (rule arg_cong)
  then show ?thesis
    using assms(1,2) by (simp add: unat_of_nat_lt)
qed

lemma bm_ok_free:
  assumes "bm_ok s" "n < nblk s" "\<not> in_use s n" "of_nat n < log_start s"
  shows "of_nat n \<noteq> (1 :: uint32)" "bblock s n \<noteq> 1" "settled s" "m < nblk s \<Longrightarrow> bblock s m \<noteq> of_nat n"
proof -
  have *: "of_nat n \<noteq> (1 :: uint32) \<and> bblock s n \<noteq> 1 \<and> settled s \<and> of_nat n \<notin> bblock s ` {..<nblk s}"
    using assms unfolding bm_ok_def by blast
  then show "of_nat n \<noteq> (1 :: uint32)" "bblock s n \<noteq> 1" "settled s"
    by blast+
  show "bblock s m \<noteq> of_nat n" if "m < nblk s"
  proof
    assume "bblock s m = of_nat n"
    then have "of_nat n \<in> bblock s ` {..<nblk s}"
      using that by (metis imageI lessThan_iff)
    with * show False by blast
  qed
qed

text \<open>The state of the disk after an allocation.\<close>

lemma marked_views_off:
  assumes "bm_ok s" "n < nblk s" "\<not> in_use s n" "of_nat n < log_start s" and x: "\<And>c. c \<notin> X \<Longrightarrow> blk t c = marked s n c"
    and off: "1 \<notin> X" "of_nat n \<notin> X" "\<And>m. m < nblk s \<Longrightarrow> bblock s m \<notin> X"
  shows "sblk t = sblk s" "bblock t = bblock s" "m < nblk s \<Longrightarrow> in_use t m = (m = n \<or> in_use s m)"
    "blk t (of_nat n) = replicate 512 0" "blk t (bblock s n) = bm_set (n mod BPB) (blk s (bblock s n))"
proof -
  note n = bm_ok_free(1-3) [OF assms(1-4)] and ne = bm_ok_free(4) [OF assms(1-4)]
  then have "blk t 1 = blk s 1"
    by (auto simp: x off marked_def)
  then show sb: "sblk t = sblk s" "bblock t = bblock s"
    by (simp_all add: sblk_def bblock_def fun_eq_iff)
  show "blk t (of_nat n) = replicate 512 0" "blk t (bblock s n) = bm_set (n mod BPB) (blk s (bblock s n))"
    using ne [OF assms(2)] assms(2) by (simp_all add: x off marked_def)
  assume m: "m < nblk s"
  have len: "n mod BPB div 8 < length (blk s (bblock s n))"
    using jn.jlength [OF n(3)] by (simp add: less_mult_imp_div_less)
  show "in_use t m = (m = n \<or> in_use s m)"
  proof (cases "bblock s m = bblock s n")
    case True
    then have "m div BPB = n div BPB"
      using m assms(2) nblk_lt [of s] by (intro bblock_inj [of m n s]) auto
    then have "n mod BPB = m mod BPB \<longleftrightarrow> m = n"
      by (metis div_mult_mod_eq)
    then show ?thesis
      using True ne [OF assms(2)] bm_set_bit [OF len] off(3) [OF assms(2)] by (auto simp: in_use_def sb x marked_def)
  next
    case False
    then show ?thesis
      using ne [OF m] off(3) [OF m] by (auto simp: in_use_def sb x marked_def)
  qed
qed

lemma marked_views:
  assumes "bm_ok s" "n < nblk s" "\<not> in_use s n" "of_nat n < log_start s" "blk t = marked s n"
  shows "sblk t = sblk s" "bblock t = bblock s" "m < nblk s \<Longrightarrow> in_use t m = (m = n \<or> in_use s m)"
    "blk t (of_nat n) = replicate 512 0" "blk t (bblock s n) = bm_set (n mod BPB) (blk s (bblock s n))"
  using marked_views_off [OF assms(1-4), of "{}" t] assms(5) by simp_all

lemma marked_ok:
  assumes "bm_ok s" "n < nblk s" "\<not> in_use s n" "of_nat n < log_start s" "blk t = marked s n" "settled t" "busy t = busy s" "log_frame s t"
  shows "bm_ok t"
  using assms(1,6,7) marked_views [OF assms(1-5)] log_frame_fields(1) [OF assms(8)] by (simp add: bm_ok_def)

section \<open>Properties\<close>

text \<open>
  C17 (allocating and freeing blocks).  \<^verbatim>\<open>balloc\<close> returns the lowest block the bitmap shows as free, marks exactly this block
  as in use and zeroes it, as long as that block lies below the log; it panics when no block is free.  \<^verbatim>\<open>bfree\<close> of a block in use clears exactly its bit, and panics for a
  free block.  Freeing what was just allocated brings the bitmap back, byte for byte.
\<close>

theorem balloc_bfree:
  assumes "bm_ok s" "card (busy s) + 3 \<le> log_room s" "1 \<le> log_outstanding s"
  shows "(\<forall>n < nblk s. \<not> in_use s n \<and> (\<forall>m < n. in_use s m) \<and> of_nat n < log_start s \<longrightarrow>
      (\<exists>t. balloc 1 s = Ok (of_nat n) t \<and> settled t \<and> busy t = busy s \<and>
        (\<forall>m < nblk s. in_use t m = (m = n \<or> in_use s m)) \<and> blk t (of_nat n) = replicate 512 0 \<and>
        (\<forall>c. c \<noteq> of_nat n \<and> c \<noteq> bblock s n \<longrightarrow> blk t c = blk s c) \<and>
        (\<exists>u. bfree 1 (of_nat n) t = Ok () u \<and> blk u = (blk s)(of_nat n := replicate 512 0)))) \<and>
    ((\<forall>n < nblk s. in_use s n) \<longrightarrow> balloc 1 s = Panic ''balloc: out of blocks'') \<and>
    (\<forall>n < nblk s. \<not> in_use s n \<longrightarrow> bfree 1 (of_nat n) s = Panic ''freeing free block'')"
proof (intro conjI allI impI)
  have un: "unat (of_nat n :: uint32) = n" if "n < nblk s" for n
    using that nblk_lt [of s] by (intro unat_of_nat_lt) simp
  show "balloc 1 s = Panic ''balloc: out of blocks''" if "\<forall>n < nblk s. in_use s n"
    using balloc_spec(2) [OF assms(1)] assms(2,3) that by (simp add: find_None_iff)
  show "bfree 1 (of_nat n) s = Panic ''freeing free block''" if "n < nblk s" "\<not> in_use s n" for n
    using bfree_spec(2) [OF assms(1), of "of_nat n"] assms(2) that un [OF that(1)] by simp
  fix n assume n: "n < nblk s" "\<not> in_use s n \<and> (\<forall>m < n. in_use s m) \<and> of_nat n < log_start s"
  then obtain t where t: "balloc 1 s = Ok (of_nat n) t" "log_frame s t" "settled t" "blk t = marked s n" "busy t = busy s" "log_room s \<le> log_room t + 2"
    using balloc_spec(1) [OF assms(1) _ _ assms(3), of n] assms(2) by (auto simp: find_upt)
  note v = marked_views [OF assms(1) n(1) _ _ t(4)] and un = un [OF n(1)]
  have ok: "bm_ok t"
    using marked_ok [OF assms(1) n(1) _ _ t(4,3,5,2)] n(2) by simp
  have rt: "card (busy t) \<le> log_room t" "0 < log_room t" "1 \<le> log_outstanding t"
    using t(5,6) assms(2,3) log_frame_fields(3) [OF t(2)] by simp_all
  have "in_use t n" "nblk t = nblk s" "bblock t = bblock s"
    using v n by simp_all
  then obtain u where "bfree 1 (of_nat n) t = Ok () u" "blk u = (blk t)(bblock s n := bm_clear (n mod BPB) (blk t (bblock s n)))"
    using bfree_spec(1) [OF ok rt(1), of "of_nat n"] un n(1) rt by auto
  moreover have "bm_clear (n mod BPB) (blk t (bblock s n)) = blk s (bblock s n)"
  proof -
    have "length (blk s (bblock s n)) = 512"
      using assms(1) by (intro jn.jlength) (simp add: bm_ok_def)
    moreover have "\<not> bm_bit (blk s (bblock s n)) (n mod BPB)"
      using n(2) by (simp add: in_use_def)
    ultimately show ?thesis
      using v(5) n(2) by (simp add: bm_clear_set less_mult_imp_div_less)
  qed
  ultimately show "\<exists>t. balloc 1 s = Ok (of_nat n) t \<and> settled t \<and> busy t = busy s \<and>
        (\<forall>m < nblk s. in_use t m = (m = n \<or> in_use s m)) \<and> blk t (of_nat n) = replicate 512 0 \<and>
        (\<forall>c. c \<noteq> of_nat n \<and> c \<noteq> bblock s n \<longrightarrow> blk t c = blk s c) \<and>
        (\<exists>u. bfree 1 (of_nat n) t = Ok () u \<and> blk u = (blk s)(of_nat n := replicate 512 0))"
    using t(1,3,5) v n bm_ok_free(4) [OF assms(1) n(1) _ _ n(1)] by (intro exI [of _ t]) (auto simp: t(4) marked_def)
qed

section \<open>Witness\<close>

text \<open>A disk on which only block 500 is free; its bitmap is block 28.\<close>

definition full_disk :: "uint32 \<Rightarrow> uchar list" where
  "full_disk n = (if n = 28 then bm_clear 500 (replicate 512 (- 1)) else demo_disk n)"

lemma full_disk_used: "b < BPB \<Longrightarrow> bm_bit (full_disk 28) b \<longleftrightarrow> b \<noteq> 500"
  by (simp add: full_disk_def bm_clear_bit) (auto simp: bm_bit_iff less_mult_imp_div_less)

lemma full_disk_started:
  "\<exists>s :: log_st. bm_ok s \<and> busy s = {} \<and> log_room s = 29 \<and> log_outstanding s = 1 \<and> log_start s = 970 \<and> nblk s = 1000 \<and>
     (\<forall>b < 1000. bblock s b = 28 \<and> in_use s b = (b \<noteq> 500))"
proof -
  let ?r = "log_boot\<lparr>disk := full_disk\<rparr>"
  have len: "length (full_disk m) = 512" for m
    by (simp add: full_disk_def demo_disk_facts)
  have d: "full_disk 1 = demo_disk 1" "full_disk 970 = demo_disk 970"
    by (simp_all add: full_disk_def)
  have "calm ?r" "bss_bufs ?r" "disksize ?r = 1000" "length (log_sector ?r) = 30" "log_outstanding ?r = 0" "\<not> log_committing ?r"
    "disk ?r 1 = demo_disk 1" "disk ?r 970 = demo_disk 970"
    using log_boot_facts by (simp_all add: bss_bufs_def len d)
  then obtain r :: log_st where r: "settled r" "busy r = {}" "log_n r = 0" "log_start r = 970" "log_size r = 30" "blk r = full_disk"
    using log_started_on [of ?r] by auto
  define s where "s = r\<lparr>log_outstanding := 1\<rparr>"
  have s: "settled s" "busy s = {}" "log_room s = 29" "log_start s = 970" "blk s = full_disk" "log_outstanding s = 1"
    using r by (simp_all add: s_def settled_def log_room_def)
  have sb: "sb_size (decode_sb (full_disk 1)) = 1000" "sb_ninodes (decode_sb (full_disk 1)) = 200"
    unfolding d by (simp_all add: demo_disk_def decode_sb_def slice_def)
  have bb: "bblock s b = 28" if "b < 1000" for b
    using that bblock_div [of b 0 s] by (simp add: bblock_def BBLOCK_def sblk_def s(5) sb)
  have "in_use s b = (b \<noteq> 500)" if "b < 1000" for b
    using full_disk_used [of b] that by (simp add: in_use_def bb [OF that] s(5))
  moreover have "nblk s = 1000"
    by (simp add: sblk_def s(5) sb)
  ultimately show ?thesis
    using s bb by (intro exI [of _ s]) (auto simp: bm_ok_def)
qed

theorem balloc_bfree_witness:
  "\<exists>(s :: log_st) t u. balloc 1 s = Ok 500 t \<and> in_use t 500 \<and> bfree 1 500 t = Ok () u \<and> bfree 1 500 s = Panic ''freeing free block''"
proof -
  obtain s :: log_st where s: "bm_ok s" "busy s = {}" "log_room s = 29" "log_outstanding s = 1" "log_start s = 970" "nblk s = 1000"
    "\<forall>b < 1000. bblock s b = 28 \<and> in_use s b = (b \<noteq> 500)"
    using full_disk_started by blast
  then obtain t u where t: "balloc 1 s = Ok 500 t" "\<forall>m < 1000. in_use t m" "bfree 1 500 t = Ok () u"
    using balloc_bfree [of s] by auto
  then have "in_use t 500"
    by simp
  moreover have "bfree 1 500 s = Panic ''freeing free block''"
    using balloc_bfree [of s] s by auto
  ultimately show ?thesis
    using t by blast
qed

end
