(* ===== verification/Inode.thy ===== *)
theory Inode
  imports Balloc
begin

text \<open>
  The inode layer of \<^verbatim>\<open>src/fs.c\<close>: the on-disk inodes, the table of in-memory inodes with its reference counts, and the
  operations \<^verbatim>\<open>ialloc\<close>, \<^verbatim>\<open>iupdate\<close>, \<^verbatim>\<open>iget\<close>, \<^verbatim>\<open>idup\<close>, \<^verbatim>\<open>ilock\<close> and \<^verbatim>\<open>iunlock\<close>.  A pointer to an in-memory inode is its index
  in \<^verbatim>\<open>icache.inode\<close>; a pointer that can be null is an option, so the null checks of \<^verbatim>\<open>ilock\<close> and \<^verbatim>\<open>iunlock\<close> are in the type.
\<close>

section \<open>State\<close>

record dinode =
  d_type :: ushort
  d_major :: ushort
  d_minor :: ushort
  d_nlink :: ushort
  d_size :: uint32
  d_addrs :: "uint32 list"

record inode =
  i_dev :: uint32
  i_inum :: uint32
  i_ref :: int
  i_flags :: uint32
  i_type :: ushort
  i_major :: ushort
  i_minor :: ushort
  i_nlink :: ushort
  i_size :: uint32
  i_addrs :: "uint32 list"

abbreviation (input) I_BUSY :: uint32 where "I_BUSY \<equiv> 1"
abbreviation (input) I_VALID :: uint32 where "I_VALID \<equiv> 2"
abbreviation (input) T_DIR :: ushort where "T_DIR \<equiv> 1"
abbreviation (input) T_FILE :: ushort where "T_FILE \<equiv> 2"
abbreviation (input) T_DEV :: ushort where "T_DEV \<equiv> 3"

record fs_st = log_st +
  icache :: "nat \<Rightarrow> inode"

definition upd_inode :: "nat \<Rightarrow> (inode \<Rightarrow> inode) \<Rightarrow> 'z fs_st_scheme \<Rightarrow> 'z fs_st_scheme" where
  "upd_inode ip f s = s\<lparr>icache := (icache s)(ip := f (icache s ip))\<rparr>"

section \<open>The layout of a disk inode\<close>

fun get_addrs :: "nat \<Rightarrow> nat \<Rightarrow> uchar list \<Rightarrow> uint32 list" where
  "get_addrs 0 off d = []"
| "get_addrs (Suc k) off d = of_le32 (slice off 4 d) # get_addrs k (off + 4) d"

fun put_addrs :: "nat \<Rightarrow> uint32 list \<Rightarrow> uchar list \<Rightarrow> uchar list" where
  "put_addrs off [] d = d"
| "put_addrs off (a # as) d = put_addrs (off + 4) as (splice off (le32 a) d)"

definition get_dinode :: "nat \<Rightarrow> uchar list \<Rightarrow> dinode" where
  "get_dinode off d = \<lparr>d_type = of_le16 (slice off 2 d), d_major = of_le16 (slice (off + 2) 2 d),
     d_minor = of_le16 (slice (off + 4) 2 d), d_nlink = of_le16 (slice (off + 6) 2 d),
     d_size = of_le32 (slice (off + 8) 4 d), d_addrs = get_addrs (NDIRECT + 1) (off + 12) d\<rparr>"

definition put_dinode :: "nat \<Rightarrow> dinode \<Rightarrow> uchar list \<Rightarrow> uchar list" where
  "put_dinode off x d =
     put_addrs (off + 12) (d_addrs x) (
     splice (off + 8) (le32 (d_size x)) (
     splice (off + 6) (le16 (d_nlink x)) (
     splice (off + 4) (le16 (d_minor x)) (
     splice (off + 2) (le16 (d_major x)) (
     splice off (le16 (d_type x)) d)))))"

definition ioff :: "uint32 \<Rightarrow> nat" where
  "ioff inum = 64 * unat (inum mod IPB)"

definition dinode_of :: "inode \<Rightarrow> dinode" where
  "dinode_of i = \<lparr>d_type = i_type i, d_major = i_major i, d_minor = i_minor i, d_nlink = i_nlink i, d_size = i_size i, d_addrs = i_addrs i\<rparr>"

definition load_dinode :: "dinode \<Rightarrow> inode \<Rightarrow> inode" where
  "load_dinode x i = i\<lparr>i_type := d_type x, i_major := d_major x, i_minor := d_minor x, i_nlink := d_nlink x,
     i_size := d_size x, i_addrs := d_addrs x\<rparr>"

section \<open>Operations\<close>

definition iinit :: "(unit, 'z fs_st_scheme) kern" where
  "iinit = initlock LkIcache ''icache''"

text \<open>
  The loop of \<^verbatim>\<open>iget\<close> stops at the first entry in use for the inode; the first free entry is remembered on the way.
\<close>

definition iget :: "uint32 \<Rightarrow> uint32 \<Rightarrow> (nat, 'z fs_st_scheme) kern" where
  "iget dev inum =
     thn (acquire LkIcache) (
     bnd (rd (\<lambda>s. find (\<lambda>ip. i_ref (icache s ip) > 0 \<and> i_dev (icache s ip) = dev \<and> i_inum (icache s ip) = inum) [0..<NINODE])) (\<lambda>r.
     case r of
       Some ip \<Rightarrow>
         thn (md (upd_inode ip (\<lambda>i. i\<lparr>i_ref := i_ref i + 1\<rparr>))) (
         thn (release LkIcache) (
         ret ip))
     | None \<Rightarrow>
         bnd (rd (\<lambda>s. find (\<lambda>ip. i_ref (icache s ip) = 0) [0..<NINODE])) (\<lambda>empty.
         case empty of
           None \<Rightarrow> panic ''iget: no inodes''
         | Some ip \<Rightarrow>
             thn (md (upd_inode ip (\<lambda>i. i\<lparr>i_dev := dev, i_inum := inum, i_ref := 1, i_flags := 0\<rparr>))) (
             thn (release LkIcache) (
             ret ip)))))"

definition idup :: "nat \<Rightarrow> (nat, 'z fs_st_scheme) kern" where
  "idup ip =
     thn (acquire LkIcache) (
     thn (md (upd_inode ip (\<lambda>i. i\<lparr>i_ref := i_ref i + 1\<rparr>))) (
     thn (release LkIcache) (
     ret ip)))"

definition ialloc_body :: "uint32 \<Rightarrow> ushort \<Rightarrow> nat \<Rightarrow> (nat option, 'z fs_st_scheme) kern" where
  "ialloc_body dev type inum =
     bnd (bread dev (IBLOCK (of_nat inum))) (\<lambda>bp.
     bnd (rd (\<lambda>s. d_type (get_dinode (ioff (of_nat inum)) (b_data (bufs s bp))))) (\<lambda>ty.
     if ty = 0 then
       thn (md (upd_buf bp (\<lambda>q. q\<lparr>b_data := splice (ioff (of_nat inum)) (le16 type)
              (splice (ioff (of_nat inum)) (replicate 64 0) (b_data q))\<rparr>))) (
       thn (log_write bp) (
       thn (brelse bp) (
       bnd (iget dev (of_nat inum)) (\<lambda>ip. ret (Some ip)))))
     else thn (brelse bp) (ret None)))"

definition ialloc :: "uint32 \<Rightarrow> ushort \<Rightarrow> (nat, 'z fs_st_scheme) kern" where
  "ialloc dev type =
     bnd (readsb dev) (\<lambda>sb.
     bnd (for_find [1..<unat (sb_ninodes sb)] (ialloc_body dev type)) (\<lambda>r.
     case r of Some ip \<Rightarrow> ret ip | None \<Rightarrow> panic ''ialloc: no inodes''))"

definition iupdate :: "nat \<Rightarrow> (unit, 'z fs_st_scheme) kern" where
  "iupdate ip =
     bnd (rd (\<lambda>s. icache s ip)) (\<lambda>i.
     bnd (bread (i_dev i) (IBLOCK (i_inum i))) (\<lambda>bp.
     thn (md (\<lambda>s. upd_buf bp (\<lambda>q. q\<lparr>b_data := put_dinode (ioff (i_inum i)) (dinode_of (icache s ip)) (b_data q)\<rparr>) s)) (
     thn (log_write bp) (
     brelse bp))))"

text \<open>
  \<open>ilock_loop\<close> is the loop of \<^verbatim>\<open>ilock\<close> and what follows it, entered with \<^verbatim>\<open>icache.lock\<close> held, at first and after each wait; \<open>ilock_load\<close>
  is the part after the lock was taken.
\<close>

definition ilock_load :: "nat \<Rightarrow> (unit, 'z fs_st_scheme) kern" where
  "ilock_load ip =
     bnd (rd (\<lambda>s. icache s ip)) (\<lambda>i.
     whenk (i_flags i AND I_VALID = 0) (
       bnd (bread (i_dev i) (IBLOCK (i_inum i))) (\<lambda>bp.
       bnd (rd (\<lambda>s. get_dinode (ioff (i_inum i)) (b_data (bufs s bp)))) (\<lambda>dip.
       thn (md (upd_inode ip (load_dinode dip))) (
       thn (brelse bp) (
       thn (md (upd_inode ip (\<lambda>i. i\<lparr>i_flags := i_flags i OR I_VALID\<rparr>))) (
       bnd (rd (\<lambda>s. i_type (icache s ip))) (\<lambda>ty.
       if ty = 0 then panic ''ilock: no type'' else ret ()))))))))"

definition ilock_loop :: "nat \<Rightarrow> (unit, 'z fs_st_scheme) kern" where
  "ilock_loop ip =
     bnd (rd (\<lambda>s. i_flags (icache s ip))) (\<lambda>f.
     if f AND I_BUSY \<noteq> 0 then thn (sleep (ChInode ip) (Some LkIcache)) (fault ''sleep returned'')
     else
       thn (md (upd_inode ip (\<lambda>i. i\<lparr>i_flags := i_flags i OR I_BUSY\<rparr>))) (
       thn (release LkIcache) (
       ilock_load ip)))"

definition ilock :: "nat \<Rightarrow> (unit, 'z fs_st_scheme) kern" where
  "ilock ip =
     bnd (rd (\<lambda>s. i_ref (icache s ip))) (\<lambda>ref.
     if ref < 1 then panic ''ilock''
     else thn (acquire LkIcache) (ilock_loop ip))"

definition ilock_resume :: "nat \<Rightarrow> bool \<Rightarrow> (unit, 'z fs_st_scheme) kern" where
  "ilock_resume ip i = thn (sleep_resume LkIcache i) (ilock_loop ip)"

definition iunlock :: "nat \<Rightarrow> (unit, 'z fs_st_scheme) kern" where
  "iunlock ip =
     bnd (rd (\<lambda>s. icache s ip)) (\<lambda>i.
     if i_flags i AND I_BUSY = 0 \<or> i_ref i < 1 then panic ''iunlock''
     else
       thn (acquire LkIcache) (
       thn (md (upd_inode ip (\<lambda>i. i\<lparr>i_flags := i_flags i AND NOT I_BUSY\<rparr>))) (
       thn (wakeup (ChInode ip)) (
       release LkIcache))))"

text \<open>The counters that the process file system shows.\<close>

definition get_number_of_free_inode :: "(int, 'z fs_st_scheme) kern" where
  "get_number_of_free_inode =
     thn (acquire LkIcache) (
     bnd (rd (\<lambda>s. int (length (filter (\<lambda>ip. i_flags (icache s ip) = 0) [0..<NINODE])))) (\<lambda>n.
     thn (release LkIcache) (ret n)))"

definition number_of_valid_inode :: "(int, 'z fs_st_scheme) kern" where
  "number_of_valid_inode =
     thn (acquire LkIcache) (
     bnd (rd (\<lambda>s. int (length (filter (\<lambda>ip. i_flags (icache s ip) AND I_VALID \<noteq> 0) [0..<NINODE])))) (\<lambda>n.
     thn (release LkIcache) (ret n)))"

definition get_number_of_ref :: "(int, 'z fs_st_scheme) kern" where
  "get_number_of_ref =
     thn (acquire LkIcache) (
     bnd (rd (\<lambda>s. sum_list (map (\<lambda>ip. i_ref (icache s ip)) [0..<NINODE]))) (\<lambda>n.
     thn (release LkIcache) (ret n)))"

definition get_number_of_active_inode :: "(int, 'z fs_st_scheme) kern" where
  "get_number_of_active_inode = bnd get_number_of_free_inode (\<lambda>n. ret (int NINODE - n))"

text \<open>A state of the kernel with an empty inode table.\<close>

definition no_inode :: inode where
  "no_inode = \<lparr>i_dev = 0, i_inum = 0, i_ref = 0, i_flags = 0, i_type = 0, i_major = 0, i_minor = 0, i_nlink = 0, i_size = 0,
     i_addrs = replicate (NDIRECT + 1) 0\<rparr>"

definition fs_boot :: fs_st where
  "fs_boot = log_st.extend log_boot (fs_st.fields (\<lambda>_. no_inode))"

lemma fs_boot_facts: "calm fs_boot" "curproc fs_boot = Some 1" "ptable fs_boot = ptable sched_boot" "icache fs_boot = (\<lambda>_. no_inode)"
  by (simp_all add: fs_boot_def log_st.extend_def fs_st.fields_def log_boot_def bio_st.extend_def log_st.fields_def disk_boot_def sched_st.extend_def
      bio_st.fields_def boot_simps calm_def lock_free_def curproc_def)

end
