(* ===== verification/Filedata.thy ===== *)
theory Filedata
  imports Inode
begin

text \<open>
  The content of inodes (\<^verbatim>\<open>src/fs.c\<close>): \<^verbatim>\<open>bmap\<close>, \<^verbatim>\<open>itrunc\<close>, \<^verbatim>\<open>iput\<close>, \<^verbatim>\<open>stati\<close>, \<^verbatim>\<open>readi\<close> and \<^verbatim>\<open>writei\<close>.  The table \<^verbatim>\<open>devsw\<close> of device
  functions (\<^verbatim>\<open>src/file.h\<close>) is an argument of the operations that call through it.  A transfer to or from memory is a list of bytes:
  \<^verbatim>\<open>readi\<close> returns the bytes it stores from \<^verbatim>\<open>dst\<close> on, \<^verbatim>\<open>writei\<close> takes the bytes it finds from \<^verbatim>\<open>src\<close> on.
\<close>

record 's devsw =
  ds_isdir :: "(nat \<Rightarrow> (bool, 's) kern) option"
  ds_iread :: "(nat \<Rightarrow> nat \<Rightarrow> (unit, 's) kern) option"
  ds_read :: "(nat \<Rightarrow> uint32 \<Rightarrow> uint32 \<Rightarrow> (int \<times> uchar list, 's) kern) option"
  ds_write :: "(nat \<Rightarrow> uchar list \<Rightarrow> uint32 \<Rightarrow> (int, 's) kern) option"

type_synonym 'z devs = "nat \<Rightarrow> 'z fs_st_scheme devsw"

record stat =
  st_type :: ushort
  st_dev :: uint32
  st_ino :: uint32
  st_nlink :: ushort
  st_size :: uint32

section \<open>Block addresses\<close>

text \<open>Entry \<open>j\<close> of an indirect block.\<close>

definition get_ent :: "nat \<Rightarrow> uchar list \<Rightarrow> uint32" where
  "get_ent j d = of_le32 (slice (4 * j) 4 d)"

definition put_ent :: "nat \<Rightarrow> uint32 \<Rightarrow> uchar list \<Rightarrow> uchar list" where
  "put_ent j a d = splice (4 * j) (le32 a) d"

definition bmap :: "nat \<Rightarrow> uint32 \<Rightarrow> (uint32, 'z fs_st_scheme) kern" where
  "bmap ip bn =
     bnd (rd (\<lambda>s. icache s ip)) (\<lambda>i.
     if bn < of_nat NDIRECT then
       (if i_addrs i ! unat bn = 0 then
          bnd (balloc (i_dev i)) (\<lambda>addr.
          thn (md (upd_inode ip (\<lambda>i. i\<lparr>i_addrs := (i_addrs i)[unat bn := addr]\<rparr>))) (
          ret addr))
        else ret (i_addrs i ! unat bn))
     else if bn - of_nat NDIRECT < of_nat NINDIRECT then
       bnd (if i_addrs i ! NDIRECT = 0 then
              bnd (balloc (i_dev i)) (\<lambda>addr.
              thn (md (upd_inode ip (\<lambda>i. i\<lparr>i_addrs := (i_addrs i)[NDIRECT := addr]\<rparr>))) (
              ret addr))
            else ret (i_addrs i ! NDIRECT)) (\<lambda>ind.
       bnd (bread (i_dev i) ind) (\<lambda>bp.
       bnd (rd (\<lambda>s. get_ent (unat (bn - of_nat NDIRECT)) (b_data (bufs s bp)))) (\<lambda>a.
       bnd (if a = 0 then
              bnd (balloc (i_dev i)) (\<lambda>addr.
              thn (md (upd_buf bp (\<lambda>q. q\<lparr>b_data := put_ent (unat (bn - of_nat NDIRECT)) addr (b_data q)\<rparr>))) (
              thn (log_write bp) (
              ret addr)))
            else ret a) (\<lambda>addr.
       thn (brelse bp) (
       ret addr)))))
     else panic ''bmap: out of range'')"

definition itrunc :: "nat \<Rightarrow> (unit, 'z fs_st_scheme) kern" where
  "itrunc ip =
     thn (for_each [0..<NDIRECT] (\<lambda>k.
       bnd (rd (\<lambda>s. icache s ip)) (\<lambda>i.
       whenk (i_addrs i ! k \<noteq> 0) (
         thn (bfree (i_dev i) (i_addrs i ! k)) (
         md (upd_inode ip (\<lambda>i. i\<lparr>i_addrs := (i_addrs i)[k := 0]\<rparr>))))))) (
     bnd (rd (\<lambda>s. icache s ip)) (\<lambda>i.
     thn (whenk (i_addrs i ! NDIRECT \<noteq> 0) (
       bnd (bread (i_dev i) (i_addrs i ! NDIRECT)) (\<lambda>bp.
       thn (for_each [0..<NINDIRECT] (\<lambda>j.
         bnd (rd (\<lambda>s. get_ent j (b_data (bufs s bp)))) (\<lambda>a.
         whenk (a \<noteq> 0) (bfree (i_dev i) a)))) (
       thn (brelse bp) (
       thn (bfree (i_dev i) (i_addrs i ! NDIRECT)) (
       md (upd_inode ip (\<lambda>i. i\<lparr>i_addrs := (i_addrs i)[NDIRECT := 0]\<rparr>)))))))) (
     thn (md (upd_inode ip (\<lambda>i. i\<lparr>i_size := 0\<rparr>))) (
     iupdate ip))))"

definition iput :: "nat \<Rightarrow> (unit, 'z fs_st_scheme) kern" where
  "iput ip =
     thn (acquire LkIcache) (
     bnd (rd (\<lambda>s. icache s ip)) (\<lambda>i.
     thn (whenk (i_ref i = 1 \<and> i_flags i AND I_VALID \<noteq> 0 \<and> i_nlink i = 0) (
       if i_flags i AND I_BUSY \<noteq> 0 then panic ''iput busy''
       else
         thn (md (upd_inode ip (\<lambda>i. i\<lparr>i_flags := i_flags i OR I_BUSY\<rparr>))) (
         thn (release LkIcache) (
         thn (itrunc ip) (
         thn (md (upd_inode ip (\<lambda>i. i\<lparr>i_type := 0\<rparr>))) (
         thn (iupdate ip) (
         thn (acquire LkIcache) (
         thn (md (upd_inode ip (\<lambda>i. i\<lparr>i_flags := 0\<rparr>))) (
         wakeup (ChInode ip)))))))))) (
     thn (md (upd_inode ip (\<lambda>i. i\<lparr>i_ref := i_ref i - 1\<rparr>))) (
     release LkIcache))))"

definition iunlockput :: "nat \<Rightarrow> (unit, 'z fs_st_scheme) kern" where
  "iunlockput ip = thn (iunlock ip) (iput ip)"

definition stati :: "nat \<Rightarrow> (stat, 'z fs_st_scheme) kern" where
  "stati ip = rd (\<lambda>s. let i = icache s ip in
     \<lparr>st_type = i_type i, st_dev = i_dev i, st_ino = i_inum i, st_nlink = i_nlink i, st_size = i_size i\<rparr>)"

section \<open>Reading and writing\<close>

text \<open>
  The iterations of the loops of \<^verbatim>\<open>readi\<close> and \<^verbatim>\<open>writei\<close>: the values of \<^verbatim>\<open>tot\<close>, \<^verbatim>\<open>off\<close> and \<^verbatim>\<open>m\<close>, for \<open>r\<close> bytes that remain.
\<close>

function chunks :: "uint32 \<Rightarrow> uint32 \<Rightarrow> uint32 \<Rightarrow> (uint32 \<times> uint32 \<times> uint32) list" where
  "chunks tot off r = (if r = 0 then []
     else let m = min r (of_nat BSIZE - off mod of_nat BSIZE) in (tot, off, m) # chunks (tot + m) (off + m) (r - m))"
  by auto

lemma chunk_pos:
  fixes off r :: uint32
  assumes "r \<noteq> 0"
  shows "0 < unat (min r (512 - off mod 512))" "unat (min r (512 - off mod 512)) \<le> unat r"
    "unat (r - min r (512 - off mod 512)) = unat r - unat (min r (512 - off mod 512))"
    "unat (512 - off mod 512 :: uint32) = 512 - unat off mod 512"
proof -
  have o: "unat (off mod 512) = unat off mod 512"
    by (simp add: unat_mod)
  have le: "off mod 512 \<le> 512"
    by (simp add: word_le_nat_alt o)
  show u: "unat (512 - off mod 512 :: uint32) = 512 - unat off mod 512"
    using unat_sub [OF le] by (simp add: o)
  have m: "unat (min r (512 - off mod 512)) = min (unat r) (512 - unat off mod 512)"
    using u by (auto simp: min_def word_le_nat_alt)
  have "unat r \<noteq> 0"
    using assms by (simp add: unat_eq_zero)
  then show "0 < unat (min r (512 - off mod 512))"
    unfolding m by simp
  show "unat (min r (512 - off mod 512)) \<le> unat r"
    unfolding m by simp
  show "unat (r - min r (512 - off mod 512)) = unat r - unat (min r (512 - off mod 512))"
    by (rule unat_sub) simp
qed

termination chunks
proof (relation "measure (\<lambda>(tot, off, r). unat r)")
  fix tot off r m :: uint32
  assume "r \<noteq> 0" and m: "m = min r (of_nat BSIZE - off mod of_nat BSIZE)"
  then have "unat (r - m) < unat r"
    using chunk_pos(1-3) [of r off] by simp
  then show "((tot + m, off + m, r - m), tot, off, r) \<in> measure (\<lambda>(tot, off, r). unat r)"
    by simp
qed simp

declare chunks.simps [simp del]

definition readi :: "'z devs \<Rightarrow> nat \<Rightarrow> uint32 \<Rightarrow> uint32 \<Rightarrow> (int \<times> uchar list, 'z fs_st_scheme) kern" where
  "readi devsw ip off n =
     bnd (rd (\<lambda>s. icache s ip)) (\<lambda>i.
     if i_type i = T_DEV then
       (if sint (i_major i) < 0 \<or> sint (i_major i) \<ge> int NDEV then ret (- 1, [])
        else case ds_read (devsw (unat (i_major i))) of
          None \<Rightarrow> ret (- 1, [])
        | Some f \<Rightarrow> f ip off n)
     else if off > i_size i \<or> off + n < off then ret (- 1, [])
     else
       let n = (if off + n > i_size i then i_size i - off else n) in
       bnd (mapk (chunks 0 off n) (\<lambda>(tot, off, m).
         bnd (bmap ip (off div of_nat BSIZE)) (\<lambda>a.
         bnd (bread (i_dev i) a) (\<lambda>bp.
         bnd (rd (\<lambda>s. slice (unat (off mod of_nat BSIZE)) (unat m) (b_data (bufs s bp)))) (\<lambda>bs.
         thn (brelse bp) (
         ret bs)))))) (\<lambda>bss.
       ret (sint n, concat bss)))"

definition writei :: "'z devs \<Rightarrow> nat \<Rightarrow> uchar list \<Rightarrow> uint32 \<Rightarrow> uint32 \<Rightarrow> (int, 'z fs_st_scheme) kern" where
  "writei devsw ip src off n =
     bnd (rd (\<lambda>s. icache s ip)) (\<lambda>i.
     if i_type i = T_DEV then
       (if sint (i_major i) < 0 \<or> sint (i_major i) \<ge> int NDEV then ret (- 1)
        else case ds_write (devsw (unat (i_major i))) of
          None \<Rightarrow> ret (- 1)
        | Some f \<Rightarrow> f ip src n)
     else if off > i_size i \<or> off + n < off then ret (- 1)
     else if off + n > of_nat (MAXFILE * BSIZE) then ret (- 1)
     else
       thn (for_each (chunks 0 off n) (\<lambda>(tot, off, m).
         bnd (bmap ip (off div of_nat BSIZE)) (\<lambda>a.
         bnd (bread (i_dev i) a) (\<lambda>bp.
         thn (md (upd_buf bp (\<lambda>q. q\<lparr>b_data := splice (unat (off mod of_nat BSIZE)) (slice (unat tot) (unat m) src) (b_data q)\<rparr>))) (
         thn (log_write bp) (
         brelse bp)))))) (
       thn (whenk (n > 0 \<and> off + n > i_size i) (
         thn (md (upd_inode ip (\<lambda>i. i\<lparr>i_size := off + n\<rparr>))) (
         iupdate ip))) (
       ret (sint n))))"

end
