(* ===== verification/Dir.thy ===== *)
theory Dir
  imports Filedata
begin

text \<open>
  Directories and path names (\<^verbatim>\<open>src/fs.c\<close>): \<^verbatim>\<open>namecmp\<close>, \<^verbatim>\<open>dirlookup\<close>, \<^verbatim>\<open>dirlink\<close>, \<^verbatim>\<open>skipelem\<close>, \<^verbatim>\<open>namex\<close>, \<^verbatim>\<open>namei\<close> and \<^verbatim>\<open>nameiparent\<close>.  A C string
  is the list of its bytes before the NUL; reading past the end of the list reads the NUL.
\<close>

section \<open>Strings as lists\<close>

definition chr_at :: "uchar list \<Rightarrow> uchar" where
  "chr_at xs = (case xs of [] \<Rightarrow> 0 | x # _ \<Rightarrow> x)"

fun strncmp_list :: "nat \<Rightarrow> uchar list \<Rightarrow> uchar list \<Rightarrow> int" where
  "strncmp_list 0 p q = 0"
| "strncmp_list (Suc n) p q =
     (if chr_at p \<noteq> 0 \<and> chr_at p = chr_at q then strncmp_list n (tl p) (tl q) else uint (chr_at p) - uint (chr_at q))"

definition strncpy_list :: "nat \<Rightarrow> uchar list \<Rightarrow> uchar list" where
  "strncpy_list n t = take n (takeWhile (\<lambda>c. c \<noteq> 0) t @ replicate n 0)"

definition namecmp :: "uchar list \<Rightarrow> uchar list \<Rightarrow> int" where
  "namecmp s t = strncmp_list DIRSIZ s t"

section \<open>Directory entries\<close>

record dirent =
  de_inum :: ushort
  de_name :: "uchar list"

definition get_dirent :: "uchar list \<Rightarrow> dirent" where
  "get_dirent d = \<lparr>de_inum = of_le16 (take 2 d), de_name = take DIRSIZ (drop 2 d)\<rparr>"

definition put_dirent :: "dirent \<Rightarrow> uchar list" where
  "put_dirent de = le16 (de_inum de) @ de_name de"

text \<open>\<^verbatim>\<open>IS_DEV_DIR(ip)\<close> of \<^verbatim>\<open>src/file.h\<close>; the index into \<^verbatim>\<open>devsw\<close> is not checked there.\<close>

definition IS_DEV_DIR :: "'z devs \<Rightarrow> nat \<Rightarrow> (bool, 'z fs_st_scheme) kern" where
  "IS_DEV_DIR devsw ip =
     bnd (rd (\<lambda>s. icache s ip)) (\<lambda>i.
     if i_type i \<noteq> T_DEV then ret False
     else if sint (i_major i) < 0 \<or> sint (i_major i) \<ge> int NDEV then fault ''devsw out of bounds''
     else case ds_isdir (devsw (unat (i_major i))) of None \<Rightarrow> ret False | Some f \<Rightarrow> f ip)"

section \<open>Operations\<close>

text \<open>
  The loop of \<^verbatim>\<open>dirlookup\<close> from offset \<open>off\<close> on.  For a device the loop has no bound of its own; \<open>fuel\<close> counts its iterations and
  its exhaustion is the outcome \<open>Diverge\<close>.
\<close>

fun dirlookup_from :: "'z devs \<Rightarrow> nat \<Rightarrow> nat \<Rightarrow> uchar list \<Rightarrow> uint32 \<Rightarrow> ((nat \<times> uint32) option, 'z fs_st_scheme) kern" where
  "dirlookup_from devsw 0 dp name off = (\<lambda>s. Diverge)"
| "dirlookup_from devsw (Suc fuel) dp name off =
     bnd (rd (\<lambda>s. icache s dp)) (\<lambda>i.
     if \<not> (off < i_size i \<or> i_type i = T_DEV) then ret None
     else
       bnd (readi devsw dp off 16) (\<lambda>(r, bs).
       if r \<noteq> 16 then (if i_type i = T_DEV then ret None else panic ''dirlink read'')
       else let de = get_dirent bs in
         if de_inum de = 0 then dirlookup_from devsw fuel dp name (off + 16)
         else if namecmp name (de_name de) = 0 then
           bnd (iget (i_dev i) (ucast (de_inum de))) (\<lambda>ip.
           bnd (rd (\<lambda>s. i_flags (icache s ip))) (\<lambda>f.
           thn (if f AND I_VALID = 0 \<and> i_type i = T_DEV then
                  (if sint (i_major i) < 0 \<or> sint (i_major i) \<ge> int NDEV then fault ''devsw out of bounds''
                   else case ds_iread (devsw (unat (i_major i))) of None \<Rightarrow> ret () | Some g \<Rightarrow> g dp ip)
                else ret ()) (
           ret (Some (ip, off)))))
         else dirlookup_from devsw fuel dp name (off + 16)))"

definition dirlookup :: "'z devs \<Rightarrow> nat \<Rightarrow> uchar list \<Rightarrow> ((nat \<times> uint32) option, 'z fs_st_scheme) kern" where
  "dirlookup devsw dp name =
     bnd (rd (\<lambda>s. icache s dp)) (\<lambda>i.
     bnd (IS_DEV_DIR devsw dp) (\<lambda>dd.
     if i_type i \<noteq> T_DIR \<and> \<not> dd then panic ''dirlookup not DIR''
     else dirlookup_from devsw (2 ^ 28) dp name 0))"

definition dirlink :: "'z devs \<Rightarrow> nat \<Rightarrow> uchar list \<Rightarrow> uint32 \<Rightarrow> (int, 'z fs_st_scheme) kern" where
  "dirlink devsw dp name inum =
     bnd (dirlookup devsw dp name) (\<lambda>r.
     case r of
       Some (ip, _) \<Rightarrow> thn (iput ip) (ret (- 1))
     | None \<Rightarrow>
         bnd (rd (\<lambda>s. (unat (i_size (icache s dp)) + 15) div 16)) (\<lambda>k.
         bnd (for_find (map (\<lambda>j. 16 * j) [0..<k]) (\<lambda>off.
           bnd (readi devsw dp (of_nat off) 16) (\<lambda>(r, bs).
           if r \<noteq> 16 then panic ''dirlink read''
           else if de_inum (get_dirent bs) = 0 then ret (Some off)
           else ret None))) (\<lambda>free.
         let off = (case free of Some off \<Rightarrow> off | None \<Rightarrow> 16 * k) in
         bnd (writei devsw dp (put_dirent \<lparr>de_inum = ucast inum, de_name = strncpy_list DIRSIZ name\<rparr>) (of_nat off) 16) (\<lambda>r.
         if r \<noteq> 16 then panic ''dirlink'' else ret 0))))"

text \<open>\<open>None\<close> when there is no element to remove; otherwise the rest of the path and the element, cut at \<^verbatim>\<open>DIRSIZ\<close> bytes.\<close>

definition skipelem :: "uchar list \<Rightarrow> (uchar list \<times> uchar list) option" where
  "skipelem path =
     (let path = dropWhile (\<lambda>c. c = 47) path in
      if path = [] then None
      else
        let name = takeWhile (\<lambda>c. c \<noteq> 47) path;
            path = dropWhile (\<lambda>c. c \<noteq> 47) path
        in Some (dropWhile (\<lambda>c. c = 47) path, take DIRSIZ name))"

lemma skipelem_shorter: "skipelem path = Some (rest, name) \<Longrightarrow> length rest < length path"
proof -
  assume s: "skipelem path = Some (rest, name)"
  define p where "p = dropWhile (\<lambda>c. c = 47) path"
  have p: "p \<noteq> []" "length p \<le> length path" "hd p \<noteq> 47"
    using s hd_dropWhile [of "\<lambda>c. c = 47" path] by (auto simp: skipelem_def p_def Let_def length_dropWhile_le split: if_splits)
  have r: "rest = dropWhile (\<lambda>c. c = 47) (dropWhile (\<lambda>c. c \<noteq> 47) p)"
    using s by (auto simp: skipelem_def p_def Let_def split: if_splits)
  have "length (dropWhile (\<lambda>c. c \<noteq> 47) p) < length p"
    using p by (cases p) (auto simp: length_dropWhile_le less_Suc_eq_le)
  then have "length rest < length p"
    unfolding r using length_dropWhile_le [of "\<lambda>c. c = 47" "dropWhile (\<lambda>c. c \<noteq> 47) p"] by simp
  then show ?thesis
    using p(2) by simp
qed

text \<open>
  The loop of \<^verbatim>\<open>namex\<close> at the inode \<open>ip\<close>.  The result is the inode and the last element copied to \<^verbatim>\<open>name\<close>.
\<close>

function namex_from :: "'z devs \<Rightarrow> uchar list \<Rightarrow> bool \<Rightarrow> uchar list \<Rightarrow> nat \<Rightarrow> ((nat \<times> uchar list) option, 'z fs_st_scheme) kern" where
  "namex_from devsw path nameiparent name ip =
     (case skipelem path of
        None \<Rightarrow> if nameiparent then thn (iput ip) (ret None) else ret (Some (ip, name))
      | Some (path', name') \<Rightarrow>
          thn (ilock ip) (
          bnd (rd (\<lambda>s. i_type (icache s ip))) (\<lambda>ty.
          bnd (if ty = T_DIR then ret True else IS_DEV_DIR devsw ip) (\<lambda>isdir.
          if \<not> isdir then thn (iunlockput ip) (ret None)
          else if nameiparent \<and> path' = [] then thn (iunlock ip) (ret (Some (ip, name')))
          else
            bnd (dirlookup devsw ip name') (\<lambda>r.
            case r of
              None \<Rightarrow> thn (iunlockput ip) (ret None)
            | Some (next, _) \<Rightarrow> thn (iunlockput ip) (namex_from devsw path' nameiparent name' next))))))"
  by auto
termination
  by (relation "measure (\<lambda>(devsw, path, b, name, ip). length path)") (auto dest: skipelem_shorter)

declare namex_from.simps [simp del]

definition namex :: "'z devs \<Rightarrow> uchar list \<Rightarrow> bool \<Rightarrow> ((nat \<times> uchar list) option, 'z fs_st_scheme) kern" where
  "namex devsw path nameiparent =
     bnd (if chr_at path = 47 then iget ROOTDEV ROOTINO
          else with_proc (\<lambda>p. bnd (rd (\<lambda>s. p_cwd (ptable s p))) (\<lambda>cwd.
            case cwd of None \<Rightarrow> fault ''null inode'' | Some c \<Rightarrow> idup c))) (\<lambda>ip.
     namex_from devsw path nameiparent [] ip)"

definition namei :: "'z devs \<Rightarrow> uchar list \<Rightarrow> (nat option, 'z fs_st_scheme) kern" where
  "namei devsw path = bnd (namex devsw path False) (\<lambda>r. ret (map_option fst r))"

definition nameiparent :: "'z devs \<Rightarrow> uchar list \<Rightarrow> ((nat \<times> uchar list) option, 'z fs_st_scheme) kern" where
  "nameiparent devsw path = namex devsw path True"

end
