(* ===== verification/Ring.thy ===== *)
theory Ring
  imports Prelude
begin

text \<open>
  Ring buffers with free running 32-bit counters, as \<^verbatim>\<open>src/pipe.c\<close> and \<^verbatim>\<open>src/console.c\<close> keep them: position \<open>k\<close> of the stream is in cell
  \<open>k mod N\<close>, the bytes between the read counter \<open>r\<close> and the write counter \<open>w\<close> are the content.  The counters wrap around, so the
  size of the buffer has to divide \<open>2 ^ 32\<close>; that is the law of the locale.
\<close>

definition ring_list :: "nat \<Rightarrow> (nat \<Rightarrow> 'a) \<Rightarrow> uint32 \<Rightarrow> uint32 \<Rightarrow> 'a list" where
  "ring_list N cell r w = map (\<lambda>i. cell (unat (r + of_nat i) mod N)) [0..<unat (w - r)]"

lemma length_ring_list [simp]: "length (ring_list N cell r w) = unat (w - r)"
  by (simp add: ring_list_def)

lemma ring_list_empty [simp]: "ring_list N cell r r = []"
  by (simp add: ring_list_def)

lemma ring_list_Nil_iff: "ring_list N cell r w = [] \<longleftrightarrow> r = w"
  by (metis length_0_conv length_ring_list ring_list_empty right_minus_eq unat_0_iff)

lemma unat_dec: "(x :: uint32) \<noteq> 0 \<Longrightarrow> unat (x - 1) = unat x - 1"
  by (rule unat_minus_one)

locale ring =
  fixes N :: nat
  assumes pos: "0 < N"
    and small: "N < 2 ^ 32"
    and wraps: "N dvd 2 ^ 32"
begin

lemma unat_add_mod: "unat (x + y :: uint32) mod N = (unat x + unat y) mod N"
  using wraps by (simp add: unat_word_ariths mod_mod_cancel)

lemma unat_of_nat_mod: "unat (of_nat k :: uint32) mod N = k mod N"
  using wraps by (simp add: unat_of_nat mod_mod_cancel)

text \<open>Two positions less than \<open>N\<close> apart are in different cells.\<close>

lemma cell_distinct:
  assumes "j < unat (w - r)" "unat (w - r) < N"
  shows "unat (r + of_nat j) mod N \<noteq> unat (w :: uint32) mod N"
proof
  assume "unat (r + of_nat j) mod N = unat w mod N"
  moreover have "unat w mod N = (unat r + unat (w - r)) mod N"
    using unat_add_mod [of r "w - r"] by simp
  moreover have "unat (r + of_nat j) mod N = (unat r + j) mod N"
    using unat_add_mod [of r "of_nat j"] unat_of_nat_mod [of j] by (metis mod_add_right_eq)
  ultimately have "(unat r + j) mod N = (unat r + unat (w - r)) mod N"
    by simp
  then have "j mod N = unat (w - r) mod N"
    by (simp add: mod_eq_iff_dvd_symdiff_nat)
  with assms show False
    by simp
qed

lemma put:
  assumes "unat (w - r) < N"
    and "\<And>k. k < N \<Longrightarrow> cell' k = (if k = unat w mod N then b else cell k)"
  shows "ring_list N cell' r (w + 1) = ring_list N cell r w @ [b]"
proof -
  have "unat (w - r) + unat (1 :: uint32) < 2 ^ 32"
    using assms(1) small by simp
  from unat_add_lt [OF this] have n: "unat (w + 1 - r) = Suc (unat (w - r))"
    by (simp add: algebra_simps)
  have "cell' (unat (r + of_nat j) mod N) = cell (unat (r + of_nat j) mod N)" if "j < unat (w - r)" for j
    using cell_distinct [OF that assms(1)] assms(2) pos by simp
  moreover have "cell' (unat (r + of_nat (unat (w - r))) mod N) = b"
    using assms(2) pos by simp
  ultimately show ?thesis
    by (simp add: ring_list_def n)
qed

lemma put_keeps:
  assumes "unat (w - r) < N" "unat (v - r) \<le> unat (w - r)"
    and "\<And>k. k < N \<Longrightarrow> k \<noteq> unat w mod N \<Longrightarrow> cell' k = cell k"
  shows "ring_list N cell' r v = ring_list N cell r v"
  using cell_distinct [of _ w r] assms pos by (simp add: ring_list_def)

lemma split:
  assumes "unat (e - r) = unat (w - r) + unat (e - w)"
  shows "ring_list N cell r e = ring_list N cell r w @ ring_list N cell w e"
proof (rule nth_equalityI)
  fix k
  assume k: "k < length (ring_list N cell r e)"
  have "r + of_nat k = w + of_nat (k - unat (w - r))" if "\<not> k < unat (w - r)"
    using that by (simp add: of_nat_diff)
  then show "ring_list N cell r e ! k = (ring_list N cell r w @ ring_list N cell w e) ! k"
    using k assms by (auto simp: ring_list_def nth_append add.commute)
qed (use assms in simp)

lemma get:
  assumes "r \<noteq> w"
  shows "ring_list N cell r w = cell (unat r mod N) # ring_list N cell (r + 1) w"
proof -
  have n: "unat (w - r) = Suc (unat (w - (r + 1)))"
    using assms unat_dec [of "w - r"] by (simp add: diff_diff_eq unat_gt_0 Suc_pred)
  show ?thesis
    unfolding ring_list_def n by (simp add: upt_conv_Cons map_Suc_upt [symmetric] comp_def add.assoc del: upt_Suc)
qed

lemma unput:
  assumes "r \<noteq> w"
  shows "ring_list N cell r (w - 1) = butlast (ring_list N cell r w)"
    and "last (ring_list N cell r w) = cell (unat (w - 1) mod N)"
proof -
  have n: "unat (w - r) = Suc (unat (w - 1 - r))"
    using assms unat_dec [of "w - r"] by (simp add: algebra_simps unat_gt_0 Suc_pred)
  show "ring_list N cell r (w - 1) = butlast (ring_list N cell r w)"
    unfolding ring_list_def n by simp
  show "last (ring_list N cell r w) = cell (unat (w - 1) mod N)"
    unfolding ring_list_def n by simp
qed

lemma full_iff: "unat (w - r :: uint32) = N \<longleftrightarrow> w = r + of_nat N"
proof
  assume "unat (w - r) = N"
  then have "w - r = of_nat N"
    by (metis word_unat_eq_iff unat_of_nat_lt [OF small])
  then show "w = r + of_nat N"
    by (simp add: algebra_simps)
next
  assume "w = r + of_nat N"
  then show "unat (w - r) = N"
    using unat_of_nat_lt [OF small] by simp
qed

end

end
