(* ===== verification/File.thy ===== *)
theory File
  imports Dir Ring
begin

text \<open>
  \<^verbatim>\<open>src/file.c\<close> and \<^verbatim>\<open>src/pipe.c\<close>: the table of open files and pipes.  A \<^verbatim>\<open>struct file *\<close> is an index into \<^verbatim>\<open>ftable.file\<close>.  A pipe lives in
  a page from \<^verbatim>\<open>kalloc\<close>; \<open>pipes a\<close> is the \<^verbatim>\<open>struct pipe\<close> at address \<open>a\<close>.  Bytes that move to or from user memory are lists, as for \<open>readi\<close> and
  \<open>writei\<close>.  The waits of \<^verbatim>\<open>pipewrite\<close> and \<^verbatim>\<open>piperead\<close> are context switches; the \<open>_loop\<close> definitions are what runs again after them.
\<close>

section \<open>State\<close>

datatype ftype = FD_NONE | FD_PIPE | FD_INODE

record ofile =
  f_type :: ftype
  f_ref :: int
  f_readable :: bool
  f_writable :: bool
  f_pipe :: uint32
  f_ip :: nat
  f_off :: uint32

abbreviation (input) PIPESIZE :: nat where "PIPESIZE \<equiv> 512"

record pipe =
  pp_data :: "uchar list"
  pp_nread :: uint32
  pp_nwrite :: uint32
  pp_readopen :: bool
  pp_writeopen :: bool

record file_st = fs_st +
  ftable :: "nat \<Rightarrow> ofile"
  pipes :: "uint32 \<Rightarrow> pipe"

definition upd_file :: "nat \<Rightarrow> (ofile \<Rightarrow> ofile) \<Rightarrow> 'z file_st_scheme \<Rightarrow> 'z file_st_scheme" where
  "upd_file f g s = s\<lparr>ftable := (ftable s)(f := g (ftable s f))\<rparr>"

definition upd_pipe :: "uint32 \<Rightarrow> (pipe \<Rightarrow> pipe) \<Rightarrow> 'z file_st_scheme \<Rightarrow> 'z file_st_scheme" where
  "upd_pipe p g s = s\<lparr>pipes := (pipes s)(p := g (pipes s p))\<rparr>"

section \<open>The file table\<close>

definition fileinit :: "(unit, 'z file_st_scheme) kern" where
  "fileinit = initlock LkFtable ''ftable''"

definition filealloc :: "(nat option, 'z file_st_scheme) kern" where
  "filealloc =
     thn (acquire LkFtable) (
     bnd (rd (\<lambda>s. find (\<lambda>f. f_ref (ftable s f) = 0) [0..<NFILE])) (\<lambda>r.
     case r of
       Some f \<Rightarrow>
         thn (md (upd_file f (\<lambda>x. x\<lparr>f_ref := 1\<rparr>))) (
         thn (release LkFtable) (
         ret (Some f)))
     | None \<Rightarrow> thn (release LkFtable) (ret None)))"

definition filedup :: "nat \<Rightarrow> (nat, 'z file_st_scheme) kern" where
  "filedup f =
     thn (acquire LkFtable) (
     bnd (rd (\<lambda>s. f_ref (ftable s f))) (\<lambda>r.
     if r < 1 then panic ''filedup''
     else
       thn (md (upd_file f (\<lambda>x. x\<lparr>f_ref := f_ref x + 1\<rparr>))) (
       thn (release LkFtable) (
       ret f))))"

section \<open>Pipes\<close>

definition pipeclose :: "uint32 \<Rightarrow> bool \<Rightarrow> (unit, 'z file_st_scheme) kern" where
  "pipeclose p writable =
     thn (acquire (LkPipe p)) (
     thn (if writable
          then thn (md (upd_pipe p (\<lambda>q. q\<lparr>pp_writeopen := False\<rparr>))) (wakeup (ChPipeRead p))
          else thn (md (upd_pipe p (\<lambda>q. q\<lparr>pp_readopen := False\<rparr>))) (wakeup (ChPipeWrite p))) (
     bnd (rd (\<lambda>s. \<not> pp_readopen (pipes s p) \<and> \<not> pp_writeopen (pipes s p))) (\<lambda>closed.
     if closed then thn (release (LkPipe p)) (kfree p)
     else release (LkPipe p))))"

fun pipewrite_loop :: "uint32 \<Rightarrow> int \<Rightarrow> uchar list \<Rightarrow> (int, 'z file_st_scheme) kern" where
  "pipewrite_loop p n [] =
     thn (wakeup (ChPipeRead p)) (
     thn (release (LkPipe p)) (
     ret n))"
| "pipewrite_loop p n (b # bs) =
     bnd (rd (\<lambda>s. pipes s p)) (\<lambda>q.
     if pp_nwrite q = pp_nread q + of_nat PIPESIZE then
       with_proc (\<lambda>c. bnd (rd (\<lambda>s. p_killed (ptable s c))) (\<lambda>killed.
       if \<not> pp_readopen q \<or> killed then thn (release (LkPipe p)) (ret (- 1))
       else
         thn (wakeup (ChPipeRead p)) (
         thn (sleep (ChPipeWrite p) (Some (LkPipe p))) (
         fault ''sleep returned''))))
     else
       thn (md (upd_pipe p (\<lambda>q. q\<lparr>pp_data := (pp_data q)[unat (pp_nwrite q mod of_nat PIPESIZE) := b], pp_nwrite := pp_nwrite q + 1\<rparr>))) (
       pipewrite_loop p n bs))"

definition pipewrite :: "uint32 \<Rightarrow> uchar list \<Rightarrow> int \<Rightarrow> (int, 'z file_st_scheme) kern" where
  "pipewrite p addr n = thn (acquire (LkPipe p)) (pipewrite_loop p n (take (nat n) addr))"

text \<open>After a wait of \<^verbatim>\<open>pipewrite\<close>; \<open>bs\<close> are the bytes not yet written.\<close>

definition pipewrite_resume :: "uint32 \<Rightarrow> int \<Rightarrow> uchar list \<Rightarrow> bool \<Rightarrow> (int, 'z file_st_scheme) kern" where
  "pipewrite_resume p n bs i = thn (sleep_resume (LkPipe p) i) (pipewrite_loop p n bs)"

fun piperead_copy :: "uint32 \<Rightarrow> nat \<Rightarrow> (uchar list, 'z file_st_scheme) kern" where
  "piperead_copy p 0 = ret []"
| "piperead_copy p (Suc n) =
     bnd (rd (\<lambda>s. pipes s p)) (\<lambda>q.
     if pp_nread q = pp_nwrite q then ret []
     else
       thn (md (upd_pipe p (\<lambda>q. q\<lparr>pp_nread := pp_nread q + 1\<rparr>))) (
       bnd (piperead_copy p n) (\<lambda>bs.
       ret (pp_data q ! unat (pp_nread q mod of_nat PIPESIZE) # bs))))"

definition piperead_loop :: "uint32 \<Rightarrow> int \<Rightarrow> (int \<times> uchar list, 'z file_st_scheme) kern" where
  "piperead_loop p n =
     bnd (rd (\<lambda>s. pipes s p)) (\<lambda>q.
     if pp_nread q = pp_nwrite q \<and> pp_writeopen q then
       with_proc (\<lambda>c. bnd (rd (\<lambda>s. p_killed (ptable s c))) (\<lambda>killed.
       if killed then thn (release (LkPipe p)) (ret (- 1, []))
       else thn (sleep (ChPipeRead p) (Some (LkPipe p))) (fault ''sleep returned'')))
     else
       bnd (piperead_copy p (nat n)) (\<lambda>bs.
       thn (wakeup (ChPipeWrite p)) (
       thn (release (LkPipe p)) (
       ret (int (length bs), bs)))))"

definition piperead :: "uint32 \<Rightarrow> int \<Rightarrow> (int \<times> uchar list, 'z file_st_scheme) kern" where
  "piperead p n = thn (acquire (LkPipe p)) (piperead_loop p n)"

definition piperead_resume :: "uint32 \<Rightarrow> int \<Rightarrow> bool \<Rightarrow> (int \<times> uchar list, 'z file_st_scheme) kern" where
  "piperead_resume p n i = thn (sleep_resume (LkPipe p) i) (piperead_loop p n)"

section \<open>Closing, reading and writing files\<close>

definition fileclose :: "nat \<Rightarrow> (unit, 'z file_st_scheme) kern" where
  "fileclose f =
     thn (acquire LkFtable) (
     bnd (rd (\<lambda>s. f_ref (ftable s f))) (\<lambda>r.
     if r < 1 then panic ''fileclose''
     else
       thn (md (upd_file f (\<lambda>x. x\<lparr>f_ref := f_ref x - 1\<rparr>))) (
       if r - 1 > 0 then release LkFtable
       else
         bnd (rd (\<lambda>s. ftable s f)) (\<lambda>ff.
         thn (md (upd_file f (\<lambda>x. x\<lparr>f_ref := 0, f_type := FD_NONE\<rparr>))) (
         thn (release LkFtable) (
         case f_type ff of
           FD_PIPE \<Rightarrow> pipeclose (f_pipe ff) (f_writable ff)
         | FD_INODE \<Rightarrow> thn begin_op (thn (iput (f_ip ff)) end_op)
         | FD_NONE \<Rightarrow> ret ()))))))"

definition filestat :: "nat \<Rightarrow> (stat option, 'z file_st_scheme) kern" where
  "filestat f =
     bnd (rd (\<lambda>s. ftable s f)) (\<lambda>x.
     if f_type x = FD_INODE then
       thn (ilock (f_ip x)) (
       bnd (stati (f_ip x)) (\<lambda>st.
       thn (iunlock (f_ip x)) (
       ret (Some st))))
     else ret None)"

definition fileread :: "'z file_st_ext devs \<Rightarrow> nat \<Rightarrow> int \<Rightarrow> (int \<times> uchar list, 'z file_st_scheme) kern" where
  "fileread devsw f n =
     bnd (rd (\<lambda>s. ftable s f)) (\<lambda>x.
     if \<not> f_readable x then ret (- 1, [])
     else case f_type x of
       FD_PIPE \<Rightarrow> piperead (f_pipe x) n
     | FD_INODE \<Rightarrow>
         thn (ilock (f_ip x)) (
         bnd (readi devsw (f_ip x) (f_off x) (of_int n)) (\<lambda>(r, bs).
         thn (whenk (r > 0) (md (upd_file f (\<lambda>x. x\<lparr>f_off := f_off x + of_int r\<rparr>)))) (
         thn (iunlock (f_ip x)) (
         ret (r, bs)))))
     | FD_NONE \<Rightarrow> panic ''fileread'')"

text \<open>The loop of \<^verbatim>\<open>filewrite\<close> at index \<open>i\<close>; the result is the value of \<^verbatim>\<open>i\<close> when it ends.\<close>

abbreviation (input) wmax :: int where "wmax \<equiv> ((int LOGSIZE - 1 - 1 - 2) div 2) * 512"

function filewrite_loop :: "'z file_st_ext devs \<Rightarrow> nat \<Rightarrow> uchar list \<Rightarrow> int \<Rightarrow> int \<Rightarrow> (int, 'z file_st_scheme) kern" where
  "filewrite_loop devsw f addr n i =
     (if i < n then
        let n1 = (if n - i > wmax then wmax else n - i) in
        bnd (rd (\<lambda>s. f_ip (ftable s f))) (\<lambda>ip.
        thn begin_op (
        thn (ilock ip) (
        bnd (rd (\<lambda>s. f_off (ftable s f))) (\<lambda>off.
        bnd (writei devsw ip (drop (nat i) addr) off (of_int n1)) (\<lambda>r.
        thn (whenk (r > 0) (md (upd_file f (\<lambda>x. x\<lparr>f_off := f_off x + of_int r\<rparr>)))) (
        thn (iunlock ip) (
        thn end_op (
        if r < 0 then ret i
        else if r \<noteq> n1 then panic ''short filewrite''
        else filewrite_loop devsw f addr n (i + n1)))))))))
      else ret i)"
  by auto
termination
  by (relation "measure (\<lambda>(devsw, f, addr, n, i). nat (n - i))") auto

declare filewrite_loop.simps [simp del]

definition filewrite :: "'z file_st_ext devs \<Rightarrow> nat \<Rightarrow> uchar list \<Rightarrow> int \<Rightarrow> (int, 'z file_st_scheme) kern" where
  "filewrite devsw f addr n =
     bnd (rd (\<lambda>s. ftable s f)) (\<lambda>x.
     if \<not> f_writable x then ret (- 1)
     else case f_type x of
       FD_PIPE \<Rightarrow> pipewrite (f_pipe x) addr n
     | FD_INODE \<Rightarrow> bnd (filewrite_loop devsw f addr n 0) (\<lambda>i. ret (if i = n then n else - 1))
     | FD_NONE \<Rightarrow> panic ''filewrite'')"

definition fileType :: "ofile \<Rightarrow> string" where
  "fileType f = (case f_type f of FD_NONE \<Rightarrow> ''FD_NONE'' | FD_PIPE \<Rightarrow> ''FD_PIPE'' | FD_INODE \<Rightarrow> ''FD_INODE'')"

section \<open>Creating a pipe\<close>

text \<open>The part at the label \<^verbatim>\<open>bad\<close>.\<close>

definition pipealloc_bad :: "uint32 \<Rightarrow> nat option \<Rightarrow> nat option \<Rightarrow> ((nat \<times> nat) option, 'z file_st_scheme) kern" where
  "pipealloc_bad p f0 f1 =
     thn (whenk (p \<noteq> 0) (kfree p)) (
     thn (case f0 of None \<Rightarrow> ret () | Some f \<Rightarrow> fileclose f) (
     thn (case f1 of None \<Rightarrow> ret () | Some f \<Rightarrow> fileclose f) (
     ret None)))"

definition pipealloc :: "((nat \<times> nat) option, 'z file_st_scheme) kern" where
  "pipealloc =
     bnd filealloc (\<lambda>r0.
     case r0 of None \<Rightarrow> pipealloc_bad 0 None None
     | Some f0 \<Rightarrow>
         bnd filealloc (\<lambda>r1.
         case r1 of None \<Rightarrow> pipealloc_bad 0 (Some f0) None
         | Some f1 \<Rightarrow>
             bnd kalloc (\<lambda>p.
             if p = 0 then pipealloc_bad 0 (Some f0) (Some f1)
             else
               thn (md (upd_pipe p (\<lambda>q. q\<lparr>pp_readopen := True, pp_writeopen := True, pp_nwrite := 0, pp_nread := 0\<rparr>))) (
               thn (initlock (LkPipe p) ''pipe'') (
               thn (md (upd_file f0 (\<lambda>x. x\<lparr>f_type := FD_PIPE, f_readable := True, f_writable := False, f_pipe := p\<rparr>))) (
               thn (md (upd_file f1 (\<lambda>x. x\<lparr>f_type := FD_PIPE, f_readable := False, f_writable := True, f_pipe := p\<rparr>))) (
               ret (Some (f0, f1)))))))))"

section \<open>Frames\<close>

lemma hold_file [simp]:
  "ftable_update g (hold l s) = hold l (ftable_update g s)" "ftable (hold l s) = ftable s"
  "pipes_update h (hold l s) = hold l (pipes_update h s)" "pipes (hold l s) = pipes s"
  "upd_file f k (hold l s) = hold l (upd_file f k s)" "upd_pipe p i (hold l s) = hold l (upd_pipe p i s)"
  by (simp_all add: hold_def set_lock_def set_cpu_def upd_file_def upd_pipe_def)

lemma calm_file [simp]:
  "calm (ftable_update g s) = calm s" "inside (ftable_update g s) = inside s" "lock_free l (ftable_update g s) = lock_free l s"
  "calm (pipes_update h s) = calm s" "inside (pipes_update h s) = inside s" "lock_free l (pipes_update h s) = lock_free l s"
  "calm (upd_file f k s) = calm s" "inside (upd_file f k s) = inside s" "lock_free l (upd_file f k s) = lock_free l s"
  "calm (upd_pipe p i s) = calm s" "inside (upd_pipe p i s) = inside s" "lock_free l (upd_pipe p i s) = lock_free l s"
  by (simp_all add: calm_def inside_def lock_free_def upd_file_def upd_pipe_def)

lemma file_fields [simp]:
  "curproc (upd_file f k s) = curproc s" "ptable (upd_file f k s) = ptable s"
  "curproc (upd_pipe p i s) = curproc s" "ptable (upd_pipe p i s) = ptable s"
  "pipes (upd_pipe p i s) = (pipes s)(p := i (pipes s p))" "ftable (upd_pipe p i s) = ftable s"
  "ftable (upd_file f k s) = (ftable s)(f := k (ftable s f))" "pipes (upd_file f k s) = pipes s"
  by (simp_all add: upd_file_def upd_pipe_def curproc_def)

section \<open>Pipes as queues\<close>

interpretation pipe_ring: ring PIPESIZE
  by unfold_locales simp_all

definition pipe_content :: "pipe \<Rightarrow> uchar list" where
  "pipe_content q = ring_list PIPESIZE ((!) (pp_data q)) (pp_nread q) (pp_nwrite q)"

definition pipe_ok :: "pipe \<Rightarrow> bool" where
  "pipe_ok q = (length (pp_data q) = PIPESIZE \<and> length (pipe_content q) \<le> PIPESIZE)"

definition pipe_put :: "uchar \<Rightarrow> pipe \<Rightarrow> pipe" where
  "pipe_put b q = q\<lparr>pp_data := (pp_data q)[unat (pp_nwrite q mod of_nat PIPESIZE) := b], pp_nwrite := pp_nwrite q + 1\<rparr>"

definition pipe_get :: "pipe \<Rightarrow> pipe" where
  "pipe_get q = q\<lparr>pp_nread := pp_nread q + 1\<rparr>"

lemma pipe_full_iff: "pp_nwrite q = pp_nread q + of_nat PIPESIZE \<longleftrightarrow> length (pipe_content q) = PIPESIZE"
  using pipe_ring.full_iff [of "pp_nwrite q" "pp_nread q"] by (simp add: pipe_content_def)

lemma pipe_empty_iff: "pp_nread q = pp_nwrite q \<longleftrightarrow> pipe_content q = []"
  by (simp add: pipe_content_def ring_list_Nil_iff)

lemma pipe_put_spec:
  assumes "pipe_ok q" "length (pipe_content q) < PIPESIZE"
  shows "pipe_ok (pipe_put b q)" "pipe_content (pipe_put b q) = pipe_content q @ [b]"
proof -
  have i: "unat (pp_nwrite q mod 512) = unat (pp_nwrite q) mod 512"
    by (simp add: unat_mod)
  show c: "pipe_content (pipe_put b q) = pipe_content q @ [b]"
    unfolding pipe_content_def pipe_put_def using assms
    by (simp add: i) (rule pipe_ring.put, auto simp: pipe_ok_def pipe_content_def nth_list_update)
  show "pipe_ok (pipe_put b q)"
    using assms by (simp add: pipe_ok_def c) (simp add: pipe_put_def)
qed

lemma pipe_get_spec:
  assumes "pipe_ok q" "pipe_content q \<noteq> []"
  shows "pipe_ok (pipe_get q)"
    "pipe_content q = pp_data q ! unat (pp_nread q mod of_nat PIPESIZE) # pipe_content (pipe_get q)"
proof -
  have i: "unat (pp_nread q mod 512) = unat (pp_nread q) mod 512"
    by (simp add: unat_mod)
  show c: "pipe_content q = pp_data q ! unat (pp_nread q mod of_nat PIPESIZE) # pipe_content (pipe_get q)"
    using assms pipe_ring.get [of "pp_nread q" "pp_nwrite q" "(!) (pp_data q)"] pipe_empty_iff [of q]
    by (simp add: pipe_content_def pipe_get_def i)
  show "pipe_ok (pipe_get q)"
    using assms c by (simp add: pipe_ok_def) (simp add: pipe_get_def)
qed

lemma pipe_ends [simp]:
  "pp_readopen (pipe_put b q) = pp_readopen q" "pp_writeopen (pipe_put b q) = pp_writeopen q" "pp_nwrite (pipe_put b q) = pp_nwrite q + 1"
  "pp_readopen (pipe_get q) = pp_readopen q" "pp_writeopen (pipe_get q) = pp_writeopen q" "pp_nwrite (pipe_get q) = pp_nwrite q"
  by (simp_all add: pipe_put_def pipe_get_def)

lemma pipe_puts_spec:
  assumes "pipe_ok q" "length (pipe_content q) + length bs \<le> PIPESIZE"
  shows "pipe_ok (fold pipe_put bs q) \<and> pipe_content (fold pipe_put bs q) = pipe_content q @ bs \<and>
    pp_readopen (fold pipe_put bs q) = pp_readopen q \<and> pp_writeopen (fold pipe_put bs q) = pp_writeopen q \<and>
    pp_nwrite (fold pipe_put bs q) = pp_nwrite q + of_nat (length bs)"
  using assms
proof (induction bs arbitrary: q)
  case Nil
  then show ?case
    by simp
next
  case (Cons b bs)
  then have q: "pipe_ok (pipe_put b q)" "pipe_content (pipe_put b q) = pipe_content q @ [b]"
    using pipe_put_spec [of q b] by simp_all
  with Cons.IH [of "pipe_put b q"] Cons.prems show ?case
    by (simp add: algebra_simps)
qed

lemma pipe_gets_spec:
  assumes "pipe_ok q" "k \<le> length (pipe_content q)"
  shows "pipe_ok ((pipe_get ^^ k) q) \<and> pipe_content ((pipe_get ^^ k) q) = drop k (pipe_content q) \<and>
    pp_readopen ((pipe_get ^^ k) q) = pp_readopen q \<and> pp_writeopen ((pipe_get ^^ k) q) = pp_writeopen q \<and>
    pp_nwrite ((pipe_get ^^ k) q) = pp_nwrite q"
  using assms
proof (induction k)
  case 0
  then show ?case
    by simp
next
  case (Suc k)
  then have "pipe_content ((pipe_get ^^ k) q) \<noteq> []"
    by simp
  with Suc pipe_get_spec [of "(pipe_get ^^ k) q"] have
    "pipe_ok (pipe_get ((pipe_get ^^ k) q))" "pipe_content (pipe_get ((pipe_get ^^ k) q)) = tl (drop k (pipe_content q))"
    by (auto dest: arg_cong [where f = tl])
  with Suc show ?case
    by (simp add: tl_drop drop_Suc)
qed

lemma wakeup_under: "\<lbrakk>calm s; l \<noteq> LkPtable\<rbrakk> \<Longrightarrow> wakeup ch (hold l s) = Ok () (hold l (wake ch s))"
  by (simp add: wakeup_eq wake_def calm_def cong: if_cong)

lemma wake_file [simp]:
  "calm (wake ch s) = calm s" "lock_free l (wake ch s) = lock_free l s" "curproc (wake ch s) = curproc s"
  "pipes (wake ch s) = pipes s" "ftable (wake ch s) = ftable s"
  by (simp_all add: wake_def curproc_def)

lemma pipewrite_loop_put:
  assumes "pipe_ok (pipes s p)" "length (pipe_content (pipes s p)) + length bs \<le> PIPESIZE"
  shows "pipewrite_loop p n (bs @ cs) (hold l s) = pipewrite_loop p n cs (hold l (upd_pipe p (fold pipe_put bs) s))"
  using assms
proof (induction bs arbitrary: s)
  case Nil
  then show ?case
    by (simp add: upd_pipe_def)
next
  case (Cons b bs)
  let ?t = "upd_pipe p (pipe_put b) s"
  have nf: "pp_nwrite (pipes s p) \<noteq> pp_nread (pipes s p) + of_nat PIPESIZE"
    using Cons.prems pipe_full_iff [of "pipes s p"] by auto
  have "pipewrite_loop p n (b # bs @ cs) (hold l s) = pipewrite_loop p n (bs @ cs) (hold l ?t)"
    using nf by (simp add: pipe_put_def [abs_def])
  moreover have "upd_pipe p (fold pipe_put bs) ?t = upd_pipe p (fold pipe_put (b # bs)) s"
    by (simp add: upd_pipe_def)
  ultimately show ?case
    using Cons.IH [of ?t] Cons.prems pipe_put_spec [of "pipes s p" b] by (simp add: comp_def del: pipewrite_loop.simps)
qed

definition pipe_room :: "pipe \<Rightarrow> nat" where
  "pipe_room q = PIPESIZE - length (pipe_content q)"

lemma pipe_enter:
  assumes "calm s"
  shows "pipewrite p addr n s = pipewrite_loop p n (take (nat n) addr) (hold (LkPipe p) s)"
    "piperead p n s = piperead_loop p n (hold (LkPipe p) s)"
  using assms by (simp_all add: pipewrite_def piperead_def kern_simps acquire_free calm_def)

lemma pipewrite_spec:
  assumes s: "calm s" "pipe_ok (pipes s p)" "curproc s = Some c"
    and t: "t = upd_pipe p (fold pipe_put (take (pipe_room (pipes s p)) bs)) s"
  shows "length bs \<le> pipe_room (pipes s p) \<Longrightarrow> pipewrite_loop p n bs (hold (LkPipe p) s) = Ok n (wake (ChPipeRead p) t)"
    "\<lbrakk>pipe_room (pipes s p) < length bs; \<not> pp_readopen (pipes s p) \<or> p_killed (ptable s c)\<rbrakk> \<Longrightarrow> pipewrite_loop p n bs (hold (LkPipe p) s) = Ok (- 1) t"
    "\<lbrakk>pipe_room (pipes s p) < length bs; pp_readopen (pipes s p); \<not> p_killed (ptable s c)\<rbrakk> \<Longrightarrow> pipewrite_loop p n bs (hold (LkPipe p) s) =
       Switch (Some (ChPipeWrite p)) (hold LkPtable (upd_proc c (\<lambda>q. q\<lparr>p_chan := Some (ChPipeWrite p), p_state := SLEEPING\<rparr>) (wake (ChPipeRead p) t)))"
proof -
  let ?k = "pipe_room (pipes s p)"
  have lf: "lock_free l s" for l
    using s(1) by (simp add: calm_def)
  have len: "length (pipe_content (pipes s p)) \<le> PIPESIZE"
    using s(2) by (simp add: pipe_ok_def)
  have w: "pipewrite_loop p n bs (hold (LkPipe p) s) = pipewrite_loop p n (drop ?k bs) (hold (LkPipe p) t)"
    using pipewrite_loop_put [OF s(2), of "take ?k bs" n "drop ?k bs" "LkPipe p"] len
    by (simp add: t pipe_room_def del: pipewrite_loop.simps)
  have tc: "calm t" "curproc t = Some c" "ptable t = ptable s"
    using s by (simp_all add: t)
  show "pipewrite_loop p n bs (hold (LkPipe p) s) = Ok n (wake (ChPipeRead p) t)" if "length bs \<le> ?k"
    using that tc by (simp add: w kern_simps wakeup_under release_hold lf t)
  have q: "pipes t p = fold pipe_put (take ?k bs) (pipes s p)"
    by (simp add: t)
  have full: "length (pipe_content (pipes t p)) = PIPESIZE" "pp_readopen (pipes t p) = pp_readopen (pipes s p)" if "?k < length bs"
    using pipe_puts_spec [OF s(2), of "take ?k bs"] that len by (simp_all add: q pipe_room_def)
  have d: "drop ?k bs \<noteq> []" if "?k < length bs"
    using that by simp
  show "pipewrite_loop p n bs (hold (LkPipe p) s) = Ok (- 1) t" if "?k < length bs" "\<not> pp_readopen (pipes s p) \<or> p_killed (ptable s c)"
    using that tc full d pipe_full_iff [of "pipes t p"] unfolding w
    by (cases "drop ?k bs") (auto simp: with_proc_def kern_simps release_hold calm_def)
  show "pipewrite_loop p n bs (hold (LkPipe p) s) = Switch (Some (ChPipeWrite p)) (hold LkPtable (upd_proc c (\<lambda>q. q\<lparr>p_chan := Some (ChPipeWrite p), p_state := SLEEPING\<rparr>)
      (wake (ChPipeRead p) t)))" if "?k < length bs" "pp_readopen (pipes s p)" "\<not> p_killed (ptable s c)"
    using that tc full d pipe_full_iff [of "pipes t p"] unfolding w
    by (cases "drop ?k bs") (auto simp: with_proc_def kern_simps wakeup_under sleep_eq)
qed

lemma piperead_copy_spec:
  assumes "pipe_ok (pipes s p)"
  shows "piperead_copy p n (hold l s) = Ok (take n (pipe_content (pipes s p)))
    (hold l (upd_pipe p (pipe_get ^^ length (take n (pipe_content (pipes s p)))) s))"
  using assms
proof (induction n arbitrary: s)
  case 0
  then show ?case
    by (simp add: upd_pipe_def)
next
  case (Suc n)
  let ?q = "pipes s p" and ?t = "upd_pipe p pipe_get s"
  show ?case
  proof (cases "pipe_content ?q = []")
    case True
    then show ?thesis
      using pipe_empty_iff [of ?q] by (simp add: upd_pipe_def)
  next
    case False
    have c: "pipe_ok (pipe_get ?q)" "pipe_content ?q = pp_data ?q ! unat (pp_nread ?q mod of_nat PIPESIZE) # pipe_content (pipe_get ?q)"
      using pipe_get_spec [OF Suc.prems False] by simp_all
    have u: "upd_pipe p (pipe_get ^^ k) ?t = upd_pipe p (pipe_get ^^ Suc k) s" for k
      by (simp add: upd_pipe_def funpow_swap1)
    have "piperead_copy p (Suc n) (hold l s) =
        bnd (piperead_copy p n) (\<lambda>bs. ret (pp_data ?q ! unat (pp_nread ?q mod of_nat PIPESIZE) # bs)) (hold l ?t)"
      using False pipe_empty_iff [of ?q] by (simp add: pipe_get_def [abs_def])
    also have "\<dots> = Ok (take (Suc n) (pipe_content ?q)) (hold l (upd_pipe p (pipe_get ^^ length (take (Suc n) (pipe_content ?q))) s))"
      using Suc.IH [of ?t] c by (subst (1 2) c(2)) (simp add: bnd_Ok u del: funpow.simps)
    finally show ?thesis .
  qed
qed

lemma piperead_spec:
  assumes s: "calm s" "pipe_ok (pipes s p)" "curproc s = Some c"
    and bs: "bs = take (nat n) (pipe_content (pipes s p))"
  shows "pipe_content (pipes s p) \<noteq> [] \<or> \<not> pp_writeopen (pipes s p) \<Longrightarrow>
      piperead_loop p n (hold (LkPipe p) s) = Ok (int (length bs), bs) (wake (ChPipeWrite p) (upd_pipe p (pipe_get ^^ length bs) s))"
    "\<lbrakk>pipe_content (pipes s p) = []; pp_writeopen (pipes s p); p_killed (ptable s c)\<rbrakk> \<Longrightarrow> piperead_loop p n (hold (LkPipe p) s) = Ok (- 1, []) s"
    "\<lbrakk>pipe_content (pipes s p) = []; pp_writeopen (pipes s p); \<not> p_killed (ptable s c)\<rbrakk> \<Longrightarrow> piperead_loop p n (hold (LkPipe p) s) =
      Switch (Some (ChPipeRead p)) (hold LkPtable (upd_proc c (\<lambda>q. q\<lparr>p_chan := Some (ChPipeRead p), p_state := SLEEPING\<rparr>) s))"
proof -
  have lf: "lock_free l s" for l
    using s(1) by (simp add: calm_def)
  have e: "pp_nread (pipes s p) = pp_nwrite (pipes s p) \<longleftrightarrow> pipe_content (pipes s p) = []"
    by (rule pipe_empty_iff)
  show "piperead_loop p n (hold (LkPipe p) s) = Ok (int (length bs), bs) (wake (ChPipeWrite p) (upd_pipe p (pipe_get ^^ length bs) s))"
    if "pipe_content (pipes s p) \<noteq> [] \<or> \<not> pp_writeopen (pipes s p)"
    using that s piperead_copy_spec [OF s(2), of "nat n" "LkPipe p"]
    by (auto simp: piperead_loop_def e kern_simps wakeup_under release_hold lf simp flip: bs)
  show "piperead_loop p n (hold (LkPipe p) s) = Ok (- 1, []) s"
    if "pipe_content (pipes s p) = []" "pp_writeopen (pipes s p)" "p_killed (ptable s c)"
    using that s by (simp add: piperead_loop_def e with_proc_def kern_simps release_hold lf)
  show "piperead_loop p n (hold (LkPipe p) s) =
      Switch (Some (ChPipeRead p)) (hold LkPtable (upd_proc c (\<lambda>q. q\<lparr>p_chan := Some (ChPipeRead p), p_state := SLEEPING\<rparr>) s))"
    if "pipe_content (pipes s p) = []" "pp_writeopen (pipes s p)" "\<not> p_killed (ptable s c)"
    using that s by (simp add: piperead_loop_def e with_proc_def kern_simps sleep_eq)
qed

lemma sleep_resume_eq:
  assumes "calm s" "curproc s = Some c" "i = iflag (my_cpu s)"
  shows "sleep_resume l i (hold LkPtable s) = Ok () (hold l (upd_proc c (\<lambda>q. q\<lparr>p_chan := None\<rparr>) s))"
proof -
  have r: "set_cpu (\<lambda>c. c\<lparr>intena := iflag (my_cpu s)\<rparr>) (hold LkPtable s) = hold LkPtable s"
    using assms by (simp add: hold_def set_cpu_def set_lock_def calm_def fun_upd_idem)
  have "lock_free k s" for k
    using assms(1) by (simp add: calm_def)
  with assms show ?thesis
    by (simp add: sleep_resume_def sleep_resume_acts_def sched_resume_def kern_simps r with_proc_def whenk_def release_hold acquire_free)
qed

text \<open>
  One writer and one reader of a pipe, as sequences of runs between context switches.  A configuration is the pipe, the bytes the writer
  still has to write and the bytes the reader has got so far; all else in the kernel can change between the runs.  A run
  starts with the call of the operation, or with the scheduler's return to the sleeping process, and ends with the operation's result
  or its next wait.
\<close>

definition ran :: "('a, file_st) outcome \<Rightarrow> file_st \<Rightarrow> bool" where
  "ran r t = ((\<exists>x. r = Ok x t) \<or> (\<exists>ch. r = Switch ch t))"

definition pipe_user :: "file_st \<Rightarrow> uint32 \<Rightarrow> pipe \<Rightarrow> bool" where
  "pipe_user s p q = (calm s \<and> curproc s \<noteq> None \<and> pipes s p = q)"

inductive pipe_step :: "uint32 \<Rightarrow> pipe \<times> uchar list \<times> uchar list \<Rightarrow> pipe \<times> uchar list \<times> uchar list \<Rightarrow> bool" for p where
  w_call: "\<lbrakk>pipe_user s p q; ran (pipewrite p bs (int (length bs)) s) t\<rbrakk> \<Longrightarrow>
    pipe_step p (q, bs, out) (pipes t p, drop (unat (pp_nwrite (pipes t p) - pp_nwrite q)) bs, out)"
| w_resume: "\<lbrakk>pipe_user s p q; ran (pipewrite_resume p n bs (iflag (my_cpu s)) (hold LkPtable s)) t\<rbrakk> \<Longrightarrow>
    pipe_step p (q, bs, out) (pipes t p, drop (unat (pp_nwrite (pipes t p) - pp_nwrite q)) bs, out)"
| r_call: "\<lbrakk>pipe_user s p q; piperead p n s = Ok (r, got) t\<rbrakk> \<Longrightarrow> pipe_step p (q, bs, out) (pipes t p, bs, out @ got)"
| r_resume: "\<lbrakk>pipe_user s p q; piperead_resume p n (iflag (my_cpu s)) (hold LkPtable s) = Ok (r, got) t\<rbrakk> \<Longrightarrow>
    pipe_step p (q, bs, out) (pipes t p, bs, out @ got)"
| r_wait: "\<lbrakk>pipe_user s p q; piperead p n s = Switch ch t \<or> piperead_resume p n (iflag (my_cpu s)) (hold LkPtable s) = Switch ch t\<rbrakk> \<Longrightarrow>
    pipe_step p (q, bs, out) (pipes t p, bs, out)"

lemma pipe_write_keeps:
  assumes "calm s" "curproc s = Some c" "pipe_ok (pipes s p)" "ran (pipewrite_loop p n bs (hold (LkPipe p) s)) t"
  shows "pipe_ok (pipes t p) \<and> pipe_content (pipes t p) @ drop (unat (pp_nwrite (pipes t p) - pp_nwrite (pipes s p))) bs = pipe_content (pipes s p) @ bs"
proof -
  let ?k = "pipe_room (pipes s p)"
  have k: "length (pipe_content (pipes s p)) + ?k = PIPESIZE"
    using assms(3) by (simp add: pipe_ok_def pipe_room_def)
  have "pipes t p = fold pipe_put (take ?k bs) (pipes s p)"
    using pipewrite_spec [OF assms(1,3,2) refl, of bs n] assms(4)
    by (cases "length bs \<le> ?k"; cases "\<not> pp_readopen (pipes s p) \<or> p_killed (ptable s c)") (auto simp: ran_def upd_proc_def)
  moreover have "unat (of_nat (length (take ?k bs)) :: uint32) = length (take ?k bs)"
    using k by (intro unat_of_nat_lt) simp
  ultimately show ?thesis
    using pipe_puts_spec [OF assms(3), of "take ?k bs"] k
    by (cases "length bs \<le> ?k") (simp_all add: min_def)
qed

lemma pipe_read_keeps:
  assumes "calm s" "curproc s = Some c" "pipe_ok (pipes s p)"
  shows "piperead_loop p n (hold (LkPipe p) s) = Ok (r, got) t \<Longrightarrow> pipe_ok (pipes t p) \<and> got @ pipe_content (pipes t p) = pipe_content (pipes s p)"
    "piperead_loop p n (hold (LkPipe p) s) = Switch ch t \<Longrightarrow> pipes t p = pipes s p"
proof -
  let ?bs = "take (nat n) (pipe_content (pipes s p))"
  note r = piperead_spec [OF assms(1,3,2) refl, of n]
  have g: "pipe_ok ((pipe_get ^^ length ?bs) (pipes s p)) \<and> pipe_content ((pipe_get ^^ length ?bs) (pipes s p)) = drop (nat n) (pipe_content (pipes s p))"
    using pipe_gets_spec [OF assms(3), of "length ?bs"] by (simp add: min_def)
  show "pipe_ok (pipes t p) \<and> got @ pipe_content (pipes t p) = pipe_content (pipes s p)"
    if "piperead_loop p n (hold (LkPipe p) s) = Ok (r, got) t"
    using that r g assms(3)
    by (cases "pipe_content (pipes s p) = [] \<and> pp_writeopen (pipes s p)"; cases "p_killed (ptable s c)") auto
  show "pipes t p = pipes s p" if "piperead_loop p n (hold (LkPipe p) s) = Switch ch t"
    using that r by (cases "pipe_content (pipes s p) = [] \<and> pp_writeopen (pipes s p)"; cases "p_killed (ptable s c)") (auto simp: upd_proc_def)
qed

lemma pipe_return:
  assumes "calm s" "curproc s = Some c"
  shows "pipewrite_resume p n bs (iflag (my_cpu s)) (hold LkPtable s) = pipewrite_loop p n bs (hold (LkPipe p) (upd_proc c (\<lambda>q. q\<lparr>p_chan := None\<rparr>) s))"
    "piperead_resume p n (iflag (my_cpu s)) (hold LkPtable s) = piperead_loop p n (hold (LkPipe p) (upd_proc c (\<lambda>q. q\<lparr>p_chan := None\<rparr>) s))"
  using sleep_resume_eq [OF assms refl] by (simp_all add: pipewrite_resume_def piperead_resume_def thn_Ok)

lemma pipe_user_runs:
  assumes "pipe_user s p q"
  obtains c u where "calm s" "curproc s = Some c" "pipes s p = q" "u = upd_proc c (\<lambda>q. q\<lparr>p_chan := None\<rparr>) s"
    "calm u" "curproc u = Some c" "pipes u p = q"
  using assms unfolding pipe_user_def
  by (auto simp: upd_proc_def curproc_def)

lemma pipe_step_keeps:
  assumes "pipe_step p (q, bs, out) (q', bs', out')" "pipe_ok q"
  shows "pipe_ok q' \<and> out' @ pipe_content q' @ bs' = out @ pipe_content q @ bs"
  using assms(1)
proof cases
  case (w_call s t)
  then obtain c where s: "calm s" "curproc s = Some c" "pipes s p = q"
    using pipe_user_runs by blast
  with w_call assms(2) show ?thesis
    using pipe_write_keeps [OF s(1,2), of p "int (length bs)" bs t] by (simp add: pipe_enter)
next
  case (w_resume s n t)
  then obtain c u where s: "calm s" "curproc s = Some c" and u: "u = upd_proc c (\<lambda>q. q\<lparr>p_chan := None\<rparr>) s"
    "calm u" "curproc u = Some c" "pipes u p = q"
    using pipe_user_runs by metis
  with w_resume assms(2) show ?thesis
    using pipe_write_keeps [OF u(2,3), of p n bs t] by (simp add: pipe_return)
next
  case (r_call s n r got t)
  then obtain c where s: "calm s" "curproc s = Some c" "pipes s p = q"
    using pipe_user_runs by blast
  with r_call assms(2) show ?thesis
    using pipe_read_keeps(1) [OF s(1,2), of p n r got t] by (simp add: pipe_enter)
next
  case (r_resume s n r got t)
  then obtain c u where s: "calm s" "curproc s = Some c" and u: "u = upd_proc c (\<lambda>q. q\<lparr>p_chan := None\<rparr>) s"
    "calm u" "curproc u = Some c" "pipes u p = q"
    using pipe_user_runs by metis
  with r_resume assms(2) show ?thesis
    using pipe_read_keeps(1) [OF u(2,3), of p n r got t] by (simp add: pipe_return)
next
  case (r_wait s n ch t)
  then obtain c u where s: "calm s" "curproc s = Some c" "pipes s p = q" and u: "u = upd_proc c (\<lambda>q. q\<lparr>p_chan := None\<rparr>) s"
    "calm u" "curproc u = Some c" "pipes u p = q"
    using pipe_user_runs by metis
  with r_wait assms(2) show ?thesis
    using pipe_read_keeps(2) [OF s(1,2), of p n ch t] pipe_read_keeps(2) [OF u(2,3), of p n ch t] by (auto simp: pipe_enter pipe_return)
qed

text \<open>
  C18 (pipes deliver the stream).  Whatever the interleaving of the calls, waits and returns of a writer and a reader, the bytes the
  reader has got, followed by the bytes in the pipe and by the bytes the writer still has to write, are the stream at the start: no byte
  is lost, duplicated or reordered, also when the 32-bit counters wrap around.
\<close>

theorem pipe_fifo:
  assumes "(pipe_step p)\<^sup>*\<^sup>* (q, bs, out) (q', bs', out')" "pipe_ok q"
  shows "pipe_ok q' \<and> out' @ pipe_content q' @ bs' = out @ pipe_content q @ bs"
  using assms
proof (induction "(q', bs', out')" arbitrary: q' bs' out' rule: rtranclp_induct)
  case base
  then show ?case
    by simp
next
  case (step y)
  obtain q1 bs1 out1 where y: "y = (q1, bs1, out1)"
    by (cases y)
  have "pipe_ok q1 \<and> out1 @ pipe_content q1 @ bs1 = out @ pipe_content q @ bs"
    using step.hyps(3) [OF y] step.prems by simp
  then show ?case
    using pipe_step_keeps [of p q1 bs1 out1 q' bs' out'] step.hyps(2) y by simp
qed

text \<open>A pipe with the same open ends that holds the bytes \<open>xs\<close>.\<close>

definition pipe_with :: "pipe \<Rightarrow> uchar list \<Rightarrow> pipe \<Rightarrow> bool" where
  "pipe_with q xs q' = (pipe_ok q' \<and> pipe_content q' = xs \<and> pp_readopen q' = pp_readopen q \<and> pp_writeopen q' = pp_writeopen q)"

text \<open>
  C32 (the outcomes of \<^verbatim>\<open>pipewrite\<close> and \<^verbatim>\<open>piperead\<close>).  A write that fits returns its count, appends its bytes and wakes the readers of the pipe; one that
  does not fit fills the pipe with its first bytes, and then fails without a wake-up, when the read end is closed or the process killed, or wakes the readers and waits for
  room.  A read takes the oldest bytes, at most as many as asked for, and wakes the writers, as soon as there is a byte or the write end is closed (an
  empty result is the end of file); otherwise it waits, unless the process was killed.  Nothing else changes: no other pipe, no open end, no process that
  does not sleep on the channel woken.
\<close>

theorem pipe_outcomes:
  assumes s: "calm s" "pipe_ok (pipes s p)" "curproc s = Some c" and len: "n = int (length bs)"
    and xs: "xs = pipe_content (pipes s p)" and k: "k = pipe_room (pipes s p)"
  shows "(length bs \<le> k \<longrightarrow>
      (\<exists>q. pipe_with (pipes s p) (xs @ bs) q \<and> pipewrite p bs n s = Ok n (wake (ChPipeRead p) (upd_pipe p (\<lambda>_. q) s)))) \<and>
    (k < length bs \<longrightarrow> (\<exists>q. pipe_with (pipes s p) (xs @ take k bs) q \<and>
      pipewrite p bs n s = (if \<not> pp_readopen (pipes s p) \<or> p_killed (ptable s c) then Ok (- 1) (upd_pipe p (\<lambda>_. q) s)
        else Switch (Some (ChPipeWrite p)) (hold LkPtable (upd_proc c (\<lambda>x. x\<lparr>p_chan := Some (ChPipeWrite p), p_state := SLEEPING\<rparr>)
          (wake (ChPipeRead p) (upd_pipe p (\<lambda>_. q) s))))))) \<and>
    (xs \<noteq> [] \<or> \<not> pp_writeopen (pipes s p) \<longrightarrow>
      (\<exists>q. pipe_with (pipes s p) (drop (nat m) xs) q \<and>
        piperead p m s = Ok (int (length (take (nat m) xs)), take (nat m) xs) (wake (ChPipeWrite p) (upd_pipe p (\<lambda>_. q) s)))) \<and>
    (xs = [] \<and> pp_writeopen (pipes s p) \<longrightarrow> piperead p m s = (if p_killed (ptable s c) then Ok (- 1, []) s
      else Switch (Some (ChPipeRead p)) (hold LkPtable (upd_proc c (\<lambda>x. x\<lparr>p_chan := Some (ChPipeRead p), p_state := SLEEPING\<rparr>) s))))"
proof -
  let ?q = "pipes s p"
  let ?w = "fold pipe_put (take k bs) ?q" and ?r = "(pipe_get ^^ length (take (nat m) xs)) ?q"
  have room: "length (pipe_content ?q) + k = PIPESIZE"
    using s(2) by (simp add: pipe_ok_def pipe_room_def k)
  have w: "pipe_with ?q (xs @ take k bs) ?w"
    using pipe_puts_spec [OF s(2), of "take k bs"] room by (simp add: pipe_with_def xs)
  have r: "pipe_with ?q (drop (nat m) xs) ?r"
    using pipe_gets_spec [OF s(2), of "length (take (nat m) xs)"] by (simp add: pipe_with_def xs min_def)
  have u: "upd_pipe p f s = upd_pipe p (\<lambda>_. f ?q) s" for f
    by (simp add: upd_pipe_def)
  note pw = pipewrite_spec [OF s refl, of bs n, folded k, unfolded u [of "fold pipe_put (take k bs)"]]
  note pr = piperead_spec [OF s refl, of m, folded xs, unfolded u [of "pipe_get ^^ length (take (nat m) xs)"]]
  note enter = pipe_enter [OF s(1)]
  have full: "take k bs = bs" if "length bs \<le> k"
    using that by simp
  show ?thesis
  proof (intro conjI impI)
    show "\<exists>q. pipe_with ?q (xs @ bs) q \<and> pipewrite p bs n s = Ok n (wake (ChPipeRead p) (upd_pipe p (\<lambda>_. q) s))" if "length bs \<le> k"
      using pw(1) [OF that] w full [OF that] by (intro exI [of _ ?w]) (simp add: enter len)
    show "\<exists>q. pipe_with ?q (xs @ take k bs) q \<and> pipewrite p bs n s = (if \<not> pp_readopen ?q \<or> p_killed (ptable s c) then Ok (- 1) (upd_pipe p (\<lambda>_. q) s)
        else Switch (Some (ChPipeWrite p)) (hold LkPtable (upd_proc c (\<lambda>x. x\<lparr>p_chan := Some (ChPipeWrite p), p_state := SLEEPING\<rparr>)
          (wake (ChPipeRead p) (upd_pipe p (\<lambda>_. q) s)))))" if "k < length bs"
      using pw(2,3) [OF that] w by (intro exI [of _ ?w]) (simp add: enter len)
    show "\<exists>q. pipe_with ?q (drop (nat m) xs) q \<and>
        piperead p m s = Ok (int (length (take (nat m) xs)), take (nat m) xs) (wake (ChPipeWrite p) (upd_pipe p (\<lambda>_. q) s))" if "xs \<noteq> [] \<or> \<not> pp_writeopen ?q"
      using pr(1) [OF that] r by (intro exI [of _ ?r]) (simp add: enter)
    show "piperead p m s = (if p_killed (ptable s c) then Ok (- 1, []) s
        else Switch (Some (ChPipeRead p)) (hold LkPtable (upd_proc c (\<lambda>x. x\<lparr>p_chan := Some (ChPipeRead p), p_state := SLEEPING\<rparr>) s)))"
      if "xs = [] \<and> pp_writeopen ?q"
      using pr(2,3) that by (simp add: enter)
  qed
qed

section \<open>The life of a pipe\<close>

lemma kmem_pool_file [simp]:
  "kmem_pool (upd_file f k s) ps = kmem_pool s ps" "kmem_pool (upd_pipe p i s) ps = kmem_pool s ps" "kmem_pool (wake ch s) ps = kmem_pool s ps"
  "page_ok (upd_file f k s) = page_ok s" "page_ok (upd_pipe p i s) = page_ok s" "page_ok (wake ch s) = page_ok s"
  by (simp_all add: kmem_pool_def kmem_ready_def kmem_inv_def page_ok_def fun_eq_iff)
    (simp_all add: upd_file_def upd_pipe_def wake_def)

lemma filealloc_eq:
  assumes "calm s"
  shows "filealloc s = (case find (\<lambda>f. f_ref (ftable s f) = 0) [0..<NFILE] of
      None \<Rightarrow> Ok None s | Some f \<Rightarrow> Ok (Some f) (upd_file f (\<lambda>x. x\<lparr>f_ref := 1\<rparr>) s))"
  using assms by (auto simp: filealloc_def kern_simps acquire_free release_hold split: option.split)

lemma filedup_eq:
  assumes "calm s"
  shows "filedup f s = (if f_ref (ftable s f) < 1 then Panic ''filedup'' else Ok f (upd_file f (\<lambda>x. x\<lparr>f_ref := f_ref x + 1\<rparr>) s))"
  using assms by (auto simp: filedup_def kern_simps acquire_free release_hold)

lemma pipeclose_eq:
  assumes "calm s"
    and "t = (if w then wake (ChPipeRead p) (upd_pipe p (\<lambda>q. q\<lparr>pp_writeopen := False\<rparr>) s)
      else wake (ChPipeWrite p) (upd_pipe p (\<lambda>q. q\<lparr>pp_readopen := False\<rparr>) s))"
  shows "pipeclose p w s = (if pp_readopen (pipes t p) \<or> pp_writeopen (pipes t p) then Ok () t else kfree p t)"
  using assms by (auto simp: pipeclose_def kern_simps acquire_free wakeup_under release_hold)

lemma fileclose_eq:
  assumes "calm s"
    and "t = upd_file f (\<lambda>x. x\<lparr>f_ref := 0, f_type := FD_NONE\<rparr>) s"
  shows "fileclose f s = (if f_ref (ftable s f) < 1 then Panic ''fileclose''
    else if f_ref (ftable s f) > 1 then Ok () (upd_file f (\<lambda>x. x\<lparr>f_ref := f_ref x - 1\<rparr>) s)
    else case f_type (ftable s f) of
      FD_PIPE \<Rightarrow> pipeclose (f_pipe (ftable s f)) (f_writable (ftable s f)) t
    | FD_INODE \<Rightarrow> thn begin_op (thn (iput (f_ip (ftable s f))) end_op) t
    | FD_NONE \<Rightarrow> Ok () t)"
proof -
  have u: "upd_file f (\<lambda>x. x\<lparr>f_ref := 0, f_type := FD_NONE\<rparr>) (upd_file f (\<lambda>x. x\<lparr>f_ref := f_ref x - 1\<rparr>) s) = t"
    by (simp add: assms(2) upd_file_def)
  show ?thesis
    using assms(1) u by (auto simp: fileclose_def kern_simps acquire_free release_hold split: ftype.split)
qed

lemma kmem_pool_calm: "\<lbrakk>kmem_pool s ps; calm s\<rbrakk> \<Longrightarrow> kalloc s = Ok x t \<Longrightarrow> calm t \<and> ftable t = ftable s \<and> pipes t = pipes s"
  for s :: "'z file_st_scheme"
  using kalloc_eq [of s] by (auto simp: kmem_pool_def split: if_splits)

lemma initlock_pipe:
  "calm s \<Longrightarrow> calm (set_lock l (\<lambda>k. k\<lparr>lname := n, locked := 0, lcpu := None\<rparr>) s)"
  "kmem_pool s ps \<Longrightarrow> kmem_pool (set_lock l (\<lambda>k. k\<lparr>lname := n, locked := 0, lcpu := None\<rparr>) s) ps"
  "page_ok (set_lock l g s) = page_ok s" "ftable (set_lock l g u) = ftable u" "pipes (set_lock l g u) = pipes u"
  by (auto simp: calm_def lock_free_def set_lock_def kmem_pool_def kmem_ready_def kmem_inv_def page_ok_def inside_def fun_eq_iff)

definition free_file :: "'z file_st_scheme \<Rightarrow> nat option" where
  "free_file s = find (\<lambda>f. f_ref (ftable s f) = 0) [0..<NFILE]"

lemma free_file_ref: "free_file s = Some f \<Longrightarrow> f_ref (ftable s f) = 0"
  by (auto simp: free_file_def find_Some_iff)

lemma pipealloc_spec:
  assumes s: "calm s" "kmem_pool s (p # ps)" "free_file s = Some f0" "free_file (upd_file f0 (\<lambda>x. x\<lparr>f_ref := 1\<rparr>) s) = Some f1"
  shows "\<exists>t. pipealloc s = Ok (Some (f0, f1)) t \<and> calm t \<and> kmem_pool t ps \<and> page_ok t = page_ok s \<and> f0 \<noteq> f1 \<and>
    ftable t = (ftable s)(f0 := (ftable s f0)\<lparr>f_ref := 1, f_type := FD_PIPE, f_readable := True, f_writable := False, f_pipe := p\<rparr>,
                          f1 := (ftable s f1)\<lparr>f_ref := 1, f_type := FD_PIPE, f_readable := False, f_writable := True, f_pipe := p\<rparr>) \<and>
    pipes t = (pipes s)(p := (pipes s p)\<lparr>pp_readopen := True, pp_writeopen := True, pp_nwrite := 0, pp_nread := 0\<rparr>)"
proof -
  let ?u = "upd_file f0 (\<lambda>x. x\<lparr>f_ref := 1\<rparr>) s"
  let ?v = "upd_file f1 (\<lambda>x. x\<lparr>f_ref := 1\<rparr>) ?u"
  have ne: "f0 \<noteq> f1"
    using free_file_ref [OF s(4)] by auto
  have a: "filealloc s = Ok (Some f0) ?u" "filealloc ?u = Ok (Some f1) ?v"
    using s filealloc_eq [of s] filealloc_eq [of ?u] by (simp_all add: free_file_def)
  have pv: "kmem_pool ?v (p # ps)" "calm ?v"
    using s by simp_all
  obtain w where w: "kalloc ?v = Ok p w" "kmem_pool w ps" "page_ok w = page_ok s"
    using kalloc_pool [OF pv(1)] by auto
  have pw: "calm w" "ftable w = ftable ?v" "pipes w = pipes s"
    using kmem_pool_calm [OF pv w(1)] by simp_all
  have p0: "p \<noteq> 0"
    using kpool.pool_sound [OF s(2)] by auto
  show ?thesis
    unfolding pipealloc_def using a w pw p0 ne
    by (simp add: kern_simps initlock_def initlock_pipe fun_upd_twist)
qed

definition files_ok :: "'z file_st_scheme \<Rightarrow> bool" where
  "files_ok s = (\<forall>f. 0 \<le> f_ref (ftable s f) \<and> (f_ref (ftable s f) = 0 \<longrightarrow> f_type (ftable s f) = FD_NONE))"

lemma kfree_file:
  fixes s :: "'z file_st_scheme"
  assumes "calm s" "kmem_pool s ps" "page_ok s p" "p \<notin> set ps"
  shows "\<exists>t. kfree p s = Ok () t \<and> kmem_pool t (p # ps) \<and> ftable t = ftable s"
proof -
  have "kmem_ready s"
    using assms by (simp add: kmem_pool_def)
  then show ?thesis
    using kfree_pool [OF assms(2-4)] kfree_eq [of s p] assms(3) by auto
qed

lemma close_both_ends:
  assumes t: "calm t" "kmem_pool t ps" "page_ok t p" "p \<notin> set ps" "a \<noteq> b"
    and ends: "\<And>f. f \<in> {a, b} \<Longrightarrow> f_ref (ftable t f) = 1 \<and> f_type (ftable t f) = FD_PIPE \<and> f_pipe (ftable t f) = p"
      "f_writable (ftable t b) = (\<not> f_writable (ftable t a))"
    and open': "pp_readopen (pipes t p)" "pp_writeopen (pipes t p)"
  shows "\<exists>u v. fileclose a t = Ok () u \<and> fileclose b u = Ok () v \<and> kmem_pool v (p # ps) \<and>
    (\<forall>f. f_ref (ftable v f) = (if f \<in> {a, b} then 0 else f_ref (ftable t f)) \<and>
         f_type (ftable v f) = (if f \<in> {a, b} then FD_NONE else f_type (ftable t f)))"
proof -
  let ?w = "f_writable (ftable t a)"
  let ?t1 = "upd_file a (\<lambda>x. x\<lparr>f_ref := 0, f_type := FD_NONE\<rparr>) t"
  let ?u = "if ?w then wake (ChPipeRead p) (upd_pipe p (\<lambda>q. q\<lparr>pp_writeopen := False\<rparr>) ?t1)
      else wake (ChPipeWrite p) (upd_pipe p (\<lambda>q. q\<lparr>pp_readopen := False\<rparr>) ?t1)"
  let ?u1 = "upd_file b (\<lambda>x. x\<lparr>f_ref := 0, f_type := FD_NONE\<rparr>) ?u"
  let ?v = "if \<not> ?w then wake (ChPipeRead p) (upd_pipe p (\<lambda>q. q\<lparr>pp_writeopen := False\<rparr>) ?u1)
      else wake (ChPipeWrite p) (upd_pipe p (\<lambda>q. q\<lparr>pp_readopen := False\<rparr>) ?u1)"
  have ft: "ftable ?u = ftable ?t1" "ftable ?v = ftable ?u1" "calm ?u" "calm ?v"
    using t(1) by simp_all
  have kp: "kmem_pool ?v ps" "page_ok ?v p"
    using t(2,3) by simp_all
  have "fileclose a t = Ok () ?u"
    using fileclose_eq [OF t(1) refl, of a] pipeclose_eq [of ?t1 ?u ?w p] ends open' t(1,5) by auto
  moreover have "fileclose b ?u = kfree p ?v"
    using fileclose_eq [OF ft(3) refl, of b] pipeclose_eq [of ?u1 ?v "\<not> ?w" p] ends open' ft t(1,5) by auto
  moreover obtain v where "kfree p ?v = Ok () v" "kmem_pool v (p # ps)" "ftable v = ftable ?v"
    using kfree_file [OF ft(4) kp t(4)] by blast
  ultimately show ?thesis
    using t(5) by (auto simp: ft)
qed

text \<open>The two entries, the read end first, of a new pipe in the page \<open>p\<close>: empty, with both ends open; no other entry and no other pipe has changed.\<close>

definition pipe_pair :: "'z file_st_scheme \<Rightarrow> 'z file_st_scheme \<Rightarrow> nat \<Rightarrow> nat \<Rightarrow> uint32 \<Rightarrow> bool" where
  "pipe_pair s t f0 f1 p = (f0 \<noteq> f1 \<and>
     ftable t = (ftable s)(f0 := (ftable s f0)\<lparr>f_ref := 1, f_type := FD_PIPE, f_readable := True, f_writable := False, f_pipe := p\<rparr>,
       f1 := (ftable s f1)\<lparr>f_ref := 1, f_type := FD_PIPE, f_readable := False, f_writable := True, f_pipe := p\<rparr>) \<and>
     pp_readopen (pipes t p) \<and> pp_writeopen (pipes t p) \<and> pipe_content (pipes t p) = [] \<and> (\<forall>q. q \<noteq> p \<longrightarrow> pipes t q = pipes s q))"

lemma pipealloc_closes:
  assumes s: "calm s" "free_file s = Some f0" "free_file (upd_file f0 (\<lambda>x. x\<lparr>f_ref := 1\<rparr>) s) = Some f1" "files_ok s" and pool: "kmem_pool s (p # ps)"
  shows "\<exists>t. pipealloc s = Ok (Some (f0, f1)) t \<and> kmem_pool t ps \<and> pipe_pair s t f0 f1 p \<and>
    (\<forall>(a, b) \<in> {(f0, f1), (f1, f0)}. \<exists>u v. fileclose a t = Ok () u \<and> fileclose b u = Ok () v \<and> kmem_pool v (p # ps) \<and>
      files_ok v \<and> (\<forall>f. f_ref (ftable v f) = f_ref (ftable s f)))"
proof -
  obtain t where t: "pipealloc s = Ok (Some (f0, f1)) t" "calm t" "kmem_pool t ps" "page_ok t = page_ok s" "f0 \<noteq> f1"
    and ft: "ftable t = (ftable s)(f0 := (ftable s f0)\<lparr>f_ref := 1, f_type := FD_PIPE, f_readable := True, f_writable := False, f_pipe := p\<rparr>,
       f1 := (ftable s f1)\<lparr>f_ref := 1, f_type := FD_PIPE, f_readable := False, f_writable := True, f_pipe := p\<rparr>)"
    and pt: "pipes t = (pipes s)(p := (pipes s p)\<lparr>pp_readopen := True, pp_writeopen := True, pp_nwrite := 0, pp_nread := 0\<rparr>)"
    using pipealloc_spec [OF s(1) pool s(2,3)] by blast
  have z: "f_ref (ftable s f0) = 0" "f_ref (ftable s f1) = 0"
    using free_file_ref [OF s(2)] free_file_ref [OF s(3)] t(5) by simp_all
  have p: "p \<notin> set ps" "page_ok t p"
    using kpool.pool_sound [OF pool] t(4) by simp_all
  have e: "f_ref (ftable t f) = 1 \<and> f_type (ftable t f) = FD_PIPE \<and> f_pipe (ftable t f) = p" if "f \<in> {f0, f1}" for f
    using that by (auto simp: ft)
  have r: "f \<notin> {f0, f1} \<Longrightarrow> ftable t f = ftable s f" for f
    by (simp add: ft)
  have w: "\<not> f_writable (ftable t f0)" "f_writable (ftable t f1)" "pp_readopen (pipes t p)" "pp_writeopen (pipes t p)"
    using t(5) by (simp_all add: ft pt)
  have "\<exists>u v. fileclose a t = Ok () u \<and> fileclose b u = Ok () v \<and> kmem_pool v (p # ps) \<and> files_ok v \<and> (\<forall>f. f_ref (ftable v f) = f_ref (ftable s f))"
    if ab: "(a, b) \<in> {(f0, f1), (f1, f0)}" for a b
  proof -
    obtain u v where c: "fileclose a t = Ok () u" "fileclose b u = Ok () v" "kmem_pool v (p # ps)"
      and v: "\<And>f. f_ref (ftable v f) = (if f \<in> {a, b} then 0 else f_ref (ftable t f)) \<and>
        f_type (ftable v f) = (if f \<in> {a, b} then FD_NONE else f_type (ftable t f))"
      using close_both_ends [OF t(2,3) p(2,1), of a b] ab e w t(5) by auto
    have rv: "f_ref (ftable v f) = f_ref (ftable s f)" and "f_type (ftable v f) = (if f \<in> {a, b} then FD_NONE else f_type (ftable s f))" for f
      using v [of f] ab z r [of f] by auto
    then have "0 \<le> f_ref (ftable v f) \<and> (f_ref (ftable v f) = 0 \<longrightarrow> f_type (ftable v f) = FD_NONE)" for f
      using s(4) by (simp add: files_ok_def)
    then have "files_ok v"
      by (simp add: files_ok_def)
    with c rv show ?thesis
      by blast
  qed
  moreover have "pipe_pair s t f0 f1 p"
    using t(5) by (auto simp: pipe_pair_def ft pt pipe_content_def)
  ultimately show ?thesis
    using t by (intro exI [of _ t]) auto
qed

lemma free_files:
  "free_file s = None \<longleftrightarrow> {f. f < NFILE \<and> f_ref (ftable s f) = 0} = {}"
  "free_file s = Some f \<Longrightarrow> f < NFILE"
  by (auto simp: free_file_def find_None_iff find_Some_iff)

lemma give_back:
  assumes "calm s" "f_ref (ftable s f) = 0" "f_type (ftable s f) = FD_NONE"
  shows "fileclose f (upd_file f (\<lambda>x. x\<lparr>f_ref := 1\<rparr>) s) = Ok () s"
proof -
  have "(ftable s)(f := (ftable s f)\<lparr>f_ref := 0, f_type := FD_NONE\<rparr>) = ftable s"
    using assms(2,3) by (auto simp: fun_eq_iff)
  then have "upd_file f (\<lambda>x. x\<lparr>f_ref := 0, f_type := FD_NONE\<rparr>) (upd_file f (\<lambda>x. x\<lparr>f_ref := 1\<rparr>) s) = s"
    by (simp add: upd_file_def)
  then show ?thesis
    using fileclose_eq [OF _ refl, of "upd_file f (\<lambda>x. x\<lparr>f_ref := 1\<rparr>) s" f] assms by simp
qed

lemma pipealloc_fails:
  assumes s: "calm s" "files_ok s" "kmem_pool s ps" and c: "card {f. f < NFILE \<and> f_ref (ftable s f) = 0} < 2 \<or> ps = []"
  shows "pipealloc s = Ok None s"
proof (cases "free_file s")
  case None
  then show ?thesis
    using s(1) filealloc_eq [of s] by (simp add: pipealloc_def pipealloc_bad_def free_file_def kern_simps)
next
  case (Some f0)
  let ?u = "upd_file f0 (\<lambda>x. x\<lparr>f_ref := 1\<rparr>) s"
  have f0: "f_ref (ftable s f0) = 0" "f_type (ftable s f0) = FD_NONE" "fileclose f0 ?u = Ok () s"
    using free_file_ref [OF Some] s(1,2) give_back [of s f0] by (simp_all add: files_ok_def)
  have a: "filealloc s = Ok (Some f0) ?u"
    using s(1) filealloc_eq [of s] Some by (simp add: free_file_def)
  show ?thesis
  proof (cases "free_file ?u")
    case None
    then show ?thesis
      using a s(1) f0(3) filealloc_eq [of ?u] by (simp add: pipealloc_def pipealloc_bad_def free_file_def kern_simps)
  next
    case (Some f1)
    let ?v = "upd_file f1 (\<lambda>x. x\<lparr>f_ref := 1\<rparr>) ?u"
    have f1: "f1 \<noteq> f0" "f_ref (ftable s f1) = 0" "f_type (ftable s f1) = FD_NONE"
      using free_file_ref [OF Some] s(2) by (auto simp: files_ok_def split: if_splits)
    have b: "filealloc ?u = Ok (Some f1) ?v"
      using s(1) filealloc_eq [of ?u] Some by (simp add: free_file_def)
    have "{f0, f1} \<subseteq> {f. f < NFILE \<and> f_ref (ftable s f) = 0}"
      using free_files(2) [OF Some] free_files(2) [OF \<open>free_file s = Some f0\<close>] f0(1) f1(2) by simp
    then have "ps = []"
      using c card_mono [of "{f. f < NFILE \<and> f_ref (ftable s f) = 0}" "{f0, f1}"] f1(1) by auto
    then have "kalloc ?v = Ok 0 ?v"
      using kpool.alloc_empty [of ?v] s(3) by simp
    moreover have "?v = upd_file f0 (\<lambda>x. x\<lparr>f_ref := 1\<rparr>) (upd_file f1 (\<lambda>x. x\<lparr>f_ref := 1\<rparr>) s)"
      using f1(1) by (simp add: upd_file_def fun_upd_twist)
    then have "fileclose f0 ?v = Ok () (upd_file f1 (\<lambda>x. x\<lparr>f_ref := 1\<rparr>) s)"
      using give_back [of "upd_file f1 (\<lambda>x. x\<lparr>f_ref := 1\<rparr>) s" f0] s(1) f0 f1(1) by simp
    ultimately show ?thesis
      using a b give_back [OF s(1) f1(2,3)] by (simp add: pipealloc_def pipealloc_bad_def kern_simps)
  qed
qed

text \<open>
  C33 (the life of a pipe).  With two free entries in the file table and a free page, \<^verbatim>\<open>pipealloc\<close> takes the page and two entries, the read end and the write end of a new empty
  pipe, and changes no other entry; closing the two files, in either order, gives the entries and the page back.  When there are fewer than two free entries
  or there is no page it fails and the state is as before: no entry and no page stays taken.
\<close>

theorem pipe_lifecycle:
  assumes "calm s" "files_ok s" "kmem_pool s ps"
  shows "if card {f. f < NFILE \<and> f_ref (ftable s f) = 0} < 2 \<or> ps = [] then pipealloc s = Ok None s
    else \<exists>f0 f1 t. f0 < NFILE \<and> f1 < NFILE \<and> f_ref (ftable s f0) = 0 \<and> f_ref (ftable s f1) = 0 \<and>
      pipealloc s = Ok (Some (f0, f1)) t \<and> kmem_pool t (tl ps) \<and> pipe_pair s t f0 f1 (hd ps) \<and>
      (\<forall>(a, b) \<in> {(f0, f1), (f1, f0)}. \<exists>u v. fileclose a t = Ok () u \<and> fileclose b u = Ok () v \<and> kmem_pool v ps \<and>
        files_ok v \<and> (\<forall>f. f_ref (ftable v f) = f_ref (ftable s f)))"
proof (cases "card {f. f < NFILE \<and> f_ref (ftable s f) = 0} < 2 \<or> ps = []")
  case False
  let ?F = "{f. f < NFILE \<and> f_ref (ftable s f) = 0}"
  obtain p qs where ps: "ps = p # qs"
    using False by (cases ps) auto
  have "?F \<noteq> {}"
    using False by (auto simp del: Collect_empty_eq)
  then obtain f0 where f0: "free_file s = Some f0"
    using free_files(1) [of s] by (cases "free_file s") auto
  let ?u = "upd_file f0 (\<lambda>x. x\<lparr>f_ref := 1\<rparr>) s"
  have "\<not> ?F \<subseteq> {f0}"
    using False card_mono [of "{f0}" ?F] by auto
  then obtain f1 where f1: "free_file ?u = Some f1"
    using free_files(1) [of ?u] by (cases "free_file ?u") (auto split: if_splits)
  have z: "f_ref (ftable s f1) = 0"
    using free_file_ref [OF f1] by (simp split: if_splits)
  show ?thesis
    using pipealloc_closes [OF assms(1) f0 f1 assms(2) assms(3) [unfolded ps]] False ps
      free_files(2) [OF f0] free_files(2) [OF f1] free_file_ref [OF f0] z by (simp add: ps) blast
qed (use pipealloc_fails [OF assms] in simp)

definition empty_pipe :: pipe where
  "empty_pipe = \<lparr>pp_data = replicate PIPESIZE 0, pp_nread = 0xFFFFFFFE, pp_nwrite = 0xFFFFFFFE, pp_readopen = True, pp_writeopen = True\<rparr>"

definition file_boot :: file_st where
  "file_boot = fs_st.extend fs_boot (file_st.fields
     (\<lambda>_. \<lparr>f_type = FD_NONE, f_ref = 0, f_readable = False, f_writable = False, f_pipe = 0, f_ip = 0, f_off = 0\<rparr>) (\<lambda>_. empty_pipe))"

lemma file_boot_facts: "calm file_boot" "curproc file_boot = Some 1" "pipes file_boot p = empty_pipe" "\<not> p_killed (ptable file_boot 1)"
  using fs_boot_facts
  by (simp_all add: file_boot_def fs_st.extend_def file_st.fields_def calm_def lock_free_def curproc_def boot_simps)

lemma empty_pipe_facts: "pipe_ok empty_pipe" "pipe_content empty_pipe = []" "pipe_room empty_pipe = PIPESIZE"
  by (simp_all add: pipe_ok_def pipe_content_def pipe_room_def empty_pipe_def)

theorem pipe_fifo_witness:
  "\<exists>q. (pipe_step 0x80105000)\<^sup>*\<^sup>* (empty_pipe, [1, 2, 3], []) (q, [], [1, 2]) \<and> pipe_content q = [3]"
proof -
  note f = file_boot_facts empty_pipe_facts
  obtain t where t: "pipewrite 0x80105000 [1, 2, 3] 3 file_boot = Ok 3 t" "pipes t 0x80105000 = fold pipe_put [1, 2, 3] empty_pipe" "calm t" "curproc t = Some 1"
    using pipewrite_spec(1) [OF f(1) _ f(2) refl, of "0x80105000" "[1, 2, 3]" 3] f by (simp add: pipe_enter)
  then have w: "pipe_step 0x80105000 (empty_pipe, [1, 2, 3], []) (pipes t 0x80105000, [], [])"
    using pipe_step.w_call [of file_boot "0x80105000" empty_pipe "[1, 2, 3]" t "[]"] f
    by (simp add: pipe_user_def ran_def)
  have c: "pipe_ok (pipes t 0x80105000)" "pipe_content (pipes t 0x80105000) = [1, 2, 3]"
    using pipe_puts_spec [of empty_pipe "[1, 2, 3]"] f t(2) by simp_all
  obtain u where u: "piperead 0x80105000 2 t = Ok (2, [1, 2]) u"
    using piperead_spec(1) [OF t(3) c(1) t(4) refl, of 2] c t(3) by (simp add: pipe_enter)
  have "pipe_step 0x80105000 (pipes t 0x80105000, [], []) (pipes u 0x80105000, [], [1, 2])"
    using pipe_step.r_call [of t "0x80105000" "pipes t 0x80105000" 2 2 "[1, 2]" u "[]" "[]"] u t by (simp add: pipe_user_def)
  with w have "(pipe_step 0x80105000)\<^sup>*\<^sup>* (empty_pipe, [1, 2, 3], []) (pipes u 0x80105000, [], [1, 2])"
    by (meson converse_rtranclp_into_rtranclp r_into_rtranclp)
  moreover from this have "pipe_content (pipes u 0x80105000) = [3]"
    using pipe_fifo [of "0x80105000" empty_pipe "[1, 2, 3]" "[]" "pipes u 0x80105000" "[]" "[1, 2]"] f by simp
  ultimately show ?thesis
    by blast
qed

theorem pipe_outcomes_witness:
  "\<exists>q. pipewrite 0x80105000 (replicate 600 7) 600 file_boot = Switch (Some (ChPipeWrite 0x80105000)) (hold LkPtable
      (upd_proc 1 (\<lambda>x. x\<lparr>p_chan := Some (ChPipeWrite 0x80105000), p_state := SLEEPING\<rparr>) (wake (ChPipeRead 0x80105000) (upd_pipe 0x80105000 (\<lambda>_. q) file_boot)))) \<and>
    pipe_content q = replicate 512 7"
proof -
  have q: "pipe_ok (pipes file_boot 0x80105000)" "pp_readopen (pipes file_boot 0x80105000)" "pipe_room (pipes file_boot 0x80105000) = 512"
    "pipe_content (pipes file_boot 0x80105000) = []"
    using file_boot_facts(3) empty_pipe_facts by (simp_all add: empty_pipe_def)
  show ?thesis
    using pipe_outcomes [OF file_boot_facts(1) q(1) file_boot_facts(2), of 600 "replicate 600 7" "[]" 512] q file_boot_facts(4)
    by (auto simp: pipe_with_def)
qed

theorem pipe_lifecycle_witness:
  "\<exists>f0 f1 t u v. pipealloc (file_boot\<lparr>freelist := 0x80101000\<rparr>) = Ok (Some (f0, f1)) t \<and> kmem_pool t [] \<and>
    fileclose f1 t = Ok () u \<and> fileclose f0 u = Ok () v \<and> kmem_pool v [0x80101000]"
proof -
  let ?s = "file_boot\<lparr>freelist := 0x80101000\<rparr>"
  have c: "calm ?s"
    using file_boot_facts(1) by simp
  have z: "f_ref (ftable ?s f) = 0" "f_type (ftable ?s f) = FD_NONE" for f
    by (simp_all add: file_boot_def fs_st.extend_def file_st.fields_def)
  have o: "files_ok ?s"
    using z by (simp add: files_ok_def)
  have "kmem_pool ?s [0x80101000]"
    using c by (simp add: kmem_pool_def kmem_ready_def kmem_inv_def page_ok_def page_aligned_def)
      (simp add: file_boot_def fs_st.extend_def file_st.fields_def fs_boot_def log_st.extend_def fs_st.fields_def log_boot_def bio_st.extend_def
        log_st.fields_def disk_boot_def sched_st.extend_def bio_st.fields_def boot_simps v2p_def load32_def of_le32_def)
  note l = pipe_lifecycle [OF c o this]
  have "{f. f < NFILE \<and> f_ref (ftable ?s f) = 0} = {..<NFILE}"
    using z by auto
  then have "\<not> (card {f. f < NFILE \<and> f_ref (ftable ?s f) = 0} < 2 \<or> [0x80101000 :: uint32] = [])"
    by (simp only: card_lessThan) simp
  note l = l [unfolded if_not_P [OF this]]
  then show ?thesis
    by (auto simp del: Collect_empty_eq)
qed

end
