(* ===== verification/Format.thy ===== *)
theory Format
  imports Prelude
begin

text \<open>
  What the two formatted printers of the system share: the variable arguments, and the loop of \<^verbatim>\<open>printint\<close>, which \<^verbatim>\<open>src/console.c\<close> and \<^verbatim>\<open>src/printf.c\<close> have with
  different tables of digits.
\<close>

datatype carg = CInt uint32 | CStr "uchar list"

text \<open>
  The digits of a number, last digit first, as the loop of \<^verbatim>\<open>printint\<close> puts them into \<^verbatim>\<open>buf\<close>; \<open>n\<close> places of the buffer are left and
  \<open>None\<close> is a write past its end.
\<close>

fun printint_digits :: "(nat \<Rightarrow> uchar) \<Rightarrow> nat \<Rightarrow> uint32 \<Rightarrow> uint32 \<Rightarrow> uchar list option" where
  "printint_digits dg 0 x base = None"
| "printint_digits dg (Suc n) x base =
     (let d = dg (unat (x mod base)); x' = x div base in
      if x' = 0 then Some [d] else map_option (\<lambda>ds. d # ds) (printint_digits dg n x' base))"

definition printint_buf :: "(nat \<Rightarrow> uchar) \<Rightarrow> int \<Rightarrow> uint32 \<Rightarrow> bool \<Rightarrow> uchar list option" where
  "printint_buf dg xx base sg =
     (let neg = (sg \<and> xx < 0); x = (if neg then of_int (- xx) else of_int xx) in
      case printint_digits dg 16 x base of
        None \<Rightarrow> None
      | Some ds \<Rightarrow> if neg then (if length ds < 16 then Some (ds @ [45]) else None) else Some ds)"

text \<open>The numeral of a number in a base, first digit first, and the decimal numeral of an integer.\<close>

fun radix :: "(nat \<Rightarrow> uchar) \<Rightarrow> nat \<Rightarrow> nat \<Rightarrow> uchar list" where
  "radix dg b n = (if b < 2 \<or> n < b then [dg n] else radix dg b (n div b) @ [dg (n mod b)])"

declare radix.simps [simp del]

definition decimal_text :: "(nat \<Rightarrow> uchar) \<Rightarrow> int \<Rightarrow> uchar list" where
  "decimal_text dg x = (if x < 0 then 45 # radix dg 10 (nat (- x)) else radix dg 10 (nat x))"

lemma length_radix:
  assumes "n < b ^ k" "0 < k" "2 \<le> b"
  shows "length (radix dg b n) \<le> k"
  using assms
proof (induction k arbitrary: n)
  case (Suc k)
  show ?case
  proof (cases "n < b")
    case True
    then show ?thesis
      by (simp add: radix.simps [of dg b n])
  next
    case False
    then have "n div b < b ^ k" "0 < k"
      using Suc.prems by (auto simp: less_mult_imp_div_less mult.commute intro: gr0I)
    then show ?thesis
      using Suc.IH [of "n div b"] Suc.prems False by (simp add: radix.simps [of dg b n])
  qed
qed simp

lemma printint_digits_radix:
  assumes "2 \<le> unat base" "length (radix dg (unat base) (unat x)) \<le> k"
  shows "printint_digits dg k x base = Some (rev (radix dg (unat base) (unat x)))"
  using assms(2)
proof (induction k arbitrary: x)
  case 0
  then show ?case
    by (simp add: radix.simps [of _ _ "unat x"] split: if_splits)
next
  case (Suc k)
  have z: "x div base = 0 \<longleftrightarrow> unat x < unat base"
    using assms(1) by (simp add: unat_eq_0 [symmetric] unat_div div_eq_0_iff)
  show ?case
  proof (cases "unat x < unat base")
    case True
    then show ?thesis
      using z by (simp add: radix.simps [of _ _ "unat x"] Let_def unat_mod)
  next
    case False
    have r: "radix dg (unat base) (unat x) = radix dg (unat base) (unat (x div base)) @ [dg (unat (x mod base))]"
      using False assms(1) by (subst radix.simps) (simp add: unat_div unat_mod)
    show ?thesis
      using Suc False z by (simp add: r Let_def)
  qed
qed

lemma printint_digits_16:
  assumes "base = 10 \<or> base = 16"
  shows "printint_digits dg 16 x base = Some (rev (radix dg (unat base) (unat x)))" "length (radix dg (unat base) (unat x)) \<le> 10"
proof -
  have "unat x < 2 ^ 32"
    using unsigned_less [of x] by simp
  then have "unat x < unat base ^ 10"
    using assms by auto
  then show l: "length (radix dg (unat base) (unat x)) \<le> 10"
    by (rule length_radix) (use assms in auto)
  then show "printint_digits dg 16 x base = Some (rev (radix dg (unat base) (unat x)))"
    by (intro printint_digits_radix) (use assms in auto)
qed

lemma printint_buf_eq:
  fixes x :: uint32
  shows "printint_buf dg (sint x) 10 True = Some (rev (decimal_text dg (sint x)))"
    "printint_buf dg (sint x) 16 False = Some (rev (radix dg 16 (unat x)))"
proof -
  have n: "unat (- x) = nat (- sint x)" if "sint x < 0"
  proof -
    have "- x = of_int (- sint x)" "- sint x \<le> 2 ^ 31"
      using sint_ge [of x] by simp_all
    then show ?thesis
      using that by (simp add: unat_eq_nat_uint uint_word_of_int mod_pos_pos_trivial del: of_int_minus)
  qed
  have p: "unat x = nat (sint x)" if "\<not> sint x < 0"
  proof -
    have "uint x = sint x mod 2 ^ 32" "sint x < 2 ^ 31"
      using uint_sint [of x] sint_lt [of x] by (simp_all add: take_bit_eq_mod)
    then show ?thesis
      using that by (simp add: unat_eq_nat_uint mod_pos_pos_trivial)
  qed
  show "printint_buf dg (sint x) 10 True = Some (rev (decimal_text dg (sint x)))"
    using printint_digits_16 [of 10 dg "- x"] printint_digits_16 [of 10 dg x] n p
    by (cases "sint x < 0") (simp_all add: printint_buf_def Let_def decimal_text_def)
  show "printint_buf dg (sint x) 16 False = Some (rev (radix dg 16 (unat x)))"
    using printint_digits_16 [of 16 dg x] by (simp add: printint_buf_def Let_def)
qed

end
