(* ===== verification/Vm.thy ===== *)
theory Vm
  imports Sched Format
begin

text \<open>
  \<^verbatim>\<open>src/vm.c\<close>: page tables.  A page directory and its page tables are in memory, as the hardware reads them; an entry is the
  32-bit word at \<open>pgdir + 4 * PDX va\<close> or \<open>pgtab + 4 * PTX va\<close>.  A pointer to an entry that can be null is an option.  The symbol \<^verbatim>\<open>data\<close> of
  \<^verbatim>\<open>kernel.ld\<close> and the function \<^verbatim>\<open>cprintf\<close> are arguments of the operations that use them.
\<close>

section \<open>Addresses and entries (mmu.h)\<close>

definition PDX :: "uint32 \<Rightarrow> uint32" where
  "PDX va = drop_bit 22 va AND 0x3FF"

definition PTX :: "uint32 \<Rightarrow> uint32" where
  "PTX va = drop_bit 12 va AND 0x3FF"

definition PGADDR :: "uint32 \<Rightarrow> uint32 \<Rightarrow> uint32 \<Rightarrow> uint32" where
  "PGADDR d t x = push_bit 22 d OR push_bit 12 t OR x"

abbreviation (input) PTE_P :: uint32 where "PTE_P \<equiv> 1"
abbreviation (input) PTE_W :: uint32 where "PTE_W \<equiv> 2"
abbreviation (input) PTE_U :: uint32 where "PTE_U \<equiv> 4"
abbreviation (input) NPDENTRIES :: nat where "NPDENTRIES \<equiv> 1024"
abbreviation (input) NPTENTRIES :: nat where "NPTENTRIES \<equiv> 1024"

definition PTE_ADDR :: "uint32 \<Rightarrow> uint32" where
  "PTE_ADDR pte = pte AND NOT 0xFFF"

definition PTE_FLAGS :: "uint32 \<Rightarrow> uint32" where
  "PTE_FLAGS pte = pte AND 0xFFF"

text \<open>What the memory management unit does with a virtual address.\<close>

definition translate :: "memory \<Rightarrow> uint32 \<Rightarrow> uint32 \<Rightarrow> uint32 option" where
  "translate m pgdir va =
     (let pde = load32 m (pgdir + 4 * PDX va) in
      if pde AND PTE_P = 0 then None
      else let pte = load32 m (p2v (PTE_ADDR pde) + 4 * PTX va) in
        if pte AND PTE_P = 0 then None
        else Some (p2v (PTE_ADDR pte) + (va AND 0xFFF)))"

section \<open>Walking and mapping\<close>

definition walkpgdir :: "uint32 \<Rightarrow> uint32 \<Rightarrow> bool \<Rightarrow> (uint32 option, 'z kmem_st_scheme) kern" where
  "walkpgdir pgdir va alloc =
     bnd (rd (\<lambda>s. load32 (mem s) (pgdir + 4 * PDX va))) (\<lambda>pde.
     if pde AND PTE_P \<noteq> 0 then ret (Some (p2v (PTE_ADDR pde) + 4 * PTX va))
     else if \<not> alloc then ret None
     else
       bnd kalloc (\<lambda>pgtab.
       if pgtab = 0 then ret None
       else
         thn (md (\<lambda>s. s\<lparr>mem := memset (mem s) pgtab 0 PGSIZE\<rparr>)) (
         thn (md (\<lambda>s. s\<lparr>mem := store32 (mem s) (pgdir + 4 * PDX va) (v2p pgtab OR PTE_P OR PTE_W OR PTE_U)\<rparr>)) (
         ret (Some (pgtab + 4 * PTX va))))))"

text \<open>The loop of \<^verbatim>\<open>mappages\<close>; it ends when \<open>a\<close> has passed through all pages of the address space at the latest.\<close>

fun mappages_loop :: "nat \<Rightarrow> uint32 \<Rightarrow> uint32 \<Rightarrow> uint32 \<Rightarrow> uint32 \<Rightarrow> uint32 \<Rightarrow> (int, 'z kmem_st_scheme) kern" where
  "mappages_loop 0 pgdir a lst pa perm = (\<lambda>s. Diverge)"
| "mappages_loop (Suc n) pgdir a lst pa perm =
     bnd (walkpgdir pgdir a True) (\<lambda>r.
     case r of
       None \<Rightarrow> ret (- 1)
     | Some pte \<Rightarrow>
         bnd (rd (\<lambda>s. load32 (mem s) pte)) (\<lambda>v.
         if v AND PTE_P \<noteq> 0 then panic ''remap''
         else
           thn (md (\<lambda>s. s\<lparr>mem := store32 (mem s) pte (pa OR perm OR PTE_P)\<rparr>)) (
           if a = lst then ret 0
           else mappages_loop n pgdir (a + PGSIZE) lst (pa + PGSIZE) perm)))"

definition mappages :: "uint32 \<Rightarrow> uint32 \<Rightarrow> uint32 \<Rightarrow> uint32 \<Rightarrow> uint32 \<Rightarrow> (int, 'z kmem_st_scheme) kern" where
  "mappages pgdir va sz pa perm =
     mappages_loop (2 ^ 20) pgdir (PGROUNDDOWN va) (PGROUNDDOWN (va + sz - 1)) pa perm"

section \<open>Kernel mappings\<close>

record kmap =
  k_virt :: uint32
  k_phys_start :: uint32
  k_phys_end :: uint32
  k_perm :: uint32

definition kmap_table :: "uint32 \<Rightarrow> kmap list" where
  "kmap_table data =
     [\<lparr>k_virt = KERNBASE, k_phys_start = 0, k_phys_end = EXTMEM, k_perm = PTE_W\<rparr>,
      \<lparr>k_virt = KERNLINK, k_phys_start = v2p KERNLINK, k_phys_end = v2p data, k_perm = 0\<rparr>,
      \<lparr>k_virt = data, k_phys_start = v2p data, k_phys_end = PHYSTOP, k_perm = PTE_W\<rparr>,
      \<lparr>k_virt = DEVSPACE, k_phys_start = DEVSPACE, k_phys_end = 0, k_perm = PTE_W\<rparr>]"

definition setupkvm :: "uint32 \<Rightarrow> (uint32, 'z kmem_st_scheme) kern" where
  "setupkvm data =
     bnd kalloc (\<lambda>pgdir.
     if pgdir = 0 then ret 0
     else
       thn (md (\<lambda>s. s\<lparr>mem := memset (mem s) pgdir 0 PGSIZE\<rparr>)) (
       if p2v PHYSTOP > DEVSPACE then panic ''PHYSTOP too high''
       else
         bnd (for_find (kmap_table data) (\<lambda>k.
           bnd (mappages pgdir (k_virt k) (k_phys_end k - k_phys_start k) (k_phys_start k) (k_perm k)) (\<lambda>r.
           ret (if r < 0 then Some 0 else None)))) (\<lambda>r.
         case r of Some v \<Rightarrow> ret v | None \<Rightarrow> ret pgdir)))"

definition kvmalloc :: "uint32 \<Rightarrow> (unit, 'z sched_st_scheme) kern" where
  "kvmalloc data =
     bnd (setupkvm data) (\<lambda>d.
     thn (md (\<lambda>s. s\<lparr>kpgdir := d\<rparr>)) (
     switchkvm))"

section \<open>User memory\<close>

text \<open>The code of the first process is the list \<open>init\<close>; a failed \<^verbatim>\<open>kalloc\<close> or \<^verbatim>\<open>mappages\<close> is not noticed by \<^verbatim>\<open>inituvm\<close>.\<close>

definition inituvm :: "uint32 \<Rightarrow> uchar list \<Rightarrow> uint32 \<Rightarrow> (unit, 'z kmem_st_scheme) kern" where
  "inituvm pgdir init sz =
     (if sz \<ge> PGSIZE then panic ''inituvm: more than a page''
      else
        bnd kalloc (\<lambda>m.
        thn (md (\<lambda>s. s\<lparr>mem := memset (mem s) m 0 PGSIZE\<rparr>)) (
        thn (mappages pgdir 0 PGSIZE (v2p m) (PTE_W OR PTE_U)) (
        md (\<lambda>s. s\<lparr>mem := write_bytes (mem s) m (take (unat sz) init)\<rparr>)))))"

text \<open>
  The loop of \<^verbatim>\<open>deallocuvm\<close>.  Where the page table is missing it advances by the size of a whole table; the first
  argument bounds the iterations by the number of pages of the address space.
\<close>

fun deallocuvm_loop :: "nat \<Rightarrow> uint32 \<Rightarrow> uint32 \<Rightarrow> uint32 \<Rightarrow> (unit, 'z kmem_st_scheme) kern" where
  "deallocuvm_loop 0 pgdir a oldsz = (\<lambda>s. Diverge)"
| "deallocuvm_loop (Suc n) pgdir a oldsz =
     (if a < oldsz then
        bnd (walkpgdir pgdir a False) (\<lambda>r.
        case r of
          None \<Rightarrow> deallocuvm_loop n pgdir (a + (of_nat NPTENTRIES - 1) * PGSIZE + PGSIZE) oldsz
        | Some pte \<Rightarrow>
            bnd (rd (\<lambda>s. load32 (mem s) pte)) (\<lambda>v.
            thn (whenk (v AND PTE_P \<noteq> 0) (
              if PTE_ADDR v = 0 then panic ''kfree''
              else
                thn (kfree (p2v (PTE_ADDR v))) (
                md (\<lambda>s. s\<lparr>mem := store32 (mem s) pte 0\<rparr>)))) (
            deallocuvm_loop n pgdir (a + PGSIZE) oldsz)))
      else ret ())"

definition deallocuvm :: "uint32 \<Rightarrow> uint32 \<Rightarrow> uint32 \<Rightarrow> (uint32, 'z kmem_st_scheme) kern" where
  "deallocuvm pgdir oldsz newsz =
     (if newsz \<ge> oldsz then ret oldsz
      else thn (deallocuvm_loop (2 ^ 20 + 1) pgdir (PGROUNDUP newsz) oldsz) (ret newsz))"

text \<open>The loop of \<^verbatim>\<open>allocuvm\<close>; the result of \<^verbatim>\<open>mappages\<close> is ignored, as in the source.\<close>

fun allocuvm_loop :: "(string \<Rightarrow> carg list \<Rightarrow> (unit, 'z kmem_st_scheme) kern) \<Rightarrow> nat \<Rightarrow> uint32 \<Rightarrow> uint32 \<Rightarrow> uint32 \<Rightarrow> uint32 \<Rightarrow> (uint32, 'z kmem_st_scheme) kern" where
  "allocuvm_loop cprintf 0 pgdir a oldsz newsz = (\<lambda>s. Diverge)"
| "allocuvm_loop cprintf (Suc n) pgdir a oldsz newsz =
     (if a < newsz then
        bnd kalloc (\<lambda>m.
        if m = 0 then
          thn (cprintf (''allocuvm out of memory'' @ [CHR 0x0A]) []) (
          thn (deallocuvm pgdir newsz oldsz) (
          ret 0))
        else
          thn (md (\<lambda>s. s\<lparr>mem := memset (mem s) m 0 PGSIZE\<rparr>)) (
          thn (mappages pgdir a PGSIZE (v2p m) (PTE_W OR PTE_U)) (
          allocuvm_loop cprintf n pgdir (a + PGSIZE) oldsz newsz)))
      else ret newsz)"

definition allocuvm :: "(string \<Rightarrow> carg list \<Rightarrow> (unit, 'z kmem_st_scheme) kern) \<Rightarrow> uint32 \<Rightarrow> uint32 \<Rightarrow> uint32 \<Rightarrow> (uint32, 'z kmem_st_scheme) kern" where
  "allocuvm cprintf pgdir oldsz newsz =
     (if newsz \<ge> KERNBASE then ret 0
      else if newsz < oldsz then ret oldsz
      else allocuvm_loop cprintf (2 ^ 20) pgdir (PGROUNDUP oldsz) oldsz newsz)"

definition freevm :: "uint32 \<Rightarrow> (unit, 'z kmem_st_scheme) kern" where
  "freevm pgdir =
     (if pgdir = 0 then panic ''freevm: no pgdir''
      else
        thn (deallocuvm pgdir KERNBASE 0) (
        thn (for_each [0..<NPDENTRIES] (\<lambda>i.
          bnd (rd (\<lambda>s. load32 (mem s) (pgdir + 4 * of_nat i))) (\<lambda>pde.
          whenk (pde AND PTE_P \<noteq> 0) (kfree (p2v (PTE_ADDR pde)))))) (
        kfree pgdir)))"

definition clearpteu :: "uint32 \<Rightarrow> uint32 \<Rightarrow> (unit, 'z kmem_st_scheme) kern" where
  "clearpteu pgdir uva =
     bnd (walkpgdir pgdir uva False) (\<lambda>r.
     case r of
       None \<Rightarrow> panic ''clearpteu''
     | Some pte \<Rightarrow> md (\<lambda>s. s\<lparr>mem := store32 (mem s) pte (load32 (mem s) pte AND NOT PTE_U)\<rparr>))"

text \<open>The body of the loop of \<^verbatim>\<open>copyuvm\<close>; \<open>Some ()\<close> is the jump to \<^verbatim>\<open>bad\<close>.\<close>

definition copyuvm_page :: "uint32 \<Rightarrow> uint32 \<Rightarrow> nat \<Rightarrow> (unit option, 'z kmem_st_scheme) kern" where
  "copyuvm_page pgdir d i =
     bnd (walkpgdir pgdir (of_nat i) False) (\<lambda>r.
     case r of
       None \<Rightarrow> panic ''copyuvm: pte should exist''
     | Some pte \<Rightarrow>
         bnd (rd (\<lambda>s. load32 (mem s) pte)) (\<lambda>v.
         if v AND PTE_P = 0 then panic ''copyuvm: page not present''
         else
           bnd kalloc (\<lambda>m.
           if m = 0 then ret (Some ())
           else
             thn (md (\<lambda>s. s\<lparr>mem := memmove (mem s) m (p2v (PTE_ADDR v)) PGSIZE\<rparr>)) (
             bnd (mappages d (of_nat i) PGSIZE (v2p m) (PTE_FLAGS v)) (\<lambda>r.
             ret (if r < 0 then Some () else None))))))"

definition copyuvm :: "uint32 \<Rightarrow> uint32 \<Rightarrow> uint32 \<Rightarrow> (uint32, 'z kmem_st_scheme) kern" where
  "copyuvm data pgdir sz =
     bnd (setupkvm data) (\<lambda>d.
     if d = 0 then ret 0
     else
       bnd (for_find (map (\<lambda>k. k * 4096) [0..<(unat sz + 4095) div 4096]) (copyuvm_page pgdir d)) (\<lambda>r.
       case r of
         None \<Rightarrow> ret d
       | Some _ \<Rightarrow> thn (freevm d) (ret 0)))"

text \<open>\<^verbatim>\<open>uva2ka\<close> reads through the pointer that \<^verbatim>\<open>walkpgdir\<close> returns without a check; a null pointer faults.\<close>

definition uva2ka :: "uint32 \<Rightarrow> uint32 \<Rightarrow> (uint32, 'z kmem_st_scheme) kern" where
  "uva2ka pgdir uva =
     bnd (walkpgdir pgdir uva False) (\<lambda>r.
     case r of
       None \<Rightarrow> fault ''null pte''
     | Some pte \<Rightarrow>
         bnd (rd (\<lambda>s. load32 (mem s) pte)) (\<lambda>v.
         if v AND PTE_P = 0 then ret 0
         else if v AND PTE_U = 0 then ret 0
         else ret (p2v (PTE_ADDR v))))"

text \<open>\<open>copyout pgdir va bs\<close> copies the bytes \<open>bs\<close>; each iteration fills the rest of one page.\<close>

lemma page_offset: "va - PGROUNDDOWN va = va AND 0xFFF" "unat (va AND 0xFFF :: uint32) < 4096"
proof -
  have m: "(0xFFF :: uint32) = mask 12"
    by (simp add: mask_eq_exp_minus_1)
  have "(va AND NOT 0xFFF) + (va AND 0xFFF) = (va AND NOT 0xFFF) OR (va AND 0xFFF)"
    by (rule disjunctive_add_eq_or) (auto intro: bit_word_eqI simp: bit_simps)
  also have "\<dots> = va"
    by (rule bit_word_eqI) (auto simp: bit_simps)
  finally show "va - PGROUNDDOWN va = va AND 0xFFF"
    unfolding PGROUNDDOWN_def by (simp add: algebra_simps)
  show "unat (va AND 0xFFF :: uint32) < 4096"
    unfolding m using take_bit_nat_less_exp [of 12 "unat va"] by (simp add: unsigned_take_bit_eq flip: take_bit_eq_mask)
qed

lemma page_rest: "0 < unat (4096 - (va - PGROUNDDOWN va))"
  using page_offset(2) [of va] unat_sub [of "va AND 0xFFF" 4096] by (simp add: page_offset(1) word_le_nat_alt)

function copyout :: "uint32 \<Rightarrow> uint32 \<Rightarrow> uchar list \<Rightarrow> (int, 'z kmem_st_scheme) kern" where
  "copyout pgdir va bs =
     (if bs = [] then ret 0
      else
        let va0 = PGROUNDDOWN va; n = min (unat (PGSIZE - (va - va0))) (length bs) in
        bnd (uva2ka pgdir va0) (\<lambda>pa0.
        if pa0 = 0 then ret (- 1)
        else
          thn (md (\<lambda>s. s\<lparr>mem := write_bytes (mem s) (pa0 + (va - va0)) (take n bs)\<rparr>)) (
          copyout pgdir (va0 + PGSIZE) (drop n bs))))"
  by auto
termination
  by (relation "measure (\<lambda>(pgdir, va, bs). length bs)") (auto simp: page_rest)

declare copyout.simps [simp del]

lemma unat32: "unat (x :: uint32) < 4294967296"
proof -
  have "unat x < 2 ^ LENGTH(32)"
    by (rule unsigned_less)
  then show ?thesis
    by simp
qed

lemma sint_neg: "\<not> unat (v :: uint32) < 2 ^ 31 \<Longrightarrow> sint v < 0"
proof -
  assume "\<not> unat v < 2 ^ 31"
  moreover have "unat v < 2 ^ 32"
    using unsigned_less [of v] by simp
  ultimately have "unat v div 2 ^ 31 = 1"
    by (intro div_nat_eqI) simp_all
  then have "v div 2 ^ 31 = 1"
    by (simp add: word_unat_eq_iff unat_div)
  then have "bit v 31"
    by (simp add: bit_iff_odd)
  then show "sint v < 0"
    using bit_last_iff [of v] by simp
qed

end
