(* ===== verification/Proc.thy ===== *)
theory Proc
  imports File Vm
begin

text \<open>
  The rest of \<^verbatim>\<open>src/proc.c\<close>: \<^verbatim>\<open>userinit\<close>, \<^verbatim>\<open>growproc\<close>, \<^verbatim>\<open>fork\<close>, \<^verbatim>\<open>exit\<close>, \<^verbatim>\<open>wait\<close> and \<^verbatim>\<open>forkret\<close>.  What the linker and the boot code provide
  (\<^verbatim>\<open>data\<close>, the code of the first process, the table \<^verbatim>\<open>devsw\<close>) and \<^verbatim>\<open>cprintf\<close> are the fields of the environment \<open>kenv\<close>.  The trap frame
  of a process is in memory at \<open>p_tf\<close>, with the layout of \<^verbatim>\<open>struct trapframe\<close> of \<^verbatim>\<open>src/x86.h\<close>.
\<close>

record 's kenv =
  e_data :: uint32
  e_initcode :: "uchar list"
  e_devsw :: "nat \<Rightarrow> 's devsw"
  e_cprintf :: "string \<Rightarrow> carg list \<Rightarrow> (unit, 's) kern"

record sys_st = file_st +
  ticks :: uint32
  first :: bool

type_synonym 'z env = "'z sys_st_scheme kenv"

section \<open>Trap frames\<close>

abbreviation (input) tf_size :: nat where "tf_size \<equiv> 76"
abbreviation (input) tf_eax :: uint32 where "tf_eax \<equiv> 28"
abbreviation (input) tf_es :: uint32 where "tf_es \<equiv> 40"
abbreviation (input) tf_ds :: uint32 where "tf_ds \<equiv> 44"
abbreviation (input) tf_trapno :: uint32 where "tf_trapno \<equiv> 48"
abbreviation (input) tf_eip :: uint32 where "tf_eip \<equiv> 56"
abbreviation (input) tf_cs :: uint32 where "tf_cs \<equiv> 60"
abbreviation (input) tf_eflags :: uint32 where "tf_eflags \<equiv> 64"
abbreviation (input) tf_esp :: uint32 where "tf_esp \<equiv> 68"
abbreviation (input) tf_ss :: uint32 where "tf_ss \<equiv> 72"

definition store16 :: "memory \<Rightarrow> uint32 \<Rightarrow> ushort \<Rightarrow> memory" where
  "store16 m a v = m(a := le16 v ! 0, a + 1 := le16 v ! 1)"

definition load16 :: "memory \<Rightarrow> uint32 \<Rightarrow> ushort" where
  "load16 m a = of_le16 [m a, m (a + 1)]"

definition set_tf32 :: "nat \<Rightarrow> uint32 \<Rightarrow> uint32 \<Rightarrow> 'z sched_st_scheme \<Rightarrow> 'z sched_st_scheme" where
  "set_tf32 p off v s = s\<lparr>mem := store32 (mem s) (p_tf (ptable s p) + off) v\<rparr>"

definition set_tf16 :: "nat \<Rightarrow> uint32 \<Rightarrow> ushort \<Rightarrow> 'z sched_st_scheme \<Rightarrow> 'z sched_st_scheme" where
  "set_tf16 p off v s = s\<lparr>mem := store16 (mem s) (p_tf (ptable s p) + off) v\<rparr>"

definition get_tf32 :: "'z sched_st_scheme \<Rightarrow> nat \<Rightarrow> uint32 \<Rightarrow> uint32" where
  "get_tf32 s p off = load32 (mem s) (p_tf (ptable s p) + off)"

text \<open>The bytes of a name that \<^verbatim>\<open>safestrcpy(name, s, 16)\<close> keeps.\<close>

definition safestr :: "uchar list \<Rightarrow> uchar list" where
  "safestr xs = take 15 (takeWhile (\<lambda>c. c \<noteq> 0) xs)"

section \<open>The first process\<close>

definition userinit :: "'z env \<Rightarrow> (unit, 'z sys_st_scheme) kern" where
  "userinit E =
     bnd allocproc (\<lambda>r.
     thn (md (\<lambda>s. s\<lparr>initproc := r\<rparr>)) (
     case r of
       None \<Rightarrow> fault ''null proc''
     | Some p \<Rightarrow>
         bnd (setupkvm (e_data E)) (\<lambda>d.
         thn (md (upd_proc p (\<lambda>q. q\<lparr>p_pgdir := d\<rparr>))) (
         if d = 0 then panic ''userinit: out of memory?''
         else
           thn (inituvm d (e_initcode E) (of_nat (length (e_initcode E)))) (
           thn (md (upd_proc p (\<lambda>q. q\<lparr>p_sz := PGSIZE\<rparr>))) (
           thn (md (\<lambda>s. s\<lparr>mem := memset (mem s) (p_tf (ptable s p)) 0 (of_nat tf_size)\<rparr>)) (
           thn (md (set_tf16 p tf_cs (push_bit 3 4 OR 3))) (
           thn (md (set_tf16 p tf_ds (push_bit 3 5 OR 3))) (
           thn (md (\<lambda>s. set_tf16 p tf_es (load16 (mem s) (p_tf (ptable s p) + tf_ds)) s)) (
           thn (md (\<lambda>s. set_tf16 p tf_ss (load16 (mem s) (p_tf (ptable s p) + tf_ds)) s)) (
           thn (md (set_tf32 p tf_eflags 0x200)) (
           thn (md (set_tf32 p tf_esp PGSIZE)) (
           thn (md (set_tf32 p tf_eip 0)) (
           thn (md (upd_proc p (\<lambda>q. q\<lparr>p_name := map (of_nat \<circ> of_char) ''initcode''\<rparr>))) (
           bnd (namei (e_devsw E) [47]) (\<lambda>cwd.
           thn (md (upd_proc p (\<lambda>q. q\<lparr>p_cwd := cwd\<rparr>))) (
           md (upd_proc p (\<lambda>q. q\<lparr>p_state := RUNNABLE\<rparr>)))))))))))))))))))"

definition growproc :: "'z env \<Rightarrow> int \<Rightarrow> (int, 'z sys_st_scheme) kern" where
  "growproc E n =
     with_proc (\<lambda>p.
     bnd (rd (\<lambda>s. ptable s p)) (\<lambda>q.
     bnd (if n > 0 then bnd (allocuvm (e_cprintf E) (p_pgdir q) (p_sz q) (p_sz q + of_int n)) (\<lambda>sz. ret (sz, sz = 0))
          else if n < 0 then bnd (deallocuvm (p_pgdir q) (p_sz q) (p_sz q + of_int n)) (\<lambda>sz. ret (sz, sz = 0))
          else ret (p_sz q, False)) (\<lambda>(sz, failed).
     if failed then ret (- 1)
     else
       thn (md (upd_proc p (\<lambda>q. q\<lparr>p_sz := sz\<rparr>))) (
       thn (switchuvm p) (
       ret 0)))))"

section \<open>Creating a process\<close>

definition fork :: "'z env \<Rightarrow> (int, 'z sys_st_scheme) kern" where
  "fork E =
     bnd allocproc (\<lambda>r.
     case r of
       None \<Rightarrow> ret (- 1)
     | Some np \<Rightarrow>
         with_proc (\<lambda>p.
         bnd (rd (\<lambda>s. ptable s p)) (\<lambda>q.
         bnd (copyuvm (e_data E) (p_pgdir q) (p_sz q)) (\<lambda>d.
         thn (md (upd_proc np (\<lambda>x. x\<lparr>p_pgdir := d\<rparr>))) (
         if d = 0 then
           bnd (rd (\<lambda>s. p_kstack (ptable s np))) (\<lambda>k.
           thn (kfree k) (
           thn (md (upd_proc np (\<lambda>x. x\<lparr>p_kstack := 0\<rparr>))) (
           thn (md (upd_proc np (\<lambda>x. x\<lparr>p_state := UNUSED\<rparr>))) (
           ret (- 1)))))
         else
           thn (md (upd_proc np (\<lambda>x. x\<lparr>p_sz := p_sz q\<rparr>))) (
           thn (md (upd_proc np (\<lambda>x. x\<lparr>p_parent := Some p\<rparr>))) (
           thn (md (\<lambda>s. s\<lparr>mem := write_bytes (mem s) (p_tf (ptable s np)) (read_bytes (mem s) (p_tf (ptable s p)) tf_size)\<rparr>)) (
           thn (md (set_tf32 np tf_eax 0)) (
           thn (for_each [0..<NOFILE] (\<lambda>i.
             bnd (rd (\<lambda>s. p_ofile (ptable s p) i)) (\<lambda>o'.
             case o' of None \<Rightarrow> ret ()
             | Some f \<Rightarrow> bnd (filedup f) (\<lambda>f'. md (upd_proc np (\<lambda>x. x\<lparr>p_ofile := (p_ofile x)(i := Some f')\<rparr>)))))) (
           bnd (rd (\<lambda>s. p_cwd (ptable s p))) (\<lambda>cwd.
           bnd (case cwd of None \<Rightarrow> fault ''null inode'' | Some c \<Rightarrow> idup c) (\<lambda>c.
           thn (md (upd_proc np (\<lambda>x. x\<lparr>p_cwd := Some c\<rparr>))) (
           thn (md (\<lambda>s. upd_proc np (\<lambda>x. x\<lparr>p_name := safestr (p_name (ptable s p))\<rparr>) s)) (
           bnd (rd (\<lambda>s. sint (p_pid (ptable s np)))) (\<lambda>pid.
           thn (acquire LkPtable) (
           thn (md (upd_proc np (\<lambda>x. x\<lparr>p_state := RUNNABLE\<rparr>))) (
           thn (release LkPtable) (
           ret pid))))))))))))))))))"

definition forkret :: "(unit, 'z sys_st_scheme) kern" where
  "forkret =
     thn (release LkPtable) (
     bnd (rd first) (\<lambda>f.
     whenk f (
       thn (md (\<lambda>s. s\<lparr>first := False\<rparr>)) (
       initlog))))"

section \<open>Ending a process\<close>

text \<open>\<^verbatim>\<open>wakeup1\<close> of a pointer to a process, which can be null.\<close>

definition wakeup1_proc :: "nat option \<Rightarrow> (unit, 'z sched_st_scheme) kern" where
  "wakeup1_proc r = (case r of
       Some p \<Rightarrow> wakeup1 (ChProc p)
     | None \<Rightarrow> md (\<lambda>s. s\<lparr>ptable := (\<lambda>p. if p < NPROC \<and> p_state (ptable s p) = SLEEPING \<and> p_chan (ptable s p) = None
           then (ptable s p)\<lparr>p_state := RUNNABLE\<rparr> else ptable s p)\<rparr>))"

definition exit :: "(unit, 'z sys_st_scheme) kern" where
  "exit =
     with_proc (\<lambda>p.
     bnd (rd initproc) (\<lambda>ip.
     if ip = Some p then panic ''init exiting''
     else
       thn (for_each [0..<NOFILE] (\<lambda>fd.
         bnd (rd (\<lambda>s. p_ofile (ptable s p) fd)) (\<lambda>o'.
         case o' of None \<Rightarrow> ret ()
         | Some f \<Rightarrow>
             thn (fileclose f) (
             md (upd_proc p (\<lambda>x. x\<lparr>p_ofile := (p_ofile x)(fd := None)\<rparr>)))))) (
       thn begin_op (
       bnd (rd (\<lambda>s. p_cwd (ptable s p))) (\<lambda>cwd.
       thn (case cwd of None \<Rightarrow> fault ''null inode'' | Some c \<Rightarrow> iput c) (
       thn end_op (
       thn (md (upd_proc p (\<lambda>x. x\<lparr>p_cwd := None\<rparr>))) (
       thn (acquire LkPtable) (
       bnd (rd (\<lambda>s. p_parent (ptable s p))) (\<lambda>parent.
       thn (wakeup1_proc parent) (
       thn (for_each [0..<NPROC] (\<lambda>c.
         bnd (rd (\<lambda>s. ptable s c)) (\<lambda>q.
         whenk (p_parent q = Some p) (
           thn (md (upd_proc c (\<lambda>x. x\<lparr>p_parent := ip\<rparr>))) (
           whenk (p_state q = ZOMBIE) (wakeup1_proc ip)))))) (
       thn (md (upd_proc p (\<lambda>x. x\<lparr>p_state := ZOMBIE\<rparr>))) (
       thn sched (
       panic ''zombie exit''))))))))))))))"

text \<open>The body of the loop of \<^verbatim>\<open>wait\<close>, entered with \<^verbatim>\<open>ptable.lock\<close> held, at first and after each wait.\<close>

definition wait_loop :: "(int, 'z sys_st_scheme) kern" where
  "wait_loop =
     with_proc (\<lambda>c.
     bnd (rd (\<lambda>s. find (\<lambda>p. p_parent (ptable s p) = Some c \<and> p_state (ptable s p) = ZOMBIE) [0..<NPROC])) (\<lambda>r.
     case r of
       Some p \<Rightarrow>
         bnd (rd (\<lambda>s. ptable s p)) (\<lambda>q.
         thn (kfree (p_kstack q)) (
         thn (md (upd_proc p (\<lambda>x. x\<lparr>p_kstack := 0\<rparr>))) (
         thn (freevm (p_pgdir q)) (
         thn (md (upd_proc p (\<lambda>x. x\<lparr>p_state := UNUSED, p_pid := 0, p_parent := None, p_name := [], p_killed := False\<rparr>))) (
         thn (release LkPtable) (
         ret (sint (p_pid q))))))))
     | None \<Rightarrow>
         bnd (rd (\<lambda>s. (\<exists>p \<in> set [0..<NPROC]. p_parent (ptable s p) = Some c) \<and> \<not> p_killed (ptable s c))) (\<lambda>waits.
         if \<not> waits then thn (release LkPtable) (ret (- 1))
         else thn (sleep (ChProc c) (Some LkPtable)) (fault ''sleep returned''))))"

definition wait :: "(int, 'z sys_st_scheme) kern" where
  "wait = thn (acquire LkPtable) wait_loop"

definition wait_resume :: "bool \<Rightarrow> (int, 'z sys_st_scheme) kern" where
  "wait_resume i = thn (sleep_resume LkPtable i) wait_loop"

end
