(* ===== verification/Syscall.thy ===== *)
theory Syscall
  imports Proc
begin

text \<open>
  The arguments of the system calls (\<^verbatim>\<open>src/syscall.c\<close>) and the calls on processes (\<^verbatim>\<open>src/sysproc.c\<close>).  User memory is reached through the page
  table of the current process, as the hardware does it: an access to a page that is not present, and a write to a page without \<^verbatim>\<open>PTE_W\<close>, is a
  page fault in the kernel.  A pointer argument is returned as an address, a string argument as the bytes before the terminating zero.
\<close>

section \<open>User memory\<close>

definition user_writable :: "memory \<Rightarrow> uint32 \<Rightarrow> uint32 \<Rightarrow> bool" where
  "user_writable m pgdir va =
     (let pde = load32 m (pgdir + 4 * PDX va) in
      pde AND PTE_W \<noteq> 0 \<and> load32 m (p2v (PTE_ADDR pde) + 4 * PTX va) AND PTE_W \<noteq> 0)"

definition uload :: "uint32 \<Rightarrow> (uchar, 'z sched_st_scheme) kern" where
  "uload va =
     with_proc (\<lambda>p.
     bnd (rd (\<lambda>s. map_option (mem s) (translate (mem s) (p_pgdir (ptable s p)) va))) (\<lambda>r.
     case r of None \<Rightarrow> fault ''page fault'' | Some b \<Rightarrow> ret b))"

definition ustore :: "uint32 \<Rightarrow> uchar \<Rightarrow> (unit, 'z sched_st_scheme) kern" where
  "ustore va b =
     with_proc (\<lambda>p.
     bnd (rd (\<lambda>s. if user_writable (mem s) (p_pgdir (ptable s p)) va then translate (mem s) (p_pgdir (ptable s p)) va else None)) (\<lambda>r.
     case r of None \<Rightarrow> fault ''page fault'' | Some a \<Rightarrow> md (\<lambda>s. s\<lparr>mem := (mem s)(a := b)\<rparr>)))"

definition uread :: "uint32 \<Rightarrow> nat \<Rightarrow> (uchar list, 'z sched_st_scheme) kern" where
  "uread va n = mapk [0..<n] (\<lambda>i. uload (va + of_nat i))"

fun uwrite :: "uint32 \<Rightarrow> uchar list \<Rightarrow> (unit, 'z sched_st_scheme) kern" where
  "uwrite va [] = ret ()"
| "uwrite va (b # bs) = thn (ustore va b) (uwrite (va + 1) bs)"

section \<open>Fetching arguments\<close>

definition fetchint :: "uint32 \<Rightarrow> (uint32 option, 'z sched_st_scheme) kern" where
  "fetchint addr =
     with_proc (\<lambda>p.
     bnd (rd (\<lambda>s. p_sz (ptable s p))) (\<lambda>sz.
     if addr \<ge> sz \<or> addr + 4 > sz then ret None
     else bnd (uread addr 4) (\<lambda>bs. ret (Some (of_le32 bs)))))"

fun fetchstr_loop :: "nat \<Rightarrow> uint32 \<Rightarrow> (uchar list option, 'z sched_st_scheme) kern" where
  "fetchstr_loop 0 s = ret None"
| "fetchstr_loop (Suc n) s =
     bnd (uload s) (\<lambda>b.
     if b = 0 then ret (Some [])
     else bnd (fetchstr_loop n (s + 1)) (\<lambda>r. ret (map_option (\<lambda>bs. b # bs) r)))"

definition fetchstr :: "uint32 \<Rightarrow> (uchar list option, 'z sched_st_scheme) kern" where
  "fetchstr addr =
     with_proc (\<lambda>p.
     bnd (rd (\<lambda>s. p_sz (ptable s p))) (\<lambda>sz.
     if addr \<ge> sz then ret None
     else fetchstr_loop (unat sz - unat addr) addr))"

definition argint :: "uint32 \<Rightarrow> (uint32 option, 'z sched_st_scheme) kern" where
  "argint n =
     with_proc (\<lambda>p.
     bnd (rd (\<lambda>s. get_tf32 s p tf_esp)) (\<lambda>esp.
     fetchint (esp + 4 + 4 * n)))"

definition argptr :: "uint32 \<Rightarrow> int \<Rightarrow> (uint32 option, 'z sched_st_scheme) kern" where
  "argptr n size' =
     bnd (argint n) (\<lambda>r.
     case r of
       None \<Rightarrow> ret None
     | Some i \<Rightarrow>
         with_proc (\<lambda>p.
         bnd (rd (\<lambda>s. p_sz (ptable s p))) (\<lambda>sz.
         if i \<ge> sz \<or> i + of_int size' > sz then ret None
         else ret (Some i))))"

definition argstr :: "uint32 \<Rightarrow> (uchar list option, 'z sched_st_scheme) kern" where
  "argstr n =
     bnd (argint n) (\<lambda>r.
     case r of None \<Rightarrow> ret None | Some addr \<Rightarrow> fetchstr addr)"

section \<open>The calls on processes\<close>

definition sys_fork :: "'z env \<Rightarrow> (int, 'z sys_st_scheme) kern" where
  "sys_fork E = fork E"

definition sys_exit :: "(int, 'z sys_st_scheme) kern" where
  "sys_exit = thn exit (ret 0)"

definition sys_wait :: "(int, 'z sys_st_scheme) kern" where
  "sys_wait = wait"

definition sys_kill :: "(int, 'z sys_st_scheme) kern" where
  "sys_kill =
     bnd (argint 0) (\<lambda>r.
     case r of None \<Rightarrow> ret (- 1) | Some pid \<Rightarrow> kill pid)"

definition sys_getpid :: "(int, 'z sys_st_scheme) kern" where
  "sys_getpid = with_proc (\<lambda>p. rd (\<lambda>s. sint (p_pid (ptable s p))))"

definition sys_sbrk :: "'z env \<Rightarrow> (int, 'z sys_st_scheme) kern" where
  "sys_sbrk E =
     bnd (argint 0) (\<lambda>r.
     case r of
       None \<Rightarrow> ret (- 1)
     | Some n \<Rightarrow>
         with_proc (\<lambda>p.
         bnd (rd (\<lambda>s. p_sz (ptable s p))) (\<lambda>addr.
         bnd (growproc E (sint n)) (\<lambda>g.
         if g < 0 then ret (- 1) else ret (sint addr)))))"

definition sys_sleep_loop :: "uint32 \<Rightarrow> uint32 \<Rightarrow> (int, 'z sys_st_scheme) kern" where
  "sys_sleep_loop ticks0 n =
     bnd (rd ticks) (\<lambda>t.
     if t - ticks0 < n then
       with_proc (\<lambda>p.
       bnd (rd (\<lambda>s. p_killed (ptable s p))) (\<lambda>k.
       if k then thn (release LkTicks) (ret (- 1))
       else thn (sleep ChTicks (Some LkTicks)) (fault ''sleep returned'')))
     else
       thn (release LkTicks) (ret 0))"

definition sys_sleep :: "(int, 'z sys_st_scheme) kern" where
  "sys_sleep =
     bnd (argint 0) (\<lambda>r.
     case r of
       None \<Rightarrow> ret (- 1)
     | Some n \<Rightarrow>
         thn (acquire LkTicks) (
         bnd (rd ticks) (\<lambda>ticks0.
         sys_sleep_loop ticks0 n)))"

definition sys_sleep_resume :: "uint32 \<Rightarrow> uint32 \<Rightarrow> bool \<Rightarrow> (int, 'z sys_st_scheme) kern" where
  "sys_sleep_resume ticks0 n i = thn (sleep_resume LkTicks i) (sys_sleep_loop ticks0 n)"

definition sys_uptime :: "(int, 'z sys_st_scheme) kern" where
  "sys_uptime =
     thn (acquire LkTicks) (
     bnd (rd ticks) (\<lambda>xticks.
     thn (release LkTicks) (
     ret (sint xticks))))"

section \<open>What the fetched arguments are\<close>

text \<open>The user's view of its memory: the byte at a virtual address, and that the addresses below its size are mapped.\<close>

definition ubyte :: "'z sched_st_scheme \<Rightarrow> nat \<Rightarrow> uint32 \<Rightarrow> uchar" where
  "ubyte s p va = mem s (the (translate (mem s) (p_pgdir (ptable s p)) va))"

definition user_mapped :: "'z sched_st_scheme \<Rightarrow> nat \<Rightarrow> bool" where
  "user_mapped s p = (p_sz (ptable s p) \<le> KERNBASE \<and> (\<forall>va < p_sz (ptable s p). translate (mem s) (p_pgdir (ptable s p)) va \<noteq> None))"

lemma uload_eq:
  assumes "curproc s = Some p" "user_mapped s p" "va < p_sz (ptable s p)"
  shows "uload va s = Ok (ubyte s p va) s"
  using assms by (auto simp: uload_def with_proc_def user_mapped_def ubyte_def kern_simps)

lemma user_range:
  assumes "user_mapped s p" "unat a + n \<le> unat (p_sz (ptable s p))" "i < n"
  shows "a + of_nat i < p_sz (ptable s p)" "unat (a + of_nat i) = unat a + i"
proof -
  have "unat (p_sz (ptable s p)) \<le> unat KERNBASE"
    using assms(1) by (simp add: user_mapped_def word_le_nat_alt)
  then show "unat (a + of_nat i) = unat a + i"
    using assms by (intro unat_add_of_nat) simp
  then show "a + of_nat i < p_sz (ptable s p)"
    using assms by (simp add: word_less_nat_alt)
qed

lemma uread_eq:
  assumes "curproc s = Some p" "user_mapped s p" "unat a + n \<le> unat (p_sz (ptable s p))"
  shows "uread a n s = Ok (map (\<lambda>i. ubyte s p (a + of_nat i)) [0..<n]) s"
proof -
  have "mapk is (\<lambda>i. uload (a + of_nat i)) s = Ok (map (\<lambda>i. ubyte s p (a + of_nat i)) is) s" if "set is \<subseteq> {..<n}" for "is"
    using that by (induction "is") (use assms user_range [OF assms(2,3)] in \<open>simp_all add: bnd_Ok uload_eq\<close>)
  from this [of "[0..<n]"] show ?thesis
    by (simp add: uread_def atLeast0LessThan)
qed

lemma fetchint_eq:
  assumes s: "curproc s = Some p" "user_mapped s p"
  shows "fetchint a s = Ok (if unat a + 4 \<le> unat (p_sz (ptable s p)) then Some (of_le32 (map (\<lambda>i. ubyte s p (a + of_nat i)) [0..<4])) else None) s"
proof -
  let ?sz = "p_sz (ptable s p)"
  have sz: "unat ?sz \<le> 2147483648"
    using s(2) by (simp add: user_mapped_def word_le_nat_alt)
  have "(a \<ge> ?sz \<or> a + 4 > ?sz) = (\<not> unat a + 4 \<le> unat ?sz)"
  proof (cases "a \<ge> ?sz")
    case False
    then have "unat a < unat ?sz"
      by (simp add: word_less_nat_alt not_le)
    then have "unat (a + 4) = unat a + 4"
      using sz unat_add_lt [of a 4] by simp
    then show ?thesis
      using False by (simp add: word_less_nat_alt) linarith
  qed (simp add: word_le_nat_alt)
  then show ?thesis
    using s uread_eq [OF s, of a 4] by (simp add: fetchint_def with_proc_def kern_simps)
qed

text \<open>The bytes from \<open>a\<close> on, up to the size of the process.\<close>

definition ubytes :: "'z sched_st_scheme \<Rightarrow> nat \<Rightarrow> uint32 \<Rightarrow> nat \<Rightarrow> uchar list" where
  "ubytes s p a n = map (\<lambda>i. ubyte s p (a + of_nat i)) [0..<n]"

definition cstring :: "uchar list \<Rightarrow> uchar list option" where
  "cstring bs = (if 0 \<in> set bs then Some (takeWhile (\<lambda>b. b \<noteq> 0) bs) else None)"

lemma ubytes_Suc: "ubytes s p a (Suc n) = ubyte s p a # ubytes s p (a + 1) n"
  by (simp add: ubytes_def upt_conv_Cons map_Suc_upt [symmetric] comp_def add.assoc del: upt_Suc)

lemma fetchstr_loop_eq:
  assumes "curproc s = Some p" "user_mapped s p" "unat a + n \<le> unat (p_sz (ptable s p))"
  shows "fetchstr_loop n a s = Ok (cstring (ubytes s p a n)) s"
  using assms(3)
proof (induction n arbitrary: a)
  case 0
  then show ?case
    by (simp add: cstring_def ubytes_def)
next
  case (Suc n)
  have "unat (p_sz (ptable s p)) \<le> 2147483648"
    using assms(2) by (simp add: user_mapped_def word_le_nat_alt)
  then have a: "a < p_sz (ptable s p)" "unat (a + 1) + n \<le> unat (p_sz (ptable s p))"
    using user_range [OF assms(2) Suc.prems, of 0] Suc.prems unat_add_lt [of a 1] by simp_all
  show ?case
    using uload_eq [OF assms(1,2) a(1)] Suc.IH [OF a(2)]
    by (simp add: bnd_Ok ubytes_Suc cstring_def)
qed

lemma fetchstr_eq:
  assumes s: "curproc s = Some p" "user_mapped s p"
  shows "fetchstr a s = Ok (cstring (ubytes s p a (unat (p_sz (ptable s p)) - unat a))) s"
proof (cases "a \<ge> p_sz (ptable s p)")
  case True
  then show ?thesis
    using s by (simp add: fetchstr_def with_proc_def kern_simps word_le_nat_alt cstring_def ubytes_def)
next
  case False
  then show ?thesis
    using s fetchstr_loop_eq [OF s, of a "unat (p_sz (ptable s p)) - unat a"]
    by (simp add: fetchstr_def with_proc_def kern_simps word_le_nat_alt)
qed

lemma ubytes_eq: "map (\<lambda>i. ubyte s p (a + of_nat i)) [0..<n] = ubytes s p a n"
  by (simp add: ubytes_def)

lemma argptr_bound:
  fixes i sz :: uint32
  assumes "sz \<le> KERNBASE" "- (2 ^ 31) < k" "k < 2 ^ 31"
  shows "\<not> (i \<ge> sz \<or> i + of_int k > sz) \<longleftrightarrow> unat i < unat sz \<and> 0 \<le> int (unat i) + k \<and> int (unat i) + k \<le> int (unat sz)"
proof (cases "i \<ge> sz")
  case False
  have sz: "uint sz \<le> 2147483648" "uint i < uint sz"
    using assms(1) False by (simp_all add: word_le_def word_less_def not_le)
  have b: "- 2147483648 < uint i + k" "k < 2147483648"
    using assms(2,3) add_mono_thms_linordered_field(3) [of "- 2147483648" k 0 "uint i"] by simp_all
  have "uint (i + of_int k) = (uint i + k) mod 4294967296"
    by (simp add: uint_word_ariths uint_word_of_int mod_simps)
  also have "\<dots> = (if uint i + k < 0 then uint i + k + 4294967296 else uint i + k)"
  proof (cases "uint i + k < 0")
    case True
    have "(uint i + k) mod 4294967296 = (uint i + k + 4294967296) mod 4294967296"
      by simp
    also have "\<dots> = uint i + k + 4294967296"
      using b(1) True by (intro mod_pos_pos_trivial) linarith+
    finally show ?thesis
      using True by simp
  next
    case False
    then show ?thesis
      using assms(3) sz by simp
  qed
  finally have "\<not> (i + of_int k > sz) \<longleftrightarrow> 0 \<le> uint i + k \<and> uint i + k \<le> uint sz"
    using b(1) sz(1) by (auto simp: word_less_def)
  moreover have "unat i < unat sz" "int (unat i) = uint i" "int (unat sz) = uint sz"
    using False by (simp_all add: word_le_nat_alt)
  ultimately show ?thesis
    using False by auto
qed (simp add: word_le_nat_alt)

text \<open>
  C34 (fetching system call arguments).  When the pages below the size of the process are mapped, fetching an argument never faults and never
  reads outside of the process: \<^verbatim>\<open>fetchint\<close> returns the four bytes at its address exactly when they lie below the size, and \<^verbatim>\<open>fetchstr\<close> the bytes up to the
  first zero exactly when there is one below the size.  \<^verbatim>\<open>argint\<close> and \<^verbatim>\<open>argstr\<close> fetch the word of the argument on the user's stack, and the string it points to.
  \<^verbatim>\<open>argptr\<close> accepts the pointer exactly when it lies below the size and so does the end of the block; for a negative count the block ends before the pointer, and it is
  accepted whenever it does not start below address 0.
\<close>

theorem fetch_arguments:
  assumes s: "curproc s = Some p" "user_mapped s p"
  defines "sz \<equiv> unat (p_sz (ptable s p))"
  defines "arg n \<equiv> get_tf32 s p tf_esp + 4 + 4 * n"
  defines "w n \<equiv> of_le32 (ubytes s p (arg n) 4)"
  shows "fetchint a s = Ok (if unat a + 4 \<le> sz then Some (of_le32 (ubytes s p a 4)) else None) s \<and>
    fetchstr a s = Ok (cstring (ubytes s p a (sz - unat a))) s \<and>
    argint n s = Ok (if unat (arg n) + 4 \<le> sz then Some (w n) else None) s \<and>
    argstr n s = Ok (if unat (arg n) + 4 \<le> sz then cstring (ubytes s p (w n) (sz - unat (w n))) else None) s \<and>
    (\<forall>k. - (2 ^ 31) < k \<and> k < 2 ^ 31 \<longrightarrow> argptr n k s =
      Ok (if unat (arg n) + 4 \<le> sz \<and> unat (w n) < sz \<and> 0 \<le> int (unat (w n)) + k \<and> int (unat (w n)) + k \<le> int sz then Some (w n) else None) s)"
proof -
  have f: "fetchint b s = Ok (if unat b + 4 \<le> sz then Some (of_le32 (ubytes s p b 4)) else None) s" for b
    using fetchint_eq [OF s, of b] unfolding ubytes_eq sz_def .
  then have i: "argint m s = Ok (if unat (arg m) + 4 \<le> sz then Some (w m) else None) s" for m
    using s by (simp add: argint_def with_proc_def kern_simps arg_def w_def)
  have g: "fetchstr b s = Ok (cstring (ubytes s p b (sz - unat b))) s" for b
    using fetchstr_eq [OF s, of b] by (simp add: sz_def)
  have "argptr n k s = Ok (if unat (arg n) + 4 \<le> sz \<and> unat (w n) < sz \<and> 0 \<le> int (unat (w n)) + k \<and> int (unat (w n)) + k \<le> int sz then Some (w n) else None) s"
    if "- (2 ^ 31) < k" "k < 2 ^ 31" for k
    using s argptr_bound [OF _ that, of "p_sz (ptable s p)" "w n"]
    by (auto simp: argptr_def with_proc_def kern_simps i user_mapped_def sz_def)
  then show ?thesis
    using f i g by (simp add: argstr_def kern_simps)
qed

text \<open>A process of one page, mapped at address 0 to the frame at \<open>0x202000\<close>, whose first stack argument is the number 8.\<close>

definition demo_user :: sched_st where
  "demo_user = sched_user\<lparr>mem := store32 (store32 (store32 (\<lambda>_. 0) 0x80202004 8) 0x80200000 0x201007) 0x80201000 0x202007\<rparr>"

lemma low_page: "(va :: uint32) < 4096 \<Longrightarrow> PDX va = 0 \<and> PTX va = 0 \<and> va AND 0xFFF = va"
proof -
  assume "va < 4096"
  then have "unat va < 2 ^ 12"
    by (simp add: word_less_nat_alt)
  then have "drop_bit 12 va = 0" "drop_bit 22 va = 0" "take_bit 12 va = va"
    by (auto simp: drop_bit_eq_div take_bit_eq_mod word_arith_nat_div word_arith_nat_mod unat_of_nat)
  moreover have "va AND 0xFFF = take_bit 12 va"
    by (simp add: take_bit_eq_mask mask_eq_exp_minus_1)
  ultimately show ?thesis
    by (simp add: PDX_def PTX_def)
qed

lemma demo_words:
  "load32 (mem demo_user) 0x80200000 = 0x201007" "load32 (mem demo_user) 0x80201000 = 0x202007" "load32 (mem demo_user) 0x80202004 = 8"
  by (simp_all add: demo_user_def load32_def store32_def of_le32_def le32_def)

lemma demo_user_facts: "curproc demo_user = Some (Suc 0)" "p_pgdir (ptable demo_user (Suc 0)) = 0x80200000" "p_sz (ptable demo_user (Suc 0)) = 4096"
  "get_tf32 demo_user (Suc 0) tf_esp = 0"
  by (simp_all add: demo_user_def boot_simps curproc_def get_tf32_def load32_def store32_def of_le32_def)

lemma demo_user_translate: "va < 4096 \<Longrightarrow> translate (mem demo_user) 0x80200000 va = Some (0x80202000 + va)"
  using low_page [of va] by (simp add: translate_def demo_words PTE_ADDR_def p2v_def)

lemma demo_user_mapped: "user_mapped demo_user (Suc 0)"
  by (simp add: user_mapped_def demo_user_facts demo_user_translate)

lemma fetchint_demo: "fetchint 4 demo_user = Ok (Some 8) demo_user"
proof -
  have "ubytes demo_user (Suc 0) 4 4 = [8, 0, 0, 0]"
    by (simp add: ubytes_def ubyte_def demo_user_facts demo_user_translate upt_rec)
      (simp add: demo_user_def store32_def le32_def)
  then show ?thesis
    using fetchint_eq [OF demo_user_facts(1) demo_user_mapped, of 4] unfolding ubytes_eq by (simp add: demo_user_facts of_le32_def)
qed

theorem fetch_arguments_witness:
  "fetchint 4 demo_user = Ok (Some 8) demo_user \<and> fetchint 4093 demo_user = Ok None demo_user \<and>
   argptr 0 4088 demo_user = Ok (Some 8) demo_user \<and> argptr 0 4089 demo_user = Ok None demo_user \<and> argptr 0 (- 1) demo_user = Ok (Some 8) demo_user"
proof -
  note f = fetch_arguments [OF demo_user_facts(1) demo_user_mapped]
  have i: "fetchint 4 demo_user = Ok (Some 8) demo_user" "fetchint 4093 demo_user = Ok None demo_user"
    using f [of 4 0] f [of 4093 0] fetchint_demo by (simp_all add: demo_user_facts)
  then have "of_le32 (ubytes demo_user 1 4 4) = 8"
    using f [of 4 0] by (simp add: demo_user_facts)
  then show ?thesis
    using i f [of 4 0] by (simp add: demo_user_facts)
qed

end
