(* ===== verification/Exec.thy ===== *)
theory Exec
  imports Syscall
begin

text \<open>
  \<^verbatim>\<open>exec\<close> (\<^verbatim>\<open>src/exec.c\<close>, \<^verbatim>\<open>src/elf.h\<close>) and \<^verbatim>\<open>loaduvm\<close> (\<^verbatim>\<open>src/vm.c\<close>).  The arguments are the list of the strings before the null pointer.
  Each \<^verbatim>\<open>goto bad\<close> is a call of \<open>exec_bad\<close> with the page directory and the inode the program holds at that point.
\<close>

section \<open>ELF headers (elf.h)\<close>

record elfhdr =
  e_magic :: uint32
  e_entry :: uint32
  e_phoff :: uint32
  e_phnum :: ushort

record proghdr =
  ph_type :: uint32
  ph_off :: uint32
  ph_vaddr :: uint32
  ph_filesz :: uint32
  ph_memsz :: uint32

definition get_elfhdr :: "uchar list \<Rightarrow> elfhdr" where
  "get_elfhdr bs = \<lparr>e_magic = of_le32 (slice 0 4 bs), e_entry = of_le32 (slice 24 4 bs),
     e_phoff = of_le32 (slice 28 4 bs), e_phnum = of_le16 (slice 44 2 bs)\<rparr>"

definition get_proghdr :: "uchar list \<Rightarrow> proghdr" where
  "get_proghdr bs = \<lparr>ph_type = of_le32 (slice 0 4 bs), ph_off = of_le32 (slice 4 4 bs), ph_vaddr = of_le32 (slice 8 4 bs),
     ph_filesz = of_le32 (slice 16 4 bs), ph_memsz = of_le32 (slice 20 4 bs)\<rparr>"

abbreviation (input) ELF_MAGIC :: uint32 where "ELF_MAGIC \<equiv> 0x464C457F"
abbreviation (input) ELF_PROG_LOAD :: uint32 where "ELF_PROG_LOAD \<equiv> 1"
abbreviation (input) MAXARG :: nat where "MAXARG \<equiv> 32"

section \<open>Loading a segment\<close>

text \<open>The index of the loop passes through all pages of the address space before it wraps; \<open>fuel\<close> counts them.\<close>

fun loaduvm_loop :: "'z devs \<Rightarrow> nat \<Rightarrow> uint32 \<Rightarrow> uint32 \<Rightarrow> nat \<Rightarrow> uint32 \<Rightarrow> uint32 \<Rightarrow> uint32 \<Rightarrow> (int, 'z fs_st_scheme) kern" where
  "loaduvm_loop devsw 0 pgdir addr ip off sz i = (\<lambda>s. Diverge)"
| "loaduvm_loop devsw (Suc fuel) pgdir addr ip off sz i =
     (if \<not> i < sz then ret 0
      else
        bnd (walkpgdir pgdir (addr + i) False) (\<lambda>r.
        case r of
          None \<Rightarrow> panic ''loaduvm: address should exist''
        | Some pte \<Rightarrow>
            bnd (rd (\<lambda>s. PTE_ADDR (load32 (mem s) pte))) (\<lambda>pa.
            let n = (if sz - i < PGSIZE then sz - i else PGSIZE) in
            bnd (readi devsw ip (off + i) n) (\<lambda>(r, bs).
            thn (md (\<lambda>s. s\<lparr>mem := write_bytes (mem s) (p2v pa) bs\<rparr>)) (
            if (of_int r :: uint32) \<noteq> n then ret (- 1)
            else loaduvm_loop devsw fuel pgdir addr ip off sz (i + PGSIZE))))))"

definition loaduvm :: "'z devs \<Rightarrow> uint32 \<Rightarrow> uint32 \<Rightarrow> nat \<Rightarrow> uint32 \<Rightarrow> uint32 \<Rightarrow> (int, 'z fs_st_scheme) kern" where
  "loaduvm devsw pgdir addr ip off sz =
     (if addr mod PGSIZE \<noteq> 0 then panic ''loaduvm: addr must be page aligned''
      else loaduvm_loop devsw (2 ^ 20 + 1) pgdir addr ip off sz 0)"

section \<open>exec\<close>

definition exec_bad :: "uint32 \<Rightarrow> nat option \<Rightarrow> (int, 'z sys_st_scheme) kern" where
  "exec_bad pgdir ip =
     thn (whenk (pgdir \<noteq> 0) (freevm pgdir)) (
     thn (case ip of None \<Rightarrow> ret () | Some i \<Rightarrow> thn (iunlockput i) end_op) (
     ret (- 1)))"

text \<open>The loop over the program headers, \<open>n\<close> of which are left; \<open>None\<close> is a \<^verbatim>\<open>goto bad\<close>.\<close>

fun exec_load :: "'z env \<Rightarrow> uint32 \<Rightarrow> nat \<Rightarrow> nat \<Rightarrow> uint32 \<Rightarrow> uint32 \<Rightarrow> (uint32 option, 'z sys_st_scheme) kern" where
  "exec_load E pgdir ip 0 off sz = ret (Some sz)"
| "exec_load E pgdir ip (Suc n) off sz =
     bnd (readi (e_devsw E) ip off 32) (\<lambda>(r, bs).
     if r \<noteq> 32 then ret None
     else
       let ph = get_proghdr bs in
       if ph_type ph \<noteq> ELF_PROG_LOAD then exec_load E pgdir ip n (off + 32) sz
       else if ph_memsz ph < ph_filesz ph then ret None
       else
         bnd (allocuvm (e_cprintf E) pgdir sz (ph_vaddr ph + ph_memsz ph)) (\<lambda>sz'.
         if sz' = 0 then ret None
         else
           bnd (loaduvm (e_devsw E) pgdir (ph_vaddr ph) ip (ph_off ph) (ph_filesz ph)) (\<lambda>l.
           if l < 0 then ret None
           else exec_load E pgdir ip n (off + 32) sz')))"

text \<open>Pushing the argument strings: the stack pointer after them, and their addresses.\<close>

fun exec_push :: "uint32 \<Rightarrow> uint32 \<Rightarrow> nat \<Rightarrow> uchar list list \<Rightarrow> ((uint32 \<times> uint32 list) option, 'z kmem_st_scheme) kern" where
  "exec_push pgdir sp argc [] = ret (Some (sp, []))"
| "exec_push pgdir sp argc (a # argv) =
     (if argc \<ge> MAXARG then ret None
      else
        let sp = (sp - of_nat (length a + 1)) AND NOT 3 in
        bnd (copyout pgdir sp (a @ [0])) (\<lambda>c.
        if c < 0 then ret None
        else
          bnd (exec_push pgdir sp (Suc argc) argv) (\<lambda>r.
          ret (map_option (\<lambda>(sp', us). (sp', sp # us)) r))))"

fun exec_last :: "uchar list \<Rightarrow> uchar list \<Rightarrow> uchar list" where
  "exec_last lst [] = lst"
| "exec_last lst (c # s) = exec_last (if c = 47 then s else lst) s"

text \<open>From the end of loading on; \<open>None\<close> is a \<^verbatim>\<open>goto bad\<close>, otherwise the size and the stack pointer of the new image.\<close>

definition exec_stack :: "'z env \<Rightarrow> uint32 \<Rightarrow> uint32 \<Rightarrow> uchar list list \<Rightarrow> ((uint32 \<times> uint32) option, 'z sys_st_scheme) kern" where
  "exec_stack E pgdir sz0 argv =
     (let sz1 = PGROUNDUP sz0 in
      bnd (allocuvm (e_cprintf E) pgdir sz1 (sz1 + 2 * PGSIZE)) (\<lambda>sz.
      if sz = 0 then ret None
      else
        thn (clearpteu pgdir (sz - 2 * PGSIZE)) (
        bnd (exec_push pgdir sz 0 argv) (\<lambda>r.
        case r of
          None \<Rightarrow> ret None
        | Some (sp, us) \<Rightarrow>
            let argc = of_nat (length argv);
                ustack = [0xFFFFFFFF, argc, sp - (argc + 1) * 4] @ us @ [0];
                sp' = sp - (3 + argc + 1) * 4 in
            bnd (copyout pgdir sp' (concat (map le32 ustack))) (\<lambda>c.
            if c < 0 then ret None else ret (Some (sz, sp')))))))"

definition exec_commit :: "elfhdr \<Rightarrow> uint32 \<Rightarrow> uint32 \<Rightarrow> uint32 \<Rightarrow> uchar list \<Rightarrow> (int, 'z sys_st_scheme) kern" where
  "exec_commit elf pgdir sz sp path =
     with_proc (\<lambda>p.
     thn (md (upd_proc p (\<lambda>q. q\<lparr>p_name := safestr (exec_last path path)\<rparr>))) (
     bnd (rd (\<lambda>s. p_pgdir (ptable s p))) (\<lambda>oldpgdir.
     thn (md (upd_proc p (\<lambda>q. q\<lparr>p_pgdir := pgdir\<rparr>))) (
     thn (md (upd_proc p (\<lambda>q. q\<lparr>p_sz := sz\<rparr>))) (
     thn (md (set_tf32 p tf_eip (e_entry elf))) (
     thn (md (set_tf32 p tf_esp sp)) (
     thn (switchuvm p) (
     thn (freevm oldpgdir) (
     ret 0)))))))))"

text \<open>
  The test \<^verbatim>\<open>readi(...) < sizeof(elf)\<close> compares unsigned numbers, so that it lets the result \<open>- 1\<close> of \<^verbatim>\<open>readi\<close> through; the header is then read
  from memory nobody wrote, which is a fault of the model.
\<close>

definition exec :: "'z env \<Rightarrow> uchar list \<Rightarrow> uchar list list \<Rightarrow> (int, 'z sys_st_scheme) kern" where
  "exec E path argv =
     thn begin_op (
     bnd (namei (e_devsw E) path) (\<lambda>r.
     case r of
       None \<Rightarrow> thn end_op (ret (- 1))
     | Some ip \<Rightarrow>
         thn (ilock ip) (
         bnd (readi (e_devsw E) ip 0 52) (\<lambda>(n, bs).
         if (of_int n :: uint32) < 52 then exec_bad 0 (Some ip)
         else if length bs < 52 then fault ''uninitialised elf header''
         else
           let elf = get_elfhdr bs in
           if e_magic elf \<noteq> ELF_MAGIC then exec_bad 0 (Some ip)
           else
             bnd (setupkvm (e_data E)) (\<lambda>pgdir.
             if pgdir = 0 then exec_bad 0 (Some ip)
             else
               bnd (exec_load E pgdir ip (unat (e_phnum elf)) (e_phoff elf) 0) (\<lambda>r.
               case r of
                 None \<Rightarrow> exec_bad pgdir (Some ip)
               | Some sz \<Rightarrow>
                   thn (iunlockput ip) (
                   thn end_op (
                   bnd (exec_stack E pgdir sz argv) (\<lambda>r.
                   case r of
                     None \<Rightarrow> exec_bad pgdir None
                   | Some (sz', sp) \<Rightarrow> exec_commit elf pgdir sz' sp path)))))))))"

end
