(* ===== verification/Sysfile.thy ===== *)
theory Sysfile
  imports Exec
begin

text \<open>
  The system calls on files (\<^verbatim>\<open>src/sysfile.c\<close>): checking of the arguments, and the calls into \<open>File\<close>, \<open>Dir\<close>, \<open>Inode\<close> and \<open>Exec\<close>.  Each
  \<^verbatim>\<open>goto bad\<close> is a call of the definition whose name ends in \<open>_bad\<close>.
\<close>

section \<open>Descriptors\<close>

definition argfd :: "uint32 \<Rightarrow> ((nat \<times> nat) option, 'z sched_st_scheme) kern" where
  "argfd n =
     bnd (argint n) (\<lambda>r.
     case r of
       None \<Rightarrow> ret None
     | Some fd \<Rightarrow>
         with_proc (\<lambda>p.
         if sint fd < 0 \<or> sint fd \<ge> int NOFILE then ret None
         else
           bnd (rd (\<lambda>s. p_ofile (ptable s p) (unat fd))) (\<lambda>o'.
           ret (map_option (\<lambda>f. (unat fd, f)) o'))))"

definition fdalloc :: "nat \<Rightarrow> (nat option, 'z sched_st_scheme) kern" where
  "fdalloc f =
     with_proc (\<lambda>p.
     bnd (rd (\<lambda>s. find (\<lambda>fd. p_ofile (ptable s p) fd = None) [0..<NOFILE])) (\<lambda>r.
     case r of
       None \<Rightarrow> ret None
     | Some fd \<Rightarrow>
         thn (md (upd_proc p (\<lambda>q. q\<lparr>p_ofile := (p_ofile q)(fd := Some f)\<rparr>))) (
         ret (Some fd))))"

definition clear_fd :: "nat \<Rightarrow> (unit, 'z sched_st_scheme) kern" where
  "clear_fd fd = with_proc (\<lambda>p. md (upd_proc p (\<lambda>q. q\<lparr>p_ofile := (p_ofile q)(fd := None)\<rparr>)))"

definition sys_dup :: "(int, 'z sys_st_scheme) kern" where
  "sys_dup =
     bnd (argfd 0) (\<lambda>r.
     case r of
       None \<Rightarrow> ret (- 1)
     | Some (_, f) \<Rightarrow>
         bnd (fdalloc f) (\<lambda>d.
         case d of
           None \<Rightarrow> ret (- 1)
         | Some fd \<Rightarrow> bnd (filedup f) (\<lambda>_. ret (int fd))))"

text \<open>The arguments of \<^verbatim>\<open>read\<close> and \<^verbatim>\<open>write\<close>: file, pointer and count.\<close>

definition arg_buffer :: "((nat \<times> uint32 \<times> int) option, 'z sched_st_scheme) kern" where
  "arg_buffer =
     bnd (argfd 0) (\<lambda>r.
     case r of
       None \<Rightarrow> ret None
     | Some (_, f) \<Rightarrow>
         bnd (argint 2) (\<lambda>r.
         case r of
           None \<Rightarrow> ret None
         | Some n \<Rightarrow>
             bnd (argptr 1 (sint n)) (\<lambda>r.
             ret (map_option (\<lambda>p. (f, p, sint n)) r))))"

definition sys_read :: "'z env \<Rightarrow> (int, 'z sys_st_scheme) kern" where
  "sys_read E =
     bnd arg_buffer (\<lambda>r.
     case r of
       None \<Rightarrow> ret (- 1)
     | Some (f, p, n) \<Rightarrow>
         bnd (fileread (e_devsw E) f n) (\<lambda>(r, bs).
         thn (uwrite p bs) (
         ret r)))"

definition sys_write :: "'z env \<Rightarrow> (int, 'z sys_st_scheme) kern" where
  "sys_write E =
     bnd arg_buffer (\<lambda>r.
     case r of
       None \<Rightarrow> ret (- 1)
     | Some (f, p, n) \<Rightarrow>
         bnd (uread p (nat n)) (\<lambda>bs.
         filewrite (e_devsw E) f bs n))"

definition sys_close :: "(int, 'z sys_st_scheme) kern" where
  "sys_close =
     bnd (argfd 0) (\<lambda>r.
     case r of
       None \<Rightarrow> ret (- 1)
     | Some (fd, f) \<Rightarrow>
         thn (clear_fd fd) (
         thn (fileclose f) (
         ret 0)))"

definition sys_fstat :: "(int, 'z sys_st_scheme) kern" where
  "sys_fstat =
     bnd (argfd 0) (\<lambda>r.
     case r of
       None \<Rightarrow> ret (- 1)
     | Some (_, f) \<Rightarrow>
         bnd (argptr 1 20) (\<lambda>r.
         case r of
           None \<Rightarrow> ret (- 1)
         | Some a \<Rightarrow>
             bnd (filestat f) (\<lambda>r.
             case r of
               None \<Rightarrow> ret (- 1)
             | Some st \<Rightarrow>
                 thn (uwrite a (le16 (st_type st))) (
                 thn (uwrite (a + 4) (le32 (st_dev st))) (
                 thn (uwrite (a + 8) (le32 (st_ino st))) (
                 thn (uwrite (a + 12) (le16 (st_nlink st))) (
                 thn (uwrite (a + 16) (le32 (st_size st))) (
                 ret 0))))))))"

section \<open>Links\<close>

definition sys_link_bad :: "nat \<Rightarrow> (int, 'z sys_st_scheme) kern" where
  "sys_link_bad ip =
     thn (ilock ip) (
     thn (md (upd_inode ip (\<lambda>i. i\<lparr>i_nlink := i_nlink i - 1\<rparr>))) (
     thn (iupdate ip) (
     thn (iunlockput ip) (
     thn end_op (
     ret (- 1))))))"

definition sys_link :: "'z env \<Rightarrow> (int, 'z sys_st_scheme) kern" where
  "sys_link E =
     bnd (argstr 0) (\<lambda>r.
     case r of
       None \<Rightarrow> ret (- 1)
     | Some old \<Rightarrow>
     bnd (argstr 1) (\<lambda>r.
     case r of
       None \<Rightarrow> ret (- 1)
     | Some new \<Rightarrow>
     thn begin_op (
     bnd (namei (e_devsw E) old) (\<lambda>r.
     case r of
       None \<Rightarrow> thn end_op (ret (- 1))
     | Some ip \<Rightarrow>
     thn (ilock ip) (
     bnd (rd (\<lambda>s. i_type (icache s ip))) (\<lambda>ty.
     if ty = T_DIR then thn (iunlockput ip) (thn end_op (ret (- 1)))
     else
       thn (md (upd_inode ip (\<lambda>i. i\<lparr>i_nlink := i_nlink i + 1\<rparr>))) (
       thn (iupdate ip) (
       thn (iunlock ip) (
       bnd (nameiparent (e_devsw E) new) (\<lambda>r.
       case r of
         None \<Rightarrow> sys_link_bad ip
       | Some (dp, name) \<Rightarrow>
         thn (ilock dp) (
         bnd (rd (\<lambda>s. (i_dev (icache s dp), i_dev (icache s ip), i_inum (icache s ip)))) (\<lambda>(dd, id, inum).
         bnd (if dd \<noteq> id then ret (- 1) else dirlink (e_devsw E) dp name inum) (\<lambda>l.
         if l < 0 then thn (iunlockput dp) (sys_link_bad ip)
         else
           thn (iunlockput dp) (
           thn (iput ip) (
           thn end_op (
           ret 0))))))))))))))))"

text \<open>The loop of \<^verbatim>\<open>isdirempty\<close>; offsets are multiples of 16, so that \<open>2 ^ 28\<close> iterations pass through all of them.\<close>

fun isdirempty_from :: "'z devs \<Rightarrow> nat \<Rightarrow> nat \<Rightarrow> uint32 \<Rightarrow> (bool, 'z fs_st_scheme) kern" where
  "isdirempty_from devsw 0 dp off = (\<lambda>s. Diverge)"
| "isdirempty_from devsw (Suc fuel) dp off =
     bnd (rd (\<lambda>s. i_size (icache s dp))) (\<lambda>sz.
     if \<not> off < sz then ret True
     else
       bnd (readi devsw dp off 16) (\<lambda>(r, bs).
       if r \<noteq> 16 then panic ''isdirempty: readi''
       else if de_inum (get_dirent bs) \<noteq> 0 then ret False
       else isdirempty_from devsw fuel dp (off + 16)))"

definition isdirempty :: "'z devs \<Rightarrow> nat \<Rightarrow> (bool, 'z fs_st_scheme) kern" where
  "isdirempty devsw dp = isdirempty_from devsw (2 ^ 28) dp 32"

definition sys_unlink_bad :: "nat \<Rightarrow> (int, 'z sys_st_scheme) kern" where
  "sys_unlink_bad dp = thn (iunlockput dp) (thn end_op (ret (- 1)))"

definition sys_unlink :: "'z env \<Rightarrow> (int, 'z sys_st_scheme) kern" where
  "sys_unlink E =
     bnd (argstr 0) (\<lambda>r.
     case r of
       None \<Rightarrow> ret (- 1)
     | Some path \<Rightarrow>
     thn begin_op (
     bnd (nameiparent (e_devsw E) path) (\<lambda>r.
     case r of
       None \<Rightarrow> thn end_op (ret (- 1))
     | Some (dp, name) \<Rightarrow>
     thn (ilock dp) (
     if namecmp name [46] = 0 \<or> namecmp name [46, 46] = 0 then sys_unlink_bad dp
     else
       bnd (dirlookup (e_devsw E) dp name) (\<lambda>r.
       case r of
         None \<Rightarrow> sys_unlink_bad dp
       | Some (ip, off) \<Rightarrow>
       thn (ilock ip) (
       bnd (rd (\<lambda>s. icache s ip)) (\<lambda>i.
       if sint (i_nlink i) < 1 then panic ''unlink: nlink < 1''
       else
         bnd (if i_type i = T_DIR then bnd (isdirempty (e_devsw E) ip) (\<lambda>e. ret (\<not> e)) else ret False) (\<lambda>full.
         if full then thn (iunlockput ip) (sys_unlink_bad dp)
         else
           bnd (writei (e_devsw E) dp (replicate 16 0) off 16) (\<lambda>w.
           if w \<noteq> 16 then panic ''unlink: writei''
           else
             thn (whenk (i_type i = T_DIR) (
               thn (md (upd_inode dp (\<lambda>i. i\<lparr>i_nlink := i_nlink i - 1\<rparr>))) (iupdate dp))) (
             thn (iunlockput dp) (
             thn (md (upd_inode ip (\<lambda>i. i\<lparr>i_nlink := i_nlink i - 1\<rparr>))) (
             thn (iupdate ip) (
             thn (iunlockput ip) (
             thn end_op (
             ret 0)))))))))))))))"

section \<open>Creating and opening\<close>

definition create :: "'z env \<Rightarrow> uchar list \<Rightarrow> ushort \<Rightarrow> ushort \<Rightarrow> ushort \<Rightarrow> (nat option, 'z sys_st_scheme) kern" where
  "create E path ty major minor =
     bnd (nameiparent (e_devsw E) path) (\<lambda>r.
     case r of
       None \<Rightarrow> ret None
     | Some (dp, name) \<Rightarrow>
     thn (ilock dp) (
     bnd (rd (\<lambda>s. icache s dp)) (\<lambda>d.
     if i_type d = T_DEV then thn (iunlockput dp) (ret None)
     else
       bnd (dirlookup (e_devsw E) dp name) (\<lambda>r.
       case r of
         Some (ip, off) \<Rightarrow>
           thn (iunlockput dp) (
           thn (ilock ip) (
           bnd (rd (\<lambda>s. i_type (icache s ip))) (\<lambda>ity.
           if ty = T_FILE \<and> ity = T_FILE then ret (Some ip)
           else thn (iunlockput ip) (ret None))))
       | None \<Rightarrow>
           bnd (ialloc (i_dev d) ty) (\<lambda>ip.
           thn (ilock ip) (
           thn (md (upd_inode ip (\<lambda>i. i\<lparr>i_major := major, i_minor := minor, i_nlink := 1\<rparr>))) (
           thn (iupdate ip) (
           bnd (rd (\<lambda>s. i_inum (icache s ip))) (\<lambda>inum.
           thn (whenk (ty = T_DIR) (
             thn (md (upd_inode dp (\<lambda>i. i\<lparr>i_nlink := i_nlink i + 1\<rparr>))) (
             thn (iupdate dp) (
             bnd (dirlink (e_devsw E) ip [46] inum) (\<lambda>l.
             if l < 0 then panic ''create dots''
             else
               bnd (dirlink (e_devsw E) ip [46, 46] (i_inum d)) (\<lambda>l.
               if l < 0 then panic ''create dots'' else ret ())))))) (
           bnd (dirlink (e_devsw E) dp name inum) (\<lambda>l.
           if l < 0 then panic ''create: dirlink''
           else thn (iunlockput dp) (ret (Some ip)))))))))))))"

abbreviation (input) O_WRONLY :: uint32 where "O_WRONLY \<equiv> 1"
abbreviation (input) O_RDWR :: uint32 where "O_RDWR \<equiv> 2"
abbreviation (input) O_CREATE :: uint32 where "O_CREATE \<equiv> 0x200"

definition sys_open_bad :: "nat \<Rightarrow> (int, 'z sys_st_scheme) kern" where
  "sys_open_bad ip = thn (iunlockput ip) (thn end_op (ret (- 1)))"

text \<open>From the point on where the locked inode is known.\<close>

definition sys_open_inode :: "nat \<Rightarrow> uint32 \<Rightarrow> (int, 'z sys_st_scheme) kern" where
  "sys_open_inode ip omode =
     bnd filealloc (\<lambda>r.
     case r of
       None \<Rightarrow> sys_open_bad ip
     | Some f \<Rightarrow>
         bnd (fdalloc f) (\<lambda>r.
         case r of
           None \<Rightarrow> thn (fileclose f) (sys_open_bad ip)
         | Some fd \<Rightarrow>
             thn (iunlock ip) (
             thn end_op (
             thn (md (upd_file f (\<lambda>x. x\<lparr>f_type := FD_INODE, f_ip := ip, f_off := 0,
               f_readable := (omode AND O_WRONLY = 0),
               f_writable := (omode AND O_WRONLY \<noteq> 0 \<or> omode AND O_RDWR \<noteq> 0)\<rparr>))) (
             ret (int fd))))))"

definition sys_open :: "'z env \<Rightarrow> (int, 'z sys_st_scheme) kern" where
  "sys_open E =
     bnd (argstr 0) (\<lambda>r.
     case r of
       None \<Rightarrow> ret (- 1)
     | Some path \<Rightarrow>
     bnd (argint 1) (\<lambda>r.
     case r of
       None \<Rightarrow> ret (- 1)
     | Some omode \<Rightarrow>
     thn begin_op (
     if omode AND O_CREATE \<noteq> 0 then
       bnd (create E path T_FILE 0 0) (\<lambda>r.
       case r of
         None \<Rightarrow> thn end_op (ret (- 1))
       | Some ip \<Rightarrow> sys_open_inode ip omode)
     else
       bnd (namei (e_devsw E) path) (\<lambda>r.
       case r of
         None \<Rightarrow> thn end_op (ret (- 1))
       | Some ip \<Rightarrow>
           thn (ilock ip) (
           bnd (rd (\<lambda>s. i_type (icache s ip))) (\<lambda>ty.
           if ty = T_DIR \<and> omode \<noteq> 0 then sys_open_bad ip
           else sys_open_inode ip omode))))))"

definition sys_mkdir :: "'z env \<Rightarrow> (int, 'z sys_st_scheme) kern" where
  "sys_mkdir E =
     thn begin_op (
     bnd (argstr 0) (\<lambda>r.
     bnd (case r of None \<Rightarrow> ret None | Some path \<Rightarrow> create E path T_DIR 0 0) (\<lambda>r.
     case r of
       None \<Rightarrow> thn end_op (ret (- 1))
     | Some ip \<Rightarrow> thn (iunlockput ip) (thn end_op (ret 0)))))"

definition sys_mknod :: "'z env \<Rightarrow> (int, 'z sys_st_scheme) kern" where
  "sys_mknod E =
     thn begin_op (
     bnd (argstr 0) (\<lambda>r.
     bnd (case r of
         None \<Rightarrow> ret None
       | Some path \<Rightarrow>
           bnd (argint 1) (\<lambda>r.
           case r of
             None \<Rightarrow> ret None
           | Some major \<Rightarrow>
               bnd (argint 2) (\<lambda>r.
               case r of
                 None \<Rightarrow> ret None
               | Some minor \<Rightarrow> create E path T_DEV (ucast major) (ucast minor)))) (\<lambda>r.
     case r of
       None \<Rightarrow> thn end_op (ret (- 1))
     | Some ip \<Rightarrow> thn (iunlockput ip) (thn end_op (ret 0)))))"

definition sys_chdir :: "'z env \<Rightarrow> (int, 'z sys_st_scheme) kern" where
  "sys_chdir E =
     thn begin_op (
     bnd (argstr 0) (\<lambda>r.
     bnd (case r of None \<Rightarrow> ret None | Some path \<Rightarrow> namei (e_devsw E) path) (\<lambda>r.
     case r of
       None \<Rightarrow> thn end_op (ret (- 1))
     | Some ip \<Rightarrow>
         thn (ilock ip) (
         bnd (rd (\<lambda>s. i_type (icache s ip))) (\<lambda>ty.
         bnd (if ty \<noteq> T_DIR then bnd (IS_DEV_DIR (e_devsw E) ip) (\<lambda>d. ret (\<not> d)) else ret False) (\<lambda>bad.
         if bad then thn (iunlockput ip) (thn end_op (ret (- 1)))
         else
           thn (iunlock ip) (
           with_proc (\<lambda>p.
           bnd (rd (\<lambda>s. p_cwd (ptable s p))) (\<lambda>cwd.
           thn (case cwd of None \<Rightarrow> fault ''null inode'' | Some c \<Rightarrow> iput c) (
           thn end_op (
           thn (md (upd_proc p (\<lambda>q. q\<lparr>p_cwd := Some ip\<rparr>))) (
           ret 0))))))))))))"

section \<open>Programs and pipes\<close>

text \<open>The loop that collects the argument strings, with \<open>n\<close> places of \<^verbatim>\<open>argv\<close> left.\<close>

fun sys_exec_args :: "nat \<Rightarrow> uint32 \<Rightarrow> (uchar list list option, 'z sched_st_scheme) kern" where
  "sys_exec_args 0 a = ret None"
| "sys_exec_args (Suc n) a =
     bnd (fetchint a) (\<lambda>r.
     case r of
       None \<Rightarrow> ret None
     | Some uarg \<Rightarrow>
         if uarg = 0 then ret (Some [])
         else
           bnd (fetchstr uarg) (\<lambda>r.
           case r of
             None \<Rightarrow> ret None
           | Some arg \<Rightarrow>
               bnd (sys_exec_args n (a + 4)) (\<lambda>r.
               ret (map_option (\<lambda>args. arg # args) r))))"

definition sys_exec :: "'z env \<Rightarrow> (int, 'z sys_st_scheme) kern" where
  "sys_exec E =
     bnd (argstr 0) (\<lambda>r.
     case r of
       None \<Rightarrow> ret (- 1)
     | Some path \<Rightarrow>
     bnd (argint 1) (\<lambda>r.
     case r of
       None \<Rightarrow> ret (- 1)
     | Some uargv \<Rightarrow>
     bnd (sys_exec_args MAXARG uargv) (\<lambda>r.
     case r of
       None \<Rightarrow> ret (- 1)
     | Some argv \<Rightarrow> exec E path argv)))"

definition sys_pipe_bad :: "nat \<Rightarrow> nat \<Rightarrow> (int, 'z sys_st_scheme) kern" where
  "sys_pipe_bad rf wf' = thn (fileclose rf) (thn (fileclose wf') (ret (- 1)))"

definition sys_pipe :: "(int, 'z sys_st_scheme) kern" where
  "sys_pipe =
     bnd (argptr 0 8) (\<lambda>r.
     case r of
       None \<Rightarrow> ret (- 1)
     | Some a \<Rightarrow>
     bnd pipealloc (\<lambda>r.
     case r of
       None \<Rightarrow> ret (- 1)
     | Some (rf, wf') \<Rightarrow>
     bnd (fdalloc rf) (\<lambda>r.
     case r of
       None \<Rightarrow> sys_pipe_bad rf wf'
     | Some fd0 \<Rightarrow>
     bnd (fdalloc wf') (\<lambda>r.
     case r of
       None \<Rightarrow> thn (clear_fd fd0) (sys_pipe_bad rf wf')
     | Some fd1 \<Rightarrow>
         thn (uwrite a (le32 (of_nat fd0))) (
         thn (uwrite (a + 4) (le32 (of_nat fd1))) (
         ret 0))))))"

section \<open>Descriptors are safe to use\<close>

definition open_fd :: "'z sched_st_scheme \<Rightarrow> nat \<Rightarrow> nat \<Rightarrow> nat option" where
  "open_fd s p fd = (if fd < NOFILE then p_ofile (ptable s p) fd else None)"

definition free_fd :: "'z sched_st_scheme \<Rightarrow> nat \<Rightarrow> nat option" where
  "free_fd s p = find (\<lambda>fd. p_ofile (ptable s p) fd = None) [0..<NOFILE]"

definition set_fd :: "nat \<Rightarrow> nat \<Rightarrow> nat option \<Rightarrow> 'z sched_st_scheme \<Rightarrow> 'z sched_st_scheme" where
  "set_fd p fd r = upd_proc p (\<lambda>q. q\<lparr>p_ofile := (p_ofile q)(fd := r)\<rparr>)"

lemma argfd_eq:
  assumes s: "curproc s = Some p" "argint n s = Ok r s"
  shows "argfd n s = Ok (case r of None \<Rightarrow> None | Some v \<Rightarrow> map_option (\<lambda>f. (unat v, f)) (open_fd s p (unat v))) s"
proof -
  have "(sint v < 0 \<or> sint v \<ge> int NOFILE) = (\<not> unat v < NOFILE)" for v :: uint32
  proof (cases "unat v < 2 ^ 31")
    case True
    then show ?thesis
      using sint_unat [of v] by linarith
  next
    case False
    then show ?thesis
      using sint_neg [of v] by simp
  qed
  then show ?thesis
    using assms by (auto simp: argfd_def with_proc_def kern_simps open_fd_def split: option.split)
qed

lemma fdalloc_eq:
  assumes "curproc s = Some p"
  shows "fdalloc f s = (case free_fd s p of None \<Rightarrow> Ok None s | Some fd \<Rightarrow> Ok (Some fd) (set_fd p fd (Some f) s))"
  using assms by (auto simp: fdalloc_def with_proc_def kern_simps free_fd_def set_fd_def split: option.split)

lemma set_fd_views [simp]:
  "calm (set_fd p fd r s) = calm s" "curproc (set_fd p fd r s) = curproc s" "ftable (set_fd p fd r u) = ftable u"
  "user_mapped (set_fd p fd r s) q = user_mapped s q" "p_ofile (ptable (set_fd p fd r s) p) = (p_ofile (ptable s p))(fd := r)"
  "get_tf32 (set_fd p fd r s) q off = get_tf32 s q off" "ubyte (set_fd p fd r s) q = ubyte s q" "p_sz (ptable (set_fd p fd r s) q) = p_sz (ptable s q)"
  by (auto simp: set_fd_def upd_proc_def curproc_def user_mapped_def get_tf32_def ubyte_def fun_eq_iff)

lemma upd_file_user [simp]:
  "user_mapped (upd_file f g s) q = user_mapped s q" "get_tf32 (upd_file f g s) q off = get_tf32 s q off" "ubyte (upd_file f g s) q = ubyte s q"
  by (simp_all add: user_mapped_def get_tf32_def ubyte_def upd_file_def fun_eq_iff)

lemma argint_eq:
  assumes "curproc s = Some p" "user_mapped s p"
  shows "argint n s = Ok (let a = get_tf32 s p tf_esp + 4 + 4 * n in
    if unat a + 4 \<le> unat (p_sz (ptable s p)) then Some (of_le32 (map (\<lambda>i. ubyte s p (a + of_nat i)) [0..<4])) else None) s"
  using assms fetchint_eq [OF assms] by (simp add: argint_def with_proc_def kern_simps Let_def)

lemma free_fd_closed: "free_fd s p = Some fd \<Longrightarrow> fd < NOFILE \<and> open_fd s p fd = None"
  by (auto simp: free_fd_def open_fd_def find_Some_iff)

text \<open>
  C35 (descriptors).  A descriptor argument that is not an open descriptor of the process, whatever its 32 bits, makes \<^verbatim>\<open>dup\<close> and \<^verbatim>\<open>close\<close>
  return -1 and change nothing.  \<^verbatim>\<open>dup\<close> of an open one fails when the table is full; otherwise it returns the lowest free descriptor,
  which then denotes the same file, with one more reference.  Closing the old descriptor afterwards leaves the new one open and the file table as it
  was before.
\<close>

theorem descriptor_calls:
  assumes s: "calm s" "curproc s = Some p" "user_mapped s p" "argint 0 s = Ok (Some v) s"
    and ref: "\<And>f. open_fd s p (unat v) = Some f \<Longrightarrow> 1 \<le> f_ref (ftable s f)"
  shows "(open_fd s p (unat v) = None \<longrightarrow> sys_dup s = Ok (- 1) s \<and> sys_close s = Ok (- 1) s) \<and>
    (\<forall>f. open_fd s p (unat v) = Some f \<longrightarrow>
      (free_fd s p = None \<longrightarrow> sys_dup s = Ok (- 1) s) \<and>
      (\<forall>fd. free_fd s p = Some fd \<longrightarrow>
        (\<exists>t u. sys_dup s = Ok (int fd) t \<and> open_fd t p fd = Some f \<and> (\<forall>k. k \<noteq> fd \<longrightarrow> open_fd t p k = open_fd s p k) \<and>
          f_ref (ftable t f) = f_ref (ftable s f) + 1 \<and>
          sys_close t = Ok 0 u \<and> open_fd u p fd = Some f \<and> open_fd u p (unat v) = None \<and> ftable u = ftable s)))"
proof (intro conjI impI allI)
  note a = argfd_eq [OF s(2,4), simplified]
  show "sys_dup s = Ok (- 1) s" "sys_close s = Ok (- 1) s" if "open_fd s p (unat v) = None"
    using a that by (simp_all add: sys_dup_def sys_close_def bnd_Ok)
  fix f assume f: "open_fd s p (unat v) = Some f"
  show "sys_dup s = Ok (- 1) s" if "free_fd s p = None"
    using a that f fdalloc_eq [OF s(2), of f] by (simp add: sys_dup_def bnd_Ok)
  fix fd assume fd: "free_fd s p = Some fd"
  let ?ta = "set_fd p fd (Some f) s"
  let ?t = "upd_file f (\<lambda>x. x\<lparr>f_ref := f_ref x + 1\<rparr>) ?ta"
  let ?ua = "set_fd p (unat v) None ?t"
  let ?u = "upd_file f (\<lambda>x. x\<lparr>f_ref := f_ref x - 1\<rparr>) ?ua"
  have ne: "fd \<noteq> unat v" "unat v < NOFILE" "fd < NOFILE"
    using f free_fd_closed [OF fd] by (auto simp: open_fd_def split: if_splits)
  have dup: "sys_dup s = Ok (int fd) ?t"
    using a f fd fdalloc_eq [OF s(2), of f] filedup_eq [of ?ta f] ref [OF f] s(1) by (simp add: sys_dup_def kern_simps)
  have t: "curproc ?t = Some p" "user_mapped ?t p" "calm ?t"
    using s by simp_all
  have "argint 0 ?t = Ok (Some v) ?t"
    using argint_eq [OF t(1,2), of 0] argint_eq [OF s(2,3), of 0] s(4) by (simp add: Let_def)
  then have a': "argfd 0 ?t = Ok (Some (unat v, f)) ?t"
    using argfd_eq [OF t(1), of 0 "Some v"] f ne by (simp add: open_fd_def)
  have close: "sys_close ?t = Ok 0 ?u"
    using a' t fileclose_eq [of ?ua "upd_file f (\<lambda>x. x\<lparr>f_ref := 0, f_type := FD_NONE\<rparr>) ?ua" f] ref [OF f]
    by (simp add: sys_close_def clear_fd_def with_proc_def kern_simps flip: set_fd_def)
  have "ftable ?u = ftable s"
    by simp
  with dup close show "\<exists>t u. sys_dup s = Ok (int fd) t \<and> open_fd t p fd = Some f \<and> (\<forall>k. k \<noteq> fd \<longrightarrow> open_fd t p k = open_fd s p k) \<and>
      f_ref (ftable t f) = f_ref (ftable s f) + 1 \<and>
      sys_close t = Ok 0 u \<and> open_fd u p fd = Some f \<and> open_fd u p (unat v) = None \<and> ftable u = ftable s"
    using ne by (intro exI [of _ ?t] exI [of _ ?u]) (simp add: open_fd_def)
qed

text \<open>The process of \<open>demo_user\<close>, with file 3 open as descriptor 8.\<close>

definition sys_demo :: sys_st where
  "sys_demo = file_st.extend (file_boot\<lparr>mem := mem demo_user,
     ptable := (ptable demo_user)(Suc 0 := (ptable demo_user (Suc 0))\<lparr>p_ofile := [8 \<mapsto> 3]\<rparr>),
     ftable := (ftable file_boot)(3 := (ftable file_boot 3)\<lparr>f_ref := 1\<rparr>)\<rparr>) (sys_st.fields 0 False)"

lemma sys_demo_views: "calm sys_demo" "curproc sys_demo = Some (Suc 0)" "mem sys_demo = mem demo_user"
  "ptable sys_demo = (ptable demo_user)(Suc 0 := (ptable demo_user (Suc 0))\<lparr>p_ofile := [8 \<mapsto> 3]\<rparr>)"
  "ftable sys_demo = (ftable file_boot)(3 := (ftable file_boot 3)\<lparr>f_ref := 1\<rparr>)"
  using file_boot_facts by (simp_all add: sys_demo_def file_st.extend_def sys_st.fields_def calm_def lock_free_def curproc_def)

lemma sys_demo_facts: "user_mapped sys_demo (Suc 0)" "argint 0 sys_demo = Ok (Some 8) sys_demo"
proof -
  show m: "user_mapped sys_demo (Suc 0)"
    using demo_user_mapped by (simp add: user_mapped_def sys_demo_views)
  have "ubyte sys_demo (Suc 0) = ubyte demo_user (Suc 0)" "get_tf32 sys_demo (Suc 0) tf_esp = get_tf32 demo_user (Suc 0) tf_esp"
    by (simp_all add: ubyte_def get_tf32_def sys_demo_views fun_eq_iff)
  moreover have "argint 0 demo_user = Ok (Some 8) demo_user"
    by (simp add: argint_def with_proc_def kern_simps demo_user_facts fetchint_demo)
  ultimately show "argint 0 sys_demo = Ok (Some 8) sys_demo"
    using argint_eq [OF sys_demo_views(2) m, of 0] argint_eq [OF demo_user_facts(1) demo_user_mapped, of 0]
    by (simp add: sys_demo_views Let_def split: if_splits)
qed

theorem descriptor_calls_witness:
  "\<exists>t u. sys_dup sys_demo = Ok 0 t \<and> open_fd t 1 0 = Some 3 \<and> f_ref (ftable t 3) = 2 \<and>
     sys_close t = Ok 0 u \<and> open_fd u 1 0 = Some 3 \<and> open_fd u 1 8 = None"
proof -
  have "open_fd sys_demo (Suc 0) 8 = Some 3" "free_fd sys_demo (Suc 0) = Some 0" "f_ref (ftable sys_demo 3) = 1"
    by (simp_all add: open_fd_def free_fd_def sys_demo_views upt_conv_Cons)
  then show ?thesis
    using descriptor_calls [OF sys_demo_views(1,2) sys_demo_facts] by auto
qed

end
