(* ===== verification/Icache.thy ===== *)
theory Icache
  imports File "HOL-Library.Multiset"
begin

text \<open>
  Properties of the inode layer: the table of in-memory inodes as a cache with reference counts, the lock of an inode, and the way of the
  fields of an inode to the disk and back.
\<close>

section \<open>Frames\<close>

lemma wake_sched [simp]: "calm (wake ch s) = calm s" "inside (wake ch s) = inside s" "lock_free l (wake ch s) = lock_free l s" "curproc (wake ch s) = curproc s"
  by (simp_all add: wake_def curproc_def)

lemma hold_fs [simp]:
  "icache_update g (hold l s) = hold l (icache_update g s)" "icache (hold l s) = icache s" "upd_inode ip f (hold l s) = hold l (upd_inode ip f s)"
  by (simp_all add: hold_def set_lock_def set_cpu_def upd_inode_def)

lemma calm_fs [simp]:
  "calm (icache_update g s) = calm s" "inside (icache_update g s) = inside s" "lock_free l (icache_update g s) = lock_free l s"
  "calm (upd_inode ip f s) = calm s" "inside (upd_inode ip f s) = inside s" "lock_free l (upd_inode ip f s) = lock_free l s"
  by (simp_all add: calm_def inside_def lock_free_def upd_inode_def)

lemma upd_inode_icache [simp]:
  "icache (upd_inode ip f s) = (icache s)(ip := f (icache s ip))" "upd_inode ip f (upd_inode ip g s) = upd_inode ip (f \<circ> g) s"
  "ptable (upd_inode ip f s) = ptable s" "wake ch (upd_inode ip f s) = upd_inode ip f (wake ch s)" "icache (wake ch s) = icache s"
  "upd_inode ip f (ptable_update h s) = ptable_update h (upd_inode ip f s)"
  by (simp_all add: upd_inode_def wake_def cong: if_cong)

lemma icache_views [simp]:
  "bio_ok (icache_update f s) = bio_ok s" "blk (icache_update f s) = blk s" "busy (icache_update f s) = busy s"
  "dirty (icache_update f s) = dirty s" "held (icache_update f s) = held s" "tx_inv (icache_update f s) = tx_inv s" "log_room (icache_update f s) = log_room s"
  by (auto simp: held_def bio_ok_def bio_inv_def buf_ok_def blk_def busy_def dirty_def tx_inv_def log_room_def fun_eq_iff cong: option.case_cong)

lemma settled_fs [simp]: "settled (icache_update f s) = settled s" "settled (wake ch s) = settled s"
  by (simp_all add: settled_def wake_def)

lemma fs_views [simp]:
  "blk (upd_inode ip f s) = blk s" "busy (upd_inode ip f s) = busy s" "held (upd_inode ip f s) = held s" "settled (upd_inode ip f s) = settled s"
  "log_start (upd_inode ip f s) = log_start s" "log_room (upd_inode ip f s) = log_room s" "log_outstanding (upd_inode ip f s) = log_outstanding s"
  by (simp_all add: upd_inode_def)

lemma log_frame_fs:
  assumes "log_frame s t"
  shows "icache t = icache s" "calm t = calm s"
  using assms by (auto simp: log_frame_def bio_frame_def)

text \<open>What the file system may change on top of that: the inode table.\<close>

definition fs_frame :: "'z fs_st_scheme \<Rightarrow> 'z fs_st_scheme \<Rightarrow> bool" where
  "fs_frame s t = (\<exists>c. log_frame (s\<lparr>icache := c\<rparr>) t)"

lemma log_frame_icache:
  assumes "log_frame s t"
  shows "log_frame (s\<lparr>icache := c\<rparr>) (t\<lparr>icache := c\<rparr>)"
proof -
  from assms obtain xs n pt bs f h a d w where "t = s\<lparr>log_sector := xs, log_n := n, ptable := pt, bufs := bs, free_block_number := f,
     number_of_hits := h, number_of_block_acsses := a, disk := d, wtrace := w\<rparr>"
    unfolding log_frame_def bio_frame_def by blast
  then have "t\<lparr>icache := c\<rparr> = (s\<lparr>icache := c\<rparr>)\<lparr>log_sector := xs, log_n := n, ptable := pt, bufs := bs, free_block_number := f,
     number_of_hits := h, number_of_block_acsses := a, disk := d, wtrace := w\<rparr>"
    by simp
  then show ?thesis
    unfolding log_frame_def bio_frame_def by blast
qed

lemma fs_frame_log: "log_frame s t \<Longrightarrow> fs_frame s t"
  unfolding fs_frame_def by (rule exI [of _ "icache s"]) simp

lemma fs_frame_inode: "fs_frame s (upd_inode ip f s)"
  unfolding fs_frame_def upd_inode_def by (rule exI) (rule log_frame_bio, rule bio_frame_refl)

lemma fs_frame_trans:
  assumes "fs_frame s t" "fs_frame t u"
  shows "fs_frame s u"
proof -
  from assms obtain c d where "log_frame (s\<lparr>icache := c\<rparr>) t" "log_frame (t\<lparr>icache := d\<rparr>) u"
    unfolding fs_frame_def by blast
  then have "log_frame (s\<lparr>icache := d\<rparr>) u"
    using log_frame_icache [of "s\<lparr>icache := c\<rparr>" t d] log_frame_trans by simp blast
  then show ?thesis
    unfolding fs_frame_def by blast
qed

lemma fs_frame_fields:
  assumes "fs_frame s t"
  shows "log_start t = log_start s" "log_size t = log_size s" "log_outstanding t = log_outstanding s" "log_committing t = log_committing s"
    "disksize t = disksize s" "log_dev t = log_dev s" "calm t = calm s" "curproc t = curproc s"
proof -
  obtain c where f: "log_frame (s\<lparr>icache := c\<rparr>) t"
    using assms unfolding fs_frame_def by blast
  show "log_start t = log_start s" "log_size t = log_size s" "log_outstanding t = log_outstanding s" "log_committing t = log_committing s"
    "disksize t = disksize s" "log_dev t = log_dev s" "calm t = calm s"
    using log_frame_fields [OF f] log_frame_fs [OF f] by simp_all
  show "curproc t = curproc s"
    using f by (auto simp: log_frame_def bio_frame_def curproc_def)
qed

section \<open>The lock of an inode\<close>

lemma iunlock_eq:
  assumes "calm s" "i_flags (icache s ip) AND I_BUSY \<noteq> 0" "1 \<le> i_ref (icache s ip)"
  shows "iunlock ip s = Ok () (wake (ChInode ip) (upd_inode ip (\<lambda>i. i\<lparr>i_flags := i_flags i AND NOT I_BUSY\<rparr>) s))"
  using assms by (simp add: iunlock_def kern_simps acquire_free wakeup_under release_hold)

text \<open>What \<^verbatim>\<open>ilock\<close> does once the lock can be taken.\<close>

lemma ilock_free:
  assumes "calm s" "i_flags (icache s ip) AND I_BUSY = 0" "1 \<le> i_ref (icache s ip)"
  shows "ilock ip s = ilock_load ip (upd_inode ip (\<lambda>i. i\<lparr>i_flags := i_flags i OR I_BUSY\<rparr>) s)"
  using assms by (simp add: ilock_def ilock_loop_def kern_simps acquire_free release_hold)

lemma iflag_bits: "(f OR 1) AND 2 = f AND (2 :: uint32)" "(f AND - 2) AND 2 = f AND 2" "(f AND - 2) AND 1 = (0 :: uint32)" "(f AND NOT 1) OR 1 = f OR (1 :: uint32)"
  by (rule bit_word_eqI; auto simp: bit_simps bit_numeral_rec split: nat.splits)+

lemma flag_busy: "f AND 1 \<noteq> (0 :: uint32) \<Longrightarrow> f OR 1 = f"
  by (rule bit_word_eqI) (auto simp: bit_simps and_one_eq mod_2_eq_odd bit_0)

lemma ilock_valid:
  assumes "calm s" "i_flags (icache s ip) AND I_BUSY = 0" "i_flags (icache s ip) AND I_VALID \<noteq> 0" "1 \<le> i_ref (icache s ip)"
  shows "ilock ip s = Ok () (upd_inode ip (\<lambda>i. i\<lparr>i_flags := i_flags i OR I_BUSY\<rparr>) s)"
  using assms by (simp add: ilock_free ilock_load_def kern_simps iflag_bits)

section \<open>What a completed call leaves alone\<close>

text \<open>\<open>triple P m Q\<close>: when \<open>m\<close> starts in a state with \<open>P\<close> and completes, \<open>Q\<close> holds.\<close>

definition triple :: "('s \<Rightarrow> bool) \<Rightarrow> ('a, 's) kern \<Rightarrow> ('s \<Rightarrow> bool) \<Rightarrow> bool" where
  "triple P m Q = (\<forall>s x t. P s \<longrightarrow> m s = Ok x t \<longrightarrow> Q t)"

named_theorems triples

lemma tripleD: "triple P m Q \<Longrightarrow> P s \<Longrightarrow> m s = Ok x t \<Longrightarrow> Q t"
  by (simp add: triple_def)

lemma triple_bnd [triples]: "triple P m R \<Longrightarrow> (\<And>x. triple R (f x) Q) \<Longrightarrow> triple P (bnd m f) Q"
  by (auto simp: triple_def bnd_def split: outcome.splits)

lemma triple_thn [triples]: "triple P m R \<Longrightarrow> triple R k Q \<Longrightarrow> triple P (thn m k) Q"
  by (simp add: thn_def triple_bnd)

lemma triple_basic [triples]: "triple P (rd g) P" "triple P (ret x) P" "triple P (panic e) Q" "triple P (fault e) Q" "triple P (\<lambda>s. Diverge) Q"
  by (simp_all add: triple_def rd_def panic_def fault_def)

lemma triple_cases [triples]:
  "triple P m Q \<Longrightarrow> triple P k Q \<Longrightarrow> triple P (if b then m else k) Q"
  "triple P m Q \<Longrightarrow> (\<And>x. triple P (f x) Q) \<Longrightarrow> triple P (case r of None \<Rightarrow> m | Some x \<Rightarrow> f x) Q"
  by (simp_all split: option.split)

lemma triple_when [triples]: "triple P m P \<Longrightarrow> triple P (whenk b m) P"
  by (simp add: triple_basic(2) whenk_def)

lemma triple_each [triples]: "(\<And>x. triple P (f x) P) \<Longrightarrow> triple P (for_each xs f) P"
  by (induction xs) (auto intro: triple_basic(2) triple_thn)

lemma triple_sleep [triples]: "triple P (sleep ch lk) Q"
proof -
  have "sched s \<noteq> Ok x t" for s :: "'z sched_st_scheme" and x t
    by (simp add: sched_def with_proc_def kern_simps panic_def fault_def split: option.split)
  then show ?thesis
    by (auto simp: triple_def sleep_def sleep_acts_def kern_simps panic_def split: option.splits outcome.splits if_splits)
qed

text \<open>
  Of an entry of the table, its count and the inode it stands for.  \<open>outside K s\<close>: no lock is held and the entries are \<open>K\<close>; \<open>within l K s\<close>: the same with the lock \<open>l\<close>.
\<close>

definition ikeys :: "'z fs_st_scheme \<Rightarrow> nat \<Rightarrow> int \<times> uint32 \<times> uint32" where
  "ikeys s ip = (i_ref (icache s ip), i_dev (icache s ip), i_inum (icache s ip))"

definition outside :: "(nat \<Rightarrow> int \<times> uint32 \<times> uint32) \<Rightarrow> 'z fs_st_scheme \<Rightarrow> bool" where
  "outside K s = (calm s \<and> ikeys s = K)"

definition within :: "lockid \<Rightarrow> (nat \<Rightarrow> int \<times> uint32 \<times> uint32) \<Rightarrow> 'z fs_st_scheme \<Rightarrow> bool" where
  "within l K s = (\<exists>u. s = hold l u \<and> outside K u)"

lemma completed: "triple (outside (ikeys s)) m (outside (ikeys s)) \<Longrightarrow> calm s \<Longrightarrow> m s = Ok x t \<Longrightarrow> calm t \<and> ikeys t = ikeys s"
  using tripleD [of "outside (ikeys s)" m "outside (ikeys s)" s x t] by (simp add: outside_def)

lemma ikeys_simps [simp]:
  "ikeys (upd_buf b f s) = ikeys s" "ikeys (wake ch s) = ikeys s" "ikeys (disk_update g0 s) = ikeys s" "ikeys (wtrace_update g1 s) = ikeys s"
  "ikeys (free_block_number_update g2 s) = ikeys s" "ikeys (number_of_hits_update g3 s) = ikeys s" "ikeys (number_of_block_acsses_update g4 s) = ikeys s"
  "ikeys (log_sector_update g5 s) = ikeys s" "ikeys (log_n_update g6 s) = ikeys s"
  by (simp_all add: ikeys_def fun_eq_iff upd_buf_def)

lemma ikeys_inode: "(\<And>i. i_ref (f i) = i_ref i \<and> i_dev (f i) = i_dev i \<and> i_inum (f i) = i_inum i) \<Longrightarrow> ikeys (upd_inode ip f s) = ikeys s"
  by (auto simp: ikeys_def fun_eq_iff)

lemma triple_md: "(\<And>s. outside K s \<Longrightarrow> outside L (g s)) \<Longrightarrow> (\<And>s. g (hold l s) = hold l (g s)) \<Longrightarrow> triple (within l K) (md g) (within l L)"
  "(\<And>s. outside K s \<Longrightarrow> outside L (g s)) \<Longrightarrow> triple (outside K) (md g) (outside L)"
  by (auto simp: triple_def md_def within_def)

lemma triple_inode [triples]:
  assumes "\<And>i. i_ref (f i) = i_ref i \<and> i_dev (f i) = i_dev i \<and> i_inum (f i) = i_inum i"
  shows "triple (outside K) (md (upd_inode ip f)) (outside K)" "triple (within l K) (md (upd_inode ip f)) (within l K)"
  using assms by (intro triple_md; simp add: outside_def ikeys_inode)+

lemma triple_locks [triples]:
  "triple (outside K) (acquire l) (within l K)" "triple (within l K) (release l) (outside K)" "l \<noteq> LkPtable \<Longrightarrow> triple (within l K) (wakeup ch) (within l K)"
proof -
  show "triple (outside K) (acquire l) (within l K)" "triple (within l K) (release l) (outside K)"
    by (auto simp: triple_def within_def outside_def acquire_free release_hold)
  show "triple (within l K) (wakeup ch) (within l K)" if "l \<noteq> LkPtable"
    using that by (auto simp: triple_def within_def outside_def wakeup_under intro!: exI [of _ "wake ch u" for u])
qed

text \<open>An assignment to the buffers, the log or the disk.\<close>

lemma triple_same [triples]:
  "(\<And>s. outside K s \<Longrightarrow> outside K (g s)) \<Longrightarrow> triple (outside K) (md g) (outside K)"
  "(\<And>s. outside K s \<Longrightarrow> outside K (g s)) \<Longrightarrow> (\<And>s. g (hold l s) = hold l (g s)) \<Longrightarrow> triple (within l K) (md g) (within l K)"
  by (intro triple_md; simp)+

lemma bio_triples [triples]:
  "triple (outside K) (bread dev sec) (outside K)" "triple (outside K) (brelse b) (outside K)" "triple (outside K) (log_write b) (outside K)"
proof -
  have "triple (within LkBcache K) (bget_recycle dev sec) (outside K)"
    unfolding bget_recycle_def by (rule triples | simp add: outside_def)+
  then have "triple (within LkBcache K) (bget_loop dev sec) (outside K)"
    unfolding bget_loop_def by - (rule triples | assumption | simp add: outside_def)+
  then have "triple (outside K) (bget dev sec) (outside K)"
    unfolding bget_def by - (rule triples | assumption | simp add: outside_def)+
  moreover have "triple (outside K) (iderw b) (outside K)" for b
    unfolding iderw_def by (rule triples | simp add: outside_def)+
  ultimately show "triple (outside K) (bread dev sec) (outside K)"
    unfolding bread_def by - (rule triples | assumption | simp add: outside_def)+
  show "triple (outside K) (brelse b) (outside K)"
    unfolding brelse_def by (rule triples | simp add: outside_def)+
  show "triple (outside K) (log_write b) (outside K)"
    unfolding log_write_def by (rule triples | simp add: outside_def)+
qed

lemma fs_triples [triples]:
  "triple (outside K) (iupdate ip) (outside K)" "triple (outside K) (itrunc ip) (outside K)" "triple (outside K) (ilock ip) (outside K)"
  "triple (outside K) (iunlock ip) (outside K)"
proof -
  show u: "triple (outside K) (iupdate ip) (outside K)"
    unfolding iupdate_def by (rule triples | simp add: outside_def)+
  have f: "triple (outside K) (bfree dev b) (outside K)" for dev b
    unfolding bfree_def readsb_def by (rule triples | simp add: outside_def)+
  show "triple (outside K) (itrunc ip) (outside K)"
    unfolding itrunc_def by (rule u f triples | simp add: outside_def)+
  show "triple (outside K) (ilock ip) (outside K)"
    unfolding ilock_def ilock_loop_def ilock_load_def load_dinode_def by (rule triples | simp add: outside_def)+
  show "triple (outside K) (iunlock ip) (outside K)"
    unfolding iunlock_def by (rule triples | simp add: outside_def)+
qed

section \<open>The table as a cache\<close>

text \<open>
  \<open>cached s dev inum ip\<close>: the entry \<open>ip\<close> is in use for the inode \<open>inum\<close> of the device \<open>dev\<close>.
\<close>

definition cached :: "'z fs_st_scheme \<Rightarrow> uint32 \<Rightarrow> uint32 \<Rightarrow> nat \<Rightarrow> bool" where
  "cached s dev inum ip = (ip < NINODE \<and> 0 < i_ref (icache s ip) \<and> i_dev (icache s ip) = dev \<and> i_inum (icache s ip) = inum)"

lemma iget_eq:
  assumes "calm s"
  shows "iget dev inum s = (case find (cached s dev inum) [0..<NINODE] of
      Some ip \<Rightarrow> Ok ip (upd_inode ip (\<lambda>i. i\<lparr>i_ref := i_ref i + 1\<rparr>) s)
    | None \<Rightarrow> (case find (\<lambda>ip. i_ref (icache s ip) = 0) [0..<NINODE] of
        Some ip \<Rightarrow> Ok ip (upd_inode ip (\<lambda>i. i\<lparr>i_dev := dev, i_inum := inum, i_ref := 1, i_flags := 0\<rparr>) s)
      | None \<Rightarrow> Panic ''iget: no inodes''))"
proof -
  have "find (cached s dev inum) [0..<NINODE] = find (\<lambda>ip. i_ref (icache s ip) > 0 \<and> i_dev (icache s ip) = dev \<and> i_inum (icache s ip) = inum) [0..<NINODE]"
    by (rule find_cong) (auto simp: cached_def)
  then show ?thesis
    using assms by (simp add: iget_def kern_simps acquire_free release_hold del: upt_rec split: option.split)
qed

lemma idup_eq: "calm s \<Longrightarrow> idup ip s = Ok ip (upd_inode ip (\<lambda>i. i\<lparr>i_ref := i_ref i + 1\<rparr>) s)"
  by (simp add: idup_def kern_simps acquire_free release_hold)

text \<open>A completed call of \<^verbatim>\<open>iput\<close> drops one reference, also when it is the last one to a file without a name and the file is freed on the way.\<close>

lemma iput_keys:
  fixes s t :: "'z fs_st_scheme"
  assumes "calm s" "iput ip s = Ok () t"
  shows "calm t \<and> ikeys t = (ikeys s)(ip := (i_ref (icache s ip) - 1, i_dev (icache s ip), i_inum (icache s ip)))"
proof -
  let ?K = "ikeys s" and ?L = "(ikeys s)(ip := (i_ref (icache s ip) - 1, i_dev (icache s ip), i_inum (icache s ip)))"
  have "outside ?L (upd_inode ip (\<lambda>i. i\<lparr>i_ref := i_ref i - 1\<rparr>) u)" if "outside ?K u" for u :: "'z fs_st_scheme"
  proof -
    have "ikeys u ip = ikeys s ip"
      using that by (simp add: outside_def)
    then have "ikeys (upd_inode ip (\<lambda>i. i\<lparr>i_ref := i_ref i - 1\<rparr>) u) = (ikeys u)(ip := (i_ref (icache s ip) - 1, i_dev (icache s ip), i_inum (icache s ip)))"
      by (auto simp: ikeys_def fun_eq_iff)
    then show ?thesis
      using that by (simp add: outside_def)
  qed
  then have d: "triple (within LkIcache ?K :: 'z fs_st_scheme \<Rightarrow> bool) (md (upd_inode ip (\<lambda>i. i\<lparr>i_ref := i_ref i - 1\<rparr>))) (within LkIcache ?L)"
    by (intro triple_md(1)) simp_all
  have "triple (outside ?K :: 'z fs_st_scheme \<Rightarrow> bool) (iput ip) (outside ?L)"
    unfolding iput_def by (rule d triples | simp add: outside_def)+
  then show ?thesis
    using tripleD [of "outside ?K" "iput ip" "outside ?L" s "()" t] assms by (simp add: outside_def)
qed

text \<open>Dropping a reference that is not the last one to a file without a name.\<close>

lemma iput_eq:
  assumes "calm s" "\<not> (i_ref (icache s ip) = 1 \<and> i_flags (icache s ip) AND I_VALID \<noteq> 0 \<and> i_nlink (icache s ip) = 0)"
  shows "iput ip s = Ok () (upd_inode ip (\<lambda>i. i\<lparr>i_ref := i_ref i - 1\<rparr>) s)"
proof -
  let ?c = "i_ref (icache s ip) = 1 \<and> i_flags (icache s ip) AND I_VALID \<noteq> 0 \<and> i_nlink (icache s ip) = 0"
  have "?c = False"
    using assms(2) by blast
  then show ?thesis
    using assms(1) unfolding iput_def by (simp only: kern_simps acquire_free calm_lock_free hold_fs outcome.case) (simp add: release_hold)
qed

text \<open>
  The pointers that clients of the table hold, with the inode each of them was asked for.  A step is a completed call: \<^verbatim>\<open>iget\<close> and \<^verbatim>\<open>idup\<close> take another pointer, \<^verbatim>\<open>iput\<close>
  gives one back, \<^verbatim>\<open>ilock\<close> and \<^verbatim>\<open>iunlock\<close> take and release the lock of an inode; or it is a step of other code, which does not write the count, the device and the number of an entry.
\<close>

type_synonym pointers = "(nat \<times> uint32 \<times> uint32) multiset"

inductive icache_step :: "'z fs_st_scheme \<times> pointers \<Rightarrow> 'z fs_st_scheme \<times> pointers \<Rightarrow> bool" where
  get: "iget dev inum s = Ok ip t \<Longrightarrow> icache_step (s, ps) (t, add_mset (ip, dev, inum) ps)"
| dup: "(ip, dev, inum) \<in># ps \<Longrightarrow> idup ip s = Ok jp t \<Longrightarrow> icache_step (s, ps) (t, add_mset (jp, dev, inum) ps)"
| put: "(ip, dev, inum) \<in># ps \<Longrightarrow> iput ip s = Ok () t \<Longrightarrow> icache_step (s, ps) (t, ps - {#(ip, dev, inum)#})"
| lock: "ilock ip s = Ok () t \<Longrightarrow> icache_step (s, ps) (t, ps)"
| unlock: "iunlock ip s = Ok () t \<Longrightarrow> icache_step (s, ps) (t, ps)"
| other: "calm t \<Longrightarrow> ikeys t = ikeys s \<Longrightarrow> icache_step (s, ps) (t, ps)"

definition refs :: "pointers \<Rightarrow> nat \<Rightarrow> nat" where
  "refs ps ip = size (filter_mset (\<lambda>x. fst x = ip) ps)"

definition pointers_ok :: "'z fs_st_scheme \<Rightarrow> pointers \<Rightarrow> bool" where
  "pointers_ok s ps = (calm s \<and> (\<forall>ip < NINODE. i_ref (icache s ip) = int (refs ps ip)) \<and>
     (\<forall>(ip, dev, inum) \<in># ps. cached s dev inum ip) \<and>
     (\<forall>ip jp dev inum. cached s dev inum ip \<and> cached s dev inum jp \<longrightarrow> ip = jp))"

lemma pointers_okD:
  assumes "pointers_ok s ps"
  shows "calm s" "ip < NINODE \<Longrightarrow> i_ref (icache s ip) = int (refs ps ip)" "(ip, dev, inum) \<in># ps \<Longrightarrow> cached s dev inum ip"
    "cached s dev inum ip \<Longrightarrow> cached s dev inum jp \<Longrightarrow> ip = jp"
  using assms unfolding pointers_ok_def by blast+

lemma pointers_ok_keys:
  assumes "pointers_ok s ps" "calm t" "ikeys t = ikeys s"
  shows "pointers_ok t ps"
proof -
  have k: "i_ref (icache t ip) = i_ref (icache s ip)" "i_dev (icache t ip) = i_dev (icache s ip)" "i_inum (icache t ip) = i_inum (icache s ip)" for ip
    using fun_cong [OF assms(3), of ip] by (simp_all add: ikeys_def)
  then have "cached t dev inum ip = cached s dev inum ip" for dev inum ip
    by (simp add: cached_def)
  then show ?thesis
    using assms(1,2) k unfolding pointers_ok_def by simp
qed

lemma refs_add: "refs (add_mset (jp, d) ps) ip = (if jp = ip then Suc (refs ps ip) else refs ps ip)"
  by (simp add: refs_def)

lemma pointers_okI:
  assumes "calm s" "\<And>ip. ip < NINODE \<Longrightarrow> i_ref (icache s ip) = int (refs ps ip)" "\<And>ip dev inum. (ip, dev, inum) \<in># ps \<Longrightarrow> cached s dev inum ip"
    "\<And>ip jp dev inum. cached s dev inum ip \<Longrightarrow> cached s dev inum jp \<Longrightarrow> ip = jp"
  shows "pointers_ok s ps"
  using assms unfolding pointers_ok_def by blast

lemma pointers_ok_more:
  assumes "pointers_ok s ps" "cached s dev inum ip"
  shows "pointers_ok (upd_inode ip (\<lambda>i. i\<lparr>i_ref := i_ref i + 1\<rparr>) s) (add_mset (ip, dev, inum) ps)"
proof -
  let ?t = "upd_inode ip (\<lambda>i. i\<lparr>i_ref := i_ref i + 1\<rparr>) s"
  have c: "cached ?t d n jp = cached s d n jp" for d n jp
    using assms(2) by (auto simp: cached_def)
  show ?thesis
    using pointers_okD [OF assms(1)] assms(2) by (intro pointers_okI) (auto simp: c refs_add)
qed

lemma pointers_ok_new:
  assumes "pointers_ok s ps" "ip < NINODE" "i_ref (icache s ip) = 0" "\<And>jp. \<not> cached s dev inum jp"
  shows "pointers_ok (upd_inode ip (\<lambda>i. i\<lparr>i_dev := dev, i_inum := inum, i_ref := 1, i_flags := 0\<rparr>) s) (add_mset (ip, dev, inum) ps)"
proof -
  let ?t = "upd_inode ip (\<lambda>i. i\<lparr>i_dev := dev, i_inum := inum, i_ref := 1, i_flags := 0\<rparr>) s"
  have c: "cached ?t d n jp = (if jp = ip then d = dev \<and> n = inum else cached s d n jp)" for d n jp
    using assms(2) by (auto simp: cached_def)
  have u: "(ip, d) \<notin># ps" for d
    using pointers_okD(3) [OF assms(1), of ip "fst d" "snd d"] assms(3) by (auto simp: cached_def)
  show ?thesis
    using pointers_okD [OF assms(1)] assms u by (intro pointers_okI) (auto simp: c refs_add split: if_splits)
qed

lemma pointers_ok_less:
  assumes "pointers_ok s ps" "(ip, dev, inum) \<in># ps"
  shows "pointers_ok (upd_inode ip (\<lambda>i. i\<lparr>i_ref := i_ref i - 1\<rparr>) s) (ps - {#(ip, dev, inum)#})"
proof -
  let ?t = "upd_inode ip (\<lambda>i. i\<lparr>i_ref := i_ref i - 1\<rparr>) s"
  obtain qs where qs: "ps = add_mset (ip, dev, inum) qs"
    using assms(2) by (metis mset_add)
  have ip: "cached s dev inum ip"
    using pointers_okD(3) [OF assms(1,2)] .
  have c: "cached ?t d n jp \<longleftrightarrow> cached s d n jp \<and> (jp = ip \<longrightarrow> 0 < refs qs ip)" for d n jp
    using ip pointers_okD(2) [OF assms(1), of ip] by (auto simp: cached_def qs refs_add)
  have r: "0 < refs qs ip" if "(ip, d) \<in># qs" for d
    using that by (auto simp: refs_def nonempty_has_size [symmetric] filter_mset_eq_conv intro!: bexI [of _ "(ip, d)"])
  show ?thesis
    using pointers_okD [OF assms(1)] r by (intro pointers_okI) (auto simp: c qs refs_add)
qed

lemma icache_step_ok:
  assumes "icache_step (s, ps) (t, qs)" "pointers_ok s ps"
  shows "pointers_ok t qs"
  using assms(1)
proof cases
  case (get dev inum ip)
  show ?thesis
  proof (cases "find (cached s dev inum) [0..<NINODE]")
    case (Some jp)
    then show ?thesis
      using get pointers_ok_more [OF assms(2)] iget_eq [OF pointers_okD(1) [OF assms(2)], of dev inum] by (auto dest: find_SomeD)
  next
    case None
    then have "\<not> cached s dev inum jp" for jp
      by (auto simp: find_None_iff cached_def)
    then show ?thesis
      using None get pointers_ok_new [OF assms(2)] iget_eq [OF pointers_okD(1) [OF assms(2)], of dev inum] by (auto dest: find_SomeD split: option.splits)
  qed
next
  case (dup ip dev inum jp)
  then show ?thesis
    using pointers_ok_more [OF assms(2)] pointers_okD [OF assms(2)] by (auto simp: idup_eq)
next
  case (put ip dev inum)
  have "calm t" "ikeys t = ikeys (upd_inode ip (\<lambda>i. i\<lparr>i_ref := i_ref i - 1\<rparr>) s)"
    using iput_keys [OF pointers_okD(1) [OF assms(2)] put(3)] by (auto simp: ikeys_def fun_eq_iff)
  then show ?thesis
    using pointers_ok_keys [OF pointers_ok_less [OF assms(2) put(2)]] put(1) by simp
next
  case (lock ip)
  have "calm t" "ikeys t = ikeys s"
    using completed [OF fs_triples(3) pointers_okD(1) [OF assms(2)] lock(2)] by simp_all
  then show ?thesis
    using pointers_ok_keys [OF assms(2)] lock(1) by simp
next
  case (unlock ip)
  have "calm t" "ikeys t = ikeys s"
    using completed [OF fs_triples(4) pointers_okD(1) [OF assms(2)] unlock(2)] by simp_all
  then show ?thesis
    using pointers_ok_keys [OF assms(2)] unlock(1) by simp
next
  case other
  then show ?thesis
    using pointers_ok_keys [OF assms(2)] by simp
qed

text \<open>
  C9 (the inode table).  After any sequence of completed calls of \<^verbatim>\<open>iget\<close>, \<^verbatim>\<open>idup\<close>, \<^verbatim>\<open>iput\<close> (one that frees the file included), \<^verbatim>\<open>ilock\<close> and \<^verbatim>\<open>iunlock\<close>, with steps in between of code that does not
  write the counts and the identities of the entries, starting from an empty table: the reference count of an entry is the number of pointers to it that are held, an entry is never
  reused while a pointer to it is held, and two pointers are equal if and only if they were obtained for the same inode.
\<close>

theorem icache_references:
  assumes "icache_step\<^sup>*\<^sup>* (s, {#}) (t, ps)" "calm s" "\<forall>ip < NINODE. i_ref (icache s ip) = 0"
  shows "(\<forall>ip < NINODE. i_ref (icache t ip) = int (size {#x \<in># ps. fst x = ip#})) \<and>
    (\<forall>(ip, dev, inum) \<in># ps. ip < NINODE \<and> i_dev (icache t ip) = dev \<and> i_inum (icache t ip) = inum) \<and>
    (\<forall>(ip, d) \<in># ps. \<forall>(jp, e) \<in># ps. ip = jp \<longleftrightarrow> d = e)"
proof -
  have "pointers_ok s {#}"
    using assms(2,3) by (intro pointers_okI) (auto simp: cached_def refs_def)
  with assms(1) have ok: "pointers_ok t ps"
    by (induction "(t, ps)" arbitrary: t ps rule: rtranclp_induct) (auto intro: icache_step_ok)
  have "ip = jp \<longleftrightarrow> d = e" if "(ip, d) \<in># ps" "(jp, e) \<in># ps" for ip d jp e
    using pointers_okD(3) [OF ok, of ip "fst d" "snd d"] pointers_okD(3) [OF ok, of jp "fst e" "snd e"] pointers_okD(4) [OF ok] that
    by (cases d; cases e) (auto simp: cached_def)
  then show ?thesis
    using pointers_okD [OF ok] by (fastforce simp: refs_def cached_def)
qed

text \<open>Two pointers to one inode, one of them given back.\<close>

theorem icache_references_witness:
  "\<exists>t. icache_step\<^sup>*\<^sup>* (fs_boot, {#}) (t, {#(0, 1, 7)#}) \<and> i_ref (icache t 0) = 1"
proof -
  have up: "[0..<NINODE] = 0 # [1..<NINODE]"
    by (simp add: upt_conv_Cons)
  define t where "t = upd_inode 0 (\<lambda>i. i\<lparr>i_dev := 1, i_inum := 7, i_ref := 1, i_flags := 0\<rparr>) fs_boot"
  define u where "u = upd_inode 0 (\<lambda>i. i\<lparr>i_ref := i_ref i + 1\<rparr>) t"
  define v where "v = upd_inode 0 (\<lambda>i. i\<lparr>i_ref := i_ref i - 1\<rparr>) u"
  have c: "calm t" "calm u" "i_ref (icache u 0) = 2"
    by (simp_all add: t_def u_def fs_boot_facts)
  have "find (cached fs_boot 1 7) [0..<NINODE] = None"
    by (auto simp: find_None_iff cached_def fs_boot_facts no_inode_def)
  moreover have "find (\<lambda>ip. i_ref (icache fs_boot ip) = 0) [0..<NINODE] = Some 0"
    unfolding up by (simp add: fs_boot_facts no_inode_def)
  ultimately have "iget 1 7 fs_boot = Ok 0 t"
    using iget_eq [OF fs_boot_facts(1), of 1 7] by (simp add: t_def)
  then have 1: "icache_step (fs_boot, {#}) (t, {#(0, 1, 7)#})"
    by (rule icache_step.get)
  have 2: "icache_step (t, {#(0, 1, 7)#}) (u, {#(0, 1, 7), (0, 1, 7)#})"
    using idup_eq [OF c(1), of 0] by (intro icache_step.dup [where ip = 0]) (simp_all add: u_def)
  have 3: "icache_step (u, {#(0, 1, 7), (0, 1, 7)#}) (v, {#(0, 1, 7), (0, 1, 7)#} - {#(0, 1, 7)#})"
    using iput_eq [OF c(2), of 0] c(3) by (intro icache_step.put) (simp_all add: v_def)
  have "icache_step\<^sup>*\<^sup>* (fs_boot, {#}) (v, {#(0, 1, 7)#})"
    using 1 2 3 by (intro converse_rtranclp_into_rtranclp [where r = icache_step, OF 1] converse_rtranclp_into_rtranclp [where r = icache_step, OF 2])
      (simp add: r_into_rtranclp [where r = icache_step])
  moreover from icache_references [OF this fs_boot_facts(1)] have "i_ref (icache v 0) = 1"
    by (simp add: fs_boot_facts no_inode_def)
  ultimately show ?thesis
    by blast
qed

section \<open>Disk inodes\<close>

lemma put_addrs_length [simp]: "off + 4 * length as \<le> length d \<Longrightarrow> length (put_addrs off as d) = length d"
  by (induction off as d rule: put_addrs.induct) simp_all

lemma slice_put_addrs:
  assumes "off + 4 * length as \<le> length d" "a + n \<le> length d" "a + n \<le> off \<or> off + 4 * length as \<le> a"
  shows "slice a n (put_addrs off as d) = slice a n d"
  using assms
proof (induction off as d rule: put_addrs.induct)
  case (2 off x as d)
  then have "slice a n (put_addrs (off + 4) as (splice off (le32 x) d)) = slice a n (splice off (le32 x) d)"
    by (intro "2.IH") auto
  also have "\<dots> = slice a n d"
    using "2.prems" by (intro slice_splice_disjoint) auto
  finally show ?case
    by simp
qed simp

lemma get_put_addrs: "off + 4 * length as \<le> length d \<Longrightarrow> get_addrs (length as) off (put_addrs off as d) = as"
proof (induction off as d rule: put_addrs.induct)
  case (2 off x as d)
  then have "slice off 4 (put_addrs (off + 4) as (splice off (le32 x) d)) = slice off 4 (splice off (le32 x) d)"
    by (intro slice_put_addrs) auto
  with 2 show ?case
    by simp
qed simp

lemma slice_slice: "a + n \<le> m \<Longrightarrow> slice a n (slice b m d) = slice (b + a) n d"
  by (simp add: slice_def drop_take min_def add.commute)

lemma get_addrs_slice: "off + 4 * k \<le> m \<Longrightarrow> get_addrs k off (slice b m d) = get_addrs k (b + off) d"
  by (induction k arbitrary: off) (simp_all add: slice_slice add.assoc)

lemma get_dinode_slice: "get_dinode off d = get_dinode 0 (slice off 64 d)"
  by (simp add: get_dinode_def slice_slice get_addrs_slice)

lemma put_dinode_length [simp]: "off + 64 \<le> length d \<Longrightarrow> length (d_addrs x) = 13 \<Longrightarrow> length (put_dinode off x d) = length d"
  by (simp add: put_dinode_def)

lemma get_put_dinode:
  assumes "off + 64 \<le> length d" "length (d_addrs x) = 13"
  shows "get_dinode off (put_dinode off x d) = x"
proof -
  have "get_addrs 13 (off + 12) (put_dinode off x d) = d_addrs x"
    using get_put_addrs [of "off + 12" "d_addrs x"] assms by (simp add: put_dinode_def)
  then show ?thesis
    using assms by (simp add: get_dinode_def put_dinode_def slice_put_addrs slice_splice_disjoint)
qed

lemma get_dinode_other:
  assumes "off + 64 \<le> length d" "o' + 64 \<le> length d" "length (d_addrs x) = 13" "o' + 64 \<le> off \<or> off + 64 \<le> o'"
  shows "get_dinode o' (put_dinode off x d) = get_dinode o' d"
proof -
  have "slice o' 64 (put_dinode off x d) = slice o' 64 d"
    using assms by (auto simp: put_dinode_def slice_put_addrs slice_splice_disjoint)
  then show ?thesis
    by (metis get_dinode_slice)
qed

text \<open>The inode with a number, as the disk has it.\<close>

definition dinode_at :: "'z log_st_scheme \<Rightarrow> uint32 \<Rightarrow> dinode" where
  "dinode_at s inum = get_dinode (ioff inum) (blk s (IBLOCK inum))"

definition iblock_ok :: "'z log_st_scheme \<Rightarrow> uint32 \<Rightarrow> bool" where
  "iblock_ok s inum = (settled s \<and> IBLOCK inum < log_start s \<and> IBLOCK inum \<notin> busy s \<and> card (busy s) \<le> log_room s)"

lemma ioff_bound: "ioff inum + 64 \<le> 512"
proof -
  have "unat (inum mod 8) < 8"
    by (simp add: unat_mod)
  then show ?thesis
    by (simp add: ioff_def)
qed

lemma inum_split:
  assumes "IBLOCK a = IBLOCK b" "ioff a = ioff b"
  shows "a = b"
proof -
  have "a div 8 = b div 8" "a mod 8 = b mod 8"
    using assms by (simp add: IBLOCK_def, simp add: ioff_def word_unat_eq_iff [of "a mod 8"])
  then show ?thesis
    by (metis div_mult_mod_eq)
qed

lemma iupdate_spec:
  fixes s :: "'z fs_st_scheme"
  defines "i \<equiv> \<lambda>ip. icache s ip"
  assumes "iblock_ok s (i_inum (i ip))" "i_dev (i ip) = 1" "1 \<le> log_outstanding s" "0 < log_room s" "length (i_addrs (i ip)) = 13"
  shows "\<exists>t. iupdate ip s = Ok () t \<and> log_frame s t \<and> settled t \<and> busy t = busy s \<and> log_room s \<le> Suc (log_room t) \<and>
    blk t = (blk s)(IBLOCK (i_inum (i ip)) := put_dinode (ioff (i_inum (i ip))) (dinode_of (i ip)) (blk s (IBLOCK (i_inum (i ip))))) \<and>
    (\<forall>c m. held s c m \<longrightarrow> held t c m)"
proof -
  let ?n = "IBLOCK (i_inum (i ip))" and ?f = "put_dinode (ioff (i_inum (i ip))) (dinode_of (i ip))"
  have ok: "settled s" "?n < log_start s" "?n \<notin> busy s" "card (busy s) \<le> log_room s"
    using assms(2) by (simp_all add: iblock_ok_def)
  obtain bp t where t: "bread 1 ?n s = Ok bp t" "log_frame s t"
    using jn.jget [OF ok] by blast
  have "length (?f (blk s ?n)) = 512"
    using jn.jlength [OF ok(1)] ioff_bound assms(6) by (simp add: dinode_of_def)
  note change = jn.change [where f = ?f and k = "ret ()", OF ok assms(4,5) this]
  have "iupdate ip s = bnd (bread 1 ?n) (\<lambda>b. thn (md (\<lambda>s. upd_buf b (\<lambda>q. q\<lparr>b_data := ?f (b_data (bufs s b))\<rparr>) s)) (thn (log_write b) (thn (brelse b) (ret ())))) s"
    using t(1) log_frame_fs(1) [OF t(2)] assms(3) by (simp add: iupdate_def kern_simps i_def upd_buf_def split: outcome.split)
  with change show ?thesis
    by auto
qed

lemma settled_calm: "settled s \<Longrightarrow> calm s"
  by (simp add: settled_def tx_inv_def bio_ok_def)

lemma ilock_load_spec:
  fixes s :: "'z fs_st_scheme"
  defines "i \<equiv> \<lambda>ip. icache s ip"
  assumes "iblock_ok s (i_inum (i ip))" "i_dev (i ip) = 1" "i_flags (i ip) AND I_VALID = 0" "d_type (dinode_at s (i_inum (i ip))) \<noteq> 0"
  shows "\<exists>t. ilock_load ip s = Ok () t \<and> icache t = (icache s)(ip := (load_dinode (dinode_at s (i_inum (i ip))) (i ip))\<lparr>i_flags := i_flags (i ip) OR I_VALID\<rparr>) \<and>
    fs_frame s t \<and> settled t \<and> blk t = blk s \<and> busy t = busy s \<and> log_room t = log_room s \<and> (\<forall>c m. held s c m \<longrightarrow> held t c m)"
proof -
  let ?n = "IBLOCK (i_inum (i ip))" and ?d = "dinode_at s (i_inum (i ip))"
  have ok: "settled s" "?n < log_start s" "?n \<notin> busy s" "card (busy s) \<le> log_room s"
    using assms(2) by (simp_all add: iblock_ok_def)
  obtain bp t where t: "bread 1 ?n s = Ok bp t" "log_frame s t" "settled t" "held t bp ?n" "blk t = blk s" "busy t = insert ?n (busy s)"
      "log_room t = log_room s" "\<forall>c m. held s c m \<longrightarrow> held t c m"
    using jn.jget [OF ok] by blast
  let ?u = "upd_inode ip (load_dinode ?d) t"
  obtain v where v: "brelse bp ?u = Ok () v" "log_frame ?u v" "settled v" "\<forall>c m. held v c m \<longleftrightarrow> held ?u c m \<and> c \<noteq> bp" "blk v = blk ?u"
      "busy v = busy ?u - {?n}" "log_room v = log_room ?u"
    using jn.jrel [of ?u bp ?n] t(3,4) by auto
  let ?w = "upd_inode ip (\<lambda>i. i\<lparr>i_flags := i_flags i OR I_VALID\<rparr>) v"
  have iv: "icache v = (icache s)(ip := load_dinode ?d (i ip))"
    using log_frame_fs(1) [OF v(2)] log_frame_fs(1) [OF t(2)] by (simp add: i_def)
  have "get_dinode (ioff (i_inum (i ip))) (b_data (bufs t bp)) = ?d"
    using jn.jdata [OF t(3,4)] t(5) by (simp add: dinode_at_def)
  then have "ilock_load ip s = Ok () ?w"
    using t(1) v(1) assms(3-5) iv by (simp add: ilock_load_def kern_simps i_def load_dinode_def)
  moreover have "icache ?w = (icache s)(ip := (load_dinode ?d (i ip))\<lparr>i_flags := i_flags (i ip) OR I_VALID\<rparr>)"
    using iv by (simp add: load_dinode_def)
  moreover have "fs_frame s ?w"
    by (intro fs_frame_trans [OF fs_frame_log [OF t(2)]] fs_frame_trans [OF fs_frame_inode fs_frame_trans [OF fs_frame_log [OF v(2)] fs_frame_inode]])
  moreover have "held ?w c m" if "held s c m" for c m
    using jn.keep_other [OF ok(1,3) t(3,4) that t(8)] v(4) t(8) that by simp
  ultimately show ?thesis
    using v t ok(3) by (intro exI [of _ ?w]) auto
qed

text \<open>
  C20 (inodes on the disk).  What \<^verbatim>\<open>iupdate\<close> writes is what \<^verbatim>\<open>ilock\<close> loads: after the update of an inode, locking an entry of the table that is
  not yet loaded gives the same type, numbers, link count, size and block addresses; and the update changes no other inode of the disk.
\<close>

theorem iupdate_ilock:
  assumes "i = icache s ip" "i_dev i = 1" "i_type i \<noteq> 0" "length (i_addrs i) = 13"
    and "settled s" "IBLOCK (i_inum i) < log_start s" "IBLOCK (i_inum i) \<notin> busy s" "card (busy s) < log_room s" "1 \<le> log_outstanding s"
    and "j = icache s jp" "jp \<noteq> ip" "i_dev j = 1" "i_inum j = i_inum i" "i_flags j = 0" "1 \<le> i_ref j"
  shows "\<exists>t u. iupdate ip s = Ok () t \<and> (\<forall>m. m \<noteq> i_inum i \<longrightarrow> dinode_at t m = dinode_at s m) \<and> ilock jp t = Ok () u \<and>
    icache u jp = i\<lparr>i_ref := i_ref j, i_flags := I_BUSY OR I_VALID\<rparr> \<and> blk u = blk t \<and> settled u \<and> busy u = busy s"
proof -
  let ?n = "IBLOCK (i_inum i)" and ?d = "dinode_of i"
  obtain t where t: "iupdate ip s = Ok () t" "log_frame s t" "settled t" "busy t = busy s" "log_room s \<le> Suc (log_room t)"
      "blk t = (blk s)(?n := put_dinode (ioff (i_inum i)) ?d (blk s ?n))"
    using iupdate_spec [of s ip] assms by (auto simp: iblock_ok_def)
  have len: "length (blk s m) = 512" for m
    by (rule jn.jlength [OF assms(5)])
  have d: "dinode_at t (i_inum i) = ?d"
    using get_put_dinode [of "ioff (i_inum i)" "blk s ?n" ?d] ioff_bound [of "i_inum i"] assms(4) by (simp add: dinode_at_def t(6) len dinode_of_def)
  have o: "dinode_at t m = dinode_at s m" if "m \<noteq> i_inum i" for m
  proof (cases "IBLOCK m = ?n")
    case True
    then have "ioff m \<noteq> ioff (i_inum i)"
      using inum_split that by blast
    then have "ioff m + 64 \<le> ioff (i_inum i) \<or> ioff (i_inum i) + 64 \<le> ioff m"
      by (auto simp: ioff_def)
    then show ?thesis
      using get_dinode_other [of "ioff (i_inum i)" "blk s ?n" "ioff m" ?d] ioff_bound assms(4) by (simp add: dinode_at_def t(6) len dinode_of_def True)
  next
    case False
    then show ?thesis
      by (simp add: dinode_at_def t(6))
  qed
  let ?s = "upd_inode jp (\<lambda>i. i\<lparr>i_flags := i_flags i OR I_BUSY\<rparr>) t"
  have it: "icache t = icache s" "calm t" "log_start t = log_start s"
    using log_frame_fs [OF t(2)] log_frame_fields [OF t(2)] settled_calm [OF assms(5)] by simp_all
  have l: "ilock jp t = ilock_load jp ?s"
    by (rule ilock_free) (use it assms in simp_all)
  have "iblock_ok ?s (i_inum j)" "d_type (dinode_at ?s (i_inum j)) \<noteq> 0"
    using t it assms d by (auto simp: iblock_ok_def dinode_at_def dinode_of_def)
  then obtain u where u: "ilock_load jp ?s = Ok () u" "icache u = (icache ?s)(jp := (load_dinode ?d (icache ?s jp))\<lparr>i_flags := i_flags (icache ?s jp) OR I_VALID\<rparr>)"
      "settled u" "blk u = blk t" "busy u = busy s"
    using ilock_load_spec [of ?s jp] it assms d t(4) by (auto simp: dinode_at_def)
  have "icache u jp = i\<lparr>i_ref := i_ref j, i_flags := I_BUSY OR I_VALID\<rparr>"
    using u(2) it(1) assms by (simp add: load_dinode_def dinode_of_def)
  then show ?thesis
    using t(1) o l u by auto
qed

text \<open>The file system started on a given disk, inside an operation.\<close>

lemma fs_started_on:
  assumes "\<And>m. length (d m) = 512" "d 1 = demo_disk 1" "d 970 = demo_disk 970"
  shows "\<exists>s :: fs_st. settled s \<and> busy s = {} \<and> log_room s = 29 \<and> log_outstanding s = 1 \<and> log_start s = 970 \<and> blk s = d"
proof -
  let ?r = "fs_boot\<lparr>disk := d\<rparr>"
  have "calm ?r"
    using fs_boot_facts(1) by simp
  moreover have "bss_bufs ?r" "disksize ?r = 1000" "length (log_sector ?r) = 30" "log_outstanding ?r = 0" "\<not> log_committing ?r"
    using log_boot_facts assms(1) by (simp_all add: fs_boot_def log_st.extend_def fs_st.fields_def bss_bufs_def)
  ultimately obtain r :: fs_st where r: "settled r" "busy r = {}" "log_n r = 0" "log_start r = 970" "log_size r = 30" "blk r = d"
    using log_started_on [of ?r] assms(2,3) by auto
  have "settled (r\<lparr>log_outstanding := 1\<rparr>)" "log_room (r\<lparr>log_outstanding := 1\<rparr>) = 29"
    using r by (simp_all add: settled_def log_room_def)
  then show ?thesis
    using r by (intro exI [of _ "r\<lparr>log_outstanding := 1\<rparr>"]) simp
qed

theorem iupdate_ilock_witness:
  "\<exists>(s :: fs_st) t u. iupdate 0 s = Ok () t \<and> ilock 1 t = Ok () u \<and> i_type (icache u 1) = 2 \<and> i_size (icache u 1) = 600"
proof -
  obtain r :: fs_st where r: "settled r" "busy r = {}" "log_room r = 29" "log_outstanding r = 1" "log_start r = 970"
    using fs_started_on [of demo_disk] demo_disk_facts by blast
  define i where "i = no_inode\<lparr>i_dev := 1, i_inum := 7, i_ref := 1, i_flags := 3, i_type := 2, i_size := 600\<rparr>"
  define j where "j = no_inode\<lparr>i_dev := 1, i_inum := 7, i_ref := 1\<rparr>"
  define s where "s = r\<lparr>icache := (\<lambda>_. no_inode)(0 := i, 1 := j)\<rparr>"
  have s: "i = icache s 0" "j = icache s 1" "settled s" "busy s = {}" "log_room s = 29" "log_outstanding s = 1" "log_start s = 970"
    using r by (simp_all add: s_def)
  have "\<exists>t u. iupdate 0 s = Ok () t \<and> (\<forall>m. m \<noteq> i_inum i \<longrightarrow> dinode_at t m = dinode_at s m) \<and> ilock 1 t = Ok () u \<and>
    icache u 1 = i\<lparr>i_ref := i_ref j, i_flags := I_BUSY OR I_VALID\<rparr> \<and> blk u = blk t \<and> settled u \<and> busy u = busy s"
    by (rule iupdate_ilock [OF s(1) _ _ _ s(3) _ _ _ _ s(2)]) (simp_all add: i_def j_def no_inode_def IBLOCK_def s(4-7))
  then obtain t u where "iupdate 0 s = Ok () t" "ilock 1 t = Ok () u" "icache u 1 = i\<lparr>i_ref := i_ref j, i_flags := I_BUSY OR I_VALID\<rparr>"
    by blast
  then show ?thesis
    by (intro exI [of _ s] exI [of _ t] exI [of _ u]) (simp add: i_def)
qed

end
