(* ===== verification/Console.thy ===== *)
theory Console
  imports Proc Icache
begin

text \<open>
  The console (\<^verbatim>\<open>src/console.c\<close>), the keyboard (\<^verbatim>\<open>src/kbd.c\<close>, \<^verbatim>\<open>src/kbd.h\<close>), the serial port (\<^verbatim>\<open>src/uart.c\<close>) and \<^verbatim>\<open>procdump\<close> (\<^verbatim>\<open>src/proc.c\<close>).
  The devices are fields of the state: the text memory and the cursor registers of the screen, the bytes sent on and waiting at the serial port,
  the scan codes waiting in the keyboard controller.  The delay of \<^verbatim>\<open>uartputc\<close> has no effect on the state.
\<close>

record input =
  in_buf :: "nat \<Rightarrow> uchar"
  in_r :: uint32
  in_w :: uint32
  in_e :: uint32

record con_st = sys_st +
  panicked :: bool
  locking :: bool
  crt :: "int \<Rightarrow> ushort"
  crtc :: "nat \<Rightarrow> uchar"
  uart :: bool
  uart_out :: "uchar list"
  uart_in :: "uchar list"
  kbd_in :: "uchar list"
  kbd_shift :: uint32
  inp :: input

abbreviation (input) BACKSPACE :: int where "BACKSPACE \<equiv> 0x100"
abbreviation (input) INPUT_BUF :: nat where "INPUT_BUF \<equiv> 128"

section \<open>Output\<close>

definition uartputc :: "int \<Rightarrow> (unit, 'z con_st_scheme) kern" where
  "uartputc c =
     bnd (rd uart) (\<lambda>u.
     whenk u (md (\<lambda>s. s\<lparr>uart_out := uart_out s @ [of_int c]\<rparr>)))"

text \<open>Cells \<open>a\<close> to \<open>a + n - 1\<close> of the text memory.\<close>

definition crt_scroll :: "(int \<Rightarrow> ushort) \<Rightarrow> int \<Rightarrow> ushort" where
  "crt_scroll m i = (if 0 \<le> i \<and> i < 23 * 80 then m (i + 80) else m i)"

definition crt_clear :: "int \<Rightarrow> int \<Rightarrow> (int \<Rightarrow> ushort) \<Rightarrow> int \<Rightarrow> ushort" where
  "crt_clear a b m i = (if a \<le> i \<and> i < b then 0 else m i)"

definition cursor :: "(nat \<Rightarrow> uchar) \<Rightarrow> int" where
  "cursor r = uint (push_bit 8 (ucast (r 14)) OR ucast (r 15) :: uint32)"

definition cga_advance :: "int \<Rightarrow> int \<Rightarrow> (int \<Rightarrow> ushort) \<Rightarrow> int \<times> (int \<Rightarrow> ushort)" where
  "cga_advance c pos m =
     (if c = 10 then (pos + (80 - pos mod 80), m)
      else if c = BACKSPACE then (if pos > 0 then pos - 1 else pos, m)
      else (pos + 1, m(pos := (of_int c AND 0xFF) OR 0x0700)))"

definition cgaputc :: "int \<Rightarrow> (unit, 'z con_st_scheme) kern" where
  "cgaputc c =
     bnd (rd (\<lambda>s. cga_advance c (cursor (crtc s)) (crt s))) (\<lambda>(pos, m).
     let scroll = (pos div 80 \<ge> 24);
         pos' = (if scroll then pos - 80 else pos) in
     if scroll \<and> 24 * 80 - pos' < 0 then fault ''memset of a negative length''
     else
       let m' = (if scroll then crt_clear pos' (24 * 80) (crt_scroll m) else m) in
       md (\<lambda>s. s\<lparr>crt := m'(pos' := 0x0720), crtc := (crtc s)(14 := of_int (pos' div 256), 15 := of_int pos')\<rparr>))"

definition consputc :: "int \<Rightarrow> (unit, 'z con_st_scheme) kern" where
  "consputc c =
     bnd (rd panicked) (\<lambda>p.
     if p then (\<lambda>s. Diverge)
     else
       thn (if c = BACKSPACE then thn (uartputc 8) (thn (uartputc 32) (uartputc 8)) else uartputc c) (
       cgaputc c))"

section \<open>Formatted output\<close>

definition hexdigit :: "nat \<Rightarrow> uchar" where
  "hexdigit d = (if d < 10 then 48 + of_nat d else 87 + of_nat d)"

definition puts :: "uchar list \<Rightarrow> (unit, 'z con_st_scheme) kern" where
  "puts bs = for_each bs (\<lambda>b. consputc (sint b))"

definition printint :: "int \<Rightarrow> uint32 \<Rightarrow> bool \<Rightarrow> (unit, 'z con_st_scheme) kern" where
  "printint xx base sg = (case printint_buf hexdigit xx base sg of
       None \<Rightarrow> fault ''buf overflow''
     | Some ds \<Rightarrow> puts (rev ds))"

text \<open>The loop of \<^verbatim>\<open>cprintf\<close>.  An argument that is missing, or of the wrong kind for its directive, is a fault.\<close>

fun cprintf_loop :: "uchar list \<Rightarrow> carg list \<Rightarrow> (unit, 'z con_st_scheme) kern" where
  "cprintf_loop [] args = ret ()"
| "cprintf_loop [c] args = whenk (c \<noteq> 0 \<and> c \<noteq> 37) (consputc (uint c))"
| "cprintf_loop (c # d # fmt) args =
     (if c = 0 then ret ()
      else if c \<noteq> 37 then thn (consputc (uint c)) (cprintf_loop (d # fmt) args)
      else if d = 0 then ret ()
      else if d = 100 then
        (case args of
           CInt x # args' \<Rightarrow> thn (printint (sint x) 10 True) (cprintf_loop fmt args')
         | _ \<Rightarrow> fault ''cprintf argument'')
      else if d = 120 \<or> d = 112 then
        (case args of
           CInt x # args' \<Rightarrow> thn (printint (sint x) 16 False) (cprintf_loop fmt args')
         | _ \<Rightarrow> fault ''cprintf argument'')
      else if d = 115 then
        (case args of
           CStr bs # args' \<Rightarrow> thn (puts bs) (cprintf_loop fmt args')
         | CInt x # args' \<Rightarrow> if x = 0 then thn (puts (map of_char ''(null)'')) (cprintf_loop fmt args') else fault ''cprintf argument''
         | [] \<Rightarrow> fault ''cprintf argument'')
      else if d = 37 then thn (consputc 37) (cprintf_loop fmt args)
      else thn (consputc 37) (thn (consputc (uint d)) (cprintf_loop fmt args)))"

definition cprintf :: "string \<Rightarrow> carg list \<Rightarrow> (unit, 'z con_st_scheme) kern" where
  "cprintf fmt args =
     bnd (rd locking) (\<lambda>l.
     thn (whenk l (acquire LkCons)) (
     thn (cprintf_loop (map of_char fmt) args) (
     whenk l (release LkCons))))"

section \<open>Process listing\<close>

definition state_name :: "procstate \<Rightarrow> string" where
  "state_name st = (case st of UNUSED \<Rightarrow> ''unused'' | EMBRYO \<Rightarrow> ''embryo'' | SLEEPING \<Rightarrow> ''sleep ''
     | RUNNABLE \<Rightarrow> ''runble'' | RUNNING \<Rightarrow> ''run   '' | ZOMBIE \<Rightarrow> ''zombie'')"

definition procdump :: "(unit, 'z con_st_scheme) kern" where
  "procdump = for_each [0..<NPROC] (\<lambda>p.
     bnd (rd (\<lambda>s. ptable s p)) (\<lambda>q.
     whenk (p_state q \<noteq> UNUSED) (
       thn (cprintf ''%d %s %s'' [CInt (p_pid q), CStr (map of_char (state_name (p_state q))), CStr (p_name q)]) (
       thn (whenk (p_state q = SLEEPING) (
         bnd (rd (\<lambda>s. getcallerpcs (load32 (mem s)) (load32 (mem s) (p_context q + 12) + 8))) (\<lambda>pc.
         for_each (takeWhile (\<lambda>x. x \<noteq> 0) pc) (\<lambda>x. cprintf '' %p'' [CInt x])))) (
       cprintf [CHR 0x0A] [])))))"

section \<open>Input\<close>

definition upd_input :: "(input \<Rightarrow> input) \<Rightarrow> 'z con_st_scheme \<Rightarrow> 'z con_st_scheme" where
  "upd_input f s = s\<lparr>inp := f (inp s)\<rparr>"

definition in_at :: "input \<Rightarrow> uint32 \<Rightarrow> uchar" where
  "in_at i k = in_buf i (unat (k mod of_nat INPUT_BUF))"

text \<open>The loop that erases the line; \<open>e - w\<close> decreases, so that the difference at the start bounds the iterations.\<close>

fun kill_line :: "nat \<Rightarrow> (unit, 'z con_st_scheme) kern" where
  "kill_line 0 = ret ()"
| "kill_line (Suc n) =
     bnd (rd inp) (\<lambda>i.
     whenk (in_e i \<noteq> in_w i \<and> in_at i (in_e i - 1) \<noteq> 10) (
       thn (md (upd_input (\<lambda>i. i\<lparr>in_e := in_e i - 1\<rparr>))) (
       thn (consputc BACKSPACE) (
       kill_line n))))"

definition consoleintr_char :: "int \<Rightarrow> (unit, 'z con_st_scheme) kern" where
  "consoleintr_char c =
     (if c = 0x10 then procdump
      else if c = 0x15 then bnd (rd (\<lambda>s. unat (in_e (inp s) - in_w (inp s)))) kill_line
      else if c = 0x08 \<or> c = 0x7F then
        bnd (rd inp) (\<lambda>i.
        whenk (in_e i \<noteq> in_w i) (
          thn (md (upd_input (\<lambda>i. i\<lparr>in_e := in_e i - 1\<rparr>))) (
          consputc BACKSPACE)))
      else
        bnd (rd inp) (\<lambda>i.
        whenk (c \<noteq> 0 \<and> in_e i - in_r i < of_nat INPUT_BUF) (
          let c = (if c = 13 then 10 else c) in
          thn (md (upd_input (\<lambda>i. i\<lparr>in_buf := (in_buf i)(unat (in_e i mod of_nat INPUT_BUF) := of_int c), in_e := in_e i + 1\<rparr>))) (
          thn (consputc c) (
          bnd (rd inp) (\<lambda>i.
          whenk (c = 10 \<or> c = 4 \<or> in_e i = in_r i + of_nat INPUT_BUF) (
            thn (md (upd_input (\<lambda>i. i\<lparr>in_w := in_e i\<rparr>))) (
            wakeup ChInput))))))))"

text \<open>\<open>n\<close> bounds the number of characters the device can still deliver.\<close>

fun consoleintr_loop :: "nat \<Rightarrow> (int, 'z con_st_scheme) kern \<Rightarrow> (unit, 'z con_st_scheme) kern" where
  "consoleintr_loop 0 getc = (\<lambda>s. Diverge)"
| "consoleintr_loop (Suc n) getc =
     bnd getc (\<lambda>c.
     whenk (c \<ge> 0) (
       thn (consoleintr_char c) (
       consoleintr_loop n getc)))"

definition consoleintr :: "nat \<Rightarrow> (int, 'z con_st_scheme) kern \<Rightarrow> (unit, 'z con_st_scheme) kern" where
  "consoleintr n getc =
     thn (acquire LkInput) (
     thn (consoleintr_loop n getc) (
     release LkInput))"

section \<open>The console as a device\<close>

text \<open>
  The loop of \<^verbatim>\<open>consoleread\<close>, entered with the lock of the input held, with \<open>n\<close> bytes still wanted of \<open>target\<close>; the result carries the
  bytes stored from here on.  A sleep loses nothing that the caller still needs: the bytes before it are in the memory of the process.
\<close>

fun consoleread_loop :: "nat \<Rightarrow> nat \<Rightarrow> int \<Rightarrow> (int \<times> uchar list, 'z con_st_scheme) kern" where
  "consoleread_loop ip 0 target =
     thn (release LkInput) (thn (ilock ip) (ret (target, [])))"
| "consoleread_loop ip (Suc n) target =
     bnd (rd inp) (\<lambda>i.
     if in_r i = in_w i then
       with_proc (\<lambda>p.
       bnd (rd (\<lambda>s. p_killed (ptable s p))) (\<lambda>k.
       if k then thn (release LkInput) (thn (ilock ip) (ret (- 1, [])))
       else thn (sleep ChInput (Some LkInput)) (fault ''sleep returned'')))
     else
       let c = in_at i (in_r i) in
       thn (md (upd_input (\<lambda>i. i\<lparr>in_r := in_r i + 1\<rparr>))) (
       if c = 4 then
         thn (whenk (int (Suc n) < target) (md (upd_input (\<lambda>i. i\<lparr>in_r := in_r i - 1\<rparr>)))) (
         thn (release LkInput) (thn (ilock ip) (ret (target - int (Suc n), []))))
       else if c = 10 then
         thn (release LkInput) (thn (ilock ip) (ret (target - int n, [c])))
       else
         bnd (consoleread_loop ip n target) (\<lambda>(r, bs). ret (r, c # bs))))"

text \<open>A count that is not positive reads nothing and returns 0.\<close>

definition consoleread :: "nat \<Rightarrow> uint32 \<Rightarrow> uint32 \<Rightarrow> (int \<times> uchar list, 'z con_st_scheme) kern" where
  "consoleread ip off n =
     thn (iunlock ip) (
     thn (acquire LkInput) (
     consoleread_loop ip (nat (sint n)) (if sint n > 0 then sint n else 0)))"

definition consoleread_resume :: "nat \<Rightarrow> nat \<Rightarrow> int \<Rightarrow> bool \<Rightarrow> (int \<times> uchar list, 'z con_st_scheme) kern" where
  "consoleread_resume ip n target i = thn (sleep_resume LkInput i) (consoleread_loop ip n target)"

definition consolewrite :: "nat \<Rightarrow> uchar list \<Rightarrow> uint32 \<Rightarrow> (int, 'z con_st_scheme) kern" where
  "consolewrite ip buf n =
     thn (iunlock ip) (
     thn (acquire LkCons) (
     thn (for_each (take (nat (sint n)) buf) (\<lambda>b. consputc (uint b))) (
     thn (release LkCons) (
     thn (ilock ip) (
     ret (sint n))))))"

text \<open>The entry of the console in the table \<^verbatim>\<open>devsw\<close>, as \<^verbatim>\<open>consoleinit\<close> sets it.\<close>

definition console_dev :: "'z con_st_scheme devsw" where
  "console_dev = \<lparr>ds_isdir = None, ds_iread = None, ds_read = Some consoleread, ds_write = Some consolewrite\<rparr>"

definition consoleinit :: "(unit, 'z con_st_scheme) kern" where
  "consoleinit =
     thn (initlock LkCons ''console'') (
     thn (initlock LkInput ''input'') (
     md (\<lambda>s. s\<lparr>locking := True\<rparr>)))"

section \<open>The keyboard (kbd.h, kbd.c)\<close>

abbreviation (input) SHIFT :: uint32 where "SHIFT \<equiv> 1"
abbreviation (input) CTL :: uint32 where "CTL \<equiv> 2"
abbreviation (input) ALT :: uint32 where "ALT \<equiv> 4"
abbreviation (input) CAPSLOCK :: uint32 where "CAPSLOCK \<equiv> 8"
abbreviation (input) NUMLOCK :: uint32 where "NUMLOCK \<equiv> 16"
abbreviation (input) SCROLLLOCK :: uint32 where "SCROLLLOCK \<equiv> 32"
abbreviation (input) E0ESC :: uint32 where "E0ESC \<equiv> 64"

definition shiftcode :: "uchar \<Rightarrow> uint32" where
  "shiftcode d = (if d = 0x1D then CTL else if d = 0x2A then SHIFT else if d = 0x36 then SHIFT
     else if d = 0x38 then ALT else if d = 0x9D then CTL else if d = 0xB8 then ALT else 0)"

definition togglecode :: "uchar \<Rightarrow> uint32" where
  "togglecode d = (if d = 0x3A then CAPSLOCK else if d = 0x45 then NUMLOCK else if d = 0x46 then SCROLLLOCK else 0)"

text \<open>The keys after an escape byte that the three tables share, but for the codes of the keypad's enter and divide keys.\<close>

definition extended_key :: "uchar \<Rightarrow> uchar \<Rightarrow> uchar \<Rightarrow> uchar" where
  "extended_key enter div' d =
     (if d = 0x9C then enter else if d = 0xB5 then div'
      else if d = 0xC8 then 0xE2 else if d = 0xD0 then 0xE3
      else if d = 0xC9 then 0xE6 else if d = 0xD1 then 0xE7
      else if d = 0xCB then 0xE4 else if d = 0xCD then 0xE5
      else if d = 0x97 then 0xE0 else if d = 0xCF then 0xE1
      else if d = 0xD2 then 0xE8 else if d = 0xD3 then 0xE9 else 0)"

definition key_table :: "uchar list \<Rightarrow> uchar \<Rightarrow> uchar \<Rightarrow> uchar \<Rightarrow> uchar" where
  "key_table low enter div' d = (if unat d < length low then low ! unat d else extended_key enter div' d)"

definition normalmap :: "uchar \<Rightarrow> uchar" where
  "normalmap = key_table
     ([0, 0x1B] @ map of_char ''1234567890-='' @ [8, 9] @
      map of_char ''qwertyuiop[]'' @ [10, 0] @ map of_char ''asdfghjkl;'' @ [39, 96, 0, 92] @
      map of_char ''zxcvbnm,./'' @ [0] @ map of_char ''*'' @ [0, 32] @ replicate 13 0 @
      map of_char ''789-456+1230.'' @ [0, 0, 0, 0]) 10 47"

definition shiftmap :: "uchar \<Rightarrow> uchar" where
  "shiftmap = key_table
     ([0, 27] @ map of_char ''!@#$%^&*()_+'' @ [8, 9] @
      map of_char ''QWERTYUIOP{}'' @ [10, 0] @ map of_char ''ASDFGHJKL:'' @ [34, 126, 0, 124] @
      map of_char ''ZXCVBNM<>?'' @ [0] @ map of_char ''*'' @ [0, 32] @ replicate 13 0 @
      map of_char ''789-456+1230.'' @ [0, 0, 0, 0]) 10 47"

definition ctl :: "char \<Rightarrow> uchar" where
  "ctl x = of_char x - 64"

definition ctlmap :: "uchar \<Rightarrow> uchar" where
  "ctlmap = key_table
     (replicate 16 0 @ map ctl ''QWERTYUIOP'' @ [0, 0, 13, 0] @ map ctl ''ASDFGHJKL'' @ [0, 0, 0, 0, ctl (CHR 0x5C)] @
      map ctl ''ZXCVBNM'' @ [0, 0, ctl (CHR 0x2F), 0, 0]) 13 (ctl (CHR 0x2F))"

definition charcode :: "uint32 \<Rightarrow> uchar \<Rightarrow> uchar" where
  "charcode k = (if k = 0 then normalmap else if k = 1 then shiftmap else ctlmap)"

text \<open>What a scan code does to the state of the shift keys, and the character it gives.\<close>

definition kbd_decode :: "uint32 \<Rightarrow> uchar \<Rightarrow> uint32 \<times> int" where
  "kbd_decode shift data =
     (if data = 0xE0 then (shift OR E0ESC, 0)
      else if data AND 0x80 \<noteq> 0 then
        let data' = (if shift AND E0ESC \<noteq> 0 then data else data AND 0x7F) in
        (shift AND NOT (shiftcode data' OR E0ESC), 0)
      else
        let esc = shift AND E0ESC \<noteq> 0;
            data' = (if esc then data OR 0x80 else data);
            shift1 = (if esc then shift AND NOT E0ESC else shift);
            shift2 = shift1 OR shiftcode data';
            shift3 = shift2 XOR togglecode data';
            c = charcode (shift3 AND (CTL OR SHIFT)) data';
            c' = (if shift3 AND CAPSLOCK \<noteq> 0 then
                    (if 97 \<le> c \<and> c \<le> 122 then c - 32 else if 65 \<le> c \<and> c \<le> 90 then c + 32 else c)
                  else c) in
        (shift3, uint c'))"

definition kbdgetc :: "(int, 'z con_st_scheme) kern" where
  "kbdgetc =
     bnd (rd kbd_in) (\<lambda>q.
     case q of
       [] \<Rightarrow> ret (- 1)
     | data # q' \<Rightarrow>
         bnd (rd (\<lambda>s. kbd_decode (kbd_shift s) data)) (\<lambda>(sh, c).
         thn (md (\<lambda>s. s\<lparr>kbd_in := q', kbd_shift := sh\<rparr>)) (
         ret c)))"

definition kbdintr :: "(unit, 'z con_st_scheme) kern" where
  "kbdintr = bnd (rd (\<lambda>s. Suc (length (kbd_in s)))) (\<lambda>n. consoleintr n kbdgetc)"

section \<open>The serial port (uart.c)\<close>

definition uartgetc :: "(int, 'z con_st_scheme) kern" where
  "uartgetc =
     bnd (rd uart) (\<lambda>u.
     if \<not> u then ret (- 1)
     else
       bnd (rd uart_in) (\<lambda>q.
       case q of
         [] \<Rightarrow> ret (- 1)
       | b # q' \<Rightarrow> thn (md (\<lambda>s. s\<lparr>uart_in := q'\<rparr>)) (ret (uint b))))"

definition uartintr :: "(unit, 'z con_st_scheme) kern" where
  "uartintr = bnd (rd (\<lambda>s. Suc (length (uart_in s)))) (\<lambda>n. consoleintr n uartgetc)"

section \<open>Frames\<close>

lemma hold_con [simp]:
  "crt_update f (hold l s) = hold l (crt_update f s)" "crtc_update g (hold l s) = hold l (crtc_update g s)"
  "uart_out_update h (hold l s) = hold l (uart_out_update h s)" "inp_update i (hold l s) = hold l (inp_update i s)"
  "kbd_in_update j (hold l s) = hold l (kbd_in_update j s)" "kbd_shift_update k (hold l s) = hold l (kbd_shift_update k s)"
  "uart_in_update n (hold l s) = hold l (uart_in_update n s)"
  "crt (hold l s) = crt s" "crtc (hold l s) = crtc s" "uart_out (hold l s) = uart_out s" "uart (hold l s) = uart s" "panicked (hold l s) = panicked s"
  "locking (hold l s) = locking s" "inp (hold l s) = inp s" "kbd_in (hold l s) = kbd_in s" "kbd_shift (hold l s) = kbd_shift s" "uart_in (hold l s) = uart_in s"
  by (simp_all add: hold_def set_lock_def set_cpu_def)

lemma calm_con [simp]:
  "calm (crt_update f s) = calm s" "calm (crtc_update g s) = calm s" "calm (uart_out_update h s) = calm s" "calm (inp_update i s) = calm s"
  "calm (kbd_in_update j s) = calm s" "calm (kbd_shift_update k s) = calm s" "calm (uart_in_update n s) = calm s"
  "inside (crt_update f s) = inside s" "inside (crtc_update g s) = inside s" "inside (uart_out_update h s) = inside s" "inside (inp_update i s) = inside s"
  "lock_free l (crt_update f s) = lock_free l s" "lock_free l (crtc_update g s) = lock_free l s" "lock_free l (uart_out_update h s) = lock_free l s"
  "lock_free l (inp_update i s) = lock_free l s"
  by (simp_all add: calm_def inside_def lock_free_def)

section \<open>The screen and the serial port\<close>

text \<open>
  The cursor is above the last line of the screen.  \<open>typed out s t\<close>: the state \<open>t\<close> is \<open>s\<close> after the bytes \<open>out\<close> were sent on the serial port, if there is
  one; but for that and for the screen nothing has changed.
\<close>

definition screen_ok :: "'z con_st_scheme \<Rightarrow> bool" where
  "screen_ok s = (\<not> panicked s \<and> cursor (crtc s) < 24 * 80)"

definition typed :: "uchar list \<Rightarrow> 'z con_st_scheme \<Rightarrow> 'z con_st_scheme \<Rightarrow> bool" where
  "typed out s t = (\<exists>m r. t = s\<lparr>crt := m, crtc := r, uart_out := uart_out s @ (if uart s then out else [])\<rparr> \<and> cursor r < 24 * 80)"

lemma typedI: "cursor r < 24 * 80 \<Longrightarrow> typed out s (s\<lparr>crt := m, crtc := r, uart_out := uart_out s @ (if uart s then out else [])\<rparr>)"
  unfolding typed_def by blast

lemma typedE:
  assumes "typed out s t"
  obtains m r where "t = s\<lparr>crt := m, crtc := r, uart_out := uart_out s @ (if uart s then out else [])\<rparr>" "cursor r < 24 * 80"
  using assms unfolding typed_def by blast

lemma typed_refl: "screen_ok s \<Longrightarrow> typed [] s s"
  unfolding typed_def screen_ok_def by (intro exI [of _ "crt s"] exI [of _ "crtc s"]) simp

lemma typed_trans: "typed a s t \<Longrightarrow> typed b t u \<Longrightarrow> typed (a @ b) s u"
  by (erule typedE)+ (simp add: typed_def, metis)

lemma typed_screen: "typed a s t \<Longrightarrow> screen_ok s \<Longrightarrow> screen_ok t"
  by (auto simp: typed_def screen_ok_def)

lemma screen_ok_hold [simp]: "screen_ok (hold l s) = screen_ok s"
  by (simp add: screen_ok_def)

lemma typed_hold: "typed a s t \<Longrightarrow> typed a (hold l s) (hold l t)"
  by (erule typedE) (simp add: typed_def, metis)

lemma typed_unhold: "typed a (hold l s) t \<Longrightarrow> \<exists>u. t = hold l u \<and> typed a s u"
  by (erule typedE) (simp add: typed_def, metis)

lemma typed_views:
  assumes "typed a s t"
  shows "calm t = calm s" "inside t = inside s" "lock_free l t = lock_free l s" "ptable t = ptable s" "mem t = mem s" "inp t = inp s" "locking t = locking s"
    "kbd_in t = kbd_in s" "kbd_shift t = kbd_shift s" "uart_in t = uart_in s" "uart t = uart s"
  using assms by (auto elim!: typedE)

lemma cursor_eq: "cursor r = uint (r 14) * 256 + uint (r 15)"
proof -
  have "push_bit 8 (ucast (r 14)) AND (ucast (r 15) :: uint32) = 0"
    by (rule bit_word_eqI) (auto simp: bit_simps dest: bit_imp_le_length)
  then have "push_bit 8 (ucast (r 14)) OR (ucast (r 15) :: uint32) = push_bit 8 (ucast (r 14)) + ucast (r 15)"
    by (rule disjunctive_add_eq_or [symmetric])
  also have "uint \<dots> = uint (r 14) * 256 + uint (r 15)"
    using uint_bounded [of "r 14"] uint_bounded [of "r 15"]
    by (simp add: push_bit_eq_mult uint_word_ariths uint_up_ucast is_up mod_pos_pos_trivial mult.commute)
  finally show ?thesis
    by (simp add: cursor_def)
qed

lemma cursor_write:
  assumes "0 \<le> pos" "pos < 65536"
  shows "cursor (r(14 := of_int (pos div 256), 15 := of_int pos)) = pos"
proof -
  have "pos div 256 < 256"
    using assms by simp
  then show ?thesis
    using assms by (simp add: cursor_eq uint_word_of_int mod_pos_pos_trivial pos_imp_zdiv_nonneg_iff)
qed

lemma cga_advance_pos:
  assumes "0 \<le> pos" "pos < 24 * 80" "cga_advance c pos m = (pos', m')"
  shows "0 \<le> pos' \<and> pos' \<le> 24 * 80"
proof (cases "c = 10")
  case True
  have "pos - pos mod 80 = 80 * (pos div 80)" "pos div 80 \<le> 23"
    using assms by (simp_all add: minus_mod_eq_mult_div)
  then show ?thesis
    using True assms by (auto simp: cga_advance_def)
qed (use assms in \<open>auto simp: cga_advance_def split: if_splits\<close>)

lemma cursor_nonneg: "0 \<le> cursor r"
  by (simp add: cursor_def)

lemma cgaputc_ok:
  assumes "cursor (crtc s) < 24 * 80"
  shows "\<exists>m r. cgaputc c s = Ok () (s\<lparr>crt := m, crtc := r\<rparr>) \<and> cursor r < 24 * 80"
proof -
  obtain pos m where a: "cga_advance c (cursor (crtc s)) (crt s) = (pos, m)"
    by fastforce
  have p: "0 \<le> pos" "pos \<le> 24 * 80"
    using cga_advance_pos [OF cursor_nonneg assms a] by simp_all
  define p' where "p' = (if pos = 24 * 80 then pos - 80 else pos)"
  define m' where "m' = (if pos = 24 * 80 then crt_clear p' (24 * 80) (crt_scroll m) else m)"
  let ?r = "(crtc s)(14 := of_int (p' div 256), 15 := of_int p')"
  have "24 \<le> pos div 80 \<longleftrightarrow> pos = 24 * 80"
    using p by auto
  then have "cgaputc c s = Ok () (s\<lparr>crt := m'(p' := 0x0720), crtc := ?r\<rparr>)"
    using p by (auto simp: cgaputc_def kern_simps a Let_def p'_def m'_def simp del: of_int_numeral)
  moreover have "cursor ?r < 24 * 80"
    using p by (subst cursor_write) (auto simp: p'_def)
  ultimately show ?thesis
    by blast
qed

lemma consputc_char:
  assumes "screen_ok s" "c \<noteq> BACKSPACE"
  shows "\<exists>t. consputc c s = Ok () t \<and> typed [of_int c] s t"
proof -
  let ?u = "s\<lparr>uart_out := uart_out s @ (if uart s then [of_int c] else [])\<rparr>"
  obtain m r where c: "cgaputc c ?u = Ok () (?u\<lparr>crt := m, crtc := r\<rparr>)" and r: "cursor r < 24 * 80"
    using cgaputc_ok [of ?u c] assms(1) by (auto simp: screen_ok_def)
  have "consputc c s = Ok () (?u\<lparr>crt := m, crtc := r\<rparr>)"
    using assms c by (cases "uart s") (simp_all add: consputc_def screen_ok_def uartputc_def kern_simps)
  moreover have "?u\<lparr>crt := m, crtc := r\<rparr> = s\<lparr>crt := m, crtc := r, uart_out := uart_out s @ (if uart s then [of_int c] else [])\<rparr>"
    by simp
  ultimately show ?thesis
    using typedI [OF r] by metis
qed

lemma consputc_erase:
  assumes "screen_ok s"
  shows "\<exists>t. consputc BACKSPACE s = Ok () t \<and> typed [8, 32, 8] s t"
proof -
  let ?u = "s\<lparr>uart_out := uart_out s @ (if uart s then [8, 32, 8] else [])\<rparr>"
  obtain m r where c: "cgaputc BACKSPACE ?u = Ok () (?u\<lparr>crt := m, crtc := r\<rparr>)" and r: "cursor r < 24 * 80"
    using cgaputc_ok [of ?u BACKSPACE] assms(1) by (auto simp: screen_ok_def)
  have "consputc BACKSPACE s = Ok () (?u\<lparr>crt := m, crtc := r\<rparr>)"
    using assms c by (cases "uart s") (simp_all add: consputc_def screen_ok_def uartputc_def kern_simps)
  moreover have "?u\<lparr>crt := m, crtc := r\<rparr> = s\<lparr>crt := m, crtc := r, uart_out := uart_out s @ (if uart s then [8, 32, 8] else [])\<rparr>"
    by simp
  ultimately show ?thesis
    using typedI [OF r] by metis
qed

lemma puts_typed: "screen_ok s \<Longrightarrow> \<exists>t. puts bs s = Ok () t \<and> typed bs s t"
proof (induction bs arbitrary: s)
  case Nil
  then show ?case
    by (auto simp: puts_def kern_simps typed_refl)
next
  case (Cons b bs)
  have "sint b \<noteq> BACKSPACE"
    using sint_lt [of b] by simp
  then obtain t where t: "consputc (sint b) s = Ok () t" "typed [b] s t"
    using consputc_char [OF Cons.prems, of "sint b"] by auto
  obtain u where "puts bs t = Ok () u" "typed bs t u"
    using Cons.IH typed_screen [OF t(2) Cons.prems] by blast
  then show ?case
    using t typed_trans [OF t(2)] by (auto simp: puts_def kern_simps)
qed

section \<open>Numbers and formats\<close>

text \<open>What a format stands for; \<open>None\<close> if an argument is missing or of the wrong kind.\<close>

fun formatted :: "uchar list \<Rightarrow> carg list \<Rightarrow> uchar list option" where
  "formatted [] args = Some []"
| "formatted [c] args = (if c = 0 \<or> c = 37 then Some [] else Some [c])"
| "formatted (c # d # fmt) args =
     (if c = 0 then Some []
      else if c \<noteq> 37 then map_option ((#) c) (formatted (d # fmt) args)
      else if d = 0 then Some []
      else if d = 37 then map_option ((#) 37) (formatted fmt args)
      else if d \<in> {100, 120, 112, 115} then
        (case args of
           [] \<Rightarrow> None
         | a # args' \<Rightarrow>
             (case a of
                CInt x \<Rightarrow>
                  if d = 100 then map_option ((@) (decimal_text hexdigit (sint x))) (formatted fmt args')
                  else if d = 115 then (if x = 0 then map_option ((@) (map of_char ''(null)'')) (formatted fmt args') else None)
                  else map_option ((@) (radix hexdigit 16 (unat x))) (formatted fmt args')
              | CStr bs \<Rightarrow> if d = 115 then map_option ((@) bs) (formatted fmt args') else None))
      else map_option ((@) [37, d]) (formatted fmt args))"

lemma printint_typed:
  fixes x :: uint32
  assumes "screen_ok s"
  shows "\<exists>t. printint (sint x) 10 True s = Ok () t \<and> typed (decimal_text hexdigit (sint x)) s t"
    "\<exists>t. printint (sint x) 16 False s = Ok () t \<and> typed (radix hexdigit 16 (unat x)) s t"
  using puts_typed [OF assms] by (simp_all add: printint_def printint_buf_eq)

text \<open>A command that types \<open>out\<close> wherever the screen is in order.\<close>

definition types :: "(unit, 'z con_st_scheme) kern \<Rightarrow> uchar list \<Rightarrow> bool" where
  "types f out = (\<forall>s. screen_ok s \<longrightarrow> (\<exists>t. f s = Ok () t \<and> typed out s t))"

lemma types_ret: "types (ret ()) []"
  by (simp add: types_def kern_simps typed_refl)

lemma types_thn: "types f a \<Longrightarrow> types g b \<Longrightarrow> types (thn f g) (a @ b)"
  unfolding types_def by (metis thn_Ok typed_screen typed_trans)

lemma types_consputc: "types (consputc (uint c)) [c]"
proof -
  have "uint c \<noteq> BACKSPACE"
    using uint_bounded [of c] by simp
  then show ?thesis
    by (auto simp: types_def dest: consputc_char [of _ "uint c"])
qed

lemma types_percent: "types (consputc 37) [37]"
  using types_consputc [of 37] by simp

lemma types_printint: "types (printint (sint x) 10 True) (decimal_text hexdigit (sint x))" "types (printint (sint x) 16 False) (radix hexdigit 16 (unat x))" for x :: uint32
  by (simp_all add: types_def printint_typed)

lemma types_puts: "types (puts bs) bs"
  by (simp add: types_def puts_typed)

lemmas types_intros = types_ret types_consputc types_percent types_printint types_puts types_thn

lemma types_Cons: "types f [a] \<Longrightarrow> types g b \<Longrightarrow> types (thn f g) (a # b)"
  using types_thn [of f "[a]" g b] by simp

lemma types_null: "types g b \<Longrightarrow> types (thn (puts [40, 110, 117, 108, 108, 41]) g) (40 # 110 # 117 # 108 # 108 # 41 # b)"
  using types_thn [OF types_puts [of "[40, 110, 117, 108, 108, 41]"], of g b] by simp

lemma typesD: "types f out \<Longrightarrow> screen_ok s \<Longrightarrow> \<exists>t. f s = Ok () t \<and> typed out s t"
  by (simp add: types_def)

lemma cprintf_loop_types:
  "formatted fmt args = Some out \<Longrightarrow> types (cprintf_loop fmt args :: (unit, 'z con_st_scheme) kern) out"
proof (induction "length fmt" arbitrary: fmt args out rule: less_induct)
  case less
  have IH: "types (cprintf_loop f as :: (unit, 'z con_st_scheme) kern) o'" if "length f < length fmt" "formatted f as = Some o'" for f as o'
    using less.hyps that by blast
  consider "fmt = []" | c where "fmt = [c]" | c d f where "fmt = c # d # f"
    by (metis list.exhaust)
  then show ?case
  proof cases
    case 3
    note fmt = 3
    consider (lit) "c = 0 \<or> c = 37 \<and> d = 0" | (char) "c \<noteq> 0" "c \<noteq> 37" | (percent) "c = 37" "d = 37"
      | (arg) "c = 37" "d \<in> {100, 120, 112, 115}" | (other) "c = 37" "d \<notin> {0, 37, 100, 120, 112, 115}"
      by blast
    then show ?thesis
    proof cases
      case arg
      then obtain a as where as: "args = a # as"
        using less.prems by (auto simp: fmt split: list.splits)
      then obtain o' where o': "formatted f as = Some o'"
        using arg less.prems by (auto simp: fmt split: carg.splits if_splits)
      have "types (cprintf_loop f as :: (unit, 'z con_st_scheme) kern) o'"
        by (rule IH [OF _ o']) (simp add: fmt)
      with arg less.prems show ?thesis
        by (cases a; elim insertE emptyE) (auto simp: fmt as o' split: if_splits intro!: types_null types_thn types_printint types_puts)
    next
      case char
      with less.prems IH [of "d # f" args] show ?thesis
        by (auto simp: fmt intro!: types_Cons types_consputc)
    next
      case percent
      with less.prems IH [of f args] show ?thesis
        by (auto simp: fmt intro!: types_Cons types_percent)
    next
      case other
      with less.prems IH [of f args] show ?thesis
        by (auto simp: fmt intro!: types_Cons types_consputc types_percent)
    qed (use less.prems in \<open>auto simp: fmt types_ret\<close>)
  qed (use less.prems in \<open>auto simp: kern_simps types_ret types_consputc split: if_splits\<close>)
qed

lemma cprintf_typed:
  assumes "formatted (map of_char fmt) args = Some out" "screen_ok s" "locking s \<longrightarrow> lock_free LkCons s \<and> (calm s \<or> inside s)"
  shows "\<exists>t. cprintf fmt args s = Ok () t \<and> typed out s t"
proof (cases "locking s")
  case False
  then show ?thesis
    using typesD [OF cprintf_loop_types [OF assms(1)] assms(2)] by (auto simp: cprintf_def kern_simps)
next
  case True
  have "\<exists>t. cprintf_loop (map of_char fmt) args (hold LkCons s) = Ok () t \<and> typed out (hold LkCons s) t"
    by (rule typesD [OF cprintf_loop_types [OF assms(1)]]) (simp add: assms(2))
  then obtain u where u: "cprintf_loop (map of_char fmt) args (hold LkCons s) = Ok () (hold LkCons u)" "typed out s u"
    using typed_unhold by blast
  have "release LkCons (hold LkCons u) = Ok () u"
    using True assms(3) typed_views [OF u(2)] by (intro release_hold) auto
  then show ?thesis
    using True assms(3) u by (auto simp: cprintf_def kern_simps acquire_free)
qed

section \<open>The input buffer as a line editor\<close>

interpretation in_ring: ring INPUT_BUF
  by unfold_locales simp_all

text \<open>
  The bytes from \<open>r\<close> to \<open>w\<close> are the lines that can be read, those from \<open>w\<close> to \<open>e\<close> the line being edited, in which there is neither a newline nor a control-D.
\<close>

definition in_ready :: "input \<Rightarrow> uchar list" where
  "in_ready i = ring_list INPUT_BUF (in_buf i) (in_r i) (in_w i)"

definition in_line :: "input \<Rightarrow> uchar list" where
  "in_line i = ring_list INPUT_BUF (in_buf i) (in_w i) (in_e i)"

definition in_ok :: "input \<Rightarrow> bool" where
  "in_ok i = (unat (in_e i - in_r i) = length (in_ready i) + length (in_line i) \<and> unat (in_e i - in_r i) \<le> INPUT_BUF \<and>
     10 \<notin> set (in_line i) \<and> 4 \<notin> set (in_line i))"

text \<open>What a character does to the lines and the line being edited.\<close>

definition edit :: "int \<Rightarrow> uchar list \<times> uchar list \<Rightarrow> uchar list \<times> uchar list" where
  "edit c = (\<lambda>(ready, line).
     if c = 0x10 then (ready, line)
     else if c = 0x15 then (ready, [])
     else if c = 0x08 \<or> c = 0x7F then (ready, butlast line)
     else if c = 0 \<or> INPUT_BUF \<le> length ready + length line then (ready, line)
     else
       let b = (if c = 13 then 10 else of_int c) in
       if b = 10 \<or> b = 4 \<or> length ready + length line = INPUT_BUF - 1 then (ready @ line @ [b], [])
       else (ready, line @ [b]))"

definition in_view :: "input \<Rightarrow> uchar list \<times> uchar list" where
  "in_view i = (in_ready i, in_line i)"

lemma in_ring_cell: "unat (k mod 128 :: uint32) = unat k mod 128"
  by (simp add: unat_mod)

lemma in_put:
  fixes b :: uchar
  assumes "in_ok i" "in_e i - in_r i < 128"
  defines "j \<equiv> i\<lparr>in_buf := (in_buf i)(unat (in_e i mod 128) := b), in_e := in_e i + 1\<rparr>"
  shows "in_ready j = in_ready i" "in_line j = in_line i @ [b]" "unat (in_e j - in_r j) = Suc (unat (in_e i - in_r i))"
proof -
  have lt: "unat (in_e i - in_r i) < 128"
    using assms(2) by (simp add: word_less_nat_alt)
  have le: "unat (in_e i - in_w i) < 128" "unat (in_w i - in_r i) \<le> unat (in_e i - in_r i)"
    using assms(1) lt by (simp_all add: in_ok_def in_line_def in_ready_def)
  show "in_line j = in_line i @ [b]"
    unfolding in_line_def j_def by (simp, rule in_ring.put [OF le(1), simplified]) (simp add: in_ring_cell)
  show "in_ready j = in_ready i"
    unfolding in_ready_def j_def by (simp, rule in_ring.put_keeps [OF lt le(2), simplified]) (simp add: in_ring_cell)
  show "unat (in_e j - in_r j) = Suc (unat (in_e i - in_r i))"
    using lt unat_add_lt [of "in_e i - in_r i" 1] by (simp add: j_def algebra_simps)
qed

lemma in_erase:
  assumes "in_ok i" "in_e i \<noteq> in_w i"
  defines "j \<equiv> i\<lparr>in_e := in_e i - 1\<rparr>"
  shows "in_ok j" "in_ready j = in_ready i" "in_line j = butlast (in_line i)" "unat (in_e i - in_w i) = Suc (unat (in_e j - in_w j))"
    "in_at i (in_e i - 1) \<noteq> 10"
proof -
  have ne: "in_w i \<noteq> in_e i" "in_line i \<noteq> []"
    using assms(2) by (auto simp: in_line_def ring_list_Nil_iff)
  show "in_ready j = in_ready i"
    by (simp add: in_ready_def j_def)
  show l: "in_line j = butlast (in_line i)"
    using in_ring.unput(1) [OF ne(1)] by (simp add: in_line_def j_def)
  show "unat (in_e i - in_w i) = Suc (unat (in_e j - in_w j))"
    using assms(2) unat_dec [of "in_e i - in_w i"] by (simp add: j_def algebra_simps unat_gt_0 Suc_pred)
  have "in_e i \<noteq> in_r i"
    using assms(1) ne(2) by (auto simp: in_ok_def)
  then have d: "unat (in_e i - in_r i) = Suc (unat (in_e j - in_r j))"
    using unat_dec [of "in_e i - in_r i"] by (simp add: j_def algebra_simps unat_gt_0 Suc_pred)
  have "0 < length (in_line i)" "unat (in_e i - in_r i) = length (in_ready i) + length (in_line i)"
    using ne(2) assms(1) by (simp_all add: in_ok_def)
  then have "unat (in_e j - in_r j) = length (in_ready i) + (length (in_line i) - 1)"
    using d by linarith
  then show "in_ok j"
    using assms(1) l d by (auto simp: in_ok_def in_ready_def j_def dest: in_set_butlastD)
  have "last (in_line i) = in_at i (in_e i - 1)"
    using in_ring.unput(2) [OF ne(1)] by (simp add: in_line_def in_at_def in_ring_cell)
  then show "in_at i (in_e i - 1) \<noteq> 10"
    using assms(1) last_in_set [OF ne(2)] by (auto simp: in_ok_def)
qed

lemma in_commit:
  assumes "unat (in_e i - in_r i) = length (in_ready i) + length (in_line i)" "unat (in_e i - in_r i) \<le> 128"
  defines "j \<equiv> i\<lparr>in_w := in_e i\<rparr>"
  shows "in_ok j" "in_ready j = in_ready i @ in_line i" "in_line j = []"
proof -
  show "in_line j = []"
    by (simp add: in_line_def j_def)
  then show "in_ok j"
    using assms by (simp add: in_ok_def in_ready_def)
  show "in_ready j = in_ready i @ in_line i"
    using in_ring.split [of "in_e i" "in_r i" "in_w i"] assms by (simp add: in_ready_def in_line_def j_def)
qed

text \<open>
  \<open>keyed b s t\<close>: from \<open>s\<close> to \<open>t\<close> only the screen, the output of the serial port and the input buffer have changed, and, if \<open>b\<close> holds, the processes that wait for input have been woken.
\<close>

definition keyed :: "bool \<Rightarrow> 'z con_st_scheme \<Rightarrow> 'z con_st_scheme \<Rightarrow> bool" where
  "keyed b s t = ((\<exists>m r out i. t = (if b then wake ChInput s else s)
       \<lparr>crt := m, crtc := r, uart_out := out, inp := i\<rparr>) \<and>
     screen_ok t)"

lemma wake_con [simp]:
  "crt (wake ch s) = crt s" "crtc (wake ch s) = crtc s" "uart_out (wake ch s) = uart_out s" "uart (wake ch s) = uart s" "panicked (wake ch s) = panicked s"
  "locking (wake ch s) = locking s" "inp (wake ch s) = inp s" "kbd_in (wake ch s) = kbd_in s" "kbd_shift (wake ch s) = kbd_shift s" "uart_in (wake ch s) = uart_in s"
  "wake ch (crt_update f s) = crt_update f (wake ch s)" "wake ch (crtc_update g s) = crtc_update g (wake ch s)" "wake ch (uart_out_update h s) = uart_out_update h (wake ch s)"
  "wake ch (inp_update i s) = inp_update i (wake ch s)" "wake ch (kbd_in_update j s) = kbd_in_update j (wake ch s)"
  "wake ch (kbd_shift_update k s) = kbd_shift_update k (wake ch s)" "wake ch (uart_in_update n s) = uart_in_update n (wake ch s)"
  by (simp_all add: wake_def cong: if_cong)

lemma wake_idem [simp]: "wake ch (wake ch s) = wake ch s"
  by (simp add: wake_def woken_def fun_eq_iff cong: if_cong)

lemma keyedI:
  assumes "t = (if b then wake ChInput s else s)
       \<lparr>crt := m, crtc := r, uart_out := out, inp := i\<rparr>" "screen_ok t"
  shows "keyed b s t"
  unfolding keyed_def using assms by blast

lemma keyed_trans: "keyed b s t \<Longrightarrow> keyed b' t u \<Longrightarrow> keyed (b \<or> b') s u"
  unfolding keyed_def by (elim conjE exE, intro conjI, cases b; cases b'; simp; blast)

lemma typed_keyed:
  assumes "typed a s t" "screen_ok s"
  shows "keyed False s t"
proof -
  from assms(1) obtain m r where t: "t = s\<lparr>crt := m, crtc := r, uart_out := uart_out s @ (if uart s then a else [])\<rparr>"
    by (rule typedE)
  have "t = (if False then wake ChInput s else s)\<lparr>crt := m, crtc := r, uart_out := uart_out s @ (if uart s then a else []),
     inp := inp s\<rparr>"
    by (simp add: t)
  then show ?thesis
    by (rule keyedI) (rule typed_screen [OF assms(1,2)])
qed

lemma keyed_calm: "keyed b s t \<Longrightarrow> calm t = calm s"
  by (cases b) (auto simp: keyed_def)

lemma keyed_ok: "keyed b s t \<Longrightarrow> screen_ok t"
  by (simp add: keyed_def)

lemma keyed_input:
  assumes "screen_ok s"
  shows "keyed False s (upd_input f s)"
proof -
  have "upd_input f s = (if False then wake ChInput s else s)\<lparr>crt := crt s, crtc := crtc s, uart_out := uart_out s,
     inp := f (inp s)\<rparr>"
    by (simp add: upd_input_def)
  then show ?thesis
    by (rule keyedI) (use assms in \<open>simp_all add: upd_input_def screen_ok_def\<close>)
qed

lemma keyed_refl: "screen_ok s \<Longrightarrow> keyed False s s"
  using keyed_input [of s id] by (simp add: upd_input_def)

lemma keyed_wake:
  assumes "screen_ok s"
  shows "keyed True s (wake ChInput s)"
proof -
  have "wake ChInput s = (if True then wake ChInput s else s)\<lparr>crt := crt s, crtc := crtc s, uart_out := uart_out s,
     inp := inp s\<rparr>"
    by (simp add: wake_def)
  then show ?thesis
    by (rule keyedI) (use assms in \<open>simp_all add: screen_ok_def\<close>)
qed

lemma upd_input_hold [simp]: "upd_input f (hold l s) = hold l (upd_input f s)"
  by (simp add: upd_input_def)

lemma inp_upd_input [simp]: "inp (upd_input f s) = f (inp s)" "screen_ok (upd_input f s) = screen_ok s" "calm (upd_input f s) = calm s"
  "lock_free l (upd_input f s) = lock_free l s" "kbd_in (upd_input f s) = kbd_in s" "kbd_shift (upd_input f s) = kbd_shift s" "uart_in (upd_input f s) = uart_in s"
  by (simp_all add: upd_input_def screen_ok_def)

text \<open>Erasing one character.\<close>

lemma erase_step:
  assumes "screen_ok s" "in_ok (inp s)" "in_e (inp s) \<noteq> in_w (inp s)"
  shows "\<exists>t. thn (md (upd_input (\<lambda>i. i\<lparr>in_e := in_e i - 1\<rparr>))) (consputc BACKSPACE) s = Ok () t \<and> keyed False s t \<and>
    in_ok (inp t) \<and> in_ready (inp t) = in_ready (inp s) \<and> in_line (inp t) = butlast (in_line (inp s)) \<and>
    unat (in_e (inp s) - in_w (inp s)) = Suc (unat (in_e (inp t) - in_w (inp t)))"
proof -
  let ?u = "upd_input (\<lambda>i. i\<lparr>in_e := in_e i - 1\<rparr>) s"
  note e = in_erase [OF assms(2,3)]
  obtain t where t: "consputc BACKSPACE ?u = Ok () t" "typed [8, 32, 8] ?u t"
    using consputc_erase [of ?u] assms(1) by auto
  have "keyed (False \<or> False) s t"
    by (rule keyed_trans [OF keyed_input typed_keyed [OF t(2)]]) (use assms(1) in auto)
  then show ?thesis
    using t(1) e typed_views(6) [OF t(2)] by (simp add: kern_simps)
qed

lemma kill_line_spec:
  assumes "screen_ok s" "in_ok (inp s)" "unat (in_e (inp s) - in_w (inp s)) = n"
  shows "\<exists>t. kill_line n s = Ok () t \<and> keyed False s t \<and> in_ok (inp t) \<and> in_view (inp t) = (in_ready (inp s), [])"
  using assms
proof (induction n arbitrary: s)
  case 0
  then have "length (in_line (inp s)) = 0"
    by (simp only: in_line_def length_ring_list)
  with 0 show ?case
    by (simp add: kern_simps keyed_refl in_view_def)
next
  case (Suc n)
  have ne: "in_e (inp s) \<noteq> in_w (inp s)"
    using Suc.prems(3) by auto
  obtain t where t: "thn (md (upd_input (\<lambda>i. i\<lparr>in_e := in_e i - 1\<rparr>))) (consputc BACKSPACE) s = Ok () t" "keyed False s t" "in_ok (inp t)"
      "in_ready (inp t) = in_ready (inp s)" "unat (in_e (inp t) - in_w (inp t)) = n"
    using erase_step [OF Suc.prems(1,2) ne] Suc.prems(3) by auto
  obtain u where u: "kill_line n t = Ok () u" "keyed False t u" "in_ok (inp u)" "in_view (inp u) = (in_ready (inp s), [])"
    using Suc.IH [OF keyed_ok [OF t(2)] t(3,5)] t(4) by auto
  have "kill_line (Suc n) s = bnd (thn (md (upd_input (\<lambda>i. i\<lparr>in_e := in_e i - 1\<rparr>))) (consputc BACKSPACE)) (\<lambda>_. kill_line n) s"
    using ne in_erase(5) [OF Suc.prems(2) ne] by (simp add: kern_simps split: outcome.splits)
  then show ?case
    using t(1) u keyed_trans [OF t(2) u(2)] by (auto simp: bnd_Ok)
qed

text \<open>A command that prints something, wherever the screen is in order and the lock of the console is free.\<close>

definition cons_free :: "'z con_st_scheme \<Rightarrow> bool" where
  "cons_free s = (screen_ok s \<and> lock_free LkCons s \<and> (calm s \<or> inside s))"

definition prints :: "(unit, 'z con_st_scheme) kern \<Rightarrow> bool" where
  "prints f = (\<forall>s. cons_free s \<longrightarrow> (\<exists>t out. f s = Ok () t \<and> typed out s t))"

lemma cons_free_typed: "typed a s t \<Longrightarrow> cons_free s \<Longrightarrow> cons_free t"
  by (simp add: cons_free_def typed_views typed_screen)

lemma prints_ret: "prints (ret ())"
  by (auto simp: prints_def kern_simps cons_free_def intro: typed_refl)

lemma prints_thn: "prints f \<Longrightarrow> prints g \<Longrightarrow> prints (thn f g)"
  unfolding prints_def by (metis thn_Ok cons_free_typed typed_trans)

lemma prints_whenk: "prints f \<Longrightarrow> prints (whenk b f)"
  by (cases b) (simp_all add: kern_simps prints_ret)

lemma prints_rd: "(\<And>x. prints (f x)) \<Longrightarrow> prints (bnd (rd g) f)"
  by (simp add: prints_def kern_simps)

lemma prints_for_each: "(\<And>x. prints (f x)) \<Longrightarrow> prints (for_each xs f)"
  by (induction xs) (simp_all add: prints_ret prints_thn)

lemma prints_cprintf: "formatted (map of_char fmt) args = Some out \<Longrightarrow> prints (cprintf fmt args)"
  by (auto simp: prints_def cons_free_def dest!: cprintf_typed)

lemma procdump_prints: "prints procdump"
  unfolding procdump_def
  by (intro prints_for_each prints_rd prints_whenk prints_thn prints_cprintf) simp_all

lemma keyed_typed:
  assumes "keyed b s t" "typed a t u"
  shows "keyed b s u"
  using keyed_trans [OF assms(1) typed_keyed [OF assms(2)]] keyed_ok [OF assms(1)] by simp

text \<open>The handler of one character is the editor; when it makes a line readable, it wakes the readers.\<close>

lemma of_int_uchar:
  assumes "0 \<le> c" "c < 256"
  shows "(of_int c :: uchar) = 10 \<longleftrightarrow> c = 10" "(of_int c :: uchar) = 4 \<longleftrightarrow> c = 4"
proof -
  have "(of_int c :: uchar) = of_int n \<longleftrightarrow> c = n" if "0 \<le> n" "n < 256" for n
    using assms that by (simp add: word_of_int_eq_iff take_bit_int_eq_self)
  from this [of 10] this [of 4] show "(of_int c :: uchar) = 10 \<longleftrightarrow> c = 10" "(of_int c :: uchar) = 4 \<longleftrightarrow> c = 4"
    by simp_all
qed

lemma consoleintr_char_store:
  assumes "cons_free s" "lock_free LkPtable s" "in_ok (inp s)" "0 < c" "c < 256" "c \<notin> {0x08, 0x10, 0x15, 0x7F}"
    "in_e (inp s) - in_r (inp s) < 128"
  shows "\<exists>b t. consoleintr_char c s = Ok () t \<and> keyed b s t \<and> in_ok (inp t) \<and> in_view (inp t) = edit c (in_view (inp s)) \<and>
    (b \<or> in_ready (inp t) = in_ready (inp s))"
proof -
  define c' where "c' = (if c = 13 then 10 else c)"
  define u where "u = upd_input (\<lambda>i. i\<lparr>in_buf := (in_buf i)(unat (in_e i mod 128) := of_int c'), in_e := in_e i + 1\<rparr>) s"
  let ?n = "length (in_ready (inp s)) + length (in_line (inp s))"
  have c': "0 \<le> c'" "c' < 256"
    using assms(4,5) by (auto simp: c'_def)
  have p: "in_ready (inp u) = in_ready (inp s)" "in_line (inp u) = in_line (inp s) @ [of_int c']" "unat (in_e (inp u) - in_r (inp u)) = Suc ?n"
    using in_put [OF assms(3,7), of "of_int c'"] assms(3) unfolding u_def in_ok_def by simp_all
  have su: "screen_ok u" and k: "keyed False s u"
    using assms(1) keyed_input by (auto simp: u_def cons_free_def)
  obtain v where v: "consputc c' u = Ok () v" "typed [of_int c'] u v"
    using consputc_char [OF su, of c'] c' by force
  have kv: "keyed False s v" and iv: "inp v = inp u" and sv: "screen_ok v" and fv: "lock_free LkPtable v" "calm v \<or> inside v"
    using keyed_typed [OF k v(2)] typed_views [OF v(2)] typed_screen [OF v(2) su] assms(1,2) by (simp_all add: u_def cons_free_def upd_input_def)
  let ?full = "in_e (inp v) = in_r (inp v) + 128"
  have n: "?n < 128"
    using assms(3,7) by (simp add: in_ok_def word_less_nat_alt)
  have full: "?full \<longleftrightarrow> ?n = 127"
    using p(3) in_ring.full_iff [of "in_e (inp u)" "in_r (inp u)"] by (auto simp: iv)
  have run: "consoleintr_char c s = (if c' = 10 \<or> c' = 4 \<or> ?full then wakeup ChInput (upd_input (\<lambda>i. i\<lparr>in_w := in_e i\<rparr>) v) else Ok () v)"
    using assms(4-7) v(1) by (simp add: consoleintr_char_def kern_simps c'_def [symmetric] u_def [symmetric] Let_def)
  have edit: "edit c (in_view (inp s)) = (if c' = 10 \<or> c' = 4 \<or> ?full then (in_ready (inp s) @ in_line (inp s) @ [of_int c'], []) else (in_ready (inp s), in_line (inp s) @ [of_int c']))"
    using assms(4,6) n of_int_uchar [OF c'] by (cases "c = 13") (simp_all add: edit_def in_view_def full c'_def Let_def)
  show ?thesis
  proof (cases "c' = 10 \<or> c' = 4 \<or> ?full")
    case True
    let ?w = "upd_input (\<lambda>i. i\<lparr>in_w := in_e i\<rparr>) v"
    have "wakeup ChInput ?w = Ok () (wake ChInput ?w)"
      unfolding wake_def by (rule wakeup_eq) (use fv in \<open>simp_all add: upd_input_def\<close>)
    moreover have "keyed True s (wake ChInput ?w)"
      using keyed_trans [OF keyed_trans [OF kv keyed_input [OF sv]] keyed_wake] sv by simp
    moreover have "in_ok (inp ?w)" "in_view (inp ?w) = (in_ready (inp s) @ in_line (inp s) @ [of_int c'], [])"
      using in_commit [of "inp v"] p n by (simp_all add: iv in_view_def)
    ultimately show ?thesis
      using True run edit by auto
  next
    case False
    then have "in_ok (inp v)"
      using p assms(3) n of_int_uchar [OF c'] by (auto simp: in_ok_def iv)
    with False kv show ?thesis
      using run edit p by (auto simp: iv in_view_def)
  qed
qed

lemma consoleintr_char_spec:
  assumes "cons_free s" "lock_free LkPtable s" "in_ok (inp s)" "0 \<le> c" "c < 256"
  shows "\<exists>b t. consoleintr_char c s = Ok () t \<and> keyed b s t \<and> in_ok (inp t) \<and> in_view (inp t) = edit c (in_view (inp s)) \<and>
    (b \<or> in_ready (inp t) = in_ready (inp s))"
proof -
  have s: "screen_ok s"
    using assms(1) by (simp add: cons_free_def)
  consider "c = 0x10" | "c = 0x15" | "c = 0x08 \<or> c = 0x7F" "in_e (inp s) = in_w (inp s)" | "c = 0x08 \<or> c = 0x7F" "in_e (inp s) \<noteq> in_w (inp s)"
    | "c \<notin> {0x08, 0x10, 0x15, 0x7F}" "c = 0 \<or> \<not> in_e (inp s) - in_r (inp s) < 128"
    | "c \<notin> {0x08, 0x10, 0x15, 0x7F}" "0 < c" "in_e (inp s) - in_r (inp s) < 128"
    using assms(4) by fastforce
  then show ?thesis
  proof cases
    case 1
    obtain t out where t: "procdump s = Ok () t" "typed out s t"
      using procdump_prints assms(1) unfolding prints_def by blast
    have "consoleintr_char c s = Ok () t" "edit c (in_view (inp s)) = in_view (inp t)"
      using 1 t typed_views(6) [OF t(2)] by (simp_all add: consoleintr_char_def edit_def in_view_def)
    then show ?thesis
      using typed_keyed [OF t(2) s] typed_views(6) [OF t(2)] assms(3) by metis
  next
    case 2
    then have "consoleintr_char c s = kill_line (unat (in_e (inp s) - in_w (inp s))) s" "edit c (in_view (inp s)) = (in_ready (inp s), [])"
      by (simp_all add: consoleintr_char_def edit_def in_view_def kern_simps)
    then show ?thesis
      using kill_line_spec [OF s assms(3) refl] by (metis in_view_def prod.inject)
  next
    case 3
    then have "in_line (inp s) = []" "consoleintr_char c s = Ok () s"
      by (elim disjE; simp add: in_line_def consoleintr_char_def kern_simps)+
    then have "consoleintr_char c s = Ok () s" "edit c (in_view (inp s)) = in_view (inp s)"
      using 3 by (elim disjE; simp add: edit_def in_view_def)+
    then show ?thesis
      using assms(3) keyed_refl [OF s] by metis
  next
    case 4
    then have "consoleintr_char c s = thn (md (upd_input (\<lambda>i. i\<lparr>in_e := in_e i - 1\<rparr>))) (consputc BACKSPACE) s"
        "edit c (in_view (inp s)) = (in_ready (inp s), butlast (in_line (inp s)))"
      by (elim disjE; simp add: consoleintr_char_def edit_def in_view_def kern_simps)+
    then show ?thesis
      using erase_step [OF s assms(3) 4(2)] by (metis in_view_def)
  next
    case 5
    then have "c = 0 \<or> 128 \<le> length (in_ready (inp s)) + length (in_line (inp s))"
      using assms(3) by (auto simp: in_ok_def word_less_nat_alt)
    then have "consoleintr_char c s = Ok () s" "edit c (in_view (inp s)) = in_view (inp s)"
      using 5 by (cases "c = 0"; simp add: consoleintr_char_def edit_def in_view_def kern_simps)+
    then show ?thesis
      using assms(3) keyed_refl [OF s] by metis
  next
    case 6
    then show ?thesis
      using consoleintr_char_store [OF assms(1-3)] assms(5) by blast
  qed
qed

lemma keyed_unhold:
  assumes "keyed b (hold l s) t"
  shows "\<exists>u. t = hold l u \<and> keyed b s u"
proof -
  have "wake ChInput (hold l s) = hold l (wake ChInput s)"
    by (simp add: wake_def cong: if_cong)
  with assms show ?thesis
    unfolding keyed_def by (cases b; simp; metis screen_ok_hold)
qed

section \<open>Devices that deliver characters\<close>

definition upd_dev :: "uchar list \<Rightarrow> uint32 \<Rightarrow> uchar list \<Rightarrow> 'z con_st_scheme \<Rightarrow> 'z con_st_scheme" where
  "upd_dev k sh u s = s\<lparr>kbd_in := k, kbd_shift := sh, uart_in := u\<rparr>"

lemma keyed_dev:
  assumes "keyed b s t"
  shows "keyed b (upd_dev k sh u s) (upd_dev k sh u t)"
proof -
  from assms obtain m r out i where t: "t = (if b then wake ChInput s else s)\<lparr>crt := m, crtc := r, uart_out := out, inp := i\<rparr>" and o: "screen_ok t"
    by (auto simp: keyed_def)
  have "upd_dev k sh u t = (if b then wake ChInput (upd_dev k sh u s) else upd_dev k sh u s)\<lparr>crt := m, crtc := r, uart_out := out, inp := i\<rparr>"
    unfolding t by (simp add: upd_dev_def)
  then show ?thesis
    by (rule keyedI) (use o in \<open>simp add: screen_ok_def upd_dev_def\<close>)
qed

lemma upd_dev_simps [simp]:
  "inp (upd_dev k sh u s) = inp s" "cons_free (upd_dev k sh u s) = cons_free s" "lock_free l (upd_dev k sh u s) = lock_free l s" "calm (upd_dev k sh u s) = calm s"
  "upd_dev k sh u (upd_dev k' sh' u' s) = upd_dev k sh u s" "upd_dev k sh u (hold l s) = hold l (upd_dev k sh u s)" "screen_ok (upd_dev k sh u s) = screen_ok s"
  by (simp_all add: upd_dev_def cons_free_def screen_ok_def calm_def inside_def lock_free_def)

lemma keyed_locks: "keyed b s t \<Longrightarrow> cons_free s \<Longrightarrow> cons_free t" "keyed b s t \<Longrightarrow> lock_free l t = lock_free l s"
  unfolding keyed_def cons_free_def inside_def by (cases b; auto simp: wake_def)+

text \<open>
  What \<^verbatim>\<open>consoleintr\<close> expects of its argument: \<open>chars\<close> are the characters that wait in the device, each call takes one of them and returns it, and
  \<open>-1\<close> says that there is none.  The keyboard and the serial port provide it.
\<close>

locale char_source =
  fixes getc :: "(int, 'z con_st_scheme) kern"
    and chars :: "'z con_st_scheme \<Rightarrow> int list"
  assumes none: "chars s = [] \<Longrightarrow> getc s = Ok (- 1) s"
    and some: "chars s = c # cs \<Longrightarrow> \<exists>k sh u. getc s = Ok c (upd_dev k sh u s) \<and> chars (upd_dev k sh u s) = cs"
    and range: "c \<in> set (chars s) \<Longrightarrow> 0 \<le> c \<and> c < 256"
    and keyed_chars: "keyed b s t \<Longrightarrow> chars t = chars s"
    and hold_chars: "chars (hold l s) = chars s"
begin

lemma loop:
  assumes "length (chars s) < n" "cons_free s" "lock_free LkPtable s" "in_ok (inp s)"
  shows "\<exists>b t k sh u. consoleintr_loop n getc s = Ok () t \<and> chars t = [] \<and> keyed b (upd_dev k sh u s) t \<and> in_ok (inp t) \<and>
    in_view (inp t) = fold edit (chars s) (in_view (inp s)) \<and> (b \<or> in_ready (inp t) = in_ready (inp s))"
  using assms
proof (induction n arbitrary: s)
  case (Suc n)
  have s: "screen_ok s"
    using Suc.prems(2) by (simp add: cons_free_def)
  show ?case
  proof (cases "chars s")
    case Nil
    have "upd_dev (kbd_in s) (kbd_shift s) (uart_in s) s = s"
      by (simp add: upd_dev_def)
    then have "keyed False (upd_dev (kbd_in s) (kbd_shift s) (uart_in s) s) s"
      using keyed_refl [OF s] by simp
    then show ?thesis
      using none [OF Nil] Suc.prems Nil by (auto simp: kern_simps)
  next
    case (Cons c cs)
    from some [OF this] obtain k sh u where d: "getc s = Ok c (upd_dev k sh u s)" "chars (upd_dev k sh u s) = cs"
      by blast
    have c: "0 \<le> c" "c < 256"
      using range [of c s] Cons by auto
    let ?s = "upd_dev k sh u s"
    obtain b t where t: "consoleintr_char c ?s = Ok () t" "keyed b ?s t" "in_ok (inp t)" "in_view (inp t) = edit c (in_view (inp s))"
        "b \<or> in_ready (inp t) = in_ready (inp s)"
      using consoleintr_char_spec [of ?s c] Suc.prems c by auto
    have "length (chars t) < n"
      using Suc.prems(1) Cons keyed_chars [OF t(2)] d(2) by simp
    then obtain b' v k' sh' u' where v: "consoleintr_loop n getc t = Ok () v" "chars v = []" "keyed b' (upd_dev k' sh' u' t) v" "in_ok (inp v)"
        "in_view (inp v) = fold edit (chars t) (in_view (inp t))" "b' \<or> in_ready (inp v) = in_ready (inp t)"
      using Suc.IH [of t] keyed_locks [OF t(2)] Suc.prems t(3) by auto
    have "keyed (b \<or> b') (upd_dev k' sh' u' s) v"
      using keyed_trans [OF keyed_dev [OF t(2), of k' sh' u'] v(3)] by simp
    moreover have "consoleintr_loop (Suc n) getc s = Ok () v"
      using d(1) t(1) v(1) c by (simp add: kern_simps)
    moreover have "in_view (inp v) = fold edit (chars s) (in_view (inp s))"
      using v(5) t(4) Cons keyed_chars [OF t(2)] d(2) by simp
    moreover have "(b \<or> b') \<or> in_ready (inp v) = in_ready (inp s)"
      using t(5) v(6) by auto
    ultimately show ?thesis
      using v(2,4) by metis
  qed
qed simp

lemma intr:
  assumes "calm s" "screen_ok s" "in_ok (inp s)"
  shows "\<exists>b t k sh u. consoleintr (Suc (length (chars s))) getc s = Ok () t \<and> chars t = [] \<and> keyed b (upd_dev k sh u s) t \<and> in_ok (inp t) \<and>
    in_view (inp t) = fold edit (chars s) (in_view (inp s)) \<and> (b \<or> in_ready (inp t) = in_ready (inp s))"
proof -
  let ?h = "hold LkInput s"
  have f: "cons_free ?h" "lock_free LkPtable ?h" "in_ok (inp ?h)" "length (chars ?h) < Suc (length (chars s))"
    using assms by (simp_all add: cons_free_def hold_chars)
  obtain b t k sh u where t: "consoleintr_loop (Suc (length (chars s))) getc ?h = Ok () t" "chars t = []" "keyed b (upd_dev k sh u ?h) t" "in_ok (inp t)"
      "in_view (inp t) = fold edit (chars s) (in_view (inp s))" "b \<or> in_ready (inp t) = in_ready (inp s)"
    using loop [OF f(4,1,2,3)] by (auto simp: hold_chars)
  then obtain v where v: "t = hold LkInput v" "keyed b (upd_dev k sh u s) v"
    using keyed_unhold [of b LkInput "upd_dev k sh u s" t] by auto
  have "calm v"
    using keyed_calm [OF v(2)] assms(1) by simp
  then have "consoleintr (Suc (length (chars s))) getc s = Ok () v"
    using t(1) v(1) assms(1) by (simp add: consoleintr_def kern_simps acquire_free release_hold del: consoleintr_loop.simps)
  then show ?thesis
    using t(2,4,5,6) v by (auto simp: hold_chars)
qed

end

text \<open>The characters of the scan codes that wait in the keyboard controller, and of the bytes at the serial port.\<close>

fun kbd_codes :: "uint32 \<Rightarrow> uchar list \<Rightarrow> int list" where
  "kbd_codes shift [] = []"
| "kbd_codes shift (d # ds) = snd (kbd_decode shift d) # kbd_codes (fst (kbd_decode shift d)) ds"

definition kbd_chars :: "'z con_st_scheme \<Rightarrow> int list" where
  "kbd_chars s = kbd_codes (kbd_shift s) (kbd_in s)"

definition uart_chars :: "'z con_st_scheme \<Rightarrow> int list" where
  "uart_chars s = (if uart s then map uint (uart_in s) else [])"

lemma kbd_decode_range: "0 \<le> snd (kbd_decode sh d) \<and> snd (kbd_decode sh d) < 256"
proof -
  have "uint (x :: uchar) < 256" for x
    using uint_bounded [of x] by simp
  then show ?thesis
    by (auto simp: kbd_decode_def Let_def)
qed

lemma kbd_codes_range: "c \<in> set (kbd_codes sh ds) \<Longrightarrow> 0 \<le> c \<and> c < 256"
  by (induction sh ds rule: kbd_codes.induct) (auto simp: kbd_decode_range)

lemma keyed_views:
  assumes "keyed b s t"
  shows "kbd_in t = kbd_in s" "kbd_shift t = kbd_shift s" "uart_in t = uart_in s" "uart t = uart s" "ptable t = ptable (if b then wake ChInput s else s)"
  using assms by (cases b; auto simp: keyed_def)+

interpretation kbd_source: char_source kbdgetc kbd_chars
proof
  fix s :: "'z con_st_scheme" and c cs
  show "kbdgetc s = Ok (- 1) s" if "kbd_chars s = []"
    using that by (cases "kbd_in s") (simp_all add: kbd_chars_def kbdgetc_def kern_simps)
  show "\<exists>k sh u. kbdgetc s = Ok c (upd_dev k sh u s) \<and> kbd_chars (upd_dev k sh u s) = cs" if q: "kbd_chars s = c # cs"
  proof -
    obtain d ds where d: "kbd_in s = d # ds"
      using q by (cases "kbd_in s") (auto simp: kbd_chars_def)
    let ?u = "upd_dev ds (fst (kbd_decode (kbd_shift s) d)) (uart_in s) s"
    have "kbdgetc s = Ok c ?u" "kbd_chars ?u = cs"
      using q by (simp_all add: d kbd_chars_def kbdgetc_def upd_dev_def kern_simps split_beta)
    then show ?thesis
      by blast
  qed
  show "0 \<le> c \<and> c < 256" if "c \<in> set (kbd_chars s)"
    using that kbd_codes_range by (simp add: kbd_chars_def)
qed (simp_all add: kbd_chars_def keyed_views)

interpretation uart_source: char_source uartgetc uart_chars
proof
  fix s :: "'z con_st_scheme" and c cs
  show "uartgetc s = Ok (- 1) s" if "uart_chars s = []"
    using that by (cases "uart_in s") (auto simp: uart_chars_def uartgetc_def kern_simps)
  show "\<exists>k sh u. uartgetc s = Ok c (upd_dev k sh u s) \<and> uart_chars (upd_dev k sh u s) = cs" if q: "uart_chars s = c # cs"
  proof -
    obtain d ds where d: "uart s" "uart_in s = d # ds" "c = uint d" "cs = map uint ds"
      using q by (cases "uart_in s") (auto simp: uart_chars_def split: if_splits)
    let ?u = "upd_dev (kbd_in s) (kbd_shift s) ds s"
    have "uartgetc s = Ok c ?u" "uart_chars ?u = cs"
      by (simp_all add: d uart_chars_def uartgetc_def upd_dev_def kern_simps)
    then show ?thesis
      by blast
  qed
  show "0 \<le> c \<and> c < 256" if "c \<in> set (uart_chars s)"
  proof -
    have "uint (x :: uchar) < 256" for x
      using uint_bounded [of x] by simp
    then show ?thesis
      using that by (auto simp: uart_chars_def split: if_splits)
  qed
qed (simp_all add: uart_chars_def keyed_views)

section \<open>Reading lines\<close>

text \<open>
  What a read of at most \<open>n\<close> bytes takes from the readable bytes, and what it leaves; \<open>None\<close> if it has to wait.  It ends at a newline, which is
  read, and at a control-D, which is dropped if it is the first byte and otherwise left for the next read.
\<close>

fun read_line :: "bool \<Rightarrow> nat \<Rightarrow> uchar list \<Rightarrow> (uchar list \<times> uchar list) option" where
  "read_line fst_byte 0 q = Some ([], q)"
| "read_line fst_byte (Suc n) [] = None"
| "read_line fst_byte (Suc n) (c # q) =
     (if c = 4 then Some ([], if fst_byte then q else c # q)
      else if c = 10 then Some ([c], q)
      else map_option (\<lambda>(bs, rest). (c # bs, rest)) (read_line False n q))"

definition set_r :: "uint32 \<Rightarrow> 'z con_st_scheme \<Rightarrow> 'z con_st_scheme" where
  "set_r x = upd_input (\<lambda>i. i\<lparr>in_r := x\<rparr>)"

lemma set_r_simps [simp]:
  "set_r x (hold l s) = hold l (set_r x s)" "calm (set_r x s) = calm s" "set_r x (set_r y s) = set_r x s" "inp (set_r x s) = (inp s)\<lparr>in_r := x\<rparr>"
  "icache (set_r x s) = icache s" "curproc (set_r x s) = curproc s" "ptable (set_r x s) = ptable s"
  by (simp_all add: set_r_def upd_input_def curproc_def)

lemma in_ready_next:
  assumes "in_r i \<noteq> in_w i"
  shows "in_ready i = in_at i (in_r i) # in_ready (i\<lparr>in_r := in_r i + 1\<rparr>)"
  using in_ring.get [OF assms] by (simp add: in_ready_def in_at_def in_ring_cell)

text \<open>The outcome of the loop: the bytes of the line, or a process that sleeps until there is input.\<close>

definition read_outcome :: "nat \<Rightarrow> nat \<Rightarrow> int \<Rightarrow> nat \<Rightarrow> 'z con_st_scheme \<Rightarrow> (int \<times> uchar list, 'z con_st_scheme) outcome \<Rightarrow> bool" where
  "read_outcome ip n target p s r = (case read_line (int n = target) n (in_ready (inp s)) of
       Some (bs, rest) \<Rightarrow> \<exists>x. r = thn (ilock ip) (ret (target - int n + int (length bs), bs)) (set_r x s) \<and> in_ready (inp (set_r x s)) = rest
     | None \<Rightarrow> curproc s = Some p \<and> \<not> p_killed (ptable s p) \<longrightarrow>
         (\<exists>x. r = Switch (Some ChInput) (hold LkPtable (upd_proc p (\<lambda>q. q\<lparr>p_chan := Some ChInput, p_state := SLEEPING\<rparr>) (set_r x s)))))"

lemma set_r_same: "set_r (in_r (inp s)) s = s"
  by (simp add: set_r_def upd_input_def)

lemma set_r_next: "upd_input (\<lambda>i. i\<lparr>in_r := in_r i + 1\<rparr>) s = set_r (in_r (inp s) + 1) s" "upd_input (\<lambda>i. i\<lparr>in_r := in_r i - 1\<rparr>) s = set_r (in_r (inp s) - 1) s"
  by (simp_all add: set_r_def upd_input_def)

lemma consoleread_loop_spec:
  assumes "calm s" "int n \<le> target"
  shows "read_outcome ip n target p s (consoleread_loop ip n target (hold LkInput s))"
  using assms
proof (induction n arbitrary: s)
  case 0
  then show ?case
    using set_r_same [of s] by (auto simp: read_outcome_def kern_simps release_hold intro!: exI [of _ "in_r (inp s)"] cong: outcome.case_cong)
next
  case (Suc n)
  show ?case
  proof (cases "in_r (inp s) = in_w (inp s)")
    case True
    then have "in_ready (inp s) = []"
      by (simp add: in_ready_def)
    then show ?thesis
      using True Suc.prems set_r_same [of s] sleep_eq [OF Suc.prems(1), of p ChInput LkInput]
      by (auto simp: read_outcome_def kern_simps with_proc_def intro!: exI [of _ "in_r (inp s)"])
  next
    case False
    let ?c = "in_at (inp s) (in_r (inp s))" and ?t = "set_r (in_r (inp s) + 1) s"
    have q: "in_ready (inp s) = ?c # in_ready (inp ?t)"
      using in_ready_next [OF False] by simp
    consider "?c = 4" | "?c = 10" | "?c \<noteq> 4" "?c \<noteq> 10"
      by blast
    then show ?thesis
    proof cases
      case 1
      let ?x = "if int (Suc n) = target then in_r (inp s) + 1 else in_r (inp s)"
      have "consoleread_loop ip (Suc n) target (hold LkInput s) = thn (ilock ip) (ret (target - int (Suc n), [])) (set_r ?x s)"
        using 1 False Suc.prems by (auto simp: kern_simps set_r_next release_hold Let_def cong: outcome.case_cong)
      moreover have "in_ready (inp (set_r ?x s)) = (if int (Suc n) = target then in_ready (inp ?t) else 4 # in_ready (inp ?t))"
        using q 1 set_r_same [of s] by auto
      ultimately show ?thesis
        unfolding read_outcome_def q using 1 by (auto intro!: exI [of _ ?x])
    next
      case 2
      then show ?thesis
        unfolding read_outcome_def q using False Suc.prems
        by (auto simp: kern_simps set_r_next release_hold Let_def intro!: exI [of _ "in_r (inp s) + 1"] cong: outcome.case_cong)
    next
      case 3
      then have e: "consoleread_loop ip (Suc n) target (hold LkInput s) = bnd (consoleread_loop ip n target) (\<lambda>(r, bs). ret (r, ?c # bs)) (hold LkInput ?t)"
        using False by (simp add: kern_simps set_r_next Let_def)
      have o: "read_outcome ip n target p ?t (consoleread_loop ip n target (hold LkInput ?t))" and nt: "int n \<noteq> target"
        using Suc.IH [of ?t] Suc.prems by simp_all
      show ?thesis
      proof (cases "read_line False n (in_ready (inp ?t))")
        case None
        then show ?thesis
          unfolding e read_outcome_def q using o nt 3 by (fastforce simp: read_outcome_def kern_simps)
      next
        case (Some a)
        then obtain bs rest where "a = (bs, rest)"
          by fastforce
        with Some obtain x where "consoleread_loop ip n target (hold LkInput ?t) = thn (ilock ip) (ret (target - int n + int (length bs), bs)) (set_r x s)"
            "in_ready (inp (set_r x s)) = rest"
          using o nt by (auto simp: read_outcome_def)
        then show ?thesis
          unfolding e read_outcome_def q using nt 3 Some \<open>a = _\<close>
          by (auto simp: kern_simps intro!: exI [of _ x] split: outcome.splits)
      qed
    qed
  qed
qed

lemma keyed_icache: "keyed b s t \<Longrightarrow> icache t = icache s" "icache (upd_dev k sh u s) = icache s"
  by (cases b; auto simp: keyed_def upd_dev_def)+

lemma consoleread_spec:
  assumes "calm s" "i_flags (icache s ip) AND I_BUSY \<noteq> 0" "i_flags (icache s ip) AND I_VALID \<noteq> 0" "1 \<le> i_ref (icache s ip)"
    "read_line True (nat (sint n)) (in_ready (inp s)) = Some (bs, rest)"
  shows "\<exists>t. consoleread ip off n s = Ok (int (length bs), bs) t \<and> in_ready (inp t) = rest \<and> calm t \<and> icache t = icache s"
proof -
  let ?u = "wake (ChInode ip) (upd_inode ip (\<lambda>i. i\<lparr>i_flags := i_flags i AND NOT I_BUSY\<rparr>) s)" and ?n = "nat (sint n)"
  have u: "calm ?u" "inp ?u = inp s" "lock_free LkInput ?u"
    using assms(1) by (simp_all add: upd_inode_def)
  have "read_outcome ip ?n (int ?n) 0 ?u (consoleread_loop ip ?n (int ?n) (hold LkInput ?u))"
    by (rule consoleread_loop_spec [OF u(1)]) simp
  then obtain x where x: "consoleread_loop ip ?n (int ?n) (hold LkInput ?u) = thn (ilock ip) (ret (int (length bs), bs)) (set_r x ?u)"
      "in_ready (inp (set_r x ?u)) = rest"
    using assms(5) u(2) by (auto simp: read_outcome_def)
  have "ilock ip (set_r x ?u) = Ok () (upd_inode ip (\<lambda>i. i\<lparr>i_flags := i_flags i OR I_BUSY\<rparr>) (set_r x ?u))"
    by (rule ilock_valid) (use assms u(1) iflag_bits in simp_all)
  moreover have "consoleread ip off n s = consoleread_loop ip ?n (int ?n) (hold LkInput ?u)"
    using iunlock_eq [OF assms(1,2,4)] u(3) by (simp add: consoleread_def kern_simps acquire_free int_nat_eq cong: if_cong)
  moreover have "(i_flags (icache s ip) AND NOT I_BUSY) OR I_BUSY = i_flags (icache s ip)"
    using assms(2) iflag_bits flag_busy by simp
  ultimately show ?thesis
    using x u(1) by (auto simp: kern_simps upd_inode_def fun_upd_idem)
qed

lemma printable:
  assumes "32 \<le> (c :: uchar)" "c < 127"
  shows "32 \<le> uint c" "uint c < 127" "c \<noteq> 4" "c \<noteq> 10"
proof -
  show u: "32 \<le> uint c" "uint c < 127"
    using assms by (simp_all add: word_le_def word_less_def)
  show "c \<noteq> 4" "c \<noteq> 10"
    using u by auto
qed

lemma edit_char:
  assumes "32 \<le> c" "c < 127" "length ready + length line < 127"
  shows "edit (uint c) (ready, line) = (ready, line @ [c])"
  using printable [OF assms(1,2)] assms(3) by (simp add: edit_def)

lemma edit_line:
  assumes "\<forall>c \<in> set cs. 32 \<le> c \<and> c < 127" "length ready + length line + length cs \<le> 127"
  shows "fold edit (map uint cs) (ready, line) = (ready, line @ cs)"
  using assms by (induction cs arbitrary: line) (simp_all add: edit_char)

lemma read_line_line:
  assumes "\<forall>c \<in> set cs. 32 \<le> c \<and> c < 127" "length cs < n"
  shows "read_line b n (cs @ [10]) = Some (cs @ [10], [])"
  using assms
proof (induction cs arbitrary: b n)
  case Nil
  then show ?case
    by (cases n) simp_all
next
  case (Cons c cs)
  then show ?case
    using printable [of c] by (cases n) simp_all
qed

section \<open>Properties\<close>

text \<open>
  C36 (formatted output).  For a format whose directives match the arguments, \<^verbatim>\<open>cprintf\<close> returns; it never writes past the end of its buffer of digits.  What it
  sends to the serial port is the text the format stands for, with numbers in decimal, with a sign, for \<^verbatim>\<open>%d\<close> and in hexadecimal for \<^verbatim>\<open>%x\<close>, up to
  the least integer; the cursor stays above the last line of the screen and nothing but the screen and the port changes.
\<close>

theorem cprintf_output:
  assumes "formatted (map of_char fmt) args = Some out" "calm s" "screen_ok s"
  shows "\<exists>t m r. cprintf fmt args s = Ok () t \<and> screen_ok t \<and>
    t = s\<lparr>crt := m, crtc := r, uart_out := uart_out s @ (if uart s then out else [])\<rparr>"
proof -
  obtain t where "cprintf fmt args s = Ok () t" "typed out s t"
    using cprintf_typed [OF assms(1,3)] assms(2) by auto
  then show ?thesis
    using typed_screen [of out s t] assms(3) unfolding typed_def by blast
qed

text \<open>
  C10 (keyboard interrupts).  The handler of the keyboard interrupt returns after it has taken every scan code from the controller.  The input buffer is then what a
  line editor makes of the characters typed, with erase and kill, never more than 128 bytes; as soon as bytes become readable, no
  process is left waiting for input.
\<close>

theorem keyboard_input:
  assumes "calm s" "screen_ok s" "in_ok (inp s)"
  shows "\<exists>t. kbdintr s = Ok () t \<and> kbd_in t = [] \<and> calm t \<and> screen_ok t \<and> in_ok (inp t) \<and>
    (in_ready (inp t), in_line (inp t)) = fold edit (kbd_codes (kbd_shift s) (kbd_in s)) (in_ready (inp s), in_line (inp s)) \<and>
    (in_ready (inp t) \<noteq> in_ready (inp s) \<longrightarrow> (\<forall>p < NPROC. \<not> (p_state (ptable t p) = SLEEPING \<and> p_chan (ptable t p) = Some ChInput)))"
proof -
  have len: "length (kbd_codes sh ds) = length ds" for sh ds
    by (induction sh ds rule: kbd_codes.induct) simp_all
  obtain b t k sh u where t: "kbdintr s = Ok () t" "kbd_chars t = []" "keyed b (upd_dev k sh u s) t" "in_ok (inp t)"
      "in_view (inp t) = fold edit (kbd_chars s) (in_view (inp s))" "b \<or> in_ready (inp t) = in_ready (inp s)"
    using kbd_source.intr [OF assms] by (auto simp: kbdintr_def kern_simps kbd_chars_def len)
  have "kbd_in t = []"
    using t(2) by (cases "kbd_in t") (simp_all add: kbd_chars_def)
  moreover have "\<not> (p_state (ptable t p) = SLEEPING \<and> p_chan (ptable t p) = Some ChInput)" if b and p: "p < NPROC" for p
    using keyed_views(5) [OF t(3)] p \<open>b\<close> by (auto simp: wake_def woken_def)
  ultimately show ?thesis
    using t keyed_calm [OF t(3)] keyed_ok [OF t(3)] assms(1) by (auto simp: in_view_def kbd_chars_def)
qed

text \<open>
  C37 (a line from the serial port to the reader).  A line of printable characters ended by a carriage return that arrives at the serial port with
  an empty input buffer is what \<^verbatim>\<open>consoleread\<close> then returns, with a newline at its end, if the line fits into the buffer and the reader has room for it.
\<close>

theorem serial_line_read:
  assumes "calm s" "screen_ok s" "in_ok (inp s)" "in_ready (inp s) = []" "in_line (inp s) = []"
    and "uart s" "uart_in s = cs @ [13]" "\<forall>c \<in> set cs. 32 \<le> c \<and> c < 127" "length cs < INPUT_BUF" "int (length cs) < sint n"
    and "i_flags (icache s ip) AND I_BUSY \<noteq> 0" "i_flags (icache s ip) AND I_VALID \<noteq> 0" "1 \<le> i_ref (icache s ip)"
  shows "\<exists>t u. uartintr s = Ok () t \<and> consoleread ip off n t = Ok (int (length cs) + 1, cs @ [10]) u \<and> in_ready (inp u) = [] \<and> calm u"
proof -
  have c: "uart_chars s = map uint cs @ [13]"
    using assms(6,7) by (simp add: uart_chars_def)
  have l: "length (uart_chars s) = length (uart_in s)"
    using assms(6) by (simp add: uart_chars_def)
  obtain b t k sh u where t: "uartintr s = Ok () t" "keyed b (upd_dev k sh u s) t" "in_view (inp t) = fold edit (uart_chars s) (in_view (inp s))"
    using uart_source.intr [OF assms(1-3)] by (auto simp: uartintr_def kern_simps l)
  have "fold edit (map uint cs @ [13]) ([], []) = (cs @ [10], [])"
    using edit_line [OF assms(8), of "[]" "[]"] assms(9) by (simp add: edit_def)
  then have "in_ready (inp t) = cs @ [10]"
    using t(3) c assms(4,5) by (simp add: in_view_def)
  moreover have "length cs < nat (sint n)"
    using assms(10) by simp
  ultimately have "read_line True (nat (sint n)) (in_ready (inp t)) = Some (cs @ [10], [])"
    using read_line_line [OF assms(8)] by simp
  moreover have "calm t" "icache t = icache s"
    using keyed_calm [OF t(2)] keyed_icache(1) [OF t(2)] keyed_icache(2) [of k sh u s] assms(1) by simp_all
  ultimately show ?thesis
    using consoleread_spec [of t ip n "cs @ [10]" "[]" off] assms(11-13) t(1) by auto
qed

section \<open>Witnesses\<close>

text \<open>A booted kernel with an empty input buffer, the inode 5 of the console locked, and given bytes waiting at the serial port and the keyboard.\<close>

definition con_demo :: "uchar list \<Rightarrow> uchar list \<Rightarrow> con_st" where
  "con_demo u k = sys_st.extend (file_st.extend (file_boot\<lparr>icache := (\<lambda>_. no_inode)(5 := no_inode\<lparr>i_flags := 3, i_ref := 1\<rparr>)\<rparr>) (sys_st.fields 0 False))
     (con_st.fields False True (\<lambda>_. 0) (\<lambda>_. 0) True [] u k 0 \<lparr>in_buf = (\<lambda>_. 0), in_r = 0, in_w = 0, in_e = 0\<rparr>)"

lemma con_demo_facts:
  "calm (con_demo u k)" "screen_ok (con_demo u k)" "in_ok (inp (con_demo u k))" "in_ready (inp (con_demo u k)) = []" "in_line (inp (con_demo u k)) = []"
  "uart (con_demo u k)" "uart_in (con_demo u k) = u" "kbd_in (con_demo u k) = k" "kbd_shift (con_demo u k) = 0" "uart_out (con_demo u k) = []"
  "icache (con_demo u k) 5 = no_inode\<lparr>i_flags := 3, i_ref := 1\<rparr>"
  using file_boot_facts(1)
  by (simp_all add: con_demo_def sys_st.extend_def file_st.extend_def sys_st.fields_def con_st.fields_def calm_def lock_free_def screen_ok_def cursor_eq
      in_ok_def in_ready_def in_line_def)

theorem cprintf_output_witness:
  "\<exists>t. cprintf ''cpu%d: %x'' [CInt (- 7), CInt 255] (con_demo [] []) = Ok () t \<and> uart_out t = map of_char ''cpu-7: ff''"
proof -
  have "formatted (map of_char ''cpu%d: %x'') [CInt (- 7), CInt 255] = Some (map of_char ''cpu-7: ff'')"
    by (simp add: decimal_text_def radix.simps hexdigit_def)
  from cprintf_output [OF this con_demo_facts(1,2) [of "[]" "[]"]] show ?thesis
    by (auto simp: con_demo_facts)
qed

theorem keyboard_input_witness:
  "\<exists>t. kbdintr (con_demo [] [0x23, 0x17, 0x1C]) = Ok () t \<and> in_ready (inp t) = map of_char ''hi'' @ [10]"
proof -
  have "fold edit (kbd_codes 0 [0x23, 0x17, 0x1C]) ([], []) = (map of_char ''hi'' @ [10], [])"
    by code_simp
  then show ?thesis
    using keyboard_input [OF con_demo_facts(1-3), of "[]" "[0x23, 0x17, 0x1C]"] by (auto simp: con_demo_facts)
qed

theorem serial_line_read_witness:
  "\<exists>t u. uartintr (con_demo (map of_char ''ls'' @ [13]) []) = Ok () t \<and> consoleread 5 0 100 t = Ok (3, map of_char ''ls'' @ [10]) u"
  using serial_line_read [OF con_demo_facts(1-6), of "map of_char ''ls'' @ [13]" "[]" "map of_char ''ls''" 100 5 0] by (simp add: con_demo_facts) blast

end
