(* ===== verification/Procfs.thy ===== *)
theory Procfs
  imports Console
begin

text \<open>
  The file system \<^verbatim>\<open>/proc\<close> (\<^verbatim>\<open>src/procfs.c\<close>), a device whose reads build their content from the tables of the kernel.  The buffer on the stack
  is a list of bytes; a write past its end, a read of bytes nobody wrote, an index outside of a table and a null or stale pointer are faults.
\<close>

record procfs_st = con_st +
  currentInode :: uint32

abbreviation (input) DIRENTSZ :: nat where "DIRENTSZ \<equiv> 16"
abbreviation (input) BUFFSIZE :: nat where "BUFFSIZE \<equiv> (2 + NPROC) * DIRENTSZ"
abbreviation (input) ROOTINO' :: ushort where "ROOTINO' \<equiv> 1"

text \<open>The string \<^verbatim>\<open>itoa\<close> writes.\<close>

definition itoa_str :: "int \<Rightarrow> uchar list option" where
  "itoa_str x = (case itoa (\<lambda>_. 0) x 0 of
       None \<Rightarrow> None
     | Some m \<Rightarrow> map_option (\<lambda>n. read_bytes m 0 n) (strlen m 0))"

definition itoa_to :: "int \<Rightarrow> (uchar list, 's) kern" where
  "itoa_to x = (case itoa_str x of None \<Rightarrow> fault ''itoa'' | Some ds \<Rightarrow> ret ds)"

definition str :: "string \<Rightarrow> uchar list" where
  "str s = map of_char s"

definition entry :: "ushort \<Rightarrow> string \<Rightarrow> dirent" where
  "entry inum name = \<lparr>de_inum = inum, de_name = strncpy_list DIRSIZ (str name)\<rparr>"

text \<open>\<^verbatim>\<open>itoa(x, de.name)\<close> leaves the bytes of the name after the terminating zero as they were.\<close>

definition number_entry :: "ushort \<Rightarrow> int \<Rightarrow> dirent \<Rightarrow> (dirent, 's) kern" where
  "number_entry inum x de =
     bnd (itoa_to x) (\<lambda>ds.
     ret \<lparr>de_inum = inum, de_name = splice 0 (ds @ [0]) (de_name de)\<rparr>)"

section \<open>Directories\<close>

text \<open>The loop over the processes; \<open>de\<close> is the variable of that name.\<close>

fun initProc_loop :: "nat list \<Rightarrow> dirent \<Rightarrow> uchar list \<Rightarrow> (uchar list, 'z procfs_st_scheme) kern" where
  "initProc_loop [] de buf = ret buf"
| "initProc_loop (p # ps) de buf =
     bnd (rd (\<lambda>s. ptable s p)) (\<lambda>q.
     if p_state q = UNUSED then initProc_loop ps de buf
     else
       bnd (number_entry (ucast (700 * p_pid q)) (sint (p_pid q)) de) (\<lambda>de'.
       if length buf + DIRENTSZ > BUFFSIZE then fault ''buf overflow''
       else initProc_loop ps de' (buf @ put_dirent de')))"

definition initProc :: "nat \<Rightarrow> (int \<times> uchar list, 'z procfs_st_scheme) kern" where
  "initProc ip =
     bnd (rd (\<lambda>s. i_inum (icache s ip))) (\<lambda>inum.
     let buf = concat (map put_dirent
       [entry (ucast inum) ''.'', entry ROOTINO' ''..'', entry 660 ''blockstat'', entry 670 ''inodestat'']) in
     thn (acquire LkPtable) (
     bnd (initProc_loop [0..<NPROC] (entry 670 ''inodestat'') buf) (\<lambda>buf.
     thn (release LkPtable) (
     ret (int (length buf), buf)))))"

text \<open>The result is the size of five entries also when the last one is not written.\<close>

definition initPID :: "uint32 \<Rightarrow> (int \<times> uchar list, 'z procfs_st_scheme) kern" where
  "initPID inum =
     bnd (rd currentInode) (\<lambda>ci.
     bnd (getProcByPID (inum div 700)) (\<lambda>p.
     bnd (rd (\<lambda>s. map_option (\<lambda>c. i_inum (icache s c)) (p_cwd (ptable s p)))) (\<lambda>cwd.
     let buf = concat (map put_dirent
       ([entry (ucast inum) ''.'', entry (ucast ci) ''..'', entry (ucast (10 + inum)) ''status'', entry (ucast (20 + inum)) ''fdinfo''] @
        (case cwd of None \<Rightarrow> [] | Some c \<Rightarrow> [entry (ucast c) ''cwd'']))) in
     ret (80, buf))))"

fun fdinfo_loop :: "uint32 \<Rightarrow> nat \<Rightarrow> nat list \<Rightarrow> dirent \<Rightarrow> uchar list \<Rightarrow> (uchar list, 'z procfs_st_scheme) kern" where
  "fdinfo_loop pid p [] de buf = ret buf"
| "fdinfo_loop pid p (i # is) de buf =
     bnd (rd (\<lambda>s. p_ofile (ptable s p) i)) (\<lambda>f.
     if f = None then fdinfo_loop pid p is de buf
     else
       bnd (number_entry (ucast (pid + of_nat i + 1)) (int i) de) (\<lambda>de'.
       fdinfo_loop pid p is de' (buf @ put_dirent de')))"

text \<open>\<^verbatim>\<open>getProc(pid / 700)\<close>, which indexes the process table.\<close>

definition proc_slot :: "uint32 \<Rightarrow> (nat, 's) kern" where
  "proc_slot pid = (if unat pid div 700 < NPROC then ret (getProc (unat pid div 700)) else fault ''ptable index'')"

definition fdinfo :: "uint32 \<Rightarrow> (int \<times> uchar list, 'z procfs_st_scheme) kern" where
  "fdinfo pid =
     bnd (proc_slot pid) (\<lambda>p.
     let buf = concat (map put_dirent [entry (ucast pid) ''.'', entry (ucast (pid - 20)) ''..'']) in
     bnd (fdinfo_loop pid p [0..<NOFILE] (entry (ucast (pid - 20)) ''..'') buf) (\<lambda>buf.
     ret (int (length buf), buf)))"

section \<open>Files\<close>

definition text_file :: "uchar list \<Rightarrow> (int \<times> uchar list, 's) kern" where
  "text_file buf = ret (int (length buf), buf)"

definition status :: "uint32 \<Rightarrow> (int \<times> uchar list, 'z procfs_st_scheme) kern" where
  "status pid =
     bnd (proc_slot pid) (\<lambda>p.
     bnd (rd (\<lambda>s. ptable s p)) (\<lambda>q.
     bnd (itoa_to (sint (p_sz q))) (\<lambda>sz.
     text_file (str ''Status: '' @ str (getProcState (p_state q)) @ str '' Size: '' @ sz @ [10]))))"

definition flag_names :: "bool \<Rightarrow> bool \<Rightarrow> string" where
  "flag_names r w = (if r \<and> w then ''RDWR'' else if \<not> r \<and> w then ''RDONLY'' else if r \<and> \<not> w then ''WRONLY''
     else ''no flags , sad so sad'')"

definition filesContent :: "uint32 \<Rightarrow> (int \<times> uchar list, 'z procfs_st_scheme) kern" where
  "filesContent pid =
     bnd (proc_slot pid) (\<lambda>p.
     let fd = (unat pid mod 700 - 20) mod NOFILE in
     if fd = 0 then fault ''ofile index''
     else
       bnd (rd (\<lambda>s. p_ofile (ptable s p) (fd - 1))) (\<lambda>r.
       case r of
         None \<Rightarrow> fault ''null file''
       | Some f \<Rightarrow>
           bnd (rd (\<lambda>s. ftable s f)) (\<lambda>x.
           bnd (itoa_to (sint (f_off x))) (\<lambda>off.
           if f_type x \<noteq> FD_INODE then fault ''stale inode''
           else
             bnd (rd (\<lambda>s. icache s (f_ip x))) (\<lambda>i.
             bnd (itoa_to (sint (i_inum i))) (\<lambda>inum.
             bnd (itoa_to (i_ref i)) (\<lambda>rf.
             text_file (str ''TYPE: '' @ str (fileType x) @ [10] @ str ''POSITION: '' @ off @
               [10] @ str ''flags: '' @ str (flag_names (f_readable x) (f_writable x)) @
               [10] @ str ''INODE NUMBER: '' @ inum @ [10] @ str ''REFERENCE COUNT: '' @ rf @ [10]))))))))"

definition blockstat :: "(int \<times> uchar list, 'z procfs_st_scheme) kern" where
  "blockstat =
     bnd get_free_block_number (\<lambda>x. bnd (itoa_to (sint x)) (\<lambda>fr.
     bnd get_total_block_number (\<lambda>x. bnd (itoa_to (sint x)) (\<lambda>total.
     bnd get_number_of_hits (\<lambda>x. bnd (itoa_to (sint x)) (\<lambda>hits.
     bnd get_number_of_block_acsses (\<lambda>x. bnd (itoa_to (sint x)) (\<lambda>acc.
     text_file (str ''Free blocks: '' @ fr @ [10] @ str ''Total blocks: '' @ total @
       [10] @ str ''Hits ratio: '' @ hits @ str ''/'' @ acc @ [10])))))))))"

definition inodestat :: "(int \<times> uchar list, 'z procfs_st_scheme) kern" where
  "inodestat =
     bnd get_number_of_free_inode (\<lambda>x. bnd (itoa_to x) (\<lambda>fr.
     bnd number_of_valid_inode (\<lambda>x. bnd (itoa_to x) (\<lambda>valid.
     bnd get_number_of_ref (\<lambda>x. bnd (itoa_to x) (\<lambda>refs.
     bnd get_number_of_active_inode (\<lambda>x. bnd (itoa_to x) (\<lambda>active.
     text_file (str ''Free inodes: '' @ fr @ [10] @ str ''Valid inode: '' @ valid @
       [10] @ str ''Refs per inode: '' @ refs @ str ''/'' @ active @ [10])))))))))"

section \<open>The device\<close>

definition procfsisdir :: "nat \<Rightarrow> (bool, 'z procfs_st_scheme) kern" where
  "procfsisdir ip = rd (\<lambda>s. i_minor (icache s ip) = 0 \<or> i_minor (icache s ip) = T_DIR)"

definition procfsiread :: "nat \<Rightarrow> nat \<Rightarrow> (unit, 'z procfs_st_scheme) kern" where
  "procfsiread dp ip = md (upd_inode ip (\<lambda>i. i\<lparr>i_type := T_DEV, i_major := 2, i_size := 0, i_nlink := 1, i_flags := I_VALID, i_ref := 1,
     i_minor := (if i_inum i = 19 \<or> i_inum i mod 700 = 0 \<or> i_inum i mod 700 = 20 then T_DIR else T_FILE)\<rparr>))"

definition procfs_content :: "nat \<Rightarrow> (int \<times> uchar list, 'z procfs_st_scheme) kern" where
  "procfs_content ip =
     bnd (rd (\<lambda>s. i_inum (icache s ip))) (\<lambda>inum.
     let command = inum mod 700 in
     if command = 19 then thn (md (\<lambda>s. s\<lparr>currentInode := inum\<rparr>)) (initProc ip)
     else if command = 0 then initPID inum
     else if command = 10 then status inum
     else if command = 20 then fdinfo inum
     else if command = 660 then blockstat
     else if command = 670 then inodestat
     else if 21 \<le> command \<and> command \<le> 36 then filesContent inum
     else ret (0, []))"

definition procfsread :: "nat \<Rightarrow> uint32 \<Rightarrow> uint32 \<Rightarrow> (int \<times> uchar list, 'z procfs_st_scheme) kern" where
  "procfsread ip off n =
     bnd (procfs_content ip) (\<lambda>(sz, buf).
     if sint off < sz then
       let nr = (if sint n < sz - sint off then sint n else sz - sint off) in
       if sint off < 0 \<or> nr < 0 \<or> length buf < unat off + nat nr then fault ''read outside of buf''
       else ret (nr, slice (unat off) (nat nr) buf)
     else ret (0, []))"

definition procfswrite :: "nat \<Rightarrow> uchar list \<Rightarrow> uint32 \<Rightarrow> (int, 'z procfs_st_scheme) kern" where
  "procfswrite ip buf n = ret 0"

text \<open>The entry of the device in the table \<^verbatim>\<open>devsw\<close>, as \<^verbatim>\<open>procfsinit\<close> sets it.\<close>

definition procfs_dev :: "'z procfs_st_scheme devsw" where
  "procfs_dev = \<lparr>ds_isdir = Some procfsisdir, ds_iread = Some procfsiread, ds_read = Some procfsread, ds_write = Some procfswrite\<rparr>"

end
