(* ===== verification/Trap.thy ===== *)
theory Trap
  imports Sysfile Procfs
begin

text \<open>
  The dispatch of system calls (\<^verbatim>\<open>src/syscall.c\<close>, \<^verbatim>\<open>src/syscall.h\<close>) and of traps (\<^verbatim>\<open>src/trap.c\<close>, \<^verbatim>\<open>src/traps.h\<close>), over the whole kernel: the table
  \<^verbatim>\<open>devsw\<close> holds the console and \<^verbatim>\<open>/proc\<close>, and the disk is the one of \<^verbatim>\<open>src/memide.c\<close>, whose interrupt handler does nothing.
\<close>

record trap_st = procfs_st +
  lapic :: bool
  eoi :: nat
  cr2 :: uint32

section \<open>The environment\<close>

definition devsw_table :: "nat \<Rightarrow> 'z procfs_st_scheme devsw" where
  "devsw_table n = (if n = 1 then console_dev else if n = 2 then procfs_dev
     else \<lparr>ds_isdir = None, ds_iread = None, ds_read = None, ds_write = None\<rparr>)"

definition kernel_env :: "uint32 \<Rightarrow> uchar list \<Rightarrow> 'z procfs_st_scheme kenv" where
  "kernel_env data initcode = \<lparr>e_data = data, e_initcode = initcode, e_devsw = devsw_table, e_cprintf = cprintf\<rparr>"

section \<open>System calls\<close>

definition syscalls :: "'z env \<Rightarrow> nat \<Rightarrow> (int, 'z sys_st_scheme) kern option" where
  "syscalls E n =
     (if n = 1 then Some (sys_fork E) else if n = 2 then Some sys_exit else if n = 3 then Some sys_wait
      else if n = 4 then Some sys_pipe else if n = 5 then Some (sys_read E) else if n = 6 then Some sys_kill
      else if n = 7 then Some (sys_exec E) else if n = 8 then Some sys_fstat else if n = 9 then Some (sys_chdir E)
      else if n = 10 then Some sys_dup else if n = 11 then Some sys_getpid else if n = 12 then Some (sys_sbrk E)
      else if n = 13 then Some sys_sleep else if n = 14 then Some sys_uptime else if n = 15 then Some (sys_open E)
      else if n = 16 then Some (sys_write E) else if n = 17 then Some (sys_mknod E) else if n = 18 then Some (sys_unlink E)
      else if n = 19 then Some (sys_link E) else if n = 20 then Some (sys_mkdir E) else if n = 21 then Some sys_close
      else None)"

definition syscall :: "'z env \<Rightarrow> (unit, 'z sys_st_scheme) kern" where
  "syscall E =
     with_proc (\<lambda>p.
     bnd (rd (\<lambda>s. get_tf32 s p tf_eax)) (\<lambda>num.
     case (if sint num > 0 \<and> num < 22 then syscalls E (unat num) else None) of
       Some f \<Rightarrow> bnd f (\<lambda>r. md (set_tf32 p tf_eax (of_int r)))
     | None \<Rightarrow>
         bnd (rd (\<lambda>s. ptable s p)) (\<lambda>q.
         thn (e_cprintf E (''%d %s: unknown sys call %d'' @ [CHR 0x0A]) [CInt (p_pid q), CStr (p_name q), CInt num]) (
         md (set_tf32 p tf_eax (- 1))))))"

section \<open>Traps\<close>

abbreviation (input) T_SYSCALL :: uint32 where "T_SYSCALL \<equiv> 64"
abbreviation (input) T_IRQ0 :: uint32 where "T_IRQ0 \<equiv> 32"
abbreviation (input) IRQ_TIMER :: uint32 where "IRQ_TIMER \<equiv> 0"
abbreviation (input) IRQ_KBD :: uint32 where "IRQ_KBD \<equiv> 1"
abbreviation (input) IRQ_COM1 :: uint32 where "IRQ_COM1 \<equiv> 4"
abbreviation (input) IRQ_IDE :: uint32 where "IRQ_IDE \<equiv> 14"
abbreviation (input) IRQ_SPURIOUS :: uint32 where "IRQ_SPURIOUS \<equiv> 31"

definition lapiceoi :: "(unit, 'z trap_st_scheme) kern" where
  "lapiceoi = md (\<lambda>s. if lapic s then s\<lparr>eoi := Suc (eoi s)\<rparr> else s)"

definition ideintr :: "(unit, 'z trap_st_scheme) kern" where
  "ideintr = ret ()"

definition timer_tick :: "(unit, 'z trap_st_scheme) kern" where
  "timer_tick =
     bnd (rd me) (\<lambda>c.
     whenk (c = 0) (
       thn (acquire LkTicks) (
       thn (md (\<lambda>s. s\<lparr>ticks := ticks s + 1\<rparr>)) (
       thn (wakeup ChTicks) (
       release LkTicks)))))"

text \<open>The \<^verbatim>\<open>switch\<close> of \<^verbatim>\<open>trap\<close>; \<open>tf\<close> is the address of the trap frame.\<close>

definition trap_switch :: "uint32 \<Rightarrow> uint32 \<Rightarrow> (unit, 'z trap_st_scheme) kern" where
  "trap_switch tf trapno =
     (if trapno = T_IRQ0 + IRQ_TIMER then thn timer_tick lapiceoi
      else if trapno = T_IRQ0 + IRQ_IDE then thn ideintr lapiceoi
      else if trapno = T_IRQ0 + IRQ_IDE + 1 then ret ()
      else if trapno = T_IRQ0 + IRQ_KBD then thn kbdintr lapiceoi
      else if trapno = T_IRQ0 + IRQ_COM1 then thn uartintr lapiceoi
      else
        bnd (rd (\<lambda>s. (me s, load16 (mem s) (tf + tf_cs), load32 (mem s) (tf + tf_eip)))) (\<lambda>(c, cs, eip).
        if trapno = T_IRQ0 + 7 \<or> trapno = T_IRQ0 + IRQ_SPURIOUS then
          thn (cprintf (''cpu%d: spurious interrupt at %x:%x'' @ [CHR 0x0A]) [CInt (of_nat c), CInt (ucast cs), CInt eip]) lapiceoi
        else
          bnd (rd curproc) (\<lambda>r.
          bnd (rd cr2) (\<lambda>fa.
          case (if cs AND 3 = 0 then None else r) of
            None \<Rightarrow>
              thn (cprintf (''unexpected trap %d from cpu %d eip %x (cr2=0x%x)'' @ [CHR 0x0A]) [CInt trapno, CInt (of_nat c), CInt eip, CInt fa]) (
              panic ''trap'')
          | Some p \<Rightarrow>
              bnd (rd (\<lambda>s. ptable s p)) (\<lambda>q.
              bnd (rd (\<lambda>s. load32 (mem s) (tf + 52))) (\<lambda>err.
              thn (cprintf (''pid %d %s: trap %d err %d on cpu %d eip 0x%x addr 0x%x--kill proc'' @ [CHR 0x0A])
                [CInt (p_pid q), CStr (p_name q), CInt trapno, CInt err, CInt (of_nat c), CInt eip, CInt fa]) (
              md (upd_proc p (\<lambda>q. q\<lparr>p_killed := True\<rparr>)))))))))"

definition exit_if_killed :: "uint32 \<Rightarrow> (unit, 'z trap_st_scheme) kern" where
  "exit_if_killed tf =
     bnd (rd (\<lambda>s. (case curproc s of None \<Rightarrow> False | Some p \<Rightarrow> p_killed (ptable s p)) \<and> load16 (mem s) (tf + tf_cs) AND 3 = 3)) (\<lambda>k.
     whenk k exit)"

definition killed_exit :: "(unit, 'z sys_st_scheme) kern" where
  "killed_exit = with_proc (\<lambda>p. bnd (rd (\<lambda>s. p_killed (ptable s p))) (\<lambda>k. whenk k exit))"

definition trap :: "'z trap_st_scheme kenv \<Rightarrow> uint32 \<Rightarrow> (unit, 'z trap_st_scheme) kern" where
  "trap E tf =
     bnd (rd (\<lambda>s. load32 (mem s) (tf + tf_trapno))) (\<lambda>trapno.
     if trapno = T_SYSCALL then
       thn killed_exit (
       thn (with_proc (\<lambda>p. md (upd_proc p (\<lambda>q. q\<lparr>p_tf := tf\<rparr>)))) (
       thn (syscall E) killed_exit))
     else
       thn (trap_switch tf trapno) (
       thn (exit_if_killed tf) (
       bnd (rd (\<lambda>s. (case curproc s of None \<Rightarrow> False | Some p \<Rightarrow> p_state (ptable s p) = RUNNING) \<and>
         trapno = T_IRQ0 + IRQ_TIMER)) (\<lambda>y.
       thn (whenk y yield) (
       exit_if_killed tf)))))"

text \<open>What is left of \<^verbatim>\<open>trap\<close> when the scheduler returns to a process that gave up the processor at a clock tick.\<close>

definition trap_resume :: "uint32 \<Rightarrow> bool \<Rightarrow> (unit, 'z trap_st_scheme) kern" where
  "trap_resume tf i = thn (yield_resume i) (exit_if_killed tf)"

end
