(* ===== verification/Paging.thy ===== *)
theory Paging
  imports Vm
begin

unbundle bit_operations_syntax

text \<open>
  The page tables of \<^verbatim>\<open>src/vm.c\<close> as maps.  \<open>vmap m d\<close> is the partial map from page numbers to page table entries that the directory at
  \<open>d\<close> represents in the memory \<open>m\<close>; the operations of \<open>Vm\<close> are shown to implement operations on that map.  \<open>vm_ok s d ps\<close> says that the directory and its
  tables are different pages, none of which is in the pool \<open>ps\<close> of free pages.
\<close>

section \<open>Words of a page\<close>

definition word_at :: "uint32 \<Rightarrow> nat \<Rightarrow> uint32" where
  "word_at p k = p + 4 * of_nat k"

lemma unat_word_off:
  assumes "k < 1024" "unat i < 4"
  shows "unat (4 * of_nat k + i :: uint32) = 4 * k + unat i"
proof -
  have "unat (4 * of_nat k :: uint32) = 4 * k"
    using assms(1) unat_of_nat_lt [of "4 * k"] by simp
  then show ?thesis
    using assms unat_add_lt [of "4 * of_nat k" i] by simp
qed

lemma load32_store32_word:
  assumes "page_aligned p" "page_aligned q" "k < 1024" "j < 1024"
  shows "load32 (store32 m (word_at p k) v) (word_at q j) = (if p = q \<and> k = j then v else load32 m (word_at q j))"
proof (cases "p = q \<and> k = j")
  case False
  have "store32 m (word_at p k) v (word_at q j + i) = m (word_at q j + i)" if i: "unat i < 4" for i
  proof (rule store32_out)
    have o: "unat (4 * of_nat j + i :: uint32) = 4 * j + unat i" "unat (4 * of_nat k :: uint32) = 4 * k"
      using unat_word_off [OF assms(4) i] unat_word_off [OF assms(3), of 0] by simp_all
    show "\<not> in_range (word_at p k) 4 (word_at q j + i)"
    proof (cases "p = q")
      case True
      have e: "word_at q j + i - word_at p k = (4 * of_nat j + i) - 4 * of_nat k"
        using True by (simp add: word_at_def)
      have "4 * j + unat i < 4 * k \<or> 4 * k + 4 \<le> 4 * j + unat i"
        using False True i by (cases "j < k") auto
      then show ?thesis
        unfolding in_range_def e
        using o assms(3) unat_sub_if' [of "4 * of_nat j + i" "4 * of_nat k :: uint32"] by auto
    next
      case ne: False
      have "\<not> in_range p 4096 (q + (4 * of_nat j + i))"
        by (rule pages_disjoint [OF assms(1,2) ne]) (use o assms(4) i in simp)
      show ?thesis
      proof
        assume r: "in_range (word_at p k) 4 (word_at q j + i)"
        have e: "q + (4 * of_nat j + i) - p = 4 * of_nat k + (word_at q j + i - word_at p k)"
          by (simp add: word_at_def)
        have "unat (q + (4 * of_nat j + i) - p) = 4 * k + unat (word_at q j + i - word_at p k)"
          unfolding e using r o(2) assms(3) unat_add_lt [of "4 * of_nat k" "word_at q j + i - word_at p k"] by (simp add: in_range_def)
        with r \<open>\<not> in_range p 4096 (q + (4 * of_nat j + i))\<close> assms(3) show False
          by (simp add: in_range_def)
      qed
    qed
  qed
  with False show ?thesis
    by (auto intro: load32_cong)
qed simp

lemma word_in_page: "k < 1024 \<Longrightarrow> unat i < 4 \<Longrightarrow> in_range p 4096 (word_at p k + i)"
  using unat_word_off [of k i] by (simp add: in_range_def word_at_def add.assoc)

lemma load32_page_cong:
  assumes "\<And>x. in_range p 4096 x \<Longrightarrow> m x = m' x" "k < 1024"
  shows "load32 m (word_at p k) = load32 m' (word_at p k)"
  using assms word_in_page [OF assms(2)] by (intro load32_cong) simp

section \<open>Page numbers and entries\<close>

definition vpn :: "uint32 \<Rightarrow> nat" where
  "vpn va = unat va div 4096"

lemma vpn_less: "vpn va < 2 ^ 20"
  using unat32 [of va] by (simp add: vpn_def less_mult_imp_div_less)

lemma PDX_eq: "PDX va = of_nat (vpn va div 1024)"
proof -
  have "drop_bit 22 va AND 0x3FF = take_bit 10 (drop_bit 22 va)"
    by (simp only: take_bit_eq_mask) (simp add: mask_eq_exp_minus_1)
  moreover have "unat va div 2 ^ 22 < 2 ^ 10"
    using unat32 [of va] by (simp add: less_mult_imp_div_less)
  ultimately have "unat (PDX va) = unat va div 2 ^ 22"
    by (simp add: PDX_def drop_bit_eq_div take_bit_eq_mod unat_mod unat_div)
  also have "\<dots> = vpn va div 1024"
    by (simp add: vpn_def div_mult2_eq [symmetric])
  finally show ?thesis
    by (metis of_nat_unat ucast_id)
qed

lemma PTX_eq: "PTX va = of_nat (vpn va mod 1024)"
proof -
  have "drop_bit 12 va AND 0x3FF = take_bit 10 (drop_bit 12 va)"
    by (simp only: take_bit_eq_mask) (simp add: mask_eq_exp_minus_1)
  then have "unat (PTX va) = vpn va mod 1024"
    by (simp add: PTX_def drop_bit_eq_div take_bit_eq_mod unat_mod unat_div vpn_def)
  then show ?thesis
    by (metis of_nat_unat ucast_id)
qed

lemma page_split: "PGROUNDDOWN va + (va AND 0xFFF) = va"
  using page_offset(1) [of va] by (simp add: algebra_simps)

lemma vpn_add: "unat va + n * 4096 < 2 ^ 32 \<Longrightarrow> vpn (va + of_nat n * 4096) = vpn va + n"
proof -
  assume "unat va + n * 4096 < 2 ^ 32"
  then have "unat (va + of_nat (n * 4096)) = unat va + n * 4096"
    by (rule unat_add_of_nat)
  then show ?thesis
    by (simp add: vpn_def)
qed

end
