(* ===== verification/Addrspace.thy ===== *)
theory Addrspace
  imports Paging
begin

text \<open>
  Address spaces: what the page tables that \<^verbatim>\<open>src/vm.c\<close> builds mean to the memory management unit.  \<open>pte_of m d v\<close> is the entry for the page with the number \<open>v\<close> in the directory at \<open>d\<close>.
  \<^verbatim>\<open>mappages\<close> sets a range of entries and takes the pages for missing tables out of the pool; \<^verbatim>\<open>setupkvm\<close> and \<^verbatim>\<open>copyuvm\<close> are compositions of it.
\<close>

lemma mask12: "(0xFFF :: uint32) = mask 12"
  by (simp add: mask_eq_exp_minus_1)

lemma page_aligned_bits: "page_aligned a \<longleftrightarrow> a AND 0xFFF = 0"
  unfolding page_aligned_def mask12 by (simp add: take_bit_eq_mod flip: take_bit_eq_mask)

lemma PTE_ADDR_aligned [simp]: "page_aligned (PTE_ADDR e)"
  by (simp add: page_aligned_bits PTE_ADDR_def and.assoc)

lemma page_aligned_p2v: "page_aligned a \<Longrightarrow> page_aligned (p2v a)" "page_aligned a \<Longrightarrow> page_aligned (v2p a)"
proof -
  have k: "page_aligned 0x80000000"
    by (simp add: page_aligned_def)
  have minus: "a - 0x80000000 = a + 0x80000000"
    by (simp add: diff_eq_eq add.assoc)
  show "page_aligned a \<Longrightarrow> page_aligned (v2p a)"
    using Kalloc.page_aligned_diff [OF k] by (simp add: v2p_def)
  show "page_aligned a \<Longrightarrow> page_aligned (p2v a)"
    using Kalloc.page_aligned_diff [OF k, of a] minus by (simp add: p2v_def)
qed

lemma p2v_v2p [simp]: "p2v (v2p a) = a" "v2p (p2v a) = a" "p2v a = p2v b \<longleftrightarrow> a = b" "v2p a = v2p b \<longleftrightarrow> a = b"
  by (simp_all add: p2v_def v2p_def)

definition present :: "uint32 \<Rightarrow> bool" where
  "present e = (e AND PTE_P \<noteq> 0)"

lemma entry_bits:
  assumes "page_aligned a" "f AND NOT 0xFFF = 0"
  shows "PTE_ADDR (a OR f) = a" "PTE_FLAGS (a OR f) = f" "present (a OR f) = present f"
proof -
  have bits: "\<not> (bit a n \<and> n < 12)" "bit f n \<Longrightarrow> n < 12" for n
  proof -
    have "\<not> bit (a AND 0xFFF) n" "\<not> bit (f AND NOT 0xFFF) n"
      using assms by (simp_all add: page_aligned_bits)
    then show "\<not> (bit a n \<and> n < 12)" "bit f n \<Longrightarrow> n < 12"
      unfolding mask12 by (auto simp: bit_simps dest: bit_imp_le_length)
  qed
  show "PTE_ADDR (a OR f) = a" "PTE_FLAGS (a OR f) = f"
    unfolding PTE_ADDR_def PTE_FLAGS_def mask12 by (rule bit_word_eqI, use bits in \<open>auto simp: bit_simps\<close>)+
  have "(a OR f) AND 1 = f AND 1"
    using bits(1) [of 0] by (intro bit_word_eqI) (auto simp: bit_simps)
  then show "present (a OR f) = present f"
    by (simp add: present_def)
qed

section \<open>Directories\<close>

text \<open>The entry of a directory for a table of 1024 pages, the address of that table, and the entry for a page, 0 if there is no table.\<close>

definition pde :: "memory \<Rightarrow> uint32 \<Rightarrow> nat \<Rightarrow> uint32" where
  "pde m d i = load32 m (word_at d i)"

definition ptab :: "memory \<Rightarrow> uint32 \<Rightarrow> nat \<Rightarrow> uint32" where
  "ptab m d i = p2v (PTE_ADDR (pde m d i))"

definition pte_of :: "memory \<Rightarrow> uint32 \<Rightarrow> nat \<Rightarrow> uint32" where
  "pte_of m d v = (if present (pde m d (v div 1024)) then load32 m (word_at (ptab m d (v div 1024)) (v mod 1024)) else 0)"

lemma ptab_aligned [simp]: "page_aligned (ptab m d i)"
  by (simp add: ptab_def page_aligned_p2v)

lemma vpn_simps [simp]: "vpn va div 1024 < 1024" "vpn va mod 1024 < 1024"
  using vpn_less [of va] by (simp_all add: less_mult_imp_div_less)

lemma word_at_vpn: "d + 4 * PDX va = word_at d (vpn va div 1024)" "p + 4 * PTX va = word_at p (vpn va mod 1024)"
  by (simp_all add: word_at_def PDX_eq PTX_eq)

lemma translate_pte: "translate m d va = (let e = pte_of m d (vpn va) in if present e then Some (p2v (PTE_ADDR e) + (va AND 0xFFF)) else None)"
  by (simp add: translate_def word_at_vpn pte_of_def pde_def [symmetric] ptab_def [symmetric] present_def Let_def)

definition tables_ok :: "memory \<Rightarrow> uint32 \<Rightarrow> uint32 set \<Rightarrow> bool" where
  "tables_ok m d P = (page_aligned d \<and> d \<notin> P \<and> (\<forall>i < 1024. present (pde m d i) \<longrightarrow> ptab m d i \<notin> insert d P) \<and>
     (\<forall>i < 1024. \<forall>j < 1024. present (pde m d i) \<and> present (pde m d j) \<and> ptab m d i = ptab m d j \<longrightarrow> i = j))"

text \<open>The pages of the directory and its tables.\<close>

definition tables :: "memory \<Rightarrow> uint32 \<Rightarrow> uint32 set" where
  "tables m d = insert d (ptab m d ` {i. i < 1024 \<and> present (pde m d i)})"

text \<open>Outside of a set of pages the memory is the same.\<close>

definition same_off :: "uint32 set \<Rightarrow> memory \<Rightarrow> memory \<Rightarrow> bool" where
  "same_off P m m' = (\<forall>x. (\<forall>p \<in> P. \<not> in_range p 4096 x) \<longrightarrow> m' x = m x)"

lemma same_off_refl [simp]: "same_off P m m"
  by (simp add: same_off_def)

lemma same_off_trans: "same_off P m m' \<Longrightarrow> same_off Q m' m'' \<Longrightarrow> Q \<subseteq> P \<Longrightarrow> same_off P m m''"
  unfolding same_off_def by (metis subsetD)

lemma same_off_mono: "same_off P m m' \<Longrightarrow> P \<subseteq> Q \<Longrightarrow> same_off Q m m'"
  unfolding same_off_def by blast

lemma page_off: "page_aligned p \<Longrightarrow> page_aligned q \<Longrightarrow> p \<noteq> q \<Longrightarrow> in_range p 4096 x \<Longrightarrow> \<not> in_range q 4096 x"
  using pages_disjoint [of q p "x - p"] by (simp add: in_range_def)

lemma same_off_page:
  assumes "same_off P m m'" "\<forall>p \<in> P. page_aligned p" "page_aligned q" "q \<notin> P" "in_range q 4096 x"
  shows "m' x = m x"
  using assms page_off [of q _ x] unfolding same_off_def by metis

lemma same_off_word:
  assumes "same_off P m m'" "\<forall>p \<in> P. page_aligned p" "page_aligned q" "q \<notin> P" "k < 1024"
  shows "load32 m' (word_at q k) = load32 m (word_at q k)"
  using same_off_page [OF assms(1-4)] assms(5) by (intro load32_page_cong)

lemma same_off_store:
  assumes "k < 1024"
  shows "same_off {p} m (store32 m (word_at p k) v)"
  unfolding same_off_def
proof (intro allI impI)
  fix x
  assume "\<forall>q \<in> {p}. \<not> in_range q 4096 x"
  then have "\<not> in_range (word_at p k) 4 x"
    using word_in_page [OF assms, of "x - word_at p k" p] by (auto simp: in_range_def)
  then show "store32 m (word_at p k) v x = m x"
    by (rule store32_out)
qed

lemma same_off_memset: "same_off {p} m (memset m p c PGSIZE)"
  by (simp add: same_off_def memset_write write_bytes_out)

lemma memmove_page:
  assumes "unat p + 4096 < 2 ^ 32" "unat q + 4096 < 2 ^ 32"
  shows "same_off {p} m (memmove m p q PGSIZE)" "unat i < 4096 \<Longrightarrow> memmove m p q PGSIZE (p + i) = m (q + i)"
proof -
  have e: "memmove m p q PGSIZE = write_bytes m p (read_bytes m q 4096)"
    using memmove_copies [of q "PGSIZE" p m] assms by simp
  show "same_off {p} m (memmove m p q PGSIZE)"
    unfolding e by (simp add: same_off_def write_bytes_out)
  show "unat i < 4096 \<Longrightarrow> memmove m p q PGSIZE (p + i) = m (q + i)"
    unfolding e by (simp add: write_bytes_def in_range_def)
qed

section \<open>Changing one entry\<close>

definition vm :: "'z kmem_st_scheme \<Rightarrow> uint32 \<Rightarrow> uint32 list \<Rightarrow> bool" where
  "vm s d ps = (kmem_pool s ps \<and> tables_ok (mem s) d (set ps))"

lemma pool_aligned: "kmem_pool s ps \<Longrightarrow> p \<in> set ps \<Longrightarrow> page_aligned p"
  by (auto simp: kmem_pool_def kmem_inv_def page_ok_def)

lemma tables_aligned: "tables_ok m d P \<Longrightarrow> p \<in> tables m d \<Longrightarrow> page_aligned p"
  by (auto simp: tables_ok_def tables_def)

lemma pool_same_off:
  assumes "kmem_pool s ps" "same_off P (mem s) m" "\<forall>p \<in> P. page_aligned p" "P \<inter> set ps = {}"
  shows "kmem_pool (s\<lparr>mem := m\<rparr>) ps"
proof -
  have "load32 m a = load32 (mem s) a" if "a \<in> set ps" for a
    using same_off_word [OF assms(2,3) pool_aligned [OF assms(1) that], of 0] that assms(4) by (auto simp: word_at_def)
  then show ?thesis
    using assms(1) free_path_cong [of ps m "mem s" "freelist s"] by (simp add: kmem_pool_def kmem_inv_def)
qed

lemma tables_same_off:
  assumes "tables_ok m d Q" "same_off P m m'" "\<forall>p \<in> P. page_aligned p" "P \<inter> tables m d = {}"
  shows "\<And>i. i < 1024 \<Longrightarrow> pde m' d i = pde m d i" "\<And>v. v < 2 ^ 20 \<Longrightarrow> pte_of m' d v = pte_of m d v" "tables m' d = tables m d" "tables_ok m' d Q"
proof -
  have d: "page_aligned d" "d \<notin> P"
    using assms(1,4) by (auto simp: tables_ok_def tables_def)
  show e: "pde m' d i = pde m d i" if "i < 1024" for i
    unfolding pde_def by (rule same_off_word [OF assms(2,3) d that])
  then have t: "ptab m' d i = ptab m d i" if "i < 1024" for i
    using that by (simp add: ptab_def)
  show "pte_of m' d v = pte_of m d v" if "v < 2 ^ 20" for v
  proof -
    have i: "v div 1024 < 1024" "v mod 1024 < 1024"
      using that by (simp_all add: less_mult_imp_div_less)
    have "load32 m' (word_at (ptab m d (v div 1024)) (v mod 1024)) = load32 m (word_at (ptab m d (v div 1024)) (v mod 1024))" if "present (pde m d (v div 1024))"
    proof (rule same_off_word [OF assms(2,3)])
      show "ptab m d (v div 1024) \<notin> P"
        using assms(4) that i by (auto simp: tables_def)
    qed (use i in simp_all)
    then show ?thesis
      using e [OF i(1)] t [OF i(1)] by (simp add: pte_of_def)
  qed
  show "tables m' d = tables m d" "tables_ok m' d Q"
    using e t assms(1) by (auto simp: tables_def tables_ok_def)
qed

text \<open>Writing an entry of a table.\<close>

lemma set_pte:
  assumes "vm s d ps" "v < 2 ^ 20" "present (pde (mem s) d (v div 1024))" "m = store32 (mem s) (word_at (ptab (mem s) d (v div 1024)) (v mod 1024)) e"
  shows "vm (s\<lparr>mem := m\<rparr>) d ps" "\<And>i. i < 1024 \<Longrightarrow> pde m d i = pde (mem s) d i" "tables m d = tables (mem s) d"
    "\<And>w. w < 2 ^ 20 \<Longrightarrow> pte_of m d w = (if w = v then e else pte_of (mem s) d w)" "same_off (tables (mem s) d) (mem s) m"
proof -
  let ?p = "ptab (mem s) d (v div 1024)"
  have v: "v div 1024 < 1024" "v mod 1024 < 1024"
    using assms(2) by (simp_all add: less_mult_imp_div_less)
  have ok: "kmem_pool s ps" "tables_ok (mem s) d (set ps)"
    using assms(1) by (simp_all add: vm_def)
  have p: "?p \<notin> set ps" "?p \<noteq> d" "page_aligned d" "?p \<in> tables (mem s) d"
    using ok(2) assms(3) v by (auto simp: tables_ok_def tables_def)
  have off: "same_off {?p} (mem s) m"
    unfolding assms(4) by (rule same_off_store [OF v(2)])
  show e: "pde m d i = pde (mem s) d i" if "i < 1024" for i
    unfolding pde_def using same_off_word [OF off _ p(3) _ that] p(2) by simp
  then have t: "ptab m d i = ptab (mem s) d i" if "i < 1024" for i
    using that by (simp add: ptab_def)
  show "tables m d = tables (mem s) d"
    using e t by (auto simp: tables_def)
  show "same_off (tables (mem s) d) (mem s) m"
    by (rule same_off_mono [OF off]) (use p(4) in simp)
  have "tables_ok m d (set ps)"
    using e t ok(2) by (auto simp: tables_ok_def)
  moreover have "kmem_pool (s\<lparr>mem := m\<rparr>) ps"
    by (rule pool_same_off [OF ok(1) off]) (use p(1) in simp_all)
  ultimately show "vm (s\<lparr>mem := m\<rparr>) d ps"
    by (simp add: vm_def)
  show "pte_of m d w = (if w = v then e else pte_of (mem s) d w)" if "w < 2 ^ 20" for w
  proof -
    have w: "w div 1024 < 1024" "w mod 1024 < 1024"
      using that by (simp_all add: less_mult_imp_div_less)
    have "load32 m (word_at (ptab (mem s) d (w div 1024)) (w mod 1024)) = (if w = v then e else load32 (mem s) (word_at (ptab (mem s) d (w div 1024)) (w mod 1024)))"
      if "present (pde (mem s) d (w div 1024))"
    proof -
      have "?p = ptab (mem s) d (w div 1024) \<and> v mod 1024 = w mod 1024 \<longleftrightarrow> w = v"
        using ok(2) v w that assms(3) unfolding tables_ok_def by (metis div_mod_decomp)
      then show ?thesis
        unfolding assms(4) using load32_store32_word [OF ptab_aligned ptab_aligned v(2) w(2)] by simp
    qed
    then show ?thesis
      using e [OF w(1)] t [OF w(1)] assms(3) by (auto simp: pte_of_def)
  qed
qed

text \<open>A new table, which is all zeros.\<close>

lemma load32_zero_page:
  assumes "k < 1024"
  shows "load32 (memset m p 0 PGSIZE) (word_at p k) = 0"
proof -
  have "memset m p 0 PGSIZE (word_at p k + i) = 0" if "unat i < 4" for i
    using word_in_page [OF assms that, of p] by (simp add: memset_write write_bytes_def in_range_def)
  then have "load32 (memset m p 0 PGSIZE) (word_at p k) = load32 (\<lambda>_. 0) (word_at p k)"
    by (intro load32_cong) simp
  then show ?thesis
    by (simp add: load32_def of_le32_def)
qed

lemma new_table_entries:
  assumes "page_aligned p" "page_aligned d" "d \<noteq> p" "i < 1024" "\<not> present (pde m0 d i)"
    and "m = store32 (memset m0 p 0 PGSIZE) (word_at d i) (v2p p OR PTE_P OR PTE_W OR PTE_U)"
  shows "same_off {p, d} m0 m" "\<And>j. j < 1024 \<Longrightarrow> present (pde m d j) \<longleftrightarrow> j = i \<or> present (pde m0 d j)"
    "\<And>j. j < 1024 \<Longrightarrow> ptab m d j = (if j = i then p else ptab m0 d j)" "tables m d = insert p (tables m0 d)"
proof -
  let ?z = "memset m0 p 0 PGSIZE"
  have e7: "v2p p OR PTE_P OR PTE_W OR PTE_U = v2p p OR 7"
    by (simp add: or.assoc)
  have bits: "PTE_ADDR (v2p p OR 7) = v2p p" "present (v2p p OR 7)"
    using entry_bits [OF page_aligned_p2v(2) [OF assms(1)], of 7] by (simp_all add: present_def)
  show "same_off {p, d} m0 m"
    unfolding assms(6) by (rule same_off_trans [OF same_off_mono [OF same_off_memset] same_off_store [OF assms(4)]]) simp_all
  have z: "pde ?z d j = pde m0 d j" if "j < 1024" for j
    unfolding pde_def using same_off_word [OF same_off_memset _ assms(2) _ that, of p] assms(1,3) by simp
  have e: "pde m d j = (if j = i then v2p p OR 7 else pde m0 d j)" if "j < 1024" for j
    using load32_store32_word [OF assms(2,2,4) that] z [OF that] unfolding assms(6) e7 by (auto simp: pde_def)
  show pr: "present (pde m d j) \<longleftrightarrow> j = i \<or> present (pde m0 d j)" if "j < 1024" for j
    using e [OF that] bits(2) by simp
  show new: "ptab m d j = (if j = i then p else ptab m0 d j)" if "j < 1024" for j
    using e [OF that] bits(1) by (simp add: ptab_def)
  have "{j. j < 1024 \<and> present (pde m d j)} = insert i {j. j < 1024 \<and> present (pde m0 d j)}"
    using pr assms(4) by auto
  moreover have "ptab m d ` {j. j < 1024 \<and> present (pde m0 d j)} = ptab m0 d ` {j. j < 1024 \<and> present (pde m0 d j)}"
    by (rule image_cong) (use new assms(5) in auto)
  ultimately show "tables m d = insert p (tables m0 d)"
    using new [OF assms(4)] by (auto simp: tables_def)
qed

lemma new_table:
  assumes "vm s d (p # ps)" "i < 1024" "\<not> present (pde (mem s) d i)"
    and "m = store32 (memset (mem s) p 0 PGSIZE) (word_at d i) (v2p p OR PTE_P OR PTE_W OR PTE_U)"
  shows "vm (s\<lparr>freelist := load32 (mem s) p, mem := m\<rparr>) d ps" "\<And>j. j < 1024 \<Longrightarrow> present (pde m d j) \<longleftrightarrow> j = i \<or> present (pde (mem s) d j)" "ptab m d i = p"
    "tables m d = insert p (tables (mem s) d)" "\<And>w. w < 2 ^ 20 \<Longrightarrow> pte_of m d w = pte_of (mem s) d w" "same_off (insert p (tables (mem s) d)) (mem s) m"
proof -
  have pool: "kmem_pool s (p # ps)" "tables_ok (mem s) d (set (p # ps))"
    using assms(1) by (simp_all add: vm_def)
  have p: "page_aligned p" "p \<notin> set ps" "kmem_pool (s\<lparr>freelist := load32 (mem s) p\<rparr>) ps"
    using pool(1) by (auto simp: kmem_pool_def kmem_inv_def page_ok_def)
  have d: "page_aligned d" "d \<noteq> p" "d \<notin> set ps" "d \<in> tables (mem s) d"
    using pool(2) by (auto simp: tables_ok_def tables_def)
  note ent = new_table_entries [OF p(1) d(1,2) assms(2-4)]
  note pr = ent(2) and new = ent(3)
  show "same_off (insert p (tables (mem s) d)) (mem s) m"
    by (rule same_off_mono [OF ent(1)]) (use d(4) in simp)
  show "present (pde m d j) \<longleftrightarrow> j = i \<or> present (pde (mem s) d j)" if "j < 1024" for j
    by (rule pr [OF that])
  show ti: "ptab m d i = p" "tables m d = insert p (tables (mem s) d)"
    using new [OF assms(2)] ent(4) by simp_all
  have old: "ptab (mem s) d j \<noteq> p \<and> ptab (mem s) d j \<noteq> d \<and> ptab (mem s) d j \<notin> set ps" if "j < 1024" "present (pde (mem s) d j)" for j
    using pool(2) that by (auto simp: tables_ok_def)
  have inj: "j = k" if "j < 1024" "k < 1024" "present (pde (mem s) d j)" "present (pde (mem s) d k)" "ptab (mem s) d j = ptab (mem s) d k" for j k
    using pool(2) that by (auto simp: tables_ok_def)
  have "ptab m d j \<notin> insert d (set ps)" if "j < 1024" "present (pde m d j)" for j
    using new [OF that(1)] pr [OF that(1)] old [OF that(1)] that(2) p(2) d(2) by auto
  moreover have "j = k" if "j < 1024" "k < 1024" "present (pde m d j)" "present (pde m d k)" "ptab m d j = ptab m d k" for j k
    using new pr old inj that by metis
  ultimately have ok: "tables_ok m d (set ps)"
    unfolding tables_ok_def using d(1,3) by blast
  have "kmem_pool (s\<lparr>freelist := load32 (mem s) p, mem := m\<rparr>) ps"
    using pool_same_off [OF p(3), of "{p, d}" m] ent(1) p(1,2) d by simp
  then show "vm (s\<lparr>freelist := load32 (mem s) p, mem := m\<rparr>) d ps"
    using ok by (simp add: vm_def)
  show "pte_of m d w = pte_of (mem s) d w" if "w < 2 ^ 20" for w
  proof -
    have w: "w div 1024 < 1024" "w mod 1024 < 1024"
      using that by (simp_all add: less_mult_imp_div_less)
    show ?thesis
    proof (cases "w div 1024 = i")
      case True
      have "load32 m (word_at p (w mod 1024)) = load32 (memset (mem s) p 0 PGSIZE) (word_at p (w mod 1024))"
        unfolding assms(4) using load32_store32_word [OF d(1) p(1) assms(2) w(2)] d(2) by simp
      then show ?thesis
        using True pr [OF w(1)] ti(1) load32_zero_page [OF w(2)] assms(3) by (simp add: pte_of_def)
    next
      case False
      then have "load32 m (word_at (ptab (mem s) d (w div 1024)) (w mod 1024)) = load32 (mem s) (word_at (ptab (mem s) d (w div 1024)) (w mod 1024))" if "present (pde (mem s) d (w div 1024))"
        using same_off_word [OF ent(1) _ ptab_aligned _ w(2)] old [OF w(1) that] p(1) d(1) by simp
      then show ?thesis
        using False pr [OF w(1)] new [OF w(1)] by (auto simp: pte_of_def)
    qed
  qed
qed

section \<open>Mapping pages\<close>

text \<open>There are pages for all tables that a directory may still need, and \<open>k\<close> more.\<close>

definition rich :: "memory \<Rightarrow> uint32 \<Rightarrow> uint32 list \<Rightarrow> nat \<Rightarrow> bool" where
  "rich m d ps k = (card {i. i < 1024 \<and> \<not> present (pde m d i)} + k \<le> length ps)"

text \<open>A step that changes only a directory, its tables and pages of the pool, some of which become tables.\<close>

definition grows :: "uint32 \<Rightarrow> 'z kmem_st_scheme \<Rightarrow> uint32 list \<Rightarrow> 'z kmem_st_scheme \<Rightarrow> uint32 list \<Rightarrow> bool" where
  "grows d s ps t ps' = (vm t d ps' \<and> set ps' \<subseteq> set ps \<and> tables (mem t) d \<subseteq> tables (mem s) d \<union> (set ps - set ps') \<and>
     same_off (tables (mem s) d \<union> set ps) (mem s) (mem t) \<and> page_ok t = page_ok s)"

lemma grows_trans: "grows d s ps t ps' \<Longrightarrow> grows d t ps' u ps'' \<Longrightarrow> grows d s ps u ps''"
  unfolding grows_def by (auto intro: same_off_trans)

definition pgaddr :: "nat \<Rightarrow> uint32" where
  "pgaddr v = of_nat (v * 4096)"

lemma unat_pgaddr: "v < 2 ^ 20 \<Longrightarrow> unat (pgaddr v) = v * 4096"
  unfolding pgaddr_def by (rule unat_of_nat_lt) simp

lemma pgaddr_facts:
  "v < 2 ^ 20 \<Longrightarrow> vpn (pgaddr v) = v" "pgaddr v + PGSIZE = pgaddr (Suc v)" "v < 2 ^ 20 \<Longrightarrow> w < 2 ^ 20 \<Longrightarrow> pgaddr v = pgaddr w \<longleftrightarrow> v = w"
proof -
  show "pgaddr v = pgaddr w \<longleftrightarrow> v = w" if "v < 2 ^ 20" "w < 2 ^ 20"
  proof
    assume "pgaddr v = pgaddr w"
    then have "v * 4096 = w * 4096"
      using unat_pgaddr [OF that(1)] unat_pgaddr [OF that(2)] by metis
    then show "v = w"
      by simp
  qed simp
qed (simp_all add: vpn_def unat_pgaddr, simp add: pgaddr_def)

lemma walk_alloc:
  assumes "vm s d ps" "rich (mem s) d ps k" "v = vpn va"
  shows "\<exists>t ps'. walkpgdir d va True s = Ok (Some (word_at (ptab (mem t) d (v div 1024)) (v mod 1024))) t \<and> present (pde (mem t) d (v div 1024)) \<and>
    grows d s ps t ps' \<and> rich (mem t) d ps' k \<and> (\<forall>w < 2 ^ 20. pte_of (mem t) d w = pte_of (mem s) d w)"
proof (cases "present (pde (mem s) d (v div 1024))")
  case True
  then have "walkpgdir d va True s = Ok (Some (word_at (ptab (mem s) d (v div 1024)) (v mod 1024))) s"
    by (simp add: walkpgdir_def bnd_rd word_at_vpn assms(3) pde_def [symmetric] ptab_def present_def)
  then show ?thesis
    using True assms(1,2) by (intro exI [of _ s] exI [of _ ps]) (simp add: grows_def)
next
  case False
  let ?I = "\<lambda>m. {i. i < 1024 \<and> \<not> present (pde m d i)}"
  have i: "v div 1024 < 1024"
    by (simp add: assms(3))
  then have "v div 1024 \<in> ?I (mem s)"
    using False by simp
  then obtain p ps' where ps: "ps = p # ps'"
    using assms(2) by (cases ps) (auto simp: rich_def)
  define m where "m = store32 (memset (mem s) p 0 PGSIZE) (word_at d (v div 1024)) (v2p p OR PTE_P OR PTE_W OR PTE_U)"
  define t where "t = s\<lparr>freelist := load32 (mem s) p, mem := m\<rparr>"
  note n = new_table [OF assms(1) [unfolded ps] i False m_def]
  have "freelist s = p" "p \<noteq> 0" "kmem_ready s"
    using assms(1) by (auto simp: vm_def kmem_pool_def kmem_inv_def ps)
  then have "walkpgdir d va True s = Ok (Some (word_at p (v mod 1024))) t"
    using False kalloc_eq [of s]
    by (simp add: walkpgdir_def bnd_rd word_at_vpn assms(3) [symmetric] pde_def [symmetric] present_def bnd_Ok thn_Ok md_def t_def m_def)
  moreover have "?I (mem s) = insert (v div 1024) (?I m)" "v div 1024 \<notin> ?I m"
    using n(2) i False by auto
  then have "rich m d ps' k"
    using assms(2) ps by (simp add: rich_def)
  moreover have "tables (mem s) d \<subseteq> tables m d" "set ps' \<inter> {p} = {}"
    using n(4) assms(1) by (auto simp: vm_def kmem_pool_def kmem_inv_def ps)
  then have "grows d s ps t ps'"
    using n(1,4) same_off_mono [OF n(6), of "tables (mem s) d \<union> set ps"] by (auto simp: grows_def ps t_def page_ok_def fun_eq_iff)
  ultimately show ?thesis
    using n(2,3,5) i by (intro exI [of _ t] exI [of _ ps']) (simp add: t_def)
qed

lemma map_one:
  assumes "vm s d ps" "rich (mem s) d ps k" "v < 2 ^ 20" "\<not> present (pte_of (mem s) d v)"
  shows "\<exists>t ps'. mappages_loop (Suc fuel) d (pgaddr v) lst pa perm s =
      (if pgaddr v = lst then Ok 0 else mappages_loop fuel d (pgaddr v + PGSIZE) lst (pa + PGSIZE) perm) t \<and>
    grows d s ps t ps' \<and> rich (mem t) d ps' k \<and> (\<forall>w < 2 ^ 20. pte_of (mem t) d w = (if w = v then pa OR perm OR PTE_P else pte_of (mem s) d w))"
proof -
  define va where "va = pgaddr v"
  obtain u ps' where u: "walkpgdir d va True s = Ok (Some (word_at (ptab (mem u) d (v div 1024)) (v mod 1024))) u" "present (pde (mem u) d (v div 1024))"
      "grows d s ps u ps'" "rich (mem u) d ps' k" "\<forall>w < 2 ^ 20. pte_of (mem u) d w = pte_of (mem s) d w"
    using walk_alloc [OF assms(1,2), of v va] pgaddr_facts(1) [OF assms(3)] by (auto simp: va_def)
  define m where "m = store32 (mem u) (word_at (ptab (mem u) d (v div 1024)) (v mod 1024)) (pa OR perm OR PTE_P)"
  define t where "t = u\<lparr>mem := m\<rparr>"
  have vm: "vm u d ps'"
    using u(3) by (simp add: grows_def)
  note p = set_pte [OF vm assms(3) u(2) m_def]
  have pte: "pte_of (mem s) d v = load32 (mem u) (word_at (ptab (mem u) d (v div 1024)) (v mod 1024))"
    using u(2,5) assms(3) by (auto simp: pte_of_def)
  have "load32 (mem u) (word_at (ptab (mem u) d (v div 1024)) (v mod 1024)) AND PTE_P = 0"
    using pte assms(4) by (simp add: present_def)
  then have "mappages_loop (Suc fuel) d va lst pa perm s = (if va = lst then Ok 0 else mappages_loop fuel d (va + PGSIZE) lst (pa + PGSIZE) perm) t"
    using u(1) by (simp add: bnd_Ok bnd_rd thn_Ok md_def t_def m_def)
  moreover have "grows d u ps' t ps'"
    using p(1,3) same_off_mono [OF p(5), of "tables (mem u) d \<union> set ps'"] by (auto simp: grows_def t_def page_ok_def fun_eq_iff)
  then have "grows d s ps t ps'"
    by (rule grows_trans [OF u(3)])
  moreover have "{i. i < 1024 \<and> \<not> present (pde m d i)} = {i. i < 1024 \<and> \<not> present (pde (mem u) d i)}"
    using p(2) by auto
  then have "rich (mem t) d ps' k"
    using u(4) by (simp add: rich_def t_def)
  ultimately show ?thesis
    unfolding va_def using p(4) u(5) by (intro exI [of _ t] exI [of _ ps']) (simp add: t_def)
qed

lemma mappages_loop_ok:
  assumes "vm s d ps" "rich (mem s) d ps k" "v + n < 2 ^ 20" "n < fuel" "\<forall>w. v \<le> w \<and> w \<le> v + n \<longrightarrow> \<not> present (pte_of (mem s) d w)"
  shows "\<exists>t ps'. mappages_loop fuel d (pgaddr v) (pgaddr (v + n)) pa perm s = Ok 0 t \<and> grows d s ps t ps' \<and> rich (mem t) d ps' k \<and>
    (\<forall>w < 2 ^ 20. pte_of (mem t) d w = (if v \<le> w \<and> w \<le> v + n then (pa + of_nat (w - v) * 4096) OR perm OR PTE_P else pte_of (mem s) d w))"
  using assms
proof (induction n arbitrary: v s ps pa fuel)
  case 0
  then obtain f where "fuel = Suc f"
    by (cases fuel) auto
  then show ?case
    using map_one [OF "0.prems"(1,2), of v f "pgaddr v" pa perm] 0 by fastforce
next
  case (Suc n)
  then obtain f where f: "fuel = Suc f" "n < f"
    by (cases fuel) auto
  have ne: "pgaddr v \<noteq> pgaddr (v + Suc n)"
    using pgaddr_facts(3) [of v "v + Suc n"] Suc.prems(3) by simp
  obtain u qs where u: "mappages_loop fuel d (pgaddr v) (pgaddr (v + Suc n)) pa perm s =
        mappages_loop f d (pgaddr v + PGSIZE) (pgaddr (v + Suc n)) (pa + PGSIZE) perm u"
      "grows d s ps u qs" "rich (mem u) d qs k" "\<forall>w < 2 ^ 20. pte_of (mem u) d w = (if w = v then pa OR perm OR PTE_P else pte_of (mem s) d w)"
    using map_one [OF Suc.prems(1,2), of v f "pgaddr (v + Suc n)" pa perm] Suc.prems(3,5) f(1) ne by auto
  have "vm u d qs" "\<forall>w. Suc v \<le> w \<and> w \<le> Suc v + n \<longrightarrow> \<not> present (pte_of (mem u) d w)"
    using u(2,4) Suc.prems(3,5) by (auto simp: grows_def)
  then obtain t ps' where t: "mappages_loop f d (pgaddr (Suc v)) (pgaddr (Suc v + n)) (pa + PGSIZE) perm u = Ok 0 t" "grows d u qs t ps'" "rich (mem t) d ps' k"
      "\<forall>w < 2 ^ 20. pte_of (mem t) d w = (if Suc v \<le> w \<and> w \<le> Suc v + n then (pa + PGSIZE + of_nat (w - Suc v) * 4096) OR perm OR PTE_P else pte_of (mem u) d w)"
    using Suc.IH [of u qs "Suc v" f "pa + PGSIZE"] u(3) f(2) Suc.prems(3) by auto
  have "pte_of (mem t) d w = (if v \<le> w \<and> w \<le> v + Suc n then (pa + of_nat (w - v) * 4096) OR perm OR PTE_P else pte_of (mem s) d w)" if "w < 2 ^ 20" for w
  proof (cases "Suc v \<le> w \<and> w \<le> Suc v + n")
    case True
    then have "w - v = Suc (w - Suc v)"
      by arith
    then show ?thesis
      using t(4) that True by (simp add: algebra_simps)
  qed (use t(4) u(4) that in auto)
  moreover have "mappages_loop fuel d (pgaddr v) (pgaddr (v + Suc n)) pa perm s = Ok 0 t"
    using u(1) t(1) by (simp only: pgaddr_facts(2) add_Suc_shift)
  ultimately show ?case
    using t(3) grows_trans [OF u(2) t(2)] by blast
qed

lemma PGROUNDDOWN_pgaddr: "PGROUNDDOWN a = pgaddr (vpn a)"
proof -
  have "unat a = vpn a * 4096 + unat (a AND 0xFFF)"
  proof -
    have "unat (a AND 0xFFF) = unat a mod 4096"
      unfolding mask12 by (simp add: unat_mod take_bit_eq_mod flip: take_bit_eq_mask)
    then show ?thesis
      by (simp add: vpn_def div_mult_mod_eq)
  qed
  then have "(of_nat (unat a) :: uint32) = of_nat (vpn a * 4096) + of_nat (unat (a AND 0xFFF))"
    by (simp only: of_nat_add)
  then have "a = pgaddr (vpn a) + (a AND 0xFFF)"
    by (simp add: pgaddr_def)
  then show ?thesis
    using page_split [of a] by (metis add_right_cancel)
qed

lemma mappages_ok:
  assumes "vm s d ps" "rich (mem s) d ps k" "v + n < 2 ^ 20" "\<forall>w. v \<le> w \<and> w \<le> v + n \<longrightarrow> \<not> present (pte_of (mem s) d w)" "vpn va = v" "vpn (va + sz - 1) = v + n"
  shows "\<exists>t ps'. mappages d va sz pa perm s = Ok 0 t \<and> grows d s ps t ps' \<and> rich (mem t) d ps' k \<and>
    (\<forall>w < 2 ^ 20. pte_of (mem t) d w = (if v \<le> w \<and> w \<le> v + n then (pa + of_nat (w - v) * 4096) OR perm OR PTE_P else pte_of (mem s) d w))"
  unfolding mappages_def PGROUNDDOWN_pgaddr assms(5,6) by (rule mappages_loop_ok) (use assms in simp_all)

section \<open>The kernel part\<close>

definition kpte :: "uint32 \<Rightarrow> nat \<Rightarrow> uint32" where
  "kpte data w =
     (if 0x80000 \<le> w \<and> w < 0x8E000 then pgaddr (w - 0x80000) OR (if 0x80100 \<le> w \<and> w < vpn data then 0 else PTE_W) OR PTE_P
      else if 0xFE000 \<le> w then pgaddr w OR PTE_W OR PTE_P
      else 0)"

definition data_ok :: "uint32 \<Rightarrow> bool" where
  "data_ok data = (page_aligned data \<and> KERNLINK < data \<and> data < 0x8E000000)"

lemma data_facts:
  assumes "data_ok data"
  shows "data = pgaddr (vpn data)" "0x80100 < vpn data" "vpn data < 0x8E000" "vpn (data - 1) = vpn data - 1"
proof -
  have l: "0x80100000 < unat data" "unat data < 0x8E000000" "4096 dvd unat data"
    using assms by (simp_all add: data_ok_def word_less_nat_alt page_aligned_dvd)
  then obtain k where k: "unat data = 4096 * k"
    by blast
  then show v: "0x80100 < vpn data" "vpn data < 0x8E000"
    using l by (simp_all add: vpn_def)
  have "data AND 0xFFF = 0"
    using assms by (simp add: data_ok_def page_aligned_bits)
  then show "data = pgaddr (vpn data)"
    using page_split [of data] PGROUNDDOWN_pgaddr [of data] by simp
  have "unat (data - 1) = 4096 * k - 1"
    using k l by (subst unat_minus_one) auto
  moreover have "(4096 * k - 1) div 4096 = k - 1" "vpn data = k"
    using k l(1) by (simp_all add: vpn_def)
  ultimately show "vpn (data - 1) = vpn data - 1"
    by (simp add: vpn_def)
qed

definition maps :: "uint32 \<Rightarrow> 'z kmem_st_scheme \<Rightarrow> uint32 list \<Rightarrow> nat \<Rightarrow> (nat \<Rightarrow> uint32) \<Rightarrow> 'z kmem_st_scheme \<Rightarrow> uint32 list \<Rightarrow> bool" where
  "maps d s ps k f t ps' = (grows d s ps t ps' \<and> rich (mem t) d ps' k \<and> (\<forall>w < 2 ^ 20. pte_of (mem t) d w = f w))"

lemma maps_mappages:
  assumes "maps d s ps k f t qs" "v + n < 2 ^ 20" "\<forall>w. v \<le> w \<and> w \<le> v + n \<longrightarrow> \<not> present (f w)" "vpn va = v" "vpn (va + sz - 1) = v + n"
  shows "\<exists>u ps'. mappages d va sz pa perm t = Ok 0 u \<and> maps d s ps k (\<lambda>w. if v \<le> w \<and> w \<le> v + n then (pa + of_nat (w - v) * 4096) OR perm OR PTE_P else f w) u ps'"
proof -
  have "vm t d qs" "rich (mem t) d qs k" "\<forall>w. v \<le> w \<and> w \<le> v + n \<longrightarrow> \<not> present (pte_of (mem t) d w)"
    using assms(1-3) by (auto simp: maps_def grows_def)
  from mappages_ok [OF this(1,2) assms(2) this(3) assms(4,5), of pa perm] show ?thesis
    using assms(1) grows_trans by (fastforce simp: maps_def)
qed

lemma fresh_dir:
  assumes "kmem_pool s (p # ps)" "1024 + k \<le> length ps" "t = s\<lparr>freelist := load32 (mem s) p, mem := memset (mem s) p 0 PGSIZE\<rparr>"
  shows "vm t p ps" "rich (mem t) p ps k" "\<And>w. w < 2 ^ 20 \<Longrightarrow> pte_of (mem t) p w = 0" "tables (mem t) p = {p}" "same_off {p} (mem s) (mem t)" "page_ok t = page_ok s"
proof -
  have p: "page_aligned p" "p \<notin> set ps" "kmem_pool (s\<lparr>freelist := load32 (mem s) p\<rparr>) ps"
    using assms(1) by (auto simp: kmem_pool_def kmem_inv_def page_ok_def)
  have z: "pde (mem t) p i = 0" if "i < 1024" for i
    using load32_zero_page [OF that] by (simp add: pde_def assms(3))
  show off: "same_off {p} (mem s) (mem t)"
    using same_off_memset by (simp add: assms(3))
  have "kmem_pool t ps"
    using pool_same_off [OF p(3), of "{p}" "mem t"] off p(1,2) by (simp add: assms(3))
  then show "vm t p ps"
    using z p(1,2) by (simp add: vm_def tables_ok_def present_def)
  have "{i. i < 1024 \<and> \<not> present (pde (mem t) p i)} = {..<1024}"
    using z by (auto simp: present_def)
  then show "rich (mem t) p ps k"
    using assms(2) by (simp add: rich_def)
  show "pte_of (mem t) p w = 0" if "w < 2 ^ 20" for w
    using z [of "w div 1024"] that by (simp add: pte_of_def present_def less_mult_imp_div_less)
  show "tables (mem t) p = {p}"
    using z by (auto simp: tables_def present_def)
  show "page_ok t = page_ok s"
    by (simp add: assms(3) page_ok_def fun_eq_iff)
qed

lemma pgaddr_add: "pgaddr a + of_nat b * 4096 = pgaddr (a + b)"
  by (simp add: pgaddr_def distrib_right)

text \<open>The kernel part is built from below.\<close>

definition kpte_to :: "uint32 \<Rightarrow> nat \<Rightarrow> nat \<Rightarrow> uint32" where
  "kpte_to data b w = (if w < b then kpte data w else 0)"

lemma maps_kernel:
  assumes "maps d s ps k (kpte_to data v) t qs" "v < e" "e \<le> 2 ^ 20" "vpn va = v" "vpn (va + sz - 1) = e - 1" "pa = pgaddr b"
    and "\<And>w. v \<le> w \<Longrightarrow> w < e \<Longrightarrow> kpte data w = pgaddr (b + (w - v)) OR perm OR PTE_P"
  shows "\<exists>u ps'. mappages d va sz pa perm t = Ok 0 u \<and> maps d s ps k (kpte_to data e) u ps'"
proof -
  let ?n = "e - 1 - v"
  have n: "v + ?n = e - 1"
    using assms(2) by simp
  have f: "(if v \<le> w \<and> w \<le> v + ?n then (pa + of_nat (w - v) * 4096) OR perm OR PTE_P else kpte_to data v w) = kpte_to data e w" for w
    using assms(2) assms(7) [of w] unfolding n assms(6) pgaddr_add by (auto simp: kpte_to_def)
  have "\<forall>w. v \<le> w \<and> w \<le> v + ?n \<longrightarrow> \<not> present (kpte_to data v w)"
    by (simp add: kpte_to_def present_def)
  from maps_mappages [OF assms(1) _ this assms(4), of sz pa perm, unfolded f] show ?thesis
    using assms(2,3,5) n by simp
qed

lemma v2p_pgaddr: "0x80000 \<le> v \<Longrightarrow> v2p (pgaddr v) = pgaddr (v - 0x80000)"
  using pgaddr_add [of "v - 0x80000" "0x80000"] by (simp add: v2p_def diff_eq_eq)

lemma setupkvm_maps:
  assumes "vm t p ps" "rich (mem t) p ps k" "\<forall>w < 2 ^ 20. pte_of (mem t) p w = 0" "data_ok data"
  shows "\<exists>u ps'. for_find (kmap_table data) (\<lambda>k. bnd (mappages p (k_virt k) (k_phys_end k - k_phys_start k) (k_phys_start k) (k_perm k)) (\<lambda>r. ret (if r < 0 then Some 0 else None))) t = Ok (None :: uint32 option) u \<and>
    maps p t ps k (kpte data) u ps'"
proof -
  note d = data_facts [OF assms(4)]
  have v: "v2p data = pgaddr (vpn data - 0x80000)" "v2p KERNLINK = pgaddr 0x100"
    using v2p_pgaddr [of "vpn data"] d(1,2) by (simp_all add: v2p_def pgaddr_def [of "0x100"])
  have 0: "maps p t ps k (kpte_to data 0x80000) t ps"
    using assms by (simp add: maps_def grows_def kpte_to_def kpte_def)
  obtain u1 q1 where 1: "mappages p KERNBASE EXTMEM 0 PTE_W t = Ok 0 u1" "maps p t ps k (kpte_to data 0x80100) u1 q1"
    using maps_kernel [OF 0, of "0x80100" KERNBASE EXTMEM 0 0 PTE_W] by (auto simp: vpn_def [of KERNBASE] vpn_def [of "0x800FFFFF"] kpte_def pgaddr_def [of 0])
  obtain u2 q2 where 2: "mappages p KERNLINK (v2p data - v2p KERNLINK) (v2p KERNLINK) 0 u1 = Ok 0 u2" "maps p t ps k (kpte_to data (vpn data)) u2 q2"
    using maps_kernel [OF 1(2), of "vpn data" KERNLINK "v2p data - v2p KERNLINK" "v2p KERNLINK" "0x100" 0] d v(2)
    by (auto simp: vpn_def [of KERNLINK] v2p_def [of data] v2p_def [of KERNLINK] kpte_def)
  have s: "data + (PHYSTOP - v2p data) - 1 = 0x8DFFFFFF" "vpn 0x8DFFFFFF = 0x8E000 - 1"
    by (simp_all add: v2p_def vpn_def)
  have "kpte data w = pgaddr (vpn data - 0x80000 + (w - vpn data)) OR PTE_W OR PTE_P" if "vpn data \<le> w" "w < 0x8E000" for w
    using that d(2) by (simp add: kpte_def)
  then obtain u3 q3 where 3: "mappages p data (PHYSTOP - v2p data) (v2p data) PTE_W u2 = Ok 0 u3" "maps p t ps k (kpte_to data 0x8E000) u3 q3"
    using maps_kernel [OF 2(2) d(3) _ refl _ v(1), of "PHYSTOP - v2p data" PTE_W] s by auto
  have "kpte_to data 0x8E000 = kpte_to data 0xFE000"
    by (auto simp: kpte_to_def kpte_def fun_eq_iff)
  then have m: "maps p t ps k (kpte_to data 0xFE000) u3 q3"
    using 3(2) by simp
  have dev: "DEVSPACE = pgaddr 0xFE000" "vpn DEVSPACE = 0xFE000" "vpn (DEVSPACE + (0 - DEVSPACE) - 1) = 2 ^ 20 - 1"
    by (simp_all add: pgaddr_def vpn_def unsigned_minus_1_eq_mask mask_eq_exp_minus_1)
  have "kpte data w = pgaddr (0xFE000 + (w - 0xFE000)) OR PTE_W OR PTE_P" if "0xFE000 \<le> w" "w < 2 ^ 20" for w
    using that by (simp add: kpte_def)
  then obtain u4 q4 where 4: "mappages p DEVSPACE (0 - DEVSPACE) DEVSPACE PTE_W u3 = Ok 0 u4" "maps p t ps k (kpte_to data (2 ^ 20)) u4 q4"
    using maps_kernel [OF m _ order_refl dev(2,3,1), of PTE_W] by auto
  then have "maps p t ps k (kpte data) u4 q4"
    by (simp add: maps_def kpte_to_def)
  then show ?thesis
    using 1(1) 2(1) 3(1) 4(1) by (intro exI [of _ u4] exI [of _ q4]) (simp add: kmap_table_def bnd_Ok)
qed

lemma setupkvm_ok:
  assumes "kmem_pool s (p # ps)" "1024 + k \<le> length ps" "data_ok data"
  shows "\<exists>t ps'. setupkvm data s = Ok p t \<and> vm t p ps' \<and> rich (mem t) p ps' k \<and> (\<forall>w < 2 ^ 20. pte_of (mem t) p w = kpte data w) \<and> set ps' \<subseteq> set ps \<and>
    tables (mem t) p \<subseteq> set (p # ps) - set ps' \<and> same_off (set (p # ps)) (mem s) (mem t) \<and> page_ok t = page_ok s"
proof -
  define t where "t = s\<lparr>freelist := load32 (mem s) p, mem := memset (mem s) p 0 PGSIZE\<rparr>"
  note f = fresh_dir [OF assms(1,2) t_def]
  have p: "freelist s = p" "p \<noteq> 0" "kmem_ready s"
    using assms(1) by (auto simp: kmem_pool_def kmem_inv_def)
  obtain u ps' where u: "for_find (kmap_table data) (\<lambda>k. bnd (mappages p (k_virt k) (k_phys_end k - k_phys_start k) (k_phys_start k) (k_perm k)) (\<lambda>r. ret (if r < 0 then Some 0 else None))) t = Ok (None :: uint32 option) u"
      "maps p t ps k (kpte data) u ps'"
    using setupkvm_maps [OF f(1,2) _ assms(3)] f(3) by blast
  have "setupkvm data s = Ok p u"
    using p kalloc_eq [of s] u(1) by (simp add: setupkvm_def bnd_Ok thn_Ok md_def t_def p2v_def)
  moreover have "vm u p ps'" "rich (mem u) p ps' k" "\<forall>w < 2 ^ 20. pte_of (mem u) p w = kpte data w" "set ps' \<subseteq> set ps" "page_ok u = page_ok s"
    using u(2) f(6) by (simp_all add: maps_def grows_def)
  moreover have "tables (mem u) p \<subseteq> set (p # ps)" "same_off (set (p # ps)) (mem s) (mem u)"
    using u(2) f(4) same_off_trans [OF same_off_mono [OF f(5)], of "set (p # ps)" "insert p (set ps)" "mem u"] by (auto simp: maps_def grows_def)
  moreover have "tables (mem u) p \<inter> set ps' = {}"
    using \<open>vm u p ps'\<close> by (auto simp: vm_def tables_ok_def tables_def)
  ultimately show ?thesis
    by blast
qed

section \<open>Copying an address space\<close>

text \<open>The page of physical memory behind a page of an address space.\<close>

definition page_of :: "memory \<Rightarrow> uint32 \<Rightarrow> nat \<Rightarrow> uint32" where
  "page_of m d v = p2v (PTE_ADDR (pte_of m d v))"

lemma walk_no_alloc:
  assumes "present (pte_of (mem s) d (vpn va))"
  shows "\<exists>a. walkpgdir d va False s = Ok (Some a) s \<and> load32 (mem s) a = pte_of (mem s) d (vpn va)"
proof -
  have "present (pde (mem s) d (vpn va div 1024))"
    using assms by (auto simp: pte_of_def present_def split: if_splits)
  then show ?thesis
    by (simp add: walkpgdir_def bnd_rd word_at_vpn pde_def [symmetric] ptab_def [symmetric] present_def pte_of_def)
qed

text \<open>
  The state in the loop of \<^verbatim>\<open>copyuvm\<close> after \<open>n\<close> pages, when \<open>P\<close> were the pages of the pool at the beginning, in the state \<open>s\<close>, and the loop will need \<open>k\<close> more pages besides those for tables.
\<close>

definition copied :: "'z kmem_st_scheme \<Rightarrow> uint32 set \<Rightarrow> uint32 \<Rightarrow> uint32 \<Rightarrow> uint32 \<Rightarrow> nat \<Rightarrow> nat \<Rightarrow> 'z kmem_st_scheme \<Rightarrow> uint32 list \<Rightarrow> bool" where
  "copied s P data d d' n k t ps = (vm t d' ps \<and> rich (mem t) d' ps k \<and> set ps \<subseteq> P \<and> tables (mem t) d' \<subseteq> P \<and> same_off P (mem s) (mem t) \<and> page_ok t = page_ok s \<and>
     (\<forall>w < 2 ^ 20. n \<le> w \<longrightarrow> pte_of (mem t) d' w = kpte data w) \<and>
     (\<forall>w < n. PTE_FLAGS (pte_of (mem t) d' w) = PTE_FLAGS (pte_of (mem s) d w) \<and> page_of (mem t) d' w \<in> P - set ps - tables (mem t) d' \<and>
        (\<forall>i. unat i < 4096 \<longrightarrow> mem t (page_of (mem t) d' w + i) = mem s (page_of (mem s) d w + i))) \<and>
     inj_on (page_of (mem t) d') {..<n})"

lemma copiedD:
  assumes "copied s P data d d' n k t ps"
  shows "vm t d' ps" "rich (mem t) d' ps k" "set ps \<subseteq> P" "tables (mem t) d' \<subseteq> P" "same_off P (mem s) (mem t)" "page_ok t = page_ok s"
    "\<And>w. w < 2 ^ 20 \<Longrightarrow> n \<le> w \<Longrightarrow> pte_of (mem t) d' w = kpte data w" "\<And>w. w < n \<Longrightarrow> PTE_FLAGS (pte_of (mem t) d' w) = PTE_FLAGS (pte_of (mem s) d w)"
    "\<And>w. w < n \<Longrightarrow> page_of (mem t) d' w \<in> P - set ps - tables (mem t) d'" "\<And>w i. w < n \<Longrightarrow> unat i < 4096 \<Longrightarrow> mem t (page_of (mem t) d' w + i) = mem s (page_of (mem s) d w + i)"
    "inj_on (page_of (mem t) d') {..<n}"
  using assms by (simp_all add: copied_def)

text \<open>What \<^verbatim>\<open>copyuvm\<close> relies on: the pages of the parent exist, come from the allocator and are not free.\<close>

definition parent_ok :: "'z kmem_st_scheme \<Rightarrow> uint32 set \<Rightarrow> uint32 \<Rightarrow> nat \<Rightarrow> bool" where
  "parent_ok s P d n = ((\<forall>p \<in> P. page_aligned p) \<and> tables_ok (mem s) d P \<and> (\<forall>w < n. present (pte_of (mem s) d w) \<and> page_of (mem s) d w \<notin> P \<and> page_ok s (page_of (mem s) d w)))"

lemma parent_same:
  assumes "parent_ok s P d n" "same_off P (mem s) (mem t)"
  shows "w < 2 ^ 20 \<Longrightarrow> pte_of (mem t) d w = pte_of (mem s) d w" "w < n \<Longrightarrow> unat i < 4096 \<Longrightarrow> mem t (page_of (mem s) d w + i) = mem s (page_of (mem s) d w + i)"
proof -
  have a: "\<forall>p \<in> P. page_aligned p" "tables_ok (mem s) d P" "P \<inter> tables (mem s) d = {}"
    using assms(1) by (auto simp: parent_ok_def tables_ok_def tables_def)
  show "w < 2 ^ 20 \<Longrightarrow> pte_of (mem t) d w = pte_of (mem s) d w"
    by (rule tables_same_off(2) [OF a(2) assms(2) a(1,3)])
  show "mem t (page_of (mem s) d w + i) = mem s (page_of (mem s) d w + i)" if "w < n" "unat i < 4096"
    using same_off_page [OF assms(2) a(1), of "page_of (mem s) d w"] assms(1) that small_offset [OF that(2)] by (auto simp: parent_ok_def page_ok_def)
qed

lemma page_ok_bound:
  assumes "page_ok s p"
  shows "unat p + 4096 < 2 ^ 32"
proof -
  have "unat (v2p p) < 0xE000000"
    using assms by (simp add: page_ok_def word_less_nat_alt)
  moreover have "unat (v2p p + 0x80000000) = unat (v2p p) + 0x80000000"
    using calculation by (subst unat_add_lt) simp_all
  ultimately show ?thesis
    by (simp add: v2p_def)
qed

text \<open>The page that is taken for the copy, filled, before it is mapped.\<close>

lemma copy_page_state:
  assumes "copied s P data d d' n (Suc k) t (p # qs)" "parent_ok s P d (Suc n)"
    and "u = t\<lparr>freelist := load32 (mem t) p, mem := memmove (mem t) p (page_of (mem s) d n) PGSIZE\<rparr>"
  shows "vm u d' qs" "rich (mem u) d' qs k" "\<And>w. w < 2 ^ 20 \<Longrightarrow> pte_of (mem u) d' w = pte_of (mem t) d' w" "tables (mem u) d' = tables (mem t) d'" "same_off {p} (mem t) (mem u)"
    "\<And>i. unat i < 4096 \<Longrightarrow> mem u (p + i) = mem s (page_of (mem s) d n + i)" "p \<notin> set qs" "p \<notin> tables (mem t) d'" "page_ok u = page_ok s" "page_aligned p"
proof -
  note c = copiedD [OF assms(1)]
  have pool: "kmem_pool t (p # qs)" "tables_ok (mem t) d' (set (p # qs))"
    using c(1) by (simp_all add: vm_def)
  then have "page_ok t p" and p: "kmem_pool (t\<lparr>freelist := load32 (mem t) p\<rparr>) qs" "page_aligned p"
    by (auto simp: kmem_pool_def kmem_inv_def page_ok_def)
  then have ok: "page_ok s p"
    using c(6) by simp
  show n: "p \<notin> set qs" "p \<notin> tables (mem t) d'" "page_aligned p"
    using pool p(2) by (auto simp: kmem_pool_def kmem_inv_def tables_ok_def tables_def)
  have q: "page_ok s (page_of (mem s) d n)"
    using assms(2) by (simp add: parent_ok_def)
  note mv = memmove_page [OF page_ok_bound [OF ok] page_ok_bound [OF q], where m = "mem t"]
  show off: "same_off {p} (mem t) (mem u)"
    using mv(1) by (simp add: assms(3))
  have al: "\<forall>x \<in> {p}. page_aligned x" "{p} \<inter> tables (mem t) d' = {}"
    using n by simp_all
  note ts = tables_same_off [OF pool(2) off al]
  show "\<And>w. w < 2 ^ 20 \<Longrightarrow> pte_of (mem u) d' w = pte_of (mem t) d' w" "tables (mem u) d' = tables (mem t) d'"
    by (fact ts)+
  have "kmem_pool u qs"
    using pool_same_off [OF p(1), of "{p}" "mem u"] off n by (simp add: assms(3))
  moreover have "tables_ok (mem u) d' (set qs)"
    using ts(4) by (simp add: tables_ok_def)
  ultimately show "vm u d' qs"
    by (simp add: vm_def)
  have "{i. i < 1024 \<and> \<not> present (pde (mem u) d' i)} = {i. i < 1024 \<and> \<not> present (pde (mem t) d' i)}"
    using ts(1) by auto
  then show "rich (mem u) d' qs k"
    using c(2) by (simp add: rich_def)
  show "mem u (p + i) = mem s (page_of (mem s) d n + i)" if "unat i < 4096" for i
    using mv(2) [OF that] parent_same(2) [OF assms(2) c(5), of n i] that by (simp add: assms(3))
  show "page_ok u = page_ok s"
    using c(6) by (auto simp: assms(3) fun_eq_iff)
qed

lemma flags_present: "present e \<Longrightarrow> PTE_FLAGS e OR PTE_P = PTE_FLAGS e" "PTE_FLAGS e AND NOT 0xFFF = 0" "present (PTE_FLAGS e) = present e"
proof -
  show "PTE_FLAGS e AND NOT 0xFFF = 0"
    by (simp add: PTE_FLAGS_def and.assoc)
  have one: "x AND 1 = 0 \<longleftrightarrow> \<not> bit x 0" for x :: uint32
    by (simp add: and_one_eq even_bit_succ_iff bit_0 odd_iff_mod_2_eq_one)
  have b: "bit (PTE_FLAGS e) 0 = bit e 0"
    unfolding PTE_FLAGS_def mask12 by (simp add: bit_simps)
  then show "present (PTE_FLAGS e) = present e"
    by (simp add: present_def one)
  show "PTE_FLAGS e OR PTE_P = PTE_FLAGS e" if "present e"
    using that b by (intro bit_word_eqI) (auto simp: bit_simps present_def one bit_1_iff)
qed

lemma copied_step:
  assumes "copied s P data d d' n (Suc k) t (p # qs)" "parent_ok s P d (Suc n)" "n < 2 ^ 19"
    and u: "vm u d' qs" "rich (mem u) d' qs k" "\<And>w. w < 2 ^ 20 \<Longrightarrow> pte_of (mem u) d' w = pte_of (mem t) d' w" "tables (mem u) d' = tables (mem t) d'" "same_off {p} (mem t) (mem u)"
      "\<And>i. unat i < 4096 \<Longrightarrow> mem u (p + i) = mem s (page_of (mem s) d n + i)" "p \<notin> set qs" "p \<notin> tables (mem t) d'" "page_ok u = page_ok s" "page_aligned p"
    and v: "grows d' u qs v ps'" "rich (mem v) d' ps' k" "\<forall>w < 2 ^ 20. pte_of (mem v) d' w = (if w = n then v2p p OR PTE_FLAGS (pte_of (mem s) d n) else pte_of (mem u) d' w)"
  shows "copied s P data d d' (Suc n) k v ps'"
proof -
  note c = copiedD [OF assms(1)]
  have al: "\<forall>q \<in> P. page_aligned q" and pP: "p \<in> P"
    using assms(2) c(3) by (simp_all add: parent_ok_def)
  have g: "vm v d' ps'" "set ps' \<subseteq> set qs" "tables (mem v) d' \<subseteq> tables (mem t) d' \<union> (set qs - set ps')" "same_off (tables (mem t) d' \<union> set qs) (mem u) (mem v)" "page_ok v = page_ok s"
    using v(1) u(4,9) by (simp_all add: grows_def)
  have sub: "tables (mem t) d' \<union> set qs \<subseteq> P"
    using c(3,4) by auto
  have off: "same_off P (mem s) (mem v)"
    by (rule same_off_trans [OF same_off_trans [OF c(5) u(5)] g(4)]) (use sub pP in auto)
  have old: "pte_of (mem v) d' w = pte_of (mem t) d' w" "page_of (mem v) d' w = page_of (mem t) d' w" if "w < 2 ^ 20" "w \<noteq> n" for w
    using v(3) u(3) that by (simp_all add: page_of_def)
  have new: "pte_of (mem v) d' n = v2p p OR PTE_FLAGS (pte_of (mem s) d n)"
    using v(3) assms(3) by simp
  then have n: "page_of (mem v) d' n = p" "PTE_FLAGS (pte_of (mem v) d' n) = PTE_FLAGS (pte_of (mem s) d n)"
    using entry_bits [OF page_aligned_p2v(2) [OF u(10)] flags_present(2) [of "pte_of (mem s) d n"]] by (simp_all add: page_of_def)
  have keep: "mem v (q + i) = mem u (q + i)" if "q \<in> P" "q \<notin> tables (mem t) d' \<union> set qs" "unat i < 4096" for q i
    using same_off_page [OF g(4) _ _ that(2), of "q + i"] al sub that small_offset [OF that(3)] by auto
  have keep': "mem u (q + i) = mem t (q + i)" if "q \<in> P" "q \<noteq> p" "unat i < 4096" for q i
    using same_off_page [OF u(5), of q "q + i"] al that small_offset [OF that(3)] u(10) by auto
  have lt: "w < 2 ^ 20" if "w \<le> n" for w
    using that assms(3) by simp
  have p: "page_of (mem t) d' w \<in> P" "page_of (mem t) d' w \<notin> tables (mem t) d' \<union> set qs" "page_of (mem t) d' w \<noteq> p" if "w < n" for w
    using c(9) [OF that] by auto
  have "mem v (page_of (mem v) d' w + i) = mem s (page_of (mem s) d w + i)" if "w < Suc n" "unat i < 4096" for w i
  proof (cases "w = n")
    case True
    then show ?thesis
      using keep [OF pP _ that(2)] u(6) [OF that(2)] u(7,8) n(1) by simp
  next
    case False
    then have "w < n"
      using that(1) by simp
    then show ?thesis
      using keep [OF p(1,2) that(2)] keep' [OF p(1,3) that(2)] c(10) [OF _ that(2)] old(2) [of w] lt [of w] False by simp
  qed
  moreover have "page_of (mem v) d' w \<in> P - set ps' - tables (mem v) d'" if "w < Suc n" for w
    using that p [of w] n(1) old(2) [of w] lt [of w] g(2,3) pP u(7,8) by (cases "w = n") auto
  moreover have "PTE_FLAGS (pte_of (mem v) d' w) = PTE_FLAGS (pte_of (mem s) d w)" if "w < Suc n" for w
    using that n(2) old(1) [of w] c(8) [of w] lt [of w] by (cases "w = n") auto
  moreover have "inj_on (page_of (mem v) d') {..<Suc n}"
  proof -
    have "inj_on (page_of (mem v) d') {..<n}"
      using c(11) old(2) lt by (subst inj_on_cong [of _ _ "page_of (mem t) d'"]) auto
    moreover have "page_of (mem v) d' n \<notin> page_of (mem v) d' ` {..<n}"
      using n(1) p(3) old(2) lt by (auto simp: image_iff) metis
    ultimately show ?thesis
      by (simp add: lessThan_Suc)
  qed
  moreover have "pte_of (mem v) d' w = kpte data w" if "w < 2 ^ 20" "Suc n \<le> w" for w
    using old(1) [of w] c(7) [of w] that by simp
  ultimately show ?thesis
    using g(1,2,3,5) v(2) off sub unfolding copied_def by auto
qed

lemma copyuvm_page_ok:
  assumes "copied s P data d d' n (Suc k) t ps" "parent_ok s P d (Suc n)" "n < 2 ^ 19"
  shows "\<exists>v ps'. copyuvm_page d d' (n * 4096) t = Ok None v \<and> copied s P data d d' (Suc n) k v ps'"
proof -
  note c = copiedD [OF assms(1)]
  obtain p qs where ps: "ps = p # qs"
    using c(2) by (cases ps) (auto simp: rich_def)
  let ?e = "pte_of (mem s) d n"
  have n: "n < 2 ^ 20" "vpn (pgaddr n) = n"
    using assms(3) pgaddr_facts(1) [of n] by simp_all
  have e: "present ?e" "pte_of (mem t) d n = ?e"
    using assms(2) parent_same(1) [OF assms(2) c(5)] n(1) by (simp_all add: parent_ok_def)
  obtain a where a: "walkpgdir d (pgaddr n) False t = Ok (Some a) t" "load32 (mem t) a = ?e"
    using walk_no_alloc [of t d "pgaddr n"] e n(2) by auto
  define u where "u = t\<lparr>freelist := load32 (mem t) p, mem := memmove (mem t) p (page_of (mem s) d n) PGSIZE\<rparr>"
  note u = copy_page_state [OF assms(1) [unfolded ps] assms(2) u_def]
  have "freelist t = p" "p \<noteq> 0" "kmem_ready t"
    using c(1) by (auto simp: vm_def kmem_pool_def kmem_inv_def ps)
  then have k: "kalloc t = Ok p (t\<lparr>freelist := load32 (mem t) p\<rparr>)" "p \<noteq> 0"
    using kalloc_eq [of t] by auto
  have "pte_of (mem u) d' n = 0"
    using u(3) [OF n(1)] c(7) [OF n(1)] assms(3) by (simp add: kpte_def)
  then have np: "\<forall>w. n \<le> w \<and> w \<le> n + 0 \<longrightarrow> \<not> present (pte_of (mem u) d' w)"
    by (auto simp: present_def dest: le_antisym)
  have last: "vpn (pgaddr n + PGSIZE - 1) = n + 0"
  proof -
    have "unat (0xFFF + pgaddr n) = n * 4096 + 4095"
      using unat_pgaddr [OF n(1)] n(1) by (subst unat_add_lt) simp_all
    then show ?thesis
      by (simp add: vpn_def)
  qed
  obtain v ps' where v: "mappages d' (pgaddr n) PGSIZE (v2p p) (PTE_FLAGS ?e) u = Ok 0 v" "grows d' u qs v ps'" "rich (mem v) d' ps' k"
      "\<forall>w < 2 ^ 20. pte_of (mem v) d' w = (if n \<le> w \<and> w \<le> n + 0 then (v2p p + of_nat (w - n) * 4096) OR PTE_FLAGS ?e OR PTE_P else pte_of (mem u) d' w)"
    using mappages_ok [OF u(1,2) _ np n(2) last, of "v2p p" "PTE_FLAGS ?e"] n(1) by auto
  have "\<forall>w < 2 ^ 20. pte_of (mem v) d' w = (if w = n then v2p p OR PTE_FLAGS ?e else pte_of (mem u) d' w)"
    using v(4) flags_present(1) [OF e(1)] by (auto simp: or.assoc)
  then have "copied s P data d d' (Suc n) k v ps'"
    using u v(2,3) by (intro copied_step [OF assms(1) [unfolded ps] assms(2,3)])
  moreover have "copyuvm_page d d' (n * 4096) t = Ok None v"
    unfolding copyuvm_page_def pgaddr_def [symmetric] using a k e(1) v(1)
    by (simp add: bnd_Ok bnd_rd thn_Ok md_def u_def page_of_def present_def)
  ultimately show ?thesis
    by blast
qed

lemma copyuvm_loop:
  assumes "copied s P data d d' n m t ps" "parent_ok s P d (n + m)" "n + m \<le> 2 ^ 19"
  shows "\<exists>v ps'. for_find (map (\<lambda>k. k * 4096) [n..<n + m]) (copyuvm_page d d') t = Ok None v \<and> copied s P data d d' (n + m) 0 v ps'"
  using assms
proof (induction m arbitrary: n t ps)
  case 0
  then show ?case
    by auto
next
  case (Suc m)
  have "parent_ok s P d (Suc n)"
    using Suc.prems(2) by (simp add: parent_ok_def)
  then obtain u qs where u: "copyuvm_page d d' (n * 4096) t = Ok None u" "copied s P data d d' (Suc n) m u qs"
    using copyuvm_page_ok [OF Suc.prems(1)] Suc.prems(3) by auto
  have up: "[n..<n + Suc m] = n # [Suc n..<Suc n + m]"
    by (subst upt_conv_Cons) simp_all
  show ?case
    unfolding up using Suc.IH [OF u(2)] Suc.prems(2,3) u(1) by (simp add: bnd_Ok)
qed

lemma pgaddr_aligned: "page_aligned (pgaddr v)"
proof -
  have "4096 dvd v * 4096 mod 2 ^ 32"
    by (rule dvd_mod) simp_all
  then show ?thesis
    unfolding page_aligned_dvd pgaddr_def by (simp only: unat_of_nat take_bit_eq_mod) simp
qed

lemma p2v_pgaddr: "p2v (pgaddr v) = pgaddr (v + 0x80000)"
  using pgaddr_add [of v "0x80000"] by (simp add: p2v_def)

lemma kernel_translate:
  assumes "0x80000 \<le> vpn va" "vpn va < 0x8E000" "pte_of m d (vpn va) = kpte data (vpn va)"
  shows "translate m d va = Some va"
proof -
  define f where "f = (if 0x80100 \<le> vpn va \<and> vpn va < vpn data then 0 else PTE_W) OR PTE_P"
  have f: "f AND NOT 0xFFF = 0" "present f"
    by (simp_all add: f_def present_def)
  have e: "pte_of m d (vpn va) = pgaddr (vpn va - 0x80000) OR f"
    using assms by (simp add: kpte_def f_def or.assoc)
  have "p2v (pgaddr (vpn va - 0x80000)) + (va AND 0xFFF) = va"
    using p2v_pgaddr [of "vpn va - 0x80000"] assms(1) page_split [of va] by (simp add: PGROUNDDOWN_pgaddr)
  then show ?thesis
    using entry_bits [OF pgaddr_aligned f(1)] f(2) by (simp add: translate_pte e Let_def)
qed

text \<open>
  C6 (\<^verbatim>\<open>fork\<close> copies the memory).  If every page below the size \<open>sz\<close> of the parent is present and the pool has enough free pages, \<^verbatim>\<open>copyuvm\<close> returns a directory in which every
  address below the size is mapped with the same permissions as in the parent to a byte with the same value, in pages that no other page of the child and no page of the parent uses; the other addresses of the user
  part are not mapped; the kernel part maps the physical memory where the kernel expects it; and what the parent maps and what is in its pages stays as it was.
\<close>

theorem copyuvm_copies:
  assumes "kmem_pool s ps" "parent_ok s (set ps) d n" "n = (unat sz + 4095) div 4096" "unat sz \<le> 2 ^ 31" "1025 + n \<le> length ps" "data_ok data"
  shows "\<exists>d' t. copyuvm data d sz s = Ok d' t \<and> d' \<noteq> 0 \<and>
    (\<forall>va. vpn va < n \<longrightarrow> (\<exists>pa pa'. translate (mem s) d va = Some pa \<and> translate (mem t) d va = Some pa \<and> translate (mem t) d' va = Some pa' \<and>
       mem t pa' = mem s pa \<and> mem t pa = mem s pa \<and> PTE_FLAGS (pte_of (mem t) d' (vpn va)) = PTE_FLAGS (pte_of (mem s) d (vpn va)))) \<and>
    (\<forall>v < n. \<forall>w < n. page_of (mem t) d' v \<noteq> page_of (mem t) d w \<and> (v \<noteq> w \<longrightarrow> page_of (mem t) d' v \<noteq> page_of (mem t) d' w)) \<and>
    (\<forall>va. n \<le> vpn va \<and> va < KERNBASE \<longrightarrow> translate (mem t) d' va = None) \<and>
    (\<forall>va. KERNBASE \<le> va \<and> va < p2v PHYSTOP \<longrightarrow> translate (mem t) d' va = Some va)"
proof -
  obtain p qs where ps: "ps = p # qs"
    using assms(5) by (cases ps) auto
  have n: "n \<le> 2 ^ 19"
    using assms(3,4) by simp
  have p: "p \<noteq> 0"
    using assms(1) by (auto simp: kmem_pool_def kmem_inv_def ps)
  obtain u qs' where u: "setupkvm data s = Ok p u" "vm u p qs'" "rich (mem u) p qs' n" "\<forall>w < 2 ^ 20. pte_of (mem u) p w = kpte data w" "set qs' \<subseteq> set qs"
      "tables (mem u) p \<subseteq> set ps - set qs'" "same_off (set ps) (mem s) (mem u)" "page_ok u = page_ok s"
    using setupkvm_ok [OF assms(1) [unfolded ps] _ assms(6), of n] assms(5) by (auto simp: ps)
  have "copied s (set ps) data d p 0 n u qs'"
    using u(2-8) by (auto simp: copied_def ps)
  then obtain t ps' where t: "for_find (map (\<lambda>k. k * 4096) [0..<n]) (copyuvm_page d p) u = Ok None t" and c: "copied s (set ps) data d p n 0 t ps'"
    using copyuvm_loop [of s "set ps" data d p 0 n u qs'] assms(2) n by auto
  have ret: "copyuvm data d sz s = Ok p t"
    using u(1) t p assms(3) by (simp add: copyuvm_def bnd_Ok)
  note cd = copiedD [OF c] and same = parent_same [OF assms(2) cd(5)]
  have bounds: "vpn va < 2 ^ 20" "va < KERNBASE \<Longrightarrow> vpn va < 0x80000" "KERNBASE \<le> va \<Longrightarrow> 0x80000 \<le> vpn va" "va < p2v PHYSTOP \<Longrightarrow> vpn va < 0x8E000" for va
    using vpn_less [of va] by (simp_all add: vpn_def word_less_nat_alt word_le_nat_alt p2v_def less_mult_imp_div_less)
  have "\<exists>pa pa'. translate (mem s) d va = Some pa \<and> translate (mem t) d va = Some pa \<and> translate (mem t) p va = Some pa' \<and>
       mem t pa' = mem s pa \<and> mem t pa = mem s pa \<and> PTE_FLAGS (pte_of (mem t) p (vpn va)) = PTE_FLAGS (pte_of (mem s) d (vpn va))" if va: "vpn va < n" for va
  proof -
    have e: "present (pte_of (mem s) d (vpn va))" "present (pte_of (mem t) p (vpn va))"
      using assms(2) va cd(8) [OF va] flags_present(3) [of "pte_of (mem t) p (vpn va)"] flags_present(3) [of "pte_of (mem s) d (vpn va)"] by (simp_all add: parent_ok_def)
    show ?thesis
      using e same(1) [OF bounds(1)] same(2) [OF va page_offset(2)] cd(8) [OF va] cd(10) [OF va page_offset(2)] by (simp add: translate_pte Let_def page_of_def)
  qed
  moreover have "page_of (mem t) p v \<noteq> page_of (mem t) d w \<and> (v \<noteq> w \<longrightarrow> page_of (mem t) p v \<noteq> page_of (mem t) p w)" if v: "v < n" "w < n" for v w
  proof -
    have "page_of (mem t) d w = page_of (mem s) d w" "page_of (mem s) d w \<notin> set ps"
      using same(1) [of w] v(2) n assms(2) by (simp_all add: page_of_def parent_ok_def)
    then show ?thesis
      using cd(9) [OF v(1)] inj_onD [OF cd(11), of v w] v by auto
  qed
  moreover have "translate (mem t) p va = None" if "n \<le> vpn va" "va < KERNBASE" for va
    using cd(7) [OF bounds(1) that(1)] bounds(2) [OF that(2)] by (simp add: translate_pte kpte_def present_def)
  moreover have "translate (mem t) p va = Some va" if "KERNBASE \<le> va" "va < p2v PHYSTOP" for va
    using bounds [of va] that n by (intro kernel_translate [of _ _ _ data] cd(7)) simp_all
  ultimately show ?thesis
    using p ret by blast
qed

section \<open>A parent with one page\<close>

text \<open>The directory is at \<open>0x80200000\<close>, its only table and the page of the user behind it; the pages from \<open>0x81000000\<close> on are free.\<close>

definition free_at :: "nat \<Rightarrow> uint32" where
  "free_at i = pgaddr (0x81000 + i)"

definition one_page :: memory where
  "one_page = store32 (store32 (\<lambda>_. 0) 0x80200000 0x201007) 0x80201000 0x202007"

primrec chain :: "nat \<Rightarrow> memory" where
  "chain 0 = one_page"
| "chain (Suc n) = store32 (chain n) (free_at n) (if n = 0 then 0 else free_at (n - 1))"

definition copy_demo :: kmem_st where
  "copy_demo = kmem_boot\<lparr>mem := chain 1026, freelist := free_at 1025\<rparr>"

lemma free_at_facts:
  assumes "i < 1026"
  shows "page_aligned (free_at i)" "unat (free_at i) = (0x81000 + i) * 4096" "j < 1026 \<Longrightarrow> free_at i = free_at j \<longleftrightarrow> i = j"
proof -
  show "page_aligned (free_at i)"
    by (simp add: free_at_def pgaddr_aligned)
  show "unat (free_at i) = (0x81000 + i) * 4096"
    unfolding free_at_def using assms by (intro unat_pgaddr) simp
  show "free_at i = free_at j \<longleftrightarrow> i = j" if "j < 1026"
    unfolding free_at_def using assms that by (subst pgaddr_facts(3)) simp_all
qed

lemma chain_path:
  "n \<le> 1026 \<Longrightarrow> free_path (chain n) (if n = 0 then 0 else free_at (n - 1)) (map free_at (rev [0..<n]))"
proof (induction n)
  case (Suc n)
  have "load32 (chain (Suc n)) a = load32 (chain n) a" if "a \<in> set (map free_at (rev [0..<n]))" for a
    using that Suc.prems free_at_facts(1,3) by (auto simp: load32_store32_other)
  moreover have "free_at n \<noteq> 0"
    using free_at_facts(2) [of n] Suc.prems by force
  ultimately show ?case
    using Suc free_path_cong [of "map free_at (rev [0..<n])" "chain (Suc n)" "chain n"] by (simp del: free_path_cong)
qed simp

lemma chain_off: "n \<le> 1026 \<Longrightarrow> same_off (free_at ` {..<n}) one_page (chain n)"
proof (induction n)
  case (Suc n)
  have step: "same_off {free_at n} (chain n) (chain (Suc n))"
    using same_off_store [of 0 "free_at n" "chain n"] by (simp add: word_at_def)
  show ?case
    by (rule same_off_trans [OF same_off_mono [OF Suc.IH] step]) (use Suc.prems in auto)
qed simp

lemma one_page_word:
  assumes "page_aligned q" "k < 1024"
  shows "load32 one_page (word_at q k) = (if q = 0x80201000 \<and> k = 0 then 0x202007 else if q = 0x80200000 \<and> k = 0 then 0x201007 else 0)"
proof -
  have a: "page_aligned 0x80200000" "page_aligned 0x80201000"
    by (simp_all add: page_aligned_def)
  have w: "one_page = store32 (store32 (\<lambda>_. 0) (word_at 0x80200000 0) 0x201007) (word_at 0x80201000 0) 0x202007"
    by (simp add: one_page_def word_at_def)
  show ?thesis
    unfolding w using load32_store32_word [OF a(2) assms(1) _ assms(2)] load32_store32_word [OF a(1) assms(1) _ assms(2)] by (auto simp: load32_def of_le32_def)
qed

lemma chain_word:
  assumes "page_aligned q" "unat q < 0x81000000" "k < 1024"
  shows "load32 (chain 1026) (word_at q k) = load32 one_page (word_at q k)"
proof (rule same_off_word [OF chain_off [OF order_refl] _ assms(1) _ assms(3)])
  show "\<forall>p \<in> free_at ` {..<1026}. page_aligned p"
    using free_at_facts(1) by auto
  have "0x81000000 \<le> unat (free_at i)" if "i < 1026" for i
    using free_at_facts(2) [OF that] by simp
  then show "q \<notin> free_at ` {..<1026}"
    using assms(2) by force
qed

lemma copy_demo_facts:
  "kmem_pool copy_demo (map free_at (rev [0..<1026]))" "parent_ok copy_demo (free_at ` {..<1026}) 0x80200000 1"
  "pte_of (mem copy_demo) 0x80200000 0 = 0x202007"
proof -
  have ok: "page_ok copy_demo (free_at i)" if "i < 1026" for i
    using free_at_facts(1,2) [OF that] that by (simp add: page_ok_def copy_demo_def kmem_boot_def word_le_nat_alt word_less_nat_alt v2p_def unat_sub)
  have "distinct (map free_at (rev [0..<1026]))"
    using free_at_facts(3) by (auto simp: distinct_map inj_on_def)
  then show "kmem_pool copy_demo (map free_at (rev [0..<1026]))"
    using chain_path [of 1026] ok calm_kmem_boot by (simp add: kmem_pool_def kmem_inv_def kmem_ready_def copy_demo_def)
  have d: "page_aligned 0x80200000" "unat (0x80200000 :: uint32) < 0x81000000" "page_aligned 0x80201000" "unat (0x80201000 :: uint32) < 0x81000000"
    by (simp_all add: page_aligned_def)
  have pd: "pde (chain 1026) 0x80200000 i = (if i = 0 then 0x201007 else 0)" if "i < 1024" for i
    using that chain_word [OF d(1,2) that] one_page_word [OF d(1) that] by (simp add: pde_def)
  then have "ptab (chain 1026) 0x80200000 0 = 0x80201000" "present (pde (chain 1026) 0x80200000 0)"
    by (simp_all add: ptab_def PTE_ADDR_def p2v_def present_def)
  moreover have "load32 (chain 1026) (word_at 0x80201000 0) = 0x202007"
    using chain_word [OF d(3,4), of 0] one_page_word [OF d(3), of 0] by simp
  ultimately have e: "pte_of (chain 1026) 0x80200000 0 = 0x202007"
    by (simp add: pte_of_def)
  then show "pte_of (mem copy_demo) 0x80200000 0 = 0x202007"
    by (simp add: copy_demo_def)
  have n: "q \<notin> free_at ` {..<1026}" if "unat q < 0x81000000" for q
    using that free_at_facts(2) by force
  have "tables_ok (chain 1026) 0x80200000 (free_at ` {..<1026})"
    using pd d n \<open>ptab (chain 1026) 0x80200000 0 = 0x80201000\<close> by (auto simp: tables_ok_def present_def split: if_splits)
  moreover have "page_of (chain 1026) 0x80200000 0 = 0x80202000"
    by (simp add: page_of_def e PTE_ADDR_def p2v_def)
  moreover have "page_ok copy_demo 0x80202000"
    by (simp add: page_ok_def page_aligned_def v2p_def copy_demo_def kmem_boot_def)
  ultimately show "parent_ok copy_demo (free_at ` {..<1026}) 0x80200000 1"
    using e n [of "0x80202000"] free_at_facts(1) by (auto simp: parent_ok_def copy_demo_def present_def)
qed

theorem copyuvm_copies_witness:
  "\<exists>d' t pa. copyuvm 0x80108000 0x80200000 4096 copy_demo = Ok d' t \<and> d' \<noteq> 0 \<and> translate (mem t) d' 0x123 = Some pa \<and> mem t pa = mem copy_demo 0x80202123 \<and>
     translate (mem t) d' 0x1000 = None \<and> translate (mem t) d' 0x80100000 = Some 0x80100000"
proof -
  have s: "set (map free_at (rev [0..<1026])) = free_at ` {..<1026}"
    by (simp add: lessThan_atLeast0)
  have "data_ok 0x80108000"
    by (simp add: data_ok_def page_aligned_def)
  then obtain d' t where t: "copyuvm 0x80108000 0x80200000 4096 copy_demo = Ok d' t" "d' \<noteq> 0"
      "\<forall>va. vpn va < 1 \<longrightarrow> (\<exists>pa pa'. translate (mem copy_demo) 0x80200000 va = Some pa \<and> translate (mem t) 0x80200000 va = Some pa \<and> translate (mem t) d' va = Some pa' \<and>
         mem t pa' = mem copy_demo pa \<and> mem t pa = mem copy_demo pa \<and> PTE_FLAGS (pte_of (mem t) d' (vpn va)) = PTE_FLAGS (pte_of (mem copy_demo) 0x80200000 (vpn va)))"
      "\<forall>va. 1 \<le> vpn va \<and> va < KERNBASE \<longrightarrow> translate (mem t) d' va = None" "\<forall>va. KERNBASE \<le> va \<and> va < p2v PHYSTOP \<longrightarrow> translate (mem t) d' va = Some va"
    using copyuvm_copies [OF copy_demo_facts(1) copy_demo_facts(2) [folded s], of 4096 "0x80108000"] by auto
  have v: "vpn 0x123 = 0" "vpn 0x1000 = 1"
    by (simp_all add: vpn_def)
  have "translate (mem copy_demo) 0x80200000 0x123 = Some 0x80202123"
    using copy_demo_facts(3) by (simp add: translate_pte v present_def PTE_ADDR_def p2v_def)
  then obtain pa where "translate (mem t) d' 0x123 = Some pa" "mem t pa = mem copy_demo 0x80202123"
    using t(3) [rule_format, of "0x123"] v(1) by auto
  then show ?thesis
    using t(1,2) t(4) [rule_format, of "0x1000"] t(5) [rule_format, of "0x80100000"] v(2) by (auto simp: p2v_def)
qed

end
