(* ===== verification/Fcontent.thy ===== *)
theory Fcontent
  imports Icache
begin

text \<open>
  Properties of the content of files (\<^verbatim>\<open>bmap\<close>, \<^verbatim>\<open>readi\<close> and \<^verbatim>\<open>writei\<close> of \<^verbatim>\<open>src/fs.c\<close>): the blocks of a file, found directly or through the
  indirect block, as one sequence of bytes.
\<close>

section \<open>The blocks of a file\<close>

text \<open>
  Block \<open>b\<close> of the file; 0 if there is none.  The slots of a file are its blocks, its indirect block (140) and the block of its inode (141).
\<close>

definition fblock :: "'z fs_st_scheme \<Rightarrow> nat \<Rightarrow> nat \<Rightarrow> uint32" where
  "fblock s ip b = (let as = i_addrs (icache s ip) in
     if b < NDIRECT then as ! b else if as ! NDIRECT = 0 then 0 else get_ent (b - NDIRECT) (blk s (as ! NDIRECT)))"

definition fslot :: "'z fs_st_scheme \<Rightarrow> nat \<Rightarrow> nat \<Rightarrow> uint32" where
  "fslot s ip k = (if k < MAXFILE then fblock s ip k else if k = MAXFILE then i_addrs (icache s ip) ! NDIRECT else IBLOCK (i_inum (icache s ip)))"

text \<open>A block in use that is neither the super block nor a bitmap block, inside the logged area and not held by anyone.\<close>

definition owned :: "'z log_st_scheme \<Rightarrow> uint32 \<Rightarrow> bool" where
  "owned s a = (a \<noteq> 0 \<and> a \<noteq> 1 \<and> unat a < nblk s \<and> in_use s (unat a) \<and> a < log_start s \<and> a \<notin> busy s \<and> a \<notin> bblock s ` {..<nblk s})"

definition file_ok :: "'z fs_st_scheme \<Rightarrow> nat \<Rightarrow> bool" where
  "file_ok s ip = (let i = icache s ip in
     bm_ok s \<and> in_use s 0 \<and> i_dev i = 1 \<and> length (i_addrs i) = NDIRECT + 1 \<and> i_type i \<noteq> T_DEV \<and> fslot s ip (MAXFILE + 1) \<noteq> 0 \<and>
     (\<forall>k < MAXFILE + 2. fslot s ip k \<noteq> 0 \<longrightarrow> owned s (fslot s ip k)) \<and>
     (\<forall>j < MAXFILE + 2. \<forall>k < MAXFILE + 2. fslot s ip j = fslot s ip k \<and> fslot s ip j \<noteq> 0 \<longrightarrow> j = k) \<and>
     unat (i_size i) \<le> MAXFILE * BSIZE \<and> (\<forall>b. BSIZE * b < unat (i_size i) \<longrightarrow> fblock s ip b \<noteq> 0))"

definition fbyte :: "'z fs_st_scheme \<Rightarrow> nat \<Rightarrow> nat \<Rightarrow> uchar" where
  "fbyte s ip k = blk s (fblock s ip (k div BSIZE)) ! (k mod BSIZE)"

definition file_bytes :: "'z fs_st_scheme \<Rightarrow> nat \<Rightarrow> uchar list" where
  "file_bytes s ip = map (fbyte s ip) [0..<unat (i_size (icache s ip))]"

lemma file_okD:
  assumes "file_ok s ip"
  shows "bm_ok s" "settled s" "i_dev (icache s ip) = 1" "length (i_addrs (icache s ip)) = 13" "i_type (icache s ip) \<noteq> T_DEV"
    "k < 142 \<Longrightarrow> fslot s ip k \<noteq> 0 \<Longrightarrow> owned s (fslot s ip k)"
    "j < 142 \<Longrightarrow> k < 142 \<Longrightarrow> fslot s ip j = fslot s ip k \<Longrightarrow> fslot s ip j \<noteq> 0 \<Longrightarrow> j = k"
    "unat (i_size (icache s ip)) \<le> 71680" "512 * b < unat (i_size (icache s ip)) \<Longrightarrow> fblock s ip b \<noteq> 0" "IBLOCK (i_inum (icache s ip)) \<noteq> 0" "in_use s 0"
  using assms by (simp_all add: file_ok_def Let_def bm_ok_def fslot_def)

lemma file_okI:
  assumes "bm_ok s" "in_use s 0" "i_dev (icache s ip) = 1" "length (i_addrs (icache s ip)) = 13" "i_type (icache s ip) \<noteq> T_DEV" "fslot s ip 141 \<noteq> 0"
    and "\<And>k. k < 142 \<Longrightarrow> fslot s ip k \<noteq> 0 \<Longrightarrow> owned s (fslot s ip k)"
    and "\<And>j k. j < 142 \<Longrightarrow> k < 142 \<Longrightarrow> fslot s ip j = fslot s ip k \<Longrightarrow> fslot s ip j \<noteq> 0 \<Longrightarrow> j = k"
    and "unat (i_size (icache s ip)) \<le> 71680" "\<And>b. 512 * b < unat (i_size (icache s ip)) \<Longrightarrow> fblock s ip b \<noteq> 0"
  shows "file_ok s ip"
  unfolding file_ok_def Let_def using assms(1-6,9) by (intro conjI allI impI; (elim conjE)?; simp add: assms(7,8,10))

text \<open>\<open>stays k s t\<close>: between \<open>s\<close> and \<open>t\<close> at most \<open>k\<close> blocks were added to the log and nobody holds another block than before.\<close>

definition stays :: "nat \<Rightarrow> 'z fs_st_scheme \<Rightarrow> 'z fs_st_scheme \<Rightarrow> bool" where
  "stays k s t = (fs_frame s t \<and> settled t \<and> busy t = busy s \<and> log_room s \<le> log_room t + k)"

lemma stays_trans: "stays j s t \<Longrightarrow> stays k t u \<Longrightarrow> stays (j + k) s u"
  using fs_frame_trans by (fastforce simp: stays_def)

lemma staysD:
  assumes "stays k s t"
  shows "settled t" "busy t = busy s" "log_room s \<le> log_room t + k" "log_start t = log_start s" "log_outstanding t = log_outstanding s"
  using assms fs_frame_fields [of s t] by (simp_all add: stays_def)

text \<open>A step that leaves all blocks and the inode table as they are.\<close>

definition looks :: "'z fs_st_scheme \<Rightarrow> 'z fs_st_scheme \<Rightarrow> bool" where
  "looks s t = (log_frame s t \<and> settled t \<and> busy t = busy s \<and> log_room t = log_room s \<and> blk t = blk s)"

lemma looks_trans: "looks s t \<Longrightarrow> looks t u \<Longrightarrow> looks s u"
  using log_frame_trans by (fastforce simp: looks_def)

lemma looks_views:
  assumes "looks s t"
  shows "icache t = icache s" "blk t = blk s" "busy t = busy s" "settled t" "log_start t = log_start s" "log_outstanding t = log_outstanding s" "log_room t = log_room s"
    "fblock t = fblock s" "fslot t = fslot s" "owned t = owned s" "file_bytes t ip = file_bytes s ip" "stays 0 s t"
proof -
  have l: "log_frame s t" "settled t" "busy t = busy s" "log_room t = log_room s" "blk t = blk s"
    using assms by (simp_all add: looks_def)
  note v = views_same [OF l(5)]
  show "settled t" "busy t = busy s" "log_room t = log_room s" "blk t = blk s"
    by (fact l)+
  show i: "icache t = icache s" "log_start t = log_start s" "log_outstanding t = log_outstanding s"
    using log_frame_fs [OF l(1)] log_frame_fields [OF l(1)] by simp_all
  show f: "fblock t = fblock s"
    by (simp add: fblock_def fun_eq_iff i l(5) Let_def)
  show "file_bytes t ip = file_bytes s ip" "stays 0 s t" "fslot t = fslot s" "owned t = owned s"
    by (simp_all add: file_bytes_def fbyte_def i f l stays_def fs_frame_log fun_eq_iff fslot_def owned_def v)
qed

lemma looks_file_ok:
  assumes "looks s t" "file_ok s ip"
  shows "file_ok t ip"
proof -
  note v = looks_views [OF assms(1)]
  have "bm_ok t" "in_use t 0 = in_use s 0"
    using bm_ok_same [of s t] views_same [of t s] assms by (simp_all add: looks_def file_okD(1) [OF assms(2)])
  then show ?thesis
    using assms(2) unfolding file_ok_def v Let_def by blast
qed

text \<open>Reading one block.\<close>

lemma look_block:
  assumes "settled s" "a < log_start s" "a \<notin> busy s" "card (busy s) \<le> log_room s"
  shows "\<exists>t. bnd (bread 1 a) (\<lambda>bp. bnd (rd (\<lambda>s. f (b_data (bufs s bp)))) (\<lambda>x. thn (brelse bp) (ret x))) s = Ok (f (blk s a)) t \<and> looks s t"
  using jn.look [OF assms, of "\<lambda>d. ret (f d)"] by (auto simp: looks_def kern_simps split: outcome.splits)

lemma fslot_fblock: "b < 140 \<Longrightarrow> fslot s ip b = fblock s ip b"
  by (simp add: fslot_def)

lemma unat_less12: "(bn :: uint32) < 12 \<longleftrightarrow> unat bn < 12" "unat bn < 140 \<Longrightarrow> \<not> unat bn < 12 \<Longrightarrow> bn - 12 < 128 \<and> unat (bn - 12) = unat bn - 12"
proof -
  show "bn < 12 \<longleftrightarrow> unat bn < 12"
    by (simp add: word_less_nat_alt)
  assume b: "unat bn < 140" "\<not> unat bn < 12"
  then have "12 \<le> bn"
    by (simp add: word_le_nat_alt)
  then have "unat (bn - 12) = unat bn - 12"
    by (simp add: unat_sub)
  then show "bn - 12 < 128 \<and> unat (bn - 12) = unat bn - 12"
    using b by (simp add: word_less_nat_alt)
qed

lemma bmap_mapped:
  assumes "file_ok s ip" "unat bn < 140" "fblock s ip (unat bn) \<noteq> 0" "card (busy s) \<le> log_room s"
  shows "\<exists>t. bmap ip bn s = Ok (fblock s ip (unat bn)) t \<and> looks s t"
proof (cases "unat bn < 12")
  case True
  then show ?thesis
    using assms file_okD(2) [OF assms(1)] by (auto simp: bmap_def kern_simps fblock_def unat_less12 looks_def jn.jrefl)
next
  case False
  note b = unat_less12(2) [OF assms(2) False]
  let ?ind = "i_addrs (icache s ip) ! 12"
  have ind: "?ind \<noteq> 0" "fblock s ip (unat bn) = get_ent (unat bn - 12) (blk s ?ind)"
    using assms(3) False by (auto simp: fblock_def Let_def split: if_splits)
  then have "owned s ?ind"
    using file_okD(6) [OF assms(1), of 140] by (simp add: fslot_def)
  then have ok: "settled s" "?ind < log_start s" "?ind \<notin> busy s"
    using file_okD(2) [OF assms(1)] by (simp_all add: owned_def)
  obtain bp t where t: "bread 1 ?ind s = Ok bp t" "log_frame s t" "settled t" "held t bp ?ind" "blk t = blk s" "busy t = insert ?ind (busy s)" "log_room t = log_room s"
    using jn.jget [OF ok assms(4)] by blast
  obtain u where u: "brelse bp t = Ok () u" "log_frame t u" "settled u" "blk u = blk t" "busy u = busy t - {?ind}" "log_room u = log_room t"
    using jn.jrel [OF t(3,4)] by blast
  have "get_ent (unat bn - 12) (b_data (bufs t bp)) = fblock s ip (unat bn)"
    using jn.jdata [OF t(3,4)] t(5) ind(2) by simp
  then have "bmap ip bn s = Ok (fblock s ip (unat bn)) u"
    using t(1) u(1) False b ind(1) assms(3) file_okD(3) [OF assms(1)] by (simp add: bmap_def kern_simps unat_less12)
  moreover have "looks s u"
    using t u ok(3) log_frame_trans [OF t(2) u(2)] by (simp add: looks_def)
  ultimately show ?thesis
    by blast
qed

section \<open>Reading\<close>

text \<open>A chunk is the part of a range that is in one block.\<close>

lemma chunks_cases:
  assumes "r \<noteq> 0" "unat off + unat r < 2 ^ 32"
  obtains m where "chunks tot off r = (tot, off, m) # chunks (tot + m) (off + m) (r - m)" "0 < unat m" "unat m \<le> unat r" "unat m \<le> 512 - unat off mod 512"
    "unat (off + m) = unat off + unat m" "unat (r - m) = unat r - unat m" "m = r \<or> (unat off + unat m) mod 512 = 0"
proof -
  let ?m = "min r (512 - off mod 512)"
  have "unat ?m \<le> 512 - unat off mod 512"
    using chunk_pos(4) [OF assms(1), of off] by (metis min.cobounded2 word_le_nat_alt)
  moreover have "unat (off + ?m) = unat off + unat ?m"
    using assms(2) chunk_pos(2) [OF assms(1), of off] by (intro unat_add_lt) simp
  moreover have "?m = r \<or> (unat off + unat ?m) mod 512 = 0"
  proof (cases "?m = r")
    case False
    then have "unat ?m = 512 - unat off mod 512"
      using chunk_pos(4) [OF assms(1), of off] by (metis min_def)
    moreover have "(unat off + (512 - unat off mod 512)) mod 512 = (unat off mod 512 + (512 - unat off mod 512)) mod 512"
      by (simp only: mod_add_left_eq)
    ultimately show ?thesis
      by simp
  qed simp
  ultimately show ?thesis
    using that [of ?m] chunk_pos [OF assms(1), of off] assms(1) by (simp add: chunks.simps [of tot off r] Let_def)
qed

lemma slice_nth: "off + n \<le> length d \<Longrightarrow> slice off n d = map (\<lambda>i. d ! (off + i)) [0..<n]"
  by (intro nth_equalityI) (simp_all add: nth_slice)

lemma fbytes_chunk:
  assumes "file_ok s ip" "m \<le> 512 - off mod 512"
  shows "slice (off mod 512) m (blk s (fblock s ip (off div 512))) = map (fbyte s ip) [off..<off + m]"
proof -
  have "length (blk s (fblock s ip (off div 512))) = 512"
    by (rule jn.jlength [OF file_okD(2) [OF assms(1)]])
  moreover have "off mod 512 < 512"
    by simp
  ultimately have "slice (off mod 512) m (blk s (fblock s ip (off div 512))) = map (\<lambda>i. blk s (fblock s ip (off div 512)) ! (off mod 512 + i)) [0..<m]"
    using assms(2) by (intro slice_nth) linarith
  also have "\<dots> = map (\<lambda>i. fbyte s ip (off + i)) [0..<m]"
  proof (rule map_cong [OF refl])
    fix i
    assume "i \<in> set [0..<m]"
    then have "off mod 512 + i < 512"
      using assms(2) \<open>off mod 512 < 512\<close> by auto
    then have "(off + i) div 512 = off div 512" "(off + i) mod 512 = off mod 512 + i"
      by (metis add.assoc div_mult_mod_eq div_mult_self3 mod_div_trivial div_less mult.commute add_0_right zero_neq_numeral, metis mod_add_left_eq mod_less)
    then show "blk s (fblock s ip (off div 512)) ! (off mod 512 + i) = fbyte s ip (off + i)"
      by (simp add: fbyte_def)
  qed
  also have "\<dots> = map (fbyte s ip) [off..<off + m]"
    by (simp add: map_add_upt [symmetric] add.commute)
  finally show ?thesis .
qed

definition read_chunk :: "nat \<Rightarrow> uint32 \<Rightarrow> uint32 \<times> uint32 \<times> uint32 \<Rightarrow> (uchar list, 'z fs_st_scheme) kern" where
  "read_chunk ip dev = (\<lambda>(tot, off, m).
     bnd (bmap ip (off div of_nat BSIZE)) (\<lambda>a.
     bnd (bread dev a) (\<lambda>bp.
     bnd (rd (\<lambda>s. slice (unat (off mod of_nat BSIZE)) (unat m) (b_data (bufs s bp)))) (\<lambda>bs.
     thn (brelse bp) (
     ret bs)))))"

lemma block_number:
  fixes off :: uint32
  assumes "unat off < 71680"
  shows "unat (off div 512) = unat off div 512" "unat (off div 512) < 140" "unat (off mod 512) = unat off mod 512"
  using assms by (simp_all add: unat_div unat_mod less_mult_imp_div_less)

lemma read_chunk_spec:
  assumes "file_ok s ip" "card (busy s) \<le> log_room s" "unat off < unat (i_size (icache s ip))" "unat m \<le> 512 - unat off mod 512"
  shows "\<exists>t. read_chunk ip 1 (tot, off, m) s = Ok (map (fbyte s ip) [unat off..<unat off + unat m]) t \<and> looks s t"
proof -
  let ?a = "fblock s ip (unat off div 512)"
  have "unat off < 71680"
    using assms(3) file_okD(8) [OF assms(1)] by simp
  note n = block_number [OF this]
  have "512 * (unat off div 512) < unat (i_size (icache s ip))"
    using assms(3) by (meson le_less_trans times_div_less_eq_dividend)
  then have a: "?a \<noteq> 0"
    by (rule file_okD(9) [OF assms(1)])
  then have "owned s ?a"
    using file_okD(6) [OF assms(1), of "unat off div 512"] n(1,2) by (simp add: fslot_def)
  obtain t where t: "bmap ip (off div 512) s = Ok ?a t" "looks s t"
    using bmap_mapped [OF assms(1) n(2) _ assms(2)] a n(1) by auto
  note v = looks_views [OF t(2)]
  obtain u where "bnd (bread 1 ?a) (\<lambda>bp. bnd (rd (\<lambda>s. slice (unat off mod 512) (unat m) (b_data (bufs s bp)))) (\<lambda>x. thn (brelse bp) (ret x))) t =
      Ok (slice (unat off mod 512) (unat m) (blk t ?a)) u" "looks t u"
    using look_block [of t ?a "slice (unat off mod 512) (unat m)"] \<open>owned s ?a\<close> assms(2) by (auto simp: v owned_def)
  then show ?thesis
    using t looks_trans [OF t(2)] fbytes_chunk [OF assms(1,4)] n(3) by (auto simp: read_chunk_def bnd_Ok v)
qed

lemma upt_split: "[a..<a + (b + c)] = [a..<a + b] @ [a + b..<a + b + (c :: nat)]"
  by (metis add.assoc le_add1 upt_add_eq_append)

lemma fbyte_looks: "looks s t \<Longrightarrow> fbyte t = fbyte s"
  by (simp add: fbyte_def fun_eq_iff looks_views)

lemma read_chunks:
  assumes "file_ok s ip" "card (busy s) \<le> log_room s" "unat off + unat r \<le> unat (i_size (icache s ip))"
  shows "\<exists>bss t. mapk (chunks tot off r) (read_chunk ip 1) s = Ok bss t \<and> concat bss = map (fbyte s ip) [unat off..<unat off + unat r] \<and> looks s t"
  using assms
proof (induction "unat r" arbitrary: tot off r s rule: less_induct)
  case less
  show ?case
  proof (cases "r = 0")
    case True
    then show ?thesis
      using file_okD(2) [OF less.prems(1)] by (simp add: chunks.simps kern_simps looks_def jn.jrefl)
  next
    case False
    have "unat off + unat r < 2 ^ 32"
      using less.prems(3) file_okD(8) [OF less.prems(1)] by simp
    from chunks_cases [OF False this] obtain m where
      m: "chunks tot off r = (tot, off, m) # chunks (tot + m) (off + m) (r - m)" "0 < unat m" "unat m \<le> unat r" "unat m \<le> 512 - unat off mod 512"
        "unat (off + m) = unat off + unat m" "unat (r - m) = unat r - unat m"
      by blast
    have "unat off < unat (i_size (icache s ip))"
      using m(2,3) less.prems(3) by linarith
    then obtain t where t: "read_chunk ip 1 (tot, off, m) s = Ok (map (fbyte s ip) [unat off..<unat off + unat m]) t" "looks s t"
      using read_chunk_spec [OF less.prems(1,2) _ m(4)] by blast
    note v = looks_views [OF t(2)]
    have e: "unat off + unat m + (unat r - unat m) = unat off + unat r"
      using m(3) by simp
    obtain bss u where "mapk (chunks (tot + m) (off + m) (r - m)) (read_chunk ip 1) t = Ok bss u" "looks t u"
        "concat bss = map (fbyte s ip) [unat off + unat m..<unat off + unat r]"
      using less.hyps [of "r - m" t "off + m" "tot + m"] looks_file_ok [OF t(2) less.prems(1)] less.prems(2,3) m v e fbyte_looks [OF t(2)] by auto
    then show ?thesis
      using t looks_trans [OF t(2)] upt_split [of "unat off" "unat m" "unat r - unat m"] m(3) by (auto simp: m(1) bnd_Ok)
  qed
qed

lemma file_bytes_slice:
  assumes "a + n \<le> unat (i_size (icache s ip))"
  shows "slice a n (file_bytes s ip) = map (fbyte s ip) [a..<a + n]"
  using assms by (simp add: slice_def file_bytes_def drop_map take_map)

lemma readi_spec:
  assumes "file_ok s ip" "card (busy s) \<le> log_room s" "unat off \<le> unat (i_size (icache s ip))" "unat off + unat n < 2 ^ 32"
  defines "k \<equiv> min (unat n) (unat (i_size (icache s ip)) - unat off)"
  shows "\<exists>t. readi devsw ip off n s = Ok (int k, slice (unat off) k (file_bytes s ip)) t \<and> looks s t"
proof -
  let ?i = "icache s ip"
  define n' where "n' = (if off + n > i_size ?i then i_size ?i - off else n)"
  have o: "off \<le> i_size ?i"
    using assms(3) by (simp add: word_le_nat_alt)
  have u: "unat (off + n) = unat off + unat n"
    using assms(4) by (rule unat_add_lt)
  have n': "unat n' = k"
    using u unat_sub [OF o] by (auto simp: n'_def k_def word_less_nat_alt)
  have le: "unat off + k \<le> unat (i_size ?i)"
    using assms(3) by (simp add: k_def)
  obtain bss t where t: "mapk (chunks 0 off n') (read_chunk ip 1) s = Ok bss t" "concat bss = slice (unat off) k (file_bytes s ip)" "looks s t"
    using read_chunks [OF assms(1,2), of off n' 0] le n' file_bytes_slice [OF le] by auto
  have "sint n' = int k"
    using n' le file_okD(8) [OF assms(1)] by (subst sint_unat) auto
  moreover have "\<not> (off > i_size ?i \<or> off + n < off)"
    using o u by (auto simp: word_less_nat_alt word_le_nat_alt)
  ultimately show ?thesis
    using t file_okD(3,5) [OF assms(1)] unfolding readi_def n'_def [symmetric] read_chunk_def
    by (simp add: kern_simps n'_def [symmetric] Let_def)
qed

section \<open>Allocating a block for a file\<close>

text \<open>
  The state of the disk after a free block \<open>n\<close> was taken and, if \<open>x\<close> is not the block itself, an owned block \<open>x\<close> was changed.
\<close>

lemma owned_facts:
  assumes "owned s a"
  shows "a \<noteq> 0" "a \<noteq> 1" "a < log_start s" "a \<notin> busy s" "m < nblk s \<Longrightarrow> bblock s m \<noteq> a" "unat a < nblk s" "in_use s (unat a)"
    "\<not> in_use s n \<Longrightarrow> n < nblk s \<Longrightarrow> a \<noteq> of_nat n"
proof -
  show "a \<noteq> 0" "a \<noteq> 1" "a < log_start s" "a \<notin> busy s" "unat a < nblk s" "in_use s (unat a)" "m < nblk s \<Longrightarrow> bblock s m \<noteq> a"
    using assms by (auto simp: owned_def)
  show "a \<noteq> of_nat n" if "\<not> in_use s n" "n < nblk s"
    using that assms nblk_lt [of s] unat_of_nat_lt [of n] by (auto simp: owned_def)
qed

lemma alloc_views:
  assumes "bm_ok s" "n < nblk s" "\<not> in_use s n" "of_nat n < log_start s" and x: "owned s x"
    and t: "\<forall>c. c \<noteq> x \<longrightarrow> blk t c = marked s n c" "settled t" "busy t = busy s" "log_start t = log_start s"
  shows "bm_ok t" "nblk t = nblk s" "bblock t = bblock s" "m < nblk s \<Longrightarrow> in_use t m = (m = n \<or> in_use s m)" "blk t (of_nat n) = replicate 512 0"
    "owned s a \<Longrightarrow> owned t a" "owned s a \<Longrightarrow> a \<noteq> x \<Longrightarrow> blk t a = blk s a" "of_nat n \<noteq> (0 :: uint32) \<Longrightarrow> owned t (of_nat n)"
proof -
  note ox = owned_facts [OF x]
  have off: "1 \<notin> {x}" "of_nat n \<notin> {x}" "m < nblk s \<Longrightarrow> bblock s m \<notin> {x}" for m
    using ox(2,5) ox(8) [OF assms(3,2)] by auto
  have m: "blk t c = marked s n c" if "c \<notin> {x}" for c
    using t(1) that by simp
  note v = marked_views_off [OF assms(1-4) m off]
  show n: "nblk t = nblk s" "bblock t = bblock s" "blk t (of_nat n) = replicate 512 0"
    using v by simp_all
  show u: "in_use t m = (m = n \<or> in_use s m)" if "m < nblk s" for m
    using v(3) that by simp
  show bm: "bm_ok t"
    using assms(1) t(2-4) n u by (auto simp: bm_ok_def)
  show o: "owned t a" if "owned s a"
    using that u [of "unat a"] n t by (auto simp: owned_def)
  show "blk t a = blk s a" if "owned s a" "a \<noteq> x"
    using that owned_facts [OF that(1)] owned_facts(8) [OF that(1) assms(3,2)] assms(2) t(1) by (auto simp: marked_def)
  have un: "unat (of_nat n :: uint32) = n"
    using assms(2) nblk_lt [of s] by (intro unat_of_nat_lt) simp
  show "owned t (of_nat n)" if "of_nat n \<noteq> (0 :: uint32)"
    using that assms(1-4) u [OF assms(2)] t n un by (auto simp: owned_def bm_ok_def)
qed

text \<open>The free blocks of the file system: those below the log.\<close>

definition free_blocks :: "'z log_st_scheme \<Rightarrow> nat set" where
  "free_blocks s = {n. n < nblk s \<and> \<not> in_use s n \<and> of_nat n < log_start s}"

text \<open>
  \<open>extends ip s t\<close>: the file \<open>ip\<close> may have got more blocks, at most its list of addresses has changed in the inode table, and neither its content
  nor any block of somebody else has changed.
\<close>

definition extends :: "nat \<Rightarrow> 'z fs_st_scheme \<Rightarrow> 'z fs_st_scheme \<Rightarrow> bool" where
  "extends ip s t = (file_ok t ip \<and> (\<exists>as. icache t = (icache s)(ip := (icache s ip)\<lparr>i_addrs := as\<rparr>)) \<and>
     (\<forall>c < MAXFILE. fblock s ip c \<noteq> 0 \<longrightarrow> fblock t ip c = fblock s ip c \<and> blk t (fblock s ip c) = blk s (fblock s ip c)) \<and>
     (\<forall>x. owned s x \<and> (\<forall>k < MAXFILE + 2. fslot s ip k \<noteq> x) \<longrightarrow> owned t x \<and> (\<forall>k < MAXFILE + 2. fslot t ip k \<noteq> x) \<and> blk t x = blk s x))"

lemma slot_install:
  assumes ok: "file_ok s ip" and n: "n < nblk s" "\<not> in_use s n" "of_nat n < log_start s" and x: "owned s x" "\<And>c. c < 140 \<Longrightarrow> fblock s ip c \<noteq> x" "x \<in> fslot s ip ` {..<142}"
    and t: "\<forall>c. c \<noteq> x \<longrightarrow> blk t c = marked s n c" "settled t" "busy t = busy s" "log_start t = log_start s"
    and i: "icache t = (icache s)(ip := (icache s ip)\<lparr>i_addrs := as\<rparr>)" "length as = 13"
    and k: "k < 141" "fslot s ip k = 0" "\<And>j. j < 141 \<Longrightarrow> fslot t ip j = (if j = k then of_nat n else fslot s ip j)"
  shows "extends ip s t" "free_blocks t = free_blocks s - {n}" "of_nat n \<noteq> (0 :: uint32)"
proof -
  note v = alloc_views [OF file_okD(1) [OF ok] n x(1) t] and d = file_okD [OF ok]
  have n0: "0 < n"
    using n d(11) by (auto intro: gr0I)
  have un: "unat (of_nat n :: uint32) = n"
    using n(1) nblk_lt [of s] by (intro unat_of_nat_lt) simp
  show z: "of_nat n \<noteq> (0 :: uint32)"
    using un n0 by auto
  have o: "owned t (of_nat n)" "fslot s ip j \<noteq> of_nat n" if "j < 142" for j
    using v(8) [OF z] d(6) [of j] owned_facts(8) [OF _ n(2,1)] that z by force+
  have f141: "fslot t ip 141 = fslot s ip 141"
    using i by (simp add: fslot_def)
  have f: "fslot t ip j = (if j = k then of_nat n else fslot s ip j)" if "j < 142" for j
    using k(1,3) f141 that by (cases "j = 141") auto
  have old: "fblock t ip c = fblock s ip c \<and> blk t (fblock s ip c) = blk s (fblock s ip c)" if "c < 140" "fblock s ip c \<noteq> 0" for c
    using f [of c] k(2) v(7) [of "fblock s ip c"] d(6) [of c] x(2) that by (auto simp: fslot_def)
  show "free_blocks t = free_blocks s - {n}"
    using v(2,4) t(4) by (auto simp: free_blocks_def)
  have inj: "j = l" if "j < 142" "l < 142" "fslot t ip j = fslot t ip l" "fslot t ip j \<noteq> 0" for j l
    using d(7) [OF that(1,2)] f [OF that(1)] f [OF that(2)] o(2) [OF that(1)] o(2) [OF that(2)] that(3,4) by (auto split: if_splits)
  have own: "owned t (fslot t ip j)" if "j < 142" "fslot t ip j \<noteq> 0" for j
    using d(6) [OF that(1)] f [OF that(1)] v(6) o(1) [OF that(1)] that(2) by (auto split: if_splits)
  have below: "fblock t ip b \<noteq> 0" if "512 * b < unat (i_size (icache s ip))" for b
    using old [of b] d(9) [OF that] d(8) that by simp
  have "in_use t 0" "icache t ip = (icache s ip)\<lparr>i_addrs := as\<rparr>" "fslot t ip 141 \<noteq> 0"
    using v(4) [of 0] n d(10,11) i f141 by (simp_all add: fslot_def)
  then have ft: "file_ok t ip"
    using v(1) d(3-5,8) i(2) inj own below by (intro file_okI) auto
  have "owned t y \<and> (\<forall>j < 142. fslot t ip j \<noteq> y) \<and> blk t y = blk s y" if "owned s y" "\<forall>j < 142. fslot s ip j \<noteq> y" for y
    using that v(6,7) [OF that(1)] x(3) f owned_facts(8) [OF that(1) n(2,1)] by auto
  with ft show "extends ip s t"
    using i old unfolding extends_def by auto
qed

lemma get_put_ent:
  assumes "length d = 512" "i < 128" "j < 128"
  shows "get_ent i (put_ent j a d) = (if i = j then a else get_ent i d)"
proof (cases "i = j")
  case False
  then have "4 * i + 4 \<le> 4 * j \<or> 4 * j + 4 \<le> 4 * i"
    by linarith
  then show ?thesis
    using False assms by (simp add: get_ent_def put_ent_def slice_splice_disjoint)
qed (use assms in \<open>simp add: get_ent_def put_ent_def\<close>)

lemma get_ent_zero: "i < 128 \<Longrightarrow> get_ent i (replicate 512 0) = 0"
proof -
  assume "i < 128"
  then have "slice (4 * i) 4 (replicate 512 0) = replicate 4 (0 :: uchar)"
    by (simp add: slice_def min_def)
  also have "\<dots> = le32 0"
    by (simp add: le32_def numeral_eq_Suc)
  finally have "slice (4 * i) 4 (replicate 512 0) = le32 0" .
  then show ?thesis
    unfolding get_ent_def by (metis of_le32_le32)
qed

lemma free_find:
  assumes "free_blocks s \<noteq> {}"
  shows "\<exists>n. find (\<lambda>n. \<not> in_use s n) [0..<nblk s] = Some n \<and> n < nblk s \<and> \<not> in_use s n \<and> of_nat n < log_start s"
proof (cases "find (\<lambda>n. \<not> in_use s n) [0..<nblk s]")
  case None
  then show ?thesis
    using assms by (auto simp: find_None_iff free_blocks_def)
next
  case (Some n)
  obtain m where m: "m < nblk s" "\<not> in_use s m" "of_nat m < log_start s"
    using assms by (auto simp: free_blocks_def)
  with Some have "n \<le> m"
    by (auto simp: find_upt not_less [symmetric])
  then have "(of_nat n :: uint32) \<le> of_nat m"
    using m(1) nblk_lt [of s] by (simp add: word_le_nat_alt unat_of_nat_lt)
  with Some m(3) show ?thesis
    by (auto simp: find_upt)
qed

text \<open>Taking a new block into the list of addresses of the inode.\<close>

lemma install_addr:
  assumes "file_ok s ip" "k < 13" "i_addrs (icache s ip) ! k = 0" "card (busy s) + 2 < log_room s" "1 \<le> log_outstanding s" "free_blocks s \<noteq> {}"
  shows "\<exists>a t n. bnd (balloc 1) (\<lambda>addr. thn (md (upd_inode ip (\<lambda>i. i\<lparr>i_addrs := (i_addrs i)[k := addr]\<rparr>))) (ret addr)) s = Ok a t \<and>
    stays 2 s t \<and> extends ip s t \<and> n \<in> free_blocks s \<and> free_blocks t = free_blocks s - {n} \<and> a \<noteq> 0 \<and> i_addrs (icache t ip) = (i_addrs (icache s ip))[k := a] \<and>
    blk t a = replicate 512 0"
proof -
  note d = file_okD [OF assms(1)]
  obtain n where n: "find (\<lambda>n. \<not> in_use s n) [0..<nblk s] = Some n" "n < nblk s" "\<not> in_use s n" "of_nat n < log_start s"
    using free_find [OF assms(6)] by blast
  obtain t where t: "balloc 1 s = Ok (of_nat n) t" "log_frame s t" "settled t" "blk t = marked s n" "busy t = busy s" "log_room s \<le> log_room t + 2"
    using balloc_spec(1) [OF d(1) _ _ assms(5) n(1,4)] assms(4) by auto
  let ?i = "icache s ip" and ?u = "upd_inode ip (\<lambda>i. i\<lparr>i_addrs := (i_addrs i)[k := of_nat n]\<rparr>) t" and ?k = "if k < 12 then k else 140"
  have it: "icache t = icache s" "log_start t = log_start s"
    using log_frame_fs [OF t(2)] log_frame_fields [OF t(2)] by simp_all
  have i: "icache ?u = (icache s)(ip := ?i\<lparr>i_addrs := (i_addrs ?i)[k := of_nat n]\<rparr>)"
    by (simp add: it)
  have x: "owned s (IBLOCK (i_inum ?i))"
    using d(6) [of 141] d(10) by (simp add: fslot_def)
  have xd: "fblock s ip c \<noteq> IBLOCK (i_inum ?i)" if "c < 140" for c
    using d(7) [of c 141] d(10) that by (auto simp: fslot_def)
  have ind: "blk t (i_addrs ?i ! 12) = blk s (i_addrs ?i ! 12)" if "i_addrs ?i ! 12 \<noteq> 0"
  proof (rule alloc_views(7) [OF d(1) n(2-4) x _ t(3,5) it(2)])
    show "i_addrs ?i ! 12 \<noteq> IBLOCK (i_inum ?i)" "owned s (i_addrs ?i ! 12)"
      using d(7) [of 140 141] d(6) [of 140] that by (auto simp: fslot_def)
  qed (simp add: t(4))
  have z: "blk t (of_nat n) = replicate 512 0"
    using alloc_views(5) [OF d(1) n(2-4) x _ t(3,5) it(2)] t(4) by simp
  have sl: "fslot ?u ip j = (if j = ?k then of_nat n else fslot s ip j)" if "j < 141" for j
  proof (cases "k < 12")
    case True
    then show ?thesis
      using that d(4) ind it by (auto simp: fslot_def fblock_def nth_list_update Let_def)
  next
    case False
    then show ?thesis
      using that assms(2,3) d(4) z get_ent_zero [of "j - 12"] it by (cases "k = 12") (auto simp: fslot_def fblock_def nth_list_update Let_def)
  qed
  have "k = 12" if "\<not> k < 12"
    using that assms(2) by simp
  then have k: "?k < 141" "fslot s ip ?k = 0" "length ((i_addrs ?i)[k := of_nat n]) = 13"
    using assms(3) d(4) by (auto simp: fslot_def fblock_def Let_def)
  have m: "IBLOCK (i_inum ?i) \<in> fslot s ip ` {..<142}"
    by (rule image_eqI [of _ _ 141]) (simp_all add: fslot_def)
  have b: "\<forall>c. c \<noteq> IBLOCK (i_inum ?i) \<longrightarrow> blk ?u c = marked s n c" "settled ?u" "busy ?u = busy s" "log_start ?u = log_start s"
    using t it by simp_all
  note inst = slot_install [OF assms(1) n(2-4) x xd m b i k(3,1,2) sl]
  moreover have "stays 2 s ?u"
    using t fs_frame_trans [OF fs_frame_log [OF t(2)] fs_frame_inode] by (simp add: stays_def)
  moreover have "n \<in> free_blocks s"
    using n by (simp add: free_blocks_def)
  ultimately show ?thesis
    using t(1) inst z by (intro exI [of _ "of_nat n"] exI [of _ ?u] exI [of _ n]) (simp add: kern_simps it)
qed

text \<open>Taking a new block into the indirect block: the part of \<^verbatim>\<open>bmap\<close> that works on the indirect block, and the state of the disk after it.\<close>

definition bmap_ent :: "nat \<Rightarrow> uint32 \<Rightarrow> (uint32, 'z log_st_scheme) kern" where
  "bmap_ent j ind = bnd (bread 1 ind) (\<lambda>bp.
     bnd (rd (\<lambda>s. get_ent j (b_data (bufs s bp)))) (\<lambda>a.
     bnd (if a = 0 then
            bnd (balloc 1) (\<lambda>addr.
            thn (md (upd_buf bp (\<lambda>q. q\<lparr>b_data := put_ent j addr (b_data q)\<rparr>))) (
            thn (log_write bp) (
            ret addr)))
          else ret a) (\<lambda>addr.
     thn (brelse bp) (
     ret addr))))"

lemma bmap_ent_spec:
  assumes bm: "bm_ok s" and x: "owned s ind" and "j < 128" "get_ent j (blk s ind) = 0" "find (\<lambda>n. \<not> in_use s n) [0..<nblk s] = Some n" "of_nat n < log_start s"
    and room: "card (busy s) + 3 < log_room s" "1 \<le> log_outstanding s"
  shows "\<exists>t. bmap_ent j ind s = Ok (of_nat n) t \<and> log_frame s t \<and> settled t \<and> busy t = busy s \<and> log_room s \<le> log_room t + 3 \<and>
    blk t = (marked s n)(ind := put_ent j (of_nat n) (blk s ind))"
proof -
  note ox = owned_facts [OF x]
  have n: "n < nblk s" "\<not> in_use s n" and st: "settled s"
    using assms(5) bm by (auto simp: find_upt bm_ok_def)
  obtain bp t where t: "bread 1 ind s = Ok bp t" "log_frame s t" "settled t" "held t bp ind" "blk t = blk s" "busy t = insert ind (busy s)" "log_room t = log_room s"
    using jn.jget [OF st ox(3,4)] room(1) by auto
  note v = views_same [OF t(5)] and lt = log_frame_fields [OF t(2)]
  have "bm_ok t"
    using bm ox t(3,6) lt(1) unfolding bm_ok_def v by auto
  moreover have "card (busy t) \<le> Suc (card (busy s))"
    unfolding t(6) by (rule card_insert_le_m1) simp_all
  ultimately obtain u where u: "balloc 1 t = Ok (of_nat n) u" "log_frame t u" "settled u" "blk u = marked t n" "busy u = busy t" "log_room t \<le> log_room u + 2"
      "\<forall>c m. held t c m \<longrightarrow> held u c m"
    using balloc_spec(1) [of t n] assms(5,6) t(7) room lt(1,3) v by auto
  have mk: "marked t n = marked s n" and bi: "blk u ind = blk s ind"
    using ox(5) [OF n(1)] ox(8) [OF n(2,1)] by (auto simp: u(4) marked_def t(5) v)
  note fu = log_frame_trans [OF t(2) u(2)]
  note lu = log_frame_fields [OF fu]
  let ?d = "put_ent j (of_nat n) (blk s ind)"
  obtain w where w: "log_write bp (upd_buf bp (\<lambda>q. q\<lparr>b_data := ?d\<rparr>) u) = Ok () w" "log_frame u w" "settled w" "held w = held u" "blk w = (blk u)(ind := ?d)"
      "busy w = busy u" "log_room u \<le> Suc (log_room w)"
    using jn.jupd [OF u(3), of bp ind ?d] u(6,7) t(4,7) ox(3) lu(1,3) assms(3) room jn.jlength [OF st] by (auto simp: put_ent_def)
  obtain y where y: "brelse bp w = Ok () y" "log_frame w y" "settled y" "blk y = blk w" "busy y = busy w - {ind}" "log_room y = log_room w"
    using jn.jrel [OF w(3), of bp ind] w(4) u(7) t(4) by auto
  have "b_data (bufs t bp) = blk s ind" "b_data (bufs u bp) = blk s ind"
    using jn.jdata [OF t(3,4)] jn.jdata [OF u(3), of bp ind] u(7) t(4,5) bi by auto
  then have "bmap_ent j ind s = Ok (of_nat n) y"
    using t(1) u(1) w(1) y(1) assms(4) by (simp add: bmap_ent_def kern_simps upd_buf_def)
  then show ?thesis
    using log_frame_trans [OF fu log_frame_trans [OF w(2) y(2)]] y w(5,6,7) u(4,5,6) t(6,7) ox(4) mk by (intro exI [of _ y]) auto
qed

lemma install_ent:
  assumes "file_ok s ip" "j < 128" "ind = i_addrs (icache s ip) ! 12" "ind \<noteq> 0" "get_ent j (blk s ind) = 0"
    and "card (busy s) + 3 < log_room s" "1 \<le> log_outstanding s" "free_blocks s \<noteq> {}"
  shows "\<exists>a t n. bmap_ent j ind s = Ok a t \<and>
    stays 3 s t \<and> extends ip s t \<and> n \<in> free_blocks s \<and> free_blocks t = free_blocks s - {n} \<and> a \<noteq> 0 \<and> fblock t ip (12 + j) = a"
proof -
  note d = file_okD [OF assms(1)]
  let ?i = "icache s ip"
  have x: "owned s ind"
    using d(6) [of 140] assms(3,4) by (simp add: fslot_def)
  obtain n where n: "find (\<lambda>n. \<not> in_use s n) [0..<nblk s] = Some n" "n < nblk s" "\<not> in_use s n" "of_nat n < log_start s"
    using free_find [OF assms(8)] by blast
  let ?d = "put_ent j (of_nat n) (blk s ind)"
  obtain y where y: "bmap_ent j ind s = Ok (of_nat n) y" "log_frame s y" "settled y" "busy y = busy s" "log_room s \<le> log_room y + 3" "blk y = (marked s n)(ind := ?d)"
    using bmap_ent_spec [OF d(1) x assms(2,5) n(1,4) assms(6,7)] by blast
  have iy: "icache y = icache s" "log_start y = log_start s"
    using log_frame_fs [OF y(2)] log_frame_fields [OF y(2)] by simp_all
  have sl: "fslot y ip k = (if k = 12 + j then of_nat n else fslot s ip k)" if "k < 141" for k
    using that assms(2,3,4) iy get_put_ent [of "blk s ind" "k - 12" j "of_nat n"] jn.jlength [OF d(2)] y(6) by (auto simp: fslot_def fblock_def Let_def)
  have k: "12 + j < 141" "fslot s ip (12 + j) = 0"
    using assms(2-5) by (simp_all add: fslot_def fblock_def)
  have m: "ind \<in> fslot s ip ` {..<142}"
    using assms(3) by (intro image_eqI [of _ _ 140]) (simp_all add: fslot_def)
  have nd: "fblock s ip c \<noteq> ind" if "c < 140" for c
    using d(7) [of c 140] assms(3,4) that by (auto simp: fslot_def)
  have b: "\<forall>c. c \<noteq> ind \<longrightarrow> blk y c = marked s n c" and i: "icache y = (icache s)(ip := ?i\<lparr>i_addrs := i_addrs ?i\<rparr>)"
    using y(6) iy by simp_all
  note inst = slot_install [OF assms(1) n(2-4) x nd m b y(3,4) iy(2) i d(4) k sl]
  have "stays 3 s y" "fblock y ip (12 + j) = of_nat n"
    using fs_frame_log [OF y(2)] y(3-5) sl [of "12 + j"] assms(2) by (simp_all add: stays_def fslot_def)
  then show ?thesis
    using y(1) inst n by (intro exI [of _ "of_nat n"] exI [of _ y] exI [of _ n]) (simp add: free_blocks_def)
qed

lemma extendsD:
  assumes "extends ip s t"
  shows "file_ok t ip" "i_size (icache t ip) = i_size (icache s ip)" "i_inum (icache t ip) = i_inum (icache s ip)" "jp \<noteq> ip \<Longrightarrow> icache t jp = icache s jp"
    "c < 140 \<Longrightarrow> fblock s ip c \<noteq> 0 \<Longrightarrow> fblock t ip c = fblock s ip c" "c < 140 \<Longrightarrow> fblock s ip c \<noteq> 0 \<Longrightarrow> blk t (fblock s ip c) = blk s (fblock s ip c)"
    "owned s x \<Longrightarrow> \<forall>k < 142. fslot s ip k \<noteq> x \<Longrightarrow> owned t x \<and> (\<forall>k < 142. fslot t ip k \<noteq> x) \<and> blk t x = blk s x"
    "\<exists>as. icache t = (icache s)(ip := (icache s ip)\<lparr>i_addrs := as\<rparr>)"
  using assms by (auto simp: extends_def)

lemma extends_trans:
  assumes "extends ip s t" "extends ip t u"
  shows "extends ip s u"
  unfolding extends_def
proof (intro conjI allI impI)
  note s = extendsD [OF assms(1)] and t = extendsD [OF assms(2)]
  show "file_ok u ip"
    by (rule t(1))
  show "\<exists>as. icache u = (icache s)(ip := (icache s ip)\<lparr>i_addrs := as\<rparr>)"
    using s(8) t(8) by auto
  show "fblock u ip c = fblock s ip c" "blk u (fblock s ip c) = blk s (fblock s ip c)" if "c < MAXFILE" "fblock s ip c \<noteq> 0" for c
    using s(5,6) [OF that] t(5,6) [OF that(1)] that by simp_all
  show "fslot u ip k \<noteq> x" if "owned s x \<and> (\<forall>k < MAXFILE + 2. fslot s ip k \<noteq> x)" "k < MAXFILE + 2" for x k
    using s(7) [of x] t(7) [of x] that by auto
  show "owned u x" "blk u x = blk s x" if "owned s x \<and> (\<forall>k < MAXFILE + 2. fslot s ip k \<noteq> x)" for x
    using s(7) [of x] t(7) [of x] that by auto
qed

lemma looks_extends:
  assumes "looks s t" "file_ok s ip"
  shows "extends ip s t"
proof -
  have "icache t = (icache s)(ip := (icache s ip)\<lparr>i_addrs := i_addrs (icache s ip)\<rparr>)"
    using looks_views(1) [OF assms(1)] by simp
  then show ?thesis
    using looks_views(2,8,9,10) [OF assms(1)] looks_file_ok [OF assms] unfolding extends_def by metis
qed

lemma stays_mono: "stays j s t \<Longrightarrow> j \<le> k \<Longrightarrow> stays k s t"
  by (simp add: stays_def)

lemma looks_free: "looks s t \<Longrightarrow> free_blocks t = free_blocks s"
  using looks_views [of s t] views_same [of t s] by (simp add: free_blocks_def)

lemma finite_free [simp]: "finite (free_blocks s)"
  by (simp add: free_blocks_def)

lemma bmap_indirect:
  assumes "\<not> unat bn < 12" "unat bn < 140" "i_dev (icache s ip) = 1"
  shows "bmap ip bn s = bnd (if i_addrs (icache s ip) ! 12 = 0
      then bnd (balloc 1) (\<lambda>addr. thn (md (upd_inode ip (\<lambda>i. i\<lparr>i_addrs := (i_addrs i)[12 := addr]\<rparr>))) (ret addr))
      else ret (i_addrs (icache s ip) ! 12)) (bmap_ent (unat bn - 12)) s"
proof -
  have bn: "\<not> bn < 12" "bn - 12 < 128" "unat (bn - 12) = unat bn - 12"
    using assms(1) unat_less12 [of bn] assms(2) by simp_all
  show ?thesis
    unfolding bmap_def bmap_ent_def [abs_def] kern_simps(3) by (simp add: bnd_rd bn assms(3) cong: if_cong)
qed

lemma bmap_spec:
  assumes "file_ok s ip" "unat bn < 140" "card (busy s) + 6 < log_room s" "1 \<le> log_outstanding s" "2 \<le> card (free_blocks s)"
  shows "\<exists>a t. bmap ip bn s = Ok a t \<and> stays 5 s t \<and> extends ip s t \<and> a \<noteq> 0 \<and> fblock t ip (unat bn) = a \<and> card (free_blocks s) \<le> card (free_blocks t) + 2"
proof -
  note d = file_okD [OF assms(1)]
  let ?ind = "i_addrs (icache s ip) ! 12" and ?j = "unat bn - 12"
  have fr: "free_blocks s \<noteq> {}"
    using assms(5) by auto
  consider (mapped) "fblock s ip (unat bn) \<noteq> 0" | (direct) "fblock s ip (unat bn) = 0" "unat bn < 12"
    | (ent) "fblock s ip (unat bn) = 0" "\<not> unat bn < 12" "?ind \<noteq> 0" | (both) "fblock s ip (unat bn) = 0" "\<not> unat bn < 12" "?ind = 0"
    by blast
  then show ?thesis
  proof cases
    case mapped
    then obtain t where t: "bmap ip bn s = Ok (fblock s ip (unat bn)) t" "looks s t"
      using bmap_mapped [OF assms(1,2)] assms(3) by auto
    then show ?thesis
      using mapped looks_views [OF t(2)] looks_extends [OF t(2) assms(1)] looks_free [OF t(2)] stays_mono [of 0 s t 5] by auto
  next
    case direct
    then have "i_addrs (icache s ip) ! unat bn = 0"
      by (simp add: fblock_def)
    then obtain a t n where t: "bnd (balloc 1) (\<lambda>addr. thn (md (upd_inode ip (\<lambda>i. i\<lparr>i_addrs := (i_addrs i)[unat bn := addr]\<rparr>))) (ret addr)) s = Ok a t"
        "stays 2 s t" "extends ip s t" "n \<in> free_blocks s" "free_blocks t = free_blocks s - {n}" "a \<noteq> 0" "i_addrs (icache t ip) = (i_addrs (icache s ip))[unat bn := a]"
      using install_addr [OF assms(1) _ _ _ assms(4) fr, of "unat bn"] assms(3) direct(2) by auto
    then have "bmap ip bn s = Ok a t" "fblock t ip (unat bn) = a"
      using direct d(3,4) by (simp_all add: bmap_def kern_simps fblock_def unat_less12)
    then show ?thesis
      using t stays_mono [OF t(2), of 5] by auto
  next
    case ent
    have "?j < 128" "get_ent ?j (blk s ?ind) = 0"
      using ent assms(2) by (simp_all add: fblock_def)
    then obtain a t n where t: "bmap_ent ?j ?ind s = Ok a t" "stays 3 s t" "extends ip s t" "n \<in> free_blocks s" "free_blocks t = free_blocks s - {n}" "a \<noteq> 0" "fblock t ip (12 + ?j) = a"
      using install_ent [OF assms(1) _ refl ent(3) _ _ assms(4) fr, of ?j] assms(3) by auto
    have "bmap ip bn s = bmap_ent ?j ?ind s"
      using bmap_indirect [OF ent(2) assms(2) d(3)] ent(3) by (simp add: kern_simps)
    then show ?thesis
      using t ent(2) stays_mono [OF t(2), of 5] by auto
  next
    case both
    obtain c t n where t: "bnd (balloc 1) (\<lambda>addr. thn (md (upd_inode ip (\<lambda>i. i\<lparr>i_addrs := (i_addrs i)[12 := addr]\<rparr>))) (ret addr)) s = Ok c t"
        "stays 2 s t" "extends ip s t" "n \<in> free_blocks s" "free_blocks t = free_blocks s - {n}" "c \<noteq> 0" "i_addrs (icache t ip) = (i_addrs (icache s ip))[12 := c]"
        "blk t c = replicate 512 0"
      using install_addr [OF assms(1) _ both(3) _ assms(4) fr] assms(3) by auto
    note st = staysD [OF t(2)]
    have ct: "card (free_blocks t) = card (free_blocks s) - 1"
      using t(4,5) by simp
    then have ft: "free_blocks t \<noteq> {}"
      using assms(5) by auto
    have "?j < 128" "get_ent ?j (blk t c) = 0" "c = i_addrs (icache t ip) ! 12"
      using both assms(2) t(7,8) d(4) get_ent_zero [of ?j] by simp_all
    then obtain a u m where u: "bmap_ent ?j c t = Ok a u" "stays 3 t u" "extends ip t u" "m \<in> free_blocks t" "free_blocks u = free_blocks t - {m}" "a \<noteq> 0" "fblock u ip (12 + ?j) = a"
      using install_ent [OF extendsD(1) [OF t(3)] _ _ t(6) _ _ _ ft, of ?j] assms(3,4) st by auto
    have "bmap ip bn s = bmap_ent ?j c t"
      using bmap_indirect [OF both(2) assms(2) d(3)] both(3) t(1) by (simp add: bnd_Ok)
    then show ?thesis
      using u both(2) stays_trans [OF t(2) u(2)] extends_trans [OF t(3) u(3)] ct by auto
  qed
qed

section \<open>Writing\<close>

text \<open>Changing an owned block leaves the bitmap as it is; changing a data block of a file leaves its addresses as they are.\<close>

lemma owned_write:
  assumes "bm_ok s" "owned s x" "blk t = (blk s)(x := d)" "settled t" "busy t = busy s" "log_start t = log_start s"
  shows "bm_ok t" "owned t = owned s" "m < nblk s \<Longrightarrow> in_use t m = in_use s m" "nblk t = nblk s" "bblock t = bblock s"
proof -
  note x = owned_facts [OF assms(2)]
  have "blk t 1 = blk s 1"
    using x(2) by (auto simp: assms(3))
  then show v: "nblk t = nblk s" "bblock t = bblock s"
    by (simp_all add: sblk_def bblock_def fun_eq_iff)
  show u: "in_use t m = in_use s m" if "m < nblk s" for m
    using x(5) [OF that] by (simp add: in_use_def v assms(3))
  show "bm_ok t" "owned t = owned s"
    using assms(1,4-6) u v by (auto simp: bm_ok_def owned_def fun_eq_iff)
qed

lemma block_write:
  assumes "file_ok s ip" "owned s x" "x \<noteq> i_addrs (icache s ip) ! 12" "blk t = (blk s)(x := d)" "settled t" "busy t = busy s" "log_start t = log_start s" "icache t = icache s"
  shows "file_ok t ip" "fblock t ip = fblock s ip" "fslot t ip = fslot s ip" "owned t = owned s" "free_blocks t = free_blocks s"
proof -
  note d = file_okD [OF assms(1)] and v = owned_write [OF file_okD(1) [OF assms(1)] assms(2,4-7)]
  show f: "fblock t ip = fblock s ip"
    unfolding fblock_def fun_eq_iff using assms(3) by (auto simp: assms(4,8) Let_def)
  then show g: "fslot t ip = fslot s ip"
    by (simp add: fslot_def fun_eq_iff assms(8))
  show "owned t = owned s" "free_blocks t = free_blocks s"
    using v assms(7) by (auto simp: free_blocks_def)
  have "0 < nblk s"
    using owned_facts(6) [OF assms(2)] by simp
  then show "file_ok t ip"
    using d v(1,2,3) g f by (intro file_okI) (auto simp: assms(8) fslot_def)
qed

lemma data_owned:
  assumes "file_ok s ip" "b < 140" "fblock s ip b \<noteq> 0"
  shows "owned s (fblock s ip b)" "fblock s ip b \<noteq> i_addrs (icache s ip) ! 12" "fblock s ip b \<noteq> IBLOCK (i_inum (icache s ip))"
  using file_okD(6) [OF assms(1), of b] file_okD(7) [OF assms(1), of b 140] file_okD(7) [OF assms(1), of b 141] assms(2,3) by (auto simp: fslot_def)

definition write_chunk :: "nat \<Rightarrow> uint32 \<Rightarrow> uchar list \<Rightarrow> uint32 \<times> uint32 \<times> uint32 \<Rightarrow> (unit, 'z fs_st_scheme) kern" where
  "write_chunk ip dev src = (\<lambda>(tot, off, m).
     bnd (bmap ip (off div of_nat BSIZE)) (\<lambda>a.
     bnd (bread dev a) (\<lambda>bp.
     thn (md (upd_buf bp (\<lambda>q. q\<lparr>b_data := splice (unat (off mod of_nat BSIZE)) (slice (unat tot) (unat m) src) (b_data q)\<rparr>))) (
     thn (log_write bp) (
     brelse bp)))))"

text \<open>
  \<open>writes ip a bs s t\<close>: from \<open>s\<close> to \<open>t\<close> the bytes \<open>bs\<close> were written to the blocks of the file, from offset \<open>a\<close> on; all other bytes of the file and all blocks of
  somebody else are as before, and so is the inode table but for the addresses of the file.
\<close>

definition writes :: "nat \<Rightarrow> nat \<Rightarrow> uchar list \<Rightarrow> 'z fs_st_scheme \<Rightarrow> 'z fs_st_scheme \<Rightarrow> bool" where
  "writes ip a bs s t = (file_ok t ip \<and> (\<exists>as. icache t = (icache s)(ip := (icache s ip)\<lparr>i_addrs := as\<rparr>)) \<and>
     (\<forall>k < MAXFILE * BSIZE. a \<le> k \<and> k < a + length bs \<longrightarrow> fblock t ip (k div BSIZE) \<noteq> 0 \<and> fbyte t ip k = bs ! (k - a)) \<and>
     (\<forall>k < MAXFILE * BSIZE. \<not> (a \<le> k \<and> k < a + length bs) \<and> fblock s ip (k div BSIZE) \<noteq> 0 \<longrightarrow>
        fblock t ip (k div BSIZE) \<noteq> 0 \<and> fbyte t ip k = fbyte s ip k) \<and>
     (\<forall>x. owned s x \<and> (\<forall>k < MAXFILE + 2. fslot s ip k \<noteq> x) \<longrightarrow> owned t x \<and> (\<forall>k < MAXFILE + 2. fslot t ip k \<noteq> x) \<and> blk t x = blk s x))"

lemma writesD:
  assumes "writes ip a bs s t"
  shows "file_ok t ip" "\<exists>as. icache t = (icache s)(ip := (icache s ip)\<lparr>i_addrs := as\<rparr>)"
    "k < 71680 \<Longrightarrow> a \<le> k \<Longrightarrow> k < a + length bs \<Longrightarrow> fblock t ip (k div 512) \<noteq> 0 \<and> fbyte t ip k = bs ! (k - a)"
    "k < 71680 \<Longrightarrow> \<not> (a \<le> k \<and> k < a + length bs) \<Longrightarrow> fblock s ip (k div 512) \<noteq> 0 \<Longrightarrow> fblock t ip (k div 512) \<noteq> 0 \<and> fbyte t ip k = fbyte s ip k"
    "owned s x \<Longrightarrow> \<forall>k < 142. fslot s ip k \<noteq> x \<Longrightarrow> owned t x \<and> (\<forall>k < 142. fslot t ip k \<noteq> x) \<and> blk t x = blk s x"
  using assms by (simp_all add: writes_def)

lemma writes_trans:
  assumes "writes ip a bs s t" "writes ip (a + length bs) cs t u"
  shows "writes ip a (bs @ cs) s u"
proof -
  note s = writesD [OF assms(1)] and t = writesD [OF assms(2)]
  have i: "\<exists>as. icache u = (icache s)(ip := (icache s ip)\<lparr>i_addrs := as\<rparr>)"
    using s(2) t(2) by auto
  have "fblock u ip (k div 512) \<noteq> 0 \<and> fbyte u ip k = (bs @ cs) ! (k - a)" if "k < 71680" "a \<le> k" "k < a + length (bs @ cs)" for k
    using s(3) [OF that(1,2)] t(3,4) [OF that(1)] that by (cases "k < a + length bs") (auto simp: nth_append)
  moreover have "fblock u ip (k div 512) \<noteq> 0 \<and> fbyte u ip k = fbyte s ip k" if "k < 71680" "\<not> (a \<le> k \<and> k < a + length (bs @ cs))" "fblock s ip (k div 512) \<noteq> 0" for k
    using s(4) [OF that(1) _ that(3)] t(4) [OF that(1)] that(2) by force
  ultimately show ?thesis
    using i t(1) s(5) t(5) unfolding writes_def by simp
qed

lemma same_block:
  assumes "off mod 512 + m \<le> 512" "off \<le> k" "k < off + (m :: nat)"
  shows "k div 512 = off div 512" "k mod 512 = off mod 512 + (k - off)"
proof -
  obtain j where j: "k = off + j" "j < m"
    using assms(2,3) by (metis add_less_cancel_left le_Suc_ex)
  have "off = 512 * (off div 512) + off mod 512"
    by simp
  then have "k = 512 * (off div 512) + (off mod 512 + j)" "off mod 512 + j < 512"
    using j assms(1) by linarith+
  then show "k div 512 = off div 512" "k mod 512 = off mod 512 + (k - off)"
    using j(1) by (metis add.commute add_0_right div_less div_mult_self2 zero_neq_numeral, metis add_diff_cancel_left' mod_less mod_mult_self4)
qed

lemma fbyte_write:
  assumes "file_ok s ip" "off < 71680" "off mod 512 + length bs \<le> 512" "fblock s ip (off div 512) = a" "a \<noteq> 0"
    and "blk t = (blk s)(a := splice (off mod 512) bs (blk s a))" "fblock t ip = fblock s ip" "k < 71680" "fblock s ip (k div 512) \<noteq> 0"
  shows "fbyte t ip k = (if off \<le> k \<and> k < off + length bs then bs ! (k - off) else fbyte s ip k)"
proof (cases "k div 512 = off div 512")
  case True
  have len: "length (blk s a) = 512"
    by (rule jn.jlength [OF file_okD(2) [OF assms(1)]])
  have k: "k = 512 * (off div 512) + k mod 512" "off = 512 * (off div 512) + off mod 512"
    using True by (metis mult_div_mod_eq)+
  have "off mod 512 \<le> k mod 512 \<and> k mod 512 < off mod 512 + length bs \<longleftrightarrow> off \<le> k \<and> k < off + length bs" "k mod 512 - off mod 512 = k - off"
    using k by linarith+
  then show ?thesis
    using True assms(3,4) len by (simp add: fbyte_def assms(6,7) nth_splice)
next
  case False
  then have "fblock s ip (k div 512) \<noteq> a"
    using file_okD(7) [OF assms(1), of "k div 512" "off div 512"] assms(2,4,5,8) by (auto simp: fslot_def less_mult_imp_div_less)
  moreover have "\<not> (off \<le> k \<and> k < off + length bs)"
    using same_block(1) [OF assms(3), of k] False by blast
  ultimately show ?thesis
    by (auto simp: fbyte_def assms(6,7))
qed

lemma write_chunk_spec:
  assumes "file_ok s ip" "card (busy s) + 7 < log_room s" "1 \<le> log_outstanding s" "2 \<le> card (free_blocks s)"
    and "unat off < 71680" "unat m \<le> 512 - unat off mod 512" "unat tot + unat m \<le> length src"
  shows "\<exists>t. write_chunk ip 1 src (tot, off, m) s = Ok () t \<and> stays 6 s t \<and> writes ip (unat off) (slice (unat tot) (unat m) src) s t \<and>
    card (free_blocks s) \<le> card (free_blocks t) + 2"
proof -
  let ?b = "unat off div 512" and ?o = "unat off mod 512" and ?bs = "slice (unat tot) (unat m) src"
  note n = block_number [OF assms(5)]
  obtain a t where t: "bmap ip (off div 512) s = Ok a t" "stays 5 s t" "extends ip s t" "a \<noteq> 0" "fblock t ip ?b = a" "card (free_blocks s) \<le> card (free_blocks t) + 2"
    using bmap_spec [OF assms(1) n(2)] assms(2-4) n(1) by auto
  note e = extendsD [OF t(3)] and st = staysD [OF t(2)] and d = file_okD [OF extendsD(1) [OF t(3)]]
  have oa: "owned t a"
    using d(6) [of ?b] n(1,2) t(4,5) by (simp add: fslot_def)
  let ?f = "splice ?o ?bs"
  have len: "length ?bs = unat m" "?o + unat m \<le> 512"
    using assms(6,7) mod_less_divisor [of 512 "unat off"] by (simp, linarith)
  have "length (?f (blk t a)) = 512"
    using len jn.jlength [OF d(2)] by simp
  then obtain u where u: "bnd (bread 1 a) (\<lambda>b. thn (md (\<lambda>s. upd_buf b (\<lambda>q. q\<lparr>b_data := ?f (b_data (bufs s b))\<rparr>) s)) (thn (log_write b) (thn (brelse b) (ret ())))) t = Ok () u"
      "log_frame t u" "settled u" "blk u = (blk t)(a := ?f (blk t a))" "busy u = busy t" "log_room t \<le> Suc (log_room u)"
    using jn.change [OF d(2), of a ?f "ret ()"] owned_facts [OF oa] st assms(2,3) by auto
  have iu: "icache u = icache t" "log_start u = log_start t"
    using log_frame_fs [OF u(2)] log_frame_fields [OF u(2)] by simp_all
  have b: "?b < 140" "fblock t ip ?b \<noteq> 0" "blk u = (blk t)(fblock t ip ?b := ?f (blk t a))"
    using n(1,2) t(4,5) u(4) by simp_all
  note w = block_write [OF e(1) data_owned(1,2) [OF e(1) b(1,2)] b(3) u(3,5) iu(2,1)]
  have bt: "fbyte u ip k = (if unat off \<le> k \<and> k < unat off + unat m then ?bs ! (k - unat off) else fbyte t ip k)"
    if "k < 71680" "fblock t ip (k div 512) \<noteq> 0" for k
    using fbyte_write [OF e(1) assms(5) _ t(5,4) _ w(2) that, of ?bs] len u(4) by simp
  have in1: "fblock u ip (k div 512) \<noteq> 0 \<and> fbyte u ip k = ?bs ! (k - unat off)" if "k < 71680" "unat off \<le> k" "k < unat off + length ?bs" for k
    using bt [OF that(1)] same_block(1) [of "unat off" "unat m" k] that len t(4,5) w(2) by simp
  have out: "fblock u ip (k div 512) \<noteq> 0 \<and> fbyte u ip k = fbyte s ip k"
    if "k < 71680" "\<not> (unat off \<le> k \<and> k < unat off + length ?bs)" "fblock s ip (k div 512) \<noteq> 0" for k
    using bt [OF that(1)] e(5,6) [of "k div 512"] that len w(2) by (auto simp: fbyte_def less_mult_imp_div_less)
  have "owned u x \<and> (\<forall>k < 142. fslot u ip k \<noteq> x) \<and> blk u x = blk s x" if "owned s x" "\<forall>k < 142. fslot s ip k \<noteq> x" for x
    using e(7) [OF that] w(3,4) u(4) b(1) t(5) fslot_fblock [OF b(1), of t ip] by auto
  then have "writes ip (unat off) ?bs s u"
    using w(1) e(8) iu(1) in1 out unfolding writes_def by simp
  moreover have "stays 6 s u"
    using stays_trans [OF t(2), of 1 u] u fs_frame_log [OF u(2)] by (simp add: stays_def)
  moreover have "write_chunk ip 1 src (tot, off, m) s = Ok () u"
    using t(1) u(1) n(3) by (auto simp: write_chunk_def kern_simps upd_buf_def split: outcome.splits)
  ultimately show ?thesis
    using t(6) w(5) by (intro exI [of _ u]) simp
qed

lemma slice_append: "slice a (m + k) xs = slice a m xs @ slice (a + m) k xs"
  unfolding slice_def take_add drop_drop by (simp add: add.commute [of m a])

lemma writes_refl: "file_ok s ip \<Longrightarrow> writes ip a [] s s"
  unfolding writes_def by (auto intro: exI [of _ "i_addrs (icache s ip)"])

lemma write_chunks:
  assumes "file_ok s ip" "card (busy s) + 6 * length (chunks tot off r) + 1 < log_room s" "1 \<le> log_outstanding s" "2 * length (chunks tot off r) \<le> card (free_blocks s)"
    and "unat off + unat r \<le> 71680" "unat tot + unat r \<le> length src" "unat tot + unat r < 2 ^ 32"
  shows "\<exists>t. for_each (chunks tot off r) (write_chunk ip 1 src) s = Ok () t \<and> stays (6 * length (chunks tot off r)) s t \<and>
    writes ip (unat off) (slice (unat tot) (unat r) src) s t"
  using assms
proof (induction "unat r" arbitrary: tot off r s rule: less_induct)
  case less
  show ?case
  proof (cases "r = 0")
    case True
    have "stays 0 s s"
      using file_okD(2) [OF less.prems(1)] jn.jrefl fs_frame_log by (auto simp: stays_def)
    then show ?thesis
      using True writes_refl [OF less.prems(1)] by (simp add: chunks.simps kern_simps slice_def)
  next
    case False
    have "unat off + unat r < 2 ^ 32"
      using less.prems(5) by simp
    from chunks_cases [OF False this, of tot] obtain m where
      m: "chunks tot off r = (tot, off, m) # chunks (tot + m) (off + m) (r - m)" "0 < unat m" "unat m \<le> unat r" "unat m \<le> 512 - unat off mod 512"
        "unat (off + m) = unat off + unat m" "unat (r - m) = unat r - unat m"
      by blast
    have tm: "unat (tot + m) = unat tot + unat m"
      using less.prems(7) m(3) by (intro unat_add_lt) simp
    have "unat off < 71680" "unat tot + unat m \<le> length src"
      using m(2,3) less.prems(5,6) by linarith+
    then obtain t where t: "write_chunk ip 1 src (tot, off, m) s = Ok () t" "stays 6 s t" "writes ip (unat off) (slice (unat tot) (unat m) src) s t"
        "card (free_blocks s) \<le> card (free_blocks t) + 2"
      using write_chunk_spec [OF less.prems(1) _ less.prems(3) _ _ m(4), of tot src] less.prems(2,4) m(1) by auto
    note st = staysD [OF t(2)]
    obtain u where u: "for_each (chunks (tot + m) (off + m) (r - m)) (write_chunk ip 1 src) t = Ok () u" "stays (6 * length (chunks (tot + m) (off + m) (r - m))) t u"
        "writes ip (unat off + unat m) (slice (unat tot + unat m) (unat r - unat m) src) t u"
      using less.hyps [of "r - m" t "tot + m" "off + m"] writesD(1) [OF t(3)] less.prems(2-7) m t(4) st tm by auto
    have "slice (unat tot) (unat r) src = slice (unat tot) (unat m) src @ slice (unat tot + unat m) (unat r - unat m) src"
      using slice_append [of "unat tot" "unat m" "unat r - unat m" src] m(3) by simp
    moreover have "length (slice (unat tot) (unat m) src) = unat m"
      using \<open>unat tot + unat m \<le> length src\<close> by simp
    ultimately have "writes ip (unat off) (slice (unat tot) (unat r) src) s u"
      using writes_trans [OF t(3)] u(3) by simp
    then show ?thesis
      using t(1) u(1) stays_trans [OF t(2) u(2)] by (simp add: m(1) kern_simps)
  qed
qed

text \<open>The new size of the inode, in memory and on the disk.\<close>

lemma writei_size:
  assumes "writes ip a bs s t" "file_ok s ip" "unat (i_size (icache s ip)) < a + length bs" "a \<le> unat (i_size (icache s ip))" "a + length bs \<le> 71680" "unat sz = a + length bs"
    and "settled t" "card (busy t) < log_room t" "1 \<le> log_outstanding t"
  shows "\<exists>u. thn (md (upd_inode ip (\<lambda>i. i\<lparr>i_size := sz\<rparr>))) (iupdate ip) t = Ok () u \<and> stays 1 t u \<and> file_ok u ip \<and>
    icache u = (icache t)(ip := (icache t ip)\<lparr>i_size := sz\<rparr>) \<and> fblock u ip = fblock t ip \<and> fslot u ip = fslot t ip \<and> owned u = owned t \<and>
    (\<forall>x. x \<noteq> IBLOCK (i_inum (icache s ip)) \<longrightarrow> blk u x = blk t x) \<and> dinode_at u (i_inum (icache s ip)) = dinode_of (icache u ip)"
proof -
  note w = writesD [OF assms(1)] and d = file_okD [OF writesD(1) [OF assms(1)]]
  let ?t = "upd_inode ip (\<lambda>i. i\<lparr>i_size := sz\<rparr>) t" and ?n = "IBLOCK (i_inum (icache t ip))"
  have in1: "i_inum (icache t ip) = i_inum (icache s ip)"
    using w(2) by auto
  have f: "fblock ?t ip = fblock t ip" "fslot ?t ip = fslot t ip" "owned ?t = owned t" "sblk ?t = sblk t" "bblock ?t = bblock t" "in_use ?t = in_use t"
    by (auto simp: fblock_def fslot_def owned_def sblk_def bblock_def in_use_def fun_eq_iff Let_def)
  have below: "fblock t ip b \<noteq> 0" if "512 * b < a + length bs" for b
  proof (cases "a \<le> 512 * b")
    case True
    then show ?thesis
      using w(3) [of "512 * b"] that assms(5) by simp
  next
    case False
    then have "fblock s ip b \<noteq> 0"
      using assms(4) by (intro file_okD(9) [OF assms(2)]) linarith
    then show ?thesis
      using w(4) [of "512 * b"] False that assms(5) by simp
  qed
  have "bm_ok ?t"
    using d(1) by (simp add: bm_ok_def f)
  then have ok: "file_ok ?t ip"
    using d below assms(5,6) by (intro file_okI) (auto simp: f fslot_def)
  have x: "owned t ?n" "?n \<noteq> i_addrs (icache t ip) ! 12"
    using d(6) [of 141] d(7) [of 140 141] d(10) by (auto simp: fslot_def)
  have ib: "iblock_ok ?t (i_inum (icache t ip))"
    using owned_facts [OF x(1)] assms(7,8) by (simp add: iblock_ok_def)
  let ?d = "put_dinode (ioff (i_inum (icache t ip))) (dinode_of ((icache t ip)\<lparr>i_size := sz\<rparr>)) (blk t ?n)"
  obtain u where u: "iupdate ip ?t = Ok () u" "log_frame ?t u" "settled u" "busy u = busy t" "log_room t \<le> Suc (log_room u)" "blk u = (blk t)(?n := ?d)"
    using iupdate_spec [of ?t ip] ib d(3,4) assms(8,9) by auto
  have iu: "icache u = icache ?t" "log_start u = log_start ?t"
    using log_frame_fs [OF u(2)] log_frame_fields [OF u(2)] by simp_all
  have v: "file_ok u ip" "fblock u ip = fblock ?t ip" "fslot u ip = fslot ?t ip" "owned u = owned ?t"
    by (rule block_write [OF ok, of ?n]; use x u iu f in simp)+
  have "dinode_at u (i_inum (icache t ip)) = dinode_of ((icache t ip)\<lparr>i_size := sz\<rparr>)"
    using get_put_dinode [of "ioff (i_inum (icache t ip))" "blk t ?n"] ioff_bound jn.jlength [OF d(2)] d(4) u(6) by (simp add: dinode_at_def dinode_of_def)
  moreover have "stays 1 t u"
    using u fs_frame_trans [OF fs_frame_inode fs_frame_log [OF u(2)]] by (simp add: stays_def)
  ultimately show ?thesis
    using u(1,6) v iu f in1 by (intro exI [of _ u]) (simp add: kern_simps)
qed

lemma bytes_splice:
  assumes "off \<le> sz" "\<And>k. k < max sz (off + length bs) \<Longrightarrow> f k = (if off \<le> k \<and> k < off + length bs then bs ! (k - off) else g k)"
  shows "map f [0..<max sz (off + length bs)] = splice off bs (map g [0..<sz])"
proof (rule nth_equalityI)
  show "length (map f [0..<max sz (off + length bs)]) = length (splice off bs (map g [0..<sz]))"
    using assms(1) by (simp add: splice_def max_def)
  fix k
  assume "k < length (map f [0..<max sz (off + length bs)])"
  then show "map f [0..<max sz (off + length bs)] ! k = splice off bs (map g [0..<sz]) ! k"
    using assms by (auto simp: splice_def nth_append min_def split: if_splits)
qed

lemma writes_byte:
  assumes "writes ip a bs s t" "file_ok s ip" "a \<le> unat (i_size (icache s ip))" "a + length bs \<le> 71680" "k < max (unat (i_size (icache s ip))) (a + length bs)"
  shows "fbyte t ip k = (if a \<le> k \<and> k < a + length bs then bs ! (k - a) else fbyte s ip k)"
proof (cases "a \<le> k \<and> k < a + length bs")
  case True
  then show ?thesis
    using writesD(3) [OF assms(1), of k] assms(4) by simp
next
  case False
  then have k: "k < unat (i_size (icache s ip))"
    using assms(3,5) by auto
  then have "fblock s ip (k div 512) \<noteq> 0"
    by (intro file_okD(9) [OF assms(2)]) (meson le_less_trans times_div_less_eq_dividend)
  then show ?thesis
    using writesD(4) [OF assms(1), of k] False k file_okD(8) [OF assms(2)] by auto
qed

lemma writei_size_bytes:
  assumes t: "writes ip (unat off) src s t" "file_ok s ip" "unat off \<le> unat (i_size (icache s ip))" "unat off + length src \<le> 71680"
    and u: "unat (off + n) = unat off + length src" "unat (i_size (icache s ip)) < unat off + length src"
    and v: "file_ok v ip" "icache v = (icache t)(ip := (icache t ip)\<lparr>i_size := off + n\<rparr>)" "fblock v ip = fblock t ip"
      "\<forall>x. x \<noteq> IBLOCK (i_inum (icache s ip)) \<longrightarrow> blk v x = blk t x"
  shows "file_bytes v ip = splice (unat off) src (file_bytes s ip)"
proof -
  let ?m = "max (unat (i_size (icache s ip))) (unat off + length src)"
  note w = writesD [OF t(1)]
  have sv: "unat (i_size (icache v ip)) = ?m"
    using v(2) u by simp
  have "fbyte v ip k = fbyte t ip k" if "k < ?m" for k
  proof -
    have "fblock t ip (k div 512) \<noteq> 0"
      using file_okD(9) [OF v(1), of "k div 512"] that v(3) sv by (metis le_less_trans times_div_less_eq_dividend)
    moreover have "k div 512 < 140" "i_inum (icache t ip) = i_inum (icache s ip)"
      using that u(2) t(4) w(2) by (auto simp: less_mult_imp_div_less)
    ultimately show ?thesis
      using data_owned(3) [OF w(1)] v(3,4) by (simp add: fbyte_def)
  qed
  then show ?thesis
    unfolding file_bytes_def sv using writes_byte [OF t] by (intro bytes_splice [OF t(3)]) simp
qed

lemma writei_spec:
  assumes "file_ok s ip" "unat off \<le> unat (i_size (icache s ip))" "unat off + length src \<le> 71680" "n = of_nat (length src)"
    and "card (busy s) + 6 * length (chunks 0 off n) + 2 < log_room s" "1 \<le> log_outstanding s" "2 * length (chunks 0 off n) \<le> card (free_blocks s)"
  shows "\<exists>t. writei devsw ip src off n s = Ok (int (length src)) t \<and> stays (6 * length (chunks 0 off n) + 1) s t \<and> file_ok t ip \<and>
    file_bytes t ip = splice (unat off) src (file_bytes s ip) \<and> (\<exists>as sz. icache t = (icache s)(ip := (icache s ip)\<lparr>i_addrs := as, i_size := sz\<rparr>)) \<and>
    (\<forall>x. owned s x \<and> (\<forall>k < MAXFILE + 2. fslot s ip k \<noteq> x) \<longrightarrow> blk t x = blk s x)"
proof -
  note d = file_okD [OF assms(1)]
  let ?i = "icache s ip" and ?N = "length (chunks 0 off n)" and ?L = "length src"
  have n: "unat n = ?L"
    using assms(3,4) by (simp add: unat_of_nat_lt)
  have u: "unat (off + n) = unat off + ?L"
    using unat_add_lt [of off n] n assms(3) by simp
  obtain t where t: "for_each (chunks 0 off n) (write_chunk ip 1 src) s = Ok () t" "stays (6 * ?N) s t" "writes ip (unat off) src s t"
    using write_chunks [OF assms(1) _ assms(6,7), of src] assms(3,5) n by (auto simp: slice_def)
  note w = writesD [OF t(3)] and st = staysD [OF t(2)]
  have sn: "sint n = int ?L"
    using n assms(3) by (subst sint_unat) auto
  have le: "(off > i_size ?i \<or> off + n < off) = False" "(off + n > 71680) = False"
    using assms(2,3) u by (simp_all add: word_le_nat_alt word_less_nat_alt)
  have go: "writei devsw ip src off n s = thn (whenk (n > 0 \<and> off + n > i_size ?i) (thn (md (upd_inode ip (\<lambda>i. i\<lparr>i_size := off + n\<rparr>))) (iupdate ip))) (ret (sint n)) t"
    using t(1) d(3,5) unfolding writei_def write_chunk_def by (simp add: kern_simps le)
  note byte = writes_byte [OF t(3) assms(1-3)]
  obtain as where other: "icache t = (icache s)(ip := ?i\<lparr>i_addrs := as\<rparr>)"
    using w(2) by blast
  have frame: "blk t x = blk s x" if "owned s x \<and> (\<forall>k < MAXFILE + 2. fslot s ip k \<noteq> x)" for x
    using w(5) that by auto
  show ?thesis
  proof (cases "i_size ?i < off + n")
    case True
    then have grow: "unat (i_size ?i) < unat off + ?L" "n > 0"
      using u assms(2) n by (auto simp: word_less_nat_alt)
    obtain v where v: "thn (md (upd_inode ip (\<lambda>i. i\<lparr>i_size := off + n\<rparr>))) (iupdate ip) t = Ok () v" "stays 1 t v" "file_ok v ip"
        "icache v = (icache t)(ip := (icache t ip)\<lparr>i_size := off + n\<rparr>)" "fblock v ip = fblock t ip" "\<forall>x. x \<noteq> IBLOCK (i_inum ?i) \<longrightarrow> blk v x = blk t x"
      using writei_size [OF t(3) assms(1) grow(1) assms(2,3) u st(1)] assms(5,6) st by auto
    have "file_bytes v ip = splice (unat off) src (file_bytes s ip)"
      using writei_size_bytes [OF t(3) assms(1-3) u grow(1) v(3-6)] .
    moreover have "blk v x = blk s x" if "owned s x \<and> (\<forall>k < MAXFILE + 2. fslot s ip k \<noteq> x)" for x
    proof -
      have "fslot s ip 141 \<noteq> x"
        using that by auto
      then show ?thesis
        using v(6) frame [OF that] by (auto simp: fslot_def)
    qed
    ultimately show ?thesis
      unfolding go using v(1-4) sn True grow(2) other stays_trans [OF t(2) v(2)] by (intro exI [of _ v]) (auto simp: kern_simps)
  next
    case False
    then have "max (unat (i_size ?i)) (unat off + ?L) = unat (i_size ?i)" "i_size (icache t ip) = i_size ?i"
      using u w(2) by (auto simp: word_less_nat_alt)
    then have "file_bytes t ip = splice (unat off) src (file_bytes s ip)"
      using bytes_splice [OF assms(2) byte] by (simp add: file_bytes_def)
    moreover have "\<exists>as sz. icache t = (icache s)(ip := ?i\<lparr>i_addrs := as, i_size := sz\<rparr>)"
      using other by (intro exI [of _ as] exI [of _ "i_size ?i"]) simp
    ultimately show ?thesis
      unfolding go using w(1) sn False frame stays_mono [OF t(2)] by (intro exI [of _ t]) (simp add: kern_simps)
  qed
qed


section \<open>Witness\<close>

text \<open>An empty file, with inode 7, on a disk on which the blocks 500 and 501 are free.\<close>

definition two_free :: "uint32 \<Rightarrow> uchar list" where
  "two_free n = (if n = 28 then bm_clear 501 (full_disk 28) else demo_disk n)"

lemma two_free_used: "b < BPB \<Longrightarrow> bm_bit (two_free 28) b \<longleftrightarrow> b \<noteq> 500 \<and> b \<noteq> 501"
proof -
  assume b: "b < BPB"
  have "length (full_disk 28) = 512"
    by (simp add: full_disk_def)
  then show ?thesis
    using bm_clear_bit [of 501 "full_disk 28" b] full_disk_used [OF b] by (auto simp: two_free_def)
qed

lemma empty_file:
  assumes "ty \<noteq> T_DEV"
  shows "\<exists>s :: fs_st. file_ok s 0 \<and> i_type (icache s 0) = ty \<and> busy s = {} \<and> log_room s = 29 \<and> log_outstanding s = 1 \<and> i_size (icache s 0) = 0 \<and> {b. b < nblk s \<and> \<not> in_use s b \<and> of_nat b < log_start s} = {500, 501}"
proof -
  have d: "two_free 1 = demo_disk 1" "two_free 970 = demo_disk 970" "length (two_free m) = 512" for m
    by (simp_all add: two_free_def full_disk_def demo_disk_facts)
  obtain r :: fs_st where r: "settled r" "busy r = {}" "log_room r = 29" "log_outstanding r = 1" "log_start r = 970" "blk r = two_free"
    using fs_started_on [of two_free] d by blast
  define i where "i = no_inode\<lparr>i_dev := 1, i_inum := 7, i_ref := 1, i_type := ty\<rparr>"
  define s where "s = r\<lparr>icache := (\<lambda>ip. if ip = 0 then i else no_inode)\<rparr>"
  have s: "icache s 0 = i" "settled s" "busy s = {}" "log_room s = 29" "log_outstanding s = 1" "log_start s = 970" "blk s = two_free"
    using r by (simp_all add: s_def)
  have sb: "sb_size (decode_sb (two_free 1)) = 1000" "sb_ninodes (decode_sb (two_free 1)) = 200"
    unfolding d by (simp_all add: demo_disk_def decode_sb_def slice_def)
  have n: "nblk s = 1000"
    by (simp add: sblk_def s(7) sb)
  have bb: "bblock s b = 28" if "b < 1000" for b
    using that bblock_div [of b 0 s] by (simp add: bblock_def BBLOCK_def sblk_def s(7) sb)
  have u: "in_use s b \<longleftrightarrow> b \<noteq> 500 \<and> b \<noteq> 501" if "b < 1000" for b
    using two_free_used [of b] that by (simp add: in_use_def bb [OF that] s(7))
  have z: "fslot s 0 k = (if k < 141 then 0 else 2)" for k
    by (auto simp: fslot_def fblock_def s(1) i_def no_inode_def IBLOCK_def nth_replicate nth_Cons' Let_def)
  have "bm_ok s"
    using s n bb u by (auto simp: bm_ok_def)
  moreover have "owned s 2"
    using s n bb u by (auto simp: owned_def)
  ultimately have "file_ok s 0"
    using u [of 0] assms by (intro file_okI) (auto simp: z s(1) i_def no_inode_def split: if_splits)
  then show ?thesis
    using s n u by (intro exI [of _ s]) (auto simp: i_def no_inode_def)
qed


end
