(* ===== verification/Dirent.thy ===== *)
theory Dirent
  imports Fcontent
begin

text \<open>
  Properties of directories and path names (\<^verbatim>\<open>dirlookup\<close>, \<^verbatim>\<open>dirlink\<close>, \<^verbatim>\<open>skipelem\<close> of \<^verbatim>\<open>src/fs.c\<close>): a directory is a file whose content is a sequence of entries.
\<close>

section \<open>Names\<close>

text \<open>The name a field of a directory entry stands for: the bytes before the first zero, at most fourteen of them.\<close>

definition dname :: "uchar list \<Rightarrow> uchar list" where
  "dname p = takeWhile (\<lambda>c. c \<noteq> 0) (take DIRSIZ p)"

lemma chr_at_simps [simp]: "chr_at [] = 0" "chr_at (c # p) = c"
  by (simp_all add: chr_at_def)

lemma strncmp_list_eq: "strncmp_list n p q = 0 \<longleftrightarrow> takeWhile (\<lambda>c. c \<noteq> 0) (take n p) = takeWhile (\<lambda>c. c \<noteq> 0) (take n q)"
proof (induction n p q rule: strncmp_list.induct)
  case (2 n p q)
  then show ?case
    by (cases p; cases q) (auto simp: word_uint_eq_iff)
qed simp

lemma namecmp_eq: "namecmp p q = 0 \<longleftrightarrow> dname p = dname q"
  by (simp add: namecmp_def dname_def strncmp_list_eq)

lemma takeWhile_take': "takeWhile P (take n xs) = take n (takeWhile P xs)"
  by (induction xs arbitrary: n) (auto simp: take_Cons')

lemma dname_strncpy: "dname (strncpy_list DIRSIZ p) = dname p"
proof -
  have "takeWhile (\<lambda>c. c \<noteq> 0) (takeWhile (\<lambda>c. c \<noteq> 0) p @ replicate 14 0) = takeWhile (\<lambda>c. c \<noteq> 0) p"
    by (induction p) (simp_all add: numeral_eq_Suc)
  then show ?thesis
    unfolding dname_def strncpy_list_def take_take takeWhile_take' by simp
qed

lemma length_strncpy [simp]: "length (strncpy_list n p) = n"
  by (simp add: strncpy_list_def)

section \<open>Entries\<close>

definition dentry :: "'z fs_st_scheme \<Rightarrow> nat \<Rightarrow> nat \<Rightarrow> dirent" where
  "dentry s dp j = get_dirent (slice (16 * j) 16 (file_bytes s dp))"

definition dcount :: "'z fs_st_scheme \<Rightarrow> nat \<Rightarrow> nat" where
  "dcount s dp = unat (i_size (icache s dp)) div 16"

definition dir_ok :: "'z fs_st_scheme \<Rightarrow> nat \<Rightarrow> bool" where
  "dir_ok s dp = (file_ok s dp \<and> i_type (icache s dp) = T_DIR \<and> unat (i_size (icache s dp)) mod 16 = 0 \<and> card (busy s) \<le> log_room s)"

definition matches :: "uchar list \<Rightarrow> dirent \<Rightarrow> bool" where
  "matches name e = (de_inum e \<noteq> 0 \<and> dname (de_name e) = dname name)"

lemma get_put_dirent: "length nm = 14 \<Longrightarrow> get_dirent (put_dirent \<lparr>de_inum = i, de_name = nm\<rparr>) = \<lparr>de_inum = i, de_name = nm\<rparr>"
  by (simp add: get_dirent_def put_dirent_def)

lemma dir_okD:
  assumes "dir_ok s dp"
  shows "file_ok s dp" "i_type (icache s dp) = 1" "unat (i_size (icache s dp)) = 16 * dcount s dp" "card (busy s) \<le> log_room s" "dcount s dp \<le> 4480"
  using assms file_okD(8) [of s dp] by (auto simp: dir_ok_def dcount_def)

lemma dir_looks:
  assumes "looks s t"
  shows "dentry t dp = dentry s dp" "dcount t dp = dcount s dp" "dir_ok s dp \<Longrightarrow> dir_ok t dp"
  using looks_views [OF assms] looks_file_ok [OF assms] by (auto simp: dentry_def dcount_def dir_ok_def fun_eq_iff)

lemma read_entry:
  assumes "dir_ok s dp" "j < dcount s dp"
  shows "\<exists>t. readi devsw dp (of_nat (16 * j)) 16 s = Ok (16, slice (16 * j) 16 (file_bytes s dp)) t \<and> looks s t"
proof -
  note d = dir_okD [OF assms(1)]
  have u: "unat (of_nat (16 * j) :: uint32) = 16 * j"
    using assms(2) d(5) by (intro unat_of_nat_lt) simp
  have "16 * j + 16 \<le> unat (i_size (icache s dp))"
    using assms(2) d(3) by simp
  then show ?thesis
    using readi_spec [OF d(1,4), of "of_nat (16 * j)" 16 devsw, unfolded u] assms(2) d(5) by (auto simp: min_def)
qed

lemma dirlookup_from_spec:
  assumes "dir_ok s dp" "j \<le> dcount s dp" "dcount s dp - j < fuel"
  shows "\<exists>t. looks s t \<and> dirlookup_from devsw fuel dp name (of_nat (16 * j)) s =
    (case find (\<lambda>k. matches name (dentry s dp k)) [j..<dcount s dp] of
       None \<Rightarrow> Ok None t
     | Some k \<Rightarrow> bnd (iget 1 (ucast (de_inum (dentry s dp k)))) (\<lambda>ip. ret (Some (ip, of_nat (16 * k)))) t)"
  using assms
proof (induction fuel arbitrary: j s)
  case (Suc fuel)
  note d = dir_okD [OF Suc.prems(1)]
  have u: "unat (of_nat (16 * j) :: uint32) = 16 * j"
    using Suc.prems(2) d(5) by (intro unat_of_nat_lt) simp
  show ?case
  proof (cases "j < dcount s dp")
    case False
    then have "\<not> (of_nat (16 * j) :: uint32) < i_size (icache s dp)"
      using d(3) u by (simp add: word_less_nat_alt)
    moreover have "looks s s"
      using file_okD(2) [OF d(1)] jn.jrefl by (simp add: looks_def)
    ultimately show ?thesis
      using False d(2) by (auto simp: kern_simps)
  next
    case True
    let ?e = "dentry s dp j"
    obtain t where t: "readi devsw dp (of_nat (16 * j)) 16 s = Ok (16, slice (16 * j) 16 (file_bytes s dp)) t" "looks s t"
      using read_entry [OF Suc.prems(1) True] by blast
    note v = looks_views [OF t(2)] and dl = dir_looks [OF t(2)]
    have lt: "(of_nat (16 * j) :: uint32) < i_size (icache s dp)"
      using True d(3) u by (simp add: word_less_nat_alt)
    have up: "[j..<dcount s dp] = j # [Suc j..<dcount s dp]"
      using True by (rule upt_conv_Cons)
    have e: "get_dirent (slice (16 * j) 16 (file_bytes s dp)) = ?e"
      by (simp add: dentry_def)
    show ?thesis
    proof (cases "matches name ?e")
      case True
      then have "dirlookup_from devsw (Suc fuel) dp name (of_nat (16 * j)) s = bnd (iget 1 (ucast (de_inum ?e))) (\<lambda>ip. ret (Some (ip, of_nat (16 * j)))) t"
        using t(1) lt d(2) file_okD(3) [OF d(1)] e by (simp add: kern_simps matches_def namecmp_eq Let_def split: outcome.split)
      then show ?thesis
        using t(2) True by (auto simp: up)
    next
      case False
      then have step: "dirlookup_from devsw (Suc fuel) dp name (of_nat (16 * j)) s = dirlookup_from devsw fuel dp name (of_nat (16 * Suc j)) t"
        using t(1) lt d(2) e by (auto simp: kern_simps matches_def namecmp_eq Let_def add.commute)
      have "dcount s dp - Suc j < fuel"
        using \<open>j < dcount s dp\<close> Suc.prems(3) by linarith
      then obtain w where w: "looks t w" "dirlookup_from devsw fuel dp name (of_nat (16 * Suc j)) t =
          (case find (\<lambda>k. matches name (dentry t dp k)) [Suc j..<dcount t dp] of
             None \<Rightarrow> Ok None w
           | Some k \<Rightarrow> bnd (iget 1 (ucast (de_inum (dentry t dp k)))) (\<lambda>ip. ret (Some (ip, of_nat (16 * k)))) w)"
        using Suc.IH [OF dl(3) [OF Suc.prems(1)], of "Suc j"] \<open>j < dcount s dp\<close> dl(2) by auto
      show ?thesis
        unfolding step w(2) dl using looks_trans [OF t(2) w(1)] False by (auto simp: up)
    qed
  qed
qed simp

lemma dirlookup_spec:
  assumes "dir_ok s dp"
  shows "\<exists>t. looks s t \<and> dirlookup devsw dp name s =
    (case find (\<lambda>k. matches name (dentry s dp k)) [0..<dcount s dp] of
       None \<Rightarrow> Ok None t
     | Some k \<Rightarrow> bnd (iget 1 (ucast (de_inum (dentry s dp k)))) (\<lambda>ip. ret (Some (ip, of_nat (16 * k)))) t)"
  using dirlookup_from_spec [OF assms, of 0 "2 ^ 28" devsw name] dir_okD [OF assms]
  by (simp add: dirlookup_def IS_DEV_DIR_def kern_simps del: dirlookup_from.simps)

text \<open>The search for a free entry.\<close>

lemma free_entry:
  assumes "dir_ok s dp" "\<forall>j \<in> set js. j < dcount s dp"
  shows "\<exists>t. looks s t \<and> for_find (map (\<lambda>j. 16 * j) js) (\<lambda>off.
      bnd (readi devsw dp (of_nat off) 16) (\<lambda>(r, bs).
      if r \<noteq> 16 then panic ''dirlink read''
      else if de_inum (get_dirent bs) = 0 then ret (Some off)
      else ret None)) s = Ok (map_option (\<lambda>j. 16 * j) (find (\<lambda>j. de_inum (dentry s dp j) = 0) js)) t"
  using assms
proof (induction js arbitrary: s)
  case Nil
  have "looks s s"
    using file_okD(2) [OF dir_okD(1) [OF Nil(1)]] jn.jrefl by (simp add: looks_def)
  then show ?case
    by (auto simp: kern_simps)
next
  case (Cons j js)
  obtain t where t: "readi devsw dp (of_nat (16 * j)) 16 s = Ok (16, slice (16 * j) 16 (file_bytes s dp)) t" "looks s t"
    using read_entry [OF Cons.prems(1), of j] Cons.prems(2) by auto
  note dl = dir_looks [OF t(2)]
  obtain u where "looks t u" "for_find (map (\<lambda>j. 16 * j) js) (\<lambda>off.
      bnd (readi devsw dp (of_nat off) 16) (\<lambda>(r, bs).
      if r \<noteq> 16 then panic ''dirlink read''
      else if de_inum (get_dirent bs) = 0 then ret (Some off)
      else ret None)) t = Ok (map_option (\<lambda>j. 16 * j) (find (\<lambda>j. de_inum (dentry s dp j) = 0) js)) u"
    using Cons.IH [OF dl(3) [OF Cons.prems(1)]] Cons.prems(2) dl by auto
  then show ?case
    using t looks_trans [OF t(2)] by (cases "de_inum (dentry s dp j) = 0") (auto simp: bnd_Ok dentry_def [symmetric])
qed

lemma chunks_entry:
  assumes "16 * j + 16 \<le> 71680"
  shows "length (chunks 0 (of_nat (16 * j)) 16) = 1"
proof -
  let ?o = "of_nat (16 * j) :: uint32"
  have u: "unat ?o = 16 * j"
    using assms by (intro unat_of_nat_lt) simp
  have "16 * j mod 512 = 16 * (j mod 32)" "j mod 32 < 32"
    by (simp_all add: mult_mod_right)
  then have "16 \<le> 512 - unat ?o mod 512"
    unfolding u by linarith
  then have "min 16 (512 - ?o mod 512) = 16"
    using chunk_pos(4) [of 16 ?o] by (simp add: min_def word_le_nat_alt)
  then show ?thesis
    unfolding chunks.simps [of 0 ?o] by (simp add: chunks.simps [of _ _ 0] Let_def del: of_nat_mult)
qed

text \<open>The entries after an entry was written.\<close>

lemma slice_splice_other:
  assumes "16 * k \<le> length d" "length e = 16" "j \<noteq> k" "16 * j + 16 \<le> length (splice (16 * k) e d)"
  shows "slice (16 * j) 16 (splice (16 * k) e d) = slice (16 * j) 16 d"
proof (rule nth_equalityI)
  have "16 * j + 16 \<le> length d"
    using assms by (auto simp: splice_def)
  then show "length (slice (16 * j) 16 (splice (16 * k) e d)) = length (slice (16 * j) 16 d)"
    using assms(4) by simp
  fix i
  assume "i < length (slice (16 * j) 16 (splice (16 * k) e d))"
  then have i: "i < 16"
    using assms(4) by simp
  have "16 * j + i < 16 * k \<or> 16 * k + 16 \<le> 16 * j + i"
    using assms(3) i by linarith
  then show "slice (16 * j) 16 (splice (16 * k) e d) ! i = slice (16 * j) 16 d ! i"
    using assms i \<open>16 * j + 16 \<le> length d\<close> by (auto simp: nth_slice splice_def nth_append)
qed

lemma entry_written:
  assumes "dir_ok s dp" "length e = 16" "k \<le> dcount s dp" "file_bytes t dp = splice (16 * k) e (file_bytes s dp)"
  shows "dcount t dp = max (dcount s dp) (Suc k)" "unat (i_size (icache t dp)) mod 16 = 0" "j < dcount t dp \<Longrightarrow> dentry t dp j = (if j = k then get_dirent e else dentry s dp j)"
proof -
  have l: "length (file_bytes s dp) = 16 * dcount s dp" "length (file_bytes t dp) = unat (i_size (icache t dp))"
    using dir_okD(3) [OF assms(1)] by (simp_all add: file_bytes_def)
  have "unat (i_size (icache t dp)) = 16 * max (dcount s dp) (Suc k)"
    using assms(2-4) l by (auto simp: splice_def max_def)
  then show c: "dcount t dp = max (dcount s dp) (Suc k)" "unat (i_size (icache t dp)) mod 16 = 0"
    by (simp_all add: dcount_def)
  assume "j < dcount t dp"
  then have j: "16 * j + 16 \<le> length (splice (16 * k) e (file_bytes s dp))"
    using c(1) l(2) \<open>unat (i_size (icache t dp)) = _\<close> unfolding assms(4) by simp
  show "dentry t dp j = (if j = k then get_dirent e else dentry s dp j)"
  proof (cases "j = k")
    case True
    then show ?thesis
      using assms(2,3) l(1) by (simp add: dentry_def assms(4) slice_def splice_def)
  next
    case False
    then show ?thesis
      using slice_splice_other [OF _ assms(2) False j] assms(3) l(1) by (simp add: dentry_def assms(4))
  qed
qed

lemma dirlink_spec:
  assumes "dir_ok s dp" "\<forall>j < dcount s dp. \<not> matches name (dentry s dp j)" "dcount s dp < 4480"
    and "card (busy s) + 8 < log_room s" "1 \<le> log_outstanding s" "2 \<le> card (free_blocks s)"
  shows "\<exists>t k. dirlink devsw dp name inum s = Ok 0 t \<and> dir_ok t dp \<and> dcount t dp = max (dcount s dp) (Suc k) \<and> k \<le> dcount s dp \<and> (k < dcount s dp \<longrightarrow> de_inum (dentry s dp k) = 0) \<and>
    (\<forall>j < dcount t dp. dentry t dp j = (if j = k then \<lparr>de_inum = ucast inum, de_name = strncpy_list DIRSIZ name\<rparr> else dentry s dp j))"
proof -
  note d = dir_okD [OF assms(1)]
  have "find (\<lambda>k. matches name (dentry s dp k)) [0..<dcount s dp] = None"
    using assms(2) by (simp add: find_None_iff)
  then obtain a where a: "dirlookup devsw dp name s = Ok None a" "looks s a"
    using dirlookup_spec [OF assms(1), of devsw name] by auto
  note va = looks_views [OF a(2)] and da = dir_looks [OF a(2)]
  obtain b where b: "looks a b" "for_find (map (\<lambda>j. 16 * j) [0..<dcount s dp]) (\<lambda>off.
      bnd (readi devsw dp (of_nat off) 16) (\<lambda>(r, bs).
      if r \<noteq> 16 then panic ''dirlink read''
      else if de_inum (get_dirent bs) = 0 then ret (Some off)
      else ret None)) a = Ok (map_option (\<lambda>j. 16 * j) (find (\<lambda>j. de_inum (dentry s dp j) = 0) [0..<dcount s dp])) b"
    using free_entry [OF da(3) [OF assms(1)], of "[0..<dcount s dp]" devsw] da(1,2) by auto
  note sb = looks_trans [OF a(2) b(1)]
  note vb = looks_views [OF sb] and db = dir_looks [OF sb]
  define k where "k = (case find (\<lambda>j. de_inum (dentry s dp j) = 0) [0..<dcount s dp] of Some j \<Rightarrow> j | None \<Rightarrow> dcount s dp)"
  have k: "k \<le> dcount s dp" "k < dcount s dp \<longrightarrow> de_inum (dentry s dp k) = 0"
    by (auto simp: k_def find_Some_iff dest!: find_SomeD split: option.splits)
  let ?e = "put_dirent \<lparr>de_inum = ucast inum, de_name = strncpy_list DIRSIZ name\<rparr>"
  have e: "length ?e = 16" "get_dirent ?e = \<lparr>de_inum = ucast inum, de_name = strncpy_list DIRSIZ name\<rparr>"
    using get_put_dirent [of "strncpy_list DIRSIZ name"] by (simp_all add: put_dirent_def)
  have u: "unat (of_nat (16 * k) :: uint32) = 16 * k"
    using k(1) assms(3) by (intro unat_of_nat_lt) simp
  have c: "length (chunks 0 (of_nat (16 * k)) 16) = 1"
    using k(1) assms(3) by (intro chunks_entry) simp
  have free: "free_blocks b = free_blocks s"
    by (rule looks_free [OF sb])
  obtain t where t: "writei devsw dp ?e (of_nat (16 * k)) 16 b = Ok 16 t" "stays 7 b t" "file_ok t dp"
      "file_bytes t dp = splice (16 * k) ?e (file_bytes b dp)" "\<exists>as sz. icache t = (icache b)(dp := (icache b dp)\<lparr>i_addrs := as, i_size := sz\<rparr>)"
    using writei_spec [OF looks_file_ok [OF sb d(1)], of "of_nat (16 * k)" ?e 16 devsw, unfolded u c e(1)] vb k(1) d(3) assms(3-6) free
    by auto
  have w: "dir_ok s dp" "file_bytes t dp = splice (16 * k) ?e (file_bytes s dp)"
    using assms(1) t(4) vb by simp_all
  note ew = entry_written [OF assms(1) e(1) k(1) w(2)]
  have "dir_ok t dp"
    using t(2,3,5) ew(2) vb(1,3,7) d(2) assms(4) staysD [OF t(2)] by (auto simp: dir_ok_def)
  moreover have "dirlink devsw dp name inum s = Ok 0 t"
  proof -
    have "(unat (i_size (icache a dp)) + 15) div 16 = dcount s dp"
      using d(3) va(1) by simp
    then show ?thesis
      using a(1) b(2) t(1) by (cases "find (\<lambda>j. de_inum (dentry s dp j) = 0) [0..<dcount s dp]") (simp_all add: k_def dirlink_def bnd_Ok bnd_rd Let_def del: of_nat_mult)
  qed
  ultimately show ?thesis
    using ew k e(2) by (intro exI [of _ t] exI [of _ k]) auto
qed

section \<open>Linking and looking up\<close>

text \<open>The first entry for a name, as its position and its inode number.\<close>

definition dir_find :: "'z fs_st_scheme \<Rightarrow> nat \<Rightarrow> uchar list \<Rightarrow> (nat \<times> ushort) option" where
  "dir_find s dp name = map_option (\<lambda>k. (k, de_inum (dentry s dp k))) (find (\<lambda>k. matches name (dentry s dp k)) [0..<dcount s dp])"

lemma dir_find_None: "dir_find s dp name = None \<longleftrightarrow> (\<forall>j < dcount s dp. \<not> matches name (dentry s dp j))"
  by (auto simp: dir_find_def find_None_iff)

lemma find_only:
  assumes "k < n" "\<And>j. j < n \<Longrightarrow> P j \<longleftrightarrow> j = k"
  shows "find P [0..<n] = Some k"
  using assms by (auto simp: find_Some_iff)

lemma find_longer:
  assumes "n \<le> m" "\<And>j. j < n \<Longrightarrow> P j \<longleftrightarrow> Q j" "\<And>j. n \<le> j \<Longrightarrow> j < m \<Longrightarrow> \<not> P j"
  shows "find P [0..<m] = find Q [0..<n]"
proof -
  have "[0..<m] = [0..<n] @ [n..<m]"
    using upt_add_eq_append [of 0 n "m - n"] assms(1) by simp
  moreover have "find P [n..<m] = None"
    using assms(3) by (auto simp: find_None_iff)
  moreover have "find P [0..<n] = find Q [0..<n]"
    using assms(2) by (intro find_cong) auto
  moreover have "find P (xs @ ys) = (case find P xs of None \<Rightarrow> find P ys | Some x \<Rightarrow> Some x)" for xs ys
    by (induction xs) auto
  ultimately show ?thesis
    by (simp split: option.split)
qed

text \<open>
  C3: a directory is a map from names to inode numbers.  \<^verbatim>\<open>dirlink\<close> of a name that the directory does not have succeeds, in the first free entry or at the end of the
  directory.  Afterwards \<^verbatim>\<open>dirlookup\<close> of that name -- of any string with the same first fourteen bytes -- is \<^verbatim>\<open>iget\<close> of the inode number linked, and \<^verbatim>\<open>dirlookup\<close> of
  every other name finds what it found before; no lookup changes a block or the directory.
\<close>

theorem dirlink_dirlookup:
  assumes "dir_ok s dp" "dir_find s dp name = None" "ucast inum \<noteq> (0 :: ushort)" "dcount s dp < MAXFILE * BSIZE div 16"
    and "card (busy s) + 8 < log_room s" "1 \<le> log_outstanding s" "2 \<le> card {b. b < nblk s \<and> \<not> in_use s b \<and> of_nat b < log_start s}"
  shows "\<exists>t k. dirlink devsw dp name inum s = Ok 0 t \<and> dir_ok t dp \<and>
    (\<forall>nm. dir_find t dp nm = (if dname nm = dname name then Some (k, ucast inum) else dir_find s dp nm)) \<and>
    (\<forall>nm. \<exists>u. looks t u \<and> dirlookup devsw dp nm t = (case dir_find t dp nm of
       None \<Rightarrow> Ok None u
     | Some (k, i) \<Rightarrow> bnd (iget 1 (ucast i)) (\<lambda>ip. ret (Some (ip, of_nat (16 * k)))) u))"
proof -
  have pre: "\<forall>j < dcount s dp. \<not> matches name (dentry s dp j)" "dcount s dp < 4480" "2 \<le> card (free_blocks s)"
    using assms(2,4,7) by (simp_all add: dir_find_None free_blocks_def)
  obtain t k where t: "dirlink devsw dp name inum s = Ok 0 t" "dir_ok t dp" "dcount t dp = max (dcount s dp) (Suc k)" "k < dcount s dp \<longrightarrow> de_inum (dentry s dp k) = 0"
    "\<forall>j < dcount t dp. dentry t dp j = (if j = k then \<lparr>de_inum = ucast inum, de_name = strncpy_list DIRSIZ name\<rparr> else dentry s dp j)"
    "k \<le> dcount s dp"
    using dirlink_spec [OF assms(1) pre(1,2) assms(5,6) pre(3), of devsw inum] by blast
  have new: "matches nm (dentry t dp k) \<longleftrightarrow> dname nm = dname name" for nm
    using t(3,5) assms(3) dname_strncpy [of name] by (auto simp: matches_def)
  have old: "matches nm (dentry t dp j) \<longleftrightarrow> matches nm (dentry s dp j)" if "j < dcount t dp" "j \<noteq> k" for nm j
    using t(5) that by simp
  have "dir_find t dp nm = (if dname nm = dname name then Some (k, ucast inum) else dir_find s dp nm)" for nm
  proof (cases "dname nm = dname name")
    case True
    then have "\<not> matches nm (dentry s dp j)" if "j < dcount s dp" for j
      using assms(2) that by (auto simp: dir_find_None matches_def)
    then have "find (\<lambda>k. matches nm (dentry t dp k)) [0..<dcount t dp] = Some k"
      using new [of nm] old [of _ nm] t(3,6) True by (intro find_only) (auto simp: max_def split: if_splits)
    then show ?thesis
      using True t(3,5) by (simp add: dir_find_def)
  next
    case False
    then have tm: "matches nm (dentry t dp j) \<longleftrightarrow> j \<noteq> k \<and> matches nm (dentry s dp j)" if "j < dcount t dp" for j
      using new [of nm] old [OF that, of nm] by auto
    have "\<not> matches nm (dentry s dp k)" if "k < dcount s dp"
      using t(4) that by (simp add: matches_def)
    then have "find (\<lambda>k. matches nm (dentry t dp k)) [0..<dcount t dp] = find (\<lambda>k. matches nm (dentry s dp k)) [0..<dcount s dp]"
      using t(3,6) by (intro find_longer) (auto simp: tm)
    moreover have "k' \<noteq> k \<and> k' < dcount t dp" if "find (\<lambda>k. matches nm (dentry s dp k)) [0..<dcount s dp] = Some k'" for k'
      using find_SomeD [OF that] t(3,4) by (auto simp: matches_def)
    ultimately show ?thesis
      using False t(5) by (cases "find (\<lambda>k. matches nm (dentry s dp k)) [0..<dcount s dp]") (simp_all add: dir_find_def)
  qed
  moreover have "\<exists>u. looks t u \<and> dirlookup devsw dp nm t = (case dir_find t dp nm of
       None \<Rightarrow> Ok None u
     | Some (k, i) \<Rightarrow> bnd (iget 1 (ucast i)) (\<lambda>ip. ret (Some (ip, of_nat (16 * k)))) u)" for nm
    using dirlookup_spec [OF t(2), of devsw nm] by (auto simp: dir_find_def split: option.splits)
  ultimately show ?thesis
    using t(1,2) by blast
qed

theorem dirlink_dirlookup_witness:
  "\<exists>(s :: fs_st) t k. dirlink (\<lambda>_. \<lparr>ds_isdir = None, ds_iread = None, ds_read = None, ds_write = None\<rparr>) 0 [97, 98] 9 s = Ok 0 t \<and> dir_find t 0 [97, 98] = Some (k, 9)"
proof -
  obtain s :: fs_st where s: "file_ok s 0" "i_type (icache s 0) = T_DIR" "busy s = {}" "log_room s = 29" "log_outstanding s = 1" "i_size (icache s 0) = 0" "{b. b < nblk s \<and> \<not> in_use s b \<and> of_nat b < log_start s} = {500, 501}"
    using empty_file [of T_DIR] by auto
  have "dir_ok s 0" "dcount s 0 = 0"
    using s by (simp_all add: dir_ok_def dcount_def)
  moreover have "dir_find s 0 [97, 98] = None"
    using \<open>dcount s 0 = 0\<close> by (simp add: dir_find_None)
  moreover have "2 \<le> card {b. b < nblk s \<and> \<not> in_use s b \<and> of_nat b < log_start s}"
    unfolding s by simp
  ultimately obtain t k where "dirlink (\<lambda>_. \<lparr>ds_isdir = None, ds_iread = None, ds_read = None, ds_write = None\<rparr>) 0 [97, 98] 9 s = Ok 0 t"
      "\<forall>nm. dir_find t 0 nm = (if dname nm = dname [97, 98] then Some (k, ucast (9 :: uint32)) else dir_find s 0 nm)"
    using dirlink_dirlookup [of s 0 "[97, 98]" 9 "\<lambda>_. \<lparr>ds_isdir = None, ds_iread = None, ds_read = None, ds_write = None\<rparr>"] s(3-5) by fastforce
  then show ?thesis
    by (intro exI [of _ s] exI [of _ t] exI [of _ k]) simp
qed

end
