(* ===== verification/Proclist.thy ===== *)
theory Proclist
  imports Procfs Dirent
begin

text \<open>
  What a program sees in \<^verbatim>\<open>/proc\<close>: the entries that \<^verbatim>\<open>procfsread\<close> of \<^verbatim>\<open>src/procfs.c\<close> gives for the directory, and what \<^verbatim>\<open>dirlookup\<close> of \<^verbatim>\<open>src/fs.c\<close> finds in it through the table
  of devices.
\<close>

section \<open>The names in /proc\<close>

definition unused :: "'z sched_st_scheme \<Rightarrow> nat \<Rightarrow> bool" where
  "unused s p = (p_state (ptable s p) = UNUSED)"

definition live :: "'z sched_st_scheme \<Rightarrow> proc list" where
  "live s = map (ptable s) (filter (\<lambda>p. \<not> unused s p) [0..<NPROC])"

definition shown :: "dirent \<Rightarrow> ushort \<times> uchar list" where
  "shown e = (de_inum e, dname (de_name e))"

definition proc_name :: "proc \<Rightarrow> ushort \<times> uchar list" where
  "proc_name q = (ucast (700 * p_pid q), decimal (unat (p_pid q)))"

definition proc_names :: "'z sched_st_scheme \<Rightarrow> (ushort \<times> uchar list) list" where
  "proc_names s = [(19, str ''.''), (1, str ''..''), (660, str ''blockstat''), (670, str ''inodestat'')] @ map proc_name (live s)"

lemma itoa_str_decimal:
  assumes "x < 2 ^ 31"
  shows "itoa_str (int x) = Some (decimal x)"
proof -
  have "length (decimal x) \<le> 10"
    using assms by (intro length_decimal_bound) simp_all
  then have l: "length (decimal x) < 2 ^ 32" "length (decimal x @ [0]) \<le> 2 ^ 32"
    by simp_all
  let ?m = "write_bytes (\<lambda>_. 0) 0 (decimal x @ [0])"
  have r: "read_bytes ?m 0 (Suc (length (decimal x))) = decimal x @ [0]"
    using read_write_bytes [OF l(2), of "\<lambda>_. 0" 0] by simp
  then have "strlen ?m 0 = Some (length (decimal x))"
    using strlen_from_cstr [of ?m 0 0 "decimal x"] decimal_no_nul [of x] by (simp add: strlen_def cstr_at_def)
  moreover have "read_bytes ?m 0 (length (decimal x)) = decimal x"
    using r by (simp add: read_bytes_snoc)
  ultimately show ?thesis
    by (simp add: itoa_str_def itoa_write [OF l(1)])
qed

text \<open>The entry of a process in the variable \<^verbatim>\<open>de\<close>, which has the name of the entry before it behind the terminating NUL.\<close>

definition pid_entry :: "proc \<Rightarrow> dirent \<Rightarrow> dirent" where
  "pid_entry q de = \<lparr>de_inum = ucast (700 * p_pid q), de_name = splice 0 (decimal (unat (p_pid q)) @ [0]) (de_name de)\<rparr>"

fun pid_entries :: "proc list \<Rightarrow> dirent \<Rightarrow> dirent list" where
  "pid_entries [] de = []"
| "pid_entries (q # qs) de = pid_entry q de # pid_entries qs (pid_entry q de)"

lemma pid_entry_facts:
  assumes "unat (p_pid q) < 2 ^ 31" "length (de_name de) = 14"
  shows "number_entry (ucast (700 * p_pid q)) (sint (p_pid q)) de s = Ok (pid_entry q de) s" "shown (pid_entry q de) = proc_name q" "length (de_name (pid_entry q de)) = 14"
proof -
  let ?x = "unat (p_pid q)"
  have l: "length (decimal ?x) \<le> 10"
    using assms by (intro length_decimal_bound) simp_all
  have "splice 0 (decimal ?x @ [0]) (de_name de) = decimal ?x @ 0 # drop (Suc (length (decimal ?x))) (de_name de)"
    by (simp add: splice_def)
  moreover have "takeWhile (\<lambda>c. c \<noteq> 0) (decimal ?x @ 0 # ys) = decimal ?x" for ys
    using decimal_no_nul [of ?x] by (subst takeWhile_append2) auto
  ultimately show "shown (pid_entry q de) = proc_name q" "length (de_name (pid_entry q de)) = 14"
    using l assms(2) by (simp_all add: dname_def shown_def pid_entry_def proc_name_def)
  show "number_entry (ucast (700 * p_pid q)) (sint (p_pid q)) de s = Ok (pid_entry q de) s"
    using itoa_str_decimal [OF assms(1)] sint_unat [OF assms(1)] by (simp add: number_entry_def itoa_to_def kern_simps pid_entry_def del: of_nat_unat)
qed

lemma pid_entries_facts:
  assumes "\<forall>q \<in> set qs. unat (p_pid q) < 2 ^ 31" "length (de_name de) = 14"
  shows "map shown (pid_entries qs de) = map proc_name qs \<and> (\<forall>e \<in> set (pid_entries qs de). length (de_name e) = 14)"
  using assms
proof (induction qs arbitrary: de)
  case (Cons q qs)
  then have q: "unat (p_pid q) < 2 ^ 31" "\<forall>q \<in> set qs. unat (p_pid q) < 2 ^ 31"
    by simp_all
  note e = pid_entry_facts(2,3) [OF q(1) Cons.prems(2)]
  show ?case
    using Cons.IH [OF q(2) e(2)] e by simp
qed simp

section \<open>The directory\<close>

lemma initProc_loop_eq:
  assumes "\<forall>p \<in> set ps. \<not> unused s p \<longrightarrow> unat (p_pid (ptable s p)) < 2 ^ 31" "length (de_name de) = 14" "length buf \<le> BUFFSIZE"
  shows "initProc_loop ps de buf s =
    (let qs = map (ptable s) (filter (\<lambda>p. \<not> unused s p) ps) in
     if length buf + 16 * length qs \<le> BUFFSIZE then Ok (buf @ concat (map put_dirent (pid_entries qs de))) s else Fault ''buf overflow'')"
  using assms
proof (induction ps arbitrary: de buf)
  case Nil
  then show ?case
    by (simp add: kern_simps)
next
  case (Cons p ps)
  show ?case
  proof (cases "unused s p")
    case True
    then show ?thesis
      using Cons.IH [of de buf] Cons.prems by (simp add: bnd_rd unused_def)
  next
    case False
    let ?e = "pid_entry (ptable s p) de"
    have e: "number_entry (ucast (700 * p_pid (ptable s p))) (sint (p_pid (ptable s p))) de s = Ok ?e s" "length (de_name ?e) = 14"
      using pid_entry_facts [of "ptable s p" de] Cons.prems(1,2) False by simp_all
    have "length (put_dirent ?e) = 16"
      using e(2) by (simp add: put_dirent_def)
    then show ?thesis
      using Cons.IH [of ?e "buf @ put_dirent ?e"] Cons.prems e(2) False by (simp add: bnd_rd bnd_Ok e(1) fault_def Let_def unused_def)
  qed
qed

definition proc_ok :: "'z procfs_st_scheme \<Rightarrow> nat \<Rightarrow> bool" where
  "proc_ok s dp = (calm s \<and> i_type (icache s dp) = T_DEV \<and> i_major (icache s dp) = 2 \<and> i_minor (icache s dp) \<in> {0, T_DIR} \<and> i_inum (icache s dp) = 19 \<and>
     (\<forall>q \<in> set (live s). unat (p_pid q) < 2 ^ 31))"

definition proc_dir :: "'z procfs_st_scheme \<Rightarrow> dirent list" where
  "proc_dir s = [entry 19 ''.'', entry 1 ''..'', entry 660 ''blockstat'', entry 670 ''inodestat''] @ pid_entries (live s) (entry 670 ''inodestat'')"

lemma calm_procfs [simp]: "calm (currentInode_update f s) = calm s"
  by (simp add: calm_def lock_free_def)

lemma proc_simps [simp]:
  "live (currentInode_update f s) = live s" "proc_dir (currentInode_update f s) = proc_dir s" "proc_ok (currentInode_update f s) dp = proc_ok s dp"
  "live (hold l s) = live s" "proc_names (currentInode_update f s) = proc_names s"
  by (simp_all add: proc_dir_def proc_ok_def live_def unused_def proc_names_def)

lemma entry_facts: "length (de_name (entry i nm)) = 14" "shown (entry i nm) = (i, dname (str nm))"
  using dname_strncpy [of "str nm"] by (simp_all add: entry_def shown_def)

lemma proc_dir_facts:
  assumes "proc_ok s dp"
  shows "map shown (proc_dir s) = proc_names s" "\<forall>e \<in> set (proc_dir s). length (de_name e) = 14" "length (proc_dir s) = 4 + length (live s)"
proof -
  have e: "map shown (pid_entries (live s) (entry 670 nm)) = map proc_name (live s)" "\<forall>e \<in> set (pid_entries (live s) (entry 670 nm)). length (de_name e) = 14" for nm
    using pid_entries_facts [of "live s" "entry 670 nm"] assms entry_facts(1) by (simp_all add: proc_ok_def)
  show m: "map shown (proc_dir s) = proc_names s"
    unfolding proc_dir_def proc_names_def using e by (simp add: entry_facts(2)) (simp add: dname_def str_def)
  show "\<forall>e \<in> set (proc_dir s). length (de_name e) = 14"
    unfolding proc_dir_def using e entry_facts(1) by auto
  show "length (proc_dir s) = 4 + length (live s)"
    using arg_cong [OF m, of length] by (simp add: proc_names_def)
qed

lemma length_entries: "\<forall>e \<in> set es. length (de_name e) = 14 \<Longrightarrow> length (concat (map put_dirent es)) = 16 * length es"
  by (induction es) (simp_all add: put_dirent_def)

lemma slice_entries: "\<forall>e \<in> set es. length (de_name e) = 14 \<Longrightarrow> k < length es \<Longrightarrow> slice (16 * k) 16 (concat (map put_dirent es)) = put_dirent (es ! k)"
proof (induction es arbitrary: k)
  case (Cons e es)
  have "length (put_dirent e) = 16"
    using Cons.prems(1) by (simp add: put_dirent_def)
  then show ?case
    using Cons by (cases k) (simp_all add: slice_def)
qed simp

lemma bnd_Fault: "m s = Fault e \<Longrightarrow> bnd m f s = Fault e"
  by (simp add: bnd_def)

lemma initProc_eq:
  assumes "proc_ok s dp"
  shows "initProc dp s = (if length (live s) \<le> 62 then Ok (int (16 * length (proc_dir s)), concat (map put_dirent (proc_dir s))) s else Fault ''buf overflow'')"
proof -
  define es where "es = [entry 19 ''.'', entry 1 ''..'', entry 660 ''blockstat'', entry 670 ''inodestat'']"
  define buf where "buf = concat (map put_dirent es)"
  have b: "length buf = 64"
    unfolding buf_def by (subst length_entries) (simp_all add: es_def entry_facts)
  have a: "calm s" "i_inum (icache s dp) = 19" "\<forall>p \<in> set [0..<NPROC]. \<not> unused s p \<longrightarrow> unat (p_pid (ptable s p)) < 2 ^ 31"
    using assms by (auto simp: proc_ok_def live_def)
  have l: "initProc_loop [0..<NPROC] (entry 670 ''inodestat'') buf (hold LkPtable s) =
      (if length (live s) \<le> 62 then Ok (concat (map put_dirent (proc_dir s))) (hold LkPtable s) else Fault ''buf overflow'')"
    using initProc_loop_eq [of "[0..<NPROC]" "hold LkPtable s" "entry 670 ''inodestat''" buf] a(3) b
    by (simp add: Let_def entry_facts(1) proc_dir_def buf_def es_def live_def unused_def del: upt_rec)
  have n: "length (concat (map put_dirent (proc_dir s))) = 16 * length (proc_dir s)"
    by (rule length_entries [OF proc_dir_facts(2) [OF assms]])
  show ?thesis
    unfolding initProc_def bnd_rd Let_def a(2)
    using a(1) l n by (simp add: acquire_free release_hold thn_Ok bnd_Ok bnd_Fault buf_def es_def del: upt_rec)
qed

lemma procfs_content_eq:
  assumes "proc_ok s dp"
  shows "procfs_content dp s = (if length (live s) \<le> 62 then Ok (int (16 * length (proc_dir s)), concat (map put_dirent (proc_dir s))) (s\<lparr>currentInode := 19\<rparr>) else Fault ''buf overflow'')"
proof -
  have "i_inum (icache s dp) = 19"
    using assms by (simp add: proc_ok_def)
  then have "procfs_content dp s = initProc dp (s\<lparr>currentInode := 19\<rparr>)"
    by (simp add: procfs_content_def bnd_rd Let_def thn_Ok md_def)
  then show ?thesis
    using initProc_eq [of "s\<lparr>currentInode := 19\<rparr>" dp] assms by simp
qed

lemma procfsread_eq:
  assumes "proc_ok s dp" "length (live s) \<le> 62" "unat off < 2 ^ 31" "unat n < 2 ^ 31"
  shows "procfsread dp off n s =
    (let bs = concat (map put_dirent (proc_dir s)); nr = min (unat n) (length bs - unat off) in Ok (int nr, slice (unat off) nr bs) (s\<lparr>currentInode := 19\<rparr>))"
proof -
  define bs a b where "bs = concat (map put_dirent (proc_dir s))" and "a = unat off" and "b = unat n"
  have l: "16 * length (proc_dir s) = length bs"
    unfolding bs_def by (rule length_entries [OF proc_dir_facts(2) [OF assms(1)], symmetric])
  have c: "procfs_content dp s = Ok (int (length bs), bs) (s\<lparr>currentInode := 19\<rparr>)"
    using procfs_content_eq [OF assms(1)] assms(2) l by (simp add: bs_def)
  have i: "sint off = int a" "sint n = int b"
    using sint_unat [OF assms(3)] sint_unat [OF assms(4)] by (simp_all add: a_def b_def)
  show ?thesis
    unfolding procfsread_def bs_def [symmetric] a_def [symmetric] b_def [symmetric] Let_def bnd_Ok [of "procfs_content dp", OF c] i
    by (auto simp: fault_def slice_def min_def split: if_splits)
qed

text \<open>What \<^verbatim>\<open>dirlookup\<close> does with an entry it has found: an inode that is not valid yet is read by the device.\<close>

definition proc_found :: "nat \<Rightarrow> ushort \<Rightarrow> nat \<Rightarrow> ((nat \<times> uint32) option, 'z procfs_st_scheme) kern" where
  "proc_found dp inum off = bnd (rd (\<lambda>s. i_dev (icache s dp))) (\<lambda>dev.
     bnd (iget dev (ucast inum)) (\<lambda>ip.
     bnd (rd (\<lambda>s. i_flags (icache s ip))) (\<lambda>f.
     thn (if f AND I_VALID = 0 then procfsiread dp ip else ret ()) (
     ret (Some (ip, of_nat off))))))"

lemma dirlookup_dev:
  assumes "proc_ok s dp" "length (live s) \<le> 62" "devsw 2 = procfs_dev" "j \<le> length (proc_dir s)" "length (proc_dir s) - j < fuel"
  shows "dirlookup_from devsw fuel dp name (of_nat (16 * j)) s =
    (case find (\<lambda>k. matches name (proc_dir s ! k)) [j..<length (proc_dir s)] of
       None \<Rightarrow> Ok None (s\<lparr>currentInode := 19\<rparr>)
     | Some k \<Rightarrow> proc_found dp (de_inum (proc_dir s ! k)) (16 * k) (s\<lparr>currentInode := 19\<rparr>))"
  using assms
proof (induction fuel arbitrary: j s)
  case (Suc fuel)
  let ?t = "s\<lparr>currentInode := 19\<rparr>" and ?bs = "concat (map put_dirent (proc_dir s))"
  note d = proc_dir_facts [OF Suc.prems(1)]
  have dev: "i_type (icache s dp) = T_DEV" "i_major (icache s dp) = 2"
    using Suc.prems(1) by (simp_all add: proc_ok_def)
  have len: "length ?bs = 16 * length (proc_dir s)"
    by (rule length_entries [OF d(2)])
  define off where "off = (of_nat (16 * j) :: uint32)"
  have u: "unat off = 16 * j" "of_nat (16 * Suc j) = off + 16"
    unfolding off_def using Suc.prems(2,4) d(3) by (intro unat_of_nat_lt) simp_all
  have "readi devsw dp off 16 s = procfsread dp off 16 s"
    using dev Suc.prems(3) by (simp add: readi_def bnd_rd procfs_dev_def)
  then have r: "readi devsw dp off 16 s = Ok (int (min 16 (length ?bs - 16 * j)), slice (16 * j) (min 16 (length ?bs - 16 * j)) ?bs) ?t"
    using procfsread_eq [OF Suc.prems(1,2), of off 16, unfolded u] Suc.prems(2,4) d(3) by (simp add: Let_def)
  show ?case
    unfolding off_def [symmetric]
  proof (cases "j < length (proc_dir s)")
    case False
    then have "j = length (proc_dir s)"
      using Suc.prems(4) by simp
    then show "dirlookup_from devsw (Suc fuel) dp name off s = (case find (\<lambda>k. matches name (proc_dir s ! k)) [j..<length (proc_dir s)] of
       None \<Rightarrow> Ok None ?t | Some k \<Rightarrow> proc_found dp (de_inum (proc_dir s ! k)) (16 * k) ?t)"
      using r dev len by (simp add: bnd_rd bnd_Ok)
  next
    case True
    let ?e = "proc_dir s ! j"
    have n: "length (de_name ?e) = 14"
      using True d(2) by simp
    have "min 16 (length ?bs - 16 * j) = 16"
      using True len by simp
    then have r: "readi devsw dp off 16 s = Ok (16, put_dirent ?e) ?t"
      using r slice_entries [OF d(2) True] by simp
    have e: "get_dirent (put_dirent ?e) = ?e"
      using get_put_dirent [OF n, of "de_inum ?e"] by (cases ?e) simp
    have up: "[j..<length (proc_dir s)] = j # [Suc j..<length (proc_dir s)]"
      using True by (rule upt_conv_Cons)
    show "dirlookup_from devsw (Suc fuel) dp name off s = (case find (\<lambda>k. matches name (proc_dir s ! k)) [j..<length (proc_dir s)] of
       None \<Rightarrow> Ok None ?t | Some k \<Rightarrow> proc_found dp (de_inum (proc_dir s ! k)) (16 * k) ?t)"
    proof (cases "matches name ?e")
      case True
      then show ?thesis
        using dev Suc.prems(3) by (simp add: up bnd_rd bnd_Ok [of "readi devsw dp off 16", OF r] e Let_def matches_def namecmp_eq proc_found_def procfs_dev_def off_def [symmetric] cong: if_cong)
        (simp add: off_def)
    next
      case False
      then have step: "dirlookup_from devsw (Suc fuel) dp name off s = dirlookup_from devsw fuel dp name (off + 16) ?t"
        using dev by (auto simp: bnd_rd bnd_Ok [of "readi devsw dp off 16", OF r] e Let_def matches_def namecmp_eq)
      show ?thesis
        unfolding step using Suc.IH [of ?t "Suc j", unfolded u(2)] Suc.prems True False by (auto simp: up simp del: dirlookup_from.simps split: option.split)
    qed
  qed
qed simp

text \<open>
  C14 (the directory \<^verbatim>\<open>/proc\<close>).  As long as at most 62 processes exist, the bytes that reads of the directory return, at any offset and in any portions, are those of one
  list of entries: the four fixed ones and, for every process of the table, one with its number in decimal; and \<^verbatim>\<open>dirlookup\<close>, which reads the directory through the device, ends and finds the
  first entry with the name if its inode number is not 0, and nothing otherwise.  With more processes the directory is written past the end of the buffer on the stack.
\<close>

theorem proc_directory:
  assumes "proc_ok s dp" "devsw 2 = procfs_dev"
  shows "if length (live s) \<le> 62 then
    (\<exists>es. map shown es = proc_names s \<and>
      (\<forall>off n. unat off < 2 ^ 31 \<and> unat n < 2 ^ 31 \<longrightarrow>
        (let bs = concat (map put_dirent es); nr = min (unat n) (length bs - unat off) in
         procfsread dp off n s = Ok (int nr, slice (unat off) nr bs) (s\<lparr>currentInode := 19\<rparr>)))) \<and>
    (\<forall>name. dirlookup devsw dp name s =
      (case find (\<lambda>k. fst (proc_names s ! k) \<noteq> 0 \<and> snd (proc_names s ! k) = dname name) [0..<length (proc_names s)] of
         None \<Rightarrow> Ok None (s\<lparr>currentInode := 19\<rparr>)
       | Some k \<Rightarrow> proc_found dp (fst (proc_names s ! k)) (16 * k) (s\<lparr>currentInode := 19\<rparr>)))
   else \<forall>off n. procfsread dp off n s = Fault ''buf overflow''"
proof (cases "length (live s) \<le> 62")
  case True
  note d = proc_dir_facts [OF assms(1)]
  have dev: "i_type (icache s dp) = T_DEV" "i_major (icache s dp) = 2" "i_minor (icache s dp) \<in> {0, T_DIR}"
    using assms(1) by (simp_all add: proc_ok_def)
  have k: "proc_names s ! k = (de_inum (proc_dir s ! k), dname (de_name (proc_dir s ! k)))" if "k < length (proc_dir s)" for k
    using arg_cong [OF d(1), of "\<lambda>xs. xs ! k"] that by (simp add: shown_def)
  have len: "length (proc_names s) = length (proc_dir s)"
    using arg_cong [OF d(1), of length] by simp
  have f: "find (\<lambda>k. matches name (proc_dir s ! k)) [0..<length (proc_dir s)] =
      find (\<lambda>k. fst (proc_names s ! k) \<noteq> 0 \<and> snd (proc_names s ! k) = dname name) [0..<length (proc_names s)]" for name
    unfolding len by (rule find_cong) (auto simp: matches_def k)
  have "dirlookup devsw dp name s = dirlookup_from devsw (2 ^ 28) dp name 0 s" for name
    using dev assms(2) by (auto simp: dirlookup_def IS_DEV_DIR_def bnd_rd bnd_Ok procfs_dev_def procfsisdir_def rd_def)
  then have "dirlookup devsw dp name s =
      (case find (\<lambda>k. fst (proc_names s ! k) \<noteq> 0 \<and> snd (proc_names s ! k) = dname name) [0..<length (proc_names s)] of
         None \<Rightarrow> Ok None (s\<lparr>currentInode := 19\<rparr>)
       | Some k \<Rightarrow> proc_found dp (fst (proc_names s ! k)) (16 * k) (s\<lparr>currentInode := 19\<rparr>))" for name
    using dirlookup_dev [OF assms(1) True, of devsw 0 "2 ^ 28" name] assms(2) True d(3) k len unfolding f
    by (cases "find (\<lambda>k. fst (proc_names s ! k) \<noteq> 0 \<and> snd (proc_names s ! k) = dname name) [0..<length (proc_names s)]") (auto dest!: find_SomeD)
  then show ?thesis
    using True procfsread_eq [OF assms(1) True] d(1) by (auto simp: Let_def)
next
  case False
  then show ?thesis
    using procfs_content_eq [OF assms(1)] by (simp add: procfsread_def bnd_Fault)
qed

text \<open>In the kernel of the demonstration, with the processes 7 and 9, the name 9 is the sixth entry and gets the inode 6300, which the device makes a directory.\<close>

definition proc_demo :: procfs_st where
  "proc_demo = con_st.extend ((con_demo [] [])\<lparr>icache := (\<lambda>_. no_inode)(5 := no_inode\<lparr>i_ref := 1, i_dev := 1, i_inum := 19, i_flags := I_VALID, i_type := T_DEV, i_major := 2\<rparr>)\<rparr>) (procfs_st.fields 0)"

lemma proc_demo_facts:
  "calm proc_demo" "icache proc_demo = (\<lambda>_. no_inode)(5 := no_inode\<lparr>i_ref := 1, i_dev := 1, i_inum := 19, i_flags := I_VALID, i_type := T_DEV, i_major := 2\<rparr>)"
  "map p_pid (live proc_demo) = [7, 9]"
proof -
  show "calm proc_demo" "icache proc_demo = (\<lambda>_. no_inode)(5 := no_inode\<lparr>i_ref := 1, i_dev := 1, i_inum := 19, i_flags := I_VALID, i_type := T_DEV, i_major := 2\<rparr>)"
    using con_demo_facts(1) by (simp_all add: proc_demo_def con_st.extend_def procfs_st.fields_def calm_def lock_free_def)
  have "ptable proc_demo = ptable sched_user"
    by (simp add: proc_demo_def con_st.extend_def procfs_st.fields_def con_demo_def sys_st.extend_def file_st.extend_def sys_st.fields_def con_st.fields_def file_boot_def
        fs_st.extend_def file_st.fields_def fs_boot_def log_st.extend_def fs_st.fields_def log_boot_def bio_st.extend_def log_st.fields_def disk_boot_def sched_st.extend_def bio_st.fields_def)
  then show "map p_pid (live proc_demo) = [7, 9]"
    by (simp add: live_def unused_def boot_simps upt_rec)
qed

theorem proc_directory_witness:
  "dirlookup (\<lambda>_. procfs_dev) 5 (str ''9'') proc_demo = proc_found 5 6300 80 (proc_demo\<lparr>currentInode := 19\<rparr>) \<and>
   dirlookup (\<lambda>_. procfs_dev) 5 (str ''8'') proc_demo = Ok None (proc_demo\<lparr>currentInode := 19\<rparr>)"
proof -
  obtain a b where l: "live proc_demo = [a, b]" "p_pid a = 7" "p_pid b = 9"
    using proc_demo_facts(3) by (auto simp: map_eq_Cons_conv)
  have ok: "proc_ok proc_demo 5"
    using proc_demo_facts(1,2) l by (simp add: proc_ok_def no_inode_def)
  have n: "proc_names proc_demo = [(19, [46]), (1, [46, 46]), (660, str ''blockstat''), (670, str ''inodestat''), (4900, [55]), (6300, [57])]"
    using l by (simp add: proc_names_def proc_name_def decimal.simps str_def)
  show ?thesis
    using proc_directory [OF ok, of "\<lambda>_. procfs_dev"] l(1) unfolding n by (simp add: upt_rec str_def dname_def)
qed

text \<open>
  The numbers of the processes get too large for the directory: the field for the inode number has 16 bits, so from process 94 on the inode is not a multiple of 700 and the device takes
  it for something else than the directory of a process.
\<close>

lemma proc_inum_wraps: "fst (proc_name (q\<lparr>p_pid := 93\<rparr>)) mod 700 = 0" "fst (proc_name (q\<lparr>p_pid := 94\<rparr>)) = 264"
  by (simp_all add: proc_name_def)

end
