(* ===== verification/Mkfs.thy ===== *)
theory Mkfs
  imports Dirent
begin

text \<open>
  The program that makes the file system image (\<^verbatim>\<open>src/mkfs.c\<close>).  It runs on the host: the state is the content of the image file, in sectors, and the
  counters of the program.  A call of \<^verbatim>\<open>exit(1)\<close> and a failed \<^verbatim>\<open>assert\<close> are the outcome \<open>Panic\<close>.  \<^verbatim>\<open>xshort\<close> and \<^verbatim>\<open>xint\<close> put numbers into the byte
  order of the disk; here this is the work of \<open>le16\<close>, \<open>le32\<close> and their inverses, in \<open>put_dinode\<close>, \<open>get_dinode\<close>, \<open>put_ent\<close>, \<open>get_ent\<close> and \<open>put_dirent\<close>.  Writes to the
  image file do not fail; messages are left out.
\<close>

section \<open>State\<close>

record mkfs_st =
  fsimg :: "uchar list list"
  freeblock :: uint32
  usedblocks :: uint32
  freeinode :: uint32

definition mkfs_nblocks :: uint32 where "mkfs_nblocks = of_nat (995 - LOGSIZE)"
definition mkfs_nlog :: uint32 where "mkfs_nlog = of_nat LOGSIZE"
definition mkfs_ninodes :: uint32 where "mkfs_ninodes = 200"
definition mkfs_size :: uint32 where "mkfs_size = 1024"

definition zeroes :: "uchar list" where "zeroes = replicate 512 0"

definition mkfs_init :: mkfs_st where
  "mkfs_init = \<lparr>fsimg = [], freeblock = 0, usedblocks = 0, freeinode = 1\<rparr>"

section \<open>Sectors and inodes\<close>

text \<open>A write behind the end of the file leaves a gap of zeros; a read there returns nothing.\<close>

definition wsect :: "uint32 \<Rightarrow> uchar list \<Rightarrow> (unit, mkfs_st) kern" where
  "wsect sec buf = md (\<lambda>s. s\<lparr>fsimg :=
     (if unat sec < length (fsimg s) then (fsimg s)[unat sec := buf]
      else fsimg s @ replicate (unat sec - length (fsimg s)) zeroes @ [buf])\<rparr>)"

definition rsect :: "uint32 \<Rightarrow> (uchar list, mkfs_st) kern" where
  "rsect sec = bnd (rd fsimg) (\<lambda>img. if unat sec < length img then ret (img ! unat sec) else panic ''read'')"

definition i2b :: "uint32 \<Rightarrow> uint32" where
  "i2b inum = inum div IPB + 2"

definition winode :: "uint32 \<Rightarrow> dinode \<Rightarrow> (unit, mkfs_st) kern" where
  "winode inum ip = bnd (rsect (i2b inum)) (\<lambda>buf. wsect (i2b inum) (put_dinode (ioff inum) ip buf))"

definition rinode :: "uint32 \<Rightarrow> (dinode, mkfs_st) kern" where
  "rinode inum = bnd (rsect (i2b inum)) (\<lambda>buf. ret (get_dinode (ioff inum) buf))"

definition mkfs_ialloc :: "ushort \<Rightarrow> (uint32, mkfs_st) kern" where
  "mkfs_ialloc type =
     bnd (rd freeinode) (\<lambda>inum.
     thn (md (\<lambda>s. s\<lparr>freeinode := inum + 1\<rparr>)) (
     thn (winode inum \<lparr>d_type = type, d_major = 0, d_minor = 0, d_nlink = 1, d_size = 0, d_addrs = replicate (NDIRECT + 1) 0\<rparr>) (
     ret inum)))"

definition mkfs_balloc :: "int \<Rightarrow> (unit, mkfs_st) kern" where
  "mkfs_balloc used =
     (if \<not> used < 512 * 8 then panic ''assert''
      else wsect (mkfs_ninodes div IPB + 3) (foldl (\<lambda>buf i. bm_set i buf) (replicate 512 0) [0..<nat used]))"

section \<open>Appending to a file\<close>

definition take_block :: "(uint32, mkfs_st) kern" where
  "take_block =
     bnd (rd freeblock) (\<lambda>b.
     thn (md (\<lambda>s. s\<lparr>freeblock := b + 1\<rparr>)) (
     thn (md (\<lambda>s. s\<lparr>usedblocks := usedblocks s + 1\<rparr>)) (
     ret b)))"

definition addr_slot :: "nat \<Rightarrow> dinode \<Rightarrow> (dinode, mkfs_st) kern" where
  "addr_slot k din =
     (if d_addrs din ! k = 0 then bnd take_block (\<lambda>b. ret (din\<lparr>d_addrs := (d_addrs din)[k := b]\<rparr>)) else ret din)"

text \<open>The block with number \<open>fbn\<close> of the file, which is allocated if it is not there yet.\<close>

definition iappend_block :: "uint32 \<Rightarrow> dinode \<Rightarrow> (uint32 \<times> dinode, mkfs_st) kern" where
  "iappend_block fbn din =
     (if fbn < of_nat NDIRECT then
        bnd (addr_slot (unat fbn) din) (\<lambda>din.
        ret (d_addrs din ! unat fbn, din))
      else
        bnd (addr_slot NDIRECT din) (\<lambda>din.
        bnd (rsect (d_addrs din ! NDIRECT)) (\<lambda>indirect.
        let j = unat (fbn - of_nat NDIRECT) in
        bnd (if get_ent j indirect = 0 then
               bnd take_block (\<lambda>b.
               thn (wsect (d_addrs din ! NDIRECT) (put_ent j b indirect)) (
               ret (put_ent j b indirect)))
             else ret indirect) (\<lambda>indirect.
        ret (get_ent j indirect, din)))))"

text \<open>The loop over the bytes \<open>p\<close> that are left.\<close>

lemma rest_of_block: "unat (off div 512 * 512 + 512 - off :: uint32) = 512 - unat off mod 512"
proof -
  have "off div 512 * 512 + off mod 512 = off"
    by (simp add: div_mult_mod_eq)
  then have e: "off div 512 * 512 + 512 - off = 512 - off mod 512"
    by (simp add: algebra_simps)
  have "off mod 512 \<le> 512"
    by (intro order_less_imp_le word_mod_less_divisor) simp
  then show ?thesis
    unfolding e using unat_sub [of "off mod 512" 512] by (simp add: unat_mod)
qed

function iappend_loop :: "dinode \<Rightarrow> uint32 \<Rightarrow> uchar list \<Rightarrow> (dinode \<times> uint32, mkfs_st) kern" where
  "iappend_loop din off p =
     (if p = [] then ret (din, off)
      else
        let fbn = off div 512; n1 = min (length p) (unat ((fbn + 1) * 512 - off)) in
        if \<not> fbn < of_nat MAXFILE then panic ''assert''
        else
          bnd (iappend_block fbn din) (\<lambda>(x, din).
          bnd (rsect x) (\<lambda>buf.
          thn (wsect x (splice (unat (off - fbn * 512)) (take n1 p) buf)) (
          iappend_loop din (off + of_nat n1) (drop n1 p)))))"
  by pat_completeness auto
termination
  by (relation "measure (\<lambda>(din, off, p). length p)") (auto simp: rest_of_block)

definition iappend :: "uint32 \<Rightarrow> uchar list \<Rightarrow> (unit, mkfs_st) kern" where
  "iappend inum p =
     bnd (rinode inum) (\<lambda>din.
     bnd (iappend_loop din (d_size din) p) (\<lambda>(din, off).
     winode inum (din\<lparr>d_size := off\<rparr>)))"

section \<open>The program\<close>

text \<open>
  An argument is a name and, if the file can be opened, the results of the calls of \<^verbatim>\<open>read\<close> up to the end of the file, of at most 512 bytes each.
\<close>

type_synonym mkfs_arg = "uchar list \<times> uchar list list option"

definition mkfs_dirent :: "uint32 \<Rightarrow> uchar list \<Rightarrow> uchar list" where
  "mkfs_dirent inum name = put_dirent \<lparr>de_inum = ucast inum, de_name = strncpy_list DIRSIZ name\<rparr>"

definition skip_underscore :: "uchar list \<Rightarrow> uchar list" where
  "skip_underscore name = (case name of c # cs \<Rightarrow> if c = 95 then cs else name | [] \<Rightarrow> [])"

definition mkfs_file :: "uint32 \<Rightarrow> mkfs_arg \<Rightarrow> (unit, mkfs_st) kern" where
  "mkfs_file rootino = (\<lambda>(name, content).
     if 47 \<in> set name then panic ''assert''
     else case content of
       None \<Rightarrow> panic ''open''
     | Some parts \<Rightarrow>
         bnd (mkfs_ialloc T_FILE) (\<lambda>inum.
         thn (iappend rootino (mkfs_dirent inum (skip_underscore name))) (
         for_each parts (iappend inum))))"

definition mkfs_sb :: "uchar list" where
  "mkfs_sb = le32 mkfs_size @ le32 mkfs_nblocks @ le32 mkfs_ninodes @ le32 mkfs_nlog @ replicate 496 0"

text \<open>\<^verbatim>\<open>main\<close>, called with the name of an image file that can be opened.\<close>

definition mkfs_main :: "mkfs_arg list \<Rightarrow> (unit, mkfs_st) kern" where
  "mkfs_main args =
     (let bitblocks = mkfs_size div (512 * 8) + 1; used = mkfs_ninodes div IPB + 3 + bitblocks in
      thn (md (\<lambda>s. s\<lparr>usedblocks := used, freeblock := used\<rparr>)) (
      if mkfs_nblocks + used + mkfs_nlog \<noteq> mkfs_size then panic ''assert''
      else
        thn (for_each [0..<unat (mkfs_nblocks + used + mkfs_nlog)] (\<lambda>i. wsect (of_nat i) zeroes)) (
        thn (wsect 1 mkfs_sb) (
        bnd (mkfs_ialloc T_DIR) (\<lambda>rootino.
        if rootino \<noteq> ROOTINO then panic ''assert''
        else
          thn (iappend rootino (mkfs_dirent rootino [46])) (
          thn (iappend rootino (mkfs_dirent rootino [46, 46])) (
          thn (for_each args (mkfs_file rootino)) (
          bnd (rinode rootino) (\<lambda>din.
          thn (winode rootino (din\<lparr>d_size := (d_size din div of_nat BSIZE + 1) * of_nat BSIZE\<rparr>)) (
          bnd (rd usedblocks) (\<lambda>used.
          mkfs_balloc (sint used))))))))))))"


declare iappend_loop.simps [simp del]

section \<open>Primitive steps\<close>

definition img_ok :: "uchar list list \<Rightarrow> bool" where
  "img_ok img = (length img = 1024 \<and> (\<forall>a < 1024. length (img ! a) = 512))"

lemma wsect_ok: "unat sec < length (fsimg s) \<Longrightarrow> wsect sec buf s = Ok () (s\<lparr>fsimg := (fsimg s)[unat sec := buf]\<rparr>)"
  by (simp add: wsect_def kern_simps)

lemma rsect_ok: "unat sec < length (fsimg s) \<Longrightarrow> rsect sec s = Ok (fsimg s ! unat sec) s"
  by (simp add: rsect_def kern_simps)

lemma img_ok_update: "img_ok img \<Longrightarrow> length d = 512 \<Longrightarrow> img_ok (img[a := d])"
  by (cases "a < length img") (auto simp: img_ok_def nth_list_update)

lemma take_block_ok: "take_block s = Ok (freeblock s) (s\<lparr>freeblock := freeblock s + 1, usedblocks := usedblocks s + 1\<rparr>)"
  by (simp add: take_block_def kern_simps)

section \<open>Files on the image\<close>

text \<open>The addresses of an inode: those of the data blocks and, with number 140, that of the indirect block.\<close>

definition dslot :: "uchar list list \<Rightarrow> dinode \<Rightarrow> nat \<Rightarrow> uint32" where
  "dslot img d k =
     (if k < NDIRECT then d_addrs d ! k
      else if k < MAXFILE then (if d_addrs d ! NDIRECT = 0 then 0 else get_ent (k - NDIRECT) (img ! unat (d_addrs d ! NDIRECT)))
      else d_addrs d ! NDIRECT)"

text \<open>A block of the content \<open>bs\<close> of a file, filled up with zeros.\<close>

definition pblock :: "uchar list \<Rightarrow> nat \<Rightarrow> uchar list" where
  "pblock bs b = take BSIZE (drop (BSIZE * b) bs @ replicate BSIZE 0)"

definition dfile :: "uchar list list \<Rightarrow> dinode \<Rightarrow> uchar list \<Rightarrow> bool" where
  "dfile img d bs = (length bs \<le> MAXFILE * BSIZE \<and> length (d_addrs d) = NDIRECT + 1 \<and>
     (\<forall>b < MAXFILE. BSIZE * b < length bs \<longrightarrow> dslot img d b \<noteq> 0 \<and> img ! unat (dslot img d b) = pblock bs b) \<and>
     (\<forall>b < MAXFILE. BSIZE * b \<ge> length bs \<longrightarrow> dslot img d b = 0) \<and>
     (d_addrs d ! NDIRECT \<noteq> 0 \<longleftrightarrow> NDIRECT * BSIZE < length bs))"

definition nblocks_of :: "nat \<Rightarrow> nat" where
  "nblocks_of n = (n + 511) div BSIZE + (if NDIRECT * BSIZE < n then 1 else 0)"

definition need :: "uchar list list \<Rightarrow> nat" where
  "need F = 29 + sum_list (map (\<lambda>bs. nblocks_of (length bs)) F)"

text \<open>
  The inodes \<open>D\<close> hold the files \<open>F\<close>, in blocks from 29 to the next free block \<open>fb\<close>; no block is used twice, and the rest of the image is zero.
\<close>

definition files_on :: "uchar list list \<Rightarrow> nat \<Rightarrow> dinode list \<Rightarrow> uchar list list \<Rightarrow> bool" where
  "files_on img fb D F = (img_ok img \<and> fb = need F \<and> length D = length F \<and>
     (\<forall>a. fb \<le> a \<and> a < 1024 \<longrightarrow> img ! a = zeroes) \<and>
     (\<forall>i < length F. dfile img (D ! i) (F ! i)) \<and>
     (\<forall>i < length F. \<forall>k < 141. dslot img (D ! i) k \<noteq> 0 \<longrightarrow> 29 \<le> unat (dslot img (D ! i) k) \<and> unat (dslot img (D ! i) k) < fb) \<and>
     (\<forall>i < length F. \<forall>j < length F. \<forall>k < 141. \<forall>l < 141.
       dslot img (D ! i) k \<noteq> 0 \<and> dslot img (D ! i) k = dslot img (D ! j) l \<longrightarrow> i = j \<and> k = l))"

lemma files_onD:
  assumes "files_on img fb D F"
  shows "img_ok img" "fb = need F" "length D = length F" "\<And>a. fb \<le> a \<Longrightarrow> a < 1024 \<Longrightarrow> img ! a = zeroes" "\<And>i. i < length F \<Longrightarrow> dfile img (D ! i) (F ! i)"
    "\<And>i k. i < length F \<Longrightarrow> k < 141 \<Longrightarrow> dslot img (D ! i) k \<noteq> 0 \<Longrightarrow> 29 \<le> unat (dslot img (D ! i) k) \<and> unat (dslot img (D ! i) k) < fb"
    "\<And>i j k l. i < length F \<Longrightarrow> j < length F \<Longrightarrow> k < 141 \<Longrightarrow> l < 141 \<Longrightarrow> dslot img (D ! i) k \<noteq> 0 \<Longrightarrow> dslot img (D ! i) k = dslot img (D ! j) l \<Longrightarrow> i = j \<and> k = l"
  using assms unfolding files_on_def by blast+

lemma files_onI:
  assumes "img_ok img" "fb = need F" "length D = length F" "\<And>a. fb \<le> a \<Longrightarrow> a < 1024 \<Longrightarrow> img ! a = zeroes" "\<And>i. i < length F \<Longrightarrow> dfile img (D ! i) (F ! i)"
    "\<And>i k. i < length F \<Longrightarrow> k < 141 \<Longrightarrow> dslot img (D ! i) k \<noteq> 0 \<Longrightarrow> 29 \<le> unat (dslot img (D ! i) k) \<and> unat (dslot img (D ! i) k) < fb"
    "\<And>i j k l. i < length F \<Longrightarrow> j < length F \<Longrightarrow> k < 141 \<Longrightarrow> l < 141 \<Longrightarrow> dslot img (D ! i) k \<noteq> 0 \<Longrightarrow> dslot img (D ! i) k = dslot img (D ! j) l \<Longrightarrow> i = j \<and> k = l"
  shows "files_on img fb D F"
  using assms unfolding files_on_def by blast

lemma dfileD:
  assumes "dfile img d bs"
  shows "length bs \<le> 71680" "length (d_addrs d) = 13" "\<And>b. b < 140 \<Longrightarrow> 512 * b < length bs \<Longrightarrow> dslot img d b \<noteq> 0 \<and> img ! unat (dslot img d b) = pblock bs b"
    "\<And>b. b < 140 \<Longrightarrow> length bs \<le> 512 * b \<Longrightarrow> dslot img d b = 0" "d_addrs d ! 12 \<noteq> 0 \<longleftrightarrow> 6144 < length bs"
  using assms by (auto simp: dfile_def)

text \<open>Blocks of a content to which something is appended.\<close>

lemma pblock_zero: "length bs \<le> 512 * b \<Longrightarrow> pblock bs b = zeroes"
  by (simp add: pblock_def zeroes_def)

lemma pblock_full: "512 * b + 512 \<le> length bs \<Longrightarrow> pblock (bs @ c) b = pblock bs b"
  by (simp add: pblock_def)

lemma length_pblock [simp]: "length (pblock bs b) = 512"
  by (simp add: pblock_def)

lemma pblock_append:
  assumes "length c \<le> 512 - length bs mod 512"
  shows "splice (length bs mod 512) c (pblock bs (length bs div 512)) = pblock (bs @ c) (length bs div 512)"
proof -
  define r where "r = drop (512 * (length bs div 512)) bs"
  have r: "length r = length bs mod 512" "length r < 512"
    by (simp_all add: r_def minus_mult_div_eq_mod)
  have "pblock bs (length bs div 512) = r @ replicate (512 - length r) 0"
    using r by (simp add: pblock_def r_def [symmetric] min_def)
  moreover have "pblock (bs @ c) (length bs div 512) = r @ c @ replicate (512 - length r - length c) 0"
    using r assms by (simp add: pblock_def r_def [symmetric] min_def)
  moreover have "length c \<le> 512 - length r"
    using assms r(1) by simp
  ultimately show ?thesis
    using r(2) unfolding r(1) [symmetric] by (simp add: splice_def)
qed

lemma nblocks_step:
  assumes "0 < n" "n \<le> 512 - len mod 512"
  shows "nblocks_of (len + n) = nblocks_of len + (if len mod 512 = 0 then 1 else 0) + (if len = 6144 then 1 else 0)"
    "6144 < len + n \<longleftrightarrow> 6144 \<le> len" "512 * b < len + n \<longleftrightarrow> 512 * b < len \<or> b = len div 512"
proof -
  define q m where "q = len div 512" and "m = len mod 512"
  have len: "len = 512 * q + m" "m < 512"
    by (simp_all add: q_def m_def)
  have mn: "m + n \<le> 512"
    using assms(2) len(2) by (simp add: m_def)
  show i: "6144 < len + n \<longleftrightarrow> 6144 \<le> len"
    using assms(1) mn len(2) unfolding len(1) by (cases "12 \<le> q") auto
  show "512 * b < len + n \<longleftrightarrow> 512 * b < len \<or> b = len div 512"
    using assms(1) mn len(2) unfolding q_def [symmetric] len(1) by (cases b q rule: linorder_cases) auto
  have "(512 * q + x) div 512 = q + x div 512" for x
    by simp
  moreover have "x div 512 = 1" if "512 \<le> x" "x < 1024" for x :: nat
    using that by (simp add: div_nat_eqI)
  ultimately have "(len + n + 511) div 512 = (len + 511) div 512 + (if m = 0 then 1 else 0)"
    using assms(1) mn len(2) unfolding len(1) by (cases "m = 0") (simp_all add: add.assoc)
  moreover have "6144 \<le> len \<longleftrightarrow> 6144 < len \<or> len = 6144"
    by auto
  ultimately show "nblocks_of (len + n) = nblocks_of len + (if len mod 512 = 0 then 1 else 0) + (if len = 6144 then 1 else 0)"
    unfolding nblocks_of_def using i by (simp add: m_def)
qed


text \<open>
  \<open>grown img fb d b img' fb' d'\<close>: the inode has got a block number \<open>b\<close> and, if needed, an indirect block; both come from the blocks from \<open>fb\<close> on, and only the
  indirect block was written.
\<close>

definition grown :: "uchar list list \<Rightarrow> nat \<Rightarrow> dinode \<Rightarrow> nat \<Rightarrow> uchar list list \<Rightarrow> nat \<Rightarrow> dinode \<Rightarrow> bool" where
  "grown img fb d b img' fb' d' = (img_ok img' \<and> (\<exists>as. d' = d\<lparr>d_addrs := as\<rparr> \<and> length as = 13) \<and>
     (\<forall>a < 1024. d_addrs d' ! 12 = 0 \<or> b < 12 \<or> a \<noteq> unat (d_addrs d' ! 12) \<longrightarrow> img' ! a = img ! a) \<and>
     (\<forall>k < 140. k \<noteq> b \<longrightarrow> dslot img' d' k = dslot img d k) \<and>
     (dslot img d b \<noteq> 0 \<and> dslot img' d' b = dslot img d b \<or> dslot img d b = 0 \<and> dslot img' d' b = of_nat (fb' - 1)) \<and>
     (d_addrs d' ! 12 = d_addrs d ! 12 \<or> d_addrs d ! 12 = 0 \<and> 12 \<le> b \<and> dslot img d b = 0 \<and> d_addrs d' ! 12 = of_nat fb) \<and>
     (12 \<le> b \<longrightarrow> d_addrs d' ! 12 \<noteq> 0) \<and>
     fb' = fb + (if dslot img d b = 0 then 1 else 0) + (if 12 \<le> b \<and> d_addrs d ! 12 = 0 then 1 else 0))"

definition steps :: "mkfs_st \<Rightarrow> mkfs_st \<Rightarrow> bool" where
  "steps s t = (freeinode t = freeinode s \<and> usedblocks t - freeblock t = usedblocks s - freeblock s)"

lemma unat_Suc_block: "unat (b :: uint32) < 1024 \<Longrightarrow> unat (b + 1) = unat b + 1"
  using unat_add_lt [of b 1] by simp

lemma grow_direct:
  assumes "img_ok (fsimg s)" "length (d_addrs d) = 13" "b < 12" "unat (freeblock s) < 1024"
  shows "\<exists>d' t. iappend_block (of_nat b) d s = Ok (dslot (fsimg t) d' b, d') t \<and> steps s t \<and> grown (fsimg s) (unat (freeblock s)) d b (fsimg t) (unat (freeblock t)) d'"
proof -
  have b: "unat (of_nat b :: uint32) = b" "(of_nat b :: uint32) < 12"
    using assms(3) by (simp_all add: unat_of_nat_lt word_less_nat_alt)
  show ?thesis
  proof (cases "d_addrs d ! b = 0")
    case True
    let ?d = "d\<lparr>d_addrs := (d_addrs d)[b := freeblock s]\<rparr>" and ?t = "s\<lparr>freeblock := freeblock s + 1, usedblocks := usedblocks s + 1\<rparr>"
    have u: "unat (freeblock s + 1) = unat (freeblock s) + 1"
      by (rule unat_Suc_block [OF assms(4)])
    have "iappend_block (of_nat b) d s = Ok (dslot (fsimg ?t) ?d b, ?d) ?t"
      using True assms(2,3) b by (simp add: iappend_block_def addr_slot_def kern_simps take_block_ok dslot_def)
    moreover have "grown (fsimg s) (unat (freeblock s)) d b (fsimg ?t) (unat (freeblock ?t)) ?d"
      using True assms u by (auto simp: grown_def dslot_def nth_list_update intro!: exI [of _ "(d_addrs d)[b := freeblock s]"])
    ultimately show ?thesis
      by (intro exI [of _ ?d] exI [of _ ?t]) (simp add: steps_def)
  next
    case False
    then have "iappend_block (of_nat b) d s = Ok (dslot (fsimg s) d b, d) s"
      using assms(2,3) b by (simp add: iappend_block_def addr_slot_def kern_simps dslot_def)
    moreover have "grown (fsimg s) (unat (freeblock s)) d b (fsimg s) (unat (freeblock s)) d"
      using False assms by (auto simp: grown_def dslot_def intro!: exI [of _ "d_addrs d"])
    ultimately show ?thesis
      by (auto simp: steps_def)
  qed
qed

lemma grow_indirect:
  assumes "img_ok (fsimg s)" "length (d_addrs d) = 13" "12 \<le> b" "b < 140" "d_addrs d ! 12 \<noteq> 0" "unat (d_addrs d ! 12) < 1024" "unat (freeblock s) < 1024"
  shows "\<exists>t. iappend_block (of_nat b) d s = Ok (dslot (fsimg t) d b, d) t \<and> steps s t \<and> grown (fsimg s) (unat (freeblock s)) d b (fsimg t) (unat (freeblock t)) d"
proof -
  let ?x = "d_addrs d ! 12" and ?j = "b - 12"
  have b: "\<not> (of_nat b :: uint32) < 12" "unat (of_nat b - 12 :: uint32) = ?j"
    using assms(3,4) unat_sub [of "12 :: uint32" "of_nat b"] by (simp_all add: word_less_nat_alt word_le_nat_alt unat_of_nat_lt)
  have len: "length (fsimg s ! unat ?x) = 512" "unat ?x < length (fsimg s)"
    using assms(1,6) by (simp_all add: img_ok_def)
  show ?thesis
  proof (cases "get_ent ?j (fsimg s ! unat ?x) = 0")
    case True
    let ?e = "put_ent ?j (freeblock s) (fsimg s ! unat ?x)"
    let ?t = "s\<lparr>freeblock := freeblock s + 1, usedblocks := usedblocks s + 1, fsimg := (fsimg s)[unat ?x := ?e]\<rparr>"
    have u: "unat (freeblock s + 1) = unat (freeblock s) + 1"
      by (rule unat_Suc_block [OF assms(7)])
    have e: "length ?e = 512" "get_ent k ?e = (if k = ?j then freeblock s else get_ent k (fsimg s ! unat ?x))" if "k < 128" for k
      using len(1) get_put_ent [of "fsimg s ! unat ?x" k ?j "freeblock s"] that assms(3,4) by (simp_all add: put_ent_def)
    have sl: "dslot (fsimg ?t) d k = (if k = b then freeblock s else dslot (fsimg s) d k)" if "k < 140" for k
      using e(2) [of "k - 12"] assms(3-5) len(2) that by (auto simp: dslot_def)
    have "iappend_block (of_nat b) d s = Ok (dslot (fsimg ?t) d b, d) ?t"
      using True assms(4,5) b len sl [of b] e(2) [of ?j] by (simp add: iappend_block_def addr_slot_def kern_simps rsect_ok wsect_ok take_block_ok Let_def)
    moreover have "grown (fsimg s) (unat (freeblock s)) d b (fsimg ?t) (unat (freeblock ?t)) d"
    proof -
      have "dslot (fsimg s) d b = 0" "img_ok (fsimg ?t)"
        using True assms(3-5) img_ok_update [OF assms(1) e(1) [of 0]] by (simp_all add: dslot_def)
      then show ?thesis
        using assms(2-6) sl u by (auto simp: grown_def intro!: exI [of _ "d_addrs d"])
    qed
    ultimately show ?thesis
      by (intro exI [of _ ?t]) (simp add: steps_def)
  next
    case False
    then have "iappend_block (of_nat b) d s = Ok (dslot (fsimg s) d b, d) s"
      using assms(3-5) b len by (simp add: iappend_block_def addr_slot_def kern_simps rsect_ok dslot_def Let_def)
    moreover have "grown (fsimg s) (unat (freeblock s)) d b (fsimg s) (unat (freeblock s)) d"
      using False assms by (auto simp: grown_def dslot_def intro!: exI [of _ "d_addrs d"])
    ultimately show ?thesis
      by (auto simp: steps_def)
  qed
qed


lemma grow_both:
  assumes "img_ok (fsimg s)" "length (d_addrs d) = 13" "12 \<le> b" "b < 140" "d_addrs d ! 12 = 0"
    and "29 \<le> unat (freeblock s)" "unat (freeblock s) + 1 < 1024" "fsimg s ! unat (freeblock s) = zeroes"
  shows "\<exists>d' t. iappend_block (of_nat b) d s = Ok (dslot (fsimg t) d' b, d') t \<and> steps s t \<and> grown (fsimg s) (unat (freeblock s)) d b (fsimg t) (unat (freeblock t)) d'"
proof -
  let ?d = "d\<lparr>d_addrs := (d_addrs d)[12 := freeblock s]\<rparr>" and ?s = "s\<lparr>freeblock := freeblock s + 1, usedblocks := usedblocks s + 1\<rparr>"
  have u: "unat (freeblock s + 1) = unat (freeblock s) + 1"
    using assms(7) by (intro unat_Suc_block) simp
  have nz: "freeblock s \<noteq> 0"
    using assms(6) by auto
  have b: "\<not> (of_nat b :: uint32) < 12"
    using assms(3,4) by (simp add: word_less_nat_alt unat_of_nat_lt)
  have e: "iappend_block (of_nat b) d s = iappend_block (of_nat b) ?d ?s"
    using assms(2,5) b nz by (simp add: iappend_block_def addr_slot_def kern_simps take_block_ok)
  obtain t where t: "iappend_block (of_nat b) ?d ?s = Ok (dslot (fsimg t) ?d b, ?d) t" "steps ?s t"
      "grown (fsimg s) (unat (freeblock s) + 1) ?d b (fsimg t) (unat (freeblock t)) ?d"
    using grow_indirect [of ?s ?d b] assms(1-4,7) nz u by auto
  have sl: "dslot (fsimg s) ?d k = dslot (fsimg s) d k" if "k < 140" for k
    using that assms(2,5,8) nz get_ent_zero [of "k - 12"] by (auto simp: dslot_def zeroes_def nth_list_update)
  have "dslot (fsimg s) d b = 0"
    using assms(3-5) by (simp add: dslot_def)
  then have "grown (fsimg s) (unat (freeblock s)) d b (fsimg t) (unat (freeblock t)) ?d"
    using t(3) sl assms(2-5) nz unfolding grown_def by (auto intro!: exI [of _ "(d_addrs d)[12 := freeblock s]"])
  moreover have "steps s t"
    using t(2) by (simp add: steps_def)
  ultimately show ?thesis
    using t(1) e by auto
qed

lemma need_update:
  assumes "i < length F"
  shows "need (F[i := bs]) + nblocks_of (length (F ! i)) = need F + nblocks_of (length bs)"
proof -
  have "sum_list (map f (F[i := bs])) + f (F ! i) = sum_list (map f F) + f bs" for f :: "uchar list \<Rightarrow> nat"
    using assms by (induction F arbitrary: i) (auto simp: less_Suc_eq_0_disj)
  then show ?thesis
    by (simp add: need_def)
qed

lemma iappend_block_spec:
  assumes on: "files_on (fsimg s) (unat (freeblock s)) D F" and i: "i < length F" and b: "b = length (F ! i) div 512" "b < 140"
    and n: "0 < n" "n \<le> 512 - length (F ! i) mod 512" and fits: "need (F[i := F ! i @ c]) \<le> 994" "length c = n"
  shows "\<exists>d' t. iappend_block (of_nat b) (D ! i) s = Ok (dslot (fsimg t) d' b, d') t \<and> steps s t \<and>
    grown (fsimg s) (unat (freeblock s)) (D ! i) b (fsimg t) (unat (freeblock t)) d' \<and> unat (freeblock t) = need (F[i := F ! i @ c])"
proof -
  note f = files_onD [OF on] and df = dfileD [OF files_onD(5) [OF on i]] and st = nblocks_step [OF n]
  let ?len = "length (F ! i)" and ?d = "D ! i"
  have z: "dslot (fsimg s) ?d b = 0 \<longleftrightarrow> ?len mod 512 = 0"
    using df(3,4) [OF b(2)] b(1) by (metis div_mult_mod_eq add_cancel_right_right le_less_linear less_add_same_cancel1 mult.commute not_less_iff_gr_or_eq order_refl zero_less_iff_neq_zero)
  have y: "12 \<le> b \<and> d_addrs ?d ! 12 = 0 \<longleftrightarrow> ?len = 6144"
    using df(5) b(1) by auto
  have nd: "need (F[i := F ! i @ c]) = unat (freeblock s) + (if dslot (fsimg s) ?d b = 0 then 1 else 0) + (if 12 \<le> b \<and> d_addrs ?d ! 12 = 0 then 1 else 0)"
    using need_update [OF i, of "F ! i @ c"] st(1) f(2) fits(2) z y by simp
  have fr: "29 \<le> unat (freeblock s)" "unat (freeblock s) < 1024"
    using f(2) nd fits(1) by (simp_all add: need_def)
  have "\<exists>d' t. iappend_block (of_nat b) ?d s = Ok (dslot (fsimg t) d' b, d') t \<and> steps s t \<and> grown (fsimg s) (unat (freeblock s)) ?d b (fsimg t) (unat (freeblock t)) d'"
  proof (cases "b < 12")
    case True
    then show ?thesis
      using grow_direct [OF f(1) df(2) True fr(2)] by blast
  next
    case False
    show ?thesis
    proof (cases "d_addrs ?d ! 12 = 0")
      case True
      then show ?thesis
        using grow_both [OF f(1) df(2) _ b(2) True fr(1)] f(4) [of "unat (freeblock s)"] fr False nd fits(1) by auto
    next
      case x: False
      then have "unat (d_addrs ?d ! 12) < 1024"
        using f(6) [OF i, of 140] fr(2) by (simp add: dslot_def)
      then show ?thesis
        using grow_indirect [OF f(1) df(2) _ b(2) x _ fr(2)] False by auto
    qed
  qed
  then show ?thesis
    using nd by (auto simp: grown_def)
qed


text \<open>A chunk is written into the block number \<open>b\<close> of a file that has got this block.\<close>

lemma chunk_dfile:
  assumes df: "dfile img d bs" and g: "grown img fb d b img' fb' d'" and b: "b = length bs div 512" "b < 140"
    and c: "0 < length c" "length c \<le> 512 - length bs mod 512"
    and x: "dslot img' d' b \<noteq> 0" "img' ! unat (dslot img' d' b) = pblock bs b" "\<And>k. k < 141 \<Longrightarrow> unat (dslot img' d' k) < 1024"
      "\<And>k l. k < 141 \<Longrightarrow> l < 141 \<Longrightarrow> dslot img' d' k \<noteq> 0 \<Longrightarrow> dslot img' d' k = dslot img' d' l \<Longrightarrow> k = l"
  defines "J \<equiv> img'[unat (dslot img' d' b) := splice (length bs mod 512) c (pblock bs b)]"
  shows "dfile J d' (bs @ c)" "\<And>k. dslot J d' k = dslot img' d' k"
proof -
  note d = dfileD [OF df] and st = nblocks_step [OF c]
  have g': "img_ok img'" "length (d_addrs d') = 13" "\<And>k. k < 140 \<Longrightarrow> k \<noteq> b \<Longrightarrow> dslot img' d' k = dslot img d k"
      "\<And>a. a < 1024 \<Longrightarrow> d_addrs d' ! 12 = 0 \<or> b < 12 \<or> a \<noteq> unat (d_addrs d' ! 12) \<Longrightarrow> img' ! a = img ! a"
    using g by (auto simp: grown_def)
  have q: "dslot img' d' 140 = d_addrs d' ! 12"
    by (simp add: dslot_def)
  have "dslot img' d' 140 \<noteq> dslot img' d' b"
    using x(4) [OF _ _ x(1), of 140] b(2) by fastforce
  then have "unat (d_addrs d' ! 12) \<noteq> unat (dslot img' d' b)"
    by (simp add: q word_unat_eq_iff)
  then show sl: "dslot J d' k = dslot img' d' k" for k
    by (auto simp: dslot_def [of _ d' k] J_def)
  have y: "d_addrs d' ! 12 \<noteq> 0 \<longleftrightarrow> 6144 < length (bs @ c)"
    using g d(5) b(1) st(2) by (auto simp: grown_def)
  have "length bs + length c \<le> 512 * b + 512"
    using c(2) mult_div_mod_eq [of 512 "length bs"] mod_less_divisor [of 512 "length bs"] unfolding b(1) by linarith
  then have len: "length (bs @ c) \<le> 71680"
    using b(2) by simp
  have other: "dslot J d' e \<noteq> 0 \<and> J ! unat (dslot J d' e) = pblock (bs @ c) e" if e: "e < 140" "e \<noteq> b" "512 * e < length bs" for e
  proof -
    have z: "dslot img d e \<noteq> 0" "img ! unat (dslot img d e) = pblock bs e" "dslot img' d' e = dslot img d e"
      using d(3) g'(3) e by simp_all
    have "512 * e + 512 \<le> length bs"
      using e(2,3) mult_div_mod_eq [of 512 "length bs"] b(1) by (cases e b rule: linorder_cases) auto
    then have "pblock (bs @ c) e = pblock bs e"
      by (rule pblock_full)
    moreover have "dslot img d e \<noteq> dslot img' d' b" "dslot img d e \<noteq> d_addrs d' ! 12"
      using x(4) [of e b] x(4) [of e 140] e z q b(2) by auto
    then have "J ! unat (dslot img d e) = img ! unat (dslot img d e)"
      using g'(4) [of "unat (dslot img d e)"] x(3) [of e] z(3) e(1) by (simp add: J_def word_unat_eq_iff)
    ultimately show ?thesis
      using sl [of e] z by simp
  qed
  have own: "dslot J d' b \<noteq> 0 \<and> J ! unat (dslot J d' b) = pblock (bs @ c) b"
    using x(1) x(3) [of b] b(2) sl [of b] g'(1) pblock_append [OF c(2)] b(1) by (simp add: J_def img_ok_def)
  have "dslot J d' e \<noteq> 0 \<and> J ! unat (dslot J d' e) = pblock (bs @ c) e" if "e < 140" "512 * e < length (bs @ c)" for e
    using that other [of e] own st(3) [of e] b(1) by (cases "e = b") simp_all
  moreover have "dslot J d' e = 0" if "e < 140" "length (bs @ c) \<le> 512 * e" for e
    using that d(4) [of e] st(3) [of e] sl [of e] g'(3) [of e] b(1) by (cases "e = b") auto
  ultimately show "dfile J d' (bs @ c)"
    using y g'(2) len unfolding dfile_def by simp
qed


text \<open>The other files stay as they are, since their blocks do.\<close>

lemma dfile_other:
  assumes df: "dfile img d bs" and same: "\<And>k. k < 141 \<Longrightarrow> dslot img d k \<noteq> 0 \<Longrightarrow> J ! unat (dslot img d k) = img ! unat (dslot img d k)"
  shows "k < 141 \<Longrightarrow> dslot J d k = dslot img d k" "dfile J d bs"
proof -
  have q: "dslot img d 140 = d_addrs d ! 12"
    by (simp add: dslot_def)
  then have sl: "dslot J d k = dslot img d k" for k
    using same [of 140] by (auto simp: dslot_def [of _ d k])
  then show "k < 141 \<Longrightarrow> dslot J d k = dslot img d k"
    by simp
  show "dfile J d bs"
    using df same by (auto simp: dfile_def sl)
qed

lemma grown_slots:
  assumes on: "files_on img fb D F" and i: "i < length F" and g: "grown img fb (D ! i) b img' fb' d'" "b < 140" and fb': "fb' \<le> 994"
  shows "k < 141 \<Longrightarrow> dslot img' d' k = dslot img (D ! i) k \<or> dslot img (D ! i) k = 0 \<and> fb \<le> unat (dslot img' d' k) \<and> unat (dslot img' d' k) < fb'"
    "k < 141 \<Longrightarrow> dslot img' d' k \<noteq> 0 \<Longrightarrow> 29 \<le> unat (dslot img' d' k) \<and> unat (dslot img' d' k) < fb'"
    "k < 141 \<Longrightarrow> l < 141 \<Longrightarrow> dslot img' d' k \<noteq> 0 \<Longrightarrow> dslot img' d' k = dslot img' d' l \<Longrightarrow> k = l"
    "dslot img' d' b \<noteq> 0"
proof -
  note f = files_onD [OF on]
  let ?S = "dslot img' d'" and ?T = "dslot img (D ! i)"
  have q: "?S 140 = d_addrs d' ! 12" "?T 140 = d_addrs (D ! i) ! 12"
    by (simp_all add: dslot_def)
  have fb: "29 \<le> fb" "fb \<le> fb'"
    using f(2) g(1) by (auto simp: need_def grown_def)
  have u: "unat (of_nat m :: uint32) = m" if "m < 994" for m
    using that by (intro unat_of_nat_lt) simp
  have same: "?S k = ?T k" if "k < 140" "k \<noteq> b" for k
    using g(1) that by (auto simp: grown_def)
  have new: "?S b = ?T b \<and> ?T b \<noteq> 0 \<or> ?T b = 0 \<and> unat (?S b) = fb' - 1 \<and> fb < fb'"
    using g(1) u [of "fb' - 1"] fb fb' by (auto simp: grown_def)
  have ind: "?S 140 = ?T 140 \<or> ?T 140 = 0 \<and> ?T b = 0 \<and> unat (?S 140) = fb \<and> fb' = fb + 2"
    using g(1) u [of fb] fb' unfolding q by (auto simp: grown_def)
  show A: "?S k = ?T k \<or> ?T k = 0 \<and> fb \<le> unat (?S k) \<and> unat (?S k) < fb'" if "k < 141" for k
    using same [of k] new ind that by (cases "k = b"; cases "k = 140") auto
  show B: "29 \<le> unat (?S k) \<and> unat (?S k) < fb'" if "k < 141" "?S k \<noteq> 0" for k
    using A [OF that(1)] f(6) [OF i that(1)] fb that(2) by auto
  show "?S b \<noteq> 0"
    using new fb by auto
  show "k = l" if kl: "k < 141" "l < 141" "?S k \<noteq> 0" "?S k = ?S l" for k l
  proof (cases "?S k = ?T k \<and> ?S l = ?T l")
    case True
    then have "?T k \<noteq> 0" "?T k = ?T l"
      using kl(3,4) by metis+
    then show ?thesis
      using f(7) [OF i i kl(1,2)] by blast
  next
    case False
    have "?S k \<noteq> ?T k \<and> ?S l \<noteq> ?T l"
      using False A [OF kl(1)] A [OF kl(2)] f(6) [OF i kl(1)] f(6) [OF i kl(2)] kl(3,4) by fastforce
    moreover have "k < 140 \<or> k = 140" "l < 140 \<or> l = 140"
      using kl(1,2) by linarith+
    ultimately have "k = b \<or> k = 140" "l = b \<or> l = 140"
      using same by blast+
    moreover have "?S 140 \<noteq> ?S b" if "?S 140 \<noteq> ?T 140"
      using that ind new by auto
    ultimately show ?thesis
      using \<open>?S k \<noteq> ?T k \<and> ?S l \<noteq> ?T l\<close> kl(4) by auto
  qed
qed

text \<open>The block of the next chunk of a file, after the file has got it.\<close>

lemma files_on_slot:
  assumes on: "files_on img fb D F" and i: "i < length F" and b: "b < 140" and g: "grown img fb (D ! i) b img' fb' d'" and fb': "fb' \<le> 994"
  defines "x \<equiv> dslot img' d' b" and "y \<equiv> d_addrs d' ! 12"
  shows "29 \<le> unat x" "unat x < fb'" "unat x < 1024" "y \<noteq> 0 \<Longrightarrow> 29 \<le> unat y \<and> unat y < fb'"
    "\<And>a. a < 1024 \<Longrightarrow> y = 0 \<or> a \<noteq> unat y \<Longrightarrow> img' ! a = img ! a" "img' ! unat x = pblock (F ! i) b"
proof -
  note f = files_onD [OF on] and df = dfileD [OF files_onD(5) [OF on i]] and sl = grown_slots [OF on i g b fb']
  have q: "dslot img' d' 140 = y"
    by (simp add: dslot_def y_def)
  have x: "x \<noteq> 0" "29 \<le> unat x" "unat x < fb'" "x \<noteq> y"
    using sl(2) [of b] sl(3) [of b 140] sl(4) b q by (auto simp: x_def)
  show "29 \<le> unat x" "unat x < fb'"
    by (rule x(2,3))+
  show x1: "unat x < 1024"
    using x(3) fb' by simp
  show "y \<noteq> 0 \<Longrightarrow> 29 \<le> unat y \<and> unat y < fb'"
    using sl(2) [of 140] q by simp
  show keep: "img' ! a = img ! a" if "a < 1024" "y = 0 \<or> a \<noteq> unat y" for a
    using g that by (auto simp: grown_def y_def)
  show "img' ! unat x = pblock (F ! i) b"
  proof (cases "512 * b < length (F ! i)")
    case True
    then have "x = dslot img (D ! i) b"
      using df(3) [OF b] sl(1) [of b] b by (auto simp: x_def)
    then show ?thesis
      using df(3) [OF b True] keep [OF x1] x(4) by (simp add: word_unat_eq_iff)
  next
    case False
    then have "fb \<le> unat x"
      using df(4) [OF b] sl(1) [of b] x(1) b by (auto simp: x_def)
    then show ?thesis
      using f(4) [OF _ x1] keep [OF x1] x(4) pblock_zero [of "F ! i" b] False by (simp add: word_unat_eq_iff)
  qed
qed

text \<open>The other files do not change.\<close>

lemma files_on_others:
  assumes on: "files_on img fb D F" and i: "i < length F" and b: "b < 140" and g: "grown img fb (D ! i) b img' fb' d'" and fb': "fb' \<le> 994"
    and J: "\<And>a. a < 1024 \<Longrightarrow> a \<noteq> unat (dslot img' d' b) \<Longrightarrow> d_addrs d' ! 12 = 0 \<or> a \<noteq> unat (d_addrs d' ! 12) \<Longrightarrow> J ! a = img ! a"
    and j: "j < length F" "j \<noteq> i" "k < 141"
  shows "dslot J (D ! j) k = dslot img (D ! j) k" "dfile J (D ! j) (F ! j)"
proof -
  note f = files_onD [OF on] and sl = grown_slots [OF on i g b fb']
  have "J ! unat (dslot img (D ! j) l) = img ! unat (dslot img (D ! j) l)" if l: "l < 141" "dslot img (D ! j) l \<noteq> 0" for l
  proof -
    have ne: "dslot img' d' k \<noteq> dslot img (D ! j) l" if "k < 141" for k
      using sl(1) [OF that] f(6) [OF j(1) l] f(7) [OF i j(1) that l(1)] j(2) l(2) by auto
    have "dslot img' d' b \<noteq> dslot img (D ! j) l" "d_addrs d' ! 12 \<noteq> dslot img (D ! j) l"
      using ne [of b] ne [of 140] b by (simp_all add: dslot_def [of img' d' 140])
    then show ?thesis
      using f(6) [OF j(1) l] f(2) fb' g by (intro J) (auto simp: word_unat_eq_iff grown_def)
  qed
  then show "dslot J (D ! j) k = dslot img (D ! j) k" "dfile J (D ! j) (F ! j)"
    using dfile_other [OF f(5) [OF j(1)]] j(3) by blast+
qed

lemma files_on_step:
  assumes on: "files_on img fb D F" and i: "i < length F" and b: "b = length (F ! i) div 512" "b < 140"
    and c: "0 < length c" "length c \<le> 512 - length (F ! i) mod 512"
    and g: "grown img fb (D ! i) b img' fb' d'" and fb': "fb' = need (F[i := F ! i @ c])" "fb' \<le> 994"
  defines "x \<equiv> dslot img' d' b"
  shows "unat x < 1024" "img' ! unat x = pblock (F ! i) b"
    "files_on (img'[unat x := splice (length (F ! i) mod 512) c (pblock (F ! i) b)]) fb' (D[i := d']) (F[i := F ! i @ c])"
    "a < 29 \<Longrightarrow> img'[unat x := splice (length (F ! i) mod 512) c (pblock (F ! i) b)] ! a = img ! a"
proof -
  note f = files_onD [OF on] and sl = grown_slots [OF on i g b(2) fb'(2)] and x = files_on_slot [OF on i b(2) g fb'(2), folded x_def]
  let ?J = "img'[unat x := splice (length (F ! i) mod 512) c (pblock (F ! i) b)]" and ?y = "d_addrs d' ! 12"
  show "unat x < 1024" and p: "img' ! unat x = pblock (F ! i) b"
    by (rule x(3,6))+
  have J: "?J ! a = img ! a" if "a < 1024" "a \<noteq> unat x" "?y = 0 \<or> a \<noteq> unat ?y" for a
    using x(5) [OF that(1,3)] that(2) by simp
  show "?J ! a = img ! a" if "a < 29"
    using that x(1,4) by (intro J) auto
  have u: "unat (dslot img' d' k) < 1024" if "k < 141" for k
    using sl(2) [OF that] fb'(2) by (cases "dslot img' d' k = 0") auto
  note cd = chunk_dfile [OF f(5) [OF i] g b c sl(4) p [unfolded x_def] u sl(3), folded x_def]
  note other = files_on_others [OF on i b(2) g fb'(2) J [unfolded x_def], folded x_def]
  have slots: "dslot ?J (D[i := d'] ! j) k = (if j = i then dslot img' d' k else dslot img (D ! j) k)" if "j < length F" "k < 141" for j k
    using that other(1) [of j k] cd(2) [of k] i f(3) by auto
  have "fb \<le> fb'"
    using g by (auto simp: grown_def)
  then have range: "29 \<le> unat (dslot ?J (D[i := d'] ! j) k) \<and> unat (dslot ?J (D[i := d'] ! j) k) < fb'"
    if "j < length F" "k < 141" "dslot ?J (D[i := d'] ! j) k \<noteq> 0" for j k
    using that slots [OF that(1,2)] sl(2) [of k] f(6) [of j k] by (cases "j = i") auto
  have cross: "dslot img' d' k \<noteq> dslot img (D ! j) l" if "j < length F" "j \<noteq> i" "k < 141" "l < 141" "dslot img' d' k \<noteq> 0" for j k l
    using sl(1) [OF that(3)] f(6) [OF that(1,4)] f(7) [OF i that(1,3,4)] that(2,5) by auto
  have inj: "j = j' \<and> k = l" if "j < length F" "j' < length F" "k < 141" "l < 141" "dslot ?J (D[i := d'] ! j) k \<noteq> 0"
      "dslot ?J (D[i := d'] ! j) k = dslot ?J (D[i := d'] ! j') l" for j j' k l
    using that(5,6) slots [OF that(1,3)] slots [OF that(2,4)] f(7) [OF that(1-4)] sl(3) [OF that(3,4)] cross [OF that(2) _ that(3,4)]
      cross [OF that(1) _ that(4,3)] by (cases "j = i"; cases "j' = i") auto
  have "img_ok ?J"
    using g img_ok_update [of img'] c(2) by (auto simp: grown_def)
  moreover have "?J ! a = zeroes" if "fb' \<le> a" "a < 1024" for a
  proof -
    have "?y = 0 \<or> a \<noteq> unat ?y"
      using x(4) that(1) by fastforce
    then show ?thesis
      using J [of a] f(4) [of a] that \<open>fb \<le> fb'\<close> x(2) by auto
  qed
  moreover have "dfile ?J (D[i := d'] ! j) (F[i := F ! i @ c] ! j)" if "j < length F" for j
    using that other(2) [of j 0] cd(1) i f(3) by (cases "j = i") auto
  ultimately show "files_on ?J fb' (D[i := d']) (F[i := F ! i @ c])"
    using fb'(1) f(3) range inj by (intro files_onI) simp_all
qed


section \<open>Appending\<close>

lemma nblocks_mono: "m \<le> n \<Longrightarrow> nblocks_of m \<le> nblocks_of n"
  by (simp add: nblocks_of_def div_le_mono add_mono)

lemma need_mono: "i < length F \<Longrightarrow> length b \<le> length c \<Longrightarrow> need (F[i := b]) \<le> need (F[i := c])"
  using need_update [of i F b] need_update [of i F c] nblocks_mono [of "length b" "length c"] by linarith

definition same_low :: "mkfs_st \<Rightarrow> mkfs_st \<Rightarrow> bool" where
  "same_low s t = (\<forall>a < 29. fsimg t ! a = fsimg s ! a)"

lemma append_chunk:
  assumes on: "files_on (fsimg s) (unat (freeblock s)) D F" and i: "i < length F" and p: "p \<noteq> []" "length (F ! i) + length p \<le> 71680" "need (F[i := F ! i @ p]) \<le> 994"
  defines "n \<equiv> min (length p) (512 - length (F ! i) mod 512)"
  shows "\<exists>d t. iappend_loop (D ! i) (of_nat (length (F ! i))) p s = iappend_loop d (of_nat (length (F ! i) + n)) (drop n p) t \<and> steps s t \<and> same_low s t \<and>
    files_on (fsimg t) (unat (freeblock t)) (D[i := d]) (F[i := F ! i @ take n p]) \<and> (\<exists>as. d = (D ! i)\<lparr>d_addrs := as\<rparr>)"
proof -
  let ?len = "length (F ! i)" and ?c = "take n p"
  let ?o = "of_nat ?len :: uint32" and ?b = "?len div 512"
  have "?len < 140 * 512"
    using p(1,2) by (cases p) auto
  then have c: "0 < length ?c" "length ?c \<le> 512 - ?len mod 512" "length ?c = n" "?b < 140"
    using p(1) by (auto simp: n_def less_mult_imp_div_less min_def)
  have o: "unat ?o = ?len" "?o div 512 = of_nat ?b" "unat (?o - of_nat ?b * 512) = ?len mod 512"
  proof -
    show u: "unat ?o = ?len"
      using p(2) by (intro unat_of_nat_lt) simp
    then show d: "?o div 512 = of_nat ?b"
      using c(4) by (simp add: word_unat_eq_iff unat_div unat_of_nat_lt)
    have "?o - ?o div 512 * 512 = ?o mod 512"
      by (simp add: minus_div_mult_eq_mod)
    then show "unat (?o - of_nat ?b * 512) = ?len mod 512"
      using u d by (simp add: unat_mod)
  qed
  have fits: "need (F[i := F ! i @ ?c]) \<le> 994"
    using need_mono [OF i, of "F ! i @ ?c" "F ! i @ p"] p(3) by simp
  obtain d t where t: "iappend_block (of_nat ?b) (D ! i) s = Ok (dslot (fsimg t) d ?b, d) t" "steps s t"
      "grown (fsimg s) (unat (freeblock s)) (D ! i) ?b (fsimg t) (unat (freeblock t)) d" "unat (freeblock t) = need (F[i := F ! i @ ?c])"
    using iappend_block_spec [OF on i refl c(4,1,2) fits refl] by blast
  let ?x = "dslot (fsimg t) d ?b"
  let ?u = "t\<lparr>fsimg := (fsimg t)[unat ?x := splice (?len mod 512) ?c (pblock (F ! i) ?b)]\<rparr>"
  note st = files_on_step [OF on i refl c(4,1,2) t(3,4)] fits t(4)
  have x: "unat ?x < length (fsimg t)"
    using st(1) t(3,4) fits by (simp add: grown_def img_ok_def)
  have k: "?o div 512 < of_nat MAXFILE" "min (length p) (unat ((?o div 512 + 1) * 512 - ?o)) = n"
    using c(4) o rest_of_block [of ?o] by (simp_all add: word_less_nat_alt unat_of_nat_lt unat_div n_def distrib_right)
  have "iappend_loop (D ! i) ?o p s = iappend_loop d (of_nat (?len + n)) (drop n p) ?u"
    unfolding iappend_loop.simps [of "D ! i"] Let_def k(2) using p(1) k(1) o rsect_ok [OF x] wsect_ok [OF x] st(2) fits t(1,4)
    by (simp add: kern_simps)
  moreover have "files_on (fsimg ?u) (unat (freeblock ?u)) (D[i := d]) (F[i := F ! i @ ?c])" "same_low s ?u" "steps s ?u" "\<exists>as. d = (D ! i)\<lparr>d_addrs := as\<rparr>"
    using st fits t by (auto simp: same_low_def steps_def grown_def)
  ultimately show ?thesis
    by blast
qed


lemma iappend_loop_spec:
  assumes "files_on (fsimg s) (unat (freeblock s)) D F" "i < length F" "length (F ! i) + length p \<le> 71680" "need (F[i := F ! i @ p]) \<le> 994"
  shows "\<exists>d t. iappend_loop (D ! i) (of_nat (length (F ! i))) p s = Ok (d, of_nat (length (F ! i @ p))) t \<and> steps s t \<and> same_low s t \<and>
    files_on (fsimg t) (unat (freeblock t)) (D[i := d]) (F[i := F ! i @ p]) \<and> (\<exists>as. d = (D ! i)\<lparr>d_addrs := as\<rparr>)"
  using assms
proof (induction p arbitrary: s D F rule: length_induct)
  case (1 p)
  note d = files_onD [OF "1.prems"(1)]
  show ?case
  proof (cases "p = []")
    case True
    then show ?thesis
      using "1.prems"(1) d(3) by (auto simp: iappend_loop.simps [of _ _ "[]"] kern_simps steps_def same_low_def intro!: exI [of _ "d_addrs (D ! i)"])
  next
    case False
    define n where "n = min (length p) (512 - length (F ! i) mod 512)"
    obtain d t where t: "iappend_loop (D ! i) (of_nat (length (F ! i))) p s = iappend_loop d (of_nat (length (F ! i) + n)) (drop n p) t" "steps s t" "same_low s t"
        "files_on (fsimg t) (unat (freeblock t)) (D[i := d]) (F[i := F ! i @ take n p])" "\<exists>as. d = (D ! i)\<lparr>d_addrs := as\<rparr>"
      using append_chunk [OF "1.prems"(1,2) False "1.prems"(3,4)] unfolding n_def by blast
    have n: "0 < n" "n \<le> length p"
      using False by (auto simp: n_def)
    then have "length (drop n p) < length p"
      by simp
    from "1.IH" [rule_format, OF this t(4)] obtain e u where u: "iappend_loop d (of_nat (length (F ! i) + n)) (drop n p) t = Ok (e, of_nat (length (F ! i @ p))) u"
        "steps t u" "same_low t u" "files_on (fsimg u) (unat (freeblock u)) (D[i := e]) (F[i := F ! i @ p])" "\<exists>as. e = d\<lparr>d_addrs := as\<rparr>"
      using "1.prems"(2-4) n d(3) by (auto simp: min.absorb2)
    then show ?thesis
      using t by (auto simp: steps_def same_low_def)
  qed
qed

section \<open>The table of inodes\<close>

text \<open>The files have the inode numbers from 1 on.\<close>

definition inum_of :: "nat \<Rightarrow> uint32" where
  "inum_of k = of_nat (Suc k)"

definition dino :: "uchar list list \<Rightarrow> nat \<Rightarrow> dinode" where
  "dino img k = get_dinode (ioff (inum_of k)) (img ! unat (i2b (inum_of k)))"

lemma inode_place:
  assumes "k < 199"
  shows "unat (i2b (inum_of k)) = Suc k div 8 + 2" "Suc k div 8 + 2 < 27" "ioff (inum_of k) = 64 * (Suc k mod 8)"
proof -
  have u: "unat (inum_of k) = Suc k"
    unfolding inum_of_def using assms by (intro unat_of_nat_lt) simp
  have "unat (inum_of k div 8) = Suc k div 8"
    unfolding unat_div u by simp
  moreover show k: "Suc k div 8 + 2 < 27"
    using assms by (simp add: less_mult_imp_div_less)
  ultimately show "unat (i2b (inum_of k)) = Suc k div 8 + 2"
    unfolding i2b_def using unat_add_lt [of "inum_of k div 8" 2] by simp
  show "ioff (inum_of k) = 64 * (Suc k mod 8)"
    unfolding ioff_def unat_mod u by simp
qed

lemma rinode_ok: "img_ok (fsimg s) \<Longrightarrow> k < 199 \<Longrightarrow> rinode (inum_of k) s = Ok (dino (fsimg s) k) s"
  using inode_place [of k] by (simp add: rinode_def kern_simps rsect_ok img_ok_def dino_def)

lemma winode_ok:
  assumes ok: "img_ok (fsimg s)" and k: "k < 199" and d: "length (d_addrs d) = 13"
  shows "\<exists>t. winode (inum_of k) d s = Ok () t \<and> t = s\<lparr>fsimg := fsimg t\<rparr> \<and> img_ok (fsimg t) \<and> (\<forall>j < 199. dino (fsimg t) j = (if j = k then d else dino (fsimg s) j)) \<and>
    (\<forall>a. a < 2 \<or> 27 \<le> a \<longrightarrow> fsimg t ! a = fsimg s ! a)"
proof -
  note pk = inode_place [OF k]
  let ?a = "Suc k div 8 + 2"
  let ?e = "put_dinode (64 * (Suc k mod 8)) d (fsimg s ! ?a)"
  let ?t = "s\<lparr>fsimg := (fsimg s)[?a := ?e]\<rparr>"
  have len: "length (fsimg s) = 1024" "length (fsimg s ! ?a) = 512"
    using ok pk(2) by (simp_all add: img_ok_def)
  have off: "64 * (Suc j mod 8) + 64 \<le> 512" for j
  proof -
    have "Suc j mod 8 < 8"
      by simp
    then show ?thesis
      by linarith
  qed
  have "length ?e = 512"
    using off [of k] len d by simp
  moreover have "dino (fsimg ?t) j = (if j = k then d else dino (fsimg s) j)" if j: "j < 199" for j
  proof (cases "Suc j div 8 = Suc k div 8")
    case True
    have "j = k \<or> Suc j mod 8 \<noteq> Suc k mod 8"
      using True by (metis div_mult_mod_eq nat.inject)
    then have "j = k \<or> 64 * (Suc j mod 8) + 64 \<le> 64 * (Suc k mod 8) \<or> 64 * (Suc k mod 8) + 64 \<le> 64 * (Suc j mod 8)"
      by linarith
    then show ?thesis
      using get_put_dinode [of "64 * (Suc k mod 8)" "fsimg s ! ?a" d] get_dinode_other [of "64 * (Suc k mod 8)" "fsimg s ! ?a" "64 * (Suc j mod 8)" d]
        off [of k] off [of j] len d True pk(2) by (auto simp: dino_def inode_place [OF j] pk)
  next
    case False
    then show ?thesis
      using len by (auto simp: dino_def inode_place [OF j] pk)
  qed
  ultimately show ?thesis
    using img_ok_update [OF ok] pk(2) len by (intro exI [of _ ?t]) (auto simp: winode_def kern_simps rsect_ok wsect_ok pk)
qed

lemma files_on_low:
  assumes on: "files_on img fb D F" and J: "img_ok J" "\<And>a. 29 \<le> a \<Longrightarrow> a < 1024 \<Longrightarrow> J ! a = img ! a" and fb: "fb \<le> 994"
  shows "files_on J fb D F"
proof -
  note f = files_onD [OF on]
  have same: "J ! unat (dslot img (D ! i) k) = img ! unat (dslot img (D ! i) k)" if "i < length F" "k < 141" "dslot img (D ! i) k \<noteq> 0" for i k
    using f(6) [OF that] fb by (intro J(2)) auto
  have sl: "dslot J (D ! i) k = dslot img (D ! i) k" "dfile J (D ! i) (F ! i)" if "i < length F" "k < 141" for i k
    using dfile_other [OF f(5) [OF that(1)], of J] same [OF that(1)] that(2) by blast+
  have "29 \<le> fb"
    using f(2) by (simp add: need_def)
  then show ?thesis
    using f sl(2) [of _ 0] J by (intro files_onI) (auto simp: sl(1))
qed


text \<open>Only the addresses of the inodes matter.\<close>

lemma files_on_addrs:
  assumes on: "files_on img fb D F" and e: "map d_addrs E = map d_addrs D"
  shows "files_on img fb E F"
proof -
  note f = files_onD [OF on]
  have len: "length E = length F"
    using arg_cong [OF e, of length] f(3) by simp
  have a: "d_addrs (E ! i) = d_addrs (D ! i)" if "i < length F" for i
    using arg_cong [OF e, of "\<lambda>xs. xs ! i"] that len f(3) by simp
  have sl: "dslot img (E ! i) k = dslot img (D ! i) k" if "i < length F" for i k
    using a [OF that] by (simp add: dslot_def)
  have "dfile img (E ! i) (F ! i)" if "i < length F" for i
    using f(5) [OF that] a [OF that] sl [OF that] by (simp add: dfile_def)
  then show ?thesis
    using f len by (intro files_onI) (auto simp: sl)
qed

section \<open>The state of the program\<close>

definition new_dinode :: "ushort \<Rightarrow> dinode" where
  "new_dinode ty = \<lparr>d_type = ty, d_major = 0, d_minor = 0, d_nlink = 1, d_size = 0, d_addrs = replicate 13 0\<rparr>"

text \<open>The first inode is the root directory, the others are files.\<close>

definition dtype :: "nat \<Rightarrow> ushort" where
  "dtype k = (if k = 0 then T_DIR else T_FILE)"

definition inodes_on :: "uchar list list \<Rightarrow> dinode list \<Rightarrow> uchar list list \<Rightarrow> bool" where
  "inodes_on img D F = (length D = length F \<and> (\<forall>k < length F. dino img k = D ! k \<and> (\<exists>as. D ! k = (new_dinode (dtype k))\<lparr>d_size := of_nat (length (F ! k)), d_addrs := as\<rparr>)))"

definition mk_ok :: "mkfs_st \<Rightarrow> uchar list list \<Rightarrow> bool" where
  "mk_ok s F = (\<exists>D. files_on (fsimg s) (unat (freeblock s)) D F \<and> inodes_on (fsimg s) D F \<and> usedblocks s = freeblock s \<and> freeinode s = inum_of (length F) \<and>
     length F \<le> 199 \<and> fsimg s ! 1 = mkfs_sb)"

lemma iappend_spec:
  assumes ok: "mk_ok s F" and k: "k < length F" and p: "length (F ! k) + length p \<le> 71680" "need (F[k := F ! k @ p]) \<le> 994"
  shows "\<exists>t. iappend (inum_of k) p s = Ok () t \<and> mk_ok t (F[k := F ! k @ p])"
proof -
  obtain D where D: "files_on (fsimg s) (unat (freeblock s)) D F" "inodes_on (fsimg s) D F" "usedblocks s = freeblock s" "freeinode s = inum_of (length F)"
      "length F \<le> 199" "fsimg s ! 1 = mkfs_sb"
    using ok by (auto simp: mk_ok_def)
  have k': "k < 199"
    using k D(5) by simp
  obtain as where as: "dino (fsimg s) k = D ! k" "D ! k = (new_dinode (dtype k))\<lparr>d_size := of_nat (length (F ! k)), d_addrs := as\<rparr>"
    using D(2) k by (auto simp: inodes_on_def)
  have sz: "d_size (D ! k) = of_nat (length (F ! k))"
    using as(2) by simp
  obtain d t where t: "iappend_loop (D ! k) (of_nat (length (F ! k))) p s = Ok (d, of_nat (length (F ! k @ p))) t" "steps s t" "same_low s t"
      "files_on (fsimg t) (unat (freeblock t)) (D[k := d]) (F[k := F ! k @ p])" "\<exists>as. d = (D ! k)\<lparr>d_addrs := as\<rparr>"
    using iappend_loop_spec [OF D(1) k p] by blast
  note f = files_onD [OF t(4)]
  define e where "e = d\<lparr>d_size := of_nat (length (F ! k @ p))\<rparr>"
  let ?F = "F[k := F ! k @ p]"
  obtain bs where e: "e = (new_dinode (dtype k))\<lparr>d_size := of_nat (length (F ! k @ p)), d_addrs := bs\<rparr>" "d_addrs e = d_addrs d"
    using t(5) as(2) by (auto simp: e_def)
  have d13: "length (d_addrs d) = 13"
    using dfileD(2) [OF f(5), of k] k f(3) by simp
  obtain u where u: "winode (inum_of k) e t = Ok () u" "u = t\<lparr>fsimg := fsimg u\<rparr>" "img_ok (fsimg u)"
      "\<forall>j < 199. dino (fsimg u) j = (if j = k then e else dino (fsimg t) j)" "\<forall>a. a < 2 \<or> 27 \<le> a \<longrightarrow> fsimg u ! a = fsimg t ! a"
    using winode_ok [OF f(1) k', of e] d13 e(2) by auto
  have same: "dino (fsimg t) j = dino (fsimg s) j" if "j < 199" for j
    using t(3) inode_place [OF that] by (simp add: dino_def same_low_def)
  have fu: "freeblock u = freeblock t" "usedblocks u = usedblocks t" "freeinode u = freeinode t"
    by (subst u(2), simp)+
  have "files_on (fsimg u) (unat (freeblock u)) (D[k := d]) ?F"
    unfolding fu using files_on_low [OF t(4) u(3)] u(5) f(2) p(2) by auto
  then have "files_on (fsimg u) (unat (freeblock u)) (D[k := e]) ?F"
    by (rule files_on_addrs) (simp add: map_update e(2))
  moreover have "inodes_on (fsimg u) (D[k := e]) ?F"
    using D(2,5) u(4) same k e(1) by (auto simp: inodes_on_def nth_list_update)
  moreover have "usedblocks u = freeblock u" "freeinode u = inum_of (length ?F)" "fsimg u ! 1 = mkfs_sb"
    using t(2,3) D(3,4,6) u(5) by (auto simp: steps_def same_low_def fu)
  ultimately have "mk_ok u ?F"
    using D(5) by (auto simp: mk_ok_def)
  moreover have "iappend (inum_of k) p s = Ok () u"
    using rinode_ok [OF files_onD(1) [OF D(1)] k'] as(1) sz t(1) u(1) by (simp add: iappend_def kern_simps e_def)
  ultimately show ?thesis
    by blast
qed


lemma need_snoc: "need (F @ [bs]) = need F + nblocks_of (length bs)"
  by (simp add: need_def)

lemma nblocks_0 [simp]: "nblocks_of 0 = 0"
  by (simp add: nblocks_of_def)

lemma files_on_new:
  assumes on: "files_on img fb D F" and d: "d_addrs d = replicate 13 0"
  shows "files_on img fb (D @ [d]) (F @ [[]])"
proof -
  note f = files_onD [OF on]
  have z: "dslot img d k = 0" if "k < 141" for k
    using that d by (auto simp: dslot_def)
  have n: "(D @ [d]) ! i = (if i < length F then D ! i else d)" "(F @ [[]]) ! i = (if i < length F then F ! i else [])" if "i < length (F @ [[]])" for i
    using that f(3) by (auto simp: nth_append)
  have "dfile img d []"
    using z d by (simp add: dfile_def)
  then show ?thesis
    using f z need_snoc [of F "[]"] by (intro files_onI) (auto simp: n split: if_splits)
qed

lemma inum_of_Suc: "inum_of k + 1 = inum_of (Suc k)"
  by (simp add: inum_of_def)

lemma ialloc_spec:
  assumes ok: "mk_ok s F" and n: "length F < 199" "need F \<le> 994"
  shows "\<exists>t. mkfs_ialloc (dtype (length F)) s = Ok (inum_of (length F)) t \<and> mk_ok t (F @ [[]])"
proof -
  obtain D where D: "files_on (fsimg s) (unat (freeblock s)) D F" "inodes_on (fsimg s) D F" "usedblocks s = freeblock s" "freeinode s = inum_of (length F)"
      "fsimg s ! 1 = mkfs_sb"
    using ok by (auto simp: mk_ok_def)
  note f = files_onD [OF D(1)]
  let ?d = "new_dinode (dtype (length F))" and ?r = "s\<lparr>freeinode := inum_of (length F) + 1\<rparr>"
  have d13: "length (d_addrs ?d) = 13" "d_addrs ?d = replicate 13 0"
    by (simp_all add: new_dinode_def)
  obtain t where t: "winode (inum_of (length F)) ?d ?r = Ok () t" "t = ?r\<lparr>fsimg := fsimg t\<rparr>" "img_ok (fsimg t)"
      "\<forall>j < 199. dino (fsimg t) j = (if j = length F then ?d else dino (fsimg s) j)" "\<forall>a. a < 2 \<or> 27 \<le> a \<longrightarrow> fsimg t ! a = fsimg s ! a"
    using winode_ok [of ?r, OF _ n(1) d13(1)] f(1) by auto
  have ft: "freeblock t = freeblock s" "usedblocks t = usedblocks s" "freeinode t = inum_of (Suc (length F))"
    by (subst t(2), simp add: inum_of_Suc)+
  have "files_on (fsimg t) (unat (freeblock t)) D F"
    unfolding ft using files_on_low [OF D(1) t(3)] t(5) f(2) n(2) by auto
  then have "files_on (fsimg t) (unat (freeblock t)) (D @ [?d]) (F @ [[]])"
    using d13(2) by (rule files_on_new)
  moreover have "inodes_on (fsimg t) (D @ [?d]) (F @ [[]])"
    using D(2) t(4) n(1) by (auto simp: inodes_on_def nth_append new_dinode_def less_Suc_eq)
  ultimately have "mk_ok t (F @ [[]])"
    using D(3,5) t(5) ft n(1) by (auto simp: mk_ok_def)
  moreover have "mkfs_ialloc (dtype (length F)) s = Ok (inum_of (length F)) t"
    using t(1) D(4) by (simp add: mkfs_ialloc_def kern_simps new_dinode_def)
  ultimately show ?thesis
    by blast
qed

lemma iappend_parts:
  assumes "mk_ok s F" "k < length F" "length (F ! k) + length (concat ps) \<le> 71680" "need (F[k := F ! k @ concat ps]) \<le> 994"
  shows "\<exists>t. for_each ps (iappend (inum_of k)) s = Ok () t \<and> mk_ok t (F[k := F ! k @ concat ps])"
  using assms
proof (induction ps arbitrary: s F)
  case Nil
  then show ?case
    by (simp add: kern_simps)
next
  case (Cons p ps)
  have "need (F[k := F ! k @ p]) \<le> 994"
    using need_mono [OF Cons.prems(2), of "F ! k @ p" "F ! k @ concat (p # ps)"] Cons.prems(4) by simp
  then obtain t where t: "iappend (inum_of k) p s = Ok () t" "mk_ok t (F[k := F ! k @ p])"
    using iappend_spec [OF Cons.prems(1,2), of p] Cons.prems(3) by auto
  show ?case
    using Cons.IH [OF t(2)] Cons.prems t(1) by (simp add: kern_simps)
qed

text \<open>The root directory after some files were added.\<close>

definition root_dir :: "uchar list list \<Rightarrow> uchar list" where
  "root_dir names = mkfs_dirent (inum_of 0) [46] @ mkfs_dirent (inum_of 0) [46, 46] @
     concat (map (\<lambda>k. mkfs_dirent (inum_of (Suc k)) (names ! k)) [0..<length names])"

lemma length_dirent [simp]: "length (mkfs_dirent i n) = 16"
  by (simp add: mkfs_dirent_def put_dirent_def)

lemma root_dir_snoc: "root_dir (ns @ [n]) = root_dir ns @ mkfs_dirent (inum_of (Suc (length ns))) n"
proof -
  have "map (\<lambda>k. mkfs_dirent (inum_of (Suc k)) ((ns @ [n]) ! k)) [0..<length ns] = map (\<lambda>k. mkfs_dirent (inum_of (Suc k)) (ns ! k)) [0..<length ns]"
    by (rule map_cong) (simp_all add: nth_append)
  then show ?thesis
    by (simp add: root_dir_def del: map_eq_conv)
qed

lemma length_root_dir: "length (root_dir ns) = 16 * (length ns + 2)"
  by (simp add: root_dir_def length_concat o_def sum_list_triv)


definition arg_name :: "mkfs_arg \<Rightarrow> uchar list" where
  "arg_name a = skip_underscore (fst a)"

definition arg_bytes :: "mkfs_arg \<Rightarrow> uchar list" where
  "arg_bytes a = (case snd a of None \<Rightarrow> [] | Some parts \<Rightarrow> concat parts)"

definition arg_ok :: "mkfs_arg \<Rightarrow> bool" where
  "arg_ok a = (47 \<notin> set (fst a) \<and> snd a \<noteq> None \<and> length (arg_bytes a) \<le> MAXFILE * BSIZE)"

lemma file_spec:
  assumes ok: "mk_ok s (root_dir ns # C)" and len: "length ns = length C" "length C < 198" and a: "arg_ok a"
    and fits: "need (root_dir (ns @ [arg_name a]) # C @ [arg_bytes a]) \<le> 994"
  shows "\<exists>t. mkfs_file (inum_of 0) a s = Ok () t \<and> mk_ok t (root_dir (ns @ [arg_name a]) # C @ [arg_bytes a])"
proof -
  let ?F = "root_dir ns # C" and ?e = "mkfs_dirent (inum_of (length (root_dir ns # C))) (arg_name a)" and ?R = "root_dir (ns @ [arg_name a])"
  obtain name parts where p: "a = (name, Some parts)" "47 \<notin> set name" "arg_bytes a = concat parts" "length (concat parts) \<le> 71680"
    using a by (cases a) (auto simp: arg_ok_def arg_bytes_def)
  have R: "?R = root_dir ns @ ?e"
    using len(1) by (simp add: root_dir_snoc)
  have m: "nblocks_of (length (root_dir ns)) \<le> nblocks_of (length ?R)"
    by (intro nblocks_mono) (simp add: R)
  have "need ?F \<le> 994"
    using fits m by (simp add: need_def)
  then obtain t where t: "mkfs_ialloc T_FILE s = Ok (inum_of (length ?F)) t" "mk_ok t (?F @ [[]])"
    using ialloc_spec [OF ok] len(2) by (auto simp: dtype_def)
  have "(?F @ [[]])[0 := (?F @ [[]]) ! 0 @ ?e] = ?R # C @ [[]]" "need (?R # C @ [[]]) \<le> 994"
    using fits by (simp_all add: R need_def)
  moreover have "length (root_dir ns) + 16 \<le> 71680"
    using len by (simp add: length_root_dir)
  ultimately obtain u where u: "iappend (inum_of 0) ?e t = Ok () u" "mk_ok u (?R # C @ [[]])"
    using iappend_spec [OF t(2), of 0 ?e] by auto
  let ?k = "length ?F"
  have "(?R # C @ [[]])[?k := (?R # C @ [[]]) ! ?k @ concat parts] = ?R # C @ [arg_bytes a]" "(?R # C @ [[]]) ! ?k = []"
    by (simp_all add: p(3) list_update_append nth_append)
  then obtain v where v: "for_each parts (iappend (inum_of ?k)) u = Ok () v" "mk_ok v (?R # C @ [arg_bytes a])"
    using iappend_parts [OF u(2), of ?k parts] fits p(4) by auto
  have "mkfs_file (inum_of 0) a s = Ok () v"
    using t(1) u(1) v(1) p(1,2) by (simp add: mkfs_file_def kern_simps arg_name_def)
  with v(2) show ?thesis
    by blast
qed

lemma need_prefix: "length r \<le> length r' \<Longrightarrow> need (r # C) \<le> need (r' # C @ C')"
  using nblocks_mono [of "length r" "length r'"] by (simp add: need_def)

lemma files_spec:
  assumes "mk_ok s (root_dir ns # C)" "length ns = length C" "length C + length as \<le> 198" "\<forall>a \<in> set as. arg_ok a"
    and "need (root_dir (ns @ map arg_name as) # C @ map arg_bytes as) \<le> 994"
  shows "\<exists>t. for_each as (mkfs_file (inum_of 0)) s = Ok () t \<and> mk_ok t (root_dir (ns @ map arg_name as) # C @ map arg_bytes as)"
  using assms
proof (induction as arbitrary: s ns C)
  case Nil
  then show ?case
    by (simp add: kern_simps)
next
  case (Cons a as)
  have "need (root_dir (ns @ [arg_name a]) # C @ [arg_bytes a]) \<le> need (root_dir (ns @ map arg_name (a # as)) # (C @ [arg_bytes a]) @ map arg_bytes as)"
    by (rule need_prefix) (simp add: length_root_dir)
  then have "need (root_dir (ns @ [arg_name a]) # C @ [arg_bytes a]) \<le> 994"
    using Cons.prems(5) by simp
  then obtain t where t: "mkfs_file (inum_of 0) a s = Ok () t" "mk_ok t (root_dir (ns @ [arg_name a]) # C @ [arg_bytes a])"
    using file_spec [OF Cons.prems(1,2), of a] Cons.prems(3,4) by auto
  show ?case
    using Cons.IH [OF t(2)] Cons.prems t(1) by (simp add: kern_simps)
qed

text \<open>The image before the first inode.\<close>

lemma zero_image:
  assumes "fsimg s = []" "n \<le> 1024"
  shows "for_each [0..<n] (\<lambda>i. wsect (of_nat i) zeroes) s = Ok () (s\<lparr>fsimg := replicate n zeroes\<rparr>)"
  using assms(2)
proof (induction n)
  case 0
  then show ?case
    using assms(1) by (simp add: kern_simps)
next
  case (Suc n)
  have "unat (of_nat n :: uint32) = n"
    using Suc.prems by (intro unat_of_nat_lt) simp
  then show ?case
    using Suc by (simp add: for_each_append kern_simps wsect_def replicate_append_same)
qed

lemma mk_ok_start:
  assumes "fsimg s = (replicate 1024 zeroes)[1 := mkfs_sb]" "freeblock s = 29" "usedblocks s = 29" "freeinode s = 1"
  shows "mk_ok s []"
proof -
  have "length mkfs_sb = 512"
    by (simp add: mkfs_sb_def)
  then have "files_on (fsimg s) (unat (freeblock s)) [] []"
    using assms(1,2) by (intro files_onI) (auto simp: img_ok_def need_def nth_list_update zeroes_def)
  moreover have "fsimg s ! 1 = mkfs_sb"
    by (simp add: assms(1))
  ultimately show ?thesis
    using assms by (auto simp: mk_ok_def inodes_on_def inum_of_def)
qed


section \<open>The finished image\<close>

text \<open>The size of the root directory is rounded up, over the zeros at the end of its last block.\<close>

definition root_pad :: "uchar list \<Rightarrow> uchar list" where
  "root_pad r = r @ replicate ((length r div BSIZE + 1) * BSIZE - length r) 0"

lemma root_pad_len: "length (root_pad r) = (length r div 512 + 1) * 512" "length (root_pad r) \<ge> length r"
proof -
  have "length r \<le> (length r div 512 + 1) * 512"
    using div_mult_mod_eq [of "length r" 512] mod_less_divisor [of 512 "length r"] by (simp only: distrib_right)
  then show "length (root_pad r) = (length r div 512 + 1) * 512" "length (root_pad r) \<ge> length r"
    by (simp_all add: root_pad_def)
qed

lemma root_pad_blocks:
  assumes "length r mod 512 \<noteq> 0"
  shows "512 * b < length (root_pad r) \<longleftrightarrow> 512 * b < length r" "pblock (root_pad r) b = pblock r b" "nblocks_of (length (root_pad r)) = nblocks_of (length r)"
    "6144 < length (root_pad r) \<longleftrightarrow> 6144 < length r"
proof -
  define q m where "q = length r div 512" and "m = length r mod 512"
  have r: "length r = 512 * q + m" "0 < m" "m < 512" "length (root_pad r) = 512 * q + 512"
    using assms root_pad_len(1) [of r] by (simp_all add: q_def m_def)
  show "512 * b < length (root_pad r) \<longleftrightarrow> 512 * b < length r"
    unfolding r(1,4) using r(2,3) by (cases b q rule: linorder_cases) auto
  show i: "6144 < length (root_pad r) \<longleftrightarrow> 6144 < length r"
    unfolding r(1,4) using r(2,3) by (cases "12 \<le> q") auto
  have "(512 * q + 512 + 511) div 512 = q + 1" "(512 * q + m + 511) div 512 = q + 1"
    using r(2,3) by (intro div_nat_eqI; simp)+
  then show "nblocks_of (length (root_pad r)) = nblocks_of (length r)"
    using i by (simp add: nblocks_of_def r(1,4))
  have z: "take 512 (xs @ replicate n 0 @ replicate 512 0) = take 512 (xs @ replicate 512 (0 :: uchar))" for xs n
    by (simp add: replicate_add [symmetric] min_def)
  have "drop (512 * b) (root_pad r) = drop (512 * b) r @ replicate ((length r div 512 + 1) * 512 - length r - (512 * b - length r)) 0"
    by (simp add: root_pad_def)
  then show "pblock (root_pad r) b = pblock r b"
    by (simp only: pblock_def append_assoc z)
qed

lemma dfile_pad: "dfile img d r \<Longrightarrow> length r mod 512 \<noteq> 0 \<Longrightarrow> length r \<le> 71000 \<Longrightarrow> dfile img d (root_pad r)"
  using root_pad_blocks [of r] by (auto simp: dfile_def root_pad_len(1))

text \<open>The bitmap.\<close>

lemma bitmap_bits:
  assumes "n \<le> 4096"
  shows "length (foldl (\<lambda>buf i. bm_set i buf) (replicate 512 0) [0..<n]) = 512 \<and>
    (\<forall>b < 4096. bm_bit (foldl (\<lambda>buf i. bm_set i buf) (replicate 512 0) [0..<n]) b \<longleftrightarrow> b < n)"
  using assms
proof (induction n)
  case 0
  then show ?case
    by (simp add: bm_bit_iff less_mult_imp_div_less)
next
  case (Suc n)
  have "n div 8 < 512"
    using Suc.prems by (simp add: less_mult_imp_div_less)
  then show ?case
    using Suc bm_set_bit by (auto simp: less_Suc_eq)
qed

text \<open>
  The image holds the files \<open>F\<close>, the root directory first; the bitmap shows exactly the blocks before the first free one as used.
\<close>

definition fs_image :: "uchar list list \<Rightarrow> uchar list list \<Rightarrow> bool" where
  "fs_image img F = (\<exists>D. files_on img (need F) D F \<and> inodes_on img D F \<and> img ! 1 = mkfs_sb \<and> (\<forall>b < 4096. bm_bit (img ! 28) b \<longleftrightarrow> b < need F))"

definition image_files :: "mkfs_arg list \<Rightarrow> uchar list list" where
  "image_files args = root_pad (root_dir (map arg_name args)) # map arg_bytes args"

text \<open>What mkfs does not check: the number of inodes, the room before the log, and that the root directory does not end with its last block.\<close>

definition mkfs_fits :: "mkfs_arg list \<Rightarrow> bool" where
  "mkfs_fits args = (length args \<le> 198 \<and> (length args + 2) mod 32 \<noteq> 0 \<and> (\<forall>a \<in> set args. arg_ok a) \<and> need (image_files args) \<le> 994)"


lemma files_on_pad:
  assumes on: "files_on img fb D (r # C)" and r: "length r mod 512 \<noteq> 0" "length r \<le> 71000"
  shows "files_on img fb D (root_pad r # C)"
proof -
  note f = files_onD [OF on]
  have "need (root_pad r # C) = need (r # C)"
    using root_pad_blocks(3) [OF r(1)] by (simp add: need_def)
  moreover have "dfile img (D ! i) ((root_pad r # C) ! i)" if "i < length (r # C)" for i
    using f(5) [OF that] dfile_pad [OF _ r] by (cases i) auto
  ultimately show ?thesis
    using f by (intro files_onI) auto
qed

lemma finish_spec:
  assumes ok: "mk_ok s (r # C)" and r: "length r mod 512 \<noteq> 0" "length r \<le> 71000" and fits: "need (r # C) \<le> 994"
  shows "\<exists>t. bnd (rinode (inum_of 0)) (\<lambda>din. thn (winode (inum_of 0) (din\<lparr>d_size := (d_size din div 512 + 1) * 512\<rparr>)) (
      bnd (rd usedblocks) (\<lambda>used. mkfs_balloc (sint used)))) s = Ok () t \<and> fs_image (fsimg t) (root_pad r # C)"
proof -
  obtain D where D: "files_on (fsimg s) (unat (freeblock s)) D (r # C)" "inodes_on (fsimg s) D (r # C)" "usedblocks s = freeblock s"
      "length C < 199" "fsimg s ! 1 = mkfs_sb"
    using ok by (auto simp: mk_ok_def)
  note f = files_onD [OF D(1)]
  obtain as where as: "dino (fsimg s) 0 = D ! 0" "D ! 0 = (new_dinode (dtype 0))\<lparr>d_size := of_nat (length r), d_addrs := as\<rparr>"
    using D(2) by (auto simp: inodes_on_def)
  define e where "e = (D ! 0)\<lparr>d_size := (d_size (D ! 0) div 512 + 1) * 512\<rparr>"
  have "unat (of_nat (length r) :: uint32) = length r" "length r div 512 < 139"
    using r(2) by (auto intro!: unat_of_nat_lt simp: less_mult_imp_div_less)
  then have "(of_nat (length r) div 512 :: uint32) = of_nat (length r div 512)"
    by (simp add: word_unat_eq_iff unat_div unat_of_nat_lt)
  then have "d_size e = of_nat (length (root_pad r))"
    using as(2) by (simp add: e_def root_pad_len(1))
  then have e: "e = (new_dinode (dtype 0))\<lparr>d_size := of_nat (length (root_pad r)), d_addrs := as\<rparr>" "d_addrs e = d_addrs (D ! 0)" "length (d_addrs e) = 13"
    using as(2) dfileD(2) [OF f(5), of 0] by (auto simp: e_def)
  obtain t where t: "winode (inum_of 0) e s = Ok () t" "t = s\<lparr>fsimg := fsimg t\<rparr>" "img_ok (fsimg t)"
      "\<forall>j < 199. dino (fsimg t) j = (if j = 0 then e else dino (fsimg s) j)" "\<forall>a. a < 2 \<or> 27 \<le> a \<longrightarrow> fsimg t ! a = fsimg s ! a"
    using winode_ok [OF f(1) _ e(3), of 0] by auto
  let ?bm = "foldl (\<lambda>buf i. bm_set i buf) (replicate 512 0) [0..<need (r # C)]"
  let ?u = "t\<lparr>fsimg := (fsimg t)[28 := ?bm]\<rparr>"
  have bm: "length ?bm = 512" "\<forall>b < 4096. bm_bit ?bm b \<longleftrightarrow> b < need (r # C)"
    using bitmap_bits [of "need (r # C)"] fits by simp_all
  have "usedblocks t = freeblock s"
    by (subst t(2), simp add: D(3))
  then have us: "sint (usedblocks t) = int (need (r # C))"
    using f(2) fits by (simp add: sint_unat)
  have img: "img_ok (fsimg ?u)" "length (fsimg t) = 1024"
    using img_ok_update [OF t(3) bm(1)] t(3) by (simp_all add: img_ok_def)
  have "files_on (fsimg ?u) (need (r # C)) D (r # C)"
    using files_on_low [OF D(1) img(1)] t(5) f(2) fits by auto
  then have "files_on (fsimg ?u) (need (r # C)) (D[0 := e]) (r # C)"
    by (rule files_on_addrs) (use e(2) f(3) in \<open>cases D, simp_all\<close>)
  then have fu: "files_on (fsimg ?u) (need (r # C)) (D[0 := e]) (root_pad r # C)"
    using files_on_pad [OF _ r] by blast
  note nd = files_onD(2) [OF fu]
  have dn: "dino (fsimg ?u) j = dino (fsimg t) j" if "j < 199" for j
    using inode_place [OF that] by (simp add: dino_def)
  have "dino (fsimg ?u) k = D[0 := e] ! k \<and> (\<exists>as. D[0 := e] ! k = (new_dinode (dtype k))\<lparr>d_size := of_nat (length ((root_pad r # C) ! k)), d_addrs := as\<rparr>)"
    if k: "k < length (root_pad r # C)" for k
  proof -
    have "dino (fsimg s) k = D ! k \<and> (\<exists>as. D ! k = (new_dinode (dtype k))\<lparr>d_size := of_nat (length ((r # C) ! k)), d_addrs := as\<rparr>)"
      using k D(2) by (simp add: inodes_on_def)
    then show ?thesis
      using k D(4) t(4) dn [of k] e(1) f(3) by (cases k) auto
  qed
  then have "inodes_on (fsimg ?u) (D[0 := e]) (root_pad r # C)"
    using f(3) by (simp add: inodes_on_def)
  then have "fs_image (fsimg ?u) (root_pad r # C)"
    using fu bm img(2) t(5) D(5) nd unfolding fs_image_def by (intro exI [of _ "D[0 := e]"]) simp
  moreover have "mkfs_balloc (sint (usedblocks t)) t = Ok () ?u"
    using fits img(2) unfolding us by (simp add: mkfs_balloc_def mkfs_ninodes_def wsect_ok)
  ultimately show ?thesis
    using t(1) rinode_ok [OF f(1), of 0] as(1) by (intro exI [of _ ?u]) (simp add: kern_simps e_def)
qed


lemma mkfs_image:
  assumes "mkfs_fits args"
  shows "\<exists>t. mkfs_main args mkfs_init = Ok () t \<and> fs_image (fsimg t) (image_files args)"
proof -
  let ?R = "root_dir (map arg_name args)" and ?C = "map arg_bytes args"
  have fit: "length args \<le> 198" "(length args + 2) mod 32 \<noteq> 0" "\<forall>a \<in> set args. arg_ok a" "need (root_pad ?R # ?C) \<le> 994"
    using assms by (simp_all add: mkfs_fits_def image_files_def)
  have "length ?R mod 512 = 16 * ((length args + 2) mod 32)"
    unfolding length_root_dir length_map using mult_mod_right [of 16 "length args + 2" 32] by simp
  then have R: "length ?R mod 512 \<noteq> 0" "length ?R \<le> 71000"
    using fit(1,2) by (simp_all add: length_root_dir)
  have fits: "need (?R # ?C) \<le> 994"
    using fit(4) root_pad_blocks(3) [OF R(1)] by (simp add: need_def)
  let ?a = "mkfs_init\<lparr>usedblocks := 29, freeblock := 29, fsimg := (replicate 1024 zeroes)[1 := mkfs_sb]\<rparr>"
  have "mk_ok ?a []"
    by (intro mk_ok_start) (simp_all add: mkfs_init_def)
  then obtain b where b: "mkfs_ialloc T_DIR ?a = Ok (inum_of 0) b" "mk_ok b [[]]"
    using ialloc_spec [of ?a "[]"] by (auto simp: dtype_def need_def)
  have small: "need [r] \<le> 994" if "length r \<le> 512" for r
    using that by (simp add: need_def nblocks_of_def)
  obtain c where c: "iappend (inum_of 0) (mkfs_dirent (inum_of 0) [46]) b = Ok () c" "mk_ok c [mkfs_dirent (inum_of 0) [46]]"
    using iappend_spec [OF b(2), of 0 "mkfs_dirent (inum_of 0) [46]"] small by auto
  obtain d where d: "iappend (inum_of 0) (mkfs_dirent (inum_of 0) [46, 46]) c = Ok () d" "mk_ok d [root_dir []]"
    using iappend_spec [OF c(2), of 0 "mkfs_dirent (inum_of 0) [46, 46]"] small by (auto simp: root_dir_def)
  obtain e where e: "for_each args (mkfs_file (inum_of 0)) d = Ok () e" "mk_ok e (?R # ?C)"
    using files_spec [of d "[]" "[]" args] d(2) fit(1,3) fits by auto
  obtain t where t: "bnd (rinode (inum_of 0)) (\<lambda>din. thn (winode (inum_of 0) (din\<lparr>d_size := (d_size din div 512 + 1) * 512\<rparr>)) (
      bnd (rd usedblocks) (\<lambda>used. mkfs_balloc (sint used)))) e = Ok () t" "fs_image (fsimg t) (root_pad ?R # ?C)"
    using finish_spec [OF e(2) R fits] by blast
  have i: "inum_of 0 = 1"
    by (simp add: inum_of_def)
  let ?b = "mkfs_init\<lparr>usedblocks := 29, freeblock := 29\<rparr>"
  have z: "for_each [0..<1024] (\<lambda>i. wsect (of_nat i) zeroes) ?b = Ok () (?b\<lparr>fsimg := replicate 1024 zeroes\<rparr>)"
    by (rule zero_image) (simp_all add: mkfs_init_def)
  have "mkfs_main args mkfs_init = Ok () t"
    using z b(1) c(1) d(1) e(1) t(1) unfolding i
    by (simp add: mkfs_main_def Let_def mkfs_size_def mkfs_nblocks_def mkfs_ninodes_def mkfs_nlog_def bnd_Ok thn_Ok wsect_ok)
  then show ?thesis
    using t(2) by (auto simp: image_files_def)
qed

end
