(* ===== verification/Mount.thy ===== *)
theory Mount
  imports Mkfs
begin

text \<open>
  The kernel on an image that mkfs has made: what the two programs have to agree on is the layout of the super block, the bitmap, the inodes, the
  addresses of blocks and the entries of directories.
\<close>

section \<open>The blocks of the image\<close>

definition on_image :: "'z log_st_scheme \<Rightarrow> uchar list list \<Rightarrow> bool" where
  "on_image s img = (settled s \<and> busy s = {} \<and> log_start s = 994 \<and> (\<forall>b < 1024. blk s (of_nat b) = img ! b))"

lemma on_imageD:
  assumes "on_image s img"
  shows "settled s" "busy s = {}" "log_start s = 994" "b < 1024 \<Longrightarrow> blk s (of_nat b) = img ! b" "unat a < 1024 \<Longrightarrow> blk s a = img ! unat a"
proof -
  show "settled s" "busy s = {}" "log_start s = 994" "b < 1024 \<Longrightarrow> blk s (of_nat b) = img ! b"
    using assms by (simp_all add: on_image_def)
  show "blk s a = img ! unat a" if "unat a < 1024"
  proof -
    have "blk s (of_nat (unat a)) = img ! unat a"
      using assms that unfolding on_image_def by blast
    then show ?thesis
      by simp
  qed
qed

lemma mkfs_sb_fields: "sb_size (decode_sb mkfs_sb) = 1024" "sb_ninodes (decode_sb mkfs_sb) = 200" "sb_nlog (decode_sb mkfs_sb) = 30"
  by (simp_all add: mkfs_sb_def decode_sb_def slice_def mkfs_size_def mkfs_nblocks_def mkfs_ninodes_def mkfs_nlog_def)

lemma image_views:
  assumes img: "fs_image img F" and on: "on_image s img"
  shows "nblk s = 1024" "b < 1024 \<Longrightarrow> bblock s b = 28" "b < 1024 \<Longrightarrow> in_use s b \<longleftrightarrow> b < need F" "bm_ok s" "need F \<le> 994 \<Longrightarrow> free_blocks s = {need F..<994}"
proof -
  note o = on_imageD [OF on]
  obtain D where D: "img ! 1 = mkfs_sb" "\<forall>b < 4096. bm_bit (img ! 28) b \<longleftrightarrow> b < need F"
    using img by (auto simp: fs_image_def)
  have sb: "sblk s = decode_sb mkfs_sb"
    using o(5) [of 1] D(1) by (simp add: sblk_def)
  show n: "nblk s = 1024"
    by (simp add: sb mkfs_sb_fields)
  show bb: "bblock s b = 28" if "b < 1024" for b
    using that bblock_div [of b 0 s] by (simp add: bblock_def BBLOCK_def sb mkfs_sb_fields)
  show u: "in_use s b \<longleftrightarrow> b < need F" if "b < 1024" for b
    using D(2) o(5) [of 28] that by (simp add: in_use_def bb [OF that])
  have nd: "29 \<le> need F"
    by (simp add: need_def)
  have un: "unat (of_nat b :: uint32) = b" if "b < 1024" for b
    using that by (intro unat_of_nat_lt) simp
  have "of_nat b \<noteq> (1 :: uint32) \<and> of_nat b \<noteq> (28 :: uint32)" if "b < 1024" "\<not> in_use s b" for b
    using that u [OF that(1)] nd un [OF that(1)] by auto
  then show "bm_ok s"
    using o n bb by (auto simp: bm_ok_def)
  show "free_blocks s = {need F..<994}" if "need F \<le> 994"
    using u un by (auto simp: free_blocks_def n o(3) word_less_nat_alt)
qed

text \<open>An inode of the image in the inode table of the kernel.\<close>

definition loaded :: "'z fs_st_scheme \<Rightarrow> nat \<Rightarrow> uchar list list \<Rightarrow> nat \<Rightarrow> bool" where
  "loaded s ip img k = (i_dev (icache s ip) = 1 \<and> i_inum (icache s ip) = inum_of k \<and> dinode_of (icache s ip) = dino img k)"

lemma IBLOCK_i2b: "IBLOCK i = i2b i"
  by (simp add: IBLOCK_def i2b_def)

lemma loaded_slots:
  assumes img: "fs_image img F" "files_on img (need F) D F" "inodes_on img D F" and k: "k < length F" "k < 199" "need F \<le> 994"
    and on: "on_image s img" and l: "loaded s ip img k"
  shows "j < 141 \<Longrightarrow> fslot s ip j = dslot img (D ! k) j" "j < 140 \<Longrightarrow> fblock s ip j = dslot img (D ! k) j"
    "i_type (icache s ip) = dtype k" "i_size (icache s ip) = of_nat (length (F ! k))" "length (i_addrs (icache s ip)) = 13" "i_nlink (icache s ip) = 1"
    "unat (fslot s ip 141) = Suc k div 8 + 2"
proof -
  note o = on_imageD [OF on] and f = files_onD [OF img(2)]
  obtain as where as: "dinode_of (icache s ip) = (new_dinode (dtype k))\<lparr>d_size := of_nat (length (F ! k)), d_addrs := as\<rparr>" "D ! k = dinode_of (icache s ip)"
    using img(3) k(1) l by (auto simp: inodes_on_def loaded_def)
  have i: "i_addrs (icache s ip) = d_addrs (D ! k)"
    unfolding as(2) by (simp add: dinode_of_def)
  show "i_type (icache s ip) = dtype k" "i_size (icache s ip) = of_nat (length (F ! k))" "i_nlink (icache s ip) = 1"
    using as(1) by (simp_all add: dinode_of_def new_dinode_def)
  show "length (i_addrs (icache s ip)) = 13"
    using dfileD(2) [OF f(5) [OF k(1)]] i by simp
  have "unat (d_addrs (D ! k) ! 12) < 1024"
    using f(6) [OF k(1), of 140] k(3) by (cases "d_addrs (D ! k) ! 12 = 0") (auto simp: dslot_def)
  then have b: "fblock s ip j = dslot img (D ! k) j" if "j < 140" for j
    using that o(5) by (simp add: fblock_def dslot_def i Let_def)
  then show "j < 140 \<Longrightarrow> fblock s ip j = dslot img (D ! k) j" .
  show "fslot s ip j = dslot img (D ! k) j" if "j < 141"
    using that b [of j] i by (cases "j < 140") (auto simp: fslot_def dslot_def)
  show "unat (fslot s ip 141) = Suc k div 8 + 2"
    using l inode_place [OF k(2)] by (simp add: fslot_def loaded_def IBLOCK_i2b)
qed

lemma pblock_nth: "j < length c \<Longrightarrow> pblock c (j div 512) ! (j mod 512) = c ! j"
proof -
  assume j: "j < length c"
  have "512 * (j div 512) + j mod 512 = j"
    by simp
  then have "j mod 512 < length c - 512 * (j div 512)"
    using j by linarith
  then show ?thesis
    by (simp add: pblock_def nth_append)
qed

lemma image_owned:
  assumes img: "fs_image img F" and F: "need F \<le> 994" and on: "on_image s img" and a: "2 \<le> unat a" "unat a < need F" "unat a \<noteq> 28"
  shows "owned s a"
proof -
  have "unat a < 1024"
    using a(2) F by simp
  moreover have "a \<noteq> 0" "a \<noteq> 1" "a \<noteq> 28" "a < 994"
    using a F by (auto simp: word_less_nat_alt)
  ultimately show ?thesis
    using a(2) image_views(1-3) [OF img on] on_imageD(2,3) [OF on] by (auto simp: owned_def)
qed

lemma image_file:
  assumes img: "fs_image img F" and k: "k < length F" "k < 199" "need F \<le> 994" and on: "on_image s img" and l: "loaded s ip img k"
  shows "file_ok s ip" "file_bytes s ip = F ! k"
proof -
  obtain D where D: "files_on img (need F) D F" "inodes_on img D F"
    using img by (auto simp: fs_image_def)
  note o = on_imageD [OF on] and f = files_onD [OF D(1)] and v = image_views [OF img on] and sl = loaded_slots [OF img D k on l]
  note df = dfileD [OF files_onD(5) [OF D(1) k(1)]]
  note own = image_owned [OF img k(3) on]
  have nd: "29 \<le> need F" and ib: "Suc k div 8 + 2 < 27"
    using inode_place(2) [OF k(2)] by (simp_all add: need_def)
  have slot: "29 \<le> unat (fslot s ip j) \<and> unat (fslot s ip j) < need F" if "j < 141" "fslot s ip j \<noteq> 0" for j
    using that sl(1) [OF that(1)] f(6) [OF k(1) that(1)] by simp
  have j142: "j < 141 \<or> j = 141" if "j < 142" for j :: nat
    using that by linarith
  have o1: "owned s (fslot s ip j)" if "j < 142" "fslot s ip j \<noteq> 0" for j
    using j142 [OF that(1)] slot [OF _ that(2)] sl(7) ib nd by (intro own) auto
  have inj: "i = j" if "i < 142" "j < 142" "fslot s ip i = fslot s ip j" "fslot s ip i \<noteq> 0" for i j
  proof -
    have "i = 141 \<longleftrightarrow> j = 141"
      using j142 [OF that(1)] j142 [OF that(2)] slot [of i] slot [of j] sl(7) ib that(3,4) by fastforce
    then show ?thesis
      using j142 [OF that(1)] j142 [OF that(2)] sl(1) [of i] sl(1) [of j] f(7) [OF k(1,1), of i j] that(3,4) by metis
  qed
  have len: "unat (i_size (icache s ip)) = length (F ! k)"
    unfolding sl(4) using df(1) by (intro unat_of_nat_lt) simp
  have blk: "fblock s ip b \<noteq> 0 \<and> blk s (fblock s ip b) = pblock (F ! k) b" if "512 * b < length (F ! k)" for b
  proof -
    have b: "b < 140"
      using that df(1) by simp
    have "unat (fblock s ip b) < 1024"
      using f(6) [OF k(1), of b] sl(2) [OF b] b k(3) by (cases "fblock s ip b = 0") auto
    then show ?thesis
      using df(3) [OF b that] sl(2) [OF b] o(5) by simp
  qed
  show "file_ok s ip"
    using v(3) [of 0] v(4) nd l sl(3,5,7) o1 inj len df(1) blk by (intro file_okI) (auto simp: loaded_def dtype_def)
  have "fbyte s ip j = (F ! k) ! j" if "j < length (F ! k)" for j
  proof -
    have "512 * (j div 512) < length (F ! k)"
      using that by (meson le_less_trans times_div_less_eq_dividend)
    moreover have "pblock (F ! k) (j div 512) ! (j mod 512) = (F ! k) ! j"
      by (rule pblock_nth [OF that])
    ultimately show ?thesis
      using blk by (simp add: fbyte_def)
  qed
  then show "file_bytes s ip = F ! k"
    by (intro nth_equalityI) (simp_all add: file_bytes_def len)
qed


section \<open>Finding and loading an inode\<close>

lemma on_image_inode [simp]: "on_image (upd_inode ip f s) img = on_image s img" "on_image (wake ch s) img = on_image s img"
  using settled_fs(2) [of ch s, unfolded wake_def] by (simp_all add: on_image_def wake_def)

lemma iget_fresh:
  assumes "calm s" "n < 50" "i_ref (icache s n) = 0" "\<forall>jp < n. i_ref (icache s jp) \<noteq> 0" "\<forall>jp < 50. \<not> cached s dev inum jp"
  shows "iget dev inum s = Ok n (upd_inode n (\<lambda>i. i\<lparr>i_dev := dev, i_inum := inum, i_ref := 1, i_flags := 0\<rparr>) s)"
proof -
  have "find (cached s dev inum) [0..<50] = None" "find (\<lambda>ip. i_ref (icache s ip) = 0) [0..<50] = Some n"
    using assms(2-5) by (auto simp: find_None_iff find_upt simp del: upt_rec)
  then show ?thesis
    using assms(1) by (simp add: iget_eq del: upt_rec)
qed

lemma ilock_image:
  assumes img: "fs_image img F" and k: "k < length F" "k < 199" and on: "on_image s img"
    and i: "i_dev (icache s ip) = 1" "i_inum (icache s ip) = inum_of k" "i_flags (icache s ip) = 0" "1 \<le> i_ref (icache s ip)"
  shows "\<exists>t. ilock ip s = Ok () t \<and> on_image t img \<and> loaded t ip img k \<and> icache t = (icache s)(ip := (load_dinode (dino img k) (icache s ip))\<lparr>i_flags := 3\<rparr>)"
proof -
  let ?u = "upd_inode ip (\<lambda>i. i\<lparr>i_flags := i_flags i OR I_BUSY\<rparr>) s"
  note o = on_imageD [OF on] and pl = inode_place [OF k(2)]
  have "unat (IBLOCK (inum_of k)) < 1024" "IBLOCK (inum_of k) < log_start s"
    using pl by (simp_all add: IBLOCK_i2b o(3) word_less_nat_alt)
  then have b: "iblock_ok ?u (inum_of k)" "dinode_at ?u (inum_of k) = dino img k"
    using o by (simp_all add: iblock_ok_def dinode_at_def dino_def IBLOCK_i2b)
  obtain as where "dino img k = (new_dinode (dtype k))\<lparr>d_size := of_nat (length (F ! k)), d_addrs := as\<rparr>"
    using img k(1) by (auto simp: fs_image_def inodes_on_def)
  then have ty: "d_type (dino img k) \<noteq> 0"
    by (simp add: new_dinode_def dtype_def)
  obtain t where t: "ilock_load ip ?u = Ok () t" "fs_frame ?u t" "settled t" "blk t = blk s" "busy t = busy s"
      "icache t = (icache ?u)(ip := (load_dinode (dino img k) (icache ?u ip))\<lparr>i_flags := i_flags (icache ?u ip) OR I_VALID\<rparr>)"
    using ilock_load_spec [of ?u ip] b ty i by auto
  have "on_image t img"
    using on t(3-5) fs_frame_fields [OF t(2)] by (simp add: on_image_def)
  moreover have it: "icache t = (icache s)(ip := (load_dinode (dino img k) (icache s ip))\<lparr>i_flags := 3\<rparr>)"
    using t(6) i(3) by (simp add: load_dinode_def)
  moreover have "loaded t ip img k"
    using i(1,2) by (simp add: loaded_def it load_dinode_def dinode_of_def)
  moreover have "ilock ip s = Ok () t"
    using ilock_free [OF settled_calm [OF o(1)]] i(3,4) t(1) by simp
  ultimately show ?thesis
    by blast
qed

section \<open>The root directory\<close>

lemma slice_concat:
  assumes "\<forall>x \<in> set xs. length x = n" "k < length xs"
  shows "slice (n * k) n (concat xs @ ys) = xs ! k"
  using assms
proof (induction xs arbitrary: k)
  case (Cons x xs)
  then show ?case
    by (cases k) (auto simp: slice_def)
qed simp

definition root_names :: "mkfs_arg list \<Rightarrow> uchar list list" where
  "root_names args = [46] # [46, 46] # map arg_name args"

definition root_inum :: "nat \<Rightarrow> uint32" where
  "root_inum j = inum_of (j - 1)"

lemma root_dir_concat:
  "root_dir (map arg_name args) = concat (map (\<lambda>j. mkfs_dirent (root_inum j) (root_names args ! j)) [0..<length args + 2])"
proof -
  have "[0..<length args + 2] = 0 # 1 # map (\<lambda>k. k + 2) [0..<length args]"
    by (intro nth_equalityI) (auto simp: nth_Cons simp del: upt_Suc split: nat.split)
  then show ?thesis
    by (simp add: root_dir_def root_names_def root_inum_def o_def)
qed

lemma root_entry:
  assumes "file_bytes s dp = root_pad (root_dir (map arg_name args))" "j < length args + 2"
  shows "dentry s dp j = \<lparr>de_inum = ucast (root_inum j), de_name = strncpy_list DIRSIZ (root_names args ! j)\<rparr>"
proof -
  let ?es = "map (\<lambda>j. mkfs_dirent (root_inum j) (root_names args ! j)) [0..<length args + 2]"
  have "slice (16 * j) 16 (file_bytes s dp) = ?es ! j"
    unfolding assms(1) root_pad_def root_dir_concat using assms(2) by (intro slice_concat) auto
  also have "\<dots> = mkfs_dirent (root_inum j) (root_names args ! j)"
    using assms(2) by (simp del: upt_Suc)
  finally show ?thesis
    using get_put_dirent by (simp add: dentry_def mkfs_dirent_def)
qed


text \<open>The name is not that of an earlier entry.\<close>

definition first_named :: "mkfs_arg list \<Rightarrow> nat \<Rightarrow> bool" where
  "first_named args k = (arg_name (args ! k) \<noteq> [] \<and>
     (\<forall>j < k + 2. dname (root_names args ! j) \<noteq> dname (arg_name (args ! k))))"

lemma dname_take: "dname (take 14 n) = dname n"
  by (simp add: dname_def)

lemma inum_of_unat: "k < 1000 \<Longrightarrow> unat (inum_of k) = Suc k"
  unfolding inum_of_def by (intro unat_of_nat_lt) simp

lemma inum_of_ucast:
  assumes "k < 1000"
  shows "ucast (ucast (inum_of k) :: ushort) = inum_of k" "ucast (inum_of k) \<noteq> (0 :: ushort)"
proof -
  note u = inum_of_unat [OF assms]
  then have "unat (ucast (inum_of k) :: ushort) = Suc k"
    using assms by (simp add: unsigned_ucast_eq unsigned_take_bit_eq take_bit_nat_eq_self)
  then show "ucast (ucast (inum_of k) :: ushort) = inum_of k" "ucast (inum_of k) \<noteq> (0 :: ushort)"
    using u assms by (auto simp: word_unat_eq_iff unsigned_ucast_eq unsigned_take_bit_eq take_bit_nat_eq_self)
qed

lemma root_lookup:
  assumes img: "fs_image img (image_files args)" "length args \<le> 198" "need (image_files args) \<le> 994"
    and on: "on_image s img" and l: "loaded s dp img 0" and k: "k < length args" "first_named args k"
  shows "\<exists>t. looks s t \<and> dirlookup devsw dp (take 14 (arg_name (args ! k))) s =
    bnd (iget 1 (inum_of (Suc k))) (\<lambda>ip. ret (Some (ip, of_nat (16 * (k + 2))))) t"
proof -
  let ?F = "image_files args" and ?n = "take 14 (arg_name (args ! k))"
  have F0: "0 < length ?F" "?F ! 0 = root_pad (root_dir (map arg_name args))"
    by (simp_all add: image_files_def)
  have f: "file_ok s dp" "file_bytes s dp = root_pad (root_dir (map arg_name args))"
    using image_file [OF img(1) F0(1) _ img(3) on l] F0(2) by simp_all
  obtain D where D: "files_on img (need ?F) D ?F" "inodes_on img D ?F"
    using img(1) by (auto simp: fs_image_def)
  note sl = loaded_slots [OF img(1) D F0(1) _ img(3) on l]
  have "length (root_pad (root_dir (map arg_name args))) = unat (i_size (icache s dp))"
    using arg_cong [OF f(2), of length] by (simp add: file_bytes_def)
  then have "unat (i_size (icache s dp)) = (length (root_dir (map arg_name args)) div 512 + 1) * 512" and le: "16 * (length args + 2) \<le> unat (i_size (icache s dp))"
    using root_pad_len [of "root_dir (map arg_name args)"] by (simp_all add: length_root_dir)
  then have "16 dvd unat (i_size (icache s dp))"
    by (simp only: dvd_mult) simp
  then have sz: "unat (i_size (icache s dp)) mod 16 = 0" "length args + 2 \<le> dcount s dp"
    using le by (auto simp: dcount_def)
  have ok: "dir_ok s dp"
    using f(1) sl(3) sz(1) on_imageD(2) [OF on] by (auto simp: dir_ok_def dtype_def)
  have e: "dentry s dp j = \<lparr>de_inum = ucast (root_inum j), de_name = strncpy_list DIRSIZ (root_names args ! j)\<rparr>" if "j \<le> k + 2" for j
    using root_entry [OF f(2)] that k(1) by simp
  have u: "ucast (ucast (inum_of (Suc k)) :: ushort) = inum_of (Suc k)" "ucast (inum_of (Suc k)) \<noteq> (0 :: ushort)"
    by (rule inum_of_ucast; use k(1) img(2) in simp)+
  have "matches ?n (dentry s dp (k + 2))" "root_inum (k + 2) = inum_of (Suc k)"
    using u(2) k(1) e [of "k + 2"] by (simp_all add: matches_def dname_strncpy dname_take root_inum_def root_names_def)
  moreover have "\<not> matches ?n (dentry s dp j)" if "j < k + 2" for j
    using that k(2) e [of j] by (simp add: matches_def dname_strncpy dname_take first_named_def)
  ultimately have "find (\<lambda>j. matches ?n (dentry s dp j)) [0..<dcount s dp] = Some (k + 2)"
    using sz(2) k(1) by (simp add: find_upt del: upt_Suc)
  then show ?thesis
    using dirlookup_spec [OF ok, of devsw ?n] e [of "k + 2"] u(1) \<open>root_inum (k + 2) = inum_of (Suc k)\<close> by auto
qed


lemma on_image_looks: "looks s t \<Longrightarrow> on_image s img \<Longrightarrow> on_image t img"
  using looks_views [of s t] by (simp add: on_image_def)

lemma skipelem_root: "n \<noteq> [] \<Longrightarrow> 47 \<notin> set n \<Longrightarrow> skipelem (47 # n) = Some ([], take 14 n)"
proof -
  assume n: "n \<noteq> []" "47 \<notin> set n"
  then have f: "dropWhile (\<lambda>c. c = 47) n = n" "takeWhile (\<lambda>c. c \<noteq> 47) n = n" "dropWhile (\<lambda>c. c \<noteq> 47) n = []"
    by (cases n, auto simp: takeWhile_eq_all_conv)
  show ?thesis
    using n(1) by (simp add: skipelem_def Let_def f)
qed

lemma arg_name_slash: "arg_ok a \<Longrightarrow> 47 \<notin> set (arg_name a)"
  by (cases a) (auto simp: arg_ok_def arg_name_def skip_underscore_def split: list.splits if_splits)

text \<open>Giving back the directory in which a name was looked up.\<close>

lemma iunlockput_named:
  assumes "calm s" "i_flags (icache s ip) = 3" "i_ref (icache s ip) = 1" "i_nlink (icache s ip) = 1"
  shows "\<exists>t. iunlockput ip s = Ok () t \<and> (\<forall>img. on_image s img \<longrightarrow> on_image t img) \<and> (\<forall>jp. jp \<noteq> ip \<longrightarrow> icache t jp = icache s jp)"
proof -
  let ?u = "wake (ChInode ip) (upd_inode ip (\<lambda>i. i\<lparr>i_flags := i_flags i AND NOT I_BUSY\<rparr>) s)"
  have w: "icache ?u = icache (upd_inode ip (\<lambda>i. i\<lparr>i_flags := i_flags i AND NOT I_BUSY\<rparr>) s)"
    by (simp add: wake_def)
  have "iunlock ip s = Ok () ?u"
    using assms(2,3) by (intro iunlock_eq [OF assms(1)]) simp_all
  moreover have "iput ip ?u = Ok () (upd_inode ip (\<lambda>i. i\<lparr>i_ref := i_ref i - 1\<rparr>) ?u)"
    using assms by (intro iput_eq) (simp_all add: w)
  ultimately show ?thesis
    by (intro exI [of _ "upd_inode ip (\<lambda>i. i\<lparr>i_ref := i_ref i - 1\<rparr>) ?u"]) (simp add: iunlockput_def kern_simps w)
qed

lemma namei_image:
  assumes img: "fs_image img (image_files args)" "length args \<le> 198" "need (image_files args) \<le> 994"
    and on: "on_image s img" and free: "\<forall>ip. i_ref (icache s ip) = 0" and k: "k < length args" "first_named args k" "arg_ok (args ! k)"
  shows "\<exists>t. namei devsw (47 # arg_name (args ! k)) s = Ok (Some 1) t \<and> on_image t img \<and> i_dev (icache t 1) = 1 \<and> i_inum (icache t 1) = inum_of (Suc k) \<and>
    i_flags (icache t 1) = 0 \<and> i_ref (icache t 1) = 1"
proof -
  let ?n = "arg_name (args ! k)" and ?a = "upd_inode 0 (\<lambda>i. i\<lparr>i_dev := 1, i_inum := 1, i_ref := 1, i_flags := 0\<rparr>) s"
  have i0: "inum_of 0 = 1"
    by (simp add: inum_of_def)
  have i1: "inum_of (Suc k) \<noteq> 1"
    using inum_of_unat [of "Suc k"] k(1) img(2) by auto
  have a: "iget 1 1 s = Ok 0 ?a"
    using free by (intro iget_fresh) (simp_all add: settled_calm [OF on_imageD(1) [OF on]] cached_def)
  have "0 < length (image_files args)"
    by (simp add: image_files_def)
  then obtain b where b: "ilock 0 ?a = Ok () b" "on_image b img" "loaded b 0 img 0" "icache b = (icache ?a)(0 := (load_dinode (dino img 0) (icache ?a 0))\<lparr>i_flags := 3\<rparr>)"
    using ilock_image [OF img(1), of 0 ?a 0] on i0 by auto
  obtain D where D: "files_on img (need (image_files args)) D (image_files args)" "inodes_on img D (image_files args)"
    using img(1) by (auto simp: fs_image_def)
  note sl = loaded_slots [OF img(1) D \<open>0 < length (image_files args)\<close> _ img(3) b(2,3)]
  obtain c where c: "looks b c" "dirlookup devsw 0 (take 14 ?n) b = bnd (iget 1 (inum_of (Suc k))) (\<lambda>ip. ret (Some (ip, of_nat (16 * (k + 2))))) c"
    using root_lookup [OF img b(2,3) k(1,2)] by blast
  note v = looks_views [OF c(1)]
  have ci: "icache c 0 = icache b 0" "i_ref (icache c 0) = 1" "i_inum (icache c 0) = 1" "i_flags (icache c 0) = 3" "i_nlink (icache c 0) = 1"
      "\<And>jp. jp \<noteq> 0 \<Longrightarrow> i_ref (icache c jp) = 0"
    using free sl(6) unfolding v(1) b(4) by (simp_all add: load_dinode_def)
  let ?d = "upd_inode 1 (\<lambda>i. i\<lparr>i_dev := 1, i_inum := inum_of (Suc k), i_ref := 1, i_flags := 0\<rparr>) c"
  have d: "iget 1 (inum_of (Suc k)) c = Ok 1 ?d"
  proof (rule iget_fresh)
    show "\<forall>jp < 50. \<not> cached c 1 (inum_of (Suc k)) jp"
      using ci i1 by (metis cached_def less_irrefl)
  qed (use ci settled_calm [OF v(4)] in auto)
  have "calm ?d"
    using settled_calm [OF v(4)] by simp
  then obtain e where e: "iunlockput 0 ?d = Ok () e" "\<forall>img. on_image ?d img \<longrightarrow> on_image e img" "\<forall>jp. jp \<noteq> 0 \<longrightarrow> icache e jp = icache ?d jp"
    using iunlockput_named [of ?d 0] ci by auto
  have "on_image e img"
    using e(2) on_image_looks [OF c(1) b(2)] by simp
  moreover have "namei devsw (47 # ?n) s = Ok (Some 1) e"
  proof -
    have sk: "skipelem (47 # ?n) = Some ([], take 14 ?n)" "skipelem [] = None"
      using k(2) skipelem_root [OF _ arg_name_slash [OF k(3)]] by (simp_all add: first_named_def skipelem_def [of "[]"])
    have "i_type (icache b 0) = 1"
      using sl(3) by (simp add: dtype_def)
    then show ?thesis
      using a b(1) c(2) d e(1) by (simp add: namei_def namex_def namex_from.simps [of devsw "47 # ?n"] namex_from.simps [of devsw "[]"] sk bnd_Ok thn_Ok bnd_rd)
  qed
  ultimately show ?thesis
    using e(3) by (intro exI [of _ e]) simp
qed


section \<open>Mounting\<close>

text \<open>A kernel at its start, with the image on its disk and an empty inode table.\<close>

definition fresh_boot :: "'z fs_st_scheme \<Rightarrow> uchar list list \<Rightarrow> bool" where
  "fresh_boot r img = (calm r \<and> bss_bufs r \<and> length (log_sector r) = LOGSIZE \<and> log_outstanding r = 0 \<and> \<not> log_committing r \<and>
     (\<forall>ip. i_ref (icache r ip) = 0) \<and> disksize r = 1024 \<and> (\<forall>b < 1024. disk r (of_nat b) = img ! b))"

lemma boot_image:
  fixes r :: "'z fs_st_scheme"
  assumes img: "fs_image img F" "need F \<le> 994" and r: "fresh_boot r img"
  shows "\<exists>s. thn binit initlog r = Ok () s \<and> on_image s img \<and> icache s = icache r \<and> log_n s = 0 \<and> hdr_n (disk s (log_start s)) = 0 \<and> disk s = disk r"
proof -
  have d: "disk r 1 = mkfs_sb" "disk r 994 = replicate 512 0"
  proof -
    have "disk r (of_nat b) = img ! b" if "b < 1024" for b
      using r that by (simp add: fresh_boot_def)
    from this [of 1] this [of 994] show "disk r 1 = mkfs_sb" "disk r 994 = replicate 512 0"
      using img files_onD(4) [of img "need F" _ F 994] by (auto simp: fs_image_def zeroes_def)
  qed
  obtain s where s: "thn binit initlog r = Ok () s" "settled s" "busy s = {}" "log_start s = 994" "blk s = disk r" "log_st.more s = log_st.more r"
    "log_n s = 0" "disk s = disk r"
    using log_boots [of r 994] r d by (auto simp: fresh_boot_def log_place_def mkfs_sb_fields)
  have "icache s = icache r"
    using s(6) by (cases s; cases r; simp)
  moreover have "hdr_n (disk s (log_start s)) = 0"
    using s(4,8) d(2) empty_header(1) by simp
  ultimately show ?thesis
    using s r by (intro exI [of _ s]) (simp add: on_image_def fresh_boot_def)
qed


text \<open>
  C4 (mkfs and the kernel).  For files that fit, mkfs ends without an error, and a kernel that starts with its image on the disk mounts it: the log is empty in memory and on the
  disk, which the start does not change, and the bitmap shows exactly the blocks that mkfs has used.  Every file can be found by its name in the root directory, unless its name is
  empty or an entry before it has the same first 14 bytes, and reading it gives the bytes the file had.  Files fit when there are at most 198 of them, each within the size limit of a
  file, and with their blocks before the log; the number of entries of the root directory must not be a multiple of 32, for which mkfs would make the directory a block too long.
\<close>

theorem mkfs_mount:
  fixes devsw :: "'z devs"
  assumes "mkfs_fits args"
  shows "\<exists>m. mkfs_main args mkfs_init = Ok () m \<and> (\<forall>r :: 'z fs_st_scheme. fresh_boot r (fsimg m) \<longrightarrow>
    (\<exists>s. thn binit initlog r = Ok () s \<and> log_n s = 0 \<and> hdr_n (disk s (log_start s)) = 0 \<and> disk s = disk r \<and> bm_ok s \<and> (\<forall>b < 1024. in_use s b \<longleftrightarrow> b < need (image_files args)) \<and>
      (\<forall>k < length args. first_named args k \<longrightarrow>
        (\<exists>ip t u v. namei devsw (47 # arg_name (args ! k)) s = Ok (Some ip) t \<and> ilock ip t = Ok () u \<and> file_ok u ip \<and>
          readi devsw ip 0 (i_size (icache u ip)) u = Ok (int (length (arg_bytes (args ! k))), arg_bytes (args ! k)) v))))"
proof -
  have fit: "length args \<le> 198" "\<forall>a \<in> set args. arg_ok a" "need (image_files args) \<le> 994"
    using assms by (simp_all add: mkfs_fits_def)
  obtain m where m: "mkfs_main args mkfs_init = Ok () m" "fs_image (fsimg m) (image_files args)"
    using mkfs_image [OF assms] by blast
  have read: "\<exists>ip t u v. namei devsw (47 # arg_name (args ! k)) s = Ok (Some ip) t \<and> ilock ip t = Ok () u \<and> file_ok u ip \<and>
      readi devsw ip 0 (i_size (icache u ip)) u = Ok (int (length (arg_bytes (args ! k))), arg_bytes (args ! k)) v"
    if s: "on_image s (fsimg m)" "\<forall>ip. i_ref (icache s ip) = 0" and k: "k < length args" "first_named args k" for k and s :: "'z fs_st_scheme"
  proof -
    obtain t where t: "namei devsw (47 # arg_name (args ! k)) s = Ok (Some 1) t" "on_image t (fsimg m)" "i_dev (icache t 1) = 1"
        "i_inum (icache t 1) = inum_of (Suc k)" "i_flags (icache t 1) = 0" "i_ref (icache t 1) = 1"
      using namei_image [OF m(2) fit(1,3) s k] fit(2) k(1) by auto
    have F: "Suc k < length (image_files args)" "image_files args ! Suc k = arg_bytes (args ! k)" "Suc k < 199"
      using k(1) fit(1) by (simp_all add: image_files_def)
    obtain u where u: "ilock 1 t = Ok () u" "on_image u (fsimg m)" "loaded u 1 (fsimg m) (Suc k)"
      using ilock_image [OF m(2) F(1,3) t(2-5)] t(6) by auto
    note f = image_file [OF m(2) F(1,3) fit(3) u(2,3)]
    have len: "unat (i_size (icache u 1)) = length (arg_bytes (args ! k))"
      using arg_cong [OF f(2), of length] F(2) by (simp add: file_bytes_def)
    have "card (busy u) \<le> log_room u"
      using on_imageD(2) [OF u(2)] by simp
    then obtain v where "readi devsw 1 0 (i_size (icache u 1)) u = Ok (int (length (arg_bytes (args ! k))), arg_bytes (args ! k)) v"
      using readi_spec [OF f(1), of 0 "i_size (icache u 1)" devsw] f(2) F(2) len file_okD(8) [OF f(1)] by (auto simp: slice_def simp del: of_nat_unat)
    then show ?thesis
      using t(1) u(1) f(1) by blast
  qed
  have "\<exists>s. thn binit initlog r = Ok () s \<and> log_n s = 0 \<and> hdr_n (disk s (log_start s)) = 0 \<and> disk s = disk r \<and> bm_ok s \<and> (\<forall>b < 1024. in_use s b \<longleftrightarrow> b < need (image_files args)) \<and>
      (\<forall>k < length args. first_named args k \<longrightarrow>
        (\<exists>ip t u v. namei devsw (47 # arg_name (args ! k)) s = Ok (Some ip) t \<and> ilock ip t = Ok () u \<and> file_ok u ip \<and>
          readi devsw ip 0 (i_size (icache u ip)) u = Ok (int (length (arg_bytes (args ! k))), arg_bytes (args ! k)) v))"
    if r: "fresh_boot r (fsimg m)" for r :: "'z fs_st_scheme"
  proof -
    obtain s where s: "thn binit initlog r = Ok () s" "on_image s (fsimg m)" "icache s = icache r" "log_n s = 0 \<and> hdr_n (disk s (log_start s)) = 0 \<and> disk s = disk r"
      using boot_image [OF m(2) fit(3) r] by blast
    moreover have "\<forall>ip. i_ref (icache s ip) = 0"
      using r s(3) by (simp add: fresh_boot_def)
    ultimately show ?thesis
      using image_views(3,4) [OF m(2) s(2)] read [OF s(2)] by blast
  qed
  with m(1) show ?thesis
    by blast
qed


section \<open>Witness\<close>

text \<open>An image with one file.\<close>

definition demo_args :: "mkfs_arg list" where
  "demo_args = [([95, 97], Some [[104, 105]])]"

lemma demo_fits: "mkfs_fits demo_args" "first_named demo_args 0" "arg_name (demo_args ! 0) = [97]" "arg_bytes (demo_args ! 0) = [104, 105]"
proof -
  show n: "arg_name (demo_args ! 0) = [97]" "arg_bytes (demo_args ! 0) = [104, 105]"
    by (simp_all add: demo_args_def arg_name_def arg_bytes_def skip_underscore_def)
  show "first_named demo_args 0"
    by (auto simp: first_named_def n root_names_def less_Suc_eq dname_def)
  have "length (root_dir (map arg_name demo_args)) = 48"
    by (simp add: length_root_dir demo_args_def)
  then have "length (root_pad (root_dir (map arg_name demo_args))) = 512"
    by (simp add: root_pad_len(1))
  then have "need (image_files demo_args) = 31"
    using n by (simp add: need_def image_files_def nblocks_of_def demo_args_def)
  then show "mkfs_fits demo_args"
    by (simp add: mkfs_fits_def) (simp add: demo_args_def arg_ok_def arg_bytes_def)
qed

theorem mkfs_mount_witness:
  "\<exists>m s ip t u v. mkfs_main demo_args mkfs_init = Ok () m \<and>
     thn binit initlog (fs_boot\<lparr>disksize := 1024, disk := (\<lambda>n. if unat n < 1024 then fsimg m ! unat n else replicate 512 0)\<rparr>) = Ok () s \<and>
     log_n s = 0 \<and> \<not> in_use s 1000 \<and> namei (\<lambda>_. \<lparr>ds_isdir = None, ds_iread = None, ds_read = None, ds_write = None\<rparr>) [47, 97] s = Ok (Some ip) t \<and> ilock ip t = Ok () u \<and>
     readi (\<lambda>_. \<lparr>ds_isdir = None, ds_iread = None, ds_read = None, ds_write = None\<rparr>) ip 0 (i_size (icache u ip)) u = Ok (2, [104, 105]) v"
proof -
  let ?dv = "\<lambda>_. \<lparr>ds_isdir = None, ds_iread = None, ds_read = None, ds_write = None\<rparr>"
  obtain m where m: "mkfs_main demo_args mkfs_init = Ok () m" "\<forall>r :: fs_st. fresh_boot r (fsimg m) \<longrightarrow>
    (\<exists>s. thn binit initlog r = Ok () s \<and> log_n s = 0 \<and> hdr_n (disk s (log_start s)) = 0 \<and> disk s = disk r \<and> bm_ok s \<and> (\<forall>b < 1024. in_use s b \<longleftrightarrow> b < need (image_files demo_args)) \<and>
      (\<forall>k < length demo_args. first_named demo_args k \<longrightarrow>
        (\<exists>ip t u v. namei ?dv (47 # arg_name (demo_args ! k)) s = Ok (Some ip) t \<and> ilock ip t = Ok () u \<and> file_ok u ip \<and>
          readi ?dv ip 0 (i_size (icache u ip)) u = Ok (int (length (arg_bytes (demo_args ! k))), arg_bytes (demo_args ! k)) v)))"
    using mkfs_mount [OF demo_fits(1), of ?dv] by blast
  have img: "fs_image (fsimg m) (image_files demo_args)"
    using mkfs_image [OF demo_fits(1)] m(1) by auto
  then have len: "length (fsimg m ! b) = 512" if "b < 1024" for b
    using that files_onD(1) by (auto simp: fs_image_def img_ok_def)
  let ?r = "fs_boot\<lparr>disksize := 1024, disk := (\<lambda>n. if unat n < 1024 then fsimg m ! unat n else replicate 512 0)\<rparr>"
  have "calm ?r"
    using fs_boot_facts(1) by (simp add: calm_def lock_free_def)
  moreover have "bss_bufs ?r" "length (log_sector ?r) = 30" "log_outstanding ?r = 0" "\<not> log_committing ?r" "\<forall>ip. i_ref (icache ?r ip) = 0"
    using log_boot_facts len by (simp_all add: fs_boot_def log_st.extend_def fs_st.fields_def bss_bufs_def no_inode_def)
  moreover have "disk ?r (of_nat b) = fsimg m ! b" if "b < 1024" for b
    using that by (simp add: unat_of_nat_lt)
  ultimately have "fresh_boot ?r (fsimg m)"
    by (simp add: fresh_boot_def)
  then obtain s where s0: "log_n s = 0" and s: "thn binit initlog ?r = Ok () s" "\<forall>b < 1024. in_use s b \<longleftrightarrow> b < need (image_files demo_args)"
      "\<forall>k < length demo_args. first_named demo_args k \<longrightarrow>
        (\<exists>ip t u v. namei ?dv (47 # arg_name (demo_args ! k)) s = Ok (Some ip) t \<and> ilock ip t = Ok () u \<and> file_ok u ip \<and>
          readi ?dv ip 0 (i_size (icache u ip)) u = Ok (int (length (arg_bytes (demo_args ! k))), arg_bytes (demo_args ! k)) v)"
    using m(2) by blast
  have "0 < length demo_args" "\<not> in_use s 1000"
    using s(2) demo_fits(1) by (auto simp: demo_args_def mkfs_fits_def)
  then show ?thesis
    using m(1) s0 s(1) s(3) demo_fits(2-4) by fastforce
qed

end
