(* ===== verification/Irq.thy ===== *)
theory Irq
  imports File
begin

text \<open>
  Port and memory mapped I/O (\<^verbatim>\<open>src/x86.h\<close>) and the interrupt hardware that the kernel sets up with it: the two 8259A controllers
  (\<^verbatim>\<open>src/picirq.c\<close>), the I/O APIC (\<^verbatim>\<open>src/ioapic.c\<close>) and the interval timer (\<^verbatim>\<open>src/timer.c\<close>).  The devices are a parameter: \<open>'d\<close> is their
  state and a record of functions says what an access does to it.
\<close>

section \<open>Ports\<close>

record 'd ports =
  io_inb :: "ushort \<Rightarrow> 'd \<Rightarrow> uchar \<times> 'd"
  io_outb :: "ushort \<Rightarrow> uchar \<Rightarrow> 'd \<Rightarrow> 'd"
  io_insl :: "ushort \<Rightarrow> nat \<Rightarrow> 'd \<Rightarrow> uchar list \<times> 'd"
  io_outsl :: "ushort \<Rightarrow> uchar list \<Rightarrow> 'd \<Rightarrow> 'd"
  io_read :: "uint32 \<Rightarrow> 'd \<Rightarrow> uint32 \<times> 'd"
  io_write :: "uint32 \<Rightarrow> uint32 \<Rightarrow> 'd \<Rightarrow> 'd"

record 'd io_st = bio_st +
  io :: 'd
  irqmask :: ushort
  ismp :: bool
  ncpu :: int

definition inb :: "'d ports \<Rightarrow> ushort \<Rightarrow> (uchar, ('d, 'z) io_st_scheme) kern" where
  "inb P port = (\<lambda>s. case io_inb P port (io s) of (v, d) \<Rightarrow> Ok v (s\<lparr>io := d\<rparr>))"

definition outb :: "'d ports \<Rightarrow> ushort \<Rightarrow> uchar \<Rightarrow> (unit, ('d, 'z) io_st_scheme) kern" where
  "outb P port v = md (\<lambda>s. s\<lparr>io := io_outb P port v (io s)\<rparr>)"

text \<open>\<^verbatim>\<open>insl\<close> and \<^verbatim>\<open>outsl\<close> move words of four bytes between a port and memory.\<close>

definition insl :: "'d ports \<Rightarrow> ushort \<Rightarrow> nat \<Rightarrow> (uchar list, ('d, 'z) io_st_scheme) kern" where
  "insl P port cnt = (\<lambda>s. case io_insl P port cnt (io s) of (bs, d) \<Rightarrow> Ok bs (s\<lparr>io := d\<rparr>))"

definition outsl :: "'d ports \<Rightarrow> ushort \<Rightarrow> uchar list \<Rightarrow> (unit, ('d, 'z) io_st_scheme) kern" where
  "outsl P port bs = md (\<lambda>s. s\<lparr>io := io_outsl P port bs (io s)\<rparr>)"

section \<open>The interrupt controllers\<close>

abbreviation (input) IO_PIC1 :: ushort where "IO_PIC1 \<equiv> 0x20"
abbreviation (input) IO_PIC2 :: ushort where "IO_PIC2 \<equiv> 0xA0"
abbreviation (input) IRQ_SLAVE :: nat where "IRQ_SLAVE \<equiv> 2"
abbreviation (input) T_IRQ0 :: nat where "T_IRQ0 \<equiv> 32"
abbreviation (input) IRQ_TIMER :: nat where "IRQ_TIMER \<equiv> 0"
abbreviation (input) IRQ_IDE :: nat where "IRQ_IDE \<equiv> 14"

definition irqmask_init :: ushort where
  "irqmask_init = 0xFFFF AND NOT (push_bit IRQ_SLAVE 1)"

definition picsetmask :: "'d ports \<Rightarrow> ushort \<Rightarrow> (unit, ('d, 'z) io_st_scheme) kern" where
  "picsetmask P m =
     thn (md (\<lambda>s. s\<lparr>irqmask := m\<rparr>)) (
     thn (outb P (IO_PIC1 + 1) (ucast m)) (
     outb P (IO_PIC2 + 1) (ucast (drop_bit 8 m))))"

definition picenable :: "'d ports \<Rightarrow> nat \<Rightarrow> (unit, ('d, 'z) io_st_scheme) kern" where
  "picenable P irq = bnd (rd irqmask) (\<lambda>m. picsetmask P (m AND NOT (push_bit irq 1)))"

definition picinit :: "'d ports \<Rightarrow> (unit, ('d, 'z) io_st_scheme) kern" where
  "picinit P =
     thn (outb P (IO_PIC1 + 1) 0xFF) (
     thn (outb P (IO_PIC2 + 1) 0xFF) (
     thn (outb P IO_PIC1 0x11) (
     thn (outb P (IO_PIC1 + 1) (of_nat T_IRQ0)) (
     thn (outb P (IO_PIC1 + 1) (push_bit IRQ_SLAVE 1)) (
     thn (outb P (IO_PIC1 + 1) 0x3) (
     thn (outb P IO_PIC2 0x11) (
     thn (outb P (IO_PIC2 + 1) (of_nat (T_IRQ0 + 8))) (
     thn (outb P (IO_PIC2 + 1) (of_nat IRQ_SLAVE)) (
     thn (outb P (IO_PIC2 + 1) 0x3) (
     thn (outb P IO_PIC1 0x68) (
     thn (outb P IO_PIC1 0x0a) (
     thn (outb P IO_PIC2 0x68) (
     thn (outb P IO_PIC2 0x0a) (
     bnd (rd irqmask) (\<lambda>m.
     whenk (m \<noteq> 0xFFFF) (picsetmask P m))))))))))))))))"

text \<open>After any calls of \<^verbatim>\<open>picenable\<close>, a line is masked unless it was enabled or connects the second controller.\<close>

lemma picenable_mask:
  fixes P :: "'d ports" and s :: "('d, 'z) io_st_scheme"
  assumes "irqmask s = irqmask_init" "\<forall>i \<in> set irqs. i < 16"
  shows "\<exists>t. for_each irqs (picenable P) s = Ok () t \<and> (\<forall>i < 16. bit (irqmask t) i \<longleftrightarrow> i \<noteq> 2 \<and> i \<notin> set irqs)"
proof -
  have "\<exists>t. for_each irqs (picenable P) s = Ok () t \<and> (\<forall>i < 16. bit (irqmask t) i \<longleftrightarrow> bit (irqmask s) i \<and> i \<notin> set irqs)" for s :: "('d, 'z) io_st_scheme"
  proof (induction irqs arbitrary: s)
    case (Cons i irqs)
    define u where "u = s\<lparr>irqmask := irqmask s AND NOT (push_bit i 1),
      io := io_outb P (IO_PIC2 + 1) (ucast (drop_bit 8 (irqmask s AND NOT (push_bit i 1)))) (io_outb P (IO_PIC1 + 1) (ucast (irqmask s AND NOT (push_bit i 1))) (io s))\<rparr>"
    have "picenable P i s = Ok () u"
      by (simp add: picenable_def picsetmask_def outb_def kern_simps u_def)
    moreover obtain t where "for_each irqs (picenable P) u = Ok () t" "\<forall>i < 16. bit (irqmask t) i \<longleftrightarrow> bit (irqmask u) i \<and> i \<notin> set irqs"
      using Cons.IH [of u] by blast
    ultimately show ?case
      by (auto simp: kern_simps u_def bit_simps)
  qed (simp add: kern_simps)
  then obtain t where t: "for_each irqs (picenable P) s = Ok () t" "\<forall>i < 16. bit (irqmask t) i \<longleftrightarrow> bit (irqmask s) i \<and> i \<notin> set irqs"
    by blast
  have line: "bit (NOT (push_bit n (1 :: ushort))) i \<longleftrightarrow> i \<noteq> n" if "i < 16" for n i
    using that by (auto simp: bit_simps)
  have "irqmask_init = NOT (push_bit 2 1)"
    by (simp add: irqmask_init_def push_bit_eq_mult)
  then have "\<forall>i < 16. bit (irqmask s) i \<longleftrightarrow> i \<noteq> 2"
    unfolding assms(1) using line [of _ 2] by metis
  with t show ?thesis
    by blast
qed

section \<open>The I/O APIC\<close>

abbreviation (input) IOAPIC :: uint32 where "IOAPIC \<equiv> 0xFEC00000"
abbreviation (input) REG_ID :: uint32 where "REG_ID \<equiv> 0"
abbreviation (input) REG_VER :: uint32 where "REG_VER \<equiv> 1"
abbreviation (input) REG_TABLE :: uint32 where "REG_TABLE \<equiv> 0x10"
abbreviation (input) INT_DISABLED :: uint32 where "INT_DISABLED \<equiv> 0x10000"

definition ioapicread :: "'d ports \<Rightarrow> uint32 \<Rightarrow> (uint32, ('d, 'z) io_st_scheme) kern" where
  "ioapicread P reg =
     thn (md (\<lambda>s. s\<lparr>io := io_write P IOAPIC reg (io s)\<rparr>)) (
     \<lambda>s. case io_read P (IOAPIC + 0x10) (io s) of (v, d) \<Rightarrow> Ok v (s\<lparr>io := d\<rparr>))"

definition ioapicwrite :: "'d ports \<Rightarrow> uint32 \<Rightarrow> uint32 \<Rightarrow> (unit, ('d, 'z) io_st_scheme) kern" where
  "ioapicwrite P reg v =
     thn (md (\<lambda>s. s\<lparr>io := io_write P IOAPIC reg (io s)\<rparr>)) (
     md (\<lambda>s. s\<lparr>io := io_write P (IOAPIC + 0x10) v (io s)\<rparr>))"

text \<open>The message about a wrong identification is left out.\<close>

definition ioapicinit :: "'d ports \<Rightarrow> (unit, ('d, 'z) io_st_scheme) kern" where
  "ioapicinit P =
     bnd (rd ismp) (\<lambda>mp. whenk mp (
     bnd (ioapicread P REG_VER) (\<lambda>v.
     let maxintr = drop_bit 16 v AND 0xFF in
     bnd (ioapicread P REG_ID) (\<lambda>id.
     for_each [0..<unat maxintr + 1] (\<lambda>i.
       thn (ioapicwrite P (REG_TABLE + 2 * of_nat i) (INT_DISABLED OR of_nat (T_IRQ0 + i))) (
       ioapicwrite P (REG_TABLE + 2 * of_nat i + 1) 0))))))"

definition ioapicenable :: "'d ports \<Rightarrow> nat \<Rightarrow> uint32 \<Rightarrow> (unit, ('d, 'z) io_st_scheme) kern" where
  "ioapicenable P irq cpunum =
     bnd (rd ismp) (\<lambda>mp. whenk mp (
     thn (ioapicwrite P (REG_TABLE + 2 * of_nat irq) (of_nat (T_IRQ0 + irq))) (
     ioapicwrite P (REG_TABLE + 2 * of_nat irq + 1) (push_bit 24 cpunum))))"

section \<open>The timer\<close>

abbreviation (input) IO_TIMER1 :: ushort where "IO_TIMER1 \<equiv> 0x40"

definition TIMER_DIV :: "nat \<Rightarrow> nat" where
  "TIMER_DIV x = (1193182 + x div 2) div x"

definition timerinit :: "'d ports \<Rightarrow> (unit, ('d, 'z) io_st_scheme) kern" where
  "timerinit P =
     thn (outb P (IO_TIMER1 + 3) (0x00 OR 0x04 OR 0x30)) (
     thn (outb P IO_TIMER1 (of_nat (TIMER_DIV 100 mod 256))) (
     thn (outb P IO_TIMER1 (of_nat (TIMER_DIV 100 div 256))) (
     picenable P IRQ_TIMER)))"

text \<open>The two bytes of the count are those of 11932, which is 100 interrupts in a second.\<close>

lemma timer_count: "TIMER_DIV 100 = 11932" "256 * (TIMER_DIV 100 div 256) + TIMER_DIV 100 mod 256 = 11932" "TIMER_DIV 100 div 256 < 256"
  by (simp_all add: TIMER_DIV_def)

end
