(* ===== verification/Ide.thy ===== *)
theory Ide
  imports Irq
begin

text \<open>
  The driver of an IDE disk (\<^verbatim>\<open>src/ide.c\<close>): a queue of buffers, linked through their field \<^verbatim>\<open>qnext\<close>, whose first element the disk is working on.  The
  disk itself is the parameter of \<open>Irq\<close>; what the driver relies on is stated in \<open>ata_disk\<close>.  The outcome of a request is shown to be that of the
  memory disk (\<open>iderw\<close> of \<open>Bio\<close>), on which the theories of the cache and of the layers above are built.
\<close>

section \<open>The driver\<close>

record 'd ide_st = "'d io_st" +
  idequeue :: "nat option"
  havedisk1 :: bool

abbreviation (input) IDE_BSY :: uchar where "IDE_BSY \<equiv> 0x80"
abbreviation (input) IDE_DRDY :: uchar where "IDE_DRDY \<equiv> 0x40"
abbreviation (input) IDE_DF :: uchar where "IDE_DF \<equiv> 0x20"
abbreviation (input) IDE_ERR :: uchar where "IDE_ERR \<equiv> 0x01"
abbreviation (input) IDE_CMD_READ :: uchar where "IDE_CMD_READ \<equiv> 0x20"
abbreviation (input) IDE_CMD_WRITE :: uchar where "IDE_CMD_WRITE \<equiv> 0x30"

text \<open>The wait for the disk has no bound; it is followed for \<open>2 ^ 20\<close> reads of the status.\<close>

fun idewait_loop :: "'d ports \<Rightarrow> nat \<Rightarrow> (uchar, ('d, 'z) io_st_scheme) kern" where
  "idewait_loop P 0 = (\<lambda>s. Diverge)"
| "idewait_loop P (Suc n) =
     bnd (inb P 0x1f7) (\<lambda>r.
     if r AND (IDE_BSY OR IDE_DRDY) \<noteq> IDE_DRDY then idewait_loop P n else ret r)"

definition idewait :: "'d ports \<Rightarrow> bool \<Rightarrow> (int, ('d, 'z) io_st_scheme) kern" where
  "idewait P checkerr =
     bnd (idewait_loop P (2 ^ 20)) (\<lambda>r.
     ret (if checkerr \<and> r AND (IDE_DF OR IDE_ERR) \<noteq> 0 then - 1 else 0))"

definition ideinit_pio :: "'d ports \<Rightarrow> (unit, ('d, 'z) ide_st_scheme) kern" where
  "ideinit_pio P =
     thn (initlock LkIde ''ide'') (
     thn (picenable P IRQ_IDE) (
     thn (bnd (rd ncpu) (\<lambda>n. ioapicenable P IRQ_IDE (word_of_int (n - 1)))) (
     thn (idewait P False) (
     thn (outb P 0x1f6 (0xe0 OR push_bit 4 1)) (
     bnd (for_find [0..<1000] (\<lambda>i.
       bnd (inb P 0x1f7) (\<lambda>r. ret (if r \<noteq> 0 then Some () else None)))) (\<lambda>r.
     thn (whenk (r \<noteq> None) (md (\<lambda>s. s\<lparr>havedisk1 := True\<rparr>))) (
     outb P 0x1f6 (0xe0 OR push_bit 4 0))))))))"

definition idestart :: "'d ports \<Rightarrow> nat option \<Rightarrow> (unit, ('d, 'z) ide_st_scheme) kern" where
  "idestart P r = (case r of None \<Rightarrow> panic ''idestart'' | Some b \<Rightarrow>
     thn (idewait P False) (
     bnd (rd (\<lambda>s. bufs s b)) (\<lambda>q.
     thn (outb P 0x3f6 0) (
     thn (outb P 0x1f2 1) (
     thn (outb P 0x1f3 (ucast (b_sector q AND 0xff))) (
     thn (outb P 0x1f4 (ucast (drop_bit 8 (b_sector q) AND 0xff))) (
     thn (outb P 0x1f5 (ucast (drop_bit 16 (b_sector q) AND 0xff))) (
     thn (outb P 0x1f6 (ucast (0xe0 OR push_bit 4 (b_dev q AND 1) OR (drop_bit 24 (b_sector q) AND 0x0f)))) (
     if flags q AND B_DIRTY \<noteq> 0
     then thn (outb P 0x1f7 IDE_CMD_WRITE) (outsl P 0x1f0 (b_data q))
     else outb P 0x1f7 IDE_CMD_READ)))))))))"

definition ideintr_pio :: "'d ports \<Rightarrow> (unit, ('d, 'z) ide_st_scheme) kern" where
  "ideintr_pio P =
     thn (acquire LkIde) (
     bnd (rd idequeue) (\<lambda>r. case r of
       None \<Rightarrow> release LkIde
     | Some b \<Rightarrow>
         thn (md (\<lambda>s. s\<lparr>idequeue := b_qnext (bufs s b)\<rparr>)) (
         bnd (rd (\<lambda>s. flags (bufs s b))) (\<lambda>f.
         thn (whenk (f AND B_DIRTY = 0) (
           bnd (idewait P True) (\<lambda>r.
           whenk (r \<ge> 0) (bnd (insl P 0x1f0 (512 div 4)) (\<lambda>bs. md (upd_buf b (\<lambda>q. q\<lparr>b_data := bs\<rparr>))))))) (
         thn (md (upd_buf b (\<lambda>q. q\<lparr>flags := flags q OR B_VALID\<rparr>))) (
         thn (md (upd_buf b (\<lambda>q. q\<lparr>flags := flags q AND NOT B_DIRTY\<rparr>))) (
         thn (wakeup (ChBuf b)) (
         bnd (rd idequeue) (\<lambda>r.
         thn (whenk (r \<noteq> None) (idestart P r)) (
         release LkIde))))))))))"

text \<open>
  The end of the queue: the address at which a new element is linked, of the field \<^verbatim>\<open>qnext\<close> of a buffer or of \<^verbatim>\<open>idequeue\<close> (\<open>None\<close>).  The queue has at most \<^verbatim>\<open>NBUF\<close> elements.
\<close>

fun ide_tail :: "nat \<Rightarrow> nat option \<Rightarrow> nat option \<Rightarrow> (nat option, ('d, 'z) ide_st_scheme) kern" where
  "ide_tail 0 pp p = (\<lambda>s. Diverge)"
| "ide_tail (Suc n) pp p = (case p of
       None \<Rightarrow> ret pp
     | Some c \<Rightarrow> bnd (rd (\<lambda>s. b_qnext (bufs s c))) (\<lambda>p'. ide_tail n (Some c) p'))"

text \<open>The loop at the end of \<^verbatim>\<open>iderw\<close>, which is entered again after each wait.\<close>

definition iderw_wait :: "nat \<Rightarrow> (unit, ('d, 'z) ide_st_scheme) kern" where
  "iderw_wait b =
     bnd (rd (\<lambda>s. flags (bufs s b))) (\<lambda>f.
     if f AND (B_VALID OR B_DIRTY) \<noteq> B_VALID then thn (sleep (ChBuf b) (Some LkIde)) (fault ''sleep returned'')
     else release LkIde)"

definition iderw_pio :: "'d ports \<Rightarrow> nat \<Rightarrow> (unit, ('d, 'z) ide_st_scheme) kern" where
  "iderw_pio P b =
     bnd (rd (\<lambda>s. bufs s b)) (\<lambda>q.
     if flags q AND B_BUSY = 0 then panic ''iderw: buf not busy''
     else if flags q AND (B_VALID OR B_DIRTY) = B_VALID then panic ''iderw: nothing to do''
     else bnd (rd havedisk1) (\<lambda>h.
     if b_dev q \<noteq> 0 \<and> \<not> h then panic ''iderw: ide disk 1 not present''
     else
       thn (acquire LkIde) (
       thn (md (upd_buf b (\<lambda>q. q\<lparr>b_qnext := None\<rparr>))) (
       bnd (bnd (rd idequeue) (ide_tail (NBUF + 1) None)) (\<lambda>pp.
       thn (md (\<lambda>s. case pp of None \<Rightarrow> s\<lparr>idequeue := Some b\<rparr> | Some c \<Rightarrow> upd_buf c (\<lambda>q. q\<lparr>b_qnext := Some b\<rparr>) s)) (
       bnd (rd idequeue) (\<lambda>r.
       thn (whenk (r = Some b) (idestart P (Some b))) (
       iderw_wait b))))))))"

definition iderw_resume :: "nat \<Rightarrow> bool \<Rightarrow> (unit, ('d, 'z) ide_st_scheme) kern" where
  "iderw_resume b i = thn (sleep_resume LkIde i) (iderw_wait b)"

section \<open>The disk\<close>

text \<open>
  The part of the ATA protocol the driver uses.  \<open>store d dr n\<close> is the content of sector \<open>n\<close> of drive \<open>dr\<close>; \<open>job d\<close> is the sector that is being read, if any.
  The disk becomes ready, without an error, before the wait is given up.  Three registers and the low half of a fourth hold the number of the sector, of 28 bits, and
  bit 4 of the fourth selects the drive.
\<close>

definition lba :: "uchar \<Rightarrow> uchar \<Rightarrow> uchar \<Rightarrow> uchar \<Rightarrow> uint32" where
  "lba a b c e = ucast a OR push_bit 8 (ucast b) OR push_bit 16 (ucast c) OR push_bit 24 (ucast (e AND 0x0f))"

definition ata_regs :: "'d ports \<Rightarrow> uchar \<Rightarrow> uchar \<Rightarrow> uchar \<Rightarrow> uchar \<Rightarrow> 'd \<Rightarrow> 'd" where
  "ata_regs P a b c e d =
     io_outb P 0x1f6 e (io_outb P 0x1f5 c (io_outb P 0x1f4 b (io_outb P 0x1f3 a (io_outb P 0x1f2 1 (io_outb P 0x3f6 0 d)))))"

fun poll :: "'d ports \<Rightarrow> nat \<Rightarrow> 'd \<Rightarrow> (uchar \<times> 'd) option" where
  "poll P 0 d = None"
| "poll P (Suc n) d = (case io_inb P 0x1f7 d of (r, d') \<Rightarrow> if r AND (IDE_BSY OR IDE_DRDY) \<noteq> IDE_DRDY then poll P n d' else Some (r, d'))"

definition ata_disk :: "'d ports \<Rightarrow> ('d \<Rightarrow> bool \<Rightarrow> uint32 \<Rightarrow> uchar list) \<Rightarrow> ('d \<Rightarrow> (bool \<times> uint32) option) \<Rightarrow> bool" where
  "ata_disk P store job = (
     (\<forall>d. \<exists>r d'. poll P (2 ^ 20) d = Some (r, d') \<and> r AND (IDE_DF OR IDE_ERR) = 0 \<and> store d' = store d \<and> job d' = job d) \<and>
     (\<forall>d a b c e. job d = None \<and> e AND 0xe0 = 0xe0 \<longrightarrow>
        (let d' = io_outb P 0x1f7 IDE_CMD_READ (ata_regs P a b c e d) in store d' = store d \<and> job d' = Some (bit e 4, lba a b c e))) \<and>
     (\<forall>d a b c e bs. job d = None \<and> e AND 0xe0 = 0xe0 \<and> length bs = 512 \<longrightarrow>
        (let d' = io_outsl P 0x1f0 bs (io_outb P 0x1f7 IDE_CMD_WRITE (ata_regs P a b c e d)) in
           store d' = (store d)(bit e 4 := (store d (bit e 4))(lba a b c e := bs)) \<and> job d' = None)) \<and>
     (\<forall>d dr n. job d = Some (dr, n) \<longrightarrow> (\<exists>d'. io_insl P 0x1f0 128 d = (store d dr n, d') \<and> store d' = store d \<and> job d' = None)))"

lemma ata_diskD:
  assumes "ata_disk P store job"
  shows "\<exists>r d'. poll P (2 ^ 20) d = Some (r, d') \<and> r AND 0x21 = 0 \<and> store d' = store d \<and> job d' = job d"
    "job d = None \<Longrightarrow> e AND 0xe0 = 0xe0 \<Longrightarrow> store (io_outb P 0x1f7 0x20 (ata_regs P a b c e d)) = store d \<and>
       job (io_outb P 0x1f7 0x20 (ata_regs P a b c e d)) = Some (bit e 4, lba a b c e)"
    "job d = None \<Longrightarrow> e AND 0xe0 = 0xe0 \<Longrightarrow> length bs = 512 \<Longrightarrow>
       store (io_outsl P 0x1f0 bs (io_outb P 0x1f7 0x30 (ata_regs P a b c e d))) = (store d)(bit e 4 := (store d (bit e 4))(lba a b c e := bs)) \<and>
       job (io_outsl P 0x1f0 bs (io_outb P 0x1f7 0x30 (ata_regs P a b c e d))) = None"
    "job d = Some (dr, n) \<Longrightarrow> \<exists>d'. io_insl P 0x1f0 128 d = (store d dr n, d') \<and> store d' = store d \<and> job d' = None"
  using assms unfolding ata_disk_def Let_def by simp_all


section \<open>Talking to the disk\<close>

lemma idewait_loop_poll: "idewait_loop P n s = (case poll P n (io s) of None \<Rightarrow> Diverge | Some (r, d) \<Rightarrow> Ok r (s\<lparr>io := d\<rparr>))"
proof (induction n arbitrary: s)
  case (Suc n)
  show ?case
    by (cases "io_inb P 0x1f7 (io s)") (simp add: inb_def kern_simps Suc split: option.split)
qed simp

lemma idewait_ready:
  assumes "ata_disk P store job"
  shows "\<exists>d. idewait P c s = Ok 0 (s\<lparr>io := d\<rparr>) \<and> store d = store (io s) \<and> job d = job (io s)"
proof -
  obtain r d where "poll P (2 ^ 20) (io s) = Some (r, d)" "r AND 0x21 = 0" "store d = store (io s)" "job d = job (io s)"
    using ata_diskD(1) [OF assms] by blast
  then show ?thesis
    by (intro exI [of _ d]) (simp add: idewait_def bnd_def idewait_loop_poll del: power_numeral_even idewait_loop.simps poll.simps)
qed

text \<open>The registers get the number of the sector.\<close>

lemma lba_sector:
  fixes n :: uint32
  defines "e \<equiv> ucast (0xe0 OR push_bit 4 (1 AND 1) OR (drop_bit 24 n AND 0x0f)) :: uchar"
  assumes "n < 0x10000000"
  shows "lba (ucast (n AND 0xff)) (ucast (drop_bit 8 n AND 0xff)) (ucast (drop_bit 16 n AND 0xff)) e = n" "bit e 4" "e AND 0xe0 = 0xe0"
proof -
  have m: "x AND 0xff = take_bit 8 x" "x AND 0x0f = take_bit 4 x" "(y :: uchar) AND 0x0f = take_bit 4 y" for x :: uint32 and y
    by (simp_all add: take_bit_eq_mask mask_eq_exp_minus_1)
  have f: "(0xe0 OR push_bit 4 (1 AND 1) :: uint32) = push_bit 4 (mask 4)"
    by (simp add: mask_eq_exp_minus_1 push_bit_eq_mult)
  have e: "e = ucast (push_bit 4 (mask 4) OR take_bit 4 (drop_bit 24 n))"
    unfolding e_def m or.assoc [symmetric] f ..
  have b: "bit e i \<longleftrightarrow> i < 8 \<and> (4 \<le> i \<or> bit n (24 + i))" for i
    by (auto simp: e bit_simps)
  then show "bit e 4"
    by simp
  have h: "(0xe0 :: uchar) = push_bit 5 (mask 3)"
    by (simp add: mask_eq_exp_minus_1 push_bit_eq_mult)
  show "e AND 0xe0 = 0xe0"
    unfolding h by (rule bit_word_eqI) (auto simp: b bit_and_iff bit_push_bit_iff bit_mask_iff)
  have "n = take_bit 28 n"
    using assms(2) by (simp add: word_unat_eq_iff unsigned_take_bit_eq take_bit_nat_eq_self word_less_nat_alt)
  then have hi: "bit n i \<Longrightarrow> i < 28" for i
    by (metis bit_take_bit_iff)
  show "lba (ucast (n AND 0xff)) (ucast (drop_bit 8 n AND 0xff)) (ucast (drop_bit 16 n AND 0xff)) e = n"
    unfolding lba_def m
    by (rule bit_word_eqI) (auto simp: b bit_simps dest: hi)
qed


text \<open>What the driver accepts: a locked buffer of disk 1 with something to do, for a sector that the registers can name.\<close>

definition request :: "buf \<Rightarrow> bool" where
  "request q = (flags q AND B_BUSY \<noteq> 0 \<and> flags q AND (B_VALID OR B_DIRTY) \<noteq> B_VALID \<and> b_dev q = 1 \<and> b_sector q < 0x10000000 \<and> length (b_data q) = 512)"

text \<open>The disk has started a request: what is to be written is written, and what is to be read is about to be sent.\<close>

definition started :: "('d \<Rightarrow> bool \<Rightarrow> uint32 \<Rightarrow> uchar list) \<Rightarrow> ('d \<Rightarrow> (bool \<times> uint32) option) \<Rightarrow> 'd \<Rightarrow> buf \<Rightarrow> bool" where
  "started store job d q =
     (if flags q AND B_DIRTY \<noteq> 0 then job d = None \<and> store d True (b_sector q) = b_data q else job d = Some (True, b_sector q))"

definition written :: "buf \<Rightarrow> (bool \<Rightarrow> uint32 \<Rightarrow> uchar list) \<Rightarrow> bool \<Rightarrow> uint32 \<Rightarrow> uchar list" where
  "written q m = (if flags q AND B_DIRTY \<noteq> 0 then m(True := (m True)(b_sector q := b_data q)) else m)"

lemma idestart_spec:
  assumes disk: "ata_disk P store job" and q: "request (bufs s b)" and idle: "job (io s) = None"
  shows "\<exists>d. idestart P (Some b) s = Ok () (s\<lparr>io := d\<rparr>) \<and> started store job d (bufs s b) \<and> store d = written (bufs s b) (store (io s))"
proof -
  let ?q = "bufs s b" and ?n = "b_sector (bufs s b)"
  let ?e = "ucast (0xe0 OR push_bit 4 (1 AND 1) OR (drop_bit 24 (b_sector (bufs s b)) AND 0x0f)) :: uchar"
  have q': "b_dev ?q = 1" "?n < 0x10000000" "length (b_data ?q) = 512"
    using q by (simp_all add: request_def)
  note n = lba_sector [OF q'(2)]
  obtain d where d: "idewait P False s = Ok 0 (s\<lparr>io := d\<rparr>)" "store d = store (io s)" "job d = None"
    using idewait_ready [OF disk, of False s] idle by auto
  define r where "r = ata_regs P (ucast (?n AND 0xff)) (ucast (drop_bit 8 ?n AND 0xff)) (ucast (drop_bit 16 ?n AND 0xff)) ?e d"
  have run: "idestart P (Some b) s = (if flags ?q AND B_DIRTY \<noteq> 0 then Ok () (s\<lparr>io := io_outsl P 0x1f0 (b_data ?q) (io_outb P 0x1f7 0x30 r)\<rparr>)
      else Ok () (s\<lparr>io := io_outb P 0x1f7 0x20 r\<rparr>))"
    using d(1) q'(1) unfolding r_def ata_regs_def by (simp add: idestart_def kern_simps outb_def outsl_def)
  show ?thesis
  proof (cases "flags ?q AND B_DIRTY = 0")
    case True
    have "store (io_outb P 0x1f7 0x20 r) = store d \<and> job (io_outb P 0x1f7 0x20 r) = Some (True, ?n)"
      unfolding r_def using ata_diskD(2) [OF disk d(3) n(3)] n(1,2) by metis
    then show ?thesis
      using run True d(2) by (intro exI [of _ "io_outb P 0x1f7 0x20 r"]) (simp add: started_def written_def)
  next
    case False
    let ?d = "io_outsl P 0x1f0 (b_data ?q) (io_outb P 0x1f7 0x30 r)"
    have "store ?d = (store d)(True := (store d True)(?n := b_data ?q)) \<and> job ?d = None"
      unfolding r_def using ata_diskD(3) [OF disk d(3) n(3) q'(3)] n(1,2) by metis
    then show ?thesis
      using run False d(2) by (intro exI [of _ ?d]) (simp add: started_def written_def)
  qed
qed

section \<open>The queue\<close>

fun qlist :: "(nat \<Rightarrow> buf) \<Rightarrow> nat option \<Rightarrow> nat list \<Rightarrow> bool" where
  "qlist bs p [] = (p = None)"
| "qlist bs p (b # Q) = (p = Some b \<and> qlist bs (b_qnext (bs b)) Q)"

lemma qlist_cong: "\<forall>b \<in> set Q. b_qnext (bs' b) = b_qnext (bs b) \<Longrightarrow> qlist bs' p Q = qlist bs p Q"
  by (induction Q arbitrary: p) auto

lemma ide_tail_spec: "qlist (bufs s) p Q \<Longrightarrow> length Q < n \<Longrightarrow> ide_tail n pp p s = Ok (if Q = [] then pp else Some (last Q)) s"
proof (induction Q arbitrary: n pp p)
  case Nil
  then show ?case
    by (cases n) simp_all
next
  case (Cons b Q)
  obtain m where n: "n = Suc m" "length Q < m"
    using Cons.prems(2) by (cases n) auto
  show ?case
    using Cons.IH [of "b_qnext (bufs s b)" m "Some b"] Cons.prems(1) n by simp
qed

lemma qlist_snoc:
  assumes "qlist bs p Q" "Q \<noteq> []" "distinct Q" "b \<notin> set Q" "b_qnext (bs b) = None"
  shows "qlist (bs(last Q := (bs (last Q))\<lparr>b_qnext := Some b\<rparr>)) p (Q @ [b])"
  using assms
proof (induction Q arbitrary: p)
  case (Cons c Q)
  show ?case
  proof (cases "Q = []")
    case False
    then have "c \<noteq> last Q"
      using Cons.prems(3) by auto
    then show ?thesis
      using Cons.IH [of "b_qnext (bs c)"] Cons.prems False by simp
  qed (use Cons.prems in auto)
qed simp


section \<open>Requests and interrupts\<close>

lemma hold_ide [simp]:
  "io (hold l s) = io s" "idequeue (hold l t) = idequeue t" "havedisk1 (hold l t) = havedisk1 t"
  "io_update f (hold l s) = hold l (io_update f s)" "idequeue_update g (hold l t) = hold l (idequeue_update g t)"
  by (simp_all add: hold_def set_lock_def set_cpu_def)

lemma calm_ide [simp]:
  "calm (io_update f s) = calm s" "calm (idequeue_update g t) = calm t" "lock_free l (io_update f s) = lock_free l s" "lock_free l (idequeue_update g t) = lock_free l t"
  "curproc (io_update f s) = curproc s" "curproc (idequeue_update g t) = curproc t"
  by (simp_all add: calm_def lock_free_def curproc_def)

lemma upd_buf_ide [simp]:
  "io (upd_buf b f s) = io s" "idequeue (upd_buf b f t) = idequeue t" "havedisk1 (upd_buf b f t) = havedisk1 t" "curproc (upd_buf b f u) = curproc u"
  by (simp_all add: upd_buf_def curproc_def)

lemma wake_ide [simp]: "io (wake ch s) = io s" "idequeue (wake ch t) = idequeue t" "havedisk1 (wake ch t) = havedisk1 t" "bufs (wake ch u) = bufs u"
  "calm (wake ch v) = calm v" "curproc (wake ch v) = curproc v"
  by (simp_all add: wake_def calm_def lock_free_def curproc_def)

text \<open>The fields of a buffer other than its link in the queue.\<close>

definition core :: "buf \<Rightarrow> buf" where
  "core q = q\<lparr>b_qnext := None\<rparr>"

lemma core_simps [simp]: "core (q\<lparr>b_qnext := x\<rparr>) = core q" "flags (core q) = flags q" "b_data (core q) = b_data q" "b_sector (core q) = b_sector q" "b_dev (core q) = b_dev q"
  by (simp_all add: core_def)

lemma core_eq:
  assumes "core q = core r"
  shows "request q = request r" "started store job d q = started store job d r" "written q = written r"
proof -
  have "flags q = flags r" "b_data q = b_data r" "b_sector q = b_sector r" "b_dev q = b_dev r"
    using assms by (metis core_simps(2-5))+
  then show "request q = request r" "started store job d q = started store job d r" "written q = written r"
    by (simp_all add: request_def started_def written_def fun_eq_iff)
qed

definition ide_inv :: "('d \<Rightarrow> bool \<Rightarrow> uint32 \<Rightarrow> uchar list) \<Rightarrow> ('d \<Rightarrow> (bool \<times> uint32) option) \<Rightarrow> ('d, 'z) ide_st_scheme \<Rightarrow> nat list \<Rightarrow> bool" where
  "ide_inv store job s Q = (qlist (bufs s) (idequeue s) Q \<and> distinct Q \<and> set Q \<subseteq> {..<NBUF} \<and> (\<forall>b \<in> set Q. request (bufs s b)) \<and> havedisk1 s \<and>
     (case Q of [] \<Rightarrow> job (io s) = None | b # _ \<Rightarrow> started store job (io s) (bufs s b)))"


text \<open>One request, as the memory disk serves it: the buffer and the disk afterwards.\<close>

definition served :: "(uint32 \<Rightarrow> uchar list) \<Rightarrow> buf \<Rightarrow> buf" where
  "served m q = q\<lparr>b_data := (if flags q AND B_DIRTY \<noteq> 0 then b_data q else m (b_sector q)), flags := (flags q AND NOT B_DIRTY) OR B_VALID\<rparr>"

definition put :: "buf \<Rightarrow> (uint32 \<Rightarrow> uchar list) \<Rightarrow> uint32 \<Rightarrow> uchar list" where
  "put q m = (if flags q AND B_DIRTY \<noteq> 0 then m(b_sector q := b_data q) else m)"

lemma written_put: "written q m True = put q (m True)"
  by (simp add: written_def put_def)

lemma dirty_bits:
  fixes f :: uint32
  shows "(f OR 2) AND - 5 = (f AND - 5) OR 2" "f AND 4 = 0 \<Longrightarrow> f AND - 5 = f"
proof -
  show "(f OR 2) AND - 5 = (f AND - 5) OR 2"
    by (simp add: bit.conj_disj_distrib2)
  show "f AND - 5 = f" if "f AND 4 = 0"
    using bit.conj_disj_distrib [of f 4 "- 5"] that by simp
qed

lemma iderw_served:
  assumes "request (bufs m b)" "disksize m = 0x10000000"
  shows "\<exists>m'. iderw b m = Ok () m' \<and> bufs m' = (bufs m)(b := served (disk m) (bufs m b)) \<and> disk m' = put (bufs m b) (disk m) \<and> disksize m' = disksize m"
proof -
  have q: "flags (bufs m b) AND 1 \<noteq> 0" "flags (bufs m b) AND 6 \<noteq> 2" "b_dev (bufs m b) = 1" "\<not> 0x10000000 \<le> b_sector (bufs m b)"
    using assms(1) by (simp_all add: request_def not_le)
  show ?thesis
    using q assms(2) by (cases "flags (bufs m b) AND 4 = 0") (simp_all add: iderw_def kern_simps served_def put_def dirty_bits)
qed

lemma served_upd:
  fixes s :: "('d, 'z) ide_st_scheme"
  shows "flags (bufs s b) AND 4 = 0 \<Longrightarrow> upd_buf b (\<lambda>q. q\<lparr>flags := flags q AND - 5\<rparr>) (upd_buf b (\<lambda>q. q\<lparr>flags := flags q OR 2\<rparr>)
      (upd_buf b (\<lambda>q. q\<lparr>b_data := m (b_sector (bufs s b))\<rparr>) s)) = upd_buf b (served m) s"
    "flags (bufs s b) AND 4 \<noteq> 0 \<Longrightarrow> upd_buf b (\<lambda>q. q\<lparr>flags := flags q AND - 5\<rparr>) (upd_buf b (\<lambda>q. q\<lparr>flags := flags q OR 2\<rparr>) s) = upd_buf b (served m) s"
  by (simp_all add: upd_buf_def served_def dirty_bits)

text \<open>The first half of the handler: the request is taken off the queue and its data, if any, fetched.\<close>

definition finished :: "nat \<Rightarrow> (uint32 \<Rightarrow> uchar list) \<Rightarrow> 'd \<Rightarrow> ('d, 'z) ide_st_scheme \<Rightarrow> ('d, 'z) ide_st_scheme" where
  "finished b m d s = wake (ChBuf b) (upd_buf b (served m) (s\<lparr>idequeue := b_qnext (bufs s b), io := d\<rparr>))"

lemma ideintr_first:
  fixes s :: "('d, 'z) ide_st_scheme"
  assumes disk: "ata_disk P store job" and calm: "calm s" and q: "idequeue s = Some b" and st: "started store job (io s) (bufs s b)"
  shows "\<exists>d. store d = store (io s) \<and> job d = None \<and> ideintr_pio P s =
    (let t = finished b (store (io s) True) d s in thn (whenk (idequeue t \<noteq> None) (idestart P (idequeue t))) (release LkIde) (hold LkIde t))"
proof (cases "flags (bufs s b) AND 4 = 0")
  case True
  let ?s = "s\<lparr>idequeue := b_qnext (bufs s b)\<rparr>"
  obtain d1 where d1: "idewait P True (hold LkIde ?s) = Ok 0 (hold LkIde (?s\<lparr>io := d1\<rparr>))" "store d1 = store (io s)" "job d1 = job (io s)"
    using idewait_ready [OF disk, of True "hold LkIde ?s"] by auto
  obtain d where d: "io_insl P 0x1f0 128 d1 = (store (io s) True (b_sector (bufs s b)), d)" "store d = store (io s)" "job d = None"
    using st True ata_diskD(4) [OF disk, of d1 True "b_sector (bufs s b)"] d1(2,3) by (auto simp: started_def)
  have "ideintr_pio P s =
    (let t = finished b (store (io s) True) d s in thn (whenk (idequeue t \<noteq> None) (idestart P (idequeue t))) (release LkIde) (hold LkIde t))"
    using calm d1(1) d(1) True served_upd(1) [of "?s\<lparr>io := d\<rparr>" b "store (io s) True"]
    by (simp add: ideintr_pio_def kern_simps acquire_free q whenk_def wakeup_under insl_def finished_def Let_def)
  then show ?thesis
    using d by blast
next
  case False
  then have "job (io s) = None"
    using st by (simp add: started_def)
  moreover have "ideintr_pio P s =
    (let t = finished b (store (io s) True) (io s) s in thn (whenk (idequeue t \<noteq> None) (idestart P (idequeue t))) (release LkIde) (hold LkIde t))"
    using calm False served_upd(2) [of "s\<lparr>idequeue := b_qnext (bufs s b)\<rparr>" b "store (io s) True"]
    by (simp add: ideintr_pio_def kern_simps acquire_free q whenk_def wakeup_under finished_def Let_def)
  ultimately show ?thesis
    by blast
qed

lemma ideintr_step:
  fixes s :: "('d, 'z) ide_st_scheme"
  assumes disk: "ata_disk P store job" and calm: "calm s" and inv: "ide_inv store job s (b # Q)"
  shows "\<exists>t. ideintr_pio P s = Ok () t \<and> ide_inv store job t Q \<and> calm t \<and> bufs t = (bufs s)(b := served (store (io s) True) (bufs s b)) \<and>
    store (io t) = (case Q of [] \<Rightarrow> store (io s) | c # _ \<Rightarrow> written (bufs s c) (store (io s))) \<and> ptable t = ptable (wake (ChBuf b) s) \<and>
    curproc t = curproc s"
proof -
  have i: "idequeue s = Some b" "qlist (bufs s) (b_qnext (bufs s b)) Q" "b \<notin> set Q" "distinct Q" "set Q \<subseteq> {..<NBUF}" "\<forall>c \<in> set Q. request (bufs s c)" "havedisk1 s"
      "started store job (io s) (bufs s b)"
    using inv by (simp_all add: ide_inv_def)
  obtain d2 t where d2: "store d2 = store (io s)" "job d2 = None" and t: "t = finished b (store (io s) True) d2 s"
      and run: "ideintr_pio P s = thn (whenk (idequeue t \<noteq> None) (idestart P (idequeue t))) (release LkIde) (hold LkIde t)"
    using ideintr_first [OF disk calm i(1,8)] by (auto simp: Let_def)
  have c: "calm t"
    using calm by (simp add: t finished_def)
  have b: "bufs t = (bufs s)(b := served (store (io s) True) (bufs s b))" "idequeue t = b_qnext (bufs s b)" "io t = d2" "havedisk1 t" "curproc t = curproc s"
      "ptable t = ptable (wake (ChBuf b) s)"
    using i(7) by (simp_all add: t finished_def) (simp add: wake_def cong: if_cong)
  have q: "qlist (bufs t) (idequeue t) Q"
    unfolding b(1,2) using i(2,3) by (subst qlist_cong [where bs = "bufs s"]) auto
  show ?thesis
  proof (cases Q)
    case Nil
    then show ?thesis
      using run q c d2 b i by (intro exI [of _ t]) (simp add: ide_inv_def kern_simps whenk_def release_hold)
  next
    case (Cons e R)
    then have r: "request (bufs t e)" "bufs t e = bufs s e" "idequeue t = Some e"
      using i(3,6) q by (auto simp: b)
    obtain d where d: "idestart P (Some e) (hold LkIde t) = Ok () (hold LkIde (t\<lparr>io := d\<rparr>))" "started store job d (bufs t e)" "store d = written (bufs s e) (store (io s))"
      using idestart_spec [OF disk, of "hold LkIde t" e] r d2 b(3) by auto
    then show ?thesis
      using run q c b i r Cons by (intro exI [of _ "t\<lparr>io := d\<rparr>"]) (auto simp: ide_inv_def kern_simps whenk_def release_hold)
  qed
qed

text \<open>
  The memory disk \<open>m\<close> seen as the model of the driver: the buffers agree except for the links of the queue, and the disks agree, except that the IDE disk has already written what the
  first request has to write.
\<close>

definition mem_sim :: "('d \<Rightarrow> bool \<Rightarrow> uint32 \<Rightarrow> uchar list) \<Rightarrow> ('d, 'z) ide_st_scheme \<Rightarrow> nat list \<Rightarrow> 'm bio_st_scheme \<Rightarrow> bool" where
  "mem_sim store s Q m = ((\<forall>c. core (bufs s c) = core (bufs m c)) \<and> disksize m = 0x10000000 \<and>
     store (io s) True = (case Q of [] \<Rightarrow> disk m | b # _ \<Rightarrow> put (bufs m b) (disk m)))"

lemma core_served:
  assumes "core q = core r"
  shows "core (served m q) = core (served m r)" "put q = put r"
proof -
  have "core (served m x) = served m (core x)" for x
    by (simp add: core_def served_def)
  then show "core (served m q) = core (served m r)"
    using assms by simp
  have "put x = put (core x)" for x
    by (simp add: put_def fun_eq_iff)
  then show "put q = put r"
    using assms by metis
qed

lemma served_flags: "flags (served m q) AND 6 = 2"
proof -
  have "((f AND - 5) OR 2) AND 6 = (f AND 2) OR 2" for f :: uint32
    by (simp add: bit.conj_disj_distrib2 and.assoc)
  moreover have "(f AND 2) OR 2 = 2" for f :: uint32
    by (rule bit_word_eqI) (auto simp: bit_simps)
  ultimately show ?thesis
    by (simp add: served_def)
qed

lemma served_put: "served (put q m) q = served m q"
  by (simp add: served_def put_def)

lemma sim_step:
  fixes s :: "('d, 'z) ide_st_scheme"
  assumes disk: "ata_disk P store job" and calm: "calm s" and inv: "ide_inv store job s (b # Q)" and sim: "mem_sim store s (b # Q) m"
  shows "\<exists>t m'. ideintr_pio P s = Ok () t \<and> iderw b m = Ok () m' \<and> ide_inv store job t Q \<and> calm t \<and> mem_sim store t Q m' \<and>
    bufs t = (bufs s)(b := served (store (io s) True) (bufs s b)) \<and> ptable t = ptable (wake (ChBuf b) s) \<and> curproc t = curproc s"
proof -
  have c: "core (bufs s x) = core (bufs m x)" for x
    using sim by (simp add: mem_sim_def)
  have m: "disksize m = 0x10000000" "store (io s) True = put (bufs m b) (disk m)"
    using sim by (simp_all add: mem_sim_def)
  obtain t where t: "ideintr_pio P s = Ok () t" "ide_inv store job t Q" "calm t" "bufs t = (bufs s)(b := served (store (io s) True) (bufs s b))"
      "store (io t) = (case Q of [] \<Rightarrow> store (io s) | c # _ \<Rightarrow> written (bufs s c) (store (io s)))" "ptable t = ptable (wake (ChBuf b) s)" "curproc t = curproc s"
    using ideintr_step [OF disk calm inv] by blast
  have "request (bufs m b)"
    using inv core_eq(1) [OF c] by (simp add: ide_inv_def)
  then obtain m' where m': "iderw b m = Ok () m'" "bufs m' = (bufs m)(b := served (disk m) (bufs m b))" "disk m' = put (bufs m b) (disk m)" "disksize m' = disksize m"
    using iderw_served m(1) by blast
  have b: "b \<notin> set Q"
    using inv by (simp add: ide_inv_def)
  have "core (served (store (io s) True) (bufs s b)) = core (served (disk m) (bufs m b))"
    unfolding m(2) using core_served(1) [OF c [of b], of "put (bufs m b) (disk m)"] by (simp add: served_put)
  then have "core (bufs t x) = core (bufs m' x)" for x
    by (simp add: t(4) m'(2) c)
  moreover have "store (io t) True = (case Q of [] \<Rightarrow> disk m' | e # _ \<Rightarrow> put (bufs m' e) (disk m'))"
    using b core_served(2) [OF c] by (auto simp: t(5) m'(2,3) m(2) written_put split: list.split)
  ultimately have "mem_sim store t Q m'"
    using m(1) m'(4) by (simp add: mem_sim_def)
  then show ?thesis
    using t m'(1) by blast
qed

text \<open>The sleepers on the buffers of \<open>Q\<close> are woken.\<close>

definition awake :: "nat list \<Rightarrow> proc \<Rightarrow> proc" where
  "awake Q q = (if p_state q = SLEEPING \<and> (\<exists>b \<in> set Q. p_chan q = Some (ChBuf b)) then q\<lparr>p_state := RUNNABLE\<rparr> else q)"

lemma awake_simps: "awake [] q = q" "awake (b # Q) q = awake Q (woken (ChBuf b) q)"
  by (auto simp: awake_def woken_def)

lemma ide_drain:
  fixes s :: "('d, 'z) ide_st_scheme"
  assumes disk: "ata_disk P store job"
  shows "calm s \<Longrightarrow> ide_inv store job s Q \<Longrightarrow> mem_sim store s Q m \<Longrightarrow>
    \<exists>t m'. for_each Q (\<lambda>_. ideintr_pio P) s = Ok () t \<and> for_each Q iderw m = Ok () m' \<and> ide_inv store job t [] \<and> calm t \<and> mem_sim store t [] m' \<and>
      (\<forall>c. if c \<in> set Q then flags (bufs t c) AND 6 = 2 else bufs t c = bufs s c) \<and>
      (\<forall>p < NPROC. ptable t p = awake Q (ptable s p)) \<and> curproc t = curproc s"
proof (induction Q arbitrary: s m)
  case (Cons b Q)
  obtain u k where u: "ideintr_pio P s = Ok () u" "iderw b m = Ok () k" "ide_inv store job u Q" "calm u" "mem_sim store u Q k"
      "bufs u = (bufs s)(b := served (store (io s) True) (bufs s b))" "ptable u = ptable (wake (ChBuf b) s)" "curproc u = curproc s"
    using sim_step [OF disk Cons.prems] by blast
  have b: "b \<notin> set Q"
    using Cons.prems(2) by (simp add: ide_inv_def)
  obtain t m' where t: "for_each Q (\<lambda>_. ideintr_pio P) u = Ok () t" "for_each Q iderw k = Ok () m'" "ide_inv store job t []" "calm t" "mem_sim store t [] m'"
      and c: "\<And>c. if c \<in> set Q then flags (bufs t c) AND 6 = 2 else bufs t c = bufs u c" and p: "\<And>p. p < NPROC \<Longrightarrow> ptable t p = awake Q (ptable u p)"
      and r: "curproc t = curproc u"
    using Cons.IH [OF u(4,3,5)] by blast
  have "if c \<in> set (b # Q) then flags (bufs t c) AND 6 = 2 else bufs t c = bufs s c" for c
    using c [of c] b by (auto simp: u(6) served_flags split: if_splits)
  moreover have "\<forall>p < NPROC. ptable t p = awake (b # Q) (ptable s p)"
    by (simp add: p u(7) awake_simps wake_def)
  ultimately show ?case
    using t r u(1,2,8) by (auto simp: kern_simps)
qed (auto simp: awake_simps)

text \<open>A request is linked at the end of the queue and, if it is alone there, started; the caller sleeps on the buffer.\<close>

definition linked :: "nat list \<Rightarrow> nat \<Rightarrow> ('d, 'z) ide_st_scheme \<Rightarrow> ('d, 'z) ide_st_scheme" where
  "linked Q b s = (let s = upd_buf b (\<lambda>q. q\<lparr>b_qnext := None\<rparr>) s in
     if Q = [] then s\<lparr>idequeue := Some b\<rparr> else upd_buf (last Q) (\<lambda>q. q\<lparr>b_qnext := Some b\<rparr>) s)"

lemma linked_fields:
  "core (bufs (linked Q b s) c) = core (bufs s c)" "io (linked Q b s) = io s" "havedisk1 (linked Q b s) = havedisk1 s" "calm (linked Q b s) = calm s"
  "curproc (linked Q b s) = curproc s" "ptable (linked Q b s) = ptable s"
  by (simp_all add: linked_def Let_def)

lemma linked_queue:
  assumes "ide_inv store job s Q" "b \<notin> set Q"
  shows "qlist (bufs (linked Q b s)) (idequeue (linked Q b s)) (Q @ [b])"
proof (cases "Q = []")
  case False
  have "qlist ((bufs s)(b := (bufs s b)\<lparr>b_qnext := None\<rparr>)) (idequeue s) Q"
    using assms by (subst qlist_cong [where bs = "bufs s"]) (auto simp: ide_inv_def)
  moreover have "distinct Q"
    using assms(1) by (simp add: ide_inv_def)
  ultimately show ?thesis
    using qlist_snoc [of "(bufs s)(b := (bufs s b)\<lparr>b_qnext := None\<rparr>)" "idequeue s" Q b] assms(2) False by (simp add: linked_def Let_def)
qed (simp add: linked_def Let_def)

lemma iderw_linked:
  fixes s :: "('d, 'z) ide_st_scheme"
  assumes calm: "calm s" and inv: "ide_inv store job s Q" and q: "request (bufs s b)" "b \<notin> set Q"
  shows "iderw_pio P b s = thn (whenk (Q = []) (idestart P (Some b))) (iderw_wait b) (hold LkIde (linked Q b s))"
proof -
  let ?s = "upd_buf b (\<lambda>q. q\<lparr>b_qnext := None\<rparr>) s"
  have f: "flags (bufs s b) AND 1 \<noteq> 0" "flags (bufs s b) AND 6 \<noteq> 2" "havedisk1 s" "distinct Q" "set Q \<subseteq> {..<NBUF}"
    using q inv by (simp_all add: request_def ide_inv_def)
  have "card (set Q) \<le> card {..<NBUF}"
    using f(5) by (rule card_mono [rotated]) simp
  then have len: "length Q < NBUF + 1"
    using f(4) by (simp add: distinct_card)
  have "qlist (bufs ?s) (idequeue s) Q"
    using inv q(2) by (subst qlist_cong [where bs = "bufs s"]) (auto simp: ide_inv_def)
  then have "ide_tail (NBUF + 1) None (idequeue s) (hold LkIde ?s) = Ok (if Q = [] then None else Some (last Q)) (hold LkIde ?s)"
    using ide_tail_spec [of "hold LkIde ?s" "idequeue s" Q "NBUF + 1" None] len by simp
  moreover have "(idequeue s = Some b) = False" "idequeue s = None \<longleftrightarrow> Q = []"
    using inv q(2) by (cases Q; auto simp: ide_inv_def)+
  ultimately show ?thesis
    using calm f by (simp add: iderw_pio_def kern_simps acquire_free linked_def Let_def whenk_def del: ide_tail.simps)
qed

lemma iderw_sleeps:
  fixes s :: "('d, 'z) ide_st_scheme"
  assumes disk: "ata_disk P store job" and s: "calm s" "curproc s = Some p" and inv: "ide_inv store job s Q" and q: "request (bufs s b)" "b \<notin> set Q" "b < NBUF"
  shows "\<exists>t. iderw_pio P b s = Switch (Some (ChBuf b)) (hold LkPtable (upd_proc p (\<lambda>q. q\<lparr>p_chan := Some (ChBuf b), p_state := SLEEPING\<rparr>) t)) \<and>
    ide_inv store job t (Q @ [b]) \<and> calm t \<and> curproc t = Some p \<and> ptable t = ptable s \<and> (\<forall>c. core (bufs t c) = core (bufs s c)) \<and>
    store (io t) = (if Q = [] then written (bufs s b) (store (io s)) else store (io s))"
proof -
  let ?l = "linked Q b s"
  have r: "request (bufs ?l c) = request (bufs s c)" "started store job d (bufs ?l c) = started store job d (bufs s c)" "written (bufs ?l c) = written (bufs s c)" for c d
    by (rule core_eq [OF linked_fields(1)])+
  have w: "calm u \<Longrightarrow> curproc u = Some p \<Longrightarrow> bufs u = bufs ?l \<Longrightarrow> iderw_wait b (hold LkIde u) =
      Switch (Some (ChBuf b)) (hold LkPtable (upd_proc p (\<lambda>q. q\<lparr>p_chan := Some (ChBuf b), p_state := SLEEPING\<rparr>) u))" for u :: "('d, 'z) ide_st_scheme"
    using q(1) r(1) [of b] by (simp add: iderw_wait_def kern_simps sleep_eq request_def)
  have i: "qlist (bufs ?l) (idequeue ?l) (Q @ [b])" "distinct (Q @ [b])" "set (Q @ [b]) \<subseteq> {..<NBUF}" "\<forall>c \<in> set (Q @ [b]). request (bufs ?l c)" "havedisk1 ?l"
    using linked_queue [OF inv q(2)] inv q r(1) by (simp_all add: ide_inv_def linked_fields)
  have l: "calm ?l" "curproc ?l = Some p"
    using s by (simp_all add: linked_fields)
  show ?thesis
  proof (cases Q)
    case Nil
    then have "job (io s) = None"
      using inv by (simp add: ide_inv_def)
    then obtain d where d: "idestart P (Some b) (hold LkIde ?l) = Ok () (hold LkIde (?l\<lparr>io := d\<rparr>))" "started store job d (bufs ?l b)" "store d = written (bufs s b) (store (io s))"
      using idestart_spec [OF disk, of "hold LkIde ?l" b] i(4) r(3) by (auto simp: linked_fields)
    then show ?thesis
      using iderw_linked [OF s(1) inv q(1,2), of P] Nil i l w [of "?l\<lparr>io := d\<rparr>"]
      by (intro exI [of _ "?l\<lparr>io := d\<rparr>"]) (simp add: kern_simps whenk_def ide_inv_def linked_fields)
  next
    case (Cons e R)
    then have "started store job (io ?l) (bufs ?l e)"
      unfolding r(2) linked_fields using inv by (simp add: ide_inv_def)
    then have "ide_inv store job ?l (Q @ [b])"
      using i Cons by (simp add: ide_inv_def)
    then show ?thesis
      using iderw_linked [OF s(1) inv q(1,2), of P] l w [of ?l] Cons by (intro exI [of _ ?l]) (simp add: kern_simps whenk_def linked_fields)
  qed
qed

lemma upd_proc_ide [simp]:
  "bufs (upd_proc p f r) = bufs r" "io (upd_proc p f s) = io s" "idequeue (upd_proc p f t) = idequeue t" "havedisk1 (upd_proc p f t) = havedisk1 t"
  by (simp_all add: upd_proc_def)

lemma upd_proc_inv [simp]: "ide_inv store job (upd_proc p f s) Q = ide_inv store job s Q" "mem_sim store (upd_proc p f s) Q m = mem_sim store s Q m"
  by (simp_all add: ide_inv_def mem_sim_def split: list.split)

text \<open>
  C5.  A request to the IDE disk, from the call to its return, when the disk keeps to the protocol.  The requests \<open>Q\<close> are in the queue when a process calls
  \<^verbatim>\<open>iderw\<close> for the locked buffer \<open>b\<close>, of disk 1.  The process goes to sleep on the buffer.  After one interrupt per queued request, all the requests of the queue have been
  served in the order in which they were made: the buffers (except for the links of the queue) and the content of the disk are what the memory disk of \<^verbatim>\<open>memide.c\<close> leaves when it
  is called for the buffers one after the other.  The process is runnable by then, and, when it is scheduled again, its call returns with the queue empty and the disk idle.
\<close>

theorem ide_request_served:
  fixes s :: "('d, 'z) ide_st_scheme"
  assumes "ata_disk P store job" "calm s" "curproc s = Some p" "p < NPROC" "ide_inv store job s Q" "request (bufs s b)" "b \<notin> set Q" "b < NBUF"
  shows "\<exists>t t' m v. iderw_pio P b s = Switch (Some (ChBuf b)) (hold LkPtable t) \<and> p_state (ptable t p) = SLEEPING \<and>
    for_each (Q @ [b]) (\<lambda>_. ideintr_pio P) t = Ok () t' \<and>
    for_each (Q @ [b]) iderw (s\<lparr>disk := store (io s) True, disksize := 0x10000000\<rparr>) = Ok () m \<and>
    (\<forall>c. core (bufs t' c) = core (bufs m c)) \<and> store (io t') True = disk m \<and> p_state (ptable t' p) = RUNNABLE \<and>
    iderw_resume b (iflag (my_cpu t')) (hold LkPtable (upd_proc p (\<lambda>q. q\<lparr>p_state := RUNNING\<rparr>) t')) = Ok () v \<and> bufs v = bufs t' \<and> ide_inv store job v []"
proof -
  let ?m = "s\<lparr>disk := store (io s) True, disksize := 0x10000000\<rparr>" and ?f = "\<lambda>q. q\<lparr>p_chan := Some (ChBuf b), p_state := SLEEPING\<rparr>"
  obtain t where t: "iderw_pio P b s = Switch (Some (ChBuf b)) (hold LkPtable (upd_proc p ?f t))" "ide_inv store job t (Q @ [b])" "calm t" "curproc t = Some p"
      "\<And>c. core (bufs t c) = core (bufs s c)" "store (io t) = (if Q = [] then written (bufs s b) (store (io s)) else store (io s))"
    using iderw_sleeps [OF assms(1-3,5-8)] by blast
  have "put (bufs s c) (store (io s) True) = store (io s) True" if "Q = c # R" for c R
    using assms(5) that by (auto simp: ide_inv_def started_def put_def)
  then have "mem_sim store t (Q @ [b]) ?m"
    by (cases Q) (simp_all add: mem_sim_def t(5,6) written_put)
  then obtain t' m where d: "for_each (Q @ [b]) (\<lambda>_. ideintr_pio P) (upd_proc p ?f t) = Ok () t'" "for_each (Q @ [b]) iderw ?m = Ok () m"
      "ide_inv store job t' []" "calm t'" "mem_sim store t' [] m" "flags (bufs t' b) AND 6 = 2" "ptable t' p = awake (Q @ [b]) (ptable (upd_proc p ?f t) p)" "curproc t' = Some p"
    using ide_drain [OF assms(1), of "upd_proc p ?f t" "Q @ [b]" ?m] t(2-4) assms(4) by auto
  let ?g = "\<lambda>q. q\<lparr>p_state := RUNNING\<rparr>"
  have "iderw_resume b (iflag (my_cpu t')) (hold LkPtable (upd_proc p ?g t')) = Ok () (upd_proc p (\<lambda>q. q\<lparr>p_chan := None\<rparr>) (upd_proc p ?g t'))"
    using d(4,6,8) sleep_resume_eq [of "upd_proc p ?g t'" p _ LkIde] by (simp add: iderw_resume_def iderw_wait_def kern_simps release_hold)
  then show ?thesis
    using t(1) d(1-3,5,7)
    by (intro exI [of _ "upd_proc p ?f t"] exI [of _ t'] exI [of _ m] exI [of _ "upd_proc p (\<lambda>q. q\<lparr>p_chan := None\<rparr>) (upd_proc p ?g t')"])
      (simp add: mem_sim_def awake_def)
qed

text \<open>A disk that is always ready: its registers, the sectors of the two drives, and the sector being read.\<close>

definition ready_regs :: "(ushort \<Rightarrow> uchar) \<Rightarrow> bool \<times> uint32" where
  "ready_regs r = (bit (r 0x1f6) 4, lba (r 0x1f3) (r 0x1f4) (r 0x1f5) (r 0x1f6))"

definition ready_disk :: "((ushort \<Rightarrow> uchar) \<times> (bool \<Rightarrow> uint32 \<Rightarrow> uchar list) \<times> (bool \<times> uint32) option) ports" where
  "ready_disk = \<lparr>io_inb = (\<lambda>port d. (0x40, d)),
     io_outb = (\<lambda>port v (r, m, j). if port = 0x1f7 \<and> v = 0x20 then (r, m, Some (ready_regs r)) else (r(port := v), m, j)),
     io_insl = (\<lambda>port n (r, m, j). case j of None \<Rightarrow> ([], r, m, j) | Some (dr, k) \<Rightarrow> (m dr k, r, m, None)),
     io_outsl = (\<lambda>port bs (r, m, j). case ready_regs r of (dr, k) \<Rightarrow> (r, m(dr := (m dr)(k := bs)), j)),
     io_read = (\<lambda>a d. (0, d)), io_write = (\<lambda>a v d. d)\<rparr>"

lemma ready_disk: "ata_disk ready_disk (\<lambda>(r, m, j). m) (\<lambda>(r, m, j). j)"
proof -
  have "poll ready_disk (2 ^ 20) d = Some (0x40, d)" for d
    using poll.simps(2) [of ready_disk "2 ^ 20 - 1" d] by (simp add: ready_disk_def del: poll.simps)
  moreover have "ata_regs ready_disk a b c e (r, m, j) = (r(0x3f6 := 0, 0x1f2 := 1, 0x1f3 := a, 0x1f4 := b, 0x1f5 := c, 0x1f6 := e), m, j)" for a b c e r m j
    by (simp add: ata_regs_def ready_disk_def)
  moreover have "io_outb ready_disk 0x1f7 0x20 (r, m, j) = (r, m, Some (ready_regs r))" "io_outb ready_disk 0x1f7 0x30 (r, m, j) = (r(0x1f7 := 0x30), m, j)"
    "io_outsl ready_disk p bs (r, m, j) = (r, m(fst (ready_regs r) := (m (fst (ready_regs r)))(snd (ready_regs r) := bs)), j)"
    "io_insl ready_disk p n (r, m, Some (dr, k)) = (m dr k, r, m, None)" for r m j dr k p n bs
    by (simp_all add: ready_disk_def ready_regs_def)
  ultimately show ?thesis
    unfolding ata_disk_def Let_def by (simp add: ready_regs_def del: poll.simps)
qed

text \<open>Buffer 5 is being written to sector 7 when buffer 3 is read from there.\<close>

definition ide_busy :: "((ushort \<Rightarrow> uchar) \<times> (bool \<Rightarrow> uint32 \<Rightarrow> uchar list) \<times> (bool \<times> uint32) option) ide_st" where
  "ide_busy = io_st.extend (bio_st.extend (disk_boot\<lparr>bufs := (bufs disk_boot)
       (5 := (bufs disk_boot 5)\<lparr>flags := 5, b_dev := 1, b_sector := 7, b_data := replicate 512 9\<rparr>, 3 := (bufs disk_boot 3)\<lparr>flags := 1, b_dev := 1, b_sector := 7\<rparr>)\<rparr>)
     (io_st.fields (\<lambda>_. 0, (\<lambda>_ _. replicate 512 0)(True := (\<lambda>_. replicate 512 0)(7 := replicate 512 9)), None) 0xbffb True 2)) (ide_st.fields (Some 5) True)"

lemma ide_busy_facts: "calm ide_busy" "curproc ide_busy = Some 1" "idequeue ide_busy = Some 5" "havedisk1 ide_busy"
  "bufs ide_busy 5 = \<lparr>flags = 5, b_dev = 1, b_sector = 7, b_prev = 0, b_next = 0, b_qnext = None, b_data = replicate 512 9\<rparr>"
  "bufs ide_busy 3 = \<lparr>flags = 1, b_dev = 1, b_sector = 7, b_prev = 0, b_next = 0, b_qnext = None, b_data = replicate 512 0\<rparr>"
  "io ide_busy = (\<lambda>_. 0, (\<lambda>_ _. replicate 512 0)(True := (\<lambda>_. replicate 512 0)(7 := replicate 512 9)), None)"
  by (simp_all add: ide_busy_def disk_boot_def io_st.extend_def bio_st.extend_def io_st.fields_def ide_st.fields_def
      sched_st.extend_def bio_st.fields_def boot_simps calm_def lock_free_def curproc_def)


theorem ide_request_served_witness:
  "\<exists>t t' v. iderw_pio ready_disk 3 ide_busy = Switch (Some (ChBuf 3)) (hold LkPtable t) \<and> for_each [5, 3] (\<lambda>_. ideintr_pio ready_disk) t = Ok () t' \<and>
    b_data (bufs t' 3) = replicate 512 9 \<and>
    iderw_resume 3 (iflag (my_cpu t')) (hold LkPtable (upd_proc 1 (\<lambda>q. q\<lparr>p_state := RUNNING\<rparr>) t')) = Ok () v \<and> flags (bufs v 3) = 3"
proof -
  let ?S = "\<lambda>(r, m, j). m" and ?J = "\<lambda>(r, m, j). j"
  have "ide_inv ?S ?J ide_busy [5]" "request (bufs ide_busy 3)"
    by (simp_all add: ide_inv_def request_def started_def ide_busy_facts)
  then obtain t t' m v where t: "iderw_pio ready_disk 3 ide_busy = Switch (Some (ChBuf 3)) (hold LkPtable t)"
      "for_each [5, 3] (\<lambda>_. ideintr_pio ready_disk) t = Ok () t'" "for_each [5, 3] iderw (ide_busy\<lparr>disk := ?S (io ide_busy) True, disksize := 0x10000000\<rparr>) = Ok () m"
      "core (bufs t' 3) = core (bufs m 3)"
      "iderw_resume 3 (iflag (my_cpu t')) (hold LkPtable (upd_proc 1 (\<lambda>q. q\<lparr>p_state := RUNNING\<rparr>) t')) = Ok () v" "bufs v = bufs t'"
    using ide_request_served [OF ready_disk ide_busy_facts(1,2), of "[5]" 3] by auto
  have "b_data (bufs m 3) = replicate 512 9" "flags (bufs m 3) = 3"
    using t(3) by (auto simp: iderw_def kern_simps ide_busy_facts)
  then have "b_data (bufs t' 3) = replicate 512 9" "flags (bufs v 3) = 3"
    using arg_cong [OF t(4), of b_data] arg_cong [OF t(4), of flags] by (simp_all add: t(6))
  then show ?thesis
    using t(1,2,5) by (intro exI [of _ t] exI [of _ t'] exI [of _ v]) simp
qed

end
