(* ===== verification/User.thy ===== *)
theory User
  imports Dir Format
begin

text \<open>
  The user library (\<^verbatim>\<open>src/ulib.c\<close>: \<^verbatim>\<open>gets\<close>, \<^verbatim>\<open>stat\<close>), \<^verbatim>\<open>src/printf.c\<close> and the small programs \<^verbatim>\<open>cat\<close>, \<^verbatim>\<open>wc\<close>, \<^verbatim>\<open>echo\<close>, \<^verbatim>\<open>ls\<close>, \<^verbatim>\<open>kill\<close>, \<^verbatim>\<open>ln\<close>, \<^verbatim>\<open>mkdir\<close> and \<^verbatim>\<open>rm\<close>.
  A program runs in a world that answers its system calls: an open descriptor delivers the pieces that successive reads return, however the kernel
  cuts the data, and a write is recorded.  A program returns, exits, or does something C leaves undefined.
\<close>

named_theorems user_simps

section \<open>The world of a program\<close>

text \<open>
  \<open>of_reads\<close>: what the next reads return, \<open>None\<close> an error, and nothing more at the end of the file; \<open>of_stat\<close>: what \<^verbatim>\<open>fstat\<close> returns.
\<close>

record ufile =
  of_reads :: "uchar list option list"
  of_stat :: "stat option"

datatype ucall = KillCall int | LinkCall "uchar list" "uchar list" | MkdirCall "uchar list" | UnlinkCall "uchar list"

record uworld =
  w_names :: "uchar list \<Rightarrow> ufile option"
  w_fds :: "nat \<Rightarrow> ufile option"
  w_out :: "(nat \<times> uchar list) list"
  w_calls :: "ucall list"
  w_answer :: "ucall \<Rightarrow> int"

datatype 'a ures = URet 'a uworld | UExit uworld | UCrash string

type_synonym 'a user = "uworld \<Rightarrow> 'a ures"

definition uret :: "'a \<Rightarrow> 'a user" where
  "uret x = (\<lambda>w. URet x w)"

definition uexit :: "'a user" where
  "uexit = (\<lambda>w. UExit w)"

definition ucrash :: "string \<Rightarrow> 'a user" where
  "ucrash msg = (\<lambda>w. UCrash msg)"

definition ubnd :: "'a user \<Rightarrow> ('a \<Rightarrow> 'b user) \<Rightarrow> 'b user" where
  "ubnd m f = (\<lambda>w. case m w of URet x v \<Rightarrow> f x v | UExit v \<Rightarrow> UExit v | UCrash e \<Rightarrow> UCrash e)"

definition uthn :: "'a user \<Rightarrow> 'b user \<Rightarrow> 'b user" where
  "uthn m n = ubnd m (\<lambda>_. n)"

fun ufor :: "'a list \<Rightarrow> ('a \<Rightarrow> unit user) \<Rightarrow> unit user" where
  "ufor [] f = uret ()"
| "ufor (x # xs) f = uthn (f x) (ufor xs f)"

lemma user_ops [user_simps]:
  "uret x w = URet x w" "uexit w = UExit w" "ucrash e w = UCrash e"
  "ubnd m f w = (case m w of URet x v \<Rightarrow> f x v | UExit v \<Rightarrow> UExit v | UCrash e \<Rightarrow> UCrash e)"
  "uthn m n w = (case m w of URet x v \<Rightarrow> n v | UExit v \<Rightarrow> UExit v | UCrash e \<Rightarrow> UCrash e)"
  by (simp_all add: uret_def uexit_def ucrash_def ubnd_def uthn_def)

lemma uthn_URet: "m w = URet x v \<Longrightarrow> uthn m n w = n v"
  by (simp add: user_simps)

section \<open>System calls\<close>

definition fd_put :: "nat \<Rightarrow> ufile option \<Rightarrow> uworld \<Rightarrow> uworld" where
  "fd_put k f w = w\<lparr>w_fds := (w_fds w)(k := f)\<rparr>"

definition u_open :: "uchar list \<Rightarrow> int user" where
  "u_open name = (\<lambda>w. case w_names w name of
       None \<Rightarrow> URet (- 1) w
     | Some f \<Rightarrow> (case find (\<lambda>fd. w_fds w fd = None) [0..<NOFILE] of
         None \<Rightarrow> URet (- 1) w
       | Some fd \<Rightarrow> URet (int fd) (fd_put fd (Some f) w)))"

definition u_close :: "int \<Rightarrow> unit user" where
  "u_close fd = (\<lambda>w. URet () (fd_put (nat fd) None w))"

definition u_read :: "int \<Rightarrow> nat \<Rightarrow> (int \<times> uchar list) user" where
  "u_read fd n = (\<lambda>w. case w_fds w (nat fd) of
       None \<Rightarrow> URet (- 1, []) w
     | Some f \<Rightarrow> (case of_reads f of
         [] \<Rightarrow> URet (0, []) w
       | None # rs \<Rightarrow> URet (- 1, []) (fd_put (nat fd) (Some (f\<lparr>of_reads := rs\<rparr>)) w)
       | Some bs # rs \<Rightarrow>
           if length bs \<le> n then URet (int (length bs), bs) (fd_put (nat fd) (Some (f\<lparr>of_reads := rs\<rparr>)) w)
           else URet (int n, take n bs) (fd_put (nat fd) (Some (f\<lparr>of_reads := Some (drop n bs) # rs\<rparr>)) w)))"

definition u_write :: "nat \<Rightarrow> uchar list \<Rightarrow> int user" where
  "u_write fd bs = (\<lambda>w. URet (int (length bs)) (w\<lparr>w_out := w_out w @ [(fd, bs)]\<rparr>))"

definition u_fstat :: "int \<Rightarrow> stat option user" where
  "u_fstat fd = (\<lambda>w. URet (case w_fds w (nat fd) of None \<Rightarrow> None | Some f \<Rightarrow> of_stat f) w)"

definition u_call :: "ucall \<Rightarrow> int user" where
  "u_call c = (\<lambda>w. URet (w_answer w c) (w\<lparr>w_calls := w_calls w @ [c]\<rparr>))"

text \<open>A bound on the number of reads that return something, from which the loops over an input are seen to end.\<close>

definition reads_left :: "int \<Rightarrow> uworld \<Rightarrow> nat" where
  "reads_left fd w = (case w_fds w (nat fd) of None \<Rightarrow> 0 | Some f \<Rightarrow> sum_list (map (\<lambda>r. case r of None \<Rightarrow> 0 | Some bs \<Rightarrow> length bs) (of_reads f)))"

lemma fd_put_simps [simp]:
  "w_fds (fd_put k f w) = (w_fds w)(k := f)" "w_names (fd_put k f w) = w_names w" "w_out (fd_put k f w) = w_out w"
  "fd_put k g (fd_put k f w) = fd_put k g w" "w_fds w k = f \<Longrightarrow> fd_put k f w = w"
  "fd_put k g (w\<lparr>w_out := out\<rparr>) = (fd_put k g w)\<lparr>w_out := out\<rparr>"
  by (auto simp: fd_put_def fun_upd_idem)

lemma u_read_less:
  assumes "u_read fd k w = URet (n, bs) v" "0 < n"
  shows "reads_left fd v < reads_left fd w"
  using assms by (auto simp: u_read_def reads_left_def split: option.splits list.splits if_splits)

lemma u_write_reads: "u_write fd' bs v = URet n v' \<Longrightarrow> reads_left fd v' = reads_left fd v"
  by (auto simp: u_write_def reads_left_def)

section \<open>printf.c\<close>

definition putc :: "nat \<Rightarrow> uchar \<Rightarrow> unit user" where
  "putc fd c = uthn (u_write fd [c]) (uret ())"

definition HEXDIGIT :: "nat \<Rightarrow> uchar" where
  "HEXDIGIT d = (if d < 10 then 48 + of_nat d else 55 + of_nat d)"

definition u_printint :: "nat \<Rightarrow> int \<Rightarrow> uint32 \<Rightarrow> bool \<Rightarrow> unit user" where
  "u_printint fd xx base sg = (case printint_buf HEXDIGIT xx base sg of
       None \<Rightarrow> ucrash ''buf overflow''
     | Some ds \<Rightarrow> ufor (rev ds) (putc fd))"

text \<open>The loop of \<^verbatim>\<open>printf\<close>; the flag is \<^verbatim>\<open>state == '%'\<close>.  An argument that is missing, or of the wrong kind for its directive, is undefined.\<close>

fun printf_loop :: "nat \<Rightarrow> bool \<Rightarrow> uchar list \<Rightarrow> carg list \<Rightarrow> unit user" where
  "printf_loop fd st [] args = uret ()"
| "printf_loop fd False (c # fmt) args =
     (if c = 37 then printf_loop fd True fmt args
      else uthn (putc fd c) (printf_loop fd False fmt args))"
| "printf_loop fd True (c # fmt) args =
     (if c = 100 then
        (case args of
           CInt x # args' \<Rightarrow> uthn (u_printint fd (sint x) 10 True) (printf_loop fd False fmt args')
         | _ \<Rightarrow> ucrash ''printf argument'')
      else if c = 120 \<or> c = 112 then
        (case args of
           CInt x # args' \<Rightarrow> uthn (u_printint fd (sint x) 16 False) (printf_loop fd False fmt args')
         | _ \<Rightarrow> ucrash ''printf argument'')
      else if c = 115 then
        (case args of
           CStr bs # args' \<Rightarrow> uthn (ufor bs (putc fd)) (printf_loop fd False fmt args')
         | CInt x # args' \<Rightarrow> if x = 0 then uthn (ufor (map of_char ''(null)'') (putc fd)) (printf_loop fd False fmt args') else ucrash ''printf argument''
         | [] \<Rightarrow> ucrash ''printf argument'')
      else if c = 99 then
        (case args of
           CInt x # args' \<Rightarrow> uthn (putc fd (ucast x)) (printf_loop fd False fmt args')
         | _ \<Rightarrow> ucrash ''printf argument'')
      else if c = 37 then uthn (putc fd c) (printf_loop fd False fmt args)
      else uthn (putc fd 37) (uthn (putc fd c) (printf_loop fd False fmt args)))"

definition printf :: "nat \<Rightarrow> string \<Rightarrow> carg list \<Rightarrow> unit user" where
  "printf fd fmt args = printf_loop fd False (map of_char fmt) args"

section \<open>ulib.c\<close>

text \<open>\<^verbatim>\<open>gets\<close>: \<open>mx\<close> is the size of the buffer, \<open>buf\<close> the bytes stored so far; the NUL goes to the place after them.\<close>

fun gets_loop :: "nat \<Rightarrow> uchar list \<Rightarrow> uchar list user" where
  "gets_loop 0 buf = uret buf"
| "gets_loop (Suc k) buf =
     ubnd (u_read 0 1) (\<lambda>(cc, bs).
     if cc < 1 then uret buf
     else let buf = buf @ bs in
       if bs = [10] \<or> bs = [13] then uret buf else gets_loop k buf)"

definition gets :: "nat \<Rightarrow> uchar list user" where
  "gets mx = gets_loop (mx - 1) []"

definition ulib_stat :: "uchar list \<Rightarrow> stat option user" where
  "ulib_stat n =
     ubnd (u_open n) (\<lambda>fd.
     if fd < 0 then uret None
     else ubnd (u_fstat fd) (\<lambda>r. uthn (u_close fd) (uret r)))"

section \<open>cat.c\<close>

text \<open>The last value of \<^verbatim>\<open>n\<close> is the result of the loop.\<close>

function cat_loop :: "int \<Rightarrow> int user" where
  "cat_loop fd w = (case u_read fd 512 w of
       URet (n, bs) v \<Rightarrow>
         if n > 0 then (case u_write 1 bs v of URet _ v' \<Rightarrow> cat_loop fd v' | UExit v' \<Rightarrow> UExit v' | UCrash e \<Rightarrow> UCrash e)
         else URet n v
     | UExit v \<Rightarrow> UExit v
     | UCrash e \<Rightarrow> UCrash e)"
  by pat_completeness auto

termination
  by (relation "measure (\<lambda>(fd, w). reads_left fd w)") (auto simp: u_write_reads dest: u_read_less)

declare cat_loop.simps [simp del]

definition cat :: "int \<Rightarrow> unit user" where
  "cat fd =
     ubnd (cat_loop fd) (\<lambda>n.
     if n < 0 then uthn (printf 1 ''cat: read error\<newline>'' []) uexit else uret ())"

definition cat_main :: "uchar list list \<Rightarrow> unit user" where
  "cat_main argv =
     (if length argv \<le> 1 then uthn (cat 0) uexit
      else uthn (ufor (tl argv) (\<lambda>arg.
        ubnd (u_open arg) (\<lambda>fd.
        if fd < 0 then uthn (printf 1 ''cat: cannot open %s\<newline>'' [CStr arg]) uexit
        else uthn (cat fd) (u_close fd)))) uexit)"

section \<open>wc.c\<close>

record wc_st =
  wc_l :: uint32
  wc_w :: uint32
  wc_c :: uint32
  wc_inword :: bool

definition wc_space :: "uchar \<Rightarrow> bool" where
  "wc_space b = (b \<in> {32, 13, 9, 10, 11})"

definition wc_byte :: "uchar \<Rightarrow> wc_st \<Rightarrow> wc_st" where
  "wc_byte b s =
     (let s = s\<lparr>wc_c := wc_c s + 1\<rparr>;
          s = (if b = 10 then s\<lparr>wc_l := wc_l s + 1\<rparr> else s) in
      if wc_space b then s\<lparr>wc_inword := False\<rparr>
      else if \<not> wc_inword s then s\<lparr>wc_w := wc_w s + 1, wc_inword := True\<rparr>
      else s)"

function wc_loop :: "int \<Rightarrow> wc_st \<Rightarrow> (int \<times> wc_st) user" where
  "wc_loop fd s w = (case u_read fd 512 w of
       URet (n, bs) v \<Rightarrow> if n > 0 then wc_loop fd (fold wc_byte bs s) v else URet (n, s) v
     | UExit v \<Rightarrow> UExit v
     | UCrash e \<Rightarrow> UCrash e)"
  by pat_completeness auto

termination
  by (relation "measure (\<lambda>(fd, s, w). reads_left fd w)") (auto dest: u_read_less)

declare wc_loop.simps [simp del]

definition wc :: "int \<Rightarrow> uchar list \<Rightarrow> unit user" where
  "wc fd name =
     ubnd (wc_loop fd \<lparr>wc_l = 0, wc_w = 0, wc_c = 0, wc_inword = False\<rparr>) (\<lambda>(n, s).
     if n < 0 then uthn (printf 1 ''wc: read error\<newline>'' []) uexit
     else printf 1 ''%d %d %d %s\<newline>'' [CInt (wc_l s), CInt (wc_w s), CInt (wc_c s), CStr name])"

definition wc_main :: "uchar list list \<Rightarrow> unit user" where
  "wc_main argv =
     (if length argv \<le> 1 then uthn (wc 0 []) uexit
      else uthn (ufor (tl argv) (\<lambda>arg.
        ubnd (u_open arg) (\<lambda>fd.
        if fd < 0 then uthn (printf 1 ''wc: cannot open %s\<newline>'' [CStr arg]) uexit
        else uthn (wc fd arg) (u_close fd)))) uexit)"

section \<open>echo.c, kill.c, ln.c, mkdir.c, rm.c\<close>

fun echo_loop :: "uchar list list \<Rightarrow> unit user" where
  "echo_loop [] = uret ()"
| "echo_loop (arg # args) =
     uthn (printf 1 ''%s%s'' [CStr arg, CStr (map of_char (if args \<noteq> [] then '' '' else ''\<newline>''))]) (echo_loop args)"

definition echo_main :: "uchar list list \<Rightarrow> unit user" where
  "echo_main argv = uthn (echo_loop (tl argv)) uexit"

text \<open>\<^verbatim>\<open>atoi\<close> runs on a memory that holds the string.\<close>

definition kill_main :: "uchar list list \<Rightarrow> unit user" where
  "kill_main argv =
     (if length argv < 1 then uthn (printf 2 ''usage: kill pid...\<newline>'' []) uexit
      else uthn (ufor (tl argv) (\<lambda>arg.
        case atoi (write_bytes (\<lambda>_. 0) 0x1000 arg) 0x1000 of
          None \<Rightarrow> ucrash ''atoi''
        | Some pid \<Rightarrow> uthn (u_call (KillCall (sint pid))) (uret ()))) uexit)"

definition ln_main :: "uchar list list \<Rightarrow> unit user" where
  "ln_main argv = (case argv of
       [_, old, new] \<Rightarrow>
         ubnd (u_call (LinkCall old new)) (\<lambda>r.
         uthn (if r < 0 then printf 2 ''link %s %s: failed\<newline>'' [CStr old, CStr new] else uret ()) uexit)
     | _ \<Rightarrow> uthn (printf 2 ''Usage: ln old new\<newline>'' []) uexit)"

text \<open>The common loop of \<^verbatim>\<open>mkdir\<close> and \<^verbatim>\<open>rm\<close>, which ends at the first failure.\<close>

fun each_until :: "(uchar list \<Rightarrow> ucall) \<Rightarrow> string \<Rightarrow> uchar list list \<Rightarrow> unit user" where
  "each_until f msg [] = uret ()"
| "each_until f msg (arg # args) =
     ubnd (u_call (f arg)) (\<lambda>r. if r < 0 then printf 2 msg [CStr arg] else each_until f msg args)"

definition mkdir_main :: "uchar list list \<Rightarrow> unit user" where
  "mkdir_main argv =
     (if length argv < 2 then uthn (printf 2 ''Usage: mkdir files...\<newline>'' []) uexit
      else uthn (each_until MkdirCall ''mkdir: %s failed to create\<newline>'' (tl argv)) uexit)"

definition rm_main :: "uchar list list \<Rightarrow> unit user" where
  "rm_main argv =
     (if length argv < 2 then uthn (printf 2 ''Usage: rm files...\<newline>'' []) uexit
      else uthn (each_until UnlinkCall ''rm: %s failed to delete\<newline>'' (tl argv)) uexit)"

section \<open>ls.c\<close>

text \<open>The part after the last slash, padded with blanks to the length of a directory name in the static buffer, whose last byte is never written.\<close>

definition fmtname :: "uchar list \<Rightarrow> uchar list" where
  "fmtname path =
     (let p = rev (takeWhile (\<lambda>c. c \<noteq> 47) (rev path)) in
      if length p \<ge> DIRSIZ then p else p @ replicate (DIRSIZ - length p) 32)"

definition ls_line :: "uchar list \<Rightarrow> stat \<Rightarrow> unit user" where
  "ls_line path st = printf 1 ''%s %d %d %d\<newline>'' [CStr (fmtname path), CInt (scast (st_type st)), CInt (st_ino st), CInt (st_size st)]"

definition ls_entry :: "uchar list \<Rightarrow> uchar list \<Rightarrow> unit user" where
  "ls_entry path bs =
     (let de = get_dirent bs in
      if de_inum de = 0 then uret ()
      else
        let buf = path @ [47] @ takeWhile (\<lambda>c. c \<noteq> 0) (de_name de) in
        ubnd (ulib_stat buf) (\<lambda>r. case r of
            None \<Rightarrow> printf 1 ''ls: cannot stat %s\<newline>'' [CStr buf]
          | Some st \<Rightarrow> ls_line buf st))"

text \<open>The loop over the entries of an open directory; \<open>fuel\<close> bounds the number of the entries that are read.\<close>

fun ls_dir :: "nat \<Rightarrow> uchar list \<Rightarrow> int \<Rightarrow> unit user" where
  "ls_dir 0 path fd = uret ()"
| "ls_dir (Suc fuel) path fd =
     ubnd (u_read fd 16) (\<lambda>(n, bs).
     if n = 16 then uthn (ls_entry path bs) (ls_dir fuel path fd) else uret ())"

definition ls :: "uchar list \<Rightarrow> unit user" where
  "ls path =
     ubnd (u_open path) (\<lambda>fd.
     if fd < 0 then printf 2 ''ls: cannot open %s\<newline>'' [CStr path]
     else ubnd (u_fstat fd) (\<lambda>r. case r of
         None \<Rightarrow> uthn (printf 2 ''ls: cannot stat %s\<newline>'' [CStr path]) (u_close fd)
       | Some st \<Rightarrow>
           uthn (if st_type st = T_FILE then ls_line path st
                 else if st_type st = T_DEV \<or> st_type st = T_DIR then
                   (if length path + 1 + DIRSIZ + 1 > 512 then printf 1 ''ls: path too long\<newline>'' []
                    else (\<lambda>w. ls_dir (Suc (reads_left fd w)) path fd w))
                 else uret ())
             (u_close fd)))"

definition ls_main :: "uchar list list \<Rightarrow> unit user" where
  "ls_main argv =
     (if length argv < 2 then uthn (ls [46]) uexit
      else uthn (ufor (tl argv) ls) uexit)"

section \<open>What a program writes\<close>

text \<open>The world after the bytes \<open>bs\<close> have been written to \<open>fd\<close>, one at a time.\<close>

definition says :: "nat \<Rightarrow> uchar list \<Rightarrow> uworld \<Rightarrow> uworld" where
  "says fd bs w = w\<lparr>w_out := w_out w @ map (\<lambda>b. (fd, [b])) bs\<rparr>"

lemma says_says [user_simps]: "says fd cs (says fd bs w) = says fd (bs @ cs) w"
  by (simp add: says_def)

lemma says_fields [simp]: "w_names (says fd bs w) = w_names w" "w_fds (says fd bs w) = w_fds w" "reads_left g (says fd bs w) = reads_left g w"
  by (simp_all add: says_def reads_left_def)

lemma says_fds [user_simps]: "fd_put k f (says fd bs w) = says fd bs (fd_put k f w)"
  by (simp add: says_def)

lemma putc_says [user_simps]: "putc fd c w = URet () (says fd [c] w)"
  by (simp add: putc_def u_write_def says_def user_simps)

lemma ufor_putc [user_simps]: "ufor bs (putc fd) w = URet () (says fd bs w)"
  by (induction bs arbitrary: w) (simp_all add: user_simps, simp add: says_def)

lemma u_printint_says [user_simps]:
  fixes x :: uint32
  shows "u_printint fd (sint x) 10 True w = URet () (says fd (decimal_text HEXDIGIT (sint x)) w)"
    "u_printint fd (sint x) 16 False w = URet () (says fd (radix HEXDIGIT 16 (unat x)) w)"
  by (simp_all add: u_printint_def printint_buf_eq user_simps)

section \<open>wc\<close>

text \<open>The words of a text are the maximal runs of bytes that are not white space; they are counted at their first bytes.\<close>

definition word_starts :: "uchar list \<Rightarrow> nat set" where
  "word_starts bs = {i. i < length bs \<and> \<not> wc_space (bs ! i) \<and> (i = 0 \<or> wc_space (bs ! (i - 1)))}"

definition wc_result :: "uchar list \<Rightarrow> wc_st" where
  "wc_result bs = \<lparr>wc_l = of_nat (count_list bs 10), wc_w = of_nat (card (word_starts bs)), wc_c = of_nat (length bs),
     wc_inword = (bs \<noteq> [] \<and> \<not> wc_space (last bs))\<rparr>"

lemma word_starts_set: "word_starts bs = set (filter (\<lambda>i. \<not> wc_space (bs ! i) \<and> (i = 0 \<or> wc_space (bs ! (i - 1)))) [0..<length bs])"
  by (auto simp: word_starts_def)

lemma word_starts_snoc:
  "word_starts (bs @ [b]) = (if \<not> wc_space b \<and> (bs = [] \<or> wc_space (last bs)) then insert (length bs) (word_starts bs) else word_starts bs)"
proof -
  have "i \<in> word_starts (bs @ [b]) \<longleftrightarrow> (if i = length bs then \<not> wc_space b \<and> (bs = [] \<or> wc_space (last bs)) else i \<in> word_starts bs)" for i
  proof (cases "bs = []")
    case False
    then have "last bs = bs ! (length bs - 1)" "0 < length bs"
      by (simp_all add: last_conv_nth)
    then show ?thesis
      using False by (cases i) (auto simp: word_starts_def nth_append less_Suc_eq)
  qed (auto simp: word_starts_def)
  moreover have "length bs \<notin> word_starts bs"
    by (simp add: word_starts_def)
  ultimately show ?thesis
    by (intro set_eqI) simp
qed

lemma wc_fold: "fold wc_byte bs \<lparr>wc_l = 0, wc_w = 0, wc_c = 0, wc_inword = False\<rparr> = wc_result bs"
proof (induction bs rule: rev_induct)
  case Nil
  show ?case
    by (simp add: wc_result_def word_starts_def)
next
  case (snoc b bs)
  have f: "finite (word_starts bs)" "length bs \<notin> word_starts bs"
    by (simp_all add: word_starts_def)
  show ?case
    using snoc f by (auto simp: wc_byte_def wc_result_def word_starts_snoc wc_space_def Let_def)
qed

text \<open>The pieces of an input that is delivered without an error.\<close>

definition delivers :: "uchar list option list \<Rightarrow> uchar list \<Rightarrow> bool" where
  "delivers rs bs = (bs = concat (map the rs) \<and> (\<forall>r \<in> set rs. r \<noteq> None \<and> r \<noteq> Some []))"

lemma read_piece:
  assumes "w_fds w (nat fd) = Some f" "delivers (of_reads f) bs" "bs \<noteq> []" "0 < k"
  obtains a rs cs where "u_read fd k w = URet (int (length a), a) (fd_put (nat fd) (Some (f\<lparr>of_reads := rs\<rparr>)) w)" "a \<noteq> []" "bs = a @ cs" "delivers rs cs"
proof -
  obtain b rs where r: "of_reads f = Some b # rs" "b \<noteq> []" "delivers rs (concat (map the rs))" "bs = b @ concat (map the rs)"
    using assms(2,3) by (cases "of_reads f") (auto simp: delivers_def)
  show ?thesis
  proof (cases "length b \<le> k")
    case True
    then show ?thesis
      using that [of b rs "concat (map the rs)"] assms(1) r by (simp add: u_read_def)
  next
    case False
    have "delivers (Some (drop k b) # rs) (drop k b @ concat (map the rs))"
      using r(3) False by (auto simp: delivers_def)
    then show ?thesis
      using that [of "take k b" "Some (drop k b) # rs" "drop k b @ concat (map the rs)"] assms(1,4) r False by (simp add: u_read_def)
  qed
qed

lemma read_end: "w_fds w (nat fd) = Some f \<Longrightarrow> delivers (of_reads f) [] \<Longrightarrow> u_read fd k w = URet (0, []) w"
  by (cases "of_reads f") (auto simp: u_read_def delivers_def)

lemma wc_loop_delivers:
  assumes "w_fds w (nat fd) = Some f" "delivers (of_reads f) bs"
  shows "\<exists>g. wc_loop fd s w = URet (0, fold wc_byte bs s) (fd_put (nat fd) (Some g) w)"
  using assms
proof (induction fd s w arbitrary: f bs rule: wc_loop.induct)
  case (1 fd s w)
  show ?case
  proof (cases "bs = []")
    case True
    then show ?thesis
      using read_end [of w fd f 512] 1(2,3) by (intro exI [of _ f]) (simp add: wc_loop.simps)
  next
    case False
    obtain a rs cs where r: "u_read fd 512 w = URet (int (length a), a) (fd_put (nat fd) (Some (f\<lparr>of_reads := rs\<rparr>)) w)" "a \<noteq> []" "bs = a @ cs" "delivers rs cs"
      using read_piece [OF 1(2,3) False, of 512] by auto
    then show ?thesis
      using 1(1) [OF r(1) refl, of "f\<lparr>of_reads := rs\<rparr>" cs] by (simp add: wc_loop.simps [of fd s w])
  qed
qed

lemma cat_loop_delivers:
  assumes "w_fds w (nat fd) = Some f" "delivers (of_reads f) bs"
  shows "\<exists>g as. cat_loop fd w = URet 0 ((fd_put (nat fd) (Some g) w)\<lparr>w_out := w_out w @ map (Pair 1) as\<rparr>) \<and> concat as = bs"
  using assms
proof (induction fd w arbitrary: f bs rule: cat_loop.induct)
  case (1 fd w)
  show ?case
  proof (cases "bs = []")
    case True
    then show ?thesis
      using read_end [of w fd f 512] 1(2,3) by (intro exI [of _ f] exI [of _ "[]"]) (simp add: cat_loop.simps)
  next
    case False
    obtain a rs cs where r: "u_read fd 512 w = URet (int (length a), a) (fd_put (nat fd) (Some (f\<lparr>of_reads := rs\<rparr>)) w)" "a \<noteq> []" "bs = a @ cs" "delivers rs cs"
      using read_piece [OF 1(2,3) False, of 512] by auto
    let ?v = "(fd_put (nat fd) (Some (f\<lparr>of_reads := rs\<rparr>)) w)\<lparr>w_out := w_out w @ [(1, a)]\<rparr>"
    have wr: "u_write 1 a (fd_put (nat fd) (Some (f\<lparr>of_reads := rs\<rparr>)) w) = URet (int (length a)) ?v"
      by (simp add: u_write_def)
    obtain g as where "cat_loop fd ?v = URet 0 ((fd_put (nat fd) (Some g) ?v)\<lparr>w_out := w_out ?v @ map (Pair 1) as\<rparr>)" "concat as = cs"
      using 1(1) [OF r(1) refl _ wr, of "f\<lparr>of_reads := rs\<rparr>" cs] r(2,4) by auto
    then show ?thesis
      using r wr by (intro exI [of _ g] exI [of _ "a # as"]) (simp add: cat_loop.simps [of fd w])
  qed
qed

section \<open>cat and wc on files\<close>

text \<open>Every name in the list is that of a file with the text \<open>txt\<close> of the name, and a descriptor is free.\<close>

definition texts :: "(uchar list \<Rightarrow> uchar list) \<Rightarrow> uchar list list \<Rightarrow> uworld \<Rightarrow> bool" where
  "texts txt args w = ((\<forall>a \<in> set args. \<exists>f. w_names w a = Some f \<and> delivers (of_reads f) (txt a)) \<and> (\<exists>k < NOFILE. w_fds w k = None))"

lemma open_text:
  assumes "texts txt args w" "a \<in> set args"
  obtains k f where "u_open a w = URet (int k) (fd_put k (Some f) w)" "w_fds w k = None" "delivers (of_reads f) (txt a)"
proof -
  obtain f where f: "w_names w a = Some f" "delivers (of_reads f) (txt a)"
    using assms by (auto simp: texts_def)
  obtain k where k: "find (\<lambda>fd. w_fds w fd = None) [0..<NOFILE] = Some k"
    using assms(1) by (cases "find (\<lambda>fd. w_fds w fd = None) [0..<NOFILE]") (auto simp: texts_def find_None_iff)
  then have "w_fds w k = None"
    using find_SomeD [OF k] by simp
  then show ?thesis
    using that [of k f] f k by (simp add: u_open_def)
qed

text \<open>A line of \<^verbatim>\<open>wc\<close>: the numbers of newlines, of words and of bytes of a text, and its name.\<close>

definition wc_line :: "uchar list \<Rightarrow> uchar list \<Rightarrow> uchar list" where
  "wc_line bs name = decimal_text HEXDIGIT (int (count_list bs 10)) @ [32] @ decimal_text HEXDIGIT (int (card (word_starts bs))) @ [32] @
     decimal_text HEXDIGIT (int (length bs)) @ [32] @ name @ [10]"

lemma wc_words_le: "card (word_starts bs) \<le> length bs"
proof -
  have "word_starts bs \<subseteq> {..<length bs}"
    by (auto simp: word_starts_def)
  then show ?thesis
    using card_mono [of "{..<length bs}" "word_starts bs"] by simp
qed

lemma wc_says:
  assumes "w_fds w k = None" "delivers (of_reads f) bs" "length bs < 2 ^ 31"
  shows "\<exists>g. wc (int k) name (fd_put k (Some f) w) = URet () (says 1 (wc_line bs name) (fd_put k (Some g) w))"
proof -
  have s: "sint (of_nat n :: uint32) = int n" if "n \<le> length bs" for n
    using that assms(3) by (simp add: signed_of_nat signed_take_bit_int_eq_self)
  have p: "printf 1 ''%d %d %d %s\<newline>'' [CInt l, CInt n, CInt c, CStr name] v =
      URet () (says 1 (decimal_text HEXDIGIT (sint l) @ [32] @ decimal_text HEXDIGIT (sint n) @ [32] @ decimal_text HEXDIGIT (sint c) @ [32] @ name @ [10]) v)" for l n c v
    by (simp add: printf_def user_simps)
  obtain g where "wc_loop (int k) \<lparr>wc_l = 0, wc_w = 0, wc_c = 0, wc_inword = False\<rparr> (fd_put k (Some f) w) = URet (0, wc_result bs) (fd_put k (Some g) w)"
    using wc_loop_delivers [of "fd_put k (Some f) w" "int k" f bs "\<lparr>wc_l = 0, wc_w = 0, wc_c = 0, wc_inword = False\<rparr>"] assms(2) by (auto simp: wc_fold)
  then show ?thesis
    using s [OF count_le_length] s [OF wc_words_le] s [OF order_refl] by (auto simp: wc_def p user_simps wc_result_def wc_line_def simp del: One_nat_def)
qed

lemma wc_files:
  assumes "texts txt args w" "\<forall>a \<in> set args. length (txt a) < 2 ^ 31"
  shows "ufor args (\<lambda>arg. ubnd (u_open arg) (\<lambda>fd. if fd < 0 then uthn (printf 1 ''wc: cannot open %s\<newline>'' [CStr arg]) uexit else uthn (wc fd arg) (u_close fd))) w =
    URet () (says 1 (concat (map (\<lambda>a. wc_line (txt a) a) args)) w)" (is "ufor args ?wc w = _")
  using assms
proof (induction args arbitrary: w)
  case (Cons a args)
  obtain k f where k: "u_open a w = URet (int k) (fd_put k (Some f) w)" "w_fds w k = None" "delivers (of_reads f) (txt a)"
    using open_text [OF Cons.prems(1), of a] by auto
  then have "?wc a w = URet () (says 1 (wc_line (txt a) a) w)"
    using wc_says [OF k(2,3), of a] Cons.prems(2) by (auto simp: user_simps u_close_def)
  moreover have "texts txt args (says 1 (wc_line (txt a) a) w)"
    using Cons.prems(1) by (simp add: texts_def)
  ultimately show ?case
    using Cons.IH Cons.prems(2) by (simp add: uthn_URet says_says)
qed (simp add: user_simps says_def)

lemma cat_files:
  assumes "texts txt args w"
  shows "\<exists>as. ufor args (\<lambda>arg. ubnd (u_open arg) (\<lambda>fd. if fd < 0 then uthn (printf 1 ''cat: cannot open %s\<newline>'' [CStr arg]) uexit else uthn (cat fd) (u_close fd))) w =
    URet () (w\<lparr>w_out := w_out w @ map (Pair 1) as\<rparr>) \<and> concat as = concat (map txt args)" (is "\<exists>as. ufor args ?cat w = _ as \<and> _ as")
  using assms
proof (induction args arbitrary: w)
  case Nil
  show ?case
    by (intro exI [of _ "[]"]) (simp add: user_simps)
next
  case (Cons a args)
  obtain k f where k: "u_open a w = URet (int k) (fd_put k (Some f) w)" "w_fds w k = None" "delivers (of_reads f) (txt a)"
    using open_text [OF Cons.prems(1), of a] by auto
  then obtain as where as: "?cat a w = URet () (w\<lparr>w_out := w_out w @ map (Pair 1) as\<rparr>)" "concat as = txt a"
    using cat_loop_delivers [of "fd_put k (Some f) w" "int k" f "txt a"] by (auto simp: user_simps u_close_def cat_def)
  have "texts txt args (w\<lparr>w_out := w_out w @ map (Pair 1) as\<rparr>)"
    using Cons.prems(1) by (simp add: texts_def)
  from Cons.IH [OF this] obtain bs where
    "ufor args ?cat (w\<lparr>w_out := w_out w @ map (Pair 1) as\<rparr>) = URet () (w\<lparr>w_out := w_out w @ map (Pair 1) as @ map (Pair 1) bs\<rparr>)" "concat bs = concat (map txt args)"
    by auto
  then show ?case
    using as by (intro exI [of _ "as @ bs"]) (simp add: uthn_URet)
qed

text \<open>
  C19: \<^verbatim>\<open>wc\<close> and \<^verbatim>\<open>cat\<close> depend on the bytes of their files only, not on the pieces in which reads deliver them.  \<^verbatim>\<open>wc\<close> with a list of files prints for each the numbers of
  its newlines, of its words -- the maximal runs of bytes that are not white space, also where a run is spread over several reads -- and of its bytes, and its name;
  \<^verbatim>\<open>cat\<close> writes the texts one after the other.  Both terminate, exit and close every file they open.
\<close>

theorem wc_cat_streams:
  assumes "args \<noteq> []" "texts txt args w" "\<forall>a \<in> set args. length (txt a) < 2 ^ 31"
  shows "wc_main (prog # args) w = UExit (says 1 (concat (map (\<lambda>a. wc_line (txt a) a) args)) w) \<and>
    (\<exists>as. cat_main (prog # args) w = UExit (w\<lparr>w_out := w_out w @ map (Pair 1) as\<rparr>) \<and> concat as = concat (map txt args))"
proof -
  obtain as where "ufor args (\<lambda>arg. ubnd (u_open arg) (\<lambda>fd. if fd < 0 then uthn (printf 1 ''cat: cannot open %s\<newline>'' [CStr arg]) uexit else uthn (cat fd) (u_close fd))) w =
    URet () (w\<lparr>w_out := w_out w @ map (Pair 1) as\<rparr>)" "concat as = concat (map txt args)"
    using cat_files [OF assms(2)] by blast
  then show ?thesis
    using assms(1) wc_files [OF assms(2,3)] by (auto simp: wc_main_def cat_main_def uthn_URet uexit_def Suc_le_eq)
qed

text \<open>Two files; the first is delivered in two pieces, with the second of its words in both.\<close>

definition text_world :: uworld where
  "text_world = \<lparr>
     w_names = [[120] \<mapsto> \<lparr>of_reads = [Some (map of_char ''one tw''), Some (map of_char ''o\<newline>'')], of_stat = None\<rparr>, [121] \<mapsto> \<lparr>of_reads = [], of_stat = None\<rparr>],
     w_fds = Map.empty, w_out = [], w_calls = [], w_answer = (\<lambda>_. 0)\<rparr>"

definition text_of :: "uchar list \<Rightarrow> uchar list" where
  "text_of a = (if a = [120] then map of_char ''one two\<newline>'' else [])"

theorem wc_cat_streams_witness:
  "wc_main [[], [120], [121]] text_world = UExit (says 1 (map of_char ''1 2 8 x\<newline>0 0 0 y\<newline>'') text_world) \<and>
   (\<exists>as. cat_main [[], [120], [121]] text_world = UExit (text_world\<lparr>w_out := map (Pair 1) as\<rparr>) \<and> concat as = map of_char ''one two\<newline>'')"
proof -
  have "texts text_of [[120], [121]] text_world"
    by (auto simp: texts_def text_world_def text_of_def delivers_def intro: exI [of _ 0])
  moreover have "word_starts (map of_char ''one two\<newline>'') = {0, 4}"
    by (simp add: word_starts_set wc_space_def nth_Cons', simp add: numeral_eq_Suc)
  ultimately show ?thesis
    using wc_cat_streams [of "[[120], [121]]" text_of text_world "[]"]
    by (simp add: text_of_def wc_line_def word_starts_def decimal_text_def radix.simps HEXDIGIT_def text_world_def)
qed

end
