(* ===== verification/Grep.thy ===== *)
theory Grep
  imports User
begin

text \<open>
  \<^verbatim>\<open>src/grep.c\<close>.  The matcher works on C strings, the lists of their bytes before the NUL.  The static buffer of \<^verbatim>\<open>grep\<close> is the list of its 1024 bytes; to read or
  write outside it is undefined.
\<close>

section \<open>The matcher\<close>

function (sequential) matchhere :: "uchar list \<Rightarrow> uchar list \<Rightarrow> bool" and matchstar :: "uchar \<Rightarrow> uchar list \<Rightarrow> uchar list \<Rightarrow> bool" where
  "matchhere [] tx = True"
| "matchhere (c # re) tx =
     (if re \<noteq> [] \<and> hd re = 42 then matchstar c (tl re) tx
      else if c = 36 \<and> re = [] then tx = []
      else if tx \<noteq> [] \<and> (c = 46 \<or> c = hd tx) then matchhere re (tl tx)
      else False)"
| "matchstar c re tx =
     (if matchhere re tx then True
      else if tx \<noteq> [] \<and> (hd tx = c \<or> c = 46) then matchstar c re (tl tx)
      else False)"
  by pat_completeness auto

termination
  by (relation "measures [\<lambda>x. case x of Inl (re, tx) \<Rightarrow> length re | Inr (c, re, tx) \<Rightarrow> Suc (length re),
       \<lambda>x. case x of Inl (re, tx) \<Rightarrow> length tx | Inr (c, re, tx) \<Rightarrow> length tx]") (auto simp: neq_Nil_conv)

fun match_loop :: "uchar list \<Rightarrow> uchar list \<Rightarrow> bool" where
  "match_loop re tx =
     (if matchhere re tx then True
      else if tx \<noteq> [] then match_loop re (tl tx)
      else False)"

definition match :: "uchar list \<Rightarrow> uchar list \<Rightarrow> bool" where
  "match re tx = (if re \<noteq> [] \<and> hd re = 94 then matchhere (tl re) tx else match_loop re tx)"

declare matchhere.simps [simp del] matchstar.simps [simp del] match_loop.simps [simp del]

section \<open>grep\<close>

text \<open>\<^verbatim>\<open>strchr(p, '\n')\<close>: the search ends at a newline or at a NUL; the outer option is \<open>None\<close> when it leaves the buffer.\<close>

definition find_newline :: "uchar list \<Rightarrow> nat \<Rightarrow> nat option option" where
  "find_newline buf p = (case find (\<lambda>i. buf ! i = 0 \<or> buf ! i = 10) [p..<length buf] of
       None \<Rightarrow> None
     | Some q \<Rightarrow> Some (if buf ! q = 10 then Some q else None))"

lemma find_newline_Some: "find_newline buf p = Some (Some q) \<Longrightarrow> p \<le> q \<and> q < length buf \<and> buf ! q = 10"
  by (auto simp: find_newline_def find_Some_iff split: option.splits if_splits)

text \<open>The inner loop: the lines from \<open>p\<close> on.  The newline of a line that does not match stays overwritten by the NUL.\<close>

function grep_lines :: "uchar list \<Rightarrow> uchar list \<Rightarrow> nat \<Rightarrow> (uchar list \<times> nat) user" where
  "grep_lines pattern buf p = (case find_newline buf p of
       None \<Rightarrow> ucrash ''strchr past the buffer''
     | Some None \<Rightarrow> uret (buf, p)
     | Some (Some q) \<Rightarrow>
         let line = takeWhile (\<lambda>c. c \<noteq> 0) (take (q - p) (drop p buf)) in
         if match pattern line
         then uthn (u_write 1 (take (q + 1 - p) (drop p buf))) (grep_lines pattern buf (q + 1))
         else grep_lines pattern (buf[q := 0]) (q + 1))"
  by pat_completeness auto

termination
  by (relation "measure (\<lambda>(pattern, buf, p). length buf - p)") (auto dest!: find_newline_Some)

declare grep_lines.simps [simp del]

lemma grep_lines_reads: "grep_lines pattern buf p w = URet r v \<Longrightarrow> reads_left fd v = reads_left fd w"
proof (induction pattern buf p arbitrary: w rule: grep_lines.induct)
  case (1 pattern buf p)
  show ?case
  proof (cases "find_newline buf p")
    case None
    then show ?thesis
      using 1(3) by (simp add: grep_lines.simps [of _ buf] user_simps)
  next
    case (Some r)
    then show ?thesis
      using 1 by (cases r) (auto simp: grep_lines.simps [of _ buf] user_simps Let_def u_write_def reads_left_def split: if_splits)
  qed
qed

text \<open>
  The outer loop.  \<open>m\<close> is the number of bytes kept from the last read.  A negative \<open>m\<close> makes \<^verbatim>\<open>read\<close> write in front of the buffer.
\<close>

function grep_loop :: "uchar list \<Rightarrow> int \<Rightarrow> uchar list \<Rightarrow> int \<Rightarrow> uchar list user" where
  "grep_loop pattern fd buf m w = (case u_read fd (nat (1024 - m)) w of
       URet (n, bs) v \<Rightarrow>
         if n > 0 then
           if m < 0 then UCrash ''read before the buffer''
           else
             let buf = splice (nat m) bs buf; m = m + n in
             (case grep_lines pattern buf 0 v of
                URet (buf, p) v \<Rightarrow>
                  let m = (if p = 0 then 0 else m) in
                  if m > 0 then
                    let m = m - int p in
                    grep_loop pattern fd (splice 0 (take (nat m) (drop p buf)) buf) m v
                  else grep_loop pattern fd buf m v
              | UExit v \<Rightarrow> UExit v
              | UCrash e \<Rightarrow> UCrash e)
         else URet buf v
     | UExit v \<Rightarrow> UExit v
     | UCrash e \<Rightarrow> UCrash e)"
  by pat_completeness auto

termination
  by (relation "measure (\<lambda>(pattern, fd, buf, m, w). reads_left fd w)") (auto simp: grep_lines_reads dest!: u_read_less)

declare grep_loop.simps [simp del]

text \<open>The buffer is static: a call leaves it to the next one as it is.\<close>

definition grep :: "uchar list \<Rightarrow> int \<Rightarrow> uchar list \<Rightarrow> uchar list user" where
  "grep pattern fd buf = grep_loop pattern fd buf 0"

fun grep_files :: "uchar list \<Rightarrow> uchar list list \<Rightarrow> uchar list \<Rightarrow> unit user" where
  "grep_files pattern [] buf = uret ()"
| "grep_files pattern (arg # args) buf =
     ubnd (u_open arg) (\<lambda>fd.
     if fd < 0 then uthn (printf 1 ''grep: cannot open %s\<newline>'' [CStr arg]) uexit
     else ubnd (grep pattern fd buf) (\<lambda>buf. uthn (u_close fd) (grep_files pattern args buf)))"

definition grep_main :: "uchar list list \<Rightarrow> unit user" where
  "grep_main argv = (case argv of
       _ # pattern # args \<Rightarrow>
         if args = [] then ubnd (grep pattern 0 (replicate 1024 0)) (\<lambda>_. uexit)
         else uthn (grep_files pattern args (replicate 1024 0)) uexit
     | _ \<Rightarrow> uthn (printf 2 ''usage: grep pattern [file ...]\<newline>'' []) uexit)"

section \<open>What a pattern means\<close>

text \<open>
  A pattern without its leading circumflex is a sequence of items, a byte or a starred byte, perhaps with a dollar at the end.  The items stand for a
  set of strings.
\<close>

datatype ritem = One uchar | Star uchar

fun items :: "uchar list \<Rightarrow> ritem list \<times> bool" where
  "items [] = ([], False)"
| "items [c] = (if c = 36 then ([], True) else ([One c], False))"
| "items (c # d # re) = (if d = 42 then map_prod (\<lambda>is. Star c # is) id (items re) else map_prod (\<lambda>is. One c # is) id (items (d # re)))"

definition fits :: "uchar \<Rightarrow> uchar \<Rightarrow> bool" where
  "fits c x = (c = 46 \<or> c = x)"

fun lang :: "ritem list \<Rightarrow> uchar list set" where
  "lang [] = {[]}"
| "lang (One c # is) = {x # u | x u. fits c x \<and> u \<in> lang is}"
| "lang (Star c # is) = {u @ v | u v. (\<forall>x \<in> set u. fits c x) \<and> v \<in> lang is}"

text \<open>The strings that a pattern matches at their beginning.\<close>

definition starts :: "uchar list \<Rightarrow> uchar list set" where
  "starts re = {u @ v | u v. u \<in> lang (fst (items re)) \<and> (if snd (items re) then v = [] else True)}"

lemma starts_Nil: "starts [] = UNIV"
  by (auto simp: starts_def)

lemma starts_end: "starts [36] = {[]}"
  by (auto simp: starts_def)

lemma append_cons_set: "{u @ v |u v. u \<in> {x # u | x u. P x \<and> u \<in> L} \<and> Q v} = {x # t | x t. P x \<and> t \<in> {u @ v | u v. u \<in> L \<and> Q v}}"
proof (safe, goal_cases)
  case (1 _ u' v x u)
  then show ?case
    by (intro exI [of _ x] exI [of _ "u @ v"]) auto
next
  case (2 _ x _ u v)
  then show ?case
    by (intro exI [of _ "x # u"] exI [of _ v]) auto
qed

lemma append_append_set: "{u @ v |u v. u \<in> {x @ u | x u. P x \<and> u \<in> L} \<and> Q v} = {x @ t | x t. P x \<and> t \<in> {u @ v | u v. u \<in> L \<and> Q v}}"
proof (safe, goal_cases)
  case (1 _ u' v x u)
  then show ?case
    by (intro exI [of _ x] exI [of _ "u @ v"]) auto
next
  case (2 _ x _ u v)
  then show ?case
    by (intro exI [of _ "x @ u"] exI [of _ v]) auto
qed

lemma starts_one:
  assumes "re = [] \<Longrightarrow> c \<noteq> 36" "re \<noteq> [] \<Longrightarrow> hd re \<noteq> 42"
  shows "starts (c # re) = {x # u | x u. fits c x \<and> u \<in> starts re}"
proof -
  have "items (c # re) = map_prod (\<lambda>is. One c # is) id (items re)"
    using assms by (cases re) auto
  then show ?thesis
    using append_cons_set [of "fits c" "lang (fst (items re))" "\<lambda>v. if snd (items re) then v = [] else True"] by (simp add: starts_def)
qed

lemma starts_star: "starts (c # 42 # re) = {u @ v | u v. (\<forall>x \<in> set u. fits c x) \<and> v \<in> starts re}"
  using append_append_set [of "\<lambda>u. \<forall>x \<in> set u. fits c x" "lang (fst (items re))" "\<lambda>v. if snd (items re) then v = [] else True"] by (simp add: starts_def)

lemma starts_star_iff: "t \<in> starts (c # 42 # re) \<longleftrightarrow> t \<in> starts re \<or> (t \<noteq> [] \<and> fits c (hd t) \<and> tl t \<in> starts (c # 42 # re))"
  unfolding starts_star
proof (safe, goal_cases)
  case (1 u v)
  then show ?case
    by (cases u) auto
next
  case (2 u v)
  then show ?case
    by (cases u) auto
next
  case (3 u v)
  then show ?case
    by (cases u) auto
next
  case 4
  then show ?case
    by force
next
  case (5 u v)
  then have "t = (hd t # u) @ v"
    by (cases t) auto
  then show ?case
    using 5 by (metis set_ConsD)
qed

lemma match_starts:
  "matchhere re tx \<longleftrightarrow> tx \<in> starts re"
  "matchstar c re' tx' \<longleftrightarrow> tx' \<in> starts (c # 42 # re')"
proof (induction re tx and c re' tx' rule: matchhere_matchstar.induct)
  case (2 c re tx)
  consider (star) re' where "re = 42 # re'" | (ends) "c = 36" "re = []" | (one) "re = [] \<Longrightarrow> c \<noteq> 36" "re \<noteq> [] \<Longrightarrow> hd re \<noteq> 42"
    by (cases re) auto
  then show ?case
  proof cases
    case one
    then show ?thesis
      using 2(2) by (cases tx) (auto simp: matchhere.simps(2) starts_one [OF one] fits_def)
  qed (use 2 in \<open>auto simp: matchhere.simps(2) starts_end\<close>)
next
  case (3 c re tx)
  then show ?case
    using starts_star_iff [of tx c re] by (auto simp: matchstar.simps [of c re tx] fits_def)
qed (simp add: matchhere.simps starts_Nil)

lemma match_loop_starts: "match_loop re tx \<longleftrightarrow> (\<exists>p u. tx = p @ u \<and> u \<in> starts re)"
proof (induction re tx rule: match_loop.induct)
  case (1 re tx)
  then show ?case
    by (cases tx) (auto simp: match_loop.simps match_starts Cons_eq_append_conv)
qed

text \<open>The lines that a pattern selects.\<close>

definition selects :: "uchar list \<Rightarrow> uchar list \<Rightarrow> bool" where
  "selects pattern line =
     (let anchored = (pattern \<noteq> [] \<and> hd pattern = 94); is = items (if anchored then tl pattern else pattern) in
      \<exists>p u v. line = p @ u @ v \<and> u \<in> lang (fst is) \<and> (if anchored then p = [] else True) \<and> (if snd is then v = [] else True))"

lemma match_selects: "match re tx \<longleftrightarrow> selects re tx"
proof (cases "re \<noteq> [] \<and> hd re = 94")
  case True
  then have "match re tx \<longleftrightarrow> tx \<in> starts (tl re)"
    by (simp add: match_def match_starts)
  also have "\<dots> \<longleftrightarrow> selects re tx"
    unfolding starts_def selects_def Let_def using True by auto
  finally show ?thesis .
next
  case False
  then have "match re tx \<longleftrightarrow> (\<exists>p u. tx = p @ u \<and> u \<in> starts re)"
    by (auto simp: match_def match_loop_starts)
  also have "\<dots> \<longleftrightarrow> selects re tx"
    unfolding starts_def selects_def Let_def using False by auto
  finally show ?thesis .
qed

section \<open>Grepping a file\<close>

definition unlines :: "uchar list list \<Rightarrow> uchar list" where
  "unlines xs = concat (map (\<lambda>l. l @ [10]) xs)"

lemma unlines_simps [simp]: "unlines [] = []" "unlines (l # xs) = l @ 10 # unlines xs"
  by (simp_all add: unlines_def)

lemma find_newline_line:
  assumes "0 \<notin> set l" "10 \<notin> set l"
  shows "find_newline (d @ l @ 10 # r) (length d) = Some (Some (length d + length l))"
proof -
  have "find (\<lambda>i. (d @ l @ 10 # r) ! i = 0 \<or> (d @ l @ 10 # r) ! i = 10) [length d..<length (d @ l @ 10 # r)] = Some (length d + length l)"
    using assms by (auto simp: find_Some_iff nth_append intro!: exI [of _ "length l"]) (metis nth_mem)+
  then show "find_newline (d @ l @ 10 # r) (length d) = Some (Some (length d + length l))"
    by (simp add: find_newline_def nth_append)
qed

lemma find_newline_nul: "find_newline (d @ 0 # r) (length d) = Some None"
proof -
  have "find (\<lambda>i. (d @ 0 # r) ! i = 0 \<or> (d @ 0 # r) ! i = 10) [length d..<length (d @ 0 # r)] = Some (length d)"
    by (auto simp: find_Some_iff nth_append intro!: exI [of _ 0])
  then show "find_newline (d @ 0 # r) (length d) = Some None"
    by (simp add: find_newline_def)
qed

lemma grep_lines_step:
  assumes "0 \<notin> set l" "10 \<notin> set l"
  shows "grep_lines pattern (d @ l @ 10 # r) (length d) =
    (if match pattern l then uthn (u_write 1 (l @ [10])) (grep_lines pattern (d @ l @ 10 # r) (Suc (length d + length l)))
     else grep_lines pattern (d @ l @ 0 # r) (Suc (length d + length l)))"
proof -
  have "takeWhile (\<lambda>c. c \<noteq> 0) l = l"
    using assms(1) by (auto simp: takeWhile_eq_all_conv)
  then show ?thesis
    by (subst grep_lines.simps) (simp del: takeWhile_eq_all_conv add: find_newline_line [OF assms] list_update_append)
qed

lemma grep_lines_unlines:
  assumes "\<forall>l \<in> set xs. 0 \<notin> set l \<and> 10 \<notin> set l"
  shows "\<exists>buf. length buf = length (d @ unlines xs @ 0 # r) \<and> grep_lines pattern (d @ unlines xs @ 0 # r) (length d) w =
    URet (buf, length d + length (unlines xs)) (w\<lparr>w_out := w_out w @ map (\<lambda>l. (1, l @ [10])) (filter (match pattern) xs)\<rparr>)"
  using assms
proof (induction xs arbitrary: d w)
  case Nil
  then show ?case
    by (subst grep_lines.simps) (simp add: find_newline_nul user_simps)
next
  case (Cons l xs)
  note step = grep_lines_step [of l pattern d "unlines xs @ 0 # r"]
  show ?case
  proof (cases "match pattern l")
    case True
    then show ?thesis
      using Cons.IH [of "d @ l @ [10]" "w\<lparr>w_out := w_out w @ [(1, l @ [10])]\<rparr>"] Cons.prems step by (simp add: user_simps u_write_def add.assoc)
  next
    case False
    then show ?thesis
      using Cons.IH [of "d @ l @ [0]" w] Cons.prems step by (simp add: add.assoc)
  qed
qed

lemma grep_one_piece:
  assumes "\<forall>l \<in> set xs. 0 \<notin> set l \<and> 10 \<notin> set l" "xs \<noteq> []" "length (unlines xs) < 1024"
    and "w_fds w (nat fd) = Some f" "of_reads f = [Some (unlines xs)]"
  shows "\<exists>buf g. grep pattern fd (replicate 1024 0) w = URet buf ((fd_put (nat fd) (Some g) w)\<lparr>w_out := w_out w @ map (\<lambda>l. (1, l @ [10])) (filter (match pattern) xs)\<rparr>)"
proof -
  let ?t = "unlines xs" and ?g = "f\<lparr>of_reads := []\<rparr>"
  let ?v = "(fd_put (nat fd) (Some ?g) w)\<lparr>w_out := w_out w @ map (\<lambda>l. (1, l @ [10])) (filter (match pattern) xs)\<rparr>"
  have t: "0 < length ?t" "?t \<noteq> []"
    using assms(2) by (cases xs; simp)+
  have "splice 0 ?t (replicate 1024 0) = ?t @ 0 # replicate (1023 - length ?t) 0"
    using assms(3) by (simp add: splice_def Suc_diff_le flip: replicate_Suc)
  then obtain buf where "grep_lines pattern (splice 0 ?t (replicate 1024 0)) 0 (fd_put (nat fd) (Some ?g) w) = URet (buf, length ?t) ?v"
    using grep_lines_unlines [OF assms(1), of "[]" "replicate (1023 - length ?t) 0" pattern "fd_put (nat fd) (Some ?g) w"] by auto
  moreover have "u_read fd 1024 w = URet (int (length ?t), ?t) (fd_put (nat fd) (Some ?g) w)"
    using assms(3-5) by (simp add: u_read_def)
  moreover have "grep_loop pattern fd buf 0 ?v = URet buf ?v"
    by (simp add: grep_loop.simps u_read_def)
  ultimately show ?thesis
    using t by (intro exI [of _ buf] exI [of _ ?g]) (simp add: grep_def grep_loop.simps [of _ _ "replicate 1024 0"] Let_def splice_def)
qed

text \<open>
  C16: \<^verbatim>\<open>grep\<close> prints exactly the lines that its pattern selects.  For a file of fewer than 1024 bytes that one read delivers, \<^verbatim>\<open>grep pattern file\<close> terminates, stays
  within its buffer and writes, in their order and with their newlines, the lines that contain a string of the language of the pattern -- at the
  beginning of the line under a circumflex, at its end under a dollar.  The matcher thus decides, with backtracking over all ways to split the line, the declarative
  meaning of patterns.
\<close>

theorem grep_selects:
  assumes "\<forall>l \<in> set xs. 0 \<notin> set l \<and> 10 \<notin> set l" "xs \<noteq> []" "length (unlines xs) < 1024"
    and "w_names w name = Some f" "of_reads f = [Some (unlines xs)]" "\<exists>k < NOFILE. w_fds w k = None"
  shows "grep_main [prog, pattern, name] w = UExit (w\<lparr>w_out := w_out w @ map (\<lambda>l. (1, l @ [10])) (filter (selects pattern) xs)\<rparr>)"
proof -
  obtain k where k: "find (\<lambda>fd. w_fds w fd = None) [0..<NOFILE] = Some k"
    using assms(6) by (cases "find (\<lambda>fd. w_fds w fd = None) [0..<NOFILE]") (auto simp: find_None_iff)
  then have n: "w_fds w k = None"
    using find_SomeD [OF k] by simp
  obtain buf g where "grep pattern (int k) (replicate 1024 0) (fd_put k (Some f) w) =
      URet buf ((fd_put k (Some g) (fd_put k (Some f) w))\<lparr>w_out := w_out w @ map (\<lambda>l. (1, l @ [10])) (filter (match pattern) xs)\<rparr>)"
    using grep_one_piece [OF assms(1-3), of "fd_put k (Some f) w" "int k" f pattern] assms(5) by auto
  moreover have "match pattern = selects pattern"
    by (simp add: fun_eq_iff match_selects)
  ultimately show ?thesis
    using k n assms(4) by (simp add: grep_main_def user_simps u_open_def u_close_def)
qed

definition grep_world :: uworld where
  "grep_world = \<lparr>w_names = [[120] \<mapsto> \<lparr>of_reads = [Some (map of_char ''baab\<newline>cd\<newline>'')], of_stat = None\<rparr>],
     w_fds = Map.empty, w_out = [], w_calls = [], w_answer = (\<lambda>_. 0)\<rparr>"

theorem grep_selects_witness:
  "grep_main [[], map of_char ''a*b$'', [120]] grep_world = UExit (grep_world\<lparr>w_out := [(1, map of_char ''baab\<newline>'')]\<rparr>)"
proof -
  have "match (map of_char ''a*b$'') (map of_char ''baab'')" "\<not> match (map of_char ''a*b$'') (map of_char ''cd'')"
    by (simp_all add: match_def match_loop.simps matchhere.simps matchstar.simps)
  then have "selects (map of_char ''a*b$'') (map of_char ''baab'')" "\<not> selects (map of_char ''a*b$'') (map of_char ''cd'')"
    unfolding match_selects by simp_all
  then show ?thesis
    using grep_selects [of "[map of_char ''baab'', map of_char ''cd'']" grep_world "[120]" "\<lparr>of_reads = [Some (map of_char ''baab\<newline>cd\<newline>'')], of_stat = None\<rparr>" "[]" "map of_char ''a*b$''"]
    by (simp add: grep_world_def exI [of _ 0])
qed

text \<open>
  The buffer is not terminated after the bytes that were read.  When the input comes in lines, as from the console, a shorter line is followed by the rest of a
  longer one read before: \<^verbatim>\<open>grep\<close> takes it for input, the count of the bytes kept becomes negative and the next \<^verbatim>\<open>read\<close> writes in front of the buffer.
\<close>

lemma grep_overrun:
  "grep_main [[], []] (grep_world\<lparr>w_fds := [0 \<mapsto> \<lparr>of_reads = [Some [97, 98, 10], Some [99, 10], Some [100, 10]], of_stat = None\<rparr>]\<rparr>) =
   UCrash ''read before the buffer''"
proof -
  define r :: "uchar list" where "r = replicate 1020 0"
  have z: "replicate 1024 0 = 0 # 0 # 0 # 0 # r"
    by (simp add: r_def numeral_eq_Suc)
  have m: "match [] l" for l
    by (simp add: match_def match_loop.simps matchhere.simps)
  have e: "grep_lines [] (d @ 0 # r) (length d) = uret (d @ 0 # r, length d)" for d
    by (subst grep_lines.simps) (simp add: find_newline_nul)
  have a: "grep_lines [] (97 # 98 # 10 # 0 # r) 0 = uthn (u_write 1 [97, 98, 10]) (uret (97 # 98 # 10 # 0 # r, Suc (Suc (Suc 0))))"
    using grep_lines_step [of "[97, 98]" "[]" "[]" "0 # r"] e [of "[97, 98, 10]"] m by simp
  have b: "grep_lines [] (99 # 10 # 10 # 0 # r) 0 = uthn (u_write 1 [99, 10]) (uthn (u_write 1 [10]) (uret (99 # 10 # 10 # 0 # r, Suc (Suc (Suc 0)))))"
    using grep_lines_step [of "[99]" "[]" "[]" "10 # 0 # r"] grep_lines_step [of "[]" "[]" "[99, 10]" "0 # r"] e [of "[99, 10, 10]"] m by simp
  show ?thesis
    by (simp add: grep_main_def grep_def z grep_loop.simps a b user_simps u_read_def u_write_def splice_def Let_def)
qed

end
