(* ===== verification/Sh.thy ===== *)
theory Sh
  imports User
begin

text \<open>
  \<^verbatim>\<open>src/sh.c\<close>: the parser of the shell, and what the shell does with a command.  A pointer into the line is an index, the end of the line is its
  length, and the byte there is the NUL.  The allocation of the nodes is left out: a node is a value of the datatype \<open>cmd\<close>.
\<close>

section \<open>Commands\<close>

text \<open>An \<^verbatim>\<open>execcmd\<close> has the pairs of \<^verbatim>\<open>argv[i]\<close> and \<^verbatim>\<open>eargv[i]\<close> up to the null pointer.\<close>

datatype cmd =
    Execcmd "(nat \<times> nat) list"
  | Redircmd cmd "nat \<times> nat" uint32 nat
  | Pipecmd cmd cmd
  | Listcmd cmd cmd
  | Backcmd cmd

abbreviation (input) MAXARGS :: nat where "MAXARGS \<equiv> 10"
abbreviation (input) O_RDONLY :: uint32 where "O_RDONLY \<equiv> 0"
abbreviation (input) O_WRONLY :: uint32 where "O_WRONLY \<equiv> 1"
abbreviation (input) O_CREATE :: uint32 where "O_CREATE \<equiv> 0x200"

section \<open>Tokens\<close>

definition whitespace :: "uchar \<Rightarrow> bool" where
  "whitespace c = (c \<in> {32, 9, 13, 10, 11})"

definition symbols :: "uchar \<Rightarrow> bool" where
  "symbols c = (c \<in> {60, 124, 62, 38, 59, 40, 41})"

definition char_at :: "uchar list \<Rightarrow> nat \<Rightarrow> uchar" where
  "char_at s i = (if i < length s then s ! i else 0)"

text \<open>The loops that move \<^verbatim>\<open>s\<close> while \<^verbatim>\<open>s < es\<close> and the byte is of a kind.\<close>

definition skip_while :: "(uchar \<Rightarrow> bool) \<Rightarrow> uchar list \<Rightarrow> nat \<Rightarrow> nat" where
  "skip_while P s i = i + length (takeWhile P (drop i s))"

text \<open>The result is the kind of the token, its beginning and end, and the new value of \<^verbatim>\<open>*ps\<close>.\<close>

definition gettoken :: "uchar list \<Rightarrow> nat \<Rightarrow> uchar \<times> nat \<times> nat \<times> nat" where
  "gettoken s ps =
     (let q = skip_while whitespace s ps; c = char_at s q;
          (tok, eq) =
            (if c = 0 then (0, q)
             else if c \<in> {124, 40, 41, 59, 38, 60} then (c, q + 1)
             else if c = 62 then (if char_at s (q + 1) = 62 then (43, q + 2) else (62, q + 1))
             else (97, skip_while (\<lambda>c. \<not> whitespace c \<and> \<not> symbols c) s q))
      in (tok, q, eq, skip_while whitespace s eq))"

definition peek :: "uchar list \<Rightarrow> nat \<Rightarrow> uchar list \<Rightarrow> bool \<times> nat" where
  "peek s ps toks = (let i = skip_while whitespace s ps; c = char_at s i in (c \<noteq> 0 \<and> c \<in> set toks, i))"

section \<open>The parser\<close>

text \<open>A parser returns a node and the new value of \<^verbatim>\<open>*ps\<close>, or calls \<^verbatim>\<open>panic\<close>, which ends the process.\<close>

datatype 'a parse = Parsed 'a nat | Panics string | NoFuel

lemma skip_while_ge: "i \<le> skip_while P s i"
  by (simp add: skip_while_def)

lemma skip_while_le: "i \<le> length s \<Longrightarrow> skip_while P s i \<le> length s"
  using length_takeWhile_le [of P "drop i s"] by (simp add: skip_while_def)

lemma skip_while_stop: "skip_while P s i < length s \<Longrightarrow> \<not> P (s ! skip_while P s i)"
  using nth_length_takeWhile [of P "drop i s"] by (auto simp: skip_while_def)

lemma skip_while_go: "i < length s \<Longrightarrow> P (s ! i) \<Longrightarrow> i < skip_while P s i"
  by (cases "drop i s") (auto simp: skip_while_def nth_via_drop)

lemma skip_while_run: "i \<le> j \<Longrightarrow> j < skip_while P s i \<Longrightarrow> P (s ! j)"
  using set_takeWhileD [of "s ! j" P "drop i s"] nth_mem [of "j - i" "takeWhile P (drop i s)"] takeWhile_nth [of "j - i" P "drop i s"]
    length_takeWhile_le [of P "drop i s"]
  by (auto simp: skip_while_def)

lemma gettoken_moves:
  assumes "gettoken s i = (tok, q, eq, j)" "tok \<noteq> 0"
  shows "i \<le> q" "q < eq" "eq \<le> j" "q < length s" "eq \<le> length s"
proof -
  let ?w = "\<lambda>c. \<not> whitespace c \<and> \<not> symbols c"
  have g: "q = skip_while whitespace s i" "j = skip_while whitespace s eq" "char_at s q \<noteq> 0"
    using assms by (auto simp: gettoken_def Let_def split: if_splits)
  show q: "i \<le> q" "eq \<le> j" "q < length s"
    using g skip_while_ge by (auto simp: char_at_def split: if_splits)
  have w: "\<not> whitespace (s ! q)"
    using skip_while_stop [of whitespace s i] q(3) g(1) by simp
  have c: "char_at s q = s ! q"
    using q(3) by (simp add: char_at_def)
  have "q < skip_while ?w s q" if "\<not> symbols (s ! q)"
    using skip_while_go [of q s ?w] q(3) w that by simp
  then show "q < eq"
    using assms c by (auto simp: gettoken_def Let_def symbols_def split: if_splits)
  have "skip_while ?w s q \<le> length s"
    using skip_while_le [of q s ?w] q(3) by simp
  moreover have "q + 2 \<le> length s" if "char_at s (q + 1) = 62"
    using that by (auto simp: char_at_def split: if_splits)
  ultimately show "eq \<le> length s"
    using assms q(3) by (auto simp: gettoken_def Let_def split: if_splits)
qed

lemma peek_ge: "peek s i toks = (b, j) \<Longrightarrow> i \<le> j"
  using skip_while_ge by (auto simp: peek_def Let_def)

lemma peek_True: "peek s i toks = (True, j) \<Longrightarrow> j < length s"
  by (auto simp: peek_def Let_def char_at_def split: if_splits)

lemma gettoken_ge:
  assumes "gettoken s i = (tok, q, eq, j)"
  shows "i \<le> j"
proof (cases "tok = 0")
  case True
  then have "q = skip_while whitespace s i" "j = skip_while whitespace s q"
    using assms by (auto simp: gettoken_def Let_def split: if_splits)
  then show ?thesis
    using skip_while_ge [of i whitespace s] skip_while_ge [of q whitespace s] by simp
next
  case False
  then show ?thesis
    using gettoken_moves(1-3) [OF assms] by simp
qed

lemma gettoken_less: "gettoken s i = (tok, q, eq, j) \<Longrightarrow> tok \<noteq> 0 \<Longrightarrow> i < j \<and> i < length s"
  using gettoken_moves [of s i tok q eq j] by simp

function parseredirs :: "cmd \<Rightarrow> uchar list \<Rightarrow> nat \<Rightarrow> cmd parse" where
  "parseredirs cmd s ps = (case peek s ps [60, 62] of
       (False, ps) \<Rightarrow> Parsed cmd ps
     | (True, ps) \<Rightarrow>
         (case gettoken s ps of (tok, _, _, ps) \<Rightarrow>
         (case gettoken s ps of (tok', q, eq, ps) \<Rightarrow>
         if tok' \<noteq> 97 then Panics ''missing file for redirection''
         else parseredirs
           (if tok = 60 then Redircmd cmd (q, eq) O_RDONLY 0
            else if tok = 62 then Redircmd cmd (q, eq) (O_WRONLY OR O_CREATE) 1
            else if tok = 43 then Redircmd cmd (q, eq) (O_WRONLY OR O_CREATE) 1
            else cmd) s ps)))"
  by pat_completeness auto

termination
proof (relation "measure (\<lambda>(cmd, s, i). length s - i)", goal_cases)
  case (2 cmd s ps b j1 tok r q1 r1 eq1 j2 tok' r' q r2 eq j3)
  then have p: "peek s ps [60, 62] = (b, j1)" "gettoken s j1 = (tok, q1, eq1, j2)" "gettoken s j2 = (tok', q, eq, j3)" "tok' \<noteq> 0"
    by auto
  show ?case
    using peek_ge [OF p(1)] gettoken_ge [OF p(2)] gettoken_less [OF p(3,4)] by auto
qed simp

declare parseredirs.simps [simp del]

lemma parseredirs_ge: "parseredirs cmd s i = Parsed c j \<Longrightarrow> i \<le> j"
proof (induction cmd s i rule: parseredirs.induct)
  case (1 cmd s ps)
  obtain b j1 where p: "peek s ps [60, 62] = (b, j1)"
    by fastforce
  obtain tok q1 eq1 j2 where g: "gettoken s j1 = (tok, q1, eq1, j2)"
    by (metis prod_cases4)
  obtain tok' q eq j3 where h: "gettoken s j2 = (tok', q, eq, j3)"
    by (metis prod_cases4)
  show ?case
  proof (cases b)
    case True
    then have "tok' = 97" "j3 \<le> j"
      using 1 p g h by (auto simp: parseredirs.simps [of cmd s ps] split: if_splits)
    then show ?thesis
      using peek_ge [OF p] gettoken_ge [OF g] gettoken_ge [OF h] by simp
  qed (use 1 p peek_ge [OF p] in \<open>auto simp: parseredirs.simps [of cmd s ps]\<close>)
qed

text \<open>The local \<^verbatim>\<open>cmd\<close> of \<^verbatim>\<open>parseexec\<close> is the node under the redirections of \<^verbatim>\<open>ret\<close>.\<close>

fun add_arg :: "cmd \<Rightarrow> nat \<times> nat \<Rightarrow> cmd" where
  "add_arg (Execcmd args) a = Execcmd (args @ [a])"
| "add_arg (Redircmd c f mode fd) a = Redircmd (add_arg c a) f mode fd"
| "add_arg c a = c"

function parseexec_loop :: "cmd \<Rightarrow> nat \<Rightarrow> uchar list \<Rightarrow> nat \<Rightarrow> cmd parse" where
  "parseexec_loop res argc s ps = (case peek s ps [124, 41, 38, 59] of
       (True, ps) \<Rightarrow> Parsed res ps
     | (False, ps) \<Rightarrow>
         (case gettoken s ps of (tok, q, eq, ps) \<Rightarrow>
         if tok = 0 then Parsed res ps
         else if tok \<noteq> 97 then Panics ''syntax''
         else if argc + 1 \<ge> MAXARGS then Panics ''too many args''
         else (case parseredirs (add_arg res (q, eq)) s ps of
             Parsed res ps \<Rightarrow> parseexec_loop res (argc + 1) s ps
           | Panics e \<Rightarrow> Panics e
           | NoFuel \<Rightarrow> NoFuel)))"
  by pat_completeness auto

termination
proof (relation "measure (\<lambda>(res, argc, s, i). length s - i)", goal_cases)
  case (2 res argc s ps b j1 tok r q r1 eq j2 res' j3)
  then have p: "peek s ps [124, 41, 38, 59] = (b, j1)" "gettoken s j1 = (tok, q, eq, j2)" "tok \<noteq> 0" "parseredirs (add_arg res (q, eq)) s j2 = Parsed res' j3"
    by auto
  show ?case
    using peek_ge [OF p(1)] gettoken_less [OF p(2,3)] parseredirs_ge [OF p(4)] by auto
qed simp

declare parseexec_loop.simps [simp del]

lemma peek_gettoken:
  assumes "peek s i toks = (True, j)" "gettoken s j = (tok, q, eq, k)"
  shows "j < k \<and> j < length s"
proof -
  have "char_at s j \<noteq> 0" "j = skip_while whitespace s i"
    using assms(1) by (auto simp: peek_def Let_def)
  then have "j < length s" "\<not> whitespace (s ! j)"
    using skip_while_stop [of whitespace s i] by (auto simp: char_at_def split: if_splits)
  then have "skip_while whitespace s j = j"
    by (cases "drop j s") (auto simp: skip_while_def nth_via_drop)
  then have "tok \<noteq> 0"
    using assms(2) \<open>char_at s j \<noteq> 0\<close> by (auto simp: gettoken_def Let_def split: if_splits)
  then show ?thesis
    using gettoken_less [OF assms(2)] by simp
qed

text \<open>The loop of \<^verbatim>\<open>parseline\<close> over the ampersands.\<close>

function parseline_back :: "cmd \<Rightarrow> uchar list \<Rightarrow> nat \<Rightarrow> cmd \<times> nat" where
  "parseline_back cmd s ps = (case peek s ps [38] of
       (False, ps) \<Rightarrow> (cmd, ps)
     | (True, ps) \<Rightarrow> (case gettoken s ps of (_, _, _, ps) \<Rightarrow> parseline_back (Backcmd cmd) s ps))"
  by pat_completeness auto

termination
proof (relation "measure (\<lambda>(cmd, s, i). length s - i)", goal_cases)
  case (2 cmd s ps b j1 tok r q r1 eq j2)
  then have p: "peek s ps [38] = (True, j1)" "gettoken s j1 = (tok, q, eq, j2)"
    by auto
  show ?case
    using peek_ge [OF p(1)] peek_gettoken [OF p] by auto
qed simp

declare parseline_back.simps [simp del]

definition pbind :: "'a parse \<Rightarrow> ('a \<Rightarrow> nat \<Rightarrow> 'b parse) \<Rightarrow> 'b parse" where
  "pbind p f = (case p of Parsed x i \<Rightarrow> f x i | Panics e \<Rightarrow> Panics e | NoFuel \<Rightarrow> NoFuel)"

text \<open>The four functions call each other in a cycle that takes an opening parenthesis each time round; \<open>fuel\<close> bounds the depth of the calls.\<close>

fun parseline :: "nat \<Rightarrow> uchar list \<Rightarrow> nat \<Rightarrow> cmd parse"
  and parsepipe :: "nat \<Rightarrow> uchar list \<Rightarrow> nat \<Rightarrow> cmd parse"
  and parseblock :: "nat \<Rightarrow> uchar list \<Rightarrow> nat \<Rightarrow> cmd parse"
  and parseexec :: "nat \<Rightarrow> uchar list \<Rightarrow> nat \<Rightarrow> cmd parse" where
  "parseline 0 s ps = NoFuel"
| "parseline (Suc fuel) s ps =
     pbind (parsepipe fuel s ps) (\<lambda>cmd ps.
     case parseline_back cmd s ps of (cmd, ps) \<Rightarrow>
     (case peek s ps [59] of
        (True, ps) \<Rightarrow> (case gettoken s ps of (_, _, _, ps) \<Rightarrow> pbind (parseline fuel s ps) (\<lambda>r. Parsed (Listcmd cmd r)))
      | (False, ps) \<Rightarrow> Parsed cmd ps))"
| "parsepipe 0 s ps = NoFuel"
| "parsepipe (Suc fuel) s ps =
     pbind (parseexec fuel s ps) (\<lambda>cmd ps.
     case peek s ps [124] of
       (True, ps) \<Rightarrow> (case gettoken s ps of (_, _, _, ps) \<Rightarrow> pbind (parsepipe fuel s ps) (\<lambda>r. Parsed (Pipecmd cmd r)))
     | (False, ps) \<Rightarrow> Parsed cmd ps)"
| "parseblock 0 s ps = NoFuel"
| "parseblock (Suc fuel) s ps =
     (case peek s ps [40] of
        (False, ps) \<Rightarrow> Panics ''parseblock''
      | (True, ps) \<Rightarrow>
          (case gettoken s ps of (_, _, _, ps) \<Rightarrow>
          pbind (parseline fuel s ps) (\<lambda>cmd ps.
          case peek s ps [41] of
            (False, ps) \<Rightarrow> Panics ''syntax - missing )''
          | (True, ps) \<Rightarrow> (case gettoken s ps of (_, _, _, ps) \<Rightarrow> parseredirs cmd s ps))))"
| "parseexec 0 s ps = NoFuel"
| "parseexec (Suc fuel) s ps =
     (case peek s ps [40] of
        (True, ps) \<Rightarrow> parseblock fuel s ps
      | (False, ps) \<Rightarrow> pbind (parseredirs (Execcmd []) s ps) (\<lambda>res ps. parseexec_loop res 0 s ps))"

text \<open>\<^verbatim>\<open>nulterminate\<close> writes the NULs into the line; the line is the list of its bytes and the final NUL.\<close>

fun nulterminate :: "cmd \<Rightarrow> uchar list \<Rightarrow> uchar list" where
  "nulterminate (Execcmd args) line = fold (\<lambda>(q, eq) line. line[eq := 0]) args line"
| "nulterminate (Redircmd c (q, eq) mode fd) line = (nulterminate c line)[eq := 0]"
| "nulterminate (Pipecmd l r) line = nulterminate r (nulterminate l line)"
| "nulterminate (Listcmd l r) line = nulterminate r (nulterminate l line)"
| "nulterminate (Backcmd c) line = nulterminate c line"

text \<open>The command and the line with its NULs.\<close>

definition parsecmd :: "uchar list \<Rightarrow> (cmd \<times> uchar list) parse" where
  "parsecmd s =
     pbind (parseline (4 * length s + 4) s 0) (\<lambda>cmd ps.
     case peek s ps [] of (_, ps) \<Rightarrow>
     if ps \<noteq> length s then Panics ''syntax''
     else Parsed (cmd, nulterminate cmd (s @ [0])) ps)"

end
