(* ===== verification/Shgrammar.thy ===== *)
theory Shgrammar
  imports Sh
begin

text \<open>
  The parser of the shell (\<^verbatim>\<open>src/sh.c\<close>) recognises a grammar: a line as a sequence of tokens, the syntax trees of lines, and the proof that \<^verbatim>\<open>parsecmd\<close> returns the
  command of the tree whose tokens the line has, and panics if there is none.
\<close>

section \<open>Lines as sequences of tokens\<close>

datatype tok = Sym uchar | Word "uchar list"

function tokens_from :: "uchar list \<Rightarrow> nat \<Rightarrow> tok list" where
  "tokens_from s i = (case gettoken s i of (tok, q, eq, j) \<Rightarrow>
     if tok = 0 then []
     else (if tok = 97 then Word (take (eq - q) (drop q s)) else Sym tok) # tokens_from s j)"
  by pat_completeness auto

termination
proof (relation "measure (\<lambda>(s, i). length s - i)", goal_cases)
  case (2 s i tok r q r1 eq j)
  then have "gettoken s i = (tok, q, eq, j)" "tok \<noteq> 0"
    by auto
  then show ?case
    using gettoken_less by fastforce
qed simp

declare tokens_from.simps [simp del]

text \<open>The byte a token begins with.\<close>

fun lead :: "tok list \<Rightarrow> uchar" where
  "lead [] = 0"
| "lead (Sym c # ts) = (if c = 43 then 62 else c)"
| "lead (Word w # ts) = hd w"

definition word_ptr :: "uchar list \<Rightarrow> nat \<times> nat \<Rightarrow> bool" where
  "word_ptr s p = (case p of (q, eq) \<Rightarrow> q < eq \<and> eq \<le> length s \<and> (\<forall>j. q \<le> j \<and> j < eq \<longrightarrow> \<not> whitespace (s ! j) \<and> \<not> symbols (s ! j)) \<and>
     (eq < length s \<longrightarrow> whitespace (s ! eq) \<or> symbols (s ! eq)))"

definition ptr_text :: "uchar list \<Rightarrow> nat \<times> nat \<Rightarrow> uchar list" where
  "ptr_text s p = (case p of (q, eq) \<Rightarrow> take (eq - q) (drop q s))"

lemma skip_while_idem: "skip_while P s (skip_while P s i) = skip_while P s i"
proof (rule ccontr)
  let ?j = "skip_while P s i"
  assume "\<not> ?thesis"
  then have "?j < skip_while P s ?j"
    using skip_while_ge [of ?j P s] by simp
  moreover then have "?j < length s"
    by (cases "?j < length s") (simp_all add: skip_while_def)
  ultimately show False
    using skip_while_run [of ?j ?j P s] skip_while_stop [of P s i] by simp
qed

lemma tokens_skip: "tokens_from s (skip_while whitespace s i) = tokens_from s i"
  unfolding tokens_from.simps [of s i] tokens_from.simps [of s "skip_while whitespace s i"] by (simp add: gettoken_def skip_while_idem)

text \<open>\<open>sees s i ts\<close>: the tokens of the line from \<open>i\<close> on are \<open>ts\<close>.\<close>

definition sees :: "uchar list \<Rightarrow> nat \<Rightarrow> tok list \<Rightarrow> bool" where
  "sees s i ts = (0 \<notin> set s \<and> i \<le> length s \<and> tokens_from s i = ts)"

lemma gettoken_view:
  assumes "gettoken s i = (tok, q, eq, j)" "i \<le> length s" "0 \<notin> set s"
  shows "j \<le> length s" "tok = 0 \<longleftrightarrow> q = length s" "tok = 0 \<Longrightarrow> j = length s" "tok \<noteq> 0 \<Longrightarrow> tok \<noteq> 97 \<Longrightarrow> symbols (char_at s q) \<and> char_at s q = (if tok = 43 then 62 else tok)"
    "tok = 97 \<Longrightarrow> word_ptr s (q, eq) \<and> char_at s q = s ! q" "char_at s q = 0 \<longleftrightarrow> tok = 0" "q = skip_while whitespace s i"
proof -
  let ?w = "\<lambda>c. \<not> whitespace c \<and> \<not> symbols c"
  have g: "q = skip_while whitespace s i" "j = skip_while whitespace s eq" "tok = 0 \<longleftrightarrow> char_at s q = 0"
    using assms(1) by (auto simp: gettoken_def Let_def split: if_splits)
  have q: "q \<le> length s"
    using skip_while_le [OF assms(2)] g(1) by simp
  have z: "char_at s q = 0 \<longleftrightarrow> q = length s"
  proof (cases "q < length s")
    case True
    then show ?thesis
      using assms(3) nth_mem [OF True] by (metis char_at_def nat_neq_iff)
  qed (use q in \<open>simp add: char_at_def\<close>)
  show t: "tok = 0 \<longleftrightarrow> q = length s" "char_at s q = 0 \<longleftrightarrow> tok = 0" "q = skip_while whitespace s i"
    using g z by simp_all
  have "eq \<le> length s"
    using gettoken_moves(5) [OF assms(1)] assms(1) q by (cases "tok = 0") (auto simp: gettoken_def Let_def split: if_splits)
  then show "j \<le> length s"
    using skip_while_le g(2) by simp
  show "j = length s" if "tok = 0"
    using that assms(1) t(1) by (auto simp: gettoken_def Let_def skip_while_def split: if_splits)
  show "symbols (char_at s q) \<and> char_at s q = (if tok = 43 then 62 else tok)" if "tok \<noteq> 0" "tok \<noteq> 97"
    using that assms(1) by (auto simp: gettoken_def Let_def symbols_def split: if_splits)
  show "word_ptr s (q, eq) \<and> char_at s q = s ! q" if "tok = 97"
  proof -
    have l: "q < eq" "eq \<le> length s" "q < length s"
      using gettoken_moves [OF assms(1)] that by simp_all
    have e: "eq = skip_while ?w s q"
      using that assms(1) l by (auto simp: gettoken_def Let_def split: if_splits)
    then show ?thesis
      using l skip_while_run [of q _ ?w s] skip_while_stop [of ?w s q] by (auto simp: word_ptr_def char_at_def)
  qed
qed

lemma sees_end:
  assumes "sees s i []"
  shows "\<exists>q eq. gettoken s i = (0, q, eq, length s)" "skip_while whitespace s i = length s" "sees s (length s) []"
proof -
  obtain tok q eq j where g: "gettoken s i = (tok, q, eq, j)"
    by (metis prod_cases4)
  then have "tok = 0"
    using assms by (auto simp: sees_def tokens_from.simps [of s i] split: if_splits)
  then show "\<exists>q eq. gettoken s i = (0, q, eq, length s)" "skip_while whitespace s i = length s"
    using gettoken_view [OF g] assms g by (auto simp: sees_def)
  then show "sees s (length s) []"
    using assms tokens_skip [of s i] by (auto simp: sees_def)
qed

lemma sees_Sym:
  assumes "sees s i (Sym c # ts)"
  shows "\<exists>q eq j. gettoken s i = (c, q, eq, j) \<and> sees s j ts" "symbols (lead [Sym c])" "c \<noteq> 97"
proof -
  obtain tok q eq j where g: "gettoken s i = (tok, q, eq, j)"
    by (metis prod_cases4)
  then have t: "tok = c" "tok \<noteq> 0" "tok \<noteq> 97" "tokens_from s j = ts"
    using assms by (auto simp: sees_def tokens_from.simps [of s i] split: if_splits)
  note v = gettoken_view [OF g]
  show "\<exists>q eq j. gettoken s i = (c, q, eq, j) \<and> sees s j ts" "symbols (lead [Sym c])" "c \<noteq> 97"
    using v assms g t by (auto simp: sees_def)
qed

lemma sees_Word:
  assumes "sees s i (Word w # ts)"
  shows "\<exists>q eq j. gettoken s i = (97, q, eq, j) \<and> sees s j ts \<and> word_ptr s (q, eq) \<and> ptr_text s (q, eq) = w" "\<not> symbols (hd w)" "hd w \<noteq> 0"
proof -
  obtain tok q eq j where g: "gettoken s i = (tok, q, eq, j)"
    by (metis prod_cases4)
  then have t: "tok = 97" "tokens_from s j = ts" "w = ptr_text s (q, eq)"
    using assms by (auto simp: sees_def ptr_text_def tokens_from.simps [of s i] split: if_splits)
  note v = gettoken_view [OF g]
  have p: "word_ptr s (q, eq)" "char_at s q = s ! q" "char_at s q \<noteq> 0"
    using v assms t(1) by (auto simp: sees_def)
  then show "\<exists>q eq j. gettoken s i = (97, q, eq, j) \<and> sees s j ts \<and> word_ptr s (q, eq) \<and> ptr_text s (q, eq) = w"
    using v(1) assms g t by (auto simp: sees_def)
  have "hd w = s ! q"
    using p(1) t(3) by (simp add: ptr_text_def word_ptr_def hd_conv_nth)
  then show "\<not> symbols (hd w)" "hd w \<noteq> 0"
    using p by (auto simp: word_ptr_def)
qed

lemma sees_peek:
  assumes "sees s i ts"
  shows "peek s i T = (lead ts \<noteq> 0 \<and> lead ts \<in> set T, skip_while whitespace s i)" "sees s (skip_while whitespace s i) ts"
proof -
  obtain tok q eq j where g: "gettoken s i = (tok, q, eq, j)"
    by (metis prod_cases4)
  note v = gettoken_view [OF g]
  have "char_at s (skip_while whitespace s i) = lead ts"
  proof (cases ts)
    case Nil
    then show ?thesis
      using sees_end(2) [of s i] assms by (simp add: char_at_def)
  next
    case (Cons t ts')
    have s: "0 \<notin> set s" "i \<le> length s"
      using assms by (simp_all add: sees_def)
    show ?thesis
    proof (cases t)
      case (Sym c)
      then show ?thesis
        using sees_Sym(1,3) [of s i c ts'] assms Cons g v(4,6,7) s by (auto split: if_splits)
    next
      case (Word w)
      then show ?thesis
        using sees_Word(1) [of s i w ts'] assms Cons g v(5,7) s by (auto simp: ptr_text_def word_ptr_def hd_conv_nth)
    qed
  qed
  then show "peek s i T = (lead ts \<noteq> 0 \<and> lead ts \<in> set T, skip_while whitespace s i)"
    by (simp add: peek_def Let_def)
  show "sees s (skip_while whitespace s i) ts"
    using assms tokens_skip [of s i] skip_while_le [of i s] by (simp add: sees_def)
qed

section \<open>The grammar\<close>

text \<open>
  Syntax trees of lines.  A line is a pipeline, perhaps put into the background, perhaps followed by a semicolon and a line; a pipeline is a sequence of simple commands and
  blocks; a simple command has redirections, and words with redirections after them; a block is a line in parentheses with redirections.  A redirection is
  the symbol \<^verbatim>\<open><\<close>, \<^verbatim>\<open>>\<close> or \<^verbatim>\<open>+\<close>, the last for \<^verbatim>\<open>>>\<close>, and a word.
\<close>

type_synonym sredir = "uchar \<times> uchar list"

datatype sline = LEnd spipe nat | LSeq spipe nat sline
  and spipe = POne sexec | PTo sexec spipe
  and sexec = XWords "sredir list" "(uchar list \<times> sredir list) list" | XBlock sline "sredir list"

definition toks_redirs :: "sredir list \<Rightarrow> tok list" where
  "toks_redirs rs = concat (map (\<lambda>(c, w). [Sym c, Word w]) rs)"

definition toks_words :: "(uchar list \<times> sredir list) list \<Rightarrow> tok list" where
  "toks_words ws = concat (map (\<lambda>(w, rs). Word w # toks_redirs rs) ws)"

primrec toks_line :: "sline \<Rightarrow> tok list" and toks_pipe :: "spipe \<Rightarrow> tok list" and toks_exec :: "sexec \<Rightarrow> tok list" where
  "toks_line (LEnd p k) = toks_pipe p @ replicate k (Sym 38)"
| "toks_line (LSeq p k l) = toks_pipe p @ replicate k (Sym 38) @ Sym 59 # toks_line l"
| "toks_pipe (POne e) = toks_exec e"
| "toks_pipe (PTo e p) = toks_exec e @ Sym 124 # toks_pipe p"
| "toks_exec (XWords rs ws) = toks_redirs rs @ toks_words ws"
| "toks_exec (XBlock l rs) = Sym 40 # toks_line l @ Sym 41 # toks_redirs rs"

text \<open>The redirections have their symbols, and a command has fewer than \<^verbatim>\<open>MAXARGS\<close> words.\<close>

definition redirs_ok :: "sredir list \<Rightarrow> bool" where
  "redirs_ok rs = (\<forall>(c, w) \<in> set rs. c \<in> {60, 62, 43})"

primrec line_ok :: "sline \<Rightarrow> bool" and pipe_ok :: "spipe \<Rightarrow> bool" and exec_ok :: "sexec \<Rightarrow> bool" where
  "line_ok (LEnd p k) = pipe_ok p"
| "line_ok (LSeq p k l) = (pipe_ok p \<and> line_ok l)"
| "pipe_ok (POne e) = exec_ok e"
| "pipe_ok (PTo e p) = (exec_ok e \<and> pipe_ok p)"
| "exec_ok (XWords rs ws) = (redirs_ok rs \<and> (\<forall>(w, rs) \<in> set ws. redirs_ok rs) \<and> length ws < MAXARGS)"
| "exec_ok (XBlock l rs) = (line_ok l \<and> redirs_ok rs)"

text \<open>Commands with their strings, and the command that a tree stands for.\<close>

datatype ast = AExec "uchar list list" | ARedir ast "uchar list" uint32 nat | APipe ast ast | AList ast ast | ABack ast

definition a_redir :: "ast \<Rightarrow> sredir \<Rightarrow> ast" where
  "a_redir a r = (case r of (c, w) \<Rightarrow> if c = 60 then ARedir a w O_RDONLY 0 else ARedir a w (O_WRONLY OR O_CREATE) 1)"

primrec ast_line :: "sline \<Rightarrow> ast" and ast_pipe :: "spipe \<Rightarrow> ast" and ast_exec :: "sexec \<Rightarrow> ast" where
  "ast_line (LEnd p k) = (ABack ^^ k) (ast_pipe p)"
| "ast_line (LSeq p k l) = AList ((ABack ^^ k) (ast_pipe p)) (ast_line l)"
| "ast_pipe (POne e) = ast_exec e"
| "ast_pipe (PTo e p) = APipe (ast_exec e) (ast_pipe p)"
| "ast_exec (XWords rs ws) = foldl a_redir (AExec (map fst ws)) (rs @ concat (map snd ws))"
| "ast_exec (XBlock l rs) = foldl a_redir (ast_line l) rs"

text \<open>A parsed command with pointers to words of the line, and its strings.\<close>

fun ptrs :: "cmd \<Rightarrow> (nat \<times> nat) list" where
  "ptrs (Execcmd args) = args"
| "ptrs (Redircmd c p mode fd) = p # ptrs c"
| "ptrs (Pipecmd l r) = ptrs l @ ptrs r"
| "ptrs (Listcmd l r) = ptrs l @ ptrs r"
| "ptrs (Backcmd c) = ptrs c"

fun strings :: "(nat \<times> nat \<Rightarrow> uchar list) \<Rightarrow> cmd \<Rightarrow> ast" where
  "strings f (Execcmd args) = AExec (map f args)"
| "strings f (Redircmd c p mode fd) = ARedir (strings f c) (f p) mode fd"
| "strings f (Pipecmd l r) = APipe (strings f l) (strings f r)"
| "strings f (Listcmd l r) = AList (strings f l) (strings f r)"
| "strings f (Backcmd c) = ABack (strings f c)"

definition means :: "uchar list \<Rightarrow> cmd \<Rightarrow> ast \<Rightarrow> bool" where
  "means s c a = (strings (ptr_text s) c = a \<and> (\<forall>p \<in> set (ptrs c). word_ptr s p))"

fun a_arg :: "ast \<Rightarrow> uchar list \<Rightarrow> ast" where
  "a_arg (AExec args) w = AExec (args @ [w])"
| "a_arg (ARedir a f mode fd) w = ARedir (a_arg a w) f mode fd"
| "a_arg a w = a"

lemma means_simps:
  "means s (Execcmd []) (AExec [])"
  "means s (Backcmd c) (ABack a) \<longleftrightarrow> means s c a"
  "means s (Redircmd c p mode fd) (ARedir a w mode fd) \<longleftrightarrow> means s c a \<and> word_ptr s p \<and> ptr_text s p = w"
  "means s (Pipecmd c d) (APipe a b) \<longleftrightarrow> means s c a \<and> means s d b"
  "means s (Listcmd c d) (AList a b) \<longleftrightarrow> means s c a \<and> means s d b"
  by (auto simp: means_def)

lemma means_arg: "means s c a \<Longrightarrow> word_ptr s p \<Longrightarrow> means s (add_arg c p) (a_arg a (ptr_text s p))"
proof (induction c p arbitrary: a rule: add_arg.induct)
  case (2 c f mode fd p)
  obtain b where "a = ARedir b (ptr_text s f) mode fd" "means s c b" "word_ptr s f"
    using 2(2) by (auto simp: means_def)
  then show ?case
    using 2(1) [of b] 2(3) by (simp add: means_simps)
qed (auto simp: means_def)

lemma a_arg_redir: "a_arg (foldl a_redir a rs) w = foldl a_redir (a_arg a w) rs"
  by (induction rs arbitrary: a) (auto simp: a_redir_def)

lemma toks_simps [simp]:
  "toks_redirs [] = []" "toks_redirs ((c, w) # rs) = Sym c # Word w # toks_redirs rs" "toks_words [] = []" "toks_words ((w, rs) # ws) = Word w # toks_redirs rs @ toks_words ws"
  "redirs_ok []" "redirs_ok ((c, w) # rs) \<longleftrightarrow> c \<in> {60, 62, 43} \<and> redirs_ok rs"
  by (simp_all add: toks_redirs_def toks_words_def redirs_ok_def)

section \<open>The parser and the grammar\<close>

subsection \<open>Redirections\<close>

lemma parseredirs_stop:
  assumes "sees s i ts" "lead ts \<notin> {60, 62}"
  shows "\<exists>j. parseredirs c s i = Parsed c j \<and> sees s j ts"
  using sees_peek [OF assms(1)] assms(2) by (auto simp: parseredirs.simps [of c s i])

lemma parseredirs_step:
  assumes "sees s i (Sym k # Word w # ts)" "k \<in> {60, 62, 43}" "means s c a"
  shows "\<exists>d j. parseredirs c s i = parseredirs d s j \<and> sees s j ts \<and> means s d (a_redir a (k, w))"
proof -
  let ?i = "skip_while whitespace s i"
  note p = sees_peek [OF assms(1)]
  obtain q eq j where g: "gettoken s ?i = (k, q, eq, j)" "sees s j (Word w # ts)"
    using sees_Sym(1) [OF p(2)] by blast
  obtain q' eq' j' where h: "gettoken s j = (97, q', eq', j')" "sees s j' ts" "word_ptr s (q', eq')" "ptr_text s (q', eq') = w"
    using sees_Word(1) [OF g(2)] by blast
  show ?thesis
    using p(1) assms(2,3) g(1) h
    by (intro exI [of _ "if k = 60 then Redircmd c (q', eq') O_RDONLY 0 else Redircmd c (q', eq') (O_WRONLY OR O_CREATE) 1"] exI [of _ j'])
      (auto simp: parseredirs.simps [of c s i] a_redir_def means_simps)
qed

lemma parseredirs_panic:
  assumes "sees s i (Sym k # ts)" "k \<in> {60, 62, 43}" "\<nexists>w ts'. ts = Word w # ts'"
  shows "parseredirs c s i = Panics ''missing file for redirection''"
proof -
  let ?i = "skip_while whitespace s i"
  note p = sees_peek [OF assms(1)]
  obtain q eq j where g: "gettoken s ?i = (k, q, eq, j)" "sees s j ts"
    using sees_Sym(1) [OF p(2)] by blast
  obtain tok q' eq' j' where h: "gettoken s j = (tok, q', eq', j')" "tok \<noteq> 97"
  proof (cases ts)
    case Nil
    then show ?thesis
      using that sees_end(1) [of s j] g(2) by auto
  next
    case (Cons t ts')
    then obtain c where "t = Sym c"
      using assms(3) by (cases t) auto
    then show ?thesis
      using that sees_Sym [of s j c ts'] g(2) Cons by blast
  qed
  show ?thesis
    using p(1) assms(2) g(1) h by (auto simp: parseredirs.simps [of c s i])
qed

lemma parseredirs_complete:
  assumes "sees s i (toks_redirs rs @ rest)" "redirs_ok rs" "lead rest \<notin> {60, 62}" "means s c a"
  shows "\<exists>d j. parseredirs c s i = Parsed d j \<and> sees s j rest \<and> means s d (foldl a_redir a rs)"
  using assms
proof (induction rs arbitrary: i c a)
  case Nil
  then show ?case
    using parseredirs_stop [of s i rest c] by auto
next
  case (Cons r rs)
  obtain k w where r: "r = (k, w)"
    by fastforce
  then obtain d j where "parseredirs c s i = parseredirs d s j" "sees s j (toks_redirs rs @ rest)" "means s d (a_redir a (k, w))"
    using parseredirs_step [of s i k w "toks_redirs rs @ rest" c a] Cons.prems by auto
  then show ?case
    using Cons.IH [of j d "a_redir a (k, w)"] Cons.prems r by auto
qed

lemma lead_redir:
  assumes "sees s i ts" "lead ts \<in> {60, 62}"
  obtains k ts' where "ts = Sym k # ts'" "k \<in> {60, 62, 43}"
proof (cases ts)
  case (Cons t ts')
  show ?thesis
  proof (cases t)
    case (Sym k)
    then show ?thesis
      using that [of k ts'] assms(2) Cons by (auto split: if_splits)
  next
    case (Word w)
    then show ?thesis
      using sees_Word(2) [of s i w ts'] assms Cons by (auto simp: symbols_def)
  qed
qed (use assms in simp)

lemma parseredirs_sound:
  assumes "sees s i ts" "means s c a"
  shows "(\<exists>rs rest d j. ts = toks_redirs rs @ rest \<and> redirs_ok rs \<and> lead rest \<notin> {60, 62} \<and> parseredirs c s i = Parsed d j \<and> sees s j rest \<and> means s d (foldl a_redir a rs)) \<or>
    (\<exists>e. parseredirs c s i = Panics e)"
  using assms
proof (induction "length ts" arbitrary: ts i c a rule: less_induct)
  case less
  show ?case
  proof (cases "lead ts \<in> {60, 62}")
    case False
    then show ?thesis
      using parseredirs_stop [OF less.prems(1), of c] less.prems(2) by (intro disjI1 exI [of _ "[]"] exI [of _ ts]) auto
  next
    case True
    then obtain k ts' where k: "ts = Sym k # ts'" "k \<in> {60, 62, 43}"
      using lead_redir [OF less.prems(1)] by blast
    show ?thesis
    proof (cases "\<exists>w ts''. ts' = Word w # ts''")
      case True
      then obtain w ts'' where w: "ts' = Word w # ts''"
        by blast
      then obtain d j where d: "parseredirs c s i = parseredirs d s j" "sees s j ts''" "means s d (a_redir a (k, w))"
        using parseredirs_step [of s i k w ts'' c a] less.prems k by auto
      from less.hyps [OF _ d(2,3)] consider
          (ok) rs rest e l where "ts'' = toks_redirs rs @ rest" "redirs_ok rs" "lead rest \<notin> {60, 62}" "parseredirs d s j = Parsed e l" "sees s l rest" "means s e (foldl a_redir (a_redir a (k, w)) rs)"
        | (bad) e where "parseredirs d s j = Panics e"
        using k w by auto
      then show ?thesis
      proof cases
        case ok
        then show ?thesis
          using d k w by (intro disjI1 exI [of _ "(k, w) # rs"] exI [of _ rest] exI [of _ e] exI [of _ l]) auto
      qed (use d in auto)
    qed (use parseredirs_panic [of s i k ts' c] less.prems(1) k in auto)
  qed
qed

subsection \<open>Words\<close>

definition stops :: "tok list \<Rightarrow> bool" where
  "stops ts = (ts = [] \<or> (\<exists>c ts'. ts = Sym c # ts' \<and> c \<in> {124, 41, 38, 59}))"

lemma lead_Sym:
  assumes "sees s i ts" "symbols c" "c \<noteq> 62"
  shows "lead ts = c \<longleftrightarrow> (\<exists>ts'. ts = Sym c # ts')"
proof (cases ts)
  case (Cons t ts')
  show ?thesis
  proof (cases t)
    case (Word w)
    then show ?thesis
      using sees_Word(2) [of s i w ts'] assms(1,2) Cons by auto
  qed (use assms(2,3) Cons in \<open>auto simp: symbols_def\<close>)
qed (use assms(2) in \<open>auto simp: symbols_def\<close>)

lemma sees_next:
  assumes "sees s i (t # ts)"
  shows "\<exists>j. sees s j ts"
  using sees_Sym(1) [of s i _ ts] sees_Word(1) [of s i _ ts] assms by (cases t) blast+

lemma sees_later: "sees s i (us @ ts) \<Longrightarrow> \<exists>j. sees s j ts"
  by (induction us arbitrary: i) (auto dest: sees_next)

lemma peek_Sym:
  assumes "sees s i ts" "\<forall>c \<in> set T. symbols c \<and> c \<noteq> 62"
  shows "\<exists>j. peek s i T = (\<exists>c ts'. ts = Sym c # ts' \<and> c \<in> set T, j) \<and> sees s j ts"
proof -
  have "lead ts \<noteq> 0 \<and> lead ts \<in> set T \<longleftrightarrow> (\<exists>c ts'. ts = Sym c # ts' \<and> c \<in> set T)"
  proof
    assume "lead ts \<noteq> 0 \<and> lead ts \<in> set T"
    then show "\<exists>c ts'. ts = Sym c # ts' \<and> c \<in> set T"
      using lead_Sym [OF assms(1), of "lead ts"] assms(2) by blast
  next
    assume "\<exists>c ts'. ts = Sym c # ts' \<and> c \<in> set T"
    then obtain c ts' where "ts = Sym c # ts'" "c \<in> set T" "symbols c" "c \<noteq> 62"
      using assms(2) by blast
    then show "lead ts \<noteq> 0 \<and> lead ts \<in> set T"
      using lead_Sym [OF assms(1), of c] by (auto simp: symbols_def)
  qed
  then show ?thesis
    using sees_peek [OF assms(1)] by auto
qed

text \<open>The single steps of the loop over the words.\<close>

lemma words_stop:
  assumes "sees s i ts" "stops ts"
  shows "\<exists>j. parseexec_loop c n s i = Parsed c j \<and> sees s j ts"
proof -
  obtain j where j: "peek s i [124, 41, 38, 59] = (\<exists>c ts'. ts = Sym c # ts' \<and> c \<in> set [124, 41, 38, 59], j)" "sees s j ts"
    using peek_Sym [OF assms(1), of "[124, 41, 38, 59]"] by (auto simp: symbols_def)
  show ?thesis
  proof (cases "ts = []")
    case True
    then show ?thesis
      using j sees_end(1,3) [of s j] by (auto simp: parseexec_loop.simps [of c n s i])
  next
    case False
    then show ?thesis
      using j assms(2) by (auto simp: parseexec_loop.simps [of c n s i] stops_def)
  qed
qed

lemma words_step:
  assumes "sees s i (Word w # ts)" "n + 1 < MAXARGS"
  shows "\<exists>p j. sees s j ts \<and> word_ptr s p \<and> ptr_text s p = w \<and> parseexec_loop c n s i = pbind (parseredirs (add_arg c p) s j) (\<lambda>c j. parseexec_loop c (n + 1) s j)"
proof -
  obtain j where j: "peek s i [124, 41, 38, 59] = (False, j)" "sees s j (Word w # ts)"
    using peek_Sym [OF assms(1), of "[124, 41, 38, 59]"] by (auto simp: symbols_def)
  obtain q eq l where "gettoken s j = (97, q, eq, l)" "sees s l ts" "word_ptr s (q, eq)" "ptr_text s (q, eq) = w"
    using sees_Word(1) [OF j(2)] by blast
  then show ?thesis
    using j(1) assms(2) by (intro exI [of _ "(q, eq)"] exI [of _ l]) (simp add: parseexec_loop.simps [of c n s i] pbind_def del: One_nat_def add_Suc_right)
qed

lemma words_panic:
  assumes "sees s i ts" "\<not> stops ts" "n + 1 < MAXARGS \<Longrightarrow> \<nexists>w ts'. ts = Word w # ts'"
  shows "\<exists>e. parseexec_loop c n s i = Panics e"
proof -
  obtain j where j: "peek s i [124, 41, 38, 59] = (False, j)" "sees s j ts"
    using peek_Sym [OF assms(1), of "[124, 41, 38, 59]"] assms(2) by (auto simp: symbols_def stops_def)
  obtain t ts' where t: "ts = t # ts'"
    using assms(2) by (cases ts) (auto simp: stops_def)
  show ?thesis
  proof (cases t)
    case (Sym k)
    then show ?thesis
      using sees_Sym [of s j k ts'] j t by (auto simp: parseexec_loop.simps [of c n s i] symbols_def)
  next
    case (Word w)
    then show ?thesis
      using sees_Word(1) [of s j w ts'] j t assms(3) by (auto simp: parseexec_loop.simps [of c n s i])
  qed
qed

lemma stops_lead: "stops ts \<Longrightarrow> lead ts \<notin> {60, 62}"
  by (auto simp: stops_def)

lemma words_lead:
  assumes "sees s i (toks_words ws @ rest)" "stops rest"
  shows "lead (toks_words ws @ rest) \<notin> {60, 62}"
proof (cases ws)
  case (Cons x ws')
  then show ?thesis
    using sees_Word(2) [of s i "fst x"] assms(1) by (cases x) (auto simp: symbols_def)
qed (use assms stops_lead in simp)

lemma words_complete:
  assumes "sees s i (toks_words ws @ rest)" "\<forall>(w, rs) \<in> set ws. redirs_ok rs" "n + length ws < MAXARGS" "stops rest" "means s c (foldl a_redir (AExec as) rs0)"
  shows "\<exists>d j. parseexec_loop c n s i = Parsed d j \<and> sees s j rest \<and> means s d (foldl a_redir (AExec (as @ map fst ws)) (rs0 @ concat (map snd ws)))"
  using assms
proof (induction ws arbitrary: i n c as rs0)
  case Nil
  then show ?case
    using words_stop [of s i rest c n] by auto
next
  case (Cons x ws)
  obtain w rs where x: "x = (w, rs)"
    by fastforce
  then obtain p j where p: "sees s j (toks_redirs rs @ toks_words ws @ rest)" "word_ptr s p" "ptr_text s p = w"
      "parseexec_loop c n s i = pbind (parseredirs (add_arg c p) s j) (\<lambda>c j. parseexec_loop c (n + 1) s j)"
    using words_step [of s i w "toks_redirs rs @ toks_words ws @ rest" n c] Cons.prems by auto
  have "lead (toks_words ws @ rest) \<notin> {60, 62}"
    using sees_later [OF p(1)] words_lead Cons.prems(4) by blast
  moreover have "means s (add_arg c p) (foldl a_redir (AExec (as @ [w])) rs0)"
    using means_arg [OF Cons.prems(5) p(2)] p(3) by (simp add: a_arg_redir)
  ultimately obtain d l where d: "parseredirs (add_arg c p) s j = Parsed d l" "sees s l (toks_words ws @ rest)" "means s d (foldl a_redir (AExec (as @ [w])) (rs0 @ rs))"
    using parseredirs_complete [OF p(1)] Cons.prems(2) x by fastforce
  then show ?case
    using Cons.IH [OF d(2) _ _ _ d(3), of "n + 1"] Cons.prems p(4) x by (auto simp: pbind_def)
qed

lemma words_sound:
  assumes "sees s i ts" "n < MAXARGS" "means s c a"
  shows "(\<exists>ws rest d j. ts = toks_words ws @ rest \<and> (\<forall>(w, rs) \<in> set ws. redirs_ok rs) \<and> n + length ws < MAXARGS \<and> parseexec_loop c n s i = Parsed d j \<and> sees s j rest \<and> (\<exists>b. means s d b)) \<or>
    (\<exists>e. parseexec_loop c n s i = Panics e)"
  using assms
proof (induction "length ts" arbitrary: ts i n c a rule: less_induct)
  case less
  consider (stop) "stops ts" | (word) w ts' where "ts = Word w # ts'" "n + 1 < MAXARGS" | (bad) "\<not> stops ts" "n + 1 < MAXARGS \<Longrightarrow> \<nexists>w ts'. ts = Word w # ts'"
    by blast
  then show ?case
  proof cases
    case stop
    then show ?thesis
      using words_stop [OF less.prems(1) stop, of c n] less.prems(2,3) by (intro disjI1 exI [of _ "[]"] exI [of _ ts]) auto
  next
    case word
    then obtain p j where p: "sees s j ts'" "word_ptr s p" "parseexec_loop c n s i = pbind (parseredirs (add_arg c p) s j) (\<lambda>c j. parseexec_loop c (n + 1) s j)"
      using words_step [of s i w ts' n c] less.prems by auto
    from parseredirs_sound [OF p(1) means_arg [OF less.prems(3) p(2)]] consider
        (ok) rs rest d l b where "ts' = toks_redirs rs @ rest" "redirs_ok rs" "parseredirs (add_arg c p) s j = Parsed d l" "sees s l rest" "means s d b"
      | (fails) e where "parseredirs (add_arg c p) s j = Panics e"
      by blast
    then show ?thesis
    proof cases
      case ok
      have "length rest < length ts"
        using word ok(1) by simp
      from less.hyps [OF this ok(4) word(2) ok(5)] consider
          (fine) ws rest' e l' where "rest = toks_words ws @ rest'" "\<forall>(w, rs) \<in> set ws. redirs_ok rs" "n + 1 + length ws < MAXARGS" "parseexec_loop d (n + 1) s l = Parsed e l'" "sees s l' rest'" "\<exists>b. means s e b"
        | (fails) e where "parseexec_loop d (n + 1) s l = Panics e"
        by blast
      then show ?thesis
      proof cases
        case fine
        then show ?thesis
          using p(3) ok word by (intro disjI1 exI [of _ "(w, rs) # ws"] exI [of _ rest'] exI [of _ e] exI [of _ l']) (auto simp: pbind_def)
      qed (use p(3) ok in \<open>auto simp: pbind_def\<close>)
    qed (use p(3) in \<open>auto simp: pbind_def\<close>)
  next
    case bad
    then show ?thesis
      using words_panic [OF less.prems(1)] by blast
  qed
qed

subsection \<open>Lines\<close>

lemma back_step:
  assumes "sees s i (Sym 38 # ts)"
  shows "\<exists>j. parseline_back c s i = parseline_back (Backcmd c) s j \<and> sees s j ts"
proof -
  obtain j where j: "peek s i [38] = (True, j)" "sees s j (Sym 38 # ts)"
    using peek_Sym [OF assms(1), of "[38]"] by (auto simp: symbols_def)
  then show ?thesis
    using sees_Sym(1) [OF j(2)] by (auto simp: parseline_back.simps [of c s i])
qed

lemma back_stop:
  assumes "sees s i ts" "\<nexists>ts'. ts = Sym 38 # ts'"
  shows "\<exists>j. parseline_back c s i = (c, j) \<and> sees s j ts"
  using peek_Sym [OF assms(1), of "[38]"] assms(2) by (auto simp: parseline_back.simps [of c s i] symbols_def)

lemma back_complete:
  assumes "sees s i (replicate k (Sym 38) @ rest)" "\<nexists>ts'. rest = Sym 38 # ts'" "means s c a"
  shows "\<exists>d j. parseline_back c s i = (d, j) \<and> sees s j rest \<and> means s d ((ABack ^^ k) a)"
  using assms
proof (induction k arbitrary: i c a)
  case 0
  then show ?case
    using back_stop [of s i rest c] by auto
next
  case (Suc k)
  then obtain j where "parseline_back c s i = parseline_back (Backcmd c) s j" "sees s j (replicate k (Sym 38) @ rest)"
    using back_step [of s i "replicate k (Sym 38) @ rest" c] by auto
  then show ?case
    using Suc.IH [of j "Backcmd c" "ABack a"] Suc.prems by (simp add: means_simps funpow_swap1)
qed

lemma back_split: "\<exists>k rest. ts = replicate k (Sym 38) @ rest \<and> (\<nexists>ts'. rest = Sym 38 # ts')"
proof (induction ts)
  case Nil
  show ?case
    by (intro exI [of _ 0]) simp
next
  case (Cons t ts)
  then obtain k rest where "ts = replicate k (Sym 38) @ rest" "\<nexists>ts'. rest = Sym 38 # ts'"
    by blast
  then show ?case
    by (cases "t = Sym 38") (force intro: exI [of _ "Suc k"] exI [of _ 0])+
qed

text \<open>What may follow a line, a pipeline and a command of a pipeline.\<close>

definition after_line :: "tok list \<Rightarrow> bool" where
  "after_line ts = (ts = [] \<or> (\<exists>ts'. ts = Sym 41 # ts'))"

definition after_pipe :: "tok list \<Rightarrow> bool" where
  "after_pipe ts = (ts = [] \<or> (\<exists>c ts'. ts = Sym c # ts' \<and> c \<in> {41, 38, 59}))"

lemma after_stops: "after_line ts \<Longrightarrow> after_pipe ts" "after_pipe ts \<Longrightarrow> stops ts" "after_pipe ts \<Longrightarrow> \<nexists>ts'. ts = Sym 124 # ts'"
  by (auto simp: after_line_def after_pipe_def stops_def)

lemma exec_words:
  assumes "sees s i (toks_redirs rs @ toks_words ws @ rest)" "exec_ok (XWords rs ws)" "stops rest" "0 < fuel"
  shows "\<exists>c j. parseexec fuel s i = Parsed c j \<and> sees s j rest \<and> means s c (ast_exec (XWords rs ws))"
proof -
  obtain k where k: "fuel = Suc k"
    using assms(4) by (cases fuel) auto
  have w: "lead (toks_words ws @ rest) \<notin> {60, 62}"
    using sees_later [OF assms(1)] words_lead [OF _ assms(3)] by blast
  have "\<nexists>ts. toks_redirs rs @ toks_words ws @ rest = Sym 40 # ts"
    using assms(2,3) by (cases rs; cases ws) (auto simp: stops_def)
  then obtain j where j: "peek s i [40] = (False, j)" "sees s j (toks_redirs rs @ toks_words ws @ rest)"
    using peek_Sym [OF assms(1), of "[40]"] by (auto simp: symbols_def)
  obtain c l where c: "parseredirs (Execcmd []) s j = Parsed c l" "sees s l (toks_words ws @ rest)" "means s c (foldl a_redir (AExec []) rs)"
    using parseredirs_complete [OF j(2) _ w means_simps(1)] assms(2) by auto
  then show ?thesis
    using words_complete [OF c(2) _ _ assms(3) c(3), of 0] assms(2) j(1) k by (simp add: pbind_def)
qed

lemma exec_block:
  assumes "sees s i (Sym 40 # toks_line l @ Sym 41 # toks_redirs rs @ rest)" "redirs_ok rs" "stops rest"
    and "\<And>i. sees s i (toks_line l @ Sym 41 # toks_redirs rs @ rest) \<Longrightarrow> \<exists>c j. parseline fuel s i = Parsed c j \<and> sees s j (Sym 41 # toks_redirs rs @ rest) \<and> means s c (ast_line l)"
  shows "\<exists>c j. parseexec (Suc (Suc fuel)) s i = Parsed c j \<and> sees s j rest \<and> means s c (ast_exec (XBlock l rs))"
proof -
  obtain j where j: "peek s i [40] = (True, j)" "sees s j (Sym 40 # toks_line l @ Sym 41 # toks_redirs rs @ rest)"
    using peek_Sym [OF assms(1), of "[40]"] by (auto simp: symbols_def)
  obtain k where k: "peek s j [40] = (True, k)" "sees s k (Sym 40 # toks_line l @ Sym 41 # toks_redirs rs @ rest)"
    using peek_Sym [OF j(2), of "[40]"] by (auto simp: symbols_def)
  obtain q eq m where m: "gettoken s k = (40, q, eq, m)" "sees s m (toks_line l @ Sym 41 # toks_redirs rs @ rest)"
    using sees_Sym(1) [OF k(2)] by blast
  obtain c n where c: "parseline fuel s m = Parsed c n" "sees s n (Sym 41 # toks_redirs rs @ rest)" "means s c (ast_line l)"
    using assms(4) [OF m(2)] by blast
  obtain o' where o: "peek s n [41] = (True, o')" "sees s o' (Sym 41 # toks_redirs rs @ rest)"
    using peek_Sym [OF c(2), of "[41]"] by (auto simp: symbols_def)
  obtain q' eq' r where r: "gettoken s o' = (41, q', eq', r)" "sees s r (toks_redirs rs @ rest)"
    using sees_Sym(1) [OF o(2)] by blast
  obtain d t where "parseredirs c s r = Parsed d t" "sees s t rest" "means s d (foldl a_redir (ast_line l) rs)"
    using parseredirs_complete [OF r(2) assms(2) stops_lead [OF assms(3)] c(3)] by blast
  then show ?thesis
    using j(1) k(1) m(1) c(1) o(1) r(1) by (simp add: pbind_def)
qed

text \<open>How \<^verbatim>\<open>parsepipe\<close> and \<^verbatim>\<open>parseline\<close> go on after their first part.\<close>

lemma pipe_end:
  assumes "parseexec fuel s i = Parsed c j" "sees s j rest" "\<nexists>ts. rest = Sym 124 # ts"
  shows "\<exists>l. parsepipe (Suc fuel) s i = Parsed c l \<and> sees s l rest"
  using peek_Sym [OF assms(2), of "[124]"] assms(1,3) by (auto simp: symbols_def pbind_def)

lemma pipe_to:
  assumes "parseexec fuel s i = Parsed c j" "sees s j (Sym 124 # rest)"
  shows "\<exists>l. parsepipe (Suc fuel) s i = pbind (parsepipe fuel s l) (\<lambda>r. Parsed (Pipecmd c r)) \<and> sees s l rest"
proof -
  obtain k where k: "peek s j [124] = (True, k)" "sees s k (Sym 124 # rest)"
    using peek_Sym [OF assms(2), of "[124]"] by (auto simp: symbols_def)
  then show ?thesis
    using sees_Sym(1) [OF k(2)] assms(1) by (auto simp: pbind_def [of "Parsed c j"])
qed

lemma line_end:
  assumes "parsepipe fuel s i = Parsed c j" "sees s j (replicate k (Sym 38) @ rest)" "\<nexists>ts. rest = Sym 38 # ts" "\<nexists>ts. rest = Sym 59 # ts" "means s c a"
  shows "\<exists>d l. parseline (Suc fuel) s i = Parsed d l \<and> sees s l rest \<and> means s d ((ABack ^^ k) a)"
proof -
  obtain d m where d: "parseline_back c s j = (d, m)" "sees s m rest" "means s d ((ABack ^^ k) a)"
    using back_complete [OF assms(2,3,5)] by blast
  then show ?thesis
    using peek_Sym [OF d(2), of "[59]"] assms(1,4) by (auto simp: symbols_def pbind_def)
qed

lemma line_seq:
  assumes "parsepipe fuel s i = Parsed c j" "sees s j (replicate k (Sym 38) @ Sym 59 # rest)" "means s c a"
  shows "\<exists>d l. parseline (Suc fuel) s i = pbind (parseline fuel s l) (\<lambda>r. Parsed (Listcmd d r)) \<and> sees s l rest \<and> means s d ((ABack ^^ k) a)"
proof -
  obtain d m where d: "parseline_back c s j = (d, m)" "sees s m (Sym 59 # rest)" "means s d ((ABack ^^ k) a)"
    using back_complete [OF assms(2) _ assms(3)] by auto
  obtain n where n: "peek s m [59] = (True, n)" "sees s n (Sym 59 # rest)"
    using peek_Sym [OF d(2), of "[59]"] by (auto simp: symbols_def)
  obtain q eq l where "gettoken s n = (59, q, eq, l)" "sees s l rest"
    using sees_Sym(1) [OF n(2)] by blast
  then show ?thesis
    using n(1) assms(1) d by (intro exI [of _ d] exI [of _ l]) (simp add: pbind_def [of "Parsed c j"])
qed

lemma parse_complete:
  "sees s i (toks_line l @ rest) \<Longrightarrow> line_ok l \<Longrightarrow> after_line rest \<Longrightarrow> 4 * length (toks_line l) + 4 \<le> fuel \<Longrightarrow>
     \<exists>c j. parseline fuel s i = Parsed c j \<and> sees s j rest \<and> means s c (ast_line l)"
  "sees s i (toks_pipe p @ rest) \<Longrightarrow> pipe_ok p \<Longrightarrow> after_pipe rest \<Longrightarrow> 4 * length (toks_pipe p) + 3 \<le> fuel \<Longrightarrow>
     \<exists>c j. parsepipe fuel s i = Parsed c j \<and> sees s j rest \<and> means s c (ast_pipe p)"
  "sees s i (toks_exec e @ rest) \<Longrightarrow> exec_ok e \<Longrightarrow> stops rest \<Longrightarrow> 4 * length (toks_exec e) + 2 \<le> fuel \<Longrightarrow>
     \<exists>c j. parseexec fuel s i = Parsed c j \<and> sees s j rest \<and> means s c (ast_exec e)"
proof (induction l and p and e arbitrary: i rest fuel and i rest fuel and i rest fuel)
  case (LEnd p k)
  obtain f where f: "fuel = Suc f"
    using LEnd.prems(4) by (cases fuel) auto
  have "after_pipe (replicate k (Sym 38) @ rest)"
    using after_stops(1) [OF LEnd.prems(3)] by (cases k) (auto simp: after_pipe_def)
  then obtain c j where "parsepipe f s i = Parsed c j" "sees s j (replicate k (Sym 38) @ rest)" "means s c (ast_pipe p)"
    using LEnd.IH [of i "replicate k (Sym 38) @ rest" f] LEnd.prems f by auto
  then show ?case
    using line_end [of f s i c j k rest] LEnd.prems(3) f by (auto simp: after_line_def)
next
  case (LSeq p k l)
  obtain f where f: "fuel = Suc f"
    using LSeq.prems(4) by (cases fuel) auto
  have "after_pipe (replicate k (Sym 38) @ Sym 59 # toks_line l @ rest)"
    by (cases k) (auto simp: after_pipe_def)
  then obtain c j where "parsepipe f s i = Parsed c j" "sees s j (replicate k (Sym 38) @ Sym 59 # toks_line l @ rest)" "means s c (ast_pipe p)"
    using LSeq.IH(1) [of i "replicate k (Sym 38) @ Sym 59 # toks_line l @ rest" f] LSeq.prems f by auto
  then obtain d m where "parseline fuel s i = pbind (parseline f s m) (\<lambda>r. Parsed (Listcmd d r))" "sees s m (toks_line l @ rest)" "means s d ((ABack ^^ k) (ast_pipe p))"
    using line_seq [of f s i c j k "toks_line l @ rest"] f by blast
  then show ?case
    using LSeq.IH(2) [of m rest f] LSeq.prems f by (auto simp: pbind_def means_simps)
next
  case (POne e)
  obtain f where f: "fuel = Suc f"
    using POne.prems(4) by (cases fuel) auto
  then obtain c j where "parseexec f s i = Parsed c j" "sees s j rest" "means s c (ast_exec e)"
    using POne.IH [of i rest f] POne.prems after_stops(2) by auto
  then show ?case
    using pipe_end [of f s i c j rest] after_stops(3) [OF POne.prems(3)] f by auto
next
  case (PTo e p)
  obtain f where f: "fuel = Suc f"
    using PTo.prems(4) by (cases fuel) auto
  then obtain c j where "parseexec f s i = Parsed c j" "sees s j (Sym 124 # toks_pipe p @ rest)" "means s c (ast_exec e)"
    using PTo.IH(1) [of i "Sym 124 # toks_pipe p @ rest" f] PTo.prems by (auto simp: stops_def)
  moreover from this obtain m where "parsepipe fuel s i = pbind (parsepipe f s m) (\<lambda>r. Parsed (Pipecmd c r))" "sees s m (toks_pipe p @ rest)"
    using pipe_to [of f s i c j "toks_pipe p @ rest"] f by blast
  ultimately show ?case
    using PTo.IH(2) [of m rest f] PTo.prems f by (auto simp: pbind_def means_simps)
next
  case (XWords rs ws)
  then show ?case
    using exec_words [of s i rs ws rest fuel] by simp
next
  case (XBlock l rs)
  obtain f where f: "fuel = Suc (Suc f)"
    using XBlock.prems(4) by (cases fuel; cases "fuel - 1") auto
  have "after_line (Sym 41 # toks_redirs rs @ rest)"
    by (simp add: after_line_def)
  then show ?case
    using exec_block [of s i l rs rest f] XBlock.IH [of _ "Sym 41 # toks_redirs rs @ rest" f] XBlock.prems f by simp
qed

text \<open>Conversely, a parser that returns has read the tokens of a tree; and it returns or panics when it has enough fuel.\<close>

definition yields :: "('t \<Rightarrow> tok list) \<Rightarrow> ('t \<Rightarrow> bool) \<Rightarrow> uchar list \<Rightarrow> cmd parse \<Rightarrow> tok list \<Rightarrow> bool" where
  "yields toks ok s p ts =
     ((\<exists>x rest c j a. ts = toks x @ rest \<and> ok x \<and> p = Parsed c j \<and> sees s j rest \<and> means s c a) \<or> (\<exists>e. p = Panics e))"

lemma yieldsI: "ts = toks x @ rest \<Longrightarrow> ok x \<Longrightarrow> p = Parsed c j \<Longrightarrow> sees s j rest \<Longrightarrow> means s c a \<Longrightarrow> yields toks ok s p ts"
  by (auto simp: yields_def)

lemma yields_panics: "p = Panics e \<Longrightarrow> yields toks ok s p ts"
  by (simp add: yields_def)

lemma yieldsE:
  assumes "yields toks ok s p ts"
  obtains (parsed) x rest c j a where "ts = toks x @ rest" "ok x" "p = Parsed c j" "sees s j rest" "means s c a" | (panics) e where "p = Panics e"
  using assms by (auto simp: yields_def)

lemma exec_yields_words:
  assumes "sees s i ts" "\<nexists>ts'. ts = Sym 40 # ts'"
  shows "yields toks_exec exec_ok s (parseexec (Suc fuel) s i) ts"
proof -
  obtain j where j: "peek s i [40] = (False, j)" "sees s j ts"
    using peek_Sym [OF assms(1), of "[40]"] assms(2) by (auto simp: symbols_def)
  from parseredirs_sound [OF j(2) means_simps(1)] consider
      (ok) rs rest c l a where "ts = toks_redirs rs @ rest" "redirs_ok rs" "parseredirs (Execcmd []) s j = Parsed c l" "sees s l rest" "means s c a"
    | (bad) e where "parseredirs (Execcmd []) s j = Panics e"
    by blast
  then show ?thesis
  proof cases
    case ok
    from words_sound [OF ok(4) _ ok(5), of 0] consider
        (fine) ws rest' d m b where "rest = toks_words ws @ rest'" "\<forall>(w, rs) \<in> set ws. redirs_ok rs" "length ws < MAXARGS" "parseexec_loop c 0 s l = Parsed d m" "sees s m rest'" "means s d b"
      | (fails) e where "parseexec_loop c 0 s l = Panics e"
      by auto
    then show ?thesis
    proof cases
      case fine
      then show ?thesis
        using j(1) ok by (intro yieldsI [of _ _ "XWords rs ws" rest' _ _ d m s b]) (auto simp: pbind_def)
    qed (use j(1) ok in \<open>auto simp: pbind_def intro: yields_panics\<close>)
  qed (use j(1) in \<open>auto simp: pbind_def intro: yields_panics\<close>)
qed

lemma exec_yields_block:
  assumes "sees s i (Sym 40 # ts)" "\<And>i. sees s i ts \<Longrightarrow> yields toks_line line_ok s (parseline fuel s i) ts"
  shows "yields toks_exec exec_ok s (parseexec (Suc (Suc fuel)) s i) (Sym 40 # ts)"
proof -
  obtain j where j: "peek s i [40] = (True, j)" "sees s j (Sym 40 # ts)"
    using peek_Sym [OF assms(1), of "[40]"] by (auto simp: symbols_def)
  obtain k where k: "peek s j [40] = (True, k)" "sees s k (Sym 40 # ts)"
    using peek_Sym [OF j(2), of "[40]"] by (auto simp: symbols_def)
  obtain q eq m where m: "gettoken s k = (40, q, eq, m)" "sees s m ts"
    using sees_Sym(1) [OF k(2)] by blast
  from assms(2) [OF m(2)] show ?thesis
  proof (cases rule: yieldsE)
    case (parsed l rest c n a)
    obtain o' where o: "peek s n [41] = (\<exists>ts'. rest = Sym 41 # ts', o')" "sees s o' rest"
      using peek_Sym [OF parsed(4), of "[41]"] by (auto simp: symbols_def)
    show ?thesis
    proof (cases "\<exists>ts'. rest = Sym 41 # ts'")
      case True
      then obtain ts' where t: "rest = Sym 41 # ts'"
        by blast
      obtain q' eq' r where r: "gettoken s o' = (41, q', eq', r)" "sees s r ts'"
        using sees_Sym(1) [of s o' 41 ts'] o(2) t by blast
      from parseredirs_sound [OF r(2) parsed(5)] consider
          (ok) rs rest' d x b where "ts' = toks_redirs rs @ rest'" "redirs_ok rs" "parseredirs c s r = Parsed d x" "sees s x rest'" "means s d b"
        | (bad) e where "parseredirs c s r = Panics e"
        by blast
      then show ?thesis
      proof cases
        case ok
        then show ?thesis
          using parsed j(1) k(1) m(1) o(1) r(1) t by (intro yieldsI [of _ _ "XBlock l rs" rest' _ _ d x s b]) (auto simp: pbind_def)
      qed (use parsed j(1) k(1) m(1) o(1) r(1) t in \<open>auto simp: pbind_def intro: yields_panics\<close>)
    qed (use parsed j(1) k(1) m(1) o(1) in \<open>auto simp: pbind_def intro: yields_panics\<close>)
  qed (use j(1) k(1) m(1) in \<open>auto simp: pbind_def intro: yields_panics\<close>)
qed

lemma pipe_yields:
  assumes "yields toks_exec exec_ok s (parseexec fuel s i) ts"
    and "\<And>j ts'. sees s j ts' \<Longrightarrow> length ts' < length ts \<Longrightarrow> yields toks_pipe pipe_ok s (parsepipe fuel s j) ts'"
  shows "yields toks_pipe pipe_ok s (parsepipe (Suc fuel) s i) ts"
  using assms(1)
proof (cases rule: yieldsE)
  case (parsed e rest c j a)
  show ?thesis
  proof (cases "\<exists>ts'. rest = Sym 124 # ts'")
    case True
    then obtain ts' where t: "rest = Sym 124 # ts'"
      by blast
    obtain l where l: "parsepipe (Suc fuel) s i = pbind (parsepipe fuel s l) (\<lambda>r. Parsed (Pipecmd c r))" "sees s l ts'"
      using pipe_to [OF parsed(3)] parsed(4) t by blast
    have "length ts' < length ts"
      using parsed(1) t by simp
    from assms(2) [OF l(2) this] show ?thesis
    proof (cases rule: yieldsE)
      case (parsed p rest' d k b)
      then show ?thesis
        using \<open>ts = toks_exec e @ rest\<close> \<open>exec_ok e\<close> \<open>means s c a\<close> t l(1)
        by (intro yieldsI [of _ _ "PTo e p" rest' _ _ "Pipecmd c d" k s "APipe a b"]) (auto simp: pbind_def means_simps)
    qed (use l(1) in \<open>auto simp: pbind_def intro: yields_panics\<close>)
  next
    case False
    then show ?thesis
      using pipe_end [OF parsed(3,4)] parsed by (auto intro: yieldsI [of _ _ "POne e"])
  qed
qed (auto simp: pbind_def intro: yields_panics)

lemma line_yields:
  assumes "yields toks_pipe pipe_ok s (parsepipe fuel s i) ts"
    and "\<And>j ts'. sees s j ts' \<Longrightarrow> length ts' < length ts \<Longrightarrow> yields toks_line line_ok s (parseline fuel s j) ts'"
  shows "yields toks_line line_ok s (parseline (Suc fuel) s i) ts"
  using assms(1)
proof (cases rule: yieldsE)
  case (parsed p rest c j a)
  obtain k more where k: "rest = replicate k (Sym 38) @ more" "\<nexists>ts'. more = Sym 38 # ts'"
    using back_split by blast
  show ?thesis
  proof (cases "\<exists>ts'. more = Sym 59 # ts'")
    case True
    then obtain ts' where t: "more = Sym 59 # ts'"
      by blast
    obtain d l where l: "parseline (Suc fuel) s i = pbind (parseline fuel s l) (\<lambda>r. Parsed (Listcmd d r))" "sees s l ts'" "means s d ((ABack ^^ k) a)"
      using line_seq [OF parsed(3) _ parsed(5)] parsed(4) k(1) t by blast
    have "length ts' < length ts"
      using parsed(1) k(1) t by simp
    from assms(2) [OF l(2) this] show ?thesis
    proof (cases rule: yieldsE)
      case (parsed x rest' r m b)
      then show ?thesis
        using \<open>ts = toks_pipe p @ rest\<close> \<open>pipe_ok p\<close> k(1) t l
        by (intro yieldsI [of _ _ "LSeq p k x" rest' _ _ "Listcmd d r" m s "AList ((ABack ^^ k) a) b"]) (auto simp: pbind_def means_simps)
    qed (use l(1) in \<open>auto simp: pbind_def intro: yields_panics\<close>)
  next
    case False
    obtain d l where "parseline (Suc fuel) s i = Parsed d l" "sees s l more" "means s d ((ABack ^^ k) a)"
      using line_end [OF parsed(3) _ k(2) False parsed(5)] parsed(4) k(1) by blast
    then show ?thesis
      using parsed(1,2) k(1) by (intro yieldsI [of _ _ "LEnd p k" more]) auto
  qed
qed (auto simp: pbind_def intro: yields_panics)

lemma parse_sound:
  "\<forall>i ts. sees s i ts \<longrightarrow>
     (4 * length ts + 4 \<le> fuel \<longrightarrow> yields toks_line line_ok s (parseline fuel s i) ts) \<and>
     (4 * length ts + 3 \<le> fuel \<longrightarrow> yields toks_pipe pipe_ok s (parsepipe fuel s i) ts) \<and>
     (4 * length ts + 2 \<le> fuel \<longrightarrow> yields toks_exec exec_ok s (parseexec fuel s i) ts)"
proof (induction fuel rule: less_induct)
  case (less fuel)
  have line: "yields toks_line line_ok s (parseline f s i) ts" if "f < fuel" "sees s i ts" "4 * length ts + 4 \<le> f" for f i ts
    using less that by blast
  have pipe: "yields toks_pipe pipe_ok s (parsepipe f s i) ts" if "f < fuel" "sees s i ts" "4 * length ts + 3 \<le> f" for f i ts
    using less that by blast
  have exec: "yields toks_exec exec_ok s (parseexec f s i) ts" if "f < fuel" "sees s i ts" "4 * length ts + 2 \<le> f" for f i ts
    using less that by blast
  show ?case
  proof (intro allI impI conjI)
    fix i ts
    assume s: "sees s i ts"
    show "yields toks_line line_ok s (parseline fuel s i) ts" if "4 * length ts + 4 \<le> fuel"
      using line_yields [OF pipe [OF _ s], of "fuel - 1"] line [of "fuel - 1"] that by (cases fuel) auto
    show "yields toks_pipe pipe_ok s (parsepipe fuel s i) ts" if "4 * length ts + 3 \<le> fuel"
      using pipe_yields [OF exec [OF _ s], of "fuel - 1"] pipe [of "fuel - 1"] that by (cases fuel) auto
    show "yields toks_exec exec_ok s (parseexec fuel s i) ts" if f: "4 * length ts + 2 \<le> fuel"
    proof (cases "\<exists>ts'. ts = Sym 40 # ts'")
      case True
      then show ?thesis
        using exec_yields_block [of s i _ "fuel - 2"] line [of "fuel - 2"] s f by (auto simp: numeral_2_eq_2 Suc_diff_Suc)
    next
      case False
      then show ?thesis
        using exec_yields_words [OF s False, of "fuel - 1"] f by simp
    qed
  qed
qed

subsection \<open>The whole line\<close>

lemma length_tokens: "i \<le> length s \<Longrightarrow> 0 \<notin> set s \<Longrightarrow> length (tokens_from s i) \<le> length s - i"
proof (induction s i rule: tokens_from.induct)
  case (1 s i)
  obtain tok q eq j where g: "gettoken s i = (tok, q, eq, j)"
    by (metis prod_cases4)
  show ?case
  proof (cases "tok = 0")
    case False
    then have "length (tokens_from s j) \<le> length s - j" "i < j" "j \<le> length s"
      using 1 g gettoken_less [OF g] gettoken_view(1) [OF g] by auto
    then show ?thesis
      using False g by (simp add: tokens_from.simps [of s i])
  qed (use g in \<open>simp add: tokens_from.simps [of s i]\<close>)
qed

lemma fold_nul:
  "length (fold (\<lambda>(q, eq) line. line[eq := 0]) args line) = length line \<and>
   (\<forall>j < length line. fold (\<lambda>(q, eq) line. line[eq := 0]) args line ! j = (if j \<in> snd ` set args then 0 else line ! j))"
  for line :: "uchar list"
proof (induction args arbitrary: line)
  case (Cons a args)
  then show ?case
    by (cases a) (simp add: nth_list_update)
qed simp

lemma nulterminate_nth:
  "length (nulterminate c line) = length line \<and> (\<forall>j < length line. nulterminate c line ! j = (if j \<in> snd ` set (ptrs c) then 0 else line ! j))"
proof (induction c arbitrary: line)
  case (Execcmd args)
  then show ?case
    using fold_nul [of args line] by simp
next
  case (Redircmd c p mode fd)
  have "(nulterminate c line)[b := 0] ! j = (if j = b then 0 else nulterminate c line ! j)" if "j < length line" for b j
    using Redircmd [of line] that by (simp add: nth_list_update)
  then show ?case
    using Redircmd [of line] by (cases p) simp
qed (simp_all add: image_Un)

text \<open>The string at a pointer into the line.\<close>

definition string_at :: "uchar list \<Rightarrow> nat \<times> nat \<Rightarrow> uchar list" where
  "string_at line p = takeWhile (\<lambda>c. c \<noteq> 0) (drop (fst p) line)"

lemma string_at_ptr:
  assumes "\<forall>p \<in> set (ptrs c). word_ptr s p" "p \<in> set (ptrs c)" "0 \<notin> set s"
  shows "string_at (nulterminate c (s @ [0])) p = ptr_text s p"
proof -
  obtain q eq where p: "p = (q, eq)"
    by fastforce
  let ?l = "nulterminate c (s @ [0])"
  have n: "length ?l = Suc (length s)" "j < Suc (length s) \<Longrightarrow> ?l ! j = (if j \<in> snd ` set (ptrs c) then 0 else (s @ [0]) ! j)" for j
    using nulterminate_nth [of c "s @ [0]"] by simp_all
  have w: "q < eq" "eq \<le> length s" "\<forall>j. q \<le> j \<and> j < eq \<longrightarrow> \<not> whitespace (s ! j) \<and> \<not> symbols (s ! j)"
    using assms(1,2) p by (auto simp: word_ptr_def)
  have inside: "?l ! j = s ! j \<and> s ! j \<noteq> 0" if "q \<le> j" "j < eq" for j
  proof -
    have "j \<notin> snd ` set (ptrs c)"
      using assms(1) w that by (auto simp: word_ptr_def)
    moreover have "j < length s"
      using w that by simp
    ultimately show ?thesis
      using n(2) [of j] assms(3) by (auto simp: nth_append in_set_conv_nth)
  qed
  have z: "?l ! eq = 0"
    using n(2) [of eq] assms(2) p w(2) by (force simp: less_Suc_eq_le)
  have "drop q ?l = take (eq - q) (drop q s) @ drop eq ?l"
  proof (rule nth_equalityI)
    show "length (drop q ?l) = length (take (eq - q) (drop q s) @ drop eq ?l)"
      using n(1) w by simp
    show "drop q ?l ! i = (take (eq - q) (drop q s) @ drop eq ?l) ! i" if "i < length (drop q ?l)" for i
      using that n(1) w inside [of "q + i"] by (auto simp: nth_append add.commute)
  qed
  moreover have "drop eq ?l = 0 # drop (Suc eq) ?l"
    using z n(1) w(2) Cons_nth_drop_Suc [of eq ?l] by simp
  moreover have "\<forall>x \<in> set (take (eq - q) (drop q s)). x \<noteq> 0"
    using assms(3) by (auto dest!: in_set_takeD in_set_dropD)
  ultimately show ?thesis
    using p by (simp add: string_at_def ptr_text_def takeWhile_append)
qed

lemma strings_cong: "(\<And>p. p \<in> set (ptrs c) \<Longrightarrow> f p = g p) \<Longrightarrow> strings f c = strings g c"
  by (induction c) auto

lemma parsecmd_parsed:
  assumes "sees s 0 (toks_line l)" "line_ok l"
  shows "\<exists>c n. parsecmd s = Parsed (c, nulterminate c (s @ [0])) n \<and> strings (string_at (nulterminate c (s @ [0]))) c = ast_line l"
proof -
  have "4 * length (toks_line l) + 4 \<le> 4 * length s + 4"
    using length_tokens [of 0 s] assms(1) by (simp add: sees_def)
  then obtain c j where c: "parseline (4 * length s + 4) s 0 = Parsed c j" "sees s j []" "means s c (ast_line l)"
    using parse_complete(1) [of s 0 l "[]" "4 * length s + 4"] assms by (auto simp: after_line_def)
  moreover have "strings (string_at (nulterminate c (s @ [0]))) c = strings (ptr_text s) c"
    using c(3) assms(1) by (intro strings_cong string_at_ptr) (auto simp: means_def sees_def)
  ultimately show ?thesis
    using sees_peek(1) [OF c(2)] sees_end(2) [OF c(2)] by (auto simp: parsecmd_def pbind_def means_def)
qed

text \<open>
  C11: the parser of the shell recognises a grammar.  \<^verbatim>\<open>parsecmd\<close> always ends.  If the tokens of a line are those of a syntax tree -- pipelines, lists, background commands,
  parenthesised blocks and redirections, with fewer than ten words to a command -- it returns the command of the tree, and after \<^verbatim>\<open>nulterminate\<close> the pointers of
  the command are to exactly the words of the line, whatever stands between the tokens.  If there is no such tree, it panics.
\<close>

theorem parsecmd_grammar:
  assumes "0 \<notin> set s"
  shows "case parsecmd s of
      Parsed (c, line) n \<Rightarrow> (\<exists>l. line_ok l \<and> tokens_from s 0 = toks_line l) \<and> (\<forall>l. line_ok l \<and> tokens_from s 0 = toks_line l \<longrightarrow> strings (string_at line) c = ast_line l)
    | Panics e \<Rightarrow> \<not> (\<exists>l. line_ok l \<and> tokens_from s 0 = toks_line l)
    | NoFuel \<Rightarrow> False"
proof (cases "\<exists>l. line_ok l \<and> tokens_from s 0 = toks_line l")
  case True
  then obtain l where l: "line_ok l" "sees s 0 (toks_line l)"
    using assms by (auto simp: sees_def)
  then obtain c n where c: "parsecmd s = Parsed (c, nulterminate c (s @ [0])) n"
    using parsecmd_parsed [of s l] by blast
  have "strings (string_at (nulterminate c (s @ [0]))) c = ast_line l'" if "line_ok l'" "tokens_from s 0 = toks_line l'" for l'
    using parsecmd_parsed [of s l'] that assms c by (auto simp: sees_def)
  then show ?thesis
    using True c by simp
next
  case False
  have s: "sees s 0 (tokens_from s 0)"
    using assms by (simp add: sees_def)
  have "yields toks_line line_ok s (parseline (4 * length s + 4) s 0) (tokens_from s 0)"
    using parse_sound [of s "4 * length s + 4"] s length_tokens [of 0 s] assms by auto
  then have "\<exists>e. parsecmd s = Panics e"
  proof (cases rule: yieldsE)
    case (parsed l rest c j a)
    then have "rest \<noteq> []"
      using False by auto
    moreover have "sees s (skip_while whitespace s j) rest"
      by (rule sees_peek(2) [OF parsed(4)])
    moreover have "tokens_from s (length s) = []"
      by (simp add: tokens_from.simps [of s "length s"] gettoken_def skip_while_def char_at_def Let_def)
    ultimately have "skip_while whitespace s j \<noteq> length s"
      by (auto simp: sees_def)
    then show ?thesis
      using parsed(3) by (auto simp: parsecmd_def pbind_def peek_def Let_def)
  qed (auto simp: parsecmd_def pbind_def)
  then show ?thesis
    using False by auto
qed

theorem parsecmd_grammar_witness:
  "\<exists>c line n. parsecmd (map of_char ''ls|wc >f&'') = Parsed (c, line) n \<and>
     strings (string_at line) c = ABack (APipe (AExec [map of_char ''ls'']) (ARedir (AExec [map of_char ''wc'']) (map of_char ''f'') 0x201 1))"
proof -
  define l where "l = LEnd (PTo (XWords [] [(map of_char ''ls'', [])]) (POne (XWords [] [(map of_char ''wc'', [(62, map of_char ''f'')])]))) 1"
  define s :: "uchar list" where "s = map of_char ''ls|wc >f&''"
  have l: "line_ok l" "tokens_from s 0 = toks_line l" "0 \<notin> set s"
    by (simp_all add: l_def s_def tokens_from.simps gettoken_def skip_while_def char_at_def whitespace_def symbols_def Let_def)
  then obtain c line n where c: "parsecmd s = Parsed (c, line) n"
    using parsecmd_grammar [OF l(3)] by (cases "parsecmd s") auto
  then have "strings (string_at line) c = ast_line l"
    using parsecmd_grammar [OF l(3)] l by auto
  then show ?thesis
    using c by (simp add: l_def s_def a_redir_def)
qed

end
