(* ===== verification/Shrun.thy ===== *)
theory Shrun
  imports Shgrammar
begin

text \<open>
  What the shell does (\<^verbatim>\<open>src/sh.c\<close>: \<^verbatim>\<open>runcmd\<close>, \<^verbatim>\<open>main\<close>, \<^verbatim>\<open>fork1\<close>, \<^verbatim>\<open>panic\<close>).  A process is the script of its system calls, in which the rest is a function of the result of
  a call; \<^verbatim>\<open>fork\<close> gives 0 to the child and a positive number to the parent.
\<close>

section \<open>Scripts\<close>

datatype script =
    Exits
  | Execs "uchar list" "uchar list list" script
  | Prints nat string "carg list" script
  | Closes nat script
  | Opens "uchar list" uint32 "int \<Rightarrow> script"
  | Dups nat script
  | Pipes "(nat \<times> nat) option \<Rightarrow> script"
  | Forks "int \<Rightarrow> script"
  | Waits script
  | Chdirs "uchar list" "int \<Rightarrow> script"

definition sh_panic :: "string \<Rightarrow> script" where
  "sh_panic s = Prints 2 ''%s\<newline>'' [CStr (map of_char s)] Exits"

definition fork1 :: "(int \<Rightarrow> script) \<Rightarrow> script" where
  "fork1 k = Forks (\<lambda>pid. if pid = - 1 then sh_panic ''fork'' else k pid)"

text \<open>\<^verbatim>\<open>runcmd\<close> never returns; the calls after a call of it are reached by the parent only.\<close>

primrec runcmd :: "ast \<Rightarrow> script" where
  "runcmd (AExec argv) = (case argv of
       [] \<Rightarrow> Exits
     | a # _ \<Rightarrow> Execs a argv (Prints 2 ''exec %s failed\<newline>'' [CStr a] Exits))"
| "runcmd (ARedir c name mode fd) =
     Closes fd (Opens name mode (\<lambda>r.
     if r < 0 then Prints 2 ''open %s failed\<newline>'' [CStr name] Exits else runcmd c))"
| "runcmd (AList l r) = fork1 (\<lambda>pid. if pid = 0 then runcmd l else Waits (runcmd r))"
| "runcmd (APipe l r) =
     Pipes (\<lambda>p. case p of
         None \<Rightarrow> sh_panic ''pipe''
       | Some (p0, p1) \<Rightarrow>
           fork1 (\<lambda>pid.
             if pid = 0 then Closes 1 (Dups p1 (Closes p0 (Closes p1 (runcmd l))))
             else fork1 (\<lambda>pid.
               if pid = 0 then Closes 0 (Dups p0 (Closes p0 (Closes p1 (runcmd r))))
               else Closes p0 (Closes p1 (Waits (Waits Exits))))))"
| "runcmd (ABack c) = fork1 (\<lambda>pid. if pid = 0 then runcmd c else Exits)"

text \<open>
  The main loop over the lines that \<^verbatim>\<open>getcmd\<close> reads, each the string in \<^verbatim>\<open>buf\<close>; an empty string is the end of the input.
\<close>

fun sh_lines :: "uchar list list \<Rightarrow> script" where
  "sh_lines [] = Prints 2 ''$ '' [] Exits"
| "sh_lines (buf # lines) = Prints 2 ''$ '' []
     (if buf = [] then Exits
      else if take 3 buf = map of_char ''cd '' then
        (let dir = drop 3 (butlast buf) in
         Chdirs dir (\<lambda>r. if r < 0 then Prints 2 ''cannot cd %s\<newline>'' [CStr dir] (sh_lines lines) else sh_lines lines))
      else fork1 (\<lambda>pid.
        if pid = 0 then
          (case parsecmd buf of
             Parsed (c, line) _ \<Rightarrow> runcmd (strings (string_at line) c)
           | Panics e \<Rightarrow> sh_panic e
           | NoFuel \<Rightarrow> Exits)
        else Waits (sh_lines lines)))"

text \<open>The loop that opens the console until three descriptors are in use; a descriptor below three is left open.\<close>

fun open_console :: "nat \<Rightarrow> script \<Rightarrow> script" where
  "open_console 0 k = k"
| "open_console (Suc n) k = Opens (map of_char ''console'') 2 (\<lambda>fd. if fd \<ge> 3 then Closes (nat fd) k else if fd \<ge> 0 then open_console n k else k)"

definition sh_main :: "uchar list list \<Rightarrow> script" where
  "sh_main lines = open_console 4 (sh_lines lines)"

section \<open>Running a script\<close>

text \<open>What a descriptor is open on: something from before, a file opened by name, or an end of a pipe with its number.\<close>

datatype uchan = Given nat | Named "uchar list" uint32 | PipeR nat | PipeW nat

type_synonym fdtab = "nat \<Rightarrow> uchan option"

definition lowest :: "fdtab \<Rightarrow> nat option" where
  "lowest fds = find (\<lambda>d. fds d = None) [0..<NOFILE]"

text \<open>
  What the process and its children do: the programs they execute, with their arguments and their descriptors, and the calls of \<^verbatim>\<open>wait\<close>, with the descriptors that
  the waiting process has open.  The events of a child stand before those of its parent.  The runs are those in which no \<^verbatim>\<open>fork\<close> fails;
  \<open>opens\<close> tells which files can be opened and \<open>execs\<close> which programs executed.  The number counts the pipes.
\<close>

datatype event = Ran "uchar list list" fdtab | Waited fdtab

primrec run :: "(uchar list \<Rightarrow> uint32 \<Rightarrow> bool) \<Rightarrow> (uchar list \<Rightarrow> bool) \<Rightarrow> script \<Rightarrow> fdtab \<Rightarrow> nat \<Rightarrow> event list \<times> nat" where
  "run opens execs Exits = (\<lambda>fds n. ([], n))"
| "run opens execs (Execs a argv k) = (\<lambda>fds n. if execs a then ([Ran argv fds], n) else run opens execs k fds n)"
| "run opens execs (Prints fd fmt args k) = run opens execs k"
| "run opens execs (Closes d k) = (\<lambda>fds n. run opens execs k (fds(d := None)) n)"
| "run opens execs (Opens name mode k) = (\<lambda>fds n. case lowest fds of
       Some d \<Rightarrow> if opens name mode then run opens execs (k (int d)) (fds(d \<mapsto> Named name mode)) n else run opens execs (k (- 1)) fds n
     | None \<Rightarrow> run opens execs (k (- 1)) fds n)"
| "run opens execs (Dups d k) = (\<lambda>fds n. case (fds d, lowest fds) of
       (Some c, Some e) \<Rightarrow> run opens execs k (fds(e \<mapsto> c)) n
     | _ \<Rightarrow> run opens execs k fds n)"
| "run opens execs (Pipes k) = (\<lambda>fds n. case lowest fds of
       None \<Rightarrow> run opens execs (k None) fds n
     | Some d \<Rightarrow> (case lowest (fds(d \<mapsto> PipeR n)) of
         None \<Rightarrow> run opens execs (k None) fds n
       | Some e \<Rightarrow> run opens execs (k (Some (d, e))) (fds(d \<mapsto> PipeR n, e \<mapsto> PipeW n)) (Suc n)))"
| "run opens execs (Forks k) = (\<lambda>fds n.
     let (evs, n) = run opens execs (k 0) fds n; (evs', n) = run opens execs (k 1) fds n in (evs @ evs', n))"
| "run opens execs (Waits k) = (\<lambda>fds n. let (evs, n) = run opens execs k fds n in (Waited fds # evs, n))"
| "run opens execs (Chdirs dir k) = run opens execs (k 0)"

section \<open>The plumbing of a command\<close>

text \<open>
  The programs of a command with the descriptors they should have.  The process that waits for the two sides of a pipe, or for the left side of a list, has the descriptors
  it started with.
\<close>

primrec plumb :: "(uchar list \<Rightarrow> uint32 \<Rightarrow> bool) \<Rightarrow> (uchar list \<Rightarrow> bool) \<Rightarrow> ast \<Rightarrow> fdtab \<Rightarrow> nat \<Rightarrow> event list \<times> nat" where
  "plumb opens execs (AExec argv) = (\<lambda>fds n. (if argv \<noteq> [] \<and> execs (hd argv) then [Ran argv fds] else [], n))"
| "plumb opens execs (ARedir c name mode fd) = (\<lambda>fds n. if opens name mode then plumb opens execs c (fds(fd \<mapsto> Named name mode)) n else ([], n))"
| "plumb opens execs (APipe l r) = (\<lambda>fds n.
     let (evs, m) = plumb opens execs l (fds(1 \<mapsto> PipeW n)) (Suc n); (evs', m) = plumb opens execs r (fds(0 \<mapsto> PipeR n)) m in
     (evs @ evs' @ [Waited fds, Waited fds], m))"
| "plumb opens execs (AList l r) = (\<lambda>fds n.
     let (evs, m) = plumb opens execs l fds n; (evs', m) = plumb opens execs r fds m in (evs @ Waited fds # evs', m))"
| "plumb opens execs (ABack c) = plumb opens execs c"

text \<open>The three standard descriptors are open and two others are free.\<close>

definition fds_ok :: "fdtab \<Rightarrow> bool" where
  "fds_ok fds = (fds 0 \<noteq> None \<and> fds 1 \<noteq> None \<and> fds 2 \<noteq> None \<and> (\<exists>d e. d < e \<and> e < NOFILE \<and> fds d = None \<and> fds e = None))"

lemma fds_okI:
  "fds 0 \<noteq> None \<Longrightarrow> fds 1 \<noteq> None \<Longrightarrow> fds 2 \<noteq> None \<Longrightarrow> d < e \<Longrightarrow> e < NOFILE \<Longrightarrow> fds d = None \<Longrightarrow> fds e = None \<Longrightarrow> fds_ok fds"
  by (auto simp: fds_ok_def)

lemma lowest_eq:
  assumes "fds d = None" "d < NOFILE" "\<And>e. e < d \<Longrightarrow> fds e \<noteq> None"
  shows "lowest fds = Some d"
  using assms by (auto simp: lowest_def find_Some_iff)

lemma lowest_free:
  assumes "fds d = None" "d < NOFILE"
  obtains e where "lowest fds = Some e" "fds e = None" "e \<le> d" "e < NOFILE"
proof -
  define e where "e = (LEAST e. fds e = None)"
  have "fds e = None" "e \<le> d" "\<And>e'. e' < e \<Longrightarrow> fds e' \<noteq> None"
    unfolding e_def using assms(1) LeastI [of "\<lambda>e. fds e = None"] Least_le [of "\<lambda>e. fds e = None"] not_less_Least by blast+
  then show ?thesis
    using that [of e] lowest_eq [of fds e] assms(2) by auto
qed

lemma fds_ok_pipe:
  assumes "fds_ok fds"
  obtains d e where "lowest fds = Some d" "lowest (fds(d \<mapsto> PipeR n)) = Some e" "2 < d" "2 < e" "d \<noteq> e" "fds d = None" "fds e = None" "d < NOFILE" "e < NOFILE"
proof -
  obtain a b where ab: "a < b" "b < NOFILE" "fds a = None" "fds b = None"
    using assms by (auto simp: fds_ok_def)
  obtain d where d: "lowest fds = Some d" "fds d = None" "d \<le> a" "d < NOFILE"
    using lowest_free [of fds a] ab by auto
  have "(fds(d \<mapsto> PipeR n)) b = None"
    using ab d(3) by simp
  then obtain e where e: "lowest (fds(d \<mapsto> PipeR n)) = Some e" "(fds(d \<mapsto> PipeR n)) e = None" "e < NOFILE"
    using lowest_free [of "fds(d \<mapsto> PipeR n)" b] ab(2) by blast
  have "2 < x" if "fds x = None" for x
  proof -
    consider "x = 0" | "x = 1" | "x = 2" | "2 < x"
      by linarith
    then show ?thesis
      using assms that by cases (auto simp: fds_ok_def)
  qed
  then show ?thesis
    using that [of d e] d e by (auto split: if_splits)
qed

lemma fds_ok_upd:
  assumes "fds_ok fds" "fd < 2"
  shows "fds_ok (fds(fd \<mapsto> c))"
proof -
  obtain d e where d: "d < e" "e < NOFILE" "fds d = None" "fds e = None"
    using assms(1) by (auto simp: fds_ok_def)
  then have "d \<noteq> fd" "e \<noteq> fd"
    using assms by (auto simp: fds_ok_def less_2_cases_iff)
  then show ?thesis
    using assms d by (intro fds_okI [of _ d e]) (auto simp: fds_ok_def)
qed

text \<open>The redirections of the parser are of the standard input or output.\<close>

primrec redirs_std :: "ast \<Rightarrow> bool" where
  "redirs_std (AExec argv) = True"
| "redirs_std (ARedir c name mode fd) = (fd < 2 \<and> redirs_std c)"
| "redirs_std (APipe l r) = (redirs_std l \<and> redirs_std r)"
| "redirs_std (AList l r) = (redirs_std l \<and> redirs_std r)"
| "redirs_std (ABack c) = redirs_std c"

lemma lowest_closed:
  assumes "fds_ok fds" "fd < 2"
  shows "lowest (fds(fd := None)) = Some fd"
  using assms by (intro lowest_eq) (auto simp: fds_ok_def less_2_cases_iff)

lemma run_fork1: "run opens execs (fork1 k) fds n =
    (let (evs, m) = run opens execs (k 0) fds n; (evs', m) = run opens execs (k 1) fds m in (evs @ evs', m))"
  by (simp add: fork1_def)

lemma run_child:
  assumes "fds_ok fds" "fd < 2" "2 < d" "2 < e" "d \<noteq> e" "fds d = None" "fds e = None" "x = d \<or> x = e"
  shows "run opens execs (Closes fd (Dups x (Closes d (Closes e k)))) (fds(d \<mapsto> a, e \<mapsto> b)) n = run opens execs k (fds(fd \<mapsto> (if x = d then a else b))) n"
proof -
  have "lowest (fds(d \<mapsto> a, e \<mapsto> b, fd := None)) = Some fd"
    using assms by (intro lowest_eq) (auto simp: fds_ok_def less_2_cases_iff)
  moreover have "fds(d \<mapsto> a, e \<mapsto> b, fd := None, fd \<mapsto> c, d := None, e := None) = fds(fd \<mapsto> c)" for c
    using assms by (auto simp: fun_eq_iff)
  ultimately show ?thesis
    using assms by auto
qed

lemma runcmd_plumb:
  assumes "fds_ok fds" "redirs_std c"
  shows "run opens execs (runcmd c) fds n = plumb opens execs c fds n"
  using assms
proof (induction c arbitrary: fds n)
  case (AExec argv)
  then show ?case
    by (cases argv) auto
next
  case (ARedir c name mode fd)
  then show ?case
    using lowest_closed [of fds fd] fds_ok_upd [of fds fd "Named name mode"] by auto
next
  case (APipe l r)
  obtain d e where p: "lowest fds = Some d" "lowest (fds(d \<mapsto> PipeR n)) = Some e" "2 < d" "2 < e" "d \<noteq> e" "fds d = None" "fds e = None"
    using fds_ok_pipe [OF APipe.prems(1), of n] by blast
  have c: "fds_ok (fds(1 \<mapsto> PipeW n))" "fds_ok (fds(0 \<mapsto> PipeR n))"
    using fds_ok_upd [OF APipe.prems(1)] by simp_all
  let ?f = "fds(d \<mapsto> PipeR n, e \<mapsto> PipeW n)"
  have w: "run opens execs (Closes 1 (Dups e (Closes d (Closes e (runcmd l))))) ?f m = run opens execs (runcmd l) (fds(1 \<mapsto> PipeW n)) m" for m
    using run_child [OF APipe.prems(1) _ p(3-7), of 1 e opens execs "runcmd l" "PipeR n" "PipeW n" m] p(5) by simp
  have r: "run opens execs (Closes 0 (Dups d (Closes d (Closes e (runcmd r))))) ?f m = run opens execs (runcmd r) (fds(0 \<mapsto> PipeR n)) m" for m
    using run_child [OF APipe.prems(1) _ p(3-7), of 0 d opens execs "runcmd r" "PipeR n" "PipeW n" m] by simp
  have "?f(d := None, e := None) = fds"
    using p(6,7) by (auto simp: fun_eq_iff)
  then have z: "run opens execs (Closes d (Closes e (Waits (Waits Exits)))) ?f m = ([Waited fds, Waited fds], m)" for m
    by simp
  have eq: "run opens execs (runcmd (APipe l r)) fds n =
    (let (evs, m) = run opens execs (Closes 1 (Dups e (Closes d (Closes e (runcmd l))))) ?f (Suc n);
         (evs', m) = (let (evs, m) = run opens execs (Closes 0 (Dups d (Closes d (Closes e (runcmd r))))) ?f m in (evs @ [Waited fds, Waited fds], m)) in (evs @ evs', m))"
    by (simp add: p(1,2) run_fork1 z del: run.simps(4,6) split: prod.split)
  have "run opens execs (runcmd l) (fds(1 \<mapsto> PipeW n)) m = plumb opens execs l (fds(1 \<mapsto> PipeW n)) m"
      "run opens execs (runcmd r) (fds(0 \<mapsto> PipeR n)) m = plumb opens execs r (fds(0 \<mapsto> PipeR n)) m" for m
    using APipe.IH c APipe.prems(2) by simp_all
  then show ?case
    unfolding eq w r by (simp split: prod.split)
qed (auto simp: run_fork1 split: prod.split)

lemma line_redirs_std:
  "redirs_std (ast_line l)" "redirs_std (ast_pipe p)" "redirs_std (ast_exec e)"
proof (induction l and p and e)
  case (LEnd p k)
  then show ?case
    by (induction k) simp_all
next
  case (LSeq p k l)
  moreover have "redirs_std ((ABack ^^ k) (ast_pipe p))"
    using LSeq(1) by (induction k) simp_all
  ultimately show ?case
    by simp
next
  case (XWords rs ws)
  have "redirs_std (foldl a_redir a rs)" if "redirs_std a" for a rs
    using that by (induction rs arbitrary: a) (auto simp: a_redir_def split: if_splits prod.split)
  then show ?case
    by simp
next
  case (XBlock l rs)
  have "redirs_std (foldl a_redir a rs)" if "redirs_std a" for a rs
    using that by (induction rs arbitrary: a) (auto simp: a_redir_def split: if_splits prod.split)
  then show ?case
    using XBlock by simp
qed simp_all

text \<open>
  C12: the shell plumbs a command as it is written.  When the child for a line with a syntax tree runs, the programs that it and its children execute have exactly the descriptors that the
  command says: each side of a pipe has its end as standard output or input, a redirected program has the file in place of its standard input or output, and
  everything else is as the shell had it.  Every process of the shell that waits -- for the two sides of a pipe, for the left side of a list, for the line itself -- has exactly
  the descriptors it started with.  So no other descriptor of a pipe is left open, in any process, which is what makes the reader of a pipe see its end.
\<close>

theorem shell_plumbing:
  assumes "0 \<notin> set buf" "line_ok l" "tokens_from buf 0 = toks_line l" "fds_ok fds" "take 3 buf \<noteq> map of_char ''cd ''" "buf \<noteq> []"
  shows "run opens execs (sh_lines [buf]) fds n = (let (evs, m) = plumb opens execs (ast_line l) fds n in (evs @ [Waited fds], m))"
proof -
  obtain c line k where c: "parsecmd buf = Parsed (c, line) k" "strings (string_at line) c = ast_line l"
    using parsecmd_parsed [of buf l] assms(1-3) by (auto simp: sees_def)
  then show ?thesis
    using assms(5,6) runcmd_plumb [OF assms(4) line_redirs_std(1)] by (simp add: run_fork1 split: prod.split)
qed

theorem shell_plumbing_witness:
  "run (\<lambda>_ _. True) (\<lambda>_. True) (sh_lines [map of_char ''ls|wc >f'']) [0 \<mapsto> Given 0, 1 \<mapsto> Given 1, 2 \<mapsto> Given 2] 0 =
    ([Ran [map of_char ''ls''] [0 \<mapsto> Given 0, 1 \<mapsto> PipeW 0, 2 \<mapsto> Given 2],
      Ran [map of_char ''wc''] [0 \<mapsto> PipeR 0, 1 \<mapsto> Named (map of_char ''f'') 0x201, 2 \<mapsto> Given 2],
      Waited [0 \<mapsto> Given 0, 1 \<mapsto> Given 1, 2 \<mapsto> Given 2], Waited [0 \<mapsto> Given 0, 1 \<mapsto> Given 1, 2 \<mapsto> Given 2],
      Waited [0 \<mapsto> Given 0, 1 \<mapsto> Given 1, 2 \<mapsto> Given 2]], 1)"
proof -
  define l where "l = LEnd (PTo (XWords [] [(map of_char ''ls'', [])]) (POne (XWords [] [(map of_char ''wc'', [(62, map of_char ''f'')])]))) 0"
  define s :: "uchar list" where "s = map of_char ''ls|wc >f''"
  have l: "line_ok l" "tokens_from s 0 = toks_line l" "0 \<notin> set s" "take 3 s \<noteq> map of_char ''cd ''" "s \<noteq> []"
    by (simp_all add: l_def s_def tokens_from.simps gettoken_def skip_while_def char_at_def whitespace_def symbols_def Let_def)
  have "fds_ok [0 \<mapsto> Given 0, 1 \<mapsto> Given 1, 2 \<mapsto> Given 2]"
    by (rule fds_okI [of _ 3 4]) simp_all
  from shell_plumbing [OF l(3,1,2) this l(4,5), of "\<lambda>_ _. True" "\<lambda>_. True" 0] show ?thesis
    by (simp add: l_def s_def a_redir_def fun_eq_iff)
qed

end
