(* ===== verification/Umalloc.thy ===== *)
theory Umalloc
  imports Prelude
begin

text \<open>
  \<^verbatim>\<open>src/umalloc.c\<close>: the allocator of user programs.  The memory is a function from addresses to the headers there; an address is a natural number, and a header is eight
  bytes long.  Of the headers only those of blocks, and \<^verbatim>\<open>base\<close>, are accessed, and these do not overlap.  A loop that does not end has the value \<open>None\<close>.
\<close>

section \<open>The allocator\<close>

record header =
  h_ptr :: nat
  h_size :: uint32

record heap =
  hdr :: "nat \<Rightarrow> header"
  freep :: nat
  brk :: nat

definition set_ptr :: "nat \<Rightarrow> nat \<Rightarrow> heap \<Rightarrow> heap" where
  "set_ptr a p h = h\<lparr>hdr := (hdr h)(a := (hdr h a)\<lparr>h_ptr := p\<rparr>)\<rparr>"

definition set_size :: "nat \<Rightarrow> uint32 \<Rightarrow> heap \<Rightarrow> heap" where
  "set_size a n h = h\<lparr>hdr := (hdr h)(a := (hdr h a)\<lparr>h_size := n\<rparr>)\<rparr>"

definition ptr_of :: "heap \<Rightarrow> nat \<Rightarrow> nat" where
  "ptr_of h a = h_ptr (hdr h a)"

definition size_of :: "heap \<Rightarrow> nat \<Rightarrow> uint32" where
  "size_of h a = h_size (hdr h a)"

text \<open>
  What \<^verbatim>\<open>sys_sbrk\<close> and \<^verbatim>\<open>growproc\<close> do to the size of the process; it has at most \<^verbatim>\<open>KERNBASE\<close> bytes, and \<open>avail\<close> tells to which sizes the pages suffice.  \<^verbatim>\<open>deallocuvm\<close>
  changes nothing when the new size is not smaller, and a size of 0 is taken for its failure.
\<close>

definition sbrk :: "(nat \<Rightarrow> bool) \<Rightarrow> int \<Rightarrow> heap \<Rightarrow> (nat \<times> heap) option" where
  "sbrk avail n h =
     (let sz = brk h; newsz = nat ((int sz + n) mod 2 ^ 32) in
      if n > 0 then (if newsz \<ge> 2 ^ 31 then None else if newsz < sz then Some (sz, h) else if avail newsz then Some (sz, h\<lparr>brk := newsz\<rparr>) else None)
      else if n < 0 then (if newsz \<ge> sz then Some (sz, h) else if newsz = 0 then None else Some (sz, h\<lparr>brk := newsz\<rparr>))
      else Some (sz, h))"

text \<open>The loop of \<^verbatim>\<open>free\<close>, which finds the free block after which a block belongs.\<close>

partial_function (option) free_place :: "heap \<Rightarrow> nat \<Rightarrow> nat \<Rightarrow> nat option" where
  "free_place h bp p =
     (if p < bp \<and> bp < ptr_of h p then Some p
      else if ptr_of h p \<le> p \<and> (p < bp \<or> bp < ptr_of h p) then Some p
      else free_place h bp (ptr_of h p))"

definition free_join :: "nat \<Rightarrow> nat \<Rightarrow> heap \<Rightarrow> heap" where
  "free_join bp p h =
     (let q = ptr_of h p;
          h = (if bp + 8 * unat (size_of h bp) = q
               then set_ptr bp (ptr_of h q) (set_size bp (size_of h bp + size_of h q) h)
               else set_ptr bp q h);
          h = (if p + 8 * unat (size_of h p) = bp
               then set_ptr p (ptr_of h bp) (set_size p (size_of h p + size_of h bp) h)
               else set_ptr p bp h)
      in h\<lparr>freep := p\<rparr>)"

definition ufree :: "nat \<Rightarrow> heap \<Rightarrow> heap option" where
  "ufree ap h = Option.bind (free_place h (ap - 8) (freep h)) (\<lambda>p. Some (free_join (ap - 8) p h))"

definition morecore :: "(nat \<Rightarrow> bool) \<Rightarrow> uint32 \<Rightarrow> heap \<Rightarrow> (nat \<times> heap) option" where
  "morecore avail nu h =
     (let nu = (if nu < 4096 then 4096 else nu) in
      case sbrk avail (sint (nu * 8)) h of
        None \<Rightarrow> Some (0, h)
      | Some (hp, h) \<Rightarrow> Option.bind (ufree (hp + 8) (set_size hp nu h)) (\<lambda>h. Some (freep h, h)))"

definition malloc_take :: "uint32 \<Rightarrow> nat \<Rightarrow> nat \<Rightarrow> heap \<Rightarrow> nat \<times> heap" where
  "malloc_take nunits prevp p h =
     (if size_of h p = nunits then (p + 8, (set_ptr prevp (ptr_of h p) h)\<lparr>freep := prevp\<rparr>)
      else
        let h = set_size p (size_of h p - nunits) h;
            p = p + 8 * unat (size_of h p);
            h = set_size p nunits h
        in (p + 8, h\<lparr>freep := prevp\<rparr>))"

partial_function (option) malloc_loop :: "(nat \<Rightarrow> bool) \<Rightarrow> uint32 \<Rightarrow> nat \<Rightarrow> nat \<Rightarrow> heap \<Rightarrow> (nat \<times> heap) option" where
  "malloc_loop avail nunits prevp p h =
     (if nunits \<le> size_of h p then Some (malloc_take nunits prevp p h)
      else if p = freep h then
        Option.bind (morecore avail nunits h) (\<lambda>(p, h).
        if p = 0 then Some (0, h) else malloc_loop avail nunits p (ptr_of h p) h)
      else malloc_loop avail nunits p (ptr_of h p) h)"

text \<open>\<open>base\<close> is the address of the static header.\<close>

definition malloc_units :: "uint32 \<Rightarrow> uint32" where
  "malloc_units nbytes = (nbytes + 8 - 1) div 8 + 1"

definition malloc :: "(nat \<Rightarrow> bool) \<Rightarrow> nat \<Rightarrow> uint32 \<Rightarrow> heap \<Rightarrow> (nat \<times> heap) option" where
  "malloc avail base nbytes h =
     (let h = (if freep h = 0 then (set_size base 0 (set_ptr base base h))\<lparr>freep := base\<rparr> else h)
      in malloc_loop avail (malloc_units nbytes) (freep h) (ptr_of h (freep h)) h)"

lemma hdr_simps [simp]:
  "ptr_of (set_ptr a p h) b = (if b = a then p else ptr_of h b)" "size_of (set_ptr a p h) b = size_of h b"
  "ptr_of (set_size a n h) b = ptr_of h b" "size_of (set_size a n h) b = (if b = a then n else size_of h b)"
  "x \<noteq> a \<Longrightarrow> hdr (set_ptr a p h) x = hdr h x" "x \<noteq> a \<Longrightarrow> hdr (set_size a n h) x = hdr h x"
  "freep (set_ptr a p h) = freep h" "freep (set_size a n h) = freep h" "brk (set_ptr a p h) = brk h" "brk (set_size a n h) = brk h"
  "ptr_of (h\<lparr>freep := f\<rparr>) b = ptr_of h b" "size_of (h\<lparr>freep := f\<rparr>) b = size_of h b" "ptr_of (h\<lparr>brk := k\<rparr>) b = ptr_of h b" "size_of (h\<lparr>brk := k\<rparr>) b = size_of h b"
  by (simp_all add: ptr_of_def size_of_def set_ptr_def set_size_def)

section \<open>The free list\<close>

fun linked :: "heap \<Rightarrow> nat list \<Rightarrow> nat \<Rightarrow> bool" where
  "linked h [] z = True"
| "linked h (x # xs) z = (ptr_of h x = hd (xs @ [z]) \<and> linked h xs z)"

lemma linked_append: "linked h (xs @ ys) z \<longleftrightarrow> linked h xs (hd (ys @ [z])) \<and> linked h ys z"
  by (induction xs) (auto simp: hd_append)

lemma linked_same: "linked g xs z \<Longrightarrow> \<forall>x \<in> set xs. ptr_of h x = ptr_of g x \<Longrightarrow> linked h xs z"
  by (induction xs) auto

lemma linked_upd [simp]:
  "a \<notin> set xs \<Longrightarrow> linked (set_ptr a q g) xs z \<longleftrightarrow> linked g xs z" "linked (set_size a n g) xs z \<longleftrightarrow> linked g xs z"
  "linked (g\<lparr>freep := f\<rparr>) xs z \<longleftrightarrow> linked g xs z" "linked (g\<lparr>brk := k\<rparr>) xs z \<longleftrightarrow> linked g xs z"
  by (induction xs) auto

lemma free_place_next: "\<not> (p < bp \<and> bp < ptr_of h p) \<Longrightarrow> \<not> (ptr_of h p \<le> p \<and> (p < bp \<or> bp < ptr_of h p)) \<Longrightarrow> free_place h bp p = free_place h bp (ptr_of h p)"
  by (subst free_place.simps) auto

text \<open>The search ends at the last free block below \<open>bp\<close>, wherever it starts.\<close>

lemma free_place_below:
  assumes "linked h (xs @ p # ys) z" "sorted_wrt (<) (xs @ p # ys)" "p < bp" "\<forall>y \<in> set ys. bp < y" "z \<le> p" "x \<in> set (xs @ [p])"
  shows "free_place h bp x = Some p"
  using assms
proof (induction xs arbitrary: x)
  case Nil
  then show ?case
    by (subst free_place.simps) (cases ys; auto)
next
  case (Cons a xs)
  show ?case
  proof (cases "x = a")
    case True
    have n: "ptr_of h a = hd (xs @ [p])" "a < hd (xs @ [p])" "hd (xs @ [p]) \<le> p" "hd (xs @ [p]) \<in> set (xs @ [p])"
      using Cons.prems(1,2) by (cases xs; auto)+
    then have "free_place h bp a = free_place h bp (hd (xs @ [p]))"
      using free_place_next [of a bp h] Cons.prems(3) by simp
    then show ?thesis
      using Cons.IH [of "hd (xs @ [p])"] Cons.prems n(4) True by auto
  qed (use Cons in auto)
qed

lemma free_place_above:
  assumes "linked h ys z" "sorted_wrt (<) ys" "\<forall>y \<in> set ys. bp < y" "z < bp" "x \<in> set ys"
  shows "free_place h bp x = free_place h bp z"
  using assms
proof (induction ys arbitrary: x)
  case (Cons a ys)
  show ?case
  proof (cases "x = a")
    case True
    have "free_place h bp a = free_place h bp (hd (ys @ [z]))"
      using Cons.prems free_place_next [of a bp h] by (cases ys) auto
    then show ?thesis
      using Cons.IH [of "hd ys"] Cons.prems True by (cases ys) auto
  qed (use Cons in auto)
qed simp

lemma free_place_eq:
  assumes "linked h (xs @ p # ys) z" "sorted_wrt (<) (xs @ p # ys)" "p < bp" "\<forall>y \<in> set ys. bp < y" "z = hd (xs @ [p])" "x \<in> set (xs @ p # ys)"
  shows "free_place h bp x = Some p"
proof -
  have z: "z \<in> set (xs @ [p])" "z \<le> p" "z < bp"
    using assms(2,3,5) by (cases xs; auto)+
  have "free_place h bp x = free_place h bp z" if "x \<in> set ys"
    using free_place_above [of h ys z bp x] assms(1,2,4) z(3) that by (simp add: linked_append sorted_wrt_append)
  then show ?thesis
    using free_place_below [OF assms(1-4) z(2)] z(1) assms(6) by auto
qed

section \<open>Blocks\<close>

text \<open>A block is an address and a number of units of eight bytes.  Blocks tile a part of an interval: none is empty and no two overlap.\<close>

definition clear_of :: "nat \<times> nat \<Rightarrow> nat \<times> nat \<Rightarrow> bool" where
  "clear_of x y = (fst x + 8 * snd x \<le> fst y \<or> fst y + 8 * snd y \<le> fst x)"

definition tiles :: "nat \<Rightarrow> nat \<Rightarrow> (nat \<times> nat) set \<Rightarrow> bool" where
  "tiles lo hi S = ((\<forall>x \<in> S. 0 < snd x \<and> lo \<le> fst x \<and> fst x + 8 * snd x \<le> hi) \<and> (\<forall>x \<in> S. \<forall>y \<in> S. x \<noteq> y \<longrightarrow> clear_of x y))"

lemma tiles_fst: "tiles lo hi S \<Longrightarrow> (a, n) \<in> S \<Longrightarrow> (a, m) \<in> S \<Longrightarrow> n = m"
  by (force simp: tiles_def clear_of_def)

lemma tilesD: "tiles lo hi S \<Longrightarrow> x \<in> S \<Longrightarrow> 0 < snd x \<and> lo \<le> fst x \<and> fst x + 8 * snd x \<le> hi"
  by (simp add: tiles_def)

lemma tiles_clear: "tiles lo hi S \<Longrightarrow> x \<in> S \<Longrightarrow> y \<in> S \<Longrightarrow> x \<noteq> y \<Longrightarrow> clear_of x y"
  by (simp add: tiles_def)

lemma tiles_subset: "tiles lo hi S \<Longrightarrow> T \<subseteq> S \<Longrightarrow> tiles lo hi T"
  unfolding tiles_def by blast

lemma tiles_mono: "tiles lo hi S \<Longrightarrow> hi \<le> hi' \<Longrightarrow> tiles lo hi' S"
  by (force simp: tiles_def)

lemma tiles_insert:
  "x \<notin> S \<Longrightarrow> tiles lo hi (insert x S) \<longleftrightarrow> tiles lo hi S \<and> 0 < snd x \<and> lo \<le> fst x \<and> fst x + 8 * snd x \<le> hi \<and> (\<forall>y \<in> S. clear_of x y)"
  by (auto simp: tiles_def clear_of_def)

lemma clear_of_join: "0 < n \<Longrightarrow> 0 < m \<Longrightarrow> 0 < snd x \<Longrightarrow> clear_of (a, n + m) x \<longleftrightarrow> clear_of (a, n) x \<and> clear_of (a + 8 * n, m) x"
  by (auto simp: clear_of_def)

lemma tiles_join:
  assumes "(a, n) \<notin> S" "(a + 8 * n, m) \<notin> S" "0 < n" "0 < m" "(a, n + m) \<notin> S"
  shows "tiles lo hi (insert (a, n + m) S) \<longleftrightarrow> tiles lo hi (insert (a, n) (insert (a + 8 * n, m) S))"
proof -
  have "(\<forall>y \<in> S. clear_of (a, n + m) y) \<longleftrightarrow> (\<forall>y \<in> S. clear_of (a, n) y) \<and> (\<forall>y \<in> S. clear_of (a + 8 * n, m) y)" if "tiles lo hi S"
    using clear_of_join [OF assms(3,4)] that unfolding tiles_def by blast
  moreover have "tiles lo hi (insert (a, n) (insert (a + 8 * n, m) S)) \<longleftrightarrow>
      tiles lo hi S \<and> lo \<le> a + 8 * n \<and> a + 8 * n + 8 * m \<le> hi \<and> (\<forall>y \<in> S. clear_of (a + 8 * n, m) y) \<and> lo \<le> a \<and> a + 8 * n \<le> hi \<and> (\<forall>y \<in> S. clear_of (a, n) y)"
    using assms tiles_insert [of "(a, n)" "insert (a + 8 * n, m) S" lo hi] tiles_insert [of "(a + 8 * n, m)" S lo hi] by (auto simp: clear_of_def)
  moreover have "tiles lo hi (insert (a, n + m) S) \<longleftrightarrow> tiles lo hi S \<and> lo \<le> a \<and> a + 8 * (n + m) \<le> hi \<and> (\<forall>y \<in> S. clear_of (a, n + m) y)"
    using assms tiles_insert [of "(a, n + m)" S lo hi] by auto
  ultimately show ?thesis
    by (auto simp: algebra_simps)
qed

section \<open>The state of the allocator\<close>

text \<open>
  \<open>heap_ok base h F A\<close>: the free list is the ring of \<open>base\<close> and the blocks \<open>F\<close> in the order of their addresses, the blocks \<open>A\<close> are allocated, the headers have the sizes, and all blocks together
  tile the part of the memory between \<open>base\<close> and the break.
\<close>

definition heap_ok :: "nat \<Rightarrow> heap \<Rightarrow> (nat \<times> nat) list \<Rightarrow> (nat \<times> nat) set \<Rightarrow> bool" where
  "heap_ok base h F A =
     (linked h (base # map fst F) base \<and> sorted_wrt (<) (base # map fst F) \<and> size_of h base = 0 \<and> freep h \<in> set (base # map fst F) \<and> 0 < base \<and>
      set F \<inter> A = {} \<and> (\<forall>x \<in> set F \<union> A. unat (size_of h (fst x)) = snd x) \<and> tiles (base + 8) (brk h) (set F \<union> A) \<and> brk h \<le> 2 ^ 31 \<and> base + 8 \<le> brk h)"

lemma heap_okD:
  assumes "heap_ok base h F A"
  shows "linked h (base # map fst F) base" "sorted_wrt (<) (base # map fst F)" "size_of h base = 0" "freep h \<in> set (base # map fst F)" "0 < base" "set F \<inter> A = {}"
    "\<And>a n. (a, n) \<in> set F \<union> A \<Longrightarrow> unat (size_of h a) = n" "tiles (base + 8) (brk h) (set F \<union> A)" "brk h \<le> 2 ^ 31"
    "\<And>a n. (a, n) \<in> set F \<union> A \<Longrightarrow> 0 < n \<and> base + 8 \<le> a \<and> a + 8 * n \<le> brk h" "base + 8 \<le> brk h"
proof -
  show t: "tiles (base + 8) (brk h) (set F \<union> A)"
    using assms by (simp add: heap_ok_def)
  show "unat (size_of h a) = n" if "(a, n) \<in> set F \<union> A" for a n
    using assms bspec [of "set F \<union> A" "\<lambda>x. unat (size_of h (fst x)) = snd x" "(a, n)"] that by (simp add: heap_ok_def)
  show "0 < n \<and> base + 8 \<le> a \<and> a + 8 * n \<le> brk h" if "(a, n) \<in> set F \<union> A" for a n
    using t bspec [of "set F \<union> A" _ "(a, n)"] that unfolding tiles_def by force
qed (use assms in \<open>simp_all add: heap_ok_def\<close>)

text \<open>A step keeps the memory inside the blocks of a set, that is, all of it but their headers.\<close>

definition keeps :: "(nat \<times> nat) set \<Rightarrow> heap \<Rightarrow> heap \<Rightarrow> bool" where
  "keeps A h g = (\<forall>(b, n) \<in> A. \<forall>x. b < x \<and> x < b + 8 * n \<longrightarrow> hdr g x = hdr h x)"

lemma keeps_trans: "keeps A h g \<Longrightarrow> keeps A g k \<Longrightarrow> keeps A h k"
  by (fastforce simp: keeps_def)

lemma keeps_subset: "keeps B h g \<Longrightarrow> A \<subseteq> B \<Longrightarrow> keeps A h g"
  by (auto simp: keeps_def)

lemma inside_no_header:
  assumes "tiles lo hi S" "(b, n) \<in> S" "b < x" "x < b + 8 * n"
  shows "x \<notin> fst ` S" "lo \<le> x" "x < hi"
proof -
  show "x \<notin> fst ` S"
  proof
    assume "x \<in> fst ` S"
    then obtain m where "(x, m) \<in> S"
      by auto
    then show False
      using tiles_clear [OF assms(1,2), of "(x, m)"] tilesD [OF assms(1), of "(x, m)"] assms(3,4) by (simp add: clear_of_def)
  qed
  show "lo \<le> x" "x < hi"
    using tilesD [OF assms(1,2)] assms(3,4) by auto
qed

lemma keepsI:
  assumes "heap_ok base h F A" "\<And>x. x \<notin> insert base (fst ` (set F \<union> A)) \<Longrightarrow> x < brk h \<Longrightarrow> hdr g x = hdr h x"
  shows "keeps A h g"
  unfolding keeps_def
proof clarify
  fix b n x
  assume "(b, n) \<in> A" "b < x" "x < b + 8 * n"
  then have "x \<notin> fst ` (set F \<union> A)" "base + 8 \<le> x" "x < brk h"
    using inside_no_header [OF heap_okD(8) [OF assms(1)], of b n x] by simp_all
  then show "hdr g x = hdr h x"
    using assms(2) by simp
qed

section \<open>free\<close>

lemma free_split:
  assumes "heap_ok base h F A" "(b, n) \<in> A"
  obtains F1 F2 where "F = F1 @ F2" "\<forall>x \<in> set F1. fst x + 8 * snd x \<le> b" "\<forall>x \<in> set F2. b + 8 * n \<le> fst x"
proof -
  note d = heap_okD [OF assms(1)]
  let ?P = "\<lambda>x :: nat \<times> nat. fst x < b"
  have c: "clear_of x (b, n)" "0 < snd x" "0 < n" if "x \<in> set F" for x
    using tiles_clear [OF d(8), of x "(b, n)"] tilesD [OF d(8), of x] tilesD [OF d(8), of "(b, n)"] d(6) that assms(2) by auto
  have lo: "fst x + 8 * snd x \<le> b" if "x \<in> set (takeWhile ?P F)" for x
    using c [of x] set_takeWhileD [OF that] by (auto simp: clear_of_def)
  have "b \<le> fst x" if "x \<in> set (dropWhile ?P F)" for x
  proof -
    have "sorted_wrt (<) (map fst (dropWhile ?P F))"
      using that d(2) sorted_wrt_append [of "(<)" "map fst (takeWhile ?P F)" "map fst (dropWhile ?P F)"] by (auto simp flip: map_append)
    moreover have "dropWhile ?P F \<noteq> []"
      using that by (metis empty_iff empty_set)
    then have "\<not> ?P (hd (dropWhile ?P F))"
      by (rule hd_dropWhile)
    ultimately show ?thesis
      using that by (cases "dropWhile ?P F") auto
  qed
  then have hi: "b + 8 * n \<le> fst x" if "x \<in> set (dropWhile ?P F)" for x
    using c [of x] that set_dropWhileD [OF that] by (fastforce simp: clear_of_def)
  show ?thesis
    using that [of "takeWhile ?P F" "dropWhile ?P F"] lo hi by simp
qed

text \<open>A block joined with the free block that begins where it ends.\<close>

definition join_right :: "nat \<Rightarrow> nat \<Rightarrow> (nat \<times> nat) list \<Rightarrow> nat \<times> (nat \<times> nat) list" where
  "join_right b n F = (case F of [] \<Rightarrow> (n, []) | (a, k) # R \<Rightarrow> if b + 8 * n = a then (n + k, R) else (n, F))"

lemma join_right_tiles:
  assumes "join_right b n F = (m, R)" "tiles lo hi (insert (b, n) (set F \<union> S))" "(b, n) \<notin> set F \<union> S" "distinct (map fst F)" "set F \<inter> S = {}"
  shows "tiles lo hi (insert (b, m) (set R \<union> S))" "n \<le> m" "set R \<subseteq> set F"
proof -
  show "n \<le> m" "set R \<subseteq> set F"
    using assms(1) by (auto simp: join_right_def split: list.splits prod.splits if_splits)
  show "tiles lo hi (insert (b, m) (set R \<union> S))"
  proof (cases "\<exists>k. F = (b + 8 * n, k) # R \<and> m = n + k")
    case True
    then obtain k where k: "F = (b + 8 * n, k) # R" "m = n + k"
      by blast
    have p: "0 < n" "0 < k"
      using assms(2) k by (auto simp: tiles_def)
    have "tiles lo hi (insert (b, n) (insert (b + 8 * n, k) (set R \<union> S)))"
      using assms(2) k by simp
    moreover have "(b, n) \<notin> set R \<union> S" "(b + 8 * n, k) \<notin> set R \<union> S"
      using assms(3-5) k by force+
    moreover have "(b, n + k) \<notin> set R \<union> S"
      using tiles_fst [OF assms(2), of b n "n + k"] k p by auto
    ultimately show ?thesis
      using tiles_join [of b n "set R \<union> S" k lo hi] p k(2) by simp
  next
    case False
    then have "m = n" "R = F"
      using assms(1) by (auto simp: join_right_def split: list.splits prod.splits if_splits)
    then show ?thesis
      using assms(2) by simp
  qed
qed

text \<open>The first half of \<^verbatim>\<open>free\<close>: the block gets the rest of the list, and the free block after it if it is adjacent.\<close>

lemma free_join_right:
  assumes "heap_ok base h (F1 @ F2) A" "(b, n) \<in> A" "\<forall>x \<in> set F1. fst x + 8 * snd x \<le> b" "\<forall>x \<in> set F2. b + 8 * n \<le> fst x"
    and "join_right b n F2 = (m, R)" "q = hd (map fst F2 @ [base])"
  shows "\<exists>g. (if b + 8 * unat (size_of h b) = q then set_ptr b (ptr_of h q) (set_size b (size_of h b + size_of h q) h) else set_ptr b q h) = g \<and>
    ptr_of g b = hd (map fst R @ [base]) \<and> unat (size_of g b) = m \<and> brk g = brk h \<and> (\<forall>a. a \<noteq> b \<longrightarrow> ptr_of g a = ptr_of h a \<and> size_of g a = size_of h a)"
proof -
  note d = heap_okD [OF assms(1)]
  have b: "unat (size_of h b) = n" "base < b"
    using d(7,10) [of b n] assms(2) by simp_all
  show ?thesis
  proof (cases "\<exists>k. F2 = (b + 8 * n, k) # R \<and> m = n + k")
    case True
    then obtain k where k: "F2 = (b + 8 * n, k) # R" "m = n + k"
      by blast
    have s: "unat (size_of h (b + 8 * n)) = k" "b + 8 * n + 8 * k \<le> 2 ^ 31" "0 < n"
      using d(7,10) [of "b + 8 * n" k] d(9) d(10) [of b n] k(1) assms(2) by simp_all
    have "linked h ((b + 8 * n) # map fst R) base"
      using d(1) k(1) linked_append [of h "base # map fst F1" "(b + 8 * n) # map fst R" base] by simp
    moreover have "unat (size_of h b + size_of h (b + 8 * n)) = n + k"
      using b(1) s by (subst unat_add_lt) simp_all
    ultimately show ?thesis
      using b k s assms(6) by simp
  next
    case False
    then have r: "m = n" "R = F2" "b + 8 * n \<noteq> q"
      using assms(5,6) b(2) by (auto simp: join_right_def split: list.splits prod.splits if_splits)
    then show ?thesis
      using b assms(6) by simp
  qed
qed

text \<open>What is known after the first half.\<close>

lemma free_join_tiles:
  assumes "heap_ok base h (F1 @ F2) A" "(b, n) \<in> A" "join_right b n F2 = (m, R)"
  shows "tiles (base + 8) (brk h) (insert (b, m) (set R \<union> (set F1 \<union> (A - {(b, n)}))))" "n \<le> m" "set R \<subseteq> set F2" "(b, m) \<notin> set R \<union> (set F1 \<union> (A - {(b, n)}))"
proof -
  note d = heap_okD [OF assms(1)]
  let ?S = "set F1 \<union> (A - {(b, n)})"
  have i: "insert (b, n) (set F2 \<union> ?S) = set (F1 @ F2) \<union> A"
    using assms(2) by auto
  have n: "(b, n) \<notin> set F2 \<union> ?S"
    using d(6) assms(2) by auto
  have "distinct (map fst F1 @ map fst F2)"
    using d(2) by (simp add: strict_sorted_iff)
  then have "distinct (map fst F2)" "set F2 \<inter> ?S = {}"
    using d(6) by auto
  from join_right_tiles [OF assms(3) _ n this] show t: "tiles (base + 8) (brk h) (insert (b, m) (set R \<union> ?S))" "n \<le> m" "set R \<subseteq> set F2"
    using d(8) i by simp_all
  show "(b, m) \<notin> set R \<union> ?S"
  proof
    assume "(b, m) \<in> set R \<union> ?S"
    then have m: "(b, m) \<in> set F2 \<union> ?S"
      using t(3) by auto
    then have "n = m"
      using tiles_fst [OF d(8), of b n m] i by auto
    then show False
      using n m by simp
  qed
qed

text \<open>
  The state between the halves: the block \<open>b\<close> of \<open>m\<close> units points to the rest \<open>R\<close> of the list, the nodes before it are \<open>base\<close> and \<open>F\<close>, and \<open>p\<close> is the last of them.
\<close>

definition half_ok :: "nat \<Rightarrow> nat \<Rightarrow> nat \<Rightarrow> nat list \<Rightarrow> nat \<Rightarrow> (nat \<times> nat) list \<Rightarrow> (nat \<times> nat) list \<Rightarrow> heap \<Rightarrow> (nat \<times> nat) set \<Rightarrow> bool" where
  "half_ok base b m pre p F R g A =
     (base # map fst F = pre @ [p] \<and> linked g pre p \<and> linked g (map fst R) base \<and> ptr_of g b = hd (map fst R @ [base]) \<and>
      sorted_wrt (<) (pre @ [p, b] @ map fst R) \<and> size_of g base = 0 \<and> 0 < base \<and> brk g \<le> 2 ^ 31 \<and> base + 8 \<le> brk g \<and> unat (size_of g b) = m \<and>
      tiles (base + 8) (brk g) (insert (b, m) (set R \<union> set F \<union> A)) \<and> (b, m) \<notin> A \<and> (set R \<union> set F) \<inter> A = {} \<and>
      (\<forall>x \<in> set R \<union> set F \<union> A. unat (size_of g (fst x)) = snd x))"

lemma half_okD:
  assumes "half_ok base b m pre p F R g A"
  shows "base # map fst F = pre @ [p]" "linked g pre p" "linked g (map fst R) base" "ptr_of g b = hd (map fst R @ [base])"
    "sorted_wrt (<) (pre @ [p, b] @ map fst R)" "size_of g base = 0" "0 < base" "brk g \<le> 2 ^ 31" "unat (size_of g b) = m"
    "tiles (base + 8) (brk g) (insert (b, m) (set R \<union> set F \<union> A))" "(b, m) \<notin> A" "(set R \<union> set F) \<inter> A = {}"
    "\<forall>x \<in> set R \<union> set F \<union> A. unat (size_of g (fst x)) = snd x" "p \<notin> set pre" "p \<notin> set (map fst R)" "p < b" "b \<notin> set (map fst R)" "b \<notin> set pre"
    "p \<in> set (base # map fst F)" "base + 8 \<le> brk g"
proof -
  show n: "base # map fst F = pre @ [p]"
    using assms by (simp add: half_ok_def)
  show "p \<in> set (base # map fst F)"
    unfolding n by simp
qed (use assms in \<open>auto simp: half_ok_def sorted_wrt_append\<close>)

lemma half_no_join:
  assumes "half_ok base b m pre p F R g A"
  shows "heap_ok base ((set_ptr p b g)\<lparr>freep := p\<rparr>) (F @ (b, m) # R) A"
proof -
  note d = half_okD [OF assms]
  have nodes: "base # map fst (F @ (b, m) # R) = pre @ [p, b] @ map fst R"
    using d(1) by (metis append.assoc append_Cons append_Nil fst_conv list.map(2) map_append)
  have u: "set (F @ (b, m) # R) \<union> A = insert (b, m) (set R \<union> set F \<union> A)"
    by auto
  have "set (F @ (b, m) # R) \<inter> A = {}"
    using d(11,12) by auto
  then show ?thesis
    unfolding heap_ok_def nodes u using d(2-10,13-17,20) by (simp add: linked_append del: append.simps) (simp add: linked_append)
qed

lemma half_join_blocks:
  assumes "half_ok base b m pre p F R g A" "p + 8 * unat (size_of g p) = b"
  obtains F' k where "F = F' @ [(p, k)]" "pre = base # map fst F'" "unat (size_of g p) = k" "p + 8 * k = b" "p \<noteq> base" "0 < k" "b + 8 * m \<le> 2 ^ 31"
    "tiles (base + 8) (brk g) (insert (p, k + m) (set R \<union> set F' \<union> A))" "p \<notin> fst ` (set R \<union> set F' \<union> A)" "(p, k + m) \<notin> A"
proof -
  note d = half_okD [OF assms(1)]
  have p: "p \<noteq> base"
    using d(6,16) assms(2) by auto
  then obtain F' k where F: "F = F' @ [(p, k)]" "pre = base # map fst F'"
    using d(1) by (cases F rule: rev_cases) auto
  have k: "unat (size_of g p) = k" "p + 8 * k = b"
    using d(13) F(1) assms(2) by auto
  let ?S = "set R \<union> set F' \<union> A"
  have t: "tiles (base + 8) (brk g) (insert (p, k) (insert (p + 8 * k, m) ?S))"
    using d(10) F(1) k(2) by (simp add: insert_commute)
  have z: "0 < k" "0 < m" "b + 8 * m \<le> 2 ^ 31"
    using tilesD [OF t, of "(p, k)"] tilesD [OF t, of "(b, m)"] k(2) d(8) by auto
  have nA: "p \<notin> fst ` A"
  proof
    assume "p \<in> fst ` A"
    then obtain j where j: "(p, j) \<in> A"
      by auto
    then have "k = j"
      using tiles_fst [OF t, of p k j] by simp
    then show False
      using j d(12) F(1) by auto
  qed
  have n: "p \<notin> fst ` ?S"
    using d(14,15) F(2) nA by auto
  have "(p + 8 * k, m) \<notin> ?S"
    using d(11,17,18) F(2) k(2) by force
  moreover have "(p, k) \<notin> ?S" "(p, k + m) \<notin> ?S"
    using n by force+
  ultimately have "tiles (base + 8) (brk g) (insert (p, k + m) ?S)"
    using tiles_join [of p k ?S m] t z by simp
  then show ?thesis
    using that [OF F k p z(1,3)] n nA by force
qed

lemma half_join:
  assumes "half_ok base b m pre p F R g A" "p + 8 * unat (size_of g p) = b"
  shows "\<exists>F' k. heap_ok base ((set_ptr p (ptr_of g b) (set_size p (size_of g p + size_of g b) g))\<lparr>freep := p\<rparr>) (F' @ (p, k + m) # R) A \<and> p + 8 * k = b \<and> F = F' @ [(p, k)]"
proof -
  let ?h = "(set_ptr p (ptr_of g b) (set_size p (size_of g p + size_of g b) g))\<lparr>freep := p\<rparr>"
  note d = half_okD [OF assms(1)]
  obtain F' k where F: "F = F' @ [(p, k)]" "pre = base # map fst F'" and k: "unat (size_of g p) = k" "p + 8 * k = b" "p \<noteq> base" "0 < k" "b + 8 * m \<le> 2 ^ 31"
    and t: "tiles (base + 8) (brk g) (insert (p, k + m) (set R \<union> set F' \<union> A))" and n: "p \<notin> fst ` (set R \<union> set F' \<union> A)" "(p, k + m) \<notin> A"
    using half_join_blocks [OF assms] by metis
  have nodes: "base # map fst (F' @ (p, k + m) # R) = pre @ [p] @ map fst R" and u: "set (F' @ (p, k + m) # R) \<union> A = insert (p, k + m) (set R \<union> set F' \<union> A)"
    using F by auto
  have l: "linked ?h (pre @ [p] @ map fst R) base"
    using d(2-4,14,15) by (simp add: linked_append)
  have s: "unat (size_of g p + size_of g b) = k + m"
    using d(9) k by (subst unat_add_lt) auto
  have sz: "\<forall>x \<in> insert (p, k + m) (set R \<union> set F' \<union> A). unat (size_of ?h (fst x)) = snd x"
    using s n d(13) F(1) by force
  have "set (F' @ (p, k + m) # R) \<inter> A = {}"
    using d(12) F(1) n(2) by auto
  then have "heap_ok base ?h (F' @ (p, k + m) # R) A"
    unfolding heap_ok_def nodes u using l t sz d(5-8,20) k(3) by (simp add: sorted_wrt_append)
  then show ?thesis
    using k(2) F(1) by blast
qed


lemma join_right_suffix: "join_right b n F = (m, R) \<Longrightarrow> \<exists>xs. F = xs @ R"
  by (auto simp: join_right_def split: list.splits prod.splits if_splits)

lemma free_join_half:
  assumes "heap_ok base h (F1 @ F2) A" "(b, n) \<in> A" "\<forall>x \<in> set F1. fst x + 8 * snd x \<le> b" "\<forall>x \<in> set F2. b + 8 * n \<le> fst x"
    and "join_right b n F2 = (m, R)" "base # map fst F1 = pre @ [p]"
    and "ptr_of g b = hd (map fst R @ [base])" "unat (size_of g b) = m" "brk g = brk h" "\<forall>a. a \<noteq> b \<longrightarrow> ptr_of g a = ptr_of h a \<and> size_of g a = size_of h a"
  shows "half_ok base b m pre p F1 R g (A - {(b, n)})"
proof -
  note d = heap_okD [OF assms(1)] and t = free_join_tiles [OF assms(1,2,5)]
  obtain xs where xs: "F2 = xs @ R"
    using join_right_suffix [OF assms(5)] by blast
  have n: "0 < n" "base < b"
    using d(10) [of b n] assms(2) by simp_all
  have nodes: "base # map fst (F1 @ F2) = pre @ p # map fst xs @ map fst R"
    using assms(6) xs by (metis append.assoc append_Cons append_Nil map_append)
  have lo: "x < b" if "x \<in> set (pre @ [p])" for x
    using that d(10) assms(3) n(2) unfolding assms(6) [symmetric] by fastforce
  have hi: "b < x" if "x \<in> set (map fst R)" for x
    using that assms(4) n(1) xs by (auto dest!: bspec)
  have off: "fst x \<noteq> b" if "x \<in> set R \<union> set F1 \<union> (A - {(b, n)})" for x
    using that tiles_fst [OF t(1), of b m "snd x"] t(4) by (cases x) auto
  have l: "linked h pre p" "linked h (map fst R) base" and s: "sorted_wrt (<) (pre @ [p])" "sorted_wrt (<) (map fst R)"
    using d(1,2) unfolding nodes by (simp_all add: linked_append sorted_wrt_append)
  have "linked g pre p" "linked g (map fst R) base"
    using linked_same [OF l(1), of g] linked_same [OF l(2), of g] assms(10) lo hi by (metis Un_iff nat_neq_iff set_append)+
  moreover have "sorted_wrt (<) (pre @ [p, b] @ map fst R)"
    using s lo hi by (fastforce simp: sorted_wrt_append)
  moreover have "\<forall>x \<in> set R \<union> set F1 \<union> (A - {(b, n)}). unat (size_of g (fst x)) = snd x"
    using off assms(10) d(7) xs by auto
  moreover have "(set R \<union> set F1) \<inter> (A - {(b, n)}) = {}"
    using d(6) xs by auto
  ultimately show ?thesis
    using t d(3,5,9,11) assms(6-10) n(2) by (simp add: half_ok_def Un_assoc)
qed

text \<open>\<^verbatim>\<open>free\<close> makes an allocated block free, alone or as a part of a free block.\<close>

lemma free_join_ok:
  assumes "heap_ok base h (F1 @ F2) A" "(b, n) \<in> A" "\<forall>x \<in> set F1. fst x + 8 * snd x \<le> b" "\<forall>x \<in> set F2. b + 8 * n \<le> fst x" "p = last (base # map fst F1)"
  shows "\<exists>F. heap_ok base (free_join b p h) F (A - {(b, n)}) \<and> brk (free_join b p h) = brk h \<and> (\<exists>x \<in> set F. n \<le> snd x)"
proof -
  note d = heap_okD [OF assms(1)]
  obtain m R where m: "join_right b n F2 = (m, R)"
    by fastforce
  define pre where "pre = butlast (base # map fst F1)"
  have pre: "base # map fst F1 = pre @ [p]"
    using assms(5) by (simp add: pre_def)
  have q: "ptr_of h p = hd (map fst F2 @ [base])"
  proof -
    have "linked h (base # map fst F1) (hd (map fst F2 @ [base]))"
      using d(1) linked_append [of h "base # map fst F1" "map fst F2" base] by simp
    then show ?thesis
      unfolding pre by (simp add: linked_append)
  qed
  obtain g where g: "(if b + 8 * unat (size_of h b) = ptr_of h p then set_ptr b (ptr_of h (ptr_of h p)) (set_size b (size_of h b + size_of h (ptr_of h p)) h) else set_ptr b (ptr_of h p) h) = g"
      "ptr_of g b = hd (map fst R @ [base])" "unat (size_of g b) = m" "brk g = brk h" "\<forall>a. a \<noteq> b \<longrightarrow> ptr_of g a = ptr_of h a \<and> size_of g a = size_of h a"
    using free_join_right [OF assms(1-4) m q] by blast
  have half: "half_ok base b m pre p F1 R g (A - {(b, n)})"
    by (rule free_join_half [OF assms(1-4) m pre g(2-5)])
  have le: "n \<le> m"
    by (rule free_join_tiles(2) [OF assms(1,2) m])
  show ?thesis
  proof (cases "p + 8 * unat (size_of g p) = b")
    case True
    then show ?thesis
      using half_join [OF half True] g(1,4) le unfolding free_join_def Let_def by (fastforce simp del: One_nat_def)
  next
    case False
    then show ?thesis
      using half_no_join [OF half] g(1,4) le unfolding free_join_def Let_def by fastforce
  qed
qed

lemma ufree_ok:
  assumes "heap_ok base h F A" "(b, n) \<in> A"
  obtains F' g where "ufree (b + 8) h = Some g" "heap_ok base g F' (A - {(b, n)})" "brk g = brk h" "\<exists>x \<in> set F'. n \<le> snd x" "keeps A h g"
proof -
  note d = heap_okD [OF assms(1)]
  obtain F1 F2 where F: "F = F1 @ F2" "\<forall>x \<in> set F1. fst x + 8 * snd x \<le> b" "\<forall>x \<in> set F2. b + 8 * n \<le> fst x"
    using free_split [OF assms] by blast
  define pre p where "pre = butlast (base # map fst F1)" and "p = last (base # map fst F1)"
  have nodes: "base # map fst F = pre @ p # map fst F2"
    unfolding F(1) pre_def p_def by (metis append.assoc append_Cons append_Nil append_butlast_last_id list.distinct(1) map_append)
  have n: "0 < n" "base < b"
    using d(10) [of b n] assms(2) by simp_all
  have "p < b"
    using F(2) d(10) n(2) unfolding p_def F(1) by (cases F1 rule: rev_cases) fastforce+
  moreover have "\<forall>y \<in> set (map fst F2). b < y"
    using F(3) n(1) by fastforce
  moreover have "base = hd (pre @ [p])"
    using nodes by (cases pre) auto
  ultimately have "free_place h b (freep h) = Some p"
    using free_place_eq [of h pre p "map fst F2" base b "freep h"] d(1,2,4) unfolding nodes by blast
  moreover obtain F' where "heap_ok base (free_join b p h) F' (A - {(b, n)})" "brk (free_join b p h) = brk h" "\<exists>x \<in> set F'. n \<le> snd x"
    using free_join_ok [OF assms(1) [unfolded F(1)] assms(2) F(2,3) p_def] by blast
  moreover have "keeps A h (free_join b p h)"
  proof (rule keepsI [OF assms(1)])
    fix x
    assume x: "x \<notin> insert base (fst ` (set F \<union> A))"
    have "p \<in> set (base # map fst F)"
      unfolding nodes by simp
    then have "x \<noteq> p" "x \<noteq> b"
      using x assms(2) by force+
    then show "hdr (free_join b p h) x = hdr h x"
      by (simp add: free_join_def Let_def)
  qed
  ultimately show ?thesis
    using that by (simp add: ufree_def)
qed

section \<open>malloc\<close>

text \<open>The ring seen from one of its nodes.\<close>

lemma linked_rotate: "linked h (xs @ x # ys) (hd (xs @ [x])) \<longleftrightarrow> linked h (x # ys @ xs) x"
  using linked_append [of h "x # ys" xs x] linked_append [of h xs "x # ys" "hd (xs @ [x])"] by (auto simp del: linked.simps)

lemma heap_ring:
  assumes "heap_ok base h F A" "x \<in> set (base # map fst F)"
  obtains zs where "linked h (x # zs) x" "set (x # zs) = set (base # map fst F)" "x \<notin> set zs"
proof -
  obtain xs ys where n: "base # map fst F = xs @ x # ys"
    using assms(2) by (meson split_list)
  then have "base = hd (xs @ [x])"
    by (cases xs) auto
  then have "linked h (x # ys @ xs) x"
    using heap_okD(1) [OF assms(1)] linked_rotate [of h xs x ys] unfolding n by simp
  moreover have "distinct (xs @ x # ys)"
    using heap_okD(2) [OF assms(1)] unfolding n by (simp add: strict_sorted_iff)
  then have "x \<notin> set (ys @ xs)"
    by simp
  ultimately show ?thesis
    using that [of "ys @ xs"] n by auto
qed

text \<open>The loop of \<^verbatim>\<open>malloc\<close> takes the first block that is large enough; \<open>z\<close> is \<^verbatim>\<open>freep\<close>, the last one to be tried.\<close>

lemma malloc_scan:
  assumes "linked h (v # zs) z" "z \<notin> set zs" "freep h = z" "\<exists>a \<in> set (zs @ [z]). nunits \<le> size_of h a"
  shows "\<exists>u p. malloc_loop avail nunits v (ptr_of h v) h = Some (malloc_take nunits u p h) \<and> u \<in> set (v # zs) \<and> ptr_of h u = p \<and> nunits \<le> size_of h p"
  using assms
proof (induction zs arbitrary: v)
  case Nil
  then show ?case
    by (subst malloc_loop.simps) auto
next
  case (Cons a zs)
  show ?case
  proof (cases "nunits \<le> size_of h a")
    case True
    then show ?thesis
      using Cons.prems(1) by (subst malloc_loop.simps) auto
  next
    case False
    then have "malloc_loop avail nunits v (ptr_of h v) h = malloc_loop avail nunits a (ptr_of h a) h"
      using Cons.prems by (subst malloc_loop.simps) auto
    then show ?thesis
      using Cons.IH [of a] Cons.prems False by auto
  qed
qed

lemma malloc_scan_none:
  assumes "linked h (v # zs) z" "z \<notin> set zs" "freep h = z" "\<forall>a \<in> set (zs @ [z]). \<not> nunits \<le> size_of h a"
  shows "malloc_loop avail nunits v (ptr_of h v) h =
    Option.bind (morecore avail nunits h) (\<lambda>(p, h). if p = 0 then Some (0, h) else malloc_loop avail nunits p (ptr_of h p) h)"
  using assms
proof (induction zs arbitrary: v)
  case Nil
  then show ?case
    by (subst malloc_loop.simps) auto
next
  case (Cons a zs)
  then have "malloc_loop avail nunits v (ptr_of h v) h = malloc_loop avail nunits a (ptr_of h a) h"
    by (subst malloc_loop.simps) auto
  then show ?case
    using Cons.IH [of a] Cons.prems by auto
qed

text \<open>The node before a free block.\<close>

lemma heap_pred:
  assumes "heap_ok base h F A" "u \<in> set (base # map fst F)" "ptr_of h u = p" "p \<noteq> base"
  obtains pre F1 k F2 where "F = F1 @ (p, k) # F2" "base # map fst F1 = pre @ [u]" "linked h pre u" "linked h (map fst F2) base" "ptr_of h p = hd (map fst F2 @ [base])"
    "u \<notin> set pre" "u \<notin> set (map fst F2)" "p \<notin> set pre" "u < p" "p \<notin> set (map fst F2)"
proof -
  note d = heap_okD [OF assms(1)]
  obtain pre post where n: "base # map fst F = pre @ u # post"
    using assms(2) by (meson split_list)
  have l: "linked h (pre @ u # post) base"
    using d(1) unfolding n .
  then obtain rest where post: "post = p # rest"
    using assms(3,4) by (cases post) (auto simp: linked_append)
  have s: "sorted_wrt (<) (pre @ u # p # rest)"
    using d(2) unfolding n post .
  define F1 F2 where "F1 = take (length pre) F" and "F2 = drop (Suc (length pre)) F"
  have len: "length pre < length F"
    using arg_cong [OF n, of length] post by simp
  have F: "F = F1 @ F ! length pre # F2"
    unfolding F1_def F2_def using len by (rule id_take_nth_drop)
  then have "base # map fst F1 @ fst (F ! length pre) # map fst F2 = (pre @ [u]) @ p # rest" "length (base # map fst F1) = length (pre @ [u])"
    using n post len by (metis append.assoc append_Cons append_Nil list.simps(9) map_append, simp add: F1_def)
  then have e: "base # map fst F1 = pre @ [u]" "fst (F ! length pre) = p" "map fst F2 = rest"
    by (metis append_Cons append_eq_append_conv list.inject)+
  show ?thesis
    using that [of F1 "snd (F ! length pre)" F2 pre] F e l s unfolding post
    by (cases "F ! length pre") (auto simp: linked_append sorted_wrt_append)
qed

lemma malloc_take_whole:
  assumes "heap_ok base h F A" "u \<in> set (base # map fst F)" "ptr_of h u = p" "p \<noteq> base"
  shows "\<exists>F'. heap_ok base ((set_ptr u (ptr_of h p) h)\<lparr>freep := u\<rparr>) F' (insert (p, unat (size_of h p)) A) \<and> (p, unat (size_of h p)) \<notin> A"
proof -
  note d = heap_okD [OF assms(1)]
  obtain pre F1 k F2 where F: "F = F1 @ (p, k) # F2" "base # map fst F1 = pre @ [u]" and l: "linked h pre u" "linked h (map fst F2) base" "ptr_of h p = hd (map fst F2 @ [base])"
    and n: "u \<notin> set pre" "u \<notin> set (map fst F2)"
    using heap_pred [OF assms] by metis
  have k: "unat (size_of h p) = k"
    using d(7) [of p k] F(1) by simp
  have nodes: "base # map fst (F1 @ F2) = pre @ [u] @ map fst F2" "base # map fst F = pre @ [u] @ p # map fst F2"
    using arg_cong [OF F(2), of "\<lambda>xs. xs @ map fst F2"] arg_cong [OF F(2), of "\<lambda>xs. xs @ p # map fst F2"] F(1) by simp_all
  have s: "sorted_wrt (<) (pre @ [u] @ map fst F2)"
    using d(2) unfolding nodes(2) by (simp add: sorted_wrt_append)
  have "set F \<union> A = set (F1 @ F2) \<union> insert (p, k) A"
    using F(1) by auto
  moreover have "distinct F"
    using d(2) by (simp add: strict_sorted_iff distinct_map)
  then have "(p, k) \<notin> A" "set (F1 @ F2) \<inter> insert (p, k) A = {}"
    using d(6) F(1) by auto
  ultimately have "heap_ok base ((set_ptr u (ptr_of h p) h)\<lparr>freep := u\<rparr>) (F1 @ F2) (insert (p, k) A)"
    unfolding heap_ok_def nodes(1) using d(3,5,9,11) d(7,8) l n s by (simp add: linked_append)
  then show ?thesis
    using k \<open>(p, k) \<notin> A\<close> by blast
qed

lemma malloc_take_part:
  assumes "heap_ok base h F A" "u \<in> set (base # map fst F)" "ptr_of h u = p" "p \<noteq> base" "0 < nu" "nu < size_of h p"
    and "a = p + 8 * unat (size_of h p - nu)"
  shows "\<exists>F'. heap_ok base ((set_size a nu (set_size p (size_of h p - nu) h))\<lparr>freep := u\<rparr>) F' (insert (a, unat nu) A) \<and> (a, unat nu) \<notin> A"
proof -
  note d = heap_okD [OF assms(1)]
  obtain pre F1 k F2 where F: "F = F1 @ (p, k) # F2"
    using heap_pred [OF assms(1-4)] by metis
  have k: "unat (size_of h p) = k"
    using d(7) [of p k] F by simp
  define j where "j = unat nu"
  have j: "0 < j" "j < k" "unat (size_of h p - nu) = k - j" "a = p + 8 * (k - j)"
    using assms(5-7) k by (simp_all add: j_def word_less_nat_alt unat_sub word_le_nat_alt)
  let ?S = "set (F1 @ F2) \<union> A"
  have "distinct (map fst F)"
    using d(2) by (simp add: strict_sorted_iff)
  then have p: "p \<notin> fst ` set (F1 @ F2)" "(p, k) \<notin> A"
    using F d(6) by auto
  have i: "set F \<union> A = insert (p, k) ?S"
    using F by auto
  have off: "x \<notin> fst ` (set F \<union> A)" "base < x" if "p < x" "x < p + 8 * k" for x
    using inside_no_header [OF d(8), of p k x] that F by auto
  have pA: "p \<notin> fst ` A"
    using tiles_fst [OF d(8), of p k] p(2) F by force
  have a: "a \<notin> fst ` (set F \<union> A)" "a \<noteq> p" "a \<noteq> base"
    using off [of a] j by auto
  have "tiles (base + 8) (brk h) (insert (p, k - j + j) ?S)"
    using d(8) i j by simp
  moreover have "p \<notin> fst ` ?S" "a \<notin> fst ` ?S"
    using p(1) pA a(1) F by auto
  then have "(p, k - j) \<notin> ?S" "(p, k - j + j) \<notin> ?S" "(p + 8 * (k - j), j) \<notin> ?S"
    using j(4) by force+
  ultimately have "tiles (base + 8) (brk h) (insert (p, k - j) (insert (p + 8 * (k - j), j) ?S))"
    using tiles_join [of p "k - j" ?S j "base + 8" "brk h"] j by simp
  then have t: "tiles (base + 8) (brk h) (set (F1 @ (p, k - j) # F2) \<union> insert (a, j) A)"
    using j(4) by (simp add: insert_commute)
  have "heap_ok base ((set_size a nu (set_size p (size_of h p - nu) h))\<lparr>freep := u\<rparr>) (F1 @ (p, k - j) # F2) (insert (a, j) A)"
    unfolding heap_ok_def
  proof (intro conjI)
    have "unat (size_of h (fst x)) = snd x \<and> fst x \<noteq> p \<and> fst x \<noteq> a" if "x \<in> set (F1 @ F2) \<union> A" for x
      using that d(7) [of "fst x" "snd x"] p(1) pA a(1) F by auto
    then show "\<forall>x \<in> set (F1 @ (p, k - j) # F2) \<union> insert (a, j) A. unat (size_of ((set_size a nu (set_size p (size_of h p - nu) h))\<lparr>freep := u\<rparr>) (fst x)) = snd x"
      using a(2) j(3) by (auto simp: j_def)
    have "(p, k - j) \<notin> A" "(a, j) \<notin> set F" "(a, j) \<noteq> (p, k - j)"
      using pA a by force+
    then show "set (F1 @ (p, k - j) # F2) \<inter> insert (a, j) A = {}"
      using d(6) F by auto
  qed (use assms(2,4) a d(1-3,5,9,11) t F in auto)
  moreover have "(a, j) \<notin> A"
    using a(1) by force
  ultimately show ?thesis
    unfolding j_def by blast
qed

lemma keeps_new:
  assumes "heap_ok base h F A" "heap_ok base g F' A'" "A \<subseteq> A'" "\<And>x. x \<notin> insert base (fst ` (set F \<union> A) \<union> fst ` A') \<Longrightarrow> hdr g x = hdr h x"
  shows "keeps A h g"
proof -
  have "hdr g x = hdr h x" if "(b, n) \<in> A" "b < x" "x < b + 8 * n" for b n x
  proof (rule assms(4))
    have "x \<notin> fst ` (set F \<union> A)" "base < x" "x \<notin> fst ` (set F' \<union> A')"
      using inside_no_header [OF heap_okD(8) [OF assms(1)], of b n x] inside_no_header [OF heap_okD(8) [OF assms(2)], of b n x] that assms(3) by auto
    then show "x \<notin> insert base (fst ` (set F \<union> A) \<union> fst ` A')"
      by auto
  qed
  then show ?thesis
    by (auto simp: keeps_def)
qed

lemma malloc_take_ok:
  assumes "heap_ok base h F A" "u \<in> set (base # map fst F)" "ptr_of h u = p" "0 < nu" "nu \<le> size_of h p"
  shows "\<exists>b g F'. malloc_take nu u p h = (b + 8, g) \<and> (b, unat nu) \<notin> A \<and> heap_ok base g F' (insert (b, unat nu) A) \<and> keeps A h g"
proof -
  have p: "p \<noteq> base"
    using heap_okD(3) [OF assms(1)] assms(4,5) by auto
  have "p \<in> fst ` set F"
    using heap_pred [OF assms(1-3) p] by force
  show ?thesis
  proof (cases "size_of h p = nu")
    case True
    obtain F' where F': "heap_ok base ((set_ptr u (ptr_of h p) h)\<lparr>freep := u\<rparr>) F' (insert (p, unat nu) A)" "(p, unat nu) \<notin> A"
      using malloc_take_whole [OF assms(1-3) p] True by auto
    have "x \<noteq> u" if "x \<notin> insert base (fst ` (set F \<union> A))" for x
      using assms(2) that by force
    then have "keeps A h ((set_ptr u (ptr_of h p) h)\<lparr>freep := u\<rparr>)"
      by (intro keeps_new [OF assms(1) F'(1)]) auto
    then show ?thesis
      using F' True by (auto simp: malloc_take_def)
  next
    case False
    define a where "a = p + 8 * unat (size_of h p - nu)"
    define g where "g = (set_size a nu (set_size p (size_of h p - nu) h))\<lparr>freep := u\<rparr>"
    obtain F' where F': "heap_ok base g F' (insert (a, unat nu) A)" "(a, unat nu) \<notin> A"
      using malloc_take_part [OF assms(1-3) p assms(4) _ a_def] assms(5) False unfolding g_def by fastforce
    have "x \<noteq> p" if "x \<notin> insert base (fst ` (set F \<union> A))" for x
      using \<open>p \<in> fst ` set F\<close> that by force
    then have "keeps A h g"
      unfolding g_def by (intro keeps_new [OF assms(1) F'(1) [unfolded g_def]]) auto
    moreover have "malloc_take nu u p h = (a + 8, g)"
      using False by (simp add: malloc_take_def Let_def g_def a_def)
    ultimately show ?thesis
      using F' by blast
  qed
qed

section \<open>morecore\<close>

lemma grow_ok:
  assumes "heap_ok base h F A" "0 < unat nu" "brk h + 8 * unat nu \<le> 2 ^ 31" "g = set_size (brk h) nu (h\<lparr>brk := brk h + 8 * unat nu\<rparr>)"
  shows "heap_ok base g F (insert (brk h, unat nu) A)" "(brk h, unat nu) \<notin> A" "keeps A h g"
proof -
  note d = heap_okD [OF assms(1)]
  have lt: "fst x < brk h" if "x \<in> set F \<union> A" for x
    using d(10) [of "fst x" "snd x"] that by simp
  then have n: "(brk h, unat nu) \<notin> set F \<union> A"
    by force
  then show "(brk h, unat nu) \<notin> A"
    by simp
  have "tiles (base + 8) (brk h + 8 * unat nu) (set F \<union> A)"
    by (rule tiles_mono [OF d(8)]) simp
  moreover have "\<forall>y \<in> set F \<union> A. clear_of (brk h, unat nu) y"
    using tilesD [OF d(8)] by (auto simp: clear_of_def)
  ultimately have "tiles (base + 8) (brk h + 8 * unat nu) (insert (brk h, unat nu) (set F \<union> A))"
    using n d(11) assms(2) by (simp add: tiles_insert)
  moreover have "\<forall>x \<in> set F \<union> A. unat (size_of h (fst x)) = snd x \<and> fst x \<noteq> brk h"
    using d(7) lt by fastforce
  ultimately show "heap_ok base g F (insert (brk h, unat nu) A)"
    using d(1-6,11) n assms(3,4) by (simp add: heap_ok_def)
  show "keeps A h g"
    by (rule keepsI [OF assms(1)]) (simp add: assms(4))
qed

lemma sint_units:
  assumes "unat (m :: uint32) < 2 ^ 28"
  shows "sint (m * 8) = int (8 * unat m)"
proof -
  have "unat (m * 8) = 8 * unat m"
    using assms by (simp add: unat_word_ariths)
  then have "uint (m * 8) = int (8 * unat m)"
    by (metis uint_nat)
  moreover have "signed_take_bit 31 (int (8 * n)) = int (8 * n)" if "n < 2 ^ 28" for n
    using that by (intro signed_take_bit_int_eq_self) simp_all
  ultimately show ?thesis
    using assms by (simp add: sint_uint del: of_nat_unat)
qed

text \<open>The kernel gives the memory that \<^verbatim>\<open>morecore\<close> asks for.\<close>

definition can_grow :: "(nat \<Rightarrow> bool) \<Rightarrow> uint32 \<Rightarrow> heap \<Rightarrow> bool" where
  "can_grow avail nu h = (let newsz = brk h + 8 * max 4096 (unat nu) in newsz < 2 ^ 31 \<and> avail newsz)"

lemma grow_arith: "b \<le> 2 ^ 31 \<Longrightarrow> n < 2 ^ 28 \<Longrightarrow> nat ((int b + int (8 * n)) mod 2 ^ 32) = b + 8 * n"
  by (subst mod_pos_pos_trivial) simp_all

lemma morecore_ok:
  assumes "heap_ok base h F A" "0 < nu" "unat nu < 2 ^ 28"
  shows "morecore avail nu h = Some (0, h) \<and> \<not> can_grow avail nu h \<or>
    (\<exists>g F'. morecore avail nu h = Some (freep g, g) \<and> heap_ok base g F' A \<and> (\<exists>x \<in> set F'. unat nu \<le> snd x) \<and> keeps A h g)"
proof -
  define m where "m = (if nu < 4096 then 4096 else nu)"
  have m: "unat nu \<le> unat m" "0 < unat m" "unat m < 2 ^ 28"
    using assms(2,3) by (auto simp: m_def word_less_nat_alt word_le_nat_alt split: if_splits)
  have g: "can_grow avail nu h \<longleftrightarrow> brk h + 8 * unat m < 2 ^ 31 \<and> avail (brk h + 8 * unat m)"
    using assms(2,3) by (auto simp: can_grow_def Let_def m_def max_def word_less_nat_alt word_le_nat_alt)
  have s: "sint (m * 8) = int (8 * unat m)"
    by (rule sint_units [OF m(3)])
  have b: "brk h \<le> 2 ^ 31"
    by (rule heap_okD(9) [OF assms(1)])
  define g where "g = set_size (brk h) m (h\<lparr>brk := brk h + 8 * unat m\<rparr>)"
  have z: "nat ((int (brk h) + int (8 * unat m)) mod 2 ^ 32) = brk h + 8 * unat m" "0 < int (8 * unat m)"
    using grow_arith [OF b m(3)] m(2) by linarith+
  show ?thesis
  proof (cases "brk h + 8 * unat m < 2 ^ 31 \<and> avail (brk h + 8 * unat m)")
    case True
    then have i: "heap_ok base g F (insert (brk h, unat m) A)" "(brk h, unat m) \<notin> A" "keeps A h g"
      using grow_ok [OF assms(1) m(2) _ g_def] by auto
    obtain F' k where k: "ufree (brk h + 8) g = Some k" "heap_ok base k F' (insert (brk h, unat m) A - {(brk h, unat m)})" "\<exists>x \<in> set F'. unat m \<le> snd x" "keeps (insert (brk h, unat m) A) g k"
      using ufree_ok [OF i(1), of "brk h" "unat m"] by (metis insertI1)
    have "morecore avail nu h = Some (freep k, k)"
      using True k(1) m(2) unfolding morecore_def m_def [symmetric] Let_def sbrk_def s z(1) using z(2) by (simp add: g_def del: of_nat_unat)
    then show ?thesis
      using k i(2) keeps_trans [OF i(3) keeps_subset [OF k(4)]] m(1) by fastforce
  next
    case False
    then have "morecore avail nu h = Some (0, h)"
      using m(2) unfolding morecore_def m_def [symmetric] Let_def sbrk_def s z(1) using z(2) by (auto simp del: of_nat_unat)
    then show ?thesis
      using g False by blast
  qed
qed

lemma malloc_found:
  assumes "heap_ok base h F A" "0 < nu" "\<exists>x \<in> set F. unat nu \<le> snd x"
  shows "\<exists>b g F'. malloc_loop avail nu (freep h) (ptr_of h (freep h)) h = Some (b + 8, g) \<and> (b, unat nu) \<notin> A \<and> heap_ok base g F' (insert (b, unat nu) A) \<and> keeps A h g"
proof -
  note d = heap_okD [OF assms(1)]
  obtain zs where zs: "linked h (freep h # zs) (freep h)" "set (freep h # zs) = set (base # map fst F)" "freep h \<notin> set zs"
    using heap_ring [OF assms(1) d(4)] by blast
  obtain a n where a: "(a, n) \<in> set F" "unat nu \<le> n"
    using assms(3) by auto
  then have "nu \<le> size_of h a" "a \<in> set (base # map fst F)"
    using d(7) [of a n] by (force simp: word_le_nat_alt)+
  then have "\<exists>a \<in> set (zs @ [freep h]). nu \<le> size_of h a"
    using zs(2) by auto
  then obtain u p where u: "malloc_loop avail nu (freep h) (ptr_of h (freep h)) h = Some (malloc_take nu u p h)" "u \<in> set (base # map fst F)" "ptr_of h u = p" "nu \<le> size_of h p"
    using malloc_scan [OF zs(1,3) refl] zs(2) by metis
  then show ?thesis
    using malloc_take_ok [OF assms(1) u(2,3) assms(2) u(4)] by metis
qed

lemma malloc_loop_ok:
  assumes "heap_ok base h F A" "0 < nu" "unat nu < 2 ^ 28"
  shows "\<exists>r g F'. malloc_loop avail nu (freep h) (ptr_of h (freep h)) h = Some (r, g) \<and> keeps A h g \<and>
    (r = 0 \<and> heap_ok base g F' A \<and> \<not> can_grow avail nu h \<or> (\<exists>b. r = b + 8 \<and> (b, unat nu) \<notin> A \<and> heap_ok base g F' (insert (b, unat nu) A)))"
proof (cases "\<exists>x \<in> set F. unat nu \<le> snd x")
  case True
  then show ?thesis
    using malloc_found [OF assms(1,2) True] by metis
next
  case False
  note d = heap_okD [OF assms(1)]
  obtain zs where zs: "linked h (freep h # zs) (freep h)" "set (freep h # zs) = set (base # map fst F)" "freep h \<notin> set zs"
    using heap_ring [OF assms(1) d(4)] by blast
  have "\<not> nu \<le> size_of h (fst x)" if "x \<in> set F" for x
    using that False d(7) [of "fst x" "snd x"] by (auto simp: word_le_nat_alt)
  then have "\<not> nu \<le> size_of h a" if "a \<in> set (base # map fst F)" for a
    using that d(3) assms(2) by auto
  then have "\<forall>a \<in> set (zs @ [freep h]). \<not> nu \<le> size_of h a"
    using zs(2) by auto
  then have e: "malloc_loop avail nu (freep h) (ptr_of h (freep h)) h =
      Option.bind (morecore avail nu h) (\<lambda>(p, h). if p = 0 then Some (0, h) else malloc_loop avail nu p (ptr_of h p) h)"
    using malloc_scan_none [OF zs(1,3) refl] by blast
  from morecore_ok [OF assms] consider "morecore avail nu h = Some (0, h)" "\<not> can_grow avail nu h"
    | g F' where "morecore avail nu h = Some (freep g, g)" "heap_ok base g F' A" "\<exists>x \<in> set F'. unat nu \<le> snd x" "keeps A h g"
    by blast
  then show ?thesis
  proof cases
    case 1
    then show ?thesis
      using e assms(1) by (auto simp: keeps_def)
  next
    case 2
    have "freep g \<noteq> 0"
      using heap_okD(2,4,5) [OF 2(2)] by auto
    then show ?thesis
      using e 2(1) malloc_found [OF 2(2) assms(2) 2(3)] keeps_trans [OF 2(4)] by fastforce
  qed
qed

lemma malloc_units_value:
  assumes "unat nbytes \<le> 2 ^ 31 - 16"
  shows "unat (malloc_units nbytes) = (unat nbytes + 7) div 8 + 1" "unat (malloc_units nbytes) < 2 ^ 28" "0 < malloc_units nbytes"
proof -
  have "unat (7 + nbytes) = unat nbytes + 7"
    using assms by (subst unat_add_lt) simp_all
  then have "unat ((7 + nbytes) div 8) = (unat nbytes + 7) div 8"
    by (simp add: unat_div)
  then show v: "unat (malloc_units nbytes) = (unat nbytes + 7) div 8 + 1"
    using assms unfolding malloc_units_def by (subst unat_add_lt) simp_all
  then show "unat (malloc_units nbytes) < 2 ^ 28" "0 < malloc_units nbytes"
    using assms by (auto simp: word_less_nat_alt)
qed

section \<open>Programs that use the allocator\<close>

text \<open>
  The reachable states of a program with the areas it has got and not yet freed, as a map from their addresses to their sizes.  It may write into them whatever it likes; a byte at \<open>x\<close> is a part of the
  headers at the addresses from \<open>x - 7\<close> to \<open>x\<close>.  It may also ask the kernel for memory itself.
\<close>

inductive uheap :: "nat \<Rightarrow> heap \<Rightarrow> (nat \<rightharpoonup> nat) \<Rightarrow> bool" for base where
  uheap_init: "0 < base \<Longrightarrow> base + 8 \<le> brk h \<Longrightarrow> brk h \<le> 2 ^ 31 \<Longrightarrow> freep h = 0 \<Longrightarrow> uheap base h (\<lambda>_. None)"
| uheap_malloc: "uheap base h live \<Longrightarrow> unat nbytes \<le> 2 ^ 31 - 16 \<Longrightarrow> malloc avail base nbytes h = Some (a, g) \<Longrightarrow>
    uheap base g (if a = 0 then live else live(a \<mapsto> unat nbytes))"
| uheap_free: "uheap base h live \<Longrightarrow> live a \<noteq> None \<Longrightarrow> ufree a h = Some g \<Longrightarrow> uheap base g (live(a := None))"
| uheap_write: "uheap base h live \<Longrightarrow> live a = Some n \<Longrightarrow> a \<le> x \<Longrightarrow> x < a + n \<Longrightarrow> \<forall>y. x < y \<or> y + 8 \<le> x \<longrightarrow> f y = hdr h y \<Longrightarrow> uheap base (h\<lparr>hdr := f\<rparr>) live"
| uheap_sbrk: "uheap base h live \<Longrightarrow> brk h \<le> k \<Longrightarrow> k \<le> 2 ^ 31 \<Longrightarrow> uheap base (h\<lparr>brk := k\<rparr>) live"

definition blocks :: "(nat \<times> nat) set \<Rightarrow> (nat \<rightharpoonup> nat) \<Rightarrow> bool" where
  "blocks A live = ((\<forall>a n. live a = Some n \<longrightarrow> (\<exists>b k. a = b + 8 \<and> (b, k) \<in> A \<and> n + 8 \<le> 8 * k)) \<and> (\<forall>(b, k) \<in> A. live (b + 8) \<noteq> None))"

lemma blocksD:
  assumes "blocks A live"
  shows "live a = Some n \<Longrightarrow> \<exists>b k. a = b + 8 \<and> (b, k) \<in> A \<and> n + 8 \<le> 8 * k" "(b, k) \<in> A \<Longrightarrow> live (b + 8) \<noteq> None" "live (b + 8) \<noteq> None \<Longrightarrow> \<exists>k. (b, k) \<in> A"
  using assms unfolding blocks_def by fastforce+

definition fresh_heap :: "nat \<Rightarrow> heap \<Rightarrow> bool" where
  "fresh_heap base h = (0 < base \<and> base + 8 \<le> brk h \<and> brk h \<le> 2 ^ 31 \<and> freep h = 0)"

lemma fresh_ok:
  assumes "fresh_heap base h"
  shows "heap_ok base ((set_size base 0 (set_ptr base base h))\<lparr>freep := base\<rparr>) [] {}"
  using assms by (simp add: heap_ok_def fresh_heap_def tiles_def)

lemma malloc_ok:
  assumes "fresh_heap base h \<and> A = {} \<or> heap_ok base h F A" "unat nbytes \<le> 2 ^ 31 - 16"
  shows "\<exists>r g F'. malloc avail base nbytes h = Some (r, g) \<and> keeps A h g \<and>
    (r = 0 \<and> heap_ok base g F' A \<and> \<not> can_grow avail (malloc_units nbytes) h \<or>
     (\<exists>b k. r = b + 8 \<and> (b, k) \<notin> A \<and> unat nbytes + 8 \<le> 8 * k \<and> heap_ok base g F' (insert (b, k) A)))"
proof -
  note u = malloc_units_value [OF assms(2)]
  have k: "unat nbytes + 8 \<le> 8 * unat (malloc_units nbytes)"
    unfolding u(1) by simp
  define h' where "h' = (if freep h = 0 then (set_size base 0 (set_ptr base base h))\<lparr>freep := base\<rparr> else h)"
  obtain F' where h': "heap_ok base h' F' A" "brk h' = brk h" "keeps A h h'"
  proof (cases "fresh_heap base h \<and> A = {}")
    case True
    then show ?thesis
      using that [of "[]"] fresh_ok [of base h] by (simp add: h'_def fresh_heap_def keeps_def)
  next
    case False
    then have "heap_ok base h F A"
      using assms(1) by blast
    moreover from this have "freep h \<noteq> 0"
      using heap_okD(2,4,5) [of base h F A] by auto
    ultimately show ?thesis
      using that [of F] by (simp add: h'_def keeps_def)
  qed
  have "can_grow avail nu h' = can_grow avail nu h" for nu
    using h'(2) by (simp add: can_grow_def)
  then show ?thesis
    using malloc_loop_ok [OF h'(1) u(3,2), of avail] keeps_trans [OF h'(3)] k unfolding malloc_def h'_def [symmetric] Let_def by metis
qed

lemma heap_ok_hdr:
  assumes "heap_ok base h F A" "\<forall>y \<in> insert base (fst ` (set F \<union> A)). hdr g y = hdr h y" "freep g = freep h" "brk h \<le> brk g" "brk g \<le> 2 ^ 31"
  shows "heap_ok base g F A"
proof -
  note d = heap_okD [OF assms(1)]
  have same: "ptr_of g y = ptr_of h y" "size_of g y = size_of h y" if "y \<in> insert base (fst ` (set F \<union> A))" for y
    using bspec [OF assms(2) that] by (simp_all add: ptr_of_def size_of_def)
  have "linked g (base # map fst F) base"
    by (rule linked_same [OF d(1)]) (use same(1) in auto)
  moreover have "\<forall>x \<in> set F \<union> A. unat (size_of g (fst x)) = snd x"
    using same(2) d(7) by auto
  ultimately show ?thesis
    using d(2-6,11) same(2) [of base] assms(3-5) tiles_mono [OF d(8) assms(4)] by (simp add: heap_ok_def del: linked.simps)
qed

lemma heap_ok_write:
  assumes "heap_ok base h F A" "(b, k) \<in> A" "b + 8 \<le> x" "x < b + 8 * k" "\<forall>y. x < y \<or> y + 8 \<le> x \<longrightarrow> f y = hdr h y"
  shows "heap_ok base (h\<lparr>hdr := f\<rparr>) F A"
proof (rule heap_ok_hdr [OF assms(1)])
  note d = heap_okD [OF assms(1)]
  have "x < fst z \<or> fst z + 8 \<le> x" if "z \<in> set F \<union> A" for z
    using that tiles_clear [OF d(8) _ that, of "(b, k)"] tilesD [OF d(8) that] assms(2-4) by (cases "z = (b, k)") (auto simp: clear_of_def)
  moreover have "base + 8 \<le> x"
    using d(10) [of b k] assms(2,3) by simp
  ultimately show "\<forall>y \<in> insert base (fst ` (set F \<union> A)). hdr (h\<lparr>hdr := f\<rparr>) y = hdr h y"
    using assms(5) by auto
qed (use heap_okD(9) [OF assms(1)] in simp_all)

lemma blocks_insert: "blocks A live \<Longrightarrow> n + 8 \<le> 8 * k \<Longrightarrow> blocks (insert (b, k) A) (live(b + 8 \<mapsto> n))"
  by (fastforce simp: blocks_def)

lemma blocks_remove:
  assumes "blocks A live" "\<And>m. (b, m) \<in> A \<Longrightarrow> m = k"
  shows "blocks (A - {(b, k)}) (live(b + 8 := None))"
  unfolding blocks_def
proof (intro conjI allI impI)
  fix a n
  assume "(live(b + 8 := None)) a = Some n"
  then have "live a = Some n" "a \<noteq> b + 8"
    by (auto split: if_splits)
  moreover from this obtain c j where "a = c + 8" "(c, j) \<in> A" "n + 8 \<le> 8 * j"
    using assms(1) unfolding blocks_def by blast
  ultimately show "\<exists>c j. a = c + 8 \<and> (c, j) \<in> A - {(b, k)} \<and> n + 8 \<le> 8 * j"
    by auto
next
  have "c \<noteq> b \<and> live (c + 8) \<noteq> None" if "(c, j) \<in> A - {(b, k)}" for c j
    using assms that unfolding blocks_def by blast
  then have "(live(b + 8 := None)) (c + 8) \<noteq> None" if "(c, j) \<in> A - {(b, k)}" for c j
    using that by (metis add_right_cancel fun_upd_other)
  then show "\<forall>(c, j) \<in> A - {(b, k)}. (live(b + 8 := None)) (c + 8) \<noteq> None"
    by blast
qed

text \<open>The areas of the program are the allocated blocks without their headers.\<close>

lemma uheap_blocks: "uheap base h live \<Longrightarrow> \<exists>F A. blocks A live \<and> (fresh_heap base h \<and> A = {} \<or> heap_ok base h F A)"
proof (induction rule: uheap.induct)
  case (uheap_init h)
  then show ?case
    by (auto simp: blocks_def fresh_heap_def)
next
  case (uheap_malloc h live nbytes avail a g)
  then obtain F A where A: "blocks A live" "fresh_heap base h \<and> A = {} \<or> heap_ok base h F A"
    by blast
  from malloc_ok [OF A(2) uheap_malloc(2), of avail] uheap_malloc(3) obtain F' where
      "a = 0 \<and> heap_ok base g F' A \<or> (\<exists>b k. a = b + 8 \<and> unat nbytes + 8 \<le> 8 * k \<and> heap_ok base g F' (insert (b, k) A))"
    by auto
  then show ?case
  proof
    assume "\<exists>b k. a = b + 8 \<and> unat nbytes + 8 \<le> 8 * k \<and> heap_ok base g F' (insert (b, k) A)"
    then obtain b k where "a = b + 8" "unat nbytes + 8 \<le> 8 * k" "heap_ok base g F' (insert (b, k) A)"
      by blast
    then show ?thesis
      using blocks_insert [OF A(1), of "unat nbytes" k b] by (intro exI [of _ F'] exI [of _ "insert (b, k) A"]) (simp add: fun_upd_def)
  qed (use A(1) in auto)
next
  case (uheap_free h live a g)
  then obtain F A n where A: "blocks A live" "fresh_heap base h \<and> A = {} \<or> heap_ok base h F A" "live a = Some n"
    by blast
  then obtain b k where b: "a = b + 8" "(b, k) \<in> A"
    unfolding blocks_def by blast
  then have h: "heap_ok base h F A"
    using A(2) by auto
  then obtain F' where "heap_ok base g F' (A - {(b, k)})"
    using ufree_ok [OF h b(2)] uheap_free(3) b(1) by auto
  moreover have "m = k" if "(b, m) \<in> A" for m
    using tiles_fst [OF heap_okD(8) [OF h], of b m k] that b(2) by simp
  ultimately show ?case
    using blocks_remove [OF A(1), of b k] b(1) by blast
next
  case (uheap_write h live a n x f)
  then obtain F A where A: "blocks A live" "fresh_heap base h \<and> A = {} \<or> heap_ok base h F A"
    by blast
  then obtain b k where b: "a = b + 8" "(b, k) \<in> A" "n + 8 \<le> 8 * k"
    using uheap_write(2) unfolding blocks_def by blast
  then have "heap_ok base (h\<lparr>hdr := f\<rparr>) F A"
    using heap_ok_write [of base h F A b k x f] A(2) uheap_write(3-5) by auto
  then show ?case
    using A(1) by blast
next
  case (uheap_sbrk h live k)
  then obtain F A where A: "blocks A live" "fresh_heap base h \<and> A = {} \<or> heap_ok base h F A"
    by blast
  then have "fresh_heap base (h\<lparr>brk := k\<rparr>) \<and> A = {} \<or> heap_ok base (h\<lparr>brk := k\<rparr>) F A"
    using heap_ok_hdr [of base h F A "h\<lparr>brk := k\<rparr>"] uheap_sbrk(2,3) by (auto simp: fresh_heap_def)
  then show ?case
    using A(1) by blast
qed

lemma blocks_areas:
  assumes "blocks A live" "heap_ok base h F A" "live a = Some n"
  obtains b k where "a = b + 8" "(b, k) \<in> A" "n + 8 \<le> 8 * k" "base + 8 \<le> b" "a + n \<le> brk h"
    "\<And>c m. live c = Some m \<Longrightarrow> c \<noteq> a \<Longrightarrow> a + n \<le> c \<or> c + m \<le> a"
proof -
  obtain b k where b: "a = b + 8" "(b, k) \<in> A" "n + 8 \<le> 8 * k"
    using assms(1,3) unfolding blocks_def by blast
  moreover have "a + n \<le> c \<or> c + m \<le> a" if c: "live c = Some m" "c \<noteq> a" for c m
  proof -
    obtain b' k' where b': "c = b' + 8" "(b', k') \<in> A" "m + 8 \<le> 8 * k'"
      using blocksD(1) [OF assms(1) c(1)] by blast
    then have "clear_of (b, k) (b', k')"
      using tiles_clear [OF heap_okD(8) [OF assms(2)], of "(b, k)" "(b', k')"] b c(2) by auto
    then show ?thesis
      using b b' by (auto simp: clear_of_def)
  qed
  ultimately show ?thesis
    using that [of b k] heap_okD(10) [OF assms(2), of b k] by simp
qed

definition same_areas :: "(nat \<rightharpoonup> nat) \<Rightarrow> heap \<Rightarrow> heap \<Rightarrow> bool" where
  "same_areas live h g = (\<forall>a n x. live a = Some n \<and> a \<le> x \<and> x + 8 \<le> a + n \<longrightarrow> hdr g x = hdr h x)"

lemma keeps_same_areas: "blocks A live \<Longrightarrow> keeps A h g \<Longrightarrow> same_areas live h g"
  unfolding blocks_def keeps_def same_areas_def by fastforce

lemma same_areas_less: "same_areas live h g \<Longrightarrow> same_areas (live(a := None)) h g"
  by (auto simp: same_areas_def split: if_splits)

lemma malloc_areas:
  assumes "blocks A live" "fresh_heap base h \<and> A = {} \<or> heap_ok base h F A" "unat nbytes \<le> 2 ^ 31 - 16"
  shows "\<exists>a g. malloc avail base nbytes h = Some (a, g) \<and> same_areas live h g \<and> (if a = 0 then \<not> can_grow avail (malloc_units nbytes) h else live a = None)"
proof -
  obtain r g F' where r: "malloc avail base nbytes h = Some (r, g)" "keeps A h g" "r = 0 \<and> \<not> can_grow avail (malloc_units nbytes) h \<or>
      (\<exists>b k. r = b + 8 \<and> (b, k) \<notin> A \<and> heap_ok base g F' (insert (b, k) A))"
    using malloc_ok [OF assms(2,3), of avail] by blast
  have "live (b + 8) = None" if b: "(b, k) \<notin> A" "heap_ok base g F' (insert (b, k) A)" for b k
  proof (rule ccontr)
    assume "live (b + 8) \<noteq> None"
    then obtain j where j: "(b, j) \<in> A"
      using blocksD(3) [OF assms(1)] by blast
    then have "j = k"
      using tiles_fst [OF heap_okD(8) [OF b(2)], of b j k] by simp
    then show False
      using j b(1) by simp
  qed
  then show ?thesis
    using r keeps_same_areas [OF assms(1) r(2)] by auto
qed

text \<open>
  C13: in every state that a program reaches with requests below two gigabytes, the areas it holds lie in its memory and do not overlap; \<^verbatim>\<open>malloc\<close> returns an area it
  does not hold, or the null pointer, and that only if the kernel refuses more memory; \<^verbatim>\<open>free\<close> returns on every area; and neither changes what is in the other areas.
\<close>

theorem malloc_free_safe:
  assumes "uheap base h live"
  shows "(\<forall>a n. live a = Some n \<longrightarrow> base + 8 < a \<and> a + n \<le> brk h) \<and>
    (\<forall>a n b m. live a = Some n \<and> live b = Some m \<and> a \<noteq> b \<longrightarrow> a + n \<le> b \<or> b + m \<le> a) \<and>
    (\<forall>avail nbytes. unat nbytes \<le> 2 ^ 31 - 16 \<longrightarrow> (\<exists>a g. malloc avail base nbytes h = Some (a, g) \<and> same_areas live h g \<and>
       (if a = 0 then \<not> can_grow avail (malloc_units nbytes) h else live a = None))) \<and>
    (\<forall>a n. live a = Some n \<longrightarrow> (\<exists>g. ufree a h = Some g \<and> same_areas (live(a := None)) h g))"
proof -
  obtain F A where A: "blocks A live" "fresh_heap base h \<and> A = {} \<or> heap_ok base h F A"
    using uheap_blocks [OF assms] by blast
  have h: "heap_ok base h F A" if "live a = Some n" for a n
    using A that unfolding blocks_def by blast
  have areas: "\<forall>a n. live a = Some n \<longrightarrow> base + 8 < a \<and> a + n \<le> brk h"
  proof (intro allI impI)
    fix a n
    assume "live a = Some n"
    then show "base + 8 < a \<and> a + n \<le> brk h"
      using blocks_areas [OF A(1) h] by (metis add_less_mono1 less_add_same_cancel1 order_le_less_trans zero_less_numeral)
  qed
  have apart: "\<forall>a n b m. live a = Some n \<and> live b = Some m \<and> a \<noteq> b \<longrightarrow> a + n \<le> b \<or> b + m \<le> a"
    using blocks_areas [OF A(1) h] by metis
  have "\<forall>a n. live a = Some n \<longrightarrow> (\<exists>g. ufree a h = Some g \<and> same_areas (live(a := None)) h g)"
  proof (intro allI impI)
    fix a n
    assume l: "live a = Some n"
    then obtain b k where "a = b + 8" "(b, k) \<in> A"
      using blocksD(1) [OF A(1)] by blast
    then show "\<exists>g. ufree a h = Some g \<and> same_areas (live(a := None)) h g"
      using ufree_ok [OF h [OF l]] same_areas_less [OF keeps_same_areas [OF A(1)]] by metis
  qed
  then show ?thesis
    using areas apart malloc_areas [OF A] by simp
qed

text \<open>A program that asks for twelve bytes.\<close>

definition small_heap :: heap where
  "small_heap = \<lparr>hdr = \<lambda>_. \<lparr>h_ptr = 0, h_size = 0\<rparr>, freep = 0, brk = 4096\<rparr>"

theorem malloc_free_safe_witness:
  "\<exists>a g. malloc (\<lambda>_. True) 1024 12 small_heap = Some (a, g) \<and> a \<noteq> 0 \<and> 1032 < a \<and> a + 12 \<le> brk g \<and> (\<exists>k. ufree a g = Some k)"
proof -
  have i: "uheap 1024 small_heap (\<lambda>_. None)"
    by (rule uheap_init) (simp_all add: small_heap_def)
  have c: "can_grow (\<lambda>_. True) (malloc_units 12) small_heap"
    by (simp add: can_grow_def malloc_units_def small_heap_def)
  have "\<exists>a g. malloc (\<lambda>_. True) 1024 12 small_heap = Some (a, g) \<and> a \<noteq> 0"
    using malloc_free_safe [OF i, THEN conjunct2, THEN conjunct2, THEN conjunct1, rule_format, of 12 "\<lambda>_. True"] c by (auto split: if_splits)
  then obtain a g where a: "malloc (\<lambda>_. True) 1024 12 small_heap = Some (a, g)" "a \<noteq> 0"
    by blast
  have u: "uheap 1024 g [a \<mapsto> 12]"
    using uheap_malloc [OF i _ a(1)] a(2) by simp
  have "1032 < a \<and> a + 12 \<le> brk g"
    using malloc_free_safe [OF u, THEN conjunct1, rule_format, of a 12] by simp
  moreover have "\<exists>k. ufree a g = Some k"
    using malloc_free_safe [OF u, THEN conjunct2, THEN conjunct2, THEN conjunct2, rule_format, of a 12] by auto
  ultimately show ?thesis
    using a by blast
qed

text \<open>
  The number of units is computed in 32 bits.  A request for nearly four gigabytes wraps around to one unit, and \<^verbatim>\<open>malloc\<close> returns an area without a single byte as if it had that size.
\<close>

lemma malloc_wraps: "malloc avail base 0xFFFFFFFD h = malloc avail base 0 h"
  by (simp add: malloc_def malloc_units_def)

end
