(* ===== verification/Spec2Isabelle.thy ===== *)
theory Spec2Isabelle
  imports Wakeup Trap Addrspace Proclist Mount Ide Grep Shrun Umalloc
begin

text \<open>
  A verification development for the operating system in \<^verbatim>\<open>src/\<close>: an xv6 kernel for 32-bit x86 machines with a process file system, and its user
  programs.

  \<^bold>\<open>Style of the model.\<close>  Each C function is a definition of the same name.  Kernel code is a function from a state to an outcome (theory \<open>Prelude\<close>): a
  value and a new state, a panic with its message, a context switch, an endless wait for a spin lock, a fault (a null pointer, an index
  outside of an array, memory nobody wrote, a page fault of the kernel) or divergence.  The state is one record, extended layer by layer: the processors and
  locks (\<open>Spinlock\<close>), physical memory (\<open>Kalloc\<close>), the process table (\<open>Sched\<close>), the buffer cache and the disk (\<open>Bio\<close>), the log (\<open>Log\<close>), the inode table
  (\<open>Inode\<close>), open files and pipes (\<open>File\<close>), ticks (\<open>Proc\<close>), the console (\<open>Console\<close>), the process file system (\<open>Procfs\<close>) and the interrupt controller (\<open>Trap\<close>).
  Operations of a layer are polymorphic in the layers above it.  Machine words keep their width; 32-bit counters and addresses wrap around.

  Code that calls \<^verbatim>\<open>sleep\<close> stops at the context switch with the outcome \<open>Switch\<close>; what it does when the scheduler returns to it is a definition
  of its own, with a name that ends in \<open>_resume\<close>.  Between these points the code of one processor runs without steps of the others, except in \<open>Spinlock\<close> and \<open>Wakeup\<close>, where the
  steps of the processors interleave; \<open>calm\<close> states that the processor holds no lock and no lock is taken.  A loop that has no bound of its own takes fuel, and running out of it is the outcome \<open>Diverge\<close>: \<open>2 ^ 20\<close>
  iterations pass through all pages of an address space and \<open>2 ^ 28\<close> through all offsets of directory entries, so that a loop which uses them up has wrapped
  around.  Null pointers are options where the code tests for them.  A transfer of bytes to or from a buffer of the caller is a list of bytes.

  What the code takes from outside of \<^verbatim>\<open>src/\<close> is an argument: the address \<^verbatim>\<open>data\<close> and the image of the first program come from the linker (\<open>kenv\<close>), and the devices
  behind the I/O ports are a record of functions (\<open>ports\<close>), of which the disk driver assumes the part of the ATA protocol that \<open>ata_disk\<close> states.  The driver waits for
  the disk for at most \<open>2 ^ 20\<close> reads of its status, which the protocol is assumed to keep.

  \<^bold>\<open>Parts and theories.\<close>
  \<^item> \<open>Prelude\<close>, \<open>Params\<close>: outcomes, little-endian encodings, splicing of lists; the constants of \<^verbatim>\<open>param.h\<close>, \<^verbatim>\<open>memlayout.h\<close> and \<^verbatim>\<open>fs.h\<close>.
  \<^item> \<open>Spinlock\<close> (\<^verbatim>\<open>spinlock.c\<close>): locks and interrupt nesting of several processors, as a step relation; mutual exclusion and absence of panics for
    every interleaving.
  \<^item> \<open>Kalloc\<close> (\<^verbatim>\<open>kalloc.c\<close>): the free list in memory refines a stack of pages; the locale \<open>page_pool\<close> is the contract its clients use.
  \<^item> \<open>Cstring\<close> (\<^verbatim>\<open>string.c\<close>, \<^verbatim>\<open>ulib.c\<close>): copying with overlap, filling, C strings, numbers and their round trip.
  \<^item> \<open>Sched\<close>, \<open>Proc\<close> (\<^verbatim>\<open>proc.c\<close>): slots, scheduler, sleep and wakeup, kill; \<^verbatim>\<open>fork\<close>, \<^verbatim>\<open>exit\<close>, \<^verbatim>\<open>wait\<close>.
  \<^item> \<open>Wakeup\<close> (\<^verbatim>\<open>proc.c\<close>): processes that wait for a condition and processes that establish it, on any number of processors under the scheduler; the actions of \<^verbatim>\<open>sleep\<close> and
    \<^verbatim>\<open>wakeup\<close> interleave in every order, and no wake-up is lost.
  \<^item> \<open>Blocks\<close>: the locales \<open>block_cache\<close> and \<open>journal\<close>, what the log relies on in the cache and the file system in the log.
  \<^item> \<open>Bio\<close>, \<open>Cache\<close> (\<^verbatim>\<open>bio.c\<close>, \<^verbatim>\<open>memide.c\<close>): the linked list of buffers and its meaning as a cache of the disk.
  \<^item> \<open>Irq\<close>, \<open>Ide\<close> (\<^verbatim>\<open>picirq.c\<close>, \<^verbatim>\<open>ioapic.c\<close>, \<^verbatim>\<open>timer.c\<close>, \<^verbatim>\<open>ide.c\<close>): port I/O, the interrupt controllers and the timer; the driver of an IDE disk serves its queue
    in order, with the outcome of the memory disk.
  \<^item> \<open>Log\<close> (\<^verbatim>\<open>log.c\<close>): commit and recovery; a crash at any disk write leaves all or nothing of a transaction.
  \<^item> \<open>Balloc\<close>, \<open>Inode\<close>, \<open>Filedata\<close>, \<open>Dir\<close> (\<^verbatim>\<open>fs.c\<close>): the free bitmap, inodes, file content, directories and paths.
  \<^item> \<open>Icache\<close> (\<^verbatim>\<open>fs.c\<close>): the inode table: what completed calls leave alone, reference counts and recycling of entries, and that \<^verbatim>\<open>ilock\<close> loads what \<^verbatim>\<open>iupdate\<close> wrote.
  \<^item> \<open>Fcontent\<close>, \<open>Dirent\<close> (\<^verbatim>\<open>fs.c\<close>): files as sequences of bytes and directories as maps from names to inode numbers; \<^verbatim>\<open>writei\<close>, \<^verbatim>\<open>readi\<close>,
    \<^verbatim>\<open>dirlink\<close> and \<^verbatim>\<open>dirlookup\<close> implement them, blocks are allocated as needed and those of others are left alone.
  \<^item> \<open>Mkfs\<close>, \<open>Mount\<close> (\<^verbatim>\<open>mkfs.c\<close>): the program that makes the disk image, and the kernel on this image: it mounts it, finds the files and reads their bytes.
  \<^item> \<open>Ring\<close>, \<open>File\<close> (\<^verbatim>\<open>file.c\<close>, \<^verbatim>\<open>pipe.c\<close>): ring buffers with wrapping counters (the locale \<open>ring\<close>); the file table and pipes as queues.
  \<^item> \<open>Vm\<close>, \<open>Paging\<close>, \<open>Addrspace\<close> (\<^verbatim>\<open>vm.c\<close>): page tables in memory, the maps they represent, and that \<^verbatim>\<open>copyuvm\<close> makes a copy of an address space.
  \<^item> \<open>Syscall\<close>, \<open>Sysfile\<close>, \<open>Exec\<close>, \<open>Trap\<close> (\<^verbatim>\<open>syscall.c\<close>, \<^verbatim>\<open>sysproc.c\<close>, \<^verbatim>\<open>sysfile.c\<close>, \<^verbatim>\<open>exec.c\<close>, \<^verbatim>\<open>trap.c\<close>): arguments, system calls, traps.
  \<^item> \<open>Console\<close> (\<^verbatim>\<open>console.c\<close>, \<^verbatim>\<open>kbd.c\<close>, \<^verbatim>\<open>uart.c\<close>): output of numbers and strings; what is typed, with its editing keys, arrives as lines (the locale \<open>char_source\<close>
    stands for the keyboard and the serial port).
  \<^item> \<open>Procfs\<close>, \<open>Proclist\<close> (\<^verbatim>\<open>procfs.c\<close>): the process file system as a device, and the content of its top directory.
  \<^item> \<open>Format\<close>, \<open>User\<close> (\<^verbatim>\<open>printf.c\<close>, \<^verbatim>\<open>cat.c\<close>, \<^verbatim>\<open>wc.c\<close>, \<^verbatim>\<open>echo.c\<close>, \<^verbatim>\<open>ls.c\<close>): user programs as functions from what the system calls return to what they write.
  \<^item> \<open>Grep\<close> (\<^verbatim>\<open>grep.c\<close>): the matcher decides the language of its patterns, and grep selects the lines with a match.
  \<^item> \<open>Sh\<close>, \<open>Shgrammar\<close>, \<open>Shrun\<close> (\<^verbatim>\<open>sh.c\<close>): the parser of the shell against a grammar, and running a command as processes that share channels.
  \<^item> \<open>Umalloc\<close> (\<^verbatim>\<open>umalloc.c\<close>): the circular free list; areas handed out do not overlap and stay in the memory of the process.

  \<^bold>\<open>How the parts interact.\<close>  System calls (\<open>Sysfile\<close>, \<open>Exec\<close>) work on open files and inodes; these read and write blocks through the log, which
  uses the cache, which calls the disk driver: the memory disk of \<open>Bio\<close>, which \<open>Ide\<close> relates to the driver of a real disk.  Each of these steps is an interface: \<open>block_cache\<close> is interpreted on the cache and used for the log, \<open>journal\<close>
  is interpreted on the log and used for bitmap, inodes and files, \<open>page_pool\<close> on the page allocator.  The lemmas above an interface rest on its laws only.

  \<^bold>\<open>Not modelled.\<close>  Boot code and the set-up of the processor (\<^verbatim>\<open>bootmain.c\<close>, \<^verbatim>\<open>main.c\<close>, \<^verbatim>\<open>lapic.c\<close>, \<^verbatim>\<open>mp.c\<close>, \<^verbatim>\<open>seginit\<close>, \<^verbatim>\<open>tvinit\<close>) program
  device registers and descriptor tables that the state does not have.  The test programs (\<^verbatim>\<open>usertests.c\<close>, \<^verbatim>\<open>forktest.c\<close>, \<^verbatim>\<open>stressfs.c\<close>, \<^verbatim>\<open>zombie.c\<close>) and \<^verbatim>\<open>init.c\<close>,
  \<^verbatim>\<open>lsof.c\<close> have no contract of their own.
\<close>

end
